(* ===== verification/Strfry_Prelude.thy ===== *)
theory Strfry_Prelude
  imports Complex_Main "HOL-Library.Word" "HOL-Library.Char_ord" "HOL-Library.List_Lexorder"
begin

text \<open>
  Shared vocabulary of the development: the machine types of the relay, the exceptions its
  functions throw, the error monad in which they are modelled, JSON values, the record of
  library functions that the sources only call, and generic lemmas on lists, strings and
  words that the component theories use.

  A \<^verbatim>\<open>std::string\<close> or \<^verbatim>\<open>std::string_view\<close> is an Isabelle \<^typ>\<open>string\<close>: a list of
  \<^typ>\<open>char\<close>, and a \<^typ>\<open>char\<close> is one byte.  The order on strings is the lexicographic
  order on unsigned bytes, a proper prefix being smaller, which is what
  \<^verbatim>\<open>std::string::operator<\<close> and \<^verbatim>\<open>memcmp\<close> on equal lengths compute.
\<close>

section \<open>Collections of rewrite rules\<close>

named_theorems packed_simps \<open>reading the fields of a packed event\<close>
named_theorems result_simps \<open>the error monad\<close>

section \<open>Machine types\<close>

type_synonym u8 = "8 word"
type_synonym u16 = "16 word"
type_synonym u32 = "32 word"
type_synonym u64 = "64 word"

abbreviation MAX_U64 :: u64 where
  "MAX_U64 \<equiv> - 1"

definition byte_of :: "char \<Rightarrow> u8" where
  "byte_of c = word_of_nat (of_char c)"

lemma unat_byte_of [simp]: "unat (byte_of c) = of_char c"
  by (simp add: byte_of_def unat_of_nat)

lemma byte_of_less_iff [simp]: "byte_of c < byte_of d \<longleftrightarrow> c < d"
  by (simp add: word_less_nat_alt less_char_def)

lemma byte_of_eq_iff [simp]: "byte_of c = byte_of d \<longleftrightarrow> c = d"
  by (metis of_char_eq_iff unat_byte_of)

section \<open>Exceptions and the error monad\<close>

text \<open>
  \<^verbatim>\<open>herr(...)\<close> and \<^verbatim>\<open>hoytech::error(...)\<close> carry the message the source writes.  The
  other constructors are the exceptions of the standard library and of
  \<^verbatim>\<open>tao::json\<close> that the sources can run into; \<open>UB\<close> marks a read outside a buffer,
  which the language leaves undefined.
\<close>

datatype exn =
    Herr string
  | BadVariant
  | OutOfRange
  | InvalidArgument
  | JsonParseError string
  | LibError string
  | UB

type_synonym 'a result = "exn + 'a"

definition bindE :: "'a result \<Rightarrow> ('a \<Rightarrow> 'b result) \<Rightarrow> 'b result" where
  "bindE m f = (case m of Inl e \<Rightarrow> Inl e | Inr x \<Rightarrow> f x)"

lemma bindE_Inl [simp, result_simps]: "bindE (Inl e) f = Inl e"
  by (simp add: bindE_def)

lemma bindE_Inr [simp, result_simps]: "bindE (Inr x) f = f x"
  by (simp add: bindE_def)

lemma bindE_eq_Inr [result_simps]: "bindE m f = Inr y \<longleftrightarrow> (\<exists>x. m = Inr x \<and> f x = Inr y)"
  by (cases m) auto

lemma bindE_eq_Inl [result_simps]:
  "bindE m f = Inl e \<longleftrightarrow> m = Inl e \<or> (\<exists>x. m = Inr x \<and> f x = Inl e)"
  by (cases m) auto

text \<open>\<open>throw_if c m\<close> is the statement \<^verbatim>\<open>if (c) throw herr(m);\<close>.\<close>

definition throw_if :: "bool \<Rightarrow> string \<Rightarrow> unit result" where
  "throw_if c m = (if c then Inl (Herr m) else Inr ())"

lemma throw_if_eq_Inr [simp, result_simps]: "throw_if c m = Inr u \<longleftrightarrow> \<not> c"
  by (simp add: throw_if_def)

lemma throw_if_eq_Inl [simp, result_simps]: "throw_if c m = Inl e \<longleftrightarrow> c \<and> e = Herr m"
  by (auto simp: throw_if_def)

text \<open>\<^verbatim>\<open>e.what()\<close>: the texts that the sources do not write themselves are an argument.\<close>

fun what :: "(exn \<Rightarrow> string) \<Rightarrow> exn \<Rightarrow> string" where
  "what w (Herr m) = m"
| "what w (JsonParseError m) = m"
| "what w (LibError m) = m"
| "what w e = w e"

text \<open>\<^verbatim>\<open>catch (const std::exception& e)\<close>: undefined behaviour is not caught.\<close>

definition catch_all :: "'a result \<Rightarrow> (exn \<Rightarrow> 'a) \<Rightarrow> 'a result" where
  "catch_all m h = (case m of Inl UB \<Rightarrow> Inl UB | Inl e \<Rightarrow> Inr (h e) | Inr x \<Rightarrow> Inr x)"

lemma catch_all_simps [simp]:
  "catch_all (Inr x) h = Inr x" "catch_all (Inl UB) h = Inl UB" "e \<noteq> UB \<Longrightarrow> catch_all (Inl e) h = Inr (h e)"
  by (simp_all add: catch_all_def split: exn.split)

text \<open>A loop that runs a throwing body on every element and collects the values.\<close>

fun mapE :: "('a \<Rightarrow> 'b result) \<Rightarrow> 'a list \<Rightarrow> 'b list result" where
  "mapE f [] = Inr []"
| "mapE f (x # xs) = bindE (f x) (\<lambda>y. bindE (mapE f xs) (\<lambda>ys. Inr (y # ys)))"

lemma mapE_eq_Inr: "mapE f xs = Inr ys \<longleftrightarrow> list_all2 (\<lambda>x y. f x = Inr y) xs ys"
proof (induction xs arbitrary: ys)
  case Nil
  then show ?case by auto
next
  case (Cons x xs)
  then show ?case
    by (cases ys) (auto simp: bindE_eq_Inr)
qed

lemma length_mapE: "mapE f xs = Inr ys \<Longrightarrow> length ys = length xs"
  by (auto simp: mapE_eq_Inr dest: list_all2_lengthD)

lemma set_mapE: "mapE f xs = Inr ys \<Longrightarrow> set ys = {y. \<exists>x\<in>set xs. f x = Inr y}"
proof (induction xs arbitrary: ys)
  case Nil
  then show ?case by simp
next
  case (Cons x xs)
  from Cons.prems obtain y zs where "f x = Inr y" "mapE f xs = Inr zs" "ys = y # zs"
    by (auto simp: bindE_eq_Inr)
  with Cons.IH show ?case by fastforce
qed

lemma bindE_assoc: "bindE (bindE m f) g = bindE m (\<lambda>x. bindE (f x) g)"
  by (cases m) simp_all

text \<open>A loop that threads a state through a throwing body.\<close>

fun foldE :: "('a \<Rightarrow> 's \<Rightarrow> 's result) \<Rightarrow> 'a list \<Rightarrow> 's \<Rightarrow> 's result" where
  "foldE f [] s = Inr s"
| "foldE f (x # xs) s = bindE (f x s) (foldE f xs)"

lemma foldE_append: "foldE f (xs @ ys) s = bindE (foldE f xs s) (foldE f ys)"
  by (induction xs arbitrary: s) (auto simp: bindE_def split: sum.split)

text \<open>
  A loop over a list whose body updates a state and says whether to go on: the callbacks
  handed to \<^verbatim>\<open>foreachTag\<close> and to the cursors of the database return false to stop.
\<close>

fun fold_until :: "('s \<Rightarrow> 'a \<Rightarrow> 's \<times> bool) \<Rightarrow> 'a list \<Rightarrow> 's \<Rightarrow> 's" where
  "fold_until f [] s = s"
| "fold_until f (x # xs) s = (case f s x of (s', go) \<Rightarrow> if go then fold_until f xs s' else s')"

lemma fold_until_always: "(\<And>s x. snd (f s x)) \<Longrightarrow> fold_until f xs s = foldl (\<lambda>s x. fst (f s x)) s xs"
  by (induction xs arbitrary: s) (auto simp: split_beta)

lemma fold_until_invariant:
  assumes "P s" and "\<And>s x. P s \<Longrightarrow> x \<in> set xs \<Longrightarrow> P (fst (f s x))"
  shows "P (fold_until f xs s)"
  using assms by (induction xs arbitrary: s) (auto simp: split_beta)

section \<open>JSON values\<close>

text \<open>
  \<^verbatim>\<open>tao::json::value\<close>: integers are stored signed or unsigned, and an object is a
  \<^verbatim>\<open>std::map\<close>, so its entries are listed in the order of their keys, each key once.
\<close>

datatype json =
    JNull
  | JBool bool
  | JSigned int
  | JUnsigned u64
  | JDouble real
  | JString string
  | JArray "json list"
  | JObject "(string \<times> json) list"

fun is_string :: "json \<Rightarrow> bool" where
  "is_string (JString _) = True"
| "is_string _ = False"

fun is_array :: "json \<Rightarrow> bool" where
  "is_array (JArray _) = True"
| "is_array _ = False"

fun is_object :: "json \<Rightarrow> bool" where
  "is_object (JObject _) = True"
| "is_object _ = False"

fun is_null :: "json \<Rightarrow> bool" where
  "is_null JNull = True"
| "is_null _ = False"

fun is_number :: "json \<Rightarrow> bool" where
  "is_number (JSigned _) = True"
| "is_number (JUnsigned _) = True"
| "is_number (JDouble _) = True"
| "is_number _ = False"

text \<open>\<^verbatim>\<open>get_string()\<close> and its kin throw when the value holds another variant.\<close>

fun get_string :: "json \<Rightarrow> string result" where
  "get_string (JString s) = Inr s"
| "get_string _ = Inl BadVariant"

fun get_unsigned :: "json \<Rightarrow> u64 result" where
  "get_unsigned (JUnsigned n) = Inr n"
| "get_unsigned _ = Inl BadVariant"

fun get_array :: "json \<Rightarrow> json list result" where
  "get_array (JArray xs) = Inr xs"
| "get_array _ = Inl BadVariant"

fun get_object :: "json \<Rightarrow> (string \<times> json) list result" where
  "get_object (JObject kvs) = Inr kvs"
| "get_object _ = Inl BadVariant"

text \<open>\<^verbatim>\<open>v.at(key)\<close> throws on a missing key, \<^verbatim>\<open>v.find(key)\<close> returns a null pointer.\<close>

definition json_at :: "json \<Rightarrow> string \<Rightarrow> json result" where
  "json_at v k = bindE (get_object v)
     (\<lambda>kvs. case map_of kvs k of None \<Rightarrow> Inl OutOfRange | Some x \<Rightarrow> Inr x)"

definition json_find :: "json \<Rightarrow> string \<Rightarrow> json option result" where
  "json_find v k = bindE (get_object v) (\<lambda>kvs. Inr (map_of kvs k))"

definition json_index :: "json \<Rightarrow> nat \<Rightarrow> json result" where
  "json_index v n = bindE (get_array v)
     (\<lambda>xs. if n < length xs then Inr (xs ! n) else Inl OutOfRange)"

section \<open>Library functions\<close>

text \<open>
  Functions of libraries outside the repository, which the model takes as an argument:
  the byte image of a 64-bit integer (\<^verbatim>\<open>lmdb::to_sv<uint64_t>\<close> and its inverse),
  hexadecimal conversion (\<^verbatim>\<open>hoytech::from_hex\<close>, whose second argument, true by default, allows a
  \<^verbatim>\<open>0x\<close> prefix), the JSON parser and printer, the SHA-256 digest and the secp256k1 calls.
\<close>

record lib =
  to_sv :: "u64 \<Rightarrow> string"
  from_sv :: "string \<Rightarrow> u64"
  from_hex :: "string \<Rightarrow> bool \<Rightarrow> string result"
  to_hex :: "string \<Rightarrow> string"
  json_from_string :: "string \<Rightarrow> json result"
  json_to_string :: "json \<Rightarrow> string"
  sha256 :: "string \<Rightarrow> string"
  xonly_pubkey_parse :: "string \<Rightarrow> string option"
  schnorrsig_verify :: "string \<Rightarrow> string \<Rightarrow> string \<Rightarrow> bool"

text \<open>What the sources rely on of the byte image: eight bytes, read back unchanged.\<close>

locale sv_codec =
  fixes L :: lib
  assumes length_to_sv [simp]: "length (to_sv L n) = 8"
    and from_to_sv [simp]: "from_sv L (to_sv L n) = n"
begin

lemma inj_to_sv: "to_sv L m = to_sv L n \<Longrightarrow> m = n"
  by (metis from_to_sv)

end

section \<open>Strings as the standard library reads them\<close>

text \<open>\<^verbatim>\<open>s.substr(pos, n)\<close> for \<^verbatim>\<open>pos <= s.size()\<close>; the callers below check the range.\<close>

definition substr :: "string \<Rightarrow> nat \<Rightarrow> nat \<Rightarrow> string" where
  "substr s pos n = take n (drop pos s)"

lemma substr_append_left [simp, packed_simps]:
  "pos + n \<le> length s \<Longrightarrow> substr (s @ t) pos n = substr s pos n"
  by (simp add: substr_def)

lemma substr_append_right [packed_simps]:
  "length s \<le> pos \<Longrightarrow> substr (s @ t) pos n = substr t (pos - length s) n"
  by (simp add: substr_def)

lemma substr_whole [simp, packed_simps]: "n = length s \<Longrightarrow> substr s 0 n = s"
  by (simp add: substr_def)

lemma length_substr: "length (substr s pos n) = min n (length s - pos)"
  by (simp add: substr_def min.commute)

definition starts_with :: "string \<Rightarrow> string \<Rightarrow> bool" where
  "starts_with s p \<longleftrightarrow> take (length p) s = p"

definition ends_with :: "string \<Rightarrow> string \<Rightarrow> bool" where
  "ends_with s p \<longleftrightarrow> length p \<le> length s \<and> drop (length s - length p) s = p"

text \<open>\<^verbatim>\<open>s.find(p)\<close>: the least position at which \<open>p\<close> occurs, \<open>None\<close> for \<^verbatim>\<open>npos\<close>.\<close>

fun find_from :: "string \<Rightarrow> string \<Rightarrow> nat \<Rightarrow> nat option" where
  "find_from p [] i = (if p = [] then Some i else None)"
| "find_from p (c # s) i = (if starts_with (c # s) p then Some i else find_from p s (Suc i))"

definition str_find :: "string \<Rightarrow> string \<Rightarrow> nat option" where
  "str_find s p = find_from p s 0"

definition contains_str :: "string \<Rightarrow> string \<Rightarrow> bool" where
  "contains_str s p \<longleftrightarrow> str_find s p \<noteq> None"

lemma find_from_Some:
  "find_from p s i = Some j \<Longrightarrow> i \<le> j \<and> j \<le> i + length s \<and> starts_with (drop (j - i) s) p"
proof (induction p s i rule: find_from.induct)
  case (1 p i)
  then show ?case by (auto simp: starts_with_def split: if_splits)
next
  case (2 p c s i)
  show ?case
  proof (cases "starts_with (c # s) p")
    case True
    with "2.prems" show ?thesis by simp
  next
    case False
    with "2.prems" have "find_from p s (Suc i) = Some j" by simp
    from "2.IH" [OF False this] show ?thesis
      by (auto simp: Suc_diff_le dest: Suc_leD) (metis Suc_diff_Suc Suc_le_lessD drop_Suc_Cons)
  qed
qed

lemma str_find_Some:
  "str_find s p = Some j \<Longrightarrow> j \<le> length s \<and> starts_with (drop j s) p"
  using find_from_Some [of p s 0 j] by (simp add: str_find_def)

text \<open>\<^verbatim>\<open>std::getline(ss, x, ',')\<close> until it fails: no piece after a comma at the very end.\<close>

function getlines :: "string \<Rightarrow> string list" where
  "getlines s =
     (if s = [] then []
      else takeWhile (\<lambda>c. c \<noteq> CHR '','') s # getlines (drop 1 (dropWhile (\<lambda>c. c \<noteq> CHR '','') s)))"
  by auto
termination
proof (relation "measure length")
  fix s :: string
  assume "s \<noteq> []"
  then show "(drop 1 (dropWhile (\<lambda>c. c \<noteq> CHR '','') s), s) \<in> measure length"
    using length_dropWhile_le [of "\<lambda>c. c \<noteq> CHR '',''" s] by (cases s) (auto simp: le_imp_less_Suc diff_le_mono)
qed simp

declare getlines.simps [simp del]

section \<open>Sorted lists without duplicates\<close>

lemma sorted_remdups_adj_strict: "sorted xs \<Longrightarrow> sorted_wrt (<) (remdups_adj xs)"
  by (induction xs rule: remdups_adj.induct) (auto simp: order.strict_iff_order)

lemma strict_sorted_nth_less:
  "sorted_wrt (<) xs \<Longrightarrow> i < j \<Longrightarrow> j < length xs \<Longrightarrow> xs ! i < (xs ! j :: 'a::linorder)"
  by (simp add: sorted_wrt_nth_less)

section \<open>Binary search\<close>

text \<open>
  The loop of \<^verbatim>\<open>std::upper_bound\<close> and \<^verbatim>\<open>std::lower_bound\<close>, which
  \<^verbatim>\<open>FilterSetBytes::doesMatch\<close> writes out: halve the range \<open>[first, first + count)\<close>
  until it is empty, going left where \<open>goes_left\<close> holds and right where it does not.
\<close>

function bisect :: "(nat \<Rightarrow> bool) \<Rightarrow> nat \<Rightarrow> nat \<Rightarrow> nat" where
  "bisect goes_left first count =
     (if 0 < count
      then let step = count div 2; curr = first + step
           in if \<not> goes_left curr then bisect goes_left (Suc curr) (count - (step + 1))
              else bisect goes_left first step
      else first)"
  by pat_completeness auto
termination
  by (relation "measure (\<lambda>(goes_left, first, count). count)") auto

declare bisect.simps [simp del]

lemma bisect_partition:
  assumes "\<And>i j. first \<le> i \<Longrightarrow> i \<le> j \<Longrightarrow> j < first + count \<Longrightarrow> goes_left i \<Longrightarrow> goes_left j"
  shows "first \<le> bisect goes_left first count \<and> bisect goes_left first count \<le> first + count \<and>
    (\<forall>i. first \<le> i \<and> i < bisect goes_left first count \<longrightarrow> \<not> goes_left i) \<and>
    (\<forall>i. bisect goes_left first count \<le> i \<and> i < first + count \<longrightarrow> goes_left i)"
  using assms
proof (induction goes_left first count rule: bisect.induct)
  case (1 goes_left first count)
  let ?step = "count div 2"
  let ?curr = "first + ?step"
  show ?case
  proof (cases "0 < count")
    case False
    then have "bisect goes_left first count = first"
      by (subst bisect.simps) simp
    with False show ?thesis by auto
  next
    case pos: True
    show ?thesis
    proof (cases "goes_left ?curr")
      case False
      have IH: "Suc ?curr \<le> bisect goes_left (Suc ?curr) (count - (?step + 1)) \<and>
          bisect goes_left (Suc ?curr) (count - (?step + 1)) \<le> Suc ?curr + (count - (?step + 1)) \<and>
          (\<forall>i. Suc ?curr \<le> i \<and> i < bisect goes_left (Suc ?curr) (count - (?step + 1)) \<longrightarrow> \<not> goes_left i) \<and>
          (\<forall>i. bisect goes_left (Suc ?curr) (count - (?step + 1)) \<le> i \<and>
             i < Suc ?curr + (count - (?step + 1)) \<longrightarrow> goes_left i)"
      proof (rule "1.IH"(1) [OF pos refl refl False])
        show "goes_left j"
          if "Suc ?curr \<le> i" "i \<le> j" "j < Suc ?curr + (count - (?step + 1))" "goes_left i" for i j
          using "1.prems" [of i j] that by simp
      qed
      have left: "\<not> goes_left i" if "first \<le> i" "i \<le> ?curr" for i
        using "1.prems" [of i ?curr] that False pos by auto
      have eq: "bisect goes_left first count = bisect goes_left (Suc ?curr) (count - (?step + 1))"
        using pos False by (simp add: bisect.simps [of goes_left first count] Let_def)
      have sum: "Suc ?curr + (count - (?step + 1)) = first + count"
        using pos by linarith
      show ?thesis
        unfolding eq
      proof (intro conjI allI impI)
        fix i
        assume "first \<le> i \<and> i < bisect goes_left (Suc ?curr) (count - (?step + 1))"
        then show "\<not> goes_left i"
          using left [of i] IH by (cases "i \<le> ?curr") auto
      next
        fix i
        assume "bisect goes_left (Suc ?curr) (count - (?step + 1)) \<le> i \<and> i < first + count"
        then show "goes_left i"
          using IH unfolding sum by blast
      qed (use IH sum in linarith)+
    next
      case True
      have IH: "first \<le> bisect goes_left first ?step \<and> bisect goes_left first ?step \<le> first + ?step \<and>
          (\<forall>i. first \<le> i \<and> i < bisect goes_left first ?step \<longrightarrow> \<not> goes_left i) \<and>
          (\<forall>i. bisect goes_left first ?step \<le> i \<and> i < first + ?step \<longrightarrow> goes_left i)"
      proof (rule "1.IH"(2) [OF pos refl refl])
        show "\<not> \<not> goes_left ?curr" using True by simp
        show "goes_left j" if "first \<le> i" "i \<le> j" "j < first + ?step" "goes_left i" for i j
          using "1.prems" [of i j] that by simp
      qed
      have right: "goes_left i" if "?curr \<le> i" "i < first + count" for i
        using "1.prems" [of ?curr i] that True by auto
      have eq: "bisect goes_left first count = bisect goes_left first ?step"
        using pos True by (simp add: bisect.simps [of goes_left first count] Let_def)
      show ?thesis
        unfolding eq
      proof (intro conjI allI impI)
        fix i
        assume "first \<le> i \<and> i < bisect goes_left first ?step"
        then show "\<not> goes_left i" using IH by blast
      next
        fix i
        assume "bisect goes_left first ?step \<le> i \<and> i < first + count"
        then show "goes_left i"
          using right [of i] IH by (cases "?curr \<le> i") auto
      qed (use IH in linarith)+
    qed
  qed
qed

text \<open>
  In a strictly ascending list the element just before the first greater one is the only
  candidate for equality, and so is the first one that is not smaller.
\<close>

lemma bisect_upper_bound:
  fixes xs :: "'a::linorder list"
  assumes "sorted_wrt (<) xs" and "\<And>i. i < length xs \<Longrightarrow> goes_left i \<longleftrightarrow> c < xs ! i"
  shows "(let r = bisect goes_left 0 (length xs) in r \<noteq> 0 \<and> xs ! (r - 1) = c) \<longleftrightarrow> c \<in> set xs"
proof -
  let ?r = "bisect goes_left 0 (length xs)"
  have mono: "goes_left j" if "i \<le> j" "j < length xs" "goes_left i" for i j
    using that assms strict_sorted_nth_less [OF assms(1), of i j]
    by (cases "i = j") (auto simp: order.strict_trans)
  have part: "0 \<le> ?r \<and> ?r \<le> 0 + length xs \<and> (\<forall>i. 0 \<le> i \<and> i < ?r \<longrightarrow> \<not> goes_left i) \<and>
      (\<forall>i. ?r \<le> i \<and> i < 0 + length xs \<longrightarrow> goes_left i)"
    by (rule bisect_partition) (use mono in simp)
  have r: "?r \<le> length xs" "\<And>i. i < ?r \<Longrightarrow> \<not> goes_left i"
      "\<And>i. ?r \<le> i \<Longrightarrow> i < length xs \<Longrightarrow> goes_left i"
    using part by simp_all
  show ?thesis
  proof
    assume "let r = ?r in r \<noteq> 0 \<and> xs ! (r - 1) = c"
    then have "?r - 1 < length xs" "xs ! (?r - 1) = c"
      using r(1) by (auto simp: Let_def)
    then show "c \<in> set xs"
      using nth_mem by blast
  next
    assume "c \<in> set xs"
    then obtain k where k: "k < length xs" "xs ! k = c"
      by (auto simp: in_set_conv_nth)
    then have "k < ?r" using r(3) [of k] assms(2) [of k] by (meson less_irrefl not_le)
    moreover have "?r \<le> Suc k"
    proof (rule ccontr)
      assume "\<not> ?r \<le> Suc k"
      with r(1) have "Suc k < ?r" "Suc k < length xs" by auto
      with r(2) [of "Suc k"] assms(2) [of "Suc k"] k
        strict_sorted_nth_less [OF assms(1), of k "Suc k"] show False by auto
    qed
    ultimately have "?r = Suc k" by simp
    with k show "let r = ?r in r \<noteq> 0 \<and> xs ! (r - 1) = c" by (simp add: Let_def)
  qed
qed

lemma bisect_lower_bound:
  fixes xs :: "'a::linorder list"
  assumes "sorted_wrt (<) xs"
  shows "(let r = bisect (\<lambda>i. \<not> xs ! i < c) 0 (length xs) in r \<noteq> length xs \<and> \<not> c < xs ! r) \<longleftrightarrow> c \<in> set xs"
proof -
  define p where "p = (\<lambda>i. \<not> xs ! i < c)"
  let ?r = "bisect p 0 (length xs)"
  have mono: "p j" if "i \<le> j" "j < length xs" "p i" for i j
    using that strict_sorted_nth_less [OF assms, of i j] by (cases "i = j") (auto simp: p_def)
  have part: "0 \<le> ?r \<and> ?r \<le> 0 + length xs \<and> (\<forall>i. 0 \<le> i \<and> i < ?r \<longrightarrow> \<not> p i) \<and>
      (\<forall>i. ?r \<le> i \<and> i < 0 + length xs \<longrightarrow> p i)"
    by (rule bisect_partition) (use mono in simp)
  have r: "?r \<le> length xs" "\<And>i. i < ?r \<Longrightarrow> xs ! i < c"
      "\<And>i. ?r \<le> i \<Longrightarrow> i < length xs \<Longrightarrow> c \<le> xs ! i"
  proof -
    show "?r \<le> length xs" using part by simp
    show "xs ! i < c" if "i < ?r" for i
    proof -
      have "\<not> p i" using part that by blast
      then show ?thesis by (simp add: p_def)
    qed
    show "c \<le> xs ! i" if "?r \<le> i" "i < length xs" for i
    proof -
      have "p i" using part that by simp
      then show ?thesis by (simp add: p_def)
    qed
  qed
  show ?thesis
    unfolding p_def [symmetric]
  proof
    assume "let r = ?r in r \<noteq> length xs \<and> \<not> c < xs ! r"
    then have "?r < length xs" "xs ! ?r \<le> c"
      using r(1) by (auto simp: Let_def)
    then have "?r < length xs" "xs ! ?r = c"
      using r(3) [of ?r] by auto
    then show "c \<in> set xs"
      using nth_mem by blast
  next
    assume "c \<in> set xs"
    then obtain k where k: "k < length xs" "xs ! k = c"
      by (auto simp: in_set_conv_nth)
    then have "?r \<le> k" using r(2) [of k] by (meson less_irrefl not_le)
    moreover have "k \<le> ?r"
    proof (rule ccontr)
      assume "\<not> k \<le> ?r"
      with k have "?r < k" "?r < length xs" by auto
      with r(3) [of ?r] k strict_sorted_nth_less [OF assms, of ?r k] show False by auto
    qed
    ultimately show "let r = ?r in r \<noteq> length xs \<and> \<not> c < xs ! r"
      using k by (simp add: Let_def)
  qed
qed

section \<open>Ordered maps\<close>

text \<open>
  A \<^verbatim>\<open>std::map\<close> as the list of its entries in the order of their keys.  \<open>smap_update k d f m\<close>
  is \<^verbatim>\<open>f(m[k])\<close>, where \<^verbatim>\<open>m[k]\<close> first inserts the default \<open>d\<close> for a missing key.
\<close>

fun smap_update :: "'k::linorder \<Rightarrow> 'v \<Rightarrow> ('v \<Rightarrow> 'v) \<Rightarrow> ('k \<times> 'v) list \<Rightarrow> ('k \<times> 'v) list" where
  "smap_update k d f [] = [(k, f d)]"
| "smap_update k d f ((j, v) # m) =
     (if k < j then (k, f d) # (j, v) # m
      else if k = j then (j, f v) # m
      else (j, v) # smap_update k d f m)"

lemma set_smap_update: "fst ` set (smap_update k d f m) = insert k (fst ` set m)"
  by (induction k d f m rule: smap_update.induct) auto

lemma sorted_smap_update:
  "sorted_wrt (<) (map fst m) \<Longrightarrow> sorted_wrt (<) (map fst (smap_update k d f m))"
proof (induction k d f m rule: smap_update.induct)
  case (2 k d f j v m)
  have keys: "set (map fst (smap_update k d f m)) = insert k (set (map fst m))"
    using set_smap_update [of k d f m] by simp
  consider "k < j" | "k = j" | "j < k" by fastforce
  then show ?case
  proof cases
    case 3
    with 2(1,2) keys show ?thesis by (simp add: order.strict_iff_not)
  qed (use 2(2) in \<open>auto intro: less_trans\<close>)
qed simp

lemma map_of_smap_update:
  "sorted_wrt (<) (map fst m) \<Longrightarrow>
   map_of (smap_update k d f m) = (map_of m)(k \<mapsto> f (case map_of m k of None \<Rightarrow> d | Some v \<Rightarrow> v))"
proof (induction k d f m rule: smap_update.induct)
  case (1 k d f)
  then show ?case by simp
next
  case (2 k d f j v m)
  have "map_of m k = None" if "k < j"
    using 2(2) that by (force simp: map_of_eq_None_iff)
  then show ?case
    using 2 by (auto simp: fun_eq_iff split: option.splits)
qed

section \<open>Decimal numerals\<close>

fun show_nat :: "nat \<Rightarrow> string" where
  "show_nat n = (if n < 10 then [char_of (48 + n)] else show_nat (n div 10) @ [char_of (48 + n mod 10)])"

declare show_nat.simps [simp del]

definition show_int :: "int \<Rightarrow> string" where
  "show_int i = (if i < 0 then ''-'' @ show_nat (nat (- i)) else show_nat (nat i))"

text \<open>\<^verbatim>\<open>std::to_string\<close> and \<^verbatim>\<open>operator<<\<close> on a \<^verbatim>\<open>uint64_t\<close>.\<close>

definition show_u64 :: "u64 \<Rightarrow> string" where
  "show_u64 n = show_nat (unat n)"

definition is_digit :: "char \<Rightarrow> bool" where
  "is_digit c \<longleftrightarrow> CHR ''0'' \<le> c \<and> c \<le> CHR ''9''"

definition digit_value :: "char \<Rightarrow> nat" where
  "digit_value c = of_char c - 48"

definition read_nat :: "string \<Rightarrow> nat" where
  "read_nat s = foldl (\<lambda>a c. 10 * a + digit_value c) 0 s"

lemma digit_char [simp]: "n < (10 :: nat) \<Longrightarrow> is_digit (char_of (48 + n))"
  by (simp add: is_digit_def less_eq_char_def)

lemma digit_value_char [simp]: "n < 10 \<Longrightarrow> digit_value (char_of (48 + n)) = n"
  by (simp add: digit_value_def)

lemma show_nat_digits: "show_nat n \<noteq> [] \<and> (\<forall>c\<in>set (show_nat n). is_digit c)"
  by (induction n rule: show_nat.induct) (subst (1 2) show_nat.simps, auto)

lemma read_show_nat [simp]: "read_nat (show_nat n) = n"
proof (induction n rule: show_nat.induct)
  case (1 n)
  then show ?case
    by (subst show_nat.simps) (auto simp: read_nat_def)
qed

end
