(* ===== verification/Packed_Event.thy ===== *)
theory Packed_Event
  imports Strfry_Prelude
begin

text \<open>
  The packed summary of a nostr event (\<^verbatim>\<open>src/src/PackedEvent.h\<close>) and fixed 32-byte
  strings (\<^verbatim>\<open>src/src/Bytes32.h\<close>): the builders, the view with its field readers and
  \<^verbatim>\<open>foreachTag\<close>, the round trip between them, and an instance of the byte image of
  integers, the little-endian one.
\<close>

section \<open>Bytes32\<close>

definition Bytes32 :: "string \<Rightarrow> string result" where
  "Bytes32 s = (if length s \<noteq> 32 then Inl (Herr ''invalid length for Bytes32'') else Inr s)"

text \<open>\<^verbatim>\<open>memcmp\<close> over \<open>n\<close> bytes: the sign of the first difference.\<close>

fun memcmp :: "string \<Rightarrow> string \<Rightarrow> nat \<Rightarrow> int" where
  "memcmp a b 0 = 0"
| "memcmp (x # a) (y # b) (Suc n) =
     (if byte_of x = byte_of y then memcmp a b n else if byte_of x < byte_of y then - 1 else 1)"
| "memcmp _ _ (Suc n) = 0"

definition Bytes32_spaceship :: "string \<Rightarrow> string \<Rightarrow> int" where
  "Bytes32_spaceship a b = memcmp a b 32"

definition Bytes32_eq :: "string \<Rightarrow> string \<Rightarrow> bool" where
  "Bytes32_eq a b \<longleftrightarrow> memcmp a b 32 = 0"

lemma memcmp_eq_0_iff:
  "length a = n \<Longrightarrow> length b = n \<Longrightarrow> memcmp a b n = 0 \<longleftrightarrow> a = b"
  by (induction a b n rule: memcmp.induct) auto

lemma memcmp_less_iff:
  "length a = n \<Longrightarrow> length b = n \<Longrightarrow> memcmp a b n < 0 \<longleftrightarrow> a < b"
  by (induction a b n rule: memcmp.induct) auto

lemma Bytes32_eq_iff:
  "Bytes32 s = Inr a \<Longrightarrow> Bytes32 t = Inr b \<Longrightarrow> Bytes32_eq a b \<longleftrightarrow> a = b"
  by (auto simp: Bytes32_def Bytes32_eq_def memcmp_eq_0_iff split: if_splits)

section \<open>The view\<close>

definition PackedEventView :: "string \<Rightarrow> string result" where
  "PackedEventView buf =
     (if length buf < 88 then Inl (Herr ''PackedEventView too short'') else Inr buf)"

definition packed_id :: "string \<Rightarrow> string" where
  "packed_id buf = substr buf 0 32"

definition packed_pubkey :: "string \<Rightarrow> string" where
  "packed_pubkey buf = substr buf 32 32"

definition packed_created_at :: "lib \<Rightarrow> string \<Rightarrow> u64" where
  "packed_created_at L buf = from_sv L (substr buf 64 8)"

definition packed_kind :: "lib \<Rightarrow> string \<Rightarrow> u64" where
  "packed_kind L buf = from_sv L (substr buf 72 8)"

definition packed_expiration :: "lib \<Rightarrow> string \<Rightarrow> u64" where
  "packed_expiration L buf = from_sv L (substr buf 80 8)"

text \<open>
  The loop of \<^verbatim>\<open>foreachTag\<close>.  A buffer that ends after a tag name makes the read of the
  length undefined; a length that runs past the end hands the callback the truncated value
  and then throws in \<^verbatim>\<open>substr\<close>.
\<close>

function foreachTagFrom :: "('s \<Rightarrow> char \<Rightarrow> string \<Rightarrow> 's \<times> bool) \<Rightarrow> string \<Rightarrow> 's \<Rightarrow> 's result" where
  "foreachTagFrom cb [] s = Inr s"
| "foreachTagFrom cb [c] s = Inl UB"
| "foreachTagFrom cb (c # l # b) s =
     (let tagLen = of_char l :: nat
      in case cb s c (take tagLen b) of (s', go) \<Rightarrow>
           if \<not> go then Inr s'
           else if length b < tagLen then Inl OutOfRange
           else foreachTagFrom cb (drop tagLen b) s')"
  by pat_completeness auto
termination
  by (relation "measure (\<lambda>(cb, b, s). length b)") auto

definition foreachTag :: "string \<Rightarrow> ('s \<Rightarrow> char \<Rightarrow> string \<Rightarrow> 's \<times> bool) \<Rightarrow> 's \<Rightarrow> 's result" where
  "foreachTag buf cb s = foreachTagFrom cb (drop 88 buf) s"

section \<open>The builders\<close>

definition tagBuilder_add :: "string \<Rightarrow> char \<Rightarrow> string \<Rightarrow> string result" where
  "tagBuilder_add buf tagKey tagVal =
     (if length tagVal > 255 then Inl (Herr ''tagVal too long'')
      else Inr (buf @ [tagKey] @ [char_of (length tagVal)] @ tagVal))"

definition PackedEventBuilder ::
    "lib \<Rightarrow> string \<Rightarrow> string \<Rightarrow> u64 \<Rightarrow> u64 \<Rightarrow> u64 \<Rightarrow> string \<Rightarrow> string result" where
  "PackedEventBuilder L evid pubkey created_at kind expiration tagBuf =
     (if length evid \<noteq> 32 then Inl (Herr ''unexpected id size'')
      else if length pubkey \<noteq> 32 then Inl (Herr ''unexpected pubkey size'')
      else Inr (evid @ pubkey @ to_sv L created_at @ to_sv L kind @ to_sv L expiration @ tagBuf))"

section \<open>What a builder wrote, the view reads\<close>

text \<open>The bytes of a list of tags, and the tags a buffer holds when it is well formed.\<close>

definition encode_tag :: "char \<times> string \<Rightarrow> string" where
  "encode_tag t = fst t # char_of (length (snd t)) # snd t"

definition encode_tags :: "(char \<times> string) list \<Rightarrow> string" where
  "encode_tags ts = concat (map encode_tag ts)"

lemma encode_tags_simps [simp, packed_simps]:
  "encode_tags [] = []"
  "encode_tags (t # ts) = encode_tag t @ encode_tags ts"
  "encode_tags (ts @ us) = encode_tags ts @ encode_tags us"
  by (simp_all add: encode_tags_def)

definition small_tags :: "(char \<times> string) list \<Rightarrow> bool" where
  "small_tags ts \<longleftrightarrow> (\<forall>t\<in>set ts. length (snd t) \<le> 255)"

lemma small_tags_simps [simp]:
  "small_tags []"
  "small_tags (t # ts) \<longleftrightarrow> length (snd t) \<le> 255 \<and> small_tags ts"
  "small_tags (ts @ us) \<longleftrightarrow> small_tags ts \<and> small_tags us"
  by (auto simp: small_tags_def)

lemma tagBuilder_add_encode:
  "tagBuilder_add (encode_tags ts) c v = Inr b \<longleftrightarrow>
     length v \<le> 255 \<and> b = encode_tags (ts @ [(c, v)])"
  by (auto simp: tagBuilder_add_def encode_tag_def)

lemma foreachTagFrom_encode_tags:
  "small_tags ts \<Longrightarrow>
   foreachTagFrom cb (encode_tags ts) s = Inr (fold_until (\<lambda>s t. cb s (fst t) (snd t)) ts s)"
proof (induction ts arbitrary: s)
  case Nil
  then show ?case by simp
next
  case (Cons t ts)
  have len: "of_char (char_of (length (snd t)) :: char) = length (snd t)"
    using Cons.prems by simp
  show ?case
    using Cons by (simp add: encode_tag_def len Let_def split_beta)
qed

text \<open>A packed event with its parts: the shape every stored event has.\<close>

definition pack ::
    "lib \<Rightarrow> string \<Rightarrow> string \<Rightarrow> u64 \<Rightarrow> u64 \<Rightarrow> u64 \<Rightarrow> (char \<times> string) list \<Rightarrow> string" where
  "pack L evid pubkey created_at kind expiration ts =
     evid @ pubkey @ to_sv L created_at @ to_sv L kind @ to_sv L expiration @ encode_tags ts"

lemma PackedEventBuilder_pack:
  "PackedEventBuilder L evid pubkey ca k ex (encode_tags ts) = Inr b \<longleftrightarrow>
     length evid = 32 \<and> length pubkey = 32 \<and> b = pack L evid pubkey ca k ex ts"
  by (auto simp: PackedEventBuilder_def pack_def)

text \<open>The abstract event a packed buffer stands for.\<close>

record event =
  ev_id :: string
  ev_pubkey :: string
  ev_created_at :: u64
  ev_kind :: u64
  ev_expiration :: u64
  ev_tags :: "(char \<times> string) list"

definition wf_event :: "event \<Rightarrow> bool" where
  "wf_event e \<longleftrightarrow> length (ev_id e) = 32 \<and> length (ev_pubkey e) = 32 \<and> small_tags (ev_tags e)"

definition pack_event :: "lib \<Rightarrow> event \<Rightarrow> string" where
  "pack_event L e = pack L (ev_id e) (ev_pubkey e) (ev_created_at e) (ev_kind e)
     (ev_expiration e) (ev_tags e)"

text \<open>The tags of a buffer, as a loop that collects them all.\<close>

definition packed_tags :: "string \<Rightarrow> (char \<times> string) list result" where
  "packed_tags buf = foreachTag buf (\<lambda>acc c v. (acc @ [(c, v)], True)) []"

lemma foldl_collect: "foldl (\<lambda>acc t. acc @ [t]) acc ts = acc @ ts"
  by (induction ts arbitrary: acc) auto

context sv_codec
begin

lemma length_pack:
  "length evid = 32 \<Longrightarrow> length pubkey = 32 \<Longrightarrow>
   length (pack L evid pubkey ca k ex ts) = 88 + length (encode_tags ts)"
  by (simp add: pack_def)

lemma view_pack:
  assumes "length evid = 32" "length pubkey = 32"
  shows "PackedEventView (pack L evid pubkey ca k ex ts) = Inr (pack L evid pubkey ca k ex ts)"
  using assms by (simp add: PackedEventView_def length_pack)

lemma packed_fields_pack [packed_simps]:
  assumes "length evid = 32" "length pubkey = 32"
  shows "packed_id (pack L evid pubkey ca k ex ts) = evid"
    and "packed_pubkey (pack L evid pubkey ca k ex ts) = pubkey"
    and "packed_created_at L (pack L evid pubkey ca k ex ts) = ca"
    and "packed_kind L (pack L evid pubkey ca k ex ts) = k"
    and "packed_expiration L (pack L evid pubkey ca k ex ts) = ex"
  using assms
  by (simp_all add: pack_def packed_id_def packed_pubkey_def packed_created_at_def
      packed_kind_def packed_expiration_def packed_simps)

lemma foreachTag_pack:
  assumes "length evid = 32" "length pubkey = 32" "small_tags ts"
  shows "foreachTag (pack L evid pubkey ca k ex ts) cb s =
    Inr (fold_until (\<lambda>s t. cb s (fst t) (snd t)) ts s)"
  using assms by (simp add: foreachTag_def pack_def foreachTagFrom_encode_tags)

lemma packed_tags_pack:
  assumes "length evid = 32" "length pubkey = 32" "small_tags ts"
  shows "packed_tags (pack L evid pubkey ca k ex ts) = Inr ts"
  using assms by (simp add: packed_tags_def foreachTag_pack fold_until_always foldl_collect)

lemma packed_fields_event [simp]:
  assumes "wf_event e"
  shows "packed_id (pack_event L e) = ev_id e"
    and "packed_pubkey (pack_event L e) = ev_pubkey e"
    and "packed_created_at L (pack_event L e) = ev_created_at e"
    and "packed_kind L (pack_event L e) = ev_kind e"
    and "packed_expiration L (pack_event L e) = ev_expiration e"
    and "PackedEventView (pack_event L e) = Inr (pack_event L e)"
    and "packed_tags (pack_event L e) = Inr (ev_tags e)"
    and "foreachTag (pack_event L e) cb s =
      Inr (fold_until (\<lambda>s t. cb s (fst t) (snd t)) (ev_tags e) s)"
  using assms
  by (simp_all add: wf_event_def pack_event_def packed_fields_pack view_pack packed_tags_pack
      foreachTag_pack)

lemma pack_event_inj:
  assumes "wf_event e" "wf_event e'" "pack_event L e = pack_event L e'"
  shows "e = e'"
proof -
  have "ev_tags e = ev_tags e'"
    using assms packed_fields_event(7) [of e] packed_fields_event(7) [of e'] by simp
  with assms packed_fields_event [of e] packed_fields_event [of e'] show ?thesis
    by simp
qed

end

section \<open>The little-endian byte image\<close>

fun le_bytes :: "nat \<Rightarrow> nat \<Rightarrow> string" where
  "le_bytes 0 n = []"
| "le_bytes (Suc k) n = char_of (n mod 256) # le_bytes k (n div 256)"

fun le_value :: "string \<Rightarrow> nat" where
  "le_value [] = 0"
| "le_value (c # s) = of_char c + 256 * le_value s"

lemma length_le_bytes [simp]: "length (le_bytes k n) = k"
  by (induction k arbitrary: n) auto

lemma le_value_le_bytes: "n < 256 ^ k \<Longrightarrow> le_value (le_bytes k n) = n"
proof (induction k arbitrary: n)
  case 0
  then show ?case by simp
next
  case (Suc k)
  then have "n div 256 < 256 ^ k"
    by (simp add: less_mult_imp_div_less mult.commute)
  with Suc.IH show ?case by simp
qed

definition hex_digit :: "nat \<Rightarrow> char" where
  "hex_digit n = ''0123456789abcdef'' ! (n mod 16)"

definition le_to_hex :: "string \<Rightarrow> string" where
  "le_to_hex s = concat (map (\<lambda>c. [hex_digit (of_char c div 16), hex_digit (of_char c)]) s)"

definition hex_value :: "char \<Rightarrow> nat option" where
  "hex_value c =
     (if CHR ''0'' \<le> c \<and> c \<le> CHR ''9'' then Some (of_char c - 48)
      else if CHR ''a'' \<le> c \<and> c \<le> CHR ''f'' then Some (of_char c - 87)
      else if CHR ''A'' \<le> c \<and> c \<le> CHR ''F'' then Some (of_char c - 55)
      else None)"

fun le_from_hex :: "string \<Rightarrow> string result" where
  "le_from_hex [] = Inr []"
| "le_from_hex [c] = Inl (LibError ''odd length hex'')"
| "le_from_hex (c # d # s) =
     (case (hex_value c, hex_value d) of
        (Some m, Some n) \<Rightarrow> bindE (le_from_hex s) (\<lambda>r. Inr (char_of (16 * m + n) # r))
      | _ \<Rightarrow> Inl (LibError ''bad hex digit''))"

text \<open>
  The library functions on a little-endian machine.  The JSON functions, the digest and the
  signature check stand for any: these are the simplest, used where a statement does not
  depend on them.
\<close>

definition le_lib :: lib where
  "le_lib = \<lparr>
     to_sv = \<lambda>n. le_bytes 8 (unat n),
     from_sv = \<lambda>s. word_of_nat (le_value s),
     from_hex = \<lambda>s _. le_from_hex s,
     to_hex = le_to_hex,
     json_from_string = \<lambda>s. Inr (JString s),
     json_to_string = \<lambda>v. (case v of JString s \<Rightarrow> s | _ \<Rightarrow> []),
     sha256 = \<lambda>s. replicate 32 (CHR 0x00),
     xonly_pubkey_parse = \<lambda>s. Some s,
     schnorrsig_verify = \<lambda>sig hash pk. True\<rparr>"

interpretation le: sv_codec le_lib
proof
  fix n :: u64
  show "length (to_sv le_lib n) = 8"
    by (simp add: le_lib_def)
  have "unat n < 256 ^ 8"
    using unsigned_less [of n] by simp
  then show "from_sv le_lib (to_sv le_lib n) = n"
    by (simp add: le_lib_def le_value_le_bytes del: le_bytes.simps)
qed

text \<open>A run of \<^verbatim>\<open>PackedEventTagBuilder::add\<close> over a list of tags.\<close>

fun add_tags :: "string \<Rightarrow> (char \<times> string) list \<Rightarrow> string result" where
  "add_tags buf [] = Inr buf"
| "add_tags buf (t # ts) = bindE (tagBuilder_add buf (fst t) (snd t)) (\<lambda>b. add_tags b ts)"

lemma add_tags_encode:
  "add_tags (encode_tags us) ts = Inr b \<longleftrightarrow> small_tags ts \<and> b = encode_tags (us @ ts)"
proof (induction ts arbitrary: us)
  case Nil
  then show ?case by auto
next
  case (Cons t ts)
  have "add_tags (encode_tags us) (t # ts) = Inr b \<longleftrightarrow>
      length (snd t) \<le> 255 \<and> add_tags (encode_tags (us @ [t])) ts = Inr b"
    using tagBuilder_add_encode [of us "fst t" "snd t"]
    by (auto simp: bindE_eq_Inr simp del: encode_tags_simps)
  then show ?case
    by (simp add: Cons.IH del: encode_tags_simps)
qed

section \<open>Properties\<close>

text \<open>
  C21. Packing an event and reading it back: when the builder accepts an id, a key, the
  three numbers and a buffer to which \<^verbatim>\<open>PackedEventTagBuilder::add\<close> appended the tags
  \<open>ts\<close>, the view accepts the result, every reader returns the field that was packed, and
  \<^verbatim>\<open>foreachTag\<close> hands the callback exactly the tags of \<open>ts\<close>, in order.
\<close>

theorem packed_roundtrip:
  assumes "sv_codec L"
    and "add_tags [] ts = Inr tagBuf"
    and "PackedEventBuilder L evid pubkey created_at kind expiration tagBuf = Inr buf"
  shows "PackedEventView buf = Inr buf \<and> packed_id buf = evid \<and> packed_pubkey buf = pubkey \<and>
    packed_created_at L buf = created_at \<and> packed_kind L buf = kind \<and>
    packed_expiration L buf = expiration \<and> packed_tags buf = Inr ts"
proof -
  have tags: "small_tags ts" "tagBuf = encode_tags ts"
    using assms(2) add_tags_encode [of "[]" ts tagBuf] by simp_all
  with assms(3) have "length evid = 32" "length pubkey = 32"
      "buf = pack L evid pubkey created_at kind expiration ts"
    by (simp_all add: PackedEventBuilder_pack)
  with tags(1) show ?thesis
    by (simp add: sv_codec.view_pack [OF assms(1)] sv_codec.packed_fields_pack [OF assms(1)]
        sv_codec.packed_tags_pack [OF assms(1)])
qed

theorem packed_roundtrip_witness:
  "\<exists>tagBuf buf. sv_codec le_lib \<and> add_tags [] [(CHR ''d'', ''x'')] = Inr tagBuf \<and>
     PackedEventBuilder le_lib (replicate 32 CHR ''i'') (replicate 32 CHR ''p'') 7 1 0 tagBuf =
       Inr buf \<and> packed_tags buf = Inr [(CHR ''d'', ''x'')]"
proof -
  have tb: "add_tags [] [(CHR ''d'', ''x'')] = Inr (encode_tags [(CHR ''d'', ''x'')])"
    by (simp add: tagBuilder_add_def encode_tag_def)
  obtain buf where b: "PackedEventBuilder le_lib (replicate 32 CHR ''i'') (replicate 32 CHR ''p'')
      7 1 0 (encode_tags [(CHR ''d'', ''x'')]) = Inr buf"
    by (simp add: PackedEventBuilder_def)
  from packed_roundtrip [OF le.sv_codec_axioms tb b] tb b le.sv_codec_axioms show ?thesis
    by blast
qed

end
