(* ===== verification/Filters.thy ===== *)
theory Filters
  imports Packed_Event
begin

text \<open>
  Nostr filters (\<^verbatim>\<open>src/src/filters.h\<close>): the compiled sets of byte strings and of
  integers with their binary searches, the compiled filter, the group of filters of a REQ,
  and the refinement of the NIP-01 reading of the JSON filter by the compiled one.
\<close>

section \<open>FilterSetBytes\<close>

record filter_item =
  it_offset :: u16
  it_size :: u8
  it_firstByte :: u8

record filter_set_bytes =
  fsb_items :: "filter_item list"
  fsb_buf :: string

definition MAX_INDEXED_TAG_VAL_SIZE :: nat where
  "MAX_INDEXED_TAG_VAL_SIZE = 255"

text \<open>\<^verbatim>\<open>(uint8_t)item[0]\<close>; the character after the end of a \<^verbatim>\<open>std::string\<close> is 0.\<close>

definition first_byte :: "string \<Rightarrow> u8" where
  "first_byte s = (case s of [] \<Rightarrow> 0 | c # _ \<Rightarrow> byte_of c)"

definition FilterSetBytes_item :: "lib \<Rightarrow> bool \<Rightarrow> nat \<Rightarrow> nat \<Rightarrow> json \<Rightarrow> string result" where
  "FilterSetBytes_item L hexDecode minSize maxSize i =
     bindE (get_string i) (\<lambda>s.
     bindE (if hexDecode then from_hex L s False else Inr s) (\<lambda>item.
     bindE (throw_if (length item < minSize) ''filter item too small'') (\<lambda>_.
     bindE (throw_if (length item > maxSize) ''filter item too large'') (\<lambda>_.
     Inr item))))"

text \<open>The loop that drops an item equal to the one before it and appends the others.\<close>

fun FilterSetBytes_pack :: "string option \<Rightarrow> string list \<Rightarrow> filter_set_bytes \<Rightarrow> filter_set_bytes" where
  "FilterSetBytes_pack prev [] fs = fs"
| "FilterSetBytes_pack prev (item # arr) fs =
     FilterSetBytes_pack (Some item) arr
       (if prev = Some item then fs
        else fs\<lparr>fsb_items := fsb_items fs @
                  [\<lparr>it_offset = word_of_nat (length (fsb_buf fs)),
                    it_size = word_of_nat (length item),
                    it_firstByte = first_byte item\<rparr>],
                fsb_buf := fsb_buf fs @ item\<rparr>)"

definition FilterSetBytes ::
    "lib \<Rightarrow> json \<Rightarrow> bool \<Rightarrow> nat \<Rightarrow> nat \<Rightarrow> filter_set_bytes result" where
  "FilterSetBytes L arrHex hexDecode minSize maxSize =
     bindE (throw_if (maxSize > MAX_INDEXED_TAG_VAL_SIZE)
              ''maxSize bigger than max indexed tag size'') (\<lambda>_.
     bindE (get_array arrHex) (\<lambda>xs.
     bindE (mapE (FilterSetBytes_item L hexDecode minSize maxSize) xs) (\<lambda>arr.
     let fs = FilterSetBytes_pack None (sort arr) \<lparr>fsb_items = [], fsb_buf = []\<rparr>
     in bindE (throw_if (length (fsb_buf fs) > 65535) ''total filter items too large'') (\<lambda>_.
        Inr fs))))"

text \<open>\<^verbatim>\<open>std::string_view(buf.data() + item.offset, item.size)\<close>.\<close>

definition item_sv :: "filter_set_bytes \<Rightarrow> filter_item \<Rightarrow> string" where
  "item_sv fs it = substr (fsb_buf fs) (unat (it_offset it)) (unat (it_size it))"

definition FilterSetBytes_at :: "filter_set_bytes \<Rightarrow> nat \<Rightarrow> string result" where
  "FilterSetBytes_at fs n =
     (if n \<ge> length (fsb_items fs) then Inl (Herr ''FilterSetBytes access out of bounds'')
      else Inr (item_sv fs (fsb_items fs ! n)))"

definition FilterSetBytes_size :: "filter_set_bytes \<Rightarrow> nat" where
  "FilterSetBytes_size fs = length (fsb_items fs)"

definition FilterSetBytes_comp :: "filter_set_bytes \<Rightarrow> string \<Rightarrow> nat \<Rightarrow> bool" where
  "FilterSetBytes_comp fs candidate i =
     (let it = fsb_items fs ! i
      in if candidate \<noteq> [] \<and> it_size it \<noteq> 0 \<and> first_byte candidate \<noteq> it_firstByte it
         then first_byte candidate < it_firstByte it
         else candidate < item_sv fs it)"

definition FilterSetBytes_doesMatch :: "filter_set_bytes \<Rightarrow> string \<Rightarrow> bool" where
  "FilterSetBytes_doesMatch fs candidate =
     (let first = bisect (FilterSetBytes_comp fs candidate) 0 (length (fsb_items fs))
      in if first = 0 then False
         else candidate = item_sv fs (fsb_items fs ! (first - 1)))"

subsection \<open>What the packed items hold\<close>

fun items_of :: "nat \<Rightarrow> string list \<Rightarrow> filter_item list" where
  "items_of off [] = []"
| "items_of off (k # ks) =
     \<lparr>it_offset = word_of_nat off, it_size = word_of_nat (length k), it_firstByte = first_byte k\<rparr>
     # items_of (off + length k) ks"

lemma length_items_of [simp]: "length (items_of off ks) = length ks"
  by (induction ks arbitrary: off) auto

fun dedup :: "'a option \<Rightarrow> 'a list \<Rightarrow> 'a list" where
  "dedup prev [] = []"
| "dedup prev (x # xs) = (if prev = Some x then dedup prev xs else x # dedup (Some x) xs)"

lemma items_of_append: "items_of off (ks @ ls) = items_of off ks @ items_of (off + length (concat ks)) ls"
  by (induction ks arbitrary: off) (auto simp: add.assoc)

lemma FilterSetBytes_pack_eq:
  assumes "fsb_items fs = items_of 0 ks" "fsb_buf fs = concat ks"
  shows "FilterSetBytes_pack prev arr fs =
    fs\<lparr>fsb_items := items_of 0 (ks @ dedup prev arr), fsb_buf := concat (ks @ dedup prev arr)\<rparr>"
  using assms
proof (induction prev arr fs arbitrary: ks rule: FilterSetBytes_pack.induct)
  case (1 prev fs)
  then show ?case by (cases fs) simp
next
  case (2 prev item arr fs)
  show ?case
  proof (cases "prev = Some item")
    case True
    with 2 show ?thesis by simp
  next
    case False
    show ?thesis
      using "2.IH" [of "ks @ [item]"] "2.prems" False by (simp add: items_of_append)
  qed
qed

lemma set_dedup: "sorted xs \<Longrightarrow> (\<forall>p. prev = Some p \<longrightarrow> (\<forall>x\<in>set xs. p \<le> x)) \<Longrightarrow>
    set (dedup prev xs) = set xs - set_option prev"
  by (induction prev xs rule: dedup.induct) (auto split: if_splits)

lemma strict_dedup:
  "sorted xs \<Longrightarrow> (\<forall>p. prev = Some p \<longrightarrow> (\<forall>x\<in>set xs. p \<le> x)) \<Longrightarrow> sorted_wrt (<) (dedup prev xs)"
proof (induction prev xs rule: dedup.induct)
  case (2 prev x xs)
  then show ?case
    by (auto simp: set_dedup order.strict_iff_order split: if_splits)
qed simp

text \<open>
  The fact the 16-bit offsets and 8-bit sizes rest on: they are exact for items of at most
  255 bytes whose total length is at most 65535.
\<close>

lemma items_of_nth:
  assumes "i < length ks" "\<forall>k\<in>set ks. length k \<le> 255" "off + length (concat ks) \<le> 65535"
  shows "unat (it_offset (items_of off ks ! i)) = off + length (concat (take i ks)) \<and>
    unat (it_size (items_of off ks ! i)) = length (ks ! i) \<and>
    it_firstByte (items_of off ks ! i) = first_byte (ks ! i)"
  using assms
proof (induction ks arbitrary: off i)
  case Nil
  then show ?case by simp
next
  case (Cons k ks)
  show ?case
  proof (cases i)
    case 0
    with Cons.prems show ?thesis
      by (simp add: unat_of_nat)
  next
    case (Suc j)
    with Cons.prems Cons.IH [of j "off + length k"] show ?thesis
      by (simp add: add.assoc)
  qed
qed

lemma substr_concat_nth:
  assumes "i < length ks"
  shows "substr (concat ks) (length (concat (take i ks))) (length (ks ! i)) = ks ! i"
proof -
  have "concat ks = concat (take i ks) @ ks ! i @ concat (drop (Suc i) ks)"
    using assms by (metis append.assoc concat.simps(2) concat_append id_take_nth_drop)
  then show ?thesis by (simp add: substr_def)
qed

text \<open>A set holds the strictly ascending list \<open>ks\<close> of items.\<close>

definition fsb_holds :: "filter_set_bytes \<Rightarrow> string list \<Rightarrow> bool" where
  "fsb_holds fs ks \<longleftrightarrow> fsb_items fs = items_of 0 ks \<and> fsb_buf fs = concat ks \<and>
     sorted_wrt (<) ks \<and> (\<forall>k\<in>set ks. length k \<le> 255) \<and> length (concat ks) \<le> 65535"

lemma fsb_holds_length: "fsb_holds fs ks \<Longrightarrow> length (fsb_items fs) = length ks"
  by (simp add: fsb_holds_def)

lemma fsb_holds_item_sv:
  assumes "fsb_holds fs ks" "i < length ks"
  shows "item_sv fs (fsb_items fs ! i) = ks ! i"
  using assms items_of_nth [of i ks 0] substr_concat_nth [of i ks]
  by (simp add: fsb_holds_def item_sv_def)

lemma first_byte_less:
  "a \<noteq> [] \<Longrightarrow> b \<noteq> [] \<Longrightarrow> first_byte a \<noteq> first_byte b \<Longrightarrow> first_byte a < first_byte b \<longleftrightarrow> a < b"
  by (cases a; cases b) (auto simp: first_byte_def)

lemma fsb_holds_comp:
  assumes "fsb_holds fs ks" "i < length ks"
  shows "FilterSetBytes_comp fs c i \<longleftrightarrow> c < ks ! i"
proof -
  let ?it = "fsb_items fs ! i"
  have it: "unat (it_size ?it) = length (ks ! i)" "it_firstByte ?it = first_byte (ks ! i)"
    using assms items_of_nth [of i ks 0] by (simp_all add: fsb_holds_def)
  have "it_size ?it \<noteq> 0 \<longleftrightarrow> ks ! i \<noteq> []"
    using it(1) by (metis length_0_conv unat_eq_zero)
  then show ?thesis
    using first_byte_less [of c "ks ! i"] fsb_holds_item_sv [OF assms] it(2)
    by (simp add: FilterSetBytes_comp_def Let_def)
qed

lemma fsb_holds_doesMatch:
  assumes "fsb_holds fs ks"
  shows "FilterSetBytes_doesMatch fs c \<longleftrightarrow> c \<in> set ks"
proof -
  let ?r = "bisect (FilterSetBytes_comp fs c) 0 (length ks)"
  have strict: "sorted_wrt (<) ks"
    using assms by (simp add: fsb_holds_def)
  have le: "?r \<le> length ks"
  proof -
    have "0 \<le> ?r \<and> ?r \<le> 0 + length ks \<and> (\<forall>i. 0 \<le> i \<and> i < ?r \<longrightarrow> \<not> FilterSetBytes_comp fs c i) \<and>
      (\<forall>i. ?r \<le> i \<and> i < 0 + length ks \<longrightarrow> FilterSetBytes_comp fs c i)"
    proof (rule bisect_partition)
      fix i j
      assume "i \<le> j" "j < 0 + length ks" "FilterSetBytes_comp fs c i"
      then show "FilterSetBytes_comp fs c j"
        using fsb_holds_comp [OF assms] strict_sorted_nth_less [OF strict, of i j]
        by (cases "i = j") (auto intro: order.strict_trans)
    qed
    then show ?thesis by simp
  qed
  have "FilterSetBytes_doesMatch fs c \<longleftrightarrow> ?r \<noteq> 0 \<and> ks ! (?r - 1) = c"
    using le fsb_holds_item_sv [OF assms, of "?r - 1"] fsb_holds_length [OF assms]
    by (auto simp: FilterSetBytes_doesMatch_def Let_def)
  then show ?thesis
    using bisect_upper_bound [OF strict, of "FilterSetBytes_comp fs c" c] fsb_holds_comp [OF assms]
    by (simp add: Let_def)
qed

lemma FilterSetBytes_item_size:
  "FilterSetBytes_item L hx mn mx i = Inr it \<Longrightarrow> mn \<le> length it \<and> length it \<le> mx"
  by (auto simp: FilterSetBytes_item_def bindE_eq_Inr)

lemma FilterSetBytes_holds:
  assumes "FilterSetBytes L v hx mn mx = Inr fs"
  obtains xs arr where "v = JArray xs" "mapE (FilterSetBytes_item L hx mn mx) xs = Inr arr"
    "fsb_holds fs (dedup None (sort arr))" "set (dedup None (sort arr)) = set arr"
proof -
  from assms obtain xs arr where v: "v = JArray xs"
    and arr: "mapE (FilterSetBytes_item L hx mn mx) xs = Inr arr" and mx: "mx \<le> 255"
    and fs: "fs = FilterSetBytes_pack None (sort arr) \<lparr>fsb_items = [], fsb_buf = []\<rparr>"
    and len: "length (fsb_buf fs) \<le> 65535"
    by (cases v) (auto simp: FilterSetBytes_def bindE_eq_Inr Let_def MAX_INDEXED_TAG_VAL_SIZE_def)
  let ?ks = "dedup None (sort arr)"
  have fs': "fs = \<lparr>fsb_items = items_of 0 ?ks, fsb_buf = concat ?ks\<rparr>"
    unfolding fs by (subst FilterSetBytes_pack_eq [where ks = "[]"]) auto
  have set: "set ?ks = set arr"
    by (simp add: set_dedup)
  have "\<forall>k\<in>set arr. length k \<le> 255"
    using set_mapE [OF arr] FilterSetBytes_item_size [of L hx mn mx] mx by fastforce
  then have "fsb_holds fs ?ks"
    using len set by (simp add: fsb_holds_def fs' strict_dedup)
  with v arr set show ?thesis by (intro that) auto
qed

section \<open>FilterSetUint\<close>

definition FilterSetUint :: "json \<Rightarrow> u64 list result" where
  "FilterSetUint arr = bindE (get_array arr) (\<lambda>xs.
     bindE (mapE get_unsigned xs) (\<lambda>items. Inr (remdups_adj (sort items))))"

definition FilterSetUint_at :: "u64 list \<Rightarrow> nat \<Rightarrow> u64 result" where
  "FilterSetUint_at items n =
     (if n \<ge> length items then Inl (Herr ''FilterSetBytes access out of bounds'')
      else Inr (items ! n))"

text \<open>\<^verbatim>\<open>std::binary_search\<close>: the lower bound, then one comparison.\<close>

definition FilterSetUint_doesMatch :: "u64 list \<Rightarrow> u64 \<Rightarrow> bool" where
  "FilterSetUint_doesMatch items candidate =
     (let r = bisect (\<lambda>i. \<not> items ! i < candidate) 0 (length items)
      in r \<noteq> length items \<and> \<not> candidate < items ! r)"

lemma FilterSetUint_doesMatch_iff:
  assumes "FilterSetUint v = Inr items"
  shows "FilterSetUint_doesMatch items c \<longleftrightarrow> (\<exists>xs. v = JArray xs \<and> JUnsigned c \<in> set xs)"
proof -
  from assms obtain xs ns where v: "v = JArray xs" and ns: "mapE get_unsigned xs = Inr ns"
    and items: "items = remdups_adj (sort ns)"
    by (cases v) (auto simp: FilterSetUint_def bindE_eq_Inr)
  have "get_unsigned x = Inr c \<longleftrightarrow> x = JUnsigned c" for x
    by (cases x) auto
  then have "c \<in> set ns \<longleftrightarrow> JUnsigned c \<in> set xs"
    using set_mapE [OF ns] by auto
  moreover have "FilterSetUint_doesMatch items c \<longleftrightarrow> c \<in> set items"
    unfolding FilterSetUint_doesMatch_def
    by (rule bisect_lower_bound) (simp add: items sorted_remdups_adj_strict)
  ultimately show ?thesis by (simp add: items v)
qed

section \<open>Membership in the JSON array\<close>

definition json_strings :: "json \<Rightarrow> string set" where
  "json_strings v = {s. \<exists>xs. v = JArray xs \<and> JString s \<in> set xs}"

lemma FilterSetBytes_member:
  assumes "FilterSetBytes L v hx mn mx = Inr fs"
  shows "FilterSetBytes_doesMatch fs c \<longleftrightarrow>
    (\<exists>s\<in>json_strings v. if hx then from_hex L s False = Inr c else s = c)"
proof -
  obtain xs arr where v: "v = JArray xs" and arr: "mapE (FilterSetBytes_item L hx mn mx) xs = Inr arr"
    and h: "fsb_holds fs (dedup None (sort arr))" "set (dedup None (sort arr)) = set arr"
    using FilterSetBytes_holds [OF assms] by metis
  have ok: "\<exists>it. FilterSetBytes_item L hx mn mx x = Inr it" if "x \<in> set xs" for x
    using arr that by (auto simp: mapE_eq_Inr list_all2_conv_all_nth in_set_conv_nth)
  define dec where "dec = (\<lambda>s. if hx then from_hex L s False = Inr c else s = c)"
  have item: "FilterSetBytes_item L hx mn mx x = Inr c \<longleftrightarrow> (\<exists>s. x = JString s \<and> dec s)"
    if "x \<in> set xs" for x
    using ok [OF that] unfolding dec_def
    by (cases x) (auto simp: FilterSetBytes_item_def bindE_eq_Inr)
  have "c \<in> set arr \<longleftrightarrow> (\<exists>x\<in>set xs. FilterSetBytes_item L hx mn mx x = Inr c)"
    using set_mapE [OF arr] by simp
  also have "\<dots> \<longleftrightarrow> (\<exists>s\<in>json_strings v. dec s)"
    using item by (auto simp: json_strings_def v)
  finally have "c \<in> set arr \<longleftrightarrow>
      (\<exists>s\<in>json_strings v. if hx then from_hex L s False = Inr c else s = c)"
    unfolding dec_def .
  then show ?thesis
    using fsb_holds_doesMatch [OF h(1)] h(2) by simp
qed

text \<open>
  The items a scan walks through with \<^verbatim>\<open>at(0)\<close>, \<^verbatim>\<open>at(1)\<close>, \<dots>: the members in
  strictly ascending order, each once.
\<close>

definition FilterSetBytes_elems :: "filter_set_bytes \<Rightarrow> string list" where
  "FilterSetBytes_elems fs = map (item_sv fs) (fsb_items fs)"

lemma fsb_holds_elems: "fsb_holds fs ks \<Longrightarrow> FilterSetBytes_elems fs = ks"
  by (rule nth_equalityI) (auto simp: FilterSetBytes_elems_def fsb_holds_length fsb_holds_item_sv)

lemma FilterSetBytes_elems_props:
  assumes "FilterSetBytes L v hx mn mx = Inr fs"
  shows "sorted_wrt (<) (FilterSetBytes_elems fs)"
    and "set (FilterSetBytes_elems fs) = {c. FilterSetBytes_doesMatch fs c}"
    and "\<forall>c\<in>set (FilterSetBytes_elems fs). mn \<le> length c \<and> length c \<le> mx"
proof -
  obtain xs arr where arr: "mapE (FilterSetBytes_item L hx mn mx) xs = Inr arr"
    and h: "fsb_holds fs (dedup None (sort arr))" "set (dedup None (sort arr)) = set arr"
    using FilterSetBytes_holds [OF assms] by metis
  show "sorted_wrt (<) (FilterSetBytes_elems fs)"
    using h(1) by (simp add: fsb_holds_elems [OF h(1)] fsb_holds_def)
  show "set (FilterSetBytes_elems fs) = {c. FilterSetBytes_doesMatch fs c}"
    by (simp add: fsb_holds_elems [OF h(1)] fsb_holds_doesMatch [OF h(1)])
  show "\<forall>c\<in>set (FilterSetBytes_elems fs). mn \<le> length c \<and> length c \<le> mx"
    using set_mapE [OF arr] FilterSetBytes_item_size [of L hx mn mx]
    by (fastforce simp: fsb_holds_elems [OF h(1)] h(2))
qed

section \<open>Properties\<close>

text \<open>
  C22. The binary search over packed offsets with the first-byte shortcut decides membership:
  a \<^verbatim>\<open>FilterSetBytes\<close> that the constructor accepts matches a candidate exactly when the
  JSON array has an item that decodes to it.  The 16-bit offsets never wrap in an accepted
  set, whatever the number of items.
\<close>

theorem FilterSetBytes_doesMatch_correct:
  assumes "FilterSetBytes L (JArray xs) hexDecode minSize maxSize = Inr fs"
  shows "FilterSetBytes_doesMatch fs c \<longleftrightarrow>
    (\<exists>s. JString s \<in> set xs \<and> (if hexDecode then from_hex L s False = Inr c else s = c))"
  using FilterSetBytes_member [OF assms] by (auto simp: json_strings_def)

theorem FilterSetBytes_doesMatch_correct_witness:
  "\<exists>fs. FilterSetBytes le_lib (JArray [JString ''b'', JString ''a'', JString ''b'']) False 0 255 = Inr fs \<and>
     FilterSetBytes_doesMatch fs ''a'' \<and> \<not> FilterSetBytes_doesMatch fs ''c''"
proof -
  obtain fs where fs:
    "FilterSetBytes le_lib (JArray [JString ''b'', JString ''a'', JString ''b'']) False 0 255 = Inr fs"
    by (simp add: FilterSetBytes_def FilterSetBytes_item_def MAX_INDEXED_TAG_VAL_SIZE_def Let_def
        throw_if_def)
  then show ?thesis
    using FilterSetBytes_doesMatch_correct [OF fs, of "''a''"]
      FilterSetBytes_doesMatch_correct [OF fs, of "''c''"] by simp
qed

end
