(* ===== verification/Nostr_Filter.thy ===== *)
theory Nostr_Filter
  imports Filters
begin

text \<open>
  The compiled filter and the group of filters of a subscription
  (\<^verbatim>\<open>NostrFilter\<close> and \<^verbatim>\<open>NostrFilterGroup\<close> of \<^verbatim>\<open>src/src/filters.h\<close>), and
  the theorem that matching a packed event against the compiled form is matching the event
  against the JSON filter as NIP-01 reads it.
\<close>

section \<open>The compiled filter\<close>

record nostr_filter =
  nf_ids :: "filter_set_bytes option"
  nf_authors :: "filter_set_bytes option"
  nf_kinds :: "u64 list option"
  nf_tags :: "(char \<times> filter_set_bytes) list"
  nf_since :: u64
  nf_until :: u64
  nf_limit :: u64
  nf_neverMatch :: bool
  nf_indexOnlyScans :: bool

definition empty_filter :: nostr_filter where
  "empty_filter = \<lparr>nf_ids = None, nf_authors = None, nf_kinds = None, nf_tags = [],
     nf_since = 0, nf_until = MAX_U64, nf_limit = MAX_U64,
     nf_neverMatch = False, nf_indexOnlyScans = False\<rparr>"

text \<open>\<^verbatim>\<open>tags.emplace(tag, set)\<close> keeps the set already stored under the name.\<close>

definition tags_emplace ::
    "char \<Rightarrow> filter_set_bytes \<Rightarrow> (char \<times> filter_set_bytes) list \<Rightarrow> (char \<times> filter_set_bytes) list" where
  "tags_emplace tag fs tags = (if tag \<in> fst ` set tags then tags else tags @ [(tag, fs)])"

text \<open>One round of the constructor's loop; the state is the filter and \<^verbatim>\<open>numMajorFields\<close>.\<close>

definition NostrFilter_field ::
    "lib \<Rightarrow> string \<times> json \<Rightarrow> nostr_filter \<times> nat \<Rightarrow> (nostr_filter \<times> nat) result" where
  "NostrFilter_field L kv st =
     (let k = fst kv; v = snd kv; f = fst st; n = snd st
      in if v = JArray [] then Inr (f\<lparr>nf_neverMatch := True\<rparr>, n)
         else if k = ''ids'' then
           bindE (FilterSetBytes L v True 32 32) (\<lambda>s. Inr (f\<lparr>nf_ids := Some s\<rparr>, n + 1))
         else if k = ''authors'' then
           bindE (FilterSetBytes L v True 32 32) (\<lambda>s. Inr (f\<lparr>nf_authors := Some s\<rparr>, n + 1))
         else if k = ''kinds'' then
           bindE (FilterSetUint v) (\<lambda>s. Inr (f\<lparr>nf_kinds := Some s\<rparr>, n + 1))
         else if starts_with k ''#'' then
           (if length k = 2 then
              (let tag = k ! 1
               in if tag = CHR ''p'' \<or> tag = CHR ''e''
                  then bindE (FilterSetBytes L v True 32 32)
                         (\<lambda>s. Inr (f\<lparr>nf_tags := tags_emplace tag s (nf_tags f)\<rparr>, n + 1))
                  else bindE (FilterSetBytes L v False 0 MAX_INDEXED_TAG_VAL_SIZE)
                         (\<lambda>s. Inr (f\<lparr>nf_tags := tags_emplace tag s (nf_tags f)\<rparr>, n + 1)))
            else Inl (Herr ''unindexed tag filter''))
         else if k = ''since'' then bindE (get_unsigned v) (\<lambda>u. Inr (f\<lparr>nf_since := u\<rparr>, n))
         else if k = ''until'' then bindE (get_unsigned v) (\<lambda>u. Inr (f\<lparr>nf_until := u\<rparr>, n))
         else if k = ''limit'' then bindE (get_unsigned v) (\<lambda>u. Inr (f\<lparr>nf_limit := u\<rparr>, n))
         else Inl (Herr ''unrecognised filter item''))"

definition NostrFilter :: "lib \<Rightarrow> json \<Rightarrow> u64 \<Rightarrow> nostr_filter result" where
  "NostrFilter L filterObj maxFilterLimit =
     bindE (throw_if (\<not> is_object filterObj) ''provided filter is not an object'') (\<lambda>_.
     bindE (get_object filterObj) (\<lambda>kvs.
     bindE (foldE (NostrFilter_field L) kvs (empty_filter, 0)) (\<lambda>st.
     let f = fst st; n = snd st
     in bindE (throw_if (length (nf_tags f) > 3) ''too many tags in filter'') (\<lambda>_.
        Inr (f\<lparr>nf_limit := (if nf_limit f > maxFilterLimit then maxFilterLimit else nf_limit f),
               nf_indexOnlyScans :=
                 (n \<le> 1 \<or> (n = 2 \<and> nf_authors f \<noteq> None \<and> nf_kinds f \<noteq> None))\<rparr>)))))"

definition doesMatchTimes :: "nostr_filter \<Rightarrow> u64 \<Rightarrow> bool" where
  "doesMatchTimes f created =
     (if created < nf_since f then False else if created > nf_until f then False else True)"

text \<open>The loop over the tag conditions: each needs one tag of the event that satisfies it.\<close>

fun tags_match :: "string \<Rightarrow> (char \<times> filter_set_bytes) list \<Rightarrow> bool result" where
  "tags_match ev [] = Inr True"
| "tags_match ev (tf # tfs) =
     bindE (foreachTag ev (\<lambda>found tagName tagVal.
              if tagName = fst tf \<and> FilterSetBytes_doesMatch (snd tf) tagVal then (True, False)
              else (found, True)) False)
       (\<lambda>foundMatch. if \<not> foundMatch then Inr False else tags_match ev tfs)"

definition NostrFilter_doesMatch :: "lib \<Rightarrow> nostr_filter \<Rightarrow> string \<Rightarrow> bool result" where
  "NostrFilter_doesMatch L f ev =
     (if nf_neverMatch f then Inr False
      else if \<not> doesMatchTimes f (packed_created_at L ev) then Inr False
      else if (case nf_ids f of Some s \<Rightarrow> \<not> FilterSetBytes_doesMatch s (packed_id ev) | None \<Rightarrow> False) then Inr False
      else if (case nf_authors f of Some s \<Rightarrow> \<not> FilterSetBytes_doesMatch s (packed_pubkey ev) | None \<Rightarrow> False) then Inr False
      else if (case nf_kinds f of Some s \<Rightarrow> \<not> FilterSetUint_doesMatch s (packed_kind L ev) | None \<Rightarrow> False) then Inr False
      else tags_match ev (nf_tags f))"

definition NostrFilter_isFullDbQuery :: "nostr_filter \<Rightarrow> bool" where
  "NostrFilter_isFullDbQuery f \<longleftrightarrow>
     nf_ids f = None \<and> nf_authors f = None \<and> nf_kinds f = None \<and> length (nf_tags f) = 0"

section \<open>The group of filters\<close>

definition NostrFilterGroup_add ::
    "lib \<Rightarrow> u64 \<Rightarrow> json \<Rightarrow> nostr_filter list \<Rightarrow> nostr_filter list result" where
  "NostrFilterGroup_add L maxFilterLimit x fs =
     bindE (NostrFilter L x maxFilterLimit)
       (\<lambda>f. Inr (if nf_neverMatch f then fs else fs @ [f]))"

definition NostrFilterGroup :: "lib \<Rightarrow> json \<Rightarrow> u64 \<Rightarrow> nostr_filter list result" where
  "NostrFilterGroup L req maxFilterLimit =
     bindE (get_array req) (\<lambda>arr.
     bindE (throw_if (length arr < 3) ''too small'') (\<lambda>_.
     foldE (NostrFilterGroup_add L maxFilterLimit) (drop 2 arr) []))"

definition NostrFilterGroup_unwrapped :: "lib \<Rightarrow> json \<Rightarrow> u64 \<Rightarrow> nostr_filter list result" where
  "NostrFilterGroup_unwrapped L filt maxFilterLimit =
     bindE (get_array (if is_array filt then filt else JArray [filt])) (\<lambda>es.
     NostrFilterGroup L (JArray ([JString ''REQ'', JString ''junkSub''] @ es)) maxFilterLimit)"

fun NostrFilterGroup_doesMatch :: "lib \<Rightarrow> nostr_filter list \<Rightarrow> string \<Rightarrow> bool result" where
  "NostrFilterGroup_doesMatch L [] ev = Inr False"
| "NostrFilterGroup_doesMatch L (f # fs) ev =
     bindE (NostrFilter_doesMatch L f ev)
       (\<lambda>b. if b then Inr True else NostrFilterGroup_doesMatch L fs ev)"

definition NostrFilterGroup_isFullDbQuery :: "nostr_filter list \<Rightarrow> bool" where
  "NostrFilterGroup_isFullDbQuery fs \<longleftrightarrow> length fs = 1 \<and> NostrFilter_isFullDbQuery (fs ! 0)"

section \<open>Matching on abstract events\<close>

text \<open>The verdict of a compiled filter, written on the event instead of its packed bytes.\<close>

definition nf_matches :: "nostr_filter \<Rightarrow> event \<Rightarrow> bool" where
  "nf_matches f e \<longleftrightarrow> \<not> nf_neverMatch f \<and>
     nf_since f \<le> ev_created_at e \<and> ev_created_at e \<le> nf_until f \<and>
     (\<forall>s. nf_ids f = Some s \<longrightarrow> FilterSetBytes_doesMatch s (ev_id e)) \<and>
     (\<forall>s. nf_authors f = Some s \<longrightarrow> FilterSetBytes_doesMatch s (ev_pubkey e)) \<and>
     (\<forall>s. nf_kinds f = Some s \<longrightarrow> FilterSetUint_doesMatch s (ev_kind e)) \<and>
     (\<forall>tf\<in>set (nf_tags f). \<exists>t\<in>set (ev_tags e).
        fst t = fst tf \<and> FilterSetBytes_doesMatch (snd tf) (snd t))"

lemma fold_until_found:
  "fold_until (\<lambda>found t. if P t then (True, False) else (found, True)) ts b \<longleftrightarrow>
     b \<or> (\<exists>t\<in>set ts. P t)"
  by (induction ts arbitrary: b) auto

context sv_codec
begin

lemma tags_match_event:
  assumes "wf_event e"
  shows "tags_match (pack_event L e) tfs =
    Inr (\<forall>tf\<in>set tfs. \<exists>t\<in>set (ev_tags e). fst t = fst tf \<and> FilterSetBytes_doesMatch (snd tf) (snd t))"
  using assms by (induction tfs) (simp_all add: fold_until_found)

lemma NostrFilter_doesMatch_event:
  assumes "wf_event e"
  shows "NostrFilter_doesMatch L f (pack_event L e) = Inr (nf_matches f e)"
  using assms
  by (auto simp: NostrFilter_doesMatch_def nf_matches_def tags_match_event doesMatchTimes_def not_less split: option.splits)

lemma NostrFilterGroup_doesMatch_event:
  assumes "wf_event e"
  shows "NostrFilterGroup_doesMatch L fs (pack_event L e) = Inr (\<exists>f\<in>set fs. nf_matches f e)"
  using assms by (induction fs) (simp_all add: NostrFilter_doesMatch_event)

end

section \<open>NIP-01: what a JSON filter means\<close>

definition json_unsigneds :: "json \<Rightarrow> u64 set" where
  "json_unsigneds v = {n. \<exists>xs. v = JArray xs \<and> JUnsigned n \<in> set xs}"

definition hex_member :: "lib \<Rightarrow> string \<Rightarrow> json \<Rightarrow> bool" where
  "hex_member L b v \<longleftrightarrow> (\<exists>s\<in>json_strings v. from_hex L s False = Inr b)"

text \<open>
  What one entry of the filter object asks of an event: membership of the id, the author,
  the kind or the value of some tag in the listed values; the time bounds; nothing for
  \<^verbatim>\<open>limit\<close>.  An empty list of values is satisfied by no event.
\<close>

definition nip01_entry :: "lib \<Rightarrow> event \<Rightarrow> string \<times> json \<Rightarrow> bool" where
  "nip01_entry L e kv \<longleftrightarrow>
     (let k = fst kv; v = snd kv
      in if k = ''ids'' then hex_member L (ev_id e) v
         else if k = ''authors'' then hex_member L (ev_pubkey e) v
         else if k = ''kinds'' then ev_kind e \<in> json_unsigneds v
         else if starts_with k ''#'' then
           (\<exists>t\<in>set (ev_tags e). k = [CHR ''#'', fst t] \<and>
              (if fst t = CHR ''p'' \<or> fst t = CHR ''e'' then hex_member L (snd t) v
               else snd t \<in> json_strings v))
         else if k = ''since'' then (\<exists>n. v = JUnsigned n \<and> n \<le> ev_created_at e)
         else if k = ''until'' then (\<exists>n. v = JUnsigned n \<and> ev_created_at e \<le> n)
         else v \<noteq> JArray [])"

definition nip01_match :: "lib \<Rightarrow> event \<Rightarrow> (string \<times> json) list \<Rightarrow> bool" where
  "nip01_match L e kvs \<longleftrightarrow> (\<forall>kv\<in>set kvs. nip01_entry L e kv)"

lemma FilterSetBytes_hex_member:
  "FilterSetBytes L v True mn mx = Inr s \<Longrightarrow> FilterSetBytes_doesMatch s b \<longleftrightarrow> hex_member L b v"
  by (simp add: FilterSetBytes_member hex_member_def)

lemma FilterSetBytes_raw_member:
  "FilterSetBytes L v False mn mx = Inr s \<Longrightarrow> FilterSetBytes_doesMatch s b \<longleftrightarrow> b \<in> json_strings v"
  by (simp add: FilterSetBytes_member)

lemma FilterSetUint_member:
  "FilterSetUint v = Inr s \<Longrightarrow> FilterSetUint_doesMatch s n \<longleftrightarrow> n \<in> json_unsigneds v"
  by (simp add: FilterSetUint_doesMatch_iff json_unsigneds_def)

lemma json_members_Nil [simp]:
  "json_strings (JArray []) = {}" "json_unsigneds (JArray []) = {}" "\<not> hex_member L b (JArray [])"
  by (simp_all add: json_strings_def json_unsigneds_def hex_member_def)

text \<open>The field that an entry named \<open>k\<close> sets still has its initial value.\<close>

definition fresh_field :: "string \<Rightarrow> nostr_filter \<Rightarrow> bool" where
  "fresh_field k f \<longleftrightarrow> (k = ''ids'' \<longrightarrow> nf_ids f = None) \<and> (k = ''authors'' \<longrightarrow> nf_authors f = None) \<and>
     (k = ''kinds'' \<longrightarrow> nf_kinds f = None) \<and> (k = ''since'' \<longrightarrow> nf_since f = 0) \<and>
     (k = ''until'' \<longrightarrow> nf_until f = MAX_U64) \<and>
     (\<forall>t. k = [CHR ''#'', t] \<longrightarrow> t \<notin> fst ` set (nf_tags f))"

lemma tag_key: "starts_with k ''#'' \<Longrightarrow> length k = 2 \<Longrightarrow> k = [CHR ''#'', k ! 1]"
  by (cases k; cases "tl k") (auto simp: starts_with_def)

lemma starts_with_hash [simp]: "starts_with [CHR ''#'', t] ''#''"
  by (simp add: starts_with_def)

lemma get_unsigned_Inr [simp]: "get_unsigned v = Inr n \<longleftrightarrow> v = JUnsigned n"
  by (cases v) auto

text \<open>The branches of the constructor's loop body that do not throw.\<close>

lemma NostrFilter_field_cases:
  assumes "NostrFilter_field L (k, v) (f, n) = Inr (f', n')"
  obtains (never) "v = JArray []" "f' = f\<lparr>nf_neverMatch := True\<rparr>"
  | (ids) s where "k = ''ids''" "v \<noteq> JArray []" "FilterSetBytes L v True 32 32 = Inr s"
      "f' = f\<lparr>nf_ids := Some s\<rparr>"
  | (authors) s where "k = ''authors''" "v \<noteq> JArray []" "FilterSetBytes L v True 32 32 = Inr s"
      "f' = f\<lparr>nf_authors := Some s\<rparr>"
  | (kinds) s where "k = ''kinds''" "v \<noteq> JArray []" "FilterSetUint v = Inr s"
      "f' = f\<lparr>nf_kinds := Some s\<rparr>"
  | (tag) t s where "k = [CHR ''#'', t]" "v \<noteq> JArray []"
      "\<And>b. FilterSetBytes_doesMatch s b \<longleftrightarrow>
        (if t = CHR ''p'' \<or> t = CHR ''e'' then hex_member L b v else b \<in> json_strings v)"
      "f' = f\<lparr>nf_tags := tags_emplace t s (nf_tags f)\<rparr>"
  | (since) u where "k = ''since''" "v = JUnsigned u" "f' = f\<lparr>nf_since := u\<rparr>"
  | (until) u where "k = ''until''" "v = JUnsigned u" "f' = f\<lparr>nf_until := u\<rparr>"
  | (limit) u where "k = ''limit''" "v = JUnsigned u" "f' = f\<lparr>nf_limit := u\<rparr>"
proof (cases "v = JArray []")
  case True
  with assms show thesis
    by (intro never) (simp_all add: NostrFilter_field_def)
next
  case v: False
  consider "k = ''ids''" | "k = ''authors''" | "k = ''kinds''" | "starts_with k ''#''"
    | "k = ''since''" | "k = ''until''" | "k = ''limit''"
    using assms v by (auto simp: NostrFilter_field_def Let_def split: if_split_asm)
  then show thesis
  proof cases
    case 1
    with assms v ids show thesis by (auto simp: NostrFilter_field_def bindE_eq_Inr)
  next
    case 2
    with assms v authors show thesis by (auto simp: NostrFilter_field_def bindE_eq_Inr)
  next
    case 3
    with assms v kinds show thesis by (auto simp: NostrFilter_field_def bindE_eq_Inr)
  next
    case 4
    then have other: "k \<noteq> ''ids''" "k \<noteq> ''authors''" "k \<noteq> ''kinds''"
      by (auto simp: starts_with_def)
    with assms v 4 have "length k = 2"
      by (simp add: NostrFilter_field_def split: if_split_asm)
    then have k: "k = [CHR ''#'', k ! 1]"
      using tag_key 4 by blast
    let ?hex = "k ! 1 = CHR ''p'' \<or> k ! 1 = CHR ''e''"
    from assms v 4 other \<open>length k = 2\<close> obtain s where
      s: "if ?hex then FilterSetBytes L v True 32 32 = Inr s
          else FilterSetBytes L v False 0 MAX_INDEXED_TAG_VAL_SIZE = Inr s"
      and f': "f' = f\<lparr>nf_tags := tags_emplace (k ! 1) s (nf_tags f)\<rparr>"
      by (cases ?hex) (auto simp: NostrFilter_field_def Let_def bindE_eq_Inr)
    have "FilterSetBytes_doesMatch s b \<longleftrightarrow>
        (if ?hex then hex_member L b v else b \<in> json_strings v)" for b
      using s FilterSetBytes_hex_member FilterSetBytes_raw_member by (cases ?hex) simp_all
    from tag [OF k v this f'] show thesis .
  next
    case 5
    with assms v since show thesis
      by (auto simp: NostrFilter_field_def bindE_eq_Inr starts_with_def)
  next
    case 6
    with assms v until show thesis
      by (auto simp: NostrFilter_field_def bindE_eq_Inr starts_with_def)
  next
    case 7
    with assms v limit show thesis
      by (auto simp: NostrFilter_field_def bindE_eq_Inr starts_with_def)
  qed
qed

lemma nip01_entry_tag:
  "nip01_entry L e ([CHR ''#'', t], v) \<longleftrightarrow> (\<exists>u\<in>set (ev_tags e). fst u = t \<and>
     (if t = CHR ''p'' \<or> t = CHR ''e'' then hex_member L (snd u) v else snd u \<in> json_strings v))"
proof -
  have "[CHR ''#'', t] = [CHR ''#'', fst u] \<longleftrightarrow> fst u = t" for u :: "char \<times> string"
    by auto
  then show ?thesis
    by (simp add: nip01_entry_def cong: conj_cong)
qed

lemma nip01_entry_Nil: "\<not> nip01_entry L e (k, JArray [])"
  by (auto simp: nip01_entry_def Let_def)

lemma NostrFilter_field_matches:
  assumes "NostrFilter_field L (k, v) (f, n) = Inr (f', n')" and "fresh_field k f"
  shows "nf_matches f' e \<longleftrightarrow> nf_matches f e \<and> nip01_entry L e (k, v)"
  using assms(1)
proof (cases rule: NostrFilter_field_cases)
  case never
  then show ?thesis by (simp add: nf_matches_def nip01_entry_Nil)
next
  case (ids s)
  with assms(2) show ?thesis
    by (simp add: nf_matches_def fresh_field_def nip01_entry_def FilterSetBytes_hex_member) blast
next
  case (authors s)
  with assms(2) show ?thesis
    by (simp add: nf_matches_def fresh_field_def nip01_entry_def FilterSetBytes_hex_member) blast
next
  case (kinds s)
  with assms(2) show ?thesis
    by (simp add: nf_matches_def fresh_field_def nip01_entry_def FilterSetUint_member) blast
next
  case (tag t s)
  with assms(2) have "tags_emplace t s (nf_tags f) = nf_tags f @ [(t, s)]"
    by (simp add: fresh_field_def tags_emplace_def)
  moreover have "nip01_entry L e (k, v) \<longleftrightarrow>
      (\<exists>u\<in>set (ev_tags e). fst u = t \<and> FilterSetBytes_doesMatch s (snd u))"
    by (simp add: tag(1,3) nip01_entry_tag)
  ultimately show ?thesis
    by (simp add: tag(4) nf_matches_def) blast
next
  case (since u)
  with assms(2) show ?thesis
    by (simp add: nf_matches_def fresh_field_def nip01_entry_def starts_with_def) blast
next
  case (until u)
  with assms(2) show ?thesis
    by (simp add: nf_matches_def fresh_field_def nip01_entry_def starts_with_def) blast
next
  case (limit u)
  then show ?thesis
    by (simp add: nf_matches_def nip01_entry_def starts_with_def)
qed

lemma NostrFilter_field_fresh:
  assumes "NostrFilter_field L (k, v) (f, n) = Inr (f', n')" and "k' \<noteq> k" and "fresh_field k' f"
  shows "fresh_field k' f'"
  using assms(1)
proof (cases rule: NostrFilter_field_cases)
  case (tag t s)
  with assms(2,3) show ?thesis
    by (auto simp: fresh_field_def tags_emplace_def)
qed (use assms(2,3) in \<open>simp_all add: fresh_field_def\<close>)

lemma NostrFilter_fold_matches:
  assumes "foldE (NostrFilter_field L) kvs (f, n) = Inr (f', n')" and "distinct (map fst kvs)"
    and "\<forall>k\<in>fst ` set kvs. fresh_field k f"
  shows "nf_matches f' e \<longleftrightarrow> nf_matches f e \<and> nip01_match L e kvs"
  using assms
proof (induction kvs arbitrary: f n)
  case Nil
  then show ?case by (simp add: nip01_match_def)
next
  case (Cons kv kvs)
  obtain k v where kv: "kv = (k, v)" by (cases kv)
  from Cons.prems(1) kv obtain f1 n1 where step: "NostrFilter_field L (k, v) (f, n) = Inr (f1, n1)"
    and rest: "foldE (NostrFilter_field L) kvs (f1, n1) = Inr (f', n')"
    by (auto simp: bindE_eq_Inr)
  have "\<forall>k'\<in>fst ` set kvs. fresh_field k' f1"
  proof
    fix k' assume k': "k' \<in> fst ` set kvs"
    then have "k' \<noteq> k" using Cons.prems(2) kv by auto
    moreover have "fresh_field k' f" using Cons.prems(3) k' by auto
    ultimately show "fresh_field k' f1" by (rule NostrFilter_field_fresh [OF step])
  qed
  with Cons.IH [OF rest] Cons.prems(2)
  have "nf_matches f' e \<longleftrightarrow> nf_matches f1 e \<and> nip01_match L e kvs" by simp
  with NostrFilter_field_matches [OF step] Cons.prems(3) kv show ?case
    by (auto simp: nip01_match_def)
qed

lemma NostrFilter_matches:
  assumes "NostrFilter L (JObject kvs) maxLimit = Inr f" and "distinct (map fst kvs)"
  shows "nf_matches f e \<longleftrightarrow> nip01_match L e kvs"
proof -
  from assms(1) obtain f1 n1 where fold: "foldE (NostrFilter_field L) kvs (empty_filter, 0) = Inr (f1, n1)"
    and f: "nf_matches f e \<longleftrightarrow> nf_matches f1 e"
    by (auto simp: NostrFilter_def bindE_eq_Inr Let_def nf_matches_def)
  have "nf_matches empty_filter e"
    by (simp add: nf_matches_def empty_filter_def)
  moreover have "\<forall>k\<in>fst ` set kvs. fresh_field k empty_filter"
    by (simp add: fresh_field_def empty_filter_def)
  ultimately show ?thesis
    using NostrFilter_fold_matches [OF fold assms(2)] f by simp
qed

text \<open>The limit that an object asks for, and a later bound on the time as one more entry.\<close>

definition asked_limit :: "(string \<times> json) list \<Rightarrow> u64" where
  "asked_limit kvs = (case map_of kvs ''limit'' of Some (JUnsigned n) \<Rightarrow> n | _ \<Rightarrow> MAX_U64)"

lemma NostrFilter_field_limit:
  assumes "NostrFilter_field L (k, v) (f, n) = Inr (f', n')"
  shows "nf_limit f' = (if k = ''limit'' then (case v of JUnsigned u \<Rightarrow> u | _ \<Rightarrow> nf_limit f) else nf_limit f)"
  using assms by (cases rule: NostrFilter_field_cases) (auto simp: starts_with_def)

lemma NostrFilter_fold_limit:
  assumes "foldE (NostrFilter_field L) kvs (f, n) = Inr (f', n')" "distinct (map fst kvs)"
  shows "nf_limit f' = (case map_of kvs ''limit'' of Some (JUnsigned u) \<Rightarrow> u | _ \<Rightarrow> nf_limit f)"
  using assms
proof (induction kvs arbitrary: f n)
  case (Cons kv kvs)
  obtain k v where kv: "kv = (k, v)" by (cases kv)
  from Cons.prems(1) obtain f1 n1 where step: "NostrFilter_field L (k, v) (f, n) = Inr (f1, n1)"
    and rest: "foldE (NostrFilter_field L) kvs (f1, n1) = Inr (f', n')" by (auto simp: kv bindE_eq_Inr)
  have IH: "nf_limit f' = (case map_of kvs ''limit'' of Some (JUnsigned u) \<Rightarrow> u | _ \<Rightarrow> nf_limit f1)"
    by (rule Cons.IH [OF rest]) (use Cons.prems(2) in simp)
  show ?case
  proof (cases "k = ''limit''")
    case True
    then have "map_of kvs ''limit'' = None" using Cons.prems(2) by (simp add: kv map_of_eq_None_iff)
    then show ?thesis using IH NostrFilter_field_limit [OF step] True by (simp add: kv)
  next
    case False
    then have "nf_limit f1 = nf_limit f" using NostrFilter_field_limit [OF step] by simp
    then show ?thesis using IH False by (simp add: kv cong: option.case_cong json.case_cong)
  qed
qed simp

lemma NostrFilter_limit:
  assumes "NostrFilter L (JObject kvs) maxLimit = Inr f" "distinct (map fst kvs)"
  shows "nf_limit f = min maxLimit (asked_limit kvs)"
proof -
  obtain f1 n1 where fold: "foldE (NostrFilter_field L) kvs (empty_filter, 0) = Inr (f1, n1)"
    and f: "nf_limit f = (if nf_limit f1 > maxLimit then maxLimit else nf_limit f1)"
    using assms(1) by (auto simp: NostrFilter_def bindE_eq_Inr Let_def)
  have "nf_limit f1 = asked_limit kvs"
    using NostrFilter_fold_limit [OF fold assms(2)] unfolding asked_limit_def by (simp add: empty_filter_def cong: option.case_cong json.case_cong)
  then show ?thesis using f by (auto simp: min_def)
qed

lemma NostrFilter_field_until:
  "fst kv \<noteq> ''until'' \<Longrightarrow>
   NostrFilter_field L kv (f\<lparr>nf_until := u\<rparr>, n) = bindE (NostrFilter_field L kv (f, n)) (\<lambda>st. Inr ((fst st)\<lparr>nf_until := u\<rparr>, snd st))"
  by (cases kv; cases f) (simp add: NostrFilter_field_def Let_def bindE_assoc)

lemma NostrFilter_fold_until:
  "''until'' \<notin> fst ` set kvs \<Longrightarrow> foldE (NostrFilter_field L) kvs (f, n) = Inr (f', n') \<Longrightarrow>
   foldE (NostrFilter_field L) kvs (f\<lparr>nf_until := u\<rparr>, n) = Inr (f'\<lparr>nf_until := u\<rparr>, n')"
proof (induction kvs arbitrary: f n)
  case (Cons kv kvs)
  from Cons.prems(2) obtain f1 n1 where step: "NostrFilter_field L kv (f, n) = Inr (f1, n1)"
    and rest: "foldE (NostrFilter_field L) kvs (f1, n1) = Inr (f', n')" by (auto simp: bindE_eq_Inr)
  have "fst kv \<noteq> ''until''" "''until'' \<notin> fst ` set kvs" using Cons.prems(1) by auto
  then show ?case using NostrFilter_field_until [where kv = kv and L = L and f = f and u = u and n = n] step Cons.IH [OF _ rest] by simp
qed simp

lemma smap_update_new:
  "k \<notin> fst ` set m \<Longrightarrow> \<exists>a b. m = a @ b \<and> smap_update k d f m = a @ (k, f d) # b"
proof (induction k d f m rule: smap_update.induct)
  case (2 k d f j v m)
  show ?case
  proof (cases "k < j")
    case True
    then show ?thesis by (intro exI [of _ "[]"] exI [of _ "(j, v) # m"]) simp
  next
    case False
    then obtain a b where "m = a @ b" "smap_update k d f m = a @ (k, f d) # b" using 2 by auto
    then show ?thesis using False 2(2) by (intro exI [of _ "(j, v) # a"] exI [of _ b]) simp
  qed
qed simp

lemma NostrFilter_with_until:
  assumes "NostrFilter L (JObject kvs) maxLimit = Inr f" "''until'' \<notin> fst ` set kvs"
  shows "NostrFilter L (JObject (smap_update ''until'' d (\<lambda>_. JUnsigned u) kvs)) maxLimit = Inr (f\<lparr>nf_until := u\<rparr>)"
proof -
  obtain a b where ab: "kvs = a @ b" "smap_update ''until'' d (\<lambda>_. JUnsigned u) kvs = a @ (''until'', JUnsigned u) # b"
    using smap_update_new [OF assms(2), of d "\<lambda>_. JUnsigned u"] by blast
  obtain f1 :: nostr_filter and n1 where fold: "foldE (NostrFilter_field L) kvs (empty_filter, 0) = Inr (f1, n1)" and few: "\<not> length (nf_tags f1) > 3"
    and f: "f = f1\<lparr>nf_limit := (if nf_limit f1 > maxLimit then maxLimit else nf_limit f1),
      nf_indexOnlyScans := (n1 \<le> 1 \<or> (n1 = 2 \<and> nf_authors f1 \<noteq> None \<and> nf_kinds f1 \<noteq> None))\<rparr>"
    using assms(1) by (auto simp: NostrFilter_def bindE_eq_Inr Let_def)
  obtain f2 n2 where a: "foldE (NostrFilter_field L) a (empty_filter, 0) = Inr (f2, n2)" and b: "foldE (NostrFilter_field L) b (f2, n2) = Inr (f1, n1)"
    using fold unfolding ab(1) foldE_append by (auto simp: bindE_eq_Inr)
  have "''until'' \<notin> fst ` set b" using assms(2) by (auto simp: ab(1))
  then have "foldE (NostrFilter_field L) b (f2\<lparr>nf_until := u\<rparr>, n2) = Inr (f1\<lparr>nf_until := u\<rparr>, n1)" by (rule NostrFilter_fold_until [OF _ b])
  then have "foldE (NostrFilter_field L) (a @ (''until'', JUnsigned u) # b) (empty_filter, 0) = Inr (f1\<lparr>nf_until := u\<rparr>, n1)"
    using a by (simp add: foldE_append NostrFilter_field_def starts_with_def)
  then show ?thesis unfolding ab(2) using few by (simp add: NostrFilter_def throw_if_def f)
qed

lemma nip01_match_with_until:
  assumes "''until'' \<notin> fst ` set kvs"
  shows "nip01_match L e (smap_update ''until'' d (\<lambda>_. JUnsigned u) kvs) \<longleftrightarrow> nip01_match L e kvs \<and> ev_created_at e \<le> u"
proof -
  obtain a b where ab: "kvs = a @ b" "smap_update ''until'' d (\<lambda>_. JUnsigned u) kvs = a @ (''until'', JUnsigned u) # b"
    using smap_update_new [OF assms, of d "\<lambda>_. JUnsigned u"] by blast
  have "nip01_entry L e (''until'', JUnsigned u) \<longleftrightarrow> ev_created_at e \<le> u" by (simp add: nip01_entry_def starts_with_def)
  then show ?thesis unfolding ab(2) by (auto simp: nip01_match_def ab(1))
qed

lemma NostrFilter_is_object: "NostrFilter L x m = Inr f \<Longrightarrow> \<exists>kvs. x = JObject kvs"
  by (cases x) (auto simp: NostrFilter_def bindE_eq_Inr)

definition distinct_keys :: "json \<Rightarrow> bool" where
  "distinct_keys x \<longleftrightarrow> (\<forall>kvs. x = JObject kvs \<longrightarrow> distinct (map fst kvs))"

lemma NostrFilterGroup_fold_matches:
  assumes "foldE (NostrFilterGroup_add L m) xs fs = Inr fs'" and "\<forall>x\<in>set xs. distinct_keys x"
  shows "(\<exists>f\<in>set fs'. nf_matches f e) \<longleftrightarrow>
    (\<exists>f\<in>set fs. nf_matches f e) \<or> (\<exists>kvs. JObject kvs \<in> set xs \<and> nip01_match L e kvs)"
  using assms
proof (induction xs arbitrary: fs)
  case Nil
  then show ?case by simp
next
  case (Cons x xs)
  from Cons.prems(1) obtain f where f: "NostrFilter L x m = Inr f"
    and rest: "foldE (NostrFilterGroup_add L m) xs (if nf_neverMatch f then fs else fs @ [f]) = Inr fs'"
    unfolding foldE.simps NostrFilterGroup_add_def [of L m x fs] by (auto simp: bindE_eq_Inr)
  obtain kvs where kvs: "x = JObject kvs"
    using NostrFilter_is_object [OF f] by blast
  have "nf_matches f e \<longleftrightarrow> nip01_match L e kvs"
    using NostrFilter_matches f kvs Cons.prems(2) by (simp add: distinct_keys_def)
  moreover have "nf_neverMatch f \<Longrightarrow> \<not> nf_matches f e"
    by (simp add: nf_matches_def)
  ultimately show ?case
    using Cons.IH [OF rest] Cons.prems(2) kvs by (auto split: if_splits)
qed

section \<open>Properties\<close>

text \<open>
  C13. The compiled filter refines the JSON filter: on every packed event the verdict of
  \<^verbatim>\<open>NostrFilter::doesMatch\<close> is that of NIP-01 on the object the filter was built from
  (an object has each key once).  The shortcuts of the compiled form, an empty list that
  makes the filter match nothing, the sorted sets, the default time bounds, lose nothing.
\<close>

theorem NostrFilter_refines_nip01:
  assumes "sv_codec L" and "wf_event e" and "distinct (map fst kvs)"
    and "NostrFilter L (JObject kvs) maxFilterLimit = Inr f"
  shows "NostrFilter_doesMatch L f (pack_event L e) = Inr (nip01_match L e kvs)"
  using sv_codec.NostrFilter_doesMatch_event [OF assms(1,2)] NostrFilter_matches [OF assms(4,3)]
  by simp

definition sample_event :: event where
  "sample_event = \<lparr>ev_id = replicate 32 (CHR ''i''), ev_pubkey = replicate 32 (CHR ''p''),
     ev_created_at = 100, ev_kind = 1, ev_expiration = 0, ev_tags = [(CHR ''t'', ''x'')]\<rparr>"

lemma wf_sample_event: "wf_event sample_event"
  by (simp add: wf_event_def sample_event_def)

theorem NostrFilter_refines_nip01_witness:
  "\<exists>f. NostrFilter le_lib (JObject [(''#t'', JArray [JString ''x'']), (''since'', JUnsigned 50)]) 500 = Inr f \<and>
     NostrFilter_doesMatch le_lib f (pack_event le_lib sample_event) = Inr True"
proof -
  let ?kvs = "[(''#t'', JArray [JString ''x'']), (''since'', JUnsigned 50)]"
  obtain f where f: "NostrFilter le_lib (JObject ?kvs) 500 = Inr f"
    by (simp add: NostrFilter_def NostrFilter_field_def starts_with_def FilterSetBytes_def
        FilterSetBytes_item_def MAX_INDEXED_TAG_VAL_SIZE_def Let_def throw_if_def tags_emplace_def
        empty_filter_def)
  have "nip01_match le_lib sample_event ?kvs"
    by (simp add: nip01_match_def nip01_entry_def sample_event_def starts_with_def json_strings_def)
  with NostrFilter_refines_nip01 [OF le.sv_codec_axioms wf_sample_event _ f] f show ?thesis
    by simp
qed

text \<open>
  C18. A subscription matches an event exactly when one of the filter objects of its REQ
  does: the filters dropped because they can never match are the ones NIP-01 never
  satisfies.
\<close>

theorem NostrFilterGroup_refines_nip01:
  assumes "sv_codec L" and "wf_event e" and "\<forall>x\<in>set (drop 2 arr). distinct_keys x"
    and "NostrFilterGroup L (JArray arr) maxFilterLimit = Inr fs"
  shows "NostrFilterGroup_doesMatch L fs (pack_event L e) =
    Inr (\<exists>kvs. JObject kvs \<in> set (drop 2 arr) \<and> nip01_match L e kvs)"
proof -
  have "foldE (NostrFilterGroup_add L maxFilterLimit) (drop 2 arr) [] = Inr fs"
    using assms(4) by (simp add: NostrFilterGroup_def bindE_eq_Inr)
  from NostrFilterGroup_fold_matches [OF this assms(3)]
  show ?thesis
    using sv_codec.NostrFilterGroup_doesMatch_event [OF assms(1,2)] by simp
qed

theorem NostrFilterGroup_refines_nip01_witness:
  "\<exists>fs. NostrFilterGroup le_lib
       (JArray [JString ''REQ'', JString ''s'', JObject [(''kinds'', JArray [])], JObject []]) 500 = Inr fs \<and>
     NostrFilterGroup_doesMatch le_lib fs (pack_event le_lib sample_event) = Inr True"
proof -
  let ?arr = "[JString ''REQ'', JString ''s'', JObject [(''kinds'', JArray [])], JObject []]"
  obtain fs where fs: "NostrFilterGroup le_lib (JArray ?arr) 500 = Inr fs"
    by (simp add: NostrFilterGroup_def NostrFilterGroup_add_def NostrFilter_def NostrFilter_field_def
        throw_if_def Let_def empty_filter_def)
  have ex: "\<exists>kvs. JObject kvs \<in> set (drop 2 ?arr) \<and> nip01_match le_lib sample_event kvs"
    by (intro exI [of _ "[]"]) (simp add: nip01_match_def)
  have dk: "\<forall>x\<in>set (drop 2 ?arr). distinct_keys x"
    by (simp add: distinct_keys_def)
  have "NostrFilterGroup_doesMatch le_lib fs (pack_event le_lib sample_event) = Inr True"
    unfolding NostrFilterGroup_refines_nip01 [OF le.sv_codec_axioms wf_sample_event dk fs]
    using ex by (simp only: simp_thms)
  with fs show ?thesis by (intro exI conjI)
qed

end
