(* ===== verification/Rate_Limiter.thy ===== *)
theory Rate_Limiter
  imports Strfry_Prelude
begin

text \<open>
  The HTTP rate limiter (\<^verbatim>\<open>src/src/RateLimiter.h\<close>, \<^verbatim>\<open>src/src/RateLimiter.cpp\<close>): token
  buckets, the LRU cache of buckets with its list iterators, the check of a request against
  the global, the per-address and the per-key bucket, the clean-up thread, the statistics.

  \<^verbatim>\<open>steady_clock::now()\<close> is the next reading of a sequence \<open>clk\<close> of readings in seconds,
  and every function threads the number of readings taken so far.  A \<^verbatim>\<open>double\<close> is a real
  number: rounding is not modelled.  \<^verbatim>\<open>checkAndConsume\<close>, \<^verbatim>\<open>cleanup\<close> and
  \<^verbatim>\<open>getStats\<close> run under one mutex, so a run of the limiter is a sequence of them.
\<close>

type_synonym clock = "nat \<Rightarrow> real"

section \<open>Token buckets\<close>

record token_bucket =
  tb_tokens :: real
  tb_capacity :: real
  tb_refillRate :: real
  tb_lastRefill :: real
  tb_requestCount :: u64

definition TokenBucket :: "clock \<Rightarrow> nat \<Rightarrow> real \<Rightarrow> real \<Rightarrow> token_bucket \<times> nat" where
  "TokenBucket clk t cap rate =
     (\<lparr>tb_tokens = cap, tb_capacity = cap, tb_refillRate = rate, tb_lastRefill = clk t,
       tb_requestCount = 0\<rparr>, Suc t)"

definition tb_refill :: "clock \<Rightarrow> nat \<Rightarrow> token_bucket \<Rightarrow> token_bucket \<times> nat" where
  "tb_refill clk t b =
     (let now = clk t; elapsed = now - tb_lastRefill b
      in (b\<lparr>tb_tokens := min (tb_capacity b) (tb_tokens b + elapsed * tb_refillRate b),
            tb_lastRefill := now\<rparr>, Suc t))"

definition tb_consume :: "clock \<Rightarrow> nat \<Rightarrow> token_bucket \<Rightarrow> real \<Rightarrow> bool \<times> token_bucket \<times> nat" where
  "tb_consume clk t b amount =
     (let (b', t') = tb_refill clk t b
      in if tb_tokens b' \<ge> amount
         then (True, b'\<lparr>tb_tokens := tb_tokens b' - amount,
                       tb_requestCount := tb_requestCount b' + 1\<rparr>, t')
         else (False, b', t'))"

section \<open>The LRU cache of buckets\<close>

text \<open>
  The nodes of \<^verbatim>\<open>lruOrder\<close> carry an identity, the position a stored iterator refers to;
  the map holds a bucket and the iterator of its key's node.
\<close>

record lru_cache =
  lru_order :: "(nat \<times> string) list"
  lru_buckets :: "(string \<times> token_bucket \<times> nat) list"
  lru_next :: nat

definition empty_cache :: lru_cache where
  "empty_cache = \<lparr>lru_order = [], lru_buckets = [], lru_next = 0\<rparr>"

definition lru_size :: "lru_cache \<Rightarrow> nat" where
  "lru_size c = length (lru_buckets c)"

text \<open>\<^verbatim>\<open>lruOrder.splice(begin, lruOrder, it)\<close>: the node moves to the front and keeps its identity.\<close>

definition lru_touch :: "string \<Rightarrow> nat \<Rightarrow> lru_cache \<Rightarrow> lru_cache" where
  "lru_touch key it c =
     c\<lparr>lru_order := List.filter (\<lambda>n. fst n = it) (lru_order c) @
                   List.filter (\<lambda>n. fst n \<noteq> it) (lru_order c)\<rparr>"

text \<open>The pointer that \<^verbatim>\<open>get\<close> and \<^verbatim>\<open>insert\<close> return is the key under which the bucket is stored.\<close>

definition lru_get :: "string \<Rightarrow> lru_cache \<Rightarrow> token_bucket option \<times> lru_cache" where
  "lru_get key c =
     (case map_of (lru_buckets c) key of
        None \<Rightarrow> (None, c)
      | Some (b, it) \<Rightarrow> (Some b, lru_touch key it c))"

definition lru_insert :: "string \<Rightarrow> token_bucket \<Rightarrow> lru_cache \<Rightarrow> lru_cache" where
  "lru_insert key b c =
     c\<lparr>lru_order := (lru_next c, key) # lru_order c,
       lru_buckets := (if key \<in> fst ` set (lru_buckets c) then lru_buckets c
                       else lru_buckets c @ [(key, b, lru_next c)]),
       lru_next := Suc (lru_next c)\<rparr>"

definition lru_erase :: "string \<Rightarrow> lru_cache \<Rightarrow> lru_cache" where
  "lru_erase key c = c\<lparr>lru_buckets := List.filter (\<lambda>kb. fst kb \<noteq> key) (lru_buckets c)\<rparr>"

definition lru_pop_back :: "lru_cache \<Rightarrow> lru_cache" where
  "lru_pop_back c = c\<lparr>lru_order := butlast (lru_order c)\<rparr>"

definition lru_evictOldest :: "lru_cache \<Rightarrow> lru_cache" where
  "lru_evictOldest c =
     (if lru_order c = [] then c
      else lru_pop_back (lru_erase (snd (last (lru_order c))) c))"

text \<open>A write through the pointer to the bucket stored under \<open>key\<close>.\<close>

definition lru_store :: "string \<Rightarrow> token_bucket \<Rightarrow> lru_cache \<Rightarrow> lru_cache" where
  "lru_store key b c =
     c\<lparr>lru_buckets := map (\<lambda>kb. if fst kb = key then (key, b, snd (snd kb)) else kb)
                        (lru_buckets c)\<rparr>"

function lru_eraseStale_loop ::
    "clock \<Rightarrow> real \<Rightarrow> real \<Rightarrow> nat \<Rightarrow> nat \<Rightarrow> lru_cache \<Rightarrow> lru_cache \<times> nat \<times> nat" where
  "lru_eraseStale_loop clk now staleSeconds t removedCount c =
     (if lru_order c = [] then (c, t, removedCount)
      else
        (let key = snd (last (lru_order c))
         in case map_of (lru_buckets c) key of
              None \<Rightarrow> lru_eraseStale_loop clk now staleSeconds t removedCount (lru_pop_back c)
            | Some (b, it) \<Rightarrow>
                (let (b', t') = tb_refill clk t b;
                     c' = lru_store key b' c;
                     timeSinceRefill = now - tb_lastRefill b';
                     isStale = (tb_tokens b' \<ge> tb_capacity b' * (95 / 100) \<and>
                                timeSinceRefill > staleSeconds)
                 in if isStale
                    then lru_eraseStale_loop clk now staleSeconds t' (removedCount + 1)
                           (lru_pop_back (lru_erase key c'))
                    else (c', t', removedCount))))"
  by pat_completeness auto
termination
  by (relation "measure (\<lambda>(clk, now, st, t, r, c). length (lru_order c))")
    (auto simp: lru_pop_back_def lru_erase_def lru_store_def)

declare lru_eraseStale_loop.simps [simp del]

definition lru_eraseStale :: "clock \<Rightarrow> real \<Rightarrow> nat \<Rightarrow> lru_cache \<Rightarrow> lru_cache \<times> nat \<times> nat" where
  "lru_eraseStale clk staleSeconds t c =
     lru_eraseStale_loop clk (clk t) staleSeconds (Suc t) 0 c"

section \<open>The limiter\<close>

record rl_config =
  cfg_enabled :: bool
  cfg_perIpPerMinute :: u64
  cfg_perPubkeyPerMinute :: u64
  cfg_globalPerMinute :: u64
  cfg_burstMultiplier :: real
  cfg_cleanupIntervalSeconds :: u64
  cfg_maxIpBuckets :: u64
  cfg_maxPubkeyBuckets :: u64
  cfg_staleBucketSeconds :: u64

record rate_limiter =
  rl_config :: rl_config
  rl_ipCache :: lru_cache
  rl_pubkeyCache :: lru_cache
  rl_globalBucket :: token_bucket
  rl_totalRequests :: u64
  rl_rateLimitedRequests :: u64
  rl_running :: bool
  rl_thread :: bool

text \<open>\<^verbatim>\<open>CheckResult\<close>: whether the request is allowed, and the reason when it is not.\<close>

record check_result =
  allowed :: bool
  reason :: string

definition dbl :: "u64 \<Rightarrow> real" where
  "dbl n = real (unat n)"

definition RateLimiter :: "clock \<Rightarrow> nat \<Rightarrow> rl_config \<Rightarrow> rate_limiter \<times> nat" where
  "RateLimiter clk t config =
     (let (g, t') = TokenBucket clk t (dbl (cfg_globalPerMinute config) * cfg_burstMultiplier config)
                      (dbl (cfg_globalPerMinute config) / 60)
      in (\<lparr>rl_config = config, rl_ipCache = empty_cache, rl_pubkeyCache = empty_cache,
           rl_globalBucket = g, rl_totalRequests = 0, rl_rateLimitedRequests = 0,
           rl_running = True,
           rl_thread = (cfg_enabled config \<and> cfg_cleanupIntervalSeconds config > 0)\<rparr>, t'))"

definition checkBucket ::
    "clock \<Rightarrow> nat \<Rightarrow> string \<Rightarrow> lru_cache \<Rightarrow> real \<Rightarrow> real \<Rightarrow> string \<Rightarrow> u64 \<Rightarrow>
     string \<times> lru_cache \<times> nat" where
  "checkBucket clk t key cache capacity refillRate limitType maxBuckets =
     (let (bucket, c1, t1) =
        (case lru_get key cache of
           (Some b, c) \<Rightarrow> (b, c, t)
         | (None, c) \<Rightarrow>
             (let c' = (if lru_size c \<ge> unat maxBuckets then lru_evictOldest c else c);
                  (b, t') = TokenBucket clk t capacity refillRate
              in (b, lru_insert key b c', t')));
          (ok, b', t2) = tb_consume clk t1 bucket 1;
          c2 = lru_store key b' c1
      in if \<not> ok then (''rate_limit_exceeded: '' @ limitType, c2, t2) else ([], c2, t2))"

text \<open>
  The three checks of \<^verbatim>\<open>checkAndConsume\<close>, each with the verdict it returns early with;
  an empty reason lets the request through.
\<close>

definition check_global :: "clock \<Rightarrow> nat \<Rightarrow> rate_limiter \<Rightarrow> string \<times> rate_limiter \<times> nat" where
  "check_global clk t s =
     (if cfg_globalPerMinute (rl_config s) > 0 then
        (let (ok, g, t') = tb_consume clk t (rl_globalBucket s) 1
         in (if ok then [] else ''rate_limit_exceeded: global'', s\<lparr>rl_globalBucket := g\<rparr>, t'))
      else ([], s, t))"

definition check_ip :: "clock \<Rightarrow> nat \<Rightarrow> string \<Rightarrow> rate_limiter \<Rightarrow> string \<times> rate_limiter \<times> nat" where
  "check_ip clk t ipAddress s =
     (if cfg_perIpPerMinute (rl_config s) > 0 \<and> ipAddress \<noteq> [] then
        (let ipCapacity = dbl (cfg_perIpPerMinute (rl_config s)) * cfg_burstMultiplier (rl_config s);
             ipRefillRate = dbl (cfg_perIpPerMinute (rl_config s)) / 60;
             (r, c, t') = checkBucket clk t ipAddress (rl_ipCache s) ipCapacity ipRefillRate
                            ''per_ip'' (cfg_maxIpBuckets (rl_config s))
         in (r, s\<lparr>rl_ipCache := c\<rparr>, t'))
      else ([], s, t))"

definition check_pubkey :: "clock \<Rightarrow> nat \<Rightarrow> string \<Rightarrow> rate_limiter \<Rightarrow> string \<times> rate_limiter \<times> nat" where
  "check_pubkey clk t pubkey s =
     (if cfg_perPubkeyPerMinute (rl_config s) > 0 \<and> pubkey \<noteq> [] then
        (let pubkeyCapacity = dbl (cfg_perPubkeyPerMinute (rl_config s)) * cfg_burstMultiplier (rl_config s);
             pubkeyRefillRate = dbl (cfg_perPubkeyPerMinute (rl_config s)) / 60;
             (r, c, t') = checkBucket clk t pubkey (rl_pubkeyCache s) pubkeyCapacity pubkeyRefillRate
                            ''per_pubkey'' (cfg_maxPubkeyBuckets (rl_config s))
         in (r, s\<lparr>rl_pubkeyCache := c\<rparr>, t'))
      else ([], s, t))"

definition rl_deny :: "string \<Rightarrow> rate_limiter \<Rightarrow> nat \<Rightarrow> check_result \<times> rate_limiter \<times> nat" where
  "rl_deny r s t =
     (\<lparr>allowed = False, reason = r\<rparr>,
      s\<lparr>rl_rateLimitedRequests := rl_rateLimitedRequests s + 1\<rparr>, t)"

definition checkAndConsume ::
    "clock \<Rightarrow> nat \<Rightarrow> rate_limiter \<Rightarrow> string \<Rightarrow> string \<Rightarrow> check_result \<times> rate_limiter \<times> nat" where
  "checkAndConsume clk t s ipAddress pubkey =
     (if \<not> cfg_enabled (rl_config s) then (\<lparr>allowed = True, reason = []\<rparr>, s, t)
      else
        (let s0 = s\<lparr>rl_totalRequests := rl_totalRequests s + 1\<rparr>;
             (r1, s1, t1) = check_global clk t s0
         in if r1 \<noteq> [] then rl_deny r1 s1 t1
            else
              (let (r2, s2, t2) = check_ip clk t1 ipAddress s1
               in if r2 \<noteq> [] then rl_deny r2 s2 t2
                  else
                    (let (r3, s3, t3) = check_pubkey clk t2 pubkey s2
                     in if r3 \<noteq> [] then rl_deny r3 s3 t3
                        else (\<lparr>allowed = True, reason = []\<rparr>, s3, t3)))))"

definition rl_cleanup :: "clock \<Rightarrow> nat \<Rightarrow> rate_limiter \<Rightarrow> rate_limiter \<times> nat" where
  "rl_cleanup clk t s =
     (let staleSeconds = dbl (cfg_staleBucketSeconds (rl_config s));
          (c1, t1, ipRemoved) = lru_eraseStale clk staleSeconds t (rl_ipCache s);
          (c2, t2, pubkeyRemoved) = lru_eraseStale clk staleSeconds t1 (rl_pubkeyCache s)
      in (s\<lparr>rl_ipCache := c1, rl_pubkeyCache := c2\<rparr>, t2))"

text \<open>
  One round of the loop of \<^verbatim>\<open>cleanupThreadFunc\<close>: the thread wakes after the interval or
  when it is stopped, leaves the loop when \<^verbatim>\<open>running_\<close> is false, and cleans up otherwise.
\<close>

definition cleanupThread_round :: "clock \<Rightarrow> nat \<Rightarrow> rate_limiter \<Rightarrow> rate_limiter \<times> nat" where
  "cleanupThread_round clk t s =
     (if \<not> rl_thread s then (s, t)
      else if \<not> rl_running s then (s\<lparr>rl_thread := False\<rparr>, t)
      else rl_cleanup clk t s)"

text \<open>\<^verbatim>\<open>stop()\<close> returns after the thread was joined.\<close>

definition rl_stop :: "rate_limiter \<Rightarrow> rate_limiter" where
  "rl_stop s = (if rl_running s then s\<lparr>rl_running := False, rl_thread := False\<rparr> else s)"

record rl_stats =
  st_totalRequests :: u64
  st_rateLimitedRequests :: u64
  st_ipBuckets :: nat
  st_pubkeyBuckets :: nat

definition getStats :: "rate_limiter \<Rightarrow> rl_stats" where
  "getStats s = \<lparr>st_totalRequests = rl_totalRequests s,
     st_rateLimitedRequests = rl_rateLimitedRequests s,
     st_ipBuckets = lru_size (rl_ipCache s), st_pubkeyBuckets = lru_size (rl_pubkeyCache s)\<rparr>"

section \<open>Runs of the limiter\<close>

text \<open>
  What the threads of the server do to the limiter, in the order in which they hold the
  mutex: check a request, let the clean-up thread make a round, stop it.
\<close>

datatype rl_op = Check string string | Tick | Stop

fun rl_step :: "clock \<Rightarrow> rl_op \<Rightarrow> rate_limiter \<times> nat \<Rightarrow> rate_limiter \<times> nat" where
  "rl_step clk (Check ip pk) (s, t) = snd (checkAndConsume clk t s ip pk)"
| "rl_step clk Tick (s, t) = cleanupThread_round clk t s"
| "rl_step clk Stop (s, t) = (rl_stop s, t)"

fun rl_allowed :: "clock \<Rightarrow> rl_op \<Rightarrow> rate_limiter \<times> nat \<Rightarrow> bool" where
  "rl_allowed clk (Check ip pk) (s, t) = allowed (fst (checkAndConsume clk t s ip pk))"
| "rl_allowed clk _ _ = False"

fun op_ip :: "rl_op \<Rightarrow> string" where
  "op_ip (Check ip pk) = ip"
| "op_ip _ = []"

text \<open>How many operations of a run satisfy a test in the state in which they run.\<close>

fun count_run :: "('o \<Rightarrow> 's \<Rightarrow> 's) \<Rightarrow> ('o \<Rightarrow> 's \<Rightarrow> bool) \<Rightarrow> 'o list \<Rightarrow> 's \<Rightarrow> nat" where
  "count_run step test [] s = 0"
| "count_run step test (x # xs) s = (if test x s then 1 else 0) + count_run step test xs (step x s)"

section \<open>Admission by credit\<close>

text \<open>
  The accounting behind every token bucket, stated once: a state has a credit that no
  operation overdraws, that each admission lowers by one and that grows with time at a fixed
  rate at most.
\<close>

locale admission =
  fixes step :: "'o \<Rightarrow> 's \<Rightarrow> 's" and admits :: "'o \<Rightarrow> 's \<Rightarrow> bool" and fits :: "'o \<Rightarrow> bool"
    and inv :: "'s \<Rightarrow> bool" and credit :: "'s \<Rightarrow> real" and time :: "'s \<Rightarrow> real" and rate :: real
  assumes inv_step: "inv s \<Longrightarrow> fits x \<Longrightarrow> inv (step x s)"
    and credit_step: "inv s \<Longrightarrow> fits x \<Longrightarrow>
      credit (step x s) + (if admits x s then 1 else 0) \<le> credit s + rate * (time (step x s) - time s)"
    and credit_nonneg: "inv s \<Longrightarrow> 0 \<le> credit s"
begin

lemma inv_run: "inv s \<Longrightarrow> (\<forall>x\<in>set xs. fits x) \<Longrightarrow> inv (fold step xs s)"
  by (induction xs arbitrary: s) (auto simp: inv_step)

lemma credit_run:
  assumes "inv s" and "\<forall>x\<in>set xs. fits x"
  shows "credit (fold step xs s) + real (count_run step admits xs s) \<le>
    credit s + rate * (time (fold step xs s) - time s)"
  using assms
proof (induction xs arbitrary: s)
  case Nil
  then show ?case by simp
next
  case (Cons x xs)
  then have IH: "credit (fold step xs (step x s)) + real (count_run step admits xs (step x s)) \<le>
      credit (step x s) + rate * (time (fold step xs (step x s)) - time (step x s))"
    by (simp add: inv_step)
  have "credit (step x s) + (if admits x s then 1 else 0) \<le> credit s + rate * (time (step x s) - time s)"
    using Cons.prems by (simp add: credit_step)
  with IH show ?case
    by (simp add: algebra_simps split: if_splits)
qed

lemma admitted_bound:
  assumes "inv s" and "\<forall>x\<in>set xs. fits x"
  shows "real (count_run step admits xs s) \<le> credit s + rate * (time (fold step xs s) - time s)"
  using credit_run [OF assms] credit_nonneg [OF inv_run [OF assms]] by simp

end

section \<open>Buckets: capacity, refill, credit\<close>

definition tb_ok :: "real \<Rightarrow> real \<Rightarrow> real \<Rightarrow> token_bucket \<Rightarrow> bool" where
  "tb_ok cap rate now b \<longleftrightarrow> tb_capacity b = cap \<and> tb_refillRate b = rate \<and>
     0 \<le> tb_tokens b \<and> tb_tokens b \<le> cap \<and> tb_lastRefill b \<le> now"

definition tb_credit :: "real \<Rightarrow> token_bucket \<Rightarrow> real" where
  "tb_credit now b = tb_tokens b + tb_refillRate b * (now - tb_lastRefill b)"

lemma tb_ok_later: "tb_ok cap rate now b \<Longrightarrow> now \<le> now' \<Longrightarrow> tb_ok cap rate now' b"
  by (simp add: tb_ok_def)

lemma tb_credit_nonneg: "tb_ok cap rate now b \<Longrightarrow> 0 \<le> rate \<Longrightarrow> 0 \<le> tb_credit now b"
  by (simp add: tb_ok_def tb_credit_def)

lemma TokenBucket_ok:
  "0 \<le> cap \<Longrightarrow> TokenBucket clk t cap rate = (b, t') \<Longrightarrow>
   t' = Suc t \<and> tb_ok cap rate (clk t) b \<and> tb_credit (clk t) b = cap"
  by (auto simp: TokenBucket_def tb_ok_def tb_credit_def)

lemma tb_refill_ok:
  assumes "tb_ok cap rate (clk t) b" "0 \<le> rate" "0 \<le> cap" "tb_refill clk t b = (b', t')"
  shows "t' = Suc t \<and> tb_ok cap rate (clk t) b' \<and> tb_lastRefill b' = clk t \<and>
    tb_credit now b' \<le> tb_credit now b"
proof -
  have "0 \<le> (clk t - tb_lastRefill b) * rate"
    using assms(1,2) by (simp add: tb_ok_def)
  with assms show ?thesis
    by (auto simp: tb_refill_def tb_ok_def tb_credit_def Let_def algebra_simps)
qed

lemma tb_consume_ok:
  assumes "tb_ok cap rate (clk t) b" "0 \<le> rate" "0 \<le> cap" "tb_consume clk t b 1 = (k, b', t')"
  shows "t' = Suc t \<and> tb_ok cap rate (clk t) b' \<and>
    tb_credit now b' + (if k then 1 else 0) \<le> tb_credit now b"
proof -
  obtain b1 t1 where r: "tb_refill clk t b = (b1, t1)" by fastforce
  have "t1 = Suc t" "tb_ok cap rate (clk t) b1" "tb_credit now b1 \<le> tb_credit now b"
    using tb_refill_ok [OF assms(1,2,3) r] by simp_all
  with assms(4) r show ?thesis
    by (auto simp: tb_consume_def tb_ok_def tb_credit_def split: if_splits)
qed

section \<open>The cache as a map\<close>

definition lru_lookup :: "lru_cache \<Rightarrow> string \<Rightarrow> token_bucket option" where
  "lru_lookup c k = map_option fst (map_of (lru_buckets c) k)"

text \<open>
  The invariant that makes the stored iterators valid: nodes and keys are in one to one
  correspondence, and the iterator stored with a key is that of the key's node.
\<close>

definition lru_inv :: "lru_cache \<Rightarrow> bool" where
  "lru_inv c \<longleftrightarrow> distinct (map fst (lru_order c)) \<and> distinct (map snd (lru_order c)) \<and>
     distinct (map fst (lru_buckets c)) \<and> (\<forall>n\<in>set (lru_order c). fst n < lru_next c) \<and>
     snd ` set (lru_order c) = fst ` set (lru_buckets c) \<and>
     (\<forall>k b it. (k, b, it) \<in> set (lru_buckets c) \<longrightarrow> (it, k) \<in> set (lru_order c))"

lemma lru_inv_empty: "lru_inv empty_cache"
  by (simp add: lru_inv_def empty_cache_def)

lemma lru_lookup_empty [simp]: "lru_lookup empty_cache k = None"
  by (simp add: lru_lookup_def empty_cache_def)

lemma lru_size_empty [simp]: "lru_size empty_cache = 0"
  by (simp add: lru_size_def empty_cache_def)

lemma lru_lookup_None: "lru_lookup c k = None \<longleftrightarrow> k \<notin> fst ` set (lru_buckets c)"
  by (simp add: lru_lookup_def map_of_eq_None_iff)

lemma dom_lru_lookup: "dom (lru_lookup c) = fst ` set (lru_buckets c)"
  using lru_lookup_None [of c] by (auto simp: dom_def)

lemma lru_size_card: "lru_inv c \<Longrightarrow> lru_size c = card (dom (lru_lookup c))"
  unfolding dom_lru_lookup lru_size_def lru_inv_def
  by (metis distinct_card length_map set_map)

lemma lru_lookup_touch [simp]: "lru_lookup (lru_touch k it c) = lru_lookup c"
  by (simp add: lru_lookup_def lru_touch_def fun_eq_iff)

lemma lru_size_touch [simp]: "lru_size (lru_touch k it c) = lru_size c"
  by (simp add: lru_size_def lru_touch_def)

lemma distinct_map_partition:
  "distinct (map f (List.filter P xs @ List.filter (\<lambda>x. \<not> P x) xs)) \<longleftrightarrow> distinct (map f xs)"
  by (induction xs) auto

lemma lru_inv_touch: "lru_inv c \<Longrightarrow> lru_inv (lru_touch k it c)"
proof -
  assume inv: "lru_inv c"
  have "set (lru_order (lru_touch k it c)) = set (lru_order c)"
    by (auto simp: lru_touch_def)
  moreover have "distinct (map fst (lru_order (lru_touch k it c)))"
      "distinct (map snd (lru_order (lru_touch k it c)))"
    using inv distinct_map_partition [of fst "\<lambda>n. fst n = it" "lru_order c"]
      distinct_map_partition [of snd "\<lambda>n. fst n = it" "lru_order c"]
    unfolding lru_inv_def by (simp_all add: lru_touch_def)
  ultimately show ?thesis
    using inv unfolding lru_inv_def by (simp add: lru_touch_def)
qed

lemma lru_get_lookup:
  "lru_inv c \<Longrightarrow> lru_get k c = (bo, c') \<Longrightarrow>
   bo = lru_lookup c k \<and> lru_lookup c' = lru_lookup c \<and> lru_inv c' \<and> lru_size c' = lru_size c"
  by (auto simp: lru_get_def lru_lookup_def [of c k] lru_inv_touch split: option.splits)

lemma lru_lookup_insert:
  "lru_lookup c k = None \<Longrightarrow> lru_lookup (lru_insert k b c) = (lru_lookup c)(k \<mapsto> b)"
  by (auto simp: lru_lookup_def lru_insert_def map_add_def fun_eq_iff map_of_eq_None_iff [symmetric]
      split: option.splits)

lemma lru_inv_insert:
  "lru_inv c \<Longrightarrow> lru_lookup c k = None \<Longrightarrow> lru_inv (lru_insert k b c)"
  unfolding lru_lookup_None by (auto simp: lru_inv_def lru_insert_def less_Suc_eq)

lemma lru_lookup_store:
  "lru_lookup c k \<noteq> None \<Longrightarrow> lru_lookup (lru_store k b c) = (lru_lookup c)(k \<mapsto> b)"
proof -
  have "map_option fst (map_of (map (\<lambda>kb. if fst kb = k then (k, b, snd (snd kb)) else kb) xs) j) =
      (if j = k \<and> k \<in> fst ` set xs then Some b else map_option fst (map_of xs j))"
    for j and xs :: "(string \<times> token_bucket \<times> nat) list"
    by (induction xs) (auto split: if_splits)
  moreover assume "lru_lookup c k \<noteq> None"
  ultimately show ?thesis
    unfolding lru_lookup_None by (auto simp: lru_lookup_def lru_store_def fun_eq_iff)
qed

lemma lru_store_order [simp]: "lru_order (lru_store k b c) = lru_order c"
  by (simp add: lru_store_def)

lemma lru_store_keys [simp]: "map fst (lru_buckets (lru_store k b c)) = map fst (lru_buckets c)"
  by (auto simp: lru_store_def comp_def)

lemma lru_size_store [simp]: "lru_size (lru_store k b c) = lru_size c"
  by (simp add: lru_size_def lru_store_def)

lemma lru_inv_store: "lru_inv c \<Longrightarrow> lru_inv (lru_store k b c)"
proof -
  assume inv: "lru_inv c"
  have "fst ` set (lru_buckets (lru_store k b c)) = fst ` set (lru_buckets c)"
    by (metis list.set_map lru_store_keys)
  moreover have "(it, j) \<in> set (lru_order c)" if "(j, b', it) \<in> set (lru_buckets (lru_store k b c))" for j b' it
    using that inv by (auto simp: lru_store_def lru_inv_def split: if_splits)
  ultimately show ?thesis
    using inv unfolding lru_inv_def lru_store_order lru_store_keys
    by (simp add: lru_store_def)
qed

lemma distinct_snd_last:
  assumes "distinct (map snd xs)" "xs \<noteq> []"
  shows "snd ` set (butlast xs) = snd ` set xs - {snd (last xs)}"
proof -
  obtain ys y where "xs = ys @ [y]"
    using assms(2) by (cases xs rule: rev_cases) auto
  with assms(1) show ?thesis by auto
qed

lemma lru_inv_drop_last:
  assumes "lru_inv c" "lru_order c \<noteq> []"
  shows "lru_inv (lru_pop_back (lru_erase (snd (last (lru_order c))) c))"
proof -
  let ?xs = "lru_order c"
  have keys: "snd ` set (butlast ?xs) = snd ` set ?xs - {snd (last ?xs)}"
    using assms by (intro distinct_snd_last) (auto simp: lru_inv_def)
  have mem: "n \<in> set (butlast ?xs)" if "n \<in> set ?xs" "snd n \<noteq> snd (last ?xs)" for n
    using that assms(2) by (metis Un_iff append_butlast_last_id empty_iff list.set(1) set_ConsD set_append)
  have "distinct (map fst (butlast ?xs))" "distinct (map snd (butlast ?xs))"
    using assms(1) by (simp_all add: lru_inv_def map_butlast distinct_butlast)
  moreover have "distinct (map fst (List.filter (\<lambda>kb. fst kb \<noteq> snd (last ?xs)) (lru_buckets c)))"
    using assms(1) by (simp add: lru_inv_def distinct_map_filter)
  moreover have "fst ` set (List.filter (\<lambda>kb. fst kb \<noteq> snd (last ?xs)) (lru_buckets c)) =
      snd ` set (butlast ?xs)"
    unfolding keys using assms(1) by (auto simp: lru_inv_def)
  moreover have "\<forall>n\<in>set (butlast ?xs). fst n < lru_next c"
    using assms(1) by (auto simp: lru_inv_def dest: in_set_butlastD)
  moreover have "(it, k) \<in> set (butlast ?xs)"
    if "(k, b, it) \<in> set (lru_buckets c)" "k \<noteq> snd (last ?xs)" for k b it
    using that assms(1) mem [of "(it, k)"] by (auto simp: lru_inv_def)
  ultimately show ?thesis
    by (auto simp: lru_inv_def lru_pop_back_def lru_erase_def)
qed

lemma lru_lookup_drop [simp]: "lru_lookup (lru_pop_back (lru_erase k c)) = (lru_lookup c)(k := None)"
proof -
  have "map_of (List.filter (\<lambda>kb. fst kb \<noteq> k) xs) j = ((map_of xs)(k := None)) j"
    for j and xs :: "(string \<times> token_bucket \<times> nat) list"
    by (induction xs) auto
  then show ?thesis
    by (auto simp: lru_lookup_def lru_pop_back_def lru_erase_def fun_eq_iff)
qed

lemma lru_inv_evict: "lru_inv c \<Longrightarrow> lru_inv (lru_evictOldest c)"
  by (simp add: lru_evictOldest_def lru_inv_drop_last)

lemma lru_last_stored:
  assumes "lru_inv c" "lru_order c \<noteq> []"
  shows "lru_lookup c (snd (last (lru_order c))) \<noteq> None"
  using assms unfolding lru_lookup_None lru_inv_def by (metis image_eqI last_in_set)

lemma lru_evict_lookup:
  assumes "lru_inv c"
  shows "lru_lookup (lru_evictOldest c) k = Some b \<Longrightarrow> lru_lookup c k = Some b"
    and "lru_lookup c k = None \<Longrightarrow> lru_lookup (lru_evictOldest c) k = None"
    and "lru_size (lru_evictOldest c) = lru_size c - 1"
proof -
  show "lru_lookup (lru_evictOldest c) k = Some b \<Longrightarrow> lru_lookup c k = Some b"
    and "lru_lookup c k = None \<Longrightarrow> lru_lookup (lru_evictOldest c) k = None"
    by (auto simp: lru_evictOldest_def split: if_splits)
  show "lru_size (lru_evictOldest c) = lru_size c - 1"
  proof (cases "lru_order c = []")
    case True
    with assms have "lru_buckets c = []" by (simp add: lru_inv_def)
    with True show ?thesis by (simp add: lru_evictOldest_def lru_size_def)
  next
    case False
    let ?k = "snd (last (lru_order c))"
    have "dom (lru_lookup (lru_evictOldest c)) = dom (lru_lookup c) - {?k}"
      using False by (simp add: lru_evictOldest_def)
    moreover have "?k \<in> dom (lru_lookup c)"
      using lru_last_stored [OF assms False] by blast
    ultimately show ?thesis
      by (simp add: lru_size_card [OF assms] lru_size_card [OF lru_inv_evict [OF assms]])
  qed
qed

text \<open>
  The clean-up: \<^verbatim>\<open>refill()\<close> has just set \<^verbatim>\<open>lastRefill\<close> to a reading taken after
  \<^verbatim>\<open>now\<close>, so the time since the refill is never positive and the first bucket looked at
  stops the loop.
\<close>

lemma lru_eraseStale_result:
  assumes "lru_inv c" and "mono clk" and "0 \<le> staleSeconds"
  shows "lru_eraseStale clk staleSeconds t c =
    (if lru_order c = [] then (c, Suc t, 0)
     else (let key = snd (last (lru_order c));
               (b', t') = tb_refill clk (Suc t) (the (lru_lookup c key))
           in (lru_store key b' c, t', 0)))"
proof (cases "lru_order c = []")
  case True
  then show ?thesis
    by (simp add: lru_eraseStale_def lru_eraseStale_loop.simps [of clk "clk t" staleSeconds "Suc t" 0 c])
next
  case False
  let ?key = "snd (last (lru_order c))"
  obtain b it where b: "map_of (lru_buckets c) ?key = Some (b, it)"
    using lru_last_stored [OF assms(1) False] by (auto simp: lru_lookup_def)
  obtain b' t' where r: "tb_refill clk (Suc t) b = (b', t')" by fastforce
  have "clk t \<le> clk (Suc t)" using assms(2) by (simp add: mono_def)
  moreover have "tb_lastRefill b' = clk (Suc t)"
    using r by (auto simp: tb_refill_def Let_def)
  ultimately have "\<not> clk t - tb_lastRefill b' > staleSeconds"
    using assms(3) by simp
  with False b r show ?thesis
    by (simp add: lru_eraseStale_def lru_eraseStale_loop.simps [of clk "clk t" staleSeconds "Suc t" 0 c]
        lru_lookup_def)
qed

section \<open>Checking a bucket\<close>

text \<open>The bucket a check works on: the stored one, or a full one created for the key.\<close>

definition bucket_for :: "clock \<Rightarrow> nat \<Rightarrow> real \<Rightarrow> real \<Rightarrow> token_bucket option \<Rightarrow> token_bucket \<times> nat" where
  "bucket_for clk t cap rate bo = (case bo of Some b \<Rightarrow> (b, t) | None \<Rightarrow> TokenBucket clk t cap rate)"

definition no_room :: "lru_cache \<Rightarrow> string \<Rightarrow> u64 \<Rightarrow> bool" where
  "no_room c key maxBuckets \<longleftrightarrow> lru_lookup c key = None \<and> unat maxBuckets \<le> lru_size c"

lemma checkBucket_effect:
  assumes inv: "lru_inv c"
    and run: "checkBucket clk t key c cap rate lt m = (r, c', t')"
    and b: "bucket_for clk t cap rate (lru_lookup c key) = (b, t1)"
    and eat: "tb_consume clk t1 b 1 = (ok, b', t2)"
  shows "lru_inv c' \<and> t' = t2 \<and> r = (if ok then [] else ''rate_limit_exceeded: '' @ lt) \<and>
    lru_lookup c' = (lru_lookup (if no_room c key m then lru_evictOldest c else c))(key \<mapsto> b')"
proof (cases "lru_lookup c key")
  case (Some b0)
  obtain c1 where g: "lru_get key c = (Some b0, c1)"
    using lru_get_lookup [OF inv] Some by (metis prod.exhaust)
  have c1: "lru_lookup c1 = lru_lookup c" "lru_inv c1"
    using lru_get_lookup [OF inv g] by simp_all
  have "c' = lru_store key b' c1" "t' = t2" "r = (if ok then [] else ''rate_limit_exceeded: '' @ lt)"
    using run b eat Some g by (auto simp: checkBucket_def bucket_for_def Let_def split: if_splits)
  then show ?thesis
    using c1 Some by (simp add: lru_inv_store lru_lookup_store no_room_def)
next
  case None
  let ?c1 = "if unat m \<le> lru_size c then lru_evictOldest c else c"
  have g: "lru_get key c = (None, c)"
    using None by (simp add: lru_get_def lru_lookup_def)
  have c1: "lru_inv ?c1" "lru_lookup ?c1 key = None"
    using inv None lru_evict_lookup(2) [OF inv] by (simp_all add: lru_inv_evict)
  have "c' = lru_store key b' (lru_insert key b ?c1)" "t' = t2"
      "r = (if ok then [] else ''rate_limit_exceeded: '' @ lt)"
    using run b eat None g by (auto simp: checkBucket_def bucket_for_def Let_def split: if_splits)
  then show ?thesis
    using c1 None by (simp add: lru_inv_store lru_inv_insert lru_lookup_store lru_lookup_insert no_room_def)
qed

definition buckets_ok :: "real \<Rightarrow> real \<Rightarrow> real \<Rightarrow> lru_cache \<Rightarrow> bool" where
  "buckets_ok cap rate now c \<longleftrightarrow> (\<forall>k b. lru_lookup c k = Some b \<longrightarrow> tb_ok cap rate now b)"

lemma buckets_ok_later: "buckets_ok cap rate now c \<Longrightarrow> now \<le> now' \<Longrightarrow> buckets_ok cap rate now' c"
  by (meson buckets_ok_def tb_ok_later)

lemma checkBucket_keeps:
  assumes inv: "lru_inv c" "buckets_ok cap rate (clk t) c" and "0 \<le> cap" "0 \<le> rate" "mono clk"
    and run: "checkBucket clk t key c cap rate lt m = (r, c', t')"
  shows "lru_inv c' \<and> t \<le> t' \<and> buckets_ok cap rate (clk t') c' \<and>
    (\<exists>b'. lru_lookup c' = (lru_lookup (if no_room c key m then lru_evictOldest c else c))(key \<mapsto> b') \<and>
      tb_credit (clk t') b' + (if r = [] then 1 else 0) \<le>
        (case lru_lookup c key of None \<Rightarrow> cap + rate * (clk t' - clk t) | Some b \<Rightarrow> tb_credit (clk t') b))"
proof -
  obtain b t1 where b: "bucket_for clk t cap rate (lru_lookup c key) = (b, t1)" by fastforce
  obtain ok b' t2 where eat: "tb_consume clk t1 b 1 = (ok, b', t2)" by (metis prod_cases3)
  have eff: "lru_inv c'" "t' = t2" "r = (if ok then [] else ''rate_limit_exceeded: '' @ lt)"
      "lru_lookup c' = (lru_lookup (if no_room c key m then lru_evictOldest c else c))(key \<mapsto> b')"
    using checkBucket_effect [OF inv(1) run b eat] by simp_all
  have b_ok: "t \<le> t1" "tb_ok cap rate (clk t) b"
    using b inv(2) assms(3) TokenBucket_ok [of cap clk t rate]
    by (auto simp: bucket_for_def buckets_ok_def split: option.splits)
  have t1: "tb_ok cap rate (clk t1) b"
    using b_ok assms(5) by (meson monoD tb_ok_later)
  have used: "t2 = Suc t1" "tb_ok cap rate (clk t1) b'"
      "tb_credit (clk t') b' + (if ok then 1 else 0) \<le> tb_credit (clk t') b"
    using tb_consume_ok [where now = "clk t'", OF t1 assms(4,3) eat] by simp_all
  have le: "clk t \<le> clk t'" "clk t1 \<le> clk t'"
    using assms(5) b_ok(1) used(1) eff(2) by (simp_all add: mono_def)
  have "buckets_ok cap rate (clk t') c'"
    using eff(4) inv used(2) le lru_evict_lookup(1) [OF inv(1)] tb_ok_later
    unfolding buckets_ok_def by (smt (verit) fun_upd_apply option.inject)
  moreover have "tb_credit (clk t') b =
      (case lru_lookup c key of None \<Rightarrow> cap + rate * (clk t' - clk t) | Some b \<Rightarrow> tb_credit (clk t') b)"
    using b by (auto simp: bucket_for_def TokenBucket_def tb_credit_def split: option.splits)
  ultimately show ?thesis
    using eff used b_ok(1) by auto
qed

lemma checkBucket_size:
  assumes inv: "lru_inv c" and "lru_size c \<le> max 1 (unat m)"
    and run: "checkBucket clk t key c cap rate lt m = (r, c', t')"
  shows "lru_size c' \<le> max 1 (unat m)"
proof -
  obtain b t1 where b: "bucket_for clk t cap rate (lru_lookup c key) = (b, t1)" by fastforce
  obtain ok b' t2 where eat: "tb_consume clk t1 b 1 = (ok, b', t2)" by (metis prod_cases3)
  let ?c1 = "if no_room c key m then lru_evictOldest c else c"
  have eff: "lru_inv c'" "lru_lookup c' = (lru_lookup ?c1)(key \<mapsto> b')"
    using checkBucket_effect [OF inv run b eat] by simp_all
  have c1: "lru_inv ?c1" using inv by (simp add: lru_inv_evict)
  have fin: "finite (dom (lru_lookup ?c1))" by (simp add: dom_lru_lookup)
  have "lru_size c' = card (insert key (dom (lru_lookup ?c1)))"
    using lru_size_card [OF eff(1)] eff(2) by simp
  also have "\<dots> \<le> (if lru_lookup c key = None then Suc (lru_size ?c1) else lru_size c)"
    using fin lru_size_card [OF c1] lru_size_card [OF inv]
    by (auto simp: card_insert_if no_room_def insert_absorb domIff)
  also have "\<dots> \<le> max 1 (unat m)"
    using assms(2) lru_evict_lookup(3) [OF inv] by (auto simp: no_room_def)
  finally show ?thesis .
qed

section \<open>The credit of a key\<close>

definition cache_credit :: "real \<Rightarrow> real \<Rightarrow> lru_cache \<Rightarrow> string \<Rightarrow> real" where
  "cache_credit cap now c k = (case lru_lookup c k of None \<Rightarrow> cap | Some b \<Rightarrow> tb_credit now b)"

lemma tb_credit_later: "tb_ok cap rate now b \<Longrightarrow> tb_credit now' b = tb_credit now b + rate * (now' - now)"
  by (simp add: tb_ok_def tb_credit_def algebra_simps)

lemma cache_credit_later:
  assumes "buckets_ok cap rate now c" "0 \<le> rate" "now \<le> now'"
  shows "cache_credit cap now' c k \<le> cache_credit cap now c k + rate * (now' - now)"
proof (cases "lru_lookup c k")
  case None
  with assms(2,3) show ?thesis by (simp add: cache_credit_def)
next
  case (Some b)
  with assms(1) have "tb_ok cap rate now b" by (simp add: buckets_ok_def)
  from tb_credit_later [OF this, of now'] Some show ?thesis by (simp add: cache_credit_def)
qed

lemma cache_credit_nonneg:
  "buckets_ok cap rate now c \<Longrightarrow> 0 \<le> rate \<Longrightarrow> 0 \<le> cap \<Longrightarrow> 0 \<le> cache_credit cap now c k"
proof (cases "lru_lookup c k")
  case None
  assume "0 \<le> cap"
  with None show ?thesis by (simp add: cache_credit_def)
next
  case (Some b)
  assume "buckets_ok cap rate now c" "0 \<le> rate"
  with Some have "0 \<le> tb_credit now b"
    unfolding buckets_ok_def by (blast intro: tb_credit_nonneg)
  with Some show ?thesis by (simp add: cache_credit_def)
qed

lemma checkBucket_credit:
  assumes "lru_inv c" "buckets_ok cap rate (clk t) c" "0 \<le> cap" "0 \<le> rate" "mono clk"
    and run: "checkBucket clk t key c cap rate lt m = (r, c', t')" and room: "\<not> no_room c key m"
  shows "cache_credit cap (clk t') c' k + (if k = key \<and> r = [] then 1 else 0) \<le>
      cache_credit cap (clk t) c k + rate * (clk t' - clk t)"
proof -
  obtain b' where b': "t \<le> t'" "lru_lookup c' = (lru_lookup c)(key \<mapsto> b')"
      "tb_credit (clk t') b' + (if r = [] then 1 else 0) \<le>
        (case lru_lookup c key of None \<Rightarrow> cap + rate * (clk t' - clk t) | Some b \<Rightarrow> tb_credit (clk t') b)"
    using checkBucket_keeps [OF assms(1-5) run] room by auto
  have "clk t \<le> clk t'" using assms(5) b'(1) by (simp add: mono_def)
  then have later: "cache_credit cap (clk t') c k \<le> cache_credit cap (clk t) c k + rate * (clk t' - clk t)"
    by (rule cache_credit_later [OF assms(2,4)])
  show ?thesis
  proof (cases "k = key")
    case True
    have "(case lru_lookup c key of None \<Rightarrow> cap + rate * (clk t' - clk t) | Some b \<Rightarrow> tb_credit (clk t') b)
        \<le> cache_credit cap (clk t) c key + rate * (clk t' - clk t)"
      using later True by (auto simp: cache_credit_def split: option.splits)
    with b'(3) show ?thesis
      by (simp add: True b'(2) cache_credit_def [of cap "clk t'" c'])
  next
    case False
    with b'(2) have "cache_credit cap (clk t') c' k = cache_credit cap (clk t') c k"
      by (simp add: cache_credit_def)
    with later False show ?thesis by simp
  qed
qed

lemma lru_eraseStale_keeps:
  assumes inv: "lru_inv c" "buckets_ok cap rate (clk t) c" and "0 \<le> cap" "0 \<le> rate" "mono clk" "0 \<le> st"
    and run: "lru_eraseStale clk st t c = (c', t', n)"
  shows "lru_inv c' \<and> t \<le> t' \<and> buckets_ok cap rate (clk t') c' \<and> n = 0 \<and>
    dom (lru_lookup c') = dom (lru_lookup c) \<and>
    cache_credit cap (clk t') c' k \<le> cache_credit cap (clk t) c k + rate * (clk t' - clk t)"
proof (cases "lru_order c = []")
  case True
  then have "c' = c" "t' = Suc t" "n = 0"
    using lru_eraseStale_result [OF inv(1) assms(5,6), of t] run by simp_all
  then show ?thesis
    using inv assms(4,5) cache_credit_later [OF inv(2) assms(4), of "clk t'"]
    by (auto simp: mono_def intro: buckets_ok_later)
next
  case False
  let ?key = "snd (last (lru_order c))"
  obtain b where b: "lru_lookup c ?key = Some b"
    using lru_last_stored [OF inv(1) False] by blast
  obtain b' t2 where r: "tb_refill clk (Suc t) b = (b', t2)" by fastforce
  have res: "c' = lru_store ?key b' c" "t' = t2" "n = 0"
    using lru_eraseStale_result [OF inv(1) assms(5,6), of t] run False b r by simp_all
  have mono: "clk t \<le> clk (Suc t)" "clk (Suc t) \<le> clk (Suc (Suc t))"
    using assms(5) by (simp_all add: mono_def)
  have "tb_ok cap rate (clk (Suc t)) b"
    using inv(2) b mono(1) by (auto simp: buckets_ok_def intro: tb_ok_later)
  from tb_refill_ok [where now = "clk t'", OF this assms(4,3) r]
  have b': "t' = Suc (Suc t)" "tb_ok cap rate (clk (Suc t)) b'" "tb_credit (clk t') b' \<le> tb_credit (clk t') b"
    by (auto simp: res)
  have lk: "lru_lookup c' = (lru_lookup c)(?key \<mapsto> b')"
    using res b by (simp add: lru_lookup_store)
  have le: "clk t \<le> clk t'" using mono b'(1) by simp
  have "buckets_ok cap rate (clk t') c'"
    using inv(2) b'(1,2) lk mono le tb_ok_later unfolding buckets_ok_def
    by (smt (verit) fun_upd_apply option.inject)
  moreover have "cache_credit cap (clk t') c' k \<le> cache_credit cap (clk t') c k"
    using lk b b'(3) by (auto simp: cache_credit_def)
  moreover have "dom (lru_lookup c') = dom (lru_lookup c)"
    using lk b by auto
  ultimately show ?thesis
    using res inv(1) b'(1) cache_credit_later [OF inv(2) assms(4) le, of k] by (simp add: lru_inv_store)
qed

section \<open>The invariant of the limiter\<close>

abbreviation cap_of :: "rl_config \<Rightarrow> u64 \<Rightarrow> real" where
  "cap_of cfg n \<equiv> dbl n * cfg_burstMultiplier cfg"

abbreviation rate_of :: "u64 \<Rightarrow> real" where
  "rate_of n \<equiv> dbl n / 60"

definition cache_inv :: "clock \<Rightarrow> nat \<Rightarrow> rl_config \<Rightarrow> u64 \<Rightarrow> u64 \<Rightarrow> lru_cache \<Rightarrow> bool" where
  "cache_inv clk t cfg n m c \<longleftrightarrow> lru_inv c \<and> lru_size c \<le> max 1 (unat m) \<and>
     buckets_ok (cap_of cfg n) (rate_of n) (clk t) c"

definition rl_inv :: "clock \<Rightarrow> rl_config \<Rightarrow> rate_limiter \<times> nat \<Rightarrow> bool" where
  "rl_inv clk cfg st \<longleftrightarrow> (case st of (s, t) \<Rightarrow>
     mono clk \<and> 0 \<le> cfg_burstMultiplier cfg \<and> rl_config s = cfg \<and>
     tb_ok (cap_of cfg (cfg_globalPerMinute cfg)) (rate_of (cfg_globalPerMinute cfg)) (clk t)
       (rl_globalBucket s) \<and>
     cache_inv clk t cfg (cfg_perIpPerMinute cfg) (cfg_maxIpBuckets cfg) (rl_ipCache s) \<and>
     cache_inv clk t cfg (cfg_perPubkeyPerMinute cfg) (cfg_maxPubkeyBuckets cfg) (rl_pubkeyCache s))"

lemma dbl_nonneg [simp]: "0 \<le> dbl n"
  unfolding dbl_def by (rule of_nat_0_le_iff)

lemma cache_inv_later: "cache_inv clk t cfg n m c \<Longrightarrow> clk t \<le> clk t' \<Longrightarrow> cache_inv clk t' cfg n m c"
  by (auto simp: cache_inv_def intro: buckets_ok_later)

lemma RateLimiter_inv:
  assumes "mono clk" "0 \<le> cfg_burstMultiplier cfg"
  shows "rl_inv clk cfg (RateLimiter clk t cfg)"
proof -
  have "clk t \<le> clk (Suc t)" using assms(1) by (simp add: mono_def)
  with assms show ?thesis
    by (auto simp: rl_inv_def RateLimiter_def TokenBucket_def tb_ok_def cache_inv_def lru_inv_empty
        buckets_ok_def)
qed

text \<open>The global check: the invariant, the time, the credit of the global bucket.\<close>

lemma check_global_keeps:
  assumes "rl_inv clk cfg (s, t)" and "check_global clk t s = (r, s', t')"
  shows "rl_inv clk cfg (s', t') \<and> t \<le> t' \<and> rl_ipCache s' = rl_ipCache s \<and>
    rl_pubkeyCache s' = rl_pubkeyCache s \<and>
    tb_credit now (rl_globalBucket s') + (if cfg_globalPerMinute cfg > 0 \<and> r = [] then 1 else 0) \<le>
      tb_credit now (rl_globalBucket s)"
proof (cases "cfg_globalPerMinute cfg > 0")
  case False
  with assms show ?thesis by (auto simp: check_global_def rl_inv_def)
next
  case True
  let ?n = "cfg_globalPerMinute cfg"
  obtain ok g t2 where eat: "tb_consume clk t (rl_globalBucket s) 1 = (ok, g, t2)" by (metis prod_cases3)
  have g: "tb_ok (cap_of cfg ?n) (rate_of ?n) (clk t) (rl_globalBucket s)" "0 \<le> cap_of cfg ?n"
    using assms(1) by (simp_all add: rl_inv_def)
  have u: "t2 = Suc t" "tb_ok (cap_of cfg ?n) (rate_of ?n) (clk t) g"
      "tb_credit now g + (if ok then 1 else 0) \<le> tb_credit now (rl_globalBucket s)"
    using tb_consume_ok [where now = now, OF g(1) _ g(2) eat] by simp_all
  have le: "clk t \<le> clk t2" using assms(1) u(1) by (simp add: rl_inv_def mono_def)
  have "rl_config s = cfg" using assms(1) by (simp add: rl_inv_def)
  with assms(2) True eat have res: "s' = s\<lparr>rl_globalBucket := g\<rparr>" "t' = t2" "r = [] \<longleftrightarrow> ok"
    by (auto simp: check_global_def split: if_splits)
  show ?thesis
    using assms(1) u le True by (auto simp: res rl_inv_def intro: tb_ok_later cache_inv_later)
qed

text \<open>A check of either cache, for the key and for the other keys.\<close>

definition cache_step :: "clock \<Rightarrow> nat \<Rightarrow> nat \<Rightarrow> rl_config \<Rightarrow> u64 \<Rightarrow> lru_cache \<Rightarrow> lru_cache \<Rightarrow>
    (string \<Rightarrow> bool) \<Rightarrow> bool" where
  "cache_step clk t t' cfg n c c' eats \<longleftrightarrow> (\<forall>k. cache_credit (cap_of cfg n) (clk t') c' k +
     (if eats k then 1 else 0) \<le> cache_credit (cap_of cfg n) (clk t) c k + rate_of n * (clk t' - clk t))"

lemma cache_step_idle:
  "cache_inv clk t cfg n m c \<Longrightarrow> clk t \<le> clk t' \<Longrightarrow> cache_step clk t t' cfg n c c (\<lambda>_. False)"
  unfolding cache_step_def cache_inv_def
  using cache_credit_later [of "cap_of cfg n" "rate_of n" "clk t" c "clk t'"] by simp

lemma cache_step_trans:
  assumes "cache_step clk t t1 cfg n c c1 e1" "cache_step clk t1 t2 cfg n c1 c2 e2"
    and "\<And>k. e k \<Longrightarrow> e1 k \<or> e2 k"
  shows "cache_step clk t t2 cfg n c c2 e"
  unfolding cache_step_def
proof
  fix k
  let ?r = "rate_of n"
  have "(if e k then 1 else 0 :: real) \<le> (if e1 k then 1 else 0) + (if e2 k then 1 else 0)"
    using assms(3) [of k] by auto
  moreover have "?r * (clk t2 - clk t) = ?r * (clk t1 - clk t) + ?r * (clk t2 - clk t1)"
    by (simp add: field_simps)
  ultimately show "cache_credit (cap_of cfg n) (clk t2) c2 k + (if e k then 1 else 0) \<le>
      cache_credit (cap_of cfg n) (clk t) c k + ?r * (clk t2 - clk t)"
    using assms(1,2) [unfolded cache_step_def, rule_format, of k] by linarith
qed

lemma checkBucket_cache:
  assumes "cache_inv clk t cfg n m c" "mono clk" "0 \<le> cfg_burstMultiplier cfg"
    and run: "checkBucket clk t key c (cap_of cfg n) (rate_of n) lt m = (r, c', t')"
  shows "cache_inv clk t' cfg n m c' \<and> t \<le> t' \<and> dom (lru_lookup c') \<subseteq> insert key (dom (lru_lookup c)) \<and>
    (\<not> no_room c key m \<longrightarrow> cache_step clk t t' cfg n c c' (\<lambda>k. k = key \<and> r = []))"
proof -
  have c: "lru_inv c" "buckets_ok (cap_of cfg n) (rate_of n) (clk t) c" "0 \<le> cap_of cfg n"
      "0 \<le> rate_of n" "lru_size c \<le> max 1 (unat m)"
    using assms(1,3) by (simp_all add: cache_inv_def)
  obtain b' where keeps: "lru_inv c'" "t \<le> t'" "buckets_ok (cap_of cfg n) (rate_of n) (clk t') c'"
      "lru_lookup c' = (lru_lookup (if no_room c key m then lru_evictOldest c else c))(key \<mapsto> b')"
    using checkBucket_keeps [OF c(1,2,3,4) assms(2) run] by blast
  have "dom (lru_lookup (lru_evictOldest c)) \<subseteq> dom (lru_lookup c)"
    using lru_evict_lookup(1) [OF c(1)] by blast
  then have "dom (lru_lookup c') \<subseteq> insert key (dom (lru_lookup c))"
    using keeps(4) by (auto split: if_splits)
  moreover have "\<not> no_room c key m \<Longrightarrow> cache_step clk t t' cfg n c c' (\<lambda>k. k = key \<and> r = [])"
    using checkBucket_credit [OF c(1,2,3,4) assms(2) run] by (simp add: cache_step_def)
  ultimately show ?thesis
    using keeps checkBucket_size [OF c(1,5) run] by (simp add: cache_inv_def)
qed

text \<open>What one check does to the whole state, whichever branch it takes.\<close>

lemma check_ip_keeps:
  assumes "rl_inv clk cfg (s, t)" and "check_ip clk t ip s = (r, s', t')"
  shows "rl_inv clk cfg (s', t') \<and> t \<le> t' \<and> rl_globalBucket s' = rl_globalBucket s \<and>
    rl_pubkeyCache s' = rl_pubkeyCache s \<and>
    dom (lru_lookup (rl_ipCache s')) \<subseteq> dom (lru_lookup (rl_ipCache s)) \<union> ({ip} - {[]}) \<and>
    (ip = [] \<or> \<not> no_room (rl_ipCache s) ip (cfg_maxIpBuckets cfg) \<longrightarrow>
      cache_step clk t t' cfg (cfg_perIpPerMinute cfg) (rl_ipCache s) (rl_ipCache s')
        (\<lambda>k. k = ip \<and> ip \<noteq> [] \<and> cfg_perIpPerMinute cfg > 0 \<and> r = []))"
proof (cases "cfg_perIpPerMinute cfg > 0 \<and> ip \<noteq> []")
  case False
  let ?n = "cfg_perIpPerMinute cfg"
  have "s' = s" "t' = t" "r = []"
    using assms False by (auto simp: check_ip_def rl_inv_def split: if_splits)
  moreover have "cache_step clk t t cfg ?n (rl_ipCache s) (rl_ipCache s) (\<lambda>k. False)"
    using assms(1) by (intro cache_step_idle [where m = "cfg_maxIpBuckets cfg"]) (simp_all add: rl_inv_def)
  moreover have "(\<lambda>k. k = ip \<and> ip \<noteq> [] \<and> ?n > 0 \<and> r = []) = (\<lambda>k. False)"
    using False by auto
  ultimately show ?thesis
    using assms(1) by simp
next
  case True
  let ?n = "cfg_perIpPerMinute cfg" and ?m = "cfg_maxIpBuckets cfg"
  have inv: "mono clk" "0 \<le> cfg_burstMultiplier cfg" "rl_config s = cfg"
      "cache_inv clk t cfg ?n ?m (rl_ipCache s)"
    using assms(1) by (simp_all add: rl_inv_def)
  obtain c' where run: "checkBucket clk t ip (rl_ipCache s) (cap_of cfg ?n) (rate_of ?n) ''per_ip'' ?m = (r, c', t')"
    and s': "s' = s\<lparr>rl_ipCache := c'\<rparr>"
    using assms(2) True inv(3) by (auto simp: check_ip_def Let_def split: prod.splits)
  have keeps: "cache_inv clk t' cfg ?n ?m c'" "t \<le> t'" "dom (lru_lookup c') \<subseteq> insert ip (dom (lru_lookup (rl_ipCache s)))"
      "\<not> no_room (rl_ipCache s) ip ?m \<longrightarrow> cache_step clk t t' cfg ?n (rl_ipCache s) c' (\<lambda>k. k = ip \<and> r = [])"
    using checkBucket_cache [OF inv(4,1,2) run] by simp_all
  have "clk t \<le> clk t'" using inv(1) keeps(2) by (simp add: mono_def)
  then show ?thesis
    using assms(1) keeps True by (auto simp: s' rl_inv_def intro: tb_ok_later cache_inv_later)
qed

lemma check_pubkey_keeps:
  assumes "rl_inv clk cfg (s, t)" and "check_pubkey clk t pk s = (r, s', t')"
  shows "rl_inv clk cfg (s', t') \<and> t \<le> t' \<and> rl_globalBucket s' = rl_globalBucket s \<and>
    rl_ipCache s' = rl_ipCache s"
proof (cases "cfg_perPubkeyPerMinute cfg > 0 \<and> pk \<noteq> []")
  case False
  with assms have "s' = s" "t' = t"
    by (auto simp: check_pubkey_def rl_inv_def split: if_splits)
  with assms(1) show ?thesis by simp
next
  case True
  let ?n = "cfg_perPubkeyPerMinute cfg" and ?m = "cfg_maxPubkeyBuckets cfg"
  have inv: "mono clk" "0 \<le> cfg_burstMultiplier cfg" "rl_config s = cfg"
      "cache_inv clk t cfg ?n ?m (rl_pubkeyCache s)"
    using assms(1) by (simp_all add: rl_inv_def)
  obtain c' where run: "checkBucket clk t pk (rl_pubkeyCache s) (cap_of cfg ?n) (rate_of ?n) ''per_pubkey'' ?m = (r, c', t')"
    and s': "s' = s\<lparr>rl_pubkeyCache := c'\<rparr>"
    using assms(2) True inv(3) by (auto simp: check_pubkey_def Let_def split: prod.splits)
  have keeps: "cache_inv clk t' cfg ?n ?m c'" "t \<le> t'"
    using checkBucket_cache [OF inv(4,1,2) run] by simp_all
  have "clk t \<le> clk t'" using inv(1) keeps(2) by (simp add: mono_def)
  then show ?thesis
    using assms(1) keeps by (auto simp: s' rl_inv_def intro: tb_ok_later cache_inv_later)
qed

section \<open>One request\<close>

text \<open>
  A request against an enabled limiter as the chain of its three checks: the states between
  them, the verdict, and the counters, which no other field depends on.
\<close>

definition bump :: "rate_limiter \<Rightarrow> rate_limiter" where
  "bump s = s\<lparr>rl_totalRequests := rl_totalRequests s + 1\<rparr>"

lemma checkAndConsume_chain:
  assumes "cfg_enabled (rl_config s)" and run: "checkAndConsume clk t s ip pk = (v, s', t')"
  obtains (global) r s1 where "check_global clk t (bump s) = (r, s1, t')" "r \<noteq> []"
      "(v, s', t') = rl_deny r s1 t'"
  | (per_ip) s1 t1 r s2 where "check_global clk t (bump s) = ([], s1, t1)"
      "check_ip clk t1 ip s1 = (r, s2, t')" "r \<noteq> []" "(v, s', t') = rl_deny r s2 t'"
  | (per_pubkey) s1 t1 s2 t2 r s3 where "check_global clk t (bump s) = ([], s1, t1)"
      "check_ip clk t1 ip s1 = ([], s2, t2)" "check_pubkey clk t2 pk s2 = (r, s3, t')" "r \<noteq> []"
      "(v, s', t') = rl_deny r s3 t'"
  | (pass) s1 t1 s2 t2 where "check_global clk t (bump s) = ([], s1, t1)"
      "check_ip clk t1 ip s1 = ([], s2, t2)" "check_pubkey clk t2 pk s2 = ([], s', t')"
      "v = \<lparr>allowed = True, reason = []\<rparr>"
proof -
  obtain r1 s1 t1 where g: "check_global clk t (bump s) = (r1, s1, t1)" by (metis prod_cases3)
  obtain r2 s2 t2 where i: "check_ip clk t1 ip s1 = (r2, s2, t2)" by (metis prod_cases3)
  obtain r3 s3 t3 where p: "check_pubkey clk t2 pk s2 = (r3, s3, t3)" by (metis prod_cases3)
  have c: "checkAndConsume clk t s ip pk =
      (if r1 \<noteq> [] then rl_deny r1 s1 t1 else if r2 \<noteq> [] then rl_deny r2 s2 t2
       else if r3 \<noteq> [] then rl_deny r3 s3 t3 else (\<lparr>allowed = True, reason = []\<rparr>, s3, t3))"
    using assms(1) g i p by (simp add: checkAndConsume_def bump_def)
  consider "r1 \<noteq> []" | "r1 = []" "r2 \<noteq> []" | "r1 = []" "r2 = []" "r3 \<noteq> []" | "r1 = []" "r2 = []" "r3 = []"
    by blast
  then show thesis
  proof cases
    case 1
    with c run have "(v, s', t') = rl_deny r1 s1 t1" by simp
    with 1 g show thesis by (intro global [of r1 s1]) (auto simp: rl_deny_def)
  next
    case 2
    with c run have "(v, s', t') = rl_deny r2 s2 t2" by simp
    with 2 g i show thesis by (intro per_ip [of s1 t1 r2 s2]) (auto simp: rl_deny_def)
  next
    case 3
    with c run have "(v, s', t') = rl_deny r3 s3 t3" by simp
    with 3 g i p show thesis by (intro per_pubkey [of s1 t1 s2 t2 r3 s3]) (auto simp: rl_deny_def)
  next
    case 4
    with c run g i p show thesis by (intro pass [of s1 t1 s2 t2]) auto
  qed
qed

lemma rl_inv_counters:
  "rl_inv clk cfg (s\<lparr>rl_rateLimitedRequests := n\<rparr>, t) \<longleftrightarrow> rl_inv clk cfg (s, t)"
  "rl_inv clk cfg (bump s, t) \<longleftrightarrow> rl_inv clk cfg (s, t)"
  by (simp_all add: rl_inv_def bump_def)

lemma bump_simps [simp]:
  "rl_config (bump s) = rl_config s" "rl_ipCache (bump s) = rl_ipCache s"
  "rl_pubkeyCache (bump s) = rl_pubkeyCache s" "rl_globalBucket (bump s) = rl_globalBucket s"
  by (simp_all add: bump_def)

lemma rl_deny_simps: "(v, s', t') = rl_deny r s t \<Longrightarrow>
    \<not> allowed v \<and> t' = t \<and> s' = s\<lparr>rl_rateLimitedRequests := rl_rateLimitedRequests s + 1\<rparr>"
  by (simp add: rl_deny_def)

text \<open>
  What a part of a request may do: keep the invariant, let time pass, draw at most the
  stated tokens from the global bucket and from the bucket of the address.
\<close>

definition moves :: "clock \<Rightarrow> rl_config \<Rightarrow> string \<Rightarrow> bool \<Rightarrow> rate_limiter \<Rightarrow> nat \<Rightarrow> rate_limiter \<Rightarrow> nat \<Rightarrow>
    bool \<Rightarrow> bool \<Rightarrow> bool" where
  "moves clk cfg ip room s t s' t' g i \<longleftrightarrow> rl_inv clk cfg (s', t') \<and> t \<le> t' \<and>
     (\<forall>now. tb_credit now (rl_globalBucket s') + (if g then 1 else 0) \<le> tb_credit now (rl_globalBucket s)) \<and>
     dom (lru_lookup (rl_ipCache s')) \<subseteq> dom (lru_lookup (rl_ipCache s)) \<union> ({ip} - {[]}) \<and>
     (room \<longrightarrow> cache_step clk t t' cfg (cfg_perIpPerMinute cfg) (rl_ipCache s) (rl_ipCache s') (\<lambda>k. i \<and> k = ip))"

lemma moves_trans:
  assumes "moves clk cfg ip room s t s1 t1 g1 i1" "moves clk cfg ip room s1 t1 s2 t2 g2 i2"
  shows "moves clk cfg ip room s t s2 t2 (g1 \<or> g2) (i1 \<or> i2)"
  unfolding moves_def
proof (intro conjI allI impI)
  fix now
  have "tb_credit now (rl_globalBucket s1) + (if g1 then 1 else 0) \<le> tb_credit now (rl_globalBucket s)"
      "tb_credit now (rl_globalBucket s2) + (if g2 then 1 else 0) \<le> tb_credit now (rl_globalBucket s1)"
    using assms by (simp_all add: moves_def)
  then show "tb_credit now (rl_globalBucket s2) + (if g1 \<or> g2 then 1 else 0) \<le> tb_credit now (rl_globalBucket s)"
    by (auto split: if_splits)
next
  assume room
  then have "cache_step clk t t1 cfg (cfg_perIpPerMinute cfg) (rl_ipCache s) (rl_ipCache s1) (\<lambda>k. i1 \<and> k = ip)"
      "cache_step clk t1 t2 cfg (cfg_perIpPerMinute cfg) (rl_ipCache s1) (rl_ipCache s2) (\<lambda>k. i2 \<and> k = ip)"
    using assms by (simp_all add: moves_def)
  then show "cache_step clk t t2 cfg (cfg_perIpPerMinute cfg) (rl_ipCache s) (rl_ipCache s2)
      (\<lambda>k. (i1 \<or> i2) \<and> k = ip)"
    by (rule cache_step_trans) auto
next
  have "dom (lru_lookup (rl_ipCache s1)) \<subseteq> dom (lru_lookup (rl_ipCache s)) \<union> ({ip} - {[]})"
      "dom (lru_lookup (rl_ipCache s2)) \<subseteq> dom (lru_lookup (rl_ipCache s1)) \<union> ({ip} - {[]})"
    using assms by (simp_all only: moves_def)
  then show "dom (lru_lookup (rl_ipCache s2)) \<subseteq> dom (lru_lookup (rl_ipCache s)) \<union> ({ip} - {[]})"
    by blast
qed (use assms in \<open>simp_all add: moves_def\<close>)

lemma moves_refl:
  assumes "rl_inv clk cfg (s, t)"
  shows "moves clk cfg ip room s t s t False False"
  using assms cache_step_idle [of clk t cfg "cfg_perIpPerMinute cfg" "cfg_maxIpBuckets cfg" "rl_ipCache s" t]
  by (auto simp: moves_def rl_inv_def)

lemma moves_counters:
  "moves clk cfg ip room (bump s) t s' t' g i \<longleftrightarrow> moves clk cfg ip room s t s' t' g i"
  "moves clk cfg ip room s t (s'\<lparr>rl_rateLimitedRequests := n\<rparr>) t' g i \<longleftrightarrow> moves clk cfg ip room s t s' t' g i"
  by (simp_all add: moves_def rl_inv_counters)

lemma check_global_moves:
  assumes "rl_inv clk cfg (s, t)" and "check_global clk t s = (r, s', t')"
  shows "moves clk cfg ip room s t s' t' (cfg_globalPerMinute cfg > 0 \<and> r = []) False"
proof -
  have keeps: "rl_inv clk cfg (s', t')" "t \<le> t'" "rl_ipCache s' = rl_ipCache s"
    using check_global_keeps [OF assms] by simp_all
  have "clk t \<le> clk t'" using assms(1) keeps(2) by (simp add: rl_inv_def mono_def)
  then have "cache_step clk t t' cfg (cfg_perIpPerMinute cfg) (rl_ipCache s) (rl_ipCache s) (\<lambda>k. False)"
    using assms(1) by (intro cache_step_idle [where m = "cfg_maxIpBuckets cfg"]) (simp_all add: rl_inv_def)
  with keeps check_global_keeps [OF assms] show ?thesis by (simp add: moves_def)
qed

lemma check_ip_moves:
  assumes "rl_inv clk cfg (s, t)" and "check_ip clk t ip s = (r, s', t')"
    and "room \<Longrightarrow> ip = [] \<or> \<not> no_room (rl_ipCache s) ip (cfg_maxIpBuckets cfg)"
  shows "moves clk cfg ip room s t s' t' False (ip \<noteq> [] \<and> cfg_perIpPerMinute cfg > 0 \<and> r = [])"
  using check_ip_keeps [OF assms(1,2)] assms(3) by (auto simp: moves_def conj_commute)

lemma check_pubkey_moves:
  assumes "rl_inv clk cfg (s, t)" and "check_pubkey clk t pk s = (r, s', t')"
  shows "moves clk cfg ip room s t s' t' False False"
proof -
  have keeps: "rl_inv clk cfg (s', t')" "t \<le> t'" "rl_ipCache s' = rl_ipCache s"
      "rl_globalBucket s' = rl_globalBucket s"
    using check_pubkey_keeps [OF assms] by simp_all
  have "clk t \<le> clk t'" using assms(1) keeps(2) by (simp add: rl_inv_def mono_def)
  then have "cache_step clk t t' cfg (cfg_perIpPerMinute cfg) (rl_ipCache s) (rl_ipCache s) (\<lambda>k. False)"
    using assms(1) by (intro cache_step_idle [where m = "cfg_maxIpBuckets cfg"]) (simp_all add: rl_inv_def)
  with keeps show ?thesis by (simp add: moves_def)
qed

lemma moves_denied:
  "moves clk cfg ip room s t s' t' g i \<Longrightarrow> moves clk cfg ip room s t s' t' False False"
  unfolding moves_def cache_step_def
  by (smt (verit))

lemma checkAndConsume_moves:
  assumes inv: "rl_inv clk cfg (s, t)" and run: "checkAndConsume clk t s ip pk = (v, s', t')"
    and room: "room \<Longrightarrow> ip = [] \<or> \<not> no_room (rl_ipCache s) ip (cfg_maxIpBuckets cfg)"
  shows "moves clk cfg ip room s t s' t'
    (cfg_enabled cfg \<and> cfg_globalPerMinute cfg > 0 \<and> allowed v)
    (cfg_enabled cfg \<and> cfg_perIpPerMinute cfg > 0 \<and> ip \<noteq> [] \<and> allowed v)"
proof (cases "cfg_enabled cfg")
  case False
  with inv run have "s' = s" "t' = t" by (auto simp: checkAndConsume_def rl_inv_def)
  with False moves_refl [OF inv] show ?thesis by simp
next
  case True
  have inv0: "rl_inv clk cfg (bump s, t)" using inv by (simp add: rl_inv_counters)
  note steps = moves_counters moves_trans
  have "cfg_enabled (rl_config s)" using inv True by (simp add: rl_inv_def)
  then show ?thesis
    using run
  proof (cases rule: checkAndConsume_chain)
    case (global r s1)
    from moves_denied [OF check_global_moves [OF inv0 global(1), of ip room]] rl_deny_simps [OF global(3)]
    show ?thesis by (simp add: moves_counters)
  next
    case (per_ip s1 t1 r s2)
    have g: "rl_inv clk cfg (s1, t1)" "rl_ipCache s1 = rl_ipCache s"
      using check_global_keeps [OF inv0 per_ip(1)] by simp_all
    have "moves clk cfg ip room (bump s) t s2 t' False False"
      by (rule moves_denied [OF moves_trans [OF check_global_moves [OF inv0 per_ip(1)]
          check_ip_moves [OF g(1) per_ip(2)]]]) (use room g in simp)
    with rl_deny_simps [OF per_ip(4)] show ?thesis by (simp add: moves_counters)
  next
    case (per_pubkey s1 t1 s2 t2 r s3)
    have g: "rl_inv clk cfg (s1, t1)" "rl_ipCache s1 = rl_ipCache s"
      using check_global_keeps [OF inv0 per_pubkey(1)] by simp_all
    have i: "rl_inv clk cfg (s2, t2)"
      using check_ip_keeps [OF g(1) per_pubkey(2)] by simp
    have "moves clk cfg ip room (bump s) t s3 t' False False"
      by (rule moves_denied [OF moves_trans [OF moves_trans [OF check_global_moves [OF inv0 per_pubkey(1)]
          check_ip_moves [OF g(1) per_pubkey(2)]] check_pubkey_moves [OF i per_pubkey(3)]]]) (use room g in simp)
    with rl_deny_simps [OF per_pubkey(5)] show ?thesis by (simp add: moves_counters)
  next
    case (pass s1 t1 s2 t2)
    have g: "rl_inv clk cfg (s1, t1)" "rl_ipCache s1 = rl_ipCache s"
      using check_global_keeps [OF inv0 pass(1)] by simp_all
    have i: "rl_inv clk cfg (s2, t2)"
      using check_ip_keeps [OF g(1) pass(2)] by simp
    have "moves clk cfg ip room (bump s) t s2 t2 (cfg_globalPerMinute cfg > 0)
        (ip \<noteq> [] \<and> cfg_perIpPerMinute cfg > 0)"
      using moves_trans [OF check_global_moves [OF inv0 pass(1), of ip room] check_ip_moves [OF g(1) pass(2)]]
        room g by simp
    from moves_trans [OF this check_pubkey_moves [OF i pass(3)]] pass(4) True
    show ?thesis by (simp add: moves_counters conj_commute)
  qed
qed

section \<open>The clean-up, a step, a run\<close>

lemma eraseStale_cache:
  assumes "cache_inv clk t cfg n m c" "mono clk" "0 \<le> cfg_burstMultiplier cfg"
    and run: "lru_eraseStale clk (dbl k) t c = (c', t', removed)"
  shows "cache_inv clk t' cfg n m c' \<and> t \<le> t' \<and> removed = 0 \<and> dom (lru_lookup c') = dom (lru_lookup c) \<and>
    cache_step clk t t' cfg n c c' (\<lambda>k. False)"
proof -
  have c: "lru_inv c" "buckets_ok (cap_of cfg n) (rate_of n) (clk t) c" "0 \<le> cap_of cfg n"
      "0 \<le> rate_of n" "lru_size c \<le> max 1 (unat m)"
    using assms(1,3) by (simp_all add: cache_inv_def)
  note keeps = lru_eraseStale_keeps [OF c(1,2,3,4) assms(2) dbl_nonneg run]
  have "lru_size c' = lru_size c"
    using keeps lru_size_card [OF c(1)] lru_size_card [of c'] by simp
  with keeps c(5) show ?thesis by (simp add: cache_inv_def cache_step_def)
qed

lemma cleanup_moves:
  assumes inv: "rl_inv clk cfg (s, t)" and run: "rl_cleanup clk t s = (s', t')"
  shows "moves clk cfg ip room s t s' t' False False \<and>
    dom (lru_lookup (rl_ipCache s')) = dom (lru_lookup (rl_ipCache s)) \<and>
    dom (lru_lookup (rl_pubkeyCache s')) = dom (lru_lookup (rl_pubkeyCache s))"
proof -
  let ?st = "dbl (cfg_staleBucketSeconds cfg)"
  obtain c1 t1 n1 where e1: "lru_eraseStale clk ?st t (rl_ipCache s) = (c1, t1, n1)" by (metis prod_cases3)
  obtain c2 t2 n2 where e2: "lru_eraseStale clk ?st t1 (rl_pubkeyCache s) = (c2, t2, n2)" by (metis prod_cases3)
  have s': "s' = s\<lparr>rl_ipCache := c1, rl_pubkeyCache := c2\<rparr>" "t' = t2"
    using inv run e1 e2 by (auto simp: rl_cleanup_def rl_inv_def)
  have i: "mono clk" "0 \<le> cfg_burstMultiplier cfg"
      "cache_inv clk t cfg (cfg_perIpPerMinute cfg) (cfg_maxIpBuckets cfg) (rl_ipCache s)"
      "cache_inv clk t cfg (cfg_perPubkeyPerMinute cfg) (cfg_maxPubkeyBuckets cfg) (rl_pubkeyCache s)"
    using inv by (simp_all add: rl_inv_def)
  note k1 = eraseStale_cache [OF i(3,1,2) e1]
  have le1: "clk t \<le> clk t1" using k1 i(1) by (simp add: mono_def)
  note k2 = eraseStale_cache [OF cache_inv_later [OF i(4) le1] i(1,2) e2]
  have le2: "clk t1 \<le> clk t2" using k2 i(1) by (simp add: mono_def)
  have "cache_inv clk t2 cfg (cfg_perIpPerMinute cfg) (cfg_maxIpBuckets cfg) c1"
    using k1 le2 cache_inv_later by blast
  then have "rl_inv clk cfg (s', t')"
    using inv k2 le1 le2 by (auto simp: s' rl_inv_def intro: tb_ok_later)
  moreover have "cache_step clk t t2 cfg (cfg_perIpPerMinute cfg) (rl_ipCache s) c1 (\<lambda>k. False)"
  proof (rule cache_step_trans)
    show "cache_step clk t t1 cfg (cfg_perIpPerMinute cfg) (rl_ipCache s) c1 (\<lambda>k. False)"
      using k1 by simp
    show "cache_step clk t1 t2 cfg (cfg_perIpPerMinute cfg) c1 c1 (\<lambda>k. False)"
      using k1 le2 by (intro cache_step_idle [where m = "cfg_maxIpBuckets cfg"]) simp_all
  qed simp
  ultimately show ?thesis
    using k1 k2 by (simp add: moves_def s')
qed

lemma rl_step_inv:
  assumes "rl_inv clk cfg (s, t)"
  shows "rl_inv clk cfg (rl_step clk x (s, t))"
proof (cases x)
  case (Check ip pk)
  obtain v s' t' where run: "checkAndConsume clk t s ip pk = (v, s', t')" by (metis prod_cases3)
  from checkAndConsume_moves [OF assms run, of False] run Check show ?thesis
    by (simp add: moves_def)
next
  case Tick
  obtain s' t' where run: "rl_cleanup clk t s = (s', t')" by fastforce
  from cleanup_moves [OF assms run, of "[]" False] have "rl_inv clk cfg (s', t')" by (simp add: moves_def)
  with assms Tick run show ?thesis by (auto simp: cleanupThread_round_def rl_inv_def)
next
  case Stop
  with assms show ?thesis by (simp add: rl_stop_def rl_inv_def)
qed

lemma rl_run_inv: "rl_inv clk cfg st \<Longrightarrow> rl_inv clk cfg (fold (rl_step clk) xs st)"
proof (induction xs arbitrary: st)
  case (Cons x xs)
  have "rl_inv clk cfg (rl_step clk x st)"
    using Cons.prems rl_step_inv by (cases st) blast
  with Cons.IH show ?case by simp
qed simp

text \<open>Draws on the global bucket.\<close>

definition global_credit :: "clock \<Rightarrow> rate_limiter \<times> nat \<Rightarrow> real" where
  "global_credit clk st = tb_credit (clk (snd st)) (rl_globalBucket (fst st))"

definition run_time :: "clock \<Rightarrow> rate_limiter \<times> nat \<Rightarrow> real" where
  "run_time clk st = clk (snd st)"

lemma moves_global_credit:
  assumes "moves clk cfg ip room s t s' t' g i" "rl_inv clk cfg (s, t)"
  shows "global_credit clk (s', t') + (if g then 1 else 0) \<le>
    global_credit clk (s, t) + rate_of (cfg_globalPerMinute cfg) * (clk t' - clk t)"
proof -
  have "tb_credit (clk t') (rl_globalBucket s) = tb_credit (clk t) (rl_globalBucket s) +
      rate_of (cfg_globalPerMinute cfg) * (clk t' - clk t)"
    by (rule tb_credit_later) (use assms(2) in \<open>auto simp: rl_inv_def\<close>)
  with assms(1) show ?thesis
    unfolding moves_def global_credit_def by (smt (verit) fst_conv snd_conv)
qed

lemma rl_step_moves:
  assumes "rl_inv clk cfg (s, t)" and "rl_step clk x (s, t) = (s', t')"
    and "room \<Longrightarrow> op_ip x = [] \<or> \<not> no_room (rl_ipCache s) (op_ip x) (cfg_maxIpBuckets cfg)"
  shows "moves clk cfg (op_ip x) room s t s' t'
    (cfg_enabled cfg \<and> cfg_globalPerMinute cfg > 0 \<and> rl_allowed clk x (s, t))
    (cfg_enabled cfg \<and> cfg_perIpPerMinute cfg > 0 \<and> op_ip x \<noteq> [] \<and> rl_allowed clk x (s, t))"
proof (cases x)
  case (Check ip pk)
  obtain v s2 t2 where run: "checkAndConsume clk t s ip pk = (v, s2, t2)" by (metis prod_cases3)
  have "s2 = s'" "t2 = t'" using assms(2) Check run by simp_all
  with checkAndConsume_moves [OF assms(1) run, of room] assms(3) Check run show ?thesis
    by simp
next
  case Tick
  have "moves clk cfg [] room s t s' t' False False"
  proof (cases "rl_thread s \<and> rl_running s")
    case True
    with Tick assms(2) have "rl_cleanup clk t s = (s', t')" by (simp add: cleanupThread_round_def)
    with cleanup_moves [OF assms(1)] show ?thesis by blast
  next
    case False
    with Tick assms(2) moves_refl [OF assms(1), of "[]" room] show ?thesis
      by (auto simp: cleanupThread_round_def moves_def rl_inv_def split: if_splits)
  qed
  with Tick show ?thesis by simp
next
  case Stop
  with assms(2) moves_refl [OF assms(1), of "[]" room] have "moves clk cfg [] room s t s' t' False False"
    by (auto simp: rl_stop_def moves_def rl_inv_def split: if_splits)
  with Stop show ?thesis by simp
qed

text \<open>Draws on the bucket of one address, while every address of the run has its place.\<close>

definition ip_credit :: "clock \<Rightarrow> rl_config \<Rightarrow> string \<Rightarrow> rate_limiter \<times> nat \<Rightarrow> real" where
  "ip_credit clk cfg ip st =
     cache_credit (cap_of cfg (cfg_perIpPerMinute cfg)) (clk (snd st)) (rl_ipCache (fst st)) ip"

definition ip_places :: "clock \<Rightarrow> rl_config \<Rightarrow> string set \<Rightarrow> rate_limiter \<times> nat \<Rightarrow> bool" where
  "ip_places clk cfg S st \<longleftrightarrow> rl_inv clk cfg st \<and> finite S \<and> card S \<le> unat (cfg_maxIpBuckets cfg) \<and>
     dom (lru_lookup (rl_ipCache (fst st))) \<subseteq> S"

definition from_ips :: "string set \<Rightarrow> rl_op \<Rightarrow> bool" where
  "from_ips S x \<longleftrightarrow> op_ip x = [] \<or> op_ip x \<in> S"

definition ip_admits :: "clock \<Rightarrow> string \<Rightarrow> rl_op \<Rightarrow> rate_limiter \<times> nat \<Rightarrow> bool" where
  "ip_admits clk ip x st \<longleftrightarrow> op_ip x = ip \<and> rl_allowed clk x st"

lemma room_for:
  assumes "ip_places clk cfg S (s, t)" "a \<in> S"
  shows "\<not> no_room (rl_ipCache s) a (cfg_maxIpBuckets cfg)"
proof
  assume full: "no_room (rl_ipCache s) a (cfg_maxIpBuckets cfg)"
  let ?c = "rl_ipCache s"
  have "lru_inv ?c" using assms(1) by (simp add: ip_places_def rl_inv_def cache_inv_def)
  then have "lru_size ?c = card (dom (lru_lookup ?c))" by (rule lru_size_card)
  also have "\<dots> < card S"
    using assms full by (intro psubset_card_mono) (auto simp: ip_places_def no_room_def)
  finally show False
    using full assms(1) by (simp add: no_room_def ip_places_def)
qed

lemma ip_step:
  assumes "ip_places clk cfg S (s, t)" "from_ips S x" "rl_step clk x (s, t) = (s', t')"
    and "cfg_enabled cfg" "cfg_perIpPerMinute cfg > 0" "ip \<noteq> []"
  shows "ip_places clk cfg S (s', t')"
    and "ip_credit clk cfg ip (s', t') + (if ip_admits clk ip x (s, t) then 1 else 0) \<le>
      ip_credit clk cfg ip (s, t) + rate_of (cfg_perIpPerMinute cfg) * (clk t' - clk t)"
proof -
  have inv: "rl_inv clk cfg (s, t)" using assms(1) by (simp add: ip_places_def)
  have m: "moves clk cfg (op_ip x) True s t s' t'
      (cfg_enabled cfg \<and> cfg_globalPerMinute cfg > 0 \<and> rl_allowed clk x (s, t))
      (cfg_enabled cfg \<and> cfg_perIpPerMinute cfg > 0 \<and> op_ip x \<noteq> [] \<and> rl_allowed clk x (s, t))"
    by (rule rl_step_moves [OF inv assms(3)])
      (use room_for [OF assms(1)] assms(2) in \<open>auto simp: from_ips_def\<close>)
  have "dom (lru_lookup (rl_ipCache s')) \<subseteq> dom (lru_lookup (rl_ipCache s)) \<union> ({op_ip x} - {[]})"
    using m by (simp only: moves_def)
  then have "dom (lru_lookup (rl_ipCache s')) \<subseteq> S"
    using assms(1,2) unfolding ip_places_def from_ips_def fst_conv by blast
  then show "ip_places clk cfg S (s', t')"
    using m assms(1) by (simp add: moves_def ip_places_def)
  have "cache_credit (cap_of cfg (cfg_perIpPerMinute cfg)) (clk t') (rl_ipCache s') ip +
      (if (cfg_enabled cfg \<and> cfg_perIpPerMinute cfg > 0 \<and> op_ip x \<noteq> [] \<and> rl_allowed clk x (s, t)) \<and>
          ip = op_ip x then 1 else 0) \<le>
      cache_credit (cap_of cfg (cfg_perIpPerMinute cfg)) (clk t) (rl_ipCache s) ip +
      rate_of (cfg_perIpPerMinute cfg) * (clk t' - clk t)"
    using m unfolding moves_def cache_step_def by blast
  with assms(4,5,6) show "ip_credit clk cfg ip (s', t') + (if ip_admits clk ip x (s, t) then 1 else 0) \<le>
      ip_credit clk cfg ip (s, t) + rate_of (cfg_perIpPerMinute cfg) * (clk t' - clk t)"
    by (auto simp: ip_credit_def ip_admits_def split: if_splits)
qed

interpretation global_admission: admission "rl_step clk" "rl_allowed clk" "\<lambda>_. True"
  "\<lambda>st. rl_inv clk cfg st \<and> cfg_enabled cfg \<and> cfg_globalPerMinute cfg > 0"
  "global_credit clk" "run_time clk" "rate_of (cfg_globalPerMinute cfg)"
  for clk cfg
proof
  fix st x
  assume inv: "rl_inv clk cfg st \<and> cfg_enabled cfg \<and> cfg_globalPerMinute cfg > 0"
  obtain s t s' t' where st: "st = (s, t)" "rl_step clk x (s, t) = (s', t')" by (metis prod.exhaust)
  show "rl_inv clk cfg (rl_step clk x st) \<and> cfg_enabled cfg \<and> cfg_globalPerMinute cfg > 0"
    using inv rl_step_inv st(1) by blast
  have "rl_inv clk cfg (s, t)" using inv st by simp
  then have "moves clk cfg (op_ip x) False s t s' t'
      (cfg_enabled cfg \<and> cfg_globalPerMinute cfg > 0 \<and> rl_allowed clk x (s, t))
      (cfg_enabled cfg \<and> cfg_perIpPerMinute cfg > 0 \<and> op_ip x \<noteq> [] \<and> rl_allowed clk x (s, t))"
    by (rule rl_step_moves [OF _ st(2)]) simp
  from moves_global_credit [OF this] inv st
  show "global_credit clk (rl_step clk x st) + (if rl_allowed clk x st then 1 else 0) \<le>
      global_credit clk st + rate_of (cfg_globalPerMinute cfg) * (run_time clk (rl_step clk x st) - run_time clk st)"
    by (simp add: run_time_def)
next
  fix st
  assume "rl_inv clk cfg st \<and> cfg_enabled cfg \<and> cfg_globalPerMinute cfg > 0"
  then show "0 \<le> global_credit clk st"
    unfolding global_credit_def
    by (intro tb_credit_nonneg [of "cap_of cfg (cfg_globalPerMinute cfg)" "rate_of (cfg_globalPerMinute cfg)"])
      (auto simp: rl_inv_def split: prod.splits)
qed

interpretation ip_admission: admission "rl_step clk" "ip_admits clk ip" "from_ips S"
  "\<lambda>st. ip_places clk cfg S st \<and> cfg_enabled cfg \<and> cfg_perIpPerMinute cfg > 0 \<and> ip \<noteq> []"
  "ip_credit clk cfg ip" "run_time clk" "rate_of (cfg_perIpPerMinute cfg)"
  for clk cfg S ip
proof
  fix st x
  assume inv: "ip_places clk cfg S st \<and> cfg_enabled cfg \<and> cfg_perIpPerMinute cfg > 0 \<and> ip \<noteq> []"
    and x: "from_ips S x"
  obtain s t s' t' where st: "st = (s, t)" "rl_step clk x (s, t) = (s', t')" by (metis prod.exhaust)
  note step = ip_step [OF _ x st(2), of cfg ip]
  show "ip_places clk cfg S (rl_step clk x st) \<and> cfg_enabled cfg \<and> cfg_perIpPerMinute cfg > 0 \<and> ip \<noteq> []"
    using inv step(1) st by simp
  show "ip_credit clk cfg ip (rl_step clk x st) + (if ip_admits clk ip x st then 1 else 0) \<le>
      ip_credit clk cfg ip st + rate_of (cfg_perIpPerMinute cfg) * (run_time clk (rl_step clk x st) - run_time clk st)"
    using inv step(2) st by (simp add: run_time_def)
next
  fix st
  assume inv: "ip_places clk cfg S st \<and> cfg_enabled cfg \<and> cfg_perIpPerMinute cfg > 0 \<and> ip \<noteq> []"
  then have "buckets_ok (cap_of cfg (cfg_perIpPerMinute cfg)) (rate_of (cfg_perIpPerMinute cfg))
      (clk (snd st)) (rl_ipCache (fst st))" "0 \<le> cap_of cfg (cfg_perIpPerMinute cfg)"
    by (auto simp: ip_places_def rl_inv_def cache_inv_def split: prod.splits)
  then show "0 \<le> ip_credit clk cfg ip st"
    unfolding ip_credit_def
    by (intro cache_credit_nonneg [of _ "rate_of (cfg_perIpPerMinute cfg)"]) simp_all
qed

section \<open>Recency\<close>

text \<open>The keys of a cache, the most recently used first, and what a check makes of them.\<close>

definition lru_keys :: "lru_cache \<Rightarrow> string list" where
  "lru_keys c = map snd (lru_order c)"

definition lru_spec :: "nat \<Rightarrow> string \<Rightarrow> string list \<Rightarrow> string list" where
  "lru_spec m key ks = take (max 1 m) (key # removeAll key ks)"

lemma length_lru_keys: "lru_inv c \<Longrightarrow> length (lru_keys c) = lru_size c"
  unfolding lru_inv_def lru_keys_def lru_size_def by (metis distinct_card length_map set_map)

lemma lru_keys_touch:
  assumes "lru_inv c" "(it, key) \<in> set (lru_order c)"
  shows "lru_keys (lru_touch key it c) = key # removeAll key (lru_keys c)"
proof -
  have part: "map snd (List.filter (\<lambda>n. fst n = it) xs) = [key] \<and>
      map snd (List.filter (\<lambda>n. fst n \<noteq> it) xs) = removeAll key (map snd xs)"
    if "distinct (map fst xs)" "distinct (map snd xs)" "(it, key) \<in> set xs" for xs :: "(nat \<times> string) list"
    using that
  proof (induction xs)
    case (Cons x xs)
    show ?case
    proof (cases "x = (it, key)")
      case True
      with Cons.prems have "List.filter (\<lambda>n. fst n = it) xs = []" "List.filter (\<lambda>n. fst n \<noteq> it) xs = xs"
          "key \<notin> set (map snd xs)"
        by (auto simp: filter_empty_conv filter_id_conv)
      with True show ?thesis by simp
    next
      case False
      with Cons.prems have mem: "(it, key) \<in> set xs" by simp
      have "it \<in> fst ` set xs" "key \<in> snd ` set xs"
        using image_eqI [OF _ mem, of it fst] image_eqI [OF _ mem, of key snd] by simp_all
      then have "fst x \<noteq> it" "snd x \<noteq> key" using Cons.prems(1,2) by auto
      then show ?thesis using Cons mem by simp
    qed
  qed simp
  from assms show ?thesis
    using part [of "lru_order c"] by (simp add: lru_keys_def lru_touch_def lru_inv_def)
qed

lemma lru_keys_simps [simp]:
  "lru_keys (lru_store k b c) = lru_keys c"
  "lru_keys (lru_insert k b c) = k # lru_keys c"
  "lru_keys (lru_evictOldest c) = butlast (lru_keys c)"
  by (simp_all add: lru_keys_def lru_insert_def lru_evictOldest_def lru_pop_back_def lru_erase_def map_butlast)

lemma checkBucket_keys:
  assumes inv: "lru_inv c" and size: "lru_size c \<le> max 1 (unat m)"
    and run: "checkBucket clk t key c cap rate lt m = (r, c', t')"
  shows "lru_keys c' = lru_spec (unat m) key (lru_keys c)"
proof (cases "map_of (lru_buckets c) key")
  case (Some bi)
  then obtain b it where bi: "map_of (lru_buckets c) key = Some (b, it)" by (cases bi) auto
  have mem: "(it, key) \<in> set (lru_order c)"
    using inv map_of_SomeD [OF bi] by (auto simp: lru_inv_def)
  have keys: "lru_keys c' = key # removeAll key (lru_keys c)"
    using run bi lru_keys_touch [OF inv mem]
    by (auto simp: checkBucket_def lru_get_def Let_def split: prod.splits if_splits)
  have "key \<in> set (lru_keys c)" using mem by (force simp: lru_keys_def)
  then have "length (removeAll key (lru_keys c)) < length (lru_keys c)"
    by (rule length_removeAll_less)
  then show ?thesis
    using keys size length_lru_keys [OF inv] by (simp add: lru_spec_def)
next
  case None
  have "set (lru_keys c) = fst ` set (lru_buckets c)"
    using inv by (simp add: lru_inv_def lru_keys_def)
  then have fresh: "removeAll key (lru_keys c) = lru_keys c"
    using None by (simp add: map_of_eq_None_iff)
  have "lru_keys c' = key # (if unat m \<le> lru_size c then butlast (lru_keys c) else lru_keys c)"
    using run None by (auto simp: checkBucket_def lru_get_def Let_def split: prod.splits if_splits)
  then show ?thesis
    using size length_lru_keys [OF inv] fresh
    by (auto simp: lru_spec_def butlast_conv_take max_def take_Cons' split: if_splits)
qed

section \<open>Statistics\<close>

fun is_check :: "rl_op \<Rightarrow> bool" where
  "is_check (Check ip pk) = True"
| "is_check _ = False"

lemma check_counters:
  "check_global clk t s = (r, s', t') \<Longrightarrow> rl_totalRequests s' = rl_totalRequests s \<and>
    rl_rateLimitedRequests s' = rl_rateLimitedRequests s \<and> rl_config s' = rl_config s"
  "check_ip clk t ip s = (r, s', t') \<Longrightarrow> rl_totalRequests s' = rl_totalRequests s \<and>
    rl_rateLimitedRequests s' = rl_rateLimitedRequests s \<and> rl_config s' = rl_config s"
  "check_pubkey clk t pk s = (r, s', t') \<Longrightarrow> rl_totalRequests s' = rl_totalRequests s \<and>
    rl_rateLimitedRequests s' = rl_rateLimitedRequests s \<and> rl_config s' = rl_config s"
  by (auto simp: check_global_def check_ip_def check_pubkey_def Let_def split: if_splits prod.splits)

lemma checkAndConsume_counters:
  assumes "cfg_enabled (rl_config s)" "checkAndConsume clk t s ip pk = (v, s', t')"
  shows "rl_totalRequests s' = rl_totalRequests s + 1 \<and> rl_config s' = rl_config s \<and>
    rl_rateLimitedRequests s' = rl_rateLimitedRequests s + (if allowed v then 0 else 1)"
  using assms
proof (cases rule: checkAndConsume_chain)
  case (global r s1)
  then show ?thesis using check_counters(1) [OF global(1)] by (auto simp: bump_def rl_deny_def)
next
  case (per_ip s1 t1 r s2)
  then show ?thesis
    using check_counters(1) [OF per_ip(1)] check_counters(2) [OF per_ip(2)] by (auto simp: bump_def rl_deny_def)
next
  case (per_pubkey s1 t1 s2 t2 r s3)
  then show ?thesis
    using check_counters(1) [OF per_pubkey(1)] check_counters(2) [OF per_pubkey(2)]
      check_counters(3) [OF per_pubkey(3)] by (auto simp: bump_def rl_deny_def)
next
  case (pass s1 t1 s2 t2)
  then show ?thesis
    using check_counters(1) [OF pass(1)] check_counters(2) [OF pass(2)] check_counters(3) [OF pass(3)]
    by (auto simp: bump_def)
qed

lemma rl_step_counters:
  assumes "cfg_enabled (rl_config s)" "rl_step clk x (s, t) = (s', t')"
  shows "rl_totalRequests s' = rl_totalRequests s + (if is_check x then 1 else 0) \<and>
    rl_config s' = rl_config s \<and>
    rl_rateLimitedRequests s' = rl_rateLimitedRequests s +
      (if is_check x \<and> \<not> rl_allowed clk x (s, t) then 1 else 0)"
proof (cases x)
  case (Check ip pk)
  obtain v s2 t2 where run: "checkAndConsume clk t s ip pk = (v, s2, t2)" by (metis prod_cases3)
  with checkAndConsume_counters [OF assms(1) run] assms(2) Check show ?thesis by simp
qed (use assms(2) in \<open>auto simp: cleanupThread_round_def rl_cleanup_def rl_stop_def Let_def split: if_splits prod.splits\<close>)

lemma rl_run_counters:
  assumes "cfg_enabled (rl_config s)" "fold (rl_step clk) xs (s, t) = (s', t')"
  shows "rl_totalRequests s' = rl_totalRequests s + of_nat (length (List.filter is_check xs)) \<and>
    rl_rateLimitedRequests s' = rl_rateLimitedRequests s +
      of_nat (count_run (rl_step clk) (\<lambda>x st. is_check x \<and> \<not> rl_allowed clk x st) xs (s, t))"
  using assms
proof (induction xs arbitrary: s t)
  case Nil
  then show ?case by simp
next
  case (Cons x xs)
  obtain s1 t1 where st: "rl_step clk x (s, t) = (s1, t1)" by fastforce
  have c: "rl_totalRequests s1 = rl_totalRequests s + (if is_check x then 1 else 0)"
      "rl_config s1 = rl_config s" "rl_rateLimitedRequests s1 = rl_rateLimitedRequests s +
      (if is_check x \<and> \<not> rl_allowed clk x (s, t) then 1 else 0)"
    using rl_step_counters [OF Cons.prems(1) st] by simp_all
  have "fold (rl_step clk) xs (s1, t1) = (s', t')" using Cons.prems(2) st by simp
  from Cons.IH [OF _ this] c Cons.prems(1) st show ?case by simp
qed

section \<open>Properties\<close>

definition sample_config :: rl_config where
  "sample_config = \<lparr>cfg_enabled = True, cfg_perIpPerMinute = 60, cfg_perPubkeyPerMinute = 100,
     cfg_globalPerMinute = 1000, cfg_burstMultiplier = 2, cfg_cleanupIntervalSeconds = 60,
     cfg_maxIpBuckets = 2, cfg_maxPubkeyBuckets = 10000, cfg_staleBucketSeconds = 60\<rparr>"

lemma mono_real: "mono (\<lambda>n. real n)"
  by (simp add: mono_def)

lemma RateLimiter_credit:
  assumes "mono clk" "RateLimiter clk t cfg = (s0, t0)"
  shows "t0 = Suc t" and "global_credit clk (s0, t0) =
      cap_of cfg (cfg_globalPerMinute cfg) + rate_of (cfg_globalPerMinute cfg) * (clk (Suc t) - clk t)"
    and "rl_ipCache s0 = empty_cache" and "rl_pubkeyCache s0 = empty_cache" and "rl_config s0 = cfg"
    and "rl_totalRequests s0 = 0" and "rl_rateLimitedRequests s0 = 0"
  using assms by (auto simp: RateLimiter_def TokenBucket_def global_credit_def tb_credit_def Let_def)

text \<open>
  C35. The global limit holds over every run of the limiter, whatever requests, clean-ups and
  stops it consists of and however they interleave: the requests allowed since the limiter
  was built number at most the burst capacity plus the configured rate times the time that
  has passed.
\<close>

theorem global_rate_bound:
  assumes "mono clk" and "0 \<le> cfg_burstMultiplier cfg" and "cfg_enabled cfg"
    and "cfg_globalPerMinute cfg > 0" and "RateLimiter clk t cfg = (s0, t0)"
    and "fold (rl_step clk) ops (s0, t0) = (s', t')"
  shows "real (count_run (rl_step clk) (rl_allowed clk) ops (s0, t0)) \<le>
    dbl (cfg_globalPerMinute cfg) * cfg_burstMultiplier cfg +
    dbl (cfg_globalPerMinute cfg) / 60 * (clk t' - clk t)"
proof -
  have inv: "rl_inv clk cfg (s0, t0) \<and> cfg_enabled cfg \<and> cfg_globalPerMinute cfg > 0"
    using RateLimiter_inv [OF assms(1,2), of t] assms(3-5) by simp
  note start = RateLimiter_credit [OF assms(1,5)]
  have "real (count_run (rl_step clk) (rl_allowed clk) ops (s0, t0)) \<le> global_credit clk (s0, t0) +
      rate_of (cfg_globalPerMinute cfg) * (run_time clk (s', t') - run_time clk (s0, t0))"
    using global_admission.admitted_bound [OF inv, of ops] by (simp add: assms(6))
  then show ?thesis
    unfolding start(2) by (simp add: run_time_def start(1) field_simps)
qed

theorem global_rate_bound_witness:
  "\<exists>s0 t0 s' t'. RateLimiter (\<lambda>n. real n) 0 sample_config = (s0, t0) \<and>
     fold (rl_step (\<lambda>n. real n)) [Check ''a'' [], Tick, Check ''b'' ''k'', Stop] (s0, t0) = (s', t') \<and>
     real (count_run (rl_step (\<lambda>n. real n)) (rl_allowed (\<lambda>n. real n))
        [Check ''a'' [], Tick, Check ''b'' ''k'', Stop] (s0, t0)) \<le> 1000 * 2 + 1000 / 60 * (real t' - real 0)"
proof -
  let ?ops = "[Check ''a'' [], Tick, Check ''b'' ''k'', Stop]"
  obtain s0 t0 where new: "RateLimiter (\<lambda>n. real n) 0 sample_config = (s0, t0)" by fastforce
  obtain s' t' where run: "fold (rl_step (\<lambda>n. real n)) ?ops (s0, t0) = (s', t')" by fastforce
  have "real (count_run (rl_step (\<lambda>n. real n)) (rl_allowed (\<lambda>n. real n)) ?ops (s0, t0)) \<le>
      dbl (cfg_globalPerMinute sample_config) * cfg_burstMultiplier sample_config +
      dbl (cfg_globalPerMinute sample_config) / 60 * (real t' - real 0)"
    by (rule global_rate_bound [OF mono_real _ _ _ new run]) (simp_all add: sample_config_def)
  then have "real (count_run (rl_step (\<lambda>n. real n)) (rl_allowed (\<lambda>n. real n)) ?ops (s0, t0)) \<le>
      1000 * 2 + 1000 / 60 * (real t' - real 0)"
    by (simp only: sample_config_def rl_config.simps dbl_def) simp
  with new run show ?thesis by blast
qed

text \<open>
  The per-address limit: in a run whose requests come from no more addresses than the
  cache has places, the requests allowed for one address number at most its burst capacity
  plus its rate times the time passed.  With more addresses than places a bucket can be
  evicted and its address starts again with a full one, so the bound on the number of
  addresses is needed.
\<close>

theorem ip_rate_bound:
  assumes "mono clk" and "0 \<le> cfg_burstMultiplier cfg" and "cfg_enabled cfg"
    and "cfg_perIpPerMinute cfg > 0" and "ip \<noteq> []" and "RateLimiter clk t cfg = (s0, t0)"
    and "card (op_ip ` set ops - {[]}) \<le> unat (cfg_maxIpBuckets cfg)"
    and "fold (rl_step clk) ops (s0, t0) = (s', t')"
  shows "real (count_run (rl_step clk) (ip_admits clk ip) ops (s0, t0)) \<le>
    dbl (cfg_perIpPerMinute cfg) * cfg_burstMultiplier cfg +
    dbl (cfg_perIpPerMinute cfg) / 60 * (clk t' - clk t)"
proof -
  let ?S = "op_ip ` set ops - {[]}"
  note start = RateLimiter_credit [OF assms(1,6)]
  have "rl_inv clk cfg (s0, t0)"
    using RateLimiter_inv [OF assms(1,2), of t] assms(6) by simp
  then have inv: "ip_places clk cfg ?S (s0, t0) \<and> cfg_enabled cfg \<and> cfg_perIpPerMinute cfg > 0 \<and> ip \<noteq> []"
    using assms(3-5,7) start(3) by (auto simp: ip_places_def)
  have fits: "\<forall>x\<in>set ops. from_ips ?S x" by (auto simp: from_ips_def)
  have "ip_credit clk cfg ip (s0, t0) = cap_of cfg (cfg_perIpPerMinute cfg)"
    by (simp add: ip_credit_def start(3) cache_credit_def)
  moreover have "rate_of (cfg_perIpPerMinute cfg) * (clk t' - clk t0) \<le>
      rate_of (cfg_perIpPerMinute cfg) * (clk t' - clk t)"
    using assms(1) start(1) by (intro mult_left_mono) (simp_all add: mono_def)
  ultimately show ?thesis
    using ip_admission.admitted_bound [OF inv fits] by (simp add: assms(8) run_time_def)
qed

theorem ip_rate_bound_witness:
  "\<exists>s0 t0 s' t'. RateLimiter (\<lambda>n. real n) 0 sample_config = (s0, t0) \<and>
     fold (rl_step (\<lambda>n. real n)) [Check ''a'' [], Check ''b'' [], Check ''a'' []] (s0, t0) = (s', t') \<and>
     real (count_run (rl_step (\<lambda>n. real n)) (ip_admits (\<lambda>n. real n) ''a'')
        [Check ''a'' [], Check ''b'' [], Check ''a'' []] (s0, t0)) \<le> 60 * 2 + 60 / 60 * (real t' - real 0)"
proof -
  let ?ops = "[Check ''a'' [], Check ''b'' [], Check ''a'' []]"
  obtain s0 t0 where new: "RateLimiter (\<lambda>n. real n) 0 sample_config = (s0, t0)" by fastforce
  obtain s' t' where run: "fold (rl_step (\<lambda>n. real n)) ?ops (s0, t0) = (s', t')" by fastforce
  have "op_ip ` set ?ops - {[]} = {''a'', ''b''}" by auto
  then have few: "card (op_ip ` set ?ops - {[]}) \<le> unat (cfg_maxIpBuckets sample_config)"
    by (simp add: sample_config_def)
  have "real (count_run (rl_step (\<lambda>n. real n)) (ip_admits (\<lambda>n. real n) ''a'') ?ops (s0, t0)) \<le>
      dbl (cfg_perIpPerMinute sample_config) * cfg_burstMultiplier sample_config +
      dbl (cfg_perIpPerMinute sample_config) / 60 * (real t' - real 0)"
    by (rule ip_rate_bound [OF mono_real _ _ _ _ new few run]) (simp_all add: sample_config_def)
  then have "real (count_run (rl_step (\<lambda>n. real n)) (ip_admits (\<lambda>n. real n) ''a'') ?ops (s0, t0)) \<le>
      60 * 2 + 60 / 60 * (real t' - real 0)"
    by (simp only: sample_config_def rl_config.simps dbl_def) simp
  with new run show ?thesis by blast
qed

text \<open>
  C36. In every state the limiter reaches, both caches are consistent, map and list with the
  same keys and every stored iterator that of its own key's node, and neither holds more
  than its configured number of buckets (one bucket when that number is 0).
\<close>

theorem caches_consistent_and_bounded:
  assumes "mono clk" and "0 \<le> cfg_burstMultiplier cfg" and "RateLimiter clk t cfg = (s0, t0)"
    and "fold (rl_step clk) ops (s0, t0) = (s', t')"
  shows "lru_inv (rl_ipCache s') \<and> lru_inv (rl_pubkeyCache s') \<and>
    st_ipBuckets (getStats s') \<le> max 1 (unat (cfg_maxIpBuckets cfg)) \<and>
    st_pubkeyBuckets (getStats s') \<le> max 1 (unat (cfg_maxPubkeyBuckets cfg))"
proof -
  have "rl_inv clk cfg (s', t')"
    using rl_run_inv [OF RateLimiter_inv [OF assms(1,2)], of ops t] assms(3,4) by simp
  then show ?thesis by (simp add: rl_inv_def cache_inv_def getStats_def)
qed

theorem caches_consistent_and_bounded_witness:
  "\<exists>s0 t0 s' t'. RateLimiter (\<lambda>n. real n) 0 sample_config = (s0, t0) \<and>
     fold (rl_step (\<lambda>n. real n)) [Check ''a'' ''x'', Check ''b'' [], Check ''c'' []] (s0, t0) = (s', t') \<and>
     lru_inv (rl_ipCache s') \<and> st_ipBuckets (getStats s') \<le> 2"
proof -
  let ?ops = "[Check ''a'' ''x'', Check ''b'' [], Check ''c'' []]"
  obtain s0 t0 where new: "RateLimiter (\<lambda>n. real n) 0 sample_config = (s0, t0)" by fastforce
  obtain s' t' where run: "fold (rl_step (\<lambda>n. real n)) ?ops (s0, t0) = (s', t')" by fastforce
  have "0 \<le> cfg_burstMultiplier sample_config" by (simp add: sample_config_def)
  from caches_consistent_and_bounded [OF mono_real this new run] new run show ?thesis
    by (auto simp: sample_config_def)
qed

text \<open>
  A check implements least-recently-used replacement: the keys of the cache afterwards,
  most recent first, are the checked key followed by the others in their order, cut to the
  configured number of places.
\<close>

theorem checkBucket_is_lru:
  assumes "lru_inv cache" and "lru_size cache \<le> max 1 (unat maxBuckets)"
    and "checkBucket clk t key cache capacity refillRate limitType maxBuckets = (verdict, cache', t')"
  shows "lru_keys cache' = take (max 1 (unat maxBuckets)) (key # removeAll key (lru_keys cache))"
  using checkBucket_keys [OF assms] by (simp add: lru_spec_def)

theorem checkBucket_is_lru_witness:
  "\<exists>verdict cache' t'. checkBucket (\<lambda>n. real n) 0 ''a'' empty_cache 2 1 ''per_ip'' 5 = (verdict, cache', t') \<and>
     lru_keys cache' = [''a'']"
proof -
  obtain v c' t' where run: "checkBucket (\<lambda>n. real n) 0 ''a'' empty_cache 2 1 ''per_ip'' 5 = (v, c', t')"
    by (metis prod_cases3)
  have "lru_size empty_cache \<le> max 1 (unat (5 :: u64))" by simp
  from checkBucket_is_lru [OF lru_inv_empty this run] run show ?thesis
    by (auto simp: lru_keys_def empty_cache_def)
qed

text \<open>
  The clean-up removes no bucket, ever: \<^verbatim>\<open>eraseStale\<close> refills a bucket, which moves
  its \<^verbatim>\<open>lastRefill\<close> past \<^verbatim>\<open>now\<close>, before it asks how long ago the last refill was.
  The keys of both caches are the same before and after, however long the buckets have been
  idle.
\<close>

theorem cleanup_removes_nothing:
  assumes "mono clk" and "0 \<le> cfg_burstMultiplier cfg" and "RateLimiter clk t cfg = (s0, t0)"
    and "fold (rl_step clk) ops (s0, t0) = (s, t1)" and "rl_cleanup clk t1 s = (s', t2)"
  shows "dom (lru_lookup (rl_ipCache s')) = dom (lru_lookup (rl_ipCache s)) \<and>
    dom (lru_lookup (rl_pubkeyCache s')) = dom (lru_lookup (rl_pubkeyCache s))"
proof -
  have "rl_inv clk cfg (s, t1)"
    using rl_run_inv [OF RateLimiter_inv [OF assms(1,2)], of ops t] assms(3,4) by simp
  from cleanup_moves [OF this assms(5), of "[]" False] show ?thesis by simp
qed

theorem cleanup_removes_nothing_witness:
  "\<exists>s0 t0 s t1 s' t2. RateLimiter (\<lambda>n. 1000 * real n) 0 sample_config = (s0, t0) \<and>
     fold (rl_step (\<lambda>n. 1000 * real n)) [Check ''a'' []] (s0, t0) = (s, t1) \<and>
     rl_cleanup (\<lambda>n. 1000 * real n) t1 s = (s', t2) \<and>
     dom (lru_lookup (rl_ipCache s')) = dom (lru_lookup (rl_ipCache s))"
proof -
  let ?clk = "\<lambda>n. 1000 * real n"
  obtain s0 t0 where new: "RateLimiter ?clk 0 sample_config = (s0, t0)" by fastforce
  obtain s t1 where run: "fold (rl_step ?clk) [Check ''a'' []] (s0, t0) = (s, t1)" by fastforce
  obtain s' t2 where clean: "rl_cleanup ?clk t1 s = (s', t2)" by fastforce
  have "mono ?clk" "0 \<le> cfg_burstMultiplier sample_config" by (simp_all add: mono_def sample_config_def)
  from cleanup_removes_nothing [OF this new run clean] new run clean show ?thesis by blast
qed

text \<open>
  The statistics are exact: after any run of an enabled limiter the total is the number
  of requests checked and the limited count the number of those that were refused, both
  modulo \<open>2 ^ 64\<close>.
\<close>

theorem statistics_exact:
  assumes "cfg_enabled cfg" and "RateLimiter clk t cfg = (s0, t0)"
    and "fold (rl_step clk) ops (s0, t0) = (s', t')"
  shows "st_totalRequests (getStats s') = of_nat (length (List.filter is_check ops)) \<and>
    st_rateLimitedRequests (getStats s') =
      of_nat (count_run (rl_step clk) (\<lambda>x st. is_check x \<and> \<not> rl_allowed clk x st) ops (s0, t0))"
proof -
  have "rl_config s0 = cfg" "rl_totalRequests s0 = 0" "rl_rateLimitedRequests s0 = 0"
    using assms(2) by (auto simp: RateLimiter_def TokenBucket_def Let_def)
  then show ?thesis
    using rl_run_counters [OF _ assms(3)] assms(1) by (simp add: getStats_def)
qed

theorem statistics_exact_witness:
  "\<exists>s0 t0 s' t'. RateLimiter (\<lambda>n. real n) 0 sample_config = (s0, t0) \<and>
     fold (rl_step (\<lambda>n. real n)) [Check ''a'' [], Tick, Check [] ''k''] (s0, t0) = (s', t') \<and>
     st_totalRequests (getStats s') = 2"
proof -
  obtain s0 t0 where new: "RateLimiter (\<lambda>n. real n) 0 sample_config = (s0, t0)" by fastforce
  obtain s' t' where run: "fold (rl_step (\<lambda>n. real n)) [Check ''a'' [], Tick, Check [] ''k''] (s0, t0) = (s', t')"
    by fastforce
  have "cfg_enabled sample_config" by (simp add: sample_config_def)
  from statistics_exact [OF this new run] new run show ?thesis by auto
qed

end
