(* ===== verification/Http_Metrics.thy ===== *)
theory Http_Metrics
  imports Strfry_Prelude
begin

text \<open>
  The metrics collector of the HTTP server (\<^verbatim>\<open>src/src/HttpMetrics.h\<close>): request counts by
  method and status, duration histograms by endpoint, the plain counters, the Prometheus
  text, and the theorem that every figure it holds counts what was reported since the last
  reset.  The maps are under one mutex and the plain counters are atomic, so a run is a
  sequence of the calls.
\<close>

section \<open>Methods, endpoints, keys\<close>

datatype http_method = M_GET | M_POST | M_OPTIONS | M_OTHER

datatype endpoint = API_QUOTES | API_QUERY | E_HEALTH | E_METRICS | E_OTHER

fun method_code :: "http_method \<Rightarrow> nat" where
  "method_code M_GET = 0"
| "method_code M_POST = 1"
| "method_code M_OPTIONS = 2"
| "method_code M_OTHER = 3"

fun endpoint_code :: "endpoint \<Rightarrow> nat" where
  "endpoint_code API_QUOTES = 0"
| "endpoint_code API_QUERY = 1"
| "endpoint_code E_HEALTH = 2"
| "endpoint_code E_METRICS = 3"
| "endpoint_code E_OTHER = 4"

lemma method_code_inj: "method_code a = method_code b \<longleftrightarrow> a = b"
  by (cases a; cases b) auto

lemma endpoint_code_inj: "endpoint_code a = endpoint_code b \<longleftrightarrow> a = b"
  by (cases a; cases b) auto

instantiation endpoint :: linorder
begin

definition less_eq_endpoint :: "endpoint \<Rightarrow> endpoint \<Rightarrow> bool" where
  "less_eq_endpoint a b \<longleftrightarrow> endpoint_code a \<le> endpoint_code b"

definition less_endpoint :: "endpoint \<Rightarrow> endpoint \<Rightarrow> bool" where
  "less_endpoint a b \<longleftrightarrow> endpoint_code a < endpoint_code b"

instance
  by standard (auto simp: less_eq_endpoint_def less_endpoint_def endpoint_code_inj [symmetric])

end

datatype request_key = RequestKey http_method int

text \<open>\<^verbatim>\<open>RequestKey::operator<\<close> orders by method, then by status.\<close>

fun request_key_less :: "request_key \<Rightarrow> request_key \<Rightarrow> bool" where
  "request_key_less (RequestKey m c) (RequestKey m' c') =
     (if m \<noteq> m' then method_code m < method_code m' else c < c')"

instantiation request_key :: linorder
begin

definition less_request_key :: "request_key \<Rightarrow> request_key \<Rightarrow> bool" where
  "less_request_key a b \<longleftrightarrow> request_key_less a b"

definition less_eq_request_key :: "request_key \<Rightarrow> request_key \<Rightarrow> bool" where
  "less_eq_request_key a b \<longleftrightarrow> a = b \<or> request_key_less a b"

instance
proof
  fix a b c :: request_key
  show "a < b \<longleftrightarrow> a \<le> b \<and> \<not> b \<le> a"
    by (cases a; cases b) (auto simp: less_request_key_def less_eq_request_key_def)
  show "a \<le> a" by (simp add: less_eq_request_key_def)
  show "a \<le> b \<Longrightarrow> b \<le> c \<Longrightarrow> a \<le> c"
    by (cases a; cases b; cases c) (auto simp: less_eq_request_key_def split: if_splits)
  show "a \<le> b \<Longrightarrow> b \<le> a \<Longrightarrow> a = b"
    by (cases a; cases b) (auto simp: less_eq_request_key_def split: if_splits)
  show "a \<le> b \<or> b \<le> a"
    by (cases a; cases b) (auto simp: less_eq_request_key_def less_le method_code_inj)
qed

end

definition methodFromString :: "string \<Rightarrow> http_method" where
  "methodFromString m =
     (if m = ''GET'' then M_GET else if m = ''POST'' then M_POST
      else if m = ''OPTIONS'' then M_OPTIONS else M_OTHER)"

fun methodToString :: "http_method \<Rightarrow> string" where
  "methodToString M_GET = ''GET''"
| "methodToString M_POST = ''POST''"
| "methodToString M_OPTIONS = ''OPTIONS''"
| "methodToString M_OTHER = ''OTHER''"

definition endpointFromString :: "string \<Rightarrow> endpoint" where
  "endpointFromString e =
     (if e = ''/api/quotes'' then API_QUOTES else if e = ''/api/query'' then API_QUERY
      else if e = ''/health'' then E_HEALTH else if e = ''/metrics'' then E_METRICS else E_OTHER)"

fun endpointToString :: "endpoint \<Rightarrow> string" where
  "endpointToString API_QUOTES = ''/api/quotes''"
| "endpointToString API_QUERY = ''/api/query''"
| "endpointToString E_HEALTH = ''/health''"
| "endpointToString E_METRICS = ''/metrics''"
| "endpointToString E_OTHER = ''/other''"

section \<open>State and operations\<close>

record histogram =
  h_count :: u64
  h_sum :: u64
  h_le_10 :: u64
  h_le_50 :: u64
  h_le_100 :: u64
  h_le_500 :: u64
  h_le_1000 :: u64
  h_le_5000 :: u64

definition empty_histogram :: histogram where
  "empty_histogram = \<lparr>h_count = 0, h_sum = 0, h_le_10 = 0, h_le_50 = 0, h_le_100 = 0,
     h_le_500 = 0, h_le_1000 = 0, h_le_5000 = 0\<rparr>"

record metrics =
  m_requestCounts :: "(request_key \<times> u64) list"
  m_requestDurations :: "(endpoint \<times> histogram) list"
  m_totalRequests :: u64
  m_queryCount :: u64
  m_querySum :: u64
  m_rateLimitHits :: u64
  m_rateLimitBlocks :: u64
  m_eventsAccepted :: u64
  m_eventsRejected :: u64

definition metrics_reset :: metrics where
  "metrics_reset = \<lparr>m_requestCounts = [], m_requestDurations = [], m_totalRequests = 0,
     m_queryCount = 0, m_querySum = 0, m_rateLimitHits = 0, m_rateLimitBlocks = 0,
     m_eventsAccepted = 0, m_eventsRejected = 0\<rparr>"

definition incrementRequestTotal :: "string \<Rightarrow> int \<Rightarrow> metrics \<Rightarrow> metrics" where
  "incrementRequestTotal method statusCode s =
     s\<lparr>m_requestCounts := smap_update (RequestKey (methodFromString method) statusCode) 0
          (\<lambda>n. n + 1) (m_requestCounts s),
       m_totalRequests := m_totalRequests s + 1\<rparr>"

definition incrementRateLimitHits :: "metrics \<Rightarrow> metrics" where
  "incrementRateLimitHits s = s\<lparr>m_rateLimitHits := m_rateLimitHits s + 1\<rparr>"

definition incrementRateLimitBlocks :: "metrics \<Rightarrow> metrics" where
  "incrementRateLimitBlocks s = s\<lparr>m_rateLimitBlocks := m_rateLimitBlocks s + 1\<rparr>"

definition histogram_add :: "u64 \<Rightarrow> histogram \<Rightarrow> histogram" where
  "histogram_add d h =
     \<lparr>h_count = h_count h + 1, h_sum = h_sum h + d,
      h_le_10 = h_le_10 h + (if d \<le> 10 then 1 else 0),
      h_le_50 = h_le_50 h + (if d \<le> 50 then 1 else 0),
      h_le_100 = h_le_100 h + (if d \<le> 100 then 1 else 0),
      h_le_500 = h_le_500 h + (if d \<le> 500 then 1 else 0),
      h_le_1000 = h_le_1000 h + (if d \<le> 1000 then 1 else 0),
      h_le_5000 = h_le_5000 h + (if d \<le> 5000 then 1 else 0)\<rparr>"

definition observeRequestDuration :: "string \<Rightarrow> u64 \<Rightarrow> metrics \<Rightarrow> metrics" where
  "observeRequestDuration e d s =
     s\<lparr>m_requestDurations := smap_update (endpointFromString e) empty_histogram
          (histogram_add d) (m_requestDurations s)\<rparr>"

definition incrementEventsAccepted :: "metrics \<Rightarrow> metrics" where
  "incrementEventsAccepted s = s\<lparr>m_eventsAccepted := m_eventsAccepted s + 1\<rparr>"

definition incrementEventsRejected :: "metrics \<Rightarrow> metrics" where
  "incrementEventsRejected s = s\<lparr>m_eventsRejected := m_eventsRejected s + 1\<rparr>"

definition observeQueryResults :: "u64 \<Rightarrow> metrics \<Rightarrow> metrics" where
  "observeQueryResults n s =
     s\<lparr>m_queryCount := m_queryCount s + 1, m_querySum := m_querySum s + n\<rparr>"

section \<open>The Prometheus text\<close>

abbreviation nl :: string where
  "nl \<equiv> [CHR 0x0A]"

abbreviation dq :: string where
  "dq \<equiv> [CHR 0x22]"

definition render_request_line :: "request_key \<times> u64 \<Rightarrow> string" where
  "render_request_line kc = (case fst kc of RequestKey m c \<Rightarrow>
     ''http_requests_total{method='' @ dq @ methodToString m @ dq @ '',status='' @ dq @
     show_int c @ dq @ ''} '' @ show_u64 (snd kc) @ nl)"

definition render_bucket :: "string \<Rightarrow> string \<Rightarrow> u64 \<Rightarrow> string" where
  "render_bucket e le n =
     ''http_request_duration_milliseconds_bucket{endpoint='' @ dq @ e @ dq @ '',le='' @ dq @
     le @ dq @ ''} '' @ show_u64 n @ nl"

definition render_histogram :: "endpoint \<times> histogram \<Rightarrow> string" where
  "render_histogram eh = (let e = endpointToString (fst eh); h = snd eh in
     render_bucket e ''10'' (h_le_10 h) @ render_bucket e ''50'' (h_le_50 h) @
     render_bucket e ''100'' (h_le_100 h) @ render_bucket e ''500'' (h_le_500 h) @
     render_bucket e ''1000'' (h_le_1000 h) @ render_bucket e ''5000'' (h_le_5000 h) @
     render_bucket e ''+Inf'' (h_count h) @
     ''http_request_duration_milliseconds_sum{endpoint='' @ dq @ e @ dq @ ''} '' @ show_u64 (h_sum h) @ nl @
     ''http_request_duration_milliseconds_count{endpoint='' @ dq @ e @ dq @ ''} '' @
     show_u64 (h_count h) @ nl)"

definition render_counter :: "string \<Rightarrow> string \<Rightarrow> u64 \<Rightarrow> string" where
  "render_counter name help n =
     nl @ ''# HELP '' @ name @ '' '' @ help @ nl @ ''# TYPE '' @ name @ '' counter'' @ nl @
     name @ '' '' @ show_u64 n @ nl"

definition renderPrometheus :: "metrics \<Rightarrow> string" where
  "renderPrometheus s =
     ''# HELP http_requests_total Total number of HTTP requests'' @ nl @
     ''# TYPE http_requests_total counter'' @ nl @
     concat (map render_request_line (m_requestCounts s)) @
     ''http_requests_total_all '' @ show_u64 (m_totalRequests s) @ nl @
     nl @ ''# HELP http_request_duration_milliseconds HTTP request duration'' @ nl @
     ''# TYPE http_request_duration_milliseconds histogram'' @ nl @
     concat (map render_histogram (m_requestDurations s)) @
     render_counter ''http_rate_limit_hits_total'' ''Total rate limit checks'' (m_rateLimitHits s) @
     render_counter ''http_rate_limit_blocks_total'' ''Total rate limit blocks'' (m_rateLimitBlocks s) @
     render_counter ''nostr_events_accepted_total'' ''Total events accepted'' (m_eventsAccepted s) @
     render_counter ''nostr_events_rejected_total'' ''Total events rejected'' (m_eventsRejected s) @
     nl @ ''# HELP nostr_query_results Query result counts'' @ nl @
     ''# TYPE nostr_query_results summary'' @ nl @
     ''nostr_query_results_sum '' @ show_u64 (m_querySum s) @ nl @
     ''nostr_query_results_count '' @ show_u64 (m_queryCount s) @ nl"

section \<open>Runs\<close>

datatype metric_op =
    RequestTotal string int
  | RateLimitHit
  | RateLimitBlock
  | Duration string u64
  | EventAccepted
  | EventRejected
  | QueryResults u64
  | Reset

fun metrics_step :: "metric_op \<Rightarrow> metrics \<Rightarrow> metrics" where
  "metrics_step (RequestTotal m c) s = incrementRequestTotal m c s"
| "metrics_step RateLimitHit s = incrementRateLimitHits s"
| "metrics_step RateLimitBlock s = incrementRateLimitBlocks s"
| "metrics_step (Duration e d) s = observeRequestDuration e d s"
| "metrics_step EventAccepted s = incrementEventsAccepted s"
| "metrics_step EventRejected s = incrementEventsRejected s"
| "metrics_step (QueryResults n) s = observeQueryResults n s"
| "metrics_step Reset s = metrics_reset"

text \<open>What was reported, as the specification reads it off the list of calls.\<close>

definition reported_requests :: "metric_op list \<Rightarrow> request_key list" where
  "reported_requests ops = concat (map (\<lambda>x. case x of
     RequestTotal m c \<Rightarrow> [RequestKey (methodFromString m) c] | _ \<Rightarrow> []) ops)"

definition reported_durations :: "endpoint \<Rightarrow> metric_op list \<Rightarrow> u64 list" where
  "reported_durations e ops = concat (map (\<lambda>x. case x of
     Duration s d \<Rightarrow> (if endpointFromString s = e then [d] else []) | _ \<Rightarrow> []) ops)"

definition reported_results :: "metric_op list \<Rightarrow> u64 list" where
  "reported_results ops = concat (map (\<lambda>x. case x of QueryResults n \<Rightarrow> [n] | _ \<Rightarrow> []) ops)"

definition num_le :: "u64 \<Rightarrow> u64 list \<Rightarrow> u64" where
  "num_le b ds = of_nat (length (List.filter (\<lambda>d. d \<le> b) ds))"

definition histogram_of :: "u64 list \<Rightarrow> histogram" where
  "histogram_of ds = \<lparr>h_count = of_nat (length ds), h_sum = sum_list ds, h_le_10 = num_le 10 ds,
     h_le_50 = num_le 50 ds, h_le_100 = num_le 100 ds, h_le_500 = num_le 500 ds,
     h_le_1000 = num_le 1000 ds, h_le_5000 = num_le 5000 ds\<rparr>"

definition since_reset :: "metric_op list \<Rightarrow> metric_op list" where
  "since_reset ops = rev (takeWhile (\<lambda>x. x \<noteq> Reset) (rev ops))"

lemma since_reset_snoc:
  "since_reset (ops @ [x]) = (if x = Reset then [] else since_reset ops @ [x])"
  by (simp add: since_reset_def)

lemma reported_snoc [simp]:
  "reported_requests (ops @ [x]) = reported_requests ops @ reported_requests [x]"
  "reported_durations e (ops @ [x]) = reported_durations e ops @ reported_durations e [x]"
  "reported_results (ops @ [x]) = reported_results ops @ reported_results [x]"
  by (simp_all add: reported_requests_def reported_durations_def reported_results_def)

lemma reported_single [simp]:
  "reported_requests [] = []" "reported_durations e [] = []" "reported_results [] = []"
  "reported_requests [x] = (case x of RequestTotal m c \<Rightarrow> [RequestKey (methodFromString m) c] | _ \<Rightarrow> [])"
  "reported_durations e [x] =
     (case x of Duration s d \<Rightarrow> (if endpointFromString s = e then [d] else []) | _ \<Rightarrow> [])"
  "reported_results [x] = (case x of QueryResults n \<Rightarrow> [n] | _ \<Rightarrow> [])"
  by (simp_all add: reported_requests_def reported_durations_def reported_results_def)

lemma histogram_of_snoc: "histogram_add d (histogram_of ds) = histogram_of (ds @ [d])"
  by (simp add: histogram_add_def histogram_of_def num_le_def)

lemma histogram_of_Nil: "empty_histogram = histogram_of []"
  by (simp add: empty_histogram_def histogram_of_def num_le_def)

definition num_ops :: "metric_op \<Rightarrow> metric_op list \<Rightarrow> u64" where
  "num_ops x ops = of_nat (count_list ops x)"

lemma num_ops_snoc [simp]: "num_ops x (ops @ [y]) = num_ops x ops + (if x = y then 1 else 0)"
  by (simp add: num_ops_def)

definition metrics_abs :: "metric_op list \<Rightarrow> metrics \<Rightarrow> bool" where
  "metrics_abs rep s \<longleftrightarrow>
     sorted_wrt (<) (map fst (m_requestCounts s)) \<and> sorted_wrt (<) (map fst (m_requestDurations s)) \<and>
     (\<forall>k. map_of (m_requestCounts s) k = (if k \<in> set (reported_requests rep)
        then Some (of_nat (count_list (reported_requests rep) k)) else None)) \<and>
     (\<forall>e. map_of (m_requestDurations s) e = (if reported_durations e rep = [] then None
        else Some (histogram_of (reported_durations e rep)))) \<and>
     m_totalRequests s = of_nat (length (reported_requests rep)) \<and>
     m_queryCount s = of_nat (length (reported_results rep)) \<and>
     m_querySum s = sum_list (reported_results rep) \<and>
     m_rateLimitHits s = num_ops RateLimitHit rep \<and> m_rateLimitBlocks s = num_ops RateLimitBlock rep \<and>
     m_eventsAccepted s = num_ops EventAccepted rep \<and> m_eventsRejected s = num_ops EventRejected rep"

lemma metrics_abs_reset: "metrics_abs [] metrics_reset"
  by (simp add: metrics_abs_def metrics_reset_def num_ops_def)

lemma metrics_abs_request:
  assumes "metrics_abs rep s"
  shows "metrics_abs (rep @ [RequestTotal m c]) (incrementRequestTotal m c s)"
proof -
  let ?k = "RequestKey (methodFromString m) c"
  have "map_of (m_requestCounts (incrementRequestTotal m c s)) k =
      (if k \<in> set (reported_requests rep) \<or> k = ?k
       then Some (of_nat (count_list (reported_requests rep) k + (if k = ?k then 1 else 0))) else None)" for k
    using assms by (auto simp: metrics_abs_def incrementRequestTotal_def map_of_smap_update count_notin
        add.commute)
  then show ?thesis
    using assms by (auto simp: metrics_abs_def incrementRequestTotal_def sorted_smap_update)
qed

lemma metrics_abs_duration:
  assumes "metrics_abs rep s"
  shows "metrics_abs (rep @ [Duration e d]) (observeRequestDuration e d s)"
proof -
  let ?e = "endpointFromString e"
  have "histogram_add d (case map_of (m_requestDurations s) ?e of None \<Rightarrow> empty_histogram | Some h \<Rightarrow> h) =
      histogram_of (reported_durations ?e rep @ [d])"
    using assms by (simp add: metrics_abs_def histogram_of_Nil histogram_of_snoc [symmetric])
  then have "map_of (m_requestDurations (observeRequestDuration e d s)) =
      (map_of (m_requestDurations s))(?e \<mapsto> histogram_of (reported_durations ?e rep @ [d]))"
    using assms by (simp add: metrics_abs_def observeRequestDuration_def map_of_smap_update)
  then show ?thesis
    using assms by (auto simp: metrics_abs_def observeRequestDuration_def sorted_smap_update)
qed

lemma metrics_abs_step:
  assumes "metrics_abs rep s" "x \<noteq> Reset"
  shows "metrics_abs (rep @ [x]) (metrics_step x s)"
proof (cases x)
  case (RequestTotal m c)
  with metrics_abs_request [OF assms(1)] show ?thesis by simp
next
  case (Duration e d)
  with metrics_abs_duration [OF assms(1)] show ?thesis by simp
qed (use assms in \<open>simp_all add: metrics_abs_def incrementRateLimitHits_def incrementRateLimitBlocks_def
    incrementEventsAccepted_def incrementEventsRejected_def observeQueryResults_def\<close>)

lemma metrics_abs_run: "metrics_abs (since_reset ops) (fold metrics_step ops metrics_reset)"
proof (induction ops rule: rev_induct)
  case Nil
  show ?case by (simp add: since_reset_def metrics_abs_reset)
next
  case (snoc x ops)
  then show ?case
    by (cases "x = Reset") (simp_all add: since_reset_snoc metrics_abs_reset metrics_abs_step)
qed

lemma sum_smap_update:
  "sum_list (map snd (smap_update k 0 (\<lambda>n. n + 1) m)) = sum_list (map snd m) + (1 :: u64)"
  by (induction k "0 :: u64" "\<lambda>n :: u64. n + 1" m rule: smap_update.induct) (auto simp: add.assoc)

lemma length_reported:
  "length (reported_durations e ops) \<le> length ops"
  by (induction ops) (auto simp: reported_durations_def split: metric_op.split)

lemma length_since_reset: "length (since_reset ops) \<le> length ops"
  unfolding since_reset_def using length_takeWhile_le [of _ "rev ops"] by simp

lemma of_nat_mono_u64: "m \<le> n \<Longrightarrow> n < 2 ^ 64 \<Longrightarrow> (of_nat m :: u64) \<le> of_nat n"
  by (simp add: word_le_nat_alt unat_of_nat)

lemma num_le_mono:
  assumes "length ds < 2 ^ 64" "a \<le> b"
  shows "num_le a ds \<le> num_le b ds"
proof -
  have "length (List.filter (\<lambda>d. d \<le> a) ds) \<le> length (List.filter (\<lambda>d. d \<le> b) ds)"
    using assms(2) by (induction ds) (auto intro: order.trans)
  moreover have "length (List.filter (\<lambda>d. d \<le> b) ds) < 2 ^ 64"
    using assms(1) length_filter_le [of "\<lambda>d. d \<le> b" ds] by linarith
  ultimately show ?thesis
    unfolding num_le_def by (rule of_nat_mono_u64)
qed

lemma num_le_length:
  assumes "length ds < 2 ^ 64"
  shows "num_le b ds \<le> of_nat (length ds)"
  unfolding num_le_def using length_filter_le assms by (rule of_nat_mono_u64)

section \<open>Properties\<close>

text \<open>
  The collector refines the list of calls made since the last reset: after any sequence
  of calls the count under a method and status is the number of such requests, the histogram
  of an endpoint counts its durations up to each bound and sums them, and every plain counter
  is the number of its calls, all modulo \<open>2 ^ 64\<close>; keys never reported are absent.
\<close>

theorem metrics_exact:
  "let s = fold metrics_step ops metrics_reset; rep = since_reset ops
   in map_of (m_requestCounts s) k = (if k \<in> set (reported_requests rep)
        then Some (of_nat (count_list (reported_requests rep) k)) else None) \<and>
      map_of (m_requestDurations s) e = (if reported_durations e rep = [] then None
        else Some (histogram_of (reported_durations e rep))) \<and>
      m_totalRequests s = of_nat (length (reported_requests rep)) \<and>
      m_queryCount s = of_nat (length (reported_results rep)) \<and>
      m_querySum s = sum_list (reported_results rep) \<and>
      m_rateLimitHits s = num_ops RateLimitHit rep \<and>
      m_rateLimitBlocks s = num_ops RateLimitBlock rep \<and>
      m_eventsAccepted s = num_ops EventAccepted rep \<and>
      m_eventsRejected s = num_ops EventRejected rep"
  using metrics_abs_run [of ops] by (simp add: metrics_abs_def Let_def)

text \<open>
  What Prometheus requires of the exported figures: the counts by method and status sum
  up to the total, and as long as fewer than \<open>2 ^ 64\<close> calls were made the buckets of every
  histogram are cumulative, each at most the next and the last at most the count.
\<close>

theorem metrics_consistent:
  assumes "length ops < 2 ^ 64" and "s = fold metrics_step ops metrics_reset"
  shows "sum_list (map snd (m_requestCounts s)) = m_totalRequests s \<and>
    (\<forall>(e, h)\<in>set (m_requestDurations s). h_le_10 h \<le> h_le_50 h \<and> h_le_50 h \<le> h_le_100 h \<and>
       h_le_100 h \<le> h_le_500 h \<and> h_le_500 h \<le> h_le_1000 h \<and> h_le_1000 h \<le> h_le_5000 h \<and>
       h_le_5000 h \<le> h_count h)"
proof
  show "sum_list (map snd (m_requestCounts s)) = m_totalRequests s"
    unfolding assms(2)
  proof (induction ops rule: rev_induct)
    case Nil
    show ?case by (simp add: metrics_reset_def)
  next
    case (snoc x ops)
    then show ?case
      by (cases x) (simp_all add: incrementRequestTotal_def sum_smap_update metrics_reset_def
          incrementRateLimitHits_def incrementRateLimitBlocks_def observeRequestDuration_def
          incrementEventsAccepted_def incrementEventsRejected_def observeQueryResults_def)
  qed
  have abs: "metrics_abs (since_reset ops) s"
    unfolding assms(2) by (rule metrics_abs_run)
  have dist: "distinct (map fst (m_requestDurations s))"
    using abs by (simp add: metrics_abs_def strict_sorted_iff)
  have of_mem: "h = histogram_of (reported_durations e (since_reset ops))"
    if "(e, h) \<in> set (m_requestDurations s)" for e h
  proof -
    have "map_of (m_requestDurations s) e = Some h"
      using that dist by simp
    moreover have "map_of (m_requestDurations s) e = (if reported_durations e (since_reset ops) = [] then None
        else Some (histogram_of (reported_durations e (since_reset ops))))"
      using abs by (simp only: metrics_abs_def)
    ultimately show ?thesis by (simp split: if_splits)
  qed
  have short: "length (reported_durations e (since_reset ops)) < 2 ^ 64" for e
    using assms(1) length_reported [of e "since_reset ops"] length_since_reset [of ops] by linarith
  show "\<forall>(e, h)\<in>set (m_requestDurations s). h_le_10 h \<le> h_le_50 h \<and> h_le_50 h \<le> h_le_100 h \<and>
       h_le_100 h \<le> h_le_500 h \<and> h_le_500 h \<le> h_le_1000 h \<and> h_le_1000 h \<le> h_le_5000 h \<and>
       h_le_5000 h \<le> h_count h"
  proof clarify
    fix e h
    assume "(e, h) \<in> set (m_requestDurations s)"
    then have h: "h = histogram_of (reported_durations e (since_reset ops))" by (rule of_mem)
    show "h_le_10 h \<le> h_le_50 h \<and> h_le_50 h \<le> h_le_100 h \<and>
       h_le_100 h \<le> h_le_500 h \<and> h_le_500 h \<le> h_le_1000 h \<and> h_le_1000 h \<le> h_le_5000 h \<and>
       h_le_5000 h \<le> h_count h"
      by (simp add: h histogram_of_def num_le_mono [OF short] num_le_length [OF short])
  qed
qed

theorem metrics_consistent_witness:
  "\<exists>s. s = fold metrics_step [Duration ''/health'' 70, RequestTotal ''GET'' 200, RequestTotal ''PUT'' 404]
       metrics_reset \<and> sum_list (map snd (m_requestCounts s)) = m_totalRequests s \<and> m_totalRequests s = 2"
proof -
  let ?ops = "[Duration ''/health'' 70, RequestTotal ''GET'' 200, RequestTotal ''PUT'' 404]"
  have "length ?ops < 2 ^ 64" by simp
  from metrics_consistent [OF this refl]
  have "sum_list (map snd (m_requestCounts (fold metrics_step ?ops metrics_reset))) =
      m_totalRequests (fold metrics_step ?ops metrics_reset)" by blast
  moreover have "m_totalRequests (fold metrics_step ?ops metrics_reset) = 2"
    by (simp add: incrementRequestTotal_def observeRequestDuration_def metrics_reset_def)
  ultimately show ?thesis by blast
qed

end
