(* ===== verification/Misc_Utils.thy ===== *)
theory Misc_Utils
  imports Nostr_Filter
begin

text \<open>
  Small parts that several components share: reading numbers (\<^verbatim>\<open>src/src/misc.cpp\<close> and the
  part of \<^verbatim>\<open>std::stoull\<close> it relies on), the JSON accessors with error messages
  (\<^verbatim>\<open>src/src/jsonParseUtils.h\<close>), and subscription ids and subscriptions
  (\<^verbatim>\<open>src/src/Subscription.h\<close>).
\<close>

section \<open>Reading numbers\<close>

definition is_space :: "char \<Rightarrow> bool" where
  "is_space c \<longleftrightarrow> c = CHR '' '' \<or> (CHR 0x09 \<le> c \<and> c \<le> CHR 0x0D)"

text \<open>
  \<^verbatim>\<open>std::stoull(s)\<close> in base 10: leading space, an optional sign, then as many digits as
  there are; what follows is ignored and a minus sign negates modulo \<open>2 ^ 64\<close>.
\<close>

definition std_stoull :: "string \<Rightarrow> u64 result" where
  "std_stoull s =
     (let s1 = dropWhile is_space s;
          neg = starts_with s1 ''-'';
          s2 = (if neg \<or> starts_with s1 ''+'' then drop 1 s1 else s1);
          ds = takeWhile is_digit s2
      in if ds = [] then Inl InvalidArgument
         else if read_nat ds \<ge> 2 ^ 64 then Inl OutOfRange
         else Inr (if neg then - of_nat (read_nat ds) else of_nat (read_nat ds)))"

definition parseUint64 :: "string \<Rightarrow> u64 result" where
  "parseUint64 s =
     (if \<not> list_all is_digit s then Inl (Herr ''non-digit character'') else std_stoull s)"

lemma is_digit_not_space: "is_digit c \<Longrightarrow> \<not> is_space c"
  by (auto simp: is_digit_def is_space_def less_eq_char_def)

lemma is_digit_not_sign: "is_digit c \<Longrightarrow> c \<noteq> CHR ''-'' \<and> c \<noteq> CHR ''+''"
  by (auto simp: is_digit_def less_eq_char_def)

lemma std_stoull_digits:
  assumes "s \<noteq> []" "list_all is_digit s"
  shows "std_stoull s = (if read_nat s \<ge> 2 ^ 64 then Inl OutOfRange else Inr (of_nat (read_nat s)))"
proof -
  obtain c r where s: "s = c # r" using assms(1) by (cases s) auto
  have c: "is_digit c" using assms(2) s by simp
  have dw: "dropWhile is_space s = s" and tw: "takeWhile is_digit s = s"
    using assms(2) is_digit_not_space [OF c] by (auto simp: s takeWhile_eq_all_conv list_all_iff)
  have "\<not> starts_with s ''-''" "\<not> starts_with s ''+''"
    using is_digit_not_sign [OF c] by (auto simp: s starts_with_def)
  then show ?thesis
    using assms(1) by (simp add: std_stoull_def Let_def dw tw)
qed

lemma parseUint64_cases:
  "parseUint64 s = (if \<not> list_all is_digit s then Inl (Herr ''non-digit character'')
     else if s = [] then Inl InvalidArgument
     else if read_nat s \<ge> 2 ^ 64 then Inl OutOfRange else Inr (of_nat (read_nat s)))"
proof (cases "s = []")
  case True
  then show ?thesis by (simp add: parseUint64_def std_stoull_def starts_with_def)
next
  case False
  then show ?thesis using std_stoull_digits [of s] by (auto simp: parseUint64_def)
qed

section \<open>Network addresses\<close>

text \<open>
  \<^verbatim>\<open>inet_ntop\<close> and \<^verbatim>\<open>inet_pton\<close> are arguments; the flag selects \<^verbatim>\<open>AF_INET6\<close>.  \<^verbatim>\<open>inet_pton\<close>
  gives the bytes, or nothing for a text that is not an address.
\<close>

definition renderIP :: "(bool \<Rightarrow> string \<Rightarrow> string) \<Rightarrow> string \<Rightarrow> string result" where
  "renderIP inet_ntop ipBytes =
     (if length ipBytes = 4 then Inr (inet_ntop False ipBytes)
      else if length ipBytes = 16 then Inr (inet_ntop True ipBytes)
      else Inl (Herr ''invalid size of ipBytes, unable to render IP''))"

definition parseIP :: "(bool \<Rightarrow> string \<Rightarrow> string option) \<Rightarrow> string \<Rightarrow> string" where
  "parseIP inet_pton ip =
     (case inet_pton (str_find ip '':'' \<noteq> None) ip of None \<Rightarrow> [] | Some bytes \<Rightarrow> bytes)"

section \<open>JSON accessors with messages\<close>

definition jsonGetString :: "json \<Rightarrow> string \<Rightarrow> string result" where
  "jsonGetString e err = (if \<not> is_string e then Inl (Herr err) else get_string e)"

definition jsonGetArray :: "json \<Rightarrow> string \<Rightarrow> json list result" where
  "jsonGetArray e err = (if \<not> is_array e then Inl (Herr err) else get_array e)"

fun is_unsigned :: "json \<Rightarrow> bool" where
  "is_unsigned (JUnsigned _) = True"
| "is_unsigned _ = False"

definition jsonGetUnsigned :: "json \<Rightarrow> string \<Rightarrow> u64 result" where
  "jsonGetUnsigned e err = (if \<not> is_unsigned e then Inl (Herr err) else get_unsigned e)"

section \<open>Subscription ids\<close>

definition badChar :: "char \<Rightarrow> bool" where
  "badChar c \<longleftrightarrow> c < CHR 0x20 \<or> c = CHR 0x5C \<or> c = CHR 0x22 \<or> c \<ge> CHR 0x7F"

text \<open>The bytes of \<^verbatim>\<open>buf\<close> that the constructor writes: the length, then the characters.\<close>

definition SubId :: "string \<Rightarrow> string result" where
  "SubId val =
     bindE (throw_if (length val > 71) ''subscription id too long'') (\<lambda>_.
     bindE (throw_if (length val = 0) ''subscription id too short'') (\<lambda>_.
     bindE (throw_if (list_ex badChar val) ''invalid character in subscription id'') (\<lambda>_.
     Inr (char_of (length val) # val))))"

definition SubId_sv :: "string \<Rightarrow> string" where
  "SubId_sv buf = take (of_char (hd buf)) (tl buf)"

definition SubId_eq :: "string \<Rightarrow> string \<Rightarrow> bool" where
  "SubId_eq a b \<longleftrightarrow> SubId_sv b = SubId_sv a"

record subscription =
  sub_connId :: u64
  sub_subId :: string
  sub_filterGroup :: "nostr_filter list"
  sub_latestEventId :: u64

definition Subscription :: "u64 \<Rightarrow> string \<Rightarrow> nostr_filter list \<Rightarrow> subscription result" where
  "Subscription connId subId fg = bindE (SubId subId) (\<lambda>i.
     Inr \<lparr>sub_connId = connId, sub_subId = i, sub_filterGroup = fg, sub_latestEventId = MAX_U64\<rparr>)"

lemma SubId_Inr:
  "SubId val = Inr b \<longleftrightarrow>
     1 \<le> length val \<and> length val \<le> 71 \<and> (\<forall>c\<in>set val. \<not> badChar c) \<and> b = char_of (length val) # val"
  by (auto simp: SubId_def bindE_eq_Inr list_ex_iff Suc_le_eq)

lemma SubId_sv_SubId: "SubId val = Inr b \<Longrightarrow> SubId_sv b = val"
  by (auto simp: SubId_Inr SubId_sv_def)

section \<open>Properties\<close>

text \<open>
  Reading a number: \<^verbatim>\<open>parseUint64\<close> returns exactly the value of a nonempty string of
  digits below \<open>2 ^ 64\<close>, throws on everything else, and inverts the decimal rendering of
  every 64-bit integer.
\<close>

theorem parseUint64_correct:
  "(parseUint64 s = Inr n \<longleftrightarrow>
      s \<noteq> [] \<and> (\<forall>c\<in>set s. is_digit c) \<and> read_nat s < 2 ^ 64 \<and> n = of_nat (read_nat s)) \<and>
   parseUint64 (show_u64 m) = Inr m"
proof
  show "parseUint64 s = Inr n \<longleftrightarrow>
      s \<noteq> [] \<and> (\<forall>c\<in>set s. is_digit c) \<and> read_nat s < 2 ^ 64 \<and> n = of_nat (read_nat s)"
    by (auto simp: parseUint64_cases list_all_iff not_le)
  have "unat m < 2 ^ 64" using unsigned_less [of m] by simp
  then show "parseUint64 (show_u64 m) = Inr m"
    using show_nat_digits [of "unat m"] by (auto simp: parseUint64_cases list_all_iff show_u64_def not_le)
qed

theorem parseUint64_correct_witness:
  "parseUint64 ''42'' = Inr 42 \<and> parseUint64 (show_u64 7) = Inr 7"
  using parseUint64_correct [of "''42''" 42 7]
  by (simp add: is_digit_def less_eq_char_def read_nat_def digit_value_def)

text \<open>
  Subscription ids: the constructor accepts exactly the strings of 1 to 71 printable
  ASCII characters other than the quote and the backslash, \<^verbatim>\<open>sv()\<close> gives back the string
  it was built from, and equality of ids is equality of those strings.
\<close>

theorem SubId_correct:
  "((\<exists>b. SubId val = Inr b) \<longleftrightarrow> 1 \<le> length val \<and> length val \<le> 71 \<and>
      (\<forall>c\<in>set val. CHR 0x20 \<le> c \<and> c < CHR 0x7F \<and> c \<noteq> CHR 0x22 \<and> c \<noteq> CHR 0x5C)) \<and>
   (SubId val = Inr b \<longrightarrow> SubId_sv b = val) \<and>
   (SubId val = Inr b \<longrightarrow> SubId val' = Inr b' \<longrightarrow> (SubId_eq b b' \<longleftrightarrow> val = val'))"
proof (intro conjI impI)
  show "(\<exists>b. SubId val = Inr b) \<longleftrightarrow> 1 \<le> length val \<and> length val \<le> 71 \<and>
      (\<forall>c\<in>set val. CHR 0x20 \<le> c \<and> c < CHR 0x7F \<and> c \<noteq> CHR 0x22 \<and> c \<noteq> CHR 0x5C)"
    unfolding SubId_Inr badChar_def de_Morgan_disj not_less not_le by blast
qed (simp_all add: SubId_sv_SubId SubId_eq_def eq_commute)

theorem SubId_correct_witness:
  "\<exists>b. SubId ''sub1'' = Inr b \<and> SubId_sv b = ''sub1'' \<and> SubId_eq b b"
proof -
  obtain b where b: "SubId ''sub1'' = Inr b"
    by (simp add: SubId_def badChar_def less_char_def less_eq_char_def throw_if_def)
  from SubId_correct [of "''sub1''" b "''sub1''" b] b show ?thesis by blast
qed

end
