(* ===== verification/Http_Text.thy ===== *)
theory Http_Text
  imports Strfry_Prelude
begin

text \<open>
  The text functions of the HTTP server (the first part of \<^verbatim>\<open>src/src/HttpServer.cpp\<close>): the
  validators of IP addresses, the two sanitisers, and the functions that read the client's
  address and the public key off a request.
\<close>

section \<open>IPv4 addresses\<close>

record ipv4_state =
  v4_octets :: nat
  v4_currentValue :: nat
  v4_digitCount :: nat
  v4_lastWasDot :: bool

text \<open>One round of the loop; \<open>None\<close> is \<^verbatim>\<open>return false\<close>.\<close>

definition ipv4_step :: "ipv4_state \<Rightarrow> char \<Rightarrow> ipv4_state option" where
  "ipv4_step st c =
     (if c = CHR ''.'' then
        (if v4_lastWasDot st \<or> v4_digitCount st = 0 then None
         else if v4_currentValue st > 255 then None
         else Some (st\<lparr>v4_octets := v4_octets st + 1, v4_currentValue := 0, v4_digitCount := 0,
                       v4_lastWasDot := True\<rparr>))
      else if is_digit c then
        (if v4_digitCount st = 1 \<and> v4_currentValue st = 0 then None
         else
           (let currentValue = v4_currentValue st * 10 + digit_value c
            in if currentValue > 255 then None
               else if v4_digitCount st + 1 > 3 then None
               else Some (st\<lparr>v4_currentValue := currentValue, v4_digitCount := v4_digitCount st + 1,
                             v4_lastWasDot := False\<rparr>)))
      else None)"

fun ipv4_loop :: "string \<Rightarrow> ipv4_state \<Rightarrow> ipv4_state option" where
  "ipv4_loop [] st = Some st"
| "ipv4_loop (c # s) st = (case ipv4_step st c of None \<Rightarrow> None | Some st' \<Rightarrow> ipv4_loop s st')"

definition ipv4_start :: ipv4_state where
  "ipv4_start = \<lparr>v4_octets = 0, v4_currentValue = 0, v4_digitCount = 0, v4_lastWasDot = True\<rparr>"

definition isValidIPv4 :: "string \<Rightarrow> bool" where
  "isValidIPv4 ip =
     (if ip = [] \<or> length ip > 15 then False
      else case ipv4_loop ip ipv4_start of
             None \<Rightarrow> False
           | Some st \<Rightarrow>
               if v4_lastWasDot st \<or> v4_digitCount st = 0 then False
               else if v4_currentValue st > 255 then False
               else v4_octets st + 1 = 4)"

section \<open>IPv6 addresses\<close>

definition is_hex_char :: "char \<Rightarrow> bool" where
  "is_hex_char c \<longleftrightarrow> (CHR ''0'' \<le> c \<and> c \<le> CHR ''9'') \<or> (CHR ''a'' \<le> c \<and> c \<le> CHR ''f'') \<or>
     (CHR ''A'' \<le> c \<and> c \<le> CHR ''F'')"

record ipv6_state =
  v6_colonCount :: nat
  v6_doubleColonCount :: nat
  v6_groupCount :: nat
  v6_hexDigits :: nat
  v6_lastWasColon :: bool

definition ipv6_colon :: "ipv6_state \<Rightarrow> ipv6_state option" where
  "ipv6_colon st =
     (if v6_lastWasColon st then
        (if v6_doubleColonCount st + 1 > 1 then None
         else Some (st\<lparr>v6_doubleColonCount := v6_doubleColonCount st + 1,
                       v6_colonCount := v6_colonCount st + 1, v6_lastWasColon := True\<rparr>))
      else if v6_hexDigits st > 0 then
        Some (st\<lparr>v6_groupCount := v6_groupCount st + 1, v6_hexDigits := 0,
                 v6_colonCount := v6_colonCount st + 1, v6_lastWasColon := True\<rparr>)
      else Some (st\<lparr>v6_colonCount := v6_colonCount st + 1, v6_lastWasColon := True\<rparr>))"

text \<open>The loop leaves at the first dot.\<close>

fun ipv6_loop :: "string \<Rightarrow> ipv6_state \<Rightarrow> ipv6_state option" where
  "ipv6_loop [] st = Some st"
| "ipv6_loop (c # s) st =
     (if c = CHR '':'' then (case ipv6_colon st of None \<Rightarrow> None | Some st' \<Rightarrow> ipv6_loop s st')
      else if c = CHR ''.'' then Some st
      else if is_hex_char c then
        (if v6_hexDigits st + 1 > 4 then None
         else ipv6_loop s (st\<lparr>v6_hexDigits := v6_hexDigits st + 1, v6_lastWasColon := False\<rparr>))
      else None)"

text \<open>\<^verbatim>\<open>s.rfind(c)\<close>: the position of the last occurrence.\<close>

definition str_rfind :: "string \<Rightarrow> char \<Rightarrow> nat option" where
  "str_rfind s c =
     (if c \<in> set s then Some (length s - 1 - length (takeWhile (\<lambda>x. x \<noteq> c) (rev s))) else None)"

definition ipv6_suffix_bad :: "string \<Rightarrow> bool" where
  "ipv6_suffix_bad ip =
     (case str_rfind ip (CHR '':'') of
        None \<Rightarrow> False
      | Some lastColon \<Rightarrow>
          if lastColon + 1 < length ip then
            (let suffix = drop (lastColon + 1) ip
             in CHR ''.'' \<in> set suffix \<and> \<not> isValidIPv4 suffix)
          else False)"

definition isValidIPv6 :: "string \<Rightarrow> bool" where
  "isValidIPv6 ip =
     (if ip = [] \<or> length ip > 45 then False
      else if ipv6_suffix_bad ip then False
      else case ipv6_loop ip \<lparr>v6_colonCount = 0, v6_doubleColonCount = 0, v6_groupCount = 0,
                              v6_hexDigits = 0, v6_lastWasColon = False\<rparr> of
             None \<Rightarrow> False
           | Some st \<Rightarrow>
               (let groupCount = (if v6_hexDigits st > 0 then v6_groupCount st + 1 else v6_groupCount st)
                in if v6_doubleColonCount st = 0 \<and> groupCount \<noteq> 8 then False
                   else if v6_doubleColonCount st = 1 \<and> groupCount > 7 then False
                   else v6_colonCount st \<ge> 2))"

definition isValidIPAddress :: "string \<Rightarrow> bool" where
  "isValidIPAddress ip =
     (if ip = [] \<or> length ip > 45 then False
      else if CHR '':'' \<notin> set ip then isValidIPv4 ip
      else isValidIPv6 ip)"

section \<open>Sanitisers\<close>

definition printable :: "char \<Rightarrow> bool" where
  "printable c \<longleftrightarrow> CHR 0x20 \<le> c \<and> c < CHR 0x7F"

fun sanitize_loop :: "string \<Rightarrow> nat \<Rightarrow> string \<Rightarrow> string" where
  "sanitize_loop [] maxLen res = res"
| "sanitize_loop (c # s) maxLen res =
     (if length res < maxLen
      then sanitize_loop s maxLen
             (res @ (if printable c \<and> c \<noteq> CHR 0x0A \<and> c \<noteq> CHR 0x0D then [c] else ''?''))
      else res)"

definition sanitizeForLog :: "string \<Rightarrow> nat \<Rightarrow> string" where
  "sanitizeForLog input maxLen =
     (let r = sanitize_loop input maxLen []
      in if length input > maxLen then r @ ''...[truncated]'' else r)"

definition sanitizeErrorForClient :: "string \<Rightarrow> string" where
  "sanitizeErrorForClient m =
     (if contains_str m ''parse'' \<or> contains_str m ''JSON'' \<or> contains_str m ''json'' then
        (if length m > 100 then substr m 0 100 @ ''...'' else m)
      else if contains_str m ''LMDB'' \<or> contains_str m ''lmdb'' \<or> contains_str m ''database'' then
        ''Database error''
      else if contains_str m ''memory'' \<or> contains_str m ''alloc'' then ''Server resource error''
      else if contains_str m ''filter'' \<or> contains_str m ''invalid'' \<or> contains_str m ''parameter'' then
        (if length m > 150 then substr m 0 150 @ ''...'' else m)
      else if length m > 100 then ''Internal error''
      else m)"

section \<open>Reading a request\<close>

text \<open>
  What the server reads of \<^verbatim>\<open>httplib::Request\<close>: \<open>hdr n\<close> is the value of the header \<open>n\<close>
  when \<^verbatim>\<open>has_header\<close> finds it, \<open>param n\<close> that of the query parameter, \<open>rq_matches\<close> the
  captures of the route's pattern.
\<close>

record http_request =
  rq_method :: string
  rq_path :: string
  rq_body :: string
  rq_remote_addr :: string
  rq_hdr :: "string \<Rightarrow> string option"
  rq_param :: "string \<Rightarrow> string option"
  rq_matches :: "string list"

definition is_blank :: "char \<Rightarrow> bool" where
  "is_blank c \<longleftrightarrow> c = CHR '' '' \<or> c = CHR 0x09"

definition find_first_nonblank :: "string \<Rightarrow> nat option" where
  "find_first_nonblank s =
     (if list_all is_blank s then None else Some (length (takeWhile is_blank s)))"

definition find_last_nonblank :: "string \<Rightarrow> nat option" where
  "find_last_nonblank s =
     (if list_all is_blank s then None else Some (length s - 1 - length (takeWhile is_blank (rev s))))"

definition trim_blanks :: "string \<Rightarrow> string" where
  "trim_blanks s =
     (case (find_first_nonblank s, find_last_nonblank s) of
        (Some start, Some stop) \<Rightarrow> substr s start (stop - start + 1)
      | _ \<Rightarrow> s)"

definition getClientIP :: "bool \<Rightarrow> http_request \<Rightarrow> string" where
  "getClientIP trustProxy req =
     (let real_ip = (case rq_hdr req ''X-Real-IP'' of
            Some v \<Rightarrow> (let realIP = trim_blanks v
                      in if isValidIPAddress realIP then realIP else rq_remote_addr req)
          | None \<Rightarrow> rq_remote_addr req)
      in if trustProxy then
           (case rq_hdr req ''X-Forwarded-For'' of
              Some xff \<Rightarrow>
                (let ip = (case str_find xff '','' of
                             Some commaPos \<Rightarrow> trim_blanks (substr xff 0 commaPos)
                           | None \<Rightarrow> trim_blanks xff)
                 in if isValidIPAddress ip then ip else real_ip)
            | None \<Rightarrow> real_ip)
         else rq_remote_addr req)"

definition pubkeyPrefix :: string where
  "pubkeyPrefix = [CHR 0x22] @ ''pubkey'' @ [CHR 0x22] @ '':'' @ [CHR 0x22]"

definition pubkeyPrefixSpace :: string where
  "pubkeyPrefixSpace = [CHR 0x22] @ ''pubkey'' @ [CHR 0x22] @ '': '' @ [CHR 0x22]"

definition extractPubkeyFromRequest :: "http_request \<Rightarrow> string" where
  "extractPubkeyFromRequest req =
     (if rq_method req \<noteq> ''POST'' \<or> rq_body req = [] then []
      else
        (let body = rq_body req;
             pos = (case str_find body pubkeyPrefix of
                      Some p \<Rightarrow> Some (p + length pubkeyPrefix)
                    | None \<Rightarrow> (case str_find body pubkeyPrefixSpace of
                                Some p \<Rightarrow> Some (p + length pubkeyPrefixSpace)
                              | None \<Rightarrow> None))
         in case pos of
              None \<Rightarrow> []
            | Some p \<Rightarrow>
                if p \<ge> length body then []
                else if p + 64 > length body then []
                else (let pubkey = substr body p 64
                      in if list_all is_hex_char pubkey then pubkey else [])))"

section \<open>What the IPv4 loop accepts\<close>

text \<open>The octets read so far, each followed by a dot, and the digits of the current one.\<close>

definition dotted :: "nat list \<Rightarrow> string" where
  "dotted ns = concat (map (\<lambda>n. show_nat n @ ''.'') ns)"

definition ipv4_read :: "string \<Rightarrow> ipv4_state \<Rightarrow> bool" where
  "ipv4_read p st \<longleftrightarrow> (\<exists>ns. (\<forall>n\<in>set ns. n \<le> 255) \<and> v4_octets st = length ns \<and> v4_currentValue st \<le> 255 \<and>
     (if v4_lastWasDot st then p = dotted ns \<and> v4_currentValue st = 0 \<and> v4_digitCount st = 0
      else p = dotted ns @ show_nat (v4_currentValue st) \<and>
        v4_digitCount st = length (show_nat (v4_currentValue st))))"

lemma show_nat_small: "n < 10 \<Longrightarrow> show_nat n = [char_of (48 + n)]"
  by (simp add: show_nat.simps)

lemma show_nat_large: "\<not> n < 10 \<Longrightarrow> show_nat n = show_nat (n div 10) @ [char_of (48 + n mod 10)]"
  by (subst show_nat.simps) simp

lemma show_nat_extend: "0 < n \<Longrightarrow> d < 10 \<Longrightarrow> show_nat (n * 10 + d) = show_nat n @ [char_of (48 + d)]"
  by (subst show_nat_large) simp_all

lemma length_show_nat_pos [simp]: "0 < length (show_nat n)" "show_nat n \<noteq> []"
  using show_nat_digits [of n] by auto

lemma length_show_octet: "n \<le> 255 \<Longrightarrow> length (show_nat n) \<le> 3"
proof -
  assume n: "n \<le> 255"
  consider "n < 10" | "\<not> n < 10" "n div 10 < 10" | "\<not> n < 10" "\<not> n div 10 < 10" "n div 10 div 10 < 10"
    using n by linarith
  then show ?thesis
    by cases (simp_all add: show_nat_small show_nat_large)
qed

lemma digit_char_value: "is_digit c \<Longrightarrow> c = char_of (48 + digit_value c) \<and> digit_value c < 10"
  by (auto simp: is_digit_def digit_value_def less_eq_char_def)

lemma show_nat_one_zero: "length (show_nat n) = 1 \<and> n = 0 \<longleftrightarrow> n = 0"
  by (auto simp: show_nat_small)

lemma ipv4_step_read:
  assumes "ipv4_read p st" "ipv4_step st c = Some st'"
  shows "ipv4_read (p @ [c]) st'"
proof -
  from assms(1) obtain ns where ns: "\<forall>n\<in>set ns. n \<le> 255" "v4_octets st = length ns" "v4_currentValue st \<le> 255"
    "if v4_lastWasDot st then p = dotted ns \<and> v4_currentValue st = 0 \<and> v4_digitCount st = 0
      else p = dotted ns @ show_nat (v4_currentValue st) \<and>
        v4_digitCount st = length (show_nat (v4_currentValue st))"
    unfolding ipv4_read_def by blast
  show ?thesis
  proof (cases "c = CHR ''.''")
    case True
    with assms(2) have "\<not> v4_lastWasDot st"
      and st': "st' = st\<lparr>v4_octets := v4_octets st + 1, v4_currentValue := 0, v4_digitCount := 0,
        v4_lastWasDot := True\<rparr>"
      by (auto simp: ipv4_step_def split: if_splits)
    with ns True show ?thesis
      unfolding ipv4_read_def by (intro exI [of _ "ns @ [v4_currentValue st]"]) (simp add: dotted_def)
  next
    case False
    let ?v = "v4_currentValue st * 10 + digit_value c"
    from False assms(2) have digit: "is_digit c" and nz: "\<not> (v4_digitCount st = 1 \<and> v4_currentValue st = 0)"
      and v: "?v \<le> 255" and st': "st' = st\<lparr>v4_currentValue := ?v,
        v4_digitCount := v4_digitCount st + 1, v4_lastWasDot := False\<rparr>"
      by (auto simp: ipv4_step_def Let_def split: if_splits)
    note c = digit_char_value [OF digit]
    have "p @ [c] = dotted ns @ show_nat ?v \<and> v4_digitCount st + 1 = length (show_nat ?v)"
    proof (cases "v4_lastWasDot st")
      case True
      with ns(4) c show ?thesis by (simp add: show_nat_small)
    next
      case False
      with ns(4) nz have "0 < v4_currentValue st"
        by (cases "v4_currentValue st = 0") (auto simp: show_nat_small)
      with False ns(4) c show ?thesis
        using show_nat_extend [of "v4_currentValue st" "digit_value c"] by simp
    qed
    with ns v show ?thesis
      unfolding ipv4_read_def by (intro exI [of _ ns]) (simp add: st')
  qed
qed

lemma ipv4_loop_read:
  "ipv4_read p st \<Longrightarrow> ipv4_loop s st = Some st' \<Longrightarrow> ipv4_read (p @ s) st'"
proof (induction s arbitrary: p st)
  case Nil
  then show ?case by simp
next
  case (Cons c s)
  then obtain st1 where st1: "ipv4_step st c = Some st1" "ipv4_loop s st1 = Some st'"
    by (auto split: option.splits)
  from Cons.IH [OF ipv4_step_read [OF Cons.prems(1) st1(1)] st1(2)] show ?case by simp
qed

lemma ipv4_loop_append:
  "ipv4_loop (s @ s') st = (case ipv4_loop s st of None \<Rightarrow> None | Some st' \<Rightarrow> ipv4_loop s' st')"
  by (induction s arbitrary: st) (auto split: option.splits)

lemma digit_not_dot: "n < (10 :: nat) \<Longrightarrow> char_of (48 + n) \<noteq> CHR ''.''"
proof
  assume "n < 10" "char_of (48 + n) = CHR ''.''"
  then have "is_digit (CHR ''.'')" using digit_char [of n] by simp
  then show False by (simp add: is_digit_def less_eq_char_def)
qed

lemma ipv4_step_digit:
  assumes "d < 10" "v4_digitCount st \<le> 2" "v4_currentValue st * 10 + d \<le> 255"
    and "\<not> (v4_digitCount st = 1 \<and> v4_currentValue st = 0)"
  shows "ipv4_step st (char_of (48 + d)) = Some (st\<lparr>v4_currentValue := v4_currentValue st * 10 + d,
    v4_digitCount := v4_digitCount st + 1, v4_lastWasDot := False\<rparr>)"
  using assms by (simp add: ipv4_step_def digit_not_dot)

lemma ipv4_loop_octet:
  assumes "n \<le> 255" "v4_currentValue st = 0" "v4_digitCount st = 0"
  shows "ipv4_loop (show_nat n) st = Some (st\<lparr>v4_currentValue := n,
    v4_digitCount := length (show_nat n), v4_lastWasDot := False\<rparr>)"
proof -
  consider "n < 10" | "\<not> n < 10" "n div 10 < 10" | "\<not> n < 10" "\<not> n div 10 < 10" "n div 10 div 10 < 10"
    using assms(1) by linarith
  then show ?thesis
  proof cases
    case 1
    with assms show ?thesis by (simp add: show_nat_small ipv4_step_digit)
  next
    case 2
    then have "show_nat n = [char_of (48 + n div 10), char_of (48 + n mod 10)]"
      by (simp add: show_nat_large show_nat_small)
    with 2 assms show ?thesis by (simp add: ipv4_step_digit)
  next
    case 3
    then have "show_nat n = [char_of (48 + n div 10 div 10), char_of (48 + n div 10 mod 10), char_of (48 + n mod 10)]"
      by (simp add: show_nat_large [of n] show_nat_large [of "n div 10"] show_nat_small)
    moreover have "n div 10 div 10 * 10 + n div 10 mod 10 = n div 10" "n div 10 * 10 + n mod 10 = n"
      by simp_all
    ultimately show ?thesis
      using 3 assms by (simp add: ipv4_step_digit)
  qed
qed

lemma ipv4_loop_octet_dot:
  assumes "n \<le> 255" "v4_currentValue st = 0" "v4_digitCount st = 0"
  shows "ipv4_loop (show_nat n @ CHR ''.'' # s) st = ipv4_loop s (st\<lparr>v4_octets := v4_octets st + 1,
    v4_currentValue := 0, v4_digitCount := 0, v4_lastWasDot := True\<rparr>)"
  using assms by (simp add: ipv4_loop_append ipv4_loop_octet ipv4_step_def)

lemma isValidIPv4_sound:
  assumes "isValidIPv4 ip"
  shows "\<exists>a b c d. a \<le> 255 \<and> b \<le> 255 \<and> c \<le> 255 \<and> d \<le> 255 \<and>
    ip = show_nat a @ ''.'' @ show_nat b @ ''.'' @ show_nat c @ ''.'' @ show_nat d"
proof -
  from assms obtain st where loop: "ipv4_loop ip ipv4_start = Some st"
    and st: "\<not> v4_lastWasDot st" "v4_octets st = 3"
    by (auto simp: isValidIPv4_def split: if_splits option.splits)
  have "ipv4_read [] ipv4_start"
    by (auto simp: ipv4_read_def ipv4_start_def dotted_def)
  from ipv4_loop_read [OF this loop] have "ipv4_read ip st" by simp
  with st obtain ns where ns: "\<forall>n\<in>set ns. n \<le> 255" "length ns = 3" "v4_currentValue st \<le> 255"
    "ip = dotted ns @ show_nat (v4_currentValue st)"
    unfolding ipv4_read_def by auto
  then obtain a b c where "ns = [a, b, c]"
    by (auto simp: numeral_3_eq_3 length_Suc_conv)
  with ns show ?thesis
    by (intro exI [of _ a] exI [of _ b] exI [of _ c] exI [of _ "v4_currentValue st"]) (simp add: dotted_def)
qed

lemma isValidIPv4_complete:
  assumes "a \<le> 255" "b \<le> 255" "c \<le> 255" "d \<le> 255"
  shows "isValidIPv4 (show_nat a @ ''.'' @ show_nat b @ ''.'' @ show_nat c @ ''.'' @ show_nat d)"
proof -
  have "ipv4_loop (show_nat a @ ''.'' @ show_nat b @ ''.'' @ show_nat c @ ''.'' @ show_nat d) ipv4_start =
      Some \<lparr>v4_octets = 3, v4_currentValue = d, v4_digitCount = length (show_nat d), v4_lastWasDot = False\<rparr>"
    using assms by (simp add: ipv4_loop_octet_dot ipv4_loop_octet ipv4_start_def)
  moreover have "length (show_nat n) \<le> 3" if "n \<in> {a, b, c, d}" for n
    using that assms length_show_octet by auto
  then have "length (show_nat a) \<le> 3" "length (show_nat b) \<le> 3" "length (show_nat c) \<le> 3"
      "length (show_nat d) \<le> 3" by simp_all
  ultimately show ?thesis
    using assms by (simp add: isValidIPv4_def)
qed

section \<open>Sanitisers\<close>

lemma sanitize_loop_props:
  "length res \<le> maxLen \<Longrightarrow> length (sanitize_loop s maxLen res) = min maxLen (length res + length s) \<and>
    (\<forall>c\<in>set (sanitize_loop s maxLen res). c \<in> set res \<or> printable c)"
proof (induction s maxLen res rule: sanitize_loop.induct)
  case (2 c s maxLen res)
  have "printable (CHR ''?'')" by (simp add: printable_def less_char_def less_eq_char_def)
  with 2 show ?case by (auto simp: Suc_le_eq)
qed simp

lemma sanitize_loop_id:
  "length res + length s \<le> maxLen \<Longrightarrow> \<forall>c\<in>set s. printable c \<Longrightarrow> sanitize_loop s maxLen res = res @ s"
  by (induction s maxLen res rule: sanitize_loop.induct)
    (auto simp: printable_def less_char_def less_eq_char_def)

lemma printable_truncated: "\<forall>c\<in>set ''...[truncated]''. printable c"
  by (simp add: printable_def less_char_def less_eq_char_def)

section \<open>The client's address\<close>

lemma getClientIP_cases:
  obtains "getClientIP trust req = rq_remote_addr req"
  | "trust" "isValidIPAddress (getClientIP trust req)"
  by (cases "getClientIP trust req = rq_remote_addr req")
    (auto simp: getClientIP_def Let_def split: if_splits option.splits)

section \<open>Properties\<close>

text \<open>
  \<^verbatim>\<open>isValidIPv4\<close> accepts exactly the dotted quads in canonical decimal: four numbers
  from 0 to 255 without leading zeros, separated by single dots, and nothing else.
\<close>

theorem isValidIPv4_correct:
  "isValidIPv4 ip \<longleftrightarrow> (\<exists>a b c d. a \<le> 255 \<and> b \<le> 255 \<and> c \<le> 255 \<and> d \<le> 255 \<and>
     ip = show_nat a @ ''.'' @ show_nat b @ ''.'' @ show_nat c @ ''.'' @ show_nat d)"
  using isValidIPv4_sound [of ip] isValidIPv4_complete by blast

text \<open>
  \<^verbatim>\<open>isValidIPv6\<close> lets arbitrary text through: it stops looking at the first dot,
  and checks what follows the last colon only when something does.  Every string that starts
  with \<^verbatim>\<open>::.\<close>, ends in a colon and has at most 45 characters passes, and becomes the
  client address of a request whose proxy headers are trusted.
\<close>

theorem isValidIPv6_accepts_junk:
  assumes "length junk \<le> 41" and "CHR '','' \<notin> set junk"
    and "rq_hdr req ''X-Forwarded-For'' = Some (''::.'' @ junk @ '':'')"
  shows "isValidIPAddress (''::.'' @ junk @ '':'') \<and> getClientIP True req = ''::.'' @ junk @ '':''"
proof
  let ?ip = "''::.'' @ junk @ '':''"
  have "str_rfind ?ip (CHR '':'') = Some (length ?ip - 1)"
    by (simp add: str_rfind_def)
  then have "\<not> ipv6_suffix_bad ?ip"
    by (simp add: ipv6_suffix_bad_def)
  then show valid: "isValidIPAddress ?ip"
    using assms(1) by (simp add: isValidIPAddress_def isValidIPv6_def ipv6_colon_def)
  have nocomma: "find_from '','' s i = None" if "CHR '','' \<notin> set s" for s i
    using that by (induction s arbitrary: i) (auto simp: starts_with_def)
  have "CHR '','' \<notin> set ?ip" using assms(2) by simp
  then have find: "str_find ?ip '','' = None"
    unfolding str_find_def by (rule nocomma)
  have trim: "trim_blanks ?ip = ?ip"
    by (simp add: trim_blanks_def find_first_nonblank_def find_last_nonblank_def is_blank_def substr_def)
  show "getClientIP True req = ?ip"
    unfolding getClientIP_def using assms(3) valid find trim by simp
qed

theorem isValidIPv6_accepts_junk_witness:
  "isValidIPAddress ''::.<script>:'' \<and>
   getClientIP True \<lparr>rq_method = ''GET'', rq_path = ''/'', rq_body = [], rq_remote_addr = ''10.0.0.1'',
     rq_hdr = (\<lambda>n. if n = ''X-Forwarded-For'' then Some ''::.<script>:'' else None),
     rq_param = (\<lambda>_. None), rq_matches = []\<rparr> = ''::.<script>:''"
  using isValidIPv6_accepts_junk [of "''<script>''" "\<lparr>rq_method = ''GET'', rq_path = ''/'', rq_body = [],
     rq_remote_addr = ''10.0.0.1'',
     rq_hdr = (\<lambda>n. if n = ''X-Forwarded-For'' then Some ''::.<script>:'' else None),
     rq_param = (\<lambda>_. None), rq_matches = []\<rparr>"] by simp

text \<open>
  Text that goes to the log is safe and bounded: every character of the result is
  printable ASCII, so no line can be forged, it has at most \<open>maxLen\<close> characters plus the
  truncation mark, and short printable input is logged unchanged.
\<close>

theorem sanitizeForLog_safe:
  "(\<forall>c\<in>set (sanitizeForLog input maxLen). printable c) \<and>
   length (sanitizeForLog input maxLen) \<le> maxLen + 14 \<and>
   (length input \<le> maxLen \<longrightarrow> (\<forall>c\<in>set input. printable c) \<longrightarrow> sanitizeForLog input maxLen = input)"
proof (intro conjI impI)
  note props = sanitize_loop_props [of "[]" maxLen input]
  show "\<forall>c\<in>set (sanitizeForLog input maxLen). printable c"
    using props printable_truncated by (auto simp: sanitizeForLog_def Let_def)
  show "length (sanitizeForLog input maxLen) \<le> maxLen + 14"
    using props by (simp add: sanitizeForLog_def Let_def)
  assume "length input \<le> maxLen" "\<forall>c\<in>set input. printable c"
  then show "sanitizeForLog input maxLen = input"
    by (simp add: sanitizeForLog_def Let_def sanitize_loop_id)
qed

theorem sanitizeForLog_safe_witness:
  "sanitizeForLog ''ok'' 100 = ''ok'' \<and> length (sanitizeForLog [CHR 0x0A, CHR 0x0B] 1) \<le> 15"
  using sanitizeForLog_safe [of "''ok''" 100] sanitizeForLog_safe [of "[CHR 0x0A, CHR 0x0B]" 1]
  by (simp add: printable_def less_char_def less_eq_char_def)

text \<open>
  The key used for the per-key rate limit is either absent or a well-formed one taken
  from the request: 64 hexadecimal digits that follow the \<^verbatim>\<open>"pubkey"\<close> member in the body
  of a POST.
\<close>

theorem extractPubkey_wellformed:
  "extractPubkeyFromRequest req = [] \<or>
   (rq_method req = ''POST'' \<and> length (extractPubkeyFromRequest req) = 64 \<and>
    (\<forall>c\<in>set (extractPubkeyFromRequest req). is_hex_char c) \<and>
    (\<exists>p q. rq_body req = p @ pubkeyPrefix @ extractPubkeyFromRequest req @ q \<or>
       rq_body req = p @ pubkeyPrefixSpace @ extractPubkeyFromRequest req @ q))"
proof (cases "extractPubkeyFromRequest req = []")
  case False
  let ?b = "rq_body req"
  have split: "\<exists>p q. ?b = p @ pre @ substr ?b (i + length pre) 64 @ q"
    if "str_find ?b pre = Some i" for pre i
  proof -
    have "i \<le> length ?b" "take (length pre) (drop i ?b) = pre"
      using str_find_Some [OF that] by (auto simp: starts_with_def)
    then have "?b = take i ?b @ pre @ drop (i + length pre) ?b"
      by (metis append_take_drop_id drop_drop add.commute)
    moreover have "drop (i + length pre) ?b = substr ?b (i + length pre) 64 @ drop 64 (drop (i + length pre) ?b)"
      unfolding substr_def by (rule append_take_drop_id [symmetric])
    ultimately show ?thesis by metis
  qed
  from False obtain i pre where pre: "pre = pubkeyPrefix \<or> pre = pubkeyPrefixSpace"
    "str_find ?b pre = Some i" "i + length pre + 64 \<le> length ?b" "rq_method req = ''POST''"
    and key: "extractPubkeyFromRequest req = substr ?b (i + length pre) 64"
      "list_all is_hex_char (substr ?b (i + length pre) 64)"
    unfolding extractPubkeyFromRequest_def Let_def not_less [symmetric]
    by (auto split: if_splits option.splits)
  then have "length (extractPubkeyFromRequest req) = 64"
    by (simp add: key(1) length_substr)
  with pre key split [OF pre(2)] show ?thesis
    by (auto simp: list_all_iff)
qed simp

theorem extractPubkey_wellformed_witness:
  "length (extractPubkeyFromRequest \<lparr>rq_method = ''POST'', rq_path = ''/api/quotes'',
     rq_body = pubkeyPrefix @ replicate 64 (CHR ''a''), rq_remote_addr = [], rq_hdr = (\<lambda>_. None),
     rq_param = (\<lambda>_. None), rq_matches = []\<rparr>) = 64"
proof -
  let ?req = "\<lparr>rq_method = ''POST'', rq_path = ''/api/quotes'',
     rq_body = pubkeyPrefix @ replicate 64 (CHR ''a''), rq_remote_addr = [], rq_hdr = (\<lambda>_. None),
     rq_param = (\<lambda>_. None), rq_matches = []\<rparr>"
  have pre: "pubkeyPrefix \<noteq> []" by (simp add: pubkeyPrefix_def)
  then obtain c r where cr: "pubkeyPrefix = c # r" by (cases pubkeyPrefix) auto
  have "str_find (rq_body ?req) pubkeyPrefix = Some 0"
    by (simp add: str_find_def starts_with_def cr)
  then have "extractPubkeyFromRequest ?req = replicate 64 (CHR ''a'')"
    using pre by (simp add: extractPubkeyFromRequest_def substr_def is_hex_char_def less_eq_char_def list_all_iff)
  with extractPubkey_wellformed [of ?req] show ?thesis by simp
qed

text \<open>
  Error text that goes to a client is bounded, and a message about the database or about
  memory that does not speak of JSON is replaced by a fixed text.
\<close>

theorem sanitizeErrorForClient_bounded:
  "length (sanitizeErrorForClient m) \<le> 153 \<and>
   (contains_str m ''lmdb'' \<and> \<not> contains_str m ''parse'' \<and> \<not> contains_str m ''JSON'' \<and>
      \<not> contains_str m ''json'' \<longrightarrow> sanitizeErrorForClient m = ''Database error'')"
  by (simp add: sanitizeErrorForClient_def length_substr)

theorem sanitizeErrorForClient_bounded_witness:
  "sanitizeErrorForClient ''lmdb: MDB_NOTFOUND'' = ''Database error''"
  using sanitizeErrorForClient_bounded [of "''lmdb: MDB_NOTFOUND''"]
  by (simp add: contains_str_def str_find_def starts_with_def)

end
