(* ===== verification/Events.thy ===== *)
theory Events
  imports Misc_Utils
begin

text \<open>
  Events on their way in (\<^verbatim>\<open>src/src/events.h\<close> and the first half of
  \<^verbatim>\<open>src/src/events.cpp\<close>): the kinds, the packing of a JSON event, its hash and signature,
  the check of its timestamps, and \<^verbatim>\<open>parseAndVerifyEvent\<close>.  The clock is the argument
  \<open>now\<close>; the settings \<^verbatim>\<open>cfg()\<close> are a record.
\<close>

section \<open>Settings and kinds\<close>

record events_cfg =
  maxEventSize :: u64
  rejectEventsNewerThanSeconds :: u64
  rejectEventsOlderThanSeconds :: u64
  rejectEphemeralEventsOlderThanSeconds :: u64
  maxNumTags :: u64
  maxTagValSize :: u64

definition isReplaceableKind :: "u64 \<Rightarrow> bool" where
  "isReplaceableKind kind \<longleftrightarrow>
     kind = 0 \<or> kind = 3 \<or> kind = 41 \<or> (kind \<ge> 10000 \<and> kind < 20000)"

definition isParamReplaceableKind :: "u64 \<Rightarrow> bool" where
  "isParamReplaceableKind kind \<longleftrightarrow> kind \<ge> 30000 \<and> kind < 40000"

definition isEphemeralKind :: "u64 \<Rightarrow> bool" where
  "isEphemeralKind kind \<longleftrightarrow> kind \<ge> 20000 \<and> kind < 30000"

section \<open>From JSON to the packed form\<close>

text \<open>One round of the loop over the tags; the state is the tag buffer and the expiration.\<close>

definition pack_json_tag :: "lib \<Rightarrow> events_cfg \<Rightarrow> json \<Rightarrow> string \<times> u64 \<Rightarrow> (string \<times> u64) result" where
  "pack_json_tag L cfg tagArr st =
     (let tagBuf = fst st; expiration = snd st in
      bindE (jsonGetArray tagArr ''tag in tags field was not an array'') (\<lambda>tag.
      bindE (throw_if (length tag < 1) ''too few fields in tag'') (\<lambda>_.
      bindE (jsonGetString (tag ! 0) ''tag name was not a string'') (\<lambda>tagName.
      bindE (if length tag \<ge> 2 then jsonGetString (tag ! 1) ''tag val was not a string'' else Inr []) (\<lambda>tagVal.
      if tagName = ''e'' \<or> tagName = ''p'' then
        bindE (throw_if (length tagVal \<noteq> 64) (''unexpected size for fixed-size tag: '' @ tagName)) (\<lambda>_.
        bindE (from_hex L tagVal False) (\<lambda>raw.
        bindE (tagBuilder_add tagBuf (tagName ! 0) raw) (\<lambda>b. Inr (b, expiration))))
      else if tagName = ''expiration'' then
        (if expiration = 0 then
           bindE (parseUint64 tagVal) (\<lambda>n.
           bindE (throw_if (n < 100) ''invalid expiration'') (\<lambda>_. Inr (tagBuf, n)))
         else Inr (tagBuf, expiration))
      else if length tagName = 1 then
        bindE (throw_if (length tagVal > unat (maxTagValSize cfg))
                 (''tag val too large: '' @ show_nat (length tagVal))) (\<lambda>_.
        if length tagVal \<le> MAX_INDEXED_TAG_VAL_SIZE
        then bindE (tagBuilder_add tagBuf (tagName ! 0) tagVal) (\<lambda>b. Inr (b, expiration))
        else Inr (tagBuf, expiration))
      else Inr (tagBuf, expiration))))))"

definition nostrJsonToPackedEvent :: "lib \<Rightarrow> events_cfg \<Rightarrow> json \<Rightarrow> string result" where
  "nostrJsonToPackedEvent L cfg v =
     bindE (json_at v ''id'') (\<lambda>j1.
     bindE (jsonGetString j1 ''event id field was not a string'') (\<lambda>s1.
     bindE (from_hex L s1 False) (\<lambda>evid.
     bindE (json_at v ''pubkey'') (\<lambda>j2.
     bindE (jsonGetString j2 ''event pubkey field was not a string'') (\<lambda>s2.
     bindE (from_hex L s2 False) (\<lambda>pubkey.
     bindE (json_at v ''created_at'') (\<lambda>j3.
     bindE (jsonGetUnsigned j3 ''event created_at field was not an integer'') (\<lambda>created_at.
     bindE (json_at v ''kind'') (\<lambda>j4.
     bindE (jsonGetUnsigned j4 ''event kind field was not an integer'') (\<lambda>kind.
     bindE (throw_if (length evid \<noteq> 32) ''unexpected id size'') (\<lambda>_.
     bindE (throw_if (length pubkey \<noteq> 32) ''unexpected pubkey size'') (\<lambda>_.
     bindE (json_at v ''content'') (\<lambda>j5.
     bindE (jsonGetString j5 ''event content field was not a string'') (\<lambda>_.
     bindE (if isReplaceableKind kind then tagBuilder_add [] (CHR ''d'') [] else Inr []) (\<lambda>buf0.
     bindE (json_at v ''tags'') (\<lambda>j6.
     bindE (jsonGetArray j6 ''tags field not an array'') (\<lambda>tags.
     bindE (throw_if (length tags > unat (maxNumTags cfg))
              (''too many tags: '' @ show_nat (length tags))) (\<lambda>_.
     bindE (foldE (pack_json_tag L cfg) tags (buf0, 0)) (\<lambda>st.
     bindE (if isParamReplaceableKind kind then tagBuilder_add (fst st) (CHR ''d'') [] else Inr (fst st)) (\<lambda>tagBuf.
     PackedEventBuilder L evid pubkey created_at kind
       (if isEphemeralKind kind then 1 else snd st) tagBuf))))))))))))))))))))"

section \<open>Hash, signature, timestamps\<close>

definition nostrHash :: "lib \<Rightarrow> json \<Rightarrow> string result" where
  "nostrHash L origJson =
     bindE (json_at origJson ''pubkey'') (\<lambda>pubkey.
     bindE (json_at origJson ''created_at'') (\<lambda>created_at.
     bindE (json_at origJson ''kind'') (\<lambda>kind.
     bindE (json_at origJson ''tags'') (\<lambda>tags.
     bindE (json_at origJson ''content'') (\<lambda>content.
     Bytes32 (sha256 L (json_to_string L
       (JArray [JSigned 0, pubkey, created_at, kind, tags, content]))))))))"

definition verifySig :: "lib \<Rightarrow> string \<Rightarrow> string \<Rightarrow> string \<Rightarrow> bool result" where
  "verifySig L sig hash pubkey =
     bindE (throw_if (length sig \<noteq> 64 \<or> length hash \<noteq> 32 \<or> length pubkey \<noteq> 32)
              ''verify sig: bad input size'') (\<lambda>_.
     case xonly_pubkey_parse L pubkey of
       None \<Rightarrow> Inl (Herr ''verify sig: bad pubkey'')
     | Some pubkeyParsed \<Rightarrow> Inr (schnorrsig_verify L sig hash pubkeyParsed))"

definition verifyNostrEvent :: "lib \<Rightarrow> string \<Rightarrow> json \<Rightarrow> unit result" where
  "verifyNostrEvent L packed origJson =
     bindE (nostrHash L origJson) (\<lambda>hash.
     bindE (Bytes32 (packed_id packed)) (\<lambda>i.
     bindE (throw_if (\<not> Bytes32_eq hash i) ''bad event id'') (\<lambda>_.
     bindE (json_at origJson ''sig'') (\<lambda>j.
     bindE (jsonGetString j ''event sig was not a string'') (\<lambda>s.
     bindE (from_hex L s False) (\<lambda>sig.
     bindE (verifySig L sig (packed_id packed) (packed_pubkey packed)) (\<lambda>valid.
     throw_if (\<not> valid) ''bad signature'')))))))"

definition verifyNostrEventJsonSize :: "events_cfg \<Rightarrow> string \<Rightarrow> unit result" where
  "verifyNostrEventJsonSize cfg jsonStr =
     throw_if (length jsonStr > unat (maxEventSize cfg)) (''event too large: '' @ show_nat (length jsonStr))"

definition verifyEventTimestamp :: "lib \<Rightarrow> events_cfg \<Rightarrow> u64 \<Rightarrow> string \<Rightarrow> unit result" where
  "verifyEventTimestamp L cfg now packed =
     (let ts = packed_created_at L packed;
          isEphemeral = (packed_expiration L packed = 1);
          earliest0 = now - (if isEphemeral then rejectEphemeralEventsOlderThanSeconds cfg
                             else rejectEventsOlderThanSeconds cfg);
          latest0 = now + rejectEventsNewerThanSeconds cfg;
          earliest = (if earliest0 > now then 0 else earliest0);
          latest = (if latest0 < now then MAX_U64 - 1 else latest0)
      in bindE (throw_if (ts < earliest)
                  (if isEphemeral then ''ephemeral event expired'' else ''created_at too early'')) (\<lambda>_.
         bindE (throw_if (ts > latest) ''created_at too late'') (\<lambda>_.
         throw_if (packed_expiration L packed > 1 \<and> packed_expiration L packed \<le> now) ''event expired'')))"

text \<open>The result is the pair of output arguments \<^verbatim>\<open>packedStr\<close>, \<^verbatim>\<open>jsonStr\<close>.\<close>

definition parseAndVerifyEvent ::
    "lib \<Rightarrow> events_cfg \<Rightarrow> u64 \<Rightarrow> json \<Rightarrow> bool \<Rightarrow> bool \<Rightarrow> (string \<times> string) result" where
  "parseAndVerifyEvent L cfg now origJson verifyMsg verifyTime =
     bindE (throw_if (\<not> is_object origJson) ''event is not an object'') (\<lambda>_.
     bindE (nostrJsonToPackedEvent L cfg origJson) (\<lambda>packedStr.
     bindE (PackedEventView packedStr) (\<lambda>packed.
     bindE (if verifyTime then verifyEventTimestamp L cfg now packed else Inr ()) (\<lambda>_.
     bindE (if verifyMsg then verifyNostrEvent L packed origJson else Inr ()) (\<lambda>_.
     bindE (json_at origJson ''content'') (\<lambda>content.
     bindE (json_at origJson ''created_at'') (\<lambda>created_at.
     bindE (json_at origJson ''id'') (\<lambda>evid.
     bindE (json_at origJson ''kind'') (\<lambda>kind.
     bindE (json_at origJson ''pubkey'') (\<lambda>pubkey.
     bindE (json_at origJson ''sig'') (\<lambda>sig.
     bindE (json_at origJson ''tags'') (\<lambda>tags.
     let jsonStr = json_to_string L (JObject [(''content'', content), (''created_at'', created_at),
           (''id'', evid), (''kind'', kind), (''pubkey'', pubkey), (''sig'', sig), (''tags'', tags)])
     in bindE (if verifyMsg then verifyNostrEventJsonSize cfg jsonStr else Inr ()) (\<lambda>_.
        Inr (packedStr, jsonStr))))))))))))))"

section \<open>What the packed form holds\<close>

text \<open>The tags of the packed event that one tag of the JSON event gives rise to.\<close>

definition indexed_tag :: "lib \<Rightarrow> json \<Rightarrow> (char \<times> string) list" where
  "indexed_tag L tagArr =
     (case tagArr of
        JArray (JString name # rest) \<Rightarrow>
          (let val = (case rest of JString v # _ \<Rightarrow> v | _ \<Rightarrow> [])
           in if name = ''e'' \<or> name = ''p''
              then (case from_hex L val False of Inr raw \<Rightarrow> [(name ! 0, raw)] | Inl _ \<Rightarrow> [])
              else if length name = 1 \<and> length val \<le> MAX_INDEXED_TAG_VAL_SIZE then [(name ! 0, val)] else [])
      | _ \<Rightarrow> [])"

lemma jsonGet_Inr [simp]:
  "jsonGetString j m = Inr s \<longleftrightarrow> j = JString s"
  "jsonGetArray j m = Inr xs \<longleftrightarrow> j = JArray xs"
  "jsonGetUnsigned j m = Inr n \<longleftrightarrow> j = JUnsigned n"
  by (cases j; auto simp: jsonGetString_def jsonGetArray_def jsonGetUnsigned_def)+

lemma pack_json_tag_parts:
  assumes "pack_json_tag L cfg tagArr (b, ex) = Inr (b', ex')"
  obtains name rest val where "tagArr = JArray (JString name # rest)" "val = (case rest of JString v # _ \<Rightarrow> v | _ \<Rightarrow> [])"
    "(if name = ''e'' \<or> name = ''p'' then
        bindE (throw_if (length val \<noteq> 64) (''unexpected size for fixed-size tag: '' @ name)) (\<lambda>_.
        bindE (from_hex L val False) (\<lambda>raw.
        bindE (tagBuilder_add b (name ! 0) raw) (\<lambda>b. Inr (b, ex))))
      else if name = ''expiration'' then
        (if ex = 0 then
           bindE (parseUint64 val) (\<lambda>n.
           bindE (throw_if (n < 100) ''invalid expiration'') (\<lambda>_. Inr (b, n)))
         else Inr (b, ex))
      else if length name = 1 then
        bindE (throw_if (length val > unat (maxTagValSize cfg))
                 (''tag val too large: '' @ show_nat (length val))) (\<lambda>_.
        if length val \<le> MAX_INDEXED_TAG_VAL_SIZE
        then bindE (tagBuilder_add b (name ! 0) val) (\<lambda>b. Inr (b, ex))
        else Inr (b, ex))
      else Inr (b, ex)) = Inr (b', ex')"
proof -
  from assms obtain tag name val where tag: "tagArr = JArray tag" "tag \<noteq> []" "tag ! 0 = JString name"
    and val: "(if length tag \<ge> 2 then jsonGetString (tag ! 1) ''tag val was not a string'' else Inr []) = Inr val"
    and rest: "(if name = ''e'' \<or> name = ''p'' then
        bindE (throw_if (length val \<noteq> 64) (''unexpected size for fixed-size tag: '' @ name)) (\<lambda>_.
        bindE (from_hex L val False) (\<lambda>raw.
        bindE (tagBuilder_add b (name ! 0) raw) (\<lambda>b. Inr (b, ex))))
      else if name = ''expiration'' then
        (if ex = 0 then
           bindE (parseUint64 val) (\<lambda>n.
           bindE (throw_if (n < 100) ''invalid expiration'') (\<lambda>_. Inr (b, n)))
         else Inr (b, ex))
      else if length name = 1 then
        bindE (throw_if (length val > unat (maxTagValSize cfg))
                 (''tag val too large: '' @ show_nat (length val))) (\<lambda>_.
        if length val \<le> MAX_INDEXED_TAG_VAL_SIZE
        then bindE (tagBuilder_add b (name ! 0) val) (\<lambda>b. Inr (b, ex))
        else Inr (b, ex))
      else Inr (b, ex)) = Inr (b', ex')"
    by (auto simp: pack_json_tag_def bindE_eq_Inr)
  from tag obtain r where r: "tag = JString name # r" by (cases tag) auto
  have "val = (case r of JString v # _ \<Rightarrow> v | _ \<Rightarrow> [])"
    using val r by (cases r) auto
  then show thesis using that [OF _ _ rest] tag(1) r by blast
qed

lemma pack_json_tag_cases:
  assumes "pack_json_tag L cfg tagArr (b, ex) = Inr (b', ex')"
  obtains name rest val where "tagArr = JArray (JString name # rest)"
    "val = (case rest of JString v # _ \<Rightarrow> v | _ \<Rightarrow> [])"
    "(\<exists>raw. (name = ''e'' \<or> name = ''p'') \<and> from_hex L val False = Inr raw \<and>
        tagBuilder_add b (name ! 0) raw = Inr b' \<and> ex' = ex) \<or>
     (name \<noteq> ''e'' \<and> name \<noteq> ''p'' \<and> length name = 1 \<and> length val \<le> MAX_INDEXED_TAG_VAL_SIZE \<and>
        tagBuilder_add b (name ! 0) val = Inr b' \<and> ex' = ex) \<or>
     (name \<noteq> ''e'' \<and> name \<noteq> ''p'' \<and> (length name \<noteq> 1 \<or> length val > MAX_INDEXED_TAG_VAL_SIZE) \<and> b' = b)"
  by (rule pack_json_tag_parts [OF assms], rule that) (auto simp: bindE_eq_Inr split: if_splits)

lemma pack_json_tag_indexed:
  assumes "pack_json_tag L cfg tagArr (encode_tags ts, ex) = Inr (b', ex')"
  shows "b' = encode_tags (ts @ indexed_tag L tagArr) \<and> small_tags (indexed_tag L tagArr)"
  using assms
proof (cases rule: pack_json_tag_cases)
  case (1 name rest val)
  then show ?thesis
    unfolding tagBuilder_add_encode indexed_tag_def by (auto simp: Let_def split: if_splits)
qed

lemma fold_pack_json_tag:
  assumes "foldE (pack_json_tag L cfg) tags (encode_tags ts, ex) = Inr (b', ex')"
  shows "b' = encode_tags (ts @ concat (map (indexed_tag L) tags)) \<and>
    small_tags (concat (map (indexed_tag L) tags))"
  using assms
proof (induction tags arbitrary: ts ex)
  case Nil
  then show ?case by simp
next
  case (Cons tagArr tags)
  from Cons.prems obtain b1 ex1 where
    step: "pack_json_tag L cfg tagArr (encode_tags ts, ex) = Inr (b1, ex1)"
    and rest: "foldE (pack_json_tag L cfg) tags (b1, ex1) = Inr (b', ex')"
    by (auto simp: bindE_eq_Inr)
  note one = pack_json_tag_indexed [OF step]
  from Cons.IH [of "ts @ indexed_tag L tagArr" ex1] rest one show ?case by simp
qed

text \<open>
  NIP-40: the values of the expiration tags of an event, and what it means that a value gives
  the time \<open>n\<close>: a decimal number in 64 bits, at least 100.
\<close>

definition tag_expiration :: "json \<Rightarrow> string list" where
  "tag_expiration tagArr =
     (case tagArr of
        JArray (JString name # rest) \<Rightarrow> if name = ''expiration'' then [case rest of JString v # _ \<Rightarrow> v | _ \<Rightarrow> []] else []
      | _ \<Rightarrow> [])"

definition expires :: "string \<Rightarrow> u64 \<Rightarrow> bool" where
  "expires val n \<longleftrightarrow> val \<noteq> [] \<and> list_all is_digit val \<and> unat n = read_nat val \<and> n \<ge> 100"

definition first_expiration :: "json list \<Rightarrow> u64 \<Rightarrow> bool" where
  "first_expiration tags n \<longleftrightarrow>
     (case concat (map tag_expiration tags) of [] \<Rightarrow> n = 0 | val # _ \<Rightarrow> expires val n)"

lemma parseUint64_expires:
  assumes "parseUint64 val = Inr n" "\<not> n < 100"
  shows "expires val n"
proof -
  have digits: "list_all is_digit val" "std_stoull val = Inr n" using assms(1) by (auto simp: parseUint64_def split: if_splits)
  have "val \<noteq> []" using digits(2) by (auto simp: std_stoull_def Let_def starts_with_def)
  with digits have "n = of_nat (read_nat val)" "read_nat val < 2 ^ 64" by (auto simp: std_stoull_digits split: if_splits)
  then show ?thesis using \<open>val \<noteq> []\<close> digits(1) assms(2) by (simp add: expires_def unat_of_nat not_less)
qed

lemma pack_json_tag_expiration:
  assumes "pack_json_tag L cfg tagArr (b, ex) = Inr (b', ex')"
  shows "(tag_expiration tagArr = [] \<or> ex \<noteq> 0) \<and> ex' = ex \<or> (\<exists>val. tag_expiration tagArr = [val] \<and> ex = 0 \<and> expires val ex')"
proof -
  obtain name rest val where t: "tagArr = JArray (JString name # rest)" "val = (case rest of JString v # _ \<Rightarrow> v | _ \<Rightarrow> [])"
    and st: "name \<noteq> ''expiration'' \<and> ex' = ex \<or> name = ''expiration'' \<and> ex \<noteq> 0 \<and> ex' = ex \<or>
      name = ''expiration'' \<and> ex = 0 \<and> parseUint64 val = Inr ex' \<and> \<not> ex' < 100"
    by (rule pack_json_tag_parts [OF assms], rule that) (auto simp: bindE_eq_Inr split: if_splits)
  have "tag_expiration tagArr = (if name = ''expiration'' then [val] else [])" by (simp add: tag_expiration_def t)
  then show ?thesis using st parseUint64_expires by auto
qed

lemma fold_pack_json_expiration:
  assumes "foldE (pack_json_tag L cfg) tags (b, ex) = Inr (b', ex')"
  shows "if ex = 0 then first_expiration tags ex' else ex' = ex"
  using assms
proof (induction tags arbitrary: b ex)
  case Nil
  then show ?case by (simp add: first_expiration_def)
next
  case (Cons tagArr tags)
  from Cons.prems obtain b1 ex1 where
    step: "pack_json_tag L cfg tagArr (b, ex) = Inr (b1, ex1)" and rest: "foldE (pack_json_tag L cfg) tags (b1, ex1) = Inr (b', ex')"
    by (auto simp: bindE_eq_Inr)
  have later: "if ex1 = 0 then first_expiration tags ex' else ex' = ex1" by (rule Cons.IH [OF rest])
  from pack_json_tag_expiration [OF step] show ?case
  proof (elim disjE exE conjE)
    fix val assume new: "tag_expiration tagArr = [val]" "ex = 0" "expires val ex1"
    then have "ex1 \<noteq> 0" by (auto simp: expires_def word_le_nat_alt)
    then show ?thesis using later new by (simp add: first_expiration_def)
  qed (use later in \<open>auto simp: first_expiration_def\<close>)
qed

lemma tagBuilder_add_empty: "tagBuilder_add (encode_tags ts) c [] = Inr (encode_tags (ts @ [(c, [])]))"
  using tagBuilder_add_encode [of ts c "[]" "encode_tags (ts @ [(c, [])])"] by simp

definition virtual_d :: "bool \<Rightarrow> (char \<times> string) list" where
  "virtual_d b = (if b then [(CHR ''d'', [])] else [])"

lemma nostrJsonToPackedEvent_event:
  assumes "nostrJsonToPackedEvent L cfg v = Inr buf"
  obtains e i pk tags where "buf = pack_event L e" "wf_event e"
    "json_at v ''id'' = Inr (JString i)" "from_hex L i False = Inr (ev_id e)"
    "json_at v ''pubkey'' = Inr (JString pk)" "from_hex L pk False = Inr (ev_pubkey e)"
    "json_at v ''created_at'' = Inr (JUnsigned (ev_created_at e))"
    "json_at v ''kind'' = Inr (JUnsigned (ev_kind e))" "json_at v ''tags'' = Inr (JArray tags)"
    "ev_tags e = virtual_d (isReplaceableKind (ev_kind e)) @ concat (map (indexed_tag L) tags) @
       virtual_d (isParamReplaceableKind (ev_kind e))"
    "if isEphemeralKind (ev_kind e) then ev_expiration e = 1 else first_expiration tags (ev_expiration e)"
proof -
  from assms obtain i evid pk pubkey ca kind tags b0 st b2 where
    at: "json_at v ''id'' = Inr (JString i)" "from_hex L i False = Inr evid"
      "json_at v ''pubkey'' = Inr (JString pk)" "from_hex L pk False = Inr pubkey"
      "json_at v ''created_at'' = Inr (JUnsigned ca)" "json_at v ''kind'' = Inr (JUnsigned kind)"
      "json_at v ''tags'' = Inr (JArray tags)"
    and b0: "(if isReplaceableKind kind then tagBuilder_add [] (CHR ''d'') [] else Inr []) = Inr b0"
    and fold: "foldE (pack_json_tag L cfg) tags (b0, 0) = Inr st"
    and b2: "(if isParamReplaceableKind kind then tagBuilder_add (fst st) (CHR ''d'') [] else Inr (fst st)) = Inr b2"
    and pack: "PackedEventBuilder L evid pubkey ca kind (if isEphemeralKind kind then 1 else snd st) b2 = Inr buf"
    unfolding nostrJsonToPackedEvent_def bindE_eq_Inr jsonGet_Inr
    by (elim exE conjE) blast
  obtain b1 ex where st: "st = (b1, ex)" by (cases st)
  let ?t0 = "virtual_d (isReplaceableKind kind)" and ?t1 = "concat (map (indexed_tag L) tags)"
    and ?t2 = "virtual_d (isParamReplaceableKind kind)"
  have e0: "b0 = encode_tags ?t0"
    using b0 tagBuilder_add_empty [of "[]" "CHR ''d''"] by (auto simp: virtual_d_def split: if_splits)
  have e1: "b1 = encode_tags (?t0 @ ?t1)" and small: "small_tags ?t1"
    using fold_pack_json_tag fold [unfolded e0 st] by blast+
  have e2: "b2 = encode_tags (?t0 @ ?t1 @ ?t2)"
    using b2 tagBuilder_add_empty [of "?t0 @ ?t1" "CHR ''d''"]
    unfolding st fst_conv e1 by (auto simp: virtual_d_def split: if_splits)
  let ?e = "\<lparr>ev_id = evid, ev_pubkey = pubkey, ev_created_at = ca, ev_kind = kind,
      ev_expiration = (if isEphemeralKind kind then 1 else ex), ev_tags = ?t0 @ ?t1 @ ?t2\<rparr>"
  have p: "length evid = 32" "length pubkey = 32" "buf = pack_event L ?e"
    using pack [unfolded e2 st snd_conv PackedEventBuilder_pack] by (simp_all add: pack_event_def)
  have "first_expiration tags ex" using fold_pack_json_expiration [OF fold [unfolded st]] by simp
  then show thesis
    by (intro that [of ?e i pk tags]) (use p at small in \<open>simp_all add: wf_event_def virtual_d_def\<close>)
qed

section \<open>The window of accepted timestamps\<close>

text \<open>The overflow guards make the word arithmetic agree with arithmetic on numbers.\<close>

lemma clamp_sub:
  fixes now d ts :: u64
  shows "ts < (if now - d > now then 0 else now - d) \<longleftrightarrow> unat ts + unat d < unat now"
proof -
  have "unat now < 2 ^ 64" "unat d < 2 ^ 64" using unsigned_less [of now] unsigned_less [of d] by simp_all
  then show ?thesis
    by (auto simp: word_less_nat_alt unat_sub_if' split: if_splits)
qed

lemma clamp_add:
  fixes now d ts :: u64
  shows "ts > (if now + d < now then MAX_U64 - 1 else now + d) \<longleftrightarrow>
    unat ts > unat now + unat d \<or> (unat now + unat d \<ge> 2 ^ 64 \<and> ts = MAX_U64)"
proof -
  have bounds: "unat now < 2 ^ 64" "unat d < 2 ^ 64" "unat ts < 2 ^ 64"
    using unsigned_less [of now] unsigned_less [of d] unsigned_less [of ts] by simp_all
  show ?thesis
  proof (cases "unat now + unat d < 2 ^ 64")
    case True
    then have "unat (now + d) = unat now + unat d" by (simp add: unat_plus_if')
    with True show ?thesis by (simp add: word_less_nat_alt)
  next
    case False
    then have "unat (now + d) = unat now + unat d - 2 ^ 64" by (simp add: unat_plus_if')
    with False bounds have "now + d < now" by (simp add: word_less_nat_alt)
    moreover have "MAX_U64 - 1 < ts \<longleftrightarrow> ts = MAX_U64"
    proof
      assume "MAX_U64 - 1 < ts"
      then show "ts = MAX_U64"
        by (metis add.commute diff_add_cancel inc_le order.antisym word_order.extremum)
    next
      assume "ts = MAX_U64"
      then show "MAX_U64 - 1 < ts" by (simp add: word_less_nat_alt unsigned_minus_1_eq_mask mask_eq_exp_minus_1)
    qed
    ultimately show ?thesis using False bounds by auto
  qed
qed

lemma verifyEventTimestamp_window:
  "verifyEventTimestamp L cfg now p = Inr () \<longleftrightarrow>
     unat now \<le> unat (packed_created_at L p) + unat (if packed_expiration L p = 1
        then rejectEphemeralEventsOlderThanSeconds cfg else rejectEventsOlderThanSeconds cfg) \<and>
     unat (packed_created_at L p) \<le> unat now + unat (rejectEventsNewerThanSeconds cfg) \<and>
     (unat now + unat (rejectEventsNewerThanSeconds cfg) \<ge> 2 ^ 64 \<longrightarrow> packed_created_at L p \<noteq> MAX_U64) \<and>
     (packed_expiration L p \<le> 1 \<or> now < packed_expiration L p)"
  unfolding verifyEventTimestamp_def Let_def bindE_eq_Inr throw_if_eq_Inr clamp_sub clamp_add
  by (auto simp: not_less not_le)

lemma parseAndVerifyEvent_checks:
  assumes "parseAndVerifyEvent L cfg now v True True = Inr (packedStr, jsonStr)"
  shows "nostrJsonToPackedEvent L cfg v = Inr packedStr \<and> verifyEventTimestamp L cfg now packedStr = Inr () \<and>
    verifyNostrEvent L packedStr v = Inr () \<and> length jsonStr \<le> unat (maxEventSize cfg) \<and>
    (\<exists>content created_at evid kind pubkey sig tags. json_at v ''content'' = Inr content \<and> json_at v ''created_at'' = Inr created_at \<and>
      json_at v ''id'' = Inr evid \<and> json_at v ''kind'' = Inr kind \<and> json_at v ''pubkey'' = Inr pubkey \<and> json_at v ''sig'' = Inr sig \<and>
      json_at v ''tags'' = Inr tags \<and> jsonStr = json_to_string L (JObject [(''content'', content), (''created_at'', created_at),
        (''id'', evid), (''kind'', kind), (''pubkey'', pubkey), (''sig'', sig), (''tags'', tags)]))"
  using assms
  by (auto simp: parseAndVerifyEvent_def bindE_eq_Inr PackedEventView_def verifyNostrEventJsonSize_def
      Let_def split: if_splits)

lemma parseAndVerifyEvent_packed:
  "parseAndVerifyEvent L cfg now v verifyMsg verifyTime = Inr (packedStr, jsonStr) \<Longrightarrow> nostrJsonToPackedEvent L cfg v = Inr packedStr"
  by (auto simp: parseAndVerifyEvent_def bindE_eq_Inr Let_def)

lemma verifyNostrEvent_Inr:
  assumes "verifyNostrEvent L packed v = Inr ()"
  obtains pk ca k ts ct s sig key where
    "json_at v ''pubkey'' = Inr pk" "json_at v ''created_at'' = Inr ca" "json_at v ''kind'' = Inr k"
    "json_at v ''tags'' = Inr ts" "json_at v ''content'' = Inr ct"
    "packed_id packed = sha256 L (json_to_string L (JArray [JSigned 0, pk, ca, k, ts, ct]))"
    "json_at v ''sig'' = Inr (JString s)" "from_hex L s False = Inr sig" "length sig = 64"
    "xonly_pubkey_parse L (packed_pubkey packed) = Some key"
    "schnorrsig_verify L sig (packed_id packed) key"
proof -
  from assms obtain hash i s sig where h: "nostrHash L v = Inr hash" and i: "Bytes32 (packed_id packed) = Inr i"
    and eq: "Bytes32_eq hash i" and s: "json_at v ''sig'' = Inr (JString s)" "from_hex L s False = Inr sig"
    and ver: "verifySig L sig (packed_id packed) (packed_pubkey packed) = Inr True"
    unfolding verifyNostrEvent_def bindE_eq_Inr by auto
  from h obtain pk ca k ts ct where
    f: "json_at v ''pubkey'' = Inr pk" "json_at v ''created_at'' = Inr ca" "json_at v ''kind'' = Inr k"
    "json_at v ''tags'' = Inr ts" "json_at v ''content'' = Inr ct"
    and b: "Bytes32 (sha256 L (json_to_string L (JArray [JSigned 0, pk, ca, k, ts, ct]))) = Inr hash"
    unfolding nostrHash_def bindE_eq_Inr by auto
  have "hash = i" using Bytes32_eq_iff [OF b i] eq by simp
  moreover have "hash = sha256 L (json_to_string L (JArray [JSigned 0, pk, ca, k, ts, ct]))" "i = packed_id packed"
    using b i by (auto simp: Bytes32_def split: if_splits)
  moreover obtain key where "length sig = 64" "xonly_pubkey_parse L (packed_pubkey packed) = Some key"
      "schnorrsig_verify L sig (packed_id packed) key"
    using ver by (auto simp: verifySig_def bindE_eq_Inr split: option.splits)
  ultimately show thesis using f s by (intro that) auto
qed

section \<open>Properties\<close>

text \<open>
  C37. What is packed of an accepted JSON event: the decoded id and key, the time and the kind,
  the indexable tags of the event in order, with the empty \<^verbatim>\<open>d\<close> tag first for a replaceable kind
  and last for a parameterised replaceable one, and the expiration, which is 1 for an ephemeral
  kind, else the time of the first expiration tag, else 0.  The packed form consists of these
  and of nothing else.
\<close>

theorem nostrJsonToPackedEvent_faithful:
  assumes "sv_codec L" and "nostrJsonToPackedEvent L cfg v = Inr buf"
  shows "\<exists>i pk tags ts. json_at v ''id'' = Inr (JString i) \<and> from_hex L i False = Inr (packed_id buf) \<and>
    json_at v ''pubkey'' = Inr (JString pk) \<and> from_hex L pk False = Inr (packed_pubkey buf) \<and>
    json_at v ''created_at'' = Inr (JUnsigned (packed_created_at L buf)) \<and>
    json_at v ''kind'' = Inr (JUnsigned (packed_kind L buf)) \<and> json_at v ''tags'' = Inr (JArray tags) \<and>
    ts = virtual_d (isReplaceableKind (packed_kind L buf)) @
      concat (map (indexed_tag L) tags) @ virtual_d (isParamReplaceableKind (packed_kind L buf)) \<and> packed_tags buf = Inr ts \<and>
    (if isEphemeralKind (packed_kind L buf) then packed_expiration L buf = 1 else first_expiration tags (packed_expiration L buf)) \<and>
    buf = pack L (packed_id buf) (packed_pubkey buf) (packed_created_at L buf) (packed_kind L buf) (packed_expiration L buf) ts"
proof -
  obtain e i pk tags where e: "buf = pack_event L e" "wf_event e"
    "json_at v ''id'' = Inr (JString i)" "from_hex L i False = Inr (ev_id e)"
    "json_at v ''pubkey'' = Inr (JString pk)" "from_hex L pk False = Inr (ev_pubkey e)"
    "json_at v ''created_at'' = Inr (JUnsigned (ev_created_at e))"
    "json_at v ''kind'' = Inr (JUnsigned (ev_kind e))" "json_at v ''tags'' = Inr (JArray tags)"
    "ev_tags e = virtual_d (isReplaceableKind (ev_kind e)) @ concat (map (indexed_tag L) tags) @
       virtual_d (isParamReplaceableKind (ev_kind e))"
    "if isEphemeralKind (ev_kind e) then ev_expiration e = 1 else first_expiration tags (ev_expiration e)"
    using nostrJsonToPackedEvent_event [OF assms(2)] by metis
  have fields: "packed_id buf = ev_id e" "packed_pubkey buf = ev_pubkey e" "packed_created_at L buf = ev_created_at e"
      "packed_kind L buf = ev_kind e" "packed_expiration L buf = ev_expiration e" "packed_tags buf = Inr (ev_tags e)"
    using sv_codec.packed_fields_event [OF assms(1) e(2)] by (simp_all add: e(1))
  have buf: "buf = pack L (ev_id e) (ev_pubkey e) (ev_created_at e) (ev_kind e) (ev_expiration e) (ev_tags e)"
    unfolding e(1) by (simp add: pack_event_def)
  show ?thesis unfolding fields
    by (rule exI [of _ i], rule exI [of _ pk], rule exI [of _ tags], rule exI [of _ "ev_tags e"], intro conjI)
      (rule e(3-11) buf refl)+
qed

definition sample_cfg :: events_cfg where
  "sample_cfg = \<lparr>maxEventSize = 65536, rejectEventsNewerThanSeconds = 900,
     rejectEventsOlderThanSeconds = 94608000, rejectEphemeralEventsOlderThanSeconds = 60,
     maxNumTags = 2000, maxTagValSize = 1024\<rparr>"

definition sample_json :: json where
  "sample_json = JObject [(''content'', JString ''hi''), (''created_at'', JUnsigned 100),
     (''id'', JString (replicate 64 (CHR ''0''))), (''kind'', JUnsigned 30000),
     (''pubkey'', JString (replicate 64 (CHR ''0''))), (''sig'', JString (replicate 128 (CHR ''0''))),
     (''tags'', JArray [JArray [JString ''t'', JString ''x'']])]"

lemma le_from_hex_zeros: "le_from_hex (replicate (2 * n) (CHR ''0'')) = Inr (replicate n (CHR 0x00))"
  by (induction n) (simp_all add: hex_value_def less_eq_char_def char_of_def)

lemma sample_hex:
  "from_hex le_lib (replicate 64 (CHR ''0'')) False = Inr (replicate 32 (CHR 0x00))"
  "from_hex le_lib (replicate 128 (CHR ''0'')) False = Inr (replicate 64 (CHR 0x00))"
  using le_from_hex_zeros [of 32] le_from_hex_zeros [of 64] by (simp_all add: le_lib_def)

lemma sample_at:
  "json_at sample_json ''content'' = Inr (JString ''hi'')"
  "json_at sample_json ''created_at'' = Inr (JUnsigned 100)"
  "json_at sample_json ''id'' = Inr (JString (replicate 64 (CHR ''0'')))"
  "json_at sample_json ''kind'' = Inr (JUnsigned 30000)"
  "json_at sample_json ''pubkey'' = Inr (JString (replicate 64 (CHR ''0'')))"
  "json_at sample_json ''sig'' = Inr (JString (replicate 128 (CHR ''0'')))"
  "json_at sample_json ''tags'' = Inr (JArray [JArray [JString ''t'', JString ''x'']])"
  by (simp_all add: json_at_def sample_json_def)

lemma sample_packed:
  "nostrJsonToPackedEvent le_lib sample_cfg sample_json =
     Inr (pack le_lib (replicate 32 (CHR 0x00)) (replicate 32 (CHR 0x00)) 100 30000 0
       [(CHR ''t'', ''x''), (CHR ''d'', [])])"
  unfolding nostrJsonToPackedEvent_def sample_at
  by (simp add: jsonGetString_def jsonGetUnsigned_def jsonGetArray_def sample_hex throw_if_def
      isReplaceableKind_def isParamReplaceableKind_def isEphemeralKind_def sample_cfg_def
      pack_json_tag_def tagBuilder_add_def PackedEventBuilder_def pack_def encode_tag_def
      MAX_INDEXED_TAG_VAL_SIZE_def)

theorem nostrJsonToPackedEvent_faithful_witness:
  "\<exists>buf. nostrJsonToPackedEvent le_lib sample_cfg sample_json = Inr buf \<and>
     json_at sample_json ''kind'' = Inr (JUnsigned (packed_kind le_lib buf)) \<and>
     json_at sample_json ''created_at'' = Inr (JUnsigned (packed_created_at le_lib buf)) \<and>
     packed_expiration le_lib buf = 0 \<and> packed_tags buf = Inr [(CHR ''t'', ''x''), (CHR ''d'', [])]"
proof -
  let ?z = "replicate 32 (CHR 0x00)"
  let ?p = "pack le_lib ?z ?z 100 30000 0 [(CHR ''t'', ''x''), (CHR ''d'', [])]"
  have k: "packed_kind le_lib ?p = 30000" by (simp add: le.packed_fields_pack)
  from nostrJsonToPackedEvent_faithful [OF le.sv_codec_axioms sample_packed] obtain tags ts where
    f: "json_at sample_json ''kind'' = Inr (JUnsigned (packed_kind le_lib ?p))"
      "json_at sample_json ''created_at'' = Inr (JUnsigned (packed_created_at le_lib ?p))" "json_at sample_json ''tags'' = Inr (JArray tags)"
      "ts = virtual_d (isReplaceableKind (packed_kind le_lib ?p)) @ concat (map (indexed_tag le_lib) tags) @ virtual_d (isParamReplaceableKind (packed_kind le_lib ?p))"
      "packed_tags ?p = Inr ts"
      "if isEphemeralKind (packed_kind le_lib ?p) then packed_expiration le_lib ?p = 1 else first_expiration tags (packed_expiration le_lib ?p)"
    by blast
  have tags: "tags = [JArray [JString ''t'', JString ''x'']]" using f(3) by (simp add: sample_at)
  have "packed_expiration le_lib ?p = 0"
    using f(6) by (simp add: k isEphemeralKind_def tags first_expiration_def tag_expiration_def)
  moreover have "ts = [(CHR ''t'', ''x''), (CHR ''d'', [])]"
    using f(4) by (simp add: k tags isReplaceableKind_def isParamReplaceableKind_def virtual_d_def indexed_tag_def MAX_INDEXED_TAG_VAL_SIZE_def)
  ultimately show ?thesis using f(1,2,5) sample_packed by blast
qed

text \<open>
  The window of accepted timestamps, in arithmetic on numbers: an event passes exactly
  when its time is at least the present minus the age limit of its class (ephemeral or not)
  and at most the present plus the lead limit, and it has not expired.  The wrap-around guards
  are exact, except that where the sum of the present and the lead limit leaves 64 bits the
  one time \<open>2 ^ 64 - 1\<close> is refused.
\<close>

theorem verifyEventTimestamp_correct:
  "verifyEventTimestamp L cfg now p = Inr () \<longleftrightarrow>
     unat now \<le> unat (packed_created_at L p) + unat (if packed_expiration L p = 1
        then rejectEphemeralEventsOlderThanSeconds cfg else rejectEventsOlderThanSeconds cfg) \<and>
     unat (packed_created_at L p) \<le> unat now + unat (rejectEventsNewerThanSeconds cfg) \<and>
     \<not> (unat now + unat (rejectEventsNewerThanSeconds cfg) \<ge> 2 ^ 64 \<and> packed_created_at L p = MAX_U64) \<and>
     (packed_expiration L p = 0 \<or> packed_expiration L p = 1 \<or> now < packed_expiration L p)"
proof -
  have "x \<le> 1 \<longleftrightarrow> x = 0 \<or> x = 1" for x :: u64
    by (metis bot_nat_0.extremum_uniqueI le_less less_one unat_eq_zero unat_gt_0 unat_1 word_le_nat_alt word_less_1
        word_order.extremum word_zero_le)
  then show ?thesis
    using verifyEventTimestamp_window [of L cfg now p] by blast
qed

text \<open>
  C15. Nothing unauthentic gets in: an event that \<^verbatim>\<open>parseAndVerifyEvent\<close> accepts with both
  checks on carries as its id the SHA-256 digest of its canonical serialisation, its signature
  verifies under its own key over that id, its times are in the accepted window, and what is
  stored of it is its packed form and the text of the object with its seven NIP-01 members and
  no other, within the size limit.
\<close>

theorem parseAndVerifyEvent_authentic:
  assumes "parseAndVerifyEvent L cfg now v True True = Inr (packedStr, jsonStr)"
  shows "(\<exists>ct ca i k pk sg ts. json_at v ''content'' = Inr ct \<and> json_at v ''created_at'' = Inr ca \<and> json_at v ''id'' = Inr i \<and>
      json_at v ''kind'' = Inr k \<and> json_at v ''pubkey'' = Inr pk \<and> json_at v ''sig'' = Inr sg \<and> json_at v ''tags'' = Inr ts \<and>
      packed_id packedStr = sha256 L (json_to_string L (JArray [JSigned 0, pk, ca, k, ts, ct])) \<and>
      (\<exists>s sig key. sg = JString s \<and> from_hex L s False = Inr sig \<and> xonly_pubkey_parse L (packed_pubkey packedStr) = Some key \<and>
        schnorrsig_verify L sig (packed_id packedStr) key) \<and>
      jsonStr = json_to_string L (JObject [(''content'', ct), (''created_at'', ca), (''id'', i), (''kind'', k),
        (''pubkey'', pk), (''sig'', sg), (''tags'', ts)])) \<and>
    nostrJsonToPackedEvent L cfg v = Inr packedStr \<and>
    verifyEventTimestamp L cfg now packedStr = Inr () \<and> length jsonStr \<le> unat (maxEventSize cfg)"
proof -
  obtain ct ca i k pk sg ts where c: "nostrJsonToPackedEvent L cfg v = Inr packedStr" "verifyEventTimestamp L cfg now packedStr = Inr ()"
      "verifyNostrEvent L packedStr v = Inr ()" "length jsonStr \<le> unat (maxEventSize cfg)"
    and at: "json_at v ''content'' = Inr ct" "json_at v ''created_at'' = Inr ca" "json_at v ''id'' = Inr i"
      "json_at v ''kind'' = Inr k" "json_at v ''pubkey'' = Inr pk" "json_at v ''sig'' = Inr sg" "json_at v ''tags'' = Inr ts"
    and js: "jsonStr = json_to_string L (JObject [(''content'', ct), (''created_at'', ca), (''id'', i), (''kind'', k),
        (''pubkey'', pk), (''sig'', sg), (''tags'', ts)])"
    using parseAndVerifyEvent_checks [OF assms] by blast
  from c(3) obtain s sig key where "packed_id packedStr = sha256 L (json_to_string L (JArray [JSigned 0, pk, ca, k, ts, ct]))"
    "sg = JString s" "from_hex L s False = Inr sig" "xonly_pubkey_parse L (packed_pubkey packedStr) = Some key"
    "schnorrsig_verify L sig (packed_id packedStr) key"
    by (cases rule: verifyNostrEvent_Inr) (simp add: at)
  note sig = this
  show ?thesis
    by (rule conjI, rule exI [of _ ct], rule exI [of _ ca], rule exI [of _ i], rule exI [of _ k], rule exI [of _ pk], rule exI [of _ sg], rule exI [of _ ts])
      (use sig c at js in simp_all)
qed

lemma sample_accepted:
  "\<exists>packedStr jsonStr. parseAndVerifyEvent le_lib sample_cfg 100 sample_json True True = Inr (packedStr, jsonStr)"
proof -
  let ?z = "replicate 32 (CHR 0x00)"
  let ?p = "pack le_lib ?z ?z 100 30000 0 [(CHR ''t'', ''x''), (CHR ''d'', [])]"
  have fields: "PackedEventView ?p = Inr ?p" "packed_id ?p = ?z" "packed_pubkey ?p = ?z"
      "packed_created_at le_lib ?p = 100" "packed_expiration le_lib ?p = 0"
    by (simp_all add: le.view_pack le.packed_fields_pack)
  have "verifyEventTimestamp le_lib sample_cfg 100 ?p = Inr ()"
    by (simp add: verifyEventTimestamp_def fields sample_cfg_def throw_if_def)
  moreover have "verifyNostrEvent le_lib ?p sample_json = Inr ()"
    unfolding verifyNostrEvent_def nostrHash_def sample_at fields
    by (simp add: Bytes32_def Bytes32_eq_def memcmp_eq_0_iff jsonGetString_def sample_hex verifySig_def
        throw_if_def) (simp add: le_lib_def memcmp_eq_0_iff)
  ultimately show ?thesis
    unfolding parseAndVerifyEvent_def sample_packed sample_at
    by (simp add: fields throw_if_def sample_json_def verifyNostrEventJsonSize_def) (simp add: le_lib_def)
qed

theorem parseAndVerifyEvent_authentic_witness:
  "\<exists>packedStr jsonStr. parseAndVerifyEvent le_lib sample_cfg 100 sample_json True True = Inr (packedStr, jsonStr) \<and>
     verifyEventTimestamp le_lib sample_cfg 100 packedStr = Inr () \<and>
     length jsonStr \<le> unat (maxEventSize sample_cfg)"
  using sample_accepted parseAndVerifyEvent_authentic by blast

end
