(* ===== verification/Event_Store.thy ===== *)
theory Event_Store
  imports Events "HOL-Library.Product_Lexorder"
begin

text \<open>
  The stored events (the second half of \<^verbatim>\<open>src/src/events.cpp\<close>, \<^verbatim>\<open>deleteEvents\<close> of
  \<^verbatim>\<open>src/src/events.h\<close>, \<^verbatim>\<open>src/src/NegentropyFilterCache.h\<close> and the index definitions of
  \<^verbatim>\<open>src/golpe.yaml\<close>): lookups, \<^verbatim>\<open>writeEvents\<close>, deletions, the trees kept for negentropy.

  The database layer (LMDB and the accessors generated by golpe) is not part of the
  repository: it is the record \<^verbatim>\<open>env\<close> of the operations the code calls.  What the code
  relies on of them is the locale \<^verbatim>\<open>event_env\<close>, and an in-memory database interprets it.
\<close>

section \<open>The database interface\<close>

datatype db_index =
    Ix_created_at | Ix_id | Ix_pubkey | Ix_kind | Ix_pubkeyKind | Ix_tag | Ix_deletion
  | Ix_expiration | Ix_replace

text \<open>
  \<open>foreachFull db ix k v rev\<close> lists the entries (key, levId) that
  \<^verbatim>\<open>generic_foreachFull\<close> would hand to a callback that always asks to go on, starting at
  the position \<open>(k, v)\<close>, in descending order when \<open>rev\<close> is set.  \<open>foreach_Event db rev start\<close>
  does the same for the events themselves, from the levId \<open>start\<close> on, if one is given.
\<close>

record 'db env =
  lookup_Event :: "'db \<Rightarrow> u64 \<Rightarrow> string option"
  insert_Event :: "'db \<Rightarrow> string \<Rightarrow> u64 \<times> 'db"
  delete_Event :: "'db \<Rightarrow> u64 \<Rightarrow> 'db"
  foreach_Event :: "'db \<Rightarrow> bool \<Rightarrow> u64 option \<Rightarrow> (u64 \<times> string) list"
  foreachFull :: "'db \<Rightarrow> db_index \<Rightarrow> string \<Rightarrow> u64 \<Rightarrow> bool \<Rightarrow> (string \<times> u64) list"
  lookup_Event__deletion :: "'db \<Rightarrow> string \<Rightarrow> u64 option"
  payload_get :: "'db \<Rightarrow> u64 \<Rightarrow> string option"
  payload_put :: "'db \<Rightarrow> u64 \<Rightarrow> string \<Rightarrow> 'db"
  payload_del :: "'db \<Rightarrow> u64 \<Rightarrow> bool \<times> 'db"
  makeKey_StringUint64 :: "string \<Rightarrow> u64 \<Rightarrow> string"
  parseKey_StringUint64 :: "string \<Rightarrow> string \<times> u64"
  makeKey_Uint64Uint64 :: "u64 \<Rightarrow> u64 \<Rightarrow> string"
  parseKey_Uint64Uint64 :: "string \<Rightarrow> u64 \<times> u64"
  makeKey_StringUint64Uint64 :: "string \<Rightarrow> u64 \<Rightarrow> u64 \<Rightarrow> string"
  negentropyModificationCounter :: "'db \<Rightarrow> u64 option"
  foreach_NegentropyFilter :: "'db \<Rightarrow> (u64 \<times> string) list"
  tree_insert :: "'db \<Rightarrow> u64 \<Rightarrow> u64 \<Rightarrow> string \<Rightarrow> 'db"
  tree_erase :: "'db \<Rightarrow> u64 \<Rightarrow> u64 \<Rightarrow> string \<Rightarrow> 'db"

text \<open>The index keys of an event: \<^verbatim>\<open>indexPrelude\<close> of \<^verbatim>\<open>src/golpe.yaml\<close>.\<close>

definition index_tag ::
    "'db env \<Rightarrow> lib \<Rightarrow> string \<Rightarrow> string list \<times> string list \<times> string list \<Rightarrow> char \<Rightarrow> string \<Rightarrow>
     (string list \<times> string list \<times> string list) \<times> bool" where
  "index_tag E L packed st tagName tagVal =
     (case st of (tag, replace, deletion) \<Rightarrow>
        let tag' = tag @ [makeKey_StringUint64 E ([tagName] @ tagVal) (packed_created_at L packed)]
        in if tagName = CHR ''d'' \<and> replace = [] then
             ((tag', replace @ [makeKey_StringUint64 E (packed_pubkey packed @ tagVal) (packed_kind L packed)],
               deletion), True)
           else if tagName = CHR ''e'' \<and> packed_kind L packed = 5 then
             ((tag', replace, deletion @ [tagVal @ packed_pubkey packed]), True)
           else ((tag', replace, deletion), True))"

definition indexPrelude :: "'db env \<Rightarrow> lib \<Rightarrow> string \<Rightarrow> (db_index \<Rightarrow> string list) result" where
  "indexPrelude E L buf =
     bindE (PackedEventView buf) (\<lambda>packed.
     bindE (foreachTag packed (index_tag E L packed) ([], [], [])) (\<lambda>(tag, replace, deletion).
     Inr (\<lambda>ix. case ix of
         Ix_created_at \<Rightarrow> [to_sv L (packed_created_at L packed)]
       | Ix_id \<Rightarrow> [makeKey_StringUint64 E (packed_id packed) (packed_created_at L packed)]
       | Ix_pubkey \<Rightarrow> [makeKey_StringUint64 E (packed_pubkey packed) (packed_created_at L packed)]
       | Ix_kind \<Rightarrow> [makeKey_Uint64Uint64 E (packed_kind L packed) (packed_created_at L packed)]
       | Ix_pubkeyKind \<Rightarrow> [makeKey_StringUint64Uint64 E (packed_pubkey packed) (packed_kind L packed)
                            (packed_created_at L packed)]
       | Ix_tag \<Rightarrow> tag
       | Ix_deletion \<Rightarrow> deletion
       | Ix_expiration \<Rightarrow> (if packed_expiration L packed \<noteq> 0 then [to_sv L (packed_expiration L packed)] else [])
       | Ix_replace \<Rightarrow> replace)))"

section \<open>Lookups\<close>

text \<open>A \<^verbatim>\<open>View_Event\<close> is the pair of its \<^verbatim>\<open>primaryKeyId\<close> and its \<^verbatim>\<open>buf\<close>.\<close>

definition lookupEventById :: "'db env \<Rightarrow> 'db \<Rightarrow> string \<Rightarrow> (u64 \<times> string) option" where
  "lookupEventById E db evid =
     fold_until (\<lambda>output (k, v).
         (if starts_with k evid then map_option (Pair v) (lookup_Event E db v) else output, False))
       (foreachFull E db Ix_id (makeKey_StringUint64 E evid 0) 0 False) None"

definition lookupEventByLevId :: "'db env \<Rightarrow> 'db \<Rightarrow> u64 \<Rightarrow> (u64 \<times> string) result" where
  "lookupEventByLevId E db levId =
     (case lookup_Event E db levId of
        None \<Rightarrow> Inl (Herr ''unable to lookup event by levId'')
      | Some buf \<Rightarrow> Inr (levId, buf))"

definition getMostRecentLevId :: "'db env \<Rightarrow> 'db \<Rightarrow> u64" where
  "getMostRecentLevId E db =
     fold_until (\<lambda>levId ev. (fst ev, False)) (foreach_Event E db True None) 0"

text \<open>
  \<^verbatim>\<open>decodeEventPayload\<close>: \<open>decompress dictId data\<close> is the decompressor with its dictionaries,
  \<open>from_sv32\<close> reads the dictionary id.  The result is the JSON text and what is stored through
  \<^verbatim>\<open>outDictId\<close> and, for a compressed record, through \<^verbatim>\<open>outCompressedSize\<close>.
\<close>

definition decodeEventPayload ::
    "(string \<Rightarrow> u32) \<Rightarrow> (u32 \<Rightarrow> string \<Rightarrow> string result) \<Rightarrow> string \<Rightarrow> (string \<times> u32 \<times> nat option) result" where
  "decodeEventPayload from_sv32 decompress raw =
     (if length raw = 0 then Inl (Herr ''empty event in EventPayload'')
      else if raw ! 0 = CHR 0x00 then Inr (substr raw 1 (length raw - 1), 0, None)
      else if raw ! 0 = CHR 0x01 then
        (let raw' = drop 1 raw
         in if length raw' < 4 then Inl (Herr ''EventPayload record too short to read dictId'')
            else (let dictId = from_sv32 (substr raw' 0 4)
                  in bindE (decompress dictId (drop 4 raw')) (\<lambda>buf. Inr (buf, dictId, Some (length (drop 4 raw'))))))
      else Inl (Herr ''Unexpected first byte in EventPayload''))"

definition getEventJson ::
    "'db env \<Rightarrow> (string \<Rightarrow> u32) \<Rightarrow> (u32 \<Rightarrow> string \<Rightarrow> string result) \<Rightarrow> 'db \<Rightarrow> u64 \<Rightarrow> string result" where
  "getEventJson E from_sv32 decompress db levId =
     (case payload_get E db levId of
        None \<Rightarrow> Inl (Herr ''couldn't find event in EventPayload'')
      | Some eventPayload \<Rightarrow>
          bindE (decodeEventPayload from_sv32 decompress eventPayload) (\<lambda>r. Inr (fst r)))"

section \<open>The negentropy filter cache\<close>

record filter_cache =
  fc_filters :: "(nostr_filter \<times> u64) list"
  fc_modificationCounter :: u64

definition freshenCache :: "'db env \<Rightarrow> lib \<Rightarrow> 'db \<Rightarrow> filter_cache \<Rightarrow> filter_cache result" where
  "freshenCache E L db cache =
     (case negentropyModificationCounter E db of
        None \<Rightarrow> Inl UB
      | Some curr_counter \<Rightarrow>
          if curr_counter \<noteq> fc_modificationCounter cache then
            bindE (mapE (\<lambda>(treeId, text).
                     bindE (json_from_string L text) (\<lambda>j.
                     bindE (NostrFilter L j MAX_U64) (\<lambda>f. Inr (f, treeId))))
                   (foreach_NegentropyFilter E db))
              (\<lambda>fs. Inr \<lparr>fc_filters = fs, fc_modificationCounter = curr_counter\<rparr>)
          else Inr cache)"

text \<open>The function that \<^verbatim>\<open>ctx\<close> hands to its callback.\<close>

fun updateNegentropy ::
    "'db env \<Rightarrow> lib \<Rightarrow> (nostr_filter \<times> u64) list \<Rightarrow> string \<Rightarrow> bool \<Rightarrow> 'db \<Rightarrow> 'db result" where
  "updateNegentropy E L [] ev ins db = Inr db"
| "updateNegentropy E L ((f, treeId) # fs) ev ins db =
     bindE (NostrFilter_doesMatch L f ev) (\<lambda>b.
     if \<not> b then updateNegentropy E L fs ev ins db
     else updateNegentropy E L fs ev ins
            (if ins then tree_insert E db treeId (packed_created_at L ev) (packed_id ev)
             else tree_erase E db treeId (packed_created_at L ev) (packed_id ev)))"

section \<open>Deleting events\<close>

definition deleteEventBasic :: "'db env \<Rightarrow> 'db \<Rightarrow> u64 \<Rightarrow> bool \<times> 'db" where
  "deleteEventBasic E db levId =
     (let (deleted, db') = payload_del E db levId in (deleted, delete_Event E db' levId))"

text \<open>The body of the loops of \<^verbatim>\<open>deleteEvents\<close> and \<^verbatim>\<open>writeEvents\<close> over the ids to delete.\<close>

definition delete_one ::
    "'db env \<Rightarrow> lib \<Rightarrow> (nostr_filter \<times> u64) list \<Rightarrow> u64 \<Rightarrow> 'db \<times> u64 \<Rightarrow> ('db \<times> u64) result" where
  "delete_one E L fs levId st =
     (case st of (db, numDeleted) \<Rightarrow>
        (case lookup_Event E db levId of
           None \<Rightarrow> Inr (db, numDeleted)
         | Some buf \<Rightarrow>
             bindE (PackedEventView buf) (\<lambda>packed.
             bindE (updateNegentropy E L fs packed False db) (\<lambda>db1.
             let (deleted, db2) = deleteEventBasic E db1 levId
             in Inr (db2, if deleted then numDeleted + 1 else numDeleted)))))"

definition deleteEvents ::
    "'db env \<Rightarrow> lib \<Rightarrow> filter_cache \<Rightarrow> u64 list \<Rightarrow> 'db \<Rightarrow> (u64 \<times> 'db \<times> filter_cache) result" where
  "deleteEvents E L cache levIds db =
     bindE (freshenCache E L db cache) (\<lambda>cache'.
     bindE (foldE (delete_one E L (fc_filters cache')) levIds (db, 0)) (\<lambda>(db', n).
     Inr (n, db', cache')))"

section \<open>Writing events\<close>

datatype write_status = Pending | Written | Duplicate | Replaced | Deleted

record event_to_write =
  ew_packedStr :: string
  ew_jsonStr :: string
  ew_userData :: "nat option"
  ew_status :: write_status
  ew_levId :: u64

definition EventToWrite :: "string \<Rightarrow> string \<Rightarrow> nat option \<Rightarrow> event_to_write" where
  "EventToWrite packedStr jsonStr userData =
     \<lparr>ew_packedStr = packedStr, ew_jsonStr = jsonStr, ew_userData = userData,
      ew_status = Pending, ew_levId = 0\<rparr>"

text \<open>The first \<^verbatim>\<open>d\<close> tag, for kinds that are replaceable.\<close>

definition replace_tag :: "lib \<Rightarrow> string \<Rightarrow> string option result" where
  "replace_tag L packed =
     (if isReplaceableKind (packed_kind L packed) \<or> isParamReplaceableKind (packed_kind L packed)
      then foreachTag packed (\<lambda>replace tagName tagVal.
             if tagName \<noteq> CHR ''d'' then (replace, True) else (Some tagVal, False)) None
      else Inr None)"

text \<open>The callback on the first entry of the \<^verbatim>\<open>replace\<close> index at or below the search key.\<close>

definition check_replaced ::
    "'db env \<Rightarrow> lib \<Rightarrow> 'db \<Rightarrow> string \<Rightarrow> string \<Rightarrow> write_status \<times> u64 list \<Rightarrow> (write_status \<times> u64 list) result" where
  "check_replaced E L db packed replace st =
     (let searchStr = packed_pubkey packed @ replace;
          searchKey = makeKey_StringUint64 E searchStr (packed_kind L packed)
      in case foreachFull E db Ix_replace searchKey MAX_U64 True of
           [] \<Rightarrow> Inr st
         | (k, v) # _ \<Rightarrow>
             (let parsedKey = parseKey_StringUint64 E k
              in if fst parsedKey = searchStr \<and> snd parsedKey = packed_kind L packed then
                   bindE (lookupEventByLevId E db v) (\<lambda>otherEv.
                   bindE (PackedEventView (snd otherEv)) (\<lambda>otherPacked.
                   let thisTimestamp = packed_created_at L packed;
                       otherTimestamp = packed_created_at L otherPacked
                   in if otherTimestamp < thisTimestamp \<or>
                         (otherTimestamp = thisTimestamp \<and> packed_id packed < packed_id otherPacked)
                      then Inr (fst st, snd st @ [fst otherEv])
                      else Inr (Replaced, snd st)))
                 else Inr st))"

text \<open>The events that a deletion event names and its author owns.\<close>

definition collect_deletions ::
    "'db env \<Rightarrow> lib \<Rightarrow> 'db \<Rightarrow> string \<Rightarrow> u64 list \<Rightarrow> u64 list result" where
  "collect_deletions E L db packed levIdsToDelete =
     (if packed_kind L packed = 5 then
        bindE (foreachTag packed (\<lambda>acc tagName tagVal.
          (if tagName = CHR ''e'' then
             (case lookupEventById E db tagVal of
                Some otherEv \<Rightarrow>
                  bindE acc (\<lambda>ids.
                  bindE (PackedEventView (snd otherEv)) (\<lambda>other.
                  Inr (if packed_pubkey other = packed_pubkey packed then ids @ [fst otherEv] else ids)))
              | None \<Rightarrow> acc)
           else acc, True)) (Inr levIdsToDelete)) (\<lambda>r. r)
      else Inr levIdsToDelete)"

text \<open>The insertion of a pending event and the deletions it causes.\<close>

definition store_event ::
    "'db env \<Rightarrow> lib \<Rightarrow> (nostr_filter \<times> u64) list \<Rightarrow> event_to_write \<Rightarrow> u64 list \<Rightarrow> 'db \<Rightarrow>
     (event_to_write \<times> 'db) result" where
  "store_event E L fs ev levIdsToDelete db =
     (let (levId, db1) = insert_Event E db (ew_packedStr ev);
          db2 = payload_put E db1 levId ([CHR 0x00] @ ew_jsonStr ev)
      in bindE (PackedEventView (ew_packedStr ev)) (\<lambda>packed.
         bindE (updateNegentropy E L fs packed True db2) (\<lambda>db3.
         bindE (foldE (delete_one E L fs) levIdsToDelete (db3, 0)) (\<lambda>(db4, _).
         Inr (ev\<lparr>ew_levId := levId, ew_status := Written\<rparr>, db4)))))"

definition write_one ::
    "'db env \<Rightarrow> lib \<Rightarrow> (nostr_filter \<times> u64) list \<Rightarrow> string option \<Rightarrow> event_to_write \<Rightarrow> 'db \<Rightarrow>
     (event_to_write \<times> 'db) result" where
  "write_one E L fs prevId ev db =
     bindE (PackedEventView (ew_packedStr ev)) (\<lambda>packed.
     if lookupEventById E db (packed_id packed) \<noteq> None \<or> prevId = Some (packed_id packed)
     then Inr (ev\<lparr>ew_status := Duplicate\<rparr>, db)
     else if lookup_Event__deletion E db (packed_id packed @ packed_pubkey packed) \<noteq> None
     then Inr (ev\<lparr>ew_status := Deleted\<rparr>, db)
     else
       bindE (replace_tag L packed) (\<lambda>replace.
       bindE (case replace of
                None \<Rightarrow> Inr (ew_status ev, [])
              | Some r \<Rightarrow> check_replaced E L db packed r (ew_status ev, [])) (\<lambda>(status, del1).
       bindE (collect_deletions E L db packed del1) (\<lambda>levIdsToDelete.
       if status = Pending then store_event E L fs ev levIdsToDelete db
       else if levIdsToDelete \<noteq> [] then Inl (Herr ''unprocessed deletion'')
       else Inr (ev\<lparr>ew_status := status\<rparr>, db)))))"

fun write_loop ::
    "'db env \<Rightarrow> lib \<Rightarrow> (nostr_filter \<times> u64) list \<Rightarrow> string option \<Rightarrow> event_to_write list \<Rightarrow> 'db \<Rightarrow>
     (event_to_write list \<times> 'db) result" where
  "write_loop E L fs prevId [] db = Inr ([], db)"
| "write_loop E L fs prevId (ev # evs) db =
     bindE (write_one E L fs prevId ev db) (\<lambda>(ev', db1).
     bindE (write_loop E L fs (Some (packed_id (ew_packedStr ev))) evs db1) (\<lambda>(evs', db2).
     Inr (ev' # evs', db2)))"

text \<open>The order of \<^verbatim>\<open>std::sort\<close>: by time, then by id; its comparator reads every packed event.\<close>

definition sort_events :: "lib \<Rightarrow> event_to_write list \<Rightarrow> event_to_write list result" where
  "sort_events L evs =
     bindE (if length evs \<ge> 2 then mapE (\<lambda>ev. PackedEventView (ew_packedStr ev)) evs else Inr [])
       (\<lambda>_. Inr (sort_key (\<lambda>ev. (packed_created_at L (ew_packedStr ev), packed_id (ew_packedStr ev))) evs))"

definition writeEvents ::
    "'db env \<Rightarrow> lib \<Rightarrow> filter_cache \<Rightarrow> event_to_write list \<Rightarrow> 'db \<Rightarrow>
     (event_to_write list \<times> 'db \<times> filter_cache) result" where
  "writeEvents E L cache evs db =
     bindE (sort_events L evs) (\<lambda>sorted.
     bindE (freshenCache E L db cache) (\<lambda>cache'.
     bindE (write_loop E L (fc_filters cache') None sorted db) (\<lambda>(evs', db').
     Inr (evs', db', cache'))))"

section \<open>What the code relies on of the database\<close>

text \<open>The entries an index has: one for every key of every stored event.\<close>

definition index_entries :: "'db env \<Rightarrow> lib \<Rightarrow> 'db \<Rightarrow> db_index \<Rightarrow> (string \<times> u64) set" where
  "index_entries E L db ix =
     {(k, l). \<exists>buf ks. lookup_Event E db l = Some buf \<and> indexPrelude E L buf = Inr ks \<and> k \<in> set (ks ix)}"

text \<open>Positions in an index are ordered by key, then by levId.\<close>

definition pos_le :: "(db_index \<Rightarrow> string \<Rightarrow> string \<Rightarrow> bool) \<Rightarrow> db_index \<Rightarrow> string \<times> u64 \<Rightarrow> string \<times> u64 \<Rightarrow> bool" where
  "pos_le key_le ix a b \<longleftrightarrow> key_le ix (fst a) (fst b) \<and> (key_le ix (fst b) (fst a) \<longrightarrow> snd a \<le> snd b)"

definition lev_max :: "'db env \<Rightarrow> 'db \<Rightarrow> nat" where
  "lev_max E db = Max (insert 0 (unat ` dom (lookup_Event E db)))"

text \<open>
  The laws.  \<open>key_le\<close> is the comparator of each index; \<open>tree_items\<close> are the elements of a
  negentropy tree.  Keys are the string followed by the byte image of the number; the
  comparator \<^verbatim>\<open>StringUint64\<close> orders by the string and then by the number, the default one
  by bytes.  A new event gets the levId after the largest one in use.
\<close>

locale event_env = sv_codec L for L :: lib +
  fixes E :: "'db env" and key_le :: "db_index \<Rightarrow> string \<Rightarrow> string \<Rightarrow> bool"
    and tree_items :: "'db \<Rightarrow> u64 \<Rightarrow> (u64 \<times> string) set"
  assumes makeKey: "makeKey_StringUint64 E s n = s @ to_sv L n"
    and parseKey: "parseKey_StringUint64 E (makeKey_StringUint64 E s n) = (s, n)"
    and id_le: "key_le Ix_id (makeKey_StringUint64 E s n) (makeKey_StringUint64 E s' n') \<longleftrightarrow>
      s < s' \<or> s = s' \<and> n \<le> n'"
    and replace_le: "key_le Ix_replace k k' \<longleftrightarrow> k \<le> k'"
    and scan_set: "set (foreachFull E db ix k v False) = {x \<in> index_entries E L db ix. pos_le key_le ix (k, v) x}"
    and scan_set_rev: "set (foreachFull E db ix k v True) = {x \<in> index_entries E L db ix. pos_le key_le ix x (k, v)}"
    and scan_sorted: "sorted_wrt (pos_le key_le ix) (foreachFull E db ix k v False)"
    and scan_sorted_rev: "sorted_wrt (\<lambda>x y. pos_le key_le ix y x) (foreachFull E db ix k v True)"
    and expiration_le: "key_le Ix_expiration (to_sv L t) (to_sv L t') \<longleftrightarrow> t \<le> t'"
    and foreach_set: "set (foreach_Event E db False start) =
      {(l, buf). lookup_Event E db l = Some buf \<and> (\<forall>s. start = Some s \<longrightarrow> s \<le> l)}"
    and foreach_sorted: "sorted_wrt (\<lambda>x y. fst x < fst y) (foreach_Event E db False start)"
    and foreach_rev: "foreach_Event E db True None = rev (foreach_Event E db False None)"
    and lookup_deletion: "lookup_Event__deletion E db k \<noteq> None \<longleftrightarrow> (\<exists>l. (k, l) \<in> index_entries E L db Ix_deletion)"
    and finite_events: "finite (dom (lookup_Event E db))"
    and insert_lev: "insert_Event E db buf = (l, db') \<Longrightarrow> Suc (lev_max E db) < 2 ^ 64 \<Longrightarrow> unat l = Suc (lev_max E db)"
    and insert_lookup: "insert_Event E db buf = (l, db') \<Longrightarrow> lookup_Event E db' = (lookup_Event E db)(l \<mapsto> buf)"
    and insert_frame: "insert_Event E db buf = (l, db') \<Longrightarrow> payload_get E db' = payload_get E db \<and>
      tree_items db' = tree_items db"
    and delete_lookup: "lookup_Event E (delete_Event E db l) = (lookup_Event E db)(l := None)"
    and delete_frame: "payload_get E (delete_Event E db l) = payload_get E db"
      "tree_items (delete_Event E db l) = tree_items db"
    and put_payload: "payload_get E (payload_put E db l p) = (payload_get E db)(l \<mapsto> p)"
    and put_frame: "lookup_Event E (payload_put E db l p) = lookup_Event E db"
      "tree_items (payload_put E db l p) = tree_items db"
    and del_payload: "payload_del E db l = (b, db') \<Longrightarrow>
      b = (payload_get E db l \<noteq> None) \<and> payload_get E db' = (payload_get E db)(l := None)"
    and del_frame: "payload_del E db l = (b, db') \<Longrightarrow> lookup_Event E db' = lookup_Event E db \<and>
      tree_items db' = tree_items db"
    and tree_insert_items: "tree_items (tree_insert E db t c i) = (tree_items db)(t := insert (c, i) (tree_items db t))"
    and tree_erase_items: "tree_items (tree_erase E db t c i) = (tree_items db)(t := tree_items db t - {(c, i)})"
    and tree_frame: "lookup_Event E (tree_insert E db t c i) = lookup_Event E db"
      "lookup_Event E (tree_erase E db t c i) = lookup_Event E db"
      "payload_get E (tree_insert E db t c i) = payload_get E db"
      "payload_get E (tree_erase E db t c i) = payload_get E db"

section \<open>An in-memory database\<close>

record mem_db =
  md_events :: "(u64 \<times> string) list"
  md_payloads :: "(u64 \<times> string) list"
  md_trees :: "(u64 \<times> u64 \<times> string) list"
  md_filters :: "(u64 \<times> string) list"
  md_counter :: u64

definition del_key :: "'k \<Rightarrow> ('k \<times> 'v) list \<Rightarrow> ('k \<times> 'v) list" where
  "del_key k xs = List.filter (\<lambda>x. fst x \<noteq> k) xs"

lemma map_of_del_key [simp]: "map_of (del_key k xs) = (map_of xs)(k := None)"
  by (induction xs) (auto simp: del_key_def)

definition mem_keys :: "'db env \<Rightarrow> lib \<Rightarrow> db_index \<Rightarrow> string \<Rightarrow> string list" where
  "mem_keys E L ix buf = (case indexPrelude E L buf of Inl _ \<Rightarrow> [] | Inr ks \<Rightarrow> ks ix)"

definition split_key :: "string \<Rightarrow> string \<times> u64" where
  "split_key k = (take (length k - 8) k, from_sv le_lib (drop (length k - 8) k))"

text \<open>The comparator: by string, then by number; by bytes for two indexes.\<close>

definition mem_rank :: "db_index \<Rightarrow> string \<Rightarrow> string \<times> u64" where
  "mem_rank ix k = (if ix \<in> {Ix_deletion, Ix_replace} then (k, 0) else split_key k)"

definition mem_key_le :: "db_index \<Rightarrow> string \<Rightarrow> string \<Rightarrow> bool" where
  "mem_key_le ix k k' \<longleftrightarrow> mem_rank ix k \<le> mem_rank ix k'"

definition mem_makeKey :: "string \<Rightarrow> u64 \<Rightarrow> string" where
  "mem_makeKey s n = s @ to_sv le_lib n"

text \<open>The keys only depend on the key constructors, so the index lists can be built from a stub.\<close>

definition key_env :: "mem_db env" where
  "key_env = \<lparr>lookup_Event = (\<lambda>_ _. None), insert_Event = (\<lambda>db _. (0, db)), delete_Event = (\<lambda>db _. db),
     foreach_Event = (\<lambda>_ _ _. []), foreachFull = (\<lambda>_ _ _ _ _. []), lookup_Event__deletion = (\<lambda>_ _. None),
     payload_get = (\<lambda>_ _. None), payload_put = (\<lambda>db _ _. db), payload_del = (\<lambda>db _. (False, db)),
     makeKey_StringUint64 = mem_makeKey, parseKey_StringUint64 = split_key,
     makeKey_Uint64Uint64 = (\<lambda>a b. to_sv le_lib a @ to_sv le_lib b),
     parseKey_Uint64Uint64 = (\<lambda>k. (from_sv le_lib (take 8 k), from_sv le_lib (drop 8 k))),
     makeKey_StringUint64Uint64 = (\<lambda>s a b. s @ to_sv le_lib a @ to_sv le_lib b),
     negentropyModificationCounter = (\<lambda>_. None), foreach_NegentropyFilter = (\<lambda>_. []),
     tree_insert = (\<lambda>db _ _ _. db), tree_erase = (\<lambda>db _ _ _. db)\<rparr>"

definition mem_distinct_events :: "mem_db \<Rightarrow> (u64 \<times> string) list" where
  "mem_distinct_events db = List.filter (\<lambda>x. map_of (md_events db) (fst x) = Some (snd x)) (md_events db)"

definition mem_entries :: "mem_db \<Rightarrow> db_index \<Rightarrow> (string \<times> u64) list" where
  "mem_entries db ix = concat (map (\<lambda>(l, buf). map (\<lambda>k. (k, l)) (mem_keys key_env le_lib ix buf))
     (mem_distinct_events db))"

definition mem_pos :: "db_index \<Rightarrow> string \<times> u64 \<Rightarrow> (string \<times> u64) \<times> u64" where
  "mem_pos ix x = (mem_rank ix (fst x), snd x)"

definition mem_scan :: "mem_db \<Rightarrow> db_index \<Rightarrow> string \<Rightarrow> u64 \<Rightarrow> bool \<Rightarrow> (string \<times> u64) list" where
  "mem_scan db ix k v bwd =
     (let xs = sort_key (mem_pos ix) (remdups (mem_entries db ix))
      in if bwd then rev (List.filter (\<lambda>x. mem_pos ix x \<le> mem_pos ix (k, v)) xs)
         else List.filter (\<lambda>x. mem_pos ix (k, v) \<le> mem_pos ix x) xs)"

definition mem_foreach :: "mem_db \<Rightarrow> bool \<Rightarrow> u64 option \<Rightarrow> (u64 \<times> string) list" where
  "mem_foreach db bwd start =
     (let xs = sort_key fst (remdups (mem_distinct_events db));
          ys = (case start of None \<Rightarrow> xs | Some s \<Rightarrow> List.filter (\<lambda>x. if bwd then fst x \<le> s else s \<le> fst x) xs)
      in if bwd then rev ys else ys)"

definition mem_insert :: "mem_db \<Rightarrow> string \<Rightarrow> u64 \<times> mem_db" where
  "mem_insert db buf =
     (let l = of_nat (Suc (Max (insert 0 (unat ` fst ` set (md_events db)))))
      in (l, db\<lparr>md_events := (l, buf) # md_events db\<rparr>))"

definition mem_env :: "mem_db env" where
  "mem_env = key_env\<lparr>
     lookup_Event := (\<lambda>db. map_of (md_events db)),
     insert_Event := mem_insert,
     delete_Event := (\<lambda>db l. db\<lparr>md_events := del_key l (md_events db)\<rparr>),
     foreach_Event := mem_foreach,
     foreachFull := mem_scan,
     lookup_Event__deletion := (\<lambda>db k. map_of (mem_entries db Ix_deletion) k),
     payload_get := (\<lambda>db. map_of (md_payloads db)),
     payload_put := (\<lambda>db l p. db\<lparr>md_payloads := (l, p) # md_payloads db\<rparr>),
     payload_del := (\<lambda>db l. (map_of (md_payloads db) l \<noteq> None, db\<lparr>md_payloads := del_key l (md_payloads db)\<rparr>)),
     negentropyModificationCounter := (\<lambda>db. Some (md_counter db)),
     foreach_NegentropyFilter := md_filters,
     tree_insert := (\<lambda>db t c i. db\<lparr>md_trees := (t, c, i) # md_trees db\<rparr>),
     tree_erase := (\<lambda>db t c i. db\<lparr>md_trees := List.filter (\<lambda>x. x \<noteq> (t, c, i)) (md_trees db)\<rparr>)\<rparr>"

definition mem_tree_items :: "mem_db \<Rightarrow> u64 \<Rightarrow> (u64 \<times> string) set" where
  "mem_tree_items db t = {ci. (t, ci) \<in> set (md_trees db)}"

lemma mem_env_keys:
  "makeKey_StringUint64 mem_env = mem_makeKey" "makeKey_StringUint64 key_env = mem_makeKey"
  "makeKey_Uint64Uint64 mem_env = makeKey_Uint64Uint64 key_env"
  "makeKey_StringUint64Uint64 mem_env = makeKey_StringUint64Uint64 key_env"
  by (simp_all add: mem_env_def key_env_def)

lemma indexPrelude_key_env: "indexPrelude mem_env L buf = indexPrelude key_env L buf"
proof -
  have "index_tag mem_env L p = index_tag key_env L p" for p
    unfolding index_tag_def mem_env_keys ..
  then show ?thesis by (simp only: indexPrelude_def mem_env_keys)
qed

lemma mem_distinct: "x \<in> set (mem_distinct_events db) \<longleftrightarrow> map_of (md_events db) (fst x) = Some (snd x)"
  unfolding mem_distinct_events_def by (cases x) (auto dest: map_of_SomeD)

lemma mem_entries_index: "set (mem_entries db ix) = index_entries mem_env le_lib db ix"
proof -
  have "(k, l) \<in> set (mem_entries db ix) \<longleftrightarrow>
      (\<exists>buf. map_of (md_events db) l = Some buf \<and> k \<in> set (mem_keys key_env le_lib ix buf))" for k l
    unfolding mem_entries_def using mem_distinct [of _ db] by (auto simp: image_iff)
  moreover have "k \<in> set (mem_keys key_env le_lib ix buf) \<longleftrightarrow>
      (\<exists>ks. indexPrelude mem_env le_lib buf = Inr ks \<and> k \<in> set (ks ix))" for k buf
    unfolding indexPrelude_key_env by (cases "indexPrelude key_env le_lib buf") (simp_all add: mem_keys_def)
  moreover have "lookup_Event mem_env db = map_of (md_events db)"
    by (simp add: mem_env_def)
  ultimately show ?thesis
    by (auto simp: index_entries_def)
qed

lemma mem_pos_le: "pos_le mem_key_le ix a b \<longleftrightarrow> mem_pos ix a \<le> mem_pos ix b"
proof -
  have "(p, x) \<le> (q, y) \<longleftrightarrow> p \<le> q \<and> (q \<le> p \<longrightarrow> x \<le> y)" for p q :: "string \<times> u64" and x y :: u64
    unfolding less_eq_prod_simp by (meson leD leI less_imp_le)
  then show ?thesis by (simp only: pos_le_def mem_key_le_def mem_pos_def)
qed

lemma sorted_filter_key: "sorted_wrt (\<lambda>a b. f a \<le> f b) (List.filter P (sort_key f xs))"
proof -
  have "sorted (map f (List.filter P (sort_key f xs)))" by (simp add: sorted_filter)
  then show ?thesis by (simp add: sorted_map)
qed

lemma split_mem_makeKey: "split_key (mem_makeKey s n) = (s, n)"
  by (simp add: split_key_def mem_makeKey_def)

lemma mem_env_sel [simp]:
  "lookup_Event mem_env db = map_of (md_events db)"
  "insert_Event mem_env = mem_insert"
  "delete_Event mem_env db l = db\<lparr>md_events := del_key l (md_events db)\<rparr>"
  "foreachFull mem_env = mem_scan"
  "foreach_Event mem_env = mem_foreach"
  "lookup_Event__deletion mem_env db k = map_of (mem_entries db Ix_deletion) k"
  "payload_get mem_env db = map_of (md_payloads db)"
  "payload_put mem_env db l p = db\<lparr>md_payloads := (l, p) # md_payloads db\<rparr>"
  "payload_del mem_env db l = (map_of (md_payloads db) l \<noteq> None, db\<lparr>md_payloads := del_key l (md_payloads db)\<rparr>)"
  "makeKey_StringUint64 mem_env = mem_makeKey"
  "parseKey_StringUint64 mem_env = split_key"
  "tree_insert mem_env db t c i = db\<lparr>md_trees := (t, c, i) # md_trees db\<rparr>"
  "tree_erase mem_env db t c i = db\<lparr>md_trees := List.filter (\<lambda>x. x \<noteq> (t, c, i)) (md_trees db)\<rparr>"
  "negentropyModificationCounter mem_env db = Some (md_counter db)"
  "foreach_NegentropyFilter mem_env = md_filters"
  by (simp_all add: mem_env_def key_env_def)

lemma mem_foreach_sorted: "sorted_wrt (\<lambda>x y. fst x < fst y) (mem_foreach db False start)"
proof -
  let ?xs = "sort_key fst (remdups (mem_distinct_events db))"
  have "inj_on fst (set (mem_distinct_events db))"
    by (rule inj_onI) (auto simp: mem_distinct prod_eq_iff)
  then have "distinct (map fst ?xs)" by (simp add: distinct_map)
  moreover have "sorted (map fst ?xs)" by simp
  ultimately have "sorted_wrt (<) (map fst ?xs)" by (simp only: strict_sorted_iff)
  then have "sorted_wrt (\<lambda>x y. fst x < fst y) ?xs" by (simp add: sorted_wrt_map)
  then show ?thesis by (simp add: mem_foreach_def Let_def sorted_wrt_filter split: option.split)
qed

interpretation mem: event_env le_lib mem_env mem_key_le mem_tree_items
proof
  fix s :: string and n :: u64
  show "makeKey_StringUint64 mem_env s n = s @ to_sv le_lib n"
    by (simp add: mem_makeKey_def)
  show "parseKey_StringUint64 mem_env (makeKey_StringUint64 mem_env s n) = (s, n)"
    by (simp add: split_mem_makeKey)
next
  fix s s' :: string and n n' :: u64
  show "mem_key_le Ix_id (makeKey_StringUint64 mem_env s n) (makeKey_StringUint64 mem_env s' n') \<longleftrightarrow>
      s < s' \<or> s = s' \<and> n \<le> n'"
    by (auto simp: mem_key_le_def mem_rank_def split_mem_makeKey order_le_less)
next
  fix k k' :: string
  show "mem_key_le Ix_replace k k' \<longleftrightarrow> k \<le> k'"
    by (auto simp: mem_key_le_def mem_rank_def less_eq_prod_def)
next
  fix db :: mem_db and ix k v
  show "set (foreachFull mem_env db ix k v False) =
      {x \<in> index_entries mem_env le_lib db ix. pos_le mem_key_le ix (k, v) x}"
    by (simp add: mem_scan_def Let_def mem_entries_index mem_pos_le)
  show "set (foreachFull mem_env db ix k v True) =
      {x \<in> index_entries mem_env le_lib db ix. pos_le mem_key_le ix x (k, v)}"
    by (simp add: mem_scan_def Let_def mem_entries_index mem_pos_le)
  have "pos_le mem_key_le ix = (\<lambda>a b. mem_pos ix a \<le> mem_pos ix b)"
    by (intro ext) (rule mem_pos_le)
  then show "sorted_wrt (pos_le mem_key_le ix) (foreachFull mem_env db ix k v False)"
    by (simp add: mem_scan_def Let_def sorted_filter_key)
  show "sorted_wrt (\<lambda>x y. pos_le mem_key_le ix y x) (foreachFull mem_env db ix k v True)"
    by (simp add: mem_scan_def Let_def mem_pos_le sorted_filter_key sorted_wrt_rev)
next
  fix db :: mem_db and k
  show "lookup_Event__deletion mem_env db k \<noteq> None \<longleftrightarrow>
      (\<exists>l. (k, l) \<in> index_entries mem_env le_lib db Ix_deletion)"
    unfolding mem_entries_index [symmetric] by (force simp: map_of_eq_None_iff)
next
  fix db db' :: mem_db and buf l
  assume ins: "insert_Event mem_env db buf = (l, db')"
  have max: "lev_max mem_env db = Max (insert 0 (unat ` fst ` set (md_events db)))"
    unfolding lev_max_def mem_env_sel dom_map_of_conv_image_fst ..
  have "l = of_nat (Suc (lev_max mem_env db))"
    using ins unfolding max by (simp add: mem_insert_def Let_def)
  then show "unat l = Suc (lev_max mem_env db)" if "Suc (lev_max mem_env db) < 2 ^ 64"
    using that by (simp only: unat_of_nat) simp
  show "lookup_Event mem_env db' = (lookup_Event mem_env db)(l \<mapsto> buf)"
    using ins by (auto simp: mem_insert_def Let_def)
  show "payload_get mem_env db' = payload_get mem_env db \<and> mem_tree_items db' = mem_tree_items db"
    using ins by (auto simp: mem_insert_def Let_def mem_tree_items_def fun_eq_iff)
next
  fix db :: mem_db and start
  show "set (foreach_Event mem_env db False start) =
      {(l, buf). lookup_Event mem_env db l = Some buf \<and> (\<forall>s. start = Some s \<longrightarrow> s \<le> l)}"
    by (auto simp: mem_foreach_def Let_def mem_distinct split: option.splits)
  show "sorted_wrt (\<lambda>x y. fst x < fst y) (foreach_Event mem_env db False start)"
    by (simp add: mem_foreach_sorted)
  show "foreach_Event mem_env db True None = rev (foreach_Event mem_env db False None)"
    by (simp add: mem_foreach_def Let_def)
next
  fix t t' :: u64
  show "mem_key_le Ix_expiration (to_sv le_lib t) (to_sv le_lib t') \<longleftrightarrow> t \<le> t'"
    using split_mem_makeKey [of "[]" t] split_mem_makeKey [of "[]" t']
    by (simp add: mem_key_le_def mem_rank_def mem_makeKey_def less_eq_prod_simp)
next
  fix db :: mem_db
  show "finite (dom (lookup_Event mem_env db))" by (simp add: finite_dom_map_of)
qed (auto simp: mem_tree_items_def fun_eq_iff split: if_splits)

end
