(* ===== verification/Event_Write.thy ===== *)
theory Event_Write
  imports Event_Store
begin

text \<open>
  What \<^verbatim>\<open>writeEvents\<close> and \<^verbatim>\<open>deleteEvents\<close> promise: an abstract store, a finite map from
  levIds to events, the rule by which one event is written to it, and the proof that the
  detailed operations on the database implement that rule and keep the store consistent.
\<close>

type_synonym store = "u64 \<Rightarrow> event option"

section \<open>The abstract store\<close>

definition first_d :: "event \<Rightarrow> string option" where
  "first_d e = map_option snd (List.find (\<lambda>t. fst t = CHR ''d'') (ev_tags e))"

text \<open>Two events compete for one place: the same author, replaceable kind and \<^verbatim>\<open>d\<close> tag.\<close>

definition same_slot :: "event \<Rightarrow> event \<Rightarrow> bool" where
  "same_slot e e' \<longleftrightarrow> (isReplaceableKind (ev_kind e) \<or> isParamReplaceableKind (ev_kind e)) \<and>
     ev_kind e = ev_kind e' \<and> ev_pubkey e = ev_pubkey e' \<and> first_d e \<noteq> None \<and> first_d e = first_d e'"

text \<open>NIP-01: the later event wins, and of two at the same time the one with the lower id.\<close>

definition beats :: "event \<Rightarrow> event \<Rightarrow> bool" where
  "beats e e' \<longleftrightarrow> ev_created_at e' < ev_created_at e \<or>
     (ev_created_at e' = ev_created_at e \<and> ev_id e < ev_id e')"

text \<open>NIP-09: a deletion event removes the events of its own author that it names.\<close>

definition deletes :: "event \<Rightarrow> event \<Rightarrow> bool" where
  "deletes d e \<longleftrightarrow> ev_kind d = 5 \<and> (CHR ''e'', ev_id e) \<in> set (ev_tags d) \<and> ev_pubkey d = ev_pubkey e"

definition has_id :: "store \<Rightarrow> string \<Rightarrow> bool" where
  "has_id M i \<longleftrightarrow> (\<exists>l e. M l = Some e \<and> ev_id e = i)"

definition spec_status :: "store \<Rightarrow> string option \<Rightarrow> event \<Rightarrow> write_status" where
  "spec_status M prev e =
     (if has_id M (ev_id e) \<or> prev = Some (ev_id e) then Duplicate
      else if \<exists>l d. M l = Some d \<and> deletes d e then Deleted
      else if \<exists>l e'. M l = Some e' \<and> same_slot e e' \<and> \<not> beats e e' then Replaced
      else Written)"

definition victims :: "store \<Rightarrow> event \<Rightarrow> u64 set" where
  "victims M e = {l. \<exists>e'. M l = Some e' \<and> (same_slot e e' \<or> deletes e e')}"

definition spec_write :: "u64 \<Rightarrow> store \<Rightarrow> event \<Rightarrow> store" where
  "spec_write lev M e = (M |` (- victims M e))(lev \<mapsto> e)"

text \<open>
  Consistency: well-formed events, each id once, each place taken once, and no event beside
  a deletion event that names it.
\<close>

definition consistent :: "store \<Rightarrow> bool" where
  "consistent M \<longleftrightarrow> (\<forall>l e. M l = Some e \<longrightarrow> wf_event e) \<and>
     (\<forall>l l' e e'. M l = Some e \<longrightarrow> M l' = Some e' \<longrightarrow>
        (ev_id e = ev_id e' \<or> same_slot e e' \<or> deletes e e') \<longrightarrow> l = l')"

lemma consistentD:
  "consistent M \<Longrightarrow> M l = Some e \<Longrightarrow> wf_event e"
  "consistent M \<Longrightarrow> M l = Some e \<Longrightarrow> M l' = Some e' \<Longrightarrow>
     ev_id e = ev_id e' \<or> same_slot e e' \<or> deletes e e' \<Longrightarrow> l = l'"
  unfolding consistent_def by blast+

lemma same_slot_sym: "same_slot e e' \<Longrightarrow> same_slot e' e"
  unfolding same_slot_def by (elim conjE) (metis (no_types))

lemma same_slot_trans:
  assumes "same_slot e e'" "same_slot e' e''"
  shows "same_slot e e''"
proof -
  have eqs: "ev_kind e' = ev_kind e''" "ev_pubkey e' = ev_pubkey e''" "first_d e' = first_d e''"
    using assms(2) unfolding same_slot_def by blast+
  from assms(1) show ?thesis unfolding same_slot_def eqs .
qed

lemma consistent_submap: "consistent M \<Longrightarrow> M' \<subseteq>\<^sub>m M \<Longrightarrow> consistent M'"
  unfolding consistent_def map_le_def by (metis domI)

lemma consistent_spec_write:
  assumes "consistent M" "wf_event e" "M lev = None" "spec_status M prev e = Written"
  shows "consistent (spec_write lev M e)"
proof -
  have fresh: "ev_id e' \<noteq> ev_id e" "\<not> deletes e' e" if "M l = Some e'" for l e'
    using assms(4) that by (auto simp: spec_status_def has_id_def split: if_splits)
  have old: "spec_write lev M e l = Some e' \<Longrightarrow> l \<noteq> lev \<Longrightarrow>
      M l = Some e' \<and> \<not> same_slot e e' \<and> \<not> deletes e e'" for l e'
    by (auto simp: spec_write_def restrict_map_def victims_def split: if_splits)
  have new: "spec_write lev M e lev = Some e" by (simp add: spec_write_def)
  show ?thesis
    unfolding consistent_def
  proof (intro conjI allI impI)
    fix l e' assume "spec_write lev M e l = Some e'"
    then show "wf_event e'"
      using old [of l e'] new assms(2) consistentD(1) [OF assms(1)] by (cases "l = lev") auto
  next
    fix l l' a b
    assume a: "spec_write lev M e l = Some a" and b: "spec_write lev M e l' = Some b"
      and rel: "ev_id a = ev_id b \<or> same_slot a b \<or> deletes a b"
    show "l = l'"
    proof (cases "l = lev"; cases "l' = lev")
      assume "l \<noteq> lev" "l' \<noteq> lev"
      with old [OF a] old [OF b] rel show ?thesis using consistentD(2) [OF assms(1)] by blast
    next
      assume "l = lev" "l' \<noteq> lev"
      with old [OF b] fresh(1) [of l' b] a new rel show ?thesis by auto
    next
      assume "l \<noteq> lev" "l' = lev"
      with old [OF a] fresh [of l a] b new rel same_slot_sym show ?thesis by fastforce
    qed simp
  qed
qed

text \<open>A batch, each event with the levId it gets if it is written.\<close>

fun spec_run :: "store \<Rightarrow> string option \<Rightarrow> (event \<times> u64) list \<Rightarrow> write_status list \<times> store" where
  "spec_run M prev [] = ([], M)"
| "spec_run M prev ((e, lev) # es) =
     (let st = spec_status M prev e;
          M1 = (if st = Written then spec_write lev M e else M);
          (sts, M2) = spec_run M1 (Some (ev_id e)) es
      in (st # sts, M2))"

text \<open>What a batch removes, it removes for an event of the same author.\<close>

lemma spec_run_removes_at:
  assumes "spec_run M prev es = (sts, M')" "M l = Some e" "M' l = None"
    and "list_all2 (\<lambda>p st. st = Written \<longrightarrow> snd p \<noteq> l) es sts"
  shows "\<exists>j<length es. sts ! j = Written \<and> ((same_slot (fst (es ! j)) e \<and> beats (fst (es ! j)) e) \<or> deletes (fst (es ! j)) e)"
  using assms
proof (induction es arbitrary: M prev sts)
  case Nil
  then show ?case by simp
next
  case (Cons p es)
  obtain e1 lev where p: "p = (e1, lev)" by (cases p)
  let ?st = "spec_status M prev e1"
  let ?M1 = "if ?st = Written then spec_write lev M e1 else M"
  obtain sts1 where run: "spec_run ?M1 (Some (ev_id e1)) es = (sts1, M')" "sts = ?st # sts1"
    using Cons.prems(1) by (auto simp: p Let_def split: prod.splits)
  show ?case
  proof (cases "?M1 l = Some e")
    case True
    have "list_all2 (\<lambda>p st. st = Written \<longrightarrow> snd p \<noteq> l) es sts1" using Cons.prems(4) run(2) by simp
    from Cons.IH [OF run(1) True Cons.prems(3) this] obtain j where
      "j < length es" "sts1 ! j = Written" "(same_slot (fst (es ! j)) e \<and> beats (fst (es ! j)) e) \<or> deletes (fst (es ! j)) e" by blast
    then show ?thesis by (intro exI [of _ "Suc j"]) (simp add: run(2))
  next
    case False
    then have st: "?st = Written" using Cons.prems(2) by (auto split: if_splits)
    then have "lev \<noteq> l" using Cons.prems(4) run(2) p by simp
    with False st Cons.prems(2) have "l \<in> victims M e1"
      by (auto simp: spec_write_def restrict_map_def split: if_splits)
    then have "same_slot e1 e \<or> deletes e1 e" using Cons.prems(2) by (simp add: victims_def)
    moreover have "same_slot e1 e \<Longrightarrow> beats e1 e"
      using st Cons.prems(2) by (auto simp: spec_status_def split: if_splits)
    ultimately show ?thesis using st by (intro exI [of _ 0]) (auto simp: p run(2))
  qed
qed

lemma spec_run_removes:
  assumes "spec_run M prev es = (sts, M')" "M l = Some e" "M' l = None"
    and "list_all2 (\<lambda>p st. st = Written \<longrightarrow> snd p \<noteq> l) es sts"
  shows "\<exists>p\<in>set es. (same_slot (fst p) e \<and> beats (fst p) e) \<or> deletes (fst p) e"
  using spec_run_removes_at [OF assms] by (metis nth_mem)

text \<open>The same for an event that the batch itself wrote: one that was written after it displaced it.\<close>

lemma spec_run_removed_later:
  assumes "spec_run M prev es = (sts, M')" "length sts = length es" "n < length es" "sts ! n = Written" "M' (snd (es ! n)) = None"
    and "\<forall>j<length es. \<forall>k<length es. sts ! j = Written \<longrightarrow> sts ! k = Written \<longrightarrow> snd (es ! j) = snd (es ! k) \<longrightarrow> j = k"
  shows "\<exists>j<length es. n < j \<and> sts ! j = Written \<and>
    ((same_slot (fst (es ! j)) (fst (es ! n)) \<and> beats (fst (es ! j)) (fst (es ! n))) \<or> deletes (fst (es ! j)) (fst (es ! n)))"
  using assms
proof (induction es arbitrary: M prev sts n)
  case (Cons p es)
  obtain e1 lev where p: "p = (e1, lev)" by (cases p)
  let ?st = "spec_status M prev e1"
  let ?M1 = "if ?st = Written then spec_write lev M e1 else M"
  obtain sts1 where run: "spec_run ?M1 (Some (ev_id e1)) es = (sts1, M')" "sts = ?st # sts1"
    using Cons.prems(1) by (auto simp: p Let_def split: prod.splits)
  have len: "length sts1 = length es" using Cons.prems(2) by (simp add: run(2))
  have uniq: "\<forall>j<length es. \<forall>k<length es. sts1 ! j = Written \<longrightarrow> sts1 ! k = Written \<longrightarrow> snd (es ! j) = snd (es ! k) \<longrightarrow> j = k"
  proof (intro allI impI)
    fix j k assume "j < length es" "k < length es" "sts1 ! j = Written" "sts1 ! k = Written" "snd (es ! j) = snd (es ! k)"
    then show "j = k" using Cons.prems(6) [rule_format, of "Suc j" "Suc k"] by (simp add: run(2))
  qed
  show ?case
  proof (cases n)
    case 0
    then have st: "?st = Written" "M' lev = None" using Cons.prems(4,5) by (simp_all add: run(2) p)
    then have "?M1 lev = Some e1" by (simp add: spec_write_def)
    moreover have "snd (es ! j) \<noteq> lev" if "j < length es" "sts1 ! j = Written" for j
      using Cons.prems(6) [rule_format, of "Suc j" 0] that st(1) by (auto simp: run(2) p)
    then have "list_all2 (\<lambda>p st. st = Written \<longrightarrow> snd p \<noteq> lev) es sts1" using len by (simp add: list_all2_conv_all_nth)
    ultimately obtain j where "j < length es" "sts1 ! j = Written" "(same_slot (fst (es ! j)) e1 \<and> beats (fst (es ! j)) e1) \<or> deletes (fst (es ! j)) e1"
      using spec_run_removes_at [OF run(1) _ st(2)] by blast
    then show ?thesis by (intro exI [of _ "Suc j"]) (simp add: 0 run(2) p)
  next
    case (Suc m)
    have "m < length es" "sts1 ! m = Written" "M' (snd (es ! m)) = None" using Cons.prems(3-5) by (simp_all add: Suc run(2))
    from Cons.IH [OF run(1) len this uniq] obtain j where "j < length es" "m < j" "sts1 ! j = Written"
      "(same_slot (fst (es ! j)) (fst (es ! m)) \<and> beats (fst (es ! j)) (fst (es ! m))) \<or> deletes (fst (es ! j)) (fst (es ! m))" by blast
    then show ?thesis by (intro exI [of _ "Suc j"]) (simp add: Suc run(2))
  qed
qed simp

lemma distinct_filter_nth:
  "distinct (map f (List.filter Q xs)) \<Longrightarrow> i < length xs \<Longrightarrow> j < length xs \<Longrightarrow> Q (xs ! i) \<Longrightarrow> Q (xs ! j) \<Longrightarrow>
   f (xs ! i) = f (xs ! j) \<Longrightarrow> i = j"
proof (induction xs arbitrary: i j)
  case (Cons x xs)
  have "f x \<noteq> f (xs ! k) \<and> f (xs ! k) \<noteq> f x" if "Q x" "k < length xs" "Q (xs ! k)" for k
  proof -
    have "f (xs ! k) \<in> f ` {x \<in> set xs. Q x}" using that by auto
    then show ?thesis using Cons.prems(1) that(1) by auto
  qed
  with Cons show ?case by (cases i; cases j) (auto split: if_splits)
qed simp

definition unique_ids :: "store \<Rightarrow> bool" where
  "unique_ids M \<longleftrightarrow> (\<forall>l l' e e'. M l = Some e \<longrightarrow> M l' = Some e' \<longrightarrow> ev_id e = ev_id e' \<longrightarrow> l = l')"

lemma consistent_unique_ids: "consistent M \<Longrightarrow> unique_ids M"
  unfolding unique_ids_def using consistentD(2) by blast

section \<open>The database holds the store\<close>

definition tree_of :: "nostr_filter \<Rightarrow> store \<Rightarrow> (u64 \<times> string) set" where
  "tree_of f M = {ci. \<exists>l e. M l = Some e \<and> nf_matches f e \<and> ci = (ev_created_at e, ev_id e)}"

definition holds :: "'db env \<Rightarrow> lib \<Rightarrow> ('db \<Rightarrow> u64 \<Rightarrow> (u64 \<times> string) set) \<Rightarrow> (nostr_filter \<times> u64) list \<Rightarrow>
    'db \<Rightarrow> store \<Rightarrow> bool" where
  "holds E L tree_items fs db M \<longleftrightarrow>
     lookup_Event E db = (\<lambda>l. map_option (pack_event L) (M l)) \<and> (\<forall>l e. M l = Some e \<longrightarrow> wf_event e) \<and>
     dom (payload_get E db) = dom M \<and> distinct (map snd fs) \<and>
     (\<forall>f t. (f, t) \<in> set fs \<longrightarrow> tree_items db t = tree_of f M)"

text \<open>References of a deletion event are ids: 32 bytes, as \<^verbatim>\<open>nostrJsonToPackedEvent\<close> packs them.\<close>

definition full_refs :: "event \<Rightarrow> bool" where
  "full_refs e \<longleftrightarrow> (\<forall>v. (CHR ''e'', v) \<in> set (ev_tags e) \<longrightarrow> length v = 32)"

lemma foldl_index_tag:
  "foldl (\<lambda>s t. fst (index_tag E L p s (fst t) (snd t))) (tag, rep, del) ts =
     (tag @ map (\<lambda>t. makeKey_StringUint64 E (fst t # snd t) (packed_created_at L p)) ts,
      (if rep \<noteq> [] then rep else (case List.find (\<lambda>t. fst t = CHR ''d'') ts of None \<Rightarrow> []
         | Some t \<Rightarrow> [makeKey_StringUint64 E (packed_pubkey p @ snd t) (packed_kind L p)])),
      del @ (if packed_kind L p = 5 then map (\<lambda>t. snd t @ packed_pubkey p) (List.filter (\<lambda>t. fst t = CHR ''e'') ts) else []))"
  by (induction ts arbitrary: tag rep del) (auto simp: index_tag_def Let_def)

lemma index_tag_goes_on: "snd (index_tag E L p s c v)"
  by (auto simp: index_tag_def Let_def split: prod.splits)

lemma find_first_d:
  "fold_until (\<lambda>r t. if fst t \<noteq> CHR ''d'' then (r, True) else (Some (snd t), False)) ts None =
     map_option snd (List.find (\<lambda>t. fst t = CHR ''d'') ts)"
  by (induction ts) auto

text \<open>The keys of an event under every index, read off the event.\<close>

definition event_keys :: "'db env \<Rightarrow> lib \<Rightarrow> event \<Rightarrow> db_index \<Rightarrow> string list" where
  "event_keys E L e ix = (case ix of
       Ix_created_at \<Rightarrow> [to_sv L (ev_created_at e)]
     | Ix_id \<Rightarrow> [makeKey_StringUint64 E (ev_id e) (ev_created_at e)]
     | Ix_pubkey \<Rightarrow> [makeKey_StringUint64 E (ev_pubkey e) (ev_created_at e)]
     | Ix_kind \<Rightarrow> [makeKey_Uint64Uint64 E (ev_kind e) (ev_created_at e)]
     | Ix_pubkeyKind \<Rightarrow> [makeKey_StringUint64Uint64 E (ev_pubkey e) (ev_kind e) (ev_created_at e)]
     | Ix_tag \<Rightarrow> map (\<lambda>t. makeKey_StringUint64 E (fst t # snd t) (ev_created_at e)) (ev_tags e)
     | Ix_deletion \<Rightarrow> (if ev_kind e = 5 then
         map (\<lambda>t. snd t @ ev_pubkey e) (List.filter (\<lambda>t. fst t = CHR ''e'') (ev_tags e)) else [])
     | Ix_expiration \<Rightarrow> (if ev_expiration e \<noteq> 0 then [to_sv L (ev_expiration e)] else [])
     | Ix_replace \<Rightarrow> (case first_d e of None \<Rightarrow> []
         | Some v \<Rightarrow> [makeKey_StringUint64 E (ev_pubkey e @ v) (ev_kind e)]))"

definition tree_put :: "bool \<Rightarrow> 'a \<Rightarrow> 'a set \<Rightarrow> 'a set" where
  "tree_put ins ci X = (if ins then insert ci X else X - {ci})"

lemma tree_put_idem: "tree_put ins ci (tree_put ins ci X) = tree_put ins ci X"
  by (simp add: tree_put_def)

lemma distinct_snd_inj: "distinct (map snd xs) \<Longrightarrow> (a, t) \<in> set xs \<Longrightarrow> (b, t) \<in> set xs \<Longrightarrow> a = b"
  by (induction xs) (auto simp: image_iff)

lemma if_idem:
  "F (F X) = F X \<Longrightarrow> (if P then F (if R then F X else X) else if R then F X else X) = (if R \<or> P then F X else X)"
  by simp

definition collect_ref :: "'db env \<Rightarrow> 'db \<Rightarrow> string \<Rightarrow> u64 list result \<Rightarrow> char \<times> string \<Rightarrow> u64 list result" where
  "collect_ref E db pk acc t = (if fst t = CHR ''e'' then
     (case lookupEventById E db (snd t) of
        Some otherEv \<Rightarrow> bindE acc (\<lambda>ids. bindE (PackedEventView (snd otherEv)) (\<lambda>other.
          Inr (if packed_pubkey other = pk then ids @ [fst otherEv] else ids)))
      | None \<Rightarrow> acc) else acc)"

text \<open>What writing one event must have done: the claim of \<open>write_one_correct\<close> below.\<close>

definition write_ok where
  "write_ok E L tree_items fs M prev e ev db ev' db' \<longleftrightarrow>
     ew_status ev' = spec_status M prev e \<and> ew_packedStr ev' = pack_event L e \<and>
     ew_jsonStr ev' = ew_jsonStr ev \<and> ew_userData ev' = ew_userData ev \<and> lev_max E db' \<le> Suc (lev_max E db) \<and>
     (if ew_status ev' = Written then
       unat (ew_levId ev') = Suc (lev_max E db) \<and> M (ew_levId ev') = None \<and>
       holds E L tree_items fs db' (spec_write (ew_levId ev') M e) \<and>
       payload_get E db' (ew_levId ev') = Some (CHR 0x00 # ew_jsonStr ev) \<and>
       (\<forall>l. l \<notin> victims M e \<longrightarrow> l \<noteq> ew_levId ev' \<longrightarrow> payload_get E db' l = payload_get E db l)
     else db' = db \<and> ew_levId ev' = ew_levId ev)"

text \<open>An event with its JSON text and its user data, as the caller of \<^verbatim>\<open>writeEvents\<close> hands it over.\<close>

definition to_write :: "lib \<Rightarrow> event \<times> string \<times> nat option \<Rightarrow> event_to_write" where
  "to_write L x = EventToWrite (pack_event L (fst x)) (fst (snd x)) (snd (snd x))"

lemma to_write_sel [simp]:
  "ew_packedStr (to_write L x) = pack_event L (fst x)" "ew_jsonStr (to_write L x) = fst (snd x)"
  "ew_userData (to_write L x) = snd (snd x)" "ew_status (to_write L x) = Pending" "ew_levId (to_write L x) = 0"
  by (simp_all add: to_write_def EventToWrite_def)

text \<open>The order in which a batch is written: by time, then by id.\<close>

definition batch_order :: "(event \<times> 'a) list \<Rightarrow> (event \<times> 'a) list" where
  "batch_order xs = sort_key (\<lambda>x. (ev_created_at (fst x), ev_id (fst x))) xs"

lemma insort_key_map: "insort_key f (g x) (map g xs) = map g (insort_key (\<lambda>x. f (g x)) x xs)"
  by (induction xs) auto

lemma sort_key_map: "sort_key f (map g xs) = map g (sort_key (\<lambda>x. f (g x)) xs)"
  by (induction xs) (simp_all add: insort_key_map)

lemma insort_key_cong:
  "f x = g x \<Longrightarrow> (\<And>y. y \<in> set xs \<Longrightarrow> f y = g y) \<Longrightarrow> insort_key f x xs = insort_key g x xs"
  by (induction xs) auto

lemma sort_key_cong: "(\<And>y. y \<in> set xs \<Longrightarrow> f y = g y) \<Longrightarrow> sort_key f xs = sort_key g xs"
  by (induction xs) (auto intro!: insort_key_cong)

text \<open>A levId below the new ones keeps its event and its JSON text, or is emptied.\<close>

definition kept :: "'db env \<Rightarrow> 'db \<Rightarrow> store \<Rightarrow> 'db \<Rightarrow> store \<Rightarrow> bool" where
  "kept E db M db' M' \<longleftrightarrow> lev_max E db \<le> lev_max E db' \<and>
     (\<forall>l. unat l \<le> lev_max E db \<longrightarrow> M' l = None \<or> M' l = M l \<and> payload_get E db' l = payload_get E db l)"

text \<open>A written event has a levId of its own and is there with its JSON text, unless a later one removed it.\<close>

definition stored :: "'db env \<Rightarrow> 'db \<Rightarrow> 'db \<Rightarrow> store \<Rightarrow> event \<times> string \<times> nat option \<Rightarrow> event_to_write \<Rightarrow> bool" where
  "stored E db db' M' x ev \<longleftrightarrow> lev_max E db < unat (ew_levId ev) \<and> unat (ew_levId ev) \<le> lev_max E db' \<and>
     (M' (ew_levId ev) = None \<or>
      M' (ew_levId ev) = Some (fst x) \<and> payload_get E db' (ew_levId ev) = Some (CHR 0x00 # fst (snd x)))"

lemma kept_refl: "kept E db M db M"
  unfolding kept_def by auto

lemma kept_trans:
  assumes "kept E db M db1 M1" "kept E db1 M1 db2 M2"
  shows "kept E db M db2 M2"
proof -
  have "M2 l = None \<or> M2 l = M l \<and> payload_get E db2 l = payload_get E db l" if l: "unat l \<le> lev_max E db" for l
  proof -
    have "M1 l = None \<or> M1 l = M l \<and> payload_get E db1 l = payload_get E db l"
      using assms(1) l unfolding kept_def by blast
    moreover have "M2 l = None \<or> M2 l = M1 l \<and> payload_get E db2 l = payload_get E db1 l"
      using assms l unfolding kept_def by (meson order_trans)
    ultimately show ?thesis by fastforce
  qed
  with assms show ?thesis unfolding kept_def by (meson order_trans)
qed

lemma stored_kept:
  assumes "stored E db db1 M1 x ev" "kept E db1 M1 db2 M2"
  shows "stored E db db2 M2 x ev"
proof -
  have "M2 (ew_levId ev) = None \<or> M2 (ew_levId ev) = M1 (ew_levId ev) \<and>
      payload_get E db2 (ew_levId ev) = payload_get E db1 (ew_levId ev)"
    using assms unfolding kept_def stored_def by blast
  with assms show ?thesis unfolding stored_def kept_def by (elim conjE disjE) auto
qed

lemma stored_later: "stored E db1 db2 M2 x ev \<Longrightarrow> kept E db M db1 M1 \<Longrightarrow> stored E db db2 M2 x ev"
  unfolding stored_def kept_def by auto

context event_env
begin

lemma indexPrelude_event:
  assumes "wf_event e"
  shows "indexPrelude E L (pack_event L e) = Inr (event_keys E L e)"
proof -
  let ?p = "pack_event L e"
  have fold: "fold_until (\<lambda>s t. index_tag E L ?p s (fst t) (snd t)) (ev_tags e) st =
      foldl (\<lambda>s t. fst (index_tag E L ?p s (fst t) (snd t))) st (ev_tags e)" for st
    by (rule fold_until_always) (rule index_tag_goes_on)
  have tags: "foreachTag ?p (index_tag E L ?p) ([], [], []) =
      Inr (event_keys E L e Ix_tag, event_keys E L e Ix_replace, event_keys E L e Ix_deletion)"
    unfolding packed_fields_event(8) [OF assms] fold foldl_index_tag packed_fields_event(1-5) [OF assms]
    by (cases "List.find (\<lambda>t. fst t = CHR ''d'') (ev_tags e)") (simp_all add: event_keys_def first_d_def)
  show ?thesis
    unfolding indexPrelude_def packed_fields_event(6) [OF assms] bindE_Inr tags prod.case
      packed_fields_event(1-5) [OF assms]
    by (rule arg_cong [where f = Inr], rule ext) (simp add: event_keys_def split: db_index.split)
qed

lemma holds_lookup:
  assumes "holds E L tree_items fs db M"
  shows "lookup_Event E db l = Some buf \<longleftrightarrow> (\<exists>e. M l = Some e \<and> wf_event e \<and> buf = pack_event L e)"
  using assms by (auto simp: holds_def)

lemma entries_event:
  assumes "holds E L tree_items fs db M"
  shows "(k, l) \<in> index_entries E L db ix \<longleftrightarrow> (\<exists>e. M l = Some e \<and> k \<in> set (event_keys E L e ix))"
proof -
  have wf: "M l = Some e \<Longrightarrow> wf_event e" for e using assms by (simp add: holds_def)
  have look: "lookup_Event E db l = map_option (pack_event L) (M l)" using assms by (simp add: holds_def)
  show ?thesis
    by (cases "M l") (simp_all add: index_entries_def look indexPrelude_event wf)
qed

lemma entries_id:
  assumes "holds E L tree_items fs db M"
  shows "(k, l) \<in> index_entries E L db Ix_id \<longleftrightarrow>
    (\<exists>e. M l = Some e \<and> k = makeKey_StringUint64 E (ev_id e) (ev_created_at e))"
  by (simp add: entries_event [OF assms] event_keys_def)

lemma entries_replace:
  assumes "holds E L tree_items fs db M"
  shows "(k, l) \<in> index_entries E L db Ix_replace \<longleftrightarrow>
    (\<exists>e. M l = Some e \<and> (\<exists>v. first_d e = Some v \<and> k = makeKey_StringUint64 E (ev_pubkey e @ v) (ev_kind e)))"
proof -
  have "k \<in> set (event_keys E L e Ix_replace) \<longleftrightarrow>
      (\<exists>v. first_d e = Some v \<and> k = makeKey_StringUint64 E (ev_pubkey e @ v) (ev_kind e))" for e
    by (cases "first_d e") (simp_all add: event_keys_def)
  then show ?thesis by (simp add: entries_event [OF assms])
qed

lemma entries_deletion:
  assumes "holds E L tree_items fs db M"
  shows "(k, l) \<in> index_entries E L db Ix_deletion \<longleftrightarrow>
    (\<exists>e. M l = Some e \<and> (\<exists>v. ev_kind e = 5 \<and> (CHR ''e'', v) \<in> set (ev_tags e) \<and> k = v @ ev_pubkey e))"
proof -
  have "k \<in> set (event_keys E L e Ix_deletion) \<longleftrightarrow>
      (\<exists>v. ev_kind e = 5 \<and> (CHR ''e'', v) \<in> set (ev_tags e) \<and> k = v @ ev_pubkey e)" for e
    by (auto simp: event_keys_def image_iff)
  then show ?thesis by (simp add: entries_event [OF assms])
qed

text \<open>Looking an event up by its id, through the first entry at or after the id.\<close>

lemma lookupEventById_correct:
  assumes "holds E L tree_items fs db M" "length i = 32"
  shows "lookupEventById E db i = None \<longleftrightarrow> \<not> has_id M i"
    and "lookupEventById E db i = Some (l, buf) \<Longrightarrow>
      \<exists>e. M l = Some e \<and> ev_id e = i \<and> wf_event e \<and> buf = pack_event L e"
proof -
  let ?xs = "foreachFull E db Ix_id (makeKey_StringUint64 E i 0) 0 False"
  have mem: "x \<in> set ?xs \<longleftrightarrow> (\<exists>e. M (snd x) = Some e \<and> i \<le> ev_id e \<and>
      fst x = makeKey_StringUint64 E (ev_id e) (ev_created_at e))" for x
  proof -
    obtain k l where x: "x = (k, l)" by (cases x)
    have "pos_le key_le Ix_id (makeKey_StringUint64 E i 0, 0) (makeKey_StringUint64 E (ev_id e) (ev_created_at e), l) \<longleftrightarrow>
        i \<le> ev_id e" for e
      unfolding pos_le_def fst_conv snd_conv id_le by (simp add: order_le_less [of i])
    then show ?thesis
      unfolding x scan_set mem_Collect_eq entries_id [OF assms(1)] fst_conv snd_conv by blast
  qed
  have look: "lookupEventById E db i = (case ?xs of [] \<Rightarrow> None
      | x # _ \<Rightarrow> if starts_with (fst x) i then map_option (Pair (snd x)) (lookup_Event E db (snd x)) else None)"
    by (simp add: lookupEventById_def split: list.split prod.split)
  have head: "case ?xs of [] \<Rightarrow> \<not> has_id M i | x # _ \<Rightarrow>
      \<exists>e. M (snd x) = Some e \<and> wf_event e \<and> (starts_with (fst x) i \<longleftrightarrow> ev_id e = i) \<and> (has_id M i \<longleftrightarrow> ev_id e = i)"
  proof (cases ?xs)
    case Nil
    have "\<not> has_id M i"
    proof
      assume "has_id M i"
      then obtain l e where "M l = Some e" "ev_id e = i" by (auto simp: has_id_def)
      then have "(makeKey_StringUint64 E i (ev_created_at e), l) \<in> set ?xs" by (auto simp: mem)
      with Nil show False by simp
    qed
    with Nil show ?thesis by simp
  next
    case (Cons x xs)
    then obtain e where e: "M (snd x) = Some e" "i \<le> ev_id e"
        "fst x = makeKey_StringUint64 E (ev_id e) (ev_created_at e)"
      using mem [of x] by auto
    have wf: "wf_event e" using assms(1) e(1) by (auto simp: holds_def)
    have "starts_with (fst x) i \<longleftrightarrow> ev_id e = i"
      using wf assms(2) by (simp add: starts_with_def e(3) makeKey wf_event_def)
    moreover have "ev_id e = i" if has: "has_id M i"
    proof -
      from has obtain l e' where e': "M l = Some e'" "ev_id e' = i" by (auto simp: has_id_def)
      let ?y = "(makeKey_StringUint64 E i (ev_created_at e'), l)"
      have "?y \<in> set ?xs" using e' by (auto simp: mem)
      then have "?y = x \<or> pos_le key_le Ix_id x ?y"
        using scan_sorted [of Ix_id db "makeKey_StringUint64 E i 0" 0] Cons by auto
      then have "key_le Ix_id (fst x) (fst ?y)"
      proof
        assume "?y = x"
        then show ?thesis unfolding e(3) using id_le e(3) by (metis order_refl)
      qed (simp add: pos_le_def)
      then have "ev_id e \<le> i"
        unfolding e(3) fst_conv id_le by (auto simp: order_le_less)
      with e(2) show ?thesis by simp
    qed
    ultimately show ?thesis
      using Cons e wf by (auto simp: has_id_def)
  qed
  show "lookupEventById E db i = None \<longleftrightarrow> \<not> has_id M i"
    using head look assms(1) by (cases ?xs) (auto simp: holds_def)
  show "\<exists>e. M l = Some e \<and> ev_id e = i \<and> wf_event e \<and> buf = pack_event L e"
    if "lookupEventById E db i = Some (l, buf)"
    using head look that assms(1) by (cases ?xs) (auto simp: holds_def split: if_splits)
qed

lemma lookupEventById_stored:
  assumes "holds E L tree_items fs db M" "unique_ids M" "M l = Some e"
  shows "lookupEventById E db (ev_id e) = Some (l, pack_event L e)"
proof -
  have wf: "wf_event e" using assms(1,3) by (simp add: holds_def)
  then have len: "length (ev_id e) = 32" by (simp add: wf_event_def)
  have "lookupEventById E db (ev_id e) \<noteq> None"
    using lookupEventById_correct(1) [OF assms(1) len] assms(3) by (auto simp: has_id_def)
  then obtain l' buf where found: "lookupEventById E db (ev_id e) = Some (l', buf)" by auto
  from lookupEventById_correct(2) [OF assms(1) len found] obtain e'
    where e': "M l' = Some e'" "ev_id e' = ev_id e" "buf = pack_event L e'" by blast
  then have "l' = l" using assms(2,3) unfolding unique_ids_def by blast
  with e' assms(3) found show ?thesis by simp
qed

text \<open>A stored deletion event is found by the id and the key of the event it names.\<close>

lemma deletion_found:
  assumes "holds E L tree_items fs db M" "wf_event e"
  shows "lookup_Event__deletion E db (ev_id e @ ev_pubkey e) \<noteq> None \<longleftrightarrow> (\<exists>l d. M l = Some d \<and> deletes d e)"
proof -
  have "(\<exists>v. ev_kind d = 5 \<and> (CHR ''e'', v) \<in> set (ev_tags d) \<and> ev_id e @ ev_pubkey e = v @ ev_pubkey d) \<longleftrightarrow>
      deletes d e" if "M l = Some d" for l d
  proof -
    have "wf_event d" using assms(1) that by (simp add: holds_def)
    then have "length (ev_pubkey e) = length (ev_pubkey d)" using assms(2) by (simp add: wf_event_def)
    then have "ev_id e @ ev_pubkey e = v @ ev_pubkey d \<longleftrightarrow> ev_id e = v \<and> ev_pubkey e = ev_pubkey d" for v
      by (rule append_eq_append_conv [OF disjI2])
    then show ?thesis unfolding deletes_def by metis
  qed
  then show ?thesis
    unfolding lookup_deletion entries_deletion [OF assms(1)] by blast
qed

lemma replace_tag_event:
  assumes "wf_event e"
  shows "replace_tag L (pack_event L e) =
    Inr (if isReplaceableKind (ev_kind e) \<or> isParamReplaceableKind (ev_kind e) then first_d e else None)"
  unfolding replace_tag_def packed_fields_event(4,8) [OF assms] find_first_d first_d_def by simp

text \<open>The replace index finds the one event that has the place, if there is one.\<close>

lemma slot_entry:
  assumes "holds E L tree_items fs db M" "wf_event e" "first_d e = Some v"
    and "isReplaceableKind (ev_kind e) \<or> isParamReplaceableKind (ev_kind e)"
  shows "(makeKey_StringUint64 E (ev_pubkey e @ v) (ev_kind e), l) \<in> index_entries E L db Ix_replace \<longleftrightarrow>
    (\<exists>e'. M l = Some e' \<and> same_slot e e')"
proof -
  have "(\<exists>w. first_d e' = Some w \<and>
      makeKey_StringUint64 E (ev_pubkey e @ v) (ev_kind e) = makeKey_StringUint64 E (ev_pubkey e' @ w) (ev_kind e')) \<longleftrightarrow>
      same_slot e e'" (is "?lhs \<longleftrightarrow> _") if "M l = Some e'" for e'
  proof -
    have "wf_event e'" using assms(1) that by (simp add: holds_def)
    then have len: "length (ev_pubkey e) = length (ev_pubkey e')" using assms(2) by (simp add: wf_event_def)
    have "makeKey_StringUint64 E (ev_pubkey e @ v) (ev_kind e) = makeKey_StringUint64 E (ev_pubkey e' @ w) (ev_kind e') \<longleftrightarrow>
        ev_pubkey e @ v = ev_pubkey e' @ w \<and> ev_kind e = ev_kind e'" for w
      by (metis parseKey prod.inject)
    moreover have "ev_pubkey e @ v = ev_pubkey e' @ w \<longleftrightarrow> ev_pubkey e = ev_pubkey e' \<and> v = w" for w
      by (rule append_eq_append_conv [OF disjI1 [OF len]])
    ultimately have "?lhs \<longleftrightarrow> (\<exists>w. first_d e' = Some w \<and> (ev_pubkey e = ev_pubkey e' \<and> v = w) \<and> ev_kind e = ev_kind e')"
      by (simp only:)
    also have "\<dots> \<longleftrightarrow> ev_kind e = ev_kind e' \<and> ev_pubkey e = ev_pubkey e' \<and> Some v = first_d e'"
      by (cases "first_d e'") auto
    also have "\<dots> \<longleftrightarrow> same_slot e e'"
      using assms(4) unfolding same_slot_def assms(3) by blast
    finally show ?thesis .
  qed
  then show ?thesis unfolding entries_replace [OF assms(1)] by blast
qed

lemma check_replaced_free:
  assumes "holds E L tree_items fs db M" "wf_event e" "first_d e = Some v"
    and "isReplaceableKind (ev_kind e) \<or> isParamReplaceableKind (ev_kind e)"
    and free: "\<And>l e'. M l = Some e' \<Longrightarrow> \<not> same_slot e e'"
  shows "check_replaced E L db (pack_event L e) v st = Inr st"
proof -
  let ?s = "makeKey_StringUint64 E (ev_pubkey e @ v) (ev_kind e)"
  show ?thesis
  proof (cases "foreachFull E db Ix_replace ?s MAX_U64 True")
    case Nil
    then show ?thesis by (simp add: check_replaced_def assms(2) Let_def)
  next
    case (Cons x xs)
    obtain k l where x: "x = (k, l)" by (cases x)
    have "x \<in> index_entries E L db Ix_replace"
      using Cons scan_set_rev [of db Ix_replace ?s MAX_U64] by auto
    then obtain e' :: event and w where k: "k = makeKey_StringUint64 E (ev_pubkey e' @ w) (ev_kind e')"
      unfolding x entries_replace [OF assms(1)] by blast
    have "k \<noteq> ?s"
      using slot_entry [OF assms(1-4), of l] free \<open>x \<in> _\<close> unfolding x by blast
    then have "parseKey_StringUint64 E k \<noteq> (ev_pubkey e @ v, ev_kind e)"
      unfolding k parseKey by auto
    then show ?thesis
      by (auto simp: check_replaced_def assms(2) Let_def Cons x prod_eq_iff)
  qed
qed

lemma check_replaced_taken:
  assumes "holds E L tree_items fs db M" "consistent M" "wf_event e" "first_d e = Some v"
    and taken: "M l = Some e'" "same_slot e e'"
  shows "check_replaced E L db (pack_event L e) v st =
    Inr (if beats e e' then (fst st, snd st @ [l]) else (Replaced, snd st))"
proof -
  let ?s = "makeKey_StringUint64 E (ev_pubkey e @ v) (ev_kind e)"
  let ?xs = "foreachFull E db Ix_replace ?s MAX_U64 True"
  have kind: "isReplaceableKind (ev_kind e) \<or> isParamReplaceableKind (ev_kind e)"
    using taken(2) unfolding same_slot_def by blast
  note slot = slot_entry [OF assms(1,3,4) kind]
  have mem: "(?s, l) \<in> set ?xs"
    using slot taken by (auto simp: scan_set_rev pos_le_def replace_le)
  then obtain x xs where xs: "?xs = x # xs" by (cases ?xs) auto
  then have x: "x \<in> index_entries E L db Ix_replace" "fst x \<le> ?s"
    using scan_set_rev [of db Ix_replace ?s MAX_U64] by (auto simp: pos_le_def replace_le)
  have "?s \<le> fst x"
    using scan_sorted_rev [of Ix_replace db ?s MAX_U64] mem by (auto simp: xs pos_le_def replace_le)
  with x have "(?s, snd x) \<in> index_entries E L db Ix_replace" by (metis order_antisym prod.collapse)
  then obtain e'' where e'': "M (snd x) = Some e''" "same_slot e e''" using slot by blast
  then have "same_slot e' e''" using same_slot_trans [OF same_slot_sym [OF taken(2)]] by simp
  then have "snd x = l" using consistentD(2) [OF assms(2) taken(1) e''(1)] by simp
  with \<open>?s \<le> fst x\<close> x(2) have "x = (?s, l)" by (simp add: prod_eq_iff)
  then have head: "?xs = (?s, l) # xs" using xs by (simp only:)
  have wf: "wf_event e'" using consistentD(1) [OF assms(2) taken(1)] .
  have "lookupEventByLevId E db l = Inr (l, pack_event L e')"
    using assms(1) taken(1) by (simp add: lookupEventByLevId_def holds_def)
  then show ?thesis
    unfolding check_replaced_def Let_def packed_fields_event(1-5) [OF assms(3)] head list.case prod.case parseKey
    by (simp only: fst_conv snd_conv simp_thms if_True bindE_Inr packed_fields_event [OF wf] beats_def) simp
qed

text \<open>The events a deletion event removes.\<close>

lemma collect_ref_event:
  assumes "holds E L tree_items fs db M" "unique_ids M" "length v = 32"
  obtains ys where "collect_ref E db pk (Inr ids) (CHR ''e'', v) = Inr (ids @ ys)"
    "\<And>l. l \<in> set ys \<longleftrightarrow> (\<exists>e'. M l = Some e' \<and> ev_id e' = v \<and> ev_pubkey e' = pk)"
proof (cases "has_id M v")
  case False
  then have "lookupEventById E db v = None" using lookupEventById_correct(1) [OF assms(1,3)] by simp
  with False show thesis by (intro that [of "[]"]) (auto simp: has_id_def collect_ref_def)
next
  case True
  then obtain l e' where e': "M l = Some e'" "ev_id e' = v" unfolding has_id_def by blast
  have wf: "wf_event e'" using assms(1) e'(1) by (simp add: holds_def)
  have look: "lookupEventById E db v = Some (l, pack_event L e')"
    using lookupEventById_stored [OF assms(1,2) e'(1)] e'(2) by simp
  have only: "(\<exists>e''. M l' = Some e'' \<and> ev_id e'' = v \<and> ev_pubkey e'' = pk) \<longleftrightarrow> l' = l \<and> ev_pubkey e' = pk" for l'
    using assms(2) e' unfolding unique_ids_def by (metis option.inject)
  show thesis
  proof (rule that [of "if ev_pubkey e' = pk then [l] else []"])
    show "l' \<in> set (if ev_pubkey e' = pk then [l] else []) \<longleftrightarrow>
        (\<exists>e'. M l' = Some e' \<and> ev_id e' = v \<and> ev_pubkey e' = pk)" for l'
      unfolding only by simp
  qed (simp add: look wf collect_ref_def)
qed

lemma collect_refs:
  assumes "holds E L tree_items fs db M" "unique_ids M"
    and "\<And>v. (CHR ''e'', v) \<in> set ts \<Longrightarrow> length v = 32"
  shows "\<exists>ys. foldl (collect_ref E db pk) (Inr ids) ts = Inr (ids @ ys) \<and>
    (\<forall>l. l \<in> set ys \<longleftrightarrow> (\<exists>e'. M l = Some e' \<and> (CHR ''e'', ev_id e') \<in> set ts \<and> ev_pubkey e' = pk))"
  using assms(3)
proof (induction ts arbitrary: ids)
  case Nil
  then show ?case by simp
next
  case (Cons t ts)
  obtain c v where t: "t = (c, v)" by (cases t)
  note IH = Cons.IH [OF Cons.prems [OF list.set_intros(2)]]
  show ?case
  proof (cases "c = CHR ''e''")
    case False
    then have "collect_ref E db pk (Inr ids) t = Inr ids" by (simp add: t collect_ref_def)
    with IH [of ids] False show ?thesis by (simp add: t)
  next
    case True
    then have "length v = 32" using Cons.prems t by simp
    then obtain ys where ys: "collect_ref E db pk (Inr ids) t = Inr (ids @ ys)"
      "\<And>l. l \<in> set ys \<longleftrightarrow> (\<exists>e'. M l = Some e' \<and> ev_id e' = v \<and> ev_pubkey e' = pk)"
      unfolding t True using collect_ref_event [OF assms(1,2), of v pk ids] by blast
    from IH [of "ids @ ys"] obtain zs where zs: "foldl (collect_ref E db pk) (Inr (ids @ ys)) ts = Inr ((ids @ ys) @ zs)"
      "\<And>l. l \<in> set zs \<longleftrightarrow> (\<exists>e'. M l = Some e' \<and> (CHR ''e'', ev_id e') \<in> set ts \<and> ev_pubkey e' = pk)" by blast
    have "l \<in> set (ys @ zs) \<longleftrightarrow> (\<exists>e'. M l = Some e' \<and> (CHR ''e'', ev_id e') \<in> set (t # ts) \<and> ev_pubkey e' = pk)" for l
      unfolding set_append Un_iff ys(2) zs(2) t True set_simps insert_iff prod.inject by blast
    moreover have "foldl (collect_ref E db pk) (Inr ids) (t # ts) = Inr (ids @ ys @ zs)"
      by (simp only: foldl_Cons ys(1) zs(1) append_assoc)
    ultimately show ?thesis by blast
  qed
qed

lemma collect_deletions_event:
  assumes "holds E L tree_items fs db M" "unique_ids M" "wf_event e" "full_refs e"
  obtains ys where "collect_deletions E L db (pack_event L e) ids = Inr (ids @ ys)"
    "set ys = {l. \<exists>e'. M l = Some e' \<and> deletes e e'}"
proof (cases "ev_kind e = 5")
  case False
  then show thesis using that [of "[]"] by (simp add: collect_deletions_def assms(3) deletes_def)
next
  case True
  have refs: "\<And>v. (CHR ''e'', v) \<in> set (ev_tags e) \<Longrightarrow> length v = 32" using assms(4) by (simp add: full_refs_def)
  from collect_refs [OF assms(1,2) refs, where ids = ids and pk = "ev_pubkey e"] obtain ys where
    ys: "foldl (collect_ref E db (ev_pubkey e)) (Inr ids) (ev_tags e) = Inr (ids @ ys)"
    "\<And>l. l \<in> set ys \<longleftrightarrow> (\<exists>e'. M l = Some e' \<and> (CHR ''e'', ev_id e') \<in> set (ev_tags e) \<and> ev_pubkey e' = ev_pubkey e)"
    by blast
  show thesis
  proof (rule that)
    show "collect_deletions E L db (pack_event L e) ids = Inr (ids @ ys)"
      unfolding collect_deletions_def packed_fields_event [OF assms(3)] ys(1) [symmetric]
      using True by (simp add: fold_until_always collect_ref_def [abs_def])
    show "set ys = {l. \<exists>e'. M l = Some e' \<and> deletes e e'}"
      using ys(2) True by (auto simp: deletes_def)
  qed
qed

text \<open>The trees follow the events that match their filter.\<close>

lemma updateNegentropy_event:
  assumes "wf_event e"
  shows "\<exists>db'. updateNegentropy E L fs (pack_event L e) ins db = Inr db' \<and>
    lookup_Event E db' = lookup_Event E db \<and> payload_get E db' = payload_get E db \<and>
    (\<forall>t. tree_items db' t = (if \<exists>f. (f, t) \<in> set fs \<and> nf_matches f e
       then tree_put ins (ev_created_at e, ev_id e) (tree_items db t) else tree_items db t))"
proof (induction fs arbitrary: db)
  case Nil
  then show ?case by simp
next
  case (Cons x fs)
  obtain f t where x: "x = (f, t)" by (cases x)
  let ?db = "if nf_matches f e then (if ins then tree_insert E db t (ev_created_at e) (ev_id e)
    else tree_erase E db t (ev_created_at e) (ev_id e)) else db"
  have step: "updateNegentropy E L (x # fs) (pack_event L e) ins db = updateNegentropy E L fs (pack_event L e) ins ?db"
    by (simp add: x assms NostrFilter_doesMatch_event)
  have frame: "lookup_Event E ?db = lookup_Event E db" "payload_get E ?db = payload_get E db"
    by (simp_all add: tree_frame)
  have items: "tree_items ?db u = (if u = t \<and> nf_matches f e
      then tree_put ins (ev_created_at e, ev_id e) (tree_items db u) else tree_items db u)" for u
    by (simp add: tree_insert_items tree_erase_items tree_put_def)
  from Cons [of ?db] obtain db' where db': "updateNegentropy E L fs (pack_event L e) ins ?db = Inr db'"
    "lookup_Event E db' = lookup_Event E db" "payload_get E db' = payload_get E db"
    "\<And>u. tree_items db' u = (if \<exists>f. (f, u) \<in> set fs \<and> nf_matches f e
       then tree_put ins (ev_created_at e, ev_id e) (tree_items ?db u) else tree_items ?db u)"
    unfolding frame by blast
  show ?case
    unfolding step db'(1)
  proof (intro exI conjI allI)
    fix u
    have ex: "(\<exists>g. (g, u) \<in> set (x # fs) \<and> nf_matches g e) \<longleftrightarrow>
        (u = t \<and> nf_matches f e) \<or> (\<exists>g. (g, u) \<in> set fs \<and> nf_matches g e)"
      by (auto simp: x)
    show "tree_items db' u = (if \<exists>g. (g, u) \<in> set (x # fs) \<and> nf_matches g e
       then tree_put ins (ev_created_at e, ev_id e) (tree_items db u) else tree_items db u)"
      unfolding ex db'(4) items by (rule if_idem) (rule tree_put_idem)
  qed (use db' in simp_all)
qed

lemma tree_of_insert:
  assumes "M lev = None"
  shows "tree_of f (M(lev \<mapsto> e)) =
    (if nf_matches f e then insert (ev_created_at e, ev_id e) (tree_of f M) else tree_of f M)"
proof -
  have "(M(lev \<mapsto> e)) l = Some e' \<longleftrightarrow> (l = lev \<and> e' = e) \<or> M l = Some e'" for l e'
    using assms by auto
  then have "tree_of f (M(lev \<mapsto> e)) = {ci. nf_matches f e \<and> ci = (ev_created_at e, ev_id e)} \<union> tree_of f M"
    unfolding tree_of_def by (simp only:) blast
  then show ?thesis by (cases "nf_matches f e") simp_all
qed

lemma tree_of_delete:
  assumes "unique_ids M" "M l = Some e"
  shows "tree_of f (M(l := None)) =
    (if nf_matches f e then tree_of f M - {(ev_created_at e, ev_id e)} else tree_of f M)"
proof -
  have "M l' = Some e' \<and> nf_matches f e' \<and> l' \<noteq> l \<longleftrightarrow>
      M l' = Some e' \<and> nf_matches f e' \<and> (nf_matches f e \<longrightarrow> (ev_created_at e', ev_id e') \<noteq> (ev_created_at e, ev_id e)) \<and>
      (\<not> nf_matches f e \<longrightarrow> l' \<noteq> l)" for l' e'
    using assms unfolding unique_ids_def by (metis option.inject prod.inject)
  moreover have "\<not> nf_matches f e \<Longrightarrow> M l' = Some e' \<Longrightarrow> nf_matches f e' \<Longrightarrow> l' \<noteq> l" for l' e'
    using assms(2) by auto
  moreover have "tree_of f (M(l := None)) = {ci. \<exists>l' e'. (M l' = Some e' \<and> nf_matches f e' \<and> l' \<noteq> l) \<and> ci = (ev_created_at e', ev_id e')}"
    unfolding tree_of_def by auto
  ultimately show ?thesis
    unfolding tree_of_def by (cases "nf_matches f e") auto
qed

lemma delete_one_event:
  assumes "holds E L tree_items fs db M" "unique_ids M"
  obtains db' where "delete_one E L fs l (db, n) = Inr (db', if l \<in> dom M then n + 1 else n)"
    "holds E L tree_items fs db' (M(l := None))"
    "\<And>l'. l' \<noteq> l \<Longrightarrow> payload_get E db' l' = payload_get E db l'"
proof (cases "M l")
  case None
  then have "lookup_Event E db l = None" "M(l := None) = M" using assms(1) by (auto simp: holds_def)
  with None assms(1) show thesis by (intro that [of db]) (simp_all add: delete_one_def domIff)
next
  case (Some e)
  have wf: "wf_event e" using assms(1) Some by (simp add: holds_def)
  have look: "lookup_Event E db l = Some (pack_event L e)" using assms(1) Some by (simp add: holds_def)
  obtain db1 where db1: "updateNegentropy E L fs (pack_event L e) False db = Inr db1"
    "lookup_Event E db1 = lookup_Event E db" "payload_get E db1 = payload_get E db"
    "\<And>t. tree_items db1 t = (if \<exists>f. (f, t) \<in> set fs \<and> nf_matches f e
       then tree_put False (ev_created_at e, ev_id e) (tree_items db t) else tree_items db t)"
    using updateNegentropy_event [OF wf, of fs False db] by blast
  obtain b db2 where db2: "payload_del E db1 l = (b, db2)" by (cases "payload_del E db1 l")
  note dp = del_payload [OF db2] del_frame [OF db2]
  have b: "b" using dp(1) db1(3) assms(1) Some by (auto simp: holds_def domIff)
  let ?db' = "delete_Event E db2 l"
  have pay: "payload_get E ?db' = (payload_get E db)(l := None)" using dp db1(3) by (simp add: delete_frame)
  show thesis
  proof (rule that)
    show "delete_one E L fs l (db, n) = Inr (?db', if l \<in> dom M then n + 1 else n)"
      using Some b by (simp add: delete_one_def look wf db1(1) deleteEventBasic_def db2 domIff)
    show "l' \<noteq> l \<Longrightarrow> payload_get E ?db' l' = payload_get E db l'" for l' by (simp add: pay)
    have "tree_items ?db' t = tree_of f (M(l := None))" if f: "(f, t) \<in> set fs" for f t
    proof -
      have "g = f" if "(g, t) \<in> set fs" for g
        by (rule distinct_snd_inj [OF _ that f]) (use assms(1) in \<open>simp add: holds_def\<close>)
      then have "(\<exists>g. (g, t) \<in> set fs \<and> nf_matches g e) \<longleftrightarrow> nf_matches f e" using f by blast
      moreover have "tree_items db t = tree_of f M" using assms(1) f unfolding holds_def by blast
      ultimately show ?thesis
        using dp(2) db1(4) [of t] by (simp add: delete_frame tree_of_delete [OF assms(2) Some] tree_put_def)
    qed
    moreover have "lookup_Event E ?db' = (\<lambda>l'. map_option (pack_event L) ((M(l := None)) l'))"
      using assms(1) dp(2) db1(2) by (simp add: holds_def delete_lookup fun_eq_iff)
    moreover have "dom (payload_get E ?db') = dom (M(l := None))"
      using assms(1) by (simp add: holds_def pay)
    moreover have "\<forall>l' e'. (M(l := None)) l' = Some e' \<longrightarrow> wf_event e'" "distinct (map snd fs)"
      using assms(1) by (simp_all add: holds_def)
    ultimately show "holds E L tree_items fs ?db' (M(l := None))"
      unfolding holds_def by blast
  qed
qed

lemma unique_ids_submap: "unique_ids M \<Longrightarrow> M' \<subseteq>\<^sub>m M \<Longrightarrow> unique_ids M'"
  unfolding unique_ids_def map_le_def by (metis domI)

lemma unique_ids_delete: "unique_ids M \<Longrightarrow> unique_ids (M(l := None))"
  by (erule unique_ids_submap) (simp add: map_le_def)

lemma delete_all_events:
  assumes "holds E L tree_items fs db M" "unique_ids M"
  shows "\<exists>db'. foldE (delete_one E L fs) ls (db, n) = Inr (db', n + of_nat (card (set ls \<inter> dom M))) \<and>
    holds E L tree_items fs db' (M |` (- set ls)) \<and>
    (\<forall>l. l \<notin> set ls \<longrightarrow> payload_get E db' l = payload_get E db l)"
  using assms
proof (induction ls arbitrary: db M n)
  case Nil
  then show ?case by simp
next
  case (Cons l ls)
  obtain db1 where db1: "delete_one E L fs l (db, n) = Inr (db1, if l \<in> dom M then n + 1 else n)"
    "holds E L tree_items fs db1 (M(l := None))" "\<And>l'. l' \<noteq> l \<Longrightarrow> payload_get E db1 l' = payload_get E db l'"
    using delete_one_event [OF Cons.prems, of l n] by blast
  from Cons.IH [OF db1(2) unique_ids_delete [OF Cons.prems(2)], of "if l \<in> dom M then n + 1 else n"]
  obtain db' where db': "foldE (delete_one E L fs) ls (db1, if l \<in> dom M then n + 1 else n) =
      Inr (db', (if l \<in> dom M then n + 1 else n) + of_nat (card (set ls \<inter> dom (M(l := None)))))"
    "holds E L tree_items fs db' (M(l := None) |` (- set ls))"
    "\<And>l'. l' \<notin> set ls \<Longrightarrow> payload_get E db' l' = payload_get E db1 l'" by blast
  have "set (l # ls) \<inter> dom M = (if l \<in> dom M then insert l (set ls \<inter> dom (M(l := None))) else set ls \<inter> dom (M(l := None)))"
    by auto
  then have count: "(if l \<in> dom M then n + 1 else n) + of_nat (card (set ls \<inter> dom (M(l := None)))) =
      n + of_nat (card (set (l # ls) \<inter> dom M))"
    by (simp add: algebra_simps)
  have restr: "M(l := None) |` (- set ls) = M |` (- set (l # ls))"
    by (auto simp: restrict_map_def fun_eq_iff)
  show ?case
  proof (intro exI conjI allI impI)
    show "foldE (delete_one E L fs) (l # ls) (db, n) = Inr (db', n + of_nat (card (set (l # ls) \<inter> dom M)))"
      by (simp only: foldE.simps db1(1) bindE_Inr db'(1) count)
    show "holds E L tree_items fs db' (M |` (- set (l # ls)))" using db'(2) by (simp only: restr)
    show "payload_get E db' l' = payload_get E db l'" if "l' \<notin> set (l # ls)" for l'
      using that db1(3) db'(3) by simp
  qed
qed

text \<open>The levId of a new event is not in use.\<close>

lemma insert_fresh:
  assumes "insert_Event E db buf = (lev, db')" "Suc (lev_max E db) < 2 ^ 64"
  shows "lookup_Event E db lev = None" "unat lev = Suc (lev_max E db)" "lev_max E db' = Suc (lev_max E db)"
proof -
  show lev: "unat lev = Suc (lev_max E db)" using insert_lev [OF assms] .
  have fin: "finite (insert 0 (unat ` dom (lookup_Event E db)))" using finite_events by simp
  show "lookup_Event E db lev = None"
  proof (rule ccontr)
    assume "lookup_Event E db lev \<noteq> None"
    then have "unat lev \<le> lev_max E db" unfolding lev_max_def by (intro Max_ge [OF fin]) auto
    with lev show False by simp
  qed
  have "insert 0 (unat ` dom (lookup_Event E db')) = insert (unat lev) (insert 0 (unat ` dom (lookup_Event E db)))"
    unfolding insert_lookup [OF assms(1)] by auto
  then have "lev_max E db' = max (unat lev) (lev_max E db)"
    unfolding lev_max_def using fin by simp
  with lev show "lev_max E db' = Suc (lev_max E db)" by simp
qed

lemma lev_max_mono:
  assumes "dom (lookup_Event E db) \<subseteq> dom (lookup_Event E db')"
  shows "lev_max E db \<le> lev_max E db'"
  unfolding lev_max_def using assms finite_events by (intro Max_mono) auto

lemma unique_ids_insert:
  assumes "unique_ids M" "\<not> has_id M (ev_id e)"
  shows "unique_ids (M(lev \<mapsto> e))"
proof -
  have "M l = Some e' \<Longrightarrow> ev_id e' \<noteq> ev_id e" for l e' using assms(2) unfolding has_id_def by blast
  with assms(1) show ?thesis unfolding unique_ids_def by (metis fun_upd_apply option.inject)
qed

lemma holds_insert:
  assumes "holds E L tree_items fs db M" "wf_event e" "M lev = None"
    and "lookup_Event E db' = (lookup_Event E db)(lev \<mapsto> pack_event L e)"
    and "payload_get E db' = (payload_get E db)(lev \<mapsto> p)"
    and "\<And>t. tree_items db' t = (if \<exists>f. (f, t) \<in> set fs \<and> nf_matches f e
       then tree_put True (ev_created_at e, ev_id e) (tree_items db t) else tree_items db t)"
  shows "holds E L tree_items fs db' (M(lev \<mapsto> e))"
proof -
  have dist: "distinct (map snd fs)" using assms(1) by (simp add: holds_def)
  have "tree_items db' t = tree_of f (M(lev \<mapsto> e))" if f: "(f, t) \<in> set fs" for f t
  proof -
    have "(\<exists>g. (g, t) \<in> set fs \<and> nf_matches g e) \<longleftrightarrow> nf_matches f e"
      using f distinct_snd_inj [OF dist _ f] by blast
    moreover have "tree_items db t = tree_of f M" using assms(1) f unfolding holds_def by blast
    ultimately show ?thesis
      using assms(6) [of t] by (simp add: tree_of_insert [of M lev, OF assms(3)] tree_put_def)
  qed
  moreover have "lookup_Event E db' = (\<lambda>l. map_option (pack_event L) ((M(lev \<mapsto> e)) l))"
    using assms(1,4) by (simp add: holds_def fun_eq_iff)
  moreover have "dom (payload_get E db') = dom (M(lev \<mapsto> e))" using assms(1,5) by (simp add: holds_def)
  moreover have "\<forall>l e'. (M(lev \<mapsto> e)) l = Some e' \<longrightarrow> wf_event e'" using assms(1,2) by (simp add: holds_def)
  ultimately show ?thesis using dist unfolding holds_def by blast
qed

lemma store_event_correct:
  assumes "holds E L tree_items fs db M" "unique_ids M" "wf_event e" "\<not> has_id M (ev_id e)"
    and "Suc (lev_max E db) < 2 ^ 64" "ew_packedStr ev = pack_event L e" "set ls \<subseteq> dom M"
  obtains lev db' where "store_event E L fs ev ls db = Inr (ev\<lparr>ew_levId := lev, ew_status := Written\<rparr>, db')"
    "unat lev = Suc (lev_max E db)" "M lev = None" "holds E L tree_items fs db' ((M |` (- set ls))(lev \<mapsto> e))"
    "lev_max E db' \<le> Suc (lev_max E db)" "payload_get E db' lev = Some (CHR 0x00 # ew_jsonStr ev)"
    "\<And>l. l \<notin> set ls \<Longrightarrow> l \<noteq> lev \<Longrightarrow> payload_get E db' l = payload_get E db l"
proof -
  obtain lev db1 where db1: "insert_Event E db (pack_event L e) = (lev, db1)" by (cases "insert_Event E db (pack_event L e)")
  let ?db2 = "payload_put E db1 lev (CHR 0x00 # ew_jsonStr ev)"
  note fresh = insert_fresh [OF db1 assms(5)]
  have Mlev: "M lev = None" using fresh(1) assms(1) by (simp add: holds_def)
  obtain db3 where db3: "updateNegentropy E L fs (pack_event L e) True ?db2 = Inr db3"
    "lookup_Event E db3 = lookup_Event E ?db2" "payload_get E db3 = payload_get E ?db2"
    "\<And>t. tree_items db3 t = (if \<exists>f. (f, t) \<in> set fs \<and> nf_matches f e
       then tree_put True (ev_created_at e, ev_id e) (tree_items ?db2 t) else tree_items ?db2 t)"
    using updateNegentropy_event [OF assms(3), of fs True ?db2] by blast
  have items: "tree_items ?db2 = tree_items db" using insert_frame [OF db1] by (simp add: put_frame)
  have pay: "payload_get E db3 = (payload_get E db)(lev \<mapsto> CHR 0x00 # ew_jsonStr ev)"
    unfolding db3(3) put_payload using insert_frame [OF db1] by simp
  have look: "lookup_Event E db3 = (lookup_Event E db)(lev \<mapsto> pack_event L e)"
    unfolding db3(2) put_frame insert_lookup [OF db1] ..
  have h3: "holds E L tree_items fs db3 (M(lev \<mapsto> e))"
    by (rule holds_insert [OF assms(1,3) Mlev look pay]) (simp only: db3(4) items)
  have u3: "unique_ids (M(lev \<mapsto> e))"
    by (rule unique_ids_insert [OF assms(2,4)])
  obtain db4 n where db4: "foldE (delete_one E L fs) ls (db3, 0) = Inr (db4, n)"
    "holds E L tree_items fs db4 (M(lev \<mapsto> e) |` (- set ls))"
    "\<And>l. l \<notin> set ls \<Longrightarrow> payload_get E db4 l = payload_get E db3 l"
    using delete_all_events [OF h3 u3, of ls 0] by blast
  have lev: "lev \<notin> set ls" using assms(7) Mlev by auto
  have restr: "M(lev \<mapsto> e) |` (- set ls) = (M |` (- set ls))(lev \<mapsto> e)"
    using lev by (auto simp: restrict_map_def fun_eq_iff)
  have "dom (lookup_Event E db4) \<subseteq> dom (lookup_Event E db1)"
    using db4(2) assms(1) unfolding insert_lookup [OF db1] holds_def by (auto simp: restrict_map_def split: if_splits)
  then have "lev_max E db4 \<le> Suc (lev_max E db)" using lev_max_mono fresh(3) by metis
  moreover have "store_event E L fs ev ls db = Inr (ev\<lparr>ew_levId := lev, ew_status := Written\<rparr>, db4)"
    by (simp add: store_event_def assms(3,6) db1 db3(1) db4(1))
  moreover have "payload_get E db4 lev = Some (CHR 0x00 # ew_jsonStr ev)"
    unfolding db4(3) [OF lev] pay by simp
  moreover have "payload_get E db4 l = payload_get E db l" if "l \<notin> set ls" "l \<noteq> lev" for l
    unfolding db4(3) [OF that(1)] pay using that(2) by simp
  ultimately show thesis
    by (intro that [of lev db4] fresh(2) Mlev db4(2) [unfolded restr])
qed

text \<open>The place of the event: free, taken by a loser, or taken by a winner.\<close>

lemma replace_step:
  assumes "holds E L tree_items fs db M" "consistent M" "wf_event e"
  obtains st del where
    "(case if isReplaceableKind (ev_kind e) \<or> isParamReplaceableKind (ev_kind e) then first_d e else None of
        None \<Rightarrow> Inr (Pending, []) | Some r \<Rightarrow> check_replaced E L db (pack_event L e) r (Pending, [])) = Inr (st, del)"
    "if \<exists>l e'. M l = Some e' \<and> same_slot e e' \<and> \<not> beats e e' then st = Replaced \<and> del = [] \<and> ev_kind e \<noteq> 5
     else st = Pending \<and> set del = {l. \<exists>e'. M l = Some e' \<and> same_slot e e'}"
proof (cases "\<exists>l e'. M l = Some e' \<and> same_slot e e'")
  case False
  let ?r = "if isReplaceableKind (ev_kind e) \<or> isParamReplaceableKind (ev_kind e) then first_d e else None"
  have "(case ?r of None \<Rightarrow> Inr (Pending, []) | Some r \<Rightarrow> check_replaced E L db (pack_event L e) r (Pending, [])) = Inr (Pending, [])"
  proof (cases ?r)
    case (Some v)
    then have "first_d e = Some v" "isReplaceableKind (ev_kind e) \<or> isParamReplaceableKind (ev_kind e)"
      by (simp_all split: if_splits)
    then show ?thesis unfolding Some using check_replaced_free [OF assms(1,3)] False by simp
  qed simp
  with False show thesis by (intro that) auto
next
  case True
  then obtain l e' where e': "M l = Some e'" "same_slot e e'" by blast
  then have kind: "isReplaceableKind (ev_kind e) \<or> isParamReplaceableKind (ev_kind e)" and "first_d e \<noteq> None"
    unfolding same_slot_def by blast+
  then obtain v where v: "first_d e = Some v" by blast
  have only: "M l' = Some e'' \<and> same_slot e e'' \<longleftrightarrow> l' = l \<and> e'' = e'" for l' e''
  proof
    assume a: "M l' = Some e'' \<and> same_slot e e''"
    then have "same_slot e' e''" using same_slot_trans [OF same_slot_sym [OF e'(2)]] by blast
    then have "l = l'" using consistentD(2) [OF assms(2) e'(1)] a by blast
    with a e'(1) show "l' = l \<and> e'' = e'" by simp
  qed (use e' in simp)
  have eq: "(\<exists>l e'. M l = Some e' \<and> same_slot e e' \<and> \<not> beats e e') \<longleftrightarrow> \<not> beats e e'"
    using only by metis
  have ne5: "ev_kind e \<noteq> 5"
    using kind by (auto simp: isReplaceableKind_def isParamReplaceableKind_def)
  show thesis
  proof (rule that)
    show "(case if isReplaceableKind (ev_kind e) \<or> isParamReplaceableKind (ev_kind e) then first_d e else None of
        None \<Rightarrow> Inr (Pending, []) | Some r \<Rightarrow> check_replaced E L db (pack_event L e) r (Pending, [])) =
      Inr (if beats e e' then Pending else Replaced, if beats e e' then [l] else [])"
      using kind check_replaced_taken [OF assms v e', of "(Pending, [])"] by (simp add: v)
  qed (simp add: eq only ne5)
qed

text \<open>One event: the code computes the status and the store that the rule gives.\<close>

lemma write_ok_unchanged:
  "st = spec_status M prev e \<Longrightarrow> st \<noteq> Written \<Longrightarrow> ew_packedStr ev = pack_event L e \<Longrightarrow>
   write_ok E L tree_items fs M prev e ev db (ev\<lparr>ew_status := st\<rparr>) db"
  by (simp add: write_ok_def)

lemma write_one_alive:
  assumes "holds E L tree_items fs db M" "consistent M" "wf_event e" "full_refs e"
    and "Suc (lev_max E db) < 2 ^ 64" "ew_packedStr ev = pack_event L e" "ew_status ev = Pending"
    and "\<not> has_id M (ev_id e)" "prev \<noteq> Some (ev_id e)" "\<And>l d. M l = Some d \<Longrightarrow> \<not> deletes d e"
  shows "\<exists>ev' db'. write_one E L fs prev ev db = Inr (ev', db') \<and> write_ok E L tree_items fs M prev e ev db ev' db'"
proof -
  note uniq = consistent_unique_ids [OF assms(2)]
  have len: "length (ev_id e) = 32" using assms(3) by (simp add: wf_event_def)
  have look: "lookupEventById E db (ev_id e) = None"
    using lookupEventById_correct(1) [OF assms(1) len] assms(8) by simp
  have del: "lookup_Event__deletion E db (ev_id e @ ev_pubkey e) = None"
    using deletion_found [OF assms(1,3)] assms(10) by blast
  obtain st del1 where st: "(case if isReplaceableKind (ev_kind e) \<or> isParamReplaceableKind (ev_kind e) then first_d e else None of
        None \<Rightarrow> Inr (Pending, []) | Some r \<Rightarrow> check_replaced E L db (pack_event L e) r (Pending, [])) = Inr (st, del1)"
    "if \<exists>l e'. M l = Some e' \<and> same_slot e e' \<and> \<not> beats e e' then st = Replaced \<and> del1 = [] \<and> ev_kind e \<noteq> 5
     else st = Pending \<and> set del1 = {l. \<exists>e'. M l = Some e' \<and> same_slot e e'}"
    by (rule replace_step [OF assms(1-3)])
  obtain ys where ys: "collect_deletions E L db (pack_event L e) del1 = Inr (del1 @ ys)"
    "set ys = {l. \<exists>e'. M l = Some e' \<and> deletes e e'}"
    by (rule collect_deletions_event [OF assms(1) uniq assms(3,4)])
  have run: "write_one E L fs prev ev db = (if st = Pending then store_event E L fs ev (del1 @ ys) db
       else if del1 @ ys \<noteq> [] then Inl (Herr ''unprocessed deletion'') else Inr (ev\<lparr>ew_status := st\<rparr>, db))"
    unfolding write_one_def assms(6,7) packed_fields_event [OF assms(3)] bindE_Inr look del replace_tag_event [OF assms(3)] st(1)
    using assms(9) by (simp add: ys(1))
  have spec: "spec_status M prev e = (if \<exists>l e'. M l = Some e' \<and> same_slot e e' \<and> \<not> beats e e' then Replaced else Written)"
    using assms(8-10) by (auto simp: spec_status_def)
  show ?thesis
  proof (cases "\<exists>l e'. M l = Some e' \<and> same_slot e e' \<and> \<not> beats e e'")
    case True
    then have st': "st = Replaced" "del1 = []" "ev_kind e \<noteq> 5" using st(2) by simp_all
    then have "ys = []" using ys(2) by (simp add: deletes_def)
    then have "write_one E L fs prev ev db = Inr (ev\<lparr>ew_status := Replaced\<rparr>, db)" by (simp add: run st')
    moreover have "write_ok E L tree_items fs M prev e ev db (ev\<lparr>ew_status := Replaced\<rparr>) db"
      by (rule write_ok_unchanged) (use True assms(6) in \<open>simp_all add: spec\<close>)
    ultimately show ?thesis by blast
  next
    case False
    then have st': "st = Pending" "set del1 = {l. \<exists>e'. M l = Some e' \<and> same_slot e e'}" using st(2) by simp_all
    then have vict: "set (del1 @ ys) = victims M e" using ys(2) by (auto simp: victims_def)
    then have sub: "set (del1 @ ys) \<subseteq> dom M" by (auto simp: victims_def)
    obtain lev db' where w: "store_event E L fs ev (del1 @ ys) db = Inr (ev\<lparr>ew_levId := lev, ew_status := Written\<rparr>, db')"
      "unat lev = Suc (lev_max E db)" "M lev = None" "holds E L tree_items fs db' ((M |` (- set (del1 @ ys)))(lev \<mapsto> e))"
      "lev_max E db' \<le> Suc (lev_max E db)" "payload_get E db' lev = Some (CHR 0x00 # ew_jsonStr ev)"
      "\<And>l. l \<notin> set (del1 @ ys) \<Longrightarrow> l \<noteq> lev \<Longrightarrow> payload_get E db' l = payload_get E db l"
      by (rule store_event_correct [OF assms(1) uniq assms(3,8,5,6) sub]) blast
    have "write_ok E L tree_items fs M prev e ev db (ev\<lparr>ew_levId := lev, ew_status := Written\<rparr>) db'"
      using w(2-7) False spec assms(6) unfolding vict by (simp add: write_ok_def spec_write_def)
    moreover have "write_one E L fs prev ev db = Inr (ev\<lparr>ew_levId := lev, ew_status := Written\<rparr>, db')"
      unfolding run by (simp add: st'(1) w(1))
    ultimately show ?thesis by blast
  qed
qed

lemma write_one_correct:
  assumes "holds E L tree_items fs db M" "consistent M" "wf_event e" "full_refs e"
    and "Suc (lev_max E db) < 2 ^ 64" "ew_packedStr ev = pack_event L e" "ew_status ev = Pending"
  shows "\<exists>ev' db'. write_one E L fs prev ev db = Inr (ev', db') \<and> write_ok E L tree_items fs M prev e ev db ev' db'"
proof -
  have len: "length (ev_id e) = 32" using assms(3) by (simp add: wf_event_def)
  have look: "lookupEventById E db (ev_id e) = None \<longleftrightarrow> \<not> has_id M (ev_id e)"
    using lookupEventById_correct(1) [OF assms(1) len] .
  note del = deletion_found [OF assms(1,3)]
  show ?thesis
  proof (cases "has_id M (ev_id e) \<or> prev = Some (ev_id e)")
    case True
    then have "write_one E L fs prev ev db = Inr (ev\<lparr>ew_status := Duplicate\<rparr>, db)"
      using look by (auto simp: write_one_def assms(3,6))
    with write_ok_unchanged [OF _ _ assms(6), of Duplicate M prev] True show ?thesis
      by (auto simp: spec_status_def)
  next
    case new: False
    show ?thesis
    proof (cases "\<exists>l d. M l = Some d \<and> deletes d e")
      case True
      then have "write_one E L fs prev ev db = Inr (ev\<lparr>ew_status := Deleted\<rparr>, db)"
        using look del new by (simp add: write_one_def assms(3,6))
      with write_ok_unchanged [OF _ _ assms(6), of Deleted M prev] True new show ?thesis
        by (auto simp: spec_status_def)
    next
      case False
      with new write_one_alive [OF assms, of prev] show ?thesis by blast
    qed
  qed
qed

lemma write_one_step:
  assumes "holds E L tree_items fs db M" "consistent M" "wf_event (fst x)" "full_refs (fst x)" "Suc (lev_max E db) < 2 ^ 64"
  obtains ev db' M' where "write_one E L fs prev (to_write L x) db = Inr (ev, db')"
    "ew_status ev = spec_status M prev (fst x)" "ew_packedStr ev = pack_event L (fst x)"
    "ew_jsonStr ev = fst (snd x)" "ew_userData ev = snd (snd x)"
    "M' = (if ew_status ev = Written then spec_write (ew_levId ev) M (fst x) else M)"
    "holds E L tree_items fs db' M'" "consistent M'" "lev_max E db' \<le> Suc (lev_max E db)" "kept E db M db' M'"
    "ew_status ev = Written \<Longrightarrow> stored E db db' M' x ev"
proof -
  from write_one_correct [OF assms to_write_sel(1,4), of prev] obtain ev db'
    where run: "write_one E L fs prev (to_write L x) db = Inr (ev, db')"
      and ok: "write_ok E L tree_items fs M prev (fst x) (to_write L x) db ev db'" by blast
  let ?M' = "if ew_status ev = Written then spec_write (ew_levId ev) M (fst x) else M"
  have basic: "ew_status ev = spec_status M prev (fst x)" "ew_packedStr ev = pack_event L (fst x)"
    "ew_jsonStr ev = fst (snd x)" "ew_userData ev = snd (snd x)" "lev_max E db' \<le> Suc (lev_max E db)"
    using ok by (simp_all add: write_ok_def)
  show thesis
  proof (cases "ew_status ev = Written")
    case False
    then have "db' = db" using ok by (simp add: write_ok_def)
    with False basic assms(1,2) show thesis by (intro that [OF run, of M]) (simp_all add: kept_refl)
  next
    case True
    let ?lev = "ew_levId ev"
    have w: "unat ?lev = Suc (lev_max E db)" "M ?lev = None" "holds E L tree_items fs db' (spec_write ?lev M (fst x))"
      "payload_get E db' ?lev = Some (CHR 0x00 # fst (snd x))"
      "\<And>l. l \<notin> victims M (fst x) \<Longrightarrow> l \<noteq> ?lev \<Longrightarrow> payload_get E db' l = payload_get E db l"
      using ok True by (simp_all add: write_ok_def)
    have new: "spec_write ?lev M (fst x) ?lev = Some (fst x)" by (simp add: spec_write_def)
    then have "?lev \<in> dom (lookup_Event E db')" using w(3) by (simp add: holds_def dom_def)
    then have "unat ?lev \<le> lev_max E db'"
      unfolding lev_max_def using finite_events by (intro Max_ge) auto
    then have "stored E db db' (spec_write ?lev M (fst x)) x ev"
      using w new by (simp add: stored_def)
    moreover have "spec_write ?lev M (fst x) l = None \<or> spec_write ?lev M (fst x) l = M l \<and> payload_get E db' l = payload_get E db l"
      if "unat l \<le> lev_max E db" for l
    proof -
      have "l \<noteq> ?lev" using that w(1) by auto
      then show ?thesis using w(5) [of l] by (cases "l \<in> victims M (fst x)") (simp_all add: spec_write_def)
    qed
    then have "kept E db M db' (spec_write ?lev M (fst x))"
      using \<open>unat ?lev \<le> lev_max E db'\<close> w(1) unfolding kept_def by auto
    moreover have "consistent (spec_write ?lev M (fst x))"
      by (rule consistent_spec_write [OF assms(2,3) w(2), where prev = prev]) (use basic(1) True in simp)
    ultimately show thesis
      using True basic w(3) by (intro that [OF run, of ?M']) simp_all
  qed
qed

lemma list_all2_later:
  assumes "list_all2 (\<lambda>x ev. P x ev \<and> Q x ev \<and> R x ev \<and> (ew_status ev = Written \<longrightarrow> stored E db1 db2 M2 x ev)) xs evs"
    and "ev \<in> set evs" "ew_status ev = Written"
  shows "lev_max E db1 < unat (ew_levId ev)"
proof -
  obtain i where i: "i < length evs" "ev = evs ! i" using assms(2) by (metis in_set_conv_nth)
  from list_all2_nthD2 [OF assms(1) i(1)] assms(3) show ?thesis by (simp add: i stored_def)
qed

lemma write_loop_correct:
  assumes "holds E L tree_items fs db M" "consistent M" "\<And>x. x \<in> set xs \<Longrightarrow> wf_event (fst x) \<and> full_refs (fst x)"
    and "lev_max E db + length xs < 2 ^ 64"
  shows "\<exists>evs db' M'. write_loop E L fs prev (map (to_write L) xs) db = Inr (evs, db') \<and>
    spec_run M prev (zip (map fst xs) (map ew_levId evs)) = (map ew_status evs, M') \<and>
    holds E L tree_items fs db' M' \<and> consistent M' \<and> kept E db M db' M' \<and>
    list_all2 (\<lambda>x ev. ew_packedStr ev = pack_event L (fst x) \<and> ew_jsonStr ev = fst (snd x) \<and>
      ew_userData ev = snd (snd x) \<and> (ew_status ev = Written \<longrightarrow> stored E db db' M' x ev)) xs evs \<and>
    distinct (map ew_levId (List.filter (\<lambda>ev. ew_status ev = Written) evs))"
  using assms
proof (induction xs arbitrary: db M prev)
  case Nil
  then show ?case by (auto simp: kept_def)
next
  case (Cons x xs)
  have wf: "wf_event (fst x)" "full_refs (fst x)" "Suc (lev_max E db) < 2 ^ 64"
    using Cons.prems(3) [of x] Cons.prems(4) by simp_all
  obtain ev db1 M1 where one: "write_one E L fs prev (to_write L x) db = Inr (ev, db1)"
    "ew_status ev = spec_status M prev (fst x)" "ew_packedStr ev = pack_event L (fst x)"
    "ew_jsonStr ev = fst (snd x)" "ew_userData ev = snd (snd x)"
    "M1 = (if ew_status ev = Written then spec_write (ew_levId ev) M (fst x) else M)"
    "holds E L tree_items fs db1 M1" "consistent M1" "lev_max E db1 \<le> Suc (lev_max E db)" "kept E db M db1 M1"
    "ew_status ev = Written \<Longrightarrow> stored E db db1 M1 x ev"
    by (rule write_one_step [OF Cons.prems(1,2) wf, of prev]) blast
  have room: "lev_max E db1 + length xs < 2 ^ 64" using one(9) Cons.prems(4) by simp
  obtain evs db2 M2 where rest: "write_loop E L fs (Some (ev_id (fst x))) (map (to_write L) xs) db1 = Inr (evs, db2)"
    "spec_run M1 (Some (ev_id (fst x))) (zip (map fst xs) (map ew_levId evs)) = (map ew_status evs, M2)"
    "holds E L tree_items fs db2 M2" "consistent M2" "kept E db1 M1 db2 M2"
    "list_all2 (\<lambda>x ev. ew_packedStr ev = pack_event L (fst x) \<and> ew_jsonStr ev = fst (snd x) \<and>
      ew_userData ev = snd (snd x) \<and> (ew_status ev = Written \<longrightarrow> stored E db1 db2 M2 x ev)) xs evs"
    "distinct (map ew_levId (List.filter (\<lambda>ev. ew_status ev = Written) evs))"
    using Cons.IH [OF one(7,8) Cons.prems(3) [OF list.set_intros(2)] room, of "Some (ev_id (fst x))"] by blast
  have "write_loop E L fs prev (map (to_write L) (x # xs)) db = Inr (ev # evs, db2)"
    using wf(1) by (simp add: one(1) rest(1))
  moreover have "spec_run M prev (zip (map fst (x # xs)) (map ew_levId (ev # evs))) = (map ew_status (ev # evs), M2)"
    using rest(2) unfolding one(6) by (simp add: one(2) [symmetric] Let_def)
  moreover have "kept E db M db2 M2" by (rule kept_trans [OF one(10) rest(5)])
  moreover have "list_all2 (\<lambda>x ev. ew_packedStr ev = pack_event L (fst x) \<and> ew_jsonStr ev = fst (snd x) \<and>
      ew_userData ev = snd (snd x) \<and> (ew_status ev = Written \<longrightarrow> stored E db db2 M2 x ev)) (x # xs) (ev # evs)"
    using one(3-5) stored_kept [OF one(11) rest(5)] list.rel_mono_strong [OF rest(6)] stored_later [OF _ one(10)] by simp
  moreover have "distinct (map ew_levId (List.filter (\<lambda>ev. ew_status ev = Written) (ev # evs)))"
    using rest(7) one(11) list_all2_later [OF rest(6)] by (auto simp: stored_def dest!: leD)
  ultimately show ?case using rest(3,4) by blast
qed

lemma sort_events_correct:
  assumes "\<And>x. x \<in> set xs \<Longrightarrow> wf_event (fst x)"
  shows "sort_events L (map (to_write L) xs) = Inr (map (to_write L) (batch_order xs))"
proof -
  have "mapE (\<lambda>ev. PackedEventView (ew_packedStr ev)) (map (to_write L) xs) = Inr (map (\<lambda>x. pack_event L (fst x)) xs)"
    using assms by (induction xs) simp_all
  then have "sort_events L (map (to_write L) xs) =
      Inr (map (to_write L) (sort_key (\<lambda>x. (packed_created_at L (pack_event L (fst x)), packed_id (pack_event L (fst x)))) xs))"
    by (simp add: sort_events_def sort_key_map)
  also have "sort_key (\<lambda>x. (packed_created_at L (pack_event L (fst x)), packed_id (pack_event L (fst x)))) xs = batch_order xs"
    unfolding batch_order_def by (rule sort_key_cong) (simp add: assms)
  finally show ?thesis .
qed

lemma writeEvents_correct:
  assumes "freshenCache E L db cache = Inr cache'" "holds E L tree_items (fc_filters cache') db M" "consistent M"
    and wf: "\<And>x. x \<in> set xs \<Longrightarrow> wf_event (fst x) \<and> full_refs (fst x)" and "lev_max E db + length xs < 2 ^ 64"
  obtains evs db' M' where "writeEvents E L cache (map (to_write L) xs) db = Inr (evs, db', cache')"
    "spec_run M None (zip (map fst (batch_order xs)) (map ew_levId evs)) = (map ew_status evs, M')"
    "holds E L tree_items (fc_filters cache') db' M'" "consistent M'" "kept E db M db' M'"
    "list_all2 (\<lambda>x ev. ew_packedStr ev = pack_event L (fst x) \<and> ew_jsonStr ev = fst (snd x) \<and>
      ew_userData ev = snd (snd x) \<and> (ew_status ev = Written \<longrightarrow> stored E db db' M' x ev)) (batch_order xs) evs"
    "distinct (map ew_levId (List.filter (\<lambda>ev. ew_status ev = Written) evs))"
proof -
  have set: "set (batch_order xs) = set xs" "length (batch_order xs) = length xs" by (simp_all add: batch_order_def)
  have "\<And>x. x \<in> set (batch_order xs) \<Longrightarrow> wf_event (fst x) \<and> full_refs (fst x)"
    and "lev_max E db + length (batch_order xs) < 2 ^ 64"
    using wf assms(5) by (simp_all add: set)
  from write_loop_correct [OF assms(2,3) this, of None] obtain evs db' M'
    where run: "write_loop E L (fc_filters cache') None (map (to_write L) (batch_order xs)) db = Inr (evs, db')"
    "spec_run M None (zip (map fst (batch_order xs)) (map ew_levId evs)) = (map ew_status evs, M')"
    "holds E L tree_items (fc_filters cache') db' M'" "consistent M'" "kept E db M db' M'"
    "list_all2 (\<lambda>x ev. ew_packedStr ev = pack_event L (fst x) \<and> ew_jsonStr ev = fst (snd x) \<and>
      ew_userData ev = snd (snd x) \<and> (ew_status ev = Written \<longrightarrow> stored E db db' M' x ev)) (batch_order xs) evs"
    "distinct (map ew_levId (List.filter (\<lambda>ev. ew_status ev = Written) evs))"
    by blast
  have "writeEvents E L cache (map (to_write L) xs) db = Inr (evs, db', cache')"
    using sort_events_correct [of xs] wf by (simp add: writeEvents_def assms(1) run(1))
  from this run(2-7) show thesis by (rule that)
qed

lemma deleteEvents_store:
  assumes "freshenCache E L db cache = Inr cache'" "holds E L tree_items (fc_filters cache') db M" "consistent M"
  obtains db' where "deleteEvents E L cache levIds db = Inr (of_nat (card (set levIds \<inter> dom M)), db', cache')"
    "holds E L tree_items (fc_filters cache') db' (M |` (- set levIds))" "consistent (M |` (- set levIds))"
proof -
  from delete_all_events [OF assms(2) consistent_unique_ids [OF assms(3)], of levIds 0] obtain db'
    where db': "foldE (delete_one E L (fc_filters cache')) levIds (db, 0) = Inr (db', of_nat (card (set levIds \<inter> dom M)))"
      "holds E L tree_items (fc_filters cache') db' (M |` (- set levIds))" by auto
  have "consistent (M |` (- set levIds))"
    by (rule consistent_submap [OF assms(3)]) (auto simp: map_le_def restrict_map_def split: if_splits)
  with db' show thesis by (intro that) (simp_all add: deleteEvents_def assms(1))
qed

text \<open>Walking over all events; the most recent one.\<close>

lemma finite_store: "holds E L tree_items fs db M \<Longrightarrow> finite (dom M)"
proof -
  assume "holds E L tree_items fs db M"
  then have "dom (lookup_Event E db) = dom M" by (auto simp: holds_def)
  then show "finite (dom M)" using finite_events [of db] by simp
qed

lemma foreach_holds:
  assumes "holds E L tree_items fs db M"
  shows "foreach_Event E db False start =
    map (\<lambda>l. (l, pack_event L (the (M l)))) (sorted_list_of_set {l \<in> dom M. \<forall>s. start = Some s \<longrightarrow> s \<le> l})"
proof -
  let ?A = "{l \<in> dom M. \<forall>s. start = Some s \<longrightarrow> s \<le> l}" and ?xs = "foreach_Event E db False start"
  have look: "lookup_Event E db l = map_option (pack_event L) (M l)" for l using assms by (simp add: holds_def)
  have pairs: "snd x = pack_event L (the (M (fst x)))" "fst x \<in> ?A" if "x \<in> set ?xs" for x
    using that foreach_set [of db start] by (auto simp: look)
  have "set (map fst ?xs) = ?A"
  proof
    show "set (map fst ?xs) \<subseteq> ?A" using pairs(2) unfolding set_map by blast
    show "?A \<subseteq> set (map fst ?xs)"
    proof
      fix l assume l: "l \<in> ?A"
      then have "(l, pack_event L (the (M l))) \<in> set ?xs" unfolding foreach_set by (auto simp: look)
      then show "l \<in> set (map fst ?xs)" by force
    qed
  qed
  moreover have "sorted_wrt (<) (map fst ?xs)" using foreach_sorted [of db start] by (simp add: sorted_wrt_map)
  then have "sorted_list_of_set (set (map fst ?xs)) = map fst ?xs"
    unfolding strict_sorted_iff by (elim conjE) (rule sorted_list_of_set.idem_if_sorted_distinct)
  ultimately have "map fst ?xs = sorted_list_of_set ?A" by simp
  moreover have "map (\<lambda>x. (fst x, pack_event L (the (M (fst x))))) ?xs = ?xs"
    by (rule map_idI) (metis pairs(1) prod.collapse)
  then have "map (\<lambda>l. (l, pack_event L (the (M l)))) (map fst ?xs) = ?xs" by (simp only: map_map comp_def)
  ultimately show ?thesis by simp
qed

lemma most_recent:
  assumes "holds E L tree_items fs db M"
  shows "l \<in> dom M \<Longrightarrow> l \<le> getMostRecentLevId E db" "getMostRecentLevId E db \<in> insert 0 (dom M)"
proof -
  let ?ls = "sorted_list_of_set (dom M)"
  have fin: "finite (dom M)" by (rule finite_store [OF assms])
  have id: "getMostRecentLevId E db = (if ?ls = [] then 0 else last ?ls)"
  proof (cases "rev ?ls")
    case (Cons x xs)
    then have "?ls = rev xs @ [x]" by (metis rev_rev_ident rev.simps(2))
    then show ?thesis by (simp add: getMostRecentLevId_def foreach_rev foreach_holds [OF assms])
  qed (simp add: getMostRecentLevId_def foreach_rev foreach_holds [OF assms])
  have "last ?ls \<in> dom M" if "?ls \<noteq> []" using that fin by (metis last_in_set set_sorted_list_of_set)
  then show "getMostRecentLevId E db \<in> insert 0 (dom M)" using id by simp
  show "l \<le> getMostRecentLevId E db" if "l \<in> dom M"
  proof -
    have l: "l \<in> set ?ls" using that fin by simp
    then have ne: "?ls \<noteq> []" by auto
    have "sorted (butlast ?ls @ [last ?ls])" using ne by simp
    then have "\<forall>x\<in>set (butlast ?ls @ [last ?ls]). x \<le> last ?ls" by (auto simp: sorted_append)
    then show ?thesis using l ne id by simp
  qed
qed

end

section \<open>A database with one event\<close>

definition ev_old :: event where
  "ev_old = \<lparr>ev_id = replicate 32 CHR ''a'', ev_pubkey = replicate 32 CHR ''p'', ev_created_at = 100,
     ev_kind = 30078, ev_expiration = 0, ev_tags = [(CHR ''d'', ''slot'')]\<rparr>"

definition ev_new :: event where
  "ev_new = \<lparr>ev_id = replicate 32 CHR ''b'', ev_pubkey = replicate 32 CHR ''p'', ev_created_at = 200,
     ev_kind = 30078, ev_expiration = 0, ev_tags = [(CHR ''d'', ''slot'')]\<rparr>"

definition one_db :: mem_db where
  "one_db = \<lparr>md_events = [(1, pack_event le_lib ev_old)], md_payloads = [(1, CHR 0x00 # ''{}'')],
     md_trees = [], md_filters = [], md_counter = 0\<rparr>"

definition no_filters :: filter_cache where
  "no_filters = \<lparr>fc_filters = [], fc_modificationCounter = 0\<rparr>"

lemma one_db_facts:
  "freshenCache mem_env le_lib one_db no_filters = Inr no_filters"
  "holds mem_env le_lib mem_tree_items (fc_filters no_filters) one_db [1 \<mapsto> ev_old]"
  "consistent [1 \<mapsto> ev_old]" "wf_event ev_old" "wf_event ev_new" "full_refs ev_new"
  "lev_max mem_env one_db = 1"
proof -
  show wf: "wf_event ev_old" "wf_event ev_new" by (simp_all add: ev_old_def ev_new_def wf_event_def)
  show "full_refs ev_new" by (simp add: full_refs_def ev_new_def)
  show "freshenCache mem_env le_lib one_db no_filters = Inr no_filters"
    by (simp add: freshenCache_def one_db_def no_filters_def)
  show "holds mem_env le_lib mem_tree_items (fc_filters no_filters) one_db [1 \<mapsto> ev_old]"
    using wf by (simp add: holds_def one_db_def no_filters_def fun_eq_iff)
  show "consistent [1 \<mapsto> ev_old]" using wf by (simp add: consistent_def split: if_splits)
  show "lev_max mem_env one_db = 1" by (simp add: lev_max_def one_db_def)
qed

lemma one_db_write:
  obtains ev db' where
    "writeEvents mem_env le_lib no_filters (map (to_write le_lib) [(ev_new, ''[]'', None)]) one_db = Inr ([ev], db', no_filters)"
    "ew_status ev = Written" "lookup_Event mem_env db' (ew_levId ev) \<noteq> None"
    "lookup_Event mem_env db' 1 \<noteq> lookup_Event mem_env one_db 1"
proof -
  let ?xs = "[(ev_new, ''[]'', None :: nat option)]"
  obtain evs db' M' where run: "writeEvents mem_env le_lib no_filters (map (to_write le_lib) ?xs) one_db = Inr (evs, db', no_filters)"
    "spec_run [1 \<mapsto> ev_old] None (zip (map fst (batch_order ?xs)) (map ew_levId evs)) = (map ew_status evs, M')"
    "holds mem_env le_lib mem_tree_items (fc_filters no_filters) db' M'"
    "list_all2 (\<lambda>x ev. ew_packedStr ev = pack_event le_lib (fst x) \<and> ew_jsonStr ev = fst (snd x) \<and>
      ew_userData ev = snd (snd x) \<and> (ew_status ev = Written \<longrightarrow> stored mem_env one_db db' M' x ev)) (batch_order ?xs) evs"
    by (rule mem.writeEvents_correct [OF one_db_facts(1-3), of ?xs]) (simp_all add: one_db_facts)
  then obtain ev where ev: "evs = [ev]" by (auto simp: batch_order_def list_all2_Cons1)
  have st: "spec_status [1 \<mapsto> ev_old] None ev_new = Written"
    by (simp add: spec_status_def has_id_def deletes_def beats_def ev_old_def ev_new_def)
  have slot: "victims [1 \<mapsto> ev_old] ev_new = {1}"
    by (auto simp: victims_def same_slot_def ev_old_def ev_new_def isParamReplaceableKind_def first_d_def split: if_splits)
  have w: "ew_status ev = Written" "M' = spec_write (ew_levId ev) [1 \<mapsto> ev_old] ev_new"
    using run(2) by (simp_all add: ev batch_order_def st)
  have "ew_levId ev \<noteq> 1"
    using run(4) w(1) one_db_facts(7) by (auto simp: ev batch_order_def stored_def)
  with w(2) have M': "M' (ew_levId ev) = Some ev_new" "M' 1 = None"
    by (simp_all add: spec_write_def slot)
  have look: "lookup_Event mem_env db' l = map_option (pack_event le_lib) (M' l)" for l
    using run(3) unfolding holds_def by (simp only:)
  show thesis
  proof (rule that)
    show "writeEvents mem_env le_lib no_filters (map (to_write le_lib) ?xs) one_db = Inr ([ev], db', no_filters)"
      using run(1) by (simp only: ev)
    show "ew_status ev = Written" by (rule w(1))
    show "lookup_Event mem_env db' (ew_levId ev) \<noteq> None" unfolding look M' by simp
    show "lookup_Event mem_env db' 1 \<noteq> lookup_Event mem_env one_db 1" unfolding look M' by (simp add: one_db_def)
  qed
qed

section \<open>Properties\<close>

text \<open>
  C4. \<^verbatim>\<open>writeEvents\<close> implements the rule of the abstract store: from a consistent database it
  returns without an exception, and the statuses and the stored events are those of writing
  the batch, in the order of time and id, one event after the other (duplicate, deleted by an
  earlier deletion event, replaced by a newer version, or written, with the version it
  replaces and the events it deletes removed).  The indexes, the payloads and the negentropy
  trees keep agreeing with the stored events, and the store stays consistent.
\<close>

theorem writeEvents_refines:
  assumes "event_env L E key_le tree_items"
    and "freshenCache E L db cache = Inr cache'" "holds E L tree_items (fc_filters cache') db M" "consistent M"
    and "\<And>x. x \<in> set xs \<Longrightarrow> wf_event (fst x) \<and> full_refs (fst x)" "lev_max E db + length xs < 2 ^ 64"
  shows "\<exists>evs db' M'. writeEvents E L cache (map (to_write L) xs) db = Inr (evs, db', cache') \<and>
    spec_run M None (zip (map fst (batch_order xs)) (map ew_levId evs)) = (map ew_status evs, M') \<and>
    holds E L tree_items (fc_filters cache') db' M' \<and> consistent M'"
  by (rule event_env.writeEvents_correct [OF assms]) (assumption | intro exI conjI)+

theorem writeEvents_refines_witness:
  "\<exists>evs db' M'. writeEvents mem_env le_lib no_filters (map (to_write le_lib) [(ev_new, ''[]'', None)]) one_db =
      Inr (evs, db', no_filters) \<and>
    spec_run [1 \<mapsto> ev_old] None (zip (map fst (batch_order [(ev_new, ''[]'', None :: nat option)])) (map ew_levId evs)) =
      (map ew_status evs, M') \<and>
    holds mem_env le_lib mem_tree_items (fc_filters no_filters) db' M' \<and> consistent M'"
  by (rule writeEvents_refines [OF mem.event_env_axioms one_db_facts(1-3)])
    (simp_all add: one_db_facts)

text \<open>
  C20. Every event that \<^verbatim>\<open>writeEvents\<close> reports as written is in the database under the levId it
  reports, and the JSON text that is read back is the one that was handed over with it, unless
  an event that the same batch wrote after it, by the same author, replaced or deleted it; then
  it is not there.
\<close>

theorem writeEvents_readable:
  assumes "event_env L E key_le tree_items"
    and "freshenCache E L db cache = Inr cache'" "holds E L tree_items (fc_filters cache') db M" "consistent M"
    and "\<And>x. x \<in> set xs \<Longrightarrow> wf_event (fst x) \<and> full_refs (fst x)" "lev_max E db + length xs < 2 ^ 64"
    and "writeEvents E L cache (map (to_write L) xs) db = Inr (evs, db', cache'')"
    and "i < length evs" "ew_status (evs ! i) = Written"
  shows "length evs = length xs \<and> ew_packedStr (evs ! i) = pack_event L (fst (batch_order xs ! i)) \<and>
    (lookup_Event E db' (ew_levId (evs ! i)) = Some (ew_packedStr (evs ! i)) \<and>
       getEventJson E from_sv32 decompress db' (ew_levId (evs ! i)) = Inr (fst (snd (batch_order xs ! i))) \<or>
     lookup_Event E db' (ew_levId (evs ! i)) = None \<and>
       (\<exists>j<length evs. i < j \<and> ew_status (evs ! j) = Written \<and> ev_pubkey (fst (batch_order xs ! j)) = ev_pubkey (fst (batch_order xs ! i)) \<and>
          (same_slot (fst (batch_order xs ! j)) (fst (batch_order xs ! i)) \<and> beats (fst (batch_order xs ! j)) (fst (batch_order xs ! i)) \<or>
           deletes (fst (batch_order xs ! j)) (fst (batch_order xs ! i)))))"
proof -
  obtain evs1 db1 M' where run: "writeEvents E L cache (map (to_write L) xs) db = Inr (evs1, db1, cache')"
    "spec_run M None (zip (map fst (batch_order xs)) (map ew_levId evs1)) = (map ew_status evs1, M')"
    "holds E L tree_items (fc_filters cache') db1 M'"
    "list_all2 (\<lambda>x ev. ew_packedStr ev = pack_event L (fst x) \<and> ew_jsonStr ev = fst (snd x) \<and>
      ew_userData ev = snd (snd x) \<and> (ew_status ev = Written \<longrightarrow> stored E db db1 M' x ev)) (batch_order xs) evs1"
    "distinct (map ew_levId (List.filter (\<lambda>ev. ew_status ev = Written) evs1))"
    by (rule event_env.writeEvents_correct [OF assms(1-6)])
  then have eq: "evs1 = evs" "db1 = db'" using assms(7) by simp_all
  have len: "length evs = length xs" "length (batch_order xs) = length evs" using list_all2_lengthD [OF run(4)] by (simp_all add: eq batch_order_def)
  have at: "ew_packedStr (evs ! i) = pack_event L (fst (batch_order xs ! i))"
    "stored E db db' M' (batch_order xs ! i) (evs ! i)"
    using list_all2_nthD2 [OF run(4), of i] assms(8,9) by (simp_all add: eq)
  show ?thesis
  proof (cases "M' (ew_levId (evs ! i))")
    case (Some e)
    then show ?thesis using at len run(3)
      by (auto simp: stored_def eq holds_def getEventJson_def decodeEventPayload_def substr_def)
  next
    case None
    let ?es = "zip (map fst (batch_order xs)) (map ew_levId evs)"
    have nth: "fst (?es ! j) = fst (batch_order xs ! j)" "snd (?es ! j) = ew_levId (evs ! j)" if "j < length evs" for j using that len(2) by simp_all
    have sizes: "length (map ew_status evs) = length ?es" "length ?es = length evs" using len(2) by simp_all
    have uniq: "\<forall>j<length ?es. \<forall>k<length ?es. map ew_status evs ! j = Written \<longrightarrow> map ew_status evs ! k = Written \<longrightarrow> snd (?es ! j) = snd (?es ! k) \<longrightarrow> j = k"
      using distinct_filter_nth [OF run(5) [unfolded eq]] sizes(2) nth(2) by simp
    have "i < length ?es" "map ew_status evs ! i = Written" "M' (snd (?es ! i)) = None" using assms(8,9) sizes(2) nth(2) None by simp_all
    from spec_run_removed_later [OF run(2) [unfolded eq] sizes(1) this uniq] obtain j where j: "j < length evs" "i < j" "ew_status (evs ! j) = Written"
      "same_slot (fst (batch_order xs ! j)) (fst (batch_order xs ! i)) \<and> beats (fst (batch_order xs ! j)) (fst (batch_order xs ! i)) \<or>
       deletes (fst (batch_order xs ! j)) (fst (batch_order xs ! i))"
      unfolding sizes(2) using nth(1) assms(8) by (metis nth_map)
    moreover from this(4) have "ev_pubkey (fst (batch_order xs ! j)) = ev_pubkey (fst (batch_order xs ! i))" unfolding same_slot_def deletes_def by blast
    moreover have "lookup_Event E db' (ew_levId (evs ! i)) = None" using run(3) None by (simp add: holds_def eq)
    ultimately show ?thesis using at(1) len(1) by blast
  qed
qed

theorem writeEvents_readable_witness:
  "\<exists>ev db'. writeEvents mem_env le_lib no_filters (map (to_write le_lib) [(ev_new, ''[]'', None)]) one_db =
      Inr ([ev], db', no_filters) \<and> ew_status ev = Written \<and> lookup_Event mem_env db' (ew_levId ev) = Some (ew_packedStr ev) \<and>
    getEventJson mem_env (\<lambda>_. 0) (\<lambda>_ _. Inl UB) db' (ew_levId ev) = Inr ''[]''"
proof -
  obtain ev db' where run: "writeEvents mem_env le_lib no_filters (map (to_write le_lib) [(ev_new, ''[]'', None)]) one_db =
      Inr ([ev], db', no_filters)" "ew_status ev = Written"
    by (rule one_db_write)
  have wf: "\<And>x. x \<in> set [(ev_new, ''[]'', None :: nat option)] \<Longrightarrow> wf_event (fst x) \<and> full_refs (fst x)" by (simp add: one_db_facts)
  have room: "lev_max mem_env one_db + length [(ev_new, ''[]'', None :: nat option)] < 2 ^ 64" by (simp add: one_db_facts)
  from writeEvents_readable [OF mem.event_env_axioms one_db_facts(1-3) wf room run(1), of 0 "\<lambda>_. 0" "\<lambda>_ _. Inl UB"] run(2)
  have "lookup_Event mem_env db' (ew_levId ev) = Some (ew_packedStr ev)"
    "getEventJson mem_env (\<lambda>_. 0) (\<lambda>_ _. Inl UB) db' (ew_levId ev) = Inr ''[]''"
    by (auto simp: batch_order_def)
  with run show ?thesis by blast
qed

text \<open>
  C19. An event leaves the database in \<^verbatim>\<open>writeEvents\<close> only because its own author sent, in the
  same batch, a newer version of the same replaceable event (or an equally old one with a
  lower id), or a deletion event that names it.
\<close>

theorem writeEvents_only_author:
  assumes "event_env L E key_le tree_items"
    and "freshenCache E L db cache = Inr cache'" "holds E L tree_items (fc_filters cache') db M" "consistent M"
    and "\<And>x. x \<in> set xs \<Longrightarrow> wf_event (fst x) \<and> full_refs (fst x)" "lev_max E db + length xs < 2 ^ 64"
    and "writeEvents E L cache (map (to_write L) xs) db = Inr (evs, db', cache'')"
    and "M l = Some e" "lookup_Event E db' l \<noteq> lookup_Event E db l"
  shows "\<exists>x\<in>set xs. ev_pubkey (fst x) = ev_pubkey e \<and> (same_slot (fst x) e \<and> beats (fst x) e \<or> deletes (fst x) e)"
proof -
  obtain evs1 db1 M' where run: "writeEvents E L cache (map (to_write L) xs) db = Inr (evs1, db1, cache')"
    "spec_run M None (zip (map fst (batch_order xs)) (map ew_levId evs1)) = (map ew_status evs1, M')"
    "holds E L tree_items (fc_filters cache') db1 M'" "kept E db M db1 M'"
    "list_all2 (\<lambda>x ev. ew_packedStr ev = pack_event L (fst x) \<and> ew_jsonStr ev = fst (snd x) \<and>
      ew_userData ev = snd (snd x) \<and> (ew_status ev = Written \<longrightarrow> stored E db db1 M' x ev)) (batch_order xs) evs1"
    by (rule event_env.writeEvents_correct [OF assms(1-6)]) blast
  then have eq: "evs1 = evs" "db1 = db'" using assms(7) by simp_all
  have "lookup_Event E db l \<noteq> None" using assms(3,8) by (simp add: holds_def)
  then have old: "unat l \<le> lev_max E db"
    unfolding lev_max_def using event_env.finite_events [OF assms(1)] by (intro Max_ge) auto
  have "M' l \<noteq> M l" using assms(3,9) run(3) unfolding holds_def eq by auto
  then have gone: "M' l = None" using run(4) old unfolding kept_def by blast
  have len: "length (batch_order xs) = length evs1" using list_all2_lengthD [OF run(5)] .
  have "list_all2 (\<lambda>p st. st = Written \<longrightarrow> snd p \<noteq> l) (zip (map fst (batch_order xs)) (map ew_levId evs1)) (map ew_status evs1)"
    using run(5) old len by (auto simp: list_all2_conv_all_nth stored_def)
  from spec_run_removes [OF run(2) assms(8) gone this] obtain x where
    x: "x \<in> set (batch_order xs)" "(same_slot (fst x) e \<and> beats (fst x) e) \<or> deletes (fst x) e"
    using set_zip_leftD by fastforce
  then have "ev_pubkey (fst x) = ev_pubkey e" unfolding same_slot_def deletes_def by blast
  with x show ?thesis by (auto simp: batch_order_def)
qed

theorem writeEvents_only_author_witness:
  "\<exists>ev db' x. writeEvents mem_env le_lib no_filters (map (to_write le_lib) [(ev_new, ''[]'', None)]) one_db =
      Inr ([ev], db', no_filters) \<and> lookup_Event mem_env db' 1 \<noteq> lookup_Event mem_env one_db 1 \<and>
    x \<in> set [(ev_new, ''[]'', None :: nat option)] \<and> ev_pubkey (fst x) = ev_pubkey ev_old"
proof -
  obtain ev db' where run: "writeEvents mem_env le_lib no_filters (map (to_write le_lib) [(ev_new, ''[]'', None)]) one_db =
      Inr ([ev], db', no_filters)" "lookup_Event mem_env db' 1 \<noteq> lookup_Event mem_env one_db 1"
    by (rule one_db_write)
  have "\<exists>x\<in>set [(ev_new, ''[]'', None :: nat option)]. ev_pubkey (fst x) = ev_pubkey ev_old \<and>
      (same_slot (fst x) ev_old \<and> beats (fst x) ev_old \<or> deletes (fst x) ev_old)"
    by (rule writeEvents_only_author [OF mem.event_env_axioms one_db_facts(1-3) _ _ run(1) _ run(2)])
      (simp_all add: one_db_facts)
  with run show ?thesis by blast
qed

text \<open>
  C25. \<^verbatim>\<open>deleteEvents\<close> returns the number of different stored events that the levIds name,
  removes exactly those from the database, its payloads and its trees, and leaves a
  consistent store.
\<close>

theorem deleteEvents_exact:
  assumes "event_env L E key_le tree_items"
    and "freshenCache E L db cache = Inr cache'" "holds E L tree_items (fc_filters cache') db M" "consistent M"
  shows "\<exists>db'. deleteEvents E L cache levIds db = Inr (of_nat (card (set levIds \<inter> dom M)), db', cache') \<and>
    holds E L tree_items (fc_filters cache') db' (M |` (- set levIds)) \<and> consistent (M |` (- set levIds))"
  by (rule event_env.deleteEvents_store [OF assms]) blast

theorem deleteEvents_exact_witness:
  "\<exists>db'. deleteEvents mem_env le_lib no_filters [1, 1] one_db =
      Inr (of_nat (card (set [1, 1 :: u64] \<inter> dom [1 \<mapsto> ev_old])), db', no_filters) \<and>
    holds mem_env le_lib mem_tree_items (fc_filters no_filters) db' ([1 \<mapsto> ev_old] |` (- set [1, 1])) \<and>
    consistent ([1 \<mapsto> ev_old] |` (- set [1, 1]))"
  by (rule deleteEvents_exact [OF mem.event_env_axioms one_db_facts(1-3)])

end
