(* ===== verification/Db_Query.thy ===== *)
theory Db_Query
  imports Event_Write
begin

text \<open>
  The query engine (\<^verbatim>\<open>src/src/DBQuery.h\<close>): a scan walks one index with a cursor for each
  value the filter names, merging their entries into a queue in descending order of time,
  and can pause and resume; a query runs one scan for each filter of a subscription.

  Both loops of a scan may in principle go on for ever, so they run on fuel, and running
  out of it is the value \<open>None\<close>.  The clock is a sequence of readings; the number of the
  next one is part of the state.
\<close>

unbundle bit_operations_syntax

section \<open>Candidates\<close>

record candidate =
  ce_packed :: u64
  ce_levIdStorage :: u64

definition CandidateEvent :: "u64 \<Rightarrow> u64 \<Rightarrow> u64 \<Rightarrow> candidate" where
  "CandidateEvent levId created scanIndex =
     \<lparr>ce_packed = push_bit 40 scanIndex OR created, ce_levIdStorage = levId\<rparr>"

definition ce_levId :: "candidate \<Rightarrow> u64" where
  "ce_levId c = ce_levIdStorage c"

definition ce_created :: "candidate \<Rightarrow> u64" where
  "ce_created c = ce_packed c AND 0xFFFFFFFFFF"

definition ce_scanIndex :: "candidate \<Rightarrow> u64" where
  "ce_scanIndex c = drop_bit 40 (ce_packed c)"

section \<open>Cursors\<close>

text \<open>The predicates that the constructor of a scan builds for its cursors.\<close>

datatype key_match = MatchPrefix string | MatchExact string | MatchKind u64 | MatchAny

fun keyMatch :: "'db env \<Rightarrow> key_match \<Rightarrow> string \<Rightarrow> bool" where
  "keyMatch E (MatchPrefix search) k = starts_with k search"
| "keyMatch E (MatchExact search) k = (length k = length search + 8 \<and> starts_with k search)"
| "keyMatch E (MatchKind kind) k = (fst (parseKey_Uint64Uint64 E k) = kind)"
| "keyMatch E MatchAny k = True"

record scan_cursor =
  sc_resumeKey :: string
  sc_resumeVal :: u64
  sc_keyMatch :: key_match
  sc_outstanding :: u64

definition sc_active :: "scan_cursor \<Rightarrow> bool" where
  "sc_active c \<longleftrightarrow> length (sc_resumeKey c) > 0"

text \<open>
  The callback of \<^verbatim>\<open>generic_foreachFull\<close> on the entries it hands over: the cursor, the
  remaining limit and the output; the flag says that the entries ran out.
\<close>

fun collect_entries ::
    "'db env \<Rightarrow> nostr_filter \<Rightarrow> u64 \<Rightarrow> (string \<times> u64) list \<Rightarrow> scan_cursor \<times> u64 \<times> u64 \<times> candidate list \<Rightarrow>
     bool \<times> scan_cursor \<times> u64 \<times> u64 \<times> candidate list" where
  "collect_entries E f scanIndex [] st = (True, st)"
| "collect_entries E f scanIndex ((k, v) # xs) (c, limit, added, output) =
     (if limit = 0 then (False, c\<lparr>sc_resumeKey := k, sc_resumeVal := v\<rparr>, limit, added, output)
      else if \<not> keyMatch E (sc_keyMatch c) k then (False, c\<lparr>sc_resumeKey := []\<rparr>, limit, added, output)
      else let (s, created) = parseKey_StringUint64 E k
        in if nf_since f \<noteq> 0 \<and> created < nf_since f then
             (False, c\<lparr>sc_resumeKey := makeKey_StringUint64 E s 0, sc_resumeVal := 0\<rparr>, limit, added, output)
           else if nf_until f \<noteq> 0 \<and> created > nf_until f then
             (False, c\<lparr>sc_resumeKey := makeKey_StringUint64 E s (nf_until f), sc_resumeVal := MAX_U64\<rparr>,
              limit, added, output)
           else collect_entries E f scanIndex xs
                  (c, limit - 1, added + 1, output @ [CandidateEvent v created scanIndex]))"

fun collect_loop ::
    "nat \<Rightarrow> 'db env \<Rightarrow> 'db \<Rightarrow> nostr_filter \<Rightarrow> db_index \<Rightarrow> u64 \<Rightarrow> scan_cursor \<times> u64 \<times> u64 \<times> candidate list \<Rightarrow>
     (scan_cursor \<times> u64 \<times> u64 \<times> candidate list) option" where
  "collect_loop 0 E db f ix scanIndex st = None"
| "collect_loop (Suc n) E db f ix scanIndex (c, limit, added, output) =
     (if sc_active c \<and> limit > 0 then
        (let (finished, c', limit', added', output') = collect_entries E f scanIndex
               (foreachFull E db ix (sc_resumeKey c) (sc_resumeVal c) True) (c, limit, added, output)
         in collect_loop n E db f ix scanIndex
              (if finished then c'\<lparr>sc_resumeKey := []\<rparr> else c', limit', added', output'))
      else Some (c, limit, added, output))"

definition collect ::
    "nat \<Rightarrow> 'db env \<Rightarrow> 'db \<Rightarrow> nostr_filter \<Rightarrow> db_index \<Rightarrow> u64 \<Rightarrow> u64 \<Rightarrow> scan_cursor \<Rightarrow> candidate list \<Rightarrow>
     (u64 \<times> scan_cursor \<times> candidate list) option" where
  "collect n E db f ix scanIndex limit c output =
     (case collect_loop n E db f ix scanIndex (c, limit, 0, output) of
        None \<Rightarrow> None
      | Some (c', _, added, output') \<Rightarrow>
          Some (added, c'\<lparr>sc_outstanding := sc_outstanding c' + added\<rparr>, output'))"

section \<open>Scans\<close>

record dbscan =
  ds_indexOnly :: bool
  ds_indexDbi :: db_index
  ds_cursors :: "scan_cursor list"
  ds_eventQueue :: "candidate list"
  ds_initialScanDepth :: u64
  ds_refillScanDepth :: u64
  ds_nextInitIndex :: nat
  ds_approxWork :: u64

definition new_cursor :: "string \<Rightarrow> key_match \<Rightarrow> scan_cursor" where
  "new_cursor key km = \<lparr>sc_resumeKey = key, sc_resumeVal = MAX_U64, sc_keyMatch = km, sc_outstanding = 0\<rparr>"

definition ff8 :: string where
  "ff8 = replicate 8 (CHR 0xFF)"

text \<open>The tag condition with the fewest values; the first one wins a tie.\<close>

definition pick_tag :: "(char \<times> filter_set_bytes) list \<Rightarrow> char" where
  "pick_tag tags = snd (foldl (\<lambda>(numTags, tagName) (tn, fs).
     if of_nat (FilterSetBytes_size fs) < numTags then (of_nat (FilterSetBytes_size fs), tn)
     else (numTags, tagName)) (MAX_U64, CHR 0x00) tags)"

definition bytes_cursors :: "filter_set_bytes \<Rightarrow> (string \<Rightarrow> scan_cursor) \<Rightarrow> scan_cursor list result" where
  "bytes_cursors fs mk =
     mapE (\<lambda>i. bindE (FilterSetBytes_at fs i) (\<lambda>search. Inr (mk search))) [0..<FilterSetBytes_size fs]"

definition prefix_cursor :: "string \<Rightarrow> scan_cursor" where
  "prefix_cursor search = new_cursor (search @ ff8) (MatchPrefix search)"

definition exact_cursor :: "string \<Rightarrow> scan_cursor" where
  "exact_cursor search = new_cursor (search @ ff8) (MatchExact search)"

definition author_kind_cursors :: "lib \<Rightarrow> filter_set_bytes \<Rightarrow> u64 list \<Rightarrow> scan_cursor list result" where
  "author_kind_cursors L authors kinds =
     bindE (mapE (\<lambda>i. mapE (\<lambda>j.
         bindE (FilterSetUint_at kinds j) (\<lambda>kind.
         bindE (FilterSetBytes_at authors i) (\<lambda>search.
         Inr (prefix_cursor (search @ to_sv L kind))))) [0..<length kinds])
       [0..<FilterSetBytes_size authors]) (\<lambda>css. Inr (concat css))"

text \<open>The index and the cursors that the filter calls for, and whether the index decides alone.\<close>

definition scan_plan :: "lib \<Rightarrow> nostr_filter \<Rightarrow> (db_index \<times> scan_cursor list \<times> bool) result" where
  "scan_plan L f =
     (case nf_ids f of
        Some ids \<Rightarrow> bindE (bytes_cursors ids prefix_cursor) (\<lambda>cs. Inr (Ix_id, cs, nf_indexOnlyScans f))
      | None \<Rightarrow>
     if nf_tags f \<noteq> [] then
       (let tagName = pick_tag (nf_tags f)
        in case map_of (nf_tags f) tagName of
             None \<Rightarrow> Inl OutOfRange
           | Some fs \<Rightarrow> bindE (bytes_cursors fs (\<lambda>v. exact_cursor (tagName # v)))
               (\<lambda>cs. Inr (Ix_tag, cs, nf_indexOnlyScans f)))
     else (case nf_authors f of
        Some authors \<Rightarrow>
          (case nf_kinds f of
             Some kinds \<Rightarrow>
               if FilterSetBytes_size authors * length kinds < 1000 then
                 bindE (author_kind_cursors L authors kinds)
                   (\<lambda>cs. Inr (Ix_pubkeyKind, cs, nf_indexOnlyScans f))
               else bindE (bytes_cursors authors prefix_cursor) (\<lambda>cs. Inr (Ix_pubkey, cs, False))
           | None \<Rightarrow> bindE (bytes_cursors authors prefix_cursor)
               (\<lambda>cs. Inr (Ix_pubkey, cs, nf_indexOnlyScans f)))
      | None \<Rightarrow>
          (case nf_kinds f of
             Some kinds \<Rightarrow>
               bindE (mapE (\<lambda>i. bindE (FilterSetUint_at kinds i) (\<lambda>kind.
                   Inr (new_cursor (to_sv L kind @ ff8) (MatchKind kind)))) [0..<length kinds])
                 (\<lambda>cs. Inr (Ix_kind, cs, nf_indexOnlyScans f))
           | None \<Rightarrow> Inr (Ix_created_at, [new_cursor ff8 MatchAny], nf_indexOnlyScans f))))"

text \<open>\<^verbatim>\<open>std::clamp\<close>, and a division that is undefined without cursors.\<close>

definition DBScan :: "lib \<Rightarrow> nostr_filter \<Rightarrow> dbscan result" where
  "DBScan L f =
     bindE (scan_plan L f) (\<lambda>(ix, cs, indexOnly).
     if cs = [] then Inl UB
     else (let depth = min (max (nf_limit f div of_nat (length cs)) 5) 50
           in Inr \<lparr>ds_indexOnly = indexOnly, ds_indexDbi = ix, ds_cursors = cs, ds_eventQueue = [],
                ds_initialScanDepth = depth, ds_refillScanDepth = 10 * depth, ds_nextInitIndex = 0,
                ds_approxWork = 0\<rparr>))"

text \<open>The comparator \<^verbatim>\<open>cmp\<close>, \<^verbatim>\<open>std::merge\<close> and \<^verbatim>\<open>std::sort\<close> with it.\<close>

definition cand_before :: "candidate \<Rightarrow> candidate \<Rightarrow> bool" where
  "cand_before a b \<longleftrightarrow> (if ce_created a = ce_created b then ce_levId a > ce_levId b
     else ce_created a > ce_created b)"

fun merge_cands :: "candidate list \<Rightarrow> candidate list \<Rightarrow> candidate list" where
  "merge_cands [] ys = ys"
| "merge_cands xs [] = xs"
| "merge_cands (x # xs) (y # ys) =
     (if cand_before y x then y # merge_cands (x # xs) ys else x # merge_cands xs (y # ys))"

definition insert_cand :: "candidate \<Rightarrow> candidate list \<Rightarrow> candidate list" where
  "insert_cand x ys = merge_cands [x] ys"

definition sort_cands :: "candidate list \<Rightarrow> candidate list" where
  "sort_cands xs = foldr insert_cand xs []"

text \<open>Whether the candidate at the head of the queue is sent, and the work that takes.\<close>

definition candidate_matches ::
    "'db env \<Rightarrow> lib \<Rightarrow> 'db \<Rightarrow> nostr_filter \<Rightarrow> bool \<Rightarrow> candidate \<Rightarrow> bool result" where
  "candidate_matches E L db f indexOnly ev =
     (if indexOnly then Inr (doesMatchTimes f (ce_created ev))
      else (case lookup_Event E db (ce_levId ev) of
              None \<Rightarrow> Inr False
            | Some buf \<Rightarrow> bindE (PackedEventView buf) (NostrFilter_doesMatch L f)))"

text \<open>
  One round of the loop of \<^verbatim>\<open>scan\<close>: \<open>Some b\<close> when it returns \<open>b\<close>.  The callbacks
  \<open>handleEvent\<close> and \<open>doPause\<close> work on a state of their own; an access to a cursor that
  does not exist is undefined.
\<close>

definition scan_round ::
    "nat \<Rightarrow> 'db env \<Rightarrow> lib \<Rightarrow> 'db \<Rightarrow> nostr_filter \<Rightarrow> (u64 \<Rightarrow> 's \<Rightarrow> (bool \<times> 's) result) \<Rightarrow>
     (u64 \<Rightarrow> 's \<Rightarrow> bool \<times> 's) \<Rightarrow> dbscan \<times> 's \<Rightarrow> ((bool option \<times> dbscan \<times> 's) result) option" where
  "scan_round n E L db f handleEvent doPause st =
     (let S1 = (fst st)\<lparr>ds_approxWork := ds_approxWork (fst st) + 1\<rparr>;
          (pause, s1) = doPause (ds_approxWork S1) (snd st)
      in if pause then Some (Inr (Some False, S1, s1))
         else if ds_nextInitIndex S1 < length (ds_cursors S1) then
           (case collect n E db f (ds_indexDbi S1) (of_nat (ds_nextInitIndex S1)) (ds_initialScanDepth S1)
                   (ds_cursors S1 ! ds_nextInitIndex S1) (ds_eventQueue S1) of
              None \<Rightarrow> None
            | Some (added, c, queue) \<Rightarrow>
                Some (Inr (None, S1\<lparr>ds_cursors := (ds_cursors S1)[ds_nextInitIndex S1 := c],
                  ds_approxWork := ds_approxWork S1 + added,
                  ds_nextInitIndex := Suc (ds_nextInitIndex S1),
                  ds_eventQueue := (if Suc (ds_nextInitIndex S1) = length (ds_cursors S1)
                    then sort_cands queue else queue)\<rparr>, s1)))
         else (case ds_eventQueue S1 of
            [] \<Rightarrow> Some (Inr (Some True, S1, s1))
          | ev # queue \<Rightarrow>
              (let S2 = S1\<lparr>ds_eventQueue := queue,
                    ds_approxWork := (if ds_indexOnly S1 then ds_approxWork S1 else ds_approxWork S1 + 10)\<rparr>
               in case bindE (candidate_matches E L db f (ds_indexOnly S1) ev) (\<lambda>doSend.
                    if doSend then handleEvent (ce_levId ev) s1 else Inr (False, s1)) of
                    Inl e \<Rightarrow> Some (Inl e)
                  | Inr (stop, s2) \<Rightarrow>
                      if stop then Some (Inr (Some True, S2, s2))
                      else if unat (ce_scanIndex ev) \<ge> length (ds_cursors S2) then Some (Inl UB)
                      else (let i = unat (ce_scanIndex ev); c = ds_cursors S2 ! i;
                                c1 = c\<lparr>sc_outstanding := sc_outstanding c - 1\<rparr>
                            in if sc_outstanding c1 = 0 then
                                 (case collect n E db f (ds_indexDbi S2) (ce_scanIndex ev)
                                         (ds_refillScanDepth S2) c1 [] of
                                    None \<Rightarrow> None
                                  | Some (added, c2, moreEvents) \<Rightarrow>
                                      Some (Inr (None, S2\<lparr>ds_cursors := (ds_cursors S2)[i := c2],
                                        ds_approxWork := ds_approxWork S2 + added,
                                        ds_eventQueue := merge_cands queue moreEvents\<rparr>, s2)))
                               else Some (Inr (None, S2\<lparr>ds_cursors := (ds_cursors S2)[i := c1]\<rparr>, s2))))))"

fun scan_loop ::
    "nat \<Rightarrow> nat \<Rightarrow> 'db env \<Rightarrow> lib \<Rightarrow> 'db \<Rightarrow> nostr_filter \<Rightarrow> (u64 \<Rightarrow> 's \<Rightarrow> (bool \<times> 's) result) \<Rightarrow>
     (u64 \<Rightarrow> 's \<Rightarrow> bool \<times> 's) \<Rightarrow> dbscan \<times> 's \<Rightarrow> ((bool \<times> dbscan \<times> 's) result) option" where
  "scan_loop 0 n E L db f handleEvent doPause st = None"
| "scan_loop (Suc m) n E L db f handleEvent doPause st =
     (case scan_round n E L db f handleEvent doPause st of
        None \<Rightarrow> None
      | Some (Inl e) \<Rightarrow> Some (Inl e)
      | Some (Inr (Some b, S, s)) \<Rightarrow> Some (Inr (b, S, s))
      | Some (Inr (None, S, s)) \<Rightarrow> scan_loop m n E L db f handleEvent doPause (S, s))"

section \<open>Queries\<close>

record dbquery =
  dq_sub :: subscription
  dq_scanner :: "dbscan option"
  dq_filterGroupIndex :: nat
  dq_dead :: bool
  dq_sentEventsFull :: "u64 set"
  dq_sentEventsCurr :: "u64 set"
  dq_lastWorkChecked :: u64
  dq_currScanTime :: u64
  dq_currScanSaveRestores :: u64
  dq_totalTime :: u64
  dq_totalWork :: u64

definition DBQuery :: "subscription \<Rightarrow> dbquery" where
  "DBQuery sub = \<lparr>dq_sub = sub, dq_scanner = None, dq_filterGroupIndex = 0, dq_dead = False,
     dq_sentEventsFull = {}, dq_sentEventsCurr = {}, dq_lastWorkChecked = 0, dq_currScanTime = 0,
     dq_currScanSaveRestores = 0, dq_totalTime = 0, dq_totalWork = 0\<rparr>"

definition DBQuery_filter :: "lib \<Rightarrow> json \<Rightarrow> u64 \<Rightarrow> dbquery result" where
  "DBQuery_filter L filt maxLimit =
     bindE (NostrFilterGroup_unwrapped L filt maxLimit) (\<lambda>fg.
     bindE (Subscription 1 ''.'' fg) (\<lambda>sub. Inr (DBQuery sub)))"

text \<open>The callbacks work on the query, the number of the next clock reading and the state of \<open>cb\<close>.\<close>

definition query_handleEvent ::
    "nostr_filter \<Rightarrow> (u64 \<Rightarrow> 'c \<Rightarrow> 'c result) \<Rightarrow> u64 \<Rightarrow> dbquery \<times> nat \<times> 'c \<Rightarrow>
     (bool \<times> dbquery \<times> nat \<times> 'c) result" where
  "query_handleEvent f cb levId st =
     (case st of (q, t, c) \<Rightarrow>
        if nf_limit f = 0 then Inr (True, st)
        else if levId > sub_latestEventId (dq_sub q) then Inr (False, st)
        else bindE (if levId \<notin> dq_sentEventsFull q then cb levId c else Inr c) (\<lambda>c'.
          let q' = q\<lparr>dq_sentEventsFull := insert levId (dq_sentEventsFull q),
                dq_sentEventsCurr := insert levId (dq_sentEventsCurr q)\<rparr>
          in Inr (of_nat (card (dq_sentEventsCurr q')) \<ge> nf_limit f, q', t, c')))"

definition query_doPause ::
    "(nat \<Rightarrow> u64) \<Rightarrow> u64 \<Rightarrow> u64 \<Rightarrow> u64 \<Rightarrow> dbquery \<times> nat \<times> 'c \<Rightarrow> bool \<times> dbquery \<times> nat \<times> 'c" where
  "query_doPause clock startTime timeBudgetMicroseconds approxWork st =
     (case st of (q, t, c) \<Rightarrow>
        if approxWork > dq_lastWorkChecked q + 2000
        then (clock t - startTime > timeBudgetMicroseconds, q\<lparr>dq_lastWorkChecked := approxWork\<rparr>, Suc t, c)
        else (False, st))"

text \<open>One round of \<^verbatim>\<open>process\<close>: \<open>Some b\<close> when it returns \<open>b\<close>.\<close>

definition process_round ::
    "nat \<Rightarrow> 'db env \<Rightarrow> lib \<Rightarrow> (nat \<Rightarrow> u64) \<Rightarrow> 'db \<Rightarrow> (u64 \<Rightarrow> 'c \<Rightarrow> 'c result) \<Rightarrow> u64 \<Rightarrow> dbquery \<times> nat \<times> 'c \<Rightarrow>
     ((bool option \<times> dbquery \<times> nat \<times> 'c) result) option" where
  "process_round n E L clock db cb timeBudgetMicroseconds st =
     (case st of (q, t, c) \<Rightarrow>
        if dq_filterGroupIndex q \<ge> length (sub_filterGroup (dq_sub q)) then Some (Inr (Some True, st))
        else let f = sub_filterGroup (dq_sub q) ! dq_filterGroupIndex q
          in case (case dq_scanner q of Some S \<Rightarrow> Inr S | None \<Rightarrow> DBScan L f) of
               Inl e \<Rightarrow> Some (Inl e)
             | Inr S \<Rightarrow>
                 (let startTime = clock t
                  in case scan_loop n n E L db f (query_handleEvent f cb)
                       (query_doPause clock startTime timeBudgetMicroseconds) (S, q, Suc t, c) of
                       None \<Rightarrow> None
                     | Some (Inl e) \<Rightarrow> Some (Inl e)
                     | Some (Inr (scanned, S', q', t', c')) \<Rightarrow>
                         (let scanTime = dq_currScanTime q' + (clock t' - startTime)
                          in if \<not> scanned then
                               Some (Inr (Some False, q'\<lparr>dq_scanner := Some S', dq_currScanTime := scanTime,
                                 dq_currScanSaveRestores := dq_currScanSaveRestores q' + 1\<rparr>, Suc t', c'))
                             else Some (Inr (None, q'\<lparr>dq_scanner := None,
                               dq_filterGroupIndex := Suc (dq_filterGroupIndex q'), dq_sentEventsCurr := {},
                               dq_currScanTime := 0, dq_currScanSaveRestores := 0,
                               dq_totalTime := dq_totalTime q' + scanTime,
                               dq_totalWork := dq_totalWork q' + ds_approxWork S'\<rparr>, Suc t', c')))))"

fun process_loop ::
    "nat \<Rightarrow> nat \<Rightarrow> 'db env \<Rightarrow> lib \<Rightarrow> (nat \<Rightarrow> u64) \<Rightarrow> 'db \<Rightarrow> (u64 \<Rightarrow> 'c \<Rightarrow> 'c result) \<Rightarrow> u64 \<Rightarrow>
     dbquery \<times> nat \<times> 'c \<Rightarrow> ((bool \<times> dbquery \<times> nat \<times> 'c) result) option" where
  "process_loop 0 n E L clock db cb budget st = None"
| "process_loop (Suc m) n E L clock db cb budget st =
     (case process_round n E L clock db cb budget st of
        None \<Rightarrow> None
      | Some (Inl e) \<Rightarrow> Some (Inl e)
      | Some (Inr (Some b, st')) \<Rightarrow> Some (Inr (b, st'))
      | Some (Inr (None, st')) \<Rightarrow> process_loop m n E L clock db cb budget st')"

definition process ::
    "nat \<Rightarrow> 'db env \<Rightarrow> lib \<Rightarrow> (nat \<Rightarrow> u64) \<Rightarrow> 'db \<Rightarrow> (u64 \<Rightarrow> 'c \<Rightarrow> 'c result) \<Rightarrow> u64 \<Rightarrow>
     dbquery \<times> nat \<times> 'c \<Rightarrow> ((bool \<times> dbquery \<times> nat \<times> 'c) result) option" where
  "process n E L clock db cb budget st =
     process_loop (Suc (length (sub_filterGroup (dq_sub (fst st))) - dq_filterGroupIndex (fst st)))
       n E L clock db cb budget st"

definition foreachByFilter ::
    "nat \<Rightarrow> 'db env \<Rightarrow> lib \<Rightarrow> (nat \<Rightarrow> u64) \<Rightarrow> 'db \<Rightarrow> json \<Rightarrow> (u64 \<Rightarrow> 'c \<Rightarrow> 'c result) \<Rightarrow> 'c \<Rightarrow> ('c result) option" where
  "foreachByFilter n E L clock db filt cb c =
     (case DBQuery_filter L filt MAX_U64 of
        Inl e \<Rightarrow> Some (Inl e)
      | Inr q \<Rightarrow> (case process n E L clock db cb MAX_U64 (q, 0, c) of
            None \<Rightarrow> None
          | Some (Inl e) \<Rightarrow> Some (Inl e)
          | Some (Inr (_, _, _, c')) \<Rightarrow> Some (Inr c')))"

lemma length_merge_cands [simp]: "length (merge_cands xs ys) = length xs + length ys"
  by (induction xs ys rule: merge_cands.induct) auto

lemma set_merge_cands [simp]: "set (merge_cands xs ys) = set xs \<union> set ys"
  by (induction xs ys rule: merge_cands.induct) auto

lemma length_sort_cands [simp]: "length (sort_cands xs) = length xs"
  by (induction xs) (simp_all add: sort_cands_def insert_cand_def)

lemma set_sort_cands [simp]: "set (sort_cands xs) = set xs"
  by (induction xs) (simp_all add: sort_cands_def insert_cand_def)

lemma sum_list_update_nat:
  "i < length xs \<Longrightarrow> sum_list (map g (xs[i := c])) + g (xs ! i) = sum_list (map g xs) + (g c :: nat)"
  by (induction xs arbitrary: i) (auto split: nat.split)

definition scan_indexes :: "db_index set" where
  "scan_indexes = {Ix_created_at, Ix_id, Ix_pubkey, Ix_kind, Ix_pubkeyKind, Ix_tag}"

section \<open>More fuel gives the same result\<close>

lemma collect_loop_mono:
  "collect_loop n E db f ix scanIndex st = Some r \<Longrightarrow> n \<le> n' \<Longrightarrow> collect_loop n' E db f ix scanIndex st = Some r"
proof (induction n arbitrary: n' st)
  case 0
  then show ?case by simp
next
  case (Suc n)
  obtain k where n': "n' = Suc k" "n \<le> k" using Suc.prems(2) by (cases n') auto
  obtain c limit added out where st: "st = (c, limit, added, out)" by (cases st)
  obtain fin c1 limit1 added1 out1 where pass: "collect_entries E f scanIndex
      (foreachFull E db ix (sc_resumeKey c) (sc_resumeVal c) True) (c, limit, added, out) = (fin, c1, limit1, added1, out1)"
    by (metis prod_cases5)
  show ?case
    using Suc.prems(1) Suc.IH [OF _ n'(2)] unfolding st n'(1) collect_loop.simps pass Let_def prod.case
    by (cases "sc_active c \<and> 0 < limit") auto
qed

lemma collect_mono:
  assumes "collect n E db f ix scanIndex limit c out = Some r" "n \<le> n'"
  shows "collect n' E db f ix scanIndex limit c out = Some r"
proof -
  obtain st where "collect_loop n E db f ix scanIndex (c, limit, 0, out) = Some st"
    using assms(1) by (auto simp: collect_def split: option.splits)
  with collect_loop_mono [OF this assms(2)] assms(1) show ?thesis by (simp add: collect_def)
qed

lemma scan_round_mono:
  assumes "scan_round n E L db f handleEvent doPause st = Some r" "n \<le> n'"
  shows "scan_round n' E L db f handleEvent doPause st = Some r"
proof -
  have "collect n' E db f ix i limit c out = collect n E db f ix i limit c out"
    if "collect n E db f ix i limit c out \<noteq> None" for ix i limit c out
    using that collect_mono [OF _ assms(2)] by fastforce
  with assms(1) show ?thesis
    unfolding scan_round_def Let_def by (auto split: prod.splits if_splits option.splits list.splits sum.splits)
qed

lemma scan_loop_mono:
  assumes "scan_loop m n E L db f handleEvent doPause st = Some r" "m \<le> m'" "n \<le> n'"
  shows "scan_loop m' n' E L db f handleEvent doPause st = Some r"
  using assms(1,2)
proof (induction m arbitrary: m' st)
  case 0
  then show ?case by simp
next
  case (Suc m)
  obtain k where m': "m' = Suc k" "m \<le> k" using Suc.prems(2) by (cases m') auto
  obtain x where x: "scan_round n E L db f handleEvent doPause st = Some x"
    using Suc.prems(1) by (cases "scan_round n E L db f handleEvent doPause st") auto
  note x' = scan_round_mono [OF x assms(3)]
  show ?case
    using Suc.prems(1) Suc.IH [OF _ m'(2)] unfolding m'(1) scan_loop.simps x x'
    by (auto split: sum.splits option.splits prod.splits)
qed

lemma process_round_mono:
  assumes "process_round n E L clock db cb budget st = Some r" "n \<le> n'"
  shows "process_round n' E L clock db cb budget st = Some r"
proof -
  obtain q t c where st: "st = (q, t, c)" by (cases st)
  let ?f = "sub_filterGroup (dq_sub q) ! dq_filterGroupIndex q"
  let ?S = "case dq_scanner q of Some S \<Rightarrow> Inr S | None \<Rightarrow> DBScan L ?f"
  let ?scan = "\<lambda>n S. scan_loop n n E L db ?f (query_handleEvent ?f cb) (query_doPause clock (clock t) budget) (S, q, Suc t, c)"
  show ?thesis
  proof (cases "dq_filterGroupIndex q \<ge> length (sub_filterGroup (dq_sub q))")
    case True
    with assms(1) show ?thesis by (simp add: process_round_def st)
  next
    case False
    show ?thesis
    proof (cases ?S)
      case (Inl e)
      with False assms(1) show ?thesis by (simp add: process_round_def st Let_def)
    next
      case (Inr S)
      have "?scan n S \<noteq> None"
      proof
        assume "?scan n S = None"
        with Inr False assms(1) show False by (simp add: process_round_def st Let_def)
      qed
      then have "?scan n' S = ?scan n S" using scan_loop_mono [OF _ assms(2) assms(2)] by fastforce
      with Inr False assms(1) show ?thesis by (simp add: process_round_def st Let_def)
    qed
  qed
qed

text \<open>A property of the callbacks' state that they keep, a scan keeps.\<close>

lemma scan_round_invariant:
  assumes "scan_round n E L db f handleEvent doPause (S, s) = Some (Inr (b, S', s'))" "P s"
    and "\<And>l s b s'. P s \<Longrightarrow> handleEvent l s = Inr (b, s') \<Longrightarrow> P s'"
    and "\<And>w s. P s \<Longrightarrow> P (snd (doPause w s))"
  shows "P s' \<and> ds_indexDbi S' = ds_indexDbi S"
proof -
  obtain pause s1 where dop: "doPause (ds_approxWork S + 1) s = (pause, s1)" by (cases "doPause (ds_approxWork S + 1) s")
  have "P s1" using assms(4) [OF assms(2), of "ds_approxWork S + 1"] by (simp add: dop)
  with assms(1,3) show ?thesis
    unfolding scan_round_def Let_def
    by (auto simp: dop bindE_eq_Inr split: if_splits option.splits list.splits sum.splits)
qed

lemma scan_loop_invariant:
  assumes "scan_loop m n E L db f handleEvent doPause (S, s) = Some (Inr (b, S', s'))" "P s"
    and "\<And>l s b s'. P s \<Longrightarrow> handleEvent l s = Inr (b, s') \<Longrightarrow> P s'"
    and "\<And>w s. P s \<Longrightarrow> P (snd (doPause w s))"
  shows "P s' \<and> ds_indexDbi S' = ds_indexDbi S"
  using assms(1,2)
proof (induction m arbitrary: S s)
  case 0
  then show ?case by simp
next
  case (Suc m)
  obtain x where x: "scan_round n E L db f handleEvent doPause (S, s) = Some x"
    using Suc.prems(1) by (cases "scan_round n E L db f handleEvent doPause (S, s)") auto
  obtain b1 S1 s1 where x': "x = Inr (b1, S1, s1)"
    using Suc.prems(1) by (cases x) (auto simp: x)
  have step: "P s1 \<and> ds_indexDbi S1 = ds_indexDbi S"
    by (rule scan_round_invariant [OF x [unfolded x'] Suc.prems(2) assms(3,4)])
  show ?case
  proof (cases b1)
    case None
    then have "scan_loop m n E L db f handleEvent doPause (S1, s1) = Some (Inr (b, S', s'))"
      using Suc.prems(1) by (simp add: x x')
    with Suc.IH step show ?thesis by fastforce
  next
    case (Some b2)
    with Suc.prems(1) step show ?thesis by (auto simp: x x')
  qed
qed

text \<open>The callbacks of a query touch neither its subscription nor its place in the group.\<close>

lemma query_callbacks_frame:
  "query_handleEvent f cb l s = Inr (b, s') \<Longrightarrow>
     dq_sub (fst s') = dq_sub (fst s) \<and> dq_filterGroupIndex (fst s') = dq_filterGroupIndex (fst s)"
  "dq_sub (fst (snd (query_doPause clock startTime budget w s))) = dq_sub (fst s) \<and>
     dq_filterGroupIndex (fst (snd (query_doPause clock startTime budget w s))) = dq_filterGroupIndex (fst s)"
  by (auto simp: query_handleEvent_def query_doPause_def bindE_eq_Inr Let_def split: prod.splits if_splits)

lemma query_scan_frame:
  assumes "scan_loop m n E L db f (query_handleEvent f cb) (query_doPause clock start budget) (S, q, t, c) = Some (Inr (b, S', q', t', c'))"
  shows "dq_sub q' = dq_sub q \<and> dq_filterGroupIndex q' = dq_filterGroupIndex q"
proof -
  have "(dq_sub (fst (q', t', c')) = dq_sub q \<and> dq_filterGroupIndex (fst (q', t', c')) = dq_filterGroupIndex q) \<and>
      ds_indexDbi S' = ds_indexDbi S"
  proof (rule scan_loop_invariant [OF assms, where P = "\<lambda>s. dq_sub (fst s) = dq_sub q \<and>
        dq_filterGroupIndex (fst s) = dq_filterGroupIndex q"])
    fix l b s s'
    assume "dq_sub (fst s) = dq_sub q \<and> dq_filterGroupIndex (fst s) = dq_filterGroupIndex q"
      "query_handleEvent f cb l s = Inr (b, s')"
    then show "dq_sub (fst s') = dq_sub q \<and> dq_filterGroupIndex (fst s') = dq_filterGroupIndex q"
      using query_callbacks_frame(1) by metis
  qed (simp_all add: query_callbacks_frame(2))
  then show ?thesis by simp
qed

lemma process_round_next:
  assumes "process_round n E L clock db cb budget (q, t, c) = Some (Inr (None, q', t', c'))"
  shows "dq_scanner q' = None \<and> dq_sub q' = dq_sub q \<and> dq_filterGroupIndex q' = Suc (dq_filterGroupIndex q)"
proof -
  let ?f = "sub_filterGroup (dq_sub q) ! dq_filterGroupIndex q"
  obtain S S1 q1 t1 c1 b where run: "scan_loop n n E L db ?f (query_handleEvent ?f cb)
      (query_doPause clock (clock t) budget) (S, q, Suc t, c) = Some (Inr (b, S1, q1, t1, c1))"
    and q': "dq_scanner q' = None" "dq_sub q' = dq_sub q1" "dq_filterGroupIndex q' = Suc (dq_filterGroupIndex q1)"
    using assms by (auto simp: process_round_def Let_def split: if_splits option.splits sum.splits)
  then show ?thesis using query_scan_frame [OF run] by simp
qed

lemma DBScan_index: "DBScan L f = Inr S \<Longrightarrow> ds_indexDbi S \<in> scan_indexes"
proof -
  assume "DBScan L f = Inr S"
  then obtain ix cs b where "scan_plan L f = Inr (ix, cs, b)" "ds_indexDbi S = ix"
    by (auto simp: DBScan_def bindE_eq_Inr Let_def split: if_splits)
  then show ?thesis
    by (auto simp: scan_plan_def scan_indexes_def bindE_eq_Inr Let_def split: option.splits if_splits)
qed

section \<open>What the query engine relies on of the cursors\<close>

text \<open>
  The comparators are total orders: by the leading part of the key, and on keys with the same
  leading part by the number at the end.  A cursor meets no entry twice.  All keys of the
  scanned indexes end with the byte image of a time, the image of the largest being eight
  bytes 0xFF.
\<close>

locale scan_env = event_env L E key_le tree_items
    for L :: lib and E :: "'db env" and key_le and tree_items :: "'db \<Rightarrow> u64 \<Rightarrow> (u64 \<times> string) set" +
  assumes scan_distinct: "distinct (foreachFull E db ix k v bwd)"
    and key_le_total: "key_le ix a b \<or> key_le ix b a"
    and key_le_trans: "key_le ix a b \<Longrightarrow> key_le ix b c \<Longrightarrow> key_le ix a c"
    and key_le_antisym: "ix \<in> scan_indexes \<Longrightarrow> key_le ix (makeKey_StringUint64 E s n) (makeKey_StringUint64 E s' n') \<Longrightarrow>
      key_le ix (makeKey_StringUint64 E s' n') (makeKey_StringUint64 E s n) \<Longrightarrow> s = s' \<and> n = n'"
    and key_le_time: "ix \<in> scan_indexes \<Longrightarrow>
      key_le ix (makeKey_StringUint64 E s n) (makeKey_StringUint64 E s n') \<longleftrightarrow> n \<le> n'"
    and key_le_lead: "ix \<in> scan_indexes \<Longrightarrow> s \<noteq> s' \<Longrightarrow>
      key_le ix (makeKey_StringUint64 E s n) (makeKey_StringUint64 E s' n') \<Longrightarrow>
      key_le ix (makeKey_StringUint64 E s m) (makeKey_StringUint64 E s' m')"
    and to_sv_MAX: "to_sv L MAX_U64 = ff8"
    and makeKey_Uint64Uint64: "makeKey_Uint64Uint64 E p q = to_sv L p @ to_sv L q"
    and makeKey_StringUint64Uint64: "makeKey_StringUint64Uint64 E s p q = s @ to_sv L p @ to_sv L q"
    and parseKey_Uint64Uint64: "parseKey_Uint64Uint64 E (makeKey_Uint64Uint64 E p q) = (p, q)"
begin

lemma pos_le_trans: "pos_le key_le ix a b \<Longrightarrow> pos_le key_le ix b c \<Longrightarrow> pos_le key_le ix a c"
  unfolding pos_le_def by (meson key_le_trans order_trans)

text \<open>Entries of an index, their keys in the form of a leading part and a time.\<close>

lemma event_keys_time:
  assumes "k \<in> set (event_keys E L e ix)" "ix \<in> scan_indexes"
  shows "\<exists>s. k = makeKey_StringUint64 E s (ev_created_at e)"
proof -
  consider "ix = Ix_created_at" | "ix = Ix_kind" | "ix = Ix_pubkeyKind" | "ix = Ix_tag" | "ix \<in> {Ix_id, Ix_pubkey}"
    using assms(2) by (auto simp: scan_indexes_def)
  then show ?thesis
  proof cases
    case 1
    with assms(1) show ?thesis by (intro exI [of _ "[]"]) (simp add: event_keys_def makeKey)
  next
    case 2
    with assms(1) show ?thesis
      by (intro exI [of _ "to_sv L (ev_kind e)"]) (simp add: event_keys_def makeKey makeKey_Uint64Uint64)
  next
    case 3
    with assms(1) show ?thesis
      by (intro exI [of _ "ev_pubkey e @ to_sv L (ev_kind e)"]) (simp add: event_keys_def makeKey makeKey_StringUint64Uint64)
  next
    case 4
    with assms(1) obtain t where "k = makeKey_StringUint64 E (fst t # snd t) (ev_created_at e)"
      by (auto simp: event_keys_def)
    then show ?thesis by blast
  next
    case 5
    with assms(1) show ?thesis by (auto simp: event_keys_def)
  qed
qed

lemma entry_key:
  assumes "holds E L tree_items fs db M" "ix \<in> scan_indexes" "(k, l) \<in> index_entries E L db ix"
  obtains s n where "k = makeKey_StringUint64 E s n"
  using assms(3) event_keys_time [OF _ assms(2)] unfolding entries_event [OF assms(1)] by blast

lemma entry_antisym:
  assumes "holds E L tree_items fs db M" "ix \<in> scan_indexes"
    and "x \<in> index_entries E L db ix" "y \<in> index_entries E L db ix"
    and "pos_le key_le ix x y" "pos_le key_le ix y x"
  shows "x = y"
proof -
  obtain k l k' l' where xy: "x = (k, l)" "y = (k', l')" by (cases x; cases y)
  obtain s n s' n' where "k = makeKey_StringUint64 E s n" "k' = makeKey_StringUint64 E s' n'"
    using entry_key [OF assms(1,2)] assms(3,4) unfolding xy by metis
  then have "k = k'" using assms(5,6) key_le_antisym [OF assms(2)] unfolding pos_le_def xy by auto
  with assms(5,6) show ?thesis unfolding pos_le_def xy by auto
qed

text \<open>A stretch of an index down to its end, in descending order.\<close>

definition down :: "'db \<Rightarrow> db_index \<Rightarrow> (string \<times> u64) list \<Rightarrow> bool" where
  "down db ix xs \<longleftrightarrow> distinct xs \<and> sorted_wrt (\<lambda>x y. pos_le key_le ix y x) xs \<and>
     set xs \<subseteq> index_entries E L db ix \<and>
     (\<forall>x\<in>set xs. \<forall>y\<in>index_entries E L db ix. pos_le key_le ix y x \<longrightarrow> y \<in> set xs)"

lemma down_scan: "down db ix (foreachFull E db ix k v True)"
  unfolding down_def using scan_distinct scan_sorted_rev pos_le_trans by (auto simp: scan_set_rev)

lemma down_tail:
  assumes "holds E L tree_items fs db M" "ix \<in> scan_indexes" "down db ix (x # xs)"
  shows "down db ix xs"
proof -
  have "y \<in> set xs" if "z \<in> set xs" "y \<in> index_entries E L db ix" "pos_le key_le ix y z" for z y
  proof -
    have "y \<in> set (x # xs)" using assms(3) that unfolding down_def by auto
    moreover have "y \<noteq> x"
    proof
      assume "y = x"
      moreover have "pos_le key_le ix z x" "z \<in> index_entries E L db ix" "z \<noteq> x"
        using assms(3) that(1) unfolding down_def by auto
      ultimately show False using entry_antisym [OF assms(1,2)] that by blast
    qed
    ultimately show ?thesis by simp
  qed
  then show ?thesis using assms(3) unfolding down_def by auto
qed

text \<open>The entries a cursor still has before it.\<close>

definition remaining :: "'db \<Rightarrow> db_index \<Rightarrow> scan_cursor \<Rightarrow> nat" where
  "remaining db ix c = (if sc_active c then length (foreachFull E db ix (sc_resumeKey c) (sc_resumeVal c) True) else 0)"

lemma scan_shorter:
  assumes "set (foreachFull E db ix k v True) \<subseteq> set xs"
  shows "length (foreachFull E db ix k v True) \<le> length xs"
    and "x \<in> set xs \<Longrightarrow> x \<notin> set (foreachFull E db ix k v True) \<Longrightarrow> length (foreachFull E db ix k v True) < length xs"
proof -
  let ?ys = "foreachFull E db ix k v True"
  have card: "card (set ?ys) = length ?ys" using scan_distinct by (rule distinct_card)
  have "card (set ?ys) \<le> card (set xs)" using assms by (intro card_mono) auto
  with card card_length [of xs] show "length ?ys \<le> length xs" by simp
  assume "x \<in> set xs" "x \<notin> set ?ys"
  with assms have "card (set ?ys) < card (set xs)" by (intro psubset_card_mono) auto
  with card card_length [of xs] show "length ?ys < length xs" by simp
qed

lemma length_restart:
  assumes "holds E L tree_items fs db M" "ix \<in> scan_indexes" "down db ix ((makeKey_StringUint64 E s n, v) # xs)"
    and "m < n \<or> m = n \<and> w < v"
  shows "length (foreachFull E db ix (makeKey_StringUint64 E s m) w True) \<le> length xs"
proof -
  let ?x = "(makeKey_StringUint64 E s n, v)" and ?p = "(makeKey_StringUint64 E s m, w)"
  have le: "pos_le key_le ix ?p ?x" "\<not> pos_le key_le ix ?x ?p"
    using assms(4) unfolding pos_le_def fst_conv snd_conv key_le_time [OF assms(2)] by auto
  have sub: "set (foreachFull E db ix (makeKey_StringUint64 E s m) w True) \<subseteq> set (?x # xs)"
  proof
    fix y assume "y \<in> set (foreachFull E db ix (makeKey_StringUint64 E s m) w True)"
    then have "y \<in> index_entries E L db ix" "pos_le key_le ix y ?x"
      using pos_le_trans [OF _ le(1)] by (auto simp: scan_set_rev)
    then show "y \<in> set (?x # xs)" using assms(3) unfolding down_def by simp
  qed
  have "?x \<notin> set (foreachFull E db ix (makeKey_StringUint64 E s m) w True)"
    using le(2) by (simp add: scan_set_rev)
  with scan_shorter(2) [OF sub, of ?x] show ?thesis by simp
qed

lemma length_resume:
  assumes "down db ix ((k, v) # xs)"
  shows "length (foreachFull E db ix k v True) \<le> Suc (length xs)"
proof -
  have "set (foreachFull E db ix k v True) \<subseteq> set ((k, v) # xs)"
    using assms unfolding down_def by (auto simp: scan_set_rev)
  from scan_shorter(1) [OF this] show ?thesis by simp
qed

text \<open>
  One pass over the entries: a number of them become candidates, and what the cursor still
  has before it shrinks by more than that, unless the limit is used up.
\<close>

definition entry_candidate :: "u64 \<Rightarrow> string \<times> u64 \<Rightarrow> candidate" where
  "entry_candidate scanIndex x = CandidateEvent (snd x) (snd (parseKey_StringUint64 E (fst x))) scanIndex"

definition entry_ok :: "nostr_filter \<Rightarrow> key_match \<Rightarrow> string \<times> u64 \<Rightarrow> bool" where
  "entry_ok f km x \<longleftrightarrow> keyMatch E km (fst x) \<and>
     (let created = snd (parseKey_StringUint64 E (fst x))
      in \<not> (nf_since f \<noteq> 0 \<and> created < nf_since f) \<and> \<not> (nf_until f \<noteq> 0 \<and> created > nf_until f))"

lemma collect_entries_progress:
  assumes "holds E L tree_items fs db M" "ix \<in> scan_indexes" "lookup_Event E db 0 = None" "down db ix xs"
    and "collect_entries E f scanIndex xs (c, limit, added, out) = (fin, c', limit', added', out')"
  shows "\<exists>ys. set ys \<subseteq> set xs \<and> (\<forall>x\<in>set ys. entry_ok f (sc_keyMatch c) x) \<and>
    out' = out @ map (entry_candidate scanIndex) ys \<and> added' = added + of_nat (length ys) \<and>
    sc_keyMatch c' = sc_keyMatch c \<and> sc_outstanding c' = sc_outstanding c \<and>
    (if fin then length ys = length xs
     else remaining db ix c' + length ys \<le> length xs \<and> (limit' = 0 \<or> remaining db ix c' + length ys < length xs))"
  using assms(4,5)
proof (induction xs arbitrary: limit added out)
  case Nil
  then show ?case by simp
next
  case (Cons x xs)
  obtain k v where x: "x = (k, v)" by (cases x)
  have "(k, v) \<in> index_entries E L db ix" using Cons.prems(1) unfolding down_def x by simp
  then obtain s n where k: "k = makeKey_StringUint64 E s n" by (rule entry_key [OF assms(1,2)])
  have "M v \<noteq> None" "M 0 = None"
    using \<open>(k, v) \<in> _\<close> assms(3) entries_event [OF assms(1)] assms(1) by (auto simp: holds_def)
  then have v: "v \<noteq> 0" by auto
  consider (full) "limit = 0" | (other) "limit \<noteq> 0" "\<not> keyMatch E (sc_keyMatch c) k"
    | (early) "limit \<noteq> 0" "keyMatch E (sc_keyMatch c) k" "nf_since f \<noteq> 0 \<and> n < nf_since f"
    | (late) "limit \<noteq> 0" "keyMatch E (sc_keyMatch c) k" "\<not> (nf_since f \<noteq> 0 \<and> n < nf_since f)"
        "nf_until f \<noteq> 0 \<and> n > nf_until f"
    | (take) "limit \<noteq> 0" "keyMatch E (sc_keyMatch c) k" "\<not> (nf_since f \<noteq> 0 \<and> n < nf_since f)"
        "\<not> (nf_until f \<noteq> 0 \<and> n > nf_until f)" by blast
  then show ?case
  proof cases
    case full
    with Cons.prems(2) x have "fin = False" "c' = c\<lparr>sc_resumeKey := k, sc_resumeVal := v\<rparr>" "limit' = 0" "added' = added" "out' = out"
      by auto
    then show ?thesis
      using length_resume [of db ix k v xs] Cons.prems(1) by (intro exI [of _ "[]"]) (simp add: x remaining_def sc_active_def)
  next
    case other
    with Cons.prems(2) x have "fin = False" "c' = c\<lparr>sc_resumeKey := []\<rparr>" "added' = added" "out' = out"
      by auto
    then show ?thesis by (intro exI [of _ "[]"]) (simp add: remaining_def sc_active_def)
  next
    case early
    with Cons.prems(2) x have "fin = False" "c' = c\<lparr>sc_resumeKey := makeKey_StringUint64 E s 0, sc_resumeVal := 0\<rparr>"
        "added' = added" "out' = out"
      by (auto simp: k parseKey)
    then show ?thesis
      using length_restart [OF assms(1,2) Cons.prems(1) [unfolded x k], of 0 0] v word_gt_0 [of n] word_gt_0 [of v]
      by (intro exI [of _ "[]"]) (auto simp: remaining_def sc_active_def)
  next
    case late
    with Cons.prems(2) x have "fin = False"
        "c' = c\<lparr>sc_resumeKey := makeKey_StringUint64 E s (nf_until f), sc_resumeVal := MAX_U64\<rparr>"
        "added' = added" "out' = out"
      by (auto simp: k parseKey)
    then show ?thesis
      using length_restart [OF assms(1,2) Cons.prems(1) [unfolded x k], of "nf_until f" MAX_U64] late
      by (intro exI [of _ "[]"]) (auto simp: remaining_def sc_active_def)
  next
    case take
    with Cons.prems(2) have "collect_entries E f scanIndex xs (c, limit - 1, added + 1,
        out @ [entry_candidate scanIndex x]) = (fin, c', limit', added', out')"
      by (auto simp: k x parseKey entry_candidate_def)
    from Cons.IH [OF down_tail [OF assms(1,2) Cons.prems(1)] this] obtain ys where ys: "set ys \<subseteq> set xs"
      "\<forall>x\<in>set ys. entry_ok f (sc_keyMatch c) x"
      "out' = out @ [entry_candidate scanIndex x] @ map (entry_candidate scanIndex) ys"
      "added' = added + 1 + of_nat (length ys)" "sc_keyMatch c' = sc_keyMatch c" "sc_outstanding c' = sc_outstanding c"
      "if fin then length ys = length xs
       else remaining db ix c' + length ys \<le> length xs \<and> (limit' = 0 \<or> remaining db ix c' + length ys < length xs)"
      by auto
    moreover have "entry_ok f (sc_keyMatch c) x" using take by (simp add: entry_ok_def x k parseKey)
    ultimately show ?thesis by (intro exI [of _ "x # ys"]) (auto split: if_splits)
  qed
qed

lemma collect_loop_returns:
  assumes "holds E L tree_items fs db M" "ix \<in> scan_indexes" "lookup_Event E db 0 = None"
    and "remaining db ix c + 2 \<le> n"
  shows "\<exists>c' limit' ys. collect_loop n E db f ix scanIndex (c, limit, added, out) =
      Some (c', limit', added + of_nat (length ys), out @ map (entry_candidate scanIndex) ys) \<and>
    (\<forall>x\<in>set ys. x \<in> index_entries E L db ix \<and> entry_ok f (sc_keyMatch c) x) \<and>
    remaining db ix c' + length ys \<le> remaining db ix c \<and>
    sc_keyMatch c' = sc_keyMatch c \<and> sc_outstanding c' = sc_outstanding c"
  using assms(4)
proof (induction n arbitrary: c limit added out)
  case 0
  then show ?case by simp
next
  case (Suc n)
  show ?case
  proof (cases "sc_active c \<and> limit > 0")
    case False
    then show ?thesis by (intro exI [of _ c] exI [of _ limit] exI [of _ "[]"]) auto
  next
    case True
    let ?xs = "foreachFull E db ix (sc_resumeKey c) (sc_resumeVal c) True"
    obtain fin c1 limit1 added1 out1 where pass:
      "collect_entries E f scanIndex ?xs (c, limit, added, out) = (fin, c1, limit1, added1, out1)"
      by (cases "collect_entries E f scanIndex ?xs (c, limit, added, out)") auto
    from collect_entries_progress [OF assms(1-3) down_scan pass] obtain ys where ys:
      "set ys \<subseteq> set ?xs" "\<forall>x\<in>set ys. entry_ok f (sc_keyMatch c) x"
      "out1 = out @ map (entry_candidate scanIndex) ys" "added1 = added + of_nat (length ys)"
      "sc_keyMatch c1 = sc_keyMatch c" "sc_outstanding c1 = sc_outstanding c"
      "if fin then length ys = length ?xs
       else remaining db ix c1 + length ys \<le> length ?xs \<and> (limit1 = 0 \<or> remaining db ix c1 + length ys < length ?xs)"
      by blast
    have rem: "remaining db ix c = length ?xs" using True by (simp add: remaining_def)
    have ents: "\<forall>x\<in>set ys. x \<in> index_entries E L db ix \<and> entry_ok f (sc_keyMatch c) x"
      using ys(1,2) by (auto simp: scan_set_rev)
    let ?c2 = "if fin then c1\<lparr>sc_resumeKey := []\<rparr> else c1"
    have step: "collect_loop (Suc n) E db f ix scanIndex (c, limit, added, out) =
        collect_loop n E db f ix scanIndex (?c2, limit1, added1, out1)"
      using True by (simp add: pass)
    have sel: "sc_keyMatch ?c2 = sc_keyMatch c" "sc_outstanding ?c2 = sc_outstanding c" using ys(5,6) by simp_all
    have bound: "remaining db ix ?c2 + length ys \<le> remaining db ix c"
    proof -
      have "remaining db ix (c1\<lparr>sc_resumeKey := []\<rparr>) = 0" by (simp add: remaining_def sc_active_def)
      with ys(7) show ?thesis by (cases fin) (simp_all add: rem)
    qed
    show ?thesis
    proof (cases "sc_active ?c2 \<and> limit1 > 0")
      case False
      obtain n' where n: "n = Suc n'" using Suc.prems by (cases n) auto
      have "collect_loop n E db f ix scanIndex (?c2, limit1, added1, out1) = Some (?c2, limit1, added1, out1)"
        unfolding n collect_loop.simps by (rule if_not_P [OF False])
      with step ys(3,4) ents sel bound show ?thesis
        by (intro exI [of _ ?c2] exI [of _ limit1] exI [of _ ys]) simp
    next
      case active: True
      then have nf: "\<not> fin" by (auto simp: sc_active_def)
      with active ys(7) have "remaining db ix ?c2 + length ys < remaining db ix c" by (auto simp: rem)
      then have "remaining db ix ?c2 + 2 \<le> n" using Suc.prems by simp
      from Suc.IH [OF this, of limit1 added1 out1] obtain c' limit' zs where zs:
        "collect_loop n E db f ix scanIndex (?c2, limit1, added1, out1) =
          Some (c', limit', added1 + of_nat (length zs), out1 @ map (entry_candidate scanIndex) zs)"
        "\<forall>x\<in>set zs. x \<in> index_entries E L db ix \<and> entry_ok f (sc_keyMatch ?c2) x"
        "remaining db ix c' + length zs \<le> remaining db ix ?c2"
        "sc_keyMatch c' = sc_keyMatch ?c2" "sc_outstanding c' = sc_outstanding ?c2" by blast
      show ?thesis
        using step zs ents bound ys(3,4) unfolding sel
        by (intro exI [of _ c'] exI [of _ limit'] exI [of _ "ys @ zs"]) (auto simp: algebra_simps)
    qed
  qed
qed

lemma collect_returns:
  assumes "holds E L tree_items fs db M" "ix \<in> scan_indexes" "lookup_Event E db 0 = None"
    and "remaining db ix c + 2 \<le> n"
  obtains c' ys where "collect n E db f ix scanIndex limit c out =
      Some (of_nat (length ys), c', out @ map (entry_candidate scanIndex) ys)"
    "\<forall>x\<in>set ys. x \<in> index_entries E L db ix \<and> entry_ok f (sc_keyMatch c) x"
    "remaining db ix c' + length ys \<le> remaining db ix c"
    "sc_keyMatch c' = sc_keyMatch c" "sc_outstanding c' = sc_outstanding c + of_nat (length ys)"
proof -
  from collect_loop_returns [OF assms, of f scanIndex limit 0 out] obtain c' limit' ys where c':
    "collect_loop n E db f ix scanIndex (c, limit, 0, out) =
      Some (c', limit', 0 + of_nat (length ys), out @ map (entry_candidate scanIndex) ys)"
    "\<forall>x\<in>set ys. x \<in> index_entries E L db ix \<and> entry_ok f (sc_keyMatch c) x"
    "remaining db ix c' + length ys \<le> remaining db ix c"
    "sc_keyMatch c' = sc_keyMatch c" "sc_outstanding c' = sc_outstanding c" by blast
  let ?c = "c'\<lparr>sc_outstanding := sc_outstanding c' + of_nat (length ys)\<rparr>"
  have "remaining db ix ?c = remaining db ix c'" by (simp add: remaining_def sc_active_def)
  with c' show thesis by (intro that [of ys ?c]) (simp_all add: collect_def)
qed

text \<open>Every round of a scan that goes on uses up some of this.\<close>

definition total_remaining :: "'db \<Rightarrow> dbscan \<Rightarrow> nat" where
  "total_remaining db S = sum_list (map (remaining db (ds_indexDbi S)) (ds_cursors S))"

definition scan_measure :: "'db \<Rightarrow> dbscan \<Rightarrow> nat" where
  "scan_measure db S = (length (ds_cursors S) - ds_nextInitIndex S) + length (ds_eventQueue S) + total_remaining db S"

lemma remaining_le_total: "c \<in> set (ds_cursors S) \<Longrightarrow> remaining db (ds_indexDbi S) c \<le> total_remaining db S"
  unfolding total_remaining_def by (rule member_le_sum_list) auto

lemma total_remaining_update:
  assumes "i < length (ds_cursors S)" "remaining db (ds_indexDbi S) c + k \<le> remaining db (ds_indexDbi S) (ds_cursors S ! i)"
  shows "total_remaining db (S\<lparr>ds_cursors := (ds_cursors S)[i := c]\<rparr>) + k \<le> total_remaining db S"
  using sum_list_update_nat [OF assms(1), of "remaining db (ds_indexDbi S)" c] assms(2)
  by (simp add: total_remaining_def)

lemma scan_round_progress:
  assumes "holds E L tree_items fs db M" "lookup_Event E db 0 = None"
    and "ds_indexDbi S \<in> scan_indexes" "total_remaining db S + 2 \<le> n"
  shows "\<exists>r. scan_round n E L db f handleEvent doPause (S, s) = Some r \<and>
    (\<forall>S' s'. r = Inr (None, S', s') \<longrightarrow> ds_indexDbi S' = ds_indexDbi S \<and>
       total_remaining db S' \<le> total_remaining db S \<and> scan_measure db S' < scan_measure db S)"
proof -
  let ?S1 = "S\<lparr>ds_approxWork := ds_approxWork S + 1\<rparr>"
  obtain pause s1 where dop: "doPause (ds_approxWork S + 1) s = (pause, s1)" by (cases "doPause (ds_approxWork S + 1) s")
  let ?i = "ds_nextInitIndex S"
  consider (pause) "pause" | (init) "\<not> pause" "?i < length (ds_cursors S)"
    | (empty) "\<not> pause" "\<not> ?i < length (ds_cursors S)" "ds_eventQueue S = []"
    | (pop) ev queue where "\<not> pause" "\<not> ?i < length (ds_cursors S)" "ds_eventQueue S = ev # queue"
    by (cases "ds_eventQueue S") auto
  then show ?thesis
  proof cases
    case pause
    then show ?thesis by (simp add: scan_round_def Let_def dop)
  next
    case init
    have fuel: "remaining db (ds_indexDbi S) (ds_cursors S ! ?i) + 2 \<le> n"
      using remaining_le_total [OF nth_mem [OF init(2)], of db] assms(4) by simp
    obtain c ys where c: "collect n E db f (ds_indexDbi S) (of_nat ?i) (ds_initialScanDepth S) (ds_cursors S ! ?i) (ds_eventQueue S) =
        Some (of_nat (length ys), c, ds_eventQueue S @ map (entry_candidate (of_nat ?i)) ys)"
      "remaining db (ds_indexDbi S) c + length ys \<le> remaining db (ds_indexDbi S) (ds_cursors S ! ?i)"
      by (rule collect_returns [OF assms(1,3,2) fuel, of f "of_nat ?i" "ds_initialScanDepth S" "ds_eventQueue S"])
    note total = total_remaining_update [OF init(2) c(2)]
    show ?thesis
      using init c(1) total by (simp add: scan_round_def Let_def dop scan_measure_def total_remaining_def) arith
  next
    case empty
    then show ?thesis by (simp add: scan_round_def Let_def dop)
  next
    case pop
    let ?m = "bindE (candidate_matches E L db f (ds_indexOnly S) ev) (\<lambda>doSend.
      if doSend then handleEvent (ce_levId ev) s1 else Inr (False, s1))"
    let ?j = "unat (ce_scanIndex ev)"
    show ?thesis
    proof (cases ?m)
      case (Inl e)
      then show ?thesis using pop by (simp add: scan_round_def Let_def dop)
    next
      case (Inr r)
      obtain stop s2 where r: "r = (stop, s2)" by (cases r)
      show ?thesis
      proof (cases "stop \<or> ?j \<ge> length (ds_cursors S)")
        case True
        then show ?thesis using pop Inr r by (cases stop) (simp_all add: scan_round_def Let_def dop)
      next
        case False
        let ?c1 = "(ds_cursors S ! ?j)\<lparr>sc_outstanding := sc_outstanding (ds_cursors S ! ?j) - 1\<rparr>"
        have j: "?j < length (ds_cursors S)" using False by simp
        have rem1: "remaining db (ds_indexDbi S) ?c1 = remaining db (ds_indexDbi S) (ds_cursors S ! ?j)"
          by (simp add: remaining_def sc_active_def)
        show ?thesis
        proof (cases "sc_outstanding ?c1 = 0")
          case True
          have fuel: "remaining db (ds_indexDbi S) ?c1 + 2 \<le> n"
            using remaining_le_total [OF nth_mem [OF j], of db] assms(4) rem1 by simp
          obtain c ys where c: "collect n E db f (ds_indexDbi S) (ce_scanIndex ev) (ds_refillScanDepth S) ?c1 [] =
              Some (of_nat (length ys), c, [] @ map (entry_candidate (ce_scanIndex ev)) ys)"
            "remaining db (ds_indexDbi S) c + length ys \<le> remaining db (ds_indexDbi S) ?c1"
            by (rule collect_returns [OF assms(1,3,2) fuel, of f "ce_scanIndex ev" "ds_refillScanDepth S" "[]"])
          note total = total_remaining_update [OF j c(2) [unfolded rem1]]
          show ?thesis
            using pop Inr r False True c(1) total
            by (simp add: scan_round_def Let_def dop scan_measure_def total_remaining_def)
        next
          case out: False
          have "total_remaining db (S\<lparr>ds_cursors := (ds_cursors S)[?j := ?c1]\<rparr>) + 0 \<le> total_remaining db S"
            by (rule total_remaining_update [OF j]) (simp add: rem1)
          with pop Inr r False out show ?thesis
            by (simp add: scan_round_def Let_def dop scan_measure_def total_remaining_def)
        qed
      qed
    qed
  qed
qed

lemma scan_loop_returns:
  assumes "holds E L tree_items fs db M" "lookup_Event E db 0 = None"
    and "ds_indexDbi S \<in> scan_indexes" "total_remaining db S + 2 \<le> n" "scan_measure db S < m"
  shows "\<exists>r. scan_loop m n E L db f handleEvent doPause (S, s) = Some r"
  using assms(3-5)
proof (induction m arbitrary: S s)
  case 0
  then show ?case by simp
next
  case (Suc m)
  from scan_round_progress [OF assms(1,2) Suc.prems(1,2), of f handleEvent doPause s] obtain r where
    r: "scan_round n E L db f handleEvent doPause (S, s) = Some r"
    "\<forall>S' s'. r = Inr (None, S', s') \<longrightarrow> ds_indexDbi S' = ds_indexDbi S \<and>
       total_remaining db S' \<le> total_remaining db S \<and> scan_measure db S' < scan_measure db S"
    by (elim exE conjE)
  show ?case
  proof (cases "\<exists>S' s'. r = Inr (None, S', s')")
    case True
    then obtain S' s' where eq: "r = Inr (None, S', s')" by blast
    have "ds_indexDbi S' \<in> scan_indexes" "total_remaining db S' + 2 \<le> n" "scan_measure db S' < m"
      using r(2) [rule_format, OF eq] Suc.prems by simp_all
    from Suc.IH [OF this] r(1) eq show ?thesis by simp
  next
    case False
    then have "(\<exists>e. r = Inl e) \<or> (\<exists>b S' s'. r = Inr (Some b, S', s'))"
    proof (cases r)
      case (Inr p)
      obtain b S' s' where "p = (b, S', s')" by (cases p)
      with Inr False show ?thesis by (cases b) auto
    qed simp
    then show ?thesis using r(1) by auto
  qed
qed

text \<open>With enough fuel a round of a query, and a query, return.\<close>

lemma process_round_returns:
  assumes "holds E L tree_items fs db M" "lookup_Event E db 0 = None"
    and "\<And>S. dq_scanner q = Some S \<Longrightarrow> ds_indexDbi S \<in> scan_indexes"
  shows "\<exists>N r. \<forall>n\<ge>N. process_round n E L clock db cb budget (q, t, c) = Some r"
proof -
  let ?f = "sub_filterGroup (dq_sub q) ! dq_filterGroupIndex q"
  let ?S = "case dq_scanner q of Some S \<Rightarrow> Inr S | None \<Rightarrow> DBScan L ?f"
  have "\<exists>N r. process_round N E L clock db cb budget (q, t, c) = Some r"
  proof (cases "dq_filterGroupIndex q \<ge> length (sub_filterGroup (dq_sub q))")
    case True
    then show ?thesis by (simp add: process_round_def)
  next
    case False
    show ?thesis
    proof (cases ?S)
      case (Inl e)
      with False show ?thesis by (simp add: process_round_def Let_def)
    next
      case (Inr S)
      then have ix: "ds_indexDbi S \<in> scan_indexes"
        using assms(3) DBScan_index by (cases "dq_scanner q") auto
      define N where "N = Suc (total_remaining db S + 2 + scan_measure db S)"
      have fuel: "total_remaining db S + 2 \<le> N" "scan_measure db S < N" by (simp_all add: N_def)
      obtain r where "scan_loop N N E L db ?f (query_handleEvent ?f cb) (query_doPause clock (clock t) budget) (S, q, Suc t, c) = Some r"
        using scan_loop_returns [OF assms(1,2) ix fuel, of ?f "query_handleEvent ?f cb" "query_doPause clock (clock t) budget"]
        by blast
      then have "process_round N E L clock db cb budget (q, t, c) \<noteq> None"
        using False Inr by (auto simp: process_round_def Let_def split: sum.split prod.split)
      then show ?thesis by blast
    qed
  qed
  then obtain N r where "process_round N E L clock db cb budget (q, t, c) = Some r" by blast
  then have "\<forall>n\<ge>N. process_round n E L clock db cb budget (q, t, c) = Some r"
    by (intro allI impI) (rule process_round_mono)
  then show ?thesis by blast
qed

lemma process_loop_returns:
  assumes "holds E L tree_items fs db M" "lookup_Event E db 0 = None"
    and "\<And>S. dq_scanner q = Some S \<Longrightarrow> ds_indexDbi S \<in> scan_indexes"
    and "length (sub_filterGroup (dq_sub q)) - dq_filterGroupIndex q < m"
  shows "\<exists>N r. \<forall>n\<ge>N. process_loop m n E L clock db cb budget (q, t, c) = Some r"
  using assms(3,4)
proof (induction m arbitrary: q t c)
  case 0
  then show ?case by simp
next
  case (Suc m)
  have "\<exists>N r. \<forall>n\<ge>N. process_round n E L clock db cb budget (q, t, c) = Some r"
    by (rule process_round_returns [OF assms(1,2)]) (rule Suc.prems(1))
  then obtain N r where r: "\<And>n. n \<ge> N \<Longrightarrow> process_round n E L clock db cb budget (q, t, c) = Some r"
    by blast
  show ?case
  proof (cases "\<exists>q' t' c'. r = Inr (None, q', t', c')")
    case True
    then obtain q' t' c' where eq: "r = Inr (None, q', t', c')" by blast
    have next_q: "dq_scanner q' = None" "dq_sub q' = dq_sub q" "dq_filterGroupIndex q' = Suc (dq_filterGroupIndex q)"
      using process_round_next [of N E L clock db cb budget q t c q' t' c'] r [of N] eq by simp_all
    have "dq_filterGroupIndex q < length (sub_filterGroup (dq_sub q))"
      using r [of N] eq by (auto simp: process_round_def split: if_splits)
    then have "length (sub_filterGroup (dq_sub q')) - dq_filterGroupIndex q' < m"
      using Suc.prems(2) by (simp add: next_q)
    then obtain N' r' where r': "\<And>n. n \<ge> N' \<Longrightarrow> process_loop m n E L clock db cb budget (q', t', c') = Some r'"
      using Suc.IH [of q' t' c'] next_q(1) by auto
    have "process_loop (Suc m) n E L clock db cb budget (q, t, c) = Some r'" if "n \<ge> max N N'" for n
      using r [of n] r' [of n] that eq by simp
    then show ?thesis by blast
  next
    case False
    have "\<exists>r'. \<forall>n\<ge>N. process_loop (Suc m) n E L clock db cb budget (q, t, c) = Some r'"
    proof (cases r)
      case (Inl e)
      then show ?thesis using r by auto
    next
      case (Inr p)
      obtain b q' t' c' where p: "p = (b, q', t', c')" by (cases p)
      with Inr False obtain b' where "b = Some b'" by (cases b) auto
      with Inr p r show ?thesis by auto
    qed
    then show ?thesis by blast
  qed
qed

lemma foreachByFilter_returns:
  assumes "holds E L tree_items fs db M" "lookup_Event E db 0 = None"
  shows "\<exists>N r. \<forall>n\<ge>N. foreachByFilter n E L clock db filt cb c = Some r"
proof (cases "DBQuery_filter L filt MAX_U64")
  case (Inl e)
  then show ?thesis by (simp add: foreachByFilter_def)
next
  case (Inr q)
  then have "dq_scanner q = None" by (auto simp: DBQuery_filter_def DBQuery_def bindE_eq_Inr)
  then obtain N r where r: "\<And>n. n \<ge> N \<Longrightarrow> process n E L clock db cb MAX_U64 (q, 0, c) = Some r"
    using process_loop_returns [OF assms, of q] unfolding process_def fst_conv by (metis lessI option.distinct(1))
  define r' where "r' = (case r of Inl e \<Rightarrow> Inl e | Inr (_, _, _, c') \<Rightarrow> Inr c')"
  have "foreachByFilter n E L clock db filt cb c = Some r'" if "n \<ge> N" for n
    using r [OF that] by (auto simp: foreachByFilter_def Inr r'_def split: sum.split)
  then show ?thesis by blast
qed

end

lemma le_bytes_max: "le_bytes k (256 ^ k - 1) = replicate k (CHR 0xFF)"
proof (induction k)
  case (Suc k)
  have "256 ^ Suc k - Suc 0 = (256 ^ k - 1) * 256 + 255" for k :: nat
    using one_le_power [of "256 :: nat" k] by (simp add: algebra_simps del: one_le_power)
  then have "(256 ^ Suc k - 1) mod 256 = (255 :: nat)" "(256 ^ Suc k - 1) div 256 = (256 ^ k - 1 :: nat)" by simp_all
  moreover have "char_of (255 :: nat) = CHR 0xFF" by (simp add: char_of_def bit_0)
  ultimately show ?case using Suc by simp
qed simp

lemma le_MAX: "to_sv le_lib MAX_U64 = ff8"
proof -
  have "unat MAX_U64 = 256 ^ 8 - 1" by (simp add: unsigned_minus_1_eq_mask mask_eq_exp_minus_1)
  then show ?thesis using le_bytes_max [of 8] by (simp add: le_lib_def ff8_def del: le_bytes.simps)
qed

interpretation mem_scan: scan_env le_lib mem_env mem_key_le mem_tree_items
proof
  fix db :: mem_db and ix k v bwd
  show "distinct (foreachFull mem_env db ix k v bwd)"
    by (simp add: mem_scan_def Let_def)
next
  fix ix a b c
  show "mem_key_le ix a b \<or> mem_key_le ix b a" unfolding mem_key_le_def by (rule linear)
  show "mem_key_le ix a b \<Longrightarrow> mem_key_le ix b c \<Longrightarrow> mem_key_le ix a c" unfolding mem_key_le_def by (rule order_trans)
next
  fix ix s n s' n'
  assume "ix \<in> scan_indexes"
  then have rank: "mem_rank ix (makeKey_StringUint64 mem_env s n) = (s, n)" for s n
    by (auto simp: mem_rank_def scan_indexes_def split_mem_makeKey)
  show "mem_key_le ix (makeKey_StringUint64 mem_env s n) (makeKey_StringUint64 mem_env s n') \<longleftrightarrow> n \<le> n'"
    unfolding mem_key_le_def rank by (simp add: less_eq_prod_simp)
  show "mem_key_le ix (makeKey_StringUint64 mem_env s n) (makeKey_StringUint64 mem_env s' n') \<Longrightarrow> s \<noteq> s' \<Longrightarrow>
      mem_key_le ix (makeKey_StringUint64 mem_env s m) (makeKey_StringUint64 mem_env s' m')" for m m'
    unfolding mem_key_le_def rank by (auto simp: less_eq_prod_simp)
  assume "mem_key_le ix (makeKey_StringUint64 mem_env s n) (makeKey_StringUint64 mem_env s' n')"
    "mem_key_le ix (makeKey_StringUint64 mem_env s' n') (makeKey_StringUint64 mem_env s n)"
  then show "s = s' \<and> n = n'" unfolding mem_key_le_def rank by (metis order_antisym prod.inject)
next
  show "to_sv le_lib MAX_U64 = ff8" by (rule le_MAX)
next
  fix p q :: u64 and s
  show "makeKey_Uint64Uint64 mem_env p q = to_sv le_lib p @ to_sv le_lib q"
    "makeKey_StringUint64Uint64 mem_env s p q = s @ to_sv le_lib p @ to_sv le_lib q"
    "parseKey_Uint64Uint64 mem_env (makeKey_Uint64Uint64 mem_env p q) = (p, q)"
    by (simp_all add: mem_env_def key_env_def)
qed

end
