(* ===== verification/Query_Results.thy ===== *)
theory Query_Results
  imports Db_Query
begin

text \<open>
  What a query delivers: every event handed to the callback is stored and matches a filter
  of the subscription, also where a scan trusts the index alone, and none is handed over
  twice.
\<close>

section \<open>Filters that the constructor built\<close>

definition bytes_set :: "nat \<Rightarrow> nat \<Rightarrow> filter_set_bytes \<Rightarrow> bool" where
  "bytes_set mn mx s \<longleftrightarrow> FilterSetBytes_elems s \<noteq> [] \<and> distinct (FilterSetBytes_elems s) \<and>
     (\<forall>c. c \<in> set (FilterSetBytes_elems s) \<longleftrightarrow> FilterSetBytes_doesMatch s c) \<and>
     (\<forall>c\<in>set (FilterSetBytes_elems s). mn \<le> length c \<and> length c \<le> mx)"

definition filter_ok :: "nostr_filter \<Rightarrow> bool" where
  "filter_ok f \<longleftrightarrow> (\<forall>s. nf_ids f = Some s \<longrightarrow> bytes_set 32 32 s) \<and>
     (\<forall>s. nf_authors f = Some s \<longrightarrow> bytes_set 32 32 s) \<and>
     (\<forall>ks. nf_kinds f = Some ks \<longrightarrow> ks \<noteq> [] \<and> distinct ks \<and> (\<forall>n. n \<in> set ks \<longleftrightarrow> FilterSetUint_doesMatch ks n)) \<and>
     (\<forall>t\<in>set (nf_tags f). bytes_set 0 255 (snd t)) \<and> distinct (map fst (nf_tags f))"

text \<open>The number of conditions other than times, \<^verbatim>\<open>numMajorFields\<close> counts them.\<close>

definition major :: "nostr_filter \<Rightarrow> nat" where
  "major f = (if nf_ids f = None then 0 else 1) + (if nf_authors f = None then 0 else 1) +
     (if nf_kinds f = None then 0 else 1) + length (nf_tags f)"

lemma strict_sorted_imp_distinct: "sorted_wrt (<) (xs :: 'a::linorder list) \<Longrightarrow> distinct xs"
  by (induction xs) auto

lemma bytes_set_FilterSetBytes:
  assumes "FilterSetBytes L v hx mn mx = Inr s" "v \<noteq> JArray []"
  shows "bytes_set mn mx s"
proof -
  note props = FilterSetBytes_elems_props [OF assms(1)]
  obtain xs arr where v: "v = JArray xs" "mapE (FilterSetBytes_item L hx mn mx) xs = Inr arr"
    "fsb_holds s (dedup None (sort arr))" "set (dedup None (sort arr)) = set arr"
    by (rule FilterSetBytes_holds [OF assms(1)])
  have "length arr = length xs" using length_mapE [OF v(2)] .
  then have "set arr \<noteq> {}" using assms(2) v(1) by auto
  then have "FilterSetBytes_elems s \<noteq> []"
    using v(4) fsb_holds_elems [OF v(3)] by force
  with props strict_sorted_imp_distinct [OF props(1)] show ?thesis by (auto simp: bytes_set_def)
qed

lemma bytes_set_weaken: "bytes_set mn mx s \<Longrightarrow> mx \<le> mx' \<Longrightarrow> bytes_set 0 mx' s"
  unfolding bytes_set_def by fastforce

lemma bytes_setD:
  assumes "bytes_set n n s" "c \<in> set (FilterSetBytes_elems s)"
  shows "length c = n" "FilterSetBytes_doesMatch s c"
proof -
  have "n \<le> length c" "length c \<le> n" using assms unfolding bytes_set_def by blast+
  then show "length c = n" by (rule antisym [rotated])
  show "FilterSetBytes_doesMatch s c" using assms unfolding bytes_set_def by blast
qed

lemma FilterSetUint_ok:
  assumes "FilterSetUint v = Inr ks" "v \<noteq> JArray []"
  shows "ks \<noteq> [] \<and> distinct ks \<and> (\<forall>n. n \<in> set ks \<longleftrightarrow> FilterSetUint_doesMatch ks n)"
proof -
  from assms(1) obtain xs ns where v: "v = JArray xs" "mapE get_unsigned xs = Inr ns" "ks = remdups_adj (sort ns)"
    by (cases v) (auto simp: FilterSetUint_def bindE_eq_Inr)
  have "length ns = length xs" using length_mapE [OF v(2)] .
  then have "set ns \<noteq> {}" using assms(2) v(1) by auto
  moreover have "FilterSetUint_doesMatch ks n \<longleftrightarrow> n \<in> set ks" for n
    unfolding FilterSetUint_doesMatch_def by (rule bisect_lower_bound) (simp add: v(3) sorted_remdups_adj_strict)
  moreover have "distinct ks" unfolding v(3) by (rule strict_sorted_imp_distinct) (simp add: sorted_remdups_adj_strict)
  ultimately show ?thesis by (metis set_empty set_sort remdups_adj_set v(3))
qed

lemma filter_ok_update:
  "filter_ok f \<Longrightarrow> filter_ok (f\<lparr>nf_neverMatch := b\<rparr>)" "filter_ok f \<Longrightarrow> filter_ok (f\<lparr>nf_since := u\<rparr>)"
  "filter_ok f \<Longrightarrow> filter_ok (f\<lparr>nf_until := u\<rparr>)" "filter_ok f \<Longrightarrow> filter_ok (f\<lparr>nf_limit := u\<rparr>)"
  "filter_ok f \<Longrightarrow> bytes_set 32 32 s \<Longrightarrow> filter_ok (f\<lparr>nf_ids := Some s\<rparr>)"
  "filter_ok f \<Longrightarrow> bytes_set 32 32 s \<Longrightarrow> filter_ok (f\<lparr>nf_authors := Some s\<rparr>)"
  "filter_ok f \<Longrightarrow> ks \<noteq> [] \<and> distinct ks \<and> (\<forall>n. n \<in> set ks \<longleftrightarrow> FilterSetUint_doesMatch ks n) \<Longrightarrow> filter_ok (f\<lparr>nf_kinds := Some ks\<rparr>)"
  by (simp_all add: filter_ok_def)

lemma filter_ok_tag:
  "filter_ok f \<Longrightarrow> bytes_set 0 255 s \<Longrightarrow> filter_ok (f\<lparr>nf_tags := tags_emplace t s (nf_tags f)\<rparr>)"
  by (auto simp: filter_ok_def tags_emplace_def)

lemma major_update:
  "major (f\<lparr>nf_neverMatch := b\<rparr>) = major f" "major (f\<lparr>nf_since := u\<rparr>) = major f"
  "major (f\<lparr>nf_until := u\<rparr>) = major f" "major (f\<lparr>nf_limit := u\<rparr>) = major f"
  "major (f\<lparr>nf_ids := Some s\<rparr>) \<le> Suc (major f)" "major (f\<lparr>nf_authors := Some s\<rparr>) \<le> Suc (major f)"
  "major (f\<lparr>nf_kinds := Some ks\<rparr>) \<le> Suc (major f)"
  "major (f\<lparr>nf_tags := tags_emplace t s (nf_tags f)\<rparr>) \<le> Suc (major f)"
  by (simp_all add: major_def tags_emplace_def)

lemma NostrFilter_field_tag:
  assumes "NostrFilter_field L ([CHR ''#'', t], v) (f, n) = Inr (f', n')" "v \<noteq> JArray []"
  obtains s where "bytes_set 0 255 s" "f' = f\<lparr>nf_tags := tags_emplace t s (nf_tags f)\<rparr>" "n' = Suc n"
proof -
  obtain s where s: "FilterSetBytes L v True 32 32 = Inr s \<or> FilterSetBytes L v False 0 MAX_INDEXED_TAG_VAL_SIZE = Inr s"
    "f' = f\<lparr>nf_tags := tags_emplace t s (nf_tags f)\<rparr>" "n' = Suc n"
    using assms by (auto simp: NostrFilter_field_def starts_with_def Let_def bindE_eq_Inr split: if_splits)
  have "bytes_set 0 255 s"
    using s(1) bytes_set_FilterSetBytes [OF _ assms(2), of L True 32 32 s]
      bytes_set_FilterSetBytes [OF _ assms(2), of L False 0 MAX_INDEXED_TAG_VAL_SIZE s]
    by (auto simp: MAX_INDEXED_TAG_VAL_SIZE_def intro: bytes_set_weaken)
  with s(2,3) show thesis by (rule that [rotated])
qed

lemma NostrFilter_field_ok:
  assumes "NostrFilter_field L (k, v) (f, n) = Inr (f', n')" "filter_ok f" "major f \<le> n"
  shows "filter_ok f' \<and> major f' \<le> n'"
  using assms(1)
proof (cases rule: NostrFilter_field_cases)
  case never
  then have "n' = n" using assms(1) by (simp add: NostrFilter_field_def)
  with never assms(2,3) show ?thesis by (simp add: filter_ok_update major_update)
next
  case (ids s)
  then have "n' = Suc n" using assms(1) by (simp add: NostrFilter_field_def)
  with assms(2,3) bytes_set_FilterSetBytes [OF ids(3,2)] show ?thesis
    unfolding ids(4) by (intro conjI filter_ok_update) (simp_all add: order_trans [OF major_update(5)])
next
  case (authors s)
  then have "n' = Suc n" using assms(1) by (simp add: NostrFilter_field_def)
  with assms(2,3) bytes_set_FilterSetBytes [OF authors(3,2)] show ?thesis
    unfolding authors(4) by (intro conjI filter_ok_update) (simp_all add: order_trans [OF major_update(6)])
next
  case (kinds s)
  then have "n' = Suc n" using assms(1) by (simp add: NostrFilter_field_def)
  with assms(2,3) show ?thesis
    unfolding kinds(4) by (intro conjI filter_ok_update(7) FilterSetUint_ok [OF kinds(3,2), THEN conjunct1]
        FilterSetUint_ok [OF kinds(3,2), THEN conjunct2]) (simp_all add: order_trans [OF major_update(7)])
next
  case (tag t s)
  obtain s' where s': "bytes_set 0 255 s'" "f' = f\<lparr>nf_tags := tags_emplace t s' (nf_tags f)\<rparr>" "n' = Suc n"
    by (rule NostrFilter_field_tag [OF assms(1) [unfolded tag(1)] tag(2)])
  with filter_ok_tag [OF assms(2) s'(1)] assms(3) show ?thesis by (simp add: order_trans [OF major_update(8)])
next
  case (since u)
  then have "n' = n" using assms(1) by (simp add: NostrFilter_field_def starts_with_def)
  with since assms(2,3) show ?thesis by (simp add: filter_ok_update major_update)
next
  case (until u)
  then have "n' = n" using assms(1) by (simp add: NostrFilter_field_def starts_with_def)
  with until assms(2,3) show ?thesis by (simp add: filter_ok_update major_update)
next
  case (limit u)
  then have "n' = n" using assms(1) by (simp add: NostrFilter_field_def starts_with_def)
  with limit assms(2,3) show ?thesis by (simp add: filter_ok_update major_update)
qed

lemma NostrFilter_fold_ok:
  assumes "foldE (NostrFilter_field L) kvs (f, n) = Inr (f', n')" "filter_ok f" "major f \<le> n"
  shows "filter_ok f' \<and> major f' \<le> n'"
  using assms
proof (induction kvs arbitrary: f n)
  case (Cons kv kvs)
  obtain f1 n1 where one: "NostrFilter_field L (fst kv, snd kv) (f, n) = Inr (f1, n1)"
    and rest: "foldE (NostrFilter_field L) kvs (f1, n1) = Inr (f', n')"
    using Cons.prems(1) by (auto simp: bindE_eq_Inr)
  from NostrFilter_field_ok [OF one Cons.prems(2,3)] Cons.IH [OF rest] show ?case by blast
qed simp

lemma NostrFilter_ok:
  assumes "NostrFilter L x m = Inr f"
  shows "filter_ok f"
    and "nf_indexOnlyScans f \<Longrightarrow> major f \<le> 1 \<or> (major f \<le> 2 \<and> nf_authors f \<noteq> None \<and> nf_kinds f \<noteq> None)"
proof -
  from assms obtain kvs f1 n1 where fold: "foldE (NostrFilter_field L) kvs (empty_filter, 0) = Inr (f1, n1)"
    and f: "f = f1\<lparr>nf_limit := (if nf_limit f1 > m then m else nf_limit f1), nf_indexOnlyScans :=
       (n1 \<le> 1 \<or> (n1 = 2 \<and> nf_authors f1 \<noteq> None \<and> nf_kinds f1 \<noteq> None))\<rparr>"
    by (auto simp: NostrFilter_def bindE_eq_Inr Let_def)
  have "filter_ok empty_filter" "major empty_filter = 0" by (simp_all add: filter_ok_def major_def empty_filter_def)
  with NostrFilter_fold_ok [OF fold] have "filter_ok f1" "major f1 \<le> n1" by simp_all
  moreover have "major f = major f1" "filter_ok f = filter_ok f1" by (simp_all add: f filter_ok_def major_def)
  ultimately show "filter_ok f"
    "nf_indexOnlyScans f \<Longrightarrow> major f \<le> 1 \<or> (major f \<le> 2 \<and> nf_authors f \<noteq> None \<and> nf_kinds f \<noteq> None)"
    by (auto simp: f)
qed

text \<open>A filter as the query engine gets it: built by the constructor, and not one that matches nothing.\<close>

definition query_filter :: "nostr_filter \<Rightarrow> bool" where
  "query_filter f \<longleftrightarrow> filter_ok f \<and> \<not> nf_neverMatch f \<and>
     (nf_indexOnlyScans f \<longrightarrow> major f \<le> 1 \<or> (major f \<le> 2 \<and> nf_authors f \<noteq> None \<and> nf_kinds f \<noteq> None))"

lemma NostrFilterGroup_fold_query:
  assumes "foldE (NostrFilterGroup_add L m) xs fs = Inr fs'" "\<forall>f\<in>set fs. query_filter f"
  shows "\<forall>f\<in>set fs'. query_filter f"
  using assms
proof (induction xs arbitrary: fs)
  case (Cons x xs)
  obtain f where f: "NostrFilter L x m = Inr f"
    and rest: "foldE (NostrFilterGroup_add L m) xs (if nf_neverMatch f then fs else fs @ [f]) = Inr fs'"
    using Cons.prems(1) unfolding foldE.simps NostrFilterGroup_add_def [of L m x fs] by (auto simp: bindE_eq_Inr)
  have "\<forall>g\<in>set (if nf_neverMatch f then fs else fs @ [f]). query_filter g"
    using Cons.prems(2) NostrFilter_ok [OF f] by (auto simp: query_filter_def)
  from Cons.IH [OF rest this] show ?case .
qed simp

lemma unwrapped_query:
  "NostrFilterGroup_unwrapped L filt m = Inr fg \<Longrightarrow> \<forall>f\<in>set fg. query_filter f"
  unfolding NostrFilterGroup_unwrapped_def NostrFilterGroup_def
  by (auto simp: bindE_eq_Inr dest!: NostrFilterGroup_fold_query)

section \<open>Packed candidates\<close>

lemma bit_below: "c < 2 ^ k \<Longrightarrow> bit (c :: u64) n \<Longrightarrow> n < k"
  by (metis bit_and_iff bit_mask_iff less_mask_eq)

lemma ce_created_CandidateEvent:
  assumes "created < 2 ^ 40"
  shows "ce_created (CandidateEvent levId created scanIndex) = created"
proof -
  have "(0xFFFFFFFFFF :: u64) = mask 40" by (simp add: mask_eq_exp_minus_1)
  moreover have "(push_bit 40 scanIndex OR created) AND mask 40 = created"
    by (intro bit_word_eqI) (auto simp: bit_and_iff bit_or_iff bit_mask_iff bit_push_bit_iff dest: bit_below [OF assms])
  ultimately show ?thesis by (simp add: ce_created_def CandidateEvent_def)
qed

lemma ce_scanIndex_CandidateEvent:
  assumes "created < 2 ^ 40" "scanIndex < 2 ^ 24"
  shows "ce_scanIndex (CandidateEvent levId created scanIndex) = scanIndex"
proof -
  have "drop_bit 40 (push_bit 40 scanIndex OR created) = scanIndex"
    by (intro bit_word_eqI)
      (auto simp: bit_drop_bit_eq bit_or_iff bit_push_bit_iff dest: bit_below [OF assms(1)] bit_below [OF assms(2)])
  then show ?thesis by (simp add: ce_scanIndex_def CandidateEvent_def)
qed

section \<open>What an index entry says of its event\<close>

definition fields_match :: "nostr_filter \<Rightarrow> event \<Rightarrow> bool" where
  "fields_match f e \<longleftrightarrow> (\<forall>s. nf_ids f = Some s \<longrightarrow> FilterSetBytes_doesMatch s (ev_id e)) \<and>
     (\<forall>s. nf_authors f = Some s \<longrightarrow> FilterSetBytes_doesMatch s (ev_pubkey e)) \<and>
     (\<forall>s. nf_kinds f = Some s \<longrightarrow> FilterSetUint_doesMatch s (ev_kind e)) \<and>
     (\<forall>tf\<in>set (nf_tags f). \<exists>t\<in>set (ev_tags e). fst t = fst tf \<and> FilterSetBytes_doesMatch (snd tf) (snd t))"

lemma nf_matches_fields:
  "nf_matches f e \<longleftrightarrow> \<not> nf_neverMatch f \<and> doesMatchTimes f (ev_created_at e) \<and> fields_match f e"
  by (auto simp: nf_matches_def fields_match_def doesMatchTimes_def not_less)

lemma mapE_Inr: "(\<And>x. x \<in> set xs \<Longrightarrow> f x = Inr (g x)) \<Longrightarrow> mapE f xs = Inr (map g xs)"
  by (induction xs) simp_all

lemma map_nth_upt: "map (\<lambda>i. g (xs ! i)) [0..<length xs] = map g xs"
  by (rule nth_equalityI) auto

lemma bytes_cursors_eq: "bytes_cursors s mk = Inr (map mk (FilterSetBytes_elems s))"
proof -
  have "bytes_cursors s mk = Inr (map (\<lambda>i. mk (item_sv s (fsb_items s ! i))) [0..<length (fsb_items s)])"
    unfolding bytes_cursors_def FilterSetBytes_size_def by (rule mapE_Inr) (simp add: FilterSetBytes_at_def)
  then show ?thesis
    using map_nth_upt [of "\<lambda>it. mk (item_sv s it)" "fsb_items s"] by (simp add: FilterSetBytes_elems_def comp_def)
qed

lemma author_kind_cursors_eq:
  "author_kind_cursors L authors kinds =
     Inr (concat (map (\<lambda>a. map (\<lambda>kind. prefix_cursor (a @ to_sv L kind)) kinds) (FilterSetBytes_elems authors)))"
proof -
  let ?row = "\<lambda>a. map (\<lambda>kind. prefix_cursor (a @ to_sv L kind)) kinds"
  have row: "mapE (\<lambda>j. bindE (FilterSetUint_at kinds j) (\<lambda>kind. bindE (FilterSetBytes_at authors i) (\<lambda>search.
      Inr (prefix_cursor (search @ to_sv L kind))))) [0..<length kinds] = Inr (?row (item_sv authors (fsb_items authors ! i)))"
    if "i < length (fsb_items authors)" for i
  proof -
    have "mapE (\<lambda>j. bindE (FilterSetUint_at kinds j) (\<lambda>kind. bindE (FilterSetBytes_at authors i) (\<lambda>search.
      Inr (prefix_cursor (search @ to_sv L kind))))) [0..<length kinds] =
      Inr (map (\<lambda>j. prefix_cursor (item_sv authors (fsb_items authors ! i) @ to_sv L (kinds ! j))) [0..<length kinds])"
      by (rule mapE_Inr) (simp add: FilterSetUint_at_def FilterSetBytes_at_def that not_le)
    then show ?thesis
      using map_nth_upt [of "\<lambda>kind. prefix_cursor (item_sv authors (fsb_items authors ! i) @ to_sv L kind)" kinds] by simp
  qed
  have "mapE (\<lambda>i. mapE (\<lambda>j. bindE (FilterSetUint_at kinds j) (\<lambda>kind. bindE (FilterSetBytes_at authors i) (\<lambda>search.
      Inr (prefix_cursor (search @ to_sv L kind))))) [0..<length kinds]) [0..<FilterSetBytes_size authors] =
      Inr (map (\<lambda>i. ?row (item_sv authors (fsb_items authors ! i))) [0..<FilterSetBytes_size authors])"
    by (rule mapE_Inr) (simp add: row FilterSetBytes_size_def)
  then show ?thesis
    using map_nth_upt [of "\<lambda>it. ?row (item_sv authors it)" "fsb_items authors"]
    by (simp add: author_kind_cursors_def FilterSetBytes_elems_def FilterSetBytes_size_def comp_def)
qed

lemma starts_with_append_eq: "length p = length s \<Longrightarrow> starts_with (s @ t) p \<longleftrightarrow> s = p"
  by (auto simp: starts_with_def)

text \<open>Times that the packing of candidates leaves intact, and the events a query is for.\<close>

definition small_times :: "store \<Rightarrow> bool" where
  "small_times M \<longleftrightarrow> (\<forall>l e. M l = Some e \<longrightarrow> ev_created_at e < 2 ^ 40)"

definition wanted :: "store \<Rightarrow> nostr_filter list \<Rightarrow> u64 \<Rightarrow> bool" where
  "wanted M fg l \<longleftrightarrow> (\<exists>e f. M l = Some e \<and> f \<in> set fg \<and> nf_matches f e)"

context scan_env
begin

lemma kind_cursors_eq:
  "mapE (\<lambda>i. bindE (FilterSetUint_at kinds i) (\<lambda>kind. Inr (new_cursor (to_sv L kind @ ff8) (MatchKind kind)))) [0..<length kinds] =
     Inr (map (\<lambda>kind. new_cursor (to_sv L kind @ ff8) (MatchKind kind)) kinds)"
proof -
  have "mapE (\<lambda>i. bindE (FilterSetUint_at kinds i) (\<lambda>kind. Inr (new_cursor (to_sv L kind @ ff8) (MatchKind kind)))) [0..<length kinds] =
      Inr (map (\<lambda>i. new_cursor (to_sv L (kinds ! i) @ ff8) (MatchKind (kinds ! i))) [0..<length kinds])"
    by (rule mapE_Inr) (simp add: FilterSetUint_at_def)
  then show ?thesis using map_nth_upt [of "\<lambda>kind. new_cursor (to_sv L kind @ ff8) (MatchKind kind)" kinds] by simp
qed

text \<open>The condition that the chosen index decides, read off the key of an entry.\<close>

lemma prefix_match:
  assumes "wf_event e" "length search = 32"
  shows "k \<in> set (event_keys E L e Ix_id) \<Longrightarrow> starts_with k search \<Longrightarrow> ev_id e = search"
    and "k \<in> set (event_keys E L e Ix_pubkey) \<Longrightarrow> starts_with k search \<Longrightarrow> ev_pubkey e = search"
    and "k \<in> set (event_keys E L e Ix_pubkeyKind) \<Longrightarrow> starts_with k (search @ to_sv L kind) \<Longrightarrow>
      ev_pubkey e = search \<and> ev_kind e = kind"
proof -
  have len: "length (ev_id e) = 32" "length (ev_pubkey e) = 32" using assms(1) by (simp_all add: wf_event_def)
  show "k \<in> set (event_keys E L e Ix_id) \<Longrightarrow> starts_with k search \<Longrightarrow> ev_id e = search"
    "k \<in> set (event_keys E L e Ix_pubkey) \<Longrightarrow> starts_with k search \<Longrightarrow> ev_pubkey e = search"
    using len assms(2) by (auto simp: event_keys_def makeKey starts_with_append_eq)
  assume "k \<in> set (event_keys E L e Ix_pubkeyKind)" "starts_with k (search @ to_sv L kind)"
  then have "starts_with ((ev_pubkey e @ to_sv L (ev_kind e)) @ to_sv L (ev_created_at e)) (search @ to_sv L kind)"
    by (simp add: event_keys_def makeKey_StringUint64Uint64)
  then have "ev_pubkey e @ to_sv L (ev_kind e) = search @ to_sv L kind"
    by (subst (asm) starts_with_append_eq) (simp_all add: len assms(2))
  then show "ev_pubkey e = search \<and> ev_kind e = kind" using len assms(2) inj_to_sv by auto
qed

lemma exact_match:
  assumes "k \<in> set (event_keys E L e Ix_tag)" "length k = length search + 8" "starts_with k search"
  shows "\<exists>t\<in>set (ev_tags e). fst t # snd t = search"
proof -
  obtain t where t: "t \<in> set (ev_tags e)" "k = (fst t # snd t) @ to_sv L (ev_created_at e)"
    using assms(1) by (auto simp: event_keys_def makeKey)
  then have "length (fst t # snd t) = length search" using assms(2) by simp
  with t assms(3) show ?thesis by (metis starts_with_append_eq)
qed

lemma scan_plan_sound:
  assumes "query_filter f" "scan_plan L f = Inr (ix, cs, True)" "c \<in> set cs"
    and "wf_event e" "k \<in> set (event_keys E L e ix)" "keyMatch E (sc_keyMatch c) k"
  shows "fields_match f e"
proof -
  have ok: "filter_ok f" using assms(1) by (simp add: query_filter_def)
  consider (ids) s where "nf_ids f = Some s" | (tags) "nf_ids f = None" "nf_tags f \<noteq> []"
    | (authors) s where "nf_ids f = None" "nf_tags f = []" "nf_authors f = Some s"
    | (kinds) ks where "nf_ids f = None" "nf_tags f = []" "nf_authors f = None" "nf_kinds f = Some ks"
    | (all) "nf_ids f = None" "nf_tags f = []" "nf_authors f = None" "nf_kinds f = None"
    by (cases "nf_ids f"; cases "nf_authors f"; cases "nf_kinds f"; cases "nf_tags f") auto
  then show ?thesis
  proof cases
    case ids
    then have plan: "ix = Ix_id" "cs = map prefix_cursor (FilterSetBytes_elems s)" "nf_indexOnlyScans f"
      using assms(2) by (auto simp: scan_plan_def bytes_cursors_eq)
    then obtain search where search: "search \<in> set (FilterSetBytes_elems s)" "c = prefix_cursor search" using assms(3) by auto
    have set: "bytes_set 32 32 s" using ok ids by (simp add: filter_ok_def)
    have "ev_id e = search"
      using prefix_match(1) [OF assms(4) bytes_setD(1) [OF set search(1)], of k] assms(5,6) search(2) plan(1)
      by (simp add: prefix_cursor_def new_cursor_def)
    then have "FilterSetBytes_doesMatch s (ev_id e)" using bytes_setD(2) [OF set search(1)] by simp
    moreover have "nf_authors f = None" "nf_kinds f = None" "nf_tags f = []"
      using assms(1) plan(3) ids by (auto simp: query_filter_def major_def split: if_splits)
    ultimately show ?thesis using ids by (simp add: fields_match_def)
  next
    case tags
    then have io: "nf_indexOnlyScans f" and ix: "ix = Ix_tag"
      using assms(2) by (auto simp: scan_plan_def Let_def bytes_cursors_eq split: option.splits)
    have none: "nf_authors f = None" "nf_kinds f = None" "length (nf_tags f) = 1"
      using assms(1) io tags by (auto simp: query_filter_def major_def le_Suc_eq split: if_splits)
    then obtain t s where ts: "nf_tags f = [(t, s)]" by (cases "nf_tags f") auto
    then have plan: "cs = map (\<lambda>v. exact_cursor (t # v)) (FilterSetBytes_elems s)"
      using assms(2) tags(1) by (auto simp: scan_plan_def Let_def bytes_cursors_eq split: option.splits if_splits)
    then obtain v where v: "v \<in> set (FilterSetBytes_elems s)" "c = exact_cursor (t # v)" using assms(3) by auto
    have set: "bytes_set 0 255 s" using ok ts by (simp add: filter_ok_def)
    have "\<exists>u\<in>set (ev_tags e). fst u # snd u = t # v"
      by (rule exact_match) (use assms(5,6) v(2) ix in \<open>auto simp: exact_cursor_def new_cursor_def\<close>)
    then show ?thesis
      using none tags(1) set v(1) unfolding fields_match_def ts by (auto simp: bytes_set_def)
  next
    case authors
    have set: "bytes_set 32 32 s" using ok authors by (simp add: filter_ok_def)
    show ?thesis
    proof (cases "nf_kinds f")
      case None
      then have plan: "ix = Ix_pubkey" "cs = map prefix_cursor (FilterSetBytes_elems s)"
        using assms(2) authors by (auto simp: scan_plan_def bytes_cursors_eq)
      then obtain search where search: "search \<in> set (FilterSetBytes_elems s)" "c = prefix_cursor search" using assms(3) by auto
      have "ev_pubkey e = search"
        using prefix_match(2) [OF assms(4) bytes_setD(1) [OF set search(1)], of k] assms(5,6) search(2) plan(1)
        by (simp add: prefix_cursor_def new_cursor_def)
      then show ?thesis using bytes_setD(2) [OF set search(1)] authors None by (simp add: fields_match_def)
    next
      case (Some ks)
      then have plan: "ix = Ix_pubkeyKind"
        "cs = concat (map (\<lambda>a. map (\<lambda>kind. prefix_cursor (a @ to_sv L kind)) ks) (FilterSetBytes_elems s))"
        using assms(2) authors by (auto simp: scan_plan_def author_kind_cursors_eq bytes_cursors_eq split: if_splits)
      then obtain search kind where search: "search \<in> set (FilterSetBytes_elems s)" "kind \<in> set ks"
        "c = prefix_cursor (search @ to_sv L kind)" using assms(3) by auto
      have "ev_pubkey e = search \<and> ev_kind e = kind"
        using prefix_match(3) [OF assms(4) bytes_setD(1) [OF set search(1)], of k kind] assms(5,6) search(3) plan(1)
        by (simp add: prefix_cursor_def new_cursor_def)
      moreover have "FilterSetUint_doesMatch ks kind" using ok Some search(2) by (simp add: filter_ok_def)
      ultimately show ?thesis using bytes_setD(2) [OF set search(1)] authors Some by (simp add: fields_match_def)
    qed
  next
    case kinds
    then have plan: "ix = Ix_kind" "cs = map (\<lambda>kind. new_cursor (to_sv L kind @ ff8) (MatchKind kind)) ks"
      using assms(2) by (auto simp: scan_plan_def kind_cursors_eq)
    then obtain kind where kind: "kind \<in> set ks" "sc_keyMatch c = MatchKind kind"
      using assms(3) by (auto simp: new_cursor_def)
    then have "ev_kind e = kind" using assms(5,6) plan(1) by (simp add: event_keys_def parseKey_Uint64Uint64)
    moreover have "FilterSetUint_doesMatch ks kind" using ok kinds kind(1) by (simp add: filter_ok_def)
    ultimately show ?thesis using kinds by (simp add: fields_match_def)
  next
    case all
    then show ?thesis by (simp add: fields_match_def)
  qed
qed

section \<open>What a scan hands over\<close>

text \<open>A candidate comes from an entry of the index under one of the cursors.\<close>

definition from_index :: "'db \<Rightarrow> nostr_filter \<Rightarrow> db_index \<Rightarrow> key_match set \<Rightarrow> candidate \<Rightarrow> bool" where
  "from_index db f ix kms ev \<longleftrightarrow> (\<exists>x i km. km \<in> kms \<and> x \<in> index_entries E L db ix \<and>
     entry_ok f km x \<and> ev = entry_candidate i x)"

definition scan_inv :: "'db \<Rightarrow> nostr_filter \<Rightarrow> db_index \<Rightarrow> key_match set \<Rightarrow> bool \<Rightarrow> dbscan \<Rightarrow> bool" where
  "scan_inv db f ix kms io S \<longleftrightarrow> ds_indexDbi S = ix \<and> ds_indexOnly S = io \<and>
     sc_keyMatch ` set (ds_cursors S) \<subseteq> kms \<and> (\<forall>ev\<in>set (ds_eventQueue S). from_index db f ix kms ev)"

lemma collect_entries_from_index:
  assumes "collect_entries E f scanIndex xs (c, limit, added, out) = (fin, c', limit', added', out')"
    and "set xs \<subseteq> index_entries E L db ix" "sc_keyMatch c \<in> kms" "\<forall>ev\<in>set out. from_index db f ix kms ev"
  shows "sc_keyMatch c' = sc_keyMatch c \<and> (\<forall>ev\<in>set out'. from_index db f ix kms ev)"
  using assms(1,2,4)
proof (induction xs arbitrary: limit added out)
  case Nil
  then show ?case by simp
next
  case (Cons x xs)
  obtain k v where x: "x = (k, v)" by (cases x)
  obtain s created where key: "parseKey_StringUint64 E k = (s, created)" by (cases "parseKey_StringUint64 E k")
  show ?case
  proof (cases "limit = 0 \<or> \<not> keyMatch E (sc_keyMatch c) k \<or> (nf_since f \<noteq> 0 \<and> created < nf_since f) \<or>
      (nf_until f \<noteq> 0 \<and> created > nf_until f)")
    case True
    with Cons.prems show ?thesis by (auto simp: x key split: if_splits)
  next
    case False
    then have ok: "entry_ok f (sc_keyMatch c) x" by (auto simp: entry_ok_def x key)
    have run: "collect_entries E f scanIndex xs (c, limit - 1, added + 1, out @ [entry_candidate scanIndex x]) =
        (fin, c', limit', added', out')"
      using Cons.prems(1) False by (auto simp: x key entry_candidate_def)
    have "from_index db f ix kms (entry_candidate scanIndex x)"
      unfolding from_index_def using ok assms(3) Cons.prems(2) by (metis list.set_intros(1) subsetD)
    then have "\<forall>ev\<in>set (out @ [entry_candidate scanIndex x]). from_index db f ix kms ev" using Cons.prems(3) by simp
    from Cons.IH [OF run _ this] Cons.prems(2) show ?thesis by simp
  qed
qed

lemma collect_from_index:
  assumes "collect n E db f ix scanIndex limit c out = Some (added, c', out')"
    and "sc_keyMatch c \<in> kms" "\<forall>ev\<in>set out. from_index db f ix kms ev"
  shows "sc_keyMatch c' = sc_keyMatch c \<and> (\<forall>ev\<in>set out'. from_index db f ix kms ev)"
proof -
  have loop: "sc_keyMatch c' = sc_keyMatch c \<and> (\<forall>ev\<in>set out'. from_index db f ix kms ev)"
    if "collect_loop n E db f ix scanIndex (c, limit, added, out) = Some (c', limit', added', out')"
      "sc_keyMatch c \<in> kms" "\<forall>ev\<in>set out. from_index db f ix kms ev" for n c limit added out c' limit' added' out'
    using that
  proof (induction n arbitrary: c limit added out)
    case (Suc n)
    obtain fin c1 limit1 added1 out1 where pass: "collect_entries E f scanIndex
        (foreachFull E db ix (sc_resumeKey c) (sc_resumeVal c) True) (c, limit, added, out) = (fin, c1, limit1, added1, out1)"
      by (metis prod_cases5)
    have step: "sc_keyMatch c1 = sc_keyMatch c \<and> (\<forall>ev\<in>set out1. from_index db f ix kms ev)"
      by (rule collect_entries_from_index [OF pass _ Suc.prems(2,3)]) (auto simp: scan_set_rev)
    show ?case
    proof (cases "sc_active c \<and> limit > 0")
      case True
      then have "collect_loop n E db f ix scanIndex (if fin then c1\<lparr>sc_resumeKey := []\<rparr> else c1, limit1, added1, out1) =
          Some (c', limit', added', out')"
        using Suc.prems(1) by (simp add: pass)
      from Suc.IH [OF this] step Suc.prems(2) show ?thesis by simp
    next
      case False
      with Suc.prems show ?thesis by auto
    qed
  qed simp
  obtain c1 limit1 where "collect_loop n E db f ix scanIndex (c, limit, 0, out) = Some (c1, limit1, added, out')"
    "sc_keyMatch c' = sc_keyMatch c1"
    using assms(1) by (auto simp: collect_def split: option.splits)
  with loop [OF this(1) assms(2,3)] show ?thesis by simp
qed

text \<open>Stored events have times below \<open>2 ^ 40\<close>: they fit beside the cursor number.\<close>

lemma from_index_event:
  assumes "holds E L tree_items fs db M" "small_times M" "ix \<in> scan_indexes" "from_index db f ix kms ev"
  obtains e k km where "M (ce_levId ev) = Some e" "wf_event e" "ce_created ev = ev_created_at e"
    "k \<in> set (event_keys E L e ix)" "km \<in> kms" "keyMatch E km k"
proof -
  obtain k l i km where x: "km \<in> kms" "(k, l) \<in> index_entries E L db ix" "entry_ok f km (k, l)" "ev = entry_candidate i (k, l)"
    using assms(4) by (auto simp: from_index_def)
  then obtain e where e: "M l = Some e" "k \<in> set (event_keys E L e ix)"
    using entries_event [OF assms(1)] by blast
  obtain s where k: "k = makeKey_StringUint64 E s (ev_created_at e)" using event_keys_time [OF e(2) assms(3)] by blast
  have "ce_created ev = ev_created_at e"
    unfolding x(4) entry_candidate_def fst_conv k parseKey snd_conv
    by (rule ce_created_CandidateEvent) (use assms(2) e(1) in \<open>simp add: small_times_def\<close>)
  moreover have "ce_levId ev = l" by (simp add: x(4) entry_candidate_def CandidateEvent_def ce_levId_def)
  moreover have "wf_event e" using assms(1) e(1) by (simp add: holds_def)
  moreover have "keyMatch E km k" using x(3) by (simp add: entry_ok_def)
  ultimately show thesis using that e x(1) by blast
qed

text \<open>The cursors and the index that \<^verbatim>\<open>DBScan\<close> chose for the filter.\<close>

definition planned :: "nostr_filter \<Rightarrow> db_index \<Rightarrow> key_match set \<Rightarrow> bool \<Rightarrow> bool" where
  "planned f ix kms io \<longleftrightarrow> (\<exists>cs. scan_plan L f = Inr (ix, cs, io) \<and> kms = sc_keyMatch ` set cs)"

lemma candidate_matches_sound:
  assumes "holds E L tree_items fs db M" "small_times M" "ix \<in> scan_indexes" "query_filter f"
    and "planned f ix kms io" "from_index db f ix kms ev" "candidate_matches E L db f io ev = Inr True"
  shows "\<exists>e. M (ce_levId ev) = Some e \<and> nf_matches f e"
proof -
  obtain e k km where e: "M (ce_levId ev) = Some e" "wf_event e" "ce_created ev = ev_created_at e"
    "k \<in> set (event_keys E L e ix)" "km \<in> kms" "keyMatch E km k"
    by (rule from_index_event [OF assms(1-3,6)])
  have "nf_matches f e"
  proof (cases io)
    case True
    then obtain cs c where plan: "scan_plan L f = Inr (ix, cs, True)" "c \<in> set cs" "sc_keyMatch c = km"
      using assms(5) e(5) by (auto simp: planned_def)
    have "fields_match f e" by (rule scan_plan_sound [OF assms(4) plan(1,2) e(2,4)]) (simp add: plan(3) e(6))
    moreover have "doesMatchTimes f (ev_created_at e)" using assms(7) True e(3) by (simp add: candidate_matches_def)
    ultimately show ?thesis using assms(4) by (simp add: nf_matches_fields query_filter_def)
  next
    case False
    have "lookup_Event E db (ce_levId ev) = Some (pack_event L e)" using assms(1) e(1) by (simp add: holds_def)
    with False assms(7) e(2) show ?thesis by (simp add: candidate_matches_def NostrFilter_doesMatch_event)
  qed
  with e(1) show ?thesis by blast
qed

lemma scan_round_sound:
  assumes "holds E L tree_items fs db M" "small_times M" "ix \<in> scan_indexes" "query_filter f" "planned f ix kms io"
    and "scan_inv db f ix kms io S" "P s"
    and "\<And>l s b s' e. P s \<Longrightarrow> M l = Some e \<Longrightarrow> nf_matches f e \<Longrightarrow> handleEvent l s = Inr (b, s') \<Longrightarrow> P s'"
    and "\<And>w s. P s \<Longrightarrow> P (snd (doPause w s))"
    and "scan_round n E L db f handleEvent doPause (S, s) = Some (Inr (b, S', s'))"
  shows "scan_inv db f ix kms io S' \<and> P s'"
proof -
  obtain pause s1 where dop: "doPause (ds_approxWork S + 1) s = (pause, s1)" by (cases "doPause (ds_approxWork S + 1) s")
  have P1: "P s1" using assms(9) [OF assms(7), of "ds_approxWork S + 1"] by (simp add: dop)
  have inv: "ds_indexDbi S = ix" "ds_indexOnly S = io" "\<And>c. c \<in> set (ds_cursors S) \<Longrightarrow> sc_keyMatch c \<in> kms"
    "\<And>ev. ev \<in> set (ds_eventQueue S) \<Longrightarrow> from_index db f ix kms ev"
    using assms(6) by (auto simp: scan_inv_def)
  let ?i = "ds_nextInitIndex S"
  consider (pause) "pause" | (init) "\<not> pause" "?i < length (ds_cursors S)"
    | (empty) "\<not> pause" "\<not> ?i < length (ds_cursors S)" "ds_eventQueue S = []"
    | (pop) ev queue where "\<not> pause" "\<not> ?i < length (ds_cursors S)" "ds_eventQueue S = ev # queue"
    by (cases "ds_eventQueue S") auto
  then show ?thesis
  proof cases
    case pause
    with assms(6,10) P1 show ?thesis by (auto simp: scan_round_def Let_def dop scan_inv_def)
  next
    case init
    obtain added c queue where c: "collect n E db f ix (of_nat ?i) (ds_initialScanDepth S) (ds_cursors S ! ?i) (ds_eventQueue S) =
        Some (added, c, queue)"
      using assms(10) init by (auto simp: scan_round_def Let_def dop inv(1) split: option.splits)
    have "sc_keyMatch c = sc_keyMatch (ds_cursors S ! ?i) \<and> (\<forall>ev\<in>set queue. from_index db f ix kms ev)"
      by (rule collect_from_index [OF c]) (use inv init in auto)
    moreover have "set ((ds_cursors S)[?i := c]) \<subseteq> insert c (set (ds_cursors S))" by (rule set_update_subset_insert)
    ultimately show ?thesis
      using assms(10) init c inv P1 by (auto simp: scan_round_def Let_def dop scan_inv_def split: if_splits)
  next
    case empty
    with assms(6,10) P1 show ?thesis by (auto simp: scan_round_def Let_def dop scan_inv_def)
  next
    case pop
    have ev: "from_index db f ix kms ev" using inv(4) pop by simp
    let ?m = "bindE (candidate_matches E L db f (ds_indexOnly S) ev) (\<lambda>doSend.
      if doSend then handleEvent (ce_levId ev) s1 else Inr (False, s1))"
    let ?j = "unat (ce_scanIndex ev)" and ?S2 = "S\<lparr>ds_eventQueue := queue, ds_approxWork :=
      (if ds_indexOnly S then ds_approxWork S + 1 else ds_approxWork S + 1 + 10)\<rparr>"
    obtain stop s2 where m: "?m = Inr (stop, s2)"
      using assms(10) pop by (auto simp: scan_round_def Let_def dop split: sum.splits)
    then obtain doSend where send: "candidate_matches E L db f io ev = Inr doSend"
      "if doSend then handleEvent (ce_levId ev) s1 = Inr (stop, s2) else s2 = s1"
      by (auto simp: bindE_eq_Inr inv(2) split: if_splits)
    have P2: "P s2"
    proof (cases doSend)
      case True
      then obtain e where "M (ce_levId ev) = Some e" "nf_matches f e"
        using candidate_matches_sound [OF assms(1-5) ev] send(1) by auto
      then show ?thesis using assms(8) [OF P1] send(2) True by simp
    qed (use send(2) P1 in simp)
    have inv2: "scan_inv db f ix kms io ?S2" using assms(6) pop by (auto simp: scan_inv_def)
    show ?thesis
    proof (cases "stop \<or> ?j \<ge> length (ds_cursors S)")
      case True
      then show ?thesis
        using assms(10) pop m P2 inv2 by (cases stop) (auto simp: scan_round_def Let_def dop)
    next
      case False
      let ?c1 = "(ds_cursors S ! ?j)\<lparr>sc_outstanding := sc_outstanding (ds_cursors S ! ?j) - 1\<rparr>"
      have km: "sc_keyMatch ?c1 \<in> kms" using inv(3) False by simp
      have upd: "set ((ds_cursors S)[?j := c]) \<subseteq> insert c (set (ds_cursors S))" for c by (rule set_update_subset_insert)
      show ?thesis
      proof (cases "sc_outstanding ?c1 = 0")
        case True
        obtain added c more where c: "collect n E db f ix (ce_scanIndex ev) (ds_refillScanDepth S) ?c1 [] = Some (added, c, more)"
          using assms(10) pop m False True inv(1) by (auto simp: scan_round_def Let_def dop split: option.splits)
        have "sc_keyMatch c = sc_keyMatch ?c1 \<and> (\<forall>ev\<in>set more. from_index db f ix kms ev)"
          by (rule collect_from_index [OF c km]) simp
        moreover have "ds_cursors S' = (ds_cursors S)[?j := c]" "ds_eventQueue S' = merge_cands queue more"
            "ds_indexDbi S' = ix" "ds_indexOnly S' = io" "s' = s2"
          using assms(10) pop m False True c inv(1,2) by (auto simp: scan_round_def Let_def dop)
        ultimately show ?thesis using upd [of c] km inv pop P2 by (auto simp: scan_inv_def)
      next
        case out: False
        then have "ds_cursors S' = (ds_cursors S)[?j := ?c1]" "ds_eventQueue S' = queue"
            "ds_indexDbi S' = ix" "ds_indexOnly S' = io" "s' = s2"
          using assms(10) pop m False inv(1,2) by (auto simp: scan_round_def Let_def dop)
        then show ?thesis using upd [of ?c1] km inv pop P2 by (auto simp: scan_inv_def)
      qed
    qed
  qed
qed

lemma scan_loop_sound:
  assumes "holds E L tree_items fs db M" "small_times M" "ix \<in> scan_indexes" "query_filter f" "planned f ix kms io"
    and "scan_inv db f ix kms io S" "P s"
    and step: "\<And>l s b s' e. P s \<Longrightarrow> M l = Some e \<Longrightarrow> nf_matches f e \<Longrightarrow> handleEvent l s = Inr (b, s') \<Longrightarrow> P s'"
    and pause: "\<And>w s. P s \<Longrightarrow> P (snd (doPause w s))"
    and "scan_loop m n E L db f handleEvent doPause (S, s) = Some (Inr (b, S', s'))"
  shows "scan_inv db f ix kms io S' \<and> P s'"
  using assms(6,7,10)
proof (induction m arbitrary: S s)
  case 0
  then show ?case by simp
next
  case (Suc m)
  obtain x where x: "scan_round n E L db f handleEvent doPause (S, s) = Some x"
    using Suc.prems(3) by (cases "scan_round n E L db f handleEvent doPause (S, s)") auto
  obtain b1 S1 s1 where x': "x = Inr (b1, S1, s1)"
    using Suc.prems(3) by (cases x) (auto simp: x)
  have inv: "scan_inv db f ix kms io S1 \<and> P s1"
    by (rule scan_round_sound [OF assms(1-5) Suc.prems(1,2) step pause x [unfolded x']])
  show ?case
  proof (cases b1)
    case None
    then have "scan_loop m n E L db f handleEvent doPause (S1, s1) = Some (Inr (b, S', s'))"
      using Suc.prems(3) by (simp add: x x')
    with Suc.IH inv show ?thesis by blast
  next
    case (Some b2)
    with Suc.prems(3) inv show ?thesis by (auto simp: x x')
  qed
qed

lemma DBScan_inv:
  assumes "DBScan L f = Inr S"
  obtains ix kms io where "ix \<in> scan_indexes" "planned f ix kms io" "scan_inv db f ix kms io S"
proof -
  obtain ix cs io where plan: "scan_plan L f = Inr (ix, cs, io)"
    and S: "ds_indexDbi S = ix" "ds_indexOnly S = io" "ds_cursors S = cs" "ds_eventQueue S = []"
    using assms by (auto simp: DBScan_def bindE_eq_Inr Let_def split: if_splits)
  show thesis
    by (rule that [of ix "sc_keyMatch ` set cs" io])
      (use plan S DBScan_index [OF assms] in \<open>auto simp: planned_def scan_inv_def\<close>)
qed

text \<open>
  The rule for \<^verbatim>\<open>foreachByFilter\<close>: what the callback keeps when it gets a levId for the
  first time, and the event is stored and matches one of the filters, holds at the end.
\<close>

lemma process_round_sound:
  fixes cb :: "u64 \<Rightarrow> 'e \<Rightarrow> 'e result"
  assumes "holds E L tree_items fs db M" "small_times M" "\<forall>f\<in>set fg. query_filter f"
    and cb: "\<And>l c c' V. R c V \<Longrightarrow> wanted M fg l \<Longrightarrow> l \<notin> V \<Longrightarrow> cb l c = Inr c' \<Longrightarrow> R c' (insert l V)"
    and "dq_scanner q = None" "sub_filterGroup (dq_sub q) = fg" "R c (dq_sentEventsFull q)"
    and "process_round n E L clock db cb budget (q, t, c) = Some (Inr (b, q', t', c'))"
  shows "sub_filterGroup (dq_sub q') = fg \<and> R c' (dq_sentEventsFull q')"
proof (cases "dq_filterGroupIndex q \<ge> length fg")
  case True
  with assms(5-8) show ?thesis by (auto simp: process_round_def)
next
  case False
  let ?f = "fg ! dq_filterGroupIndex q"
  let ?P = "\<lambda>s :: dbquery \<times> nat \<times> 'e. sub_filterGroup (dq_sub (fst s)) = fg \<and> R (snd (snd s)) (dq_sentEventsFull (fst s))"
  have f: "?f \<in> set fg" "query_filter ?f" using False assms(3) by auto
  obtain S S1 q1 t1 c1 b1 where run: "DBScan L ?f = Inr S"
    "scan_loop n n E L db ?f (query_handleEvent ?f cb) (query_doPause clock (clock t) budget) (S, q, Suc t, c) =
      Some (Inr (b1, S1, q1, t1, c1))"
    and q': "dq_sub q' = dq_sub q1" "dq_sentEventsFull q' = dq_sentEventsFull q1" "c' = c1"
    using False assms(5,6,8) by (auto simp: process_round_def Let_def split: sum.splits option.splits if_splits)
  obtain ix kms io where inv: "ix \<in> scan_indexes" "planned ?f ix kms io" "scan_inv db ?f ix kms io S"
    by (rule DBScan_inv [OF run(1)])
  have "scan_inv db ?f ix kms io S1 \<and> ?P (q1, t1, c1)"
  proof (rule scan_loop_sound [OF assms(1,2) inv(1) f(2) inv(2,3) _ _ _ run(2)])
    show "?P (q, Suc t, c)" using assms(6,7) by simp
  next
    fix l b e and s s' :: "dbquery \<times> nat \<times> 'e"
    assume P: "?P s" and e: "M l = Some e" "nf_matches ?f e" and run: "query_handleEvent ?f cb l s = Inr (b, s')"
    have "wanted M fg l" using e f(1) by (auto simp: wanted_def)
    with P run cb show "?P s'"
      by (cases s) (auto simp: query_handleEvent_def bindE_eq_Inr Let_def insert_absorb split: if_splits)
  next
    fix w and s :: "dbquery \<times> nat \<times> 'e"
    assume "?P s"
    then show "?P (snd (query_doPause clock (clock t) budget w s))"
      by (cases s) (auto simp: query_doPause_def)
  qed
  with q' show ?thesis by simp
qed

lemma process_loop_sound:
  assumes "holds E L tree_items fs db M" "small_times M" "\<forall>f\<in>set fg. query_filter f"
    and cb: "\<And>l c c' V. R c V \<Longrightarrow> wanted M fg l \<Longrightarrow> l \<notin> V \<Longrightarrow> cb l c = Inr c' \<Longrightarrow> R c' (insert l V)"
    and "dq_scanner q = None" "sub_filterGroup (dq_sub q) = fg" "R c (dq_sentEventsFull q)"
    and "process_loop m n E L clock db cb budget (q, t, c) = Some (Inr (b, q', t', c'))"
  shows "R c' (dq_sentEventsFull q')"
  using assms(5-8)
proof (induction m arbitrary: q t c)
  case 0
  then show ?case by simp
next
  case (Suc m)
  obtain x where x: "process_round n E L clock db cb budget (q, t, c) = Some x"
    using Suc.prems(4) by (cases "process_round n E L clock db cb budget (q, t, c)") auto
  obtain b1 q1 t1 c1 where x': "x = Inr (b1, q1, t1, c1)"
    using Suc.prems(4) by (cases x) (auto simp: x)
  have inv: "sub_filterGroup (dq_sub q1) = fg \<and> R c1 (dq_sentEventsFull q1)"
    by (rule process_round_sound [where R = R and cb = cb, OF assms(1-3) _ Suc.prems(1-3) x [unfolded x']]) (rule cb)
  show ?case
  proof (cases b1)
    case None
    have "dq_scanner q1 = None"
      using process_round_next [OF x [unfolded x' None]] by simp
    moreover have "process_loop m n E L clock db cb budget (q1, t1, c1) = Some (Inr (b, q', t', c'))"
      using Suc.prems(4) None by (simp add: x x')
    ultimately show ?thesis using Suc.IH inv by blast
  next
    case (Some b2)
    with Suc.prems(4) inv show ?thesis by (auto simp: x x')
  qed
qed

lemma foreachByFilter_rule:
  assumes "holds E L tree_items fs db M" "small_times M" "NostrFilterGroup_unwrapped L filt MAX_U64 = Inr fg"
    and cb: "\<And>l c c' V. R c V \<Longrightarrow> wanted M fg l \<Longrightarrow> l \<notin> V \<Longrightarrow> cb l c = Inr c' \<Longrightarrow> R c' (insert l V)"
    and "R c {}" "foreachByFilter n E L clock db filt cb c = Some (Inr c')"
  shows "\<exists>V. R c' V"
proof -
  obtain q where q: "DBQuery_filter L filt MAX_U64 = Inr q"
    using assms(6) by (cases "DBQuery_filter L filt MAX_U64") (auto simp: foreachByFilter_def)
  have init: "dq_scanner q = None" "sub_filterGroup (dq_sub q) = fg" "dq_sentEventsFull q = {}"
    using q assms(3) by (auto simp: DBQuery_filter_def DBQuery_def Subscription_def bindE_eq_Inr)
  obtain b q' t' where run: "process n E L clock db cb MAX_U64 (q, 0, c) = Some (Inr (b, q', t', c'))"
    using assms(6) by (auto simp: foreachByFilter_def q split: option.splits sum.splits)
  have "R c' (dq_sentEventsFull q')"
    by (rule process_loop_sound [where R = R and cb = cb, OF assms(1,2) unwrapped_query [OF assms(3)] _ init(1,2) _ run [unfolded process_def]])
      (use cb assms(5) init(3) in simp_all)
  then show ?thesis by blast
qed

end

text \<open>The rule for a query by one JSON object, with the meaning that NIP-01 gives it.\<close>

lemma wanted_nip01:
  assumes "NostrFilterGroup_unwrapped L (JObject kvs) m = Inr fg" "distinct_keys (JObject kvs)"
  shows "wanted M fg l \<longleftrightarrow> (\<exists>e. M l = Some e \<and> nip01_match L e kvs)"
proof -
  have "foldE (NostrFilterGroup_add L m) [JObject kvs] [] = Inr fg"
    using assms(1) by (simp add: NostrFilterGroup_unwrapped_def NostrFilterGroup_def bindE_eq_Inr)
  then have "(\<exists>f\<in>set fg. nf_matches f e) \<longleftrightarrow> nip01_match L e kvs" for e
    using NostrFilterGroup_fold_matches [of L m "[JObject kvs]" "[]" fg] assms(2) by auto
  then show ?thesis unfolding wanted_def by blast
qed

lemma foreachByFilter_object:
  assumes "scan_env L E key_le tree_items" "holds E L tree_items fs db M" "small_times M" "distinct_keys (JObject kvs)"
    and cb: "\<And>l c c' V e. R c V \<Longrightarrow> M l = Some e \<Longrightarrow> nip01_match L e kvs \<Longrightarrow> l \<notin> V \<Longrightarrow> cb l c = Inr c' \<Longrightarrow> R c' (insert l V)"
    and "R c {}" and run: "foreachByFilter n E L clock db (JObject kvs) cb c = Some (Inr c')"
  shows "\<exists>V. R c' V"
proof -
  obtain fg where fg: "NostrFilterGroup_unwrapped L (JObject kvs) MAX_U64 = Inr fg"
    using run by (cases "NostrFilterGroup_unwrapped L (JObject kvs) MAX_U64")
      (auto simp: foreachByFilter_def DBQuery_filter_def)
  show ?thesis
  proof (rule scan_env.foreachByFilter_rule [where R = R and cb = cb, OF assms(1-3) fg _ \<open>R c {}\<close> run])
    fix l c c' V
    assume "R c V" "wanted M fg l" "l \<notin> V" "cb l c = Inr c'"
    then show "R c' (insert l V)" using cb wanted_nip01 [OF fg assms(4), of M l] by blast
  qed
qed

section \<open>A database with one event, and one with an event of the far future\<close>

definition ev_far :: event where
  "ev_far = ev_old\<lparr>ev_created_at := 2 ^ 40\<rparr>"

definition far_db :: mem_db where
  "far_db = one_db\<lparr>md_events := [(1, pack_event le_lib ev_far)]\<rparr>"

lemma split_ff8: "split_key ff8 = ([], MAX_U64)"
proof -
  have ff: "ff8 = [CHR 0xFF, CHR 0xFF, CHR 0xFF, CHR 0xFF, CHR 0xFF, CHR 0xFF, CHR 0xFF, CHR 0xFF]"
    by (simp add: ff8_def numeral_eq_Suc)
  show ?thesis unfolding split_key_def ff by (simp add: le_lib_def)
qed

lemma one_event_scan:
  assumes "md_events db = [(1, pack_event le_lib e)]" "wf_event e"
  shows "mem_scan db Ix_created_at ff8 MAX_U64 True = [(to_sv le_lib (ev_created_at e), 1)]"
proof -
  have split: "split_key (to_sv le_lib n) = ([], n)" for n
    using split_mem_makeKey [of "[]" n] by (simp add: mem_makeKey_def)
  have "mem_keys key_env le_lib Ix_created_at (pack_event le_lib e) = [to_sv le_lib (ev_created_at e)]"
    using mem.indexPrelude_event [OF assms(2)] unfolding indexPrelude_key_env
    by (simp add: mem_keys_def event_keys_def)
  then have "mem_entries db Ix_created_at = [(to_sv le_lib (ev_created_at e), 1)]"
    by (simp add: mem_entries_def mem_distinct_events_def assms(1))
  then show ?thesis
    by (simp add: mem_scan_def mem_pos_def mem_rank_def split_ff8 split less_eq_prod_simp order_le_less [symmetric])
qed

definition any_filter :: nostr_filter where
  "any_filter = empty_filter\<lparr>nf_limit := MAX_U64, nf_indexOnlyScans := True\<rparr>"

lemma any_filter_sel:
  "nf_limit any_filter = MAX_U64" "nf_since any_filter = 0" "nf_until any_filter = MAX_U64"
  by (simp_all add: any_filter_def empty_filter_def)

definition fresh_query :: "dbquery \<Rightarrow> bool" where
  "fresh_query q \<longleftrightarrow> dq_scanner q = None \<and> dq_filterGroupIndex q = 0 \<and> sub_filterGroup (dq_sub q) = [any_filter] \<and>
     sub_latestEventId (dq_sub q) = MAX_U64 \<and> dq_sentEventsFull q = {} \<and> dq_sentEventsCurr q = {} \<and> dq_lastWorkChecked q = 0"

definition spent_cursor :: scan_cursor where
  "spent_cursor = (new_cursor ff8 MatchAny)\<lparr>sc_resumeKey := [], sc_outstanding := 1\<rparr>"

lemma not_MAX_le_1: "\<not> MAX_U64 \<le> (1 :: u64)"
  by (simp add: word_le_def unsigned_minus_1_eq_mask mask_eq_exp_minus_1)

lemma DBQuery_any:
  obtains q where "DBQuery_filter L (JObject []) MAX_U64 = Inr q" "fresh_query q"
proof -
  have "NostrFilterGroup_unwrapped L (JObject []) MAX_U64 = Inr [any_filter]"
    by (simp add: NostrFilterGroup_unwrapped_def NostrFilterGroup_def NostrFilterGroup_add_def NostrFilter_def
        any_filter_def empty_filter_def throw_if_def)
  moreover obtain i where "SubId ''.'' = Inr i" by (simp add: SubId_def badChar_def throw_if_def)
  ultimately have q: "DBQuery_filter L (JObject []) MAX_U64 = Inr (DBQuery \<lparr>sub_connId = 1, sub_subId = i,
      sub_filterGroup = [any_filter], sub_latestEventId = MAX_U64\<rparr>)"
    by (simp add: DBQuery_filter_def Subscription_def)
  show ?thesis by (rule that [OF q]) (simp add: DBQuery_def fresh_query_def)
qed

text \<open>The first round of a query for everything: the one event becomes the one candidate.\<close>

lemma one_event_first_round:
  assumes "md_events db = [(1, pack_event le_lib e)]" "wf_event e"
  obtains q S S1 where "DBQuery_filter le_lib (JObject []) MAX_U64 = Inr q" "fresh_query q" "DBScan le_lib any_filter = Inr S"
    "scan_round (Suc (Suc n)) mem_env le_lib db any_filter (query_handleEvent any_filter cb) (query_doPause clock (clock 0) MAX_U64)
       (S, q, Suc 0, c) = Some (Inr (None, S1, q, Suc 0, c))"
    "ds_eventQueue S1 = [CandidateEvent 1 (ev_created_at e) 0]" "ds_cursors S1 = [spent_cursor]"
    "ds_nextInitIndex S1 = 1" "ds_indexOnly S1" "ds_approxWork S1 = 2"
proof -
  let ?c = "new_cursor ff8 MatchAny" and ?t = "ev_created_at e"
  have scan: "mem_scan db Ix_created_at ff8 MAX_U64 True = [(to_sv le_lib ?t, 1)]"
    by (rule one_event_scan [OF assms])
  have key: "split_key (to_sv le_lib ?t) = ([], ?t)"
    using split_mem_makeKey [of "[]" ?t] by (simp add: mem_makeKey_def)
  have "scan_plan le_lib any_filter = Inr (Ix_created_at, [?c], True)"
    by (simp add: scan_plan_def any_filter_def empty_filter_def)
  then obtain S where S: "DBScan le_lib any_filter = Inr S" "ds_cursors S = [?c]" "ds_indexDbi S = Ix_created_at"
    "ds_indexOnly S" "ds_eventQueue S = []" "ds_nextInitIndex S = 0" "ds_approxWork S = 0" "ds_initialScanDepth S \<noteq> 0"
    by (simp add: DBScan_def Let_def min_def max_def any_filter_sel)
  have entries: "collect_entries mem_env any_filter 0
      (foreachFull mem_env db Ix_created_at (sc_resumeKey ?c) (sc_resumeVal ?c) True) (?c, ds_initialScanDepth S, 0, []) =
      (True, ?c, ds_initialScanDepth S - 1, 1, [CandidateEvent 1 ?t 0])"
    using S(8) key scan by (simp add: new_cursor_def any_filter_sel not_less)
  have "sc_active ?c" "ds_initialScanDepth S > 0" using S(8) by (simp_all add: sc_active_def new_cursor_def ff8_def word_neq_0_conv)
  then have "collect (Suc (Suc n)) mem_env db any_filter Ix_created_at 0 (ds_initialScanDepth S) ?c [] =
      Some (1, spent_cursor, [CandidateEvent 1 ?t 0])"
    by (simp only: collect_def collect_loop.simps entries if_True simp_thms Let_def prod.case option.case)
      (simp add: sc_active_def new_cursor_def spent_cursor_def)
  moreover obtain q where q: "DBQuery_filter le_lib (JObject []) MAX_U64 = Inr q" "fresh_query q" by (rule DBQuery_any)
  moreover from q(2) have "dq_lastWorkChecked q = 0" by (simp add: fresh_query_def)
  ultimately show ?thesis using S that [OF q S(1)]
    by (simp add: scan_round_def query_doPause_def sort_cands_def insert_cand_def)
qed

lemma one_event_query:
  assumes "md_events db = [(1, pack_event le_lib e)]" "wf_event e" "ev_created_at e < 2 ^ 40" "cb 1 c = Inr c'"
  shows "foreachByFilter (Suc (Suc (Suc n))) mem_env le_lib clock db (JObject []) cb c = Some (Inr c')"
proof -
  let ?ev = "CandidateEvent 1 (ev_created_at e) 0"
  have created: "ce_created ?ev = ev_created_at e" "ce_scanIndex ?ev = 0" "ce_levId ?ev = 1"
    using assms(3) by (simp_all add: ce_created_CandidateEvent ce_scanIndex_CandidateEvent) (simp add: ce_levId_def CandidateEvent_def)
  let ?h = "query_handleEvent any_filter cb" and ?p = "query_doPause clock (clock 0) MAX_U64"
  obtain q S S1 where run: "DBQuery_filter le_lib (JObject []) MAX_U64 = Inr q" "fresh_query q" "DBScan le_lib any_filter = Inr S"
    "scan_round (Suc (Suc (Suc n))) mem_env le_lib db any_filter ?h ?p (S, q, Suc 0, c) = Some (Inr (None, S1, q, Suc 0, c))"
    "ds_eventQueue S1 = [?ev]" "ds_cursors S1 = [spent_cursor]" "ds_nextInitIndex S1 = 1" "ds_indexOnly S1" "ds_approxWork S1 = 2"
    by (rule one_event_first_round [OF assms(1,2), of "Suc n" cb clock c])
  let ?q = "q\<lparr>dq_sentEventsFull := {1}, dq_sentEventsCurr := {1}\<rparr>"
  have spent: "\<not> sc_active spent_cursor" "sc_outstanding spent_cursor = 1" by (simp_all add: spent_cursor_def sc_active_def)
  then have "collect (Suc (Suc (Suc n))) mem_env db any_filter ix i d (spent_cursor\<lparr>sc_outstanding := 0\<rparr>) [] =
      Some (0, spent_cursor\<lparr>sc_outstanding := 0\<rparr>, [])" for ix i d
    by (simp add: collect_def sc_active_def)
  then obtain S2 where two: "scan_round (Suc (Suc (Suc n))) mem_env le_lib db any_filter ?h ?p (S1, q, Suc 0, c) =
      Some (Inr (None, S2, ?q, Suc 0, c'))" "ds_eventQueue S2 = []" "length (ds_cursors S2) = 1" "ds_nextInitIndex S2 = 1"
      "ds_approxWork S2 = 3"
    using run(2) spent(2) by (simp add: scan_round_def run query_doPause_def fresh_query_def candidate_matches_def created any_filter_sel
        doesMatchTimes_def query_handleEvent_def not_MAX_le_1 not_less assms(4))
  obtain S3 where three: "scan_round (Suc (Suc (Suc n))) mem_env le_lib db any_filter ?h ?p (S2, ?q, Suc 0, c') =
      Some (Inr (Some True, S3, ?q, Suc 0, c'))"
    using run(2) by (simp add: scan_round_def two query_doPause_def fresh_query_def)
  have "scan_loop (Suc (Suc (Suc n))) (Suc (Suc (Suc n))) mem_env le_lib db any_filter ?h ?p (S, q, Suc 0, c) =
      Some (Inr (True, S3, ?q, Suc 0, c'))"
    by (simp add: run two three)
  then obtain q2 where "process_round (Suc (Suc (Suc n))) mem_env le_lib clock db cb MAX_U64 (q, 0, c) =
      Some (Inr (None, q2, Suc (Suc 0), c'))" "dq_filterGroupIndex q2 = 1" "dq_sub q2 = dq_sub q"
    using run(2) by (simp add: process_round_def fresh_query_def run del: scan_loop.simps)
  then show ?thesis using run(2) by (simp add: foreachByFilter_def run process_def fresh_query_def process_round_def)
qed

section \<open>Properties\<close>

text \<open>
  C30. A query always comes to an end: over a database that agrees with its indexes and has
  no event number 0, \<^verbatim>\<open>foreachByFilter\<close> returns a result or throws, and more fuel does
  not change the outcome.
\<close>

theorem foreachByFilter_terminates:
  assumes "scan_env L E key_le tree_items" "holds E L tree_items fs db M" "lookup_Event E db 0 = None"
  shows "\<exists>N r. \<forall>n\<ge>N. foreachByFilter n E L clock db filt cb c = Some r"
  by (rule scan_env.foreachByFilter_returns [OF assms])

theorem foreachByFilter_terminates_witness:
  "\<exists>n r. foreachByFilter n mem_env le_lib (\<lambda>_. 0) one_db (JObject [(''kinds'', JArray [JUnsigned 30078])])
     (\<lambda>l acc. Inr (acc @ [l])) [] = Some r"
  using foreachByFilter_terminates [OF mem_scan.scan_env_axioms one_db_facts(2), of "\<lambda>_. 0"
      "JObject [(''kinds'', JArray [JUnsigned 30078])]" "\<lambda>l acc. Inr (acc @ [l])" "[]"]
  by (auto simp: one_db_def)

text \<open>
  The events that \<^verbatim>\<open>foreachByFilter\<close> hands over for a JSON filter are stored and satisfy
  the filter as NIP-01 reads it, and none is handed over twice; this also holds for scans
  that trust the index alone.  The times of the stored events must fit the 40 bits that the
  packed candidates have for them.
\<close>

theorem foreachByFilter_sound:
  assumes "scan_env L E key_le tree_items" "holds E L tree_items fs db M" "small_times M" "distinct_keys (JObject kvs)"
    and run: "foreachByFilter n E L clock db (JObject kvs) (\<lambda>l acc. Inr (acc @ [l])) [] = Some (Inr ls)"
  shows "distinct ls \<and> (\<forall>l\<in>set ls. \<exists>e. M l = Some e \<and> nip01_match L e kvs)"
proof -
  let ?R = "\<lambda>ls V. V = set ls \<and> distinct ls \<and> (\<forall>l\<in>set ls. \<exists>e. M l = Some e \<and> nip01_match L e kvs)"
  have "\<exists>V. ?R ls V"
    by (rule foreachByFilter_object [where R = ?R, OF assms(1-4) _ _ run]) auto
  then show ?thesis by blast
qed

theorem foreachByFilter_sound_witness:
  "\<exists>ls. foreachByFilter 3 mem_env le_lib (\<lambda>_. 0) one_db (JObject []) (\<lambda>l acc. Inr (acc @ [l])) [] = Some (Inr ls) \<and>
     ls \<noteq> [] \<and> distinct ls"
proof -
  have run: "foreachByFilter 3 mem_env le_lib (\<lambda>_. 0) one_db (JObject []) (\<lambda>l acc. Inr (acc @ [l])) [] = Some (Inr [1])"
    using one_event_query [of one_db ev_old "\<lambda>l acc. Inr (acc @ [l])" "[]" "[1]" 0 "\<lambda>_. 0"] one_db_facts(4) by (simp add: one_db_def ev_old_def numeral_3_eq_3)
  have "distinct [1 :: u64] \<and> (\<forall>l\<in>set [1 :: u64]. \<exists>e. [1 \<mapsto> ev_old] l = Some e \<and> nip01_match le_lib e [])"
    by (rule foreachByFilter_sound [OF mem_scan.scan_env_axioms one_db_facts(2) _ _ run])
      (simp_all add: small_times_def distinct_keys_def ev_old_def split: if_splits)
  with run show ?thesis by simp
qed

text \<open>
  An event of the year 36812 or later breaks every scan that meets it: its time spills
  into the bits that hold the number of the cursor, and the scan then reads a cursor that
  does not exist.  Events that are imported are not checked for their time.
\<close>

theorem far_future_query_undefined:
  "foreachByFilter (Suc (Suc n)) mem_env le_lib clock far_db (JObject []) (\<lambda>l acc. Inr (acc @ [l])) [] = Some (Inl UB)"
proof -
  have db: "md_events far_db = [(1, pack_event le_lib ev_far)]" "wf_event ev_far"
    by (simp_all add: far_db_def ev_far_def ev_old_def wf_event_def)
  let ?ev = "CandidateEvent 1 (ev_created_at ev_far) 0"
  have created: "ce_created ?ev = 0" "ce_scanIndex ?ev = 1" "ce_levId ?ev = 1"
    by (simp_all add: ce_created_def ce_scanIndex_def ce_levId_def CandidateEvent_def ev_far_def)
  obtain q S S1 where run: "DBQuery_filter le_lib (JObject []) MAX_U64 = Inr q" "fresh_query q" "DBScan le_lib any_filter = Inr S"
    "scan_round (Suc (Suc n)) mem_env le_lib far_db any_filter (query_handleEvent any_filter (\<lambda>l acc. Inr (acc @ [l])))
       (query_doPause clock (clock 0) MAX_U64) (S, q, Suc 0, []) = Some (Inr (None, S1, q, Suc 0, []))"
    "ds_eventQueue S1 = [?ev]" "ds_cursors S1 = [spent_cursor]" "ds_nextInitIndex S1 = 1" "ds_indexOnly S1" "ds_approxWork S1 = 2"
    by (rule one_event_first_round [OF db, of n "\<lambda>l acc. Inr (acc @ [l])" clock "[]"])
  have "scan_round (Suc (Suc n)) mem_env le_lib far_db any_filter (query_handleEvent any_filter (\<lambda>l acc. Inr (acc @ [l])))
       (query_doPause clock (clock 0) MAX_U64) (S1, q, Suc 0, []) = Some (Inl UB)"
    using run(2) by (simp add: scan_round_def run query_doPause_def fresh_query_def candidate_matches_def created any_filter_sel
        doesMatchTimes_def query_handleEvent_def not_MAX_le_1)
  then have "process_round (Suc (Suc n)) mem_env le_lib clock far_db (\<lambda>l acc. Inr (acc @ [l])) MAX_U64 (q, 0, []) = Some (Inl UB)"
    using run(2) by (simp add: process_round_def fresh_query_def run)
  then show ?thesis by (simp add: foreachByFilter_def run process_def)
qed

end
