(* ===== verification/Http_Server.thy ===== *)
theory Http_Server
  imports Query_Results Rate_Limiter Http_Metrics Http_Text
begin

text \<open>
  The request handlers of the HTTP server (\<^verbatim>\<open>src/src/HttpServer.cpp\<close>): the pre-routing and
  post-routing handlers, the table of routes and the handlers behind it.  A handler is a
  function from the state of the server and the response so far to both after it; it ends
  with an exception only where the language leaves the behaviour undefined, since every
  handler catches \<^verbatim>\<open>std::exception\<close>.  Handlers that query the database take fuel, which
  \<open>None\<close> reports as exhausted.  Log lines are left out, the clock readings they take are not.
\<close>

section \<open>Requests, responses and the state of the server\<close>

record http_response =
  rs_status :: int
  rs_headers :: "(string \<times> string) list"
  rs_body :: string
  rs_type :: string

definition set_header :: "string \<Rightarrow> string \<Rightarrow> http_response \<Rightarrow> http_response" where
  "set_header k v res = res\<lparr>rs_headers := rs_headers res @ [(k, v)]\<rparr>"

definition set_content :: "string \<Rightarrow> string \<Rightarrow> http_response \<Rightarrow> http_response" where
  "set_content body ty res = res\<lparr>rs_body := body, rs_type := ty\<rparr>"

definition set_reply :: "int \<Rightarrow> string \<Rightarrow> http_response \<Rightarrow> http_response" where
  "set_reply status body res = set_content body ''application/json'' (res\<lparr>rs_status := status\<rparr>)"

text \<open>
  The event processor is the function that \<^verbatim>\<open>setEventProcessor\<close> installs: it gets the text of
  an event and works on the rest of the program, the world \<open>'w\<close>; its value is the verdict with
  the message it leaves in \<^verbatim>\<open>errorMsg\<close>, or an exception.
\<close>

type_synonym 'w event_processor = "string \<Rightarrow> 'w \<Rightarrow> (bool \<times> string) result \<times> 'w"

record 'w http_state =
  hs_eventProcessor :: "'w event_processor option"
  hs_world :: 'w
  hs_rateLimiter :: "rate_limiter option"
  hs_metrics :: metrics
  hs_activeRequests :: int
  hs_shuttingDown :: bool
  hs_notified :: nat
  hs_ms :: nat
  hs_ticks :: nat

text \<open>
  What is fixed while the server runs: the options it was built with, the database interface
  and the libraries, the readings of its clocks, and the texts of exceptions that the
  sources do not write themselves.
\<close>

record ('db, 'w) http_params =
  hp_env :: "'db env"
  hp_lib :: lib
  hp_from_sv32 :: "string \<Rightarrow> u32"
  hp_decompress :: "u32 \<Rightarrow> string \<Rightarrow> string result"
  hp_snapshot :: "'w \<Rightarrow> 'db"
  hp_timestampMs :: "nat \<Rightarrow> u64"
  hp_timeUs :: "nat \<Rightarrow> u64"
  hp_steady :: clock
  hp_what :: "exn \<Rightarrow> string"
  hp_pretty :: "json \<Rightarrow> string"
  hp_enableCors :: bool
  hp_trustProxy :: bool
  hp_corsOrigin :: string

definition getTimestampMs :: "('db, 'w) http_params \<Rightarrow> 'w http_state \<Rightarrow> u64 \<times> 'w http_state" where
  "getTimestampMs P s = (hp_timestampMs P (hs_ms s), s\<lparr>hs_ms := Suc (hs_ms s)\<rparr>)"

definition dump :: "('db, 'w) http_params \<Rightarrow> json \<Rightarrow> string" where
  "dump P v = json_to_string (hp_lib P) v"

definition count_request :: "string \<Rightarrow> int \<Rightarrow> 'w http_state \<Rightarrow> 'w http_state" where
  "count_request method status s = s\<lparr>hs_metrics := incrementRequestTotal method status (hs_metrics s)\<rparr>"

text \<open>\<^verbatim>\<open>logResponse\<close> is called with one more reading of the clock.\<close>

definition logResponse :: "('db, 'w) http_params \<Rightarrow> 'w http_state \<Rightarrow> 'w http_state" where
  "logResponse P s = snd (getTimestampMs P s)"

definition finish_timed ::
    "('db, 'w) http_params \<Rightarrow> string \<Rightarrow> string \<Rightarrow> u64 \<Rightarrow> int \<Rightarrow> 'w http_state \<Rightarrow> 'w http_state" where
  "finish_timed P method path startMs status s =
     (let s1 = count_request method status s; (t, s2) = getTimestampMs P s1
      in logResponse P (s2\<lparr>hs_metrics := observeRequestDuration path (t - startMs) (hs_metrics s2)\<rparr>))"

section \<open>Helpers on JSON\<close>

definition ok_message :: "bool \<Rightarrow> string \<Rightarrow> json" where
  "ok_message ok m = JObject [(''message'', JString m), (''ok'', JBool ok)]"

definition error_message :: "string \<Rightarrow> json" where
  "error_message m = JObject [(''error'', JString m)]"

definition buildDTagFilter :: "lib \<Rightarrow> string \<Rightarrow> json result" where
  "buildDTagFilter L dTag = json_from_string L
     ([CHR ''{'', CHR 0x22, CHR ''#'', CHR ''d'', CHR 0x22, CHR '':'', CHR ''[''] @ json_to_string L (JString dTag) @
      [CHR '']'', CHR '','', CHR 0x22] @ ''limit'' @ [CHR 0x22, CHR '':'', CHR ''1'', CHR ''}''])"

definition buildKindFilter :: "u64 \<Rightarrow> u64 \<Rightarrow> json" where
  "buildKindFilter kind limit = JObject [(''kinds'', JArray [JUnsigned kind]), (''limit'', JUnsigned limit)]"

definition eventMatchesCommitHash :: "lib \<Rightarrow> string \<Rightarrow> string \<Rightarrow> bool result" where
  "eventMatchesCommitHash L eventJsonStr commitHash = catch_all
     (bindE (json_from_string L eventJsonStr) (\<lambda>eventJson.
      bindE (json_find eventJson ''content'') (\<lambda>contentPtr.
      case contentPtr of
        Some (JString content) \<Rightarrow>
          bindE (json_from_string L content) (\<lambda>contentJson.
          bindE (json_find contentJson ''commit_hash'') (\<lambda>commitHashPtr.
          case commitHashPtr of
            Some (JString h) \<Rightarrow> Inr (h = commitHash)
          | _ \<Rightarrow> Inr False))
      | _ \<Rightarrow> Inr False))) (\<lambda>_. False)"

text \<open>The required members of an event, tested in this order.\<close>

fun has_fields :: "json \<Rightarrow> (string \<times> (json \<Rightarrow> bool)) list \<Rightarrow> bool result" where
  "has_fields v [] = Inr True"
| "has_fields v ((k, ok) # ks) = bindE (json_find v k) (\<lambda>p.
     case p of None \<Rightarrow> Inr False | Some x \<Rightarrow> if ok x then has_fields v ks else Inr False)"

definition event_fields :: "(string \<times> (json \<Rightarrow> bool)) list" where
  "event_fields = [(''id'', is_string), (''pubkey'', is_string), (''created_at'', is_number), (''kind'', is_number),
     (''tags'', is_array), (''content'', is_string), (''sig'', is_string)]"

section \<open>Request tracking, headers and rate limiting\<close>

definition setEventProcessor :: "'w event_processor \<Rightarrow> 'w http_state \<Rightarrow> 'w http_state" where
  "setEventProcessor processor s = s\<lparr>hs_eventProcessor := Some processor\<rparr>"

definition decrementActiveRequests :: "'w http_state \<Rightarrow> 'w http_state" where
  "decrementActiveRequests s = s\<lparr>hs_activeRequests := hs_activeRequests s - 1,
     hs_notified := (if hs_activeRequests s = 1 \<and> hs_shuttingDown s then Suc (hs_notified s) else hs_notified s)\<rparr>"

definition setupSecurityHeaders :: "http_response \<Rightarrow> http_response" where
  "setupSecurityHeaders res =
     set_header ''Referrer-Policy'' ''no-referrer''
       (set_header ''X-XSS-Protection'' ''1; mode=block''
         (set_header ''Content-Security-Policy'' (''default-src 'none'; frame-ancestors '' @ [CHR 0x27] @ ''none'' @ [CHR 0x27])
           (set_header ''X-Frame-Options'' ''DENY''
             (set_header ''X-Content-Type-Options'' ''nosniff'' res))))"

definition setupCorsHeaders :: "('db, 'w) http_params \<Rightarrow> http_response \<Rightarrow> http_response" where
  "setupCorsHeaders P res =
     (if hp_enableCors P then
        set_header ''Access-Control-Allow-Headers'' ''Content-Type''
          (set_header ''Access-Control-Allow-Methods'' ''POST, GET, OPTIONS''
            (set_header ''Access-Control-Allow-Origin'' (hp_corsOrigin P) res))
      else res)"

text \<open>
  The pre-routing handler; the flag says that it has answered the request itself
  (\<^verbatim>\<open>HandlerResponse::Handled\<close>).  \<open>reqId\<close> is what \<^verbatim>\<open>generateRequestId\<close> drew.
\<close>

definition pre_routing ::
    "('db, 'w) http_params \<Rightarrow> string \<Rightarrow> http_request \<Rightarrow> 'w http_state \<times> http_response \<Rightarrow>
     bool \<times> 'w http_state \<times> http_response" where
  "pre_routing P reqId req st =
     (let (s, res) = st;
          s1 = s\<lparr>hs_activeRequests := hs_activeRequests s + 1\<rparr>;
          res1 = set_header ''X-Request-ID'' reqId res;
          (startMs, s2) = getTimestampMs P s1;
          res2 = setupSecurityHeaders (setupCorsHeaders P res1);
          clientIP = getClientIP (hp_trustProxy P) req
      in if rq_method req = ''OPTIONS'' \<and> hp_enableCors P then
           (True, decrementActiveRequests (logResponse P (count_request ''OPTIONS'' 200 s2)), res2\<lparr>rs_status := 200\<rparr>)
         else if rq_path req \<noteq> ''/health'' \<and> rq_path req \<noteq> ''/metrics'' then
           (case hs_rateLimiter s2 of
              None \<Rightarrow> (False, s2, res2)
            | Some rl \<Rightarrow>
                (let pubkey = extractPubkeyFromRequest req;
                     (checkResult, rl', ticks) = checkAndConsume (hp_steady P) (hs_ticks s2) rl clientIP pubkey;
                     s3 = s2\<lparr>hs_metrics := incrementRateLimitHits (hs_metrics s2), hs_rateLimiter := Some rl',
                       hs_ticks := ticks\<rparr>
                 in if \<not> allowed checkResult then
                      (True,
                       decrementActiveRequests (logResponse P (count_request (rq_method req) 429
                         (s3\<lparr>hs_metrics := incrementRateLimitBlocks (hs_metrics s3)\<rparr>))),
                       set_content (dump P (ok_message False (reason checkResult))) ''application/json''
                         (set_header ''Retry-After'' ''60'' (res2\<lparr>rs_status := 429\<rparr>)))
                    else (False, s3, res2)))
         else (False, s2, res2))"

definition post_routing :: "'w http_state \<Rightarrow> 'w http_state" where
  "post_routing s = decrementActiveRequests s"

section \<open>Submitting events\<close>

text \<open>The guarded call of the event processor; without one nothing is accepted.\<close>

definition call_processor :: "string \<Rightarrow> 'w http_state \<Rightarrow> (bool \<times> string) result \<times> 'w http_state" where
  "call_processor body s =
     (case hs_eventProcessor s of
        None \<Rightarrow> (Inr (False, []), s)
      | Some f \<Rightarrow> (case f body (hs_world s) of (r, w) \<Rightarrow> (r, s\<lparr>hs_world := w\<rparr>)))"

definition count_accepted :: "'w http_state \<Rightarrow> 'w http_state" where
  "count_accepted s = s\<lparr>hs_metrics := incrementEventsAccepted (hs_metrics s)\<rparr>"

definition count_rejected :: "'w http_state \<Rightarrow> 'w http_state" where
  "count_rejected s = s\<lparr>hs_metrics := incrementEventsRejected (hs_metrics s)\<rparr>"

text \<open>The body of the outer \<^verbatim>\<open>try\<close>: status and content, or the exception that leaves it.\<close>

definition event_post_body ::
    "('db, 'w) http_params \<Rightarrow> http_request \<Rightarrow> 'w http_state \<Rightarrow> (int \<times> json) result \<times> 'w http_state" where
  "event_post_body P req s =
     (case json_from_string (hp_lib P) (rq_body req) of
        Inl UB \<Rightarrow> (Inl UB, s)
      | Inl e \<Rightarrow> (Inr (400, ok_message False (''Invalid JSON: '' @ sanitizeErrorForClient (what (hp_what P) e))), s)
      | Inr eventJson \<Rightarrow>
          (case has_fields eventJson event_fields of
             Inl e \<Rightarrow> (Inl e, s)
           | Inr False \<Rightarrow>
               (Inr (400, ok_message False ''Invalid event structure: missing or invalid required fields''), s)
           | Inr True \<Rightarrow>
               (case bindE (json_at eventJson ''id'') get_string of
                  Inl e \<Rightarrow> (Inl e, s)
                | Inr eventId \<Rightarrow>
                    (case call_processor (rq_body req) s of
                       (Inl e, s1) \<Rightarrow> (Inl e, s1)
                     | (Inr (True, errorMsg), s1) \<Rightarrow>
                         (Inr (200, JObject [(''id'', JString eventId), (''message'', JString ''Quote accepted''),
                           (''ok'', JBool True)]), count_accepted s1)
                     | (Inr (False, errorMsg), s1) \<Rightarrow>
                         (Inr (400, ok_message False (if errorMsg = [] then ''Quote rejected'' else errorMsg)),
                          count_rejected s1)))))"

definition handleEventPost ::
    "('db, 'w) http_params \<Rightarrow> http_request \<Rightarrow> 'w http_state \<times> http_response \<Rightarrow> ('w http_state \<times> http_response) result" where
  "handleEventPost P req st =
     (let (s, res) = st; (startMs, s0) = getTimestampMs P s; (r, s1) = event_post_body P req s0
      in bindE (catch_all r (\<lambda>e. (500, ok_message False ''Internal server error''))) (\<lambda>(status, body).
         Inr (finish_timed P ''POST'' ''/api/quotes'' startMs status s1, set_reply status (dump P body) res)))"

text \<open>The array of events in the body: the body itself or its member \<^verbatim>\<open>events\<close>.\<close>

definition batch_events :: "json \<Rightarrow> json list option" where
  "batch_events batchJson =
     (case batchJson of
        JArray xs \<Rightarrow> Some xs
      | JObject kvs \<Rightarrow> (case map_of kvs ''events'' of Some (JArray xs) \<Rightarrow> Some xs | _ \<Rightarrow> None)
      | _ \<Rightarrow> None)"

definition MAX_BATCH_SIZE :: nat where
  "MAX_BATCH_SIZE = 1000"

text \<open>The loop over the events: \<open>Some body\<close> when it answers with status 400.\<close>

fun batch_loop ::
    "('db, 'w) http_params \<Rightarrow> nat \<Rightarrow> json list \<Rightarrow> 'w http_state \<Rightarrow> json option result \<times> 'w http_state" where
  "batch_loop P i [] s = (Inr None, s)"
| "batch_loop P i (eventJson # events) s =
     (if \<not> is_object eventJson then
        (Inr (Some (ok_message False (''Event at index '' @ show_nat i @ '' is not an object''))), s)
      else
        (case has_fields eventJson event_fields of
           Inl e \<Rightarrow> (Inl e, s)
         | Inr False \<Rightarrow>
             (Inr (Some (ok_message False (''Event at index '' @ show_nat i @ '' has invalid structure''))), s)
         | Inr True \<Rightarrow>
             (case bindE (json_at eventJson ''id'') get_string of
                Inl e \<Rightarrow> (Inl e, s)
              | Inr eventId \<Rightarrow>
                  (case call_processor (json_to_string (hp_lib P) eventJson) s of
                     (Inl e, s1) \<Rightarrow> (Inl e, s1)
                   | (Inr (False, errorMsg), s1) \<Rightarrow>
                       (Inr (Some (JObject [(''failed_id'', JString eventId), (''failed_index'', JUnsigned (of_nat i)),
                          (''message'', JString (''Event at index '' @ show_nat i @ '' rejected: '' @
                             (if errorMsg = [] then ''validation failed'' else errorMsg))),
                          (''ok'', JBool False)])), count_rejected s1)
                   | (Inr (True, errorMsg), s1) \<Rightarrow> batch_loop P (Suc i) events (count_accepted s1)))))"

definition batch_body ::
    "('db, 'w) http_params \<Rightarrow> http_request \<Rightarrow> 'w http_state \<Rightarrow> (int \<times> json) result \<times> 'w http_state" where
  "batch_body P req s =
     (case json_from_string (hp_lib P) (rq_body req) of
        Inl UB \<Rightarrow> (Inl UB, s)
      | Inl e \<Rightarrow> (Inr (400, ok_message False (''Invalid JSON: '' @ sanitizeErrorForClient (what (hp_what P) e))), s)
      | Inr batchJson \<Rightarrow>
          (case batch_events batchJson of
             None \<Rightarrow>
               (Inr (400, ok_message False ''Request body must be a JSON array or object with 'events' array''), s)
           | Some events \<Rightarrow>
               if length events = 0 then (Inr (400, ok_message False ''Empty event array''), s)
               else if length events > MAX_BATCH_SIZE then
                 (Inr (400, ok_message False ''Batch size exceeds maximum of 1000 events''), s)
               else
                 (case batch_loop P 0 events s of
                    (Inl e, s1) \<Rightarrow> (Inl e, s1)
                  | (Inr (Some body), s1) \<Rightarrow> (Inr (400, body), s1)
                  | (Inr None, s1) \<Rightarrow>
                      (Inr (201, JObject [(''failed'', JSigned 0), (''message'', JString ''Batch accepted''),
                         (''published'', JSigned (int (length events))), (''success'', JBool True)]), s1))))"

definition handleEventPostBatch ::
    "('db, 'w) http_params \<Rightarrow> http_request \<Rightarrow> 'w http_state \<times> http_response \<Rightarrow> ('w http_state \<times> http_response) result" where
  "handleEventPostBatch P req st =
     (let (s, res) = st; (startMs, s0) = getTimestampMs P s; (r, s1) = batch_body P req s0
      in bindE (catch_all r (\<lambda>e. (500, JObject [(''failed'', JSigned 0), (''message'', JString ''Internal server error''),
             (''published'', JSigned 0), (''success'', JBool False)]))) (\<lambda>(status, body).
         Inr (finish_timed P ''POST'' ''/api/quotes/batch'' startMs status s1, set_reply status (dump P body) res)))"

section \<open>Reading events\<close>

text \<open>\<^verbatim>\<open>lmdb::txn::begin\<close> gives the database as committed when the handler runs.\<close>

definition event_json :: "('db, 'w) http_params \<Rightarrow> 'db \<Rightarrow> u64 \<Rightarrow> string result" where
  "event_json P db levId = getEventJson (hp_env P) (hp_from_sv32 P) (hp_decompress P) db levId"

text \<open>
  What \<^verbatim>\<open>getEventJson\<close> returns is a view: into the map of the database when the record is not
  compressed, and into the buffer of the handler's own \<^verbatim>\<open>Decompressor\<close> when it is.
  \<^verbatim>\<open>handleGetQuote\<close> copies the text after \<^verbatim>\<open>txn.commit()\<close>; a view into the database is invalid
  then, so that reading a character of it is undefined.  The other handlers copy the text inside
  their transaction.
\<close>

datatype json_view = View_db string | View_buffer string

definition event_json_view :: "('db, 'w) http_params \<Rightarrow> 'db \<Rightarrow> u64 \<Rightarrow> json_view result" where
  "event_json_view P db levId =
     (case payload_get (hp_env P) db levId of
        None \<Rightarrow> Inl (Herr ''couldn't find event in EventPayload'')
      | Some eventPayload \<Rightarrow>
          bindE (decodeEventPayload (hp_from_sv32 P) (hp_decompress P) eventPayload) (\<lambda>(t, dictId, compressedSize).
            Inr (if compressedSize = None then View_db t else View_buffer t)))"

fun copy_after_commit :: "json_view \<Rightarrow> string result" where
  "copy_after_commit (View_db t) = (if t = [] then Inr [] else Inl UB)"
| "copy_after_commit (View_buffer t) = Inr t"

definition get_quote_body :: "('db, 'w) http_params \<Rightarrow> http_request \<Rightarrow> 'db \<Rightarrow> (int \<times> string) result" where
  "get_quote_body P req db =
     (if length (rq_matches req) < 2 then Inr (400, dump P (error_message ''Missing event ID''))
      else let eventId = rq_matches req ! 1
        in if eventId = [] then Inr (400, dump P (error_message ''Missing event ID''))
           else
             (case from_hex (hp_lib P) eventId True of
                Inl UB \<Rightarrow> Inl UB
              | Inl e \<Rightarrow> Inr (400, dump P (error_message ''Invalid event ID format''))
              | Inr eventIdBytes \<Rightarrow>
                  if length eventIdBytes \<noteq> 32 then Inr (400, dump P (error_message ''Invalid event ID format''))
                  else (case lookupEventById (hp_env P) db eventIdBytes of
                          None \<Rightarrow> Inr (404, dump P (error_message ''Event not found''))
                        | Some (levId, _) \<Rightarrow>
                            bindE (event_json_view P db levId) (\<lambda>view.
                            bindE (copy_after_commit view) (\<lambda>eventJsonStr. Inr (200, eventJsonStr))))))"

definition handleGetQuote ::
    "('db, 'w) http_params \<Rightarrow> http_request \<Rightarrow> 'w http_state \<times> http_response \<Rightarrow> ('w http_state \<times> http_response) result" where
  "handleGetQuote P req st =
     (let (s, res) = st
      in bindE (catch_all (get_quote_body P req (hp_snapshot P (hs_world s)))
           (\<lambda>e. (500, dump P (error_message ''Internal server error'')))) (\<lambda>(status, body).
         Inr (count_request ''GET'' status s, set_reply status body res)))"

text \<open>The callback that keeps the text of the first event only.\<close>

definition take_first :: "('db, 'w) http_params \<Rightarrow> 'db \<Rightarrow> u64 \<Rightarrow> bool \<times> string \<Rightarrow> (bool \<times> string) result" where
  "take_first P db levId c =
     (if \<not> fst c then bindE (event_json P db levId) (\<lambda>j. Inr (True, j)) else Inr c)"

definition query_db ::
    "('db, 'w) http_params \<Rightarrow> nat \<Rightarrow> 'db \<Rightarrow> json \<Rightarrow> (u64 \<Rightarrow> 'c \<Rightarrow> 'c result) \<Rightarrow> 'c \<Rightarrow> ('c result) option" where
  "query_db P n db filt cb c = foreachByFilter n (hp_env P) (hp_lib P) (hp_timeUs P) db filt cb c"

definition find_by_d :: "('db, 'w) http_params \<Rightarrow> nat \<Rightarrow> 'db \<Rightarrow> string \<Rightarrow> ((bool \<times> string) result) option" where
  "find_by_d P n db dTag =
     (case buildDTagFilter (hp_lib P) dTag of
        Inl e \<Rightarrow> Some (Inl e)
      | Inr dTagFilter \<Rightarrow> query_db P n db dTagFilter (take_first P db) (False, []))"

definition COMMIT_HASH_SCAN_LIMIT :: u64 where
  "COMMIT_HASH_SCAN_LIMIT = 5000"

definition commit_hash_cb ::
    "('db, 'w) http_params \<Rightarrow> 'db \<Rightarrow> string \<Rightarrow> u64 \<Rightarrow> bool \<times> string \<times> u64 \<Rightarrow> (bool \<times> string \<times> u64) result" where
  "commit_hash_cb P db dTag levId c =
     (case c of (found, eventJsonStr, scanned) \<Rightarrow>
        if found \<or> scanned \<ge> COMMIT_HASH_SCAN_LIMIT then Inr c
        else bindE (event_json P db levId) (\<lambda>candidateJson.
             bindE (eventMatchesCommitHash (hp_lib P) candidateJson dTag) (\<lambda>m.
             if m then Inr (True, candidateJson, scanned + 1) else Inr (found, eventJsonStr, scanned + 1))))"

definition find_by_commit_hash ::
    "('db, 'w) http_params \<Rightarrow> nat \<Rightarrow> 'db \<Rightarrow> string \<Rightarrow> ((bool \<times> string) result) option" where
  "find_by_commit_hash P n db dTag =
     map_option (\<lambda>r. bindE r (\<lambda>(found, eventJsonStr, _). Inr (found, eventJsonStr)))
       (query_db P n db (buildKindFilter 30078 COMMIT_HASH_SCAN_LIMIT) (commit_hash_cb P db dTag) (False, [], 0))"

definition quote_by_d_body ::
    "('db, 'w) http_params \<Rightarrow> nat \<Rightarrow> http_request \<Rightarrow> 'db \<Rightarrow> ((int \<times> string) result) option" where
  "quote_by_d_body P n req db =
     (let dTag = (case rq_param req ''d'' of None \<Rightarrow> [] | Some v \<Rightarrow> v);
          failed = Inr (500, dump P (error_message ''Internal server error''))
      in if dTag = [] then Some (Inr (400, dump P (error_message ''Missing 'd' query parameter'')))
         else
           (case find_by_d P n db dTag of
              None \<Rightarrow> None
            | Some (Inl UB) \<Rightarrow> Some (Inl UB)
            | Some (Inl e) \<Rightarrow> Some failed
            | Some (Inr (True, eventJsonStr)) \<Rightarrow> Some (Inr (200, eventJsonStr))
            | Some (Inr (False, _)) \<Rightarrow>
                (case find_by_commit_hash P n db dTag of
                   None \<Rightarrow> None
                 | Some (Inl UB) \<Rightarrow> Some (Inl UB)
                 | Some (Inl e) \<Rightarrow> Some failed
                 | Some (Inr (True, eventJsonStr)) \<Rightarrow> Some (Inr (200, eventJsonStr))
                 | Some (Inr (False, _)) \<Rightarrow>
                     Some (Inr (404, dump P (error_message ''event not found for specified d tag''))))))"

definition handleGetQuoteByDTag ::
    "('db, 'w) http_params \<Rightarrow> nat \<Rightarrow> http_request \<Rightarrow> 'w http_state \<times> http_response \<Rightarrow>
     (('w http_state \<times> http_response) result) option" where
  "handleGetQuoteByDTag P n req st =
     (let (s, res) = st; (startMs, s1) = getTimestampMs P s
      in map_option (\<lambda>r. bindE (catch_all r (\<lambda>e. (500, dump P (error_message ''Internal server error'')))) (\<lambda>(status, body).
           Inr (logResponse P (count_request ''GET'' status s1), set_reply status body res)))
         (quote_by_d_body P n req (hp_snapshot P (hs_world s1))))"

definition MAX_BATCH_FETCH_SIZE :: nat where
  "MAX_BATCH_FETCH_SIZE = 1000"

text \<open>One element of the results; an exception that is not caught here ends the loop.\<close>

definition fetch_one :: "('db, 'w) http_params \<Rightarrow> nat \<Rightarrow> 'db \<Rightarrow> nat \<Rightarrow> json \<Rightarrow> (json result) option" where
  "fetch_one P n db i dTagValue =
     (case dTagValue of
        JString dTag \<Rightarrow>
          (case buildDTagFilter (hp_lib P) dTag of
             Inl e \<Rightarrow> Some (Inl e)
           | Inr filterJson \<Rightarrow>
               (case query_db P n db filterJson (take_first P db) (False, []) of
                  None \<Rightarrow> None
                | Some (Inl UB) \<Rightarrow> Some (Inl UB)
                | Some (Inl e) \<Rightarrow> Some (Inr (JObject [(''d_tag'', JString dTag),
                    (''error'', JString (''filter error: '' @ what (hp_what P) e))]))
                | Some (Inr (False, _)) \<Rightarrow>
                    Some (Inr (JObject [(''d_tag'', JString dTag), (''error'', JString ''event not found'')]))
                | Some (Inr (True, eventJsonStr)) \<Rightarrow>
                    Some (bindE (json_from_string (hp_lib P) eventJsonStr) (\<lambda>eventJson.
                      Inr (JObject [(''d_tag'', JString dTag), (''event'', eventJson)])))))
      | _ \<Rightarrow> Some (Inr (JObject [(''d_tag'', JString []),
          (''error'', JString (''d_tag at index '' @ show_nat i @ '' is not a string''))])))"

fun fetch_loop :: "('db, 'w) http_params \<Rightarrow> nat \<Rightarrow> 'db \<Rightarrow> nat \<Rightarrow> json list \<Rightarrow> json list \<Rightarrow> (json list result) option" where
  "fetch_loop P n db i [] results = Some (Inr results)"
| "fetch_loop P n db i (v # vs) results =
     (case fetch_one P n db i v of
        None \<Rightarrow> None
      | Some (Inl e) \<Rightarrow> Some (Inl e)
      | Some (Inr r) \<Rightarrow> fetch_loop P n db (Suc i) vs (results @ [r]))"

definition fetch_reply :: "bool \<Rightarrow> json list \<Rightarrow> string \<Rightarrow> json" where
  "fetch_reply ok results m =
     JObject [(''message'', JString m), (''results'', JArray results), (''success'', JBool ok)]"

definition batch_fetch_body ::
    "('db, 'w) http_params \<Rightarrow> nat \<Rightarrow> http_request \<Rightarrow> 'db \<Rightarrow> ((int \<times> json) result) option" where
  "batch_fetch_body P n req db =
     (case json_from_string (hp_lib P) (rq_body req) of
        Inl UB \<Rightarrow> Some (Inl UB)
      | Inl e \<Rightarrow> Some (Inr (400, fetch_reply False [] (''Invalid JSON: '' @ sanitizeErrorForClient (what (hp_what P) e))))
      | Inr reqJson \<Rightarrow>
          (case json_find reqJson ''d_tags'' of
             Inl e \<Rightarrow> Some (Inl e)
           | Inr (Some (JArray dTags)) \<Rightarrow>
               if length dTags = 0 then Some (Inr (200, fetch_reply True [] ''No d_tags to fetch''))
               else if length dTags > MAX_BATCH_FETCH_SIZE then
                 Some (Inr (400, fetch_reply False [] ''Batch size exceeds maximum of 1000 d_tags''))
               else map_option (\<lambda>r. bindE r (\<lambda>results. Inr (200, fetch_reply True results ''Batch fetch complete'')))
                      (fetch_loop P n db 0 dTags [])
           | Inr _ \<Rightarrow> Some (Inr (400, fetch_reply False [] ''Request body must contain 'd_tags' array''))))"

definition handleBatchFetch ::
    "('db, 'w) http_params \<Rightarrow> nat \<Rightarrow> http_request \<Rightarrow> 'w http_state \<times> http_response \<Rightarrow>
     (('w http_state \<times> http_response) result) option" where
  "handleBatchFetch P n req st =
     (let (s, res) = st; (startMs, s1) = getTimestampMs P s
      in map_option (\<lambda>r. bindE (catch_all r (\<lambda>e. (500, fetch_reply False [] ''Internal server error''))) (\<lambda>(status, body).
           Inr (finish_timed P ''POST'' ''/api/quotes/batch/fetch'' startMs status s1, set_reply status (dump P body) res)))
         (batch_fetch_body P n req (hp_snapshot P (hs_world s1))))"

definition handleHealthCheck :: "('db, 'w) http_params \<Rightarrow> 'w http_state \<times> http_response \<Rightarrow> 'w http_state \<times> http_response" where
  "handleHealthCheck P st =
     (let (s, res) = st
      in (count_request ''GET'' 200 s,
          set_reply 200 (dump P (JObject [(''service'', JString ''strfry-http''), (''status'', JString ''ok'')])) res))"

definition handleMetrics :: "'w http_state \<times> http_response \<Rightarrow> 'w http_state \<times> http_response" where
  "handleMetrics st =
     (let (s, res) = st
      in (s, (set_content (renderPrometheus (hs_metrics s)) ''text/plain; version=0.0.4'' res)\<lparr>rs_status := 200\<rparr>))"

section \<open>Queries\<close>

definition MAX_QUERY_RESULTS :: u64 where
  "MAX_QUERY_RESULTS = 10000"

definition get_param :: "http_request \<Rightarrow> string \<Rightarrow> string" where
  "get_param req k = (case rq_param req k of None \<Rightarrow> [] | Some v \<Rightarrow> v)"

text \<open>A numeric parameter as a member of the filter; \<open>Inl\<close> is the message of an early answer.\<close>

definition number_param :: "http_request \<Rightarrow> string \<Rightarrow> string \<Rightarrow> string + (string \<times> json) list" where
  "number_param req k m =
     (if get_param req k = [] then Inr []
      else case std_stoull (get_param req k) of Inl _ \<Rightarrow> Inl m | Inr n \<Rightarrow> Inr [(k, JUnsigned n)])"

definition list_param :: "http_request \<Rightarrow> string \<Rightarrow> (string \<times> json) list" where
  "list_param req k = (if get_param req k = [] then [] else [(k, JArray (map JString (getlines (get_param req k))))])"

definition kinds_param :: "http_request \<Rightarrow> string + (string \<times> json) list" where
  "kinds_param req =
     (if get_param req ''kinds'' = [] then Inr []
      else case mapE std_stoull (getlines (get_param req ''kinds'')) of
             Inl _ \<Rightarrow> Inl ''Invalid kind parameter''
           | Inr ks \<Rightarrow> Inr [(''kinds'', JArray (map JUnsigned ks))])"

text \<open>The filter from the query parameters; the members in the order of \<^verbatim>\<open>std::map\<close>.\<close>

definition params_filter :: "http_request \<Rightarrow> string + json" where
  "params_filter req =
     (case kinds_param req of Inl m \<Rightarrow> Inl m | Inr kinds \<Rightarrow>
      case number_param req ''since'' ''Invalid since parameter'' of Inl m \<Rightarrow> Inl m | Inr since \<Rightarrow>
      case number_param req ''until'' ''Invalid until parameter'' of Inl m \<Rightarrow> Inl m | Inr until \<Rightarrow>
      case number_param req ''limit'' ''Invalid limit parameter'' of Inl m \<Rightarrow> Inl m | Inr limit \<Rightarrow>
      Inr (JObject (list_param req ''authors'' @ list_param req ''ids'' @ kinds @ limit @ since @ until)))"

text \<open>The callback: the response text, the number of events in it and \<^verbatim>\<open>first\<close>.\<close>

definition query_cb ::
    "('db, 'w) http_params \<Rightarrow> 'db \<Rightarrow> u64 \<Rightarrow> string \<times> u64 \<times> bool \<Rightarrow> (string \<times> u64 \<times> bool) result" where
  "query_cb P db levId c =
     (case c of (responseStr, resultCount, first) \<Rightarrow>
        if resultCount \<ge> MAX_QUERY_RESULTS then Inr c
        else bindE (event_json P db levId) (\<lambda>eventJsonStr.
          Inr (responseStr @ (if first then [] else '','') @ eventJsonStr, resultCount + 1, False)))"

definition is_filter_error :: "string \<Rightarrow> bool" where
  "is_filter_error errMsg \<longleftrightarrow> str_find errMsg ''filter'' \<noteq> None \<or> str_find errMsg ''invalid'' \<noteq> None"

text \<open>
  How the body of the outer \<^verbatim>\<open>try\<close> ends: early with an error of the request, which is not
  counted, with an error of the query, or with the number and the text of the results.
\<close>

datatype query_end = Bad_request string | Query_error int string | Query_ok u64 string

definition query_body ::
    "('db, 'w) http_params \<Rightarrow> nat \<Rightarrow> http_request \<Rightarrow> 'db \<Rightarrow> (query_end result) option" where
  "query_body P n req db =
     (let source =
        (if rq_method req = ''POST'' \<and> rq_body req \<noteq> [] then
           (case json_from_string (hp_lib P) (rq_body req) of
              Inl UB \<Rightarrow> Inl UB
            | Inl e \<Rightarrow> Inr (Inl (''Invalid JSON in request body: '' @ sanitizeErrorForClient (what (hp_what P) e)))
            | Inr v \<Rightarrow> Inr (Inr v))
         else Inr (params_filter req))
      in case source of
           Inl e \<Rightarrow> Some (Inl e)
         | Inr (Inl m) \<Rightarrow> Some (Inr (Bad_request m))
         | Inr (Inr filterJson) \<Rightarrow>
             (case query_db P n db filterJson (query_cb P db) (''['', 0, True) of
                None \<Rightarrow> None
              | Some (Inl UB) \<Rightarrow> Some (Inl UB)
              | Some (Inl e) \<Rightarrow>
                  (let errMsg = what (hp_what P) e
                   in Some (Inr (if is_filter_error errMsg then Query_error 400 (sanitizeErrorForClient errMsg)
                                 else Query_error 500 ''Internal server error'')))
              | Some (Inr (responseStr, resultCount, _)) \<Rightarrow> Some (Inr (Query_ok resultCount (responseStr @ '']'')))))"

fun query_finish ::
    "('db, 'w) http_params \<Rightarrow> string \<Rightarrow> query_end \<Rightarrow> 'w http_state \<times> http_response \<Rightarrow> 'w http_state \<times> http_response" where
  "query_finish P method (Bad_request m) (s, res) = (s, set_reply 400 (dump P (error_message m)) res)"
| "query_finish P method (Query_error status m) (s, res) =
     (count_request method status s, set_reply status (dump P (error_message m)) res)"
| "query_finish P method (Query_ok resultCount text) (s, res) =
     (count_request method 200 (s\<lparr>hs_metrics := observeQueryResults resultCount (hs_metrics s)\<rparr>),
      set_reply 200 text res)"

definition handleQuery ::
    "('db, 'w) http_params \<Rightarrow> nat \<Rightarrow> http_request \<Rightarrow> 'w http_state \<times> http_response \<Rightarrow>
     (('w http_state \<times> http_response) result) option" where
  "handleQuery P n req st =
     map_option (\<lambda>r. bindE (catch_all r (\<lambda>e. Query_error 500 ''Internal server error'')) (\<lambda>q.
         Inr (query_finish P (rq_method req) q st)))
       (query_body P n req (hp_snapshot P (hs_world (fst st))))"

section \<open>Routes\<close>

datatype route = R_query | R_event_post | R_event_batch | R_batch_fetch | R_by_d_tag | R_quote | R_health | R_metrics | R_index

text \<open>The table that \<^verbatim>\<open>setupRoutes\<close> registers: method, pattern, handler.\<close>

definition setupRoutes :: "(string \<times> string \<times> route) list" where
  "setupRoutes =
     [(''GET'', ''/api/query'', R_query), (''POST'', ''/api/query'', R_query), (''POST'', ''/api/quotes'', R_event_post),
      (''POST'', ''/api/quotes/batch'', R_event_batch), (''POST'', ''/api/quotes/batch/fetch'', R_batch_fetch),
      (''GET'', ''/api/quotes'', R_by_d_tag), (''GET'', ''/api/quotes/([0-9a-fA-F]+)'', R_quote),
      (''GET'', ''/health'', R_health), (''GET'', ''/metrics'', R_metrics), (''GET'', ''/'', R_index)]"

definition index_reply :: json where
  "index_reply = JObject [
     (''endpoints'', JObject [
        (''/api/query'', JString ''GET - Query events''),
        (''/api/quotes'', JString ''POST - Submit Nostr quote event''),
        (''/api/quotes/:id'', JString ''GET - Get quote by ID''),
        (''/api/quotes/batch'', JString ''POST - Submit batch of events (accepts array or {events: array})''),
        (''/api/quotes/batch/fetch'', JString ''POST - Fetch batch of events by d_tags''),
        (''/health'', JString ''GET - Health check''),
        (''/metrics'', JString ''GET - Prometheus metrics'')]),
     (''name'', JString ''strfry HTTP API''), (''version'', JString ''1.0.0'')]"

fun run_route ::
    "('db, 'w) http_params \<Rightarrow> nat \<Rightarrow> route \<Rightarrow> http_request \<Rightarrow> 'w http_state \<times> http_response \<Rightarrow>
     (('w http_state \<times> http_response) result) option" where
  "run_route P n R_query req st = handleQuery P n req st"
| "run_route P n R_event_post req st = Some (handleEventPost P req st)"
| "run_route P n R_event_batch req st = Some (handleEventPostBatch P req st)"
| "run_route P n R_batch_fetch req st = handleBatchFetch P n req st"
| "run_route P n R_by_d_tag req st = handleGetQuoteByDTag P n req st"
| "run_route P n R_quote req st = Some (handleGetQuote P req st)"
| "run_route P n R_health req st = Some (Inr (handleHealthCheck P st))"
| "run_route P n R_metrics req st = Some (Inr (handleMetrics st))"
| "run_route P n R_index req st =
     Some (Inr (fst st, set_content (hp_pretty P index_reply) ''application/json'' (snd st)))"

end
