(* ===== verification/Query_Exact.thy ===== *)
theory Query_Exact
  imports Query_Results "HOL-Library.Product_Lexorder" "HOL-Library.Multiset"
begin

text \<open>
  What a scan delivers, exactly: the merge of its cursors hands over the entries of the index
  in descending order of time and levId, none is missed, and a scan that is interrupted and
  resumed does the same as one that runs through.
\<close>

section \<open>Sorted lists\<close>

lemma sorted_wrt_unique:
  assumes "sorted_wrt R xs" "sorted_wrt R ys" "distinct xs" "distinct ys" "set xs = set ys"
    and "\<And>x y. x \<in> set xs \<Longrightarrow> y \<in> set xs \<Longrightarrow> R x y \<Longrightarrow> R y x \<Longrightarrow> x = y"
  shows "xs = ys"
  using assms
proof (induction xs arbitrary: ys)
  case (Cons x xs)
  then obtain y ys' where ys: "ys = y # ys'" by (cases ys) auto
  have "x = y"
  proof (rule ccontr)
    assume "x \<noteq> y"
    then have "x \<in> set ys'" "y \<in> set xs" using Cons.prems(5) unfolding ys by auto
    then have "R y x" "R x y" using Cons.prems(1,2) unfolding ys by auto
    then show False using \<open>x \<noteq> y\<close> \<open>y \<in> set xs\<close> Cons.prems(6) [of x y] by auto
  qed
  moreover have "xs = ys'"
  proof (rule Cons.IH)
    show "set xs = set ys'" using Cons.prems(3-5) \<open>x = y\<close> unfolding ys by (simp add: insert_ident)
    show "x = y" if "x \<in> set xs" "y \<in> set xs" "R x y" "R y x" for x y using that by (intro Cons.prems(6)) auto
  qed (use Cons.prems(1-4) in \<open>simp_all add: ys\<close>)
  ultimately show ?case by (simp add: ys)
qed simp

text \<open>Handing a list of entries to a callback, until it says stop.\<close>

fun feed :: "(u64 \<Rightarrow> bool) \<Rightarrow> (u64 \<Rightarrow> 'a \<Rightarrow> (bool \<times> 'a) result) \<Rightarrow> (u64 \<times> u64) list \<Rightarrow> 'a \<Rightarrow> 'a result" where
  "feed want H [] a = Inr a"
| "feed want H (x # xs) a =
     bindE (if want (snd x) then H (snd x) a else Inr (False, a)) (\<lambda>(stop, a'). if stop then Inr a' else feed want H xs a')"

definition matching :: "store \<Rightarrow> nostr_filter \<Rightarrow> u64 \<Rightarrow> bool" where
  "matching M f l \<longleftrightarrow> (\<exists>e. M l = Some e \<and> nf_matches f e)"

text \<open>The number of a cursor has 24 bits in a packed candidate.\<close>

definition few_values :: "nostr_filter \<Rightarrow> bool" where
  "few_values f \<longleftrightarrow> (\<forall>s. nf_ids f = Some s \<longrightarrow> FilterSetBytes_size s \<le> 2 ^ 24) \<and>
     (\<forall>s. nf_authors f = Some s \<longrightarrow> FilterSetBytes_size s \<le> 2 ^ 24) \<and>
     (\<forall>ks. nf_kinds f = Some ks \<longrightarrow> length ks \<le> 2 ^ 24) \<and> (\<forall>t\<in>set (nf_tags f). FilterSetBytes_size (snd t) \<le> 2 ^ 24)"

lemma length_elems [simp]: "length (FilterSetBytes_elems s) = FilterSetBytes_size s"
  by (simp add: FilterSetBytes_elems_def FilterSetBytes_size_def)

lemma pick_tag_mem:
  assumes "tags \<noteq> []" "\<forall>t\<in>set tags. FilterSetBytes_size (snd t) \<le> 2 ^ 24"
  shows "pick_tag tags \<in> fst ` set tags"
proof -
  let ?step = "\<lambda>(numTags :: u64, tagName) (tn, fs). if of_nat (FilterSetBytes_size fs) < numTags then (of_nat (FilterSetBytes_size fs), tn) else (numTags, tagName)"
  have keep: "snd (foldl ?step (m, tn) ts) = tn \<or> snd (foldl ?step (m, tn) ts) \<in> fst ` set ts" for m tn ts
    by (induction ts arbitrary: m tn) (fastforce split: if_splits)+
  obtain tn fs ts where tags: "tags = (tn, fs) # ts" using assms(1) by (cases tags) auto
  have "(of_nat (FilterSetBytes_size fs) :: u64) \<le> of_nat (2 ^ 24)"
    using assms(2) by (intro of_nat_word_less_eq_iff [THEN iffD2]) (simp add: tags take_bit_nat_eq_self)
  also have "(of_nat (2 ^ 24) :: u64) < MAX_U64" by simp
  finally have "pick_tag tags = snd (foldl ?step (of_nat (FilterSetBytes_size fs), tn) ts)" by (simp add: pick_tag_def tags)
  then show ?thesis using keep [of "of_nat (FilterSetBytes_size fs)" tn ts] by (auto simp: tags)
qed

section \<open>The order of the candidates\<close>

definition rank :: "candidate \<Rightarrow> u64 \<times> u64" where
  "rank ev = (ce_created ev, ce_levId ev)"

lemma cand_before_rank: "cand_before a b \<longleftrightarrow> rank b < rank a"
  by (auto simp: cand_before_def rank_def less_prod_simp)

abbreviation descending :: "candidate list \<Rightarrow> bool" where
  "descending \<equiv> sorted_wrt (\<lambda>a b. rank b \<le> rank a)"

lemma mset_merge_cands [simp]: "mset (merge_cands xs ys) = mset xs + mset ys"
  by (induction xs ys rule: merge_cands.induct) auto

lemma mset_sort_cands [simp]: "mset (sort_cands xs) = mset xs"
  by (induction xs) (simp_all add: sort_cands_def insert_cand_def)

lemma descending_merge: "descending xs \<Longrightarrow> descending ys \<Longrightarrow> descending (merge_cands xs ys)"
  by (induction xs ys rule: merge_cands.induct) (auto simp: cand_before_rank not_less intro: order_trans less_imp_le)

lemma descending_sort: "descending (sort_cands xs)"
proof (induction xs)
  case (Cons x xs)
  then show ?case using descending_merge [of "[x]" "sort_cands xs"] by (simp add: sort_cands_def insert_cand_def)
qed (simp add: sort_cands_def)

lemma sorted_list_top:
  fixes x :: "'c::linorder"
  assumes "\<And>y. y \<in># A \<Longrightarrow> y \<le> x"
  shows "rev (sorted_list_of_multiset (add_mset x A)) = x # rev (sorted_list_of_multiset A)"
proof -
  have "sorted (sorted_list_of_multiset A @ [x])" using assms by (simp add: sorted_append sorted_sorted_list_of_multiset)
  then have "sorted_list_of_multiset (mset (sorted_list_of_multiset A @ [x])) = sorted_list_of_multiset A @ [x]"
    by (simp only: sorted_list_of_multiset_mset sorted_sort_id)
  then show ?thesis by simp
qed

text \<open>The candidates of the queue that came from a cursor; \<^verbatim>\<open>outstanding\<close> counts them.\<close>

definition owned :: "nat \<Rightarrow> candidate multiset \<Rightarrow> nat" where
  "owned i Q = size (filter_mset (\<lambda>ev. unat (ce_scanIndex ev) = i) Q)"

lemma owned_add [simp]: "owned i (Q + R) = owned i Q + owned i R"
  by (simp add: owned_def)

lemma owned_0: "owned i Q = 0 \<longleftrightarrow> (\<forall>ev\<in>#Q. unat (ce_scanIndex ev) \<noteq> i)"
  by (auto simp: owned_def filter_mset_eq_conv)

section \<open>What a cursor still has to hand over\<close>

context scan_env
begin

text \<open>The leading part of the keys that a cursor matches.\<close>

fun lead :: "key_match \<Rightarrow> string" where
  "lead (MatchPrefix s) = s"
| "lead (MatchExact s) = s"
| "lead (MatchKind kind) = to_sv L kind"
| "lead MatchAny = []"

text \<open>On the entries of an index, a matcher tests the leading part.\<close>

definition tests_lead :: "'db \<Rightarrow> db_index \<Rightarrow> key_match \<Rightarrow> bool" where
  "tests_lead db ix km \<longleftrightarrow> (\<forall>k l. (k, l) \<in> index_entries E L db ix \<longrightarrow>
     keyMatch E km k = (fst (parseKey_StringUint64 E k) = lead km))"

definition upcoming :: "'db \<Rightarrow> nostr_filter \<Rightarrow> db_index \<Rightarrow> scan_cursor \<Rightarrow> (string \<times> u64) list" where
  "upcoming db f ix c =
     (if sc_active c then List.filter (entry_ok f (sc_keyMatch c)) (foreachFull E db ix (sc_resumeKey c) (sc_resumeVal c) True)
      else [])"

text \<open>A cursor never stands above the block of its leading part.\<close>

definition cursor_ok :: "db_index \<Rightarrow> scan_cursor \<Rightarrow> bool" where
  "cursor_ok ix c \<longleftrightarrow> (sc_active c \<longrightarrow> key_le ix (sc_resumeKey c) (makeKey_StringUint64 E (lead (sc_keyMatch c)) MAX_U64))"

lemma pos_le_refl: "pos_le key_le ix x x"
  using key_le_total [of ix "fst x" "fst x"] by (simp add: pos_le_def)

lemma down_unique:
  assumes "holds E L tree_items fs db M" "ix \<in> scan_indexes" "down db ix xs" "down db ix ys" "set (List.filter P xs) = set (List.filter P ys)"
  shows "List.filter P xs = List.filter P ys"
proof (rule sorted_wrt_unique [OF _ _ _ _ assms(5)])
  fix x y
  assume "x \<in> set (List.filter P xs)" "y \<in> set (List.filter P xs)" "pos_le key_le ix y x" "pos_le key_le ix x y"
  then show "x = y" using entry_antisym [OF assms(1,2), of x y] assms(3) unfolding down_def by auto
qed (use assms(3,4) in \<open>auto simp: down_def intro: sorted_wrt_filter\<close>)

text \<open>Standing on the first entry of a stretch, a cursor has the stretch before it.\<close>

lemma down_resume:
  assumes "holds E L tree_items fs db M" "ix \<in> scan_indexes" "down db ix ((k, v) # xs)"
  shows "List.filter P (foreachFull E db ix k v True) = List.filter P ((k, v) # xs)"
proof (rule down_unique [OF assms(1,2) down_scan assms(3)])
  have "set (foreachFull E db ix k v True) = set ((k, v) # xs)"
    using assms(3) pos_le_refl unfolding down_def scan_set_rev by auto
  then show "set (List.filter P (foreachFull E db ix k v True)) = set (List.filter P ((k, v) # xs))" by (simp only: set_filter)
qed

text \<open>An entry is determined by its leading part and time.\<close>

lemma lead_block:
  assumes "ix \<in> scan_indexes" "s' \<noteq> s" "key_le ix (makeKey_StringUint64 E s' n') (makeKey_StringUint64 E s MAX_U64)"
    and "key_le ix (makeKey_StringUint64 E s m) (makeKey_StringUint64 E s' n')"
  shows False
  using key_le_lead [OF assms(1,2,3), of n' m] key_le_antisym [OF assms(1) _ assms(4)] assms(2) by blast

text \<open>The entries of a stretch that a cursor wants, below a key of its block.\<close>

lemma wanted_entry:
  assumes "holds E L tree_items fs db M" "ix \<in> scan_indexes" "tests_lead db ix km" "y \<in> index_entries E L db ix" "entry_ok f km y"
  obtains m w where "y = (makeKey_StringUint64 E (lead km) m, w)" "\<not> (nf_since f \<noteq> 0 \<and> m < nf_since f)" "\<not> (nf_until f \<noteq> 0 \<and> m > nf_until f)"
proof -
  obtain k w where y: "y = (k, w)" by (cases y)
  obtain s m where k: "k = makeKey_StringUint64 E s m" using assms(4) unfolding y by (rule entry_key [OF assms(1,2)])
  have "s = lead km" using assms(3-5) unfolding tests_lead_def entry_ok_def y k by (auto simp: parseKey)
  with assms(5) show thesis by (intro that [of m w]) (auto simp: y k entry_ok_def parseKey)
qed

lemma collect_entries_exact:
  assumes "holds E L tree_items fs db M" "ix \<in> scan_indexes" "tests_lead db ix (sc_keyMatch c)"
    and "down db ix xs" "\<forall>x\<in>set xs. key_le ix (fst x) (makeKey_StringUint64 E (lead (sc_keyMatch c)) MAX_U64)"
    and "collect_entries E f scanIndex xs (c, limit, added, out) = (fin, c', limit', added', out')"
  shows "\<exists>ys. List.filter (entry_ok f (sc_keyMatch c)) xs = ys @ (if fin then [] else upcoming db f ix c') \<and>
    out' = out @ map (entry_candidate scanIndex) ys \<and> added' = added + of_nat (length ys) \<and>
    unat limit' + length ys = unat limit \<and> cursor_ok ix (if fin then c'\<lparr>sc_resumeKey := []\<rparr> else c') \<and>
    sc_keyMatch c' = sc_keyMatch c \<and> sc_outstanding c' = sc_outstanding c"
  using assms(4-6)
proof (induction xs arbitrary: limit added out)
  case Nil
  then show ?case by (auto simp: cursor_ok_def sc_active_def)
next
  case (Cons x xs)
  let ?km = "sc_keyMatch c"
  let ?ok = "entry_ok f ?km"
  let ?top = "makeKey_StringUint64 E (lead ?km) MAX_U64"
  obtain k v where x: "x = (k, v)" by (cases x)
  have ent: "(k, v) \<in> index_entries E L db ix" using Cons.prems(1) unfolding down_def x by simp
  then obtain s n where k: "k = makeKey_StringUint64 E s n" by (rule entry_key [OF assms(1,2)])
  have top: "key_le ix k ?top" using Cons.prems(2) by (simp add: x)
  have match: "keyMatch E ?km k \<longleftrightarrow> s = lead ?km" using assms(3) ent unfolding tests_lead_def k by (auto simp: parseKey)
  have below: "y \<in> index_entries E L db ix" "pos_le key_le ix y x" if "y \<in> set (x # xs)" for y
    using that Cons.prems(1) pos_le_refl [of ix x] unfolding down_def by auto
  have all: "y \<in> set (x # xs)" if "y \<in> index_entries E L db ix" "pos_le key_le ix y x" for y
    using that Cons.prems(1) unfolding down_def by auto
  consider (full) "limit = 0" | (other) "limit \<noteq> 0" "s \<noteq> lead ?km"
    | (early) "limit \<noteq> 0" "s = lead ?km" "nf_since f \<noteq> 0" "n < nf_since f"
    | (late) "limit \<noteq> 0" "s = lead ?km" "\<not> (nf_since f \<noteq> 0 \<and> n < nf_since f)" "nf_until f \<noteq> 0" "n > nf_until f"
    | (take) "limit \<noteq> 0" "s = lead ?km" "\<not> (nf_since f \<noteq> 0 \<and> n < nf_since f)" "\<not> (nf_until f \<noteq> 0 \<and> n > nf_until f)" by blast
  then show ?case
  proof cases
    case full
    with Cons.prems(3) x have r: "fin = False" "c' = c\<lparr>sc_resumeKey := k, sc_resumeVal := v\<rparr>" "limit' = limit" "added' = added" "out' = out"
      by auto
    have "k \<noteq> []" unfolding k makeKey by (metis append_is_Nil_conv length_to_sv list.size(3) zero_neq_numeral)
    then have "upcoming db f ix c' = List.filter ?ok (x # xs)"
      using down_resume [OF assms(1,2) Cons.prems(1) [unfolded x]] by (simp add: upcoming_def r(2) sc_active_def x)
    then show ?thesis using top by (intro exI [of _ "[]"]) (simp add: r cursor_ok_def)
  next
    case other
    with Cons.prems(3) x match have r: "fin = False" "c' = c\<lparr>sc_resumeKey := []\<rparr>" "limit' = limit" "added' = added" "out' = out"
      by auto
    have "\<not> ?ok y" if mem: "y \<in> set (x # xs)" for y
    proof
      assume "?ok y"
      then obtain m w where "y = (makeKey_StringUint64 E (lead ?km) m, w)"
        using wanted_entry [OF assms(1-3) below(1) [OF mem]] by blast
      then show False using lead_block [OF assms(2) other(2) top [unfolded k], of m] below(2) [OF mem]
        by (simp add: pos_le_def x k)
    qed
    then have "List.filter ?ok (x # xs) = []" unfolding filter_empty_conv by blast
    then show ?thesis by (intro exI [of _ "[]"]) (simp add: r cursor_ok_def upcoming_def sc_active_def)
  next
    case early
    with Cons.prems(3) x match have r: "fin = False" "c' = c\<lparr>sc_resumeKey := makeKey_StringUint64 E s 0, sc_resumeVal := 0\<rparr>"
        "limit' = limit" "added' = added" "out' = out"
      by (auto simp: k parseKey)
    have "\<not> ?ok y" if y: "y \<in> index_entries E L db ix" "key_le ix (fst y) k" for y
    proof
      assume "?ok y"
      then obtain m w where "y = (makeKey_StringUint64 E s m, w)" "\<not> m < nf_since f"
        using wanted_entry [OF assms(1-3) y(1)] early(2,3) by metis
      then show False using y(2) early(4) by (simp add: k key_le_time [OF assms(2)])
    qed
    note none = this
    have "List.filter ?ok (x # xs) = []" unfolding filter_empty_conv using none below by (auto simp: pos_le_def x)
    moreover have "List.filter ?ok (foreachFull E db ix (makeKey_StringUint64 E s 0) 0 True) = []"
      unfolding filter_empty_conv using none key_le_trans [of ix _ "makeKey_StringUint64 E s 0" k]
      by (auto simp: scan_set_rev pos_le_def k key_le_time [OF assms(2)])
    ultimately show ?thesis
      by (intro exI [of _ "[]"]) (simp add: r cursor_ok_def upcoming_def key_le_time [OF assms(2)] early(2))
  next
    case late
    with Cons.prems(3) x match have r: "fin = False"
        "c' = c\<lparr>sc_resumeKey := makeKey_StringUint64 E s (nf_until f), sc_resumeVal := MAX_U64\<rparr>"
        "limit' = limit" "added' = added" "out' = out"
      by (auto simp: k parseKey)
    let ?p = "(makeKey_StringUint64 E s (nf_until f), MAX_U64)"
    have "y \<in> set (x # xs) \<longleftrightarrow> y \<in> index_entries E L db ix \<and> pos_le key_le ix y ?p" if ok: "?ok y" for y
    proof (cases "y \<in> index_entries E L db ix")
      case True
      then obtain m w where y: "y = (makeKey_StringUint64 E s m, w)" "\<not> m > nf_until f"
        using wanted_entry [OF assms(1-3) True ok] late(2,4) by metis
      then have "pos_le key_le ix y ?p" "pos_le key_le ix y x"
        using late(5) by (auto simp: pos_le_def x k key_le_time [OF assms(2)])
      then show ?thesis using True all by blast
    next
      case False
      then show ?thesis using below(1) by blast
    qed
    then have "set (List.filter ?ok (x # xs)) = set (List.filter ?ok (foreachFull E db ix (fst ?p) (snd ?p) True))"
      unfolding set_filter scan_set_rev fst_conv snd_conv by blast
    then have "List.filter ?ok (x # xs) = List.filter ?ok (foreachFull E db ix (fst ?p) (snd ?p) True)"
      by (rule down_unique [OF assms(1,2) Cons.prems(1) down_scan])
    moreover have "sc_active c'" unfolding r sc_active_def makeKey using length_to_sv by simp
    ultimately show ?thesis
      by (intro exI [of _ "[]"]) (simp add: r cursor_ok_def upcoming_def key_le_time [OF assms(2)] late(2))
  next
    case take
    with Cons.prems(3) match have run: "collect_entries E f scanIndex xs (c, limit - 1, added + 1,
        out @ [entry_candidate scanIndex x]) = (fin, c', limit', added', out')"
      by (auto simp: k x parseKey entry_candidate_def)
    have "?ok x" using take match by (simp add: entry_ok_def x k parseKey)
    moreover have "unat (limit - 1) = unat limit - 1" "unat limit \<noteq> 0" using take(1) by (simp_all add: unat_minus_one unat_eq_zero)
    moreover note Cons.IH [OF down_tail [OF assms(1,2) Cons.prems(1)] _ run]
    ultimately show ?thesis using Cons.prems(2) by (force intro: exI [of _ "x # _"])
  qed
qed

lemma collect_loop_exact:
  assumes "holds E L tree_items fs db M" "ix \<in> scan_indexes" "tests_lead db ix (sc_keyMatch c)" "cursor_ok ix c"
    and "collect_loop n E db f ix scanIndex (c, limit, added, out) = Some (c', limit', added', out')"
  shows "\<exists>ys. upcoming db f ix c = ys @ upcoming db f ix c' \<and> out' = out @ map (entry_candidate scanIndex) ys \<and>
    added' = added + of_nat (length ys) \<and> unat limit' + length ys = unat limit \<and> (limit' = 0 \<or> upcoming db f ix c' = []) \<and>
    cursor_ok ix c' \<and> sc_keyMatch c' = sc_keyMatch c \<and> sc_outstanding c' = sc_outstanding c"
  using assms(3-5)
proof (induction n arbitrary: c limit added out)
  case (Suc n)
  show ?case
  proof (cases "sc_active c \<and> limit > 0")
    case False
    then have "c' = c" "limit' = limit" "added' = added" "out' = out" using Suc.prems(3) by (auto split: if_splits)
    then show ?thesis using False Suc.prems(2) by (auto simp: upcoming_def word_gt_0)
  next
    case True
    let ?xs = "foreachFull E db ix (sc_resumeKey c) (sc_resumeVal c) True"
    obtain fin c1 limit1 added1 out1 where pass:
      "collect_entries E f scanIndex ?xs (c, limit, added, out) = (fin, c1, limit1, added1, out1)" by (metis prod_cases5)
    let ?c2 = "if fin then c1\<lparr>sc_resumeKey := []\<rparr> else c1"
    have go: "collect_loop n E db f ix scanIndex (?c2, limit1, added1, out1) = Some (c', limit', added', out')"
      using Suc.prems(3) True by (simp add: pass)
    have "\<forall>x\<in>set ?xs. key_le ix (fst x) (makeKey_StringUint64 E (lead (sc_keyMatch c)) MAX_U64)"
      using Suc.prems(2) True key_le_trans by (fastforce simp: scan_set_rev pos_le_def cursor_ok_def)
    from collect_entries_exact [OF assms(1,2) Suc.prems(1) down_scan this pass] obtain ys where ys:
      "List.filter (entry_ok f (sc_keyMatch c)) ?xs = ys @ (if fin then [] else upcoming db f ix c1)"
      "out1 = out @ map (entry_candidate scanIndex) ys" "added1 = added + of_nat (length ys)"
      "unat limit1 + length ys = unat limit" "cursor_ok ix ?c2" "sc_keyMatch c1 = sc_keyMatch c" "sc_outstanding c1 = sc_outstanding c"
      by blast
    have up: "upcoming db f ix c = ys @ upcoming db f ix ?c2"
      using True ys(1) by (simp add: upcoming_def sc_active_def)
    have km: "sc_keyMatch ?c2 = sc_keyMatch c" "sc_outstanding ?c2 = sc_outstanding c" using ys(6,7) by simp_all
    from Suc.IH [OF _ ys(5) go] Suc.prems(1) km(1) obtain zs where zs:
      "upcoming db f ix ?c2 = zs @ upcoming db f ix c'" "out' = out1 @ map (entry_candidate scanIndex) zs"
      "added' = added1 + of_nat (length zs)" "unat limit' + length zs = unat limit1" "limit' = 0 \<or> upcoming db f ix c' = []"
      "cursor_ok ix c'" "sc_keyMatch c' = sc_keyMatch ?c2" "sc_outstanding c' = sc_outstanding ?c2" by auto
    show ?thesis
      by (rule exI [of _ "ys @ zs"]) (use up ys(2-4) zs km in simp)
  qed
qed simp

lemma collect_exact:
  assumes "holds E L tree_items fs db M" "ix \<in> scan_indexes" "tests_lead db ix (sc_keyMatch c)" "cursor_ok ix c"
    and "collect n E db f ix scanIndex limit c out = Some (added, c', out')"
  obtains ys where "upcoming db f ix c = ys @ upcoming db f ix c'" "out' = out @ map (entry_candidate scanIndex) ys"
    "added = of_nat (length ys)" "length ys \<le> unat limit" "limit = 0 \<or> ys \<noteq> [] \<or> upcoming db f ix c' = []"
    "cursor_ok ix c'" "sc_keyMatch c' = sc_keyMatch c" "sc_outstanding c' = sc_outstanding c + of_nat (length ys)"
proof -
  obtain c1 limit1 where run: "collect_loop n E db f ix scanIndex (c, limit, 0, out) = Some (c1, limit1, added, out')"
    and c': "c' = c1\<lparr>sc_outstanding := sc_outstanding c1 + added\<rparr>"
    using assms(5) by (auto simp: collect_def split: option.splits)
  have up: "upcoming db f ix c' = upcoming db f ix c1" "cursor_ok ix c' = cursor_ok ix c1"
    by (simp_all add: c' upcoming_def cursor_ok_def sc_active_def)
  from collect_loop_exact [OF assms(1-4) run] obtain ys where ys: "upcoming db f ix c = ys @ upcoming db f ix c1"
    "out' = out @ map (entry_candidate scanIndex) ys" "added = 0 + of_nat (length ys)" "unat limit1 + length ys = unat limit"
    "limit1 = 0 \<or> upcoming db f ix c1 = []" "cursor_ok ix c1" "sc_keyMatch c1 = sc_keyMatch c" "sc_outstanding c1 = sc_outstanding c"
    by blast
  show thesis
    by (rule that [of ys]) (use ys up in \<open>auto simp: c' unat_eq_zero\<close>)
qed

text \<open>The entries of a cursor come in descending order.\<close>

lemma entry_rank:
  assumes "holds E L tree_items fs db M" "small_times M" "ix \<in> scan_indexes" "x \<in> index_entries E L db ix"
  shows "rank (entry_candidate i x) = (snd (parseKey_StringUint64 E (fst x)), snd x)"
    and "i < 2 ^ 24 \<Longrightarrow> ce_scanIndex (entry_candidate i x) = i"
proof -
  obtain k l where x: "x = (k, l)" by (cases x)
  obtain e where e: "M l = Some e" "k \<in> set (event_keys E L e ix)" using assms(4) entries_event [OF assms(1)] unfolding x by blast
  then obtain s where k: "k = makeKey_StringUint64 E s (ev_created_at e)" using event_keys_time [OF e(2) assms(3)] by blast
  have small: "ev_created_at e < 2 ^ 40" using assms(2) e(1) by (simp add: small_times_def)
  show "rank (entry_candidate i x) = (snd (parseKey_StringUint64 E (fst x)), snd x)"
    using ce_created_CandidateEvent [OF small] by (simp add: rank_def x k parseKey entry_candidate_def ce_levId_def CandidateEvent_def)
  show "i < 2 ^ 24 \<Longrightarrow> ce_scanIndex (entry_candidate i x) = i"
    using ce_scanIndex_CandidateEvent [OF small] by (simp add: x k parseKey entry_candidate_def)
qed

lemma upcoming_entry: "x \<in> set (upcoming db f ix c) \<Longrightarrow> x \<in> index_entries E L db ix \<and> entry_ok f (sc_keyMatch c) x"
  by (auto simp: upcoming_def scan_set_rev split: if_splits)

lemma upcoming_sorted:
  assumes "holds E L tree_items fs db M" "small_times M" "ix \<in> scan_indexes" "tests_lead db ix (sc_keyMatch c)"
  shows "sorted_wrt (\<lambda>x y. rank (entry_candidate i y) \<le> rank (entry_candidate i x)) (upcoming db f ix c)"
proof -
  have "sorted_wrt (\<lambda>x y. pos_le key_le ix y x) (upcoming db f ix c)"
    using scan_sorted_rev by (auto simp: upcoming_def intro: sorted_wrt_filter)
  then show ?thesis
  proof (rule sorted_wrt_mono_rel [rotated])
    fix x y assume xy: "x \<in> set (upcoming db f ix c)" "y \<in> set (upcoming db f ix c)" "pos_le key_le ix y x"
    note x = upcoming_entry [OF xy(1)] and y = upcoming_entry [OF xy(2)]
    obtain m w where x': "x = (makeKey_StringUint64 E (lead (sc_keyMatch c)) m, w)"
      using wanted_entry [OF assms(1,3,4)] x by metis
    obtain m' w' where y': "y = (makeKey_StringUint64 E (lead (sc_keyMatch c)) m', w')"
      using wanted_entry [OF assms(1,3,4)] y by metis
    show "rank (entry_candidate i y) \<le> rank (entry_candidate i x)"
      using xy(3) unfolding entry_rank(1) [OF assms(1-3) conjunct1 [OF x]] entry_rank(1) [OF assms(1-3) conjunct1 [OF y]]
      by (auto simp: pos_le_def x' y' parseKey key_le_time [OF assms(3)] less_eq_prod_simp)
  qed
qed

section \<open>The state of a scan\<close>

text \<open>
  A cursor that was started is never exhausted unnoticed: as long as it has entries left, one
  of its candidates is in the queue, and those in the queue come before those that are left.
\<close>

definition cursor_inv :: "'db \<Rightarrow> db_index \<Rightarrow> candidate multiset \<Rightarrow> nat \<Rightarrow> scan_cursor \<Rightarrow> bool" where
  "cursor_inv db ix Q i c \<longleftrightarrow> tests_lead db ix (sc_keyMatch c) \<and> cursor_ok ix c \<and> owned i Q < 2 ^ 64 \<and>
     sc_outstanding c = of_nat (owned i Q)"

definition served :: "'db \<Rightarrow> nostr_filter \<Rightarrow> db_index \<Rightarrow> candidate multiset \<Rightarrow> nat \<Rightarrow> scan_cursor \<Rightarrow> bool" where
  "served db f ix Q i c \<longleftrightarrow> (owned i Q = 0 \<longrightarrow> upcoming db f ix c = []) \<and>
     (\<forall>ev\<in>#Q. unat (ce_scanIndex ev) = i \<longrightarrow> (\<forall>x\<in>set (upcoming db f ix c). rank (entry_candidate (of_nat i) x) \<le> rank ev))"

definition scan_ok :: "'db \<Rightarrow> nostr_filter \<Rightarrow> db_index \<Rightarrow> key_match set \<Rightarrow> bool \<Rightarrow> dbscan \<Rightarrow> bool" where
  "scan_ok db f ix kms io S \<longleftrightarrow> scan_inv db f ix kms io S \<and> length (ds_cursors S) \<le> 2 ^ 24 \<and>
     ds_nextInitIndex S \<le> length (ds_cursors S) \<and> ds_initialScanDepth S \<noteq> 0 \<and> ds_refillScanDepth S \<noteq> 0 \<and>
     (\<forall>i<length (ds_cursors S). cursor_inv db ix (mset (ds_eventQueue S)) i (ds_cursors S ! i)) \<and>
     (\<forall>ev\<in>set (ds_eventQueue S). unat (ce_scanIndex ev) < ds_nextInitIndex S) \<and>
     (\<forall>i<ds_nextInitIndex S. served db f ix (mset (ds_eventQueue S)) i (ds_cursors S ! i)) \<and>
     (ds_nextInitIndex S = length (ds_cursors S) \<longrightarrow> descending (ds_eventQueue S))"

text \<open>What is still to be handed over, in the order in which it will be: times and levIds.\<close>

definition left_over :: "'db \<Rightarrow> nostr_filter \<Rightarrow> db_index \<Rightarrow> scan_cursor list \<Rightarrow> candidate multiset" where
  "left_over db f ix cs = (\<Sum>i<length cs. mset (map (entry_candidate (of_nat i)) (upcoming db f ix (cs ! i))))"

definition todo :: "'db \<Rightarrow> nostr_filter \<Rightarrow> dbscan \<Rightarrow> (u64 \<times> u64) list" where
  "todo db f S = rev (sorted_list_of_multiset
     (image_mset rank (mset (ds_eventQueue S) + left_over db f (ds_indexDbi S) (ds_cursors S))))"

lemma left_over_update:
  assumes "j < length cs" "upcoming db f ix (cs ! j) = ys @ upcoming db f ix c"
  shows "left_over db f ix cs = mset (map (entry_candidate (of_nat j)) ys) + left_over db f ix (cs[j := c])"
proof -
  let ?g = "\<lambda>cs i. mset (map (entry_candidate (of_nat i)) (upcoming db f ix (cs ! i)))"
  have "sum (?g cs) ({..<length cs} - {j}) = sum (?g (cs[j := c])) ({..<length cs} - {j})"
    by (rule sum.cong) auto
  moreover have "?g cs j = mset (map (entry_candidate (of_nat j)) ys) + ?g (cs[j := c]) j" using assms by simp
  moreover have "sum g {..<length cs} = g j + sum g ({..<length cs} - {j})" for g :: "nat \<Rightarrow> candidate multiset"
    using assms(1) by (intro sum.remove) auto
  ultimately show ?thesis by (simp add: left_over_def)
qed

lemma left_over_mem: "ev \<in># left_over db f ix cs \<longleftrightarrow> (\<exists>i<length cs. \<exists>x\<in>set (upcoming db f ix (cs ! i)). ev = entry_candidate (of_nat i) x)"
  by (auto simp: left_over_def set_mset_sum)

lemma cursor_frame:
  assumes "\<forall>ev\<in>#R. unat (ce_scanIndex ev) \<noteq> j"
  shows "cursor_inv db ix (Q + R) j c = cursor_inv db ix Q j c" "served db f ix (Q + R) j c = served db f ix Q j c"
proof -
  have "owned j R = 0" using assms by (simp add: owned_0)
  then show "cursor_inv db ix (Q + R) j c = cursor_inv db ix Q j c" "served db f ix (Q + R) j c = served db f ix Q j c"
    using assms by (auto simp: cursor_inv_def served_def)
qed

lemma refill:
  assumes "holds E L tree_items fs db M" "small_times M" "ix \<in> scan_indexes" "i < 2 ^ 24"
    and "tests_lead db ix (sc_keyMatch c)" "cursor_ok ix c" "sc_outstanding c = 0" "owned i Q = 0" "limit \<noteq> 0"
    and "collect n E db f ix (of_nat i) limit c out = Some (added, c', out')"
  obtains ys N where "N = map (entry_candidate (of_nat i)) ys" "out' = out @ N" "descending N" "\<forall>ev\<in>set N. unat (ce_scanIndex ev) = i"
    "upcoming db f ix c = ys @ upcoming db f ix c'" "cursor_inv db ix (Q + mset N) i c'" "served db f ix (Q + mset N) i c'"
proof -
  obtain ys where ys: "upcoming db f ix c = ys @ upcoming db f ix c'" "out' = out @ map (entry_candidate (of_nat i)) ys"
    "length ys \<le> unat limit" "limit = 0 \<or> ys \<noteq> [] \<or> upcoming db f ix c' = []"
    "cursor_ok ix c'" "sc_keyMatch c' = sc_keyMatch c" "sc_outstanding c' = sc_outstanding c + of_nat (length ys)"
    by (rule collect_exact [OF assms(1,3,5,6,10)])
  let ?N = "map (entry_candidate (of_nat i)) ys"
  have small: "(of_nat i :: u64) < 2 ^ 24" "unat (of_nat i :: u64) = i"
    using assms(4) by (simp_all add: word_less_nat_alt unat_of_nat take_bit_nat_eq_self_iff)
  have ent: "x \<in> index_entries E L db ix" if "x \<in> set ys" for x using that upcoming_entry [of x db f ix c] ys(1) by auto
  have idx: "\<forall>ev\<in>set ?N. unat (ce_scanIndex ev) = i" using entry_rank(2) [OF assms(1-3) ent small(1)] small(2) by auto
  then have "filter_mset (\<lambda>ev. unat (ce_scanIndex ev) = i) (mset ?N) = mset ?N" by (auto simp: filter_mset_eq_conv)
  then have own: "owned i (mset ?N) = length ys" by (simp add: owned_def)
  have srt: "sorted_wrt (\<lambda>x y. rank (entry_candidate (of_nat i) y) \<le> rank (entry_candidate (of_nat i) x)) (ys @ upcoming db f ix c')"
    using upcoming_sorted [OF assms(1-3,5), of "of_nat i" f] unfolding ys(1) .
  have "cursor_inv db ix (Q + mset ?N) i c'"
  proof -
    have "unat limit < 2 ^ 64" using unsigned_less [of limit, where 'a = nat] by simp
    then show ?thesis using ys(3,5-7) assms(5,7,8) own by (simp add: cursor_inv_def)
  qed
  moreover have "served db f ix (Q + mset ?N) i c'"
    using srt ys(4) assms(8,9) own by (auto simp: served_def owned_0 sorted_wrt_append)
  moreover have "descending ?N" using srt by (simp add: sorted_wrt_append sorted_wrt_map)
  ultimately show thesis using that [of ?N ys] ys(1,2) idx by blast
qed

lemma candidate_matches_exact:
  assumes "holds E L tree_items fs db M" "small_times M" "ix \<in> scan_indexes" "query_filter f"
    and "planned f ix kms io" "from_index db f ix kms ev"
  shows "candidate_matches E L db f io ev = Inr (matching M f (ce_levId ev))"
proof -
  obtain e where e: "M (ce_levId ev) = Some e" "wf_event e" "ce_created ev = ev_created_at e"
    by (rule from_index_event [OF assms(1-3,6)])
  have "\<exists>b. candidate_matches E L db f io ev = Inr b \<and> (nf_matches f e \<longrightarrow> b)"
  proof (cases io)
    case True
    then show ?thesis using e by (auto simp: candidate_matches_def nf_matches_fields)
  next
    case False
    have "lookup_Event E db (ce_levId ev) = Some (pack_event L e)" using assms(1) e(1) by (simp add: holds_def)
    with False e(2) show ?thesis by (simp add: candidate_matches_def NostrFilter_doesMatch_event)
  qed
  then obtain b where b: "candidate_matches E L db f io ev = Inr b" "nf_matches f e \<Longrightarrow> b" by blast
  moreover have "nf_matches f e" if "b"
    using candidate_matches_sound [OF assms] b(1) that e(1) by simp
  ultimately show ?thesis using e(1) by (auto simp: matching_def)
qed

section \<open>A scan is the merge of its cursors\<close>

text \<open>The parts of the invariant, for a scan whose cursors have all been started.\<close>

lemma scan_okD:
  assumes "scan_ok db f ix kms io S"
  shows "scan_inv db f ix kms io S" "ds_indexDbi S = ix" "ds_indexOnly S = io" "length (ds_cursors S) \<le> 2 ^ 24"
    "ds_nextInitIndex S \<le> length (ds_cursors S)" "ds_initialScanDepth S \<noteq> 0" "ds_refillScanDepth S \<noteq> 0"
    "i < length (ds_cursors S) \<Longrightarrow> cursor_inv db ix (mset (ds_eventQueue S)) i (ds_cursors S ! i)"
    "ev \<in> set (ds_eventQueue S) \<Longrightarrow> unat (ce_scanIndex ev) < ds_nextInitIndex S"
    "ev \<in> set (ds_eventQueue S) \<Longrightarrow> from_index db f ix kms ev"
    "i < ds_nextInitIndex S \<Longrightarrow> served db f ix (mset (ds_eventQueue S)) i (ds_cursors S ! i)"
    "ds_nextInitIndex S = length (ds_cursors S) \<Longrightarrow> descending (ds_eventQueue S)"
  using assms by (simp_all add: scan_ok_def scan_inv_def)

lemma scan_work [simp]:
  "scan_ok db f ix kms io (S\<lparr>ds_approxWork := w\<rparr>) = scan_ok db f ix kms io S" "todo db f (S\<lparr>ds_approxWork := w\<rparr>) = todo db f S"
  by (simp_all add: scan_ok_def scan_inv_def todo_def)

text \<open>The head of the queue comes before everything else.\<close>

lemma head_first:
  assumes "scan_ok db f ix kms io S" "ds_nextInitIndex S = length (ds_cursors S)" "ds_eventQueue S = ev # queue"
    and "y \<in># mset queue + left_over db f ix (ds_cursors S)"
  shows "rank y \<le> rank ev"
proof (cases "y \<in> set queue")
  case True
  then show ?thesis using scan_okD(12) [OF assms(1,2)] assms(3) by simp
next
  case False
  then obtain i x where ix: "i < length (ds_cursors S)" "x \<in> set (upcoming db f ix (ds_cursors S ! i))" "y = entry_candidate (of_nat i) x"
    using assms(4) by (auto simp: left_over_mem)
  have srv: "served db f ix (mset (ds_eventQueue S)) i (ds_cursors S ! i)" using scan_okD(11) [OF assms(1)] ix(1) assms(2) by simp
  then have "owned i (mset (ds_eventQueue S)) \<noteq> 0" using ix(2) by (auto simp: served_def)
  then obtain ev' where ev': "ev' \<in> set (ds_eventQueue S)" "unat (ce_scanIndex ev') = i" by (auto simp: owned_0)
  then have "rank y \<le> rank ev'" using srv ix(2,3) by (simp add: served_def)
  also have "rank ev' \<le> rank ev" using scan_okD(12) [OF assms(1,2)] assms(3) ev'(1) by auto
  finally show ?thesis .
qed

lemma todo_pop:
  assumes "scan_ok db f ix kms io S" "ds_nextInitIndex S = length (ds_cursors S)" "ds_eventQueue S = ev # queue"
    and "ds_indexDbi S' = ix" "mset queue + left_over db f ix (ds_cursors S) = mset (ds_eventQueue S') + left_over db f ix (ds_cursors S')"
  shows "todo db f S = rank ev # todo db f S'"
proof -
  let ?A = "image_mset rank (mset queue + left_over db f ix (ds_cursors S))"
  have "y \<le> rank ev" if "y \<in># ?A" for y
    using that head_first [OF assms(1-3)] unfolding in_image_mset by blast
  from sorted_list_top [of ?A, OF this] show ?thesis
    unfolding todo_def scan_okD(2) [OF assms(1)] assms(3,4) mset.simps assms(5) [symmetric] by simp
qed

lemma todo_empty:
  assumes "scan_ok db f ix kms io S" "ds_nextInitIndex S = length (ds_cursors S)" "ds_eventQueue S = []"
  shows "todo db f S = []"
proof -
  have "upcoming db f ix (ds_cursors S ! i) = []" if "i < length (ds_cursors S)" for i
    using scan_okD(11) [OF assms(1), of i] that assms(2,3) by (simp add: served_def owned_def)
  then have "left_over db f ix (ds_cursors S) = {#}" by (simp add: left_over_def)
  then show ?thesis by (simp add: todo_def scan_okD(2) [OF assms(1)] assms(3))
qed

lemma scan_ok_pop:
  assumes "scan_ok db f ix kms io S" "ds_nextInitIndex S = length (ds_cursors S)" "ds_eventQueue S = ev # queue" "i = unat (ce_scanIndex ev)"
    and "scan_inv db f ix kms io S'" "ds_cursors S' = (ds_cursors S)[i := c]" "ds_nextInitIndex S' = ds_nextInitIndex S"
    and "ds_initialScanDepth S' = ds_initialScanDepth S" "ds_refillScanDepth S' = ds_refillScanDepth S"
    and "mset (ds_eventQueue S') = mset queue + mset N" "\<forall>x\<in>set N. unat (ce_scanIndex x) = i" "descending (ds_eventQueue S')"
    and "cursor_inv db ix (mset queue + mset N) i c" "served db f ix (mset queue + mset N) i c"
  shows "scan_ok db f ix kms io S'"
proof -
  note ok = scan_okD [OF assms(1)]
  have i: "i < length (ds_cursors S)" using ok(9) [of ev] assms(2-4) by simp
  have "cursor_inv db ix (mset (ds_eventQueue S')) j (ds_cursors S' ! j) \<and> served db f ix (mset (ds_eventQueue S')) j (ds_cursors S' ! j)"
    if "j < length (ds_cursors S)" for j
  proof (cases "j = i")
    case True
    then show ?thesis using assms(6,10,13,14) i by simp
  next
    case False
    have "cursor_inv db ix (mset queue + {#ev#}) j (ds_cursors S ! j)" "served db f ix (mset queue + {#ev#}) j (ds_cursors S ! j)"
      using ok(8) [OF that] ok(11) [of j] that assms(2,3) by simp_all
    moreover have "\<forall>x\<in>#{#ev#}. unat (ce_scanIndex x) \<noteq> j" "\<forall>x\<in>#mset N. unat (ce_scanIndex x) \<noteq> j"
      using assms(4,11) False by auto
    ultimately show ?thesis unfolding assms(6,10) using False by (simp only: cursor_frame nth_list_update_neq simp_thms)
  qed
  moreover have "unat (ce_scanIndex x) < length (ds_cursors S)" if "x \<in> set (ds_eventQueue S')" for x
  proof -
    have "x \<in> set queue \<or> x \<in> set N" using that assms(10) by (metis in_multiset_in_set union_iff)
    then show ?thesis using ok(9) [of x] assms(2,3,11) i by auto
  qed
  moreover have "length (ds_cursors S') = length (ds_cursors S)" by (simp add: assms(6))
  ultimately show ?thesis
    unfolding scan_ok_def using ok(4-7,9) i assms(2,3,5,7-9,11,12) by auto
qed

lemma owned_head:
  assumes "scan_ok db f ix kms io S" "ds_eventQueue S = ev # queue" "i = unat (ce_scanIndex ev)" "i < length (ds_cursors S)"
  shows "owned i (mset queue) < 2 ^ 64" "sc_outstanding (ds_cursors S ! i) - 1 = of_nat (owned i (mset queue))"
    "sc_outstanding (ds_cursors S ! i) - 1 = 0 \<longleftrightarrow> owned i (mset queue) = 0"
proof -
  have "owned i (mset (ds_eventQueue S)) = Suc (owned i (mset queue))" by (simp add: owned_def assms(2,3))
  then have *: "Suc (owned i (mset queue)) < 2 ^ 64" "sc_outstanding (ds_cursors S ! i) = of_nat (Suc (owned i (mset queue)))"
    using scan_okD(8) [OF assms(1,4)] unfolding cursor_inv_def by simp_all
  then show "owned i (mset queue) < 2 ^ 64" "sc_outstanding (ds_cursors S ! i) - 1 = of_nat (owned i (mset queue))" by simp_all
  then show "sc_outstanding (ds_cursors S ! i) - 1 = 0 \<longleftrightarrow> owned i (mset queue) = 0"
    by (simp add: of_nat_eq_0_iff word_of_nat_eq_0_iff dvd_def) (metis dvd_imp_le dvd_triv_left mult_is_0 not_le neq0_conv)
qed

lemma scan_ok_start:
  assumes "holds E L tree_items fs db M" "small_times M" "ix \<in> scan_indexes" "scan_ok db f ix kms io S"
    and "i = ds_nextInitIndex S" "i < length (ds_cursors S)"
    and "collect n E db f ix (of_nat i) (ds_initialScanDepth S) (ds_cursors S ! i) (ds_eventQueue S) = Some (added, c, queue)"
    and "scan_inv db f ix kms io S'" "ds_cursors S' = (ds_cursors S)[i := c]" "ds_nextInitIndex S' = Suc i"
    and "ds_initialScanDepth S' = ds_initialScanDepth S" "ds_refillScanDepth S' = ds_refillScanDepth S"
    and "ds_eventQueue S' = (if Suc i = length (ds_cursors S) then sort_cands queue else queue)"
  shows "scan_ok db f ix kms io S' \<and> todo db f S' = todo db f S"
proof -
  note ok = scan_okD [OF assms(4)]
  let ?Q = "mset (ds_eventQueue S)" and ?c = "ds_cursors S ! i"
  have none: "owned i ?Q = 0" using ok(9) assms(5) by (fastforce simp: owned_0)
  have c: "tests_lead db ix (sc_keyMatch ?c)" "cursor_ok ix ?c" "sc_outstanding ?c = 0"
    using ok(8) [OF assms(6)] none by (simp_all add: cursor_inv_def)
  have small: "i < 2 ^ 24" using ok(4) assms(6) by simp
  obtain ys N where N: "N = map (entry_candidate (of_nat i)) ys" "queue = ds_eventQueue S @ N" "\<forall>ev\<in>set N. unat (ce_scanIndex ev) = i"
    "upcoming db f ix ?c = ys @ upcoming db f ix c" "cursor_inv db ix (?Q + mset N) i c" "served db f ix (?Q + mset N) i c"
    by (rule refill [OF assms(1-3) small c none ok(6) assms(7)])
  have Q': "mset (ds_eventQueue S') = ?Q + mset N" "set (ds_eventQueue S') = set (ds_eventQueue S) \<union> set N"
    by (simp_all add: assms(13) N(2))
  have "cursor_inv db ix (mset (ds_eventQueue S')) j (ds_cursors S' ! j) \<and> (j < Suc i \<longrightarrow> served db f ix (mset (ds_eventQueue S')) j (ds_cursors S' ! j))"
    if "j < length (ds_cursors S)" for j
  proof (cases "j = i")
    case True
    then show ?thesis using N(5,6) assms(6,9) unfolding Q' by simp
  next
    case False
    then have "\<forall>x\<in>#mset N. unat (ce_scanIndex x) \<noteq> j" using N(3) by auto
    then show ?thesis unfolding Q' assms(9) using ok(8) [OF that] ok(11) [of j] False assms(5)
      by (simp add: cursor_frame less_Suc_eq)
  qed
  moreover have "unat (ce_scanIndex x) < Suc i" if "x \<in> set (ds_eventQueue S')" for x
    using that N(3) ok(9) [of x] assms(5) unfolding Q' by auto
  moreover have "length (ds_cursors S') = length (ds_cursors S)" by (simp add: assms(9))
  moreover have "descending (ds_eventQueue S')" if "Suc i = length (ds_cursors S)" using that descending_sort by (simp add: assms(13))
  ultimately have "scan_ok db f ix kms io S'"
    unfolding scan_ok_def using ok(4,6,7) assms(6,8,10-12) by simp
  moreover have "todo db f S' = todo db f S"
    unfolding todo_def Q' assms(9) ok(2) scan_okD(2) [OF \<open>scan_ok db f ix kms io S'\<close>] left_over_update [OF assms(6) N(4)] N(1)
    by (simp add: ac_simps)
  ultimately show ?thesis ..
qed

text \<open>
  A round against the list of what is left: \<open>\<alpha>\<close> is what of the state of the callbacks matters,
  \<open>H\<close> what \<^verbatim>\<open>handleEvent\<close> does to it; a test for a pause changes nothing of it.
\<close>

lemma scan_round_exact:
  assumes "holds E L tree_items fs db M" "small_times M" "ix \<in> scan_indexes" "query_filter f" "planned f ix kms io"
    and "scan_ok db f ix kms io S"
    and H: "\<And>l s. H l (\<alpha> s) = (case handleEvent l s of Inl e \<Rightarrow> Inl e | Inr (b, s') \<Rightarrow> Inr (b, \<alpha> s'))"
    and pause: "\<And>w s. \<alpha> (snd (doPause w s)) = \<alpha> s"
    and run: "scan_round n E L db f handleEvent doPause (S, s) = Some r"
  shows "case r of Inl e \<Rightarrow> feed (matching M f) H (todo db f S) (\<alpha> s) = Inl e
    | Inr (Some True, S', s') \<Rightarrow> feed (matching M f) H (todo db f S) (\<alpha> s) = Inr (\<alpha> s')
    | Inr (_, S', s') \<Rightarrow> scan_ok db f ix kms io S' \<and>
        feed (matching M f) H (todo db f S) (\<alpha> s) = feed (matching M f) H (todo db f S') (\<alpha> s')"
proof -
  note ok = scan_okD [OF assms(6)]
  let ?S1 = "S\<lparr>ds_approxWork := ds_approxWork S + 1\<rparr>"
  obtain p s1 where dop: "doPause (ds_approxWork S + 1) s = (p, s1)" by (cases "doPause (ds_approxWork S + 1) s")
  have \<alpha>: "\<alpha> s1 = \<alpha> s" using pause [of "ds_approxWork S + 1" s] dop by simp
  have inv: "scan_inv db f ix kms io S'" if "r = Inr (b, S', s')" for b S' s'
    using scan_round_sound [OF assms(1-5) ok(1), where P = "\<lambda>_. True", OF _ _ _ run [unfolded that]] by simp
  let ?i = "ds_nextInitIndex S"
  consider (pause) "p" | (init) "\<not> p" "?i < length (ds_cursors S)" | (empty) "\<not> p" "\<not> ?i < length (ds_cursors S)" "ds_eventQueue S = []"
    | (pop) ev queue where "\<not> p" "\<not> ?i < length (ds_cursors S)" "ds_eventQueue S = ev # queue"
    by (cases "ds_eventQueue S") auto
  then show ?thesis
  proof cases
    case pause
    then have "r = Inr (Some False, ?S1, s1)" using run by (simp add: scan_round_def Let_def dop)
    then show ?thesis using assms(6) \<alpha> by simp
  next
    case init
    obtain added c queue where c: "collect n E db f ix (of_nat ?i) (ds_initialScanDepth S) (ds_cursors S ! ?i) (ds_eventQueue S) = Some (added, c, queue)"
      using run init ok(2) by (auto simp: scan_round_def Let_def dop split: option.splits)
    let ?S' = "?S1\<lparr>ds_cursors := (ds_cursors S)[?i := c], ds_approxWork := ds_approxWork ?S1 + added, ds_nextInitIndex := Suc ?i,
      ds_eventQueue := (if Suc ?i = length (ds_cursors S) then sort_cands queue else queue)\<rparr>"
    have r: "r = Inr (None, ?S', s1)" using run init c ok(2) by (simp add: scan_round_def Let_def dop)
    have "scan_ok db f ix kms io ?S' \<and> todo db f ?S' = todo db f S"
      by (rule scan_ok_start [OF assms(1-3,6) refl init(2) c inv [OF r]]) simp_all
    then show ?thesis using r \<alpha> by simp
  next
    case empty
    then have "r = Inr (Some True, ?S1, s1)" using run by (simp add: scan_round_def Let_def dop)
    moreover have "todo db f S = []" using todo_empty [OF assms(6)] empty(2,3) ok(5) by simp
    ultimately show ?thesis using \<alpha> by simp
  next
    case pop
    have all: "?i = length (ds_cursors S)" using pop(2) ok(5) by simp
    let ?j = "unat (ce_scanIndex ev)"
    have j: "?j < length (ds_cursors S)" using ok(9) [of ev] pop(3) all by simp
    have cm: "candidate_matches E L db f (ds_indexOnly S) ev = Inr (matching M f (ce_levId ev))"
      using candidate_matches_exact [OF assms(1-5) ok(10)] pop(3) ok(3) by simp
    let ?m = "if matching M f (ce_levId ev) then handleEvent (ce_levId ev) s1 else Inr (False, s1)"
    let ?S2 = "?S1\<lparr>ds_eventQueue := queue, ds_approxWork := (if ds_indexOnly S then ds_approxWork ?S1 else ds_approxWork ?S1 + 10)\<rparr>"
    have fed: "feed (matching M f) H (rank ev # xs) (\<alpha> s) =
        (case ?m of Inl e \<Rightarrow> Inl e | Inr (stop, s2) \<Rightarrow> if stop then Inr (\<alpha> s2) else feed (matching M f) H xs (\<alpha> s2))" for xs
      using H [of "ce_levId ev" s1] \<alpha> by (auto simp: rank_def split: sum.splits)
    have todo: "todo db f S = rank ev # todo db f S'" if "ds_indexDbi S' = ix"
      "mset queue + left_over db f ix (ds_cursors S) = mset (ds_eventQueue S') + left_over db f ix (ds_cursors S')" for S'
      by (rule todo_pop [OF assms(6) all pop(3) that])
    show ?thesis
    proof (cases ?m)
      case (Inl e)
      then have "r = Inl e" using run pop cm by (simp add: scan_round_def Let_def dop)
      then show ?thesis using todo [of ?S2] fed Inl ok(2) by simp
    next
      case (Inr y)
      obtain stop s2 where y: "y = (stop, s2)" by (cases y)
      show ?thesis
      proof (cases stop)
        case True
        then have "r = Inr (Some True, ?S2, s2)" using run pop cm Inr y by (simp add: scan_round_def Let_def dop)
        then show ?thesis using todo [of ?S2] fed Inr y True ok(2) by simp
      next
        case False
        let ?c1 = "(ds_cursors S ! ?j)\<lparr>sc_outstanding := sc_outstanding (ds_cursors S ! ?j) - 1\<rparr>"
        have c1: "tests_lead db ix (sc_keyMatch ?c1)" "cursor_ok ix ?c1" "upcoming db f ix ?c1 = upcoming db f ix (ds_cursors S ! ?j)"
          using ok(8) [OF j] by (simp_all add: cursor_inv_def cursor_ok_def upcoming_def sc_active_def)
        note own = owned_head [OF assms(6) pop(3) refl j]
        show ?thesis
        proof (cases "sc_outstanding ?c1 = 0")
          case out: False
          let ?S' = "?S2\<lparr>ds_cursors := (ds_cursors S)[?j := ?c1]\<rparr>"
          have r: "r = Inr (None, ?S', s2)" using run pop cm Inr y False out j by (simp add: scan_round_def Let_def dop)
          have ci: "cursor_inv db ix (mset queue + mset []) ?j ?c1" using c1 own(1,2) by (simp add: cursor_inv_def)
          have sv: "served db f ix (mset queue + mset []) ?j ?c1"
            using ok(11) [of ?j] own(3) out j all c1(3) pop(3) by (simp add: served_def)
          have "scan_ok db f ix kms io ?S'"
            by (rule scan_ok_pop [OF assms(6) all pop(3) refl inv [OF r], where N = "[]", OF _ _ _ _ _ _ _ ci sv])
              (use ok(12) [OF all] pop(3) in simp_all)
          moreover have "left_over db f ix (ds_cursors S) = mset [] + left_over db f ix (ds_cursors ?S')"
            using left_over_update [OF j, of db f ix "[]" ?c1] c1(3) by simp
          ultimately show ?thesis using r todo [of ?S'] fed Inr y False ok(2) by simp
        next
          case True
          have none: "owned ?j (mset queue) = 0" using own(3) True by simp
          obtain added c queue' where c: "collect n E db f ix (ce_scanIndex ev) (ds_refillScanDepth S) ?c1 [] = Some (added, c, queue')"
            using run pop cm Inr y False True j ok(2) by (auto simp: scan_round_def Let_def dop split: option.splits)
          then have c': "collect n E db f ix (of_nat ?j) (ds_refillScanDepth S) ?c1 [] = Some (added, c, queue')" by simp
          have small: "?j < 2 ^ 24" using j ok(4) by simp
          obtain ys N where N: "N = map (entry_candidate (of_nat ?j)) ys" "queue' = [] @ N" "descending N" "\<forall>ev\<in>set N. unat (ce_scanIndex ev) = ?j"
            "upcoming db f ix ?c1 = ys @ upcoming db f ix c" "cursor_inv db ix (mset queue + mset N) ?j c" "served db f ix (mset queue + mset N) ?j c"
            by (rule refill [OF assms(1-3) small c1(1,2) True none ok(7) c'])
          let ?S' = "?S2\<lparr>ds_cursors := (ds_cursors S)[?j := c], ds_approxWork := ds_approxWork ?S2 + added, ds_eventQueue := merge_cands queue queue'\<rparr>"
          have r: "r = Inr (None, ?S', s2)" using run pop cm Inr y False True c j ok(2) by (simp add: scan_round_def Let_def dop)
          have "descending (merge_cands queue queue')" using descending_merge ok(12) [OF all] pop(3) N(2,3) by simp
          then have "scan_ok db f ix kms io ?S'"
            by (intro scan_ok_pop [OF assms(6) all pop(3) refl inv [OF r], where N = N, OF _ _ _ _ _ N(4) _ N(6,7)]) (simp_all add: N(2))
          moreover have "left_over db f ix (ds_cursors S) = mset N + left_over db f ix (ds_cursors ?S')"
            using left_over_update [OF j, of db f ix ys c] c1(3) N(1,5) by simp
          ultimately show ?thesis using r todo [of ?S'] fed Inr y False ok(2) N(2) by (simp add: ac_simps)
        qed
      qed
    qed
  qed
qed

text \<open>A scan that runs to its end has fed everything that was left; one that pauses goes on later.\<close>

lemma scan_loop_exact:
  assumes "holds E L tree_items fs db M" "small_times M" "ix \<in> scan_indexes" "query_filter f" "planned f ix kms io"
    and "scan_ok db f ix kms io S"
    and H: "\<And>l s. H l (\<alpha> s) = (case handleEvent l s of Inl e \<Rightarrow> Inl e | Inr (b, s') \<Rightarrow> Inr (b, \<alpha> s'))"
    and pause: "\<And>w s. \<alpha> (snd (doPause w s)) = \<alpha> s"
    and run: "scan_loop m n E L db f handleEvent doPause (S, s) = Some r"
  shows "case r of Inl e \<Rightarrow> feed (matching M f) H (todo db f S) (\<alpha> s) = Inl e
    | Inr (fin, S', s') \<Rightarrow> if fin then feed (matching M f) H (todo db f S) (\<alpha> s) = Inr (\<alpha> s')
        else scan_ok db f ix kms io S' \<and> feed (matching M f) H (todo db f S) (\<alpha> s) = feed (matching M f) H (todo db f S') (\<alpha> s')"
  using assms(6) run
proof (induction m arbitrary: S s)
  case (Suc m)
  obtain x where x: "scan_round n E L db f handleEvent doPause (S, s) = Some x"
    using Suc.prems(2) by (cases "scan_round n E L db f handleEvent doPause (S, s)") auto
  note one = scan_round_exact [where H = H and \<alpha> = \<alpha>, OF assms(1-5) Suc.prems(1) H pause x]
  show ?case
  proof (cases x)
    case (Inl e)
    then show ?thesis using Suc.prems(2) one by (auto simp: x)
  next
    case (Inr y)
    obtain b S1 s1 where y: "y = (b, S1, s1)" by (cases y)
    show ?thesis
    proof (cases b)
      case None
      then have step: "scan_ok db f ix kms io S1" "feed (matching M f) H (todo db f S) (\<alpha> s) = feed (matching M f) H (todo db f S1) (\<alpha> s1)"
        using one Inr y by simp_all
      have "scan_loop m n E L db f handleEvent doPause (S1, s1) = Some r" using Suc.prems(2) Inr y None by (simp add: x)
      from Suc.IH [OF step(1) this] show ?thesis unfolding step(2) .
    next
      case (Some b2)
      then have "r = Inr (b2, S1, s1)" using Suc.prems(2) Inr y by (simp add: x)
      then show ?thesis using one Inr y Some by (cases b2) simp_all
    qed
  qed
qed simp

section \<open>The scan that a filter gets\<close>

lemma tests_lead_event:
  assumes "holds E L tree_items fs db M"
    and "\<And>e k. wf_event e \<Longrightarrow> k \<in> set (event_keys E L e ix) \<Longrightarrow> keyMatch E km k = (fst (parseKey_StringUint64 E k) = lead km)"
  shows "tests_lead db ix km"
  unfolding tests_lead_def entries_event [OF assms(1)] using assms holds_def by fast

lemma tests_leads:
  assumes "holds E L tree_items fs db M"
  shows "length search = 32 \<Longrightarrow> tests_lead db Ix_id (MatchPrefix search)"
    and "length search = 32 \<Longrightarrow> tests_lead db Ix_pubkey (MatchPrefix search)"
    and "length search = 32 \<Longrightarrow> tests_lead db Ix_pubkeyKind (MatchPrefix (search @ to_sv L kind))"
    and "tests_lead db Ix_tag (MatchExact search)" "tests_lead db Ix_kind (MatchKind kind)" "tests_lead db Ix_created_at MatchAny"
proof -
  have key: "parseKey_StringUint64 E (s @ to_sv L n) = (s, n)" for s n using parseKey [of s n] by (simp add: makeKey)
  show "length search = 32 \<Longrightarrow> tests_lead db Ix_id (MatchPrefix search)"
    "length search = 32 \<Longrightarrow> tests_lead db Ix_pubkey (MatchPrefix search)"
    by (rule tests_lead_event [OF assms], auto simp: event_keys_def makeKey key starts_with_append_eq wf_event_def)+
  have "starts_with (p @ to_sv L m @ to_sv L n) (search @ to_sv L kind) \<longleftrightarrow> p @ to_sv L m = search @ to_sv L kind"
    if "length search = 32" "length p = 32" for p m n
    using starts_with_append_eq [of "search @ to_sv L kind" "p @ to_sv L m" "to_sv L n"] that by simp
  moreover have "parseKey_StringUint64 E (p @ to_sv L m @ to_sv L n) = (p @ to_sv L m, n)" for p m n using key [of "p @ to_sv L m" n] by simp
  ultimately show "length search = 32 \<Longrightarrow> tests_lead db Ix_pubkeyKind (MatchPrefix (search @ to_sv L kind))"
    by (intro tests_lead_event [OF assms]) (auto simp: event_keys_def makeKey_StringUint64Uint64 wf_event_def)
  have "keyMatch E (MatchExact search) (makeKey_StringUint64 E s n) = (s = search)" for s n
    using starts_with_append_eq [of search s] by (auto simp: starts_with_def makeKey)
  then show "tests_lead db Ix_tag (MatchExact search)"
    by (intro tests_lead_event [OF assms]) (auto simp: event_keys_def parseKey simp del: keyMatch.simps)
  show "tests_lead db Ix_kind (MatchKind kind)"
    by (rule tests_lead_event [OF assms])
      (auto simp: event_keys_def parseKey_Uint64Uint64 makeKey_Uint64Uint64 [symmetric], auto simp: makeKey_Uint64Uint64 key inj_to_sv)
  show "tests_lead db Ix_created_at MatchAny"
    by (rule tests_lead_event [OF assms]) (simp add: event_keys_def key [of "[]", simplified])
qed

text \<open>The cursors of a filter, and that every event of the filter is under one of them.\<close>

definition fresh_cursor :: "'db \<Rightarrow> db_index \<Rightarrow> scan_cursor \<Rightarrow> bool" where
  "fresh_cursor db ix c \<longleftrightarrow> tests_lead db ix (sc_keyMatch c) \<and> sc_resumeKey c = lead (sc_keyMatch c) @ ff8 \<and>
     sc_resumeVal c = MAX_U64 \<and> sc_outstanding c = 0"

lemma fresh_cursors:
  assumes "holds E L tree_items fs db M"
  shows "length search = 32 \<Longrightarrow> fresh_cursor db Ix_id (prefix_cursor search)"
    and "length search = 32 \<Longrightarrow> fresh_cursor db Ix_pubkey (prefix_cursor search)"
    and "length search = 32 \<Longrightarrow> fresh_cursor db Ix_pubkeyKind (prefix_cursor (search @ to_sv L kind))"
    and "fresh_cursor db Ix_tag (exact_cursor search)" "fresh_cursor db Ix_kind (new_cursor (to_sv L kind @ ff8) (MatchKind kind))"
    and "fresh_cursor db Ix_created_at (new_cursor ff8 MatchAny)"
  using tests_leads [OF assms] by (simp_all add: fresh_cursor_def prefix_cursor_def exact_cursor_def new_cursor_def)

lemma scan_plan_complete:
  assumes "holds E L tree_items fs db M" "query_filter f" "few_values f"
  obtains ix cs io where "scan_plan L f = Inr (ix, cs, io)" "cs \<noteq> []" "length cs \<le> 2 ^ 24" "\<forall>c\<in>set cs. fresh_cursor db ix c"
    "\<forall>e. fields_match f e \<longrightarrow> (\<exists>c\<in>set cs. \<exists>k\<in>set (event_keys E L e ix). fst (parseKey_StringUint64 E k) = lead (sc_keyMatch c))"
proof -
  have ok: "filter_ok f" using assms(2) by (simp add: query_filter_def)
  note fresh = fresh_cursors [OF assms(1)]
  note defs = prefix_cursor_def exact_cursor_def new_cursor_def
  have elems: "search \<in> set (FilterSetBytes_elems s) \<longleftrightarrow> FilterSetBytes_doesMatch s search" "FilterSetBytes_elems s \<noteq> []"
    if "bytes_set mn mx s" for mn mx s search using that by (simp_all add: bytes_set_def)
  have len: "length search = 32" if "bytes_set 32 32 s" "search \<in> set (FilterSetBytes_elems s)" for s search using bytes_setD(1) [OF that] .
  have key: "parseKey_StringUint64 E (s @ to_sv L n) = (s, n)" for s n using parseKey [of s n] by (simp add: makeKey)
  consider (ids) s where "nf_ids f = Some s" | (tags) "nf_ids f = None" "nf_tags f \<noteq> []"
    | (both) s ks where "nf_ids f = None" "nf_tags f = []" "nf_authors f = Some s" "nf_kinds f = Some ks" "FilterSetBytes_size s * length ks < 1000"
    | (authors) s where "nf_ids f = None" "nf_tags f = []" "nf_authors f = Some s" "\<forall>ks. nf_kinds f = Some ks \<longrightarrow> \<not> FilterSetBytes_size s * length ks < 1000"
    | (kinds) ks where "nf_ids f = None" "nf_tags f = []" "nf_authors f = None" "nf_kinds f = Some ks"
    | (all) "nf_ids f = None" "nf_tags f = []" "nf_authors f = None" "nf_kinds f = None"
    by (cases "nf_ids f"; cases "nf_authors f"; cases "nf_kinds f"; cases "nf_tags f") (simp, blast)+
  then show thesis
  proof cases
    case ids
    have set: "bytes_set 32 32 s" using ok ids by (simp add: filter_ok_def)
    show thesis
    proof (rule that)
      show "scan_plan L f = Inr (Ix_id, map prefix_cursor (FilterSetBytes_elems s), nf_indexOnlyScans f)"
        using ids by (simp add: scan_plan_def bytes_cursors_eq)
      show "\<forall>e. fields_match f e \<longrightarrow> (\<exists>c\<in>set (map prefix_cursor (FilterSetBytes_elems s)). \<exists>k\<in>set (event_keys E L e Ix_id).
          fst (parseKey_StringUint64 E k) = lead (sc_keyMatch c))"
        using ids elems(1) [OF set] by (auto simp: fields_match_def event_keys_def parseKey defs)
    qed (use elems(2) [OF set] assms(3) ids fresh(1) len [OF set] in \<open>auto simp: few_values_def\<close>)
  next
    case tags
    obtain v where v: "map_of (nf_tags f) (pick_tag (nf_tags f)) = Some v" "(pick_tag (nf_tags f), v) \<in> set (nf_tags f)"
    proof -
      have "pick_tag (nf_tags f) \<in> fst ` set (nf_tags f)" using pick_tag_mem [OF tags(2)] assms(3) by (simp add: few_values_def)
      then show thesis using that by (metis map_of_SomeD map_of_eq_None_iff option.exhaust)
    qed
    have set: "bytes_set 0 255 v" using ok v(2) unfolding filter_ok_def by fastforce
    let ?cs = "map (\<lambda>x. exact_cursor (pick_tag (nf_tags f) # x)) (FilterSetBytes_elems v)"
    show thesis
    proof (rule that)
      show "scan_plan L f = Inr (Ix_tag, ?cs, nf_indexOnlyScans f)" using tags v(1) by (simp add: scan_plan_def bytes_cursors_eq Let_def)
      show "\<forall>e. fields_match f e \<longrightarrow> (\<exists>c\<in>set ?cs. \<exists>k\<in>set (event_keys E L e Ix_tag). fst (parseKey_StringUint64 E k) = lead (sc_keyMatch c))"
      proof (intro allI impI)
        fix e assume "fields_match f e"
        then obtain t where t: "t \<in> set (ev_tags e)" "fst t = pick_tag (nf_tags f)" "FilterSetBytes_doesMatch v (snd t)"
          using v(2) unfolding fields_match_def by fastforce
        then have "exact_cursor (pick_tag (nf_tags f) # snd t) \<in> set ?cs" using elems(1) [OF set] by simp
        moreover have "makeKey_StringUint64 E (fst t # snd t) (ev_created_at e) \<in> set (event_keys E L e Ix_tag)"
          using t(1) by (simp add: event_keys_def)
        ultimately show "\<exists>c\<in>set ?cs. \<exists>k\<in>set (event_keys E L e Ix_tag). fst (parseKey_StringUint64 E k) = lead (sc_keyMatch c)"
          using t(2) by (metis (no_types, lifting) parseKey fst_conv lead.simps(2) exact_cursor_def new_cursor_def scan_cursor.select_convs(3))
      qed
    qed (use elems(2) [OF set] assms(3) v(2) fresh(4) in \<open>auto simp: few_values_def\<close>)
  next
    case both
    have set: "bytes_set 32 32 s" and ks: "ks \<noteq> []" "\<And>n. FilterSetUint_doesMatch ks n \<Longrightarrow> n \<in> set ks"
      using ok both by (simp_all add: filter_ok_def)
    let ?cs = "concat (map (\<lambda>a. map (\<lambda>kind. prefix_cursor (a @ to_sv L kind)) ks) (FilterSetBytes_elems s))"
    show thesis
    proof (rule that)
      show "scan_plan L f = Inr (Ix_pubkeyKind, ?cs, nf_indexOnlyScans f)" using both by (simp add: scan_plan_def author_kind_cursors_eq)
      have "length ?cs = FilterSetBytes_size s * length ks"
        by (simp add: length_concat o_def sum_list_triv)
      then show "length ?cs \<le> 2 ^ 24" using both(5) by simp
      show "\<forall>e. fields_match f e \<longrightarrow> (\<exists>c\<in>set ?cs. \<exists>k\<in>set (event_keys E L e Ix_pubkeyKind). fst (parseKey_StringUint64 E k) = lead (sc_keyMatch c))"
        using both elems(1) [OF set] ks(2) key [of "_ @ _"]
        by (fastforce simp: fields_match_def event_keys_def makeKey_StringUint64Uint64 defs)
    qed (use elems(2) [OF set] ks(1) fresh(3) len [OF set] in auto)
  next
    case authors
    have set: "bytes_set 32 32 s" using ok authors by (simp add: filter_ok_def)
    let ?cs = "map prefix_cursor (FilterSetBytes_elems s)"
    have "\<exists>io. scan_plan L f = Inr (Ix_pubkey, ?cs, io)"
      using authors by (cases "nf_kinds f") (auto simp: scan_plan_def bytes_cursors_eq)
    then obtain io where plan: "scan_plan L f = Inr (Ix_pubkey, ?cs, io)" by blast
    show thesis
    proof (rule that [OF plan])
      show "\<forall>e. fields_match f e \<longrightarrow> (\<exists>c\<in>set ?cs. \<exists>k\<in>set (event_keys E L e Ix_pubkey). fst (parseKey_StringUint64 E k) = lead (sc_keyMatch c))"
        using authors elems(1) [OF set] by (auto simp: fields_match_def event_keys_def parseKey defs)
    qed (use elems(2) [OF set] assms(3) authors fresh(2) len [OF set] in \<open>auto simp: few_values_def\<close>)
  next
    case kinds
    have ks: "ks \<noteq> []" "\<And>n. FilterSetUint_doesMatch ks n \<Longrightarrow> n \<in> set ks" using ok kinds by (simp_all add: filter_ok_def)
    let ?cs = "map (\<lambda>kind. new_cursor (to_sv L kind @ ff8) (MatchKind kind)) ks"
    show thesis
    proof (rule that)
      show "scan_plan L f = Inr (Ix_kind, ?cs, nf_indexOnlyScans f)" using kinds by (simp add: scan_plan_def kind_cursors_eq)
      show "\<forall>e. fields_match f e \<longrightarrow> (\<exists>c\<in>set ?cs. \<exists>k\<in>set (event_keys E L e Ix_kind). fst (parseKey_StringUint64 E k) = lead (sc_keyMatch c))"
        using kinds ks(2) by (auto simp: fields_match_def event_keys_def makeKey_Uint64Uint64 key defs)
    qed (use ks(1) assms(3) kinds fresh(5) in \<open>auto simp: few_values_def\<close>)
  next
    case all
    show thesis
    proof (rule that)
      show "scan_plan L f = Inr (Ix_created_at, [new_cursor ff8 MatchAny], nf_indexOnlyScans f)" using all by (simp add: scan_plan_def)
    qed (use fresh(6) key [of "[]"] in \<open>auto simp: event_keys_def defs\<close>)
  qed
qed

lemma upcoming_fresh:
  assumes "holds E L tree_items fs db M" "ix \<in> scan_indexes" "fresh_cursor db ix c"
  shows "cursor_ok ix c"
    and "(k, l) \<in> set (upcoming db f ix c) \<longleftrightarrow> (k, l) \<in> index_entries E L db ix \<and> entry_ok f (sc_keyMatch c) (k, l)"
proof -
  let ?top = "makeKey_StringUint64 E (lead (sc_keyMatch c)) MAX_U64"
  have key: "sc_resumeKey c = ?top" using assms(3) by (simp add: fresh_cursor_def makeKey to_sv_MAX)
  have act: "sc_active c" using assms(3) by (simp add: fresh_cursor_def sc_active_def ff8_def)
  show "cursor_ok ix c" by (simp add: cursor_ok_def key key_le_time [OF assms(2)])
  have "pos_le key_le ix (k, l) (?top, MAX_U64)" if ent: "(k, l) \<in> index_entries E L db ix" "entry_ok f (sc_keyMatch c) (k, l)"
  proof -
    have "tests_lead db ix (sc_keyMatch c)" using assms(3) by (simp add: fresh_cursor_def)
    from wanted_entry [OF assms(1,2) this ent] obtain m where "k = makeKey_StringUint64 E (lead (sc_keyMatch c)) m" by blast
    then show ?thesis by (simp add: pos_le_def key_le_time [OF assms(2)])
  qed
  then show "(k, l) \<in> set (upcoming db f ix c) \<longleftrightarrow> (k, l) \<in> index_entries E L db ix \<and> entry_ok f (sc_keyMatch c) (k, l)"
    using act assms(3) by (auto simp: upcoming_def scan_set_rev key fresh_cursor_def)
qed

lemma set_todo: "set (todo db f S) = rank ` (set (ds_eventQueue S) \<union> set_mset (left_over db f (ds_indexDbi S) (ds_cursors S)))"
  by (simp add: todo_def image_Un)

lemma sorted_todo: "sorted_wrt (\<ge>) (todo db f S)"
  unfolding todo_def sorted_wrt_rev by (simp add: sorted_sorted_list_of_multiset)

lemma DBScan_start:
  assumes "holds E L tree_items fs db M" "small_times M" "query_filter f" "few_values f"
  obtains S ix kms io where "DBScan L f = Inr S" "ix \<in> scan_indexes" "planned f ix kms io" "scan_ok db f ix kms io S"
    "{x \<in> set (todo db f S). matching M f (snd x)} = {(ev_created_at e, l) | e l. M l = Some e \<and> nf_matches f e}"
proof -
  obtain ix cs io where plan: "scan_plan L f = Inr (ix, cs, io)" "cs \<noteq> []" "length cs \<le> 2 ^ 24" "\<forall>c\<in>set cs. fresh_cursor db ix c"
    "\<forall>e. fields_match f e \<longrightarrow> (\<exists>c\<in>set cs. \<exists>k\<in>set (event_keys E L e ix). fst (parseKey_StringUint64 E k) = lead (sc_keyMatch c))"
    by (rule scan_plan_complete [OF assms(1,3,4)])
  define depth where "depth = min (max (nf_limit f div of_nat (length cs)) 5) (50 :: u64)"
  define S where "S = \<lparr>ds_indexOnly = io, ds_indexDbi = ix, ds_cursors = cs, ds_eventQueue = [], ds_initialScanDepth = depth,
    ds_refillScanDepth = 10 * depth, ds_nextInitIndex = 0, ds_approxWork = 0\<rparr>"
  have S: "DBScan L f = Inr S" using plan(1,2) by (simp add: DBScan_def S_def depth_def Let_def)
  have ix: "ix \<in> scan_indexes" using DBScan_index [OF S] by (simp add: S_def)
  have depth: "depth \<noteq> 0" "10 * depth \<noteq> 0"
  proof -
    have "5 \<le> depth" "depth \<le> 50" by (auto simp: depth_def)
    then have *: "5 \<le> unat depth" "unat depth \<le> 50" by (simp_all add: word_le_nat_alt)
    then show "depth \<noteq> 0" by auto
    have "unat (10 * depth) = 10 * unat depth" using * by (simp add: unat_mult_lem [THEN iffD1])
    then show "10 * depth \<noteq> 0" using * by auto
  qed
  have "planned f ix (sc_keyMatch ` set cs) io" using plan(1) by (auto simp: planned_def)
  moreover have "scan_ok db f ix (sc_keyMatch ` set cs) io S"
    using plan(2-4) depth upcoming_fresh(1) [OF assms(1) ix]
    by (auto simp: scan_ok_def scan_inv_def S_def cursor_inv_def owned_def fresh_cursor_def)
  moreover have "{x \<in> set (todo db f S). matching M f (snd x)} = {(ev_created_at e, l) | e l. M l = Some e \<and> nf_matches f e}" (is "?A = ?B")
  proof (intro set_eqI iffI)
    fix x assume x: "x \<in> ?A"
    then obtain i y where y: "i < length cs" "y \<in> set (upcoming db f ix (cs ! i))" "x = rank (entry_candidate (of_nat i) y)"
      by (auto simp: set_todo S_def left_over_mem)
    have ent: "y \<in> index_entries E L db ix" using upcoming_entry [OF y(2)] by simp
    obtain k l where kl: "y = (k, l)" by (cases y)
    obtain e where e: "M l = Some e" "k \<in> set (event_keys E L e ix)" using ent entries_event [OF assms(1)] unfolding kl by blast
    obtain s where k: "k = makeKey_StringUint64 E s (ev_created_at e)" using event_keys_time [OF e(2) ix] by blast
    have "x = (ev_created_at e, l)" using entry_rank(1) [OF assms(1,2) ix ent] y(3) by (simp add: kl k parseKey)
    then show "x \<in> ?B" using x e(1) by (auto simp: matching_def)
  next
    fix x assume "x \<in> ?B"
    then obtain e l where e: "x = (ev_created_at e, l)" "M l = Some e" "nf_matches f e" by blast
    then obtain c k where c: "c \<in> set cs" "k \<in> set (event_keys E L e ix)" "fst (parseKey_StringUint64 E k) = lead (sc_keyMatch c)"
      using plan(5) by (auto simp: nf_matches_fields)
    obtain i where i: "i < length cs" "cs ! i = c" using c(1) by (metis in_set_conv_nth)
    obtain s where k: "k = makeKey_StringUint64 E s (ev_created_at e)" using event_keys_time [OF c(2) ix] by blast
    have ent: "(k, l) \<in> index_entries E L db ix" using entries_event [OF assms(1)] e(2) c(2) by blast
    have fc: "fresh_cursor db ix c" using plan(4) c(1) by blast
    have "keyMatch E (sc_keyMatch c) k" using fc ent c(3) unfolding fresh_cursor_def tests_lead_def by blast
    moreover have "doesMatchTimes f (ev_created_at e)" using e(3) by (simp add: nf_matches_fields)
    ultimately have "entry_ok f (sc_keyMatch c) (k, l)" by (auto simp: entry_ok_def k parseKey doesMatchTimes_def Let_def split: if_splits)
    then have "(k, l) \<in> set (upcoming db f ix c)" using upcoming_fresh(2) [OF assms(1) ix fc] ent by simp
    moreover have "x = rank (entry_candidate (of_nat i) (k, l))" using entry_rank(1) [OF assms(1,2) ix ent] e(1) by (simp add: k parseKey)
    moreover have "entry_candidate (of_nat i) (k, l) \<in># left_over db f ix cs" using calculation(1) i by (auto simp: left_over_mem)
    ultimately have "x \<in> set (todo db f S)" by (auto simp: set_todo S_def)
    then show "x \<in> ?A" using e by (auto simp: matching_def)
  qed
  ultimately show thesis by (intro that [OF S ix])
qed

end

end
