(* ===== verification/Query_Answer.thy ===== *)
theory Query_Answer
  imports Query_Exact
begin

text \<open>
  What a query answers: for each of its filters the newest matching events, as many as its
  limit allows, newest first, none twice.  A query that is interrupted and resumed gives the
  same answer.
\<close>

section \<open>The answer to a query\<close>

text \<open>The events a filter selects among those up to \<^verbatim>\<open>latestEventId\<close>, newest first.\<close>

definition selected :: "store \<Rightarrow> u64 \<Rightarrow> nostr_filter \<Rightarrow> (u64 \<times> u64) set" where
  "selected M latest f = {(ev_created_at e, l) | e l. M l = Some e \<and> nf_matches f e \<and> l \<le> latest}"

definition newest :: "store \<Rightarrow> u64 \<Rightarrow> nostr_filter \<Rightarrow> u64 list" where
  "newest M latest f = take (unat (nf_limit f)) (map snd (rev (sorted_list_of_set (selected M latest f))))"

text \<open>One filter after the other, leaving out what was sent before.\<close>

definition add_newest :: "store \<Rightarrow> u64 \<Rightarrow> nostr_filter \<Rightarrow> u64 list \<Rightarrow> u64 list" where
  "add_newest M latest f sent = sent @ List.filter (\<lambda>l. l \<notin> set sent) (newest M latest f)"

definition query_answer :: "store \<Rightarrow> u64 \<Rightarrow> nostr_filter list \<Rightarrow> u64 list" where
  "query_answer M latest fg = fold (add_newest M latest) fg []"

section \<open>Feeding a query\<close>

text \<open>What \<^verbatim>\<open>handleEvent\<close> does: the state is the levIds sent in all, those of this filter, and the callback's.\<close>

definition sends ::
    "nostr_filter \<Rightarrow> u64 \<Rightarrow> (u64 \<Rightarrow> 'c \<Rightarrow> 'c result) \<Rightarrow> u64 \<Rightarrow> u64 set \<times> u64 set \<times> 'c \<Rightarrow> (bool \<times> u64 set \<times> u64 set \<times> 'c) result" where
  "sends f latest cb l st =
     (case st of (full, now, c) \<Rightarrow>
        if nf_limit f = 0 then Inr (True, st)
        else if l > latest then Inr (False, st)
        else bindE (if l \<notin> full then cb l c else Inr c) (\<lambda>c'.
          Inr (of_nat (card (insert l now)) \<ge> nf_limit f, insert l full, insert l now, c')))"

lemma limit_reached: "n \<le> unat (k :: u64) \<Longrightarrow> of_nat n \<ge> k \<longleftrightarrow> n = unat k"
proof -
  assume "n \<le> unat k"
  moreover have "unat k < 2 ^ 64" using unsigned_less [of k, where 'a = nat] by simp
  ultimately have "unat (of_nat n :: u64) = n" by (simp add: unat_of_nat take_bit_nat_eq_self)
  with \<open>n \<le> unat k\<close> show ?thesis by (auto simp: word_le_nat_alt)
qed

text \<open>The new levIds of a list, in the order of their first occurrence.\<close>

fun fresh :: "u64 set \<Rightarrow> u64 list \<Rightarrow> u64 list" where
  "fresh V [] = []"
| "fresh V (l # ls) = (if l \<in> V then fresh V ls else l # fresh (insert l V) ls)"

lemma set_fresh: "set (fresh V ls) = set ls - V"
  by (induction ls arbitrary: V) auto

lemma distinct_fresh: "distinct (fresh V ls)"
  by (induction ls arbitrary: V) (auto simp: set_fresh)

definition skip_sent :: "(u64 \<Rightarrow> 'c \<Rightarrow> 'c result) \<Rightarrow> u64 set \<Rightarrow> u64 \<Rightarrow> 'c \<Rightarrow> 'c result" where
  "skip_sent cb full l c = (if l \<in> full then Inr c else cb l c)"

lemma foldE_skip_insert: "l \<notin> set ls \<Longrightarrow> foldE (skip_sent cb (insert l full)) ls = foldE (skip_sent cb full) ls"
  by (induction ls) (auto intro!: ext simp: skip_sent_def)

lemma feed_sends:
  assumes "now \<subseteq> full" "card now < unat (nf_limit f)"
  shows "feed want (sends f latest cb) xs (full, now, c) =
    (let T = take (unat (nf_limit f) - card now) (fresh now (List.filter (\<lambda>l. want l \<and> l \<le> latest) (map snd xs)))
     in bindE (foldE (skip_sent cb full) T c) (\<lambda>c'. Inr (full \<union> set T, now \<union> set T, c')))"
  using assms
proof (induction xs arbitrary: full now c)
  case Nil
  then show ?case by simp
next
  case (Cons x xs)
  let ?l = "snd x" and ?k = "unat (nf_limit f)"
  let ?ls = "List.filter (\<lambda>l. want l \<and> l \<le> latest) (map snd xs)"
  have pos: "nf_limit f \<noteq> 0" using Cons.prems(2) by auto
  show ?case
  proof (cases "want ?l \<and> ?l \<le> latest")
    case False
    then have "feed want (sends f latest cb) (x # xs) (full, now, c) = feed want (sends f latest cb) xs (full, now, c)"
      using pos by (auto simp: sends_def not_le)
    moreover have "List.filter (\<lambda>l. want l \<and> l \<le> latest) (map snd (x # xs)) = ?ls" using False by simp
    ultimately show ?thesis using Cons.IH [OF Cons.prems] by (simp only:)
  next
    case True
    show ?thesis
    proof (cases "?l \<in> now")
      case mem: True
      then have "?l \<in> full" "insert ?l full = full" "insert ?l now = now" using Cons.prems(1) by auto
      moreover have "\<not> of_nat (card now) \<ge> nf_limit f"
        using Cons.prems(2) limit_reached [of "card now" "nf_limit f"] by simp
      ultimately have "feed want (sends f latest cb) (x # xs) (full, now, c) = feed want (sends f latest cb) xs (full, now, c)"
        using True pos by (simp add: sends_def)
      moreover have "fresh now (List.filter (\<lambda>l. want l \<and> l \<le> latest) (map snd (x # xs))) = fresh now ?ls" using True mem by simp
      ultimately show ?thesis using Cons.IH [OF Cons.prems] by (simp only:)
    next
      case new: False
      let ?F = "insert ?l full" and ?N = "insert ?l now"
      have fin: "finite now" using Cons.prems(2) by simp
      have card: "card ?N = Suc (card now)" using new fin by simp
      have stop: "of_nat (card ?N) \<ge> nf_limit f \<longleftrightarrow> Suc (card now) = ?k"
        using Cons.prems(2) limit_reached [of "card ?N" "nf_limit f"] unfolding card by simp
      have fed: "feed want (sends f latest cb) (x # xs) (full, now, c) = bindE (skip_sent cb full ?l c)
          (\<lambda>c'. if Suc (card now) = ?k then Inr (?F, ?N, c') else feed want (sends f latest cb) xs (?F, ?N, c'))"
        using True pos stop by (cases "skip_sent cb full ?l c") (auto simp: sends_def skip_sent_def)
      have T: "take (?k - card now) (fresh now (?l # ?ls)) = ?l # take (?k - Suc (card now)) (fresh ?N ?ls)"
        using new Cons.prems(2) by (cases "?k - card now") (auto simp: Suc_diff_Suc [symmetric])
      show ?thesis
      proof (cases "Suc (card now) = ?k")
        case True
        then show ?thesis using fed T \<open>want ?l \<and> ?l \<le> latest\<close> by (cases "skip_sent cb full ?l c") (simp_all add: Let_def)
      next
        case False
        let ?T = "take (?k - Suc (card now)) (fresh ?N ?ls)"
        have "?l \<notin> set ?T" using set_fresh [of ?N ?ls] set_take_subset [of "?k - Suc (card now)" "fresh ?N ?ls"] by auto
        note skip = foldE_skip_insert [OF this, of cb full]
        have "feed want (sends f latest cb) xs (?F, ?N, c') =
            bindE (foldE (skip_sent cb full) ?T c') (\<lambda>c''. Inr (?F \<union> set ?T, ?N \<union> set ?T, c''))" for c'
          using Cons.IH [of ?N ?F c'] subset_insertI2 [OF Cons.prems(1), of ?l] Cons.prems(2) card False by (simp add: Let_def skip)
        then show ?thesis using fed False T True
          by (cases "skip_sent cb full ?l c") (simp_all add: Let_def)
      qed
    qed
  qed
qed

lemma sorted_fresh: "sorted_wrt R ls \<Longrightarrow> sorted_wrt R (fresh V ls)"
  by (induction ls arbitrary: V) (auto simp: set_fresh)

lemma fresh_newest:
  assumes "sorted_wrt (\<ge>) xs" "{x \<in> set xs. matching M f (snd x)} = {(ev_created_at e, l) | e l. M l = Some e \<and> nf_matches f e}"
  shows "fresh {} (List.filter (\<lambda>l. matching M f l \<and> l \<le> latest) (map snd xs)) = map snd (rev (sorted_list_of_set (selected M latest f)))"
proof -
  let ?P = "\<lambda>l. matching M f l \<and> l \<le> latest" and ?g = "\<lambda>l. (ev_created_at (the (M l)), l)"
  let ?ys = "List.filter (?P \<circ> snd) xs" and ?zs = "fresh {} (List.filter ?P (map snd xs))"
  have ys: "set ?ys = selected M latest f"
  proof -
    have "set ?ys = {x \<in> set xs. matching M f (snd x)} \<inter> {x. snd x \<le> latest}" by auto
    then show ?thesis unfolding assms(2) by (auto simp: selected_def)
  qed
  have g: "?g (snd x) = x" if "x \<in> selected M latest f" for x using that by (auto simp: selected_def)
  have ls: "List.filter ?P (map snd xs) = map snd ?ys" by (simp add: filter_map)
  have "sorted_wrt (\<lambda>a b. ?g a \<ge> ?g b) (map snd ?ys)"
    unfolding sorted_wrt_map
  proof (rule sorted_wrt_mono_rel [OF _ sorted_wrt_filter [OF assms(1)]])
    fix x y assume "x \<in> set ?ys" "y \<in> set ?ys" "x \<ge> y"
    then show "?g (snd x) \<ge> ?g (snd y)" unfolding ys by (simp only: g)
  qed
  then have "sorted_wrt (\<lambda>a b. ?g a \<ge> ?g b) ?zs" unfolding ls by (rule sorted_fresh)
  then have "sorted (rev (map ?g ?zs))" by (simp add: sorted_wrt_rev sorted_wrt_map)
  moreover have "distinct (rev (map ?g ?zs))" using distinct_fresh by (simp add: distinct_map inj_on_def)
  moreover have "set (rev (map ?g ?zs)) = selected M latest f"
  proof -
    have "set (rev (map ?g ?zs)) = (\<lambda>x. ?g (snd x)) ` set ?ys" unfolding ls by (simp add: set_fresh image_image)
    also have "\<dots> = id ` selected M latest f" unfolding ys by (rule image_cong [OF refl]) (simp only: g id_apply)
    finally show ?thesis by (simp only: image_id id_apply)
  qed
  ultimately have "rev (map ?g ?zs) = sorted_list_of_set (selected M latest f)"
    using sorted_list_of_set.idem_if_sorted_distinct [of "rev (map ?g ?zs)"] by (simp only:)
  then have "map snd (map ?g ?zs) = map snd (rev (sorted_list_of_set (selected M latest f)))" using rev_rev_ident [of "map ?g ?zs"] by (simp only:)
  then show ?thesis by (simp add: o_def)
qed

text \<open>Feeding a scan of its own to a filter sends its newest events, those that were not sent before.\<close>

lemma feed_filter:
  assumes "sorted_wrt (\<ge>) xs" "{x \<in> set xs. matching M f (snd x)} = {(ev_created_at e, l) | e l. M l = Some e \<and> nf_matches f e}"
  shows "\<exists>now. feed (matching M f) (sends f latest cb) xs (full, {}, c) =
    bindE (foldE (skip_sent cb full) (newest M latest f) c) (\<lambda>c'. Inr (full \<union> set (newest M latest f), now, c'))"
proof (cases "nf_limit f = 0")
  case True
  have "feed (matching M f) (sends f latest cb) xs (full, {}, c) = Inr (full, {}, c)"
    by (induction xs) (simp_all add: sends_def True)
  then show ?thesis by (simp add: newest_def True)
next
  case False
  then show ?thesis
    using feed_sends [of "{}" full f "matching M f" latest cb xs c] fresh_newest [OF assms, of latest]
    by (auto simp: newest_def Let_def unat_gt_0)
qed

section \<open>A query against its answer\<close>

text \<open>The callback on the events of one filter after the other, and what a query has still to do.\<close>

definition send_filter ::
    "store \<Rightarrow> u64 \<Rightarrow> (u64 \<Rightarrow> 'c \<Rightarrow> 'c result) \<Rightarrow> nostr_filter \<Rightarrow> u64 set \<times> 'c \<Rightarrow> (u64 set \<times> 'c) result" where
  "send_filter M latest cb f st =
     bindE (foldE (skip_sent cb (fst st)) (newest M latest f) (snd st)) (\<lambda>c'. Inr (fst st \<union> set (newest M latest f), c'))"

definition sends_sub ::
    "nostr_filter \<Rightarrow> (u64 \<Rightarrow> 'c \<Rightarrow> 'c result) \<Rightarrow> u64 \<Rightarrow> subscription \<times> u64 set \<times> u64 set \<times> 'c \<Rightarrow>
     (bool \<times> subscription \<times> u64 set \<times> u64 set \<times> 'c) result" where
  "sends_sub f cb l st =
     bindE (sends f (sub_latestEventId (fst st)) cb l (snd st)) (\<lambda>(b, st'). Inr (b, fst st, st'))"

lemma feed_sends_sub:
  "feed want (sends_sub f cb) xs (sub, st) = bindE (feed want (sends f (sub_latestEventId sub) cb) xs st) (\<lambda>st'. Inr (sub, st'))"
proof (induction xs arbitrary: st)
  case (Cons x xs)
  then show ?case
    by (cases "sends f (sub_latestEventId sub) cb (snd x) st") (auto simp: sends_sub_def)
qed simp

lemma bindE_pair_inject: "bindE m (\<lambda>x. Inr (y, x)) = bindE m' (\<lambda>x. Inr (y, x)) \<Longrightarrow> (m = m' \<Longrightarrow> P) \<Longrightarrow> P"
  by (cases m; cases m') auto

lemma handleEvent_sends:
  "sends_sub f cb l (case s of (q, t, c) \<Rightarrow> (dq_sub q, dq_sentEventsFull q, dq_sentEventsCurr q, c)) =
     (case query_handleEvent f cb l s of Inl e \<Rightarrow> Inl e
      | Inr (b, s') \<Rightarrow> Inr (b, case s' of (q, t, c) \<Rightarrow> (dq_sub q, dq_sentEventsFull q, dq_sentEventsCurr q, c)))"
proof -
  obtain q t c where s: "s = (q, t, c)" by (cases s)
  show ?thesis
    by (cases "if l \<notin> dq_sentEventsFull q then cb l c else Inr c")
      (auto simp: s sends_sub_def sends_def query_handleEvent_def Let_def split: if_splits)
qed

lemma doPause_keeps:
  "(case snd (query_doPause clock start budget w s) of (q, t, c) \<Rightarrow> (dq_sub q, dq_sentEventsFull q, dq_sentEventsCurr q, c)) =
     (case s of (q, t, c) \<Rightarrow> (dq_sub q, dq_sentEventsFull q, dq_sentEventsCurr q, c))"
  by (auto simp: query_doPause_def split: prod.splits)

context scan_env
begin

definition query_ok :: "'db \<Rightarrow> dbquery \<Rightarrow> bool" where
  "query_ok db q \<longleftrightarrow> (\<forall>f\<in>set (sub_filterGroup (dq_sub q)). query_filter f \<and> few_values f) \<and>
     (case dq_scanner q of
        None \<Rightarrow> dq_sentEventsCurr q = {}
      | Some S \<Rightarrow> dq_filterGroupIndex q < length (sub_filterGroup (dq_sub q)) \<and>
          (\<exists>ix kms io. ix \<in> scan_indexes \<and> planned (sub_filterGroup (dq_sub q) ! dq_filterGroupIndex q) ix kms io \<and>
             scan_ok db (sub_filterGroup (dq_sub q) ! dq_filterGroupIndex q) ix kms io S))"

definition outcome :: "'db \<Rightarrow> store \<Rightarrow> (u64 \<Rightarrow> 'c \<Rightarrow> 'c result) \<Rightarrow> dbquery \<Rightarrow> 'c \<Rightarrow> (u64 set \<times> 'c) result" where
  "outcome db M cb q c =
     (let fg = sub_filterGroup (dq_sub q); i = dq_filterGroupIndex q; latest = sub_latestEventId (dq_sub q)
      in case dq_scanner q of
           None \<Rightarrow> foldE (send_filter M latest cb) (drop i fg) (dq_sentEventsFull q, c)
         | Some S \<Rightarrow>
             bindE (feed (matching M (fg ! i)) (sends (fg ! i) latest cb) (todo db (fg ! i) S) (dq_sentEventsFull q, dq_sentEventsCurr q, c))
               (\<lambda>(full, now, c'). foldE (send_filter M latest cb) (drop (Suc i) fg) (full, c')))"

lemma query_ok_DBQuery: "\<forall>f\<in>set (sub_filterGroup sub). query_filter f \<and> few_values f \<Longrightarrow> query_ok db (DBQuery sub)"
  by (simp add: query_ok_def DBQuery_def)

lemma outcome_scan:
  assumes "holds E L tree_items fs db M" "small_times M" "query_ok db q" "dq_filterGroupIndex q < length (sub_filterGroup (dq_sub q))"
    and "f = sub_filterGroup (dq_sub q) ! dq_filterGroupIndex q"
  obtains S ix kms io where "(case dq_scanner q of Some S \<Rightarrow> Inr S | None \<Rightarrow> DBScan L f) = Inr S" "ix \<in> scan_indexes"
    "planned f ix kms io" "scan_ok db f ix kms io S"
    "outcome db M cb q c = bindE (feed (matching M f) (sends f (sub_latestEventId (dq_sub q)) cb) (todo db f S) (dq_sentEventsFull q, dq_sentEventsCurr q, c))
       (\<lambda>(full, now, c'). foldE (send_filter M (sub_latestEventId (dq_sub q)) cb) (drop (Suc (dq_filterGroupIndex q)) (sub_filterGroup (dq_sub q))) (full, c'))"
proof (cases "dq_scanner q")
  case (Some S)
  then obtain ix kms io where "ix \<in> scan_indexes" "planned f ix kms io" "scan_ok db f ix kms io S"
    using assms(3) unfolding query_ok_def assms(5) by auto
  then show thesis using Some by (intro that [of S ix kms io]) (simp_all add: outcome_def assms(5) Let_def)
next
  case None
  have f: "query_filter f" "few_values f" using assms(3,4) by (auto simp: query_ok_def assms(5))
  obtain S ix kms io where S: "DBScan L f = Inr S" "ix \<in> scan_indexes" "planned f ix kms io" "scan_ok db f ix kms io S"
    "{x \<in> set (todo db f S). matching M f (snd x)} = {(ev_created_at e, l) | e l. M l = Some e \<and> nf_matches f e}"
    by (rule DBScan_start [OF assms(1,2) f])
  let ?latest = "sub_latestEventId (dq_sub q)"
  obtain now where "feed (matching M f) (sends f ?latest cb) (todo db f S) (dq_sentEventsFull q, {}, c) =
      bindE (foldE (skip_sent cb (dq_sentEventsFull q)) (newest M ?latest f) c) (\<lambda>c'. Inr (dq_sentEventsFull q \<union> set (newest M ?latest f), now, c'))"
    using feed_filter [OF sorted_todo S(5), of ?latest cb "dq_sentEventsFull q" c] by (elim exE)
  moreover have "drop (dq_filterGroupIndex q) (sub_filterGroup (dq_sub q)) = f # drop (Suc (dq_filterGroupIndex q)) (sub_filterGroup (dq_sub q))"
    using Cons_nth_drop_Suc [OF assms(4)] by (simp add: assms(5))
  moreover have "dq_sentEventsCurr q = {}" using assms(3) None by (simp add: query_ok_def)
  ultimately show thesis using None S(1-4)
    by (intro that [of S ix kms io]) (simp_all add: outcome_def send_filter_def Let_def bindE_assoc)
qed

lemma process_round_exact:
  assumes "holds E L tree_items fs db M" "small_times M" "query_ok db q"
    and run: "process_round n E L clock db cb budget (q, t, c) = Some r"
  shows "case r of Inl e \<Rightarrow> outcome db M cb q c = Inl e
    | Inr (Some True, q', t', c') \<Rightarrow> outcome db M cb q c = Inr (dq_sentEventsFull q', c')
    | Inr (_, q', t', c') \<Rightarrow> query_ok db q' \<and> outcome db M cb q c = outcome db M cb q' c'"
proof (cases "dq_filterGroupIndex q < length (sub_filterGroup (dq_sub q))")
  case False
  then have "r = Inr (Some True, q, t, c)" "dq_scanner q = None"
    using run assms(3) by (auto simp: process_round_def query_ok_def split: option.splits)
  then show ?thesis using False by (simp add: outcome_def Let_def)
next
  case True
  define f where "f = sub_filterGroup (dq_sub q) ! dq_filterGroupIndex q"
  let ?latest = "sub_latestEventId (dq_sub q)" and ?i = "dq_filterGroupIndex q"
  let ?a = "\<lambda>s :: dbquery \<times> nat \<times> 'e. case s of (q, t, c) \<Rightarrow> (dq_sub q, dq_sentEventsFull q, dq_sentEventsCurr q, c)"
  let ?rest = "\<lambda>(full, now :: u64 set, c'). foldE (send_filter M ?latest cb) (drop (Suc ?i) (sub_filterGroup (dq_sub q))) (full, c')"
  obtain S ix kms io where S: "(case dq_scanner q of Some S \<Rightarrow> Inr S | None \<Rightarrow> DBScan L f) = Inr S" "ix \<in> scan_indexes"
    "planned f ix kms io" "scan_ok db f ix kms io S"
    "outcome db M cb q c = bindE (feed (matching M f) (sends f ?latest cb) (todo db f S) (dq_sentEventsFull q, dq_sentEventsCurr q, c)) ?rest"
    by (rule outcome_scan [OF assms(1-3) True f_def])
  have qf: "query_filter f" using assms(3) True by (auto simp: query_ok_def f_def)
  let ?scan = "scan_loop n n E L db f (query_handleEvent f cb) (query_doPause clock (clock t) budget) (S, q, Suc t, c)"
  obtain x where x: "?scan = Some x" using run True S(1) by (cases ?scan) (auto simp: process_round_def f_def [symmetric] Let_def)
  note exact = scan_loop_exact [where \<alpha> = ?a and H = "sends_sub f cb", OF assms(1,2) S(2) qf S(3,4) handleEvent_sends doPause_keeps x]
  note exact' = exact [unfolded prod.case feed_sends_sub]
  show ?thesis
  proof (cases x)
    case (Inl e)
    then have "r = Inl e" using run True S(1) x by (simp add: process_round_def f_def [symmetric] Let_def)
    then show ?thesis using exact' Inl S(5)
      by (cases "feed (matching M f) (sends f ?latest cb) (todo db f S) (dq_sentEventsFull q, dq_sentEventsCurr q, c)") auto
  next
    case (Inr y)
    obtain fin S' q' t' c' where y: "y = (fin, S', q', t', c')" by (cases y) auto
    have frame: "dq_sub q' = dq_sub q" "dq_filterGroupIndex q' = ?i" using query_scan_frame [OF x [unfolded Inr y]] by simp_all
    show ?thesis
    proof (cases fin)
      case fin: True
      let ?time = "dq_currScanTime q' + (clock t' - clock t)"
      let ?q = "q'\<lparr>dq_scanner := None, dq_filterGroupIndex := Suc ?i, dq_sentEventsCurr := {}, dq_currScanTime := 0, dq_currScanSaveRestores := 0,
        dq_totalTime := dq_totalTime q' + ?time, dq_totalWork := dq_totalWork q' + ds_approxWork S'\<rparr>"
      have r: "r = Inr (None, ?q, Suc t', c')" using run True S(1) x Inr y fin frame(2) by (simp add: process_round_def f_def [symmetric] Let_def)
      have "feed (matching M f) (sends f ?latest cb) (todo db f S) (dq_sentEventsFull q, dq_sentEventsCurr q, c) =
          Inr (dq_sentEventsFull q', dq_sentEventsCurr q', c')"
        using exact' Inr y fin frame(1) by (auto simp: bindE_eq_Inr)
      then show ?thesis using r S(5) assms(3) frame by (auto simp: outcome_def query_ok_def Let_def)
    next
      case False
      let ?q = "q'\<lparr>dq_scanner := Some S', dq_currScanTime := dq_currScanTime q' + (clock t' - clock t),
        dq_currScanSaveRestores := dq_currScanSaveRestores q' + 1\<rparr>"
      have r: "r = Inr (Some False, ?q, Suc t', c')" using run True S(1) x Inr y False by (simp add: process_round_def f_def [symmetric] Let_def)
      have ok: "scan_ok db f ix kms io S'" using exact' Inr y False by simp
      have "bindE (feed (matching M f) (sends f ?latest cb) (todo db f S) (dq_sentEventsFull q, dq_sentEventsCurr q, c)) (\<lambda>st'. Inr (dq_sub q, st')) =
          bindE (feed (matching M f) (sends f ?latest cb) (todo db f S') (dq_sentEventsFull q', dq_sentEventsCurr q', c')) (\<lambda>st'. Inr (dq_sub q, st'))"
        using exact' Inr y False frame(1) by (simp add: feed_sends_sub)
      then have "feed (matching M f) (sends f ?latest cb) (todo db f S) (dq_sentEventsFull q, dq_sentEventsCurr q, c) =
          feed (matching M f) (sends f ?latest cb) (todo db f S') (dq_sentEventsFull q', dq_sentEventsCurr q', c')"
        by (elim bindE_pair_inject)
      then have "outcome db M cb q c = outcome db M cb ?q c'" using S(5) frame by (simp add: outcome_def Let_def f_def)
      moreover have "query_ok db ?q" using assms(3) S(2,3) ok frame True by (auto simp: query_ok_def f_def)
      ultimately show ?thesis using r by simp
    qed
  qed
qed

lemma process_exact:
  assumes "holds E L tree_items fs db M" "small_times M" "query_ok db q"
    and run: "process n E L clock db cb budget (q, t, c) = Some r"
  shows "case r of Inl e \<Rightarrow> outcome db M cb q c = Inl e
    | Inr (finished, q', t', c') \<Rightarrow> if finished then outcome db M cb q c = Inr (dq_sentEventsFull q', c')
        else query_ok db q' \<and> outcome db M cb q c = outcome db M cb q' c'"
proof -
  have "process_loop m n E L clock db cb budget (q, t, c) = Some r \<Longrightarrow> query_ok db q \<Longrightarrow>
    (case r of Inl e \<Rightarrow> outcome db M cb q c = Inl e
    | Inr (finished, q', t', c') \<Rightarrow> if finished then outcome db M cb q c = Inr (dq_sentEventsFull q', c')
        else query_ok db q' \<and> outcome db M cb q c = outcome db M cb q' c')" for m
  proof (induction m arbitrary: q t c)
    case (Suc m)
    obtain x where x: "process_round n E L clock db cb budget (q, t, c) = Some x"
      using Suc.prems(1) by (cases "process_round n E L clock db cb budget (q, t, c)") auto
    note one = process_round_exact [OF assms(1,2) Suc.prems(2) x]
    show ?case
    proof (cases x)
      case (Inl e)
      then show ?thesis using Suc.prems(1) one by (auto simp: x)
    next
      case (Inr y)
      obtain b q1 t1 c1 where y: "y = (b, q1, t1, c1)" by (cases y)
      show ?thesis
      proof (cases b)
        case None
        then have step: "query_ok db q1" "outcome db M cb q c = outcome db M cb q1 c1" using one Inr y by simp_all
        have "process_loop m n E L clock db cb budget (q1, t1, c1) = Some r" using Suc.prems(1) Inr y None by (simp add: x)
        from Suc.IH [OF this step(1)] show ?thesis unfolding step(2) .
      next
        case (Some b2)
        then have "r = Inr (b2, q1, t1, c1)" using Suc.prems(1) Inr y by (simp add: x)
        then show ?thesis using one Inr y Some by (cases b2) simp_all
      qed
    qed
  qed simp
  then show ?thesis using run assms(3) unfolding process_def by blast
qed

text \<open>A query whose time is not limited is not interrupted.\<close>

lemma scan_loop_unlimited:
  "scan_loop m n E L db f H (query_doPause clock start MAX_U64) (S, s) = Some (Inr (fin, S', s')) \<Longrightarrow> fin"
proof (induction m arbitrary: S s)
  case (Suc m)
  have no: "\<not> fst (query_doPause clock start MAX_U64 w s)" for w by (auto simp: query_doPause_def split: prod.splits)
  obtain x where x: "scan_round n E L db f H (query_doPause clock start MAX_U64) (S, s) = Some x"
    using Suc.prems by (cases "scan_round n E L db f H (query_doPause clock start MAX_U64) (S, s)") auto
  obtain b S1 s1 where x': "x = Inr (b, S1, s1)" using Suc.prems by (cases x) (auto simp: x)
  show ?case
  proof (cases b)
    case None
    then show ?thesis using Suc.prems Suc.IH by (simp add: x x')
  next
    case (Some b2)
    have "b2"
      using x no [of "ds_approxWork S + 1"] unfolding x' Some scan_round_def Let_def
      by (cases "query_doPause clock start MAX_U64 (ds_approxWork S + 1) s")
        (auto split: if_splits option.splits list.splits sum.splits)
    then show ?thesis using Suc.prems Some by (auto simp: x x')
  qed
qed simp

lemma process_unlimited:
  assumes "process n E L clock db cb MAX_U64 (q, t, c) = Some (Inr (finished, q', t', c'))"
  shows "finished"
proof -
  have "process_loop m n E L clock db cb MAX_U64 (q, t, c) = Some (Inr (finished, q', t', c')) \<Longrightarrow> finished" for m
  proof (induction m arbitrary: q t c)
    case (Suc m)
    obtain x where x: "process_round n E L clock db cb MAX_U64 (q, t, c) = Some x"
      using Suc.prems by (cases "process_round n E L clock db cb MAX_U64 (q, t, c)") auto
    obtain b q1 t1 c1 where x': "x = Inr (b, q1, t1, c1)" using Suc.prems by (cases x) (auto simp: x)
    show ?case
    proof (cases b)
      case None
      then show ?thesis using Suc.prems Suc.IH by (simp add: x x')
    next
      case (Some b2)
      have "b2"
        using x unfolding x' Some process_round_def Let_def
        by (auto split: if_splits option.splits sum.splits dest: scan_loop_unlimited)
      then show ?thesis using Suc.prems Some by (auto simp: x x')
    qed
  qed simp
  then show ?thesis using assms unfolding process_def by blast
qed

lemma fresh_outcome: "outcome db M cb (DBQuery sub) c = foldE (send_filter M (sub_latestEventId sub) cb) (sub_filterGroup sub) ({}, c)"
  by (simp add: outcome_def DBQuery_def)

end

section \<open>The answer as a list\<close>

lemma foldE_skip: "foldE (skip_sent cb full) ls = foldE cb (List.filter (\<lambda>l. l \<notin> full) ls)"
  by (induction ls) (auto intro!: ext simp: skip_sent_def)

lemma foldE_send_filter:
  "\<exists>ls. fold (add_newest M latest) fg sent = sent @ ls \<and>
    foldE (send_filter M latest cb) fg (set sent, c) = bindE (foldE cb ls c) (\<lambda>c'. Inr (set (sent @ ls), c'))"
proof (induction fg arbitrary: sent c)
  case (Cons f fg)
  let ?new = "List.filter (\<lambda>l. l \<notin> set sent) (newest M latest f)"
  have full: "set sent \<union> set (newest M latest f) = set (sent @ ?new)" by auto
  have "\<exists>ls. fold (add_newest M latest) fg (sent @ ?new) = (sent @ ?new) @ ls" using Cons.IH by blast
  then obtain ls where ls: "fold (add_newest M latest) fg (sent @ ?new) = (sent @ ?new) @ ls" by blast
  have rest: "foldE (send_filter M latest cb) fg (set (sent @ ?new), c1) = bindE (foldE cb ls c1) (\<lambda>c'. Inr (set ((sent @ ?new) @ ls), c'))" for c1
  proof -
    obtain ls' where "fold (add_newest M latest) fg (sent @ ?new) = (sent @ ?new) @ ls'"
      "foldE (send_filter M latest cb) fg (set (sent @ ?new), c1) = bindE (foldE cb ls' c1) (\<lambda>c'. Inr (set ((sent @ ?new) @ ls'), c'))"
      using Cons.IH [of "sent @ ?new" c1] by blast
    with ls show ?thesis by simp
  qed
  have "foldE (send_filter M latest cb) (f # fg) (set sent, c) =
      bindE (foldE cb ?new c) (\<lambda>c1. foldE (send_filter M latest cb) fg (set (sent @ ?new), c1))"
    unfolding foldE.simps send_filter_def [of M latest cb f] bindE_assoc fst_conv snd_conv foldE_skip full by simp
  also have "\<dots> = bindE (foldE cb (?new @ ls) c) (\<lambda>c'. Inr (set (sent @ ?new @ ls), c'))"
    unfolding rest foldE_append bindE_assoc by simp
  finally show ?case using ls by (intro exI [of _ "?new @ ls"]) (simp add: add_newest_def [of M latest f sent])
qed simp

lemma foldE_answer:
  "bindE (foldE (send_filter M latest cb) fg ({}, c)) (\<lambda>x. Inr (snd x)) = foldE cb (query_answer M latest fg) c"
proof -
  obtain ls where ls: "query_answer M latest fg = ls" "foldE (send_filter M latest cb) fg ({}, c) = bindE (foldE cb ls c) (\<lambda>c'. Inr (set ls, c'))"
    using foldE_send_filter [of M latest fg "[]" cb c] by (auto simp: query_answer_def)
  then show ?thesis by (cases "foldE cb ls c") simp_all
qed

lemma foreachByFilter_answer:
  assumes "scan_env L E key_le tree_items" "holds E L tree_items fs db M" "lookup_Event E db 0 = None" "small_times M"
    and "NostrFilterGroup_unwrapped L filt MAX_U64 = Inr fg" "\<forall>f\<in>set fg. few_values f"
  shows "\<exists>N. \<forall>n\<ge>N. foreachByFilter n E L clock db filt cb c = Some (foldE cb (query_answer M MAX_U64 fg) c)"
proof -
  obtain N r where r: "\<forall>n\<ge>N. foreachByFilter n E L clock db filt cb c = Some r"
    using scan_env.foreachByFilter_returns [OF assms(1-3), of clock filt cb c] by (elim exE)
  define sub where "sub = \<lparr>sub_connId = 1, sub_subId = char_of (1 :: nat) # ''.'', sub_filterGroup = fg, sub_latestEventId = MAX_U64\<rparr>"
  have q: "DBQuery_filter L filt MAX_U64 = Inr (DBQuery sub)"
    by (simp add: DBQuery_filter_def assms(5) Subscription_def sub_def SubId_def throw_if_def badChar_def)
  have ok: "scan_env.query_ok L E key_le db (DBQuery sub)"
    by (rule scan_env.query_ok_DBQuery [OF assms(1)]) (use unwrapped_query [OF assms(5)] assms(6) in \<open>simp add: sub_def\<close>)
  obtain x where x: "process N E L clock db cb MAX_U64 (DBQuery sub, 0, c) = Some x"
    using r by (cases "process N E L clock db cb MAX_U64 (DBQuery sub, 0, c)") (auto simp: foreachByFilter_def q)
  note exact = scan_env.process_exact [OF assms(1,2,4) ok x]
  have out: "scan_env.outcome E db M cb (DBQuery sub) c = foldE (send_filter M MAX_U64 cb) fg ({}, c)"
    using scan_env.fresh_outcome [OF assms(1), of db M cb sub c] by (simp add: sub_def)
  have rN: "foreachByFilter N E L clock db filt cb c = Some r" using r by simp
  have "r = foldE cb (query_answer M MAX_U64 fg) c"
  proof (cases x)
    case (Inl e)
    then show ?thesis using rN exact out foldE_answer [of M MAX_U64 cb fg c] x by (auto simp: foreachByFilter_def q)
  next
    case (Inr y)
    obtain fin q' t' c' where y: "y = (fin, q', t', c')" by (cases y)
    have "fin" using scan_env.process_unlimited [OF assms(1) x [unfolded Inr y]] .
    then show ?thesis using rN exact out foldE_answer [of M MAX_U64 cb fg c] x Inr y by (auto simp: foreachByFilter_def q)
  qed
  with r show ?thesis by blast
qed

lemma answer_one: "query_answer M latest [f] = newest M latest f"
  by (simp add: query_answer_def add_newest_def)

text \<open>The events that one filter object selects: the newest that match it, as many as its limit says.\<close>

definition chosen :: "lib \<Rightarrow> store \<Rightarrow> (string \<times> json) list \<Rightarrow> nostr_filter \<Rightarrow> u64 list" where
  "chosen L M kvs f = take (unat (nf_limit f))
     (map snd (rev (sorted_list_of_set {(ev_created_at e, l) | e l. M l = Some e \<and> nip01_match L e kvs})))"

lemma foreachByFilter_chosen:
  assumes "scan_env L E key_le tree_items" "holds E L tree_items fs db M" "lookup_Event E db 0 = None" "small_times M"
    and "NostrFilter L (JObject kvs) MAX_U64 = Inr f" "distinct (map fst kvs)" "few_values f"
  shows "\<exists>N. \<forall>n\<ge>N. foreachByFilter n E L clock db (JObject kvs) cb c = Some (foldE cb (chosen L M kvs f) c)"
proof -
  have nip: "nf_matches f e \<longleftrightarrow> nip01_match L e kvs" for e using NostrFilter_matches [OF assms(5,6)] by simp
  have fg: "NostrFilterGroup_unwrapped L (JObject kvs) MAX_U64 = Inr (if nf_neverMatch f then [] else [f])"
    by (simp add: NostrFilterGroup_unwrapped_def NostrFilterGroup_def NostrFilterGroup_add_def assms(5) throw_if_def)
  have few: "\<forall>f\<in>set (if nf_neverMatch f then [] else [f]). few_values f" using assms(7) by simp
  have "query_answer M MAX_U64 (if nf_neverMatch f then [] else [f]) = chosen L M kvs f"
  proof (cases "nf_neverMatch f")
    case True
    then have "\<not> nip01_match L e kvs" for e using nip by (simp add: nf_matches_def)
    then show ?thesis by (simp add: True query_answer_def chosen_def)
  next
    case False
    then show ?thesis by (simp add: answer_one newest_def selected_def chosen_def nip)
  qed
  with foreachByFilter_answer [OF assms(1-4) fg few, of clock cb c] show ?thesis by simp
qed

section \<open>Properties\<close>

text \<open>
  C3. A query by a JSON filter hands exactly the right events to its callback: of the stored
  events that satisfy the filter as NIP-01 reads it, the newest ones, as many as the limit of
  the filter says, newest first (by \<^verbatim>\<open>created_at\<close>, then by levId), each once.  It always returns,
  and the result is the callback's on that list.  The database agrees with its indexes, the
  times of its events fit 40 bits and the filter names at most \<open>2 ^ 24\<close> values of a kind.
\<close>

theorem foreachByFilter_exact:
  assumes "scan_env L E key_le tree_items" "holds E L tree_items fs db M" "lookup_Event E db 0 = None" "small_times M"
    and "NostrFilter L (JObject kvs) MAX_U64 = Inr f" "distinct (map fst kvs)" "few_values f"
  shows "\<exists>N. \<forall>n\<ge>N. foreachByFilter n E L clock db (JObject kvs) cb c =
    Some (foldE cb (take (unat (nf_limit f))
      (map snd (rev (sorted_list_of_set {(ev_created_at e, l) | e l. M l = Some e \<and> nip01_match L e kvs})))) c)"
proof -
  have nip: "nf_matches f e \<longleftrightarrow> nip01_match L e kvs" for e using NostrFilter_matches [OF assms(5,6)] by simp
  have fg: "NostrFilterGroup_unwrapped L (JObject kvs) MAX_U64 = Inr (if nf_neverMatch f then [] else [f])"
    by (simp add: NostrFilterGroup_unwrapped_def NostrFilterGroup_def NostrFilterGroup_add_def assms(5) throw_if_def)
  have "query_answer M MAX_U64 (if nf_neverMatch f then [] else [f]) = newest M MAX_U64 f"
  proof (cases "nf_neverMatch f")
    case True
    then have "\<not> nf_matches f e" for e by (simp add: nf_matches_def)
    then show ?thesis by (simp add: True query_answer_def newest_def selected_def)
  qed (simp add: answer_one)
  moreover have "newest M MAX_U64 f = take (unat (nf_limit f))
      (map snd (rev (sorted_list_of_set {(ev_created_at e, l) | e l. M l = Some e \<and> nip01_match L e kvs})))"
    by (simp add: newest_def selected_def nip)
  ultimately show ?thesis
    using foreachByFilter_answer [OF assms(1-4) fg, of clock cb c] assms(7) by simp
qed

theorem foreachByFilter_exact_witness:
  "\<exists>n. foreachByFilter n mem_env le_lib (\<lambda>_. 0) one_db (JObject []) (\<lambda>l acc. Inr (acc @ [l])) [] = Some (Inr [1])"
proof -
  have f: "NostrFilter le_lib (JObject []) MAX_U64 = Inr any_filter" by (simp add: NostrFilter_def any_filter_def Let_def throw_if_def empty_filter_def)
  have few: "few_values any_filter" by (simp add: few_values_def any_filter_def empty_filter_def)
  have sel: "{(ev_created_at e, l) | e l. [1 \<mapsto> ev_old] l = Some e \<and> nip01_match le_lib e []} = {(ev_created_at ev_old, 1 :: u64)}"
    by (auto simp: nip01_match_def split: if_splits)
  have lim: "take (unat (nf_limit any_filter)) [1 :: u64] = [1]"
    by (simp add: any_filter_def empty_filter_def Suc_le_eq unat_gt_0)
  have db: "lookup_Event mem_env one_db 0 = None" "small_times [1 \<mapsto> ev_old]"
    by (simp_all add: one_db_def small_times_def ev_old_def split: if_splits)
  have "\<exists>N. \<forall>n\<ge>N. foreachByFilter n mem_env le_lib (\<lambda>_. 0) one_db (JObject []) (\<lambda>l acc. Inr (acc @ [l])) [] = Some (Inr [1])"
    using foreachByFilter_exact [OF mem_scan.scan_env_axioms one_db_facts(2) db f _ few, of "\<lambda>_. 0" "\<lambda>l acc. Inr (acc @ [l])" "[]", unfolded sel]
    by (simp add: lim)
  then show ?thesis by blast
qed

end
