(* ===== verification/Http_Results.thy ===== *)
theory Http_Results
  imports Http_Server Query_Answer
begin

text \<open>
  What the HTTP handlers promise: the answers to submitted events and to batches, the events
  that reads and queries return, the effects on the metrics, and the count of active requests.
\<close>

section \<open>Effects that handlers share\<close>


lemma getTimestampMs_state [simp]: "snd (getTimestampMs P s) = s\<lparr>hs_ms := Suc (hs_ms s)\<rparr>"
  by (simp add: getTimestampMs_def)

lemma set_reply_sel [simp]:
  "rs_status (set_reply st b res) = st" "rs_body (set_reply st b res) = b" "rs_headers (set_reply st b res) = rs_headers res"
  by (simp_all add: set_reply_def set_content_def)

lemma finish_timed_sel [simp]:
  "hs_world (finish_timed P m path t st s) = hs_world s"
  "hs_eventProcessor (finish_timed P m path t st s) = hs_eventProcessor s"
  "hs_activeRequests (finish_timed P m path t st s) = hs_activeRequests s"
  "m_eventsAccepted (hs_metrics (finish_timed P m path t st s)) = m_eventsAccepted (hs_metrics s)"
  "m_eventsRejected (hs_metrics (finish_timed P m path t st s)) = m_eventsRejected (hs_metrics s)"
  "m_totalRequests (hs_metrics (finish_timed P m path t st s)) = m_totalRequests (hs_metrics s) + 1"
  by (simp_all add: finish_timed_def Let_def getTimestampMs_def logResponse_def count_request_def
      incrementRequestTotal_def observeRequestDuration_def)

lemma count_sel [simp]:
  "hs_world (count_accepted s) = hs_world s" "hs_world (count_rejected s) = hs_world s"
  "hs_eventProcessor (count_accepted s) = hs_eventProcessor s" "hs_eventProcessor (count_rejected s) = hs_eventProcessor s"
  "hs_activeRequests (count_accepted s) = hs_activeRequests s" "hs_activeRequests (count_rejected s) = hs_activeRequests s"
  "m_eventsAccepted (hs_metrics (count_accepted s)) = m_eventsAccepted (hs_metrics s) + 1"
  "m_eventsAccepted (hs_metrics (count_rejected s)) = m_eventsAccepted (hs_metrics s)"
  "m_eventsRejected (hs_metrics (count_rejected s)) = m_eventsRejected (hs_metrics s) + 1"
  "m_eventsRejected (hs_metrics (count_accepted s)) = m_eventsRejected (hs_metrics s)"
  "m_totalRequests (hs_metrics (count_accepted s)) = m_totalRequests (hs_metrics s)"
  "m_totalRequests (hs_metrics (count_rejected s)) = m_totalRequests (hs_metrics s)"
  by (simp_all add: count_accepted_def count_rejected_def incrementEventsAccepted_def incrementEventsRejected_def)

lemma count_request_sel [simp]:
  "hs_world (count_request m st s) = hs_world s" "hs_activeRequests (count_request m st s) = hs_activeRequests s"
  by (simp_all add: count_request_def)

section \<open>Submitting events\<close>

text \<open>An event with all the members that the handlers ask for.\<close>

definition complete_event :: "json \<Rightarrow> bool" where
  "complete_event v \<longleftrightarrow> (\<exists>kvs. v = JObject kvs \<and>
     (\<forall>k\<in>{''id'', ''pubkey'', ''content'', ''sig''}. \<exists>s. map_of kvs k = Some (JString s)) \<and>
     (\<forall>k\<in>{''created_at'', ''kind''}. \<exists>n. map_of kvs k = Some n \<and> is_number n) \<and>
     (\<exists>ts. map_of kvs ''tags'' = Some (JArray ts)))"

lemma is_kind_iff: "is_string x \<longleftrightarrow> (\<exists>s. x = JString s)" "is_array x \<longleftrightarrow> (\<exists>ts. x = JArray ts)"
  by (cases x; simp)+

lemma complete_event_fields:
  "complete_event (JObject kvs) \<longleftrightarrow> (\<forall>(k, ok)\<in>set event_fields. \<exists>x. map_of kvs k = Some x \<and> ok x)"
  by (simp add: complete_event_def event_fields_def is_kind_iff) blast

lemma has_fields_object:
  "has_fields (JObject kvs) ks = Inr (\<forall>(k, ok)\<in>set ks. \<exists>x. map_of kvs k = Some x \<and> ok x)"
  by (induction "JObject kvs" ks rule: has_fields.induct) (auto simp: json_find_def split: option.splits)

lemma has_fields_event: "is_object v \<Longrightarrow> has_fields v event_fields = Inr (complete_event v)"
  by (cases v) (simp_all add: has_fields_object complete_event_fields)


lemma complete_event_id:
  assumes "complete_event v"
  obtains i where "bindE (json_at v ''id'') get_string = Inr i"
proof -
  obtain kvs i where v: "v = JObject kvs" "map_of kvs ''id'' = Some (JString i)" using assms by (auto simp: complete_event_def)
  then have "bindE (json_at v ''id'') get_string = Inr i" by (simp add: json_at_def)
  then show thesis by (rule that)
qed

text \<open>The world after the processor got a list of texts, and its verdict on the next one.\<close>

definition feed :: "'w event_processor \<Rightarrow> string list \<Rightarrow> 'w \<Rightarrow> 'w" where
  "feed f ts w = fold (\<lambda>t w. snd (f t w)) ts w"

definition verdict :: "'w event_processor \<Rightarrow> string \<Rightarrow> 'w \<Rightarrow> bool" where
  "verdict f t w \<longleftrightarrow> (\<exists>m. fst (f t w) = Inr (True, m))"

text \<open>A processor that returns, as the one of the relay does, which catches all exceptions.\<close>

definition returns :: "'w event_processor \<Rightarrow> bool" where
  "returns f \<longleftrightarrow> (\<forall>t w. \<exists>b m. fst (f t w) = Inr (b, m))"

lemma call_processor_returns:
  assumes "hs_eventProcessor s = Some f" "returns f"
  obtains b m where "call_processor t s = (Inr (b, m), s\<lparr>hs_world := snd (f t (hs_world s))\<rparr>)" "b = verdict f t (hs_world s)"
proof -
  obtain b m where "fst (f t (hs_world s)) = Inr (b, m)" using assms(2) unfolding returns_def by blast
  then obtain w where f: "f t (hs_world s) = (Inr (b, m), w)" by (cases "f t (hs_world s)") simp
  show thesis by (rule that [of b m]) (simp_all add: call_processor_def assms(1) f verdict_def)
qed

text \<open>
  The first \<open>k\<close> events of the list are complete and accepted, one after the other, and the
  next one, if there is one, is not.
\<close>

definition accepted_prefix :: "'w event_processor \<Rightarrow> (json \<Rightarrow> string) \<Rightarrow> json list \<Rightarrow> 'w \<Rightarrow> nat \<Rightarrow> bool" where
  "accepted_prefix f show_json evs w k \<longleftrightarrow> k \<le> length evs \<and>
     (\<forall>i<k. complete_event (evs ! i) \<and> verdict f (show_json (evs ! i)) (feed f (map show_json (take i evs)) w)) \<and>
     (k < length evs \<longrightarrow>
        \<not> (complete_event (evs ! k) \<and> verdict f (show_json (evs ! k)) (feed f (map show_json (take k evs)) w)))"

lemma accepted_prefix_0:
  "\<not> (complete_event v \<and> verdict f (show_json v) w) \<Longrightarrow> accepted_prefix f show_json (v # evs) w 0"
  by (simp add: accepted_prefix_def feed_def)

lemma accepted_prefix_Suc:
  assumes "complete_event v" "verdict f (show_json v) w" "accepted_prefix f show_json evs (snd (f (show_json v) w)) k"
  shows "accepted_prefix f show_json (v # evs) w (Suc k)"
  using assms by (auto simp: accepted_prefix_def feed_def less_Suc_eq_0_disj)

lemma batch_loop_spec:
  assumes "hs_eventProcessor s = Some f" "returns f"
  shows "\<exists>k r s'. batch_loop P i evs s = (Inr r, s') \<and> accepted_prefix f (json_to_string (hp_lib P)) evs (hs_world s) k \<and>
    (r = None \<longleftrightarrow> k = length evs) \<and>
    hs_world s' = feed f (map (json_to_string (hp_lib P))
      (take (if k < length evs \<and> complete_event (evs ! k) then Suc k else k) evs)) (hs_world s) \<and>
    m_eventsAccepted (hs_metrics s') = m_eventsAccepted (hs_metrics s) + of_nat k \<and>
    hs_eventProcessor s' = Some f \<and> hs_activeRequests s' = hs_activeRequests s \<and>
    m_totalRequests (hs_metrics s') = m_totalRequests (hs_metrics s)"
  using assms(1)
proof (induction evs arbitrary: s i)
  case Nil
  then show ?case by (simp add: accepted_prefix_def feed_def)
next
  case (Cons v evs)
  let ?sh = "json_to_string (hp_lib P)"
  show ?case
  proof (cases "complete_event v")
    case False
    then have "is_object v \<Longrightarrow> has_fields v event_fields = Inr False" by (simp add: has_fields_event)
    then obtain body where "batch_loop P i (v # evs) s = (Inr (Some body), s)" by (cases "is_object v") auto
    moreover have "accepted_prefix f ?sh (v # evs) (hs_world s) 0" using False by (simp add: accepted_prefix_0)
    ultimately show ?thesis using False Cons.prems by (intro exI [of _ 0]) (simp add: feed_def)
  next
    case True
    then have obj: "is_object v" "has_fields v event_fields = Inr True"
      using has_fields_event [of v] by (auto simp: complete_event_def)
    obtain eid where eid: "bindE (json_at v ''id'') get_string = Inr eid" by (rule complete_event_id [OF True])
    obtain b m where call: "call_processor (?sh v) s = (Inr (b, m), s\<lparr>hs_world := snd (f (?sh v) (hs_world s))\<rparr>)"
      and b: "b = verdict f (?sh v) (hs_world s)"
      by (rule call_processor_returns [OF Cons.prems assms(2), where t = "?sh v"])
    show ?thesis
    proof (cases b)
      case False
      then obtain body where "batch_loop P i (v # evs) s = (Inr (Some body), count_rejected (s\<lparr>hs_world := snd (f (?sh v) (hs_world s))\<rparr>))"
        using obj eid call by simp
      moreover have "accepted_prefix f ?sh (v # evs) (hs_world s) 0" using False b by (simp add: accepted_prefix_0)
      ultimately show ?thesis using True Cons.prems by (intro exI [of _ 0]) (simp add: feed_def)
    next
      case acc: True
      let ?s1 = "count_accepted (s\<lparr>hs_world := snd (f (?sh v) (hs_world s))\<rparr>)"
      have step: "batch_loop P i (v # evs) s = batch_loop P (Suc i) evs ?s1" using obj eid call acc by simp
      obtain k r s' where ih: "batch_loop P (Suc i) evs ?s1 = (Inr r, s')" "accepted_prefix f ?sh evs (hs_world ?s1) k"
        "r = None \<longleftrightarrow> k = length evs"
        "hs_world s' = feed f (map ?sh (take (if k < length evs \<and> complete_event (evs ! k) then Suc k else k) evs)) (hs_world ?s1)"
        "m_eventsAccepted (hs_metrics s') = m_eventsAccepted (hs_metrics ?s1) + of_nat k"
        "hs_eventProcessor s' = Some f" "hs_activeRequests s' = hs_activeRequests ?s1"
        "m_totalRequests (hs_metrics s') = m_totalRequests (hs_metrics ?s1)"
        using Cons.IH [of ?s1 "Suc i"] Cons.prems by auto
      have "accepted_prefix f ?sh (v # evs) (hs_world s) (Suc k)"
        using accepted_prefix_Suc [OF True, of f ?sh "hs_world s" evs k] ih(2) acc b by simp
      then show ?thesis using step ih by (intro exI [of _ "Suc k"] exI [of _ r] exI [of _ s']) (simp add: feed_def)
    qed
  qed
qed

lemma batch_body_spec:
  assumes "hs_eventProcessor s = Some f" "returns f" "json_from_string (hp_lib P) (rq_body req) = Inr v"
    "batch_events v = Some evs" "evs \<noteq> []" "length evs \<le> 1000"
  shows "\<exists>k status body s'. batch_body P req s = (Inr (status, body), s') \<and>
    accepted_prefix f (json_to_string (hp_lib P)) evs (hs_world s) k \<and> status = (if k = length evs then 201 else 400) \<and>
    hs_world s' = feed f (map (json_to_string (hp_lib P))
      (take (if k < length evs \<and> complete_event (evs ! k) then Suc k else k) evs)) (hs_world s) \<and>
    m_eventsAccepted (hs_metrics s') = m_eventsAccepted (hs_metrics s) + of_nat k"
proof -
  obtain k r s' where loop: "batch_loop P 0 evs s = (Inr r, s')" "r = None \<longleftrightarrow> k = length evs"
    "accepted_prefix f (json_to_string (hp_lib P)) evs (hs_world s) k"
    "hs_world s' = feed f (map (json_to_string (hp_lib P))
      (take (if k < length evs \<and> complete_event (evs ! k) then Suc k else k) evs)) (hs_world s)"
    "m_eventsAccepted (hs_metrics s') = m_eventsAccepted (hs_metrics s) + of_nat k"
    using batch_loop_spec [OF assms(1,2), of P 0 evs] by blast
  then obtain body where "batch_body P req s = (Inr (if k = length evs then 201 else 400, body), s')"
    using assms(3-6) by (cases r) (auto simp: batch_body_def MAX_BATCH_SIZE_def)
  with loop show ?thesis by blast
qed

section \<open>Reading events\<close>

section \<open>Queries\<close>

fun join_commas :: "string list \<Rightarrow> string" where
  "join_commas [] = []"
| "join_commas [x] = x"
| "join_commas (x # y # xs) = x @ '','' @ join_commas (y # xs)"

lemma join_commas_append: "join_commas (xs @ [x]) = (if xs = [] then x else join_commas xs @ '','' @ x)"
  by (induction xs rule: join_commas.induct) auto

lemma mapE_append: "mapE f (xs @ [x]) = bindE (mapE f xs) (\<lambda>ys. bindE (f x) (\<lambda>y. Inr (ys @ [y])))"
  by (induction xs) (simp_all add: bindE_def split: sum.split)

text \<open>The callback builds the array of the first 10000 texts; the events after them are passed over.\<close>

lemma foldE_query_cb:
  assumes "mapE (event_json P db) (take 10000 ls) = Inr js"
  shows "foldE (query_cb P db) ls (''['', 0, True) = Inr (''['' @ join_commas js, of_nat (length js), js = [])"
  using assms
proof (induction ls arbitrary: js rule: rev_induct)
  case (snoc l ls)
  show ?case
  proof (cases "length ls < 10000")
    case True
    then obtain js' j where js: "mapE (event_json P db) ls = Inr js'" "event_json P db l = Inr j" "js = js' @ [j]"
      using snoc.prems by (auto simp: mapE_append bindE_eq_Inr)
    then have "length js' < 10000" using length_mapE [OF js(1)] True by simp
    then have "query_cb P db l (''['' @ join_commas js', of_nat (length js'), js' = []) = Inr (''['' @ join_commas js, of_nat (length js), js = [])"
      by (simp add: query_cb_def js MAX_QUERY_RESULTS_def word_le_nat_alt unat_of_nat join_commas_append)
    moreover have "foldE (query_cb P db) ls (''['', 0, True) = Inr (''['' @ join_commas js', of_nat (length js'), js' = [])"
      by (rule snoc.IH) (use js(1) True in simp)
    ultimately show ?thesis by (simp add: foldE_append)
  next
    case False
    then have js: "mapE (event_json P db) (take 10000 ls) = Inr js" using snoc.prems by simp
    then have "length js = 10000" using length_mapE [OF js] False by simp
    then have "query_cb P db l (''['' @ join_commas js, of_nat (length js), js = []) = Inr (''['' @ join_commas js, of_nat (length js), js = [])"
      by (simp add: query_cb_def MAX_QUERY_RESULTS_def)
    then show ?thesis using snoc.IH [OF js] by (simp add: foldE_append)
  qed
qed simp

text \<open>The filter object of a request, if it has one.\<close>

definition requested_filter :: "('db, 'w) http_params \<Rightarrow> http_request \<Rightarrow> json \<Rightarrow> bool" where
  "requested_filter P req v \<longleftrightarrow>
     (if rq_method req = ''POST'' \<and> rq_body req \<noteq> [] then json_from_string (hp_lib P) (rq_body req) = Inr v
      else params_filter req = Inr v)"

text \<open>
  What the query parameters ask of an event, and the number of events they ask for, read off the
  parameters: \<^verbatim>\<open>ids\<close>, \<^verbatim>\<open>authors\<close> and \<^verbatim>\<open>kinds\<close> are lists with commas, the first two in hex;
  \<^verbatim>\<open>since\<close>, \<^verbatim>\<open>until\<close> and \<^verbatim>\<open>limit\<close> are numbers.  A parameter without a value counts as absent.
\<close>

definition given :: "http_request \<Rightarrow> string \<Rightarrow> string \<Rightarrow> bool" where
  "given req k v \<longleftrightarrow> rq_param req k = Some v \<and> v \<noteq> []"

definition params_ok :: "http_request \<Rightarrow> bool" where
  "params_ok req \<longleftrightarrow> (\<forall>v. given req ''kinds'' v \<longrightarrow> (\<forall>t\<in>set (getlines v). \<exists>n. std_stoull t = Inr n)) \<and>
     (\<forall>k\<in>{''since'', ''until'', ''limit''}. \<forall>v. given req k v \<longrightarrow> (\<exists>n. std_stoull v = Inr n))"

definition params_match :: "lib \<Rightarrow> http_request \<Rightarrow> event \<Rightarrow> bool" where
  "params_match L req e \<longleftrightarrow>
     (\<forall>v. given req ''ids'' v \<longrightarrow> (\<exists>t\<in>set (getlines v). from_hex L t False = Inr (ev_id e))) \<and>
     (\<forall>v. given req ''authors'' v \<longrightarrow> (\<exists>t\<in>set (getlines v). from_hex L t False = Inr (ev_pubkey e))) \<and>
     (\<forall>v. given req ''kinds'' v \<longrightarrow> (\<exists>t\<in>set (getlines v). std_stoull t = Inr (ev_kind e))) \<and>
     (\<forall>v n. given req ''since'' v \<longrightarrow> std_stoull v = Inr n \<longrightarrow> n \<le> ev_created_at e) \<and>
     (\<forall>v n. given req ''until'' v \<longrightarrow> std_stoull v = Inr n \<longrightarrow> ev_created_at e \<le> n)"

definition params_limit :: "http_request \<Rightarrow> u64" where
  "params_limit req =
     (case rq_param req ''limit'' of
        Some v \<Rightarrow> if v = [] then MAX_U64 else (case std_stoull v of Inr n \<Rightarrow> n | Inl _ \<Rightarrow> MAX_U64)
      | None \<Rightarrow> MAX_U64)"

text \<open>The parts of the filter that the parameters become.\<close>

lemma given_cases:
  obtains "get_param req k = []" "\<And>v. \<not> given req k v"
  | v where "get_param req k = v" "v \<noteq> []" "\<And>w. given req k w \<longleftrightarrow> w = v"
proof (cases "get_param req k = []")
  case True
  then show thesis by (intro that(1)) (auto simp: get_param_def given_def)
next
  case False
  then show thesis by (intro that(2) [of "get_param req k"]) (auto simp: get_param_def given_def split: option.splits)
qed

lemma list_param_cases:
  obtains "list_param req k = []" "\<And>v. \<not> given req k v"
  | v where "list_param req k = [(k, JArray (map JString (getlines v)))]" "\<And>w. given req k w \<longleftrightarrow> w = v"
proof (cases rule: given_cases [of req k])
  case 1
  then show thesis by (intro that(1)) (simp_all add: list_param_def)
next
  case (2 v)
  then show thesis by (intro that(2) [of v]) (simp_all add: list_param_def)
qed

lemma number_param_cases:
  assumes "\<forall>v. given req k v \<longrightarrow> (\<exists>n. std_stoull v = Inr n)"
  obtains "number_param req k m = Inr []" "\<And>v. \<not> given req k v"
  | v n where "number_param req k m = Inr [(k, JUnsigned n)]" "std_stoull v = Inr n" "\<And>w. given req k w \<longleftrightarrow> w = v"
proof (cases rule: given_cases [of req k])
  case 1
  then show thesis by (intro that(1)) (simp_all add: number_param_def)
next
  case (2 v)
  then obtain n where "std_stoull v = Inr n" using assms by blast
  with 2 show thesis by (intro that(2) [of n v]) (simp_all add: number_param_def)
qed

lemma mapE_total: "\<forall>x\<in>set xs. \<exists>y. f x = Inr y \<Longrightarrow> \<exists>ys. mapE f xs = Inr ys \<and> set ys = {y. \<exists>x\<in>set xs. f x = Inr y}"
  by (induction xs) (force simp: bindE_def split: sum.splits)+

lemma kinds_param_cases:
  assumes "\<forall>v. given req ''kinds'' v \<longrightarrow> (\<forall>t\<in>set (getlines v). \<exists>n. std_stoull t = Inr n)"
  obtains "kinds_param req = Inr []" "\<And>v. \<not> given req ''kinds'' v"
  | v ks where "kinds_param req = Inr [(''kinds'', JArray (map JUnsigned ks))]" "set ks = {n. \<exists>t\<in>set (getlines v). std_stoull t = Inr n}"
      "\<And>w. given req ''kinds'' w \<longleftrightarrow> w = v"
proof (cases rule: given_cases [of req "''kinds''"])
  case 1
  then show thesis by (intro that(1)) (simp_all add: kinds_param_def)
next
  case (2 v)
  then obtain ks where "mapE std_stoull (getlines v) = Inr ks" "set ks = {n. \<exists>t\<in>set (getlines v). std_stoull t = Inr n}"
    using assms mapE_total [of "getlines v" std_stoull] by blast
  with 2 show thesis by (intro that(2) [of ks v]) (simp_all add: kinds_param_def)
qed

text \<open>The conditions on an event, one parameter at a time.\<close>

lemma nip01_entries:
  "nip01_entry L e (''ids'', JArray (map JString ts)) \<longleftrightarrow> (\<exists>t\<in>set ts. from_hex L t False = Inr (ev_id e))"
  "nip01_entry L e (''authors'', JArray (map JString ts)) \<longleftrightarrow> (\<exists>t\<in>set ts. from_hex L t False = Inr (ev_pubkey e))"
  "nip01_entry L e (''kinds'', JArray (map JUnsigned ks)) \<longleftrightarrow> ev_kind e \<in> set ks"
  "nip01_entry L e (''since'', JUnsigned n) \<longleftrightarrow> n \<le> ev_created_at e"
  "nip01_entry L e (''until'', JUnsigned n) \<longleftrightarrow> ev_created_at e \<le> n"
  "nip01_entry L e (''limit'', JUnsigned n)"
  by (auto simp: nip01_entry_def hex_member_def json_strings_def json_unsigneds_def starts_with_def)

definition one_entry :: "string \<Rightarrow> (string \<times> json) list \<Rightarrow> bool" where
  "one_entry k kvs \<longleftrightarrow> kvs = [] \<or> (\<exists>v. kvs = [(k, v)])"

lemma one_entries:
  assumes "one_entry ''authors'' a" "one_entry ''ids'' b" "one_entry ''kinds'' c" "one_entry ''limit'' d" "one_entry ''since'' g" "one_entry ''until'' h"
  shows "distinct (map fst (a @ b @ c @ d @ g @ h))" "asked_limit (a @ b @ c @ d @ g @ h) = asked_limit d"
  using assms unfolding one_entry_def by (elim disjE exE; simp add: asked_limit_def)+

lemma list_param_one: "one_entry k (list_param req k)"
  by (simp add: list_param_def one_entry_def)

lemma list_param_means:
  "(\<forall>kv\<in>set (list_param req ''ids''). nip01_entry L e kv) \<longleftrightarrow>
     (\<forall>v. given req ''ids'' v \<longrightarrow> (\<exists>t\<in>set (getlines v). from_hex L t False = Inr (ev_id e)))"
  "(\<forall>kv\<in>set (list_param req ''authors''). nip01_entry L e kv) \<longleftrightarrow>
     (\<forall>v. given req ''authors'' v \<longrightarrow> (\<exists>t\<in>set (getlines v). from_hex L t False = Inr (ev_pubkey e)))"
  by (cases rule: list_param_cases [of req "''ids''"]; simp add: nip01_entries)
    (cases rule: list_param_cases [of req "''authors''"]; simp add: nip01_entries)

lemma kinds_param_means:
  assumes "params_ok req"
  shows "\<exists>ks. kinds_param req = Inr ks \<and> one_entry ''kinds'' ks \<and>
    (\<forall>e. (\<forall>kv\<in>set ks. nip01_entry L e kv) \<longleftrightarrow> (\<forall>v. given req ''kinds'' v \<longrightarrow> (\<exists>t\<in>set (getlines v). std_stoull t = Inr (ev_kind e))))"
proof -
  have "\<forall>v. given req ''kinds'' v \<longrightarrow> (\<forall>t\<in>set (getlines v). \<exists>n. std_stoull t = Inr n)" using assms by (simp add: params_ok_def)
  then show ?thesis by (cases rule: kinds_param_cases) (simp_all add: nip01_entries one_entry_def)
qed

lemma number_param_means:
  assumes "params_ok req"
  shows "\<exists>kvs. number_param req ''since'' m = Inr kvs \<and> one_entry ''since'' kvs \<and>
      (\<forall>e. (\<forall>kv\<in>set kvs. nip01_entry L e kv) \<longleftrightarrow> (\<forall>v n. given req ''since'' v \<longrightarrow> std_stoull v = Inr n \<longrightarrow> n \<le> ev_created_at e))"
    "\<exists>kvs. number_param req ''until'' m = Inr kvs \<and> one_entry ''until'' kvs \<and>
      (\<forall>e. (\<forall>kv\<in>set kvs. nip01_entry L e kv) \<longleftrightarrow> (\<forall>v n. given req ''until'' v \<longrightarrow> std_stoull v = Inr n \<longrightarrow> ev_created_at e \<le> n))"
    "\<exists>kvs. number_param req ''limit'' m = Inr kvs \<and> one_entry ''limit'' kvs \<and>
      (\<forall>e. \<forall>kv\<in>set kvs. nip01_entry L e kv) \<and> asked_limit kvs = params_limit req"
proof -
  have nums: "\<forall>v. given req k v \<longrightarrow> (\<exists>n. std_stoull v = Inr n)" if "k \<in> {''since'', ''until'', ''limit''}" for k
    using assms that unfolding params_ok_def by blast
  note entries = nip01_entries one_entry_def asked_limit_def
  have "\<forall>v. given req ''since'' v \<longrightarrow> (\<exists>n. std_stoull v = Inr n)" by (rule nums) simp
  then show "\<exists>kvs. number_param req ''since'' m = Inr kvs \<and> one_entry ''since'' kvs \<and>
      (\<forall>e. (\<forall>kv\<in>set kvs. nip01_entry L e kv) \<longleftrightarrow> (\<forall>v n. given req ''since'' v \<longrightarrow> std_stoull v = Inr n \<longrightarrow> n \<le> ev_created_at e))"
    by (cases rule: number_param_cases [where m = m]) (simp_all add: entries)
  have "\<forall>v. given req ''until'' v \<longrightarrow> (\<exists>n. std_stoull v = Inr n)" by (rule nums) simp
  then show "\<exists>kvs. number_param req ''until'' m = Inr kvs \<and> one_entry ''until'' kvs \<and>
      (\<forall>e. (\<forall>kv\<in>set kvs. nip01_entry L e kv) \<longleftrightarrow> (\<forall>v n. given req ''until'' v \<longrightarrow> std_stoull v = Inr n \<longrightarrow> ev_created_at e \<le> n))"
    by (cases rule: number_param_cases [where m = m]) (simp_all add: entries)
  have "\<forall>v. given req ''limit'' v \<longrightarrow> (\<exists>n. std_stoull v = Inr n)" by (rule nums) simp
  then show "\<exists>kvs. number_param req ''limit'' m = Inr kvs \<and> one_entry ''limit'' kvs \<and>
      (\<forall>e. \<forall>kv\<in>set kvs. nip01_entry L e kv) \<and> asked_limit kvs = params_limit req"
  proof (cases rule: number_param_cases [where m = m])
    case 1
    then have "rq_param req ''limit'' = None \<or> rq_param req ''limit'' = Some []" by (cases "rq_param req ''limit''") (auto simp: given_def)
    with 1(1) show ?thesis by (auto simp: entries params_limit_def)
  next
    case (2 v n)
    then have "rq_param req ''limit'' = Some v" "v \<noteq> []" using 2(3) [of v] by (auto simp: given_def)
    with 2(1,2) show ?thesis by (simp add: entries params_limit_def)
  qed
qed

lemma params_filter_means:
  assumes "params_ok req"
  shows "\<exists>kvs. params_filter req = Inr (JObject kvs) \<and> distinct (map fst kvs) \<and>
    (\<forall>e. nip01_match L e kvs \<longleftrightarrow> params_match L req e) \<and> asked_limit kvs = params_limit req"
proof -
  let ?a = "list_param req ''authors''" and ?i = "list_param req ''ids''"
  from kinds_param_means [OF assms, of L] obtain ks where ks: "kinds_param req = Inr ks" "one_entry ''kinds'' ks"
    "\<And>e. (\<forall>kv\<in>set ks. nip01_entry L e kv) \<longleftrightarrow> (\<forall>v. given req ''kinds'' v \<longrightarrow> (\<exists>t\<in>set (getlines v). std_stoull t = Inr (ev_kind e)))"
    by (elim exE conjE) simp
  from number_param_means(1) [OF assms, of "''Invalid since parameter''" L]
  obtain si where si: "number_param req ''since'' ''Invalid since parameter'' = Inr si" "one_entry ''since'' si"
    "\<And>e. (\<forall>kv\<in>set si. nip01_entry L e kv) \<longleftrightarrow> (\<forall>v n. given req ''since'' v \<longrightarrow> std_stoull v = Inr n \<longrightarrow> n \<le> ev_created_at e)"
    by (elim exE conjE) simp
  from number_param_means(2) [OF assms, of "''Invalid until parameter''" L]
  obtain un where un: "number_param req ''until'' ''Invalid until parameter'' = Inr un" "one_entry ''until'' un"
    "\<And>e. (\<forall>kv\<in>set un. nip01_entry L e kv) \<longleftrightarrow> (\<forall>v n. given req ''until'' v \<longrightarrow> std_stoull v = Inr n \<longrightarrow> ev_created_at e \<le> n)"
    by (elim exE conjE) simp
  from number_param_means(3) [OF assms, of "''Invalid limit parameter''" L]
  obtain li where li: "number_param req ''limit'' ''Invalid limit parameter'' = Inr li" "one_entry ''limit'' li"
    "\<And>e. \<forall>kv\<in>set li. nip01_entry L e kv" "asked_limit li = params_limit req"
    by (elim exE conjE) simp
  let ?kvs = "?a @ ?i @ ks @ li @ si @ un"
  note shape = one_entries [OF list_param_one list_param_one ks(2) li(2) si(2) un(2), of req req]
  have "params_filter req = Inr (JObject ?kvs)" by (simp add: params_filter_def ks(1) si(1) un(1) li(1))
  moreover have "nip01_match L e ?kvs \<longleftrightarrow> params_match L req e" for e
    unfolding nip01_match_def set_append ball_Un params_match_def ks(3) si(3) un(3) list_param_means
    using li(3) [of e] by blast
  ultimately show ?thesis using shape li(4) by (intro exI [of _ ?kvs]) simp
qed

text \<open>
  What a request asks for, whether it came as a JSON object or as parameters, and the requests
  that can be answered: the object or the parameters can be read, and the filter is accepted.
\<close>

definition by_body :: "http_request \<Rightarrow> bool" where
  "by_body req \<longleftrightarrow> rq_method req = ''POST'' \<and> rq_body req \<noteq> []"

definition request_match :: "lib \<Rightarrow> http_request \<Rightarrow> event \<Rightarrow> bool" where
  "request_match L req e \<longleftrightarrow>
     (if by_body req then (case json_from_string L (rq_body req) of Inr (JObject kvs) \<Rightarrow> nip01_match L e kvs | _ \<Rightarrow> False)
      else params_match L req e)"

definition request_limit :: "lib \<Rightarrow> http_request \<Rightarrow> u64" where
  "request_limit L req =
     (if by_body req then (case json_from_string L (rq_body req) of Inr (JObject kvs) \<Rightarrow> asked_limit kvs | _ \<Rightarrow> 0)
      else params_limit req)"

definition readable_request :: "lib \<Rightarrow> http_request \<Rightarrow> bool" where
  "readable_request L req \<longleftrightarrow>
     (if by_body req then (\<exists>kvs. json_from_string L (rq_body req) = Inr (JObject kvs) \<and> distinct (map fst kvs)) else params_ok req)"

definition accepted_request :: "('db, 'w) http_params \<Rightarrow> http_request \<Rightarrow> bool" where
  "accepted_request P req \<longleftrightarrow>
     (\<forall>v. requested_filter P req v \<longrightarrow> (\<exists>f. NostrFilter (hp_lib P) v MAX_U64 = Inr f \<and> few_values f))"

definition requested_events :: "lib \<Rightarrow> http_request \<Rightarrow> store \<Rightarrow> u64 list" where
  "requested_events L req M = take (unat (request_limit L req))
     (map snd (rev (sorted_list_of_set {(ev_created_at e, l) | e l. M l = Some e \<and> request_match L req e})))"

lemma readable_request_means:
  assumes "readable_request (hp_lib P) req"
  shows "\<exists>kvs. requested_filter P req (JObject kvs) \<and> distinct (map fst kvs) \<and>
    (\<forall>e. nip01_match (hp_lib P) e kvs \<longleftrightarrow> request_match (hp_lib P) req e) \<and> asked_limit kvs = request_limit (hp_lib P) req"
proof (cases "by_body req")
  case True
  then obtain kvs where "json_from_string (hp_lib P) (rq_body req) = Inr (JObject kvs)" "distinct (map fst kvs)"
    using assms by (auto simp: readable_request_def)
  with True show ?thesis by (simp add: by_body_def requested_filter_def request_match_def request_limit_def)
next
  case False
  then have "params_ok req" using assms by (simp add: readable_request_def)
  from params_filter_means [OF this, of "hp_lib P"] False show ?thesis
    unfolding requested_filter_def request_match_def request_limit_def by (auto simp: by_body_def)
qed

lemma requested_events_chosen:
  assumes "NostrFilter L (JObject kvs) MAX_U64 = Inr f" "distinct (map fst kvs)"
    and "\<And>e. nip01_match L e kvs \<longleftrightarrow> request_match L req e" "asked_limit kvs = request_limit L req"
  shows "chosen L M kvs f = requested_events L req M"
proof -
  have "nf_limit f = asked_limit kvs" using NostrFilter_limit [OF assms(1,2)] by (simp add: min_def word_order.extremum_unique)
  then show ?thesis by (simp add: chosen_def requested_events_def assms(3,4))
qed

lemma query_body_run:
  assumes "requested_filter P req v" "query_db P n db v (query_cb P db) (''['', 0, True) = Some (Inr (str, cnt, b))"
  shows "query_body P n req db = Some (Inr (Query_ok cnt (str @ '']'')))"
  using assms by (auto simp: query_body_def requested_filter_def split: if_splits)

lemma handleQuery_ok:
  assumes "query_body P n req (hp_snapshot P (hs_world s)) = Some (Inr (Query_ok cnt body))"
  shows "handleQuery P n req (s, res) =
    Some (Inr (count_request (rq_method req) 200 (s\<lparr>hs_metrics := observeQueryResults cnt (hs_metrics s)\<rparr>), set_reply 200 body res))"
  using assms by (simp add: handleQuery_def)

section \<open>Active requests and the gate in front of the handlers\<close>

lemma finish_frame [simp]:
  "hs_rateLimiter (finish_timed P m path t st s) = hs_rateLimiter s" "hs_ticks (finish_timed P m path t st s) = hs_ticks s"
  by (simp_all add: finish_timed_def Let_def getTimestampMs_def logResponse_def count_request_def)

definition same_gate :: "'w http_state \<Rightarrow> 'w http_state \<Rightarrow> bool" where
  "same_gate s s' \<longleftrightarrow> hs_activeRequests s' = hs_activeRequests s \<and> hs_rateLimiter s' = hs_rateLimiter s \<and> hs_ticks s' = hs_ticks s"

lemma same_gate_refl [simp]: "same_gate s s"
  by (simp add: same_gate_def)

lemma same_gate_trans: "same_gate s s' \<Longrightarrow> same_gate s' s'' \<Longrightarrow> same_gate s s''"
  by (simp add: same_gate_def)

lemma same_gate_steps [simp]:
  "same_gate s (s'\<lparr>hs_ms := k\<rparr>) = same_gate s s'" "same_gate s (s'\<lparr>hs_world := w\<rparr>) = same_gate s s'"
  "same_gate s (count_request m st s') = same_gate s s'" "same_gate s (count_accepted s') = same_gate s s'"
  "same_gate s (count_rejected s') = same_gate s s'" "same_gate s (finish_timed P m path t st s') = same_gate s s'"
  "same_gate (count_accepted s) s' = same_gate s s'" "same_gate s (logResponse P s') = same_gate s s'" "same_gate s (s'\<lparr>hs_metrics := mt\<rparr>) = same_gate s s'"
  by (simp_all add: same_gate_def count_request_def count_accepted_def count_rejected_def logResponse_def getTimestampMs_def)

lemma call_processor_gate: "call_processor t s = (r, s') \<Longrightarrow> same_gate s s'"
  by (auto simp: call_processor_def split: option.splits prod.splits)

lemma event_post_body_gate: "event_post_body P req s = (r, s') \<Longrightarrow> same_gate s s'"
  unfolding event_post_body_def
  by (auto split: sum.splits exn.splits bool.splits prod.splits dest: call_processor_gate)

lemma batch_loop_gate: "batch_loop P i evs s = (r, s') \<Longrightarrow> same_gate s s'"
proof (induction evs arbitrary: i s)
  case (Cons v evs)
  then show ?case
    by (auto split: if_splits sum.splits bool.splits prod.splits dest!: call_processor_gate Cons.IH elim!: same_gate_trans)
qed simp

lemma batch_body_gate: "batch_body P req s = (r, s') \<Longrightarrow> same_gate s s'"
  unfolding batch_body_def
  by (auto split: sum.splits exn.splits option.splits if_splits prod.splits dest: batch_loop_gate)

lemma query_finish_gate: "query_finish P m q (s, res) = (s', res') \<Longrightarrow> same_gate s s'"
  by (cases q) auto

lemma run_route_gate:
  assumes "run_route P n r req (s, res) = Some (Inr (s', res'))"
  shows "same_gate s s'"
proof (cases r)
  case R_query
  with assms show ?thesis
    by (auto simp: handleQuery_def bindE_eq_Inr dest!: query_finish_gate split: prod.splits)
next
  case R_event_post
  with assms show ?thesis
    by (auto simp: handleEventPost_def getTimestampMs_def bindE_eq_Inr dest!: event_post_body_gate split: prod.splits)
      (simp_all add: same_gate_def)
next
  case R_event_batch
  with assms show ?thesis
    by (auto simp: handleEventPostBatch_def getTimestampMs_def bindE_eq_Inr dest!: batch_body_gate split: prod.splits)
      (simp_all add: same_gate_def)
qed (use assms in \<open>auto simp: handleBatchFetch_def handleGetQuoteByDTag_def handleGetQuote_def handleHealthCheck_def
      handleMetrics_def getTimestampMs_def bindE_eq_Inr split: prod.splits\<close>)

text \<open>Requests that the limiter decides about.\<close>

definition limited :: "('db, 'w) http_params \<Rightarrow> http_request \<Rightarrow> bool" where
  "limited P req \<longleftrightarrow> rq_path req \<noteq> ''/health'' \<and> rq_path req \<noteq> ''/metrics'' \<and> \<not> (rq_method req = ''OPTIONS'' \<and> hp_enableCors P)"

lemma pre_routing_limited:
  assumes "limited P req" "hs_rateLimiter s = Some rl" "pre_routing P reqId req (s, res) = (handled, s1, res1)"
    and "checkAndConsume (hp_steady P) (hs_ticks s) rl (getClientIP (hp_trustProxy P) req) (extractPubkeyFromRequest req) = (v, rl', t)"
  shows "handled = (\<not> allowed v)" "hs_rateLimiter s1 = Some rl'" "hs_ticks s1 = t"
    "hs_activeRequests s1 = hs_activeRequests s + (if handled then 0 else 1)"
  using assms
  by (auto simp: pre_routing_def limited_def Let_def getTimestampMs_def decrementActiveRequests_def logResponse_def
      count_request_def split: if_splits)

lemma pre_routing_exempt:
  assumes "\<not> limited P req" "pre_routing P reqId req (s, res) = (handled, s1, res1)"
  shows "hs_rateLimiter s1 = hs_rateLimiter s" "hs_ticks s1 = hs_ticks s"
    "hs_activeRequests s1 = hs_activeRequests s + (if handled then 0 else 1)"
  using assms
  by (auto simp: pre_routing_def limited_def Let_def getTimestampMs_def decrementActiveRequests_def logResponse_def
      count_request_def split: if_splits)

lemma pre_routing_active:
  assumes "pre_routing P reqId req (s, res) = (handled, s1, res1)"
  shows "hs_activeRequests s1 = hs_activeRequests s + (if handled then 0 else 1)"
  using assms
  by (auto simp: pre_routing_def Let_def getTimestampMs_def decrementActiveRequests_def logResponse_def
      count_request_def split: if_splits option.splits prod.splits)

text \<open>
  A request from its arrival to its answer: the pre-routing handler, the handler of its route
  unless the request is answered already, and the post-routing handler, which the library
  calls before it writes any response.
\<close>

definition new_response :: http_response where
  "new_response = \<lparr>rs_status = -1, rs_headers = [], rs_body = [], rs_type = []\<rparr>"

definition serve :: "('db, 'w) http_params \<Rightarrow> nat \<Rightarrow> string \<times> route \<times> http_request \<Rightarrow> 'w http_state \<Rightarrow> 'w http_state" where
  "serve P n x s =
     (case x of (reqId, r, req) \<Rightarrow>
      case pre_routing P reqId req (s, new_response) of (handled, s1, res1) \<Rightarrow>
        if handled then post_routing s1
        else (case run_route P n r req (s1, res1) of
                Some (Inr (s2, _)) \<Rightarrow> post_routing s2
              | _ \<Rightarrow> s1))"

definition passes_gate :: "('db, 'w) http_params \<Rightarrow> string \<times> route \<times> http_request \<Rightarrow> 'w http_state \<Rightarrow> bool" where
  "passes_gate P x s \<longleftrightarrow>
     (case x of (reqId, r, req) \<Rightarrow> limited P req \<and> \<not> fst (pre_routing P reqId req (s, new_response)))"

definition limiter_state :: "'w http_state \<Rightarrow> rate_limiter \<times> nat" where
  "limiter_state s = (the (hs_rateLimiter s), hs_ticks s)"

lemma post_routing_sel [simp]:
  "hs_rateLimiter (post_routing s) = hs_rateLimiter s" "hs_ticks (post_routing s) = hs_ticks s"
  "hs_activeRequests (post_routing s) = hs_activeRequests s - 1"
  by (simp_all add: post_routing_def decrementActiveRequests_def)

lemma serve_gate:
  assumes "pre_routing P reqId req (s, new_response) = (handled, s1, res1)"
  shows "hs_rateLimiter (serve P n (reqId, r, req) s) = hs_rateLimiter s1 \<and> hs_ticks (serve P n (reqId, r, req) s) = hs_ticks s1"
proof (cases "run_route P n r req (s1, res1)")
  case None
  then show ?thesis by (simp add: serve_def assms)
next
  case (Some x)
  show ?thesis
  proof (cases x)
    case (Inr y)
    obtain s2 res2 where y: "y = (s2, res2)" by (cases y)
    with Some Inr have "same_gate s1 s2" by (intro run_route_gate) simp
    then show ?thesis by (simp add: serve_def assms Some Inr y same_gate_def)
  qed (simp add: serve_def assms Some)
qed

text \<open>For the limiter, serving a request is one check or nothing.\<close>

lemma serve_limiter:
  assumes "hs_rateLimiter s = Some rl"
  shows "hs_rateLimiter (serve P n (reqId, r, req) s) \<noteq> None \<and>
    limiter_state (serve P n (reqId, r, req) s) =
      (if limited P req then rl_step (hp_steady P) (Check (getClientIP (hp_trustProxy P) req) (extractPubkeyFromRequest req)) (limiter_state s)
       else limiter_state s) \<and>
    (passes_gate P (reqId, r, req) s \<longrightarrow> limited P req \<and>
      rl_allowed (hp_steady P) (Check (getClientIP (hp_trustProxy P) req) (extractPubkeyFromRequest req)) (limiter_state s))"
proof -
  obtain handled s1 res1 where pre: "pre_routing P reqId req (s, new_response) = (handled, s1, res1)" by (rule prod_cases3)
  have gate: "hs_rateLimiter (serve P n (reqId, r, req) s) = hs_rateLimiter s1 \<and> hs_ticks (serve P n (reqId, r, req) s) = hs_ticks s1"
    by (rule serve_gate [OF pre])
  obtain v rl' t where run: "checkAndConsume (hp_steady P) (hs_ticks s) rl (getClientIP (hp_trustProxy P) req)
      (extractPubkeyFromRequest req) = (v, rl', t)"
    by (rule prod_cases3)
  show ?thesis
  proof (cases "limited P req")
    case True
    note facts = pre_routing_limited [OF True assms pre run]
    show ?thesis using gate facts True run assms by (simp add: limiter_state_def passes_gate_def pre)
  next
    case False
    note facts = pre_routing_exempt [OF False pre]
    show ?thesis using gate facts False assms by (simp add: limiter_state_def passes_gate_def)
  qed
qed

interpretation gate: admission "serve P n" "passes_gate P" "\<lambda>_. True"
  "\<lambda>s. hs_rateLimiter s \<noteq> None \<and> rl_inv (hp_steady P) cfg (limiter_state s) \<and> cfg_enabled cfg \<and> cfg_globalPerMinute cfg > 0"
  "\<lambda>s. global_credit (hp_steady P) (limiter_state s)" "\<lambda>s. run_time (hp_steady P) (limiter_state s)"
  "rate_of (cfg_globalPerMinute cfg)"
  for P :: "('db, 'w) http_params" and n cfg
proof
  fix s :: "'w http_state" and x :: "string \<times> route \<times> http_request"
  assume inv: "hs_rateLimiter s \<noteq> None \<and> rl_inv (hp_steady P) cfg (limiter_state s) \<and> cfg_enabled cfg \<and> cfg_globalPerMinute cfg > 0"
  obtain reqId r req rl where x: "x = (reqId, r, req)" "hs_rateLimiter s = Some rl" using inv by (cases x) auto
  let ?c = "Check (getClientIP (hp_trustProxy P) req) (extractPubkeyFromRequest req)"
  note sim = serve_limiter [OF x(2), of P n reqId r req]
  have inv': "rl_inv (hp_steady P) cfg (limiter_state s) \<and> cfg_enabled cfg \<and> cfg_globalPerMinute cfg > 0" using inv by simp
  note step = global_admission.inv_step [OF inv', of ?c] global_admission.credit_step [OF inv', of ?c]
  show "hs_rateLimiter (serve P n x s) \<noteq> None \<and> rl_inv (hp_steady P) cfg (limiter_state (serve P n x s)) \<and>
      cfg_enabled cfg \<and> cfg_globalPerMinute cfg > 0"
    using sim step(1) inv by (auto simp: x(1))
  show "global_credit (hp_steady P) (limiter_state (serve P n x s)) + (if passes_gate P x s then 1 else 0) \<le>
      global_credit (hp_steady P) (limiter_state s) + rate_of (cfg_globalPerMinute cfg) *
      (run_time (hp_steady P) (limiter_state (serve P n x s)) - run_time (hp_steady P) (limiter_state s))"
    using sim step(2) by (auto simp: x(1) split: if_splits)
next
  fix s :: "'w http_state"
  assume "hs_rateLimiter s \<noteq> None \<and> rl_inv (hp_steady P) cfg (limiter_state s) \<and> cfg_enabled cfg \<and> cfg_globalPerMinute cfg > 0"
  then show "0 \<le> global_credit (hp_steady P) (limiter_state s)"
    by (intro global_admission.credit_nonneg [where cfg = cfg]) simp
qed

section \<open>An instance\<close>

text \<open>A server over the in-memory database, and a JSON parser that knows one text only.\<close>

definition parses_to :: "json \<Rightarrow> lib" where
  "parses_to v = le_lib\<lparr>json_from_string := \<lambda>_. Inr v\<rparr>"

definition demo_params :: "lib \<Rightarrow> (mem_db, 'w) http_params" where
  "demo_params L = \<lparr>hp_env = mem_env, hp_lib = L, hp_from_sv32 = \<lambda>_. 0,
     hp_decompress = \<lambda>_ _. Inl UB, hp_snapshot = \<lambda>_. one_db, hp_timestampMs = \<lambda>_. 0, hp_timeUs = \<lambda>_. 0, hp_steady = \<lambda>n. real n,
     hp_what = \<lambda>_. [], hp_pretty = \<lambda>_. [], hp_enableCors = False, hp_trustProxy = False, hp_corsOrigin = ''*''\<rparr>"

definition demo_request :: "string \<Rightarrow> string \<Rightarrow> string list \<Rightarrow> http_request" where
  "demo_request method path matches = \<lparr>rq_method = method, rq_path = path, rq_body = ''x'', rq_remote_addr = ''10.0.0.1'',
     rq_hdr = \<lambda>_. None, rq_param = \<lambda>_. None, rq_matches = matches\<rparr>"

text \<open>A processor that keeps the texts it gets and accepts the first \<open>n\<close>.\<close>

definition keep_first :: "nat \<Rightarrow> string list event_processor" where
  "keep_first n t w = (Inr (length w < n, []), w @ [t])"

definition demo_state :: "nat \<Rightarrow> string list http_state" where
  "demo_state n = \<lparr>hs_eventProcessor = Some (keep_first n), hs_world = [], hs_rateLimiter = Some (fst (RateLimiter (\<lambda>n. real n) 0 sample_config)),
     hs_metrics = metrics_reset, hs_activeRequests = 0, hs_shuttingDown = False, hs_notified = 0, hs_ms = 0, hs_ticks = 1\<rparr>"

lemma keep_first_returns: "returns (keep_first n)"
  by (simp add: returns_def keep_first_def)

lemma sample_json_complete: "complete_event sample_json"
  by (simp add: complete_event_def sample_json_def)

section \<open>Properties\<close>



text \<open>
  C31. A batch is submitted event by event: the events before the first one that is
  incomplete or rejected have all been accepted, the processor has seen them and the rejected
  one in the order of the array and none after it, the counter of accepted events has grown by
  their number, and the answer is 201 when all were accepted and 400 otherwise.  So a batch that
  is answered with 400 may have been accepted in part, although comments in the loop call it
  atomic, say that all its events must succeed, and that the entire batch is rejected if one fails.
\<close>

theorem handleEventPostBatch_prefix:
  assumes "hs_eventProcessor s = Some f" "returns f" "json_from_string (hp_lib P) (rq_body req) = Inr v"
    and "batch_events v = Some evs" "evs \<noteq> []" "length evs \<le> 1000"
  shows "\<exists>k s' res'. handleEventPostBatch P req (s, res) = Inr (s', res') \<and>
    accepted_prefix f (json_to_string (hp_lib P)) evs (hs_world s) k \<and> rs_status res' = (if k = length evs then 201 else 400) \<and>
    hs_world s' = feed f (map (json_to_string (hp_lib P))
      (take (if k < length evs \<and> complete_event (evs ! k) then Suc k else k) evs)) (hs_world s) \<and>
    m_eventsAccepted (hs_metrics s') = m_eventsAccepted (hs_metrics s) + of_nat k"
proof -
  let ?s0 = "s\<lparr>hs_ms := Suc (hs_ms s)\<rparr>"
  obtain k status body s' where run: "batch_body P req ?s0 = (Inr (status, body), s')"
    "accepted_prefix f (json_to_string (hp_lib P)) evs (hs_world s) k" "status = (if k = length evs then 201 else 400)"
    "hs_world s' = feed f (map (json_to_string (hp_lib P))
      (take (if k < length evs \<and> complete_event (evs ! k) then Suc k else k) evs)) (hs_world s)"
    "m_eventsAccepted (hs_metrics s') = m_eventsAccepted (hs_metrics s) + of_nat k"
    using batch_body_spec [of ?s0 f P req v evs] assms by auto
  have "handleEventPostBatch P req (s, res) = Inr (finish_timed P ''POST'' ''/api/quotes/batch'' (hp_timestampMs P (hs_ms s)) status s',
      set_reply status (dump P body) res)"
    by (simp add: handleEventPostBatch_def getTimestampMs_def run(1))
  with run(2-5) show ?thesis
    by (intro exI [of _ k] exI [of _ "finish_timed P ''POST'' ''/api/quotes/batch'' (hp_timestampMs P (hs_ms s)) status s'"]
        exI [of _ "set_reply status (dump P body) res"]) simp
qed

theorem handleEventPostBatch_prefix_witness:
  "\<exists>s' res'. handleEventPostBatch (demo_params (parses_to (JArray [sample_json, sample_json]))) (demo_request ''POST'' ''/api/quotes/batch'' [])
      (demo_state 1, new_response) = Inr (s', res') \<and> rs_status res' = 400 \<and> m_eventsAccepted (hs_metrics s') = 1 \<and> length (hs_world s') = 2"
proof -
  let ?P = "demo_params (parses_to (JArray [sample_json, sample_json])) :: (mem_db, string list) http_params"
    and ?sh = "json_to_string (parses_to (JArray [sample_json, sample_json]))" and ?evs = "[sample_json, sample_json]"
    and ?req = "demo_request ''POST'' ''/api/quotes/batch'' []"
  have P: "hp_lib ?P = parses_to (JArray ?evs)" by (simp add: demo_params_def)
  have s: "hs_eventProcessor (demo_state 1) = Some (keep_first 1)" "hs_world (demo_state 1) = []" "m_eventsAccepted (hs_metrics (demo_state 1)) = 0"
    by (simp_all add: demo_state_def metrics_reset_def)
  have parse: "json_from_string (hp_lib ?P) (rq_body ?req) = Inr (JArray ?evs)" "batch_events (JArray ?evs) = Some ?evs"
    by (simp_all add: demo_params_def parses_to_def batch_events_def)
  obtain k s' res' where run: "handleEventPostBatch ?P ?req (demo_state 1, new_response) = Inr (s', res')"
    "accepted_prefix (keep_first 1) ?sh ?evs [] k" "rs_status res' = (if k = length ?evs then 201 else 400)"
    "hs_world s' = feed (keep_first 1) (map ?sh (take (if k < length ?evs \<and> complete_event (?evs ! k) then Suc k else k) ?evs)) []"
    "m_eventsAccepted (hs_metrics s') = 0 + of_nat k"
    using handleEventPostBatch_prefix [OF s(1) keep_first_returns parse, of new_response, unfolded P s] by auto
  have "k = 1"
    using run(2) sample_json_complete unfolding accepted_prefix_def
    by (auto simp: feed_def less_Suc_eq le_Suc_eq verdict_def keep_first_def)
  with run show ?thesis by (simp add: feed_def keep_first_def sample_json_complete)
qed

text \<open>
  A batch is not atomic: when an event is rejected, the answer says that the batch was
  rejected, but the events before it have been processed and stay processed.
\<close>

theorem batch_not_atomic:
  assumes "hs_eventProcessor s = Some f" "returns f" "json_from_string (hp_lib P) (rq_body req) = Inr (JArray [a, b])"
    and "complete_event a" "complete_event b" "verdict f (json_to_string (hp_lib P) a) (hs_world s)"
    and "\<not> verdict f (json_to_string (hp_lib P) b) (snd (f (json_to_string (hp_lib P) a) (hs_world s)))"
  shows "\<exists>s' res'. handleEventPostBatch P req (s, res) = Inr (s', res') \<and> rs_status res' = 400 \<and>
    m_eventsAccepted (hs_metrics s') = m_eventsAccepted (hs_metrics s) + 1 \<and>
    hs_world s' = snd (f (json_to_string (hp_lib P) b) (snd (f (json_to_string (hp_lib P) a) (hs_world s))))"
proof -
  let ?s0 = "s\<lparr>hs_ms := Suc (hs_ms s)\<rparr>" and ?sh = "json_to_string (hp_lib P)"
  obtain k status body s' where run: "batch_body P req ?s0 = (Inr (status, body), s')"
    "accepted_prefix f ?sh [a, b] (hs_world s) k" "status = (if k = length [a, b] then 201 else 400)"
    "hs_world s' = feed f (map ?sh (take (if k < length [a, b] \<and> complete_event ([a, b] ! k) then Suc k else k) [a, b])) (hs_world s)"
    "m_eventsAccepted (hs_metrics s') = m_eventsAccepted (hs_metrics s) + of_nat k"
    using batch_body_spec [of ?s0 f P req "JArray [a, b]" "[a, b]"] assms(1-3) by (auto simp: batch_events_def)
  have "k = 1"
    using run(2) assms(4-7) unfolding accepted_prefix_def
    by (auto simp: feed_def less_Suc_eq le_Suc_eq)
  moreover have "handleEventPostBatch P req (s, res) = Inr (finish_timed P ''POST'' ''/api/quotes/batch'' (hp_timestampMs P (hs_ms s)) status s',
      set_reply status (dump P body) res)"
    by (simp add: handleEventPostBatch_def getTimestampMs_def run(1))
  ultimately show ?thesis using run(3-5) assms(5) by (simp add: feed_def)
qed

theorem batch_not_atomic_witness:
  "\<exists>s' res'. handleEventPostBatch (demo_params (parses_to (JArray [sample_json, sample_json]))) (demo_request ''POST'' ''/api/quotes/batch'' [])
      (demo_state 1, new_response) = Inr (s', res') \<and> rs_status res' = 400 \<and> length (hs_world s') = 2"
  using batch_not_atomic [of "demo_state 1" "keep_first 1" "demo_params (parses_to (JArray [sample_json, sample_json]))"
      "demo_request ''POST'' ''/api/quotes/batch'' []" sample_json sample_json new_response]
  by (auto simp: demo_state_def demo_params_def parses_to_def keep_first_returns sample_json_complete verdict_def keep_first_def)

text \<open>
  C34. What a read by id leads to, for the hex form of a 32-byte id.  When no stored event has the
  id, the answer is 404.  When the event that has it is stored compressed, the answer is 200 with its
  text.  When it is stored as the writer stores it, as a zero byte and the text, the handler reads
  the text through a view into the database after it has committed the transaction, which is
  undefined.
\<close>

theorem handleGetQuote_outcomes:
  assumes "event_env (hp_lib P) (hp_env P) key_le tree_items"
    and "holds (hp_env P) (hp_lib P) tree_items fs (hp_snapshot P (hs_world s)) M" "consistent M"
    and "rq_matches req = [path, hex]" "hex \<noteq> []" "from_hex (hp_lib P) hex True = Inr i" "length i = 32"
  shows "(\<not> has_id M i \<longrightarrow>
      handleGetQuote P req (s, res) = Inr (count_request ''GET'' 404 s, set_reply 404 (dump P (error_message ''Event not found'')) res)) \<and>
    (\<forall>l e. M l = Some e \<and> ev_id e = i \<longrightarrow>
      (\<forall>d z t. payload_get (hp_env P) (hp_snapshot P (hs_world s)) l = Some (CHR 0x01 # d @ z) \<and> length d = 4 \<and>
         hp_decompress P (hp_from_sv32 P d) z = Inr t \<longrightarrow>
         handleGetQuote P req (s, res) = Inr (count_request ''GET'' 200 s, set_reply 200 t res)) \<and>
      (\<forall>t. payload_get (hp_env P) (hp_snapshot P (hs_world s)) l = Some (CHR 0x00 # t) \<and> t \<noteq> [] \<longrightarrow>
         handleGetQuote P req (s, res) = Inl UB))"
proof -
  let ?db = "hp_snapshot P (hs_world s)"
  have missing: "lookupEventById (hp_env P) ?db i = None" if "\<not> has_id M i"
    using event_env.lookupEventById_correct(1) [OF assms(1,2,7)] that by blast
  have "handleGetQuote P req (s, res) = Inr (count_request ''GET'' 404 s, set_reply 404 (dump P (error_message ''Event not found'')) res)"
    if "\<not> has_id M i"
    using missing [OF that] assms(4-7) by (simp add: handleGetQuote_def get_quote_body_def)
  moreover have found: "get_quote_body P req ?db = bindE (event_json_view P ?db l) (\<lambda>view. bindE (copy_after_commit view) (\<lambda>t. Inr (200, t)))"
    if l: "M l = Some e" "ev_id e = i" for l e
  proof -
    have "lookupEventById (hp_env P) ?db i = Some (l, pack_event (hp_lib P) e)"
      using event_env.lookupEventById_stored [OF assms(1,2) consistent_unique_ids [OF assms(3)] l(1)] l(2) by simp
    with assms(4-7) show ?thesis by (simp add: get_quote_body_def)
  qed
  have "handleGetQuote P req (s, res) = Inr (count_request ''GET'' 200 s, set_reply 200 t res)"
    if "M l = Some e" "ev_id e = i" "payload_get (hp_env P) ?db l = Some (CHR 0x01 # d @ z)" "length d = 4"
      "hp_decompress P (hp_from_sv32 P d) z = Inr t" for l e d z t
    using that(3-5) by (simp add: handleGetQuote_def found [OF that(1,2)] event_json_view_def decodeEventPayload_def substr_def)
  moreover have "handleGetQuote P req (s, res) = Inl UB"
    if "M l = Some e" "ev_id e = i" "payload_get (hp_env P) ?db l = Some (CHR 0x00 # t)" "t \<noteq> []" for l e t
    using that(3,4) by (simp add: handleGetQuote_def found [OF that(1,2)] event_json_view_def decodeEventPayload_def substr_def catch_all_def)
  ultimately show ?thesis by blast
qed

lemma le_from_hex_61: "le_from_hex (concat (replicate n ''61'')) = Inr (replicate n (CHR ''a''))"
proof -
  have "char_of (97 :: nat) = CHR ''a''" by code_simp
  then show ?thesis by (induction n) (simp_all add: hex_value_def less_eq_char_def)
qed

theorem handleGetQuote_outcomes_witness:
  "handleGetQuote (demo_params le_lib) (demo_request ''GET'' ''/api/quotes'' [[], concat (replicate 32 ''61'')]) (demo_state 0, new_response) = Inl UB"
proof -
  let ?P = "demo_params le_lib :: (mem_db, string list) http_params"
  have hex: "from_hex le_lib (concat (replicate 32 ''61'')) True = Inr (ev_id ev_old)"
    using le_from_hex_61 [of 32] by (simp add: le_lib_def ev_old_def)
  have P: "hp_lib ?P = le_lib" "hp_env ?P = mem_env" "hp_snapshot ?P w = one_db" for w by (simp_all add: demo_params_def)
  have pay: "payload_get mem_env one_db 1 = Some (CHR 0x00 # ''{}'')" by (simp add: one_db_def)
  have req: "rq_matches (demo_request ''GET'' ''/api/quotes'' [[], concat (replicate 32 ''61'')]) = [[], concat (replicate 32 ''61'')]"
    by (simp add: demo_request_def)
  have "(\<forall>l e. [1 \<mapsto> ev_old] l = Some e \<and> ev_id e = ev_id ev_old \<longrightarrow> (\<forall>t. payload_get mem_env one_db l = Some (CHR 0x00 # t) \<and> t \<noteq> [] \<longrightarrow>
      handleGetQuote ?P (demo_request ''GET'' ''/api/quotes'' [[], concat (replicate 32 ''61'')]) (demo_state 0, new_response) = Inl UB))"
    using handleGetQuote_outcomes [of ?P mem_key_le mem_tree_items "fc_filters no_filters" "demo_state 0" "[1 \<mapsto> ev_old]" _ _ _ "ev_id ev_old" new_response,
        unfolded P, OF mem.event_env_axioms one_db_facts(2,3) req _ hex]
    by (simp add: ev_old_def)
  with pay show ?thesis by auto
qed

text \<open>
  C33. A query is answered exactly and always.  The request may carry its filter as a JSON object
  or as query parameters; of the stored events that satisfy what it asks (the ids, authors, kinds
  and times of its parameters, or the object as NIP-01 reads it), the newest are taken, as many as
  the limit of the request says, but 10000 at most, newest first, and the answer is status 200 with
  the JSON array of their stored texts.  The metric of results is fed with their number and the
  request is counted.  The request has to be readable (its body a JSON object without repeated
  members, its numeric parameters numbers), its filter has to be accepted, and the stored texts
  have to be readable; the database agrees with its indexes and gives no event the number 0.
\<close>

theorem handleQuery_exact:
  assumes "scan_env (hp_lib P) (hp_env P) key_le tree_items"
    and "holds (hp_env P) (hp_lib P) tree_items fs (hp_snapshot P (hs_world s)) M"
    and "lookup_Event (hp_env P) (hp_snapshot P (hs_world s)) 0 = None" "small_times M"
    and "readable_request (hp_lib P) req" "accepted_request P req"
    and "mapE (event_json P (hp_snapshot P (hs_world s))) (take 10000 (requested_events (hp_lib P) req M)) = Inr js"
  shows "\<exists>N. \<forall>n\<ge>N. handleQuery P n req (s, res) =
    Some (Inr (count_request (rq_method req) 200 (s\<lparr>hs_metrics := observeQueryResults (of_nat (length js)) (hs_metrics s)\<rparr>),
      set_reply 200 (''['' @ join_commas js @ '']'') res))"
proof -
  let ?db = "hp_snapshot P (hs_world s)" and ?L = "hp_lib P"
  from readable_request_means [OF assms(5)] obtain kvs where kvs: "requested_filter P req (JObject kvs)" "distinct (map fst kvs)"
    "\<And>e. nip01_match ?L e kvs \<longleftrightarrow> request_match ?L req e" "asked_limit kvs = request_limit ?L req"
    by (elim exE conjE) simp
  obtain f where f: "NostrFilter ?L (JObject kvs) MAX_U64 = Inr f" "few_values f"
    using assms(6) kvs(1) unfolding accepted_request_def by blast
  obtain N where N: "\<forall>n\<ge>N. foreachByFilter n (hp_env P) ?L (hp_timeUs P) ?db (JObject kvs) (query_cb P ?db) (''['', 0, True) =
      Some (foldE (query_cb P ?db) (chosen ?L M kvs f) (''['', 0, True))"
    using foreachByFilter_chosen [OF assms(1-4) f(1) kvs(2) f(2), of "hp_timeUs P" "query_cb P ?db" "(''['', 0, True)"] by (elim exE)
  have run: "foldE (query_cb P ?db) (chosen ?L M kvs f) (''['', 0, True) = Inr (''['' @ join_commas js, of_nat (length js), js = [])"
    unfolding requested_events_chosen [OF f(1) kvs(2-4)] by (rule foldE_query_cb [OF assms(7)])
  have "handleQuery P n req (s, res) =
      Some (Inr (count_request (rq_method req) 200 (s\<lparr>hs_metrics := observeQueryResults (of_nat (length js)) (hs_metrics s)\<rparr>),
        set_reply 200 (''['' @ join_commas js @ '']'') res))" if "N \<le> n" for n
  proof -
    have "query_db P n ?db (JObject kvs) (query_cb P ?db) (''['', 0, True) =
        Some (Inr (''['' @ join_commas js, of_nat (length js), js = []))"
      using N that run by (simp add: query_db_def)
    from handleQuery_ok [OF query_body_run [OF kvs(1) this], of res] show ?thesis by simp
  qed
  then show ?thesis by blast
qed

theorem handleQuery_exact_witness:
  "\<exists>N. \<forall>n\<ge>N. handleQuery (demo_params le_lib) n ((demo_request ''GET'' ''/api/query'' [])\<lparr>rq_param := [''since'' \<mapsto> ''5'', ''limit'' \<mapsto> ''3'']\<rparr>)
      (demo_state 0, new_response) =
    Some (Inr (count_request ''GET'' 200 ((demo_state 0)\<lparr>hs_metrics := observeQueryResults 1 metrics_reset\<rparr>), set_reply 200 ''[{}]'' new_response))"
proof -
  let ?P = "demo_params le_lib :: (mem_db, string list) http_params"
    and ?req = "(demo_request ''GET'' ''/api/query'' [])\<lparr>rq_param := [''since'' \<mapsto> ''5'', ''limit'' \<mapsto> ''3'']\<rparr>"
  have P: "hp_lib ?P = le_lib" "hp_env ?P = mem_env" "hp_snapshot ?P w = one_db" for w by (simp_all add: demo_params_def)
  have num: "std_stoull ''5'' = Inr 5" "std_stoull ''3'' = Inr 3"
    by (simp_all add: std_stoull_digits is_digit_def less_eq_char_def read_nat_def digit_value_def)
  have body: "\<not> by_body ?req" by (simp add: by_body_def demo_request_def)
  have ok: "readable_request le_lib ?req" using body by (auto simp: readable_request_def params_ok_def given_def num)
  have filt: "params_filter ?req = Inr (JObject [(''limit'', JUnsigned 3), (''since'', JUnsigned 5)])"
    by (simp add: params_filter_def kinds_param_def number_param_def list_param_def get_param_def demo_request_def num)
  have "\<exists>f. NostrFilter le_lib (JObject [(''limit'', JUnsigned 3), (''since'', JUnsigned 5)]) MAX_U64 = Inr f \<and> few_values f"
    by (simp add: NostrFilter_def NostrFilter_field_def starts_with_def few_values_def empty_filter_def throw_if_def)
  then have acc: "accepted_request ?P ?req"
    using body unfolding accepted_request_def requested_filter_def P by_body_def by (simp only: if_False filt) simp
  have "params_match le_lib ?req ev_old" by (simp add: params_match_def given_def num ev_old_def demo_request_def)
  then have "{(ev_created_at e, l) | e l. [1 \<mapsto> ev_old] l = Some e \<and> request_match le_lib ?req e} = {(ev_created_at ev_old, 1 :: u64)}"
    using body by (auto simp: request_match_def split: if_splits)
  then have evs: "requested_events le_lib ?req [1 \<mapsto> ev_old] = [1]"
    using body by (simp add: requested_events_def request_limit_def params_limit_def num)
  have json: "event_json ?P one_db 1 = Inr (CHR ''{'' # ''}'')"
    by (simp add: event_json_def demo_params_def getEventJson_def decodeEventPayload_def one_db_def substr_def)
  have db: "lookup_Event mem_env one_db 0 = None" "small_times [1 \<mapsto> ev_old]" by (simp_all add: one_db_def small_times_def ev_old_def)
  from handleQuery_exact [of ?P mem_key_le mem_tree_items "fc_filters no_filters" "demo_state 0" "[1 \<mapsto> ev_old]" ?req "[CHR ''{'' # ''}'']" new_response]
    mem_scan.scan_env_axioms one_db_facts(2) db ok acc evs json
  show ?thesis by (simp add: P demo_state_def demo_request_def)
qed

text \<open>
  The rate limit as a client sees it: over any sequence of served requests, those other
  than health checks, metrics and answered preflights that reach a handler number at most the
  burst capacity of the global bucket plus its rate times the time passed.
\<close>

theorem handlers_rate_bound:
  assumes "mono (hp_steady P)" "0 \<le> cfg_burstMultiplier cfg" "cfg_enabled cfg" "cfg_globalPerMinute cfg > 0"
    and "RateLimiter (hp_steady P) t cfg = (rl, hs_ticks s)" "hs_rateLimiter s = Some rl"
  shows "real (count_run (serve P n) (passes_gate P) xs s) \<le>
    dbl (cfg_globalPerMinute cfg) * cfg_burstMultiplier cfg +
    dbl (cfg_globalPerMinute cfg) / 60 * (hp_steady P (hs_ticks (fold (serve P n) xs s)) - hp_steady P t)"
proof -
  have st: "limiter_state s = (rl, hs_ticks s)" using assms(6) by (simp add: limiter_state_def)
  have inv: "hs_rateLimiter s \<noteq> None \<and> rl_inv (hp_steady P) cfg (limiter_state s) \<and> cfg_enabled cfg \<and> cfg_globalPerMinute cfg > 0"
    using RateLimiter_inv [OF assms(1,2), of t] assms(3-6) st by simp
  note start = RateLimiter_credit [OF assms(1,5)]
  have "real (count_run (serve P n) (passes_gate P) xs s) \<le> global_credit (hp_steady P) (limiter_state s) +
      rate_of (cfg_globalPerMinute cfg) * (run_time (hp_steady P) (limiter_state (fold (serve P n) xs s)) - run_time (hp_steady P) (limiter_state s))"
    using gate.admitted_bound [OF inv, of xs] by simp
  then show ?thesis
    unfolding st start(2) by (simp add: run_time_def start(1) limiter_state_def field_simps)
qed

theorem handlers_rate_bound_witness:
  "real (count_run (serve (demo_params le_lib) 0) (passes_gate (demo_params le_lib))
      [(''r1'', R_quote, demo_request ''GET'' ''/api/quotes/00'' []), (''r2'', R_index, demo_request ''GET'' ''/'' [])] (demo_state 0)) \<le>
    1000 * 2 + 1000 / 60 * real (hs_ticks (fold (serve (demo_params le_lib) 0)
      [(''r1'', R_quote, demo_request ''GET'' ''/api/quotes/00'' []), (''r2'', R_index, demo_request ''GET'' ''/'' [])] (demo_state 0)))"
proof -
  let ?P = "demo_params le_lib :: (mem_db, string list) http_params"
    and ?xs = "[(''r1'', R_quote, demo_request ''GET'' ''/api/quotes/00'' []), (''r2'', R_index, demo_request ''GET'' ''/'' [])]"
  have steady: "hp_steady ?P = (\<lambda>n. real n)" by (simp add: demo_params_def)
  have new: "RateLimiter (hp_steady ?P) 0 sample_config = (fst (RateLimiter (\<lambda>n. real n) 0 sample_config), hs_ticks (demo_state 0))"
    unfolding steady by (simp add: RateLimiter_def TokenBucket_def demo_state_def Let_def)
  have "real (count_run (serve ?P 0) (passes_gate ?P) ?xs (demo_state 0)) \<le>
      dbl (cfg_globalPerMinute sample_config) * cfg_burstMultiplier sample_config +
      dbl (cfg_globalPerMinute sample_config) / 60 * (hp_steady ?P (hs_ticks (fold (serve ?P 0) ?xs (demo_state 0))) - hp_steady ?P 0)"
    by (rule handlers_rate_bound [OF _ _ _ _ new]) (simp_all add: steady mono_real sample_config_def demo_state_def)
  then show ?thesis unfolding steady by (simp only: sample_config_def rl_config.simps dbl_def) simp
qed

text \<open>
  The count of active requests drifts: a request that the pre-routing handler answers
  itself is subtracted twice, by that handler and by the post-routing handler, so serving it
  leaves the count one lower than before; every other request leaves it as it was.
\<close>

theorem active_requests_drift:
  assumes "pre_routing P reqId req (s, new_response) = (handled, s1, res1)"
    and "\<not> handled \<Longrightarrow> \<exists>s2 res2. run_route P n r req (s1, res1) = Some (Inr (s2, res2))"
  shows "hs_activeRequests (serve P n (reqId, r, req) s) = hs_activeRequests s - (if handled then 1 else 0)"
proof (cases handled)
  case True
  then show ?thesis using pre_routing_active [OF assms(1)] by (simp add: serve_def assms(1))
next
  case False
  then obtain s2 res2 where run: "run_route P n r req (s1, res1) = Some (Inr (s2, res2))" using assms(2) by blast
  from run_route_gate [OF run] False show ?thesis
    using pre_routing_active [OF assms(1)] by (simp add: serve_def assms(1) run same_gate_def)
qed

theorem active_requests_drift_witness:
  "hs_activeRequests (serve ((demo_params le_lib)\<lparr>hp_enableCors := True\<rparr>) 0 (''r1'', R_index, demo_request ''OPTIONS'' ''/'' []) (demo_state 0)) = - 1"
proof -
  let ?P = "(demo_params le_lib :: (mem_db, string list) http_params)\<lparr>hp_enableCors := True\<rparr>" and ?req = "demo_request ''OPTIONS'' ''/'' []"
  obtain s1 res1 where pre: "pre_routing ?P ''r1'' ?req (demo_state 0, new_response) = (True, s1, res1)"
    by (simp add: pre_routing_def Let_def getTimestampMs_def demo_request_def)
  have "hs_activeRequests (serve ?P 0 (''r1'', R_index, ?req) (demo_state 0)) = hs_activeRequests (demo_state 0) - (if True then 1 else 0)"
    by (rule active_requests_drift [OF pre]) simp
  then show ?thesis by (simp add: demo_state_def)
qed

end
