(* ===== verification/Active_Monitors.thy ===== *)
theory Active_Monitors
  imports Query_Results
begin

text \<open>
  Live subscriptions (\<^verbatim>\<open>src/src/ActiveMonitors.h\<close>): the subscriptions of every connection, and
  for each filter an entry under every id, author, tag or kind that it names, so that a new
  event is tested against the filters found under its own values only.

  A pointer to a filter inside a subscription is the connection, the subscription id and the
  position of the filter; following one that leads nowhere is undefined.  The hash maps keep
  their entries in the order of insertion, which only the order of the recipients depends on.
\<close>

section \<open>State\<close>

type_synonym fref = "u64 \<times> string \<times> nat"
type_synonym monitor_set = "(fref \<times> u64) list"
type_synonym conn_monitors = "(u64 \<times> (string \<times> subscription) list) list"
type_synonym recipient = "u64 \<times> string"

record monitors =
  am_conns :: conn_monitors
  am_allIds :: "(string \<times> monitor_set) list"
  am_allAuthors :: "(string \<times> monitor_set) list"
  am_allTags :: "(string \<times> monitor_set) list"
  am_allKinds :: "(u64 \<times> monitor_set) list"
  am_allOthers :: monitor_set

definition empty_monitors :: monitors where
  "empty_monitors = \<lparr>am_conns = [], am_allIds = [], am_allAuthors = [], am_allTags = [], am_allKinds = [], am_allOthers = []\<rparr>"

definition getTagSpec :: "char \<Rightarrow> string \<Rightarrow> string" where
  "getTagSpec k val = k # val"

definition find_conn :: "conn_monitors \<Rightarrow> u64 \<Rightarrow> string \<Rightarrow> subscription option" where
  "find_conn conns connId subId = (case map_of conns connId of None \<Rightarrow> None | Some cm \<Rightarrow> map_of cm subId)"

definition findMonitor :: "u64 \<Rightarrow> string \<Rightarrow> monitors \<Rightarrow> subscription option" where
  "findMonitor connId subId am = find_conn (am_conns am) connId subId"

text \<open>\<^verbatim>\<open>try_emplace\<close> into a set; the three map operations at one key.\<close>

definition set_emplace :: "fref \<Rightarrow> u64 \<Rightarrow> monitor_set \<Rightarrow> monitor_set" where
  "set_emplace r latest ms = (if r \<in> fst ` set ms then ms else ms @ [(r, latest)])"

definition set_erase :: "fref \<Rightarrow> monitor_set \<Rightarrow> monitor_set" where
  "set_erase r ms = List.filter (\<lambda>x. fst x \<noteq> r) ms"

definition emplace_at :: "'k::linorder \<Rightarrow> fref \<Rightarrow> u64 \<Rightarrow> ('k \<times> monitor_set) list \<Rightarrow> ('k \<times> monitor_set) list" where
  "emplace_at k r latest m = smap_update k [] (set_emplace r latest) m"

definition put_at :: "'k \<Rightarrow> 'v \<Rightarrow> ('k \<times> 'v) list \<Rightarrow> ('k \<times> 'v) list" where
  "put_at k v m = map (\<lambda>(j, w). if j = k then (j, v) else (j, w)) m"

definition erase_at :: "'k \<Rightarrow> fref \<Rightarrow> ('k \<times> monitor_set) list \<Rightarrow> ('k \<times> monitor_set) list result" where
  "erase_at k r m =
     (case map_of m k of
        None \<Rightarrow> Inl OutOfRange
      | Some monSet \<Rightarrow>
          (let monSet' = set_erase r monSet
           in if monSet' = [] then Inr (List.filter (\<lambda>x. fst x \<noteq> k) m) else Inr (put_at k monSet' m)))"

text \<open>The index that a key belongs to.\<close>

datatype mkey = KId string | KAuthor string | KTag string | KKind u64 | KOther

fun index_add :: "mkey \<Rightarrow> fref \<Rightarrow> u64 \<Rightarrow> monitors \<Rightarrow> monitors" where
  "index_add (KId k) r latest am = am\<lparr>am_allIds := emplace_at k r latest (am_allIds am)\<rparr>"
| "index_add (KAuthor k) r latest am = am\<lparr>am_allAuthors := emplace_at k r latest (am_allAuthors am)\<rparr>"
| "index_add (KTag k) r latest am = am\<lparr>am_allTags := emplace_at k r latest (am_allTags am)\<rparr>"
| "index_add (KKind k) r latest am = am\<lparr>am_allKinds := emplace_at k r latest (am_allKinds am)\<rparr>"
| "index_add KOther r latest am = am\<lparr>am_allOthers := set_emplace r latest (am_allOthers am)\<rparr>"

fun index_del :: "mkey \<Rightarrow> fref \<Rightarrow> monitors \<Rightarrow> monitors result" where
  "index_del (KId k) r am = bindE (erase_at k r (am_allIds am)) (\<lambda>m. Inr (am\<lparr>am_allIds := m\<rparr>))"
| "index_del (KAuthor k) r am = bindE (erase_at k r (am_allAuthors am)) (\<lambda>m. Inr (am\<lparr>am_allAuthors := m\<rparr>))"
| "index_del (KTag k) r am = bindE (erase_at k r (am_allTags am)) (\<lambda>m. Inr (am\<lparr>am_allTags := m\<rparr>))"
| "index_del (KKind k) r am = bindE (erase_at k r (am_allKinds am)) (\<lambda>m. Inr (am\<lparr>am_allKinds := m\<rparr>))"
| "index_del KOther r am = Inr (am\<lparr>am_allOthers := set_erase r (am_allOthers am)\<rparr>)"

section \<open>Subscribing\<close>

text \<open>
  The loops of \<^verbatim>\<open>installLookups\<close> and \<^verbatim>\<open>uninstallLookups\<close> visit the same keys of a filter and
  differ in what they do with each.
\<close>

definition each_key :: "(mkey \<Rightarrow> monitors \<Rightarrow> monitors result) \<Rightarrow> nostr_filter \<Rightarrow> monitors \<Rightarrow> monitors result" where
  "each_key act f am =
     (case nf_ids f of
        Some ids \<Rightarrow> foldE (\<lambda>i am. bindE (FilterSetBytes_at ids i) (\<lambda>v. bindE (Bytes32 v) (\<lambda>b. act (KId b) am)))
          [0..<FilterSetBytes_size ids] am
      | None \<Rightarrow>
     (case nf_authors f of
        Some authors \<Rightarrow> foldE (\<lambda>i am. bindE (FilterSetBytes_at authors i) (\<lambda>v. bindE (Bytes32 v) (\<lambda>b. act (KAuthor b) am)))
          [0..<FilterSetBytes_size authors] am
      | None \<Rightarrow>
     if nf_tags f \<noteq> [] then
       foldE (\<lambda>(tagName, filterSet) am. foldE (\<lambda>i am. bindE (FilterSetBytes_at filterSet i) (\<lambda>v.
           act (KTag (getTagSpec tagName v)) am)) [0..<FilterSetBytes_size filterSet] am) (nf_tags f) am
     else
     (case nf_kinds f of
        Some kinds \<Rightarrow> foldE (\<lambda>i am. bindE (FilterSetUint_at kinds i) (\<lambda>kind. act (KKind kind) am)) [0..<length kinds] am
      | None \<Rightarrow> act KOther am)))"

definition fref_of :: "subscription \<Rightarrow> nat \<Rightarrow> fref" where
  "fref_of sub j = (sub_connId sub, sub_subId sub, j)"

definition installLookups :: "subscription \<Rightarrow> u64 \<Rightarrow> monitors \<Rightarrow> monitors result" where
  "installLookups sub currEventId am =
     foldE (\<lambda>j am. each_key (\<lambda>k am. Inr (index_add k (fref_of sub j) currEventId am)) (sub_filterGroup sub ! j) am)
       [0..<length (sub_filterGroup sub)] am"

definition uninstallLookups :: "subscription \<Rightarrow> monitors \<Rightarrow> monitors result" where
  "uninstallLookups sub am =
     foldE (\<lambda>j am. each_key (\<lambda>k am. index_del k (fref_of sub j) am) (sub_filterGroup sub ! j) am)
       [0..<length (sub_filterGroup sub)] am"

definition conn_subs :: "u64 \<Rightarrow> monitors \<Rightarrow> (string \<times> subscription) list" where
  "conn_subs connId am = (case map_of (am_conns am) connId of None \<Rightarrow> [] | Some cm \<Rightarrow> cm)"

definition set_conn :: "u64 \<Rightarrow> (string \<times> subscription) list \<Rightarrow> monitors \<Rightarrow> monitors" where
  "set_conn connId cm am = am\<lparr>am_conns := (if map_of (am_conns am) connId = None then am_conns am @ [(connId, cm)]
     else put_at connId cm (am_conns am))\<rparr>"

definition erase_conn :: "u64 \<Rightarrow> monitors \<Rightarrow> monitors" where
  "erase_conn connId am = am\<lparr>am_conns := List.filter (\<lambda>x. fst x \<noteq> connId) (am_conns am)\<rparr>"

definition removeSub :: "u64 \<Rightarrow> string \<Rightarrow> monitors \<Rightarrow> monitors result" where
  "removeSub connId subId am =
     (case findMonitor connId subId am of
        None \<Rightarrow> Inr am
      | Some monitor \<Rightarrow>
          bindE (uninstallLookups monitor am) (\<lambda>am1.
          let cm = List.filter (\<lambda>x. fst x \<noteq> subId) (conn_subs connId am1)
          in Inr (if cm = [] then erase_conn connId am1 else set_conn connId cm am1)))"

definition addSub :: "nat \<Rightarrow> subscription \<Rightarrow> u64 \<Rightarrow> monitors \<Rightarrow> (bool \<times> monitors) result" where
  "addSub maxSubsPerConnection sub currEventId am =
     bindE (throw_if (sub_latestEventId sub \<noteq> currEventId) ''sub not up to date'') (\<lambda>_.
     bindE (case findMonitor (sub_connId sub) (sub_subId sub) am of
              None \<Rightarrow> Inr am
            | Some _ \<Rightarrow> removeSub (sub_connId sub) (sub_subId sub) am) (\<lambda>am1.
     let cm = conn_subs (sub_connId sub) am1
     in if length cm \<ge> maxSubsPerConnection then Inr (False, set_conn (sub_connId sub) cm am1)
        else bindE (installLookups sub currEventId (set_conn (sub_connId sub) (cm @ [(sub_subId sub, sub)]) am1)) (\<lambda>am2.
             Inr (True, am2))))"

definition closeConn :: "u64 \<Rightarrow> monitors \<Rightarrow> monitors result" where
  "closeConn connId am =
     (case map_of (am_conns am) connId of
        None \<Rightarrow> Inr am
      | Some cm \<Rightarrow> bindE (foldE (\<lambda>x. uninstallLookups (snd x)) cm am) (\<lambda>am1. Inr (erase_conn connId am1)))"

section \<open>A new event\<close>

text \<open>Setting \<^verbatim>\<open>sub.latestEventId\<close> of the subscriptions of some recipients.\<close>

definition mark :: "u64 \<Rightarrow> recipient list \<Rightarrow> conn_monitors \<Rightarrow> conn_monitors" where
  "mark lev rec conns = map (\<lambda>(c, cm). (c, map (\<lambda>(i, sub).
     (i, if (c, i) \<in> set rec then sub\<lparr>sub_latestEventId := lev\<rparr> else sub)) cm)) conns"

definition deref :: "conn_monitors \<Rightarrow> fref \<Rightarrow> (subscription \<times> nostr_filter) option" where
  "deref conns r =
     (case r of (c, i, j) \<Rightarrow>
        (case find_conn conns c i of
           None \<Rightarrow> None
         | Some sub \<Rightarrow> if j < length (sub_filterGroup sub) then Some (sub, sub_filterGroup sub ! j) else None))"

definition process_item ::
    "lib \<Rightarrow> u64 \<Rightarrow> string \<Rightarrow> fref \<times> u64 \<Rightarrow> conn_monitors \<times> recipient list \<Rightarrow>
     ((fref \<times> u64) \<times> conn_monitors \<times> recipient list) result" where
  "process_item L lev buf item st =
     (case deref (fst st) (fst item) of
        None \<Rightarrow> Inl UB
      | Some (sub, f) \<Rightarrow>
          if snd item \<ge> lev \<or> sub_latestEventId sub \<ge> lev then Inr (item, st)
          else bindE (PackedEventView buf) (\<lambda>packed.
               bindE (NostrFilter_doesMatch L f packed) (\<lambda>m.
               let to = (sub_connId sub, sub_subId sub)
               in if m then Inr ((fst item, lev), mark lev [to] (fst st), snd st @ [to])
                  else Inr ((fst item, lev), st))))"

fun processMonitorSet ::
    "lib \<Rightarrow> u64 \<Rightarrow> string \<Rightarrow> monitor_set \<Rightarrow> conn_monitors \<times> recipient list \<Rightarrow>
     (monitor_set \<times> conn_monitors \<times> recipient list) result" where
  "processMonitorSet L lev buf [] st = Inr ([], st)"
| "processMonitorSet L lev buf (item # ms) st =
     bindE (process_item L lev buf item st) (\<lambda>(item', st1).
     bindE (processMonitorSet L lev buf ms st1) (\<lambda>(ms', st2). Inr (item' # ms', st2)))"

text \<open>
  \<^verbatim>\<open>processMonitorsExact\<close>: from the entry before \<^verbatim>\<open>upper_bound\<close> backwards while the key matches.
\<close>

definition exact_range :: "'k::linorder \<Rightarrow> ('k \<times> 'v) list \<Rightarrow> ('k \<times> 'v) list" where
  "exact_range key m = takeWhile (\<lambda>x. key = fst x) (rev (takeWhile (\<lambda>x. fst x \<le> key) m))"

definition processMonitorsExact ::
    "lib \<Rightarrow> u64 \<Rightarrow> string \<Rightarrow> 'k::linorder \<Rightarrow> ('k \<times> monitor_set) list \<Rightarrow> conn_monitors \<times> recipient list \<Rightarrow>
     (('k \<times> monitor_set) list \<times> conn_monitors \<times> recipient list) result" where
  "processMonitorsExact L lev buf key m st =
     foldE (\<lambda>(k, ms) (m, st). bindE (processMonitorSet L lev buf ms st) (\<lambda>(ms', st'). Inr (put_at k ms' m, st')))
       (exact_range key m) (m, st)"

fun process_key :: "lib \<Rightarrow> u64 \<Rightarrow> string \<Rightarrow> mkey \<Rightarrow> monitors \<times> recipient list \<Rightarrow> (monitors \<times> recipient list) result" where
  "process_key L lev buf (KId k) (am, rec) =
     bindE (processMonitorsExact L lev buf k (am_allIds am) (am_conns am, rec)) (\<lambda>(m, conns, rec').
     Inr (am\<lparr>am_conns := conns, am_allIds := m\<rparr>, rec'))"
| "process_key L lev buf (KAuthor k) (am, rec) =
     bindE (processMonitorsExact L lev buf k (am_allAuthors am) (am_conns am, rec)) (\<lambda>(m, conns, rec').
     Inr (am\<lparr>am_conns := conns, am_allAuthors := m\<rparr>, rec'))"
| "process_key L lev buf (KTag k) (am, rec) =
     bindE (processMonitorsExact L lev buf k (am_allTags am) (am_conns am, rec)) (\<lambda>(m, conns, rec').
     Inr (am\<lparr>am_conns := conns, am_allTags := m\<rparr>, rec'))"
| "process_key L lev buf (KKind k) (am, rec) =
     bindE (processMonitorsExact L lev buf k (am_allKinds am) (am_conns am, rec)) (\<lambda>(m, conns, rec').
     Inr (am\<lparr>am_conns := conns, am_allKinds := m\<rparr>, rec'))"
| "process_key L lev buf KOther (am, rec) =
     bindE (processMonitorSet L lev buf (am_allOthers am) (am_conns am, rec)) (\<lambda>(ms, conns, rec').
     Inr (am\<lparr>am_conns := conns, am_allOthers := ms\<rparr>, rec'))"

text \<open>The recipients are handed to the callback when there are any.\<close>

definition monitors_process :: "lib \<Rightarrow> u64 \<Rightarrow> string \<Rightarrow> monitors \<Rightarrow> (monitors \<times> recipient list) result" where
  "monitors_process L lev buf am =
     bindE (PackedEventView buf) (\<lambda>packed.
     bindE (bindE (Bytes32 (packed_id packed)) (\<lambda>k. process_key L lev buf (KId k) (am, []))) (\<lambda>st1.
     bindE (bindE (Bytes32 (packed_pubkey packed)) (\<lambda>k. process_key L lev buf (KAuthor k) st1)) (\<lambda>st2.
     bindE (bindE (foreachTag packed (\<lambda>st tagName tagVal.
         (case bindE st (process_key L lev buf (KTag (getTagSpec tagName tagVal))) of
            Inl e \<Rightarrow> (Inl e, False)
          | Inr st' \<Rightarrow> (Inr st', True))) (Inr st2)) id) (\<lambda>st3.
     bindE (process_key L lev buf (KKind (packed_kind L packed)) st3) (\<lambda>st4.
     process_key L lev buf KOther st4)))))"

end
