(* ===== verification/Monitor_Index.thy ===== *)
theory Monitor_Index
  imports Active_Monitors
begin

text \<open>
  The index of the live subscriptions: what adding and deleting one entry does to the maps,
  and what installing and uninstalling the entries of a whole subscription does.
\<close>

section \<open>Maps of monitor sets\<close>

abbreviation sorted_keys :: "('k::linorder \<times> 'v) list \<Rightarrow> bool" where
  "sorted_keys m \<equiv> sorted_wrt (<) (map fst m)"

lemma map_of_put_at: "map_of (put_at k v m) = (if map_of m k = None then map_of m else (map_of m)(k \<mapsto> v))"
  by (induction m) (auto simp: put_at_def fun_eq_iff)

lemma map_fst_put_at [simp]: "map fst (put_at k v m) = map fst m"
  by (simp add: put_at_def comp_def case_prod_unfold if_distrib)

lemma put_at_values: "snd ` set (put_at k v m) \<subseteq> insert v (snd ` set m)"
  by (auto simp: put_at_def split: if_splits)

lemma map_of_filter_key: "map_of (List.filter (\<lambda>x. fst x \<noteq> k) m) = (map_of m)(k := None)"
  by (induction m) auto

lemma sorted_filter_keys: "sorted_keys m \<Longrightarrow> sorted_keys (List.filter P m)"
  by (induction m) auto

lemma sorted_map_of: "sorted_keys m \<Longrightarrow> map_of m k = Some v \<longleftrightarrow> (k, v) \<in> set m"
  by (meson map_of_is_SomeI map_of_SomeD strict_sorted_imp_distinct)

lemma fst_set_emplace [simp]: "fst ` set (set_emplace r l ms) = insert r (fst ` set ms)"
  by (auto simp: set_emplace_def)

lemma set_emplace_ne: "set_emplace r l ms \<noteq> []"
  by (cases ms) (auto simp: set_emplace_def)

lemma fst_set_erase [simp]: "fst ` set (set_erase r ms) = fst ` set ms - {r}"
  by (auto simp: set_erase_def)

lemma distinct_set_emplace: "distinct (map fst ms) \<Longrightarrow> distinct (map fst (set_emplace r l ms))"
  by (auto simp: set_emplace_def)

lemma distinct_set_erase: "distinct (map fst ms) \<Longrightarrow> distinct (map fst (set_erase r ms))"
  unfolding set_erase_def by (rule distinct_map_filter)

lemma exact_range_sorted:
  assumes "sorted_keys m"
  shows "exact_range k m = (case map_of m k of None \<Rightarrow> [] | Some v \<Rightarrow> [(k, v)])"
proof -
  have *: "takeWhile (\<lambda>x. k = fst x) (rev (takeWhile (\<lambda>x. fst x \<le> k) m)) =
      (if \<exists>v. (k, v) \<in> set m then [(k, the (map_of m k))] else [])" if "sorted_keys m" for m :: "('a \<times> 'b) list"
    using that
  proof (induction m rule: rev_induct)
    case (snoc x m)
    obtain j v where x: "x = (j, v)" by (cases x)
    have m: "sorted_keys m" "\<And>y. y \<in> set m \<Longrightarrow> fst y < j" using snoc.prems by (auto simp: sorted_wrt_append x)
    consider "j < k" | "j = k" | "k < j" by fastforce
    then show ?case
    proof cases
      case 1
      then have "takeWhile (\<lambda>x. fst x \<le> k) (m @ [x]) = m @ [x]" by (auto simp: takeWhile_eq_all_conv x dest: m(2))
      moreover have "\<forall>v. (k, v) \<notin> set (m @ [x])" using 1 m(2) by (fastforce simp: x)
      ultimately show ?thesis using 1 by (auto simp: x)
    next
      case 2
      then have all: "takeWhile (\<lambda>x. fst x \<le> k) (m @ [x]) = m @ [x]" by (auto simp: takeWhile_eq_all_conv x dest: m(2))
      have none: "\<forall>v. (k, v) \<notin> set m" using 2 m(2) by fastforce
      then have "takeWhile (\<lambda>x. k = fst x) (rev m) = []" by (cases "rev m") (auto simp: takeWhile_eq_Nil_iff dest: arg_cong [where f = rev])
      moreover have "map_of (m @ [x]) k = Some v" using none 2 by (force simp: map_of_eq_None_iff map_add_Some_iff x)
      ultimately show ?thesis using 2 all by (auto simp: x)
    next
      case 3
      then have "takeWhile (\<lambda>x. fst x \<le> k) (m @ [x]) = takeWhile (\<lambda>x. fst x \<le> k) m" by (simp add: takeWhile_tail x)
      moreover have "map_of (m @ [x]) k = map_of m k" using 3 by (simp add: map_add_def x split: option.split)
      ultimately show ?thesis using snoc.IH [OF m(1)] 3 by (auto simp: x)
    qed
  qed simp
  show ?thesis
    unfolding exact_range_def * [OF assms] by (cases "map_of m k") (simp_all flip: sorted_map_of [OF assms])
qed

section \<open>The index\<close>

fun index_get :: "mkey \<Rightarrow> monitors \<Rightarrow> monitor_set option" where
  "index_get (KId k) am = map_of (am_allIds am) k"
| "index_get (KAuthor k) am = map_of (am_allAuthors am) k"
| "index_get (KTag k) am = map_of (am_allTags am) k"
| "index_get (KKind k) am = map_of (am_allKinds am) k"
| "index_get KOther am = Some (am_allOthers am)"

definition index_items :: "mkey \<Rightarrow> monitors \<Rightarrow> monitor_set" where
  "index_items k am = (case index_get k am of None \<Rightarrow> [] | Some ms \<Rightarrow> ms)"

definition map_wf :: "('k::linorder \<times> monitor_set) list \<Rightarrow> bool" where
  "map_wf m \<longleftrightarrow> sorted_keys m \<and> (\<forall>ms\<in>snd ` set m. ms \<noteq> [] \<and> distinct (map fst ms))"

definition index_wf :: "monitors \<Rightarrow> bool" where
  "index_wf am \<longleftrightarrow> map_wf (am_allIds am) \<and> map_wf (am_allAuthors am) \<and> map_wf (am_allTags am) \<and> map_wf (am_allKinds am) \<and>
     distinct (map fst (am_allOthers am))"

definition entries :: "monitors \<Rightarrow> (mkey \<times> fref) set" where
  "entries am = {(k, r). r \<in> fst ` set (index_items k am)}"

abbreviation at_key :: "('k \<times> monitor_set) list \<Rightarrow> 'k \<Rightarrow> monitor_set" where
  "at_key m k \<equiv> (case map_of m k of None \<Rightarrow> [] | Some ms \<Rightarrow> ms)"

lemma map_wf_values: "map_wf m \<Longrightarrow> map_of m k = Some ms \<Longrightarrow> ms \<noteq> [] \<and> distinct (map fst ms)"
  unfolding map_wf_def by (force dest: map_of_SomeD)

lemma emplace_at_wf:
  assumes "map_wf m"
  shows "map_wf (emplace_at k r l m)" "at_key (emplace_at k r l m) k' = (if k' = k then set_emplace r l (at_key m k) else at_key m k')"
proof -
  have sorted: "sorted_keys m" using assms by (simp add: map_wf_def)
  note look = map_of_smap_update [OF sorted, of k "[]" "set_emplace r l"]
  show "at_key (emplace_at k r l m) k' = (if k' = k then set_emplace r l (at_key m k) else at_key m k')"
    by (simp add: emplace_at_def look)
  have sorted': "sorted_keys (emplace_at k r l m)" unfolding emplace_at_def by (rule sorted_smap_update [OF sorted])
  have "ms \<noteq> [] \<and> distinct (map fst ms)" if "(j, ms) \<in> set (emplace_at k r l m)" for j ms
  proof -
    have "map_of (emplace_at k r l m) j = Some ms" using sorted_map_of [OF sorted'] that by blast
    then consider "j \<noteq> k" "map_of m j = Some ms" | "ms = set_emplace r l (at_key m k)"
      by (auto simp: emplace_at_def look split: if_splits)
    then show ?thesis
    proof cases
      case 1
      then show ?thesis using map_wf_values [OF assms] by blast
    next
      case 2
      have "distinct (map fst (at_key m k))" using map_wf_values [OF assms] by (auto split: option.split)
      then show ?thesis by (simp add: 2 distinct_set_emplace set_emplace_ne)
    qed
  qed
  with sorted' show "map_wf (emplace_at k r l m)" by (auto simp: map_wf_def)
qed

lemma erase_at_wf:
  assumes "map_wf m" "r \<in> fst ` set (at_key m k)"
  obtains m' where "erase_at k r m = Inr m'" "map_wf m'" "\<And>k'. at_key m' k' = (if k' = k then set_erase r (at_key m k) else at_key m k')"
proof -
  have sorted: "sorted_keys m" using assms(1) by (simp add: map_wf_def)
  obtain ms where ms: "map_of m k = Some ms" using assms(2) by (cases "map_of m k") simp_all
  show thesis
  proof (cases "set_erase r ms = []")
    case True
    let ?m = "List.filter (\<lambda>x. fst x \<noteq> k) m"
    show thesis
    proof (rule that [of ?m])
      show "erase_at k r m = Inr ?m" by (simp add: erase_at_def ms True)
      show "map_wf ?m" using assms(1) by (auto simp: map_wf_def sorted_filter_keys)
      show "at_key ?m k' = (if k' = k then set_erase r (at_key m k) else at_key m k')" for k'
        by (simp add: map_of_filter_key ms True)
    qed
  next
    case False
    let ?m = "put_at k (set_erase r ms) m"
    show thesis
    proof (rule that [of ?m])
      show "erase_at k r m = Inr ?m" by (simp add: erase_at_def ms False)
      have "distinct (map fst (set_erase r ms))" using map_wf_values [OF assms(1) ms] by (simp add: distinct_set_erase)
      then have "\<forall>ms\<in>insert (set_erase r ms) (snd ` set m). ms \<noteq> [] \<and> distinct (map fst ms)"
        using assms(1) False by (simp add: map_wf_def)
      then have "\<forall>ms\<in>snd ` set ?m. ms \<noteq> [] \<and> distinct (map fst ms)"
        using put_at_values [of k "set_erase r ms" m] by (meson subsetD)
      then show "map_wf ?m" using sorted by (simp only: map_wf_def map_fst_put_at)
      show "at_key ?m k' = (if k' = k then set_erase r (at_key m k) else at_key m k')" for k'
        by (simp add: map_of_put_at ms)
    qed
  qed
qed

lemma index_add_wf:
  assumes "index_wf am"
  shows "index_wf (index_add k r l am)" "am_conns (index_add k r l am) = am_conns am"
    "index_items k' (index_add k r l am) = (if k' = k then set_emplace r l (index_items k am) else index_items k' am)"
proof -
  note wf = assms [unfolded index_wf_def]
  show "index_wf (index_add k r l am)" using wf by (cases k) (simp_all add: index_wf_def emplace_at_wf(1) distinct_set_emplace)
  show "am_conns (index_add k r l am) = am_conns am" by (cases k) simp_all
  show "index_items k' (index_add k r l am) = (if k' = k then set_emplace r l (index_items k am) else index_items k' am)"
    using wf by (cases k; cases k') (simp_all add: index_items_def emplace_at_wf(2))
qed

lemma index_del_wf:
  assumes "index_wf am" "r \<in> fst ` set (index_items k am)"
  obtains am' where "index_del k r am = Inr am'" "index_wf am'" "am_conns am' = am_conns am"
    "\<forall>k'. index_items k' am' = (if k' = k then set_erase r (index_items k am) else index_items k' am)"
proof (cases k)
  case (KId s)
  then obtain m where m: "erase_at s r (am_allIds am) = Inr m" "map_wf m"
    "\<And>k'. at_key m k' = (if k' = s then set_erase r (at_key (am_allIds am) s) else at_key (am_allIds am) k')"
    using erase_at_wf [of "am_allIds am" r s] assms by (auto simp: index_items_def index_wf_def)
  show thesis
  proof (rule that [of "am\<lparr>am_allIds := m\<rparr>"])
    show "\<forall>k'. index_items k' (am\<lparr>am_allIds := m\<rparr>) = (if k' = k then set_erase r (index_items k am) else index_items k' am)"
      using m(3) by (intro allI, case_tac k') (simp_all add: index_items_def KId)
  qed (use m(1,2) assms(1) KId in \<open>simp_all add: index_wf_def\<close>)
next
  case (KAuthor s)
  then obtain m where m: "erase_at s r (am_allAuthors am) = Inr m" "map_wf m"
    "\<And>k'. at_key m k' = (if k' = s then set_erase r (at_key (am_allAuthors am) s) else at_key (am_allAuthors am) k')"
    using erase_at_wf [of "am_allAuthors am" r s] assms by (auto simp: index_items_def index_wf_def)
  show thesis
  proof (rule that [of "am\<lparr>am_allAuthors := m\<rparr>"])
    show "\<forall>k'. index_items k' (am\<lparr>am_allAuthors := m\<rparr>) = (if k' = k then set_erase r (index_items k am) else index_items k' am)"
      using m(3) by (intro allI, case_tac k') (simp_all add: index_items_def KAuthor)
  qed (use m(1,2) assms(1) KAuthor in \<open>simp_all add: index_wf_def\<close>)
next
  case (KTag s)
  then obtain m where m: "erase_at s r (am_allTags am) = Inr m" "map_wf m"
    "\<And>k'. at_key m k' = (if k' = s then set_erase r (at_key (am_allTags am) s) else at_key (am_allTags am) k')"
    using erase_at_wf [of "am_allTags am" r s] assms by (auto simp: index_items_def index_wf_def)
  show thesis
  proof (rule that [of "am\<lparr>am_allTags := m\<rparr>"])
    show "\<forall>k'. index_items k' (am\<lparr>am_allTags := m\<rparr>) = (if k' = k then set_erase r (index_items k am) else index_items k' am)"
      using m(3) by (intro allI, case_tac k') (simp_all add: index_items_def KTag)
  qed (use m(1,2) assms(1) KTag in \<open>simp_all add: index_wf_def\<close>)
next
  case (KKind s)
  then obtain m where m: "erase_at s r (am_allKinds am) = Inr m" "map_wf m"
    "\<And>k'. at_key m k' = (if k' = s then set_erase r (at_key (am_allKinds am) s) else at_key (am_allKinds am) k')"
    using erase_at_wf [of "am_allKinds am" r s] assms by (auto simp: index_items_def index_wf_def)
  show thesis
  proof (rule that [of "am\<lparr>am_allKinds := m\<rparr>"])
    show "\<forall>k'. index_items k' (am\<lparr>am_allKinds := m\<rparr>) = (if k' = k then set_erase r (index_items k am) else index_items k' am)"
      using m(3) by (intro allI, case_tac k') (simp_all add: index_items_def KKind)
  qed (use m(1,2) assms(1) KKind in \<open>simp_all add: index_wf_def\<close>)
next
  case KOther
  show thesis
  proof (rule that [of "am\<lparr>am_allOthers := set_erase r (am_allOthers am)\<rparr>"])
    show "\<forall>k'. index_items k' (am\<lparr>am_allOthers := set_erase r (am_allOthers am)\<rparr>) =
        (if k' = k then set_erase r (index_items k am) else index_items k' am)"
      by (intro allI, case_tac k') (simp_all add: index_items_def KOther)
  qed (use assms(1) KOther in \<open>simp_all add: index_wf_def distinct_set_erase\<close>)
qed

lemma entries_add:
  assumes "index_wf am"
  shows "entries (index_add k r l am) = insert (k, r) (entries am)"
proof (rule set_eqI)
  fix x
  show "x \<in> entries (index_add k r l am) \<longleftrightarrow> x \<in> insert (k, r) (entries am)"
    by (cases x) (auto simp: entries_def index_add_wf [OF assms] simp del: split_paired_All split_paired_Ex)
qed

lemma entries_del:
  assumes "\<forall>k'. index_items k' am' = (if k' = k then set_erase r (index_items k am) else index_items k' am)"
  shows "entries am' = entries am - {(k, r)}"
proof (rule set_eqI)
  fix x
  show "x \<in> entries am' \<longleftrightarrow> x \<in> entries am - {(k, r)}"
    by (cases x) (auto simp: entries_def assms simp del: split_paired_All split_paired_Ex)
qed

section \<open>The entries of a subscription\<close>

definition filter_keys :: "nostr_filter \<Rightarrow> mkey list" where
  "filter_keys f =
     (case nf_ids f of
        Some ids \<Rightarrow> map KId (FilterSetBytes_elems ids)
      | None \<Rightarrow>
     (case nf_authors f of
        Some authors \<Rightarrow> map KAuthor (FilterSetBytes_elems authors)
      | None \<Rightarrow>
     if nf_tags f \<noteq> [] then
       concat (map (\<lambda>t. map (\<lambda>v. KTag (getTagSpec (fst t) v)) (FilterSetBytes_elems (snd t))) (nf_tags f))
     else
     (case nf_kinds f of
        Some kinds \<Rightarrow> map KKind kinds
      | None \<Rightarrow> [KOther])))"

lemma foldE_cong: "(\<And>x s. x \<in> set xs \<Longrightarrow> f x s = g x s) \<Longrightarrow> foldE f xs s = foldE g xs s"
  by (induction xs arbitrary: s) (auto simp: bindE_def split: sum.split)

lemma foldE_map: "foldE f (map g xs) s = foldE (\<lambda>x. f (g x)) xs s"
  by (induction xs arbitrary: s) (auto simp: bindE_def split: sum.split)

lemma foldE_concat: "foldE f (concat xss) s = foldE (\<lambda>xs. foldE f xs) xss s"
  by (induction xss arbitrary: s) (auto simp: foldE_append bindE_def split: sum.split)

lemma bindE_foldE_Nil [simp]: "bindE m (foldE f []) = m"
  by (cases m) simp_all

lemma foldE_nth: "foldE (\<lambda>i. f (xs ! i)) [0..<length xs] s = foldE f xs s"
  using foldE_map [of f "(!) xs" "[0..<length xs]" s] by (simp add: map_nth)

lemma foldE_bytes:
  "foldE (\<lambda>i am. bindE (FilterSetBytes_at fs i) (\<lambda>v. g v am)) [0..<FilterSetBytes_size fs] s = foldE g (FilterSetBytes_elems fs) s"
proof -
  have len: "length (FilterSetBytes_elems fs) = FilterSetBytes_size fs" by (simp add: FilterSetBytes_elems_def FilterSetBytes_size_def)
  have "foldE (\<lambda>i am. bindE (FilterSetBytes_at fs i) (\<lambda>v. g v am)) [0..<FilterSetBytes_size fs] s =
      foldE (\<lambda>i. g (FilterSetBytes_elems fs ! i)) [0..<FilterSetBytes_size fs] s"
    by (rule foldE_cong) (simp add: FilterSetBytes_at_def FilterSetBytes_size_def FilterSetBytes_elems_def)
  then show ?thesis using foldE_nth [of g "FilterSetBytes_elems fs" s] by (simp add: len)
qed

lemma foldE_uints:
  "foldE (\<lambda>i am. bindE (FilterSetUint_at ks i) (\<lambda>k. g k am)) [0..<length ks] s = foldE g ks s"
proof -
  have "foldE (\<lambda>i am. bindE (FilterSetUint_at ks i) (\<lambda>k. g k am)) [0..<length ks] s = foldE (\<lambda>i. g (ks ! i)) [0..<length ks] s"
    by (rule foldE_cong) (simp add: FilterSetUint_at_def)
  then show ?thesis using foldE_nth [of g ks s] by simp
qed

lemma each_key_keys:
  assumes "filter_ok f"
  shows "each_key act f am = foldE act (filter_keys f) am"
proof -
  have b32: "Bytes32 v = Inr v" if "bytes_set 32 32 s" "v \<in> set (FilterSetBytes_elems s)" for s v
    using bytes_setD(1) [OF that] by (simp add: Bytes32_def)
  have bytes: "foldE (\<lambda>v am. bindE (Bytes32 v) (\<lambda>b. act (mk b) am)) (FilterSetBytes_elems s) am =
      foldE act (map mk (FilterSetBytes_elems s)) am" if "bytes_set 32 32 s" for s mk
    unfolding foldE_map by (rule foldE_cong) (simp add: b32 [OF that])
  have tags: "foldE (\<lambda>(tagName, filterSet) am. foldE (\<lambda>i am. bindE (FilterSetBytes_at filterSet i) (\<lambda>v.
           act (KTag (getTagSpec tagName v)) am)) [0..<FilterSetBytes_size filterSet] am) ts am =
      foldE act (concat (map (\<lambda>t. map (\<lambda>v. KTag (getTagSpec (fst t) v)) (FilterSetBytes_elems (snd t))) ts)) am" for ts
    unfolding foldE_concat foldE_map by (rule foldE_cong) (simp add: foldE_bytes foldE_map case_prod_unfold)
  show ?thesis
    using assms unfolding each_key_def filter_keys_def
    by (auto simp: foldE_bytes foldE_uints foldE_map tags filter_ok_def bytes split: option.split)
qed

lemma distinct_concat_map:
  "distinct (map fst ts) \<Longrightarrow> (\<And>t. t \<in> set ts \<Longrightarrow> distinct (g t)) \<Longrightarrow>
   distinct (concat (map (\<lambda>t. map (\<lambda>v. KTag (getTagSpec (fst t) v)) (g t)) ts))"
  by (induction ts) (auto simp: distinct_map inj_on_def getTagSpec_def image_iff)

lemma distinct_filter_keys:
  assumes "filter_ok f"
  shows "distinct (filter_keys f)"
proof -
  have tags: "distinct (concat (map (\<lambda>t. map (\<lambda>v. KTag (getTagSpec (fst t) v)) (FilterSetBytes_elems (snd t))) (nf_tags f)))"
    using assms by (intro distinct_concat_map) (auto simp: filter_ok_def bytes_set_def)
  show ?thesis
    using assms tags unfolding filter_keys_def
    by (auto simp: filter_ok_def bytes_set_def distinct_map inj_on_def split: option.split)
qed

definition sub_pairs :: "subscription \<Rightarrow> (mkey \<times> fref) list" where
  "sub_pairs sub = concat (map (\<lambda>j. map (\<lambda>k. (k, fref_of sub j)) (filter_keys (sub_filterGroup sub ! j)))
     [0..<length (sub_filterGroup sub)])"

definition sub_ok :: "subscription \<Rightarrow> bool" where
  "sub_ok sub \<longleftrightarrow> (\<forall>f\<in>set (sub_filterGroup sub). filter_ok f)"

lemma set_sub_pairs:
  "(k, r) \<in> set (sub_pairs sub) \<longleftrightarrow> (\<exists>j<length (sub_filterGroup sub). r = fref_of sub j \<and> k \<in> set (filter_keys (sub_filterGroup sub ! j)))"
  by (auto simp: sub_pairs_def)

lemma lookups_pairs:
  assumes "sub_ok sub"
  shows "foldE (\<lambda>j am. each_key (\<lambda>k am. act k (fref_of sub j) am) (sub_filterGroup sub ! j) am) [0..<length (sub_filterGroup sub)] am =
    foldE (\<lambda>x. act (fst x) (snd x)) (sub_pairs sub) am"
proof -
  have "foldE (\<lambda>j am. each_key (\<lambda>k am. act k (fref_of sub j) am) (sub_filterGroup sub ! j) am) [0..<length (sub_filterGroup sub)] am =
      foldE (\<lambda>j. foldE (\<lambda>x. act (fst x) (snd x)) (map (\<lambda>k. (k, fref_of sub j)) (filter_keys (sub_filterGroup sub ! j))))
        [0..<length (sub_filterGroup sub)] am"
    using assms by (intro foldE_cong) (simp add: each_key_keys sub_ok_def foldE_map)
  then show ?thesis by (simp add: sub_pairs_def foldE_concat foldE_map)
qed

lemma distinct_sub_pairs:
  assumes "sub_ok sub"
  shows "distinct (sub_pairs sub)"
proof -
  have "distinct (concat (map (\<lambda>j. map (\<lambda>k. (k, fref_of sub j)) (filter_keys (sub_filterGroup sub ! j))) js))"
    if "distinct js" "set js \<subseteq> {..<length (sub_filterGroup sub)}" for js
    using that
  proof (induction js)
    case (Cons j js)
    have "distinct (filter_keys (sub_filterGroup sub ! j))"
      using assms Cons.prems(2) by (intro distinct_filter_keys) (simp add: sub_ok_def)
    with Cons show ?case by (auto simp: distinct_map inj_on_def fref_of_def)
  qed simp
  from this [of "[0..<length (sub_filterGroup sub)]"] show ?thesis by (simp add: sub_pairs_def atLeast0LessThan)
qed

lemma installLookups_spec:
  assumes "sub_ok sub" "index_wf am"
  obtains am' where "installLookups sub cur am = Inr am'" "index_wf am'" "am_conns am' = am_conns am"
    "entries am' = entries am \<union> set (sub_pairs sub)"
    "\<And>k r l. (r, l) \<in> set (index_items k am') \<Longrightarrow> (r, l) \<in> set (index_items k am) \<or> l = cur \<and> (k, r) \<in> set (sub_pairs sub)"
proof -
  have "\<exists>am'. foldE (\<lambda>x am. Inr (index_add (fst x) (snd x) cur am)) ps am = Inr am' \<and> index_wf am' \<and> am_conns am' = am_conns am \<and>
      entries am' = entries am \<union> set ps \<and>
      (\<forall>k r l. (r, l) \<in> set (index_items k am') \<longrightarrow> (r, l) \<in> set (index_items k am) \<or> l = cur \<and> (k, r) \<in> set ps)" for ps
    using assms(2)
  proof (induction ps arbitrary: am)
    case (Cons p ps)
    obtain k r where p: "p = (k, r)" by (cases p)
    let ?am = "index_add k r cur am"
    obtain am' where am': "foldE (\<lambda>x am. Inr (index_add (fst x) (snd x) cur am)) ps ?am = Inr am'" "index_wf am'"
      "am_conns am' = am_conns ?am" "entries am' = entries ?am \<union> set ps"
      "\<forall>k r l. (r, l) \<in> set (index_items k am') \<longrightarrow> (r, l) \<in> set (index_items k ?am) \<or> l = cur \<and> (k, r) \<in> set ps"
      using Cons.IH [OF index_add_wf(1) [OF Cons.prems]] by blast
    have "(r', l) \<in> set (index_items k' ?am) \<Longrightarrow> (r', l) \<in> set (index_items k' am) \<or> l = cur \<and> (k', r') = p" for k' r' l
      by (auto simp: p index_add_wf(3) [OF Cons.prems] set_emplace_def split: if_splits)
    then have "\<forall>k r l. (r, l) \<in> set (index_items k am') \<longrightarrow> (r, l) \<in> set (index_items k am) \<or> l = cur \<and> (k, r) \<in> set (p # ps)"
      using am'(5) by (metis list.set_intros(1,2))
    with am'(1-4) show ?case
      by (intro exI [of _ am'] conjI) (simp_all add: p index_add_wf(2) [OF Cons.prems] entries_add [OF Cons.prems] del: split_paired_All)
  qed simp
  from this [of "sub_pairs sub"] that show thesis
    unfolding installLookups_def lookups_pairs [OF assms(1), of "\<lambda>k r am. Inr (index_add k r cur am)"] by blast
qed

lemma uninstallLookups_spec:
  assumes "sub_ok sub" "index_wf am" "set (sub_pairs sub) \<subseteq> entries am"
  obtains am' where "uninstallLookups sub am = Inr am'" "index_wf am'" "am_conns am' = am_conns am"
    "entries am' = entries am - set (sub_pairs sub)"
    "\<And>k. set (index_items k am') \<subseteq> set (index_items k am)"
proof -
  have "\<exists>am'. foldE (\<lambda>x am. index_del (fst x) (snd x) am) ps am = Inr am' \<and> index_wf am' \<and> am_conns am' = am_conns am \<and>
      entries am' = entries am - set ps \<and> (\<forall>k. set (index_items k am') \<subseteq> set (index_items k am))"
    if "distinct ps" "set ps \<subseteq> entries am" for ps
    using assms(2) that
  proof (induction ps arbitrary: am)
    case (Cons p ps)
    obtain k r where p: "p = (k, r)" by (cases p)
    have mem: "r \<in> fst ` set (index_items k am)" using Cons.prems(3) by (simp add: p entries_def)
    obtain am1 where am1: "index_del k r am = Inr am1" "index_wf am1" "am_conns am1 = am_conns am"
      "\<forall>k'. index_items k' am1 = (if k' = k then set_erase r (index_items k am) else index_items k' am)"
      by (rule index_del_wf [OF Cons.prems(1) mem])
    note ent = entries_del [OF am1(4)]
    have "distinct ps" "set ps \<subseteq> entries am1" using Cons.prems(2,3) by (auto simp: ent p)
    then obtain am' where am': "foldE (\<lambda>x am. index_del (fst x) (snd x) am) ps am1 = Inr am'" "index_wf am'"
      "am_conns am' = am_conns am1" "entries am' = entries am1 - set ps" "\<forall>k. set (index_items k am') \<subseteq> set (index_items k am1)"
      using Cons.IH [OF am1(2)] by blast
    have "set (index_items k' am1) \<subseteq> set (index_items k' am)" for k' by (auto simp: am1(4) set_erase_def)
    then have "\<forall>k. set (index_items k am') \<subseteq> set (index_items k am)" using am'(5) by (meson subset_trans)
    moreover have "entries am' = entries am - set (p # ps)" unfolding am'(4) ent by (auto simp: p)
    ultimately show ?case using am'(1-3) by (intro exI [of _ am']) (simp add: p am1(1,3))
  qed simp
  from this [OF distinct_sub_pairs [OF assms(1)] assms(3)] that show thesis
    unfolding uninstallLookups_def lookups_pairs [OF assms(1), of "\<lambda>k r am. index_del k r am"] by blast
qed

end
