(* ===== verification/Monitor_Ops.thy ===== *)
theory Monitor_Ops
  imports Monitor_Index
begin

text \<open>
  The invariant of the live subscriptions: the index has an entry for every value that a live
  filter names and no other.  Adding, removing and closing keep it and never fail.
\<close>

section \<open>The invariant\<close>

definition conns_wf :: "conn_monitors \<Rightarrow> bool" where
  "conns_wf conns \<longleftrightarrow> (\<forall>c cm. map_of conns c = Some cm \<longrightarrow> distinct (map fst cm) \<and>
     (\<forall>(i, sub)\<in>set cm. sub_connId sub = c \<and> sub_subId sub = i \<and> sub_ok sub))"

definition wf_find :: "(u64 \<Rightarrow> string \<Rightarrow> subscription option) \<Rightarrow> bool" where
  "wf_find F \<longleftrightarrow> (\<forall>c i sub. F c i = Some sub \<longrightarrow> sub_connId sub = c \<and> sub_subId sub = i \<and> sub_ok sub)"

definition live_pairs :: "(u64 \<Rightarrow> string \<Rightarrow> subscription option) \<Rightarrow> (mkey \<times> fref) set" where
  "live_pairs F = {x. \<exists>c i sub. F c i = Some sub \<and> x \<in> set (sub_pairs sub)}"

text \<open>
  The state of the monitors is sound: subscriptions are found under their own ids, the maps
  are ordered and hold no empty set, and the index has the entries of the live filters, no
  more and no less.
\<close>

definition am_inv :: "monitors \<Rightarrow> bool" where
  "am_inv am \<longleftrightarrow> conns_wf (am_conns am) \<and> index_wf am \<and> entries am = live_pairs (find_conn (am_conns am))"

text \<open>
  The number noted at an entry: no event after \<open>n\<close> and after the last one its subscription has
  seen was tested under it.
\<close>

definition known :: "conn_monitors \<Rightarrow> u64 \<Rightarrow> fref \<Rightarrow> u64 \<Rightarrow> bool" where
  "known conns n r l \<longleftrightarrow> l \<le> n \<or> (\<exists>sub f. deref conns r = Some (sub, f) \<and> l \<le> sub_latestEventId sub)"

definition latest_le :: "u64 \<Rightarrow> monitors \<Rightarrow> bool" where
  "latest_le n am \<longleftrightarrow> (\<forall>k r l. (r, l) \<in> set (index_items k am) \<longrightarrow> known (am_conns am) n r l)"

lemma conns_wf_find: "conns_wf conns \<Longrightarrow> wf_find (find_conn conns)"
  unfolding conns_wf_def wf_find_def find_conn_def by (fastforce split: option.splits dest: map_of_SomeD)

lemma conns_wf_find_iff:
  "conns_wf conns \<Longrightarrow> map_of conns c = Some cm \<Longrightarrow> (i, sub) \<in> set cm \<Longrightarrow> find_conn conns c i = Some sub"
  unfolding conns_wf_def find_conn_def by simp

lemma sub_pairs_ref: "(k, r) \<in> set (sub_pairs sub) \<Longrightarrow> \<exists>j. r = (sub_connId sub, sub_subId sub, j)"
  by (auto simp: set_sub_pairs fref_of_def)

lemma live_pairs_remove:
  assumes "wf_find F" "F c i = Some sub"
  shows "live_pairs (\<lambda>c' i'. if c' = c \<and> i' = i then None else F c' i') = live_pairs F - set (sub_pairs sub)"
proof (rule set_eqI)
  fix x :: "mkey \<times> fref"
  obtain k r where x: "x = (k, r)" by (cases x)
  let ?G = "\<lambda>c' i'. if c' = c \<and> i' = i then None else F c' i'"
  have own: "c' = c \<and> i' = i" if "F c' i' = Some s" "x \<in> set (sub_pairs s)" "x \<in> set (sub_pairs sub)" for c' i' s
    using assms that sub_pairs_ref [of k r sub] sub_pairs_ref [of k r s] unfolding wf_find_def x by force
  have "x \<in> live_pairs F - set (sub_pairs sub)" if "?G c' i' = Some s" "x \<in> set (sub_pairs s)" for c' i' s
  proof -
    have F: "F c' i' = Some s" and ne: "\<not> (c' = c \<and> i' = i)" using that(1) by (simp_all split: if_splits)
    have "x \<in> live_pairs F" using F that(2) unfolding live_pairs_def by blast
    then show ?thesis using own [OF F that(2)] ne by blast
  qed
  moreover have "\<exists>c' i' s. ?G c' i' = Some s \<and> x \<in> set (sub_pairs s)" if "x \<in> live_pairs F - set (sub_pairs sub)"
  proof -
    obtain c' i' s where s: "F c' i' = Some s" "x \<in> set (sub_pairs s)" using \<open>x \<in> live_pairs F - _\<close> unfolding live_pairs_def by blast
    have "\<not> (c' = c \<and> i' = i)" using that s assms(2) by auto
    then have "?G c' i' = Some s" using s(1) by simp
    then show ?thesis using s(2) by blast
  qed
  ultimately show "x \<in> live_pairs ?G \<longleftrightarrow> x \<in> live_pairs F - set (sub_pairs sub)" unfolding live_pairs_def by blast
qed

lemma live_pairs_add:
  assumes "F c i = None"
  shows "live_pairs (\<lambda>c' i'. if c' = c \<and> i' = i then Some sub else F c' i') = live_pairs F \<union> set (sub_pairs sub)"
proof (rule set_eqI)
  fix x :: "mkey \<times> fref"
  let ?G = "\<lambda>c' i'. if c' = c \<and> i' = i then Some sub else F c' i'"
  have new: "?G c i = Some sub" by simp
  have old: "?G c' i' = Some s" if "F c' i' = Some s" for c' i' s using that assms by auto
  have "\<exists>c' i' s. ?G c' i' = Some s \<and> x \<in> set (sub_pairs s)" if "x \<in> live_pairs F \<union> set (sub_pairs sub)"
    using that new old unfolding live_pairs_def by blast
  moreover have "x \<in> live_pairs F \<union> set (sub_pairs sub)" if "?G c' i' = Some s" "x \<in> set (sub_pairs s)" for c' i' s
    using that by (auto simp: live_pairs_def split: if_splits)
  ultimately show "x \<in> live_pairs ?G \<longleftrightarrow> x \<in> live_pairs F \<union> set (sub_pairs sub)"
    unfolding live_pairs_def by blast
qed

lemma map_of_set_conn: "map_of (am_conns (set_conn c cm am)) = (map_of (am_conns am))(c \<mapsto> cm)"
  by (auto simp: set_conn_def map_of_put_at map_add_def fun_eq_iff split: option.split)

lemma find_set_conn:
  "find_conn (am_conns (set_conn c cm am)) c' i' = (if c' = c then map_of cm i' else find_conn (am_conns am) c' i')"
  by (simp add: find_conn_def map_of_set_conn)

lemma find_erase_conn:
  "find_conn (am_conns (erase_conn c am)) c' i' = (if c' = c then None else find_conn (am_conns am) c' i')"
  by (simp add: find_conn_def erase_conn_def map_of_filter_key)

lemma index_frame [simp]:
  "index_items k (set_conn c cm am) = index_items k am" "index_items k (erase_conn c am) = index_items k am"
  "index_wf (set_conn c cm am) = index_wf am" "index_wf (erase_conn c am) = index_wf am"
  "entries (set_conn c cm am) = entries am" "entries (erase_conn c am) = entries am"
proof -
  show items: "index_items k (set_conn c cm am) = index_items k am" "index_items k (erase_conn c am) = index_items k am" for k
    by (cases k; simp add: index_items_def set_conn_def erase_conn_def)+
  show "index_wf (set_conn c cm am) = index_wf am" "index_wf (erase_conn c am) = index_wf am"
    by (simp_all add: index_wf_def set_conn_def erase_conn_def)
  show "entries (set_conn c cm am) = entries am" "entries (erase_conn c am) = entries am"
    by (simp_all only: entries_def items)
qed

lemma conn_subs_map_of: "find_conn (am_conns am) c i = map_of (conn_subs c am) i"
  by (simp add: find_conn_def conn_subs_def split: option.split)

lemma conns_wf_subs:
  assumes "conns_wf (am_conns am)"
  shows "distinct (map fst (conn_subs c am))"
    "(i, sub) \<in> set (conn_subs c am) \<Longrightarrow> sub_connId sub = c \<and> sub_subId sub = i \<and> sub_ok sub"
proof -
  show "distinct (map fst (conn_subs c am))"
    using assms by (cases "map_of (am_conns am) c") (simp_all add: conns_wf_def conn_subs_def)
  show "(i, sub) \<in> set (conn_subs c am) \<Longrightarrow> sub_connId sub = c \<and> sub_subId sub = i \<and> sub_ok sub"
    using assms by (cases "map_of (am_conns am) c") (simp_all add: conns_wf_def conn_subs_def, blast)
qed

lemma conns_wf_set_conn:
  assumes "conns_wf (am_conns am)" "distinct (map fst cm)"
    and "\<And>i sub. (i, sub) \<in> set cm \<Longrightarrow> sub_connId sub = c \<and> sub_subId sub = i \<and> sub_ok sub"
  shows "conns_wf (am_conns (set_conn c cm am))"
  unfolding conns_wf_def map_of_set_conn
proof (intro allI impI)
  fix d cm'
  assume d: "((map_of (am_conns am))(c \<mapsto> cm)) d = Some cm'"
  show "distinct (map fst cm') \<and> (\<forall>(i, sub)\<in>set cm'. sub_connId sub = d \<and> sub_subId sub = i \<and> sub_ok sub)"
  proof (cases "d = c")
    case True
    then show ?thesis using d assms(2,3) by auto
  next
    case False
    then show ?thesis using d assms(1) by (simp add: conns_wf_def)
  qed
qed

lemma conns_wf_erase_conn: "conns_wf (am_conns am) \<Longrightarrow> conns_wf (am_conns (erase_conn c am))"
  by (simp add: conns_wf_def erase_conn_def map_of_filter_key)

lemma entries_deref:
  assumes "am_inv am" "r \<in> fst ` set (index_items k am)"
  shows "deref (am_conns am) r \<noteq> None"
proof -
  have "(k, r) \<in> live_pairs (find_conn (am_conns am))" using assms by (auto simp: am_inv_def entries_def)
  then obtain c i sub where sub: "find_conn (am_conns am) c i = Some sub" "(k, r) \<in> set (sub_pairs sub)"
    unfolding live_pairs_def by blast
  moreover have "sub_connId sub = c" "sub_subId sub = i"
    using conns_wf_find assms(1) sub(1) unfolding am_inv_def wf_find_def by blast+
  ultimately show ?thesis unfolding set_sub_pairs by (auto simp: fref_of_def deref_def)
qed

lemma deref_find:
  assumes "deref conns' r \<noteq> None" "\<And>s. find_conn conns' (fst r) (fst (snd r)) = Some s \<Longrightarrow> find_conn conns (fst r) (fst (snd r)) = Some s"
  shows "deref conns' r = deref conns r"
  using assms by (cases r) (auto simp: deref_def split: option.splits if_splits)

text \<open>Removing entries and subscriptions.\<close>

lemma latest_le_shrink:
  assumes "latest_le n am" "am_inv am'" "\<And>k. set (index_items k am') \<subseteq> set (index_items k am)"
    and "\<And>c i s. find_conn (am_conns am') c i = Some s \<Longrightarrow> find_conn (am_conns am) c i = Some s"
  shows "latest_le n am'"
  unfolding latest_le_def
proof (intro allI impI)
  fix k r l
  assume *: "(r, l) \<in> set (index_items k am')"
  then have "r \<in> fst ` set (index_items k am')" by force
  then have "deref (am_conns am') r = deref (am_conns am) r" using entries_deref [OF assms(2)] assms(4) by (intro deref_find) blast+
  moreover have "known (am_conns am) n r l" using * assms(1,3) unfolding latest_le_def by blast
  ultimately show "known (am_conns am') n r l" by (simp add: known_def)
qed

lemma removeSub_spec:
  assumes "am_inv am"
  obtains am' where "removeSub c i am = Inr am'" "am_inv am'"
    "find_conn (am_conns am') = (\<lambda>c' i'. if c' = c \<and> i' = i then None else find_conn (am_conns am) c' i')"
    "\<And>n. latest_le n am \<Longrightarrow> latest_le n am'"
proof (cases "findMonitor c i am")
  case None
  then have "find_conn (am_conns am) = (\<lambda>c' i'. if c' = c \<and> i' = i then None else find_conn (am_conns am) c' i')"
    by (auto simp: findMonitor_def fun_eq_iff)
  with None assms show thesis by (intro that [of am]) (simp_all add: removeSub_def)
next
  case (Some sub)
  note inv = assms [unfolded am_inv_def]
  let ?F = "find_conn (am_conns am)"
  have F: "wf_find ?F" "?F c i = Some sub" using inv conns_wf_find Some by (simp_all add: findMonitor_def)
  then have sub: "sub_ok sub" "set (sub_pairs sub) \<subseteq> entries am" using inv by (auto simp: wf_find_def live_pairs_def)
  obtain am1 where am1: "uninstallLookups sub am = Inr am1" "index_wf am1" "am_conns am1 = am_conns am"
    "entries am1 = entries am - set (sub_pairs sub)" "\<And>k. set (index_items k am1) \<subseteq> set (index_items k am)"
    using uninstallLookups_spec [OF sub(1) _ sub(2)] inv by metis
  let ?cm = "List.filter (\<lambda>x. fst x \<noteq> i) (conn_subs c am1)"
  let ?am = "if ?cm = [] then erase_conn c am1 else set_conn c ?cm am1"
  have wf1: "conns_wf (am_conns am1)" using inv am1(3) by simp
  have subs: "map_of ?cm = (map_of (conn_subs c am1))(i := None)" by (rule map_of_filter_key)
  have find: "find_conn (am_conns ?am) = (\<lambda>c' i'. if c' = c \<and> i' = i then None else ?F c' i')"
  proof (intro ext)
    fix c' i'
    have "?F c i' = map_of (conn_subs c am1) i'" by (metis conn_subs_map_of am1(3))
    moreover have "map_of ?cm i' = None" if "?cm = []" using that by simp
    ultimately show "find_conn (am_conns ?am) c' i' = (if c' = c \<and> i' = i then None else ?F c' i')"
      using fun_cong [OF subs, of i'] by (auto simp: find_erase_conn find_set_conn am1(3))
  qed
  have "conns_wf (am_conns ?am)"
    using wf1 conns_wf_subs [OF wf1]
    by (auto intro!: conns_wf_set_conn conns_wf_erase_conn simp: distinct_map_filter)
  moreover have "entries ?am = live_pairs (find_conn (am_conns ?am))"
    unfolding find live_pairs_remove [OF F] using inv am1(4) by simp
  moreover have "index_wf ?am" using am1(2) by simp
  ultimately have "am_inv ?am" by (simp add: am_inv_def)
  moreover have "latest_le n ?am" if "latest_le n am" for n
    using that \<open>am_inv ?am\<close>
  proof (rule latest_le_shrink)
    show "set (index_items k ?am) \<subseteq> set (index_items k am)" for k using am1(5) by simp
    show "find_conn (am_conns am) c' i' = Some s" if "find_conn (am_conns ?am) c' i' = Some s" for c' i' s
      using that unfolding find by (simp split: if_splits)
  qed
  moreover have "removeSub c i am = Inr ?am" by (simp add: removeSub_def Some am1(1) Let_def)
  ultimately show thesis using find by (intro that)
qed

text \<open>Adding replaces the subscription of the same id, or drops it when the limit is reached.\<close>

lemma addSub_spec:
  assumes "am_inv am" "sub_ok sub" "sub_latestEventId sub = cur"
  obtains ok am' where "addSub maxSubs sub cur am = Inr (ok, am')" "am_inv am'"
    "find_conn (am_conns am') = (\<lambda>c i. if c = sub_connId sub \<and> i = sub_subId sub then (if ok then Some sub else None)
       else find_conn (am_conns am) c i)"
    "\<And>n. latest_le n am \<Longrightarrow> latest_le n am'"
    "ok \<longleftrightarrow> card {i. find_conn (am_conns am) (sub_connId sub) i \<noteq> None \<and> i \<noteq> sub_subId sub} < maxSubs"
proof -
  let ?c = "sub_connId sub" and ?i = "sub_subId sub"
  obtain am1 where am1: "removeSub ?c ?i am = Inr am1" "am_inv am1"
    "find_conn (am_conns am1) = (\<lambda>c' i'. if c' = ?c \<and> i' = ?i then None else find_conn (am_conns am) c' i')"
    "\<And>n. latest_le n am \<Longrightarrow> latest_le n am1"
    using assms(1) by (rule removeSub_spec) blast
  have rem: "(case findMonitor ?c ?i am of None \<Rightarrow> Inr am | Some x \<Rightarrow> removeSub ?c ?i am) = Inr am1"
    using am1(1) by (simp add: removeSub_def split: option.splits)
  note inv = am1(2) [unfolded am_inv_def]
  let ?cm = "conn_subs ?c am1"
  have gone: "map_of ?cm ?i = None" using conn_subs_map_of [of am1 ?c ?i] by (simp add: am1(3))
  note subs = conns_wf_subs [OF conjunct1 [OF inv], where c = ?c]
  have "{i. find_conn (am_conns am) ?c i \<noteq> None \<and> i \<noteq> ?i} = dom (map_of ?cm)"
    using am1(3) by (auto simp: fun_eq_iff dom_def conn_subs_map_of [of am1, symmetric])
  then have others: "card {i. find_conn (am_conns am) ?c i \<noteq> None \<and> i \<noteq> ?i} = length ?cm"
    using subs(1) by (simp add: dom_map_of_conv_image_fst) (metis distinct_card length_map list.set_map)
  show thesis
  proof (cases "length ?cm \<ge> maxSubs")
    case True
    let ?am = "set_conn ?c ?cm am1"
    have find: "find_conn (am_conns ?am) = find_conn (am_conns am1)"
      by (intro ext) (simp add: find_set_conn flip: conn_subs_map_of)
    have "am_inv ?am" unfolding am_inv_def find using inv subs by (auto intro!: conns_wf_set_conn)
    moreover have "latest_le n ?am" if "latest_le n am" for n
      using am1(4) [OF that] \<open>am_inv ?am\<close> by (rule latest_le_shrink) (simp_all add: find)
    moreover have "addSub maxSubs sub cur am = Inr (False, ?am)"
      by (simp add: addSub_def assms(3) rem Let_def True throw_if_def)
    ultimately show thesis using True others by (intro that [of False ?am]) (simp_all add: find am1(3))
  next
    case False
    let ?am = "set_conn ?c (?cm @ [(?i, sub)]) am1"
    have wf0: "index_wf ?am" using inv by simp
    obtain am2 where am2: "installLookups sub cur ?am = Inr am2" "index_wf am2" "am_conns am2 = am_conns ?am"
      "entries am2 = entries ?am \<union> set (sub_pairs sub)"
      "\<And>k r l. (r, l) \<in> set (index_items k am2) \<Longrightarrow> (r, l) \<in> set (index_items k ?am) \<or> l = cur \<and> (k, r) \<in> set (sub_pairs sub)"
      using installLookups_spec [OF assms(2) wf0, of cur] by blast
    have find: "find_conn (am_conns am2) = (\<lambda>c i. if c = ?c \<and> i = ?i then Some sub else find_conn (am_conns am1) c i)"
      using gone by (intro ext) (auto simp: am2(3) find_set_conn conn_subs_map_of [of am1] map_add_def split: option.split)
    have "distinct (map fst (?cm @ [(?i, sub)]))"
      using subs(1) gone by (simp add: map_of_eq_None_iff)
    moreover have "sub_connId s = ?c \<and> sub_subId s = i \<and> sub_ok s" if "(i, s) \<in> set (?cm @ [(?i, sub)])" for i s
      using that subs(2) assms(2) by auto
    ultimately have wf: "conns_wf (am_conns am2)" unfolding am2(3) using conjunct1 [OF inv] by (intro conns_wf_set_conn)
    have "live_pairs (find_conn (am_conns am2)) = live_pairs (find_conn (am_conns am1)) \<union> set (sub_pairs sub)"
      unfolding find by (rule live_pairs_add) (simp add: am1(3))
    then have "am_inv am2" using wf am2(2,4) inv by (simp add: am_inv_def)
    moreover have "latest_le n am2" if "latest_le n am" for n
      unfolding latest_le_def
    proof (intro allI impI)
      fix k r l
      assume "(r, l) \<in> set (index_items k am2)"
      from am2(5) [OF this] show "known (am_conns am2) n r l"
      proof
        assume *: "(r, l) \<in> set (index_items k ?am)"
        then have old: "(r, l) \<in> set (index_items k am1)" by simp
        then have "r \<in> fst ` set (index_items k am1)" by force
        then have r: "deref (am_conns am1) r \<noteq> None" by (rule entries_deref [OF am1(2)])
        have "find_conn (am_conns am2) (fst r) (fst (snd r)) = Some s" if "find_conn (am_conns am1) (fst r) (fst (snd r)) = Some s" for s
          using that by (auto simp: find am1(3) split: if_splits)
        then have "deref (am_conns am1) r = deref (am_conns am2) r" using r by (intro deref_find) blast+
        moreover have "known (am_conns am1) n r l" using am1(4) [OF that] old unfolding latest_le_def by blast
        ultimately show "known (am_conns am2) n r l" by (simp add: known_def)
      next
        assume *: "l = cur \<and> (k, r) \<in> set (sub_pairs sub)"
        then obtain j where "r = fref_of sub j" "j < length (sub_filterGroup sub)" by (auto simp: set_sub_pairs)
        then have "deref (am_conns am2) r = Some (sub, sub_filterGroup sub ! j)" by (simp add: deref_def fref_of_def find)
        then show "known (am_conns am2) n r l" using * assms(3) by (simp add: known_def)
      qed
    qed
    moreover have "addSub maxSubs sub cur am = Inr (True, am2)"
      using False by (simp add: addSub_def assms(3) rem Let_def throw_if_def am2(1))
    ultimately show thesis using find am1(3) False others by (intro that [of True am2]) (simp_all add: fun_eq_iff)
  qed
qed

lemma uninstall_all:
  assumes "index_wf am" "\<forall>s\<in>set ss. sub_ok s \<and> set (sub_pairs s) \<subseteq> entries am"
    and "sorted_wrt (\<lambda>s s'. set (sub_pairs s) \<inter> set (sub_pairs s') = {}) ss"
  shows "\<exists>am'. foldE uninstallLookups ss am = Inr am' \<and> index_wf am' \<and> am_conns am' = am_conns am \<and>
    entries am' = entries am - (\<Union>s\<in>set ss. set (sub_pairs s)) \<and> (\<forall>k. set (index_items k am') \<subseteq> set (index_items k am))"
  using assms
proof (induction ss arbitrary: am)
  case (Cons s ss)
  obtain am1 where am1: "uninstallLookups s am = Inr am1" "index_wf am1" "am_conns am1 = am_conns am"
    "entries am1 = entries am - set (sub_pairs s)" "\<And>k. set (index_items k am1) \<subseteq> set (index_items k am)"
    using uninstallLookups_spec [of s am] Cons.prems(1,2) by (metis list.set_intros(1))
  have "\<forall>t\<in>set ss. sub_ok t \<and> set (sub_pairs t) \<subseteq> entries am1"
    using Cons.prems(2,3) unfolding am1(4) by (simp add: Diff_eq) blast
  then obtain am' where am': "foldE uninstallLookups ss am1 = Inr am'" "index_wf am'" "am_conns am' = am_conns am1"
    "entries am' = entries am1 - (\<Union>s\<in>set ss. set (sub_pairs s))" "\<forall>k. set (index_items k am') \<subseteq> set (index_items k am1)"
    using Cons.IH [OF am1(2)] Cons.prems(3) by auto
  have "entries am' = entries am - (\<Union>s\<in>set (s # ss). set (sub_pairs s))" unfolding am'(4) am1(4) by auto
  moreover have "\<forall>k. set (index_items k am') \<subseteq> set (index_items k am)" using am'(5) am1(5) by (meson subset_trans)
  ultimately show ?case using am'(1-3) by (intro exI [of _ am']) (simp add: am1(1,3))
qed simp

lemma live_pairs_close:
  assumes "conns_wf conns" "map_of conns c = Some cm"
  shows "live_pairs (\<lambda>c' i. if c' = c then None else find_conn conns c' i) =
    live_pairs (find_conn conns) - (\<Union>s\<in>set (map snd cm). set (sub_pairs s))"
proof (rule set_eqI)
  fix x :: "mkey \<times> fref"
  obtain k r where x: "x = (k, r)" by (cases x)
  let ?F = "find_conn conns" and ?G = "\<lambda>c' i. if c' = c then None else find_conn conns c' i"
  have own: "c' = fst r" if "?F c' i = Some s" "x \<in> set (sub_pairs s)" for c' i s
  proof -
    have "sub_connId s = c'" using conns_wf_find [OF assms(1)] that(1) unfolding wf_find_def by blast
    then show ?thesis using sub_pairs_ref [of k r s] that(2) by (auto simp: x)
  qed
  have closed: "s \<in> set (map snd cm) \<longleftrightarrow> (\<exists>i. ?F c i = Some s)" for s
  proof -
    have "distinct (map fst cm)" using assms by (simp add: conns_wf_def)
    then have "?F c i = Some s \<longleftrightarrow> (i, s) \<in> set cm" for i by (simp add: find_conn_def assms(2))
    then show ?thesis by force
  qed
  have "x \<in> live_pairs ?G \<longleftrightarrow> x \<in> live_pairs ?F \<and> fst r \<noteq> c"
  proof
    assume "x \<in> live_pairs ?G"
    then obtain c' i s where s: "?G c' i = Some s" "x \<in> set (sub_pairs s)" unfolding live_pairs_def by blast
    then have "?F c' i = Some s" "c' \<noteq> c" by (simp_all split: if_splits)
    with s(2) own show "x \<in> live_pairs ?F \<and> fst r \<noteq> c" unfolding live_pairs_def by blast
  next
    assume *: "x \<in> live_pairs ?F \<and> fst r \<noteq> c"
    then obtain c' i s where s: "?F c' i = Some s" "x \<in> set (sub_pairs s)" unfolding live_pairs_def by blast
    with * own have "?G c' i = Some s" by auto
    with s(2) show "x \<in> live_pairs ?G" unfolding live_pairs_def by blast
  qed
  moreover have "x \<in> (\<Union>s\<in>set (map snd cm). set (sub_pairs s)) \<longleftrightarrow> x \<in> live_pairs ?F \<and> fst r = c"
    unfolding live_pairs_def using own closed by blast
  ultimately show "x \<in> live_pairs ?G \<longleftrightarrow> x \<in> live_pairs ?F - (\<Union>s\<in>set (map snd cm). set (sub_pairs s))" by blast
qed

lemma closeConn_spec:
  assumes "am_inv am"
  obtains am' where "closeConn c am = Inr am'" "am_inv am'"
    "find_conn (am_conns am') = (\<lambda>c' i. if c' = c then None else find_conn (am_conns am) c' i)"
    "\<And>n. latest_le n am \<Longrightarrow> latest_le n am'"
proof (cases "map_of (am_conns am) c")
  case None
  then have "find_conn (am_conns am) = (\<lambda>c' i. if c' = c then None else find_conn (am_conns am) c' i)"
    by (auto simp: find_conn_def fun_eq_iff)
  with None assms show thesis by (intro that [of am]) (simp_all add: closeConn_def)
next
  case (Some cm)
  note inv = assms [unfolded am_inv_def]
  have cm: "distinct (map fst cm)" "\<And>i s. (i, s) \<in> set cm \<Longrightarrow> sub_connId s = c \<and> sub_subId s = i \<and> sub_ok s"
    using conns_wf_subs [OF conjunct1 [OF inv], where c = c] by (auto simp: conn_subs_def Some)
  have live: "set (sub_pairs s) \<subseteq> entries am" if "(i, s) \<in> set cm" for i s
    using conns_wf_find_iff [OF conjunct1 [OF inv] Some that] inv by (auto simp: live_pairs_def)
  have "\<forall>s\<in>set (map snd cm). sub_ok s \<and> set (sub_pairs s) \<subseteq> entries am"
    using cm(2) live unfolding set_map by (metis imageE prod.collapse)
  moreover have "sorted_wrt (\<lambda>s s'. set (sub_pairs s) \<inter> set (sub_pairs s') = {}) (map snd cm)"
    unfolding sorted_wrt_map
  proof (rule sorted_wrt_mono_rel [of _ "\<lambda>x y. fst x \<noteq> fst y"])
    show "sorted_wrt (\<lambda>x y. fst x \<noteq> fst y) cm" using cm(1) by (induction cm) auto
    show "set (sub_pairs (snd x)) \<inter> set (sub_pairs (snd y)) = {}" if "x \<in> set cm" "y \<in> set cm" "fst x \<noteq> fst y" for x y
    proof -
      have "sub_subId (snd x) \<noteq> sub_subId (snd y)" using cm(2) [of "fst x" "snd x"] cm(2) [of "fst y" "snd y"] that by simp
      then show ?thesis using sub_pairs_ref [where sub = "snd x"] sub_pairs_ref [where sub = "snd y"] by fastforce
    qed
  qed
  ultimately obtain am1 where am1: "foldE uninstallLookups (map snd cm) am = Inr am1" "index_wf am1" "am_conns am1 = am_conns am"
    "entries am1 = entries am - (\<Union>s\<in>set (map snd cm). set (sub_pairs s))" "\<forall>k. set (index_items k am1) \<subseteq> set (index_items k am)"
    using uninstall_all [of am "map snd cm"] inv by blast
  let ?am = "erase_conn c am1"
  have find: "find_conn (am_conns ?am) = (\<lambda>c' i. if c' = c then None else find_conn (am_conns am) c' i)"
    by (intro ext) (simp add: find_erase_conn am1(3))
  have "conns_wf (am_conns ?am)" using inv by (intro conns_wf_erase_conn) (simp add: am1(3))
  moreover have "entries ?am = live_pairs (find_conn (am_conns ?am))"
    unfolding find live_pairs_close [OF conjunct1 [OF inv] Some] using inv am1(4) by simp
  ultimately have "am_inv ?am" using am1(2) by (simp add: am_inv_def)
  moreover have "latest_le n ?am" if "latest_le n am" for n
    using that \<open>am_inv ?am\<close> by (rule latest_le_shrink) (use am1(5) in \<open>simp_all add: find split: if_splits\<close>)
  moreover have "closeConn c am = Inr ?am" using am1(1) by (simp add: closeConn_def Some foldE_map)
  ultimately show thesis using find by (intro that)
qed

end
