(* ===== verification/Monitor_Results.thy ===== *)
theory Monitor_Results
  imports Monitor_Ops
begin

text \<open>
  A new event against the live subscriptions: the walk over the index finds exactly the
  subscriptions that the plain test of every filter would find, each once; and the index stays
  exact, whatever subscriptions come and go and whatever events arrive.
\<close>

section \<open>Marking recipients\<close>

lemma map_of_map_values: "map_of (map (\<lambda>(k, v). (k, g k v)) m) k = map_option (g k) (map_of m k)"
  by (induction m) auto

lemma map_of_mark:
  "map_of (mark lev rec conns) c = map_option (map (\<lambda>(i, sub).
      (i, if (c, i) \<in> set rec then sub\<lparr>sub_latestEventId := lev\<rparr> else sub))) (map_of conns c)"
  unfolding mark_def by (rule map_of_map_values)

lemma find_mark:
  "find_conn (mark lev rec conns) c i =
     map_option (\<lambda>sub. if (c, i) \<in> set rec then sub\<lparr>sub_latestEventId := lev\<rparr> else sub) (find_conn conns c i)"
  by (cases "map_of conns c") (simp_all add: find_conn_def map_of_mark map_of_map_values)

lemma mark_mark: "mark lev [to] (mark lev rec conns) = mark lev (rec @ [to]) conns"
  by (auto simp: mark_def case_prod_unfold)

lemma mark_Nil [simp]: "mark lev [] conns = conns"
  by (simp add: mark_def case_prod_unfold)

lemma sub_update [simp]:
  "sub_pairs (sub\<lparr>sub_latestEventId := l\<rparr>) = sub_pairs sub" "sub_ok (sub\<lparr>sub_latestEventId := l\<rparr>) = sub_ok sub"
  by (simp_all add: sub_pairs_def fref_of_def sub_ok_def)

lemma conns_wf_mark:
  assumes "conns_wf conns"
  shows "conns_wf (mark lev rec conns)"
  unfolding conns_wf_def
proof (intro allI impI)
  fix c cm'
  assume *: "map_of (mark lev rec conns) c = Some cm'"
  then obtain cm where cm: "map_of conns c = Some cm"
    "cm' = map (\<lambda>(i, sub). (i, if (c, i) \<in> set rec then sub\<lparr>sub_latestEventId := lev\<rparr> else sub)) cm" by (auto simp: map_of_mark)
  have fsts: "map fst cm' = map fst cm" by (simp add: cm(2) comp_def case_prod_unfold)
  have "distinct (map fst cm)" "\<forall>(i, sub)\<in>set cm. sub_connId sub = c \<and> sub_subId sub = i \<and> sub_ok sub"
    using assms cm(1) by (simp_all add: conns_wf_def)
  then show "distinct (map fst cm') \<and> (\<forall>(i, sub)\<in>set cm'. sub_connId sub = c \<and> sub_subId sub = i \<and> sub_ok sub)"
    unfolding fsts by (auto simp: cm(2))
qed

lemma live_pairs_mark: "live_pairs (find_conn (mark lev rec conns)) = live_pairs (find_conn conns)"
proof (rule set_eqI)
  fix x :: "mkey \<times> fref"
  have "(\<exists>s. find_conn (mark lev rec conns) c i = Some s \<and> x \<in> set (sub_pairs s)) \<longleftrightarrow>
      (\<exists>s. find_conn conns c i = Some s \<and> x \<in> set (sub_pairs s))" for c i
    by (cases "find_conn conns c i") (simp_all add: find_mark)
  then show "x \<in> live_pairs (find_conn (mark lev rec conns)) \<longleftrightarrow> x \<in> live_pairs (find_conn conns)"
    unfolding live_pairs_def by simp
qed

section \<open>The keys of an event\<close>

definition monitor_keys :: "event \<Rightarrow> mkey list" where
  "monitor_keys e = [KId (ev_id e), KAuthor (ev_pubkey e)] @ map (\<lambda>t. KTag (getTagSpec (fst t) (snd t))) (ev_tags e) @
     [KKind (ev_kind e), KOther]"

lemma fold_until_result:
  "fold_until (\<lambda>st x. case bindE st (g x) of Inl e \<Rightarrow> (Inl e, False) | Inr st' \<Rightarrow> (Inr st', True)) xs (Inr s) = foldE g xs s"
proof (induction xs arbitrary: s)
  case (Cons x xs)
  then show ?case by (cases "g x s") simp_all
qed simp

lemma foldE_Cons_fun: "foldE f (x # xs) = (\<lambda>s. bindE (f x s) (foldE f xs))"
  by (rule ext) simp

lemma foldE_append_fun: "foldE f (xs @ ys) = (\<lambda>s. bindE (foldE f xs s) (foldE f ys))"
  by (rule ext) (rule foldE_append)

lemma monitors_process_keys:
  assumes "sv_codec L" "wf_event e"
  shows "monitors_process L lev (pack_event L e) am = foldE (process_key L lev (pack_event L e)) (monitor_keys e) (am, [])"
proof -
  have "Bytes32 (ev_id e) = Inr (ev_id e)" "Bytes32 (ev_pubkey e) = Inr (ev_pubkey e)"
    using assms(2) by (simp_all add: Bytes32_def wf_event_def)
  then show ?thesis
    using assms(2)
    by (simp add: monitors_process_def monitor_keys_def sv_codec.packed_fields_event [OF assms(1)] fold_until_result foldE_append_fun foldE_map
        foldE_Cons_fun bindE_assoc del: process_key.simps foldE.simps(2))
qed

lemma shared_key:
  assumes "filter_ok f" "nf_matches f e"
  shows "\<exists>k\<in>set (filter_keys f). k \<in> set (monitor_keys e)"
proof -
  consider ids where "nf_ids f = Some ids"
    | authors where "nf_ids f = None" "nf_authors f = Some authors"
    | t ts where "nf_ids f = None" "nf_authors f = None" "nf_tags f = t # ts"
    | kinds where "nf_ids f = None" "nf_authors f = None" "nf_tags f = []" "nf_kinds f = Some kinds"
    | "nf_ids f = None" "nf_authors f = None" "nf_tags f = []" "nf_kinds f = None"
    by (cases "nf_ids f"; cases "nf_authors f"; cases "nf_tags f"; cases "nf_kinds f") auto
  then show ?thesis
  proof cases
    case 1
    then have "ev_id e \<in> set (FilterSetBytes_elems ids)" using assms by (auto simp: filter_ok_def bytes_set_def nf_matches_def)
    then show ?thesis by (auto simp: filter_keys_def monitor_keys_def 1)
  next
    case 2
    then have "ev_pubkey e \<in> set (FilterSetBytes_elems authors)" using assms by (auto simp: filter_ok_def bytes_set_def nf_matches_def)
    then show ?thesis by (auto simp: filter_keys_def monitor_keys_def 2)
  next
    case 3
    then obtain u where u: "u \<in> set (ev_tags e)" "fst u = fst t" "FilterSetBytes_doesMatch (snd t) (snd u)"
      using assms(2) by (auto simp: nf_matches_def)
    moreover have "bytes_set 0 255 (snd t)" using assms(1) 3 by (simp add: filter_ok_def)
    ultimately have "snd u \<in> set (FilterSetBytes_elems (snd t))" by (simp add: bytes_set_def)
    then have "KTag (getTagSpec (fst u) (snd u)) \<in> set (filter_keys f)" by (simp add: filter_keys_def 3 u(2))
    with u(1) show ?thesis by (intro bexI) (simp_all add: monitor_keys_def)
  next
    case 4
    then have "ev_kind e \<in> set kinds" using assms by (auto simp: filter_ok_def nf_matches_def)
    then show ?thesis by (auto simp: filter_keys_def monitor_keys_def 4)
  next
    case 5
    then show ?thesis by (simp add: filter_keys_def monitor_keys_def)
  qed
qed

section \<open>The walk\<close>

text \<open>
  What is to be shown of the recipients of event \<open>e\<close> with id \<open>lev\<close>: subscriptions that have
  not seen it and one of whose filters matches.
\<close>

definition wants :: "conn_monitors \<Rightarrow> u64 \<Rightarrow> event \<Rightarrow> recipient \<Rightarrow> bool" where
  "wants conns lev e to \<longleftrightarrow> (\<exists>sub. find_conn conns (fst to) (snd to) = Some sub \<and> sub_latestEventId sub < lev \<and>
     (\<exists>f\<in>set (sub_filterGroup sub). nf_matches f e))"

definition good_recipients :: "conn_monitors \<Rightarrow> u64 \<Rightarrow> event \<Rightarrow> recipient list \<Rightarrow> bool" where
  "good_recipients conns lev e rec \<longleftrightarrow> distinct rec \<and> (\<forall>to\<in>set rec. wants conns lev e to)"

text \<open>The filter behind an entry has been dealt with.\<close>

definition settled :: "conn_monitors \<Rightarrow> u64 \<Rightarrow> event \<Rightarrow> recipient list \<Rightarrow> fref \<Rightarrow> bool" where
  "settled conns lev e rec r \<longleftrightarrow> (\<forall>sub f. deref conns r = Some (sub, f) \<longrightarrow> sub_latestEventId sub < lev \<longrightarrow> nf_matches f e \<longrightarrow>
     (fst r, fst (snd r)) \<in> set rec)"

lemma settled_mono: "settled conns lev e rec r \<Longrightarrow> set rec \<subseteq> set rec' \<Longrightarrow> settled conns lev e rec' r"
  unfolding settled_def by blast

lemma deref_Some:
  "deref conns (c, i, j) = Some (sub, f) \<longleftrightarrow>
     find_conn conns c i = Some sub \<and> j < length (sub_filterGroup sub) \<and> f = sub_filterGroup sub ! j"
  by (auto simp: deref_def split: option.splits if_splits)

lemma deref_mark:
  assumes "deref conns (c, i, j) = Some (sub, f)"
  shows "deref (mark lev rec conns) (c, i, j) =
    Some (if (c, i) \<in> set rec then sub\<lparr>sub_latestEventId := lev\<rparr> else sub, f)"
  using assms unfolding deref_Some by (auto simp: deref_def find_mark)

lemma known_mark:
  assumes "known conns lev r l" "good_recipients conns lev e rec"
  shows "known (mark lev rec conns) lev r l"
proof (cases "l \<le> lev")
  case False
  obtain c i j where r: "r = (c, i, j)" by (rule prod_cases3)
  obtain sub f where d: "deref conns (c, i, j) = Some (sub, f)" "l \<le> sub_latestEventId sub" using assms(1) False by (auto simp: known_def r)
  have "(c, i) \<notin> set rec" using assms(2) d False unfolding deref_Some by (fastforce simp: good_recipients_def wants_def)
  then show ?thesis using deref_mark [OF d(1), of lev rec] d(2) by (simp add: known_def r)
qed (simp add: known_def)

definition pending :: "conn_monitors \<Rightarrow> u64 \<Rightarrow> event \<Rightarrow> recipient list \<Rightarrow> monitor_set \<Rightarrow> bool" where
  "pending conns lev e rec ms \<longleftrightarrow> (\<forall>(r, l)\<in>set ms. deref conns r \<noteq> None \<and> known conns lev r l \<and> (lev \<le> l \<longrightarrow> settled conns lev e rec r))"

lemma process_item_spec:
  assumes "sv_codec L" "wf_event e" "wf_find (find_conn conns)" "good_recipients conns lev e rec"
    and "deref conns r \<noteq> None" "known conns lev r l" "lev \<le> l \<Longrightarrow> settled conns lev e rec r"
  shows "\<exists>l' rec'. process_item L lev (pack_event L e) (r, l) (mark lev rec conns, rec) = Inr ((r, l'), mark lev rec' conns, rec') \<and>
    set rec \<subseteq> set rec' \<and> good_recipients conns lev e rec' \<and> known conns lev r l' \<and> settled conns lev e rec' r"
proof -
  obtain c i j where r: "r = (c, i, j)" by (rule prod_cases3)
  obtain sub f where d: "deref conns r = Some (sub, f)" using assms(5) by auto
  let ?sub = "if (c, i) \<in> set rec then sub\<lparr>sub_latestEventId := lev\<rparr> else sub"
  have d': "deref (mark lev rec conns) r = Some (?sub, f)" using deref_mark d by (simp add: r)
  have own: "sub_connId sub = c" "sub_subId sub = i" "f \<in> set (sub_filterGroup sub)"
    using assms(3) d unfolding wf_find_def r deref_Some by auto
  note step = process_item_def d' Let_def not_le sv_codec.packed_fields_event(6) [OF assms(1,2)]
    sv_codec.NostrFilter_doesMatch_event [OF assms(1,2)]
  consider "lev \<le> l" | "(c, i) \<in> set rec" | "\<not> sub_latestEventId sub < lev" |
    "l < lev" "(c, i) \<notin> set rec" "sub_latestEventId sub < lev" by fastforce
  then show ?thesis
  proof cases
    case 1
    then show ?thesis using assms(4,6,7) by (intro exI [of _ l] exI [of _ rec]) (simp add: process_item_def d')
  next
    case 2
    then have "settled conns lev e rec r" by (simp add: settled_def r)
    with 2 show ?thesis using assms(4,6) by (intro exI [of _ l] exI [of _ rec]) (simp add: process_item_def d')
  next
    case 3
    then have "settled conns lev e rec r" by (simp add: settled_def d)
    with 3 show ?thesis using assms(4,6) by (intro exI [of _ l] exI [of _ rec]) (auto simp: process_item_def d')
  next
    case 4
    show ?thesis
    proof (cases "nf_matches f e")
      case True
      have "wants conns lev e (c, i)" using d own(3) 4(3) True unfolding wants_def r deref_Some by auto
      then have "good_recipients conns lev e (rec @ [(c, i)])" using assms(4) 4(2) by (auto simp: good_recipients_def)
      moreover have "settled conns lev e (rec @ [(c, i)]) r" by (simp add: settled_def r)
      ultimately show ?thesis using 4 True own
        by (intro exI [of _ lev] exI [of _ "rec @ [(c, i)]"]) (auto simp: step mark_mark known_def)
    next
      case False
      then have "settled conns lev e rec r" by (simp add: settled_def d)
      then show ?thesis using 4 False own assms(4)
        by (intro exI [of _ lev] exI [of _ rec]) (auto simp: step known_def)
    qed
  qed
qed

lemma processMonitorSet_spec:
  assumes "sv_codec L" "wf_event e" "wf_find (find_conn conns)"
  shows "good_recipients conns lev e rec \<Longrightarrow> pending conns lev e rec ms \<Longrightarrow>
    \<exists>ms' rec'. processMonitorSet L lev (pack_event L e) ms (mark lev rec conns, rec) = Inr (ms', mark lev rec' conns, rec') \<and>
      set rec \<subseteq> set rec' \<and> good_recipients conns lev e rec' \<and> map fst ms' = map fst ms \<and> pending conns lev e rec' ms' \<and>
      (\<forall>r\<in>fst ` set ms. settled conns lev e rec' r)"
proof (induction ms arbitrary: rec)
  case Nil
  then show ?case by (intro exI [of _ "[]"] exI [of _ rec]) (simp add: pending_def)
next
  case (Cons x ms)
  obtain r l where x: "x = (r, l)" by (cases x)
  have item: "deref conns r \<noteq> None" "known conns lev r l" "lev \<le> l \<Longrightarrow> settled conns lev e rec r"
    using Cons.prems(2) by (auto simp: pending_def x)
  obtain l' rec1 where one: "process_item L lev (pack_event L e) (r, l) (mark lev rec conns, rec) = Inr ((r, l'), mark lev rec1 conns, rec1)"
    "set rec \<subseteq> set rec1" "good_recipients conns lev e rec1" "known conns lev r l'" "settled conns lev e rec1 r"
    using process_item_spec [OF assms Cons.prems(1) item] by metis
  have "pending conns lev e rec1 ms" using Cons.prems(2) settled_mono [OF _ one(2)] by (fastforce simp: pending_def)
  then obtain ms' rec' where rest:
    "processMonitorSet L lev (pack_event L e) ms (mark lev rec1 conns, rec1) = Inr (ms', mark lev rec' conns, rec')"
    "set rec1 \<subseteq> set rec'" "good_recipients conns lev e rec'" "map fst ms' = map fst ms" "pending conns lev e rec' ms'"
    "\<forall>r\<in>fst ` set ms. settled conns lev e rec' r"
    using Cons.IH [OF one(3)] by metis
  have "settled conns lev e rec' r" by (rule settled_mono [OF one(5) rest(2)])
  with one rest item(1) show ?case
    by (intro exI [of _ "(r, l') # ms'"] exI [of _ rec']) (auto simp: x pending_def)
qed


lemma processMonitorsExact_spec:
  assumes "sv_codec L" "wf_event e" "wf_find (find_conn conns)" "good_recipients conns lev e rec" "map_wf m"
    and "pending conns lev e rec (at_key m k)"
  shows "\<exists>m' ms' rec'. processMonitorsExact L lev (pack_event L e) k m (mark lev rec conns, rec) = Inr (m', mark lev rec' conns, rec') \<and>
      map_wf m' \<and> (\<forall>k'. at_key m' k' = (if k' = k then ms' else at_key m k')) \<and>
      set rec \<subseteq> set rec' \<and> good_recipients conns lev e rec' \<and> map fst ms' = map fst (at_key m k) \<and> pending conns lev e rec' ms' \<and>
      (\<forall>r\<in>fst ` set (at_key m k). settled conns lev e rec' r)"
proof -
  have sorted: "sorted_keys m" using assms(5) by (simp add: map_wf_def)
  show ?thesis
  proof (cases "map_of m k")
    case None
    then show ?thesis
      using assms(4,5) by (intro exI [of _ m] exI [of _ "[]"] exI [of _ rec])
        (simp add: processMonitorsExact_def exact_range_sorted [OF sorted] pending_def)
  next
    case (Some ms)
    obtain ms' rec' where ms': "processMonitorSet L lev (pack_event L e) ms (mark lev rec conns, rec) = Inr (ms', mark lev rec' conns, rec')"
      "set rec \<subseteq> set rec'" "good_recipients conns lev e rec'" "map fst ms' = map fst ms" "pending conns lev e rec' ms'"
      "\<forall>r\<in>fst ` set ms. settled conns lev e rec' r"
      using processMonitorSet_spec [OF assms(1-4), of ms] assms(6) Some by auto
    have ms: "ms \<noteq> [] \<and> distinct (map fst ms)" by (rule map_wf_values [OF assms(5) Some])
    then have "ms' \<noteq> [] \<and> distinct (map fst ms')" using ms'(4) by (metis Nil_is_map_conv)
    then have "\<forall>ms\<in>snd ` set (put_at k ms' m). ms \<noteq> [] \<and> distinct (map fst ms)"
      using put_at_values [of k ms' m] assms(5) unfolding map_wf_def by blast
    then have wf: "map_wf (put_at k ms' m)" using sorted by (simp add: map_wf_def)
    have look: "\<forall>k'. at_key (put_at k ms' m) k' = (if k' = k then ms' else at_key m k')" by (simp add: map_of_put_at Some)
    have "processMonitorsExact L lev (pack_event L e) k m (mark lev rec conns, rec) = Inr (put_at k ms' m, mark lev rec' conns, rec')"
      by (simp add: processMonitorsExact_def exact_range_sorted [OF sorted] Some ms'(1))
    with wf look ms' show ?thesis by (intro exI [of _ "put_at k ms' m"] exI [of _ ms'] exI [of _ rec']) (simp add: Some)
  qed
qed

text \<open>One key of the event, in whichever of the five indexes it lies.\<close>

lemma process_key_frame:
  assumes "sv_codec L" "wf_event e" "wf_find (find_conn conns)" "good_recipients conns lev e rec" "index_wf am"
    and "pending conns lev e rec (index_items k am)" "am_conns am = mark lev rec conns"
  shows "\<exists>am' ms' rec'. process_key L lev (pack_event L e) k (am, rec) = Inr (am', rec') \<and>
      index_wf am' \<and> am_conns am' = mark lev rec' conns \<and> (\<forall>k'. index_items k' am' = (if k' = k then ms' else index_items k' am)) \<and>
      set rec \<subseteq> set rec' \<and> good_recipients conns lev e rec' \<and> map fst ms' = map fst (index_items k am) \<and>
      pending conns lev e rec' ms' \<and> (\<forall>r\<in>fst ` set (index_items k am). settled conns lev e rec' r)"
proof -
  note wf = assms(5) [unfolded index_wf_def]
  note exact = processMonitorsExact_spec [OF assms(1-4)]
  show ?thesis
  proof (cases k)
    case (KId s)
    obtain m' ms' rec' where *: "processMonitorsExact L lev (pack_event L e) s (am_allIds am) (mark lev rec conns, rec) = Inr (m', mark lev rec' conns, rec')"
      "map_wf m'" "\<forall>k'. at_key m' k' = (if k' = s then ms' else at_key (am_allIds am) k')"
      "set rec \<subseteq> set rec' \<and> good_recipients conns lev e rec' \<and> map fst ms' = map fst (index_items k am) \<and>
      pending conns lev e rec' ms' \<and> (\<forall>r\<in>fst ` set (index_items k am). settled conns lev e rec' r)"
      using exact [of "am_allIds am" s] wf assms(6) unfolding KId index_items_def index_get.simps by blast
    let ?am = "am\<lparr>am_conns := mark lev rec' conns, am_allIds := m'\<rparr>"
    have "\<forall>k'. index_items k' ?am = (if k' = k then ms' else index_items k' am)"
      using *(3) by (intro allI, case_tac k') (simp_all add: index_items_def KId)
    then show ?thesis using *(1,2,4) wf
      by (intro exI [of _ ?am] exI [of _ ms'] exI [of _ rec']) (simp add: KId assms(7) index_wf_def)
  next
    case (KAuthor s)
    obtain m' ms' rec' where *: "processMonitorsExact L lev (pack_event L e) s (am_allAuthors am) (mark lev rec conns, rec) = Inr (m', mark lev rec' conns, rec')"
      "map_wf m'" "\<forall>k'. at_key m' k' = (if k' = s then ms' else at_key (am_allAuthors am) k')"
      "set rec \<subseteq> set rec' \<and> good_recipients conns lev e rec' \<and> map fst ms' = map fst (index_items k am) \<and>
      pending conns lev e rec' ms' \<and> (\<forall>r\<in>fst ` set (index_items k am). settled conns lev e rec' r)"
      using exact [of "am_allAuthors am" s] wf assms(6) unfolding KAuthor index_items_def index_get.simps by blast
    let ?am = "am\<lparr>am_conns := mark lev rec' conns, am_allAuthors := m'\<rparr>"
    have "\<forall>k'. index_items k' ?am = (if k' = k then ms' else index_items k' am)"
      using *(3) by (intro allI, case_tac k') (simp_all add: index_items_def KAuthor)
    then show ?thesis using *(1,2,4) wf
      by (intro exI [of _ ?am] exI [of _ ms'] exI [of _ rec']) (simp add: KAuthor assms(7) index_wf_def)
  next
    case (KTag s)
    obtain m' ms' rec' where *: "processMonitorsExact L lev (pack_event L e) s (am_allTags am) (mark lev rec conns, rec) = Inr (m', mark lev rec' conns, rec')"
      "map_wf m'" "\<forall>k'. at_key m' k' = (if k' = s then ms' else at_key (am_allTags am) k')"
      "set rec \<subseteq> set rec' \<and> good_recipients conns lev e rec' \<and> map fst ms' = map fst (index_items k am) \<and>
      pending conns lev e rec' ms' \<and> (\<forall>r\<in>fst ` set (index_items k am). settled conns lev e rec' r)"
      using exact [of "am_allTags am" s] wf assms(6) unfolding KTag index_items_def index_get.simps by blast
    let ?am = "am\<lparr>am_conns := mark lev rec' conns, am_allTags := m'\<rparr>"
    have "\<forall>k'. index_items k' ?am = (if k' = k then ms' else index_items k' am)"
      using *(3) by (intro allI, case_tac k') (simp_all add: index_items_def KTag)
    then show ?thesis using *(1,2,4) wf
      by (intro exI [of _ ?am] exI [of _ ms'] exI [of _ rec']) (simp add: KTag assms(7) index_wf_def)
  next
    case (KKind s)
    obtain m' ms' rec' where *: "processMonitorsExact L lev (pack_event L e) s (am_allKinds am) (mark lev rec conns, rec) = Inr (m', mark lev rec' conns, rec')"
      "map_wf m'" "\<forall>k'. at_key m' k' = (if k' = s then ms' else at_key (am_allKinds am) k')"
      "set rec \<subseteq> set rec' \<and> good_recipients conns lev e rec' \<and> map fst ms' = map fst (index_items k am) \<and>
      pending conns lev e rec' ms' \<and> (\<forall>r\<in>fst ` set (index_items k am). settled conns lev e rec' r)"
      using exact [of "am_allKinds am" s] wf assms(6) unfolding KKind index_items_def index_get.simps by blast
    let ?am = "am\<lparr>am_conns := mark lev rec' conns, am_allKinds := m'\<rparr>"
    have "\<forall>k'. index_items k' ?am = (if k' = k then ms' else index_items k' am)"
      using *(3) by (intro allI, case_tac k') (simp_all add: index_items_def KKind)
    then show ?thesis using *(1,2,4) wf
      by (intro exI [of _ ?am] exI [of _ ms'] exI [of _ rec']) (simp add: KKind assms(7) index_wf_def)
  next
    case KOther
    have o: "index_items k am = am_allOthers am" by (simp add: KOther index_items_def)
    obtain ms' rec' where *: "processMonitorSet L lev (pack_event L e) (am_allOthers am) (mark lev rec conns, rec) = Inr (ms', mark lev rec' conns, rec')"
      "set rec \<subseteq> set rec' \<and> good_recipients conns lev e rec' \<and> map fst ms' = map fst (am_allOthers am) \<and>
      pending conns lev e rec' ms' \<and> (\<forall>r\<in>fst ` set (am_allOthers am). settled conns lev e rec' r)"
      using processMonitorSet_spec [OF assms(1-4), of "am_allOthers am"] assms(6) unfolding o by blast
    let ?am = "am\<lparr>am_conns := mark lev rec' conns, am_allOthers := ms'\<rparr>"
    have "\<forall>k'. index_items k' ?am = (if k' = k then ms' else index_items k' am)"
      by (intro allI, case_tac k') (simp_all add: index_items_def KOther)
    then show ?thesis using * wf
      by (intro exI [of _ ?am] exI [of _ ms'] exI [of _ rec']) (simp add: assms(7) index_wf_def o, simp add: KOther assms(7))
  qed
qed


text \<open>What holds between the keys of the event; \<open>am0\<close> is the state when the event arrives.\<close>

definition walk_inv :: "monitors \<Rightarrow> u64 \<Rightarrow> event \<Rightarrow> monitors \<Rightarrow> recipient list \<Rightarrow> bool" where
  "walk_inv am0 lev e am rec \<longleftrightarrow> index_wf am \<and> am_conns am = mark lev rec (am_conns am0) \<and>
     good_recipients (am_conns am0) lev e rec \<and>
     (\<forall>k. map fst (index_items k am) = map fst (index_items k am0) \<and> pending (am_conns am0) lev e rec (index_items k am))"

lemma pending_mono: "pending conns lev e rec ms \<Longrightarrow> set rec \<subseteq> set rec' \<Longrightarrow> pending conns lev e rec' ms"
  unfolding pending_def using settled_mono by fastforce

lemma process_key_spec:
  assumes "sv_codec L" "wf_event e" "wf_find (find_conn (am_conns am0))" "walk_inv am0 lev e am rec"
  shows "\<exists>am' rec'. process_key L lev (pack_event L e) k (am, rec) = Inr (am', rec') \<and> walk_inv am0 lev e am' rec' \<and>
    set rec \<subseteq> set rec' \<and> (\<forall>r\<in>fst ` set (index_items k am0). settled (am_conns am0) lev e rec' r)"
proof -
  note inv = assms(4) [unfolded walk_inv_def]
  obtain am' ms' rec' where am': "process_key L lev (pack_event L e) k (am, rec) = Inr (am', rec')" "index_wf am'"
    "am_conns am' = mark lev rec' (am_conns am0)" "\<forall>k'. index_items k' am' = (if k' = k then ms' else index_items k' am)"
    "set rec \<subseteq> set rec'" "good_recipients (am_conns am0) lev e rec'" "map fst ms' = map fst (index_items k am)"
    "pending (am_conns am0) lev e rec' ms'" "\<forall>r\<in>fst ` set (index_items k am). settled (am_conns am0) lev e rec' r"
    using process_key_frame [OF assms(1-3), of lev rec am k] inv by blast
  have refs: "fst ` set (index_items k am) = fst ` set (index_items k am0)" using inv by (metis set_map)
  have "map fst (index_items k' am') = map fst (index_items k' am0) \<and> pending (am_conns am0) lev e rec' (index_items k' am')" for k'
    using inv am'(4,7,8) pending_mono [OF _ am'(5)] by (cases "k' = k") simp_all
  with am' refs show ?thesis by (intro exI [of _ am'] exI [of _ rec']) (simp add: walk_inv_def)
qed

lemma process_keys_spec:
  assumes "sv_codec L" "wf_event e" "wf_find (find_conn (am_conns am0))"
  shows "walk_inv am0 lev e am rec \<Longrightarrow>
    \<exists>am' rec'. foldE (process_key L lev (pack_event L e)) ks (am, rec) = Inr (am', rec') \<and> walk_inv am0 lev e am' rec' \<and>
      set rec \<subseteq> set rec' \<and> (\<forall>k\<in>set ks. \<forall>r\<in>fst ` set (index_items k am0). settled (am_conns am0) lev e rec' r)"
proof (induction ks arbitrary: am rec)
  case (Cons k ks)
  obtain am1 rec1 where one: "process_key L lev (pack_event L e) k (am, rec) = Inr (am1, rec1)" "walk_inv am0 lev e am1 rec1"
    "set rec \<subseteq> set rec1" "\<forall>r\<in>fst ` set (index_items k am0). settled (am_conns am0) lev e rec1 r"
    using process_key_spec [OF assms Cons.prems, of k] by blast
  obtain am' rec' where rest: "foldE (process_key L lev (pack_event L e)) ks (am1, rec1) = Inr (am', rec')" "walk_inv am0 lev e am' rec'"
    "set rec1 \<subseteq> set rec'" "\<forall>k\<in>set ks. \<forall>r\<in>fst ` set (index_items k am0). settled (am_conns am0) lev e rec' r"
    using Cons.IH [OF one(2)] by blast
  have "\<forall>r\<in>fst ` set (index_items k am0). settled (am_conns am0) lev e rec' r" using one(4) settled_mono [OF _ rest(3)] by blast
  then show ?case using one(1,3) rest by (intro exI [of _ am'] exI [of _ rec']) (simp add: one(1) subset_trans)
qed (intro exI conjI, auto)

lemma monitors_process_spec:
  assumes "sv_codec L" "wf_event e" "am_inv am" "latest_le n am" "n < lev"
  obtains am' rec where "monitors_process L lev (pack_event L e) am = Inr (am', rec)" "am_inv am'" "latest_le lev am'"
    "distinct rec" "set rec = {to. wants (am_conns am) lev e to}" "am_conns am' = mark lev rec (am_conns am)"
proof -
  note inv = assms(3) [unfolded am_inv_def]
  have F: "wf_find (find_conn (am_conns am))" using conns_wf_find inv by blast
  have "pending (am_conns am) lev e [] (index_items k am)" for k
  proof -
    have "deref (am_conns am) r \<noteq> None \<and> known (am_conns am) lev r l \<and> (lev \<le> l \<longrightarrow> settled (am_conns am) lev e [] r)"
      if "(r, l) \<in> set (index_items k am)" for r l
    proof -
      have "r \<in> fst ` set (index_items k am)" using that by force
      moreover have "known (am_conns am) n r l" using assms(4) that unfolding latest_le_def by blast
      ultimately show ?thesis using entries_deref [OF assms(3)] assms(5) by (fastforce simp: known_def settled_def)
    qed
    then show ?thesis unfolding pending_def by blast
  qed
  then have "walk_inv am lev e am []" using inv by (simp add: walk_inv_def good_recipients_def)
  then obtain am' rec where run: "foldE (process_key L lev (pack_event L e)) (monitor_keys e) (am, []) = Inr (am', rec)"
    and w: "walk_inv am lev e am' rec"
    and s: "\<forall>k\<in>set (monitor_keys e). \<forall>r\<in>fst ` set (index_items k am). settled (am_conns am) lev e rec r"
    using process_keys_spec [OF assms(1,2) F] by metis
  note w = w [unfolded walk_inv_def]
  have "to \<in> set rec" if wanted: "wants (am_conns am) lev e to" for to
  proof -
    obtain sub f where sub: "find_conn (am_conns am) (fst to) (snd to) = Some sub" "sub_latestEventId sub < lev"
      "f \<in> set (sub_filterGroup sub)" "nf_matches f e" using wanted unfolding wants_def by blast
    obtain j where j: "j < length (sub_filterGroup sub)" "f = sub_filterGroup sub ! j" using sub(3) by (metis in_set_conv_nth)
    have own: "sub_connId sub = fst to" "sub_subId sub = snd to" "sub_ok sub" using F sub(1) unfolding wf_find_def by blast+
    obtain k where k: "k \<in> set (filter_keys f)" "k \<in> set (monitor_keys e)"
      using shared_key [OF _ sub(4)] own(3) sub(3) unfolding sub_ok_def by blast
    have "(k, fref_of sub j) \<in> set (sub_pairs sub)" using j k(1) unfolding set_sub_pairs by blast
    then have "(k, fref_of sub j) \<in> entries am" using inv sub(1) unfolding live_pairs_def by blast
    then have "settled (am_conns am) lev e rec (fref_of sub j)" using s k(2) unfolding entries_def by blast
    moreover have "deref (am_conns am) (fref_of sub j) = Some (sub, f)"
      unfolding fref_of_def deref_Some using j own sub(1) by simp
    ultimately show ?thesis using sub(2,4) own unfolding settled_def fref_of_def by auto
  qed
  then have "set rec = {to. wants (am_conns am) lev e to}" using w by (auto simp: good_recipients_def)
  moreover have "entries am' = entries am"
  proof (rule set_eqI)
    fix x :: "mkey \<times> fref"
    obtain k r where x: "x = (k, r)" by (cases x)
    have "fst ` set (index_items k am') = fst ` set (index_items k am)" using w by (metis set_map)
    then show "x \<in> entries am' \<longleftrightarrow> x \<in> entries am" by (simp add: x entries_def)
  qed
  then have "am_inv am'" using inv w by (simp add: am_inv_def conns_wf_mark live_pairs_mark)
  moreover have "latest_le lev am'" unfolding latest_le_def
  proof (intro allI impI)
    fix k r l
    assume "(r, l) \<in> set (index_items k am')"
    then have "known (am_conns am) lev r l" using w unfolding pending_def by blast
    then show "known (am_conns am') lev r l" using known_mark w by metis
  qed
  moreover have "distinct rec" "am_conns am' = mark lev rec (am_conns am)" using w by (simp_all add: good_recipients_def)
  moreover have "monitors_process L lev (pack_event L e) am = Inr (am', rec)" using run by (simp add: monitors_process_keys [OF assms(1,2)])
  ultimately show thesis by (intro that)
qed

section \<open>Every reachable state\<close>

text \<open>
  What a thread of request monitors does with its state: subscriptions come from parsed REQ
  messages and are caught up to some event, which may be later than the last event \<open>n\<close> that the
  thread has handled; events arrive in the order of their ids.
\<close>

inductive monitors_reach :: "lib \<Rightarrow> nat \<Rightarrow> u64 \<Rightarrow> u64 \<Rightarrow> monitors \<Rightarrow> bool" for L maxSubs maxLimit where
  reach_empty: "monitors_reach L maxSubs maxLimit n empty_monitors"
| reach_add: "monitors_reach L maxSubs maxLimit n am \<Longrightarrow> NostrFilterGroup L req maxLimit = Inr (sub_filterGroup sub) \<Longrightarrow>
    sub_latestEventId sub = cur \<Longrightarrow> addSub maxSubs sub cur am = Inr (ok, am') \<Longrightarrow> monitors_reach L maxSubs maxLimit n am'"
| reach_remove: "monitors_reach L maxSubs maxLimit n am \<Longrightarrow> removeSub c i am = Inr am' \<Longrightarrow> monitors_reach L maxSubs maxLimit n am'"
| reach_close: "monitors_reach L maxSubs maxLimit n am \<Longrightarrow> closeConn c am = Inr am' \<Longrightarrow> monitors_reach L maxSubs maxLimit n am'"
| reach_event: "monitors_reach L maxSubs maxLimit n am \<Longrightarrow> n < lev \<Longrightarrow> wf_event e \<Longrightarrow>
    monitors_process L lev (pack_event L e) am = Inr (am', rec) \<Longrightarrow> monitors_reach L maxSubs maxLimit lev am'"

lemma NostrFilterGroup_fold_ok:
  "foldE (NostrFilterGroup_add L m) xs fs = Inr fs' \<Longrightarrow> \<forall>f\<in>set fs. filter_ok f \<Longrightarrow> \<forall>f\<in>set fs'. filter_ok f"
proof (induction xs arbitrary: fs)
  case (Cons x xs)
  obtain fs1 where one: "NostrFilterGroup_add L m x fs = Inr fs1" and rest: "foldE (NostrFilterGroup_add L m) xs fs1 = Inr fs'"
    using Cons.prems(1) by (auto simp: bindE_eq_Inr)
  have "\<forall>f\<in>set fs1. filter_ok f"
    using one Cons.prems(2) NostrFilter_ok(1) by (auto simp: NostrFilterGroup_add_def bindE_eq_Inr split: if_splits)
  with Cons.IH [OF rest] show ?case by blast
qed simp

lemma req_sub_ok: "NostrFilterGroup L req maxLimit = Inr (sub_filterGroup sub) \<Longrightarrow> sub_ok sub"
  unfolding sub_ok_def NostrFilterGroup_def
  by (cases req) (auto simp: bindE_eq_Inr dest: NostrFilterGroup_fold_ok)

lemma empty_monitors_inv: "am_inv empty_monitors" "latest_le n empty_monitors"
proof -
  have none: "index_items k empty_monitors = []" for k by (cases k) (simp_all add: index_items_def empty_monitors_def)
  have "find_conn (am_conns empty_monitors) = (\<lambda>c i. None)" by (intro ext) (simp add: find_conn_def empty_monitors_def)
  then show "am_inv empty_monitors"
    by (simp add: am_inv_def entries_def none live_pairs_def) (simp add: conns_wf_def index_wf_def map_wf_def empty_monitors_def)
  show "latest_le n empty_monitors" by (simp add: latest_le_def none)
qed

lemma reach_inv:
  assumes "sv_codec L" "monitors_reach L maxSubs maxLimit n am"
  shows "am_inv am \<and> latest_le n am"
  using assms(2)
proof induction
  case reach_empty
  show ?case using empty_monitors_inv by blast
next
  case (reach_add n am req sub cur ok am')
  then show ?case using addSub_spec [OF _ req_sub_ok [OF reach_add.hyps(2)], of am cur maxSubs] by (metis sum.inject(2) prod.inject)
next
  case (reach_remove n am c i am')
  then show ?case using removeSub_spec [of am c i] by (metis sum.inject(2))
next
  case (reach_close n am c am')
  then show ?case using closeConn_spec [of am c] by (metis sum.inject(2))
next
  case (reach_event n am lev e am' rec)
  then show ?case using monitors_process_spec [OF assms(1), of e am n lev] by (metis sum.inject(2) prod.inject)
qed

section \<open>Properties\<close>

text \<open>
  C16. The index of the live subscriptions is exact in every state that a monitor thread can
  reach: under each id, author, tag, kind, and in the list of the rest, there is an entry for
  exactly the filters of live subscriptions that are filed there.  In particular no entry
  points to a filter of a subscription that was removed, replaced or whose connection closed.
\<close>

theorem monitors_index_exact:
  assumes "sv_codec L" "monitors_reach L maxSubs maxLimit n am"
  shows "(c, i, j) \<in> fst ` set (index_items k am) \<longleftrightarrow>
    (\<exists>sub. findMonitor c i am = Some sub \<and> j < length (sub_filterGroup sub) \<and> k \<in> set (filter_keys (sub_filterGroup sub ! j)))"
proof -
  note inv = conjunct1 [OF reach_inv [OF assms], unfolded am_inv_def]
  have own: "sub_connId sub = c' \<and> sub_subId sub = i'" if "find_conn (am_conns am) c' i' = Some sub" for c' i' sub
    using conns_wf_find inv that unfolding wf_find_def by blast
  have "(c, i, j) \<in> fst ` set (index_items k am) \<longleftrightarrow> (k, (c, i, j)) \<in> live_pairs (find_conn (am_conns am))"
    using inv unfolding entries_def by blast
  also have "\<dots> \<longleftrightarrow> (\<exists>c' i' sub. find_conn (am_conns am) c' i' = Some sub \<and> (k, (c, i, j)) \<in> set (sub_pairs sub))"
    by (simp add: live_pairs_def)
  also have "\<dots> \<longleftrightarrow> (\<exists>sub. find_conn (am_conns am) c i = Some sub \<and> (k, (c, i, j)) \<in> set (sub_pairs sub))"
    using own sub_pairs_ref by blast
  also have "\<dots> \<longleftrightarrow> (\<exists>sub. findMonitor c i am = Some sub \<and> j < length (sub_filterGroup sub) \<and> k \<in> set (filter_keys (sub_filterGroup sub ! j)))"
    unfolding set_sub_pairs findMonitor_def fref_of_def using own by auto
  finally show ?thesis .
qed

definition kind_req :: json where
  "kind_req = JArray [JString ''REQ'', JString ''s'', JObject [(''kinds'', JArray [JUnsigned 1])]]"

definition kind_filter :: nostr_filter where
  "kind_filter = empty_filter\<lparr>nf_kinds := Some [1], nf_limit := 500, nf_indexOnlyScans := True\<rparr>"

definition kind_sub :: subscription where
  "kind_sub = \<lparr>sub_connId = 7, sub_subId = ''s'', sub_filterGroup = [kind_filter], sub_latestEventId = 3\<rparr>"

definition kind_monitors :: monitors where
  "kind_monitors = \<lparr>am_conns = [(7, [(''s'', kind_sub)])], am_allIds = [], am_allAuthors = [], am_allTags = [],
     am_allKinds = [(1, [((7, ''s'', 0), 3)])], am_allOthers = []\<rparr>"

lemma kind_req_filters: "NostrFilterGroup le_lib kind_req 500 = Inr [kind_filter]"
  by (simp add: NostrFilterGroup_def kind_req_def NostrFilterGroup_add_def NostrFilter_def NostrFilter_field_def FilterSetUint_def
      throw_if_def Let_def empty_filter_def kind_filter_def)

lemma kind_reach: "monitors_reach le_lib 20 500 3 kind_monitors"
proof (rule reach_add [OF reach_empty])
  show "NostrFilterGroup le_lib kind_req 500 = Inr (sub_filterGroup kind_sub)" by (simp add: kind_req_filters kind_sub_def)
  show "addSub 20 kind_sub 3 empty_monitors = Inr (True, kind_monitors)"
    by (simp add: addSub_def empty_monitors_def kind_monitors_def kind_sub_def kind_filter_def empty_filter_def findMonitor_def find_conn_def
        throw_if_def conn_subs_def set_conn_def installLookups_def each_key_def FilterSetUint_at_def fref_of_def emplace_at_def
        set_emplace_def Let_def)
qed (simp add: kind_sub_def)

theorem monitors_index_exact_witness:
  "(7, ''s'', 0) \<in> fst ` set (index_items (KKind 1) kind_monitors)"
  unfolding monitors_index_exact [OF le.sv_codec_axioms kind_reach]
  by (simp add: findMonitor_def find_conn_def kind_monitors_def kind_sub_def kind_filter_def empty_filter_def filter_keys_def)

text \<open>
  C5. A new event goes to exactly the subscriptions that a plain test of every filter of
  every live subscription would select, among those that have not seen it: the indexes skip
  only filters that cannot match, no subscription gets the event twice (whatever the number of
  its filters that match), and the walk never follows a pointer into a dead subscription.
\<close>

theorem monitors_process_exact:
  assumes "sv_codec L" "monitors_reach L maxSubs maxLimit n am" "n < lev" "wf_event e"
  shows "\<exists>am' rec. monitors_process L lev (pack_event L e) am = Inr (am', rec) \<and> distinct rec \<and>
    (\<forall>c i. (c, i) \<in> set rec \<longleftrightarrow> (\<exists>sub. findMonitor c i am = Some sub \<and> sub_latestEventId sub < lev \<and>
       NostrFilterGroup_doesMatch L (sub_filterGroup sub) (pack_event L e) = Inr True)) \<and>
    (\<forall>c i. findMonitor c i am' = map_option (\<lambda>sub. if (c, i) \<in> set rec then sub\<lparr>sub_latestEventId := lev\<rparr> else sub) (findMonitor c i am))"
proof -
  obtain am' rec where run: "monitors_process L lev (pack_event L e) am = Inr (am', rec)" "distinct rec"
    "set rec = {to. wants (am_conns am) lev e to}" "am_conns am' = mark lev rec (am_conns am)"
    using monitors_process_spec [OF assms(1,4) _ _ assms(3)] reach_inv [OF assms(1,2)] by metis
  have "(c, i) \<in> set rec \<longleftrightarrow> (\<exists>sub. findMonitor c i am = Some sub \<and> sub_latestEventId sub < lev \<and>
       NostrFilterGroup_doesMatch L (sub_filterGroup sub) (pack_event L e) = Inr True)" for c i
    unfolding run(3) wants_def findMonitor_def sv_codec.NostrFilterGroup_doesMatch_event [OF assms(1,4)] by simp
  moreover have "findMonitor c i am' = map_option (\<lambda>sub. if (c, i) \<in> set rec then sub\<lparr>sub_latestEventId := lev\<rparr> else sub) (findMonitor c i am)" for c i
    unfolding findMonitor_def run(4) by (rule find_mark)
  ultimately show ?thesis using run(1,2) by blast
qed

theorem monitors_process_exact_witness:
  "\<exists>am' rec. monitors_process le_lib 4 (pack_event le_lib sample_event) kind_monitors = Inr (am', rec) \<and> (7, ''s'') \<in> set rec"
proof -
  have find: "findMonitor 7 ''s'' kind_monitors = Some kind_sub" by (simp add: findMonitor_def find_conn_def kind_monitors_def)
  have "sub_ok kind_sub" by (rule req_sub_ok [of le_lib kind_req 500]) (simp add: kind_req_filters kind_sub_def)
  then have "FilterSetUint_doesMatch [1] 1" by (simp add: sub_ok_def kind_sub_def filter_ok_def kind_filter_def) blast
  then have "nf_matches kind_filter sample_event"
    by (simp add: nf_matches_def kind_filter_def empty_filter_def sample_event_def)
  then have "NostrFilterGroup_doesMatch le_lib (sub_filterGroup kind_sub) (pack_event le_lib sample_event) = Inr True"
    unfolding le.NostrFilterGroup_doesMatch_event [OF wf_sample_event] by (simp add: kind_sub_def)
  moreover have "sub_latestEventId kind_sub < 4" by (simp add: kind_sub_def)
  ultimately show ?thesis
    using monitors_process_exact [OF le.sv_codec_axioms kind_reach, of 4 sample_event] wf_sample_event find by auto
qed

text \<open>
  C17. No request of a client makes the monitors fail.  In every state a thread can reach, a
  parsed and caught-up subscription can be added, any subscription removed and any connection
  closed without an exception: the lookups with \<^verbatim>\<open>at\<close> that deletion uses always find their key.
  An added subscription is there afterwards exactly when the connection has fewer than its
  maximum of other subscriptions; a closed connection leaves neither a subscription nor an index entry.
\<close>

theorem monitors_never_fail:
  assumes "sv_codec L" "monitors_reach L maxSubs maxLimit n am"
    and "NostrFilterGroup L req maxLimit = Inr (sub_filterGroup sub)" "sub_latestEventId sub = cur"
  shows "(\<exists>ok am'. addSub maxSubs sub cur am = Inr (ok, am') \<and>
       (\<forall>c i. findMonitor c i am' = (if c = sub_connId sub \<and> i = sub_subId sub then (if ok then Some sub else None) else findMonitor c i am)) \<and>
       (ok \<longleftrightarrow> card {i. findMonitor (sub_connId sub) i am \<noteq> None \<and> i \<noteq> sub_subId sub} < maxSubs)) \<and>
    (\<exists>am'. removeSub c i am = Inr am' \<and>
       (\<forall>c' i'. findMonitor c' i' am' = (if c' = c \<and> i' = i then None else findMonitor c' i' am))) \<and>
    (\<exists>am'. closeConn c am = Inr am' \<and> (\<forall>c' i'. findMonitor c' i' am' = (if c' = c then None else findMonitor c' i' am)) \<and>
       (\<forall>k i j. (c, i, j) \<notin> fst ` set (index_items k am')))"
proof -
  have inv: "am_inv am" using reach_inv [OF assms(1,2)] by blast
  have "\<exists>ok am'. addSub maxSubs sub cur am = Inr (ok, am') \<and>
       (\<forall>c i. findMonitor c i am' = (if c = sub_connId sub \<and> i = sub_subId sub then (if ok then Some sub else None) else findMonitor c i am)) \<and>
       (ok \<longleftrightarrow> card {i. findMonitor (sub_connId sub) i am \<noteq> None \<and> i \<noteq> sub_subId sub} < maxSubs)"
    by (rule addSub_spec [OF inv req_sub_ok [OF assms(3)] assms(4), of maxSubs]) (simp add: findMonitor_def)
  moreover have "\<exists>am'. removeSub c i am = Inr am' \<and>
       (\<forall>c' i'. findMonitor c' i' am' = (if c' = c \<and> i' = i then None else findMonitor c' i' am))"
    by (rule removeSub_spec [OF inv, of c i]) (simp add: findMonitor_def)
  moreover obtain am' where close: "closeConn c am = Inr am'" "am_inv am'"
    "find_conn (am_conns am') = (\<lambda>c' i. if c' = c then None else find_conn (am_conns am) c' i)"
    by (rule closeConn_spec [OF inv])
  have "(c, i', j) \<notin> fst ` set (index_items k am')" for k i' j
    using entries_deref [OF close(2), of "(c, i', j)" k] by (auto simp: deref_def close(3))
  then have "\<exists>am'. closeConn c am = Inr am' \<and> (\<forall>c' i'. findMonitor c' i' am' = (if c' = c then None else findMonitor c' i' am)) \<and>
       (\<forall>k i j. (c, i, j) \<notin> fst ` set (index_items k am'))"
    using close(1) by (intro exI [of _ am']) (simp add: findMonitor_def close(3))
  ultimately show ?thesis by blast
qed

theorem monitors_never_fail_witness:
  "\<exists>am'. closeConn 7 kind_monitors = Inr am' \<and> findMonitor 7 ''s'' am' = None"
proof -
  have fs: "NostrFilterGroup le_lib kind_req 500 = Inr (sub_filterGroup kind_sub)" by (simp add: kind_req_filters kind_sub_def)
  have "sub_latestEventId kind_sub = 3" by (simp add: kind_sub_def)
  from monitors_never_fail [OF le.sv_codec_axioms kind_reach fs this, of 7 "''s''"] show ?thesis by auto
qed

end
