(* ===== verification/Relay_Server.thy ===== *)
theory Relay_Server
  imports Event_Store Misc_Utils
begin

text \<open>
  The relay proper (\<^verbatim>\<open>src/src/apps/relay\<close>): the messages its threads exchange
  (\<^verbatim>\<open>RelayServer.h\<close>), the thread pools that carry them (\<^verbatim>\<open>src/src/ThreadPool.h\<close>), the
  ingester, which parses what clients send (\<^verbatim>\<open>RelayIngester.cpp\<close>).

  A thread is modelled by one round of its loop: a function of the messages taken from its
  inbox, of the database as its transaction sees it, and of the state of the relay, whose
  inboxes it appends to.  A \<^verbatim>\<open>std::promise\<close> is a number; its shared state is a map of the relay.
  An exception that leaves a round ends the thread and with it the process.  Log lines are
  left out, and so is the signal that wakes the loop of the websocket thread.
\<close>

section \<open>Messages and thread pools\<close>

record process_result =
  pr_success :: bool
  pr_message :: string
  pr_eventId :: string

datatype msg_websocket =
    WsSend u64 string
  | WsSendBinary u64 string
  | WsSendEventToBatch "(u64 \<times> string) list" string
  | WsGracefulShutdown

datatype msg_ingester =
    IngClientMessage u64 string string "nat option"
  | IngCloseConn u64

datatype msg_writer =
    WrAddEvent u64 string string string "nat option"
  | WrCloseConn u64

datatype msg_req_worker =
    RwNewSub subscription
  | RwRemoveSub u64 string
  | RwCloseConn u64

datatype msg_req_monitor =
    RmNewSub subscription
  | RmRemoveSub u64 string
  | RmCloseConn u64
  | RmDBChange

datatype msg_negentropy =
    NegOpen subscription string string
  | NegMsg u64 string string
  | NegClose u64 string
  | NegCloseConn u64

text \<open>A pool is the list of the inboxes of its threads, \<^verbatim>\<open>numThreads\<close> is its length.\<close>

type_synonym 'm thread_pool = "'m list list"

definition pool_init :: "nat \<Rightarrow> 'm thread_pool result" where
  "pool_init numThreads = (if numThreads = 0 then Inl (Herr ''must have more than 0 threads'') else Inr (replicate numThreads []))"

definition dispatchMulti :: "u64 \<Rightarrow> 'm list \<Rightarrow> 'm thread_pool \<Rightarrow> 'm thread_pool" where
  "dispatchMulti key ms pool = (let who = unat key mod length pool in pool[who := pool ! who @ ms])"

definition dispatch :: "u64 \<Rightarrow> 'm \<Rightarrow> 'm thread_pool \<Rightarrow> 'm thread_pool" where
  "dispatch key m pool = (let who = unat key mod length pool in pool[who := pool ! who @ [m]])"

definition dispatchToAll :: "'m \<Rightarrow> 'm thread_pool \<Rightarrow> 'm thread_pool" where
  "dispatchToAll m pool = map (\<lambda>inbox. inbox @ [m]) pool"

record relay =
  tpWebsocket :: "msg_websocket thread_pool"
  tpIngester :: "msg_ingester thread_pool"
  tpWriter :: "msg_writer thread_pool"
  tpReqWorker :: "msg_req_worker thread_pool"
  tpReqMonitor :: "msg_req_monitor thread_pool"
  tpNegentropy :: "msg_negentropy thread_pool"
  promises :: "nat \<rightharpoonup> process_result"

text \<open>The settings that these files read, and the libraries they call.\<close>

record relay_cfg =
  rc_events :: events_cfg
  rc_maxReqFilterSize :: u64
  rc_maxFilterLimit :: u64
  rc_maxSubsPerConnection :: nat
  rc_whitelist_enabled :: bool
  rc_whitelist_pubkeys :: string
  rc_whitelist_env :: "string option"
  rc_serviceUrl :: string
  rc_negentropy_enabled :: bool
  rc_negentropy_maxSyncEvents :: u64
  rc_writePolicy_plugin :: string
  rc_queryTimesliceBudgetMicroseconds :: u64

record 'db relay_params =
  rp_env :: "'db env"
  rp_lib :: lib
  rp_what :: "exn \<Rightarrow> string"
  rp_from_sv32 :: "string \<Rightarrow> u32"
  rp_decompress :: "u32 \<Rightarrow> string \<Rightarrow> string result"
  rp_cfg :: relay_cfg

definition set_value :: "nat \<Rightarrow> bool \<Rightarrow> string \<Rightarrow> string \<Rightarrow> relay \<Rightarrow> relay result" where
  "set_value p success message eventId rl =
     (if promises rl p \<noteq> None then Inl (LibError ''Promise already satisfied'')
      else Inr (rl\<lparr>promises := (promises rl)(p \<mapsto> \<lparr>pr_success = success, pr_message = message, pr_eventId = eventId\<rparr>)\<rparr>))"

section \<open>Answers to clients\<close>

definition sendToConn :: "u64 \<Rightarrow> string \<Rightarrow> relay \<Rightarrow> relay" where
  "sendToConn connId payload rl = rl\<lparr>tpWebsocket := dispatch 0 (WsSend connId payload) (tpWebsocket rl)\<rparr>"

definition sendToConnBinary :: "u64 \<Rightarrow> string \<Rightarrow> relay \<Rightarrow> relay" where
  "sendToConnBinary connId payload rl = rl\<lparr>tpWebsocket := dispatch 0 (WsSendBinary connId payload) (tpWebsocket rl)\<rparr>"

definition event_prefix :: string where
  "event_prefix = [CHR ''['', CHR 0x22] @ ''EVENT'' @ [CHR 0x22, CHR '','', CHR 0x22]"

definition sendEvent :: "u64 \<Rightarrow> string \<Rightarrow> string \<Rightarrow> relay \<Rightarrow> relay" where
  "sendEvent connId subId evJson rl =
     sendToConn connId (event_prefix @ SubId_sv subId @ [CHR 0x22, CHR '',''] @ evJson @ '']'') rl"

definition sendEventToBatch :: "(u64 \<times> string) list \<Rightarrow> string \<Rightarrow> relay \<Rightarrow> relay" where
  "sendEventToBatch lst evJson rl = rl\<lparr>tpWebsocket := dispatch 0 (WsSendEventToBatch lst evJson) (tpWebsocket rl)\<rparr>"

definition sendNoticeError :: "lib \<Rightarrow> u64 \<Rightarrow> string \<Rightarrow> relay \<Rightarrow> relay" where
  "sendNoticeError L connId payload rl =
     sendToConn connId (json_to_string L (JArray [JString ''NOTICE'', JString (''ERROR: '' @ payload)])) rl"

definition sendOKResponse :: "lib \<Rightarrow> u64 \<Rightarrow> string \<Rightarrow> bool \<Rightarrow> string \<Rightarrow> relay \<Rightarrow> relay" where
  "sendOKResponse L connId eventIdHex written message rl =
     sendToConn connId (json_to_string L (JArray [JString ''OK'', JString eventIdHex, JBool written, JString message])) rl"

definition sendAuthChallenge :: "lib \<Rightarrow> u64 \<Rightarrow> string \<Rightarrow> relay \<Rightarrow> relay" where
  "sendAuthChallenge L connId challenge rl =
     sendToConn connId (json_to_string L (JArray [JString ''AUTH'', JString challenge])) rl"

section \<open>The ingester\<close>

text \<open>
  An answer goes to the promise of a request over HTTP, and otherwise to the websocket
  connection that the message came from; the two carry different texts and ids.
\<close>

definition answer ::
    "lib \<Rightarrow> nat option \<Rightarrow> u64 \<Rightarrow> bool \<Rightarrow> string \<times> string \<Rightarrow> string \<times> string \<Rightarrow> relay \<Rightarrow> relay result" where
  "answer L promise connId ok http ws rl =
     (case promise of
        Some p \<Rightarrow> set_value p ok (fst http) (snd http) rl
      | None \<Rightarrow> if connId \<noteq> 0 then Inr (sendOKResponse L connId (snd ws) ok (fst ws) rl) else Inr rl)"

definition is_trimmed :: "char \<Rightarrow> bool" where
  "is_trimmed c \<longleftrightarrow> c = CHR '' '' \<or> c = CHR 0x09 \<or> c = CHR 0x0D \<or> c = CHR 0x0A"

definition trim_space :: "string \<Rightarrow> string" where
  "trim_space s = rev (dropWhile is_trimmed (rev (dropWhile is_trimmed s)))"

definition whitelistConfig :: "relay_cfg \<Rightarrow> string" where
  "whitelistConfig cfg =
     (case rc_whitelist_env cfg of
        Some v \<Rightarrow> if length v > 0 then v else rc_whitelist_pubkeys cfg
      | None \<Rightarrow> rc_whitelist_pubkeys cfg)"

definition isWhitelisted :: "string \<Rightarrow> string \<Rightarrow> bool" where
  "isWhitelisted config eventPubkeyHex = list_ex (\<lambda>allowedPubkey. eventPubkeyHex = trim_space allowedPubkey) (getlines config)"

definition ingesterProcessEvent ::
    "'db relay_params \<Rightarrow> u64 \<Rightarrow> 'db \<Rightarrow> u64 \<Rightarrow> string \<Rightarrow> json \<Rightarrow> nat option \<Rightarrow> relay \<times> msg_writer list \<Rightarrow>
     (relay \<times> msg_writer list) result" where
  "ingesterProcessEvent P now db connId ipAddr origJson resultPromise st =
     (let L = rp_lib P; cfg = rp_cfg P; (rl, outs) = st;
          say = (\<lambda>ok http ws. bindE (answer L resultPromise connId ok http ws rl) (\<lambda>rl'. Inr (rl', outs)))
      in case parseAndVerifyEvent L (rc_events cfg) now origJson True True of
           Inl UB \<Rightarrow> Inl UB
         | Inl e \<Rightarrow> say False (''invalid: '' @ what (rp_what P) e, []) (''invalid: '' @ what (rp_what P) e, ''?'')
         | Inr (packedStr, jsonStr) \<Rightarrow>
             bindE (PackedEventView packedStr) (\<lambda>packed.
             let eventIdHex = to_hex L (packed_id packed); eventPubkeyHex = to_hex L (packed_pubkey packed);
                 same = (\<lambda>ok m. say ok (m, eventIdHex) (m, eventIdHex))
             in if rc_whitelist_enabled cfg \<and> whitelistConfig cfg = [] then same False ''blocked: whitelist enabled but empty''
                else if rc_whitelist_enabled cfg \<and> \<not> isWhitelisted (whitelistConfig cfg) eventPubkeyHex
                then same False ''blocked: pubkey not in whitelist''
                else if lookupEventById (rp_env P) db (packed_id packed) \<noteq> None then same True ''duplicate: have this event''
                else Inr (rl, outs @ [WrAddEvent connId ipAddr packedStr jsonStr resultPromise])))"

definition ingesterProcessReq :: "'db relay_params \<Rightarrow> u64 \<Rightarrow> json list \<Rightarrow> relay \<Rightarrow> relay result" where
  "ingesterProcessReq P connId arr rl =
     bindE (throw_if (length arr < 2 + 1) ''arr too small'') (\<lambda>_.
     bindE (throw_if (of_nat (length arr) > 2 + rc_maxReqFilterSize (rp_cfg P)) ''arr too big'') (\<lambda>_.
     bindE (jsonGetString (arr ! 1) ''REQ subscription id was not a string'') (\<lambda>subId.
     bindE (NostrFilterGroup (rp_lib P) (JArray arr) (rc_maxFilterLimit (rp_cfg P))) (\<lambda>fg.
     bindE (Subscription connId subId fg) (\<lambda>sub.
     Inr (rl\<lparr>tpReqWorker := dispatch connId (RwNewSub sub) (tpReqWorker rl)\<rparr>))))))"

definition ingesterProcessClose :: "u64 \<Rightarrow> json list \<Rightarrow> relay \<Rightarrow> relay result" where
  "ingesterProcessClose connId arr rl =
     bindE (throw_if (length arr \<noteq> 2) ''arr too small/big'') (\<lambda>_.
     bindE (jsonGetString (arr ! 1) ''CLOSE subscription id was not a string'') (\<lambda>s.
     bindE (SubId s) (\<lambda>subId.
     Inr (rl\<lparr>tpReqWorker := dispatch connId (RwRemoveSub connId subId) (tpReqWorker rl)\<rparr>))))"

record auth_status =
  as_challenge :: string
  as_authed :: string

text \<open>The loop over the tags of an AUTH event; the state is the pair of the two flags.\<close>

definition auth_tag :: "string \<Rightarrow> string \<Rightarrow> json \<Rightarrow> bool \<times> bool \<Rightarrow> (bool \<times> bool) result" where
  "auth_tag serviceUrl challenge tagj st =
     bindE (get_array tagj) (\<lambda>tag.
     if length tag < 2 then Inr st
     else bindE (get_string (tag ! 0)) (\<lambda>name. bindE (get_string (tag ! 1)) (\<lambda>val.
       Inr (if name = ''relay'' \<and> val = serviceUrl then (fst st, True)
            else if name = ''challenge'' \<and> val = challenge then (True, snd st)
            else st))))"

definition ingesterProcessAuth ::
    "'db relay_params \<Rightarrow> u64 \<Rightarrow> u64 \<Rightarrow> json \<Rightarrow> (u64 \<rightharpoonup> auth_status) \<times> relay \<Rightarrow> ((u64 \<rightharpoonup> auth_status) \<times> relay) result" where
  "ingesterProcessAuth P now connId eventJson st =
     (let L = rp_lib P; serviceUrl = rc_serviceUrl (rp_cfg P); (auth, rl) = st
      in bindE (throw_if (serviceUrl = []) ''relay needs serviceUrl to be configured before AUTH can work'') (\<lambda>_.
         bindE (parseAndVerifyEvent L (rc_events (rp_cfg P)) now eventJson True True) (\<lambda>(packedStr, jsonStr).
         bindE (PackedEventView packedStr) (\<lambda>packed.
         bindE (throw_if (packed_kind L packed \<noteq> 22242) ''wrong event kind, expected 22242'') (\<lambda>_.
         case auth connId of
           None \<Rightarrow> Inl (Herr ''no auth status available for connection'')
         | Some as \<Rightarrow>
             bindE (throw_if (as_authed as \<noteq> []) ''already authenticated'') (\<lambda>_.
             bindE (bindE (json_at eventJson ''tags'') get_array) (\<lambda>tags.
             bindE (foldE (auth_tag serviceUrl (as_challenge as)) tags (False, False)) (\<lambda>(foundChallenge, foundCorrectRelayUrl).
             bindE (throw_if (\<not> foundChallenge) ''challenge string mismatch'') (\<lambda>_.
             bindE (throw_if (\<not> foundCorrectRelayUrl) (''incorrect or missing relay tag, expected: '' @ serviceUrl)) (\<lambda>_.
             Inr (auth(connId \<mapsto> as\<lparr>as_authed := packed_pubkey packed\<rparr>),
                  sendOKResponse L connId (to_hex L (packed_id packed)) True ''successfully authenticated'' rl)))))))))))"

definition erase_times :: "json \<Rightarrow> json" where
  "erase_times filterJson =
     (case filterJson of
        JObject kvs \<Rightarrow> JObject (List.filter (\<lambda>kv. fst kv \<noteq> ''since'' \<and> fst kv \<noteq> ''until'') kvs)
      | _ \<Rightarrow> filterJson)"

definition ingesterProcessNegentropy :: "'db relay_params \<Rightarrow> u64 \<Rightarrow> json list \<Rightarrow> relay \<Rightarrow> relay result" where
  "ingesterProcessNegentropy P connId arr rl =
     (let L = rp_lib P
      in bindE (json_index (JArray arr) 1) (\<lambda>a1.
         bindE (jsonGetString a1 ''NEG-OPEN subscription id was not a string'') (\<lambda>subscriptionStr.
         bindE (json_index (JArray arr) 0) (\<lambda>cmd.
         if cmd = JString ''NEG-OPEN'' then
           bindE (throw_if (length arr < 4) ''negentropy query missing elements'') (\<lambda>_.
           bindE (json_index (JArray arr) 2) (\<lambda>filterJson.
           bindE (NostrFilterGroup_unwrapped L filterJson (rc_negentropy_maxSyncEvents (rp_cfg P) + 1)) (\<lambda>fg.
           bindE (Subscription connId subscriptionStr fg) (\<lambda>sub.
           bindE (json_index (JArray arr) 3) (\<lambda>a3.
           bindE (jsonGetString a3 ''negentropy payload not a string'') (\<lambda>hex.
           bindE (from_hex L hex True) (\<lambda>negPayload.
           Inr (rl\<lparr>tpNegentropy := dispatch connId (NegOpen sub (json_to_string L (erase_times filterJson)) negPayload) (tpNegentropy rl)\<rparr>))))))))
         else if cmd = JString ''NEG-MSG'' then
           bindE (json_index (JArray arr) 2) (\<lambda>a2.
           bindE (jsonGetString a2 ''negentropy payload not a string'') (\<lambda>hex.
           bindE (from_hex L hex True) (\<lambda>negPayload.
           bindE (SubId subscriptionStr) (\<lambda>subId.
           Inr (rl\<lparr>tpNegentropy := dispatch connId (NegMsg connId subId negPayload) (tpNegentropy rl)\<rparr>)))))
         else if cmd = JString ''NEG-CLOSE'' then
           bindE (SubId subscriptionStr) (\<lambda>subId.
           Inr (rl\<lparr>tpNegentropy := dispatch connId (NegClose connId subId) (tpNegentropy rl)\<rparr>))
         else Inl (Herr ''unknown command'')))))"

text \<open>
  One message of the ingester's inbox; \<open>now\<close> is the clock when it is handled.  The state of
  the round is the relay, the messages collected for the writer and the table of
  authentications.  A handler that throws has done nothing yet, so the error answer starts
  from the state before it.
\<close>

type_synonym ing_state = "relay \<times> msg_writer list \<times> (u64 \<rightharpoonup> auth_status)"

definition notice :: "'db relay_params \<Rightarrow> u64 \<Rightarrow> string \<Rightarrow> ing_state \<Rightarrow> exn \<Rightarrow> ing_state" where
  "notice P connId prefix st e =
     (sendNoticeError (rp_lib P) connId (prefix @ what (rp_what P) e) (fst st), snd st)"

definition ingest_cmd ::
    "'db relay_params \<Rightarrow> u64 \<Rightarrow> 'db \<Rightarrow> u64 \<Rightarrow> string \<Rightarrow> nat option \<Rightarrow> json list \<Rightarrow> string \<Rightarrow> ing_state \<Rightarrow> ing_state result" where
  "ingest_cmd P now db connId ipAddr resultPromise arr cmd st =
     (let (rl, outs, auth) = st
      in if cmd = ''EVENT'' then
           (case ingesterProcessEvent P now db connId ipAddr (arr ! 1) resultPromise (rl, outs) of
              Inr (rl', outs') \<Rightarrow> Inr (rl', outs', auth)
            | Inl UB \<Rightarrow> Inl UB
            | Inl e \<Rightarrow>
                bindE (answer (rp_lib P) resultPromise connId False (''error: '' @ what (rp_what P) e, ''?'')
                  (''invalid: '' @ what (rp_what P) e, ''?'') rl) (\<lambda>rl'. Inr (rl', outs, auth)))
         else if cmd = ''AUTH'' then
           catch_all (bindE (ingesterProcessAuth P now connId (arr ! 1) (auth, rl)) (\<lambda>(auth', rl'). Inr (rl', outs, auth')))
             (notice P connId ''auth failed: '' st)
         else if cmd = ''REQ'' then
           catch_all (bindE (ingesterProcessReq P connId arr rl) (\<lambda>rl'. Inr (rl', outs, auth))) (notice P connId ''bad req: '' st)
         else if cmd = ''CLOSE'' then
           catch_all (bindE (ingesterProcessClose connId arr rl) (\<lambda>rl'. Inr (rl', outs, auth))) (notice P connId ''bad close: '' st)
         else if starts_with cmd ''NEG-'' then
           bindE (throw_if (\<not> rc_negentropy_enabled (rp_cfg P)) ''negentropy disabled'') (\<lambda>_.
           catch_all (bindE (ingesterProcessNegentropy P connId arr rl) (\<lambda>rl'. Inr (rl', outs, auth)))
             (notice P connId ''negentropy error: '' st))
         else Inl (Herr ''unknown cmd''))"

definition ingest_payload ::
    "'db relay_params \<Rightarrow> u64 \<Rightarrow> 'db \<Rightarrow> u64 \<Rightarrow> string \<Rightarrow> string \<Rightarrow> nat option \<Rightarrow> ing_state \<Rightarrow> ing_state result" where
  "ingest_payload P now db connId ipAddr payload resultPromise st =
     (if starts_with payload ''['' then
        bindE (json_from_string (rp_lib P) payload) (\<lambda>v.
        bindE (jsonGetArray v ''message is not an array'') (\<lambda>arr.
        bindE (throw_if (length arr < 2) ''too few array elements'') (\<lambda>_.
        bindE (jsonGetString (arr ! 0) ''first element not a command'') (\<lambda>cmd.
        ingest_cmd P now db connId ipAddr resultPromise arr cmd st))))
      else if payload = [CHR 0x0A] then Inr st
      else Inl (Herr ''unparseable message''))"

definition ingest_one :: "'db relay_params \<Rightarrow> 'db \<Rightarrow> u64 \<times> msg_ingester \<Rightarrow> ing_state \<Rightarrow> ing_state result" where
  "ingest_one P db x st =
     (case x of
        (now, IngClientMessage connId ipAddr payload resultPromise) \<Rightarrow>
          (case ingest_payload P now db connId ipAddr payload resultPromise st of
             Inr st' \<Rightarrow> Inr st'
           | Inl UB \<Rightarrow> Inl UB
           | Inl e \<Rightarrow>
               (case resultPromise of
                  Some p \<Rightarrow> bindE (set_value p False (''bad msg: '' @ what (rp_what P) e) ''?'' (fst st)) (\<lambda>rl'. Inr (rl', snd st))
                | None \<Rightarrow> Inr (notice P connId ''bad msg: '' st e)))
      | (now, IngCloseConn connId) \<Rightarrow>
          Inr ((fst st)\<lparr>tpWriter := dispatch connId (WrCloseConn connId) (tpWriter (fst st)),
            tpReqWorker := dispatch connId (RwCloseConn connId) (tpReqWorker (fst st)),
            tpNegentropy := dispatch connId (NegCloseConn connId) (tpNegentropy (fst st))\<rparr>, snd st))"

definition ingester_round ::
    "'db relay_params \<Rightarrow> 'db \<Rightarrow> (u64 \<times> msg_ingester) list \<Rightarrow> relay \<times> (u64 \<rightharpoonup> auth_status) \<Rightarrow>
     (relay \<times> (u64 \<rightharpoonup> auth_status)) result" where
  "ingester_round P db newMsgs st =
     bindE (foldE (ingest_one P db) newMsgs (fst st, [], snd st)) (\<lambda>(rl, writerMsgs, auth).
     Inr (if writerMsgs \<noteq> [] then rl\<lparr>tpWriter := dispatchMulti 0 writerMsgs (tpWriter rl)\<rparr> else rl, auth))"

text \<open>A relay with one thread in each pool, and settings, for the examples.\<close>

definition relay_idle :: relay where
  "relay_idle = \<lparr>tpWebsocket = [[]], tpIngester = [[]], tpWriter = [[]], tpReqWorker = [[]], tpReqMonitor = [[]],
     tpNegentropy = [[]], promises = (\<lambda>_. None)\<rparr>"

definition sample_relay_cfg :: relay_cfg where
  "sample_relay_cfg = \<lparr>rc_events = sample_cfg, rc_maxReqFilterSize = 200, rc_maxFilterLimit = 500, rc_maxSubsPerConnection = 20,
     rc_whitelist_enabled = False, rc_whitelist_pubkeys = [], rc_whitelist_env = None, rc_serviceUrl = [],
     rc_negentropy_enabled = True, rc_negentropy_maxSyncEvents = 1000000, rc_writePolicy_plugin = [],
     rc_queryTimesliceBudgetMicroseconds = 10000\<rparr>"

end
