(* ===== verification/Relay_Writer.thy ===== *)
theory Relay_Writer
  imports Relay_Server
begin

text \<open>
  The writer thread of the relay (\<^verbatim>\<open>src/src/apps/relay/RelayWriter.cpp\<close>) with the write policy
  plugin that it asks (\<^verbatim>\<open>src/src/PluginEventSifter.h\<close>), and the function that hands the events
  of HTTP requests to the relay and waits for the verdict (\<^verbatim>\<open>cmd_relay.cpp\<close>).
\<close>

section \<open>The write policy plugin\<close>

datatype event_source = Src_None | Src_IP4 | Src_IP6 | Src_Import | Src_Stream | Src_Sync | Src_Stored

definition eventSourceTypeToStr :: "event_source \<Rightarrow> string" where
  "eventSourceTypeToStr t =
     (case t of Src_IP4 \<Rightarrow> ''IP4'' | Src_IP6 \<Rightarrow> ''IP6'' | Src_Import \<Rightarrow> ''Import'' | Src_Stream \<Rightarrow> ''Stream''
      | Src_Sync \<Rightarrow> ''Sync'' | _ \<Rightarrow> ''?'')"

datatype sifter_result = Accept | Reject | ShadowReject

text \<open>
  The operating system, as the plugin code uses it, on a world \<open>'o\<close>: the time of change of a
  file, starting a process with pipes to it, writing to it, the lines that it will have
  written before it closes its end, and closing the pipes and stopping it.  \<open>'h\<close> is the
  process with its two streams.
\<close>

record ('o, 'h) plugin_os =
  os_stat :: "string \<Rightarrow> 'o \<Rightarrow> (int \<times> int) option"
  os_spawn :: "string \<Rightarrow> 'o \<Rightarrow> 'h result \<times> 'o"
  os_fwrite :: "'h \<Rightarrow> string \<Rightarrow> 'o \<Rightarrow> nat \<times> 'o"
  os_lines :: "'h \<Rightarrow> 'o \<Rightarrow> string list"
  os_read :: "'h \<Rightarrow> nat \<Rightarrow> 'o \<Rightarrow> 'o"
  os_close :: "'h \<Rightarrow> 'o \<Rightarrow> 'o"
  os_time :: "'o \<Rightarrow> int"
  os_inet_ntop :: "bool \<Rightarrow> string \<Rightarrow> string"

record 'h running_plugin =
  pl_handle :: 'h
  pl_currPluginCmd :: string
  pl_lastModTime :: "(int \<times> int) option"

type_synonym ('o, 'h) sifter = "'h running_plugin option \<times> 'o"

definition has_space :: "string \<Rightarrow> bool" where
  "has_space s \<longleftrightarrow> str_find s '' '' \<noteq> None"

definition reset_plugin :: "('o, 'h) plugin_os \<Rightarrow> ('o, 'h) sifter \<Rightarrow> ('o, 'h) sifter" where
  "reset_plugin Os sf = (case fst sf of None \<Rightarrow> sf | Some pl \<Rightarrow> (None, os_close Os (pl_handle pl) (snd sf)))"

text \<open>
  The constructor stats the command when it is a single path; it is the constructor that
  throws, so the destructor does not run and the process that was started stays.
\<close>

definition setupPlugin :: "('o, 'h) plugin_os \<Rightarrow> string \<Rightarrow> 'o \<Rightarrow> 'h running_plugin result \<times> 'o" where
  "setupPlugin Os pluginCmd w =
     (case os_spawn Os pluginCmd w of
        (Inl e, w1) \<Rightarrow> (Inl e, w1)
      | (Inr h, w1) \<Rightarrow>
          if has_space pluginCmd then (Inr \<lparr>pl_handle = h, pl_currPluginCmd = pluginCmd, pl_lastModTime = None\<rparr>, w1)
          else (case os_stat Os pluginCmd w1 of
                  None \<Rightarrow> (Inl (Herr (''couldn't stat plugin: '' @ pluginCmd)), w1)
                | Some t \<Rightarrow> (Inr \<lparr>pl_handle = h, pl_currPluginCmd = pluginCmd, pl_lastModTime = Some t\<rparr>, w1)))"

text \<open>The checks on a running plugin: another command, or a changed file, stop it.\<close>

definition check_running :: "('o, 'h) plugin_os \<Rightarrow> string \<Rightarrow> ('o, 'h) sifter \<Rightarrow> unit result \<times> ('o, 'h) sifter" where
  "check_running Os pluginCmd sf =
     (case fst sf of
        None \<Rightarrow> (Inr (), sf)
      | Some pl \<Rightarrow>
          if pluginCmd \<noteq> pl_currPluginCmd pl then (Inr (), reset_plugin Os sf)
          else if has_space pluginCmd then (Inr (), sf)
          else (case os_stat Os pluginCmd (snd sf) of
                  None \<Rightarrow> (Inl (Herr (''couldn't stat plugin: '' @ pluginCmd)), sf)
                | Some t \<Rightarrow> (Inr (), if Some t \<noteq> pl_lastModTime pl then reset_plugin Os sf else sf)))"

definition ensure_running :: "('o, 'h) plugin_os \<Rightarrow> string \<Rightarrow> ('o, 'h) sifter \<Rightarrow> 'h running_plugin result \<times> ('o, 'h) sifter" where
  "ensure_running Os pluginCmd sf =
     (case fst sf of
        Some pl \<Rightarrow> (Inr pl, sf)
      | None \<Rightarrow> (case setupPlugin Os pluginCmd (snd sf) of
                  (Inl e, w) \<Rightarrow> (Inl e, (None, w))
                | (Inr pl, w) \<Rightarrow> (Inr pl, (Some pl, w))))"

text \<open>
  The loop that reads the answer: lines that are not JSON are skipped, the first that is must
  carry the id of the event.  The second component is the number of lines read.
\<close>

fun read_response :: "lib \<Rightarrow> json \<Rightarrow> string list \<Rightarrow> json result \<times> nat" where
  "read_response L request [] = (Inl (Herr ''pipe to plugin was closed (plugin crashed?)''), 0)"
| "read_response L request (buf # bufs) =
     (case json_from_string L buf of
        Inl e \<Rightarrow> (let (r, n) = read_response L request bufs in (r, Suc n))
      | Inr response \<Rightarrow>
          (bindE (bindE (json_at response ''id'') get_string) (\<lambda>i.
           bindE (bindE (json_at request ''event'') (\<lambda>ev. bindE (json_at ev ''id'') get_string)) (\<lambda>j.
           if i \<noteq> j then Inl (Herr ''id mismatch'') else Inr response)), 1))"

text \<open>\<^verbatim>\<open>response.optional<std::string>("msg")\<close> throws when the member is there and is no string.\<close>

definition read_verdict :: "json \<Rightarrow> (sifter_result \<times> string) result" where
  "read_verdict response =
     bindE (bindE (json_find response ''msg'') (\<lambda>m. case m of None \<Rightarrow> Inr [] | Some v \<Rightarrow> get_string v)) (\<lambda>okMsg.
     bindE (bindE (json_at response ''action'') get_string) (\<lambda>action.
     if action = ''accept'' then Inr (Accept, okMsg)
     else if action = ''reject'' then Inr (Reject, okMsg)
     else if action = ''shadowReject'' then Inr (ShadowReject, okMsg)
     else Inl (Herr (''unknown action: '' @ action))))"

definition plugin_request :: "('o, 'h) plugin_os \<Rightarrow> json \<Rightarrow> event_source \<Rightarrow> string \<Rightarrow> 'o \<Rightarrow> json result" where
  "plugin_request Os evJson sourceType sourceInfo w =
     bindE (if sourceType = Src_IP4 \<or> sourceType = Src_IP6 then renderIP (os_inet_ntop Os) sourceInfo else Inr sourceInfo) (\<lambda>info.
     Inr (JObject [(''event'', evJson), (''receivedAt'', JSigned (os_time Os w)), (''sourceInfo'', JString info),
       (''sourceType'', JString (eventSourceTypeToStr sourceType)), (''type'', JString ''new'')]))"

text \<open>What is done with a plugin that runs.\<close>

definition ask_plugin ::
    "('o, 'h) plugin_os \<Rightarrow> lib \<Rightarrow> 'h running_plugin \<Rightarrow> json \<Rightarrow> event_source \<Rightarrow> string \<Rightarrow> 'o \<Rightarrow> (sifter_result \<times> string) result \<times> 'o" where
  "ask_plugin Os L pl evJson sourceType sourceInfo w =
     (case plugin_request Os evJson sourceType sourceInfo w of
        Inl e \<Rightarrow> (Inl e, w)
      | Inr request \<Rightarrow>
          (let outs = json_to_string L request @ [CHR 0x0A]; (n, w1) = os_fwrite Os (pl_handle pl) outs w
           in if n \<noteq> length outs then (Inl (Herr ''error writing to plugin''), w1)
              else let (r, k) = read_response L request (os_lines Os (pl_handle pl) w1); w2 = os_read Os (pl_handle pl) k w1
                   in (bindE r read_verdict, w2)))"

definition acceptEvent ::
    "('o, 'h) plugin_os \<Rightarrow> lib \<Rightarrow> string \<Rightarrow> json \<Rightarrow> event_source \<Rightarrow> string \<Rightarrow> ('o, 'h) sifter \<Rightarrow>
     (sifter_result \<times> string) \<times> ('o, 'h) sifter" where
  "acceptEvent Os L pluginCmd evJson sourceType sourceInfo sf =
     (if pluginCmd = [] then ((Accept, []), reset_plugin Os sf)
      else
        let (r, sf1) = check_running Os pluginCmd sf;
            failed = (\<lambda>sf. ((Reject, ''error: internal error''), reset_plugin Os sf))
        in case r of
             Inl e \<Rightarrow> failed sf1
           | Inr _ \<Rightarrow>
               (case ensure_running Os pluginCmd sf1 of
                  (Inl e, sf2) \<Rightarrow> failed sf2
                | (Inr pl, sf2) \<Rightarrow>
                    (case ask_plugin Os L pl evJson sourceType sourceInfo (snd sf2) of
                       (Inl e, w) \<Rightarrow> failed (fst sf2, w)
                     | (Inr res, w) \<Rightarrow> (res, (fst sf2, w)))))"

section \<open>The writer\<close>

text \<open>Dropping the events of connections that have closed in the meantime.\<close>

fun closed_conns :: "msg_writer list \<Rightarrow> u64 list" where
  "closed_conns [] = []"
| "closed_conns (WrCloseConn connId # ms) = connId # closed_conns ms"
| "closed_conns (_ # ms) = closed_conns ms"

fun open_event :: "u64 list \<Rightarrow> msg_writer \<Rightarrow> bool" where
  "open_event cs (WrAddEvent connId _ _ _ _) = (connId \<notin> set cs)"
| "open_event cs (WrCloseConn _) = False"

definition drop_closed :: "msg_writer list \<Rightarrow> msg_writer list" where
  "drop_closed newMsgs =
     (if closed_conns newMsgs = [] then newMsgs else List.filter (open_event (closed_conns newMsgs)) newMsgs)"

text \<open>
  Preparing: the plugin is asked about each event.  \<^verbatim>\<open>userData\<close>, the pointer to the message, is
  the position of the message.  \<open>ask\<close> is the plugin with its command.
\<close>

type_synonym 'p sifter_fun = "json \<Rightarrow> event_source \<Rightarrow> string \<Rightarrow> 'p \<Rightarrow> (sifter_result \<times> string) \<times> 'p"

definition set_value_opt :: "nat option \<Rightarrow> bool \<Rightarrow> string \<Rightarrow> string \<Rightarrow> relay \<Rightarrow> relay result" where
  "set_value_opt promise ok m i rl = (case promise of None \<Rightarrow> Inr rl | Some p \<Rightarrow> set_value p ok m i rl)"

fun prepare_one ::
    "'db relay_params \<Rightarrow> 'p sifter_fun \<Rightarrow> nat \<times> msg_writer \<Rightarrow> relay \<times> 'p \<times> event_to_write list \<Rightarrow>
     (relay \<times> 'p \<times> event_to_write list) result" where
  "prepare_one P ask (n, WrAddEvent connId ipAddr packedStr jsonStr resultPromise) (rl, sf, newEvents) =
     bindE (json_from_string (rp_lib P) jsonStr) (\<lambda>evJson.
     let sourceType = (if length ipAddr = 4 then Src_IP4 else Src_IP6);
         ((res, okMsg), sf') = ask evJson sourceType ipAddr sf
     in if res = Accept then Inr (rl, sf', newEvents @ [EventToWrite packedStr jsonStr (Some n)])
        else
          bindE (PackedEventView packedStr) (\<lambda>packed.
          let eventIdHex = to_hex (rp_lib P) (packed_id packed)
          in bindE (set_value_opt resultPromise False (if okMsg = [] then ''blocked by write policy'' else okMsg) eventIdHex rl) (\<lambda>rl'.
             Inr (sendOKResponse (rp_lib P) connId eventIdHex (res = ShadowReject) okMsg rl', sf', newEvents))))"
| "prepare_one P ask (n, WrCloseConn connId) st = Inr st"

text \<open>The connection and the promise behind \<^verbatim>\<open>userData\<close>.\<close>

fun msg_reply :: "msg_writer \<Rightarrow> u64 \<times> nat option" where
  "msg_reply (WrAddEvent connId _ _ _ promise) = (connId, promise)"
| "msg_reply (WrCloseConn connId) = (connId, None)"

definition reply_to :: "msg_writer list \<Rightarrow> event_to_write \<Rightarrow> (u64 \<times> nat option) result" where
  "reply_to msgs ev =
     (case ew_userData ev of Some n \<Rightarrow> if n < length msgs then Inr (msg_reply (msgs ! n)) else Inl UB | None \<Rightarrow> Inl UB)"

definition report ::
    "'db relay_params \<Rightarrow> msg_writer list \<Rightarrow> (event_to_write \<Rightarrow> bool \<times> bool \<times> string) \<Rightarrow> event_to_write \<Rightarrow> relay \<Rightarrow> relay result" where
  "report P msgs verdict ev rl =
     bindE (PackedEventView (ew_packedStr ev)) (\<lambda>packed.
     let eventIdHex = to_hex (rp_lib P) (packed_id packed); (success, written, message) = verdict ev
     in bindE (reply_to msgs ev) (\<lambda>(connId, promise).
        bindE (set_value_opt promise success message eventIdHex rl) (\<lambda>rl'.
        Inr (sendOKResponse (rp_lib P) connId eventIdHex written message rl'))))"

text \<open>Success for HTTP, \<^verbatim>\<open>written\<close> for websockets, and the message.\<close>

fun status_verdict :: "write_status \<Rightarrow> bool \<times> bool \<times> string" where
  "status_verdict Written = (True, True, [])"
| "status_verdict Duplicate = (True, True, ''duplicate: have this event'')"
| "status_verdict Replaced = (False, False, ''replaced: have newer event'')"
| "status_verdict Deleted = (False, False, ''deleted: user requested deletion'')"
| "status_verdict Pending = (False, False, [])"

text \<open>
  What an exception in the transaction leaves: the database is as before; the events may have
  been sorted, and the cache of filters may have been refreshed, up to the filter that did
  not parse.
\<close>

fun loaded_filters :: "lib \<Rightarrow> (u64 \<times> string) list \<Rightarrow> (nostr_filter \<times> u64) list" where
  "loaded_filters L [] = []"
| "loaded_filters L ((treeId, txt) # fs) =
     (case bindE (json_from_string L txt) (\<lambda>j. NostrFilter L j MAX_U64) of
        Inl _ \<Rightarrow> []
      | Inr f \<Rightarrow> (f, treeId) # loaded_filters L fs)"

definition after_error ::
    "'db env \<Rightarrow> lib \<Rightarrow> filter_cache \<Rightarrow> event_to_write list \<Rightarrow> 'db \<Rightarrow> event_to_write list \<times> filter_cache" where
  "after_error E L cache evs db =
     (case sort_events L evs of
        Inl _ \<Rightarrow> (evs, cache)
      | Inr evs' \<Rightarrow>
          (evs', case freshenCache E L db cache of
             Inr cache' \<Rightarrow> cache'
           | Inl _ \<Rightarrow> cache\<lparr>fc_filters := loaded_filters L (foreach_NegentropyFilter E db)\<rparr>))"

definition writer_round ::
    "'db relay_params \<Rightarrow> 'p sifter_fun \<Rightarrow> msg_writer list \<Rightarrow> relay \<times> 'p \<times> filter_cache \<times> 'db \<Rightarrow>
     (relay \<times> 'p \<times> filter_cache \<times> 'db) result" where
  "writer_round P ask newMsgs0 st =
     (let (rl, sf, cache, db) = st; newMsgs = drop_closed newMsgs0
      in bindE (foldE (prepare_one P ask) (enumerate 0 newMsgs) (rl, sf, [])) (\<lambda>(rl1, sf1, newEvents).
         if newEvents = [] then Inr (rl1, sf1, cache, db)
         else
           (case writeEvents (rp_env P) (rp_lib P) cache newEvents db of
              Inl UB \<Rightarrow> Inl UB
            | Inl e \<Rightarrow>
                (let (evs, cache') = after_error (rp_env P) (rp_lib P) cache newEvents db
                 in bindE (foldE (report P newMsgs (\<lambda>_. (False, False, ''Write error: '' @ what (rp_what P) e))) evs rl1) (\<lambda>rl2.
                    Inr (rl2, sf1, cache', db)))
            | Inr (evs, db', cache') \<Rightarrow>
                bindE (foldE (report P newMsgs (\<lambda>ev. status_verdict (ew_status ev))) evs rl1) (\<lambda>rl2.
                Inr (rl2, sf1, cache', db')))))"

section \<open>Events over HTTP\<close>

text \<open>
  The event processor up to the dispatch: an early verdict with its message, or the relay
  with the message in the inbox of the first ingester.
\<close>

definition http_submit :: "'db relay_params \<Rightarrow> string \<Rightarrow> nat \<Rightarrow> relay \<Rightarrow> (string + string \<times> relay) result" where
  "http_submit P eventJson p rl =
     (let L = rp_lib P
      in bindE (json_from_string L eventJson) (\<lambda>eventData.
         if \<not> is_object eventData then Inr (Inl ''Event is not a JSON object'')
         else
           (case bindE (bindE (json_at eventData ''id'') get_string) (\<lambda>i.
                 bindE (bindE (json_at eventData ''pubkey'') get_string) (\<lambda>_.
                 bindE (bindE (json_at eventData ''sig'') get_string) (\<lambda>_. Inr i))) of
              Inl UB \<Rightarrow> Inl UB
            | Inl e \<Rightarrow> Inr (Inl (''Missing required fields: '' @ what (rp_what P) e))
            | Inr eventId \<Rightarrow>
                Inr (Inr (eventId, rl\<lparr>tpIngester := dispatch 0
                  (IngClientMessage 0 ''http-post'' (json_to_string L (JArray [JString ''EVENT'', eventData])) (Some p))
                  (tpIngester rl)\<rparr>)))))"

text \<open>
  The whole processor.  The world is the number of the next promise and the relay; \<open>await\<close> is
  what the other threads do until the promise has a value or the time is up.
\<close>

definition http_event_processor ::
    "'db relay_params \<Rightarrow> (nat \<Rightarrow> relay \<Rightarrow> process_result option \<times> relay) \<Rightarrow> string \<Rightarrow> nat \<times> relay \<Rightarrow>
     (bool \<times> string) result \<times> nat \<times> relay" where
  "http_event_processor P await eventJson w =
     (let (p, rl) = w
      in case http_submit P eventJson p rl of
           Inl UB \<Rightarrow> (Inl UB, w)
         | Inl e \<Rightarrow> (Inr (False, ''Processing error: '' @ what (rp_what P) e), w)
         | Inr (Inl m) \<Rightarrow> (Inr (False, m), w)
         | Inr (Inr (eventId, rl1)) \<Rightarrow>
             (case await p rl1 of
                (None, rl2) \<Rightarrow> (Inr (False, ''Event processing timeout for event: '' @ take 16 eventId @ ''...''), Suc p, rl2)
              | (Some res, rl2) \<Rightarrow> (Inr (if pr_success res then (True, []) else (False, pr_message res)), Suc p, rl2)))"

end
