(* ===== verification/Relay_Results.thy ===== *)
theory Relay_Results
  imports Relay_Writer Event_Write "HOL-Library.Sublist" "HOL-Library.Multiset"
begin

text \<open>
  What the relay answers for the events it is given: every event that reaches the writer gets
  exactly one verdict, the verdict agrees with what is in the database afterwards, and the
  gates in front of the writer, the whitelist and the write policy plugin, let nothing else
  through.
\<close>

section \<open>What the statuses of a batch say about the store\<close>

lemma spec_run_ids:
  assumes "spec_run M prev es = (sts, M')" "has_id M' i"
  shows "has_id M i \<or> (\<exists>p\<in>set es. ev_id (fst p) = i)"
  using assms
proof (induction es arbitrary: M prev sts)
  case (Cons p es)
  obtain e lev where p: "p = (e, lev)" by (cases p)
  let ?st = "spec_status M prev e"
  let ?M1 = "if ?st = Written then spec_write lev M e else M"
  obtain sts1 where run: "spec_run ?M1 (Some (ev_id e)) es = (sts1, M')"
    using Cons.prems(1) by (auto simp: p Let_def split: prod.splits)
  have "has_id ?M1 i \<Longrightarrow> has_id M i \<or> ev_id e = i"
    by (auto simp: has_id_def spec_write_def restrict_map_def split: if_splits)
  with Cons.IH [OF run Cons.prems(2)] show ?case by (auto simp: p)
qed simp

lemma spec_run_Cons:
  assumes "spec_run M prev ((e, lev) # es) = (sts, M')"
  obtains sts1 where "sts = spec_status M prev e # sts1"
    "spec_run (if spec_status M prev e = Written then spec_write lev M e else M) (Some (ev_id e)) es = (sts1, M')"
  using assms by (auto simp: Let_def split: prod.splits)

text \<open>
  An event that is accepted is in the store after the batch, unless a later event of the batch
  and of the same author took its place or deleted it.  \<open>S\<close> are the events that are displaced,
  \<open>A\<close> those that displace them.
\<close>

definition displaced :: "event set \<Rightarrow> event set \<Rightarrow> string \<Rightarrow> bool" where
  "displaced S A i \<longleftrightarrow> (\<exists>a\<in>A. \<exists>e\<in>S. ev_id e = i \<and> ((same_slot a e \<and> beats a e) \<or> deletes a e))"

lemma spec_run_slot:
  assumes "spec_run M prev es = (sts, M')" "list_all2 (\<lambda>p st. st = Written \<longrightarrow> snd p \<noteq> l) es sts"
  shows "M' l = None \<or> M' l = M l"
  using assms
proof (induction es arbitrary: M prev sts)
  case (Cons p es)
  obtain a lev where p: "p = (a, lev)" by (cases p)
  let ?M1 = "if spec_status M prev a = Written then spec_write lev M a else M"
  obtain sts1 where run: "sts = spec_status M prev a # sts1" "spec_run ?M1 (Some (ev_id a)) es = (sts1, M')"
    using Cons.prems(1) unfolding p by (rule spec_run_Cons)
  have "?M1 l = M l \<or> ?M1 l = None" using Cons.prems(2) run(1) p by (auto simp: spec_write_def restrict_map_def)
  moreover have "M' l = None \<or> M' l = ?M1 l" using Cons.IH [OF run(2)] Cons.prems(2) run(1) by simp
  ultimately show ?case by auto
qed simp

lemma spec_run_keeps_id:
  assumes "spec_run M prev es = (sts, M')" "M l = Some e" "ev_id e = i" "e \<in> S"
    and "list_all2 (\<lambda>p st. st = Written \<longrightarrow> snd p \<noteq> l) es sts"
  shows "has_id M' i \<or> displaced S (fst ` set es) i"
proof (cases "M' l")
  case None
  then show ?thesis using spec_run_removes [OF assms(1,2) None assms(5)] assms(3,4) unfolding displaced_def by blast
next
  case (Some e')
  then have "M' l = Some e" using spec_run_slot [OF assms(1,5)] assms(2) by auto
  then show ?thesis using assms(3) unfolding has_id_def by blast
qed

lemma displaced_mono: "displaced S A i \<Longrightarrow> A \<subseteq> B \<Longrightarrow> displaced S B i"
  by (auto simp: displaced_def)

text \<open>
  Where an event of a batch that is accepted is not in the store and was not displaced, an
  earlier copy in the batch was refused; \<open>R\<close> are the ids that were refused before.
\<close>

lemma spec_run_accepted:
  assumes "spec_run M prev es = (sts, M')" "\<forall>i. prev = Some i \<longrightarrow> has_id M i \<or> i \<in> R"
    and "list_all2 (\<lambda>p st. st = Written \<longrightarrow> M (snd p) = None) es sts"
    and "distinct (map snd (List.filter (\<lambda>x. fst x = Written) (zip sts (map snd es))))"
    and "n < length es" "ran M \<union> fst ` set es \<subseteq> S" "sts ! n \<in> {Written, Duplicate}"
  shows "has_id M' (ev_id (fst (es ! n))) \<or> displaced S (fst ` set (drop (Suc n) es)) (ev_id (fst (es ! n))) \<or>
    ev_id (fst (es ! n)) \<in> R \<or> (\<exists>k<n. ev_id (fst (es ! k)) = ev_id (fst (es ! n)) \<and> sts ! k \<notin> {Written, Duplicate})"
  using assms
proof (induction es arbitrary: M prev sts n R)
  case (Cons p es)
  obtain a lev where p: "p = (a, lev)" by (cases p)
  let ?st = "spec_status M prev a"
  let ?M1 = "if ?st = Written then spec_write lev M a else M"
  obtain sts1 where run: "sts = ?st # sts1" "spec_run ?M1 (Some (ev_id a)) es = (sts1, M')"
    using Cons.prems(1) unfolding p by (rule spec_run_Cons)
  have len: "list_all2 (\<lambda>p st. st = Written \<longrightarrow> M (snd p) = None) es sts1" using Cons.prems(3) run(1) by simp
  have fresh: "list_all2 (\<lambda>q st. st = Written \<longrightarrow> snd q \<noteq> lev) es sts1" if "?st = Written"
  proof -
    have "lev \<notin> snd ` set (List.filter (\<lambda>x. fst x = Written) (zip sts1 (map snd es)))"
      using Cons.prems(4) that by (simp add: run(1) p)
    moreover have "(sts1 ! i, snd (es ! i)) \<in> set (zip sts1 (map snd es))" if "i < length es" for i
      using that list_all2_lengthD [OF len] by (auto simp: set_zip)
    ultimately show ?thesis using list_all2_lengthD [OF len] by (force simp: list_all2_conv_all_nth)
  qed
  have S: "a \<in> S" "ran ?M1 \<union> fst ` set es \<subseteq> S"
    using Cons.prems(6) by (auto simp: p spec_write_def restrict_map_def ran_def split: if_splits)
  have dup: "has_id M (ev_id a) \<or> ev_id a \<in> R" if "?st = Duplicate"
    using that Cons.prems(2) by (auto simp: spec_status_def split: if_splits)
  show ?case
  proof (cases n)
    case 0
    have "has_id M' (ev_id a) \<or> displaced S (fst ` set es) (ev_id a)" if "?st = Written"
    proof -
      have "?M1 lev = Some a" using that by (simp add: spec_write_def)
      from spec_run_keeps_id [OF run(2) this refl S(1) fresh [OF that]] show ?thesis .
    qed
    moreover have "has_id M' (ev_id a) \<or> displaced S (fst ` set es) (ev_id a)" if du: "?st = Duplicate" "has_id M (ev_id a)"
    proof -
      obtain l e where l: "M l = Some e" "ev_id e = ev_id a" using du(2) unfolding has_id_def by blast
      have "list_all2 (\<lambda>q st. st = Written \<longrightarrow> snd q \<noteq> l) es sts1"
        using list_all2_mono [OF len] l(1) by (metis (mono_tags, lifting) option.distinct(1))
      moreover have "e \<in> S" using l(1) Cons.prems(6) by (auto simp: ran_def)
      ultimately show ?thesis
        using spec_run_keeps_id [where S = S, OF run(2) _ l(2)] l(1) du(1) by auto
    qed
    ultimately show ?thesis using Cons.prems(7) dup by (auto simp: 0 run(1) p)
  next
    case (Suc m)
    let ?R = "if ?st \<in> {Written, Duplicate} then R else insert (ev_id a) R"
    have levs: "list_all2 (\<lambda>q st. st = Written \<longrightarrow> ?M1 (snd q) = None) es sts1"
    proof (cases "?st = Written")
      case True
      have "list_all2 (\<lambda>q st. st = Written \<longrightarrow> M (snd q) = None \<and> snd q \<noteq> lev) es sts1"
        using len fresh [OF True] by (auto simp: list_all2_conv_all_nth)
      then show ?thesis by (rule list_all2_mono) (auto simp: spec_write_def restrict_map_def)
    next
      case False
      then show ?thesis using len by simp
    qed
    have dist: "distinct (map snd (List.filter (\<lambda>x. fst x = Written) (zip sts1 (map snd es))))"
      using Cons.prems(4) by (auto simp: run(1) p split: if_splits)
    have "has_id (spec_write lev M a) (ev_id a)" unfolding has_id_def spec_write_def by (intro exI [of _ lev] exI [of _ a]) simp
    then have prev: "\<forall>i. Some (ev_id a) = Some i \<longrightarrow> has_id ?M1 i \<or> i \<in> ?R" using dup by auto
    have m: "m < length es" "sts1 ! m \<in> {Written, Duplicate}" using Cons.prems(5,7) Suc by (simp_all add: run(1))
    from Cons.IH [OF run(2) prev levs dist m(1) S(2) m(2)] have
      "has_id M' (ev_id (fst (es ! m))) \<or> displaced S (fst ` set (drop (Suc m) es)) (ev_id (fst (es ! m))) \<or>
       ev_id (fst (es ! m)) \<in> ?R \<or> (\<exists>k<m. ev_id (fst (es ! k)) = ev_id (fst (es ! m)) \<and> sts1 ! k \<notin> {Written, Duplicate})" .
    then show ?thesis
    proof (elim disjE exE conjE)
      assume "ev_id (fst (es ! m)) \<in> ?R"
      then show ?thesis using exI [of "\<lambda>k. k < Suc m \<and> ev_id (fst ((p # es) ! k)) = ev_id (fst (es ! m)) \<and> sts ! k \<notin> {Written, Duplicate}" 0]
        by (auto simp: Suc p run(1) split: if_splits)
    next
      fix k assume "k < m" "ev_id (fst (es ! k)) = ev_id (fst (es ! m))" "sts1 ! k \<notin> {Written, Duplicate}"
      then show ?thesis using exI [of "\<lambda>k. k < Suc m \<and> ev_id (fst ((p # es) ! k)) = ev_id (fst (es ! m)) \<and> sts ! k \<notin> {Written, Duplicate}" "Suc k"]
        by (simp add: Suc run(1))
    qed (simp_all add: Suc)
  qed
qed simp

text \<open>An id that is new in the store belongs to an event of the batch that was written.\<close>

lemma spec_run_new_id:
  assumes "spec_run M prev es = (sts, M')" "has_id M' i" "\<not> has_id M i"
  shows "\<exists>k<length es. ev_id (fst (es ! k)) = i \<and> sts ! k = Written"
  using assms
proof (induction es arbitrary: M prev sts)
  case (Cons p es)
  obtain e lev where p: "p = (e, lev)" by (cases p)
  let ?st = "spec_status M prev e"
  let ?M1 = "if ?st = Written then spec_write lev M e else M"
  obtain sts1 where run: "sts = ?st # sts1" "spec_run ?M1 (Some (ev_id e)) es = (sts1, M')"
    using Cons.prems(1) unfolding p by (rule spec_run_Cons)
  show ?case
  proof (cases "has_id ?M1 i")
    case True
    then have "?st = Written" "ev_id e = i"
      using Cons.prems(3) by (auto simp: has_id_def spec_write_def restrict_map_def split: if_splits)
    then show ?thesis by (intro exI [of _ 0]) (simp add: p run(1))
  next
    case False
    from Cons.IH [OF run(2) Cons.prems(2) this] obtain k where "k < length es" "ev_id (fst (es ! k)) = i" "sts1 ! k = Written" by blast
    then show ?thesis by (intro exI [of _ "Suc k"]) (simp add: run(1))
  qed
qed simp

section \<open>The writer answers every event\<close>

abbreviation msg_promise :: "msg_writer \<Rightarrow> nat option" where
  "msg_promise m \<equiv> snd (msg_reply m)"

fun is_add :: "msg_writer \<Rightarrow> bool" where
  "is_add (WrAddEvent _ _ _ _ _) = True"
| "is_add (WrCloseConn _) = False"

fun msg_packed :: "msg_writer \<Rightarrow> string" where
  "msg_packed (WrAddEvent _ _ packedStr _ _) = packedStr"
| "msg_packed (WrCloseConn _) = []"

fun ev_of :: "nat \<times> msg_writer \<Rightarrow> event_to_write" where
  "ev_of (k, WrAddEvent _ _ packedStr jsonStr _) = EventToWrite packedStr jsonStr (Some k)"
| "ev_of (k, WrCloseConn _) = EventToWrite [] [] None"

text \<open>
  What the ingester hands over: the packed form of an event, and a text that parses.  \<open>ev\<close>
  tells which event a message is about.
\<close>

fun good_msg :: "lib \<Rightarrow> (msg_writer \<Rightarrow> event) \<Rightarrow> msg_writer \<Rightarrow> bool" where
  "good_msg L ev (WrAddEvent c ip packedStr jsonStr pr) \<longleftrightarrow>
     (let e = ev (WrAddEvent c ip packedStr jsonStr pr) in packedStr = pack_event L e \<and> wf_event e \<and> full_refs e) \<and>
     (\<exists>v. json_from_string L jsonStr = Inr v)"
| "good_msg L ev (WrCloseConn _) \<longleftrightarrow> True"

definition hex_id :: "lib \<Rightarrow> msg_writer \<Rightarrow> string" where
  "hex_id L m = to_hex L (packed_id (msg_packed m))"

text \<open>Each promise belongs to one message and has no value yet.\<close>

definition fresh_promises :: "relay \<Rightarrow> msg_writer list \<Rightarrow> bool" where
  "fresh_promises rl ms \<longleftrightarrow> (\<forall>m\<in>set ms. \<forall>p. msg_promise m = Some p \<longrightarrow> promises rl p = None) \<and>
     sorted_wrt (\<lambda>m m'. msg_promise m \<noteq> None \<longrightarrow> msg_promise m \<noteq> msg_promise m') ms"

lemma msg_promise_add: "msg_promise m = Some p \<Longrightarrow> is_add m"
  by (cases m) simp_all

lemma fresh_promises_Cons:
  "fresh_promises rl (m # ms) \<longleftrightarrow> (\<forall>p. msg_promise m = Some p \<longrightarrow> promises rl p = None \<and> (\<forall>m'\<in>set ms. msg_promise m' \<noteq> Some p)) \<and>
     fresh_promises rl ms"
  by (auto simp: fresh_promises_def)

lemma fresh_promises_frame:
  assumes "fresh_promises rl ms" "\<And>p. promises rl' p \<noteq> promises rl p \<Longrightarrow> \<forall>m\<in>set ms. msg_promise m \<noteq> Some p"
  shows "fresh_promises rl' ms"
  using assms unfolding fresh_promises_def by metis

lemma promises_send [simp]: "promises (sendOKResponse L c i b m rl) = promises rl"
  by (simp add: sendOKResponse_def sendToConn_def)

lemma set_value_opt_Inr:
  assumes "\<And>p. pr = Some p \<Longrightarrow> promises rl p = None"
  obtains rl' where "set_value_opt pr ok m i rl = Inr rl'"
    "promises rl' = (case pr of None \<Rightarrow> promises rl
       | Some p \<Rightarrow> (promises rl)(p \<mapsto> \<lparr>pr_success = ok, pr_message = m, pr_eventId = i\<rparr>))"
  using assms by (cases pr) (simp_all add: set_value_opt_def set_value_def)

text \<open>
  What can become of an event: the plugin turned it down, or the store gave it a status.  The
  two answers for each: the flag and the text of the OK message, and the result of the HTTP
  request.
\<close>

datatype outcome = Blocked sifter_result string | Stored write_status

fun ok_flag :: "outcome \<Rightarrow> bool" where
  "ok_flag (Blocked res t) \<longleftrightarrow> res = ShadowReject"
| "ok_flag (Stored st) \<longleftrightarrow> st \<in> {Written, Duplicate}"

fun ok_text :: "outcome \<Rightarrow> string" where
  "ok_text (Blocked res t) = t"
| "ok_text (Stored st) = (if st = Duplicate then ''duplicate: have this event''
     else if st = Replaced then ''replaced: have newer event''
     else if st = Deleted then ''deleted: user requested deletion'' else [])"

fun http_success :: "outcome \<Rightarrow> bool" where
  "http_success (Blocked res t) \<longleftrightarrow> False"
| "http_success (Stored st) \<longleftrightarrow> st \<in> {Written, Duplicate}"

fun http_text :: "outcome \<Rightarrow> string" where
  "http_text (Blocked res t) = (if t = [] then ''blocked by write policy'' else t)"
| "http_text (Stored st) = ok_text (Stored st)"

text \<open>The OK message for a message with its outcome, and the promise kept.\<close>

definition ok_sent :: "lib \<Rightarrow> msg_writer \<times> outcome \<Rightarrow> msg_websocket" where
  "ok_sent L x = WsSend (fst (msg_reply (fst x)))
     (json_to_string L (JArray [JString ''OK'', JString (hex_id L (fst x)), JBool (ok_flag (snd x)), JString (ok_text (snd x))]))"

definition promise_kept :: "lib \<Rightarrow> relay \<Rightarrow> msg_writer \<times> outcome \<Rightarrow> bool" where
  "promise_kept L rl x \<longleftrightarrow> (\<forall>p. msg_promise (fst x) = Some p \<longrightarrow>
     promises rl p = Some \<lparr>pr_success = http_success (snd x), pr_message = http_text (snd x), pr_eventId = hex_id L (fst x)\<rparr>)"

text \<open>What the plugin said about the event of a message, in some state of the plugin.\<close>

fun plugin_said :: "lib \<Rightarrow> 'p sifter_fun \<Rightarrow> msg_writer \<Rightarrow> sifter_result \<Rightarrow> string \<Rightarrow> bool" where
  "plugin_said L ask (WrAddEvent c ip packedStr jsonStr pr) res t \<longleftrightarrow>
     (\<exists>v sf sf'. json_from_string L jsonStr = Inr v \<and> ask v (if length ip = 4 then Src_IP4 else Src_IP6) ip sf = ((res, t), sf'))"
| "plugin_said L ask (WrCloseConn c) res t \<longleftrightarrow> False"

definition send_answers :: "lib \<Rightarrow> (msg_writer \<times> outcome) list \<Rightarrow> msg_websocket thread_pool \<Rightarrow> msg_websocket thread_pool" where
  "send_answers L ocs pool = foldl (\<lambda>pool x. dispatch 0 (ok_sent L x) pool) pool ocs"

lemma send_answers_simps [simp]:
  "send_answers L [] pool = pool" "send_answers L (x # ocs) pool = send_answers L ocs (dispatch 0 (ok_sent L x) pool)"
  "send_answers L (ocs @ ocs') pool = send_answers L ocs' (send_answers L ocs pool)"
  by (simp_all add: send_answers_def)


text \<open>
  After the plugin has been asked: the events it let through, and a negative verdict for each
  of the others.
\<close>

definition prepared ::
    "'db relay_params \<Rightarrow> 'p sifter_fun \<Rightarrow> (nat \<times> msg_writer) list \<Rightarrow> relay \<Rightarrow> relay \<Rightarrow> (nat \<times> msg_writer) list \<Rightarrow> ((nat \<times> msg_writer) \<times> outcome) list \<Rightarrow> bool" where
  "prepared P ask xs rl rl' qs bs \<longleftrightarrow> subseq qs xs \<and>
     mset qs + mset (map fst bs) = mset (List.filter (\<lambda>x. is_add (snd x)) xs) \<and>
     (\<forall>q\<in>set qs. \<exists>t. plugin_said (rp_lib P) ask (snd q) Accept t) \<and>
     (\<forall>(x, oc)\<in>set bs. promise_kept (rp_lib P) rl' (snd x, oc) \<and>
        (\<exists>res t. oc = Blocked res t \<and> res \<noteq> Accept \<and> plugin_said (rp_lib P) ask (snd x) res t)) \<and>
     tpWebsocket rl' = send_answers (rp_lib P) (map (\<lambda>(x, oc). (snd x, oc)) bs) (tpWebsocket rl) \<and>
     (\<forall>p. (\<forall>x\<in>set xs - set qs. msg_promise (snd x) \<noteq> Some p) \<longrightarrow> promises rl' p = promises rl p)"

lemma set_value_opt_ws: "set_value_opt pr ok m i rl = Inr rl' \<Longrightarrow> tpWebsocket rl' = tpWebsocket rl"
  by (auto simp: set_value_opt_def set_value_def split: option.splits if_splits)

lemma prepare_spec:
  assumes "sv_codec (rp_lib P)" "\<forall>x\<in>set xs. good_msg (rp_lib P) ev (snd x)" "fresh_promises rl (map snd xs)" "distinct xs"
  shows "\<exists>rl' sf' qs bs. foldE (prepare_one P ask) xs (rl, sf, evs) = Inr (rl', sf', evs @ map ev_of qs) \<and> prepared P ask xs rl rl' qs bs"
  using assms(2-4)
proof (induction xs arbitrary: rl sf evs)
  case Nil
  then show ?case by (intro exI [of _ rl] exI [of _ sf] exI [of _ "[]"]) (simp add: prepared_def)
next
  case (Cons x xs)
  obtain n m where x: "x = (n, m)" by (cases x)
  have IH: "\<exists>rl' sf' qs bs. foldE (prepare_one P ask) xs (rl1, sf1, evs1) = Inr (rl', sf', evs1 @ map ev_of qs) \<and> prepared P ask xs rl1 rl' qs bs"
    if "fresh_promises rl1 (map snd xs)" for rl1 sf1 evs1
    using Cons.IH [OF _ that] Cons.prems(1,3) by simp
  have new: "x \<notin> set xs" using Cons.prems(3) by simp
  have fresh: "fresh_promises rl (map snd xs)" using Cons.prems(2) by (simp add: fresh_promises_Cons)
  show ?case
  proof (cases m)
    case (WrCloseConn c)
    obtain rl' sf' qs bs where r: "foldE (prepare_one P ask) xs (rl, sf, evs) = Inr (rl', sf', evs @ map ev_of qs)" "prepared P ask xs rl rl' qs bs"
      using IH [OF fresh] by blast
    then have "prepared P ask (x # xs) rl rl' qs bs" by (auto simp: prepared_def x WrCloseConn)
    then show ?thesis using r(1) by (intro exI [of _ rl'] exI [of _ sf'] exI [of _ qs] exI [of _ bs]) (simp add: x WrCloseConn)
  next
    case (WrAddEvent c ip packedStr jsonStr pr)
    obtain e v where e: "packedStr = pack_event (rp_lib P) e" "wf_event e" "json_from_string (rp_lib P) jsonStr = Inr v"
      using Cons.prems(1) by (auto simp: x WrAddEvent Let_def)
    obtain res okMsg sf1 where ask: "ask v (if length ip = 4 then Src_IP4 else Src_IP6) ip sf = ((res, okMsg), sf1)"
      by (metis prod.exhaust)
    have said: "plugin_said (rp_lib P) ask (snd x) res okMsg"
      using e(3) ask unfolding x WrAddEvent snd_conv plugin_said.simps by blast
    note view = sv_codec.packed_fields_event [OF assms(1) e(2)]
    show ?thesis
    proof (cases "res = Accept")
      case True
      obtain rl' sf' qs bs where r: "foldE (prepare_one P ask) xs (rl, sf1, evs @ [ev_of x]) = Inr (rl', sf', (evs @ [ev_of x]) @ map ev_of qs)"
        "prepared P ask xs rl rl' qs bs" using IH [OF fresh] by blast
      have "prepare_one P ask x (rl, sf, evs) = Inr (rl, sf1, evs @ [ev_of x])"
        using ask True by (simp add: x WrAddEvent e(3) Let_def)
      moreover have "set (x # xs) - set (x # qs) = set xs - set qs" using new by auto
      then have "prepared P ask (x # xs) rl rl' (x # qs) bs" using r(2) said True unfolding prepared_def by (auto simp: x WrAddEvent)
      ultimately show ?thesis using r(1) by (intro exI [of _ rl'] exI [of _ sf'] exI [of _ "x # qs"] exI [of _ bs]) simp
    next
      case False
      let ?hex = "to_hex (rp_lib P) (packed_id packedStr)" and ?m = "if okMsg = [] then ''blocked by write policy'' else okMsg"
      have unset: "pr = Some p \<Longrightarrow> promises rl p = None" for p
        using Cons.prems(2) by (simp add: fresh_promises_Cons x WrAddEvent)
      obtain rl0 where rl0: "set_value_opt pr False ?m ?hex rl = Inr rl0"
        "promises rl0 = (case pr of None \<Rightarrow> promises rl
           | Some p \<Rightarrow> (promises rl)(p \<mapsto> \<lparr>pr_success = False, pr_message = ?m, pr_eventId = ?hex\<rparr>))"
        using set_value_opt_Inr [of pr rl False ?m ?hex, OF unset] by blast
      let ?rl1 = "sendOKResponse (rp_lib P) c ?hex (res = ShadowReject) okMsg rl0" and ?b = "(x, Blocked res okMsg)"
      have step: "prepare_one P ask x (rl, sf, evs) = Inr (?rl1, sf1, evs)"
        using ask False rl0(1) by (simp add: x WrAddEvent e(3) e(1) view Let_def)
      have ws: "tpWebsocket ?rl1 = dispatch 0 (ok_sent (rp_lib P) (snd x, Blocked res okMsg)) (tpWebsocket rl)"
        using set_value_opt_ws [OF rl0(1)] by (simp add: sendOKResponse_def sendToConn_def ok_sent_def x WrAddEvent hex_id_def)
      have mine: "\<forall>m'\<in>set (map snd xs). msg_promise m' \<noteq> Some p" if "pr = Some p" for p
        using Cons.prems(2) that by (simp add: fresh_promises_Cons x WrAddEvent)
      have "fresh_promises ?rl1 (map snd xs)"
        by (rule fresh_promises_frame [OF fresh]) (use mine in \<open>auto simp: rl0(2) split: option.splits if_splits\<close>)
      then obtain rl' sf' qs bs where r: "foldE (prepare_one P ask) xs (?rl1, sf1, evs) = Inr (rl', sf', evs @ map ev_of qs)" "prepared P ask xs ?rl1 rl' qs bs"
        using IH by blast
      have frame: "promises rl' p = promises ?rl1 p" if "\<forall>x\<in>set xs - set qs. msg_promise (snd x) \<noteq> Some p" for p
        using r(2) that unfolding prepared_def by blast
      have "promises rl' p = promises rl0 p" if "pr = Some p" for p using frame mine [OF that] by auto
      then have kept: "promise_kept (rp_lib P) rl' (snd x, Blocked res okMsg)"
        by (auto simp: promise_kept_def x WrAddEvent rl0(2) hex_id_def)
      have "subseq qs xs" using r(2) by (simp add: prepared_def)
      have "x \<notin> set qs"
      proof
        assume "x \<in> set qs"
        then obtain y where "y \<in> set xs" "x = y" by (rule list_emb_set [OF \<open>subseq qs xs\<close>])
        then show False using new by simp
      qed
      have old: "promises rl' p = promises rl p" if y: "\<forall>y\<in>set (x # xs) - set qs. msg_promise (snd y) \<noteq> Some p" for p
      proof -
        have "msg_promise (snd x) \<noteq> Some p" using y \<open>x \<notin> set qs\<close> by simp
        then have "pr \<noteq> Some p" by (simp add: x WrAddEvent)
        then show ?thesis using frame [of p] y by (simp add: rl0(2) split: option.split)
      qed
      have "prepared P ask (x # xs) rl rl' qs (?b # bs)" unfolding prepared_def
      proof (intro conjI)
        show "subseq qs (x # xs)" using \<open>subseq qs xs\<close> by (rule list_emb_Cons)
        show "mset qs + mset (map fst (?b # bs)) = mset (List.filter (\<lambda>x. is_add (snd x)) (x # xs))"
          using r(2) by (simp add: prepared_def x WrAddEvent)
        show "\<forall>q\<in>set qs. \<exists>t. plugin_said (rp_lib P) ask (snd q) Accept t" using r(2) by (simp add: prepared_def)
        show "\<forall>(y, oc)\<in>set (?b # bs). promise_kept (rp_lib P) rl' (snd y, oc) \<and>
            (\<exists>res t. oc = Blocked res t \<and> res \<noteq> Accept \<and> plugin_said (rp_lib P) ask (snd y) res t)"
          using r(2) kept said False by (simp add: prepared_def)
        show "tpWebsocket rl' = send_answers (rp_lib P) (map (\<lambda>(x, oc). (snd x, oc)) (?b # bs)) (tpWebsocket rl)"
          using r(2) ws by (simp add: prepared_def)
        show "\<forall>p. (\<forall>y\<in>set (x # xs) - set qs. msg_promise (snd y) \<noteq> Some p) \<longrightarrow> promises rl' p = promises rl p" using old by blast
      qed
      then show ?thesis using r(1) step by (intro exI [of _ rl'] exI [of _ sf'] exI [of _ qs] exI [of _ "?b # bs"]) simp
    qed
  qed
qed

text \<open>The verdicts on the events of a transaction.\<close>

definition reported :: "lib \<Rightarrow> (event_to_write \<Rightarrow> bool \<times> bool \<times> string) \<Rightarrow> event_to_write \<Rightarrow> process_result" where
  "reported L verdict ev = \<lparr>pr_success = fst (verdict ev), pr_message = snd (snd (verdict ev)),
     pr_eventId = to_hex L (packed_id (ew_packedStr ev))\<rparr>"

definition ev_promise :: "msg_writer list \<Rightarrow> event_to_write \<Rightarrow> nat option" where
  "ev_promise msgs ev = (case ew_userData ev of None \<Rightarrow> None | Some k \<Rightarrow> msg_promise (msgs ! k))"

definition report_sent :: "lib \<Rightarrow> msg_writer list \<Rightarrow> (event_to_write \<Rightarrow> bool \<times> bool \<times> string) \<Rightarrow> event_to_write \<Rightarrow> msg_websocket" where
  "report_sent L msgs verdict ev = WsSend (fst (msg_reply (msgs ! the (ew_userData ev))))
     (json_to_string L (JArray [JString ''OK'', JString (to_hex L (packed_id (ew_packedStr ev))),
        JBool (fst (snd (verdict ev))), JString (snd (snd (verdict ev)))]))"

lemma report_spec:
  assumes "sv_codec (rp_lib P)"
    and "\<forall>ev\<in>set evs. \<exists>e k. ew_packedStr ev = pack_event (rp_lib P) e \<and> wf_event e \<and> ew_userData ev = Some k \<and> k < length msgs"
    and "sorted_wrt (\<lambda>ev ev'. ev_promise msgs ev \<noteq> None \<longrightarrow> ev_promise msgs ev \<noteq> ev_promise msgs ev') evs"
    and "\<forall>ev\<in>set evs. \<forall>p. ev_promise msgs ev = Some p \<longrightarrow> promises rl p = None"
  shows "\<exists>rl'. foldE (report P msgs verdict) evs rl = Inr rl' \<and>
    (\<forall>ev\<in>set evs. \<forall>p. ev_promise msgs ev = Some p \<longrightarrow> promises rl' p = Some (reported (rp_lib P) verdict ev)) \<and>
    (\<forall>p. (\<forall>ev\<in>set evs. ev_promise msgs ev \<noteq> Some p) \<longrightarrow> promises rl' p = promises rl p) \<and>
    tpWebsocket rl' = foldl (\<lambda>pool ev. dispatch 0 (report_sent (rp_lib P) msgs verdict ev) pool) (tpWebsocket rl) evs"
  using assms(2-4)
proof (induction evs arbitrary: rl)
  case (Cons ev evs)
  obtain e k where ev: "ew_packedStr ev = pack_event (rp_lib P) e" "wf_event e" "ew_userData ev = Some k" "k < length msgs"
    using Cons.prems(1) by auto
  obtain c pr where m: "msg_reply (msgs ! k) = (c, pr)" by (cases "msg_reply (msgs ! k)")
  obtain ok wr msg where v: "verdict ev = (ok, wr, msg)" by (rule prod_cases3)
  let ?hex = "to_hex (rp_lib P) (packed_id (ew_packedStr ev))"
  have pr: "ev_promise msgs ev = pr" by (simp add: ev_promise_def ev(3) m)
  obtain rl0 where rl0: "set_value_opt pr ok msg ?hex rl = Inr rl0"
    "promises rl0 = (case pr of None \<Rightarrow> promises rl | Some p \<Rightarrow> (promises rl)(p \<mapsto> reported (rp_lib P) verdict ev))"
  proof -
    have unset: "\<And>p. pr = Some p \<Longrightarrow> promises rl p = None" using Cons.prems(3) by (simp add: pr)
    have "reported (rp_lib P) verdict ev = \<lparr>pr_success = ok, pr_message = msg, pr_eventId = ?hex\<rparr>" by (simp add: reported_def v)
    with set_value_opt_Inr [of pr rl ok msg ?hex, OF unset] that show thesis by metis
  qed
  let ?rl1 = "sendOKResponse (rp_lib P) c ?hex wr msg rl0"
  have step: "report P msgs verdict ev rl = Inr ?rl1"
    using sv_codec.packed_fields_event [OF assms(1) ev(2)] rl0(1)
    by (simp add: report_def reply_to_def ev m v Let_def)
  have mine: "ev_promise msgs ev' \<noteq> Some p" if "pr = Some p" "ev' \<in> set evs" for p ev'
    using Cons.prems(2) that by (auto simp: pr)
  have "\<forall>ev\<in>set evs. \<forall>p. ev_promise msgs ev = Some p \<longrightarrow> promises ?rl1 p = None"
    using Cons.prems(3) mine by (auto simp: rl0(2) split: option.splits)
  then obtain rl' where rl': "foldE (report P msgs verdict) evs ?rl1 = Inr rl'"
    "\<forall>ev\<in>set evs. \<forall>p. ev_promise msgs ev = Some p \<longrightarrow> promises rl' p = Some (reported (rp_lib P) verdict ev)"
    "\<forall>p. (\<forall>ev\<in>set evs. ev_promise msgs ev \<noteq> Some p) \<longrightarrow> promises rl' p = promises ?rl1 p"
    "tpWebsocket rl' = foldl (\<lambda>pool ev. dispatch 0 (report_sent (rp_lib P) msgs verdict ev) pool) (tpWebsocket ?rl1) evs"
    using Cons.IH [of ?rl1] Cons.prems(1,2) by auto
  have "promises rl' p = Some (reported (rp_lib P) verdict ev)" if "pr = Some p" for p
    using rl'(3) mine [OF that] that by (auto simp: rl0(2))
  moreover have "promises rl' p = promises rl p" if "\<forall>x\<in>set (ev # evs). ev_promise msgs x \<noteq> Some p" for p
    using rl'(3) that by (auto simp: rl0(2) pr split: option.splits)
  moreover have "tpWebsocket ?rl1 = dispatch 0 (report_sent (rp_lib P) msgs verdict ev) (tpWebsocket rl)"
    using set_value_opt_ws [OF rl0(1)] by (simp add: sendOKResponse_def sendToConn_def report_sent_def ev(3) m v)
  ultimately show ?case using rl'(1,2,4) step pr by (intro exI [of _ rl']) auto
qed simp

lemma fresh_promises_nth:
  assumes "fresh_promises rl ms" "k < length ms" "k' < length ms" "k \<noteq> k'" "msg_promise (ms ! k) = Some p"
  shows "msg_promise (ms ! k') \<noteq> Some p"
proof (cases "k < k'")
  case True
  with assms show ?thesis unfolding fresh_promises_def sorted_wrt_iff_nth_less by (metis option.distinct(1))
next
  case False
  then have "k' < k" using assms(4) by simp
  with assms show ?thesis unfolding fresh_promises_def sorted_wrt_iff_nth_less by (metis option.distinct(1))
qed

lemma fresh_promises_sub: "fresh_promises rl ms \<Longrightarrow> fresh_promises rl (List.filter Q ms)"
  by (auto simp: fresh_promises_def intro: sorted_wrt_filter)

lemma drop_closed_sub: "set (drop_closed ms) \<subseteq> set ms" "fresh_promises rl ms \<Longrightarrow> fresh_promises rl (drop_closed ms)"
  "length (drop_closed ms) \<le> length ms"
  by (auto simp: drop_closed_def fresh_promises_sub)

fun msg_json :: "msg_writer \<Rightarrow> string" where
  "msg_json (WrAddEvent _ _ _ jsonStr _) = jsonStr"
| "msg_json (WrCloseConn _) = []"

lemma good_msg_event:
  assumes "good_msg L ev m" "is_add m"
  shows "msg_packed m = pack_event L (ev m)" "wf_event (ev m)" "full_refs (ev m)"
  using assms by (cases m; simp add: Let_def)+

definition batch_of :: "(msg_writer \<Rightarrow> event) \<Rightarrow> (nat \<times> msg_writer) list \<Rightarrow> (event \<times> string \<times> nat option) list" where
  "batch_of ev qs = map (\<lambda>q. (ev (snd q), msg_json (snd q), Some (fst q))) qs"

lemma ev_of_to_write:
  assumes "\<forall>q\<in>set qs. good_msg L ev (snd q) \<and> is_add (snd q)"
  shows "map ev_of qs = map (to_write L) (batch_of ev qs)"
proof -
  have "ev_of q = to_write L (ev (snd q), msg_json (snd q), Some (fst q))" if "q \<in> set qs" for q
  proof (cases q)
    case (Pair k m)
    then show ?thesis using that assms good_msg_event(1) [of L ev m] by (cases m) (auto simp: to_write_def)
  qed
  then show ?thesis by (simp add: batch_of_def)
qed


lemma zip_written:
  "map snd (List.filter (\<lambda>x. fst x = st) (zip (map f evs) (map g evs))) = map g (List.filter (\<lambda>ev. f ev = st) evs)"
  by (induction evs) auto

lemma batch_order_perm: "mset (batch_order xs) = mset xs" "set (batch_order xs) = set xs"
  "length (batch_order xs) = length xs" "distinct (map f (batch_order xs)) \<longleftrightarrow> distinct (map f xs)"
proof -
  show m: "mset (batch_order xs) = mset xs" by (simp add: batch_order_def)
  show "set (batch_order xs) = set xs" "length (batch_order xs) = length xs" by (simp_all add: batch_order_def)
  have "mset (map f (batch_order xs)) = mset (map f xs)" using m by simp
  then show "distinct (map f (batch_order xs)) \<longleftrightarrow> distinct (map f xs)" by (rule mset_eq_imp_distinct_iff)
qed

text \<open>The events of \<open>A\<close> that come no earlier than \<open>e\<close> in the order of a batch.\<close>

definition later :: "event \<Rightarrow> event set \<Rightarrow> event set" where
  "later e A = {a \<in> A. (ev_created_at e, ev_id e) \<le> (ev_created_at a, ev_id a)}"

lemma batch_order_later:
  assumes "j < i" "i < length xs"
  shows "(ev_created_at (fst (batch_order xs ! j)), ev_id (fst (batch_order xs ! j))) \<le>
    (ev_created_at (fst (batch_order xs ! i)), ev_id (fst (batch_order xs ! i)))"
proof -
  let ?f = "\<lambda>x :: event \<times> _. (ev_created_at (fst x), ev_id (fst x))"
  have "sorted (map ?f (batch_order xs))" by (simp add: batch_order_def)
  then show ?thesis using assms batch_order_perm(3) [of xs] by (simp add: sorted_iff_nth_mono)
qed

context event_env
begin

lemma writeEvents_settled:
  assumes "freshenCache E L db cache = Inr cache'" "holds E L tree_items (fc_filters cache') db M" "consistent M"
    and wf: "\<And>x. x \<in> set xs \<Longrightarrow> wf_event (fst x) \<and> full_refs (fst x)" and "lev_max E db + length xs < 2 ^ 64"
    and S: "ran M \<union> fst ` set xs \<subseteq> S"
  obtains evs db' M' where "writeEvents E L cache (map (to_write L) xs) db = Inr (evs, db', cache')"
    "holds E L tree_items (fc_filters cache') db' M'" "consistent M'"
    "list_all2 (\<lambda>x ev. ew_packedStr ev = pack_event L (fst x) \<and> ew_userData ev = snd (snd x)) (batch_order xs) evs"
    "\<forall>n<length evs. ew_status (evs ! n) \<in> {Written, Duplicate} \<longrightarrow> has_id M' (ev_id (fst (batch_order xs ! n))) \<or>
       displaced S (fst ` set (drop (Suc n) (batch_order xs))) (ev_id (fst (batch_order xs ! n))) \<or>
       (\<exists>k<n. ev_id (fst (batch_order xs ! k)) = ev_id (fst (batch_order xs ! n)) \<and> ew_status (evs ! k) \<notin> {Written, Duplicate})"
    "\<forall>i. has_id M' i \<longrightarrow> has_id M i \<or> (\<exists>k<length evs. ev_id (fst (batch_order xs ! k)) = i \<and> ew_status (evs ! k) = Written)"
proof -
  obtain evs db' M' where run: "writeEvents E L cache (map (to_write L) xs) db = Inr (evs, db', cache')"
    "spec_run M None (zip (map fst (batch_order xs)) (map ew_levId evs)) = (map ew_status evs, M')"
    "holds E L tree_items (fc_filters cache') db' M'" "consistent M'"
    "list_all2 (\<lambda>x ev. ew_packedStr ev = pack_event L (fst x) \<and> ew_jsonStr ev = fst (snd x) \<and>
      ew_userData ev = snd (snd x) \<and> (ew_status ev = Written \<longrightarrow> stored E db db' M' x ev)) (batch_order xs) evs"
    "distinct (map ew_levId (List.filter (\<lambda>ev. ew_status ev = Written) evs))"
    by (rule writeEvents_correct [OF assms(1-3) wf assms(5)])
  let ?es = "zip (map fst (batch_order xs)) (map ew_levId evs)"
  have len: "length evs = length xs" using list_all2_lengthD [OF run(5)] by (simp add: batch_order_perm)
  have es: "map fst ?es = map fst (batch_order xs)" "map snd ?es = map ew_levId evs" "length ?es = length xs"
    using len by (simp_all add: batch_order_perm)
  have at: "fst (?es ! k) = fst (batch_order xs ! k)" if "k < length evs" for k using that len by (simp add: batch_order_perm)
  have A: "fst ` set ?es = fst ` set xs" using arg_cong [OF es(1), of set] by (simp add: batch_order_perm)
  have new: "list_all2 (\<lambda>p st. st = Written \<longrightarrow> M (snd p) = None) ?es (map ew_status evs)"
  proof -
    have "M (ew_levId (evs ! i)) = None" if "i < length evs" "ew_status (evs ! i) = Written" for i
    proof (rule ccontr)
      assume "M (ew_levId (evs ! i)) \<noteq> None"
      then have "ew_levId (evs ! i) \<in> dom (lookup_Event E db)" using assms(2) by (auto simp: holds_def)
      then have "unat (ew_levId (evs ! i)) \<le> lev_max E db"
        unfolding lev_max_def by (intro Max_ge) (auto simp: finite_events)
      moreover have "stored E db db' M' (batch_order xs ! i) (evs ! i)" using list_all2_nthD2 [OF run(5)] that by blast
      ultimately show False by (simp add: stored_def)
    qed
    then show ?thesis using len by (auto simp: list_all2_conv_all_nth batch_order_perm)
  qed
  have levs: "distinct (map snd (List.filter (\<lambda>x. fst x = Written) (zip (map ew_status evs) (map snd ?es))))"
    unfolding es(2) zip_written by (rule run(6))
  have each: "has_id M' (ev_id (fst (batch_order xs ! n))) \<or> displaced S (fst ` set (drop (Suc n) (batch_order xs))) (ev_id (fst (batch_order xs ! n))) \<or>
     (\<exists>k<n. ev_id (fst (batch_order xs ! k)) = ev_id (fst (batch_order xs ! n)) \<and> ew_status (evs ! k) \<notin> {Written, Duplicate})"
    if n: "n < length evs" "ew_status (evs ! n) \<in> {Written, Duplicate}" for n
  proof -
    have "n < length ?es" "map ew_status evs ! n \<in> {Written, Duplicate}" "ran M \<union> fst ` set ?es \<subseteq> S" using n es(3) len S by (simp_all add: A)
    from spec_run_accepted [OF run(2) _ new levs this(1,3,2), of "{}"] have
      "has_id M' (ev_id (fst (?es ! n))) \<or> displaced S (fst ` set (drop (Suc n) ?es)) (ev_id (fst (?es ! n))) \<or>
       (\<exists>k<n. ev_id (fst (?es ! k)) = ev_id (fst (?es ! n)) \<and> map ew_status evs ! k \<notin> {Written, Duplicate})" by simp
    moreover have "fst ` set (drop (Suc n) ?es) = fst ` set (drop (Suc n) (batch_order xs))"
    proof -
      have "map fst (drop (Suc n) ?es) = map fst (drop (Suc n) (batch_order xs))" unfolding drop_map [symmetric] es(1) ..
      from arg_cong [OF this, of set] show ?thesis by simp
    qed
    moreover have "(\<exists>k<n. ev_id (fst (?es ! k)) = ev_id (fst (?es ! n)) \<and> map ew_status evs ! k \<notin> {Written, Duplicate}) \<longleftrightarrow>
        (\<exists>k<n. ev_id (fst (batch_order xs ! k)) = ev_id (fst (batch_order xs ! n)) \<and> ew_status (evs ! k) \<notin> {Written, Duplicate})"
      by (rule ex_cong1, rule conj_cong, rule refl) (use n(1) at in simp)
    ultimately show ?thesis unfolding at [OF n(1)] by simp
  qed
  have ids: "has_id M i \<or> (\<exists>k<length evs. ev_id (fst (batch_order xs ! k)) = i \<and> ew_status (evs ! k) = Written)" if "has_id M' i" for i
  proof (cases "has_id M i")
    case False
    from spec_run_new_id [OF run(2) \<open>has_id M' i\<close> this] obtain k where
      k: "k < length ?es" "ev_id (fst (?es ! k)) = i" "map ew_status evs ! k = Written" by blast
    then have "k < length evs" using es(3) len by simp
    then show ?thesis using k(2,3) at by auto
  qed simp
  show thesis
  proof (rule that [OF run(1,3,4)])
    show "list_all2 (\<lambda>x ev. ew_packedStr ev = pack_event L (fst x) \<and> ew_userData ev = snd (snd x)) (batch_order xs) evs"
      using run(5) by (rule list_all2_mono) blast
  qed (use each ids in blast)+
qed

end

text \<open>
  The round as a whole.  Every event that is still there after the events of closed connections
  were dropped has its outcome, and the outcome says what became of the event: a positive one
  that it is in the store, or was displaced by another event of the batch that comes no earlier,
  or that a copy of it in the same batch was refused; a negative one that the round did not put
  it there, unless as another copy.
\<close>

definition outcome_true ::
    "(msg_writer \<Rightarrow> event) \<Rightarrow> msg_writer list \<Rightarrow> store \<Rightarrow> store \<Rightarrow> (msg_writer \<times> outcome) list \<Rightarrow> msg_writer \<times> outcome \<Rightarrow> bool" where
  "outcome_true ev msgs M M' ocs x \<longleftrightarrow>
     (if http_success (snd x)
      then has_id M' (ev_id (ev (fst x))) \<or>
        displaced (ran M \<union> ev ` set msgs) (later (ev (fst x)) (ev ` set (remove1 (fst x) (List.filter is_add msgs)))) (ev_id (ev (fst x))) \<or>
        (\<exists>m' st. (m', Stored st) \<in> set ocs \<and> ev_id (ev m') = ev_id (ev (fst x)) \<and> st \<notin> {Written, Duplicate})
      else has_id M' (ev_id (ev (fst x))) \<longrightarrow> has_id M (ev_id (ev (fst x))) \<or>
        (\<exists>m'. (m', Stored Written) \<in> set ocs \<and> ev_id (ev m') = ev_id (ev (fst x))))"

fun plugin_verdict :: "lib \<Rightarrow> 'p sifter_fun \<Rightarrow> msg_writer \<times> outcome \<Rightarrow> bool" where
  "plugin_verdict L ask (m, Blocked res t) \<longleftrightarrow> res \<noteq> Accept \<and> plugin_said L ask m res t"
| "plugin_verdict L ask (m, Stored st) \<longleftrightarrow> (\<exists>t. plugin_said L ask m Accept t)"

definition stored_outcome :: "msg_writer list \<Rightarrow> event_to_write \<Rightarrow> msg_writer \<times> outcome" where
  "stored_outcome msgs w = (msgs ! the (ew_userData w), Stored (ew_status w))"

lemma status_verdict_outcome: "status_verdict st = (http_success (Stored st), ok_flag (Stored st), ok_text (Stored st))"
  by (cases st) simp_all

lemma enumerate_mem: "(k, m) \<in> set (enumerate 0 ms) \<longleftrightarrow> k < length ms \<and> ms ! k = m"
  by (auto simp: in_set_enumerate_eq)

lemma remove1_other: "i < length xs \<Longrightarrow> j < length xs \<Longrightarrow> i \<noteq> j \<Longrightarrow> xs ! i \<in> set (remove1 (xs ! j) xs)"
proof (induction xs arbitrary: i j)
  case (Cons x xs)
  show ?case
  proof (cases j)
    case 0
    then show ?thesis using Cons.prems by (cases i) simp_all
  next
    case (Suc j')
    then show ?thesis using Cons by (cases i) (auto simp: nth_mem)
  qed
qed simp

lemma enumerate_filter: "map snd (List.filter (\<lambda>x. Q (snd x)) (enumerate n xs)) = List.filter Q xs"
  by (induction xs arbitrary: n) simp_all

text \<open>The reports of a round: each event that was written or refused by the store answers its message.\<close>

lemma report_batch:
  assumes "sv_codec (rp_lib P)" "fresh_promises rl msgs" "subseq qs (enumerate 0 msgs)"
    and "\<forall>q\<in>set qs. good_msg (rp_lib P) ev (snd q) \<and> is_add (snd q)"
    and "\<forall>p. (\<forall>x\<in>set (enumerate 0 msgs) - set qs. msg_promise (snd x) \<noteq> Some p) \<longrightarrow> promises rl1 p = promises rl p"
    and "list_all2 (\<lambda>x w. ew_packedStr w = pack_event (rp_lib P) (fst x) \<and> ew_userData w = snd (snd x)) (batch_order (batch_of ev qs)) evs"
  shows "\<exists>rl2. foldE (report P msgs (\<lambda>w. status_verdict (ew_status w))) evs rl1 = Inr rl2 \<and>
    (\<forall>w\<in>set evs. promise_kept (rp_lib P) rl2 (stored_outcome msgs w)) \<and>
    (\<forall>p. (\<forall>q\<in>set qs. msg_promise (snd q) \<noteq> Some p) \<longrightarrow> promises rl2 p = promises rl1 p) \<and>
    tpWebsocket rl2 = send_answers (rp_lib P) (map (stored_outcome msgs) evs) (tpWebsocket rl1)"
proof -
  have sub: "set qs \<subseteq> set (enumerate 0 msgs)" using list_emb_set [OF assms(3)] by (metis subsetI)
  have at: "k < length msgs \<and> msgs ! k = m" if "(k, m) \<in> set qs" for k m using sub that enumerate_mem [of k m msgs] by (meson subsetD)
  have dist: "distinct (map fst qs)"
    using assms(3) unfolding subseq_conv_nths by (auto simp: nths_map [symmetric] distinct_enumerate intro!: distinct_nthsI)
  have unset: "promises rl1 p = None" if q: "(k, m) \<in> set qs" "msg_promise m = Some p" for k m p
  proof -
    have "msg_promise (snd x) \<noteq> Some p" if "x \<in> set (enumerate 0 msgs) - set qs" for x
    proof (cases x)
      case (Pair k' m')
      then have k': "k' < length msgs" "msgs ! k' = m'" using that by (simp_all add: enumerate_mem)
      have "k' \<noteq> k" using that at [OF q(1)] q(1) k'(2) Pair by auto
      then show ?thesis using fresh_promises_nth [OF assms(2), of k k' p] at [OF q(1)] q(2) k' Pair by simp
    qed
    then have "promises rl1 p = promises rl p" using assms(5) by blast
    then show ?thesis using assms(2) at [OF q(1)] q(2) unfolding fresh_promises_def by (metis nth_mem)
  qed
  have len: "length evs = length qs" using list_all2_lengthD [OF assms(6)] by (simp add: batch_order_perm batch_of_def)
  have users: "map ew_userData evs = map (\<lambda>x. snd (snd x)) (batch_order (batch_of ev qs))"
    by (rule nth_equalityI) (use assms(6) in \<open>auto simp: list_all2_conv_all_nth\<close>)
  have user: "\<exists>m. (k, m) \<in> set qs \<and> ew_packedStr w = pack_event (rp_lib P) (ev m)"
    if in_evs: "w \<in> set evs" "ew_userData w = Some k" for w k
  proof -
    obtain j where j: "j < length evs" "evs ! j = w" using in_evs(1) by (auto simp: in_set_conv_nth)
    let ?x = "batch_order (batch_of ev qs) ! j"
    have "?x \<in> set (batch_of ev qs)" using j(1) len batch_order_perm(2,3) [where xs = "batch_of ev qs"] nth_mem [of j "batch_order (batch_of ev qs)"]
      by (simp add: batch_of_def)
    then show ?thesis using list_all2_nthD2 [OF assms(6) j(1)] in_evs(2) j(2) by (auto simp: batch_of_def)
  qed
  have some: "\<exists>k. ew_userData w = Some k" if "w \<in> set evs" for w
  proof -
    have "ew_userData w \<in> set (map ew_userData evs)" using that by simp
    also have "set (map ew_userData evs) = (\<lambda>x. snd (snd x)) ` set (batch_of ev qs)" unfolding users by (simp add: batch_order_perm)
    finally show ?thesis by (auto simp: batch_of_def)
  qed
  have "distinct (map ew_userData evs)"
    unfolding users batch_order_perm using dist by (simp add: batch_of_def distinct_map inj_on_def)
  moreover have prom: "ev_promise msgs w = msg_promise m" if "ew_userData w = Some k" "(k, m) \<in> set qs" for w k m
    using that at by (simp add: ev_promise_def)
  moreover have "ev_promise msgs w \<noteq> ev_promise msgs w'"
    if w: "w \<in> set evs" "w' \<in> set evs" "ew_userData w \<noteq> ew_userData w'" "ev_promise msgs w \<noteq> None" for w w'
  proof -
    obtain k k' where k: "ew_userData w = Some k" "ew_userData w' = Some k'" using some w(1,2) by blast
    obtain m m' where m: "(k, m) \<in> set qs" "(k', m') \<in> set qs" using user w(1,2) k by blast
    then show ?thesis using prom [OF k(1) m(1)] prom [OF k(2) m(2)] fresh_promises_nth [OF assms(2), of k k'] at [OF m(1)] at [OF m(2)] w(3,4) k
      by auto
  qed
  ultimately have sorted: "sorted_wrt (\<lambda>w w'. ev_promise msgs w \<noteq> None \<longrightarrow> ev_promise msgs w \<noteq> ev_promise msgs w') evs"
    by (auto simp: sorted_wrt_iff_nth_less distinct_conv_nth)
  have shape: "\<forall>w\<in>set evs. \<exists>e k. ew_packedStr w = pack_event (rp_lib P) e \<and> wf_event e \<and> ew_userData w = Some k \<and> k < length msgs"
  proof
    fix w assume w: "w \<in> set evs"
    obtain k m where "ew_userData w = Some k" "(k, m) \<in> set qs" "ew_packedStr w = pack_event (rp_lib P) (ev m)"
      using some [OF w] user [OF w] by blast
    moreover from this(2) have "wf_event (ev m)" using assms(4) good_msg_event(2) by fastforce
    ultimately show "\<exists>e k. ew_packedStr w = pack_event (rp_lib P) e \<and> wf_event e \<and> ew_userData w = Some k \<and> k < length msgs"
      using at by blast
  qed
  have unset_all: "\<forall>w\<in>set evs. \<forall>p. ev_promise msgs w = Some p \<longrightarrow> promises rl1 p = None"
  proof (intro ballI allI impI)
    fix w p assume w: "w \<in> set evs" "ev_promise msgs w = Some p"
    obtain k m where k: "ew_userData w = Some k" "(k, m) \<in> set qs" using some user w(1) by blast
    then show "promises rl1 p = None" using unset prom w(2) by metis
  qed
  let ?v = "\<lambda>w. status_verdict (ew_status w)"
  from report_spec [OF assms(1) shape sorted unset_all, of ?v] obtain rl2 where
    rl2: "foldE (report P msgs ?v) evs rl1 = Inr rl2"
    "\<forall>w\<in>set evs. \<forall>p. ev_promise msgs w = Some p \<longrightarrow> promises rl2 p = Some (reported (rp_lib P) ?v w)"
    "\<forall>p. (\<forall>w\<in>set evs. ev_promise msgs w \<noteq> Some p) \<longrightarrow> promises rl2 p = promises rl1 p"
    "tpWebsocket rl2 = foldl (\<lambda>pool w. dispatch 0 (report_sent (rp_lib P) msgs ?v w) pool) (tpWebsocket rl1) evs" by blast
  have hex: "\<exists>k. ew_userData w = Some k \<and> hex_id (rp_lib P) (msgs ! k) = to_hex (rp_lib P) (packed_id (ew_packedStr w)) \<and> ev_promise msgs w = msg_promise (msgs ! k)"
    if w: "w \<in> set evs" for w
  proof -
    obtain k m where k: "ew_userData w = Some k" "(k, m) \<in> set qs" "ew_packedStr w = pack_event (rp_lib P) (ev m)"
      using some [OF w] user [OF w] by blast
    moreover have "msg_packed m = pack_event (rp_lib P) (ev m)" using k(2) assms(4) good_msg_event(1) by fastforce
    ultimately show ?thesis using at [OF k(2)] prom [OF k(1,2)] by (simp add: hex_id_def)
  qed
  have "promise_kept (rp_lib P) rl2 (stored_outcome msgs w)" if w: "w \<in> set evs" for w
    using hex [OF w] rl2(2) w by (auto simp: promise_kept_def stored_outcome_def reported_def status_verdict_outcome)
  moreover have "promises rl2 p = promises rl1 p" if p: "\<forall>q\<in>set qs. msg_promise (snd q) \<noteq> Some p" for p
  proof -
    have "ev_promise msgs w \<noteq> Some p" if "w \<in> set evs" for w
      using some [OF that] user [OF that] prom p by (metis snd_conv)
    then show ?thesis using rl2(3) by blast
  qed
  moreover have "tpWebsocket rl2 = send_answers (rp_lib P) (map (stored_outcome msgs) evs) (tpWebsocket rl1)"
  proof -
    have "report_sent (rp_lib P) msgs ?v w = ok_sent (rp_lib P) (stored_outcome msgs w)" if "w \<in> set evs" for w
      using hex [OF that] by (auto simp: report_sent_def ok_sent_def stored_outcome_def status_verdict_outcome)
    then show ?thesis unfolding rl2(4) send_answers_def foldl_map by (intro foldl_cong) simp_all
  qed
  ultimately show ?thesis using rl2(1) by blast
qed

text \<open>The messages that the plugin turned down have promises of their own.\<close>

lemma blocked_apart:
  assumes "fresh_promises rl msgs" "prepared P ask (enumerate 0 msgs) rl rl1 qs bs"
    and "x \<in> set (map (\<lambda>(x, oc). (snd x, oc)) bs)" "msg_promise (fst x) = Some p"
  shows "\<forall>q\<in>set qs. msg_promise (snd q) \<noteq> Some p"
proof
  fix q assume q: "q \<in> set qs"
  have perm: "mset qs + mset (map fst bs) = mset (List.filter (\<lambda>x. is_add (snd x)) (enumerate 0 msgs))" using assms(2) by (simp add: prepared_def)
  obtain y where y: "y \<in> set (map fst bs)" "snd y = fst x" using assms(3) by force
  have "distinct (qs @ map fst bs)"
    using perm mset_eq_imp_distinct_iff [of "qs @ map fst bs" "List.filter (\<lambda>x. is_add (snd x)) (enumerate 0 msgs)"] by (simp add: distinct_enumerate)
  then have "q \<noteq> y" using q y(1) by auto
  have "q \<in># mset qs + mset (map fst bs)" "y \<in># mset qs + mset (map fst bs)" using q y(1) by (simp_all del: mset_map)
  then have "q \<in> set (enumerate 0 msgs)" "y \<in> set (enumerate 0 msgs)" unfolding perm by auto
  then have at: "fst q < length msgs" "msgs ! fst q = snd q" "fst y < length msgs" "msgs ! fst y = snd y"
    using enumerate_mem [of "fst q" "snd q" msgs] enumerate_mem [of "fst y" "snd y" msgs] by simp_all
  then have "fst y \<noteq> fst q" using \<open>q \<noteq> y\<close> by (metis prod.collapse)
  then show "msg_promise (snd q) \<noteq> Some p" using fresh_promises_nth [OF assms(1) at(3,1)] at(2,4) y(2) assms(4) by simp
qed

text \<open>The outcomes of the events that went into the transaction are true of the store.\<close>

lemma stored_outcomes_true:
  assumes "subseq qs (enumerate 0 msgs)" "\<forall>q\<in>set qs. is_add (snd q)"
    and "list_all2 (\<lambda>x w. ew_packedStr w = pack_event L (fst x) \<and> ew_userData w = snd (snd x)) (batch_order (batch_of ev qs)) evs"
    and "\<forall>n<length evs. ew_status (evs ! n) \<in> {Written, Duplicate} \<longrightarrow> has_id M' (ev_id (fst (batch_order (batch_of ev qs) ! n))) \<or>
       displaced (ran M \<union> ev ` set msgs) (fst ` set (drop (Suc n) (batch_order (batch_of ev qs)))) (ev_id (fst (batch_order (batch_of ev qs) ! n))) \<or>
       (\<exists>k<n. ev_id (fst (batch_order (batch_of ev qs) ! k)) = ev_id (fst (batch_order (batch_of ev qs) ! n)) \<and> ew_status (evs ! k) \<notin> {Written, Duplicate})"
    and "\<forall>i. has_id M' i \<longrightarrow> has_id M i \<or> (\<exists>k<length evs. ev_id (fst (batch_order (batch_of ev qs) ! k)) = i \<and> ew_status (evs ! k) = Written)"
    and "set (map (stored_outcome msgs) evs) \<subseteq> set ocs"
  shows "mset (map fst (map (stored_outcome msgs) evs)) = mset (map snd qs) \<and>
    (\<forall>w\<in>set evs. fst (stored_outcome msgs w) \<in> snd ` set qs \<and> outcome_true ev msgs M M' ocs (stored_outcome msgs w)) \<and>
    (\<forall>m. has_id M' (ev_id (ev m)) \<longrightarrow> has_id M (ev_id (ev m)) \<or> (\<exists>m'. (m', Stored Written) \<in> set ocs \<and> ev_id (ev m') = ev_id (ev m)))"
proof -
  let ?b = "batch_order (batch_of ev qs)"
  have len: "length ?b = length qs" "length evs = length qs" "length ?b = length evs"
    using list_all2_lengthD [OF assms(3)] by (simp_all add: batch_order_perm batch_of_def)
  have sub: "set qs \<subseteq> set (enumerate 0 msgs)" using list_emb_set [OF assms(1)] by (metis subsetI)
  have dist: "distinct (map fst qs)"
    using assms(1) unfolding subseq_conv_nths by (auto simp: nths_map [symmetric] distinct_enumerate intro!: distinct_nthsI)
  have pos: "\<exists>k. (k, m) \<in> set qs \<and> x = (ev m, msg_json m, Some k) \<and> k < length msgs \<and> msgs ! k = m \<and> is_add m" if x: "x \<in> set (batch_of ev qs)" "m = msgs ! the (snd (snd x))" for x m
  proof -
    obtain q where q: "q \<in> set qs" "x = (ev (snd q), msg_json (snd q), Some (fst q))" using x(1) by (auto simp: batch_of_def)
    define k m' where km: "k = fst q" "m' = snd q"
    then have k: "(k, m') \<in> set qs" "x = (ev m', msg_json m', Some k)" using q by simp_all
    then have "k < length msgs" "msgs ! k = m'" "is_add m'" using sub enumerate_mem assms(2) by (metis subsetD snd_conv)+
    then show ?thesis using k x(2) by auto
  qed
  have at: "\<exists>k m. (k, m) \<in> set qs \<and> ?b ! n = (ev m, msg_json m, Some k) \<and> k < length msgs \<and> msgs ! k = m \<and> is_add m \<and>
      stored_outcome msgs (evs ! n) = (m, Stored (ew_status (evs ! n)))" if n: "n < length evs" for n
  proof -
    have "?b ! n \<in> set (batch_of ev qs)" using n len batch_order_perm(2) nth_mem by metis
    from pos [OF this refl] obtain k where k: "(k, msgs ! k) \<in> set qs" "?b ! n = (ev (msgs ! k), msg_json (msgs ! k), Some k)" "k < length msgs" "is_add (msgs ! k)"
      by (metis option.sel snd_conv)
    moreover have "stored_outcome msgs (evs ! n) = (msgs ! k, Stored (ew_status (evs ! n)))"
      using list_all2_nthD2 [OF assms(3) n] k(2) by (simp add: stored_outcome_def)
    ultimately show ?thesis by blast
  qed
  have "map fst (map (stored_outcome msgs) evs) = map (\<lambda>x. msgs ! the (snd (snd x))) ?b"
    by (rule nth_equalityI) (use assms(3) len in \<open>auto simp: stored_outcome_def list_all2_conv_all_nth\<close>)
  then have "mset (map fst (map (stored_outcome msgs) evs)) = mset (map (\<lambda>x. msgs ! the (snd (snd x))) (batch_of ev qs))"
    using batch_order_perm(1) [of "batch_of ev qs"] by (simp only: mset_map)
  also have "map (\<lambda>x. msgs ! the (snd (snd x))) (batch_of ev qs) = map snd qs"
    using sub enumerate_mem [of _ _ msgs] by (auto simp: batch_of_def)
  finally have perm: "mset (map fst (map (stored_outcome msgs) evs)) = mset (map snd qs)" .
  have ids: "ev_id (ev (fst (stored_outcome msgs (evs ! n)))) = ev_id (fst (?b ! n))" if "n < length evs" for n using at [OF that] by auto
  have known: "(m', Stored (ew_status (evs ! k))) \<in> set ocs" if "k < length evs" "m' = fst (stored_outcome msgs (evs ! k))" for k m'
    using that assms(6) nth_mem [OF that(1)] by (auto simp: stored_outcome_def)
  have new: "has_id M (ev_id (ev m)) \<or> (\<exists>m'. (m', Stored Written) \<in> set ocs \<and> ev_id (ev m') = ev_id (ev m))" if "has_id M' (ev_id (ev m))" for m
  proof -
    consider "has_id M (ev_id (ev m))" | k where "k < length evs" "ev_id (fst (?b ! k)) = ev_id (ev m)" "ew_status (evs ! k) = Written"
      using assms(5) \<open>has_id M' (ev_id (ev m))\<close> by blast
    then show ?thesis
    proof cases
      case 2
      then show ?thesis using known [OF 2(1) refl] ids [OF 2(1)] by auto
    qed simp
  qed
  have "outcome_true ev msgs M M' ocs (stored_outcome msgs (evs ! n))" if n: "n < length evs" for n
  proof (cases "ew_status (evs ! n) \<in> {Written, Duplicate}")
    case False
    then show ?thesis using new by (simp add: outcome_true_def stored_outcome_def)
  next
    case True
    obtain k m where km: "(k, m) \<in> set qs" "?b ! n = (ev m, msg_json m, Some k)" "k < length msgs" "msgs ! k = m" "is_add m"
      "stored_outcome msgs (evs ! n) = (m, Stored (ew_status (evs ! n)))" using at [OF n] by blast
    have others: "fst ` set (drop (Suc n) ?b) \<subseteq> later (ev m) (ev ` set (remove1 m (List.filter is_add msgs)))"
    proof
      fix a assume "a \<in> fst ` set (drop (Suc n) ?b)"
      then obtain j where j: "j < length ?b - Suc n" "a = fst (drop (Suc n) ?b ! j)" by (auto simp: in_set_conv_nth)
      define i where "i = Suc n + j"
      have i: "n < i" "i < length evs" "a = fst (?b ! i)" using j len(3) by (simp_all add: i_def)
      obtain k' m' where km': "(k', m') \<in> set qs" "?b ! i = (ev m', msg_json m', Some k')" "k' < length msgs" "msgs ! k' = m'" "is_add m'" using at [OF i(2)] by blast
      have "distinct (map (\<lambda>x. snd (snd x)) ?b)"
        unfolding batch_order_perm using dist by (simp add: batch_of_def distinct_map inj_on_def)
      then have "snd (snd (?b ! i)) \<noteq> snd (snd (?b ! n))" using i(1,2) n len(3) by (simp add: distinct_conv_nth)
      then have "k' \<noteq> k" unfolding km(2) km'(2) by simp
      then have "m' \<in> set (remove1 m msgs)" using remove1_other [of k' msgs k] km(3,4) km'(3,4) by simp
      then have "m' \<in> set (remove1 m (List.filter is_add msgs))" using km'(5) km(5) by (simp add: filter_remove1 [symmetric])
      moreover have "(ev_created_at (ev m), ev_id (ev m)) \<le> (ev_created_at (ev m'), ev_id (ev m'))"
        using batch_order_later [OF i(1), of "batch_of ev qs"] i(2) len km(2) km'(2) by (simp add: batch_of_def)
      ultimately show "a \<in> later (ev m) (ev ` set (remove1 m (List.filter is_add msgs)))" using i(3) km'(2) by (auto simp: later_def)
    qed
    have "has_id M' (ev_id (ev m)) \<or> displaced (ran M \<union> ev ` set msgs) (later (ev m) (ev ` set (remove1 m (List.filter is_add msgs)))) (ev_id (ev m)) \<or>
        (\<exists>m' st. (m', Stored st) \<in> set ocs \<and> ev_id (ev m') = ev_id (ev m) \<and> st \<notin> {Written, Duplicate})"
      using assms(4) [rule_format, OF n True] unfolding km(2) fst_conv
    proof (elim disjE exE conjE)
      assume "displaced (ran M \<union> ev ` set msgs) (fst ` set (drop (Suc n) ?b)) (ev_id (ev m))"
      then show ?thesis using displaced_mono [OF _ others] by blast
    next
      fix j assume j: "j < n" "ev_id (fst (?b ! j)) = ev_id (ev m)" "ew_status (evs ! j) \<notin> {Written, Duplicate}"
      then have "j < length evs" using n by simp
      then have "(fst (stored_outcome msgs (evs ! j)), Stored (ew_status (evs ! j))) \<in> set ocs" "ev_id (ev (fst (stored_outcome msgs (evs ! j)))) = ev_id (ev m)"
        using known [OF _ refl, of j] ids [of j] j(2) by simp_all
      then show ?thesis using j(3) by (intro disjI2 exI conjI)
    qed blast
    then show ?thesis using True by (simp add: outcome_true_def km(6))
  qed
  moreover have "fst (stored_outcome msgs (evs ! n)) \<in> snd ` set qs" if "n < length evs" for n using at [OF that] by force
  ultimately show ?thesis using perm new by (metis in_set_conv_nth)
qed

text \<open>The answers of the writer, from the pieces above.\<close>

lemma writer_round_verdicts:
  assumes env: "event_env (rp_lib P) (rp_env P) key_le tree_items"
    and "freshenCache (rp_env P) (rp_lib P) db cache = Inr cache'"
    and "holds (rp_env P) (rp_lib P) tree_items (fc_filters cache') db M" "consistent M"
    and good: "\<forall>m\<in>set ms. good_msg (rp_lib P) ev m" and fresh: "fresh_promises rl ms"
    and bound: "lev_max (rp_env P) db + length ms < 2 ^ 64"
  shows "\<exists>rl' sf' cache'' db' M' ocs. writer_round P ask ms (rl, sf, cache, db) = Inr (rl', sf', cache'', db') \<and>
    cache'' \<in> {cache, cache'} \<and> holds (rp_env P) (rp_lib P) tree_items (fc_filters cache') db' M' \<and> consistent M' \<and>
    mset (map fst ocs) = mset (List.filter is_add (drop_closed ms)) \<and> tpWebsocket rl' = send_answers (rp_lib P) ocs (tpWebsocket rl) \<and>
    (\<forall>x\<in>set ocs. promise_kept (rp_lib P) rl' x \<and> plugin_verdict (rp_lib P) ask x \<and> outcome_true ev (drop_closed ms) M M' ocs x)"
proof -
  let ?L = "rp_lib P" and ?msgs = "drop_closed ms" and ?xs = "enumerate 0 (drop_closed ms)"
  have codec: "sv_codec ?L" using env by (simp add: event_env_def)
  have sub: "set ?msgs \<subseteq> set ms" "length ?msgs \<le> length ms" by (rule drop_closed_sub)+
  have fresh': "fresh_promises rl ?msgs" by (rule drop_closed_sub(2) [OF fresh])
  have good': "\<forall>x\<in>set ?xs. good_msg ?L ev (snd x)"
    using good sub(1) by (metis enumerate_mem nth_mem prod.collapse subsetD)
  have "fresh_promises rl (map snd ?xs)" "distinct ?xs" using fresh' by (simp_all add: distinct_enumerate)
  from prepare_spec [OF codec good' this, of ask sf "[]"] obtain rl1 sf1 qs bs where
    prep: "foldE (prepare_one P ask) ?xs (rl, sf, []) = Inr (rl1, sf1, map ev_of qs)" "prepared P ask ?xs rl rl1 qs bs" by auto
  have pr: "subseq qs ?xs" "mset qs + mset (map fst bs) = mset (List.filter (\<lambda>x. is_add (snd x)) ?xs)"
    "\<forall>q\<in>set qs. \<exists>t. plugin_said ?L ask (snd q) Accept t"
    "\<forall>(x, oc)\<in>set bs. promise_kept ?L rl1 (snd x, oc) \<and> (\<exists>res t. oc = Blocked res t \<and> res \<noteq> Accept \<and> plugin_said ?L ask (snd x) res t)"
    "\<forall>p. (\<forall>x\<in>set ?xs - set qs. msg_promise (snd x) \<noteq> Some p) \<longrightarrow> promises rl1 p = promises rl p"
    using prep(2) by (simp_all add: prepared_def)
  let ?bs = "map (\<lambda>(x, oc). (snd x, oc)) bs"
  have ws: "tpWebsocket rl1 = send_answers ?L ?bs (tpWebsocket rl)" using prep(2) by (simp add: prepared_def)
  have all: "mset (map snd qs) + mset (map fst ?bs) = mset (List.filter is_add ?msgs)"
    using arg_cong [OF pr(2), of "image_mset snd"] unfolding image_mset_union mset_map [symmetric] enumerate_filter
    by (simp add: comp_def split_beta)
  have blocked: "\<not> http_success (snd x) \<and> plugin_verdict ?L ask x \<and> promise_kept ?L rl1 x" if "x \<in> set ?bs" for x
    using that pr(4) by fastforce
  show ?thesis
  proof (cases "qs = []")
    case True
    have "outcome_true ev ?msgs M M ?bs x" if "x \<in> set ?bs" for x using blocked [OF that] by (simp add: outcome_true_def)
    then have "\<forall>x\<in>set ?bs. promise_kept ?L rl1 x \<and> plugin_verdict ?L ask x \<and> outcome_true ev ?msgs M M ?bs x" using blocked by blast
    moreover have "writer_round P ask ms (rl, sf, cache, db) = Inr (rl1, sf1, cache, db)" using prep(1) True by (simp add: writer_round_def)
    ultimately show ?thesis using assms(3,4) all ws True
      by (intro exI [of _ rl1] exI [of _ sf1] exI [of _ cache] exI [of _ db] exI [of _ M] exI [of _ ?bs]) simp
  next
    case False
    have "is_add (snd q)" if "q \<in> set qs" for q using that arg_cong [OF pr(2), of set_mset] by auto
    moreover have "set qs \<subseteq> set ?xs" using list_emb_set [OF pr(1)] by (metis subsetI)
    ultimately have qgood: "\<forall>q\<in>set qs. good_msg ?L ev (snd q) \<and> is_add (snd q)" using good' by blast
    let ?b = "batch_of ev qs" and ?S = "ran M \<union> ev ` set ?msgs"
    have "snd ` set qs \<subseteq> set ?msgs" using \<open>set qs \<subseteq> set ?xs\<close> enumerate_mem [of _ _ ?msgs] by (fastforce dest: subsetD)
    then have S: "ran M \<union> fst ` set ?b \<subseteq> ?S" by (auto simp: batch_of_def)
    have wf: "wf_event (fst x) \<and> full_refs (fst x)" if "x \<in> set ?b" for x
      using that qgood good_msg_event(2,3) by (fastforce simp: batch_of_def)
    have "length qs \<le> length ms" using list_emb_length [OF pr(1)] sub(2) by simp
    then have lev: "lev_max (rp_env P) db + length ?b < 2 ^ 64" using bound by (simp add: batch_of_def)
    obtain evs db' M' where w: "writeEvents (rp_env P) ?L cache (map (to_write ?L) ?b) db = Inr (evs, db', cache')"
      "holds (rp_env P) ?L tree_items (fc_filters cache') db' M'" "consistent M'"
      "list_all2 (\<lambda>x w. ew_packedStr w = pack_event ?L (fst x) \<and> ew_userData w = snd (snd x)) (batch_order ?b) evs"
      "\<forall>n<length evs. ew_status (evs ! n) \<in> {Written, Duplicate} \<longrightarrow> has_id M' (ev_id (fst (batch_order ?b ! n))) \<or>
         displaced ?S (fst ` set (drop (Suc n) (batch_order ?b))) (ev_id (fst (batch_order ?b ! n))) \<or>
         (\<exists>k<n. ev_id (fst (batch_order ?b ! k)) = ev_id (fst (batch_order ?b ! n)) \<and> ew_status (evs ! k) \<notin> {Written, Duplicate})"
      "\<forall>i. has_id M' i \<longrightarrow> has_id M i \<or> (\<exists>k<length evs. ev_id (fst (batch_order ?b ! k)) = i \<and> ew_status (evs ! k) = Written)"
      by (rule event_env.writeEvents_settled [OF env assms(2-4) wf lev S])
    obtain rl2 where rep: "foldE (report P ?msgs (\<lambda>w. status_verdict (ew_status w))) evs rl1 = Inr rl2"
      "\<forall>w\<in>set evs. promise_kept ?L rl2 (stored_outcome ?msgs w)"
      "\<forall>p. (\<forall>q\<in>set qs. msg_promise (snd q) \<noteq> Some p) \<longrightarrow> promises rl2 p = promises rl1 p"
      "tpWebsocket rl2 = send_answers ?L (map (stored_outcome ?msgs) evs) (tpWebsocket rl1)"
      using report_batch [OF codec fresh' pr(1) qgood pr(5) w(4)] by blast
    let ?ocs = "?bs @ map (stored_outcome ?msgs) evs"
    have truth: "mset (map fst (map (stored_outcome ?msgs) evs)) = mset (map snd qs)"
      "\<forall>w\<in>set evs. fst (stored_outcome ?msgs w) \<in> snd ` set qs \<and> outcome_true ev ?msgs M M' ?ocs (stored_outcome ?msgs w)"
      "\<forall>m. has_id M' (ev_id (ev m)) \<longrightarrow> has_id M (ev_id (ev m)) \<or> (\<exists>m'. (m', Stored Written) \<in> set ?ocs \<and> ev_id (ev m') = ev_id (ev m))"
      using stored_outcomes_true [OF pr(1) _ w(4-6), of ?ocs] qgood by simp_all
    have round: "writer_round P ask ms (rl, sf, cache, db) = Inr (rl2, sf1, cache', db')"
      using prep(1) False w(1) rep(1) by (simp add: writer_round_def ev_of_to_write [OF qgood] batch_of_def)
    have each: "promise_kept ?L rl2 x \<and> plugin_verdict ?L ask x \<and> outcome_true ev ?msgs M M' ?ocs x" if "x \<in> set ?bs" for x
    proof -
      have "promises rl2 p = promises rl1 p" if "msg_promise (fst x) = Some p" for p
        using rep(3) blocked_apart [OF fresh' prep(2) \<open>x \<in> set ?bs\<close> that] by blast
      then have "promise_kept ?L rl2 x" using blocked [OF that] by (simp add: promise_kept_def)
      moreover have "outcome_true ev ?msgs M M' ?ocs x" using blocked [OF that] truth(3) by (simp add: outcome_true_def)
      ultimately show ?thesis using blocked [OF that] by blast
    qed
    have "plugin_verdict ?L ask (stored_outcome ?msgs w)" if "w \<in> set evs" for w
    proof -
      obtain q where "q \<in> set qs" "fst (stored_outcome ?msgs w) = snd q" using truth(2) \<open>w \<in> set evs\<close> by auto
      then show ?thesis using pr(3) by (simp add: stored_outcome_def)
    qed
    then have "\<forall>x\<in>set ?ocs. promise_kept ?L rl2 x \<and> plugin_verdict ?L ask x \<and> outcome_true ev ?msgs M M' ?ocs x"
      using rep(2) truth(2) each unfolding set_append set_map [of "stored_outcome ?msgs"] by blast
    moreover have "mset (map fst ?ocs) = mset (List.filter is_add ?msgs)"
      using all truth(1) unfolding map_append mset_append by (metis add.commute)
    moreover have "tpWebsocket rl2 = send_answers ?L ?ocs (tpWebsocket rl)" using rep(4) ws by simp
    ultimately show ?thesis using w(2,3) round
      by (intro exI [of _ rl2], intro exI [of _ sf1], intro exI [of _ cache'], intro exI [of _ db'], intro exI [of _ M'], intro exI [of _ ?ocs]) simp
  qed
qed

section \<open>An event over HTTP, from the request to the verdict\<close>

text \<open>What \<^verbatim>\<open>parseAndVerifyEvent\<close> accepts is an event whose references are ids, when hex halves the length.\<close>

lemma indexed_tag_e:
  assumes "(CHR ''e'', v) \<in> set (indexed_tag L t)"
  obtains rest where "t = JArray (JString ''e'' # rest)" "from_hex L (case rest of JString s # _ \<Rightarrow> s | _ \<Rightarrow> []) False = Inr v"
proof -
  have "\<exists>xs. t = JArray xs" using assms by (cases t; simp add: indexed_tag_def)
  then obtain x rest where xs: "t = JArray (x # rest)" using assms by (auto simp: indexed_tag_def neq_Nil_conv split: list.splits)
  have "\<exists>name. x = JString name" using assms by (cases x; simp add: xs indexed_tag_def)
  then obtain name where t: "t = JArray (JString name # rest)" using xs by blast
  let ?val = "case rest of JString s # _ \<Rightarrow> s | _ \<Rightarrow> []"
  have name: "name = ''e''"
  proof (cases "name = ''p''")
    case True
    then show ?thesis using assms by (auto simp: t indexed_tag_def Let_def split: sum.splits)
  next
    case False
    then have "name = ''e'' \<or> length name = 1 \<and> name ! 0 = CHR ''e''"
      using assms by (auto simp: t indexed_tag_def Let_def simp del: One_nat_def split: if_splits)
    then show ?thesis by (auto simp: length_Suc_conv)
  qed
  have "indexed_tag L t = (case from_hex L ?val False of Inr raw \<Rightarrow> [(CHR ''e'', raw)] | Inl _ \<Rightarrow> [])"
    by (cases "from_hex L ?val False") (simp_all add: t name indexed_tag_def Let_def)
  then have "from_hex L ?val False = Inr v" using assms by (simp split: sum.splits)
  with t name show thesis by (intro that) simp_all
qed

lemma pack_json_tag_ref:
  assumes "pack_json_tag L cfg t st = Inr st'" "(CHR ''e'', v) \<in> set (indexed_tag L t)"
  shows "\<exists>s. length s = 64 \<and> from_hex L s False = Inr v"
proof -
  obtain rest where t: "t = JArray (JString ''e'' # rest)" and hex: "from_hex L (case rest of JString s # _ \<Rightarrow> s | _ \<Rightarrow> []) False = Inr v"
    using assms(2) by (rule indexed_tag_e)
  have "length (case rest of JString s # _ \<Rightarrow> s | _ \<Rightarrow> []) = 64"
    using assms(1) by (cases rest) (auto simp: t pack_json_tag_def bindE_eq_Inr Let_def)
  with hex show ?thesis by blast
qed

lemma pack_json_tags_ref:
  "foldE (pack_json_tag L cfg) tags st = Inr st' \<Longrightarrow> (CHR ''e'', v) \<in> set (concat (map (indexed_tag L) tags)) \<Longrightarrow>
   \<exists>s. length s = 64 \<and> from_hex L s False = Inr v"
  by (induction tags arbitrary: st) (auto simp: bindE_eq_Inr dest: pack_json_tag_ref)

definition hex_halves :: "lib \<Rightarrow> bool" where
  "hex_halves L \<longleftrightarrow> (\<forall>s b raw. from_hex L s b = Inr raw \<longrightarrow> length s = 2 * length raw)"

lemma parsed_event:
  assumes "parseAndVerifyEvent L cfg now v verifyMsg verifyTime = Inr (packedStr, jsonStr)" "hex_halves L"
  obtains e i where "packedStr = pack_event L e" "wf_event e" "full_refs e"
    "json_at v ''id'' = Inr (JString i)" "from_hex L i False = Inr (ev_id e)"
proof -
  have packed: "nostrJsonToPackedEvent L cfg v = Inr packedStr" by (rule parseAndVerifyEvent_packed [OF assms(1)])
  from this obtain e i tags where e: "packedStr = pack_event L e" "wf_event e"
    "json_at v ''id'' = Inr (JString i)" "from_hex L i False = Inr (ev_id e)" "json_at v ''tags'' = Inr (JArray tags)"
    "ev_tags e = virtual_d (isReplaceableKind (ev_kind e)) @ concat (map (indexed_tag L) tags) @
       virtual_d (isParamReplaceableKind (ev_kind e))"
    by (rule nostrJsonToPackedEvent_event)
  from packed obtain b st tags' where "foldE (pack_json_tag L cfg) tags' (b, 0) = Inr st" "json_at v ''tags'' = Inr (JArray tags')"
    unfolding nostrJsonToPackedEvent_def bindE_eq_Inr jsonGet_Inr by (elim exE conjE) blast
  then have "foldE (pack_json_tag L cfg) tags (b, 0) = Inr st" using e(5) by simp
  then have ref: "\<exists>s. length s = 64 \<and> from_hex L s False = Inr x" if "(CHR ''e'', x) \<in> set (concat (map (indexed_tag L) tags))" for x
    using that by (rule pack_json_tags_ref)
  have "full_refs e" unfolding full_refs_def
  proof (intro allI impI)
    fix x assume "(CHR ''e'', x) \<in> set (ev_tags e)"
    then have "(CHR ''e'', x) \<in> set (concat (map (indexed_tag L) tags))"
      unfolding e(6) by (auto simp: virtual_d_def split: if_splits)
    then obtain s where "length s = 64" "from_hex L s False = Inr x" using ref by blast
    then show "length x = 32" using assms(2) unfolding hex_halves_def by fastforce
  qed
  with e show thesis by (intro that) auto
qed

text \<open>What the two threads do with a relay that holds one request.\<close>

definition http_rounds ::
    "'db relay_params \<Rightarrow> 'p sifter_fun \<Rightarrow> u64 \<Rightarrow> (u64 \<rightharpoonup> auth_status) \<Rightarrow> relay \<times> 'p \<times> filter_cache \<times> 'db \<Rightarrow>
     (relay \<times> 'p \<times> filter_cache \<times> 'db) result" where
  "http_rounds P ask now auth st =
     (let (rl, sf, cache, db) = st
      in bindE (ingester_round P db (map (Pair now) (concat (tpIngester rl)))
           (rl\<lparr>tpIngester := map (\<lambda>_. []) (tpIngester rl)\<rparr>, auth)) (\<lambda>(rl1, auth1).
         writer_round P ask (concat (tpWriter rl1)) (rl1\<lparr>tpWriter := map (\<lambda>_. []) (tpWriter rl1)\<rparr>, sf, cache, db)))"

definition idle :: "nat \<Rightarrow> relay \<Rightarrow> bool" where
  "idle p rl \<longleftrightarrow> tpIngester rl = [[]] \<and> tpWriter rl = [[]] \<and> promises rl p = None"

text \<open>The JSON library reads back what it printed, on the texts that the request gives rise to.\<close>

definition json_ok :: "lib \<Rightarrow> events_cfg \<Rightarrow> u64 \<Rightarrow> json \<Rightarrow> bool" where
  "json_ok L cfg now v \<longleftrightarrow> (let wrapped = JArray [JString ''EVENT'', v] in
     starts_with (json_to_string L wrapped) ''['' \<and> json_from_string L (json_to_string L wrapped) = Inr wrapped) \<and>
     (case parseAndVerifyEvent L cfg now v True True of
        Inl e \<Rightarrow> e \<noteq> UB
      | Inr (packedStr, jsonStr) \<Rightarrow> (\<exists>v'. json_from_string L jsonStr = Inr v'))"

lemma writer_round_Nil [simp]: "writer_round P ask [] (rl, sf, cache, db) = Inr (rl, sf, cache, db)"
  by (simp add: writer_round_def drop_closed_def)

text \<open>The ingester answers at once, or hands the event to the writer.\<close>

lemma ingest_http:
  assumes env: "event_env (rp_lib P) (rp_env P) key_le tree_items"
    and h: "holds (rp_env P) (rp_lib P) tree_items fs db M" and "hex_halves (rp_lib P)"
    and "promises rl p = None" "json_at v ''id'' = Inr (JString eventId)"
    and ok: "json_ok (rp_lib P) (rc_events (rp_cfg P)) now v"
  shows "(\<exists>r rl'. ingesterProcessEvent P now db 0 ip v (Some p) (rl, []) = Inr (rl', []) \<and> promises rl' p = Some r \<and>
      tpWriter rl' = tpWriter rl \<and> (pr_success r \<longrightarrow> (\<exists>i. from_hex (rp_lib P) eventId False = Inr i \<and> has_id M i))) \<or>
    (\<exists>e jsonStr v'. ingesterProcessEvent P now db 0 ip v (Some p) (rl, []) =
      Inr (rl, [WrAddEvent 0 ip (pack_event (rp_lib P) e) jsonStr (Some p)]) \<and> wf_event e \<and> full_refs e \<and>
      json_from_string (rp_lib P) jsonStr = Inr v' \<and> from_hex (rp_lib P) eventId False = Inr (ev_id e))"
proof (cases "parseAndVerifyEvent (rp_lib P) (rc_events (rp_cfg P)) now v True True")
  case (Inl x)
  then have "x \<noteq> UB" using ok by (simp add: json_ok_def)
  then show ?thesis using assms(4)
    by (intro disjI1) (cases x; simp add: ingesterProcessEvent_def Inl answer_def set_value_def)
next
  case (Inr y)
  obtain packedStr jsonStr where y: "y = (packedStr, jsonStr)" by (cases y)
  obtain e i where e: "packedStr = pack_event (rp_lib P) e" "wf_event e" "full_refs e"
    "json_at v ''id'' = Inr (JString i)" "from_hex (rp_lib P) i False = Inr (ev_id e)"
    using parsed_event [OF Inr [unfolded y] assms(3)] by blast
  have i: "i = eventId" using e(4) assms(5) by simp
  obtain v' where v': "json_from_string (rp_lib P) jsonStr = Inr v'" using ok Inr y by (auto simp: json_ok_def)
  have codec: "sv_codec (rp_lib P)" using env by (simp add: event_env_def)
  note view = sv_codec.packed_fields_event [OF codec e(2)]
  have look: "lookupEventById (rp_env P) db (ev_id e) = None \<longleftrightarrow> \<not> has_id M (ev_id e)"
    by (rule event_env.lookupEventById_correct(1) [OF env h]) (use e(2) in \<open>simp add: wf_event_def\<close>)
  show ?thesis
    using e(2,3) v' e(5) look assms(4) unfolding i
    by (auto simp: ingesterProcessEvent_def Inr y e(1) view answer_def set_value_def Let_def)
qed

lemma http_submit_queued:
  assumes "http_submit P eventJson p rl = Inr (Inr (eventId, rl1))" "idle p rl"
  obtains v where "json_from_string (rp_lib P) eventJson = Inr v" "json_at v ''id'' = Inr (JString eventId)"
    "rl1 = rl\<lparr>tpIngester := [[IngClientMessage 0 ''http-post'' (json_to_string (rp_lib P) (JArray [JString ''EVENT'', v])) (Some p)]]\<rparr>"
proof -
  obtain v where v: "json_from_string (rp_lib P) eventJson = Inr v"
    using assms(1) by (auto simp: http_submit_def bindE_eq_Inr Let_def)
  let ?m = "bindE (bindE (json_at v ''id'') get_string) (\<lambda>i. bindE (bindE (json_at v ''pubkey'') get_string) (\<lambda>_.
     bindE (bindE (json_at v ''sig'') get_string) (\<lambda>_. Inr i)))"
  have "?m = Inr eventId \<and>
    rl1 = rl\<lparr>tpIngester := [[IngClientMessage 0 ''http-post'' (json_to_string (rp_lib P) (JArray [JString ''EVENT'', v])) (Some p)]]\<rparr>"
    using assms by (cases ?m; auto simp: http_submit_def v idle_def dispatch_def split: if_splits exn.splits)
  moreover from this have "json_at v ''id'' = Inr (JString eventId)"
    by (auto simp: bindE_eq_Inr elim: get_string.elims)
  ultimately show thesis using v by (intro that) auto
qed

lemma http_ingest_one:
  assumes "json_ok (rp_lib P) cfg now v" "ingesterProcessEvent P now db 0 ''http-post'' v (Some p) (rl, []) = Inr (rl', outs)"
  shows "ingest_one P db (now, IngClientMessage 0 ''http-post'' (json_to_string (rp_lib P) (JArray [JString ''EVENT'', v])) (Some p)) (rl, [], auth) =
    Inr (rl', outs, auth)"
proof -
  let ?w = "JArray [JString ''EVENT'', v]"
  have "starts_with (json_to_string (rp_lib P) ?w) ''[''" "json_from_string (rp_lib P) (json_to_string (rp_lib P) ?w) = Inr ?w"
    using assms(1) by (simp_all add: json_ok_def Let_def)
  then show ?thesis
    using assms(2) by (simp add: ingest_one_def ingest_payload_def ingest_cmd_def jsonGetArray_def jsonGetString_def throw_if_def)
qed

lemma http_rounds_answered:
  assumes env: "event_env (rp_lib P) (rp_env P) key_le tree_items"
    and "freshenCache (rp_env P) (rp_lib P) db cache = Inr cache'"
    and h: "holds (rp_env P) (rp_lib P) tree_items (fc_filters cache') db M" and "consistent M"
    and bound: "Suc (lev_max (rp_env P) db) < 2 ^ 64" and "hex_halves (rp_lib P)" "idle p rl"
    and sub: "http_submit P eventJson p rl = Inr (Inr (eventId, rl1))"
    and ok: "\<And>v. json_from_string (rp_lib P) eventJson = Inr v \<Longrightarrow> json_ok (rp_lib P) (rc_events (rp_cfg P)) now v"
  shows "\<exists>rl' sf' cache'' db' M' r. http_rounds P ask now auth (rl1, sf, cache, db) = Inr (rl', sf', cache'', db') \<and>
    holds (rp_env P) (rp_lib P) tree_items (fc_filters cache') db' M' \<and> consistent M' \<and> promises rl' p = Some r \<and>
    (if pr_success r then \<exists>i. from_hex (rp_lib P) eventId False = Inr i \<and> has_id M' i
     else \<forall>i. from_hex (rp_lib P) eventId False = Inr i \<longrightarrow> has_id M' i \<longrightarrow> has_id M i)"
proof -
  obtain v where v: "json_from_string (rp_lib P) eventJson = Inr v" "json_at v ''id'' = Inr (JString eventId)"
    "rl1 = rl\<lparr>tpIngester := [[IngClientMessage 0 ''http-post'' (json_to_string (rp_lib P) (JArray [JString ''EVENT'', v])) (Some p)]]\<rparr>"
    using http_submit_queued [OF sub assms(7)] by blast
  let ?rl = "rl\<lparr>tpIngester := [[]]\<rparr>"
  have clear: "promises ?rl p = None" "tpWriter ?rl = [[]]" using assms(7) by (simp_all add: idle_def)
  note one = http_ingest_one [OF ok [OF v(1)]]
  from ingest_http [OF env h assms(6) clear(1) v(2) ok [OF v(1)], of "''http-post''"] show ?thesis
  proof (elim disjE exE conjE)
    fix r rl' assume a: "ingesterProcessEvent P now db 0 ''http-post'' v (Some p) (?rl, []) = Inr (rl', [])"
      "promises rl' p = Some r" "tpWriter rl' = tpWriter ?rl"
      "pr_success r \<longrightarrow> (\<exists>i. from_hex (rp_lib P) eventId False = Inr i \<and> has_id M i)"
    have "http_rounds P ask now auth (rl1, sf, cache, db) = Inr (rl', sf, cache, db)"
      using one [OF a(1)] a(3) clear(2) by (simp add: http_rounds_def v(3) ingester_round_def)
    then show ?thesis using a(2,4) h assms(4) by (intro exI [of _ rl'] exI [of _ sf] exI [of _ cache] exI [of _ db] exI [of _ M] exI [of _ r]) auto
  next
    fix e jsonStr v' assume a: "ingesterProcessEvent P now db 0 ''http-post'' v (Some p) (?rl, []) =
        Inr (?rl, [WrAddEvent 0 ''http-post'' (pack_event (rp_lib P) e) jsonStr (Some p)])"
      "wf_event e" "full_refs e" "json_from_string (rp_lib P) jsonStr = Inr v'" "from_hex (rp_lib P) eventId False = Inr (ev_id e)"
    let ?m = "WrAddEvent 0 ''http-post'' (pack_event (rp_lib P) e) jsonStr (Some p)"
    have rounds: "http_rounds P ask now auth (rl1, sf, cache, db) = writer_round P ask [?m] (?rl\<lparr>tpWriter := [[]]\<rparr>, sf, cache, db)"
      using one [OF a(1)] clear(2) by (simp add: http_rounds_def v(3) ingester_round_def dispatchMulti_def)
    have "\<forall>m\<in>set [?m]. good_msg (rp_lib P) (\<lambda>_. e) m" "lev_max (rp_env P) db + length [?m] < 2 ^ 64" "fresh_promises (?rl\<lparr>tpWriter := [[]]\<rparr>) [?m]"
      using a bound clear(1) by (simp_all add: fresh_promises_def)
    from writer_round_verdicts [OF env assms(2) h assms(4) this(1,3,2), of ask sf]
    obtain rl' sf' cache'' db' M' ocs where w: "writer_round P ask [?m] (?rl\<lparr>tpWriter := [[]]\<rparr>, sf, cache, db) = Inr (rl', sf', cache'', db')"
      "holds (rp_env P) (rp_lib P) tree_items (fc_filters cache') db' M'" "consistent M'" "mset (map fst ocs) = {#?m#}"
      "\<forall>x\<in>set ocs. promise_kept (rp_lib P) rl' x \<and> outcome_true (\<lambda>_. e) [?m] M M' ocs x"
      by (auto simp: drop_closed_def)
    from w(4) obtain oc where ocs: "ocs = [(?m, oc)]"
      by (cases ocs) (auto simp: prod_eq_iff)
    then have "promises rl' p = Some \<lparr>pr_success = http_success oc, pr_message = http_text oc, pr_eventId = hex_id (rp_lib P) ?m\<rparr>" (is "_ = Some ?r")
      using w(5) by (simp add: promise_kept_def)
    moreover have "\<not> displaced S (later e ((\<lambda>_. e) ` set (remove1 ?m (List.filter is_add [?m])))) i" for S i by (simp add: displaced_def later_def)
    then have "if http_success oc then has_id M' (ev_id e) else has_id M' (ev_id e) \<longrightarrow> has_id M (ev_id e)"
      using w(5) unfolding ocs outcome_true_def by (cases oc) auto
    ultimately show ?thesis using rounds w(1-3) a(5)
      by (intro exI [of _ rl'] exI [of _ sf'] exI [of _ cache''] exI [of _ db'] exI [of _ M'] exI [of _ ?r]) (auto split: if_splits)
  qed
qed

section \<open>A concrete relay\<close>

text \<open>A library that reads and prints the texts of one request: the event, and the message around it.\<close>

definition web_print :: "json \<Rightarrow> string" where
  "web_print v = (if v = JArray [JString ''EVENT'', sample_json] then ''[E'' else [])"

definition web_parse :: "string \<Rightarrow> json result" where
  "web_parse s = (if s = ''E'' then Inr sample_json else if s = ''[E'' then Inr (JArray [JString ''EVENT'', sample_json]) else Inr (JString s))"

definition web_lib :: lib where
  "web_lib = le_lib\<lparr>json_from_string := web_parse, json_to_string := web_print\<rparr>"

lemma web_lib_sel [simp]:
  "to_sv web_lib = to_sv le_lib" "from_sv web_lib = from_sv le_lib" "from_hex web_lib = from_hex le_lib"
  "to_hex web_lib = to_hex le_lib" "json_from_string web_lib = web_parse" "json_to_string web_lib = web_print"
  "sha256 web_lib = sha256 le_lib" "xonly_pubkey_parse web_lib = xonly_pubkey_parse le_lib"
  "schnorrsig_verify web_lib = schnorrsig_verify le_lib"
  by (simp_all add: web_lib_def)

lemma web_fields [simp]:
  "packed_created_at web_lib = packed_created_at le_lib" "packed_kind web_lib = packed_kind le_lib"
  "packed_expiration web_lib = packed_expiration le_lib" "pack_event web_lib = pack_event le_lib"
  by (simp_all add: fun_eq_iff packed_created_at_def packed_kind_def packed_expiration_def pack_event_def pack_def)

lemma web_index: "indexPrelude E web_lib buf = indexPrelude E le_lib buf"
proof -
  have "index_tag E web_lib p = index_tag E le_lib p" for p unfolding index_tag_def [abs_def] web_fields ..
  then show ?thesis unfolding indexPrelude_def web_fields web_lib_sel by simp
qed

interpretation web: event_env web_lib mem_env mem_key_le mem_tree_items
proof -
  have same: "index_entries mem_env web_lib = index_entries mem_env le_lib" unfolding index_entries_def [abs_def] web_index ..
  from mem.event_env_axioms show "event_env web_lib mem_env mem_key_le mem_tree_items"
    unfolding event_env_def event_env_axioms_def sv_codec_def web_lib_sel same .
qed

lemma web_accepted:
  "\<exists>packedStr. parseAndVerifyEvent web_lib sample_cfg 100 sample_json True True = Inr (packedStr, [])"
proof -
  have "nostrJsonToPackedEvent web_lib cfg v = nostrJsonToPackedEvent le_lib cfg v" for cfg v
  proof -
    have "pack_json_tag web_lib cfg = pack_json_tag le_lib cfg" unfolding pack_json_tag_def [abs_def] web_lib_sel ..
    then show ?thesis unfolding nostrJsonToPackedEvent_def PackedEventBuilder_def web_lib_sel by simp
  qed
  moreover have "verifyEventTimestamp web_lib cfg n p = verifyEventTimestamp le_lib cfg n p" for cfg n p
    unfolding verifyEventTimestamp_def web_fields ..
  moreover have "verifyNostrEvent web_lib p v = verifyNostrEvent le_lib p v" for p v
    by (simp add: verifyNostrEvent_def nostrHash_def verifySig_def) (simp add: le_lib_def)
  ultimately show ?thesis using sample_accepted
    by (auto simp: parseAndVerifyEvent_def bindE_eq_Inr Let_def web_print_def verifyNostrEventJsonSize_def)
qed

definition sample_params :: "mem_db relay_params" where
  "sample_params = \<lparr>rp_env = mem_env, rp_lib = web_lib, rp_what = (\<lambda>_. []), rp_from_sv32 = (\<lambda>_. 0),
     rp_decompress = (\<lambda>_ _. Inl (Herr ''no dictionary'')), rp_cfg = sample_relay_cfg\<rparr>"

definition ask_nobody :: "unit sifter_fun" where
  "ask_nobody _ _ _ sf = ((Accept, []), sf)"

lemma sample_relay_facts:
  "event_env (rp_lib sample_params) (rp_env sample_params) mem_key_le mem_tree_items"
  "freshenCache (rp_env sample_params) (rp_lib sample_params) one_db no_filters = Inr no_filters"
  "holds (rp_env sample_params) (rp_lib sample_params) mem_tree_items (fc_filters no_filters) one_db [1 \<mapsto> ev_old]"
  "lev_max (rp_env sample_params) one_db = 1" "hex_halves (rp_lib sample_params)" "idle 0 relay_idle"
  "json_ok (rp_lib sample_params) (rc_events (rp_cfg sample_params)) 100 sample_json"
proof -
  show "event_env (rp_lib sample_params) (rp_env sample_params) mem_key_le mem_tree_items"
    by (simp add: sample_params_def web.event_env_axioms)
  show "freshenCache (rp_env sample_params) (rp_lib sample_params) one_db no_filters = Inr no_filters"
    by (simp add: sample_params_def freshenCache_def one_db_def no_filters_def)
  show "holds (rp_env sample_params) (rp_lib sample_params) mem_tree_items (fc_filters no_filters) one_db [1 \<mapsto> ev_old]"
    using one_db_facts(2) by (simp add: sample_params_def holds_def)
  show "lev_max (rp_env sample_params) one_db = 1" by (simp add: sample_params_def one_db_facts)
  have "le_from_hex s = Inr raw \<Longrightarrow> length s = 2 * length raw" for s raw
    by (induction s arbitrary: raw rule: le_from_hex.induct) (auto simp: bindE_eq_Inr split: option.splits)
  then show "hex_halves (rp_lib sample_params)" by (simp add: hex_halves_def sample_params_def) (simp add: le_lib_def)
  show "idle 0 relay_idle" by (simp add: idle_def relay_idle_def)
  show "json_ok (rp_lib sample_params) (rc_events (rp_cfg sample_params)) 100 sample_json"
    using web_accepted
    by (auto simp: json_ok_def sample_params_def sample_relay_cfg_def web_print_def web_parse_def starts_with_def)
qed

section \<open>Properties\<close>



text \<open>
  C11. An event posted over HTTP gets its verdict, and the verdict is true: after the request
  was queued, one round of the ingester and one of the writer bring both threads back to
  their loops and fill the promise the request waits for.  Success means that an event with
  the id of the request is in the database; otherwise no such event was added.
\<close>

theorem http_event_answered:
  assumes "event_env (rp_lib P) (rp_env P) key_le tree_items"
    and "freshenCache (rp_env P) (rp_lib P) db cache = Inr cache'"
    and "holds (rp_env P) (rp_lib P) tree_items (fc_filters cache') db M" "consistent M"
    and "Suc (lev_max (rp_env P) db) < 2 ^ 64" "hex_halves (rp_lib P)" "idle p rl"
    and "http_submit P eventJson p rl = Inr (Inr (eventId, rl1))"
    and "\<And>v. json_from_string (rp_lib P) eventJson = Inr v \<Longrightarrow> json_ok (rp_lib P) (rc_events (rp_cfg P)) now v"
  shows "\<exists>rl' sf' cache'' db' M' r. http_rounds P ask now auth (rl1, sf, cache, db) = Inr (rl', sf', cache'', db') \<and>
    holds (rp_env P) (rp_lib P) tree_items (fc_filters cache') db' M' \<and> consistent M' \<and> promises rl' p = Some r \<and>
    (if pr_success r then \<exists>i. from_hex (rp_lib P) eventId False = Inr i \<and> has_id M' i
     else \<forall>i. from_hex (rp_lib P) eventId False = Inr i \<longrightarrow> has_id M' i \<longrightarrow> has_id M i)"
  by (rule http_rounds_answered [OF assms])

theorem http_event_answered_witness:
  "\<exists>rl1 rl' sf' cache'' db' M' r.
     http_submit sample_params ''E'' 0 relay_idle = Inr (Inr (replicate 64 CHR ''0'', rl1)) \<and>
     http_rounds sample_params ask_nobody 100 (\<lambda>_. None) (rl1, (), no_filters, one_db) = Inr (rl', sf', cache'', db') \<and>
     consistent M' \<and> promises rl' 0 = Some r"
proof -
  note f = sample_relay_facts
  have obj: "is_object sample_json" by (simp add: sample_json_def)
  obtain rl1 where s: "http_submit sample_params ''E'' 0 relay_idle = Inr (Inr (replicate 64 CHR ''0'', rl1))"
    unfolding http_submit_def sample_at
    by (simp add: sample_params_def web_parse_def obj sample_at)
  have ok: "json_ok (rp_lib sample_params) (rc_events (rp_cfg sample_params)) 100 v"
    if "json_from_string (rp_lib sample_params) ''E'' = Inr v" for v
    using that f(7) by (simp add: sample_params_def web_parse_def)
  have "Suc (lev_max (rp_env sample_params) one_db) < 2 ^ 64" by (simp add: f(4))
  from http_event_answered [OF f(1-3) one_db_facts(3) this f(5,6) s ok, of ask_nobody "\<lambda>_. None" "()"] s
  show ?thesis by blast
qed

end
