(* ===== verification/Relay_Gates.thy ===== *)
theory Relay_Gates
  imports Relay_Results
begin

text \<open>
  The gates in front of the database: what the ingester lets through to the writer, and what
  the write policy plugin lets through to the store.
\<close>

section \<open>What the ingester lets through\<close>

definition vetted :: "'db relay_params \<Rightarrow> 'db \<Rightarrow> u64 \<Rightarrow> string \<Rightarrow> string \<Rightarrow> bool" where
  "vetted P db now packedStr jsonStr \<longleftrightarrow>
     (\<exists>v. parseAndVerifyEvent (rp_lib P) (rc_events (rp_cfg P)) now v True True = Inr (packedStr, jsonStr)) \<and>
     (rc_whitelist_enabled (rp_cfg P) \<longrightarrow>
        isWhitelisted (whitelistConfig (rp_cfg P)) (to_hex (rp_lib P) (packed_pubkey packedStr))) \<and>
     lookupEventById (rp_env P) db (packed_id packedStr) = None"

lemma answer_frame:
  assumes "answer L pr c ok h w rl = Inr rl'"
  shows "tpWriter rl' = tpWriter rl" "promises rl' q \<noteq> promises rl q \<Longrightarrow> pr = Some q"
  using assms by (auto simp: answer_def set_value_def sendOKResponse_def sendToConn_def split: option.splits if_splits)

lemma ingesterProcessEvent_cases:
  assumes "ingesterProcessEvent P now db c ip v pr (rl, outs) = Inr (rl', outs')"
  obtains ok h w where "answer (rp_lib P) pr c ok h w rl = Inr rl'" "outs' = outs"
  | packedStr jsonStr where "rl' = rl" "outs' = outs @ [WrAddEvent c ip packedStr jsonStr pr]" "vetted P db now packedStr jsonStr"
proof (cases "parseAndVerifyEvent (rp_lib P) (rc_events (rp_cfg P)) now v True True")
  case (Inl e)
  then show thesis using assms that(1) by (cases e; auto simp: ingesterProcessEvent_def bindE_eq_Inr)
next
  case (Inr y)
  obtain packedStr jsonStr where y: "y = (packedStr, jsonStr)" by (cases y)
  have view: "PackedEventView packedStr = Inr packedStr"
    using assms by (auto simp: ingesterProcessEvent_def Inr y bindE_eq_Inr PackedEventView_def throw_if_def)
  show thesis
    using assms that(1) that(2) [of packedStr jsonStr] Inr y
    by (cases "lookupEventById (rp_env P) db (packed_id packedStr)")
      (auto simp: ingesterProcessEvent_def vetted_def view bindE_eq_Inr Let_def split: if_splits)
qed

lemma dispatch_frames [simp]:
  "tpWriter (sendToConn c s rl) = tpWriter rl" "promises (sendToConn c s rl) = promises rl"
  "tpWriter (sendNoticeError L c s rl) = tpWriter rl" "promises (sendNoticeError L c s rl) = promises rl"
  "tpWriter (sendOKResponse L c i b s rl) = tpWriter rl"
  by (simp_all add: sendToConn_def sendNoticeError_def sendOKResponse_def)

lemma handlers_frame:
  "ingesterProcessReq P c arr rl = Inr rl' \<Longrightarrow> tpWriter rl' = tpWriter rl \<and> promises rl' = promises rl"
  "ingesterProcessClose c arr rl = Inr rl' \<Longrightarrow> tpWriter rl' = tpWriter rl \<and> promises rl' = promises rl"
  "ingesterProcessNegentropy P c arr rl = Inr rl' \<Longrightarrow> tpWriter rl' = tpWriter rl \<and> promises rl' = promises rl"
  "ingesterProcessAuth P now c v (auth, rl) = Inr (auth', rl') \<Longrightarrow>
     tpWriter rl' = tpWriter rl \<and> promises rl' = promises rl \<and> auth c \<noteq> None"
  by (auto simp: ingesterProcessReq_def ingesterProcessClose_def ingesterProcessNegentropy_def ingesterProcessAuth_def
      bindE_eq_Inr Let_def split: if_splits option.splits)

lemma catch_all_cases:
  assumes "catch_all m h = Inr y"
  obtains "m = Inr y" | e where "m = Inl e" "e \<noteq> UB" "y = h e"
  using assms by (auto simp: catch_all_def split: sum.splits exn.splits)

text \<open>What a command may do to the state of the round.\<close>

definition good_step ::
    "'db relay_params \<Rightarrow> 'db \<Rightarrow> u64 \<Rightarrow> nat option \<Rightarrow> ing_state \<Rightarrow> ing_state \<Rightarrow> bool" where
  "good_step P db now pr st st' \<longleftrightarrow>
     (fst (snd st') = fst (snd st) \<or>
       (\<exists>c ip packedStr jsonStr. fst (snd st') = fst (snd st) @ [WrAddEvent c ip packedStr jsonStr pr] \<and> vetted P db now packedStr jsonStr)) \<and>
     (\<forall>q. promises (fst st') q \<noteq> promises (fst st) q \<longrightarrow> pr = Some q) \<and>
     (snd (snd st) = Map.empty \<longrightarrow> snd (snd st') = Map.empty)"

lemma good_step_same:
  "promises rl' = promises rl \<Longrightarrow> good_step P db now pr (rl, outs, auth) (rl', outs, auth)"
  by (simp add: good_step_def)

lemma ingest_cmd_step:
  assumes "ingest_cmd P now db c ip pr arr cmd (rl, outs, auth) = Inr (rl', outs', auth')"
  shows "good_step P db now pr (rl, outs, auth) (rl', outs', auth') \<and> tpWriter rl' = tpWriter rl"
proof -
  let ?st = "(rl, outs, auth)"
  have guarded: "good_step P db now pr ?st (rl', outs', auth') \<and> tpWriter rl' = tpWriter rl"
    if "catch_all (bindE m (\<lambda>rl'. Inr (rl', outs, auth))) (notice P c s ?st) = Inr (rl', outs', auth')"
      "\<And>x. m = Inr x \<Longrightarrow> tpWriter x = tpWriter rl \<and> promises x = promises rl" for m s
    using that(1) by (rule catch_all_cases) (use that(2) in \<open>auto simp: bindE_eq_Inr notice_def good_step_same\<close>)
  consider "cmd = ''EVENT''" | "cmd = ''AUTH''" | "cmd = ''REQ''" | "cmd = ''CLOSE''"
    | "starts_with cmd ''NEG-''" "cmd \<notin> {''EVENT'', ''AUTH'', ''REQ'', ''CLOSE''}"
    using assms by (auto simp: ingest_cmd_def split: if_splits)
  then show ?thesis
  proof cases
    case 1
    show ?thesis
    proof (cases "ingesterProcessEvent P now db c ip (arr ! 1) pr (rl, outs)")
      case (Inl e)
      have "outs' = outs \<and> auth' = auth \<and> answer (rp_lib P) pr c False
          (''error: '' @ what (rp_what P) e, ''?'') (''invalid: '' @ what (rp_what P) e, ''?'') rl = Inr rl'"
        using assms by (cases e; auto simp: ingest_cmd_def 1 Inl bindE_eq_Inr simp del: One_nat_def)
      then show ?thesis using answer_frame [of "rp_lib P" pr c] by (auto simp: good_step_def)
    next
      case (Inr y)
      then have y: "ingesterProcessEvent P now db c ip (arr ! 1) pr (rl, outs) = Inr (rl', outs')" "auth' = auth"
        using assms by (auto simp: ingest_cmd_def 1 simp del: One_nat_def split: prod.splits)
      from y(1) show ?thesis
        by (cases rule: ingesterProcessEvent_cases) (use y(2) answer_frame in \<open>auto simp: good_step_def\<close>)
    qed
  next
    case 2
    have "catch_all (bindE (ingesterProcessAuth P now c (arr ! 1) (auth, rl)) (\<lambda>(auth', rl'). Inr (rl', outs, auth')))
        (notice P c ''auth failed: '' ?st) = Inr (rl', outs', auth')"
      using assms by (simp add: ingest_cmd_def 2 del: One_nat_def)
    then show ?thesis
      by (rule catch_all_cases) (auto simp: bindE_eq_Inr notice_def good_step_def dest: handlers_frame(4))
  next
    case 3
    show ?thesis by (rule guarded [of "ingesterProcessReq P c arr rl"]) (use assms in \<open>auto simp: ingest_cmd_def 3 dest: handlers_frame(1)\<close>)
  next
    case 4
    show ?thesis by (rule guarded [of "ingesterProcessClose c arr rl"]) (use assms in \<open>auto simp: ingest_cmd_def 4 dest: handlers_frame(2)\<close>)
  next
    case 5
    show ?thesis by (rule guarded [of "ingesterProcessNegentropy P c arr rl" "''negentropy error: ''"])
      (use assms 5 in \<open>auto simp: ingest_cmd_def bindE_eq_Inr dest: handlers_frame(3)\<close>)
  qed
qed

lemma ingest_one_error:
  assumes "ingest_payload P now db c ip payload pr (rl, outs, auth) = Inl e" "e \<noteq> UB"
  shows "ingest_one P db (now, IngClientMessage c ip payload pr) (rl, outs, auth) =
    (case pr of Some p \<Rightarrow> bindE (set_value p False (''bad msg: '' @ what (rp_what P) e) ''?'' rl) (\<lambda>rl'. Inr (rl', outs, auth))
     | None \<Rightarrow> Inr (notice P c ''bad msg: '' (rl, outs, auth) e))"
  using assms by (cases e) (simp_all add: ingest_one_def split: option.split)

lemma ingest_one_step:
  assumes "ingest_one P db (now, IngClientMessage c ip payload pr) (rl, outs, auth) = Inr (rl', outs', auth')"
  shows "good_step P db now pr (rl, outs, auth) (rl', outs', auth') \<and> tpWriter rl' = tpWriter rl"
proof (cases "ingest_payload P now db c ip payload pr (rl, outs, auth)")
  case (Inl e)
  have "e \<noteq> UB" using assms by (auto simp: ingest_one_def Inl)
  from ingest_one_error [OF Inl this] show ?thesis
    using assms by (cases pr) (auto simp: good_step_def set_value_def notice_def split: if_splits)
next
  case (Inr st)
  then have "ingest_payload P now db c ip payload pr (rl, outs, auth) = Inr (rl', outs', auth')"
    using assms by (simp add: ingest_one_def)
  then show ?thesis
    by (auto simp: ingest_payload_def bindE_eq_Inr good_step_same split: if_splits dest: ingest_cmd_step)
qed

lemma ingest_one_close:
  "ingest_one P db (now, IngCloseConn c) (rl, outs, auth) = Inr (rl', outs', auth') \<Longrightarrow>
   outs' = outs \<and> auth' = auth \<and> promises rl' = promises rl \<and> tpWriter rl' = dispatch c (WrCloseConn c) (tpWriter rl)"
  by (auto simp: ingest_one_def)

lemma set_dispatchMulti: "set (concat (dispatchMulti k ms pool)) \<subseteq> set (concat pool) \<union> set ms"
proof (cases "pool = []")
  case False
  then have "pool ! (unat k mod length pool) \<in> set pool" by simp
  then show ?thesis unfolding dispatchMulti_def Let_def
    by (auto dest!: subsetD [OF set_update_subset_insert])
qed (simp add: dispatchMulti_def)

lemma dispatch_Multi: "dispatch k m pool = dispatchMulti k [m] pool"
  by (simp add: dispatch_def dispatchMulti_def)

lemma ingest_fold:
  assumes "foldE (ingest_one P db) msgs (rl, outs, auth) = Inr (rl', outs', auth')"
  shows "(\<forall>m\<in>set outs'. m \<in> set outs \<or> (\<exists>now\<in>fst ` set msgs. vetted P db now (msg_packed m) (msg_json m))) \<and>
    (\<forall>m\<in>set (concat (tpWriter rl')). is_add m \<longrightarrow> m \<in> set (concat (tpWriter rl))) \<and>
    (auth = Map.empty \<longrightarrow> auth' = Map.empty)"
  using assms
proof (induction msgs arbitrary: rl outs auth)
  case (Cons x msgs)
  obtain now m where x: "x = (now, m)" by (cases x)
  from Cons.prems obtain rl1 outs1 auth1 where step: "ingest_one P db (now, m) (rl, outs, auth) = Inr (rl1, outs1, auth1)"
    and rest: "foldE (ingest_one P db) msgs (rl1, outs1, auth1) = Inr (rl', outs', auth')"
    by (auto simp: bindE_eq_Inr x)
  have outs1: "\<forall>m\<in>set outs1. m \<in> set outs \<or> vetted P db now (msg_packed m) (msg_json m)"
    and pool: "\<forall>m\<in>set (concat (tpWriter rl1)). is_add m \<longrightarrow> m \<in> set (concat (tpWriter rl))"
    and auth1: "auth = Map.empty \<longrightarrow> auth1 = Map.empty"
  proof (atomize (full), cases m)
    case (IngCloseConn c)
    note s = ingest_one_close [OF step [unfolded IngCloseConn]]
    have "set (concat (tpWriter rl1)) \<subseteq> set (concat (tpWriter rl)) \<union> {WrCloseConn c}"
      using set_dispatchMulti [of c "[WrCloseConn c]" "tpWriter rl"] s by (simp add: dispatch_Multi)
    moreover have "\<not> is_add (WrCloseConn c)" by simp
    ultimately show "(\<forall>m\<in>set outs1. m \<in> set outs \<or> vetted P db now (msg_packed m) (msg_json m)) \<and>
      (\<forall>m\<in>set (concat (tpWriter rl1)). is_add m \<longrightarrow> m \<in> set (concat (tpWriter rl))) \<and> (auth = Map.empty \<longrightarrow> auth1 = Map.empty)"
      using s by blast
  next
    case (IngClientMessage c ip payload pr)
    note s = ingest_one_step [OF step [unfolded IngClientMessage]]
    then show "(\<forall>m\<in>set outs1. m \<in> set outs \<or> vetted P db now (msg_packed m) (msg_json m)) \<and>
      (\<forall>m\<in>set (concat (tpWriter rl1)). is_add m \<longrightarrow> m \<in> set (concat (tpWriter rl))) \<and> (auth = Map.empty \<longrightarrow> auth1 = Map.empty)"
      by (auto simp: good_step_def)
  qed
  note IH = Cons.IH [OF rest]
  have "m' \<in> set outs \<or> (\<exists>now\<in>fst ` set (x # msgs). vetted P db now (msg_packed m') (msg_json m'))" if "m' \<in> set outs'" for m'
    using IH outs1 that by (auto simp: x)
  moreover have "m' \<in> set (concat (tpWriter rl))" if "m' \<in> set (concat (tpWriter rl'))" "is_add m'" for m'
    using IH pool that by blast
  ultimately show ?case using IH auth1 by blast
qed simp

section \<open>The plugin\<close>

lemma read_response_said:
  assumes "read_response L request bufs = (Inr response, k)"
  shows "\<exists>buf i. buf \<in> set bufs \<and> json_from_string L buf = Inr response \<and> bindE (json_at response ''id'') get_string = Inr i \<and>
    bindE (json_at request ''event'') (\<lambda>ev. bindE (json_at ev ''id'') get_string) = Inr i"
  using assms
proof (induction bufs arbitrary: k)
  case (Cons buf bufs)
  show ?case
  proof (cases "json_from_string L buf")
    case (Inl e)
    obtain r n where r: "read_response L request bufs = (r, n)" by (cases "read_response L request bufs")
    then have "r = Inr response" using Cons.prems by (simp add: Inl)
    with Cons.IH r show ?thesis by fastforce
  next
    case (Inr v)
    then show ?thesis using Cons.prems by (auto simp: bindE_eq_Inr split: if_splits intro!: exI [of _ buf])
  qed
qed simp

lemma read_verdict_accept:
  "read_verdict response = Inr (Accept, msg) \<Longrightarrow> bindE (json_at response ''action'') get_string = Inr ''accept''"
  by (auto simp: read_verdict_def bindE_eq_Inr split: if_splits)

lemma plugin_request_event: "plugin_request Os v src info w = Inr request \<Longrightarrow> json_at request ''event'' = Inr v"
  by (auto simp: plugin_request_def bindE_eq_Inr json_at_def split: if_splits)

lemma get_string_Inr: "get_string v = Inr s \<longleftrightarrow> v = JString s"
  by (cases v) simp_all

lemma ask_plugin_accept:
  assumes "ask_plugin Os L pl v src info w = (Inr (Accept, msg), w')"
  shows "\<exists>h w1 buf response i. buf \<in> set (os_lines Os h w1) \<and> json_from_string L buf = Inr response \<and>
    json_at v ''id'' = Inr (JString i) \<and> json_at response ''id'' = Inr (JString i) \<and>
    json_at response ''action'' = Inr (JString ''accept'')"
proof -
  obtain request where req: "plugin_request Os v src info w = Inr request"
    using assms by (cases "plugin_request Os v src info w") (simp_all add: ask_plugin_def)
  obtain n w1 where fw: "os_fwrite Os (pl_handle pl) (json_to_string L request @ [CHR 0x0A]) w = (n, w1)" by (rule prod.exhaust)
  obtain r k where rd: "read_response L request (os_lines Os (pl_handle pl) w1) = (r, k)" by (rule prod.exhaust)
  obtain response where "r = Inr response" "read_verdict response = Inr (Accept, msg)"
    using assms by (auto simp: ask_plugin_def req fw rd bindE_eq_Inr split: if_splits)
  with rd read_response_said [of L request "os_lines Os (pl_handle pl) w1" response k] read_verdict_accept [of response msg]
    plugin_request_event [OF req] show ?thesis
    by (simp add: bindE_eq_Inr get_string_Inr) blast
qed

section \<open>Properties\<close>

text \<open>
  C14. Only vetted events reach the writer: every event that a round of the ingester appends to
  the inbox of the writer was accepted by \<^verbatim>\<open>parseAndVerifyEvent\<close> with all checks on, comes from
  an author on the whitelist when the whitelist is on, and is not yet in the database.
\<close>

theorem only_vetted_events:
  assumes "ingester_round P db msgs (rl, auth) = Inr (rl', auth')"
    and "WrAddEvent c ip packedStr jsonStr pr \<in> set (concat (tpWriter rl'))"
    and "WrAddEvent c ip packedStr jsonStr pr \<notin> set (concat (tpWriter rl))"
  shows "\<exists>now\<in>fst ` set msgs. vetted P db now packedStr jsonStr"
proof -
  obtain rl1 outs auth1 where f: "foldE (ingest_one P db) msgs (rl, [], auth) = Inr (rl1, outs, auth1)"
    and rl': "rl' = (if outs \<noteq> [] then rl1\<lparr>tpWriter := dispatchMulti 0 outs (tpWriter rl1)\<rparr> else rl1)"
    using assms(1) by (auto simp: ingester_round_def bindE_eq_Inr)
  have "WrAddEvent c ip packedStr jsonStr pr \<in> set (concat (tpWriter rl1)) \<union> set outs"
    using assms(2) set_dispatchMulti [of 0 outs "tpWriter rl1"] unfolding rl' by (auto split: if_splits)
  then show ?thesis using ingest_fold [OF f] assms(3) by (metis UnE empty_iff is_add.simps(1) msg_json.simps(1) msg_packed.simps(1) set_empty2)
qed


definition strict_params :: "mem_db relay_params" where
  "strict_params = sample_params\<lparr>rp_cfg := sample_relay_cfg\<lparr>rc_whitelist_enabled := True,
     rc_whitelist_pubkeys := '' , '' @ replicate 64 CHR ''0''\<rparr>\<rparr>"

lemma strict_params_sel [simp]:
  "rp_lib strict_params = web_lib" "rp_env strict_params = mem_env" "rc_events (rp_cfg strict_params) = sample_cfg"
  "rc_whitelist_enabled (rp_cfg strict_params)" "whitelistConfig (rp_cfg strict_params) = '' , '' @ replicate 64 CHR ''0''"
  by (simp_all add: strict_params_def sample_params_def sample_relay_cfg_def whitelistConfig_def)

lemma zeros_hex: "le_to_hex (replicate n CHR 0x00) = replicate (2 * n) CHR ''0''"
  by (induction n) (simp_all add: le_to_hex_def hex_digit_def)

lemma strict_whitelist: "isWhitelisted ('' , '' @ replicate 64 CHR ''0'') (to_hex le_lib (replicate 32 CHR 0x00))"
proof -
  let ?z = "replicate 64 CHR ''0''"
  have "getlines (CHR '' '' # ?z) = [CHR '' '' # ?z]"
    by (subst getlines.simps) (simp add: takeWhile_replicate dropWhile_replicate getlines.simps)
  then have "getlines ('' , '' @ ?z) = ['' '', CHR '' '' # ?z]" by (subst getlines.simps) simp
  moreover have "trim_space (CHR '' '' # ?z) = ?z" by (simp add: trim_space_def is_trimmed_def dropWhile_replicate rev_replicate)
  moreover have "to_hex le_lib (replicate 32 CHR 0x00) = ?z" using zeros_hex [of 32] by (simp add: le_lib_def)
  ultimately show ?thesis by (simp add: isWhitelisted_def)
qed

lemma strict_ingests:
  "\<exists>rl' auth' packedStr. ingester_round strict_params one_db [(100, IngClientMessage 1 ''ip'' ''[E'' None)] (relay_idle, Map.empty) = Inr (rl', auth') \<and>
     WrAddEvent 1 ''ip'' packedStr [] None \<in> set (concat (tpWriter rl'))"
proof -
  obtain packedStr where acc: "parseAndVerifyEvent web_lib sample_cfg 100 sample_json True True = Inr (packedStr, [])"
    using web_accepted by blast
  have "nostrJsonToPackedEvent web_lib sample_cfg sample_json = Inr packedStr" using parseAndVerifyEvent_checks [OF acc] by simp
  then obtain e i pk where e: "packedStr = pack_event web_lib e" "wf_event e" "json_at sample_json ''id'' = Inr (JString i)"
    "from_hex web_lib i False = Inr (ev_id e)" "json_at sample_json ''pubkey'' = Inr (JString pk)" "from_hex web_lib pk False = Inr (ev_pubkey e)"
    by (rule nostrJsonToPackedEvent_event)
  have zero: "ev_id e = replicate 32 CHR 0x00" "ev_pubkey e = replicate 32 CHR 0x00"
    using e(3-6) sample_at(3,5) sample_hex(1) by auto
  note view = le.packed_fields_event [OF e(2)]
  have "\<not> has_id [1 \<mapsto> ev_old] (ev_id e)" by (auto simp: has_id_def zero ev_old_def split: if_splits)
  then have look: "lookupEventById mem_env one_db (ev_id e) = None"
    using web.lookupEventById_correct(1) [of _ one_db "[1 \<mapsto> ev_old]" "ev_id e"] sample_relay_facts(3)
    by (simp add: sample_params_def zero)
  have "ingesterProcessEvent strict_params 100 one_db 1 ''ip'' sample_json None (relay_idle, []) =
      Inr (relay_idle, [WrAddEvent 1 ''ip'' packedStr [] None])"
    using acc look strict_whitelist by (simp add: ingesterProcessEvent_def e(1) view zero)
  then show ?thesis
    by (simp add: ingester_round_def ingest_one_def ingest_payload_def ingest_cmd_def web_parse_def starts_with_def
        jsonGetArray_def jsonGetString_def throw_if_def dispatchMulti_def relay_idle_def)
qed

theorem only_vetted_events_witness:
  "\<exists>packedStr. vetted strict_params one_db 100 packedStr []"
proof -
  obtain rl' auth' packedStr where
    w: "ingester_round strict_params one_db [(100, IngClientMessage 1 ''ip'' ''[E'' None)] (relay_idle, Map.empty) = Inr (rl', auth')"
      "WrAddEvent 1 ''ip'' packedStr [] None \<in> set (concat (tpWriter rl'))"
    using strict_ingests by blast
  have "WrAddEvent 1 ''ip'' packedStr [] None \<notin> set (concat (tpWriter relay_idle))" by (simp add: relay_idle_def)
  from only_vetted_events [OF w this] show ?thesis by auto
qed

text \<open>
  C24. The write policy fails closed: an event passes the plugin only when no plugin is
  configured, or when a running plugin wrote a line that is a JSON object with the id of this
  very event and the action \<^verbatim>\<open>accept\<close>.
\<close>

theorem plugin_fails_closed:
  assumes "acceptEvent Os L pluginCmd v src info sf = ((Accept, msg), sf')"
  shows "pluginCmd = [] \<or> (\<exists>h w buf response i. buf \<in> set (os_lines Os h w) \<and> json_from_string L buf = Inr response \<and>
    json_at v ''id'' = Inr (JString i) \<and> json_at response ''id'' = Inr (JString i) \<and>
    json_at response ''action'' = Inr (JString ''accept''))"
proof (cases "pluginCmd = []")
  case cmd: False
  obtain r sf1 where c: "check_running Os pluginCmd sf = (r, sf1)" by (rule prod.exhaust)
  obtain u where r: "r = Inr u" using assms cmd by (cases r) (simp_all add: acceptEvent_def c)
  obtain q sf2 where e: "ensure_running Os pluginCmd sf1 = (q, sf2)" by (rule prod.exhaust)
  obtain pl where q: "q = Inr pl" using assms cmd by (cases q) (simp_all add: acceptEvent_def c r e)
  obtain a w where a: "ask_plugin Os L pl v src info (snd sf2) = (a, w)" by (rule prod.exhaust)
  have "a = Inr (Accept, msg)" using assms cmd by (cases a) (simp_all add: acceptEvent_def c r e q a)
  with a show ?thesis using ask_plugin_accept [of Os L pl v src info "snd sf2" msg w] by simp
qed simp

text \<open>A plugin that accepts the event with the id \<open>x\<close>.\<close>

definition yes_os :: "(unit, unit) plugin_os" where
  "yes_os = \<lparr>os_stat = (\<lambda>_ _. Some (1, 0)), os_spawn = (\<lambda>_ w. (Inr (), w)), os_fwrite = (\<lambda>_ s w. (length s, w)),
     os_lines = (\<lambda>_ _. [''yes'']), os_read = (\<lambda>_ _ w. w), os_close = (\<lambda>_ w. w), os_time = (\<lambda>_. 0), os_inet_ntop = (\<lambda>_ s. s)\<rparr>"

definition yes_lib :: lib where
  "yes_lib = le_lib\<lparr>json_from_string := (\<lambda>_. Inr (JObject [(''action'', JString ''accept''), (''id'', JString ''x'')]))\<rparr>"

theorem plugin_fails_closed_witness:
  "fst (acceptEvent yes_os yes_lib ''plugin'' (JObject [(''id'', JString ''x'')]) Src_IP4 ''1234'' (None, ())) = (Accept, []) \<and>
   (\<exists>h w buf. buf \<in> set (os_lines yes_os h w))"
proof -
  have "\<exists>sf'. acceptEvent yes_os yes_lib ''plugin'' (JObject [(''id'', JString ''x'')]) Src_IP4 ''1234'' (None, ()) = ((Accept, []), sf')"
    by (simp add: acceptEvent_def check_running_def ensure_running_def setupPlugin_def ask_plugin_def plugin_request_def
        renderIP_def read_verdict_def json_at_def json_find_def yes_os_def yes_lib_def has_space_def str_find_def starts_with_def)
  then obtain sf' where a: "acceptEvent yes_os yes_lib ''plugin'' (JObject [(''id'', JString ''x'')]) Src_IP4 ''1234'' (None, ()) = ((Accept, []), sf')" by blast
  from plugin_fails_closed [OF a] have "\<exists>h w buf. buf \<in> set (os_lines yes_os h w)" by auto
  with a show ?thesis by simp
qed

text \<open>
  C40. With a write policy plugin no event over HTTP gets in: its source is the text
  \<^verbatim>\<open>http-post\<close>, nine bytes that are taken for the bytes of an IPv6 address, so that rendering
  the request for the plugin throws, and the event is turned down.
\<close>

theorem plugin_blocks_http:
  assumes "pluginCmd \<noteq> []"
    and "prepare_one P (acceptEvent Os L pluginCmd) (n, WrAddEvent connId ''http-post'' packedStr jsonStr pr) (rl, sf, newEvents) =
      Inr (rl', sf', newEvents')"
  shows "newEvents' = newEvents \<and>
    fst (acceptEvent Os L pluginCmd v Src_IP6 ''http-post'' sf) = (Reject, ''error: internal error'')"
proof -
  have req: "plugin_request Os v Src_IP6 ''http-post'' w = Inl (Herr ''invalid size of ipBytes, unable to render IP'')" for v w
    by (simp add: plugin_request_def renderIP_def)
  have no: "fst (acceptEvent Os L pluginCmd v Src_IP6 ''http-post'' sf) = (Reject, ''error: internal error'')" for v
    using assms(1) by (auto simp: acceptEvent_def ask_plugin_def req split: prod.split sum.split)
  obtain v where v: "json_from_string (rp_lib P) jsonStr = Inr v" using assms(2) by (auto simp: bindE_eq_Inr)
  obtain sf1 where "acceptEvent Os L pluginCmd v Src_IP6 ''http-post'' sf = ((Reject, ''error: internal error''), sf1)"
    using no [of v] by (metis prod.collapse)
  then have "newEvents' = newEvents" using assms(2) v by (auto simp: bindE_eq_Inr Let_def)
  with no show ?thesis by blast
qed

theorem plugin_blocks_http_witness:
  "\<exists>rl' sf'. prepare_one sample_params (acceptEvent yes_os yes_lib ''plugin'')
     (0, WrAddEvent 0 ''http-post'' (pack_event web_lib ev_new) ''{}'' None) (relay_idle, (None, ()), []) = Inr (rl', sf', [])"
proof -
  let ?a = "acceptEvent yes_os yes_lib ''plugin'' (JString ''{}'') Src_IP6 ''http-post'' (None, ())"
  have "fst (fst ?a) \<noteq> Accept"
    by (simp add: acceptEvent_def check_running_def ensure_running_def setupPlugin_def ask_plugin_def plugin_request_def
        renderIP_def yes_os_def has_space_def str_find_def starts_with_def)
  then obtain res m sf1 where a: "?a = ((res, m), sf1)" "res \<noteq> Accept" by (metis prod.collapse)
  have "\<exists>rl' sf' evs. prepare_one sample_params (acceptEvent yes_os yes_lib ''plugin'')
     (0, WrAddEvent 0 ''http-post'' (pack_event web_lib ev_new) ''{}'' None) (relay_idle, (None, ()), []) = Inr (rl', sf', evs)"
    using a le.packed_fields_event [OF one_db_facts(5)]
    by (cases sf1) (simp add: sample_params_def web_parse_def set_value_opt_def Let_def)
  then obtain rl' sf' evs where p: "prepare_one sample_params (acceptEvent yes_os yes_lib ''plugin'')
     (0, WrAddEvent 0 ''http-post'' (pack_event web_lib ev_new) ''{}'' None) (relay_idle, (None, ()), []) = Inr (rl', sf', evs)" by blast
  have "evs = []" using plugin_blocks_http [OF _ p] by simp
  with p show ?thesis by blast
qed

text \<open>
  Nobody can authenticate: the table of challenges starts empty and no message puts
  anything in it, so that an AUTH message only ever gets an error notice.
\<close>

theorem auth_never_succeeds:
  assumes "ingester_round P db msgs (rl, Map.empty) = Inr (rl', auth')"
  shows "auth' = Map.empty \<and> (\<forall>now c v. \<exists>e. ingesterProcessAuth P now c v (auth', rl') = Inl e)"
proof -
  have "auth' = Map.empty"
    using assms ingest_fold [of P db msgs rl "[]" Map.empty] by (auto simp: ingester_round_def bindE_eq_Inr)
  moreover have "\<exists>e. ingesterProcessAuth P now c v (Map.empty, rl') = Inl e" for now c v
    using handlers_frame(4) [of P now c v Map.empty rl'] by (cases "ingesterProcessAuth P now c v (Map.empty, rl')") auto
  ultimately show ?thesis by blast
qed

theorem auth_never_succeeds_witness:
  "\<exists>rl'. ingester_round sample_params one_db [(100, IngClientMessage 7 ''1234'' ''no JSON'' None)] (relay_idle, Map.empty) = Inr (rl', Map.empty)"
proof -
  obtain rl' auth' where r: "ingester_round sample_params one_db [(100, IngClientMessage 7 ''1234'' ''no JSON'' None)] (relay_idle, Map.empty) = Inr (rl', auth')"
    by (simp add: ingester_round_def ingest_one_def ingest_payload_def starts_with_def notice_def)
  from auth_never_succeeds [OF r] r show ?thesis by auto
qed

text \<open>
  C23. The second copy of a refused event is reported as stored: when an event that the store
  refuses, because it was deleted or has a newer version, is twice in one batch, the second
  copy has the id of the event before it, is taken for a duplicate and answered with
  success, although no event with that id is in the database.
\<close>

theorem twin_reported_stored:
  assumes "event_env L E key_le tree_items"
    and "freshenCache E L db cache = Inr cache'" "holds E L tree_items (fc_filters cache') db M" "consistent M"
    and "wf_event e" "full_refs e" "lev_max E db + 2 < 2 ^ 64" "spec_status M None e \<in> {Replaced, Deleted}"
  shows "\<exists>first second db'. writeEvents E L cache (map (to_write L) [(e, js, u), (e, js', u')]) db = Inr ([first, second], db', cache') \<and>
    \<not> fst (status_verdict (ew_status first)) \<and> fst (status_verdict (ew_status second)) \<and> lookupEventById E db' (ev_id e) = None"
proof -
  let ?xs = "[(e, js, u), (e, js', u')]"
  have order: "batch_order ?xs = ?xs" by (simp add: batch_order_def)
  have "\<And>x. x \<in> set ?xs \<Longrightarrow> wf_event (fst x) \<and> full_refs (fst x)" "lev_max E db + length ?xs < 2 ^ 64" using assms(5-7) by auto
  from event_env.writeEvents_correct [OF assms(1-4) this] obtain evs db' M' where
    run: "writeEvents E L cache (map (to_write L) ?xs) db = Inr (evs, db', cache')"
      "spec_run M None (zip (map fst (batch_order ?xs)) (map ew_levId evs)) = (map ew_status evs, M')"
      "holds E L tree_items (fc_filters cache') db' M'"
      "list_all2 (\<lambda>x ev. ew_packedStr ev = pack_event L (fst x) \<and> ew_jsonStr ev = fst (snd x) \<and>
        ew_userData ev = snd (snd x) \<and> (ew_status ev = Written \<longrightarrow> stored E db db' M' x ev)) (batch_order ?xs) evs"
    by blast
  obtain a b where evs: "evs = [a, b]" using run(4) unfolding order by (auto simp: list_all2_Cons1)
  have st: "ew_status a = spec_status M None e" "ew_status b = Duplicate" "M' = M"
    using run(2) assms(8) by (auto simp: order evs spec_status_def split: if_splits)
  have "\<not> has_id M (ev_id e)" using assms(8) by (auto simp: spec_status_def split: if_splits)
  then have "lookupEventById E db' (ev_id e) = None"
    using event_env.lookupEventById_correct(1) [OF assms(1) run(3)] assms(5) by (simp add: st(3) wf_event_def)
  then show ?thesis using run(1) st assms(8) by (intro exI [of _ a] exI [of _ b] exI [of _ db']) (auto simp: evs)
qed

definition new_db :: mem_db where
  "new_db = \<lparr>md_events = [(1, pack_event le_lib ev_new)], md_payloads = [(1, CHR 0x00 # ''{}'')],
     md_trees = [], md_filters = [], md_counter = 0\<rparr>"

theorem twin_reported_stored_witness:
  "\<exists>first second db'. writeEvents mem_env le_lib no_filters (map (to_write le_lib) [(ev_old, ''{}'', Some 0), (ev_old, ''{}'', Some 1)]) new_db =
      Inr ([first, second], db', no_filters) \<and>
    \<not> fst (status_verdict (ew_status first)) \<and> fst (status_verdict (ew_status second)) \<and> lookupEventById mem_env db' (ev_id ev_old) = None"
proof (rule twin_reported_stored [OF mem.event_env_axioms])
  show "freshenCache mem_env le_lib new_db no_filters = Inr no_filters" by (simp add: freshenCache_def new_db_def no_filters_def)
  show "holds mem_env le_lib mem_tree_items (fc_filters no_filters) new_db [1 \<mapsto> ev_new]"
    using one_db_facts(5) by (simp add: holds_def new_db_def no_filters_def fun_eq_iff)
  show "consistent [1 \<mapsto> ev_new]" using one_db_facts(5) by (simp add: consistent_def split: if_splits)
  show "wf_event ev_old" by (rule one_db_facts)
  show "full_refs ev_old" by (simp add: full_refs_def ev_old_def)
  show "lev_max mem_env new_db + 2 < 2 ^ 64" by (simp add: lev_max_def new_db_def)
  show "spec_status [1 \<mapsto> ev_new] None ev_old \<in> {Replaced, Deleted}"
    by (auto simp: spec_status_def has_id_def deletes_def beats_def same_slot_def first_d_def isParamReplaceableKind_def ev_old_def ev_new_def
        split: if_splits)
qed

end
