(* ===== verification/Query_Scheduler.thy ===== *)
theory Query_Scheduler
  imports Db_Query "HOL-Library.AList"
begin

text \<open>
  The scheduler that shares a thread between the queries of many clients
  (\<^verbatim>\<open>src/src/QueryScheduler.h\<close>).  The queries are allocated with \<^verbatim>\<open>new\<close>, pointed to from the
  table of connections and from the queue of running queries, and freed when their turn
  comes: they live in an explicit heap, and following a pointer to a freed query is \<open>UB\<close>.
  What the library of theorems shows: the two sets of pointers always agree with the heap,
  nothing leaks, and a query that was removed says nothing any more.
\<close>

section \<open>State and operations\<close>

type_synonym conn_table = "(string \<times> nat) list"

record scheduler =
  qs_heap :: "nat \<rightharpoonup> dbquery"
  qs_next :: nat
  qs_conns :: "(u64 \<times> conn_table) list"
  qs_running :: "nat list"
  qs_levIdBatch :: "u64 list"

definition empty_scheduler :: scheduler where
  "empty_scheduler = \<lparr>qs_heap = Map.empty, qs_next = 0, qs_conns = [], qs_running = [], qs_levIdBatch = []\<rparr>"

text \<open>The callbacks of the scheduler, on the world \<open>'w\<close> of the thread that owns it, and its switch.\<close>

record 'w sched_cbs =
  cb_onEvent :: "(subscription \<Rightarrow> u64 \<Rightarrow> string \<Rightarrow> 'w \<Rightarrow> 'w result) option"
  cb_onEventBatch :: "(subscription \<Rightarrow> u64 list \<Rightarrow> 'w \<Rightarrow> 'w result) option"
  cb_onComplete :: "(subscription \<Rightarrow> 'w \<Rightarrow> 'w result) option"
  cb_ensureExists :: bool

definition conn_queries :: "u64 \<Rightarrow> scheduler \<Rightarrow> conn_table" where
  "conn_queries connId s = (case map_of (qs_conns s) connId of None \<Rightarrow> [] | Some cq \<Rightarrow> cq)"

definition findQuery :: "u64 \<Rightarrow> string \<Rightarrow> scheduler \<Rightarrow> nat option" where
  "findQuery connId subId s = map_of (conn_queries connId s) subId"

text \<open>\<^verbatim>\<open>query->dead = true\<close>.\<close>

definition set_dead :: "nat \<Rightarrow> scheduler \<Rightarrow> scheduler result" where
  "set_dead a s =
     (case qs_heap s a of None \<Rightarrow> Inl UB | Some q \<Rightarrow> Inr (s\<lparr>qs_heap := (qs_heap s)(a \<mapsto> q\<lparr>dq_dead := True\<rparr>)\<rparr>))"

definition sched_removeSub :: "u64 \<Rightarrow> string \<Rightarrow> scheduler \<Rightarrow> scheduler result" where
  "sched_removeSub connId subId s =
     (case findQuery connId subId s of
        None \<Rightarrow> Inr s
      | Some query \<Rightarrow>
          bindE (set_dead query s) (\<lambda>s1.
          let cq = AList.delete subId (conn_queries connId s1)
          in Inr (s1\<lparr>qs_conns := (if cq = [] then AList.delete connId (qs_conns s1) else AList.update connId cq (qs_conns s1))\<rparr>)))"

definition sched_addSub :: "'db env \<Rightarrow> nat \<Rightarrow> 'db \<Rightarrow> subscription \<Rightarrow> scheduler \<Rightarrow> (bool \<times> scheduler) result" where
  "sched_addSub E maxSubsPerConnection db sub0 s =
     (let sub = sub0\<lparr>sub_latestEventId := getMostRecentLevId E db\<rparr>
      in bindE (case findQuery (sub_connId sub) (sub_subId sub) s of
                  None \<Rightarrow> Inr s
                | Some _ \<Rightarrow> sched_removeSub (sub_connId sub) (sub_subId sub) s) (\<lambda>s1.
         let cq = conn_queries (sub_connId sub) s1; a = qs_next s1
         in if length cq \<ge> maxSubsPerConnection
            then Inr (False, s1\<lparr>qs_conns := AList.update (sub_connId sub) cq (qs_conns s1)\<rparr>)
            else Inr (True, s1\<lparr>qs_heap := (qs_heap s1)(a \<mapsto> DBQuery sub), qs_next := Suc a,
                   qs_conns := AList.update (sub_connId sub) (AList.update (sub_subId sub) a cq) (qs_conns s1),
                   qs_running := a # qs_running s1\<rparr>)))"

definition sched_closeConn :: "u64 \<Rightarrow> scheduler \<Rightarrow> scheduler result" where
  "sched_closeConn connId s =
     (case map_of (qs_conns s) connId of
        None \<Rightarrow> Inr s
      | Some cq \<Rightarrow>
          bindE (foldE (\<lambda>x. set_dead (snd x)) cq s) (\<lambda>s1. Inr (s1\<lparr>qs_conns := AList.delete connId (qs_conns s1)\<rparr>)))"

text \<open>The callback that the query runs on each event; its state is the world and the batch.\<close>

definition sched_event ::
    "'db env \<Rightarrow> 'db \<Rightarrow> 'w sched_cbs \<Rightarrow> subscription \<Rightarrow> u64 \<Rightarrow> 'w \<times> u64 list \<Rightarrow> ('w \<times> u64 list) result" where
  "sched_event E db C sub levId st =
     (let send = (\<lambda>eventPayload.
            bindE (case cb_onEvent C of None \<Rightarrow> Inr (fst st) | Some f \<Rightarrow> f sub levId eventPayload (fst st)) (\<lambda>w.
            Inr (w, if cb_onEventBatch C \<noteq> None then snd st @ [levId] else snd st)))
      in if cb_ensureExists C then (case payload_get E db levId of None \<Rightarrow> Inr st | Some p \<Rightarrow> send p) else send [])"

text \<open>
  One turn.  \<open>n\<close> bounds the loops of the query as in \<open>process\<close>, \<open>t\<close> numbers the readings of the
  clock.  The query is taken from the heap, run, and put back.
\<close>

definition sched_process ::
    "nat \<Rightarrow> 'db env \<Rightarrow> lib \<Rightarrow> (nat \<Rightarrow> u64) \<Rightarrow> 'db \<Rightarrow> 'w sched_cbs \<Rightarrow> u64 \<Rightarrow> scheduler \<times> nat \<times> 'w \<Rightarrow>
     ((scheduler \<times> nat \<times> 'w) result) option" where
  "sched_process n E L clock db C budget st =
     (let (s, t, w) = st
      in case qs_running s of
           [] \<Rightarrow> Some (Inr st)
         | a # rest \<Rightarrow>
             (case qs_heap s a of
                None \<Rightarrow> Some (Inl UB)
              | Some q \<Rightarrow>
                  if dq_dead q then Some (Inr (s\<lparr>qs_heap := (qs_heap s)(a := None), qs_running := rest\<rparr>, t, w))
                  else
                    (case process n E L clock db (sched_event E db C (dq_sub q)) budget (q, t, w, qs_levIdBatch s) of
                       None \<Rightarrow> None
                     | Some (Inl e) \<Rightarrow> Some (Inl e)
                     | Some (Inr (finished, q', t', w', batch)) \<Rightarrow>
                         Some (
                           bindE (case cb_onEventBatch C of
                                    None \<Rightarrow> Inr (w', batch)
                                  | Some f \<Rightarrow> bindE (f (dq_sub q') batch w') (\<lambda>w1. Inr (w1, []))) (\<lambda>(w1, batch1).
                           let s1 = s\<lparr>qs_heap := (qs_heap s)(a \<mapsto> q'), qs_running := rest, qs_levIdBatch := batch1\<rparr>
                           in if finished then
                                bindE (sched_removeSub (sub_connId (dq_sub q')) (sub_subId (dq_sub q')) s1) (\<lambda>s2.
                                bindE (case cb_onComplete C of None \<Rightarrow> Inr w1 | Some f \<Rightarrow> f (dq_sub q') w1) (\<lambda>w2.
                                Inr (s2\<lparr>qs_heap := (qs_heap s2)(a := None)\<rparr>, t', w2)))
                              else Inr (s1\<lparr>qs_running := rest @ [a]\<rparr>, t', w1))))))"

section \<open>Pointers and heap\<close>

text \<open>
  The invariant: the queue names each allocated query once and nothing else; the table names
  exactly the live ones, each under its own connection and id.
\<close>

definition sched_inv :: "scheduler \<Rightarrow> bool" where
  "sched_inv s \<longleftrightarrow> distinct (qs_running s) \<and> set (qs_running s) = dom (qs_heap s) \<and>
     (\<forall>a\<in>dom (qs_heap s). a < qs_next s) \<and> (\<forall>c. distinct (map fst (conn_queries c s))) \<and>
     (\<forall>c i a. findQuery c i s = Some a \<longleftrightarrow>
        (\<exists>q. qs_heap s a = Some q \<and> \<not> dq_dead q \<and> sub_connId (dq_sub q) = c \<and> sub_subId (dq_sub q) = i))"

lemma sched_inv_empty: "sched_inv empty_scheduler"
  by (simp add: sched_inv_def empty_scheduler_def findQuery_def conn_queries_def)

text \<open>The table as a map, and how the operations change it.\<close>

lemma findQuery_heap [simp]:
  "findQuery c i (s\<lparr>qs_heap := h\<rparr>) = findQuery c i s" "findQuery c i (s\<lparr>qs_running := r\<rparr>) = findQuery c i s"
  "findQuery c i (s\<lparr>qs_next := n\<rparr>) = findQuery c i s" "findQuery c i (s\<lparr>qs_levIdBatch := b\<rparr>) = findQuery c i s"
  by (simp_all add: findQuery_def conn_queries_def)

lemma conn_queries_heap [simp]:
  "conn_queries c (s\<lparr>qs_heap := h\<rparr>) = conn_queries c s" "conn_queries c (s\<lparr>qs_running := r\<rparr>) = conn_queries c s"
  "conn_queries c (s\<lparr>qs_next := n\<rparr>) = conn_queries c s" "conn_queries c (s\<lparr>qs_levIdBatch := b\<rparr>) = conn_queries c s"
  by (simp_all add: conn_queries_def)

lemma conn_queries_conns:
  "conn_queries c (s\<lparr>qs_conns := AList.update c' cq (qs_conns s)\<rparr>) = (if c = c' then cq else conn_queries c s)"
  "conn_queries c (s\<lparr>qs_conns := AList.delete c' (qs_conns s)\<rparr>) = (if c = c' then [] else conn_queries c s)"
  by (simp_all add: conn_queries_def update_conv' delete_conv')

lemma set_dead_Inr:
  assumes "qs_heap s a = Some q"
  shows "set_dead a s = Inr (s\<lparr>qs_heap := (qs_heap s)(a \<mapsto> q\<lparr>dq_dead := True\<rparr>)\<rparr>)"
  by (simp add: set_dead_def assms)

definition kill :: "nat set \<Rightarrow> (nat \<rightharpoonup> dbquery) \<Rightarrow> nat \<rightharpoonup> dbquery" where
  "kill A h = (\<lambda>a. case h a of None \<Rightarrow> None | Some q \<Rightarrow> Some (if a \<in> A then q\<lparr>dq_dead := True\<rparr> else q))"

lemma kill_empty [simp]: "kill {} h = h"
  by (simp add: kill_def fun_eq_iff split: option.split)

lemma dom_kill [simp]: "dom (kill A h) = dom h"
  by (auto simp: kill_def split: option.splits)

lemma kill_live: "kill A h a = Some q \<and> \<not> dq_dead q \<longleftrightarrow> a \<notin> A \<and> h a = Some q \<and> \<not> dq_dead q"
proof (cases "h a")
  case (Some q')
  have "q \<noteq> q'\<lparr>dq_dead := True\<rparr>" if "\<not> dq_dead q" using that by (metis dbquery.select_convs(4) dbquery.surjective dbquery.update_convs(4))
  with Some show ?thesis by (auto simp: kill_def)
qed (simp add: kill_def)

lemma kill_insert: "h a = Some q \<Longrightarrow> kill A (h(a \<mapsto> q\<lparr>dq_dead := True\<rparr>)) = kill (insert a A) h"
  by (auto simp: kill_def fun_eq_iff split: option.split)

text \<open>What the invariant says of the live queries, and what is left to show when some are killed.\<close>

lemma sched_invD:
  assumes "sched_inv s"
  shows "distinct (qs_running s)" "set (qs_running s) = dom (qs_heap s)" "a \<in> dom (qs_heap s) \<Longrightarrow> a < qs_next s"
    "distinct (map fst (conn_queries c s))"
    "findQuery c i s = Some a \<longleftrightarrow>
      (\<exists>q. qs_heap s a = Some q \<and> \<not> dq_dead q \<and> sub_connId (dq_sub q) = c \<and> sub_subId (dq_sub q) = i)"
  using assms by (simp_all add: sched_inv_def)

lemma sched_inv_kill:
  assumes "sched_inv s" "qs_running s' = qs_running s" "qs_next s' = qs_next s" "qs_heap s' = kill {a. \<exists>(c, i)\<in>K. findQuery c i s = Some a} (qs_heap s)"
    and "\<And>c i. findQuery c i s' = (if (c, i) \<in> K then None else findQuery c i s)" "\<And>c. distinct (map fst (conn_queries c s'))"
  shows "sched_inv s'"
proof -
  note inv = sched_invD [OF assms(1)]
  have "findQuery c i s' = Some a \<longleftrightarrow>
      (\<exists>q. qs_heap s' a = Some q \<and> \<not> dq_dead q \<and> sub_connId (dq_sub q) = c \<and> sub_subId (dq_sub q) = i)" for c i a
  proof -
    have "(\<exists>q. qs_heap s' a = Some q \<and> \<not> dq_dead q \<and> sub_connId (dq_sub q) = c \<and> sub_subId (dq_sub q) = i) \<longleftrightarrow>
      (\<exists>q. \<not> (\<exists>(c, i)\<in>K. findQuery c i s = Some a) \<and> qs_heap s a = Some q \<and> \<not> dq_dead q \<and> sub_connId (dq_sub q) = c \<and> sub_subId (dq_sub q) = i)"
      unfolding assms(4) by (intro iff_exI) (use kill_live in \<open>simp add: conj_assoc [symmetric] del: conj_assoc\<close>)
    also have "\<dots> \<longleftrightarrow> \<not> (\<exists>(c, i)\<in>K. findQuery c i s = Some a) \<and> findQuery c i s = Some a" unfolding inv(5) [of c i a] by blast
    also have "\<dots> \<longleftrightarrow> (c, i) \<notin> K \<and> findQuery c i s = Some a" using inv(5) by fastforce
    finally show ?thesis by (auto simp: assms(5))
  qed
  with inv assms show ?thesis by (simp add: sched_inv_def)
qed

lemma removeSub_inv:
  assumes "sched_inv s"
  obtains s' where "sched_removeSub c i s = Inr s'" "sched_inv s'" "qs_running s' = qs_running s" "qs_next s' = qs_next s"
    "qs_levIdBatch s' = qs_levIdBatch s" "qs_heap s' = kill (set_option (findQuery c i s)) (qs_heap s)"
    "\<And>c' i'. findQuery c' i' s' = (if (c', i') = (c, i) then None else findQuery c' i' s)"
proof (cases "findQuery c i s")
  case None
  then show thesis using assms by (intro that [of s]) (auto simp: sched_removeSub_def)
next
  case (Some a)
  note inv = sched_invD [OF assms]
  obtain q where q: "qs_heap s a = Some q" using Some unfolding inv(5) by blast
  let ?cq = "AList.delete i (conn_queries c s)"
  let ?s = "s\<lparr>qs_heap := kill {a} (qs_heap s), qs_conns := (if ?cq = [] then AList.delete c (qs_conns s) else AList.update c ?cq (qs_conns s))\<rparr>"
  have heap: "(qs_heap s)(a \<mapsto> q\<lparr>dq_dead := True\<rparr>) = kill {a} (qs_heap s)" using kill_insert [of "qs_heap s" a q "{}"] q by simp
  have run: "sched_removeSub c i s = Inr ?s"
    by (simp add: sched_removeSub_def Some set_dead_Inr [OF q] heap Let_def)
  have cqs: "conn_queries c' ?s = (if c' = c then ?cq else conn_queries c' s)" for c'
    by (auto simp: conn_queries_def update_conv' delete_conv')
  have find: "findQuery c' i' ?s = (if (c', i') = (c, i) then None else findQuery c' i' s)" for c' i'
    unfolding findQuery_def cqs by (simp add: delete_conv')
  have "sched_inv ?s"
    by (rule sched_inv_kill [OF assms, where K = "{(c, i)}"])
      (use find in \<open>simp_all add: Some cqs distinct_delete inv(4)\<close>)
  from that [OF run this] find Some show thesis by simp
qed

lemma foldE_set_dead:
  "\<forall>x\<in>set cq. qs_heap s (snd x) \<noteq> None \<Longrightarrow>
   foldE (\<lambda>x. set_dead (snd x)) cq s = Inr (s\<lparr>qs_heap := kill (snd ` set cq) (qs_heap s)\<rparr>)"
proof (induction cq arbitrary: s)
  case (Cons x cq)
  obtain q where q: "qs_heap s (snd x) = Some q" using Cons.prems by auto
  let ?s1 = "s\<lparr>qs_heap := (qs_heap s)(snd x \<mapsto> q\<lparr>dq_dead := True\<rparr>)\<rparr>"
  have "\<forall>y\<in>set cq. qs_heap ?s1 (snd y) \<noteq> None" using Cons.prems by auto
  from Cons.IH [OF this] have "foldE (\<lambda>x. set_dead (snd x)) cq ?s1 = Inr (?s1\<lparr>qs_heap := kill (snd ` set cq) (qs_heap ?s1)\<rparr>)" .
  moreover have "kill (snd ` set cq) (qs_heap ?s1) = kill (snd ` set (x # cq)) (qs_heap s)"
    using kill_insert [of "qs_heap s" "snd x" q] q by simp
  ultimately show ?case by (simp add: set_dead_Inr [OF q])
qed simp

lemma closeConn_inv:
  assumes "sched_inv s"
  obtains s' where "sched_closeConn c s = Inr s'" "sched_inv s'" "qs_running s' = qs_running s" "qs_next s' = qs_next s"
    "qs_levIdBatch s' = qs_levIdBatch s" "qs_heap s' = kill {a. \<exists>i. findQuery c i s = Some a} (qs_heap s)"
    "\<And>c' i'. findQuery c' i' s' = (if c' = c then None else findQuery c' i' s)"
proof (cases "map_of (qs_conns s) c")
  case None
  then have "findQuery c i s = None" for i by (simp add: findQuery_def conn_queries_def)
  with None show thesis using assms by (intro that [of s]) (auto simp: sched_closeConn_def)
next
  case (Some cq)
  note inv = sched_invD [OF assms]
  have cq: "conn_queries c s = cq" using Some by (simp add: conn_queries_def)
  have mem: "(i, a) \<in> set cq \<longleftrightarrow> findQuery c i s = Some a" for i a
    using inv(4) [of c] by (auto simp: findQuery_def cq)
  define K where "K = {a. \<exists>i. findQuery c i s = Some a}"
  have snd: "snd ` set cq = K" using mem by (force simp: K_def)
  have live: "\<forall>x\<in>set cq. qs_heap s (snd x) \<noteq> None" using mem inv(5) by fastforce
  let ?s = "s\<lparr>qs_heap := kill K (qs_heap s), qs_conns := AList.delete c (qs_conns s)\<rparr>"
  have run: "sched_closeConn c s = Inr ?s"
    using foldE_set_dead [OF live] by (simp add: sched_closeConn_def Some snd)
  have cqs: "conn_queries c' ?s = (if c' = c then [] else conn_queries c' s)" for c'
    using conn_queries_conns(2) [where c = c' and s = "s\<lparr>qs_heap := kill K (qs_heap s)\<rparr>"] by simp
  have find: "findQuery c' i' ?s = (if c' = c then None else findQuery c' i' s)" for c' i'
    unfolding findQuery_def cqs by simp
  have "sched_inv ?s"
  proof (rule sched_inv_kill [OF assms, where K = "{c} \<times> UNIV"])
    show "qs_heap ?s = kill {a. \<exists>(c, i)\<in>{c} \<times> UNIV. findQuery c i s = Some a} (qs_heap s)" by (simp add: K_def)
    show "findQuery c' i' ?s = (if (c', i') \<in> {c} \<times> UNIV then None else findQuery c' i' s)" for c' i' unfolding find by simp
    show "distinct (map fst (conn_queries c' ?s))" for c' unfolding cqs by (simp add: inv(4))
  qed simp_all
  from that [OF run this] find show thesis by (simp add: K_def)
qed

lemma addSub_inv:
  assumes "sched_inv s"
  obtains ok s' where "sched_addSub E maxSubs db sub s = Inr (ok, s')" "sched_inv s'" "qs_levIdBatch s' = qs_levIdBatch s"
    "\<And>c i. (c, i) \<noteq> (sub_connId sub, sub_subId sub) \<Longrightarrow> findQuery c i s' = findQuery c i s"
    "ok \<Longrightarrow> qs_running s' = qs_next s # qs_running s \<and> findQuery (sub_connId sub) (sub_subId sub) s' = Some (qs_next s) \<and>
       qs_heap s' (qs_next s) = Some (DBQuery (sub\<lparr>sub_latestEventId := getMostRecentLevId E db\<rparr>))"
    "\<not> ok \<Longrightarrow> qs_running s' = qs_running s \<and> findQuery (sub_connId sub) (sub_subId sub) s' = None"
    "ok \<longleftrightarrow> card {i. findQuery (sub_connId sub) i s \<noteq> None \<and> i \<noteq> sub_subId sub} < maxSubs"
proof -
  let ?c = "sub_connId sub" and ?i = "sub_subId sub"
  let ?sub = "sub\<lparr>sub_latestEventId := getMostRecentLevId E db\<rparr>"
  obtain s1 where s1: "sched_removeSub ?c ?i s = Inr s1" "sched_inv s1" "qs_running s1 = qs_running s" "qs_next s1 = qs_next s"
    "qs_levIdBatch s1 = qs_levIdBatch s" "\<And>c' i'. findQuery c' i' s1 = (if (c', i') = (?c, ?i) then None else findQuery c' i' s)"
    using removeSub_inv [OF assms, of ?c ?i] by metis
  note inv = sched_invD [OF s1(2)]
  let ?cq = "conn_queries ?c s1" and ?a = "qs_next s1"
  have rem: "(case findQuery ?c ?i s of None \<Rightarrow> Inr s | Some _ \<Rightarrow> sched_removeSub ?c ?i s) = Inr s1"
    using s1(1) by (cases "findQuery ?c ?i s") (auto simp: sched_removeSub_def)
  have sel: "sub_connId ?sub = ?c" "sub_subId ?sub = ?i" by simp_all
  have "{i. findQuery ?c i s \<noteq> None \<and> i \<noteq> ?i} = fst ` set ?cq"
    using s1(6) by (auto simp: findQuery_def dom_map_of_conv_image_fst [symmetric] split: if_splits)
  then have size: "card {i. findQuery ?c i s \<noteq> None \<and> i \<noteq> ?i} = length ?cq"
    using inv(4) [of ?c] distinct_card [of "map fst ?cq"] by simp
  show thesis
  proof (cases "length ?cq \<ge> maxSubs")
    case True
    let ?s = "s1\<lparr>qs_conns := AList.update ?c ?cq (qs_conns s1)\<rparr>"
    have run: "sched_addSub E maxSubs db sub s = Inr (False, ?s)" using True unfolding sched_addSub_def Let_def sel rem by simp
    have cqs: "conn_queries c ?s = conn_queries c s1" for c by (simp add: conn_queries_conns)
    have find: "findQuery c i ?s = findQuery c i s1" for c i by (simp only: findQuery_def cqs)
    have "sched_inv ?s" using inv by (simp add: sched_inv_def find cqs)
    then show thesis by (rule that [OF run]) (use True size find s1(3-6) in auto)
  next
    case False
    let ?s = "s1\<lparr>qs_heap := (qs_heap s1)(?a \<mapsto> DBQuery ?sub), qs_next := Suc ?a,
      qs_conns := AList.update ?c (AList.update ?i ?a ?cq) (qs_conns s1), qs_running := ?a # qs_running s1\<rparr>"
    have run: "sched_addSub E maxSubs db sub s = Inr (True, ?s)" using False unfolding sched_addSub_def Let_def sel rem by simp
    have fresh: "?a \<notin> dom (qs_heap s1)" using inv(3) by blast
    have cqs: "conn_queries c ?s = (if c = ?c then AList.update ?i ?a ?cq else conn_queries c s1)" for c
      by (auto simp: conn_queries_def update_conv')
    have find: "findQuery c i ?s = (if (c, i) = (?c, ?i) then Some ?a else findQuery c i s1)" for c i
      unfolding findQuery_def cqs by (simp add: update_conv')
    have "findQuery c i ?s = Some a \<longleftrightarrow>
      (\<exists>q. qs_heap ?s a = Some q \<and> \<not> dq_dead q \<and> sub_connId (dq_sub q) = c \<and> sub_subId (dq_sub q) = i)" for c i a
      using inv(5) [of c i a] s1(6) [of ?c ?i] fresh unfolding find by (auto simp: DBQuery_def split: if_splits)
    moreover have "\<forall>a\<in>dom (qs_heap ?s). a < qs_next ?s" using inv(3) by (auto intro: less_SucI)
    ultimately have "sched_inv ?s"
      using inv(1,2,4) fresh unfolding sched_inv_def cqs by (simp add: distinct_update)
    then show thesis by (rule that [OF run]) (use False size find s1(3-6) in auto)
  qed
qed

text \<open>A turn of the query touches neither its subscription nor its mark.\<close>

lemma process_round_frame:
  fixes cb :: "u64 \<Rightarrow> 'c \<Rightarrow> 'c result"
  assumes "process_round n E L clock db cb budget (q, t, c) = Some (Inr (b, q', t', c'))"
    and "\<And>l c c'. R c \<Longrightarrow> cb l c = Inr c' \<Longrightarrow> R c'" "R c"
  shows "dq_sub q' = dq_sub q \<and> dq_dead q' = dq_dead q \<and> R c'"
proof (cases "dq_filterGroupIndex q \<ge> length (sub_filterGroup (dq_sub q))")
  case True
  with assms show ?thesis by (auto simp: process_round_def)
next
  case False
  let ?f = "sub_filterGroup (dq_sub q) ! dq_filterGroupIndex q"
  let ?P = "\<lambda>s :: dbquery \<times> nat \<times> 'c. dq_sub (fst s) = dq_sub q \<and> dq_dead (fst s) = dq_dead q \<and> R (snd (snd s))"
  obtain S S1 q1 t1 c1 b1 where run: "scan_loop n n E L db ?f (query_handleEvent ?f cb)
      (query_doPause clock (clock t) budget) (S, q, Suc t, c) = Some (Inr (b1, S1, q1, t1, c1))"
    and q': "dq_sub q' = dq_sub q1" "dq_dead q' = dq_dead q1" "c' = c1"
    using assms(1) False by (auto simp: process_round_def Let_def split: if_splits option.splits sum.splits)
  have "?P (q1, t1, c1) \<and> ds_indexDbi S1 = ds_indexDbi S"
  proof (rule scan_loop_invariant [OF run])
    show "?P (q, Suc t, c)" using assms(3) by simp
  next
    fix l b and s s' :: "dbquery \<times> nat \<times> 'c"
    assume "?P s" "query_handleEvent ?f cb l s = Inr (b, s')"
    then show "?P s'" using assms(2)
      by (cases s) (auto simp: query_handleEvent_def bindE_eq_Inr Let_def split: if_splits)
  next
    fix w and s :: "dbquery \<times> nat \<times> 'c"
    assume "?P s"
    then show "?P (snd (query_doPause clock (clock t) budget w s))" by (cases s) (auto simp: query_doPause_def)
  qed
  with q' show ?thesis by simp
qed

lemma process_frame:
  assumes "process n E L clock db cb budget (q, t, c) = Some (Inr (b, q', t', c'))"
    and "\<And>l c c'. R c \<Longrightarrow> cb l c = Inr c' \<Longrightarrow> R c'" "R c"
  shows "dq_sub q' = dq_sub q \<and> dq_dead q' = dq_dead q \<and> R c'"
proof -
  have "process_loop m n E L clock db cb budget (q, t, c) = Some (Inr (b, q', t', c')) \<Longrightarrow> R c \<Longrightarrow>
      dq_sub q' = dq_sub q \<and> dq_dead q' = dq_dead q \<and> R c'" for m
  proof (induction m arbitrary: q t c)
    case (Suc m)
    obtain x where x: "process_round n E L clock db cb budget (q, t, c) = Some x"
      using Suc.prems(1) by (cases "process_round n E L clock db cb budget (q, t, c)") auto
    obtain b1 q1 t1 c1 where x': "x = Inr (b1, q1, t1, c1)" using Suc.prems(1) by (cases x) (auto simp: x)
    note one = process_round_frame [where R = R, OF x [unfolded x'] assms(2) Suc.prems(2)]
    show ?case
    proof (cases b1)
      case None
      then have "process_loop m n E L clock db cb budget (q1, t1, c1) = Some (Inr (b, q', t', c'))"
        using Suc.prems(1) by (simp add: x x')
      from Suc.IH [OF this] one show ?thesis by simp
    next
      case (Some b2)
      with Suc.prems(1) one show ?thesis by (auto simp: x x')
    qed
  qed simp
  then show ?thesis using assms(1,3) unfolding process_def by blast
qed

text \<open>What a turn does, from a state that satisfies the invariant.\<close>

lemma sched_process_cases:
  assumes "sched_inv s" "sched_process n E L clock db C budget (s, t, w) = Some r"
  obtains (idle) "qs_running s = []" "r = Inr (s, t, w)"
  | (reap) a q where "qs_heap s a = Some q" "dq_dead q" "qs_running s = a # tl (qs_running s)"
      "r = Inr (s\<lparr>qs_heap := (qs_heap s)(a := None), qs_running := tl (qs_running s)\<rparr>, t, w)"
  | (turn) a q where "qs_heap s a = Some q" "\<not> dq_dead q" "qs_running s = a # tl (qs_running s)"
      "findQuery (sub_connId (dq_sub q)) (sub_subId (dq_sub q)) s = Some a"
proof (cases "qs_running s")
  case Nil
  with assms(2) idle show thesis by (simp add: sched_process_def)
next
  case (Cons a rest)
  then obtain q where q: "qs_heap s a = Some q" using sched_invD(2) [OF assms(1)] by auto
  show thesis
  proof (cases "dq_dead q")
    case True
    with assms(2) q Cons reap show thesis by (auto simp: sched_process_def)
  next
    case False
    with q Cons turn sched_invD(5) [OF assms(1)] show thesis by auto
  qed
qed

lemma sched_inv_drop:
  assumes "sched_inv s" "qs_running s = a # rest" "qs_heap s a = Some q" "dq_dead q"
  shows "sched_inv (s\<lparr>qs_heap := (qs_heap s)(a := None), qs_running := rest\<rparr>)"
proof -
  note inv = sched_invD [OF assms(1)]
  have "findQuery c i s = Some b \<longleftrightarrow> (\<exists>q. ((qs_heap s)(a := None)) b = Some q \<and> \<not> dq_dead q \<and> sub_connId (dq_sub q) = c \<and> sub_subId (dq_sub q) = i)" for c i b
    using inv(5) [of c i b] assms(3,4) by auto
  then show ?thesis using inv(1-4) assms(2) by (auto simp: sched_inv_def)
qed

lemma sched_inv_turn:
  assumes "sched_inv s" "qs_running s = a # rest" "qs_heap s a = Some q" "dq_sub q' = dq_sub q" "dq_dead q' = dq_dead q"
    and "distinct run" "set run = set (a # rest)"
  shows "sched_inv (s\<lparr>qs_heap := (qs_heap s)(a \<mapsto> q'), qs_running := run, qs_levIdBatch := b\<rparr>)"
proof -
  note inv = sched_invD [OF assms(1)]
  have "findQuery c i s = Some x \<longleftrightarrow> (\<exists>q. ((qs_heap s)(a \<mapsto> q')) x = Some q \<and> \<not> dq_dead q \<and> sub_connId (dq_sub q) = c \<and> sub_subId (dq_sub q) = i)" for c i x
    using inv(5) [of c i x] assms(3-5) by auto
  moreover have "a < qs_next s" using inv(3) assms(3) by blast
  ultimately show ?thesis using inv(1-4) assms(2,3,6,7) by (auto simp: sched_inv_def)
qed

lemma removeSub_running:
  "sched_removeSub c i (s\<lparr>qs_running := r\<rparr>) = bindE (sched_removeSub c i s) (\<lambda>s'. Inr (s'\<lparr>qs_running := r\<rparr>))"
  by (auto simp: sched_removeSub_def set_dead_def Let_def split: option.split)

text \<open>
  The turn of a live query: what its callbacks were given, whether it goes to the end of the
  queue or is finished, and what the table and the heap are then.
\<close>

lemma sched_process_turn:
  assumes "sched_inv s" "qs_running s = a # rest" "qs_heap s a = Some q" "\<not> dq_dead q"
    and "sched_process n E L clock db C budget (s, t, w) = Some (Inr (s', t', w'))"
  obtains finished q' w1 batch w2 batch' where
    "process n E L clock db (sched_event E db C (dq_sub q)) budget (q, t, w, qs_levIdBatch s) = Some (Inr (finished, q', t', w1, batch))"
    "dq_sub q' = dq_sub q" "(case cb_onEventBatch C of None \<Rightarrow> Inr (w1, batch) | Some f \<Rightarrow> bindE (f (dq_sub q) batch w1) (\<lambda>w1. Inr (w1, []))) = Inr (w2, batch')"
    "sched_inv s'" "qs_levIdBatch s' = batch'" "qs_next s' = qs_next s"
    "if finished then qs_running s' = rest \<and> (case cb_onComplete C of None \<Rightarrow> Inr w2 | Some f \<Rightarrow> f (dq_sub q) w2) = Inr w' \<and>
       (\<forall>c i. findQuery c i s' = (if (c, i) = (sub_connId (dq_sub q), sub_subId (dq_sub q)) then None else findQuery c i s)) \<and>
       (\<forall>b. b \<noteq> a \<longrightarrow> qs_heap s' b = qs_heap s b)
     else qs_running s' = rest @ [a] \<and> w' = w2 \<and> qs_heap s' = (qs_heap s)(a \<mapsto> q') \<and> (\<forall>c i. findQuery c i s' = findQuery c i s)"
proof -
  let ?ev = "sched_event E db C (dq_sub q)"
  obtain finished q' w1 batch w2 batch' where p: "process n E L clock db ?ev budget (q, t, w, qs_levIdBatch s) = Some (Inr (finished, q', t', w1, batch))"
    "(case cb_onEventBatch C of None \<Rightarrow> Inr (w1, batch) | Some f \<Rightarrow> bindE (f (dq_sub q') batch w1) (\<lambda>w1. Inr (w1, []))) = Inr (w2, batch')"
    "(let s1 = s\<lparr>qs_heap := (qs_heap s)(a \<mapsto> q'), qs_running := rest, qs_levIdBatch := batch'\<rparr>
      in if finished then
           bindE (sched_removeSub (sub_connId (dq_sub q')) (sub_subId (dq_sub q')) s1) (\<lambda>s2.
           bindE (case cb_onComplete C of None \<Rightarrow> Inr w2 | Some f \<Rightarrow> f (dq_sub q') w2) (\<lambda>w3.
           Inr (s2\<lparr>qs_heap := (qs_heap s2)(a := None)\<rparr>, t', w3)))
         else Inr (s1\<lparr>qs_running := rest @ [a]\<rparr>, t', w2)) = Inr (s', t', w')"
  proof -
    obtain x where x: "process n E L clock db ?ev budget (q, t, w, qs_levIdBatch s) = Some (Inr x)"
      using assms(2-5) by (auto simp: sched_process_def split: option.splits sum.splits)
    obtain f q' t1 w1 b where x': "x = (f, q', t1, w1, b)" by (cases x) auto
    show thesis using assms(2-5) that [of f q' w1 b] x x'
      by (auto simp: sched_process_def bindE_eq_Inr Let_def split: if_splits)
  qed
  have "dq_sub q' = dq_sub q \<and> dq_dead q' = dq_dead q \<and> True"
    by (rule process_frame [where R = "\<lambda>_. True", OF p(1)]) simp_all
  then have fr: "dq_sub q' = dq_sub q" "dq_dead q' = dq_dead q" by simp_all
  note p2 = p(2) [unfolded fr]
  let ?s1 = "s\<lparr>qs_heap := (qs_heap s)(a \<mapsto> q'), qs_running := rest, qs_levIdBatch := batch'\<rparr>"
  have dist: "distinct (a # rest)" using sched_invD(1) [OF assms(1)] assms(2) by simp
  have key: "findQuery (sub_connId (dq_sub q)) (sub_subId (dq_sub q)) s = Some a"
    using sched_invD(5) [OF assms(1)] assms(3,4) by blast
  show thesis
  proof (cases finished)
    case False
    have s': "s' = ?s1\<lparr>qs_running := rest @ [a]\<rparr>" "w' = w2" using p(3) False by (simp_all add: Let_def)
    have "s' = s\<lparr>qs_heap := (qs_heap s)(a \<mapsto> q'), qs_running := rest @ [a], qs_levIdBatch := batch'\<rparr>" by (cases s) (simp add: s')
    then have "sched_inv s'"
      using sched_inv_turn [OF assms(1-3), of q' "rest @ [a]" batch'] fr dist by simp
    then show thesis using p(1) p2 fr s' False
      by (intro that [of finished q' w1 batch w2 batch']) simp_all
  next
    case True
    let ?u = "s\<lparr>qs_heap := (qs_heap s)(a \<mapsto> q'), qs_running := a # rest, qs_levIdBatch := batch'\<rparr>"
    have u: "sched_inv ?u" using sched_inv_turn [OF assms(1-3), of q' "a # rest" batch'] fr dist by simp
    obtain v where v: "sched_removeSub (sub_connId (dq_sub q)) (sub_subId (dq_sub q)) ?u = Inr v" "sched_inv v" "qs_running v = a # rest"
      "qs_next v = qs_next s" "qs_levIdBatch v = batch'" "qs_heap v = kill {a} (qs_heap ?u)"
      "\<And>c i. findQuery c i v = (if (c, i) = (sub_connId (dq_sub q), sub_subId (dq_sub q)) then None else findQuery c i s)"
      by (rule removeSub_inv [OF u, of "sub_connId (dq_sub q)" "sub_subId (dq_sub q)"]) (use key in simp)
    have rem: "sched_removeSub (sub_connId (dq_sub q)) (sub_subId (dq_sub q)) ?s1 = Inr (v\<lparr>qs_running := rest\<rparr>)"
    proof -
      have "?s1 = ?u\<lparr>qs_running := rest\<rparr>" by (cases s) simp
      then show ?thesis unfolding \<open>?s1 = _\<close> removeSub_running v(1) by simp
    qed
    have s': "s' = v\<lparr>qs_heap := (qs_heap v)(a := None), qs_running := rest\<rparr>"
      "(case cb_onComplete C of None \<Rightarrow> Inr w2 | Some f \<Rightarrow> f (dq_sub q) w2) = Inr w'"
      using p(3) [unfolded fr] True rem by (auto simp: Let_def bindE_eq_Inr)
    have dead: "qs_heap v a = Some (q'\<lparr>dq_dead := True\<rparr>)" by (simp add: v(6) kill_def)
    have "sched_inv s'" unfolding s' by (rule sched_inv_drop [OF v(2,3) dead]) simp
    moreover have "qs_heap s' b = qs_heap s b" if "b \<noteq> a" for b using that by (simp add: s' v(6) kill_def split: option.split)
    ultimately show thesis using p(1) p2 fr s' True v(4,5,7)
      by (intro that [of finished q' w1 batch w2 batch']) simp_all
  qed
qed

lemma sched_process_inv:
  assumes "sched_inv s" "sched_process n E L clock db C budget (s, t, w) = Some (Inr (s', t', w'))"
  shows "sched_inv s'"
proof -
  from assms show ?thesis
  proof (cases rule: sched_process_cases)
    case (reap a q)
    then show ?thesis using sched_inv_drop [OF assms(1) reap(3,1,2)] by simp
  next
    case (turn a q)
    then show ?thesis using sched_process_turn [OF assms(1) turn(3,1,2) assms(2)] by metis
  qed (use assms(1) in simp)
qed

end
