(* ===== verification/Scheduler_Live.thy ===== *)
theory Scheduler_Live
  imports Query_Scheduler "HOL-Library.Multiset"
begin

text \<open>
  The scheduler serves everybody: every turn of a query does some of its work, so that the
  queue, left alone on a database that does not change, drains, whatever the clock says, and
  each query that was alive has then been finished and reported.
\<close>

section \<open>A turn of a query\<close>

text \<open>
  A query that was interrupted has looked at the clock last when its scan stopped.  What it
  has left to do: filters, the opening of the scan, the work of the scan, and, should the
  counter of the work be about to overflow, the way to the overflow.
\<close>

definition resumable :: "dbquery \<Rightarrow> bool" where
  "resumable q \<longleftrightarrow> (\<forall>S. dq_scanner q = Some S \<longrightarrow> ds_indexDbi S \<in> scan_indexes \<and> ds_approxWork S = dq_lastWorkChecked q)"

lemma resumable_DBQuery [simp]: "resumable (DBQuery sub)"
  by (simp add: resumable_def DBQuery_def)

definition all_resumable :: "scheduler \<Rightarrow> bool" where
  "all_resumable s \<longleftrightarrow> (\<forall>q\<in>ran (qs_heap s). resumable q)"

abbreviation less4 :: "((nat \<times> nat \<times> nat \<times> nat) \<times> (nat \<times> nat \<times> nat \<times> nat)) set" where
  "less4 \<equiv> less_than <*lex*> less_than <*lex*> less_than <*lex*> less_than"

lemma wf_less4: "wf less4"
  by (intro wf_lex_prod wf_less_than)

lemma trans_less4: "trans less4"
  by (intro trans_lex_prod trans_less_than)

lemma overflow_closer:
  fixes w :: u64
  assumes "w + 2000 < w + 1"
  shows "unat (- (w + 1)) < unat (- w)"
proof -
  have "w \<noteq> 0" using assms by auto
  then have nz: "- w \<noteq> 0" by simp
  have "- (w + 1) = - w - 1" by simp
  moreover have "unat (- w - 1) = unat (- w) - 1" by (rule unat_minus_one [OF nz])
  moreover have "unat (- w) \<noteq> 0" using nz by (simp add: unat_eq_zero)
  ultimately show ?thesis by simp
qed

context scan_env
begin

definition work_left :: "'db \<Rightarrow> dbquery \<Rightarrow> nat \<times> nat \<times> nat \<times> nat" where
  "work_left db q = (length (sub_filterGroup (dq_sub q)) - dq_filterGroupIndex q,
     case dq_scanner q of None \<Rightarrow> (1, 0, 0) | Some S \<Rightarrow> (0, scan_measure db S, unat (- ds_approxWork S)))"

text \<open>An interrupted scan did a round of work, or moved the counter towards its overflow.\<close>

lemma scan_loop_pause:
  assumes "holds E L tree_items fs db M" "lookup_Event E db 0 = None"
    and "ds_indexDbi S \<in> scan_indexes" "total_remaining db S + 2 \<le> n"
    and "scan_loop m n E L db f (query_handleEvent f cb) (query_doPause clock st budget) (S, q, t, c) = Some (Inr (False, S', q', t', c'))"
  shows "ds_indexDbi S' = ds_indexDbi S \<and> ds_approxWork S' = dq_lastWorkChecked q' \<and>
    (scan_measure db S' < scan_measure db S \<or>
     scan_measure db S' = scan_measure db S \<and> ds_approxWork S' = ds_approxWork S + 1 \<and> dq_lastWorkChecked q + 2000 < ds_approxWork S + 1)"
  using assms(3-5)
proof (induction m arbitrary: S q t c)
  case (Suc m)
  let ?h = "query_handleEvent f cb" and ?p = "query_doPause clock st budget"
  obtain r where r: "scan_round n E L db f ?h ?p (S, q, t, c) = Some r"
    "\<forall>S' s'. r = Inr (None, S', s') \<longrightarrow> ds_indexDbi S' = ds_indexDbi S \<and>
       total_remaining db S' \<le> total_remaining db S \<and> scan_measure db S' < scan_measure db S"
    using scan_round_progress [OF assms(1,2) Suc.prems(1,2), of f ?h ?p "(q, t, c)"] by (elim exE conjE)
  show ?case
  proof (cases "\<exists>S1 s1. r = Inr (None, S1, s1)")
    case True
    then obtain S1 q1 t1 c1 where eq: "r = Inr (None, S1, q1, t1, c1)" by (metis prod_cases3)
    note less = r(2) [rule_format, OF eq]
    have run: "scan_loop m n E L db f ?h ?p (S1, q1, t1, c1) = Some (Inr (False, S', q', t', c'))"
      using Suc.prems(3) r(1) eq by simp
    have "ds_indexDbi S1 \<in> scan_indexes" "total_remaining db S1 + 2 \<le> n" using less Suc.prems(1,2) by simp_all
    from Suc.IH [OF this run] less show ?thesis by auto
  next
    case False
    then have eq: "r = Inr (Some False, S', q', t', c')"
      using Suc.prems(3) r(1) by (cases r) (auto split: option.splits prod.splits)
    then have rd: "scan_round n E L db f ?h ?p (S, q, t, c) = Some (Inr (Some False, S', q', t', c'))" using r(1) by simp
    obtain pause s1 where dop: "?p (ds_approxWork S + 1) (q, t, c) = (pause, s1)" by (cases "?p (ds_approxWork S + 1) (q, t, c)")
    have "pause"
      using rd by (auto simp: scan_round_def Let_def dop split: if_splits list.splits option.splits sum.splits)
    then have s: "S' = S\<lparr>ds_approxWork := ds_approxWork S + 1\<rparr>" "(q', t', c') = s1"
      using rd by (auto simp: scan_round_def Let_def dop)
    have "dq_lastWorkChecked q + 2000 < ds_approxWork S + 1" "dq_lastWorkChecked q' = ds_approxWork S + 1"
      using dop \<open>pause\<close> s(2) by (auto simp: query_doPause_def split: if_splits)
    then show ?thesis by (simp add: s(1) scan_measure_def total_remaining_def)
  qed
qed simp

lemma process_round_turn:
  assumes "holds E L tree_items fs db M" "lookup_Event E db 0 = None" "resumable q"
  obtains N r where "\<forall>n\<ge>N. process_round n E L clock db cb budget (q, t, c) = Some r"
    "\<forall>b q' t' c'. r = Inr (b, q', t', c') \<longrightarrow> b \<noteq> Some True \<longrightarrow> resumable q' \<and> (work_left db q', work_left db q) \<in> less4"
proof -
  obtain N r where r: "\<And>n. n \<ge> N \<Longrightarrow> process_round n E L clock db cb budget (q, t, c) = Some r"
    using process_round_returns [OF assms(1,2), of q clock cb budget t c] assms(3) unfolding resumable_def by blast
  let ?f = "sub_filterGroup (dq_sub q) ! dq_filterGroupIndex q"
  let ?S = "case dq_scanner q of Some S \<Rightarrow> Inr S | None \<Rightarrow> DBScan L ?f"
  define N' where "N' = max N (case ?S of Inl _ \<Rightarrow> 0 | Inr S \<Rightarrow> total_remaining db S + 2)"
  have run: "process_round N' E L clock db cb budget (q, t, c) = Some r" by (rule r) (simp add: N'_def)
  have "resumable q' \<and> (work_left db q', work_left db q) \<in> less4" if eq: "r = Inr (b, q', t', c')" and b: "b \<noteq> Some True" for b q' t' c'
  proof -
    have idx: "dq_filterGroupIndex q < length (sub_filterGroup (dq_sub q))"
      using run b by (auto simp: process_round_def eq split: if_splits)
    obtain S where S: "?S = Inr S" using run idx by (cases ?S) (auto simp: process_round_def eq Let_def)
    have ix: "ds_indexDbi S \<in> scan_indexes" using S assms(3) DBScan_index by (cases "dq_scanner q") (auto simp: resumable_def)
    have fuel: "total_remaining db S + 2 \<le> N'" by (simp add: N'_def S)
    obtain b1 S1 q1 t1 c1 where scan: "scan_loop N' N' E L db ?f (query_handleEvent ?f cb)
        (query_doPause clock (clock t) budget) (S, q, Suc t, c) = Some (Inr (b1, S1, q1, t1, c1))"
      using run idx S by (auto simp: process_round_def eq Let_def split: option.splits sum.splits prod.splits)
    have frame: "dq_sub q' = dq_sub q"
      using process_round_frame [where R = "\<lambda>_. True", OF run [unfolded eq]] by simp
    show ?thesis
    proof (cases b)
      case None
      have nx: "dq_scanner q' = None" "dq_filterGroupIndex q' = Suc (dq_filterGroupIndex q)"
        using process_round_next [OF run [unfolded eq None]] by simp_all
      moreover have "length (sub_filterGroup (dq_sub q)) - Suc (dq_filterGroupIndex q) < length (sub_filterGroup (dq_sub q)) - dq_filterGroupIndex q"
        using idx by simp
      ultimately show ?thesis using frame by (simp add: resumable_def work_left_def)
    next
      case (Some b')
      then have paused: "\<not> b1" "dq_scanner q' = Some S1" "dq_lastWorkChecked q' = dq_lastWorkChecked q1" "dq_filterGroupIndex q' = dq_filterGroupIndex q1"
        using run idx S scan b by (auto simp: process_round_def eq Let_def split: if_splits)
      have idx1: "dq_filterGroupIndex q1 = dq_filterGroupIndex q"
      proof -
        have "dq_filterGroupIndex (fst (q1, t1, c1)) = dq_filterGroupIndex q \<and> ds_indexDbi S1 = ds_indexDbi S"
          by (rule scan_loop_invariant [OF scan, where P = "\<lambda>s. dq_filterGroupIndex (fst s) = dq_filterGroupIndex q"])
            (auto simp: query_callbacks_frame(2) dest: query_callbacks_frame(1))
        then show ?thesis by simp
      qed
      have "b1 = False" using paused(1) by simp
      note p = scan_loop_pause [OF assms(1,2) ix fuel scan [unfolded this]]
      have less: "(work_left db q', work_left db q) \<in> less4"
      proof (cases "dq_scanner q")
        case None
        then show ?thesis using paused idx1 frame by (simp add: work_left_def)
      next
        case old: (Some S0)
        then have S0: "S0 = S" "ds_approxWork S = dq_lastWorkChecked q" using S assms(3) by (simp_all add: resumable_def)
        from p show ?thesis
        proof (elim conjE disjE)
          assume "scan_measure db S1 < scan_measure db S"
          then show ?thesis using old S0(1) paused idx1 frame by (simp add: work_left_def)
        next
          assume a: "scan_measure db S1 = scan_measure db S" "ds_approxWork S1 = ds_approxWork S + 1"
            "dq_lastWorkChecked q + 2000 < ds_approxWork S + 1"
          have "unat (- ds_approxWork S1) < unat (- ds_approxWork S)"
            unfolding a(2) by (rule overflow_closer) (use a(3) S0(2) in simp)
          then show ?thesis using old S0(1) paused idx1 frame a(1) by (simp add: work_left_def)
        qed
      qed
      have "resumable q'" using p paused ix by (simp add: resumable_def)
      with less show ?thesis by simp
    qed
  qed
  then show thesis using r by (intro that [of N r]) auto
qed

lemma process_turn:
  assumes "holds E L tree_items fs db M" "lookup_Event E db 0 = None" "resumable q"
  obtains N r where "\<forall>n\<ge>N. process n E L clock db cb budget (q, t, c) = Some r"
    "\<forall>q' t' c'. r = Inr (False, q', t', c') \<longrightarrow> resumable q' \<and> (work_left db q', work_left db q) \<in> less4"
proof -
  have "\<exists>N r. (\<forall>n\<ge>N. process_loop m n E L clock db cb budget (q, t, c) = Some r) \<and>
    (\<forall>q' t' c'. r = Inr (False, q', t', c') \<longrightarrow> resumable q' \<and> (work_left db q', work_left db q) \<in> less4)"
    if "length (sub_filterGroup (dq_sub q)) - dq_filterGroupIndex q < m" for m
    using assms(3) that
  proof (induction m arbitrary: q t c)
    case (Suc m)
    obtain N r where "\<forall>n\<ge>N. process_round n E L clock db cb budget (q, t, c) = Some r"
      "\<forall>b q' t' c'. r = Inr (b, q', t', c') \<longrightarrow> b \<noteq> Some True \<longrightarrow> resumable q' \<and> (work_left db q', work_left db q) \<in> less4"
      by (rule process_round_turn [OF assms(1,2) Suc.prems(1)])
    note r = this [rule_format]
    show ?case
    proof (cases "\<exists>q' t' c'. r = Inr (None, q', t', c')")
      case True
      then obtain q1 t1 c1 where eq: "r = Inr (None, q1, t1, c1)" by blast
      have nx: "dq_sub q1 = dq_sub q" "dq_filterGroupIndex q1 = Suc (dq_filterGroupIndex q)"
        using process_round_next [of N E L clock db cb budget q t c q1 t1 c1] r(1) [of N] eq by simp_all
      have "dq_filterGroupIndex q < length (sub_filterGroup (dq_sub q))"
        using r(1) [of N] eq by (auto simp: process_round_def split: if_splits)
      then have "length (sub_filterGroup (dq_sub q1)) - dq_filterGroupIndex q1 < m" using Suc.prems(2) by (simp add: nx)
      moreover have q1: "resumable q1" "(work_left db q1, work_left db q) \<in> less4" using r(2) [OF eq] by simp_all
      ultimately obtain N' r' where r': "\<And>n. n \<ge> N' \<Longrightarrow> process_loop m n E L clock db cb budget (q1, t1, c1) = Some r'"
        "\<And>q' t' c'. r' = Inr (False, q', t', c') \<Longrightarrow> resumable q' \<and> (work_left db q', work_left db q1) \<in> less4"
        using Suc.IH [of q1 t1 c1] by blast
      have "process_loop (Suc m) n E L clock db cb budget (q, t, c) = Some r'" if "n \<ge> max N N'" for n
        using r(1) [of n] r'(1) [of n] that eq by simp
      moreover have "resumable q' \<and> (work_left db q', work_left db q) \<in> less4" if "r' = Inr (False, q', t', c')" for q' t' c'
        using r'(2) [OF that] q1(2) transD [OF trans_less4] by blast
      ultimately show ?thesis by blast
    next
      case False
      show ?thesis
      proof (cases r)
        case (Inl e)
        then show ?thesis using r(1) by (intro exI [of _ N] exI [of _ "Inl e"]) simp
      next
        case (Inr p)
        obtain b q' t' c' where p: "p = (b, q', t', c')" by (cases p)
        with Inr False obtain b' where b': "b = Some b'" by (cases b) auto
        show ?thesis using r(1) r(2) [of b q' t' c'] Inr p b'
          by (intro exI [of _ N] exI [of _ "Inr (b', q', t', c')"]) simp
      qed
    qed
  qed simp
  from this [of "Suc (length (sub_filterGroup (dq_sub q)) - dq_filterGroupIndex q)"] that show thesis unfolding process_def fst_conv by blast
qed


section \<open>The queue\<close>

definition queue_work :: "'db \<Rightarrow> scheduler \<Rightarrow> (nat \<times> nat \<times> nat \<times> nat) multiset" where
  "queue_work db s = image_mset (\<lambda>a. work_left db (the (qs_heap s a))) (mset (qs_running s))"

lemma queue_work_rest:
  assumes "sched_inv s" "qs_running s = a # rest" "\<And>b. b \<noteq> a \<Longrightarrow> h b = qs_heap s b"
  shows "image_mset (\<lambda>b. work_left db (the (h b))) (mset rest) = image_mset (\<lambda>b. work_left db (the (qs_heap s b))) (mset rest)"
proof (rule image_mset_cong)
  fix b assume "b \<in># mset rest"
  then have "b \<noteq> a" using sched_invD(1) [OF assms(1)] assms(2) by auto
  then show "work_left db (the (h b)) = work_left db (the (qs_heap s b))" using assms(3) by simp
qed

lemma sched_turn_progress:
  assumes "holds E L tree_items fs db M" "lookup_Event E db 0 = None" "sched_inv s" "all_resumable s" "qs_running s \<noteq> []"
  obtains N r where "\<forall>n\<ge>N. sched_process n E L clock db C budget (s, t, w) = Some r"
    "\<forall>s' t' w'. r = Inr (s', t', w') \<longrightarrow> sched_inv s' \<and> all_resumable s' \<and> (queue_work db s', queue_work db s) \<in> mult1 less4"
proof -
  obtain a rest where run: "qs_running s = a # rest" using assms(5) by (cases "qs_running s") auto
  obtain q where q: "qs_heap s a = Some q" using sched_invD(2) [OF assms(3)] run by auto
  have work: "queue_work db s = add_mset (work_left db q) (image_mset (\<lambda>b. work_left db (the (qs_heap s b))) (mset rest))"
    by (simp add: queue_work_def run q)
  have res: "resumable q" using assms(4) q unfolding all_resumable_def by (meson ranI)
  show thesis
  proof (cases "dq_dead q")
    case True
    let ?s = "s\<lparr>qs_heap := (qs_heap s)(a := None), qs_running := rest\<rparr>"
    have "queue_work db ?s = image_mset (\<lambda>b. work_left db (the (qs_heap s b))) (mset rest)"
      using queue_work_rest [OF assms(3) run, of "(qs_heap s)(a := None)"] by (simp add: queue_work_def)
    then have "(queue_work db ?s, queue_work db s) \<in> mult1 less4" unfolding work by (intro mult1I [where K = "{#}"]) auto
    moreover have "all_resumable ?s" using assms(4) by (auto simp: all_resumable_def ran_def)
    moreover have "sched_inv ?s" by (rule sched_inv_drop [OF assms(3) run q True])
    ultimately show thesis
      using True run q by (intro that [of 0 "Inr (?s, t, w)"]) (auto simp: sched_process_def)
  next
    case False
    let ?ev = "sched_event E db C (dq_sub q)"
    obtain N r where pr: "\<forall>n\<ge>N. process n E L clock db ?ev budget (q, t, w, qs_levIdBatch s) = Some r"
      "\<forall>q' t' c'. r = Inr (False, q', t', c') \<longrightarrow> resumable q' \<and> (work_left db q', work_left db q) \<in> less4"
      by (rule process_turn [OF assms(1,2) res])
    have "\<exists>x. \<forall>n\<ge>N. sched_process n E L clock db C budget (s, t, w) = Some x"
    proof (cases r)
      case (Inl e)
      then show ?thesis using pr(1) run q False by (simp add: sched_process_def)
    next
      case (Inr y)
      obtain f q' t1 w1 b where "y = (f, q', t1, w1, b)" by (cases y) auto
      then show ?thesis using pr(1) run q False Inr by (simp add: sched_process_def)
    qed
    then obtain x where x: "\<forall>n\<ge>N. sched_process n E L clock db C budget (s, t, w) = Some x" by blast
    have "sched_inv s' \<and> all_resumable s' \<and> (queue_work db s', queue_work db s) \<in> mult1 less4" if eq: "x = Inr (s', t', w')" for s' t' w'
    proof -
      have go: "sched_process N E L clock db C budget (s, t, w) = Some (Inr (s', t', w'))" using x eq by blast
      obtain finished q' w1 batch where p: "process N E L clock db ?ev budget (q, t, w, qs_levIdBatch s) = Some (Inr (finished, q', t', w1, batch))"
        "sched_inv s'" "if finished then qs_running s' = rest \<and> (\<forall>b. b \<noteq> a \<longrightarrow> qs_heap s' b = qs_heap s b)
          else qs_running s' = rest @ [a] \<and> qs_heap s' = (qs_heap s)(a \<mapsto> q')"
        by (rule sched_process_turn [OF assms(3) run q False go]) (auto split: if_splits)
      have r: "r = Inr (finished, q', t', w1, batch)" using p(1) pr(1) by simp
      show ?thesis
      proof (cases finished)
        case True
        then have s': "qs_running s' = rest" "\<And>b. b \<noteq> a \<Longrightarrow> qs_heap s' b = qs_heap s b" using p(3) by simp_all
        have "queue_work db s' = image_mset (\<lambda>b. work_left db (the (qs_heap s b))) (mset rest)"
          using queue_work_rest [OF assms(3) run s'(2)] by (simp add: queue_work_def s'(1))
        then have "(queue_work db s', queue_work db s) \<in> mult1 less4" unfolding work by (intro mult1I [where K = "{#}"]) auto
        moreover have "all_resumable s'"
        proof -
          have "a \<notin> dom (qs_heap s')" using sched_invD(2) [OF p(2)] s'(1) sched_invD(1) [OF assms(3)] run by auto
          then have "ran (qs_heap s') \<subseteq> ran (qs_heap s)" using s'(2) by (auto simp: ran_def) (metis option.distinct(1))
          then show ?thesis using assms(4) by (auto simp: all_resumable_def)
        qed
        ultimately show ?thesis using p(2) by blast
      next
        case nf: False
        then have s': "qs_running s' = rest @ [a]" "qs_heap s' = (qs_heap s)(a \<mapsto> q')" using p(3) by simp_all
        have q': "resumable q'" "(work_left db q', work_left db q) \<in> less4" using pr(2) r nf by auto
        have "queue_work db s' = image_mset (\<lambda>b. work_left db (the (qs_heap s b))) (mset rest) + {#work_left db q'#}"
          using queue_work_rest [OF assms(3) run, of "qs_heap s'"] by (simp add: queue_work_def s')
        then have "(queue_work db s', queue_work db s) \<in> mult1 less4" unfolding work by (intro mult1I [OF refl]) (use q'(2) in auto)
        moreover have "all_resumable s'" using assms(4) q'(1) by (auto simp: all_resumable_def s' ran_def)
        ultimately show ?thesis using p(2) by blast
      qed
    qed
    then show thesis using x by (intro that [of N x]) auto
  qed
qed

end

section \<open>The owner of a scheduler\<close>

text \<open>Turn after turn, with no message in between.\<close>

fun sched_turns ::
    "nat \<Rightarrow> nat \<Rightarrow> 'db env \<Rightarrow> lib \<Rightarrow> (nat \<Rightarrow> u64) \<Rightarrow> 'db \<Rightarrow> 'w sched_cbs \<Rightarrow> u64 \<Rightarrow> scheduler \<times> nat \<times> 'w \<Rightarrow>
     ((scheduler \<times> nat \<times> 'w) result) option" where
  "sched_turns 0 n E L clock db C budget st = Some (Inr st)"
| "sched_turns (Suc k) n E L clock db C budget st =
     (case sched_process n E L clock db C budget st of
        None \<Rightarrow> None
      | Some (Inl e) \<Rightarrow> Some (Inl e)
      | Some (Inr st') \<Rightarrow> sched_turns k n E L clock db C budget st')"

text \<open>
  The contract with the thread that owns the scheduler: its callbacks record that a
  subscription was completed, and nothing undoes the record.
\<close>

locale query_owner =
  fixes C :: "'w sched_cbs" and completed :: "subscription \<Rightarrow> 'w \<Rightarrow> bool"
  assumes onComplete: "\<exists>g. cb_onComplete C = Some g \<and>
      (\<forall>sub sub' w w'. g sub w = Inr w' \<longrightarrow> completed sub w' \<and> (completed sub' w \<longrightarrow> completed sub' w'))"
    and onEvent: "cb_onEvent C = Some f \<Longrightarrow> f sub l p w = Inr w' \<Longrightarrow> completed sub' w \<Longrightarrow> completed sub' w'"
    and onEventBatch: "cb_onEventBatch C = Some h \<Longrightarrow> h sub ls w = Inr w' \<Longrightarrow> completed sub' w \<Longrightarrow> completed sub' w'"
begin

lemma event_keeps:
  "sched_event E db C sub l st = Inr st' \<Longrightarrow> completed sub' (fst st) \<Longrightarrow> completed sub' (fst st')"
  using onEvent by (auto simp: sched_event_def bindE_eq_Inr Let_def split: if_splits option.splits)

lemma turn_keeps:
  assumes "sched_inv s" "sched_process n E L clock db C budget (s, t, w) = Some (Inr (s', t', w'))"
  shows "completed sub w \<Longrightarrow> completed sub w'"
    and "qs_heap s a = Some q \<Longrightarrow> \<not> dq_dead q \<Longrightarrow>
      completed (dq_sub q) w' \<or> (\<exists>q'. qs_heap s' a = Some q' \<and> \<not> dq_dead q' \<and> dq_sub q' = dq_sub q)"
proof -
  have "(completed sub w \<longrightarrow> completed sub w') \<and> (qs_heap s a = Some q \<longrightarrow> \<not> dq_dead q \<longrightarrow>
      completed (dq_sub q) w' \<or> (\<exists>q'. qs_heap s' a = Some q' \<and> \<not> dq_dead q' \<and> dq_sub q' = dq_sub q))"
    using assms
  proof (cases rule: sched_process_cases)
    case (turn x p)
    obtain finished p' w1 batch w2 batch' where run:
      "process n E L clock db (sched_event E db C (dq_sub p)) budget (p, t, w, qs_levIdBatch s) = Some (Inr (finished, p', t', w1, batch))"
      "dq_sub p' = dq_sub p" "(case cb_onEventBatch C of None \<Rightarrow> Inr (w1, batch) | Some f \<Rightarrow> bindE (f (dq_sub p) batch w1) (\<lambda>w1. Inr (w1, []))) = Inr (w2, batch')"
      "if finished then (case cb_onComplete C of None \<Rightarrow> Inr w2 | Some f \<Rightarrow> f (dq_sub p) w2) = Inr w' \<and> (\<forall>b. b \<noteq> x \<longrightarrow> qs_heap s' b = qs_heap s b)
       else w' = w2 \<and> qs_heap s' = (qs_heap s)(x \<mapsto> p')"
      by (rule sched_process_turn [OF assms(1) turn(3,1,2) assms(2)]) (auto split: if_splits)
    have live: "\<not> dq_dead p'" using process_frame [where R = "\<lambda>_. True", OF run(1)] turn(2) by simp
    have one: "completed sub' w1" if "completed sub' w" for sub'
    proof -
      have "dq_sub p' = dq_sub p \<and> dq_dead p' = dq_dead p \<and> completed sub' (fst (w1, batch))"
        by (rule process_frame [where R = "\<lambda>c. completed sub' (fst c)", OF run(1)]) (use that event_keeps in auto)
      then show ?thesis by simp
    qed
    have two: "completed sub' w2" if "completed sub' w1" for sub'
      using run(3) onEventBatch that by (auto simp: bindE_eq_Inr split: option.splits)
    obtain g where g: "cb_onComplete C = Some g"
      "\<And>sub sub' w w'. g sub w = Inr w' \<Longrightarrow> completed sub w' \<and> (completed sub' w \<longrightarrow> completed sub' w')"
      using onComplete by blast
    show ?thesis
    proof (cases finished)
      case True
      then have "g (dq_sub p) w2 = Inr w'" "\<And>b. b \<noteq> x \<Longrightarrow> qs_heap s' b = qs_heap s b" using run(4) g(1) by auto
      then show ?thesis using g(2) one two turn(1) by (cases "a = x") auto
    next
      case False
      then have "w' = w2" "qs_heap s' = (qs_heap s)(x \<mapsto> p')" using run(4) by auto
      then show ?thesis using one two turn(1) run(2) live by (cases "a = x") auto
    qed
  qed auto
  then show "completed sub w \<Longrightarrow> completed sub w'"
    and "qs_heap s a = Some q \<Longrightarrow> \<not> dq_dead q \<Longrightarrow>
      completed (dq_sub q) w' \<or> (\<exists>q'. qs_heap s' a = Some q' \<and> \<not> dq_dead q' \<and> dq_sub q' = dq_sub q)"
    by blast+
qed

end

text \<open>The queue drains, and every query that was alive is completed.\<close>

lemma sched_drains:
  assumes "scan_env L E key_le tree_items" "query_owner C completed"
    and "holds E L tree_items fs db M" "lookup_Event E db 0 = None" "sched_inv s" "all_resumable s"
  shows "\<exists>k N r. (\<forall>n\<ge>N. sched_turns k n E L clock db C budget (s, t, w) = Some r) \<and>
    ((\<exists>e. r = Inl e) \<or> (\<exists>s' t' w'. r = Inr (s', t', w') \<and> qs_running s' = [] \<and>
      (\<forall>a q. qs_heap s a = Some q \<longrightarrow> \<not> dq_dead q \<longrightarrow> completed (dq_sub q) w') \<and> (\<forall>sub. completed sub w \<longrightarrow> completed sub w')))"
proof -
  define R where "R = inv_image (mult1 less4) (scan_env.queue_work E db)"
  have "wf R" unfolding R_def by (intro wf_inv_image wf_mult1 wf_less4)
  then show ?thesis using assms(5,6)
  proof (induction s arbitrary: t w rule: wf_induct_rule)
    case (less s)
    show ?case
    proof (cases "qs_running s = []")
      case True
      then have "dom (qs_heap s) = {}" using sched_invD(2) [OF less.prems(1)] by simp
      then show ?thesis using True
        by (intro exI [of _ 0] exI [of _ 0] exI [of _ "Inr (s, t, w)"]) (auto simp: dom_def)
    next
      case False
      obtain N r where step: "\<forall>n\<ge>N. sched_process n E L clock db C budget (s, t, w) = Some r"
        "\<forall>s' t' w'. r = Inr (s', t', w') \<longrightarrow> sched_inv s' \<and> all_resumable s' \<and>
          (scan_env.queue_work E db s', scan_env.queue_work E db s) \<in> mult1 less4"
        by (rule scan_env.sched_turn_progress [OF assms(1,3,4) less.prems False])
      show ?thesis
      proof (cases r)
        case (Inl e)
        then show ?thesis using step(1) by (intro exI [of _ 1] exI [of _ N] exI [of _ "Inl e"]) simp
      next
        case (Inr p)
        obtain s1 t1 w1 where p: "p = (s1, t1, w1)" by (rule prod_cases3)
        have s1: "(s1, s) \<in> R" "sched_inv s1" "all_resumable s1" using step(2) Inr p by (simp_all add: R_def)
        from less.IH [OF this, of t1 w1] obtain k N' r' where
          IH: "\<forall>n\<ge>N'. sched_turns k n E L clock db C budget (s1, t1, w1) = Some r'"
            "(\<exists>e. r' = Inl e) \<or> (\<exists>s' t' w'. r' = Inr (s', t', w') \<and> qs_running s' = [] \<and>
              (\<forall>a q. qs_heap s1 a = Some q \<longrightarrow> \<not> dq_dead q \<longrightarrow> completed (dq_sub q) w') \<and> (\<forall>sub. completed sub w1 \<longrightarrow> completed sub w'))"
          by (elim exE conjE)
        have one: "sched_process N E L clock db C budget (s, t, w) = Some (Inr (s1, t1, w1))" using step(1) Inr p by simp
        note keeps = query_owner.turn_keeps [OF assms(2) less.prems(1) one]
        have "\<forall>n\<ge>max N N'. sched_turns (Suc k) n E L clock db C budget (s, t, w) = Some r'"
          using step(1) IH(1) Inr p by simp
        moreover have "completed (dq_sub q) w'"
          if "qs_heap s a = Some q" "\<not> dq_dead q" "\<forall>a q. qs_heap s1 a = Some q \<longrightarrow> \<not> dq_dead q \<longrightarrow> completed (dq_sub q) w'"
            "\<forall>sub. completed sub w1 \<longrightarrow> completed sub w'" for a q w'
          using keeps(2) [OF that(1,2)] that(3,4) by metis
        ultimately show ?thesis using IH(2) keeps(1)
          by (intro exI [of _ "Suc k"] exI [of _ "max N N'"] exI [of _ r']) blast
      qed
    qed
  qed
qed

end
