(* ===== verification/Req_Worker.thy ===== *)
theory Req_Worker
  imports Scheduler_Live Query_Answer Relay_Server
begin

text \<open>
  The threads that answer REQs from the database (\<^verbatim>\<open>src/src/apps/relay/RelayReqWorker.cpp\<close>):
  each owns a scheduler, whose callbacks send the events found and, at the end, EOSE, and
  hand the subscription over to the threads that watch for new events.
\<close>

section \<open>The thread\<close>

definition worker_onEvent :: "'db relay_params \<Rightarrow> subscription \<Rightarrow> u64 \<Rightarrow> string \<Rightarrow> relay \<Rightarrow> relay result" where
  "worker_onEvent P sub levId eventPayload rl =
     bindE (decodeEventPayload (rp_from_sv32 P) (rp_decompress P) eventPayload) (\<lambda>r.
     Inr (sendEvent (sub_connId sub) (sub_subId sub) (fst r) rl))"

definition eose :: "lib \<Rightarrow> string \<Rightarrow> string" where
  "eose L subId = json_to_string L (JArray [JString ''EOSE'', JString (SubId_sv subId)])"

definition worker_onComplete :: "'db relay_params \<Rightarrow> subscription \<Rightarrow> relay \<Rightarrow> relay result" where
  "worker_onComplete P sub rl =
     (let rl1 = sendToConn (sub_connId sub) (eose (rp_lib P) (sub_subId sub)) rl
      in Inr (rl1\<lparr>tpReqMonitor := dispatch (sub_connId sub) (RmNewSub sub) (tpReqMonitor rl1)\<rparr>))"

definition worker_cbs :: "'db relay_params \<Rightarrow> relay sched_cbs" where
  "worker_cbs P = \<lparr>cb_onEvent = Some (worker_onEvent P), cb_onEventBatch = None, cb_onComplete = Some (worker_onComplete P),
     cb_ensureExists = True\<rparr>"

text \<open>
  The state of the thread is its scheduler, the number of the next reading of the clock and
  the relay.  \<open>n\<close> is the fuel of the queries, and \<open>None\<close> that it ran out.
\<close>

type_synonym worker_state = "scheduler \<times> nat \<times> relay"

definition worker_process ::
    "nat \<Rightarrow> 'db relay_params \<Rightarrow> (nat \<Rightarrow> u64) \<Rightarrow> 'db \<Rightarrow> worker_state \<Rightarrow> (worker_state result) option" where
  "worker_process n P clock db st =
     sched_process n (rp_env P) (rp_lib P) clock db (worker_cbs P) (rc_queryTimesliceBudgetMicroseconds (rp_cfg P)) st"

definition req_worker_msg ::
    "nat \<Rightarrow> 'db relay_params \<Rightarrow> (nat \<Rightarrow> u64) \<Rightarrow> 'db \<Rightarrow> msg_req_worker \<Rightarrow> worker_state \<Rightarrow> (worker_state result) option" where
  "req_worker_msg n P clock db msg st =
     (let (queries, t, rl) = st
      in case msg of
           RwNewSub sub \<Rightarrow>
             (case sched_addSub (rp_env P) (rc_maxSubsPerConnection (rp_cfg P)) db sub queries of
                Inl e \<Rightarrow> Some (Inl e)
              | Inr (ok, queries1) \<Rightarrow>
                  worker_process n P clock db (queries1, t,
                    if ok then rl else sendNoticeError (rp_lib P) (sub_connId sub) ''too many concurrent REQs'' rl))
         | RwRemoveSub connId subId \<Rightarrow>
             Some (bindE (sched_removeSub connId subId queries) (\<lambda>queries1.
               Inr (queries1, t, rl\<lparr>tpReqMonitor := dispatch connId (RmRemoveSub connId subId) (tpReqMonitor rl)\<rparr>)))
         | RwCloseConn connId \<Rightarrow>
             Some (bindE (sched_closeConn connId queries) (\<lambda>queries1.
               Inr (queries1, t, rl\<lparr>tpReqMonitor := dispatch connId (RmCloseConn connId) (tpReqMonitor rl)\<rparr>))))"

fun req_worker_msgs ::
    "nat \<Rightarrow> 'db relay_params \<Rightarrow> (nat \<Rightarrow> u64) \<Rightarrow> 'db \<Rightarrow> msg_req_worker list \<Rightarrow> worker_state \<Rightarrow> (worker_state result) option" where
  "req_worker_msgs n P clock db [] st = Some (Inr st)"
| "req_worker_msgs n P clock db (msg # msgs) st =
     (case req_worker_msg n P clock db msg st of
        None \<Rightarrow> None
      | Some (Inl e) \<Rightarrow> Some (Inl e)
      | Some (Inr st') \<Rightarrow> req_worker_msgs n P clock db msgs st')"

definition req_worker_round ::
    "nat \<Rightarrow> 'db relay_params \<Rightarrow> (nat \<Rightarrow> u64) \<Rightarrow> 'db \<Rightarrow> msg_req_worker list \<Rightarrow> worker_state \<Rightarrow> (worker_state result) option" where
  "req_worker_round n P clock db newMsgs st =
     (case req_worker_msgs n P clock db newMsgs st of
        None \<Rightarrow> None
      | Some (Inl e) \<Rightarrow> Some (Inl e)
      | Some (Inr st') \<Rightarrow> worker_process n P clock db st')"

text \<open>Rounds of the thread, each with the database that its transaction sees and the messages it takes.\<close>

fun req_worker_rounds ::
    "nat \<Rightarrow> 'db relay_params \<Rightarrow> (nat \<Rightarrow> u64) \<Rightarrow> ('db \<times> msg_req_worker list) list \<Rightarrow> worker_state \<Rightarrow> (worker_state result) option" where
  "req_worker_rounds n P clock [] st = Some (Inr st)"
| "req_worker_rounds n P clock ((db, msgs) # rounds) st =
     (case req_worker_round n P clock db msgs st of
        None \<Rightarrow> None
      | Some (Inl e) \<Rightarrow> Some (Inl e)
      | Some (Inr st') \<Rightarrow> req_worker_rounds n P clock rounds st')"

section \<open>The contract with the scheduler\<close>

text \<open>A pool only grows at the end of its inboxes.\<close>

definition inbox :: "u64 \<Rightarrow> 'm thread_pool \<Rightarrow> 'm list" where
  "inbox key pool = (if pool = [] then [] else pool ! (unat key mod length pool))"

lemma inbox_dispatch:
  "pool \<noteq> [] \<Longrightarrow> inbox key (dispatch key' m pool) =
     inbox key pool @ (if unat key mod length pool = unat key' mod length pool then [m] else [])"
  by (auto simp: inbox_def dispatch_def Let_def nth_list_update)

lemma dispatch_empty [simp]: "dispatch key m pool = [] \<longleftrightarrow> pool = []"
  by (simp add: dispatch_def Let_def)

lemma length_dispatch [simp]: "length (dispatch key m pool) = length pool"
  by (simp add: dispatch_def Let_def)

lemma set_inbox_dispatch: "m \<in> set (inbox key pool) \<Longrightarrow> m \<in> set (inbox key (dispatch key' m' pool))"
  by (cases "pool = []") (auto simp: inbox_def dispatch_def Let_def nth_list_update)

text \<open>A subscription was announced: EOSE is under way to its client, and its own message to the monitors.\<close>

definition announced :: "lib \<Rightarrow> subscription \<Rightarrow> relay \<Rightarrow> bool" where
  "announced L sub rl \<longleftrightarrow>
     (tpWebsocket rl \<noteq> [] \<longrightarrow> WsSend (sub_connId sub) (eose L (sub_subId sub)) \<in> set (inbox 0 (tpWebsocket rl))) \<and>
     (tpReqMonitor rl \<noteq> [] \<longrightarrow> RmNewSub sub \<in> set (inbox (sub_connId sub) (tpReqMonitor rl)))"

interpretation worker: query_owner "worker_cbs P" "announced (rp_lib P)" for P :: "'db relay_params"
proof
  show "\<exists>g. cb_onComplete (worker_cbs P) = Some g \<and> (\<forall>sub sub' w w'. g sub w = Inr w' \<longrightarrow>
      announced (rp_lib P) sub w' \<and> (announced (rp_lib P) sub' w \<longrightarrow> announced (rp_lib P) sub' w'))"
    by (auto simp: worker_cbs_def worker_onComplete_def announced_def sendToConn_def inbox_dispatch Let_def)
  show "announced (rp_lib P) sub' w'" if "cb_onEvent (worker_cbs P) = Some f" "f sub l p w = Inr w'" "announced (rp_lib P) sub' w" for f sub l p w w' sub'
    using that by (auto simp: worker_cbs_def worker_onEvent_def bindE_eq_Inr announced_def sendEvent_def sendToConn_def inbox_dispatch)
qed (simp add: worker_cbs_def)

end
