(* ===== verification/Req_Results.thy ===== *)
theory Req_Results
  imports Req_Worker
begin

text \<open>
  What clients get from the threads that answer REQs: the exact answer to a single REQ, an
  answer to everybody however many REQs run at once, and silence after a disconnect.
\<close>

section \<open>Queries whose callback does not fail\<close>

lemma foldE_total: "(\<And>l c. l \<in> set ls \<Longrightarrow> \<exists>c'. cb l c = Inr c') \<Longrightarrow> \<exists>c'. foldE cb ls c = Inr c'"
proof (induction ls arbitrary: c)
  case (Cons l ls)
  obtain c1 where "cb l c = Inr c1" using Cons.prems [of l c] by auto
  then show ?case using Cons.IH [of c1] Cons.prems by auto
qed simp

lemma feed_total:
  assumes "\<And>l c. want l \<Longrightarrow> \<exists>c'. cb l c = Inr c'"
  shows "\<exists>st'. feed want (sends f latest cb) xs st = Inr st'"
proof (induction xs arbitrary: st)
  case (Cons x xs)
  obtain full now c where st: "st = (full, now, c)" by (cases st)
  show ?case
  proof (cases "want (snd x)")
    case True
    then obtain c1 where "cb (snd x) c = Inr c1" using assms by blast
    then have "\<exists>b st1. sends f latest cb (snd x) st = Inr (b, st1)" by (auto simp: sends_def st)
    then show ?thesis using Cons.IH True by (auto split: if_splits)
  qed (use Cons.IH in simp)
qed auto

lemma newest_stored:
  assumes "finite (dom M)" "l \<in> set (newest M latest f)"
  shows "M l \<noteq> None"
proof -
  have "finite (selected M latest f)"
  proof (rule finite_subset)
    show "selected M latest f \<subseteq> (\<lambda>l. (ev_created_at (the (M l)), l)) ` dom M" by (auto simp: selected_def image_iff)
  qed (use assms(1) in simp)
  then show ?thesis using assms(2) set_take_subset [of "unat (nf_limit f)"]
    by (fastforce simp: newest_def selected_def)
qed

context scan_env
begin

lemma finite_store: "holds E L tree_items fs db M \<Longrightarrow> finite (dom M)"
  using finite_events [of db] by (simp add: holds_def dom_def)

lemma outcome_total:
  assumes "holds E L tree_items fs db M" "\<And>l c. M l \<noteq> None \<Longrightarrow> \<exists>c'. cb l c = Inr c'"
  shows "\<exists>x. outcome db M cb q c = Inr x"
proof -
  have skip: "\<exists>c'. foldE (skip_sent cb full) (newest M latest f) c = Inr c'" for full latest f c
    by (rule foldE_total) (use newest_stored [OF finite_store [OF assms(1)]] assms(2) in \<open>auto simp: skip_sent_def\<close>)
  have rest: "\<exists>x. foldE (send_filter M latest cb) fg st = Inr x" for latest fg st
  proof (rule foldE_total)
    fix f st
    obtain c' where "foldE (skip_sent cb (fst st)) (newest M latest f) (snd st) = Inr c'" using skip by blast
    then show "\<exists>st'. send_filter M latest cb f st = Inr st'" by (simp add: send_filter_def)
  qed
  have fed: "\<exists>full now c'. feed (matching M f) (sends f latest cb) xs st = Inr (full, now, c')" for f latest xs st
  proof -
    have "\<exists>c'. cb l c = Inr c'" if "matching M f l" for l c using that assms(2) [of l c] by (auto simp: matching_def)
    then obtain st' where "feed (matching M f) (sends f latest cb) xs st = Inr st'" using feed_total [of "matching M f" cb f latest xs st] by auto
    then show ?thesis by (cases st') simp
  qed
  show ?thesis
  proof (cases "dq_scanner q")
    case None
    then show ?thesis using rest by (simp add: outcome_def Let_def)
  next
    case (Some S)
    let ?f = "sub_filterGroup (dq_sub q) ! dq_filterGroupIndex q"
    obtain full now c' where "feed (matching M ?f) (sends ?f (sub_latestEventId (dq_sub q)) cb) (todo db ?f S)
        (dq_sentEventsFull q, dq_sentEventsCurr q, c) = Inr (full, now, c')" using fed by blast
    then show ?thesis using rest Some by (simp add: outcome_def Let_def)
  qed
qed

section \<open>Turns without exceptions\<close>

definition queries_ok :: "'db \<Rightarrow> scheduler \<Rightarrow> bool" where
  "queries_ok db s \<longleftrightarrow> (\<forall>q\<in>ran (qs_heap s). query_ok db q)"

lemma removeSub_total:
  assumes "\<And>a. findQuery c i s = Some a \<Longrightarrow> qs_heap s a \<noteq> None"
  shows "\<exists>s'. sched_removeSub c i s = Inr s'"
proof (cases "findQuery c i s")
  case (Some a)
  then obtain q where "qs_heap s a = Some q" using assms by blast
  then show ?thesis by (simp add: sched_removeSub_def Some set_dead_Inr Let_def)
qed (simp add: sched_removeSub_def)

lemma turn_total:
  assumes "holds E L tree_items fs db M" "small_times M" "sched_inv s" "queries_ok db s"
    and C: "cb_onEventBatch C = None" "\<And>sub w. \<exists>g w'. cb_onComplete C = Some g \<and> g sub w = Inr w'"
      "\<And>sub l st. M l \<noteq> None \<Longrightarrow> \<exists>st'. sched_event E db C sub l st = Inr st'"
    and run: "sched_process n E L clock db C budget (s, t, w) = Some r"
  shows "\<exists>s' t' w'. r = Inr (s', t', w') \<and> queries_ok db s'"
proof -
  from assms(3) run show ?thesis
  proof (cases rule: sched_process_cases)
    case idle
    then show ?thesis using assms(4) by simp
  next
    case (reap a q)
    then show ?thesis using assms(4) by (auto simp: queries_ok_def ran_def)
  next
    case (turn a q)
    let ?ev = "sched_event E db C (dq_sub q)"
    have qok: "query_ok db q" using assms(4) turn(1) by (auto simp: queries_ok_def ran_def)
    obtain x where x: "process n E L clock db ?ev budget (q, t, w, qs_levIdBatch s) = Some x"
      using run turn by (cases "process n E L clock db ?ev budget (q, t, w, qs_levIdBatch s)") (auto simp: sched_process_def split: list.splits)
    note exact = process_exact [OF assms(1,2) qok x]
    obtain z where z: "outcome db M ?ev q (w, qs_levIdBatch s) = Inr z" using outcome_total [OF assms(1), of ?ev] C(3) by blast
    obtain y where y: "x = Inr y" using exact z by (cases x) auto
    obtain finished q' t' w' b where y': "y = (finished, q', t', w', b)" by (cases y) auto
    have fr: "dq_sub q' = dq_sub q"
      using process_frame [OF x [unfolded y y'], of "\<lambda>_. True"] by simp
    obtain s' t1 w1 where r: "r = Inr (s', t1, w1)"
    proof (cases finished)
      case True
      let ?s1 = "s\<lparr>qs_heap := (qs_heap s)(a \<mapsto> q'), qs_running := tl (qs_running s), qs_levIdBatch := b\<rparr>"
      have "\<exists>s2. sched_removeSub (sub_connId (dq_sub q)) (sub_subId (dq_sub q)) ?s1 = Inr s2"
        by (rule removeSub_total) (use turn(4) in simp)
      moreover obtain g w2 where "cb_onComplete C = Some g" "g (dq_sub q) w' = Inr w2" using C(2) by blast
      ultimately show thesis using run turn x y y' True fr C(1) that by (auto simp: sched_process_def Let_def split: list.splits)
    next
      case False
      then show thesis using run turn x y y' C(1) that by (auto simp: sched_process_def Let_def split: list.splits)
    qed
    have inv: "sched_inv s'" by (rule sched_process_inv [OF assms(3) run [unfolded r]])
    obtain fin q1 w3 batch where p: "process n E L clock db ?ev budget (q, t, w, qs_levIdBatch s) = Some (Inr (fin, q1, t1, w3, batch))"
      "if fin then qs_running s' = tl (qs_running s) \<and> (\<forall>b. b \<noteq> a \<longrightarrow> qs_heap s' b = qs_heap s b) else qs_heap s' = (qs_heap s)(a \<mapsto> q1)"
      by (rule sched_process_turn [OF assms(3) turn(3,1,2) run [unfolded r]]) (auto split: if_splits)
    have "queries_ok db s'"
    proof (cases fin)
      case True
      have "distinct (a # tl (qs_running s))" using sched_invD(1) [OF assms(3)] turn(3) by simp
      then have "a \<notin> dom (qs_heap s')" using sched_invD(2) [OF inv] p(2) True by auto
      then have "ran (qs_heap s') \<subseteq> ran (qs_heap s)" using p(2) True by (auto simp: ran_def) (metis option.distinct(1))
      then show ?thesis using assms(4) by (auto simp: queries_ok_def)
    next
      case False
      then have "query_ok db q1" using exact p(1) x by simp
      then show ?thesis using assms(4) p(2) False by (auto simp: queries_ok_def ran_def)
    qed
    then show ?thesis using r by blast
  qed
qed

text \<open>The turns of a query that is alone: they give its outcome, whether it is interrupted or not.\<close>

lemma single_turns:
  assumes "holds E L tree_items fs db M" "small_times M" "sched_inv s" "qs_running s = [a]" "qs_heap s a = Some q" "\<not> dq_dead q" "query_ok db q"
    and C: "cb_onEventBatch C = None" "cb_onComplete C = Some g" "\<And>sub w. \<exists>w'. g sub w = Inr w'"
      "\<And>sub l st. M l \<noteq> None \<Longrightarrow> \<exists>st'. sched_event E db C sub l st = Inr st'"
    and out: "outcome db M (sched_event E db C (dq_sub q)) q (w, qs_levIdBatch s) = Inr (full, w1, b1)"
    and run: "sched_turns k n E L clock db C budget (s, t, w) = Some r"
  shows "\<exists>s' t' w'. r = Inr (s', t', w') \<and> (qs_running s' = [] \<longrightarrow> g (dq_sub q) w1 = Inr w')"
  using assms(3-7) out run
proof (induction k arbitrary: s q t w)
  case (Suc k)
  let ?ev = "sched_event E db C (dq_sub q)"
  obtain x where x: "sched_process n E L clock db C budget (s, t, w) = Some x"
    using Suc.prems(7) by (cases "sched_process n E L clock db C budget (s, t, w)") auto
  have "b = a" if "qs_heap s b = Some y" for b y
    using sched_invD(2) [OF Suc.prems(1)] Suc.prems(2) domI [of "qs_heap s", OF that] by auto
  then have qs: "queries_ok db s" using Suc.prems(3,5) by (fastforce simp: queries_ok_def ran_def)
  obtain s1 t1 w2 where x': "x = Inr (s1, t1, w2)"
    using turn_total [OF assms(1,2) Suc.prems(1) qs C(1) _ C(4) x] C(2,3) by blast
  obtain fin q1 w3 batch where p: "process n E L clock db ?ev budget (q, t, w, qs_levIdBatch s) = Some (Inr (fin, q1, t1, w3, batch))"
    "dq_sub q1 = dq_sub q" "sched_inv s1" "qs_levIdBatch s1 = batch"
    "if fin then qs_running s1 = [] \<and> g (dq_sub q) w3 = Inr w2 else qs_running s1 = [a] \<and> w2 = w3 \<and> qs_heap s1 = (qs_heap s)(a \<mapsto> q1)"
    by (rule sched_process_turn [OF Suc.prems(1-4) x [unfolded x']]) (use C(1,2) in \<open>auto split: if_splits\<close>)
  note exact = process_exact [OF assms(1,2) Suc.prems(5) p(1)]
  have rest: "sched_turns k n E L clock db C budget (s1, t1, w2) = Some r" using Suc.prems(7) by (simp add: x x')
  show ?case
  proof (cases fin)
    case True
    then have w3: "w3 = w1" using exact Suc.prems(6) by simp
    have "sched_turns j n E L clock db C budget (s1, t1, w2) = Some (Inr (s1, t1, w2))" for j
      using p(5) True by (induction j) (simp_all add: sched_process_def)
    then have "r = Inr (s1, t1, w2)" using rest by simp
    then show ?thesis using p(5) True w3 by simp
  next
    case False
    then have q1: "query_ok db q1" "outcome db M ?ev q1 (w2, qs_levIdBatch s1) = Inr (full, w1, b1)"
      using exact Suc.prems(6) p(4,5) by simp_all
    have "\<not> dq_dead q1" using process_frame [OF p(1), of "\<lambda>_. True"] Suc.prems(4) by simp
    then show ?thesis
      using Suc.IH [OF p(3) _ _ _ q1(1) _ rest] q1(2) p(2,5) False by simp
  qed
qed auto

end

section \<open>The worker\<close>

definition event_text :: "string \<Rightarrow> string \<Rightarrow> string" where
  "event_text subId evJson = event_prefix @ SubId_sv subId @ [CHR 0x22, CHR '',''] @ evJson @ '']''"

text \<open>Every stored event can be read, \<open>T\<close> are the texts.\<close>

definition readable :: "'db relay_params \<Rightarrow> 'db \<Rightarrow> store \<Rightarrow> (u64 \<Rightarrow> string) \<Rightarrow> bool" where
  "readable P db M T \<longleftrightarrow> (\<forall>l. M l \<noteq> None \<longrightarrow> getEventJson (rp_env P) (rp_from_sv32 P) (rp_decompress P) db l = Inr (T l))"

lemma worker_event:
  assumes "readable P db M T" "M l \<noteq> None"
  shows "sched_event (rp_env P) db (worker_cbs P) sub l (rl, b) = Inr (sendEvent (sub_connId sub) (sub_subId sub) (T l) rl, b)"
proof -
  have "getEventJson (rp_env P) (rp_from_sv32 P) (rp_decompress P) db l = Inr (T l)" using assms by (simp add: readable_def)
  then obtain p r where "payload_get (rp_env P) db l = Some p"
    "decodeEventPayload (rp_from_sv32 P) (rp_decompress P) p = Inr r" "fst r = T l"
    by (auto simp: getEventJson_def bindE_eq_Inr split: option.splits)
  then show ?thesis by (simp add: sched_event_def worker_cbs_def worker_onEvent_def Let_def)
qed

lemma worker_total:
  "cb_onEventBatch (worker_cbs P) = None" "cb_onComplete (worker_cbs P) = Some (worker_onComplete P)" "\<exists>w'. worker_onComplete P sub w = Inr w'"
  by (simp_all add: worker_cbs_def worker_onComplete_def Let_def)

lemma worker_event_total:
  "readable P db M T \<Longrightarrow> M l \<noteq> None \<Longrightarrow> \<exists>st'. sched_event (rp_env P) db (worker_cbs P) sub l st = Inr st'"
  by (cases st) (simp add: worker_event)

lemma worker_events:
  assumes "readable P db M T" "\<forall>l\<in>set ls. M l \<noteq> None"
  shows "foldE (sched_event (rp_env P) db (worker_cbs P) sub) ls (rl, b) = Inr (fold (\<lambda>l. sendEvent (sub_connId sub) (sub_subId sub) (T l)) ls rl, b)"
  using assms(2) by (induction ls arbitrary: rl) (simp_all add: worker_event [OF assms(1)])

lemma rounds_turns:
  "req_worker_rounds n P clock (replicate k (db, [])) st =
     sched_turns k n (rp_env P) (rp_lib P) clock db (worker_cbs P) (rc_queryTimesliceBudgetMicroseconds (rp_cfg P)) st"
  by (induction k arbitrary: st) (auto simp: req_worker_round_def worker_process_def split: option.split sum.split)

lemma sched_turns_add:
  "sched_turns (j + k) n E L clock db C budget st =
     (case sched_turns j n E L clock db C budget st of
        None \<Rightarrow> None | Some (Inl e) \<Rightarrow> Some (Inl e) | Some (Inr st') \<Rightarrow> sched_turns k n E L clock db C budget st')"
  by (induction j arbitrary: st) (auto split: option.split sum.split)

lemma sched_turns_idle: "qs_running s = [] \<Longrightarrow> sched_turns j n E L clock db C budget (s, t, w) = Some (Inr (s, t, w))"
  by (induction j) (simp_all add: sched_process_def)

lemma first_round:
  assumes "sched_addSub (rp_env P) (rc_maxSubsPerConnection (rp_cfg P)) db sub s = Inr (True, s1)"
  shows "req_worker_rounds n P clock ((db, [RwNewSub sub]) # replicate k (db, [])) (s, t, rl) =
    sched_turns (2 + k) n (rp_env P) (rp_lib P) clock db (worker_cbs P) (rc_queryTimesliceBudgetMicroseconds (rp_cfg P)) (s1, t, rl)"
proof -
  let ?turns = "\<lambda>j. sched_turns j n (rp_env P) (rp_lib P) clock db (worker_cbs P) (rc_queryTimesliceBudgetMicroseconds (rp_cfg P))"
  have "req_worker_round n P clock db [RwNewSub sub] (s, t, rl) = ?turns 2 (s1, t, rl)"
    using assms by (simp add: req_worker_round_def req_worker_msg_def worker_process_def numeral_2_eq_2 split: option.split sum.split)
  then show ?thesis unfolding sched_turns_add by (simp add: rounds_turns split: option.split sum.split)
qed

text \<open>A query on an idle scheduler.\<close>

lemma addSub_idle:
  assumes "sched_inv s" "qs_running s = []" "0 < maxSubs"
  obtains s1 where "sched_addSub E maxSubs db sub s = Inr (True, s1)" "sched_inv s1" "all_resumable s1" "qs_running s1 = [qs_next s]"
    "qs_heap s1 (qs_next s) = Some (DBQuery (sub\<lparr>sub_latestEventId := getMostRecentLevId E db\<rparr>))" "qs_levIdBatch s1 = qs_levIdBatch s"
proof -
  have "qs_heap s = Map.empty" using sched_invD(2) [OF assms(1)] assms(2) dom_eq_empty_conv [of "qs_heap s"] by simp
  then have free: "findQuery c i s = None" for c i using sched_invD(5) [OF assms(1), of c i] by (cases "findQuery c i s") auto
  obtain s1 where s1: "sched_addSub E maxSubs db sub s = Inr (True, s1)" "sched_inv s1" "qs_running s1 = [qs_next s]"
    "qs_heap s1 (qs_next s) = Some (DBQuery (sub\<lparr>sub_latestEventId := getMostRecentLevId E db\<rparr>))" "qs_levIdBatch s1 = qs_levIdBatch s"
    by (rule addSub_inv [OF assms(1), of E maxSubs db sub]) (use free assms(2,3) that in auto)
  have "dom (qs_heap s1) = {qs_next s}" using sched_invD(2) [OF s1(2)] s1(3) by simp
  then have "all_resumable s1" using s1(4) by (auto simp: all_resumable_def ran_def) (metis domI option.inject resumable_DBQuery singletonD)
  with s1 show thesis by (intro that)
qed

text \<open>The messages of a list of events, and of the end of a query.\<close>

lemma inbox_events:
  assumes "tpWebsocket rl \<noteq> []"
  shows "inbox 0 (tpWebsocket (fold (\<lambda>l. sendEvent c i (T l)) ls rl)) = inbox 0 (tpWebsocket rl) @ map (\<lambda>l. WsSend c (event_text i (T l))) ls \<and>
    tpWebsocket (fold (\<lambda>l. sendEvent c i (T l)) ls rl) \<noteq> [] \<and> tpReqMonitor (fold (\<lambda>l. sendEvent c i (T l)) ls rl) = tpReqMonitor rl"
  using assms
proof (induction ls arbitrary: rl)
  case (Cons l ls)
  have "tpWebsocket (sendEvent c i (T l) rl) \<noteq> []" using Cons.prems by (simp add: sendEvent_def sendToConn_def)
  from Cons.IH [OF this] Cons.prems show ?case by (simp add: sendEvent_def sendToConn_def inbox_dispatch event_text_def)
qed simp

lemma worker_finishes:
  assumes "worker_onComplete P sub (fold (\<lambda>l. sendEvent (sub_connId sub) (sub_subId sub) (T l)) ls rl) = Inr rl'" "tpWebsocket rl \<noteq> []" "tpReqMonitor rl \<noteq> []"
  shows "inbox 0 (tpWebsocket rl') = inbox 0 (tpWebsocket rl) @ map (\<lambda>l. WsSend (sub_connId sub) (event_text (sub_subId sub) (T l))) ls @
      [WsSend (sub_connId sub) (eose (rp_lib P) (sub_subId sub))]"
    and "inbox (sub_connId sub) (tpReqMonitor rl') = inbox (sub_connId sub) (tpReqMonitor rl) @ [RmNewSub sub]"
  using assms(1,3) inbox_events [OF assms(2), of "sub_connId sub" "sub_subId sub" T ls]
  by (auto simp: worker_onComplete_def sendToConn_def inbox_dispatch Let_def)

lemma answer_stored: "finite (dom M) \<Longrightarrow> l \<in> set (query_answer M latest fg) \<Longrightarrow> M l \<noteq> None"
proof -
  assume fin: "finite (dom M)"
  have "l \<in> set (fold (add_newest M latest) fg sent) \<Longrightarrow> l \<in> set sent \<or> M l \<noteq> None" for sent
    by (induction fg arbitrary: sent) (fastforce simp: add_newest_def dest: newest_stored [OF fin])+
  then show "l \<in> set (query_answer M latest fg) \<Longrightarrow> M l \<noteq> None" by (fastforce simp: query_answer_def)
qed

lemma req_query_filters:
  "NostrFilterGroup L req m = Inr fg \<Longrightarrow> \<forall>f\<in>set fg. query_filter f"
  unfolding NostrFilterGroup_def by (auto simp: bindE_eq_Inr dest!: NostrFilterGroup_fold_query)

section \<open>Properties\<close>

text \<open>
  C1. A REQ is answered with exactly the right events.  A worker thread with nothing else to do
  takes a REQ, over a database that stays as it is and whose events can be read: after some
  rounds, however often the query was interrupted, the websocket thread has been handed, in
  this order, an EVENT for each event of the answer, the newest matching ones of each filter
  up to its limit, newest first and none twice, and then EOSE; the monitors have been handed
  the subscription, with the number of the newest event it has covered; and the thread is
  idle again.
\<close>

theorem req_answered_exactly:
  assumes "scan_env (rp_lib P) (rp_env P) key_le tree_items" "holds (rp_env P) (rp_lib P) tree_items fs db M"
    and "lookup_Event (rp_env P) db 0 = None" "small_times M" "readable P db M T"
    and "NostrFilterGroup (rp_lib P) req (rc_maxFilterLimit (rp_cfg P)) = Inr (sub_filterGroup sub)" "\<forall>f\<in>set (sub_filterGroup sub). few_values f"
    and "sched_inv s" "qs_running s = []" "0 < rc_maxSubsPerConnection (rp_cfg P)" "tpWebsocket rl \<noteq> []" "tpReqMonitor rl \<noteq> []"
  shows "\<exists>k N. \<forall>n\<ge>N. \<exists>s' t' rl'.
    req_worker_rounds n P clock ((db, [RwNewSub sub]) # replicate k (db, [])) (s, t, rl) = Some (Inr (s', t', rl')) \<and> qs_running s' = [] \<and>
    inbox 0 (tpWebsocket rl') = inbox 0 (tpWebsocket rl) @
      map (\<lambda>l. WsSend (sub_connId sub) (event_text (sub_subId sub) (T l)))
        (query_answer M (getMostRecentLevId (rp_env P) db) (sub_filterGroup sub)) @
      [WsSend (sub_connId sub) (eose (rp_lib P) (sub_subId sub))] \<and>
    inbox (sub_connId sub) (tpReqMonitor rl') = inbox (sub_connId sub) (tpReqMonitor rl) @
      [RmNewSub (sub\<lparr>sub_latestEventId := getMostRecentLevId (rp_env P) db\<rparr>)]"
proof -
  let ?E = "rp_env P" and ?L = "rp_lib P" and ?C = "worker_cbs P" and ?budget = "rc_queryTimesliceBudgetMicroseconds (rp_cfg P)"
  let ?latest = "getMostRecentLevId ?E db"
  let ?sub = "sub\<lparr>sub_latestEventId := ?latest\<rparr>"
  let ?ls = "query_answer M ?latest (sub_filterGroup sub)"
  let ?rl = "fold (\<lambda>l. sendEvent (sub_connId sub) (sub_subId sub) (T l)) ?ls rl"
  obtain s1 where s1: "sched_addSub ?E (rc_maxSubsPerConnection (rp_cfg P)) db sub s = Inr (True, s1)" "sched_inv s1" "all_resumable s1"
    "qs_running s1 = [qs_next s]" "qs_heap s1 (qs_next s) = Some (DBQuery ?sub)" "qs_levIdBatch s1 = qs_levIdBatch s"
    by (rule addSub_idle [OF assms(8-10), of ?E db sub])
  have ok: "scan_env.query_ok ?L ?E key_le db (DBQuery ?sub)"
    by (rule scan_env.query_ok_DBQuery [OF assms(1)]) (use req_query_filters [OF assms(6)] assms(7) in simp)
  have fin: "finite (dom M)" by (rule scan_env.finite_store [OF assms(1,2)])
  have evs: "foldE (sched_event ?E db ?C ?sub) ?ls (rl, qs_levIdBatch s1) = Inr (?rl, qs_levIdBatch s1)"
    using worker_events [OF assms(5), of ?ls ?sub rl "qs_levIdBatch s1"] answer_stored [OF fin] by simp
  obtain full where out: "scan_env.outcome ?E db M (sched_event ?E db ?C ?sub) (DBQuery ?sub) (rl, qs_levIdBatch s1) = Inr (full, ?rl, qs_levIdBatch s1)"
    using foldE_answer [of M ?latest "sched_event ?E db ?C ?sub" "sub_filterGroup sub" "(rl, qs_levIdBatch s1)"] evs
    by (auto simp: scan_env.fresh_outcome [OF assms(1)] bindE_eq_Inr)
  obtain k N r where drain: "\<forall>n\<ge>N. sched_turns k n ?E ?L clock db ?C ?budget (s1, t, rl) = Some r"
    "(\<exists>e. r = Inl e) \<or> (\<exists>s' t' w'. r = Inr (s', t', w') \<and> qs_running s' = [])"
    using sched_drains [OF assms(1) worker.query_owner_axioms [of P] assms(2,3) s1(2,3), of clock ?budget t rl] by (elim exE conjE) blast
  have one: "\<exists>s' t' w'. r = Inr (s', t', w') \<and> (qs_running s' = [] \<longrightarrow> worker_onComplete P ?sub ?rl = Inr w')"
  proof -
    have live: "\<not> dq_dead (DBQuery ?sub)" and sub: "dq_sub (DBQuery ?sub) = ?sub" by (simp_all add: DBQuery_def)
    have run: "sched_turns k N ?E ?L clock db ?C ?budget (s1, t, rl) = Some r" using drain(1) by simp
    show ?thesis
      using scan_env.single_turns [OF assms(1,2,4) s1(2,4,5) live ok worker_total worker_event_total [OF assms(5)], unfolded sub, OF _ out run] by blast
  qed
  obtain s' t' w' where r: "r = Inr (s', t', w')" "qs_running s' = []" "worker_onComplete P ?sub ?rl = Inr w'" using one drain(2) by auto
  have "req_worker_rounds n P clock ((db, [RwNewSub sub]) # replicate k (db, [])) (s, t, rl) = Some (Inr (s', t', w'))" if "n \<ge> N" for n
  proof -
    have "sched_turns (k + 2) n ?E ?L clock db ?C ?budget (s1, t, rl) = Some (Inr (s', t', w'))"
      unfolding sched_turns_add using drain(1) that r(1) sched_turns_idle [OF r(2)] by simp
    then show ?thesis unfolding first_round [OF s1(1)] by (simp add: add.commute)
  qed
  moreover have "worker_onComplete P ?sub (fold (\<lambda>l. sendEvent (sub_connId ?sub) (sub_subId ?sub) (T l)) ?ls rl) = Inr w'" using r(3) by simp
  note worker_finishes [OF this assms(11,12), simplified]
  ultimately show ?thesis using r(2) by blast
qed

text \<open>A database with one event, and a REQ for everything.\<close>

definition demo_relay_params :: "mem_db relay_params" where
  "demo_relay_params = \<lparr>rp_env = mem_env, rp_lib = le_lib, rp_what = (\<lambda>_. []), rp_from_sv32 = (\<lambda>_. 0),
     rp_decompress = (\<lambda>_ _. Inl (Herr ''no dictionary'')), rp_cfg = sample_relay_cfg\<rparr>"

definition all_req :: json where
  "all_req = JArray [JString ''REQ'', JString ''s'', JObject []]"

definition all_sub :: subscription where
  "all_sub = \<lparr>sub_connId = 7, sub_subId = [CHR 0x01, CHR ''s''], sub_filterGroup = [any_filter\<lparr>nf_limit := 500\<rparr>], sub_latestEventId = MAX_U64\<rparr>"

lemma demo_facts:
  "scan_env (rp_lib demo_relay_params) (rp_env demo_relay_params) mem_key_le mem_tree_items"
  "holds (rp_env demo_relay_params) (rp_lib demo_relay_params) mem_tree_items (fc_filters no_filters) one_db [1 \<mapsto> ev_old]"
  "lookup_Event (rp_env demo_relay_params) one_db 0 = None" "small_times [1 \<mapsto> ev_old]"
  "readable demo_relay_params one_db [1 \<mapsto> ev_old] (\<lambda>_. ''{}'')"
  "NostrFilterGroup (rp_lib demo_relay_params) all_req (rc_maxFilterLimit (rp_cfg demo_relay_params)) = Inr (sub_filterGroup all_sub)"
  "\<forall>f\<in>set (sub_filterGroup all_sub). few_values f" "0 < rc_maxSubsPerConnection (rp_cfg demo_relay_params)"
  "tpWebsocket relay_idle \<noteq> []" "tpReqMonitor relay_idle \<noteq> []"
  "getMostRecentLevId (rp_env demo_relay_params) one_db = 1" "query_answer [1 \<mapsto> ev_old] 1 (sub_filterGroup all_sub) = [1]"
proof -
  show "scan_env (rp_lib demo_relay_params) (rp_env demo_relay_params) mem_key_le mem_tree_items"
    "holds (rp_env demo_relay_params) (rp_lib demo_relay_params) mem_tree_items (fc_filters no_filters) one_db [1 \<mapsto> ev_old]"
    using mem_scan.scan_env_axioms one_db_facts(2) by (simp_all add: demo_relay_params_def)
  show "NostrFilterGroup (rp_lib demo_relay_params) all_req (rc_maxFilterLimit (rp_cfg demo_relay_params)) = Inr (sub_filterGroup all_sub)"
    by (simp add: demo_relay_params_def sample_relay_cfg_def all_req_def all_sub_def NostrFilterGroup_def NostrFilterGroup_add_def
        NostrFilter_def any_filter_def throw_if_def Let_def empty_filter_def)
  show "readable demo_relay_params one_db [1 \<mapsto> ev_old] (\<lambda>_. ''{}'')"
    by (simp add: readable_def demo_relay_params_def getEventJson_def one_db_def decodeEventPayload_def substr_def)
  show "getMostRecentLevId (rp_env demo_relay_params) one_db = 1"
    by (simp add: demo_relay_params_def getMostRecentLevId_def one_db_def mem_foreach_def mem_distinct_events_def)
  have "selected [1 \<mapsto> ev_old] 1 (any_filter\<lparr>nf_limit := 500\<rparr>) = {(ev_created_at ev_old, 1)}"
    by (auto simp: selected_def any_filter_def empty_filter_def nf_matches_def ev_old_def split: if_splits)
  then show "query_answer [1 \<mapsto> ev_old] 1 (sub_filterGroup all_sub) = [1]"
    by (simp add: all_sub_def answer_one newest_def)
qed (simp_all add: demo_relay_params_def sample_relay_cfg_def relay_idle_def all_sub_def one_db_def small_times_def ev_old_def few_values_def
    any_filter_def empty_filter_def split: if_splits)

theorem req_answered_exactly_witness:
  "\<exists>n k s' t' rl'. req_worker_rounds n demo_relay_params (\<lambda>_. 0) ((one_db, [RwNewSub all_sub]) # replicate k (one_db, []))
      (empty_scheduler, 0, relay_idle) = Some (Inr (s', t', rl')) \<and>
    inbox 0 (tpWebsocket rl') = [WsSend 7 (event_text (sub_subId all_sub) ''{}''), WsSend 7 (eose le_lib (sub_subId all_sub))]"
proof -
  have idle: "sched_inv empty_scheduler" "qs_running empty_scheduler = []" by (simp_all add: sched_inv_empty) (simp add: empty_scheduler_def)
  have empty: "inbox 0 (tpWebsocket relay_idle) = []" "rp_lib demo_relay_params = le_lib" "sub_connId all_sub = 7"
    by (simp_all add: relay_idle_def inbox_def demo_relay_params_def all_sub_def)
  show ?thesis
    using req_answered_exactly [OF demo_facts(1-7) idle demo_facts(8-10), of "\<lambda>_. 0" 0] unfolding demo_facts(11,12)
    by (auto simp: empty) blast
qed

end
