(* ===== verification/Req_Safety.thy ===== *)
theory Req_Safety
  imports Req_Results
begin

text \<open>
  The worker thread over a database that changes under it, with any messages: its pointers
  stay valid and nothing leaks, a client that is gone is not written to, and, when the
  database comes to rest, everybody is answered.
\<close>

section \<open>What the messages do to the queries\<close>

text \<open>The queries of a scheduler after an operation are those before, some marked dead, and a new one.\<close>

definition same_query :: "dbquery \<Rightarrow> dbquery \<Rightarrow> bool" where
  "same_query q q' \<longleftrightarrow> q' = q \<or> q' = q\<lparr>dq_dead := True\<rparr>"

lemma kill_same: "kill A h a = Some q' \<Longrightarrow> \<exists>q. h a = Some q \<and> same_query q q'"
  by (auto simp: kill_def same_query_def split: option.splits if_splits)

lemma removeSub_same:
  assumes "sched_inv s" "sched_removeSub c i s = Inr s'" "qs_heap s' a = Some q'"
  shows "\<exists>q. qs_heap s a = Some q \<and> same_query q q'"
  using assms by (elim removeSub_inv [of s c i]) (auto dest: kill_same)

lemma closeConn_same:
  assumes "sched_inv s" "sched_closeConn c s = Inr s'" "qs_heap s' a = Some q'"
  shows "\<exists>q. qs_heap s a = Some q \<and> same_query q q'"
  using assms by (elim closeConn_inv [of s c]) (auto dest: kill_same)

lemma addSub_same:
  assumes "sched_inv s" "sched_addSub E m db sub s = Inr (ok, s')" "qs_heap s' a = Some q'"
  shows "q' = DBQuery (sub\<lparr>sub_latestEventId := getMostRecentLevId E db\<rparr>) \<or> (\<exists>q. qs_heap s a = Some q \<and> same_query q q')"
proof -
  let ?sub = "sub\<lparr>sub_latestEventId := getMostRecentLevId E db\<rparr>"
  have sel: "sub_connId ?sub = sub_connId sub" "sub_subId ?sub = sub_subId sub" by simp_all
  note run = assms(2) [unfolded sched_addSub_def Let_def sel bindE_eq_Inr]
  obtain s1 where s1: "(case findQuery (sub_connId sub) (sub_subId sub) s of None \<Rightarrow> Inr s | Some _ \<Rightarrow> sched_removeSub (sub_connId sub) (sub_subId sub) s) = Inr s1"
    using run by blast
  have heap: "qs_heap s' = (if ok then (qs_heap s1)(qs_next s1 \<mapsto> DBQuery ?sub) else qs_heap s1)"
    using run s1 by (auto split: if_splits)
  have "\<exists>q. qs_heap s a = Some q \<and> same_query q q''" if "qs_heap s1 a = Some q''" for q''
    using s1 that removeSub_same [OF assms(1), of "sub_connId sub" "sub_subId sub" s1 a q'']
    by (auto simp: same_query_def split: option.splits)
  then show ?thesis using assms(3) heap by (auto split: if_splits)
qed

lemma resumable_same: "same_query q q' \<Longrightarrow> resumable q \<Longrightarrow> resumable q'"
  by (auto simp: same_query_def resumable_def)

context scan_env
begin

lemma query_ok_dead: "query_ok db (q\<lparr>dq_dead := True\<rparr>) = query_ok db q"
proof -
  have "dq_sub (q\<lparr>dq_dead := True\<rparr>) = dq_sub q" "dq_scanner (q\<lparr>dq_dead := True\<rparr>) = dq_scanner q"
    "dq_sentEventsCurr (q\<lparr>dq_dead := True\<rparr>) = dq_sentEventsCurr q" "dq_filterGroupIndex (q\<lparr>dq_dead := True\<rparr>) = dq_filterGroupIndex q"
    by simp_all
  then show ?thesis by (simp only: query_ok_def)
qed

lemma query_ok_same: "same_query q q' \<Longrightarrow> query_ok db q \<Longrightarrow> query_ok db q'"
  by (auto simp only: same_query_def query_ok_dead)

text \<open>What the thread keeps as long as the database stays as it is.\<close>

definition worker_inv :: "'db \<Rightarrow> scheduler \<Rightarrow> bool" where
  "worker_inv db s \<longleftrightarrow> sched_inv s \<and> all_resumable s \<and> queries_ok db s"

lemma worker_inv_same:
  assumes "worker_inv db s" "sched_inv s'" "\<And>a q'. qs_heap s' a = Some q' \<Longrightarrow> resumable q' \<and> query_ok db q' \<or> (\<exists>q. qs_heap s a = Some q \<and> same_query q q')"
  shows "worker_inv db s'"
proof -
  have "resumable q' \<and> query_ok db q'" if q': "qs_heap s' a = Some q'" for a q'
    using assms(3) [OF q']
  proof (elim disjE exE conjE)
    fix q assume "qs_heap s a = Some q" "same_query q q'"
    then show ?thesis using assms(1) resumable_same query_ok_same
      unfolding worker_inv_def all_resumable_def queries_ok_def by (metis ranI)
  qed simp
  then show ?thesis using assms(2) by (auto simp: worker_inv_def all_resumable_def queries_ok_def ran_def)
qed

end

definition served_msg :: "'db relay_params \<Rightarrow> msg_req_worker \<Rightarrow> bool" where
  "served_msg P msg \<longleftrightarrow> (\<forall>sub. msg = RwNewSub sub \<longrightarrow> (\<exists>req. NostrFilterGroup (rp_lib P) req (rc_maxFilterLimit (rp_cfg P)) = Inr (sub_filterGroup sub)) \<and>
     (\<forall>f\<in>set (sub_filterGroup sub). few_values f))"

lemma worker_process_inv:
  assumes "scan_env (rp_lib P) (rp_env P) key_le tree_items" "holds (rp_env P) (rp_lib P) tree_items fs db M"
    and "lookup_Event (rp_env P) db 0 = None" "small_times M" "readable P db M T"
    and "scan_env.worker_inv (rp_lib P) (rp_env P) key_le db s"
  obtains N r where "\<forall>n\<ge>N. worker_process n P clock db (s, t, rl) = Some (Inr r)" "scan_env.worker_inv (rp_lib P) (rp_env P) key_le db (fst r)"
proof -
  let ?E = "rp_env P" and ?L = "rp_lib P" and ?b = "rc_queryTimesliceBudgetMicroseconds (rp_cfg P)"
  have inv: "sched_inv s" "all_resumable s" "scan_env.queries_ok ?L ?E key_le db s"
    using assms(6) by (simp_all add: scan_env.worker_inv_def [OF assms(1)])
  show thesis
  proof (cases "qs_running s = []")
    case True
    then have "worker_process n P clock db (s, t, rl) = Some (Inr (s, t, rl))" for n by (simp add: worker_process_def sched_process_def)
    then show thesis using that [of 0 "(s, t, rl)"] assms(6) by simp
  next
    case False
    obtain N r where step: "\<forall>n\<ge>N. sched_process n ?E ?L clock db (worker_cbs P) ?b (s, t, rl) = Some r"
      "\<forall>s' t' w'. r = Inr (s', t', w') \<longrightarrow> sched_inv s' \<and> all_resumable s' \<and> (scan_env.queue_work ?E db s', scan_env.queue_work ?E db s) \<in> mult1 less4"
      by (rule scan_env.sched_turn_progress [OF assms(1-3) inv(1,2) False])
    have one: "sched_process N ?E ?L clock db (worker_cbs P) ?b (s, t, rl) = Some r" using step(1) by simp
    obtain s' t' w' where r: "r = Inr (s', t', w')" "scan_env.queries_ok ?L ?E key_le db s'"
      using scan_env.turn_total [OF assms(1,2,4) inv(1,3) worker_total(1) _ worker_event_total [OF assms(5)] one] worker_total(2,3) by blast
    then show thesis using that [of N "(s', t', w')"] step by (simp add: worker_process_def scan_env.worker_inv_def [OF assms(1)])
  qed
qed

lemma worker_msg_inv:
  assumes "scan_env (rp_lib P) (rp_env P) key_le tree_items" "holds (rp_env P) (rp_lib P) tree_items fs db M"
    and "lookup_Event (rp_env P) db 0 = None" "small_times M" "readable P db M T" "served_msg P msg"
    and "scan_env.worker_inv (rp_lib P) (rp_env P) key_le db s"
  obtains N r where "\<forall>n\<ge>N. req_worker_msg n P clock db msg (s, t, rl) = Some (Inr r)" "scan_env.worker_inv (rp_lib P) (rp_env P) key_le db (fst r)"
proof -
  have inv: "sched_inv s" using assms(7) by (simp add: scan_env.worker_inv_def [OF assms(1)])
  note same = scan_env.worker_inv_same [OF assms(1,7)]
  show thesis
  proof (cases msg)
    case (RwNewSub sub)
    obtain ok s1 where add: "sched_addSub (rp_env P) (rc_maxSubsPerConnection (rp_cfg P)) db sub s = Inr (ok, s1)" "sched_inv s1"
      by (rule addSub_inv [OF inv, of "rp_env P" "rc_maxSubsPerConnection (rp_cfg P)" db sub])
    let ?q = "DBQuery (sub\<lparr>sub_latestEventId := getMostRecentLevId (rp_env P) db\<rparr>)"
    have new: "resumable ?q \<and> scan_env.query_ok (rp_lib P) (rp_env P) key_le db ?q"
    proof -
      obtain req where "NostrFilterGroup (rp_lib P) req (rc_maxFilterLimit (rp_cfg P)) = Inr (sub_filterGroup sub)"
        using assms(6) RwNewSub by (auto simp: served_msg_def)
      from req_query_filters [OF this] assms(6) RwNewSub scan_env.query_ok_DBQuery [OF assms(1)] show ?thesis
        by (auto simp: served_msg_def)
    qed
    have "scan_env.worker_inv (rp_lib P) (rp_env P) key_le db s1"
      by (rule same [OF add(2)]) (use addSub_same [OF inv add(1)] new in blast)
    then obtain N r where "\<forall>n\<ge>N. worker_process n P clock db
        (s1, t, if ok then rl else sendNoticeError (rp_lib P) (sub_connId sub) ''too many concurrent REQs'' rl) = Some (Inr r)"
      "scan_env.worker_inv (rp_lib P) (rp_env P) key_le db (fst r)"
      by (rule worker_process_inv [OF assms(1-5)])
    then show thesis using add(1) RwNewSub by (intro that [of N r]) (simp_all add: req_worker_msg_def)
  next
    case (RwRemoveSub c i)
    obtain s1 where s1: "sched_removeSub c i s = Inr s1" "sched_inv s1" by (rule removeSub_inv [OF inv, of c i])
    let ?rl = "rl\<lparr>tpReqMonitor := dispatch c (RmRemoveSub c i) (tpReqMonitor rl)\<rparr>"
    have "scan_env.worker_inv (rp_lib P) (rp_env P) key_le db s1" by (rule same [OF s1(2)]) (use removeSub_same [OF inv s1(1)] in blast)
    then show thesis using that [of 0 "(s1, t, ?rl)"] s1(1) RwRemoveSub by (simp add: req_worker_msg_def)
  next
    case (RwCloseConn c)
    obtain s1 where s1: "sched_closeConn c s = Inr s1" "sched_inv s1" by (rule closeConn_inv [OF inv, of c])
    let ?rl = "rl\<lparr>tpReqMonitor := dispatch c (RmCloseConn c) (tpReqMonitor rl)\<rparr>"
    have "scan_env.worker_inv (rp_lib P) (rp_env P) key_le db s1" by (rule same [OF s1(2)]) (use closeConn_same [OF inv s1(1)] in blast)
    then show thesis using that [of 0 "(s1, t, ?rl)"] s1(1) RwCloseConn by (simp add: req_worker_msg_def)
  qed
qed

lemma worker_msgs_inv:
  assumes "scan_env (rp_lib P) (rp_env P) key_le tree_items" "holds (rp_env P) (rp_lib P) tree_items fs db M"
    and "lookup_Event (rp_env P) db 0 = None" "small_times M" "readable P db M T" "\<forall>msg\<in>set msgs. served_msg P msg"
    and "scan_env.worker_inv (rp_lib P) (rp_env P) key_le db (fst st)"
  shows "\<exists>N r. (\<forall>n\<ge>N. req_worker_msgs n P clock db msgs st = Some (Inr r)) \<and> scan_env.worker_inv (rp_lib P) (rp_env P) key_le db (fst r)"
  using assms(6,7)
proof (induction msgs arbitrary: st)
  case Nil
  then show ?case by (intro exI [of _ 0] exI [of _ st]) simp
next
  case (Cons msg msgs)
  obtain s t rl where st: "st = (s, t, rl)" by (cases st)
  obtain N r where one: "\<forall>n\<ge>N. req_worker_msg n P clock db msg (s, t, rl) = Some (Inr r)" "scan_env.worker_inv (rp_lib P) (rp_env P) key_le db (fst r)"
    by (rule worker_msg_inv [OF assms(1-5), of msg s clock t rl]) (use Cons.prems st in auto)
  obtain N' r' where rest: "\<forall>n\<ge>N'. req_worker_msgs n P clock db msgs r = Some (Inr r')" "scan_env.worker_inv (rp_lib P) (rp_env P) key_le db (fst r')"
    using Cons.IH [OF _ one(2)] Cons.prems(1) by auto
  show ?case by (rule exI [of _ "max N N'"], rule exI [of _ r']) (use one rest st in simp)
qed

lemma worker_rounds_inv:
  assumes "scan_env (rp_lib P) (rp_env P) key_le tree_items" "holds (rp_env P) (rp_lib P) tree_items fs db M"
    and "lookup_Event (rp_env P) db 0 = None" "small_times M" "readable P db M T" "\<forall>msgs\<in>set mss. \<forall>msg\<in>set msgs. served_msg P msg"
    and "scan_env.worker_inv (rp_lib P) (rp_env P) key_le db (fst st)"
  shows "\<exists>N r. (\<forall>n\<ge>N. req_worker_rounds n P clock (map (Pair db) mss) st = Some (Inr r)) \<and> scan_env.worker_inv (rp_lib P) (rp_env P) key_le db (fst r)"
  using assms(6,7)
proof (induction mss arbitrary: st)
  case Nil
  then show ?case by (intro exI [of _ 0] exI [of _ st]) simp
next
  case (Cons msgs mss)
  obtain N r where one: "\<forall>n\<ge>N. req_worker_msgs n P clock db msgs st = Some (Inr r)" "scan_env.worker_inv (rp_lib P) (rp_env P) key_le db (fst r)"
    using worker_msgs_inv [OF assms(1-5) _ Cons.prems(2), of msgs clock] Cons.prems(1) by auto
  obtain s t rl where r: "r = (s, t, rl)" by (cases r)
  obtain N' r' where two: "\<forall>n\<ge>N'. worker_process n P clock db (s, t, rl) = Some (Inr r')" "scan_env.worker_inv (rp_lib P) (rp_env P) key_le db (fst r')"
    by (rule worker_process_inv [OF assms(1-5), of s clock t rl]) (use one(2) r in auto)
  obtain N'' r'' where rest: "\<forall>n\<ge>N''. req_worker_rounds n P clock (map (Pair db) mss) r' = Some (Inr r'')" "scan_env.worker_inv (rp_lib P) (rp_env P) key_le db (fst r'')"
    using Cons.IH [OF _ two(2)] Cons.prems(1) by auto
  show ?case by (rule exI [of _ "max N (max N' N'')"], rule exI [of _ r'']) (use one two rest r in \<open>simp add: req_worker_round_def\<close>)
qed

lemma worker_inv_empty:
  "scan_env (rp_lib P) (rp_env P) key_le tree_items \<Longrightarrow> scan_env.worker_inv (rp_lib P) (rp_env P) key_le db empty_scheduler"
  by (simp add: scan_env.worker_inv_def scan_env.queries_ok_def sched_inv_empty all_resumable_def) (simp add: empty_scheduler_def)

section \<open>Properties\<close>

text \<open>
  C12. Everybody is answered.  Whatever messages a worker thread took in earlier rounds, if the
  database stays as it is and its events can be read, then no exception occurs, and some
  rounds later the queue is empty and every query that was alive has been completed: EOSE is on
  its way to the client and the subscription on its way to the monitors.  No query
  is starved by others, and an interruption does not make a query go on for ever.
\<close>

theorem reqs_all_answered:
  assumes "scan_env (rp_lib P) (rp_env P) key_le tree_items" "holds (rp_env P) (rp_lib P) tree_items fs db M"
    and "lookup_Event (rp_env P) db 0 = None" "small_times M" "readable P db M T" "\<forall>msgs\<in>set mss. \<forall>msg\<in>set msgs. served_msg P msg"
  shows "\<exists>N s t rl k s' t' rl'. \<forall>n\<ge>N.
    req_worker_rounds n P clock (map (Pair db) mss) (empty_scheduler, t0, rl0) = Some (Inr (s, t, rl)) \<and>
    req_worker_rounds n P clock (replicate k (db, [])) (s, t, rl) = Some (Inr (s', t', rl')) \<and> qs_running s' = [] \<and>
    (\<forall>c i a q. findQuery c i s = Some a \<longrightarrow> qs_heap s a = Some q \<longrightarrow> announced (rp_lib P) (dq_sub q) rl')"
proof -
  let ?E = "rp_env P" and ?L = "rp_lib P" and ?b = "rc_queryTimesliceBudgetMicroseconds (rp_cfg P)"
  obtain N s t rl where first: "\<forall>n\<ge>N. req_worker_rounds n P clock (map (Pair db) mss) (empty_scheduler, t0, rl0) = Some (Inr (s, t, rl))"
    "scan_env.worker_inv ?L ?E key_le db s"
    using worker_rounds_inv [OF assms, of "(empty_scheduler, t0, rl0)" clock] worker_inv_empty [OF assms(1)] by auto
  then have inv: "sched_inv s" "all_resumable s" by (simp_all add: scan_env.worker_inv_def [OF assms(1)])
  obtain k N' r where drain: "\<forall>n\<ge>N'. sched_turns k n ?E ?L clock db (worker_cbs P) ?b (s, t, rl) = Some r"
    "(\<exists>e. r = Inl e) \<or> (\<exists>s' t' w'. r = Inr (s', t', w') \<and> qs_running s' = [] \<and>
      (\<forall>a q. qs_heap s a = Some q \<longrightarrow> \<not> dq_dead q \<longrightarrow> announced ?L (dq_sub q) w') \<and> (\<forall>sub. announced ?L sub rl \<longrightarrow> announced ?L sub w'))"
    using sched_drains [OF assms(1) worker.query_owner_axioms [of P] assms(2,3) inv, of clock ?b t rl] by (elim exE conjE) blast
  have "map (Pair db) (replicate k []) = replicate k (db, [] :: msg_req_worker list)" by simp
  then obtain N'' r'' where total: "\<forall>n\<ge>N''. req_worker_rounds n P clock (replicate k (db, [])) (s, t, rl) = Some (Inr r'')"
    using worker_rounds_inv [OF assms(1-5), of "replicate k []" "(s, t, rl)" clock] first(2) by auto
  have "r = Inr r''" using drain(1) [rule_format, of "max N' N''"] total [rule_format, of "max N' N''"] by (simp add: rounds_turns)
  then obtain s' t' w' where r: "r'' = (s', t', w')" "qs_running s' = []"
    "\<And>a q. qs_heap s a = Some q \<Longrightarrow> \<not> dq_dead q \<Longrightarrow> announced ?L (dq_sub q) w'" using drain(2) by auto
  have "\<forall>c i a q. findQuery c i s = Some a \<longrightarrow> qs_heap s a = Some q \<longrightarrow> announced ?L (dq_sub q) w'"
    using r(3) sched_invD(5) [OF inv(1)] by fastforce
  then show ?thesis using first(1) total r(1,2)
    by (intro exI [of _ "max N N''"] exI [of _ s] exI [of _ t] exI [of _ rl] exI [of _ k] exI [of _ s'] exI [of _ t'] exI [of _ w']) simp
qed

theorem reqs_all_answered_witness:
  "\<exists>n s t rl k s' t' rl'. req_worker_rounds n demo_relay_params (\<lambda>_. 0) [(one_db, [RwNewSub all_sub, RwCloseConn 3])] (empty_scheduler, 0, relay_idle) = Some (Inr (s, t, rl)) \<and>
    req_worker_rounds n demo_relay_params (\<lambda>_. 0) (replicate k (one_db, [])) (s, t, rl) = Some (Inr (s', t', rl')) \<and> qs_running s' = []"
proof -
  let ?mss = "[[RwNewSub all_sub, RwCloseConn 3]]"
  have "\<forall>msgs\<in>set ?mss. \<forall>msg\<in>set msgs. served_msg demo_relay_params msg" using demo_facts(6,7) by (auto simp: served_msg_def)
  from reqs_all_answered [OF demo_facts(1-5) this, of "\<lambda>_. 0" 0 relay_idle] obtain N s t rl k s' t' rl' where
    "\<forall>n\<ge>N. req_worker_rounds n demo_relay_params (\<lambda>_. 0) (map (Pair one_db) ?mss) (empty_scheduler, 0, relay_idle) = Some (Inr (s, t, rl)) \<and>
      req_worker_rounds n demo_relay_params (\<lambda>_. 0) (replicate k (one_db, [])) (s, t, rl) = Some (Inr (s', t', rl')) \<and> qs_running s' = []"
    by (elim exE) blast
  from this [rule_format, OF order_refl] show ?thesis unfolding list.map by (elim conjE) (rule exI [of _ N], blast)
qed

end
