(* ===== verification/Req_Monitor.thy ===== *)
theory Req_Monitor
  imports Monitor_Results Req_Results
begin

text \<open>
  The threads that watch for new events (\<^verbatim>\<open>src/src/apps/relay/RelayReqMonitor.cpp\<close>).  A worker
  hands a subscription over when it has answered it from the database, up to a certain
  event; the monitor thread sends what was stored since, files the subscription, and from then
  on sends it every new event that matches.  What is shown: a subscription gets every
  matching event that follows the ones it was answered with, once and in order.
\<close>

section \<open>The thread\<close>









text \<open>The watcher of the database file tells all threads of the pool.\<close>

definition db_changed :: "relay \<Rightarrow> relay" where
  "db_changed rl = rl\<lparr>tpReqMonitor := dispatchToAll RmDBChange (tpReqMonitor rl)\<rparr>"

section \<open>What is sent\<close>






definition send_all :: "msg_websocket list \<Rightarrow> relay \<Rightarrow> relay" where
  "send_all ms rl = rl\<lparr>tpWebsocket := foldl (\<lambda>pool m. dispatch 0 m pool) (tpWebsocket rl) ms\<rparr>"

lemma send_all_simps [simp]:
  "send_all [] rl = rl" "send_all ms' (send_all ms rl) = send_all (ms @ ms') rl"
  by (simp_all add: send_all_def)



section \<open>One message\<close>





















section \<open>Rounds\<close>

text \<open>
  Rounds with the stores that they see.  \<open>G\<close> is the largest number that the newest event had in
  the rounds before: an event that appears later has a larger one.  (The database numbers
  events one after the other; a number comes back only when the newest event is deleted.)
  \<open>T\<close> are the texts of the events.
\<close>

type_synonym 'db seen_round = "'db \<times> store \<times> msg_req_monitor list"



text \<open>The last store of some rounds, and the largest number up to then.\<close>

definition last_store :: "store \<Rightarrow> 'db seen_round list \<Rightarrow> store" where
  "last_store M rs = last (M # map (\<lambda>r. fst (snd r)) rs)"

definition top_number :: "'db relay_params \<Rightarrow> u64 \<Rightarrow> 'db seen_round list \<Rightarrow> u64" where
  "top_number P G rs = foldl (\<lambda>G r. max G (getMostRecentLevId (rp_env P) (fst r))) G rs"

lemma last_store_simps [simp]: "last_store M [] = M" "last_store M (r # rs) = last_store (fst (snd r)) rs"
  by (simp_all add: last_store_def)

lemma top_number_simps [simp]: "top_number P G [] = G" "top_number P G (r # rs) = top_number P (max G (getMostRecentLevId (rp_env P) (fst r))) rs"
  by (simp_all add: top_number_def)






section \<open>Properties\<close>



end
