(* ===== verification/Relay_Cron.thy ===== *)
theory Relay_Cron
  imports Event_Write
begin

text \<open>
  The thread that removes expired events (\<^verbatim>\<open>src/src/apps/relay/RelayCron.cpp\<close>).  Every nine
  seconds it walks the expiration index in a reading transaction, collects the numbers of the
  events that are due, and deletes them in a writing transaction; in between, the writer
  may have changed the database.
\<close>

section \<open>The job\<close>

text \<open>
  The callback of the walk over the index.  An ephemeral event has 1 for its time of
  expiration and is kept for a while after its creation.
\<close>

fun cron_scan ::
    "'db env \<Rightarrow> lib \<Rightarrow> 'db \<Rightarrow> u64 \<Rightarrow> u64 \<Rightarrow> u64 \<Rightarrow> (string \<times> u64) list \<Rightarrow> u64 list \<times> u64 \<times> u64 \<Rightarrow>
     (u64 list \<times> u64 \<times> u64) result" where
  "cron_scan E L db mostRecent now ephemeralCutoff [] st = Inr st"
| "cron_scan E L db mostRecent now ephemeralCutoff ((k, levId) # rest) (expiredLevIds, numEphemeral, numExpired) =
     (let expiration = from_sv L k in
      if expiration > now then Inr (expiredLevIds, numEphemeral, numExpired)
      else if levId = mostRecent
      then cron_scan E L db mostRecent now ephemeralCutoff rest (expiredLevIds, numEphemeral, numExpired)
      else if expiration = 1 then
        (case lookup_Event E db levId of
           None \<Rightarrow> Inl (Herr ''missing event from index, corrupt DB?'')
         | Some buf \<Rightarrow>
             bindE (PackedEventView buf) (\<lambda>packed.
             cron_scan E L db mostRecent now ephemeralCutoff rest
               (if packed_created_at L packed \<le> ephemeralCutoff then (expiredLevIds @ [levId], numEphemeral + 1, numExpired)
                else (expiredLevIds, numEphemeral, numExpired))))
      else cron_scan E L db mostRecent now ephemeralCutoff rest (expiredLevIds @ [levId], numEphemeral, numExpired + 1))"

definition cron_collect :: "'db env \<Rightarrow> lib \<Rightarrow> u64 \<Rightarrow> u64 \<Rightarrow> 'db \<Rightarrow> (u64 list \<times> u64 \<times> u64) result" where
  "cron_collect E L ephemeralEventsLifetimeSeconds now db =
     cron_scan E L db (getMostRecentLevId E db) now (now - ephemeralEventsLifetimeSeconds)
       (foreachFull E db Ix_expiration (to_sv L 0) 0 False) ([], 0, 0)"

definition new_filter_cache :: filter_cache where
  "new_filter_cache = \<lparr>fc_filters = [], fc_modificationCounter = 0\<rparr>"

definition cron_delete :: "'db env \<Rightarrow> lib \<Rightarrow> u64 list \<Rightarrow> 'db \<Rightarrow> (u64 \<times> 'db) result" where
  "cron_delete E L expiredLevIds db =
     (if length expiredLevIds > 0
      then bindE (deleteEvents E L new_filter_cache expiredLevIds db) (\<lambda>(numDeleted, db', _). Inr (numDeleted, db'))
      else Inr (0, db))"

text \<open>One run of the job: it reads \<open>db\<close> and finds \<open>db1\<close> when it writes.\<close>

definition cron_job :: "'db env \<Rightarrow> lib \<Rightarrow> u64 \<Rightarrow> u64 \<Rightarrow> 'db \<Rightarrow> 'db \<Rightarrow> (u64 \<times> 'db) result" where
  "cron_job E L ephemeralEventsLifetimeSeconds now db db1 =
     bindE (cron_collect E L ephemeralEventsLifetimeSeconds now db) (\<lambda>(expiredLevIds, _, _).
     cron_delete E L expiredLevIds db1)"

section \<open>The events that are due\<close>

definition expired :: "u64 \<Rightarrow> u64 \<Rightarrow> event \<Rightarrow> bool" where
  "expired now lifetime e \<longleftrightarrow> ev_expiration e \<noteq> 0 \<and> ev_expiration e \<le> now \<and>
     (ev_expiration e = 1 \<longrightarrow> unat (ev_created_at e) + unat lifetime \<le> unat now)"

lemma cutoff: "lifetime \<le> now \<Longrightarrow> t \<le> now - lifetime \<longleftrightarrow> unat t + unat lifetime \<le> unat (now :: u64)"
  by (simp add: word_le_nat_alt unat_sub le_diff_conv2)

definition due :: "u64 \<Rightarrow> u64 \<Rightarrow> u64 \<Rightarrow> store \<Rightarrow> u64 set" where
  "due mostRecent now lifetime M = {l. l \<noteq> mostRecent \<and> (\<exists>e. M l = Some e \<and> expired now lifetime e)}"

definition after_expiry :: "u64 set \<Rightarrow> u64 \<Rightarrow> u64 \<Rightarrow> store \<Rightarrow> store" where
  "after_expiry candidates now lifetime M = (\<lambda>l. case M l of None \<Rightarrow> None
     | Some e \<Rightarrow> if l \<in> candidates \<and> expired now lifetime e then None else Some e)"

context event_env
begin

lemma expiration_entries:
  assumes "holds E L tree_items fs db M"
  shows "set (foreachFull E db Ix_expiration (to_sv L 0) 0 False) =
    {(k, l). \<exists>e. M l = Some e \<and> ev_expiration e \<noteq> 0 \<and> k = to_sv L (ev_expiration e)}"
proof -
  have "x \<in> set (foreachFull E db Ix_expiration (to_sv L 0) 0 False) \<longleftrightarrow> x \<in> index_entries E L db Ix_expiration" for x
  proof
    assume "x \<in> index_entries E L db Ix_expiration"
    moreover from this have "\<exists>t. fst x = to_sv L t"
      using entries_event [OF assms, of "fst x" "snd x" Ix_expiration] by (auto simp: event_keys_def split: if_splits)
    ultimately show "x \<in> set (foreachFull E db Ix_expiration (to_sv L 0) 0 False)"
      by (auto simp: scan_set pos_le_def expiration_le)
  qed (simp add: scan_set)
  then show ?thesis using entries_event [OF assms, of _ _ Ix_expiration]
    by (auto simp: event_keys_def split: if_splits) 
qed

lemma expiration_sorted:
  assumes "holds E L tree_items fs db M"
  shows "sorted_wrt (\<lambda>x y. from_sv L (fst x) \<le> from_sv L (fst y)) (foreachFull E db Ix_expiration (to_sv L 0) 0 False)"
proof (rule sorted_wrt_mono_rel [OF _ scan_sorted])
  fix x y assume "x \<in> set (foreachFull E db Ix_expiration (to_sv L 0) 0 False)" "y \<in> set (foreachFull E db Ix_expiration (to_sv L 0) 0 False)"
    and le: "pos_le key_le Ix_expiration x y"
  then obtain t t' where "fst x = to_sv L t" "fst y = to_sv L t'" unfolding expiration_entries [OF assms] by auto
  then show "from_sv L (fst x) \<le> from_sv L (fst y)" using le by (simp add: pos_le_def expiration_le)
qed

lemma cron_scan_ok:
  assumes "holds E L tree_items fs db M" "lifetime \<le> now"
    and "\<And>k l. (k, l) \<in> set xs \<Longrightarrow> \<exists>e. M l = Some e \<and> ev_expiration e \<noteq> 0 \<and> k = to_sv L (ev_expiration e)"
    and "sorted_wrt (\<lambda>x y. from_sv L (fst x) \<le> from_sv L (fst y)) xs"
  shows "\<exists>ids n m. cron_scan E L db mostRecent now (now - lifetime) xs st = Inr (fst st @ ids, n, m) \<and>
    set ids = snd ` set xs \<inter> due mostRecent now lifetime M"
  using assms(3,4)
proof (induction xs arbitrary: st)
  case Nil
  then show ?case by (cases st) auto
next
  case (Cons x xs)
  obtain k l where x: "x = (k, l)" by fastforce
  obtain ids0 a b where st: "st = (ids0, a, b)" by (cases st)
  from Cons.prems(1) [of k l] obtain e where e: "M l = Some e" "ev_expiration e \<noteq> 0" "k = to_sv L (ev_expiration e)" by (auto simp: x)
  then have buf: "lookup_Event E db l = Some (pack_event L e)" and wf: "wf_event e" using assms(1) by (auto simp: holds_def)
  let ?rest = "\<lambda>st. cron_scan E L db mostRecent now (now - lifetime) xs st"
  have rest: "\<exists>ids n m. ?rest st = Inr (fst st @ ids, n, m) \<and> set ids = snd ` set xs \<inter> due mostRecent now lifetime M" for st
    using Cons.prems by (intro Cons.IH) auto
  show ?case
  proof (cases "ev_expiration e > now")
    case True
    have "l' \<notin> due mostRecent now lifetime M" if l': "l' \<in> snd ` set (x # xs)" for l'
    proof -
      from l' obtain k' where k': "(k', l') \<in> set (x # xs)" by (metis imageE prod.collapse)
      with Cons.prems(1) obtain e' where e': "M l' = Some e'" "k' = to_sv L (ev_expiration e')" by blast
      have "ev_expiration e \<le> ev_expiration e'" using k' Cons.prems(2) e e' by (auto simp: x)
      then have "now < ev_expiration e'" using True by (rule less_le_trans [rotated])
      then show ?thesis by (simp add: due_def expired_def e'(1) not_le)
    qed
    then have "snd ` set (x # xs) \<inter> due mostRecent now lifetime M = {}" by blast
    moreover have "cron_scan E L db mostRecent now (now - lifetime) (x # xs) st = Inr (ids0 @ [], a, b)" using True by (simp add: x st e(3))
    ultimately show ?thesis by (intro exI [of _ "[]"]) (simp add: st)
  next
    case False
    define take_it where "take_it \<longleftrightarrow> l \<in> due mostRecent now lifetime M"
    have "\<exists>n m. cron_scan E L db mostRecent now (now - lifetime) (x # xs) st = ?rest (ids0 @ (if take_it then [l] else []), n, m)"
    proof (cases "l = mostRecent \<or> ev_expiration e = 1")
      case True
      moreover have "ev_expiration e \<le> now" using False by (simp only: not_less)
      ultimately show ?thesis using False by (auto simp: x st e buf wf take_it_def due_def expired_def cutoff [OF assms(2)] Let_def)
    next
      case other: False
      then have "take_it" using False e by (simp add: take_it_def due_def expired_def)
      then show ?thesis using False other by (auto simp: x st e Let_def)
    qed
    then obtain n m where "cron_scan E L db mostRecent now (now - lifetime) (x # xs) st = ?rest (ids0 @ (if take_it then [l] else []), n, m)" by blast
    moreover obtain ids n' m' where "?rest (ids0 @ (if take_it then [l] else []), n, m) = Inr ((ids0 @ (if take_it then [l] else [])) @ ids, n', m')"
      "set ids = snd ` set xs \<inter> due mostRecent now lifetime M" using rest by (metis fst_conv)
    ultimately have "cron_scan E L db mostRecent now (now - lifetime) (x # xs) st = Inr (fst st @ (if take_it then [l] else []) @ ids, n', m')"
      "set ((if take_it then [l] else []) @ ids) = snd ` set (x # xs) \<inter> due mostRecent now lifetime M"
      by (auto simp: st x take_it_def)
    then show ?thesis by blast
  qed
qed

lemma cron_collect_ok:
  assumes "holds E L tree_items fs db M" "lifetime \<le> now"
  obtains ids n m where "cron_collect E L lifetime now db = Inr (ids, n, m)" "set ids = due (getMostRecentLevId E db) now lifetime M"
proof -
  let ?xs = "foreachFull E db Ix_expiration (to_sv L 0) 0 False"
  have "due (getMostRecentLevId E db) now lifetime M \<subseteq> snd ` set ?xs"
    unfolding expiration_entries [OF assms(1)] by (force simp: due_def expired_def)
  then show thesis
    using cron_scan_ok [OF assms _ expiration_sorted [OF assms(1)], of "getMostRecentLevId E db" "([], 0, 0)"] that
    unfolding cron_collect_def expiration_entries [OF assms(1)] by (auto simp: inf.absorb2)
qed

lemma newest_stays:
  assumes "holds E L tree_items fs db M" "holds E L tree_items fs' db1 M1" "holds E L tree_items fs' db2 (M1 |` (- due (getMostRecentLevId E db) now lifetime M))"
    and "getMostRecentLevId E db \<le> getMostRecentLevId E db1"
  shows "getMostRecentLevId E db2 = getMostRecentLevId E db1"
proof -
  let ?D = "due (getMostRecentLevId E db) now lifetime M" and ?top = "getMostRecentLevId E db1"
  have "?top \<notin> ?D"
  proof
    assume "?top \<in> ?D"
    then have "?top \<in> dom M" "?top \<noteq> getMostRecentLevId E db" by (auto simp: due_def)
    then show False using most_recent(1) [OF assms(1)] assms(4) by (metis order_antisym)
  qed
  then have "?top = 0 \<or> ?top \<in> dom (M1 |` (- ?D))" using most_recent(2) [OF assms(2)] by auto
  then have "?top \<le> getMostRecentLevId E db2" using most_recent(1) [OF assms(3)] by auto
  moreover have "getMostRecentLevId E db2 \<in> insert 0 (dom M1)" using most_recent(2) [OF assms(3)] by auto
  then have "getMostRecentLevId E db2 \<le> ?top" using most_recent(1) [OF assms(2)] by auto
  ultimately show ?thesis by simp
qed

end

section \<open>Properties\<close>

text \<open>
  C26. A run of the job returns without an exception and removes exactly the events that have
  expired: those whose time of expiration has come, and the ephemeral ones that were created
  at least the configured lifetime ago, among the events it saw.  What was stored while it
  worked stays.  It reports how many events it removed; the most recent event is never
  removed, so that its number is not given to another one.
\<close>

theorem cron_job_exact:
  assumes "event_env L E key_le tree_items" "lifetime \<le> now" "holds E L tree_items fs db M"
    and "freshenCache E L db1 new_filter_cache = Inr cache" "holds E L tree_items (fc_filters cache) db1 M1" "consistent M1"
    and "\<And>l e e1. M l = Some e \<Longrightarrow> M1 l = Some e1 \<Longrightarrow> e1 = e" "getMostRecentLevId E db \<le> getMostRecentLevId E db1"
  shows "\<exists>db2 M2. M2 = after_expiry (dom M - {getMostRecentLevId E db}) now lifetime M1 \<and>
    cron_job E L lifetime now db db1 = Inr (of_nat (card (dom M1 - dom M2)), db2) \<and>
    holds E L tree_items (fc_filters cache) db2 M2 \<and> consistent M2 \<and> getMostRecentLevId E db2 = getMostRecentLevId E db1"
proof -
  let ?D = "due (getMostRecentLevId E db) now lifetime M"
  have M2: "after_expiry (dom M - {getMostRecentLevId E db}) now lifetime M1 = M1 |` (- ?D)"
    using assms(7) by (auto simp: after_expiry_def due_def restrict_map_def fun_eq_iff split: option.splits)
  have gone: "dom M1 - dom M1 \<inter> - ?D = ?D \<inter> dom M1" by auto
  obtain ids n m where ids: "cron_collect E L lifetime now db = Inr (ids, n, m)" "set ids = ?D"
    by (rule event_env.cron_collect_ok [OF assms(1,3,2)])
  obtain db2 where db2: "deleteEvents E L new_filter_cache ids db1 = Inr (of_nat (card (?D \<inter> dom M1)), db2, cache)"
    "holds E L tree_items (fc_filters cache) db2 (M1 |` (- ?D))" "consistent (M1 |` (- ?D))"
    by (rule event_env.deleteEvents_store [OF assms(1,4,5,6), of ids, unfolded ids(2)])
  obtain db2' where "cron_delete E L ids db1 = Inr (of_nat (card (?D \<inter> dom M1)), db2')"
    "holds E L tree_items (fc_filters cache) db2' (M1 |` (- ?D))"
  proof (cases "ids = []")
    case True
    then have "?D = {}" using ids(2) by simp
    then have "M1 |` (- ?D) = M1" by (simp add: restrict_map_def)
    then show thesis using assms(5) True \<open>?D = {}\<close> by (intro that [of db1]) (simp_all add: cron_delete_def)
  next
    case False
    then show thesis using db2 by (intro that [of db2]) (simp_all add: cron_delete_def)
  qed
  moreover from this(2) have "getMostRecentLevId E db2' = getMostRecentLevId E db1"
    by (rule event_env.newest_stays [OF assms(1,3,5) _ assms(8)])
  ultimately show ?thesis using db2(3) by (intro exI [of _ db2'], intro exI [of _ "M1 |` (- ?D)"]) (simp add: M2 gone cron_job_def ids(1))
qed

definition ev_past :: event where
  "ev_past = \<lparr>ev_id = replicate 32 CHR ''c'', ev_pubkey = replicate 32 CHR ''p'', ev_created_at = 10,
     ev_kind = 1, ev_expiration = 50, ev_tags = []\<rparr>"

definition past_db :: mem_db where
  "past_db = \<lparr>md_events = [(1, pack_event le_lib ev_past), (2, pack_event le_lib ev_old)],
     md_payloads = [(1, CHR 0x00 # ''{}''), (2, CHR 0x00 # ''{}'')], md_trees = [], md_filters = [], md_counter = 0\<rparr>"

lemma past_db_facts:
  "freshenCache mem_env le_lib past_db new_filter_cache = Inr new_filter_cache"
  "holds mem_env le_lib mem_tree_items (fc_filters new_filter_cache) past_db [1 \<mapsto> ev_past, 2 \<mapsto> ev_old]"
  "consistent [1 \<mapsto> ev_past, 2 \<mapsto> ev_old]"
proof -
  have wf: "wf_event ev_past" "wf_event ev_old" by (simp_all add: ev_past_def ev_old_def wf_event_def)
  show "freshenCache mem_env le_lib past_db new_filter_cache = Inr new_filter_cache"
    by (simp add: freshenCache_def past_db_def new_filter_cache_def)
  show "holds mem_env le_lib mem_tree_items (fc_filters new_filter_cache) past_db [1 \<mapsto> ev_past, 2 \<mapsto> ev_old]"
    using wf by (auto simp: holds_def past_db_def new_filter_cache_def fun_eq_iff)
  have slot: "\<not> same_slot ev_past ev_old" "\<not> same_slot ev_old ev_past" "\<not> deletes ev_past ev_old" "\<not> deletes ev_old ev_past"
    and ids: "ev_id ev_past \<noteq> ev_id ev_old"
    by (simp_all add: same_slot_def deletes_def ev_past_def ev_old_def)
  show "consistent [1 \<mapsto> ev_past, 2 \<mapsto> ev_old]"
    using wf slot ids by (auto simp: consistent_def split: if_splits)
qed

theorem cron_job_exact_witness:
  "\<exists>db2 M2. M2 = after_expiry (dom [1 \<mapsto> ev_past, 2 \<mapsto> ev_old] - {getMostRecentLevId mem_env past_db}) 60 10 [1 \<mapsto> ev_past, 2 \<mapsto> ev_old] \<and>
    cron_job mem_env le_lib 10 60 past_db past_db = Inr (of_nat (card (dom [1 \<mapsto> ev_past, 2 \<mapsto> ev_old] - dom M2)), db2) \<and>
    holds mem_env le_lib mem_tree_items (fc_filters new_filter_cache) db2 M2 \<and> M2 1 = None \<and> M2 2 = Some ev_old"
proof -
  let ?M = "[1 \<mapsto> ev_past, 2 \<mapsto> ev_old]"
  have "(2 :: u64) \<le> getMostRecentLevId mem_env past_db" by (rule mem.most_recent(1) [OF past_db_facts(2)]) simp
  then have "getMostRecentLevId mem_env past_db \<noteq> 1" by (auto simp: word_le_nat_alt)
  then have "after_expiry (dom ?M - {getMostRecentLevId mem_env past_db}) 60 10 ?M 1 = None"
    "after_expiry (dom ?M - {getMostRecentLevId mem_env past_db}) 60 10 ?M 2 = Some ev_old"
    by (simp_all add: after_expiry_def expired_def ev_past_def ev_old_def)
  then show ?thesis
    using cron_job_exact [OF mem.event_env_axioms _ past_db_facts(2,1,2,3), of 10 60] by auto
qed

end
