(* ===== verification/Writer_Pipeline.thy ===== *)
theory Writer_Pipeline
  imports Relay_Results "HOL-Library.Multiset"
begin

text \<open>
  The pipeline through which the import, stream, sync and router commands write events
  (\<^verbatim>\<open>src/src/WriterPipeline.h\<close>): a validator thread and a writer thread, connected by queues, with
  counters, and a way to flush it.  The threads run in any order; every step of a thread is one
  step of the model.  What is shown: no event is lost or written twice on any schedule, the
  counters say what happened, and \<^verbatim>\<open>flush\<close> returns.
\<close>

section \<open>The pipeline\<close>

record 'db pipe_params =
  pp_env :: "'db env"
  pp_lib :: lib
  pp_cfg :: events_cfg
  pp_writeBatchSize :: u64
  pp_verifyMsg :: bool
  pp_verifyTime :: bool

text \<open>
  Where a thread is.  The validator waits for its inbox, goes through the messages it took, or
  has returned; the writer waits, goes through the events it took (with the database
  as of its reading transaction and the events collected so far), writes, or has returned.
\<close>

datatype validator_thread = V_pop | V_msgs "json list" | V_returned

datatype 'db writer_thread =
  W_pop | W_collect 'db "event_to_write list" "event_to_write list" | W_commit "event_to_write list" | W_returned

record 'db pipeline =
  wp_validatorInbox :: "json list"
  wp_writerInbox :: "event_to_write list"
  wp_flushInbox :: "bool list"
  wp_validatorThread :: validator_thread
  wp_writerThread :: "'db writer_thread"
  wp_shutdownRequested :: bool
  wp_shutdownComplete :: bool
  wp_numLive :: u64
  wp_totalProcessed :: u64
  wp_totalWritten :: u64
  wp_totalRejected :: u64
  wp_totalDups :: u64
  wp_neFilterCache :: filter_cache
  wp_db :: 'db

definition WriterPipeline :: "'db \<Rightarrow> 'db pipeline" where
  "WriterPipeline db = \<lparr>wp_validatorInbox = [], wp_writerInbox = [], wp_flushInbox = [],
     wp_validatorThread = V_pop, wp_writerThread = W_pop, wp_shutdownRequested = False, wp_shutdownComplete = False,
     wp_numLive = 0, wp_totalProcessed = 0, wp_totalWritten = 0, wp_totalRejected = 0, wp_totalDups = 0,
     wp_neFilterCache = \<lparr>fc_filters = [], fc_modificationCounter = 0\<rparr>, wp_db = db\<rparr>"

text \<open>What can be seen of a step: the lines of the log and the argument of \<^verbatim>\<open>onCommit\<close> come from it.\<close>

datatype 'db pipe_obs = Ob_json json | Ob_event event_to_write | Ob_rejected json | Ob_accepted json event_to_write
  | Ob_present 'db event_to_write | Ob_committed "event_to_write list"

subsection \<open>The client\<close>

definition write_json :: "json \<Rightarrow> 'db pipeline \<Rightarrow> 'db pipeline" where
  "write_json j s = (if j = JNull then s
     else s\<lparr>wp_totalProcessed := wp_totalProcessed s + 1, wp_numLive := wp_numLive s + 1,
            wp_validatorInbox := wp_validatorInbox s @ [j]\<rparr>)"

definition write_event :: "event_to_write \<Rightarrow> 'db pipeline \<Rightarrow> 'db pipeline" where
  "write_event ev s = s\<lparr>wp_totalProcessed := wp_totalProcessed s + 1, wp_numLive := wp_numLive s + 1,
     wp_writerInbox := wp_writerInbox s @ [ev]\<rparr>"

text \<open>\<^verbatim>\<open>flush\<close> sends the end mark and returns as soon as there is something in the flush inbox.\<close>

definition flush_request :: "'db pipeline \<Rightarrow> 'db pipeline" where
  "flush_request s = s\<lparr>wp_validatorInbox := wp_validatorInbox s @ [JNull]\<rparr>"

definition flush_returns :: "'db pipeline \<Rightarrow> bool" where
  "flush_returns s \<longleftrightarrow> wp_flushInbox s \<noteq> []"

subsection \<open>The validator\<close>

text \<open>A step of a thread is \<open>None\<close> while the thread waits and after it has returned.\<close>

definition validator_step :: "'db pipe_params \<Rightarrow> u64 \<Rightarrow> 'db pipeline \<Rightarrow> ('db pipeline \<times> 'db pipe_obs list) result option" where
  "validator_step P now s =
     (case wp_validatorThread s of
        V_pop \<Rightarrow>
          if wp_validatorInbox s = [] then None
          else Some (Inr (s\<lparr>wp_validatorThread := V_msgs (wp_validatorInbox s), wp_validatorInbox := []\<rparr>, []))
      | V_msgs [] \<Rightarrow> Some (Inr (s\<lparr>wp_validatorThread := V_pop\<rparr>, []))
      | V_msgs (m # ms) \<Rightarrow>
          if m = JNull then
            Some (Inr (s\<lparr>wp_shutdownRequested := True, wp_writerInbox := wp_writerInbox s @ [EventToWrite [] [] None],
                         wp_validatorThread := V_returned\<rparr>, []))
          else (case parseAndVerifyEvent (pp_lib P) (pp_cfg P) now m (pp_verifyMsg P) (pp_verifyTime P) of
              Inl e \<Rightarrow>
                if e = UB then Some (Inl UB)
                else Some (Inr (s\<lparr>wp_numLive := wp_numLive s - 1, wp_totalRejected := wp_totalRejected s + 1,
                                  wp_validatorThread := V_msgs ms\<rparr>, [Ob_rejected m]))
            | Inr (packedStr, jsonStr) \<Rightarrow>
                let ev = EventToWrite packedStr jsonStr None
                in Some (Inr (s\<lparr>wp_writerInbox := wp_writerInbox s @ [ev], wp_validatorThread := V_msgs ms\<rparr>,
                              [Ob_accepted m ev])))
      | V_returned \<Rightarrow> None)"

subsection \<open>The writer\<close>

text \<open>The end of a round.\<close>

definition writer_done :: "'db pipeline \<Rightarrow> 'db pipeline" where
  "writer_done s = (if wp_shutdownComplete s
     then s\<lparr>wp_flushInbox := wp_flushInbox s @ [True], wp_writerThread := W_returned\<rparr>
     else s\<lparr>wp_writerThread := W_pop\<rparr>)"

definition count_written :: "event_to_write list \<Rightarrow> u64" where
  "count_written evs = of_nat (length (List.filter (\<lambda>ev. ew_status ev = Written) evs))"

definition count_dups :: "event_to_write list \<Rightarrow> u64" where
  "count_dups evs = of_nat (length (List.filter (\<lambda>ev. ew_status ev \<noteq> Written) evs))"

definition commit_batch :: "'db pipe_params \<Rightarrow> event_to_write list \<Rightarrow> 'db pipeline \<Rightarrow> ('db pipeline \<times> 'db pipe_obs list) result" where
  "commit_batch P newEventsToProc s =
     (if length newEventsToProc > 0 then
        bindE (writeEvents (pp_env P) (pp_lib P) (wp_neFilterCache s) newEventsToProc (wp_db s)) (\<lambda>(evs, db', cache').
        Inr (writer_done (s\<lparr>wp_db := db', wp_neFilterCache := cache',
               wp_totalWritten := wp_totalWritten s + count_written evs,
               wp_totalDups := wp_totalDups s + count_dups evs\<rparr>), [Ob_committed evs]))
      else Inr (writer_done s, []))"

definition collect_event ::
    "'db pipe_params \<Rightarrow> 'db \<Rightarrow> event_to_write \<Rightarrow> event_to_write list \<Rightarrow> event_to_write list \<Rightarrow> 'db pipeline \<Rightarrow>
     ('db pipeline \<times> 'db pipe_obs list) result" where
  "collect_event P txn event newEvents newEventsToProc s =
     (if length newEventsToProc \<ge> unat (pp_writeBatchSize P)
      then Inr (s\<lparr>wp_writerInbox := (event # newEvents) @ wp_writerInbox s, wp_writerThread := W_commit newEventsToProc\<rparr>, [])
      else if length (ew_packedStr event) = 0
      then Inr (s\<lparr>wp_shutdownComplete := True, wp_writerThread := W_commit newEventsToProc\<rparr>, [])
      else bindE (PackedEventView (ew_packedStr event)) (\<lambda>packed.
        let s1 = s\<lparr>wp_numLive := wp_numLive s - 1\<rparr>
        in if lookupEventById (pp_env P) txn (packed_id packed) \<noteq> None
           then Inr (s1\<lparr>wp_totalDups := wp_totalDups s1 + 1, wp_writerThread := W_collect txn newEvents newEventsToProc\<rparr>, [Ob_present txn event])
           else Inr (s1\<lparr>wp_writerThread := W_collect txn newEvents (newEventsToProc @ [event])\<rparr>, [])))"

definition writer_step :: "'db pipe_params \<Rightarrow> 'db pipeline \<Rightarrow> ('db pipeline \<times> 'db pipe_obs list) result option" where
  "writer_step P s =
     (case wp_writerThread s of
        W_pop \<Rightarrow>
          if wp_writerInbox s = [] then None
          else Some (Inr (s\<lparr>wp_writerThread := W_collect (wp_db s) (wp_writerInbox s) [], wp_writerInbox := []\<rparr>, []))
      | W_collect txn [] newEventsToProc \<Rightarrow> Some (Inr (s\<lparr>wp_writerThread := W_commit newEventsToProc\<rparr>, []))
      | W_collect txn (event # newEvents) newEventsToProc \<Rightarrow> Some (collect_event P txn event newEvents newEventsToProc s)
      | W_commit newEventsToProc \<Rightarrow> Some (commit_batch P newEventsToProc s)
      | W_returned \<Rightarrow> None)"

section \<open>What is on the way\<close>

definition json_queue :: "'db pipeline \<Rightarrow> json list" where
  "json_queue s = (case wp_validatorThread s of V_msgs ms \<Rightarrow> ms | _ \<Rightarrow> []) @ wp_validatorInbox s"

definition event_queue :: "'db pipeline \<Rightarrow> event_to_write list" where
  "event_queue s = (case wp_writerThread s of W_collect txn evs ready \<Rightarrow> evs | _ \<Rightarrow> []) @ wp_writerInbox s"

definition collected :: "'db pipeline \<Rightarrow> event_to_write list" where
  "collected s = (case wp_writerThread s of W_collect txn evs ready \<Rightarrow> ready | W_commit ready \<Rightarrow> ready | _ \<Rightarrow> [])"

text \<open>Both queues may end in marks: JSON null and an event without a packed form.\<close>

definition live_json :: "'db pipeline \<Rightarrow> json list" where
  "live_json s = List.filter (\<lambda>j. j \<noteq> JNull) (json_queue s)"

definition live_events :: "'db pipeline \<Rightarrow> event_to_write list" where
  "live_events s = List.filter (\<lambda>ev. ew_packedStr ev \<noteq> []) (event_queue s)"

definition under_way :: "'db pipeline \<Rightarrow> nat" where
  "under_way s = length (live_json s) + length (live_events s) + length (collected s)"

section \<open>Runs\<close>

text \<open>What an event handed over directly has to be: a packed event, as the sources of events make it.\<close>

definition good_event :: "lib \<Rightarrow> event_to_write \<Rightarrow> bool" where
  "good_event L ev \<longleftrightarrow> (\<exists>x. ev = to_write L x \<and> wf_event (fst x) \<and> full_refs (fst x))"

definition good_json :: "'db pipe_params \<Rightarrow> json \<Rightarrow> bool" where
  "good_json P j \<longleftrightarrow> j \<noteq> JNull \<and> (\<forall>now. parseAndVerifyEvent (pp_lib P) (pp_cfg P) now j (pp_verifyMsg P) (pp_verifyTime P) \<noteq> Inl UB)"

text \<open>A consistent database, with numbers left for \<open>n\<close> more events.\<close>

definition db_fit :: "'db pipe_params \<Rightarrow> ('db \<Rightarrow> u64 \<Rightarrow> (u64 \<times> string) set) \<Rightarrow> filter_cache \<Rightarrow> nat \<Rightarrow> 'db \<Rightarrow> bool" where
  "db_fit P tree_items cache n db \<longleftrightarrow>
     (\<exists>M cache'. freshenCache (pp_env P) (pp_lib P) db cache = Inr cache' \<and>
        holds (pp_env P) (pp_lib P) tree_items (fc_filters cache') db M \<and> consistent M) \<and>
     lev_max (pp_env P) db + n < 2 ^ 64"

text \<open>
  The states that the pipeline can be in, with the databases it went through (the last one is the
  current one), what was seen so far, and whether \<^verbatim>\<open>flush\<close> was called.  The client writes until it calls \<^verbatim>\<open>flush\<close> (which the destructor calls again); the threads
  run in any order; other processes may change the database at any time, to another
  consistent one.
\<close>

inductive pipe_reach ::
    "'db pipe_params \<Rightarrow> ('db \<Rightarrow> u64 \<Rightarrow> (u64 \<times> string) set) \<Rightarrow> bool \<Rightarrow> 'db list \<Rightarrow> 'db pipe_obs list \<Rightarrow> 'db pipeline \<Rightarrow> bool"
  for P and tree_items where
  start: "db_fit P tree_items \<lparr>fc_filters = [], fc_modificationCounter = 0\<rparr> 0 db \<Longrightarrow>
    pipe_reach P tree_items False [db] [] (WriterPipeline db)"
| client_json: "pipe_reach P tree_items False hist tr s \<Longrightarrow> good_json P j \<Longrightarrow>
    lev_max (pp_env P) (wp_db s) + Suc (under_way s) < 2 ^ 64 \<Longrightarrow>
    pipe_reach P tree_items False hist (tr @ [Ob_json j]) (write_json j s)"
| client_event: "pipe_reach P tree_items False hist tr s \<Longrightarrow> good_event (pp_lib P) ev \<Longrightarrow>
    lev_max (pp_env P) (wp_db s) + Suc (under_way s) < 2 ^ 64 \<Longrightarrow>
    pipe_reach P tree_items False hist (tr @ [Ob_event ev]) (write_event ev s)"
| client_flush: "pipe_reach P tree_items flushed hist tr s \<Longrightarrow> pipe_reach P tree_items True hist tr (flush_request s)"
| validator: "pipe_reach P tree_items flushed hist tr s \<Longrightarrow> validator_step P now s = Some (Inr (s', obs)) \<Longrightarrow>
    pipe_reach P tree_items flushed (hist @ [wp_db s']) (tr @ obs) s'"
| writer: "pipe_reach P tree_items flushed hist tr s \<Longrightarrow> writer_step P s = Some (Inr (s', obs)) \<Longrightarrow>
    pipe_reach P tree_items flushed (hist @ [wp_db s']) (tr @ obs) s'"
| others: "pipe_reach P tree_items flushed hist tr s \<Longrightarrow> db_fit P tree_items (wp_neFilterCache s) (under_way s) db' \<Longrightarrow>
    pipe_reach P tree_items flushed (hist @ [db']) tr (s\<lparr>wp_db := db'\<rparr>)"

text \<open>What was seen, sorted by kind.\<close>

definition json_in :: "'db pipe_obs list \<Rightarrow> json list" where
  "json_in tr = concat (map (\<lambda>ob. case ob of Ob_json j \<Rightarrow> [j] | _ \<Rightarrow> []) tr)"

definition events_in :: "'db pipe_obs list \<Rightarrow> event_to_write list" where
  "events_in tr = concat (map (\<lambda>ob. case ob of Ob_event ev \<Rightarrow> [ev] | _ \<Rightarrow> []) tr)"

definition rejected :: "'db pipe_obs list \<Rightarrow> json list" where
  "rejected tr = concat (map (\<lambda>ob. case ob of Ob_rejected j \<Rightarrow> [j] | _ \<Rightarrow> []) tr)"

definition accepted :: "'db pipe_obs list \<Rightarrow> (json \<times> event_to_write) list" where
  "accepted tr = concat (map (\<lambda>ob. case ob of Ob_accepted j ev \<Rightarrow> [(j, ev)] | _ \<Rightarrow> []) tr)"

definition found :: "'db pipe_obs list \<Rightarrow> ('db \<times> event_to_write) list" where
  "found tr = concat (map (\<lambda>ob. case ob of Ob_present txn ev \<Rightarrow> [(txn, ev)] | _ \<Rightarrow> []) tr)"

definition present :: "'db pipe_obs list \<Rightarrow> event_to_write list" where
  "present tr = map snd (found tr)"

definition batches :: "'db pipe_obs list \<Rightarrow> event_to_write list list" where
  "batches tr = concat (map (\<lambda>ob. case ob of Ob_committed evs \<Rightarrow> [evs] | _ \<Rightarrow> []) tr)"

definition committed :: "'db pipe_obs list \<Rightarrow> event_to_write list" where
  "committed tr = concat (batches tr)"

lemmas seen_defs = json_in_def events_in_def rejected_def accepted_def found_def present_def batches_def committed_def

definition record_of :: "event_to_write \<Rightarrow> string \<times> string" where
  "record_of ev = (ew_packedStr ev, ew_jsonStr ev)"

text \<open>An event with the id of \<open>ev\<close> is in the database.\<close>

definition stored_in :: "'db env \<Rightarrow> 'db \<Rightarrow> event_to_write \<Rightarrow> bool" where
  "stored_in E db ev \<longleftrightarrow> (\<exists>levId buf. lookup_Event E db levId = Some buf \<and> packed_id buf = packed_id (ew_packedStr ev))"

text \<open>
  One transaction, from one database of the run to the one after it, wrote the batch by the rule
  of the store: the statuses are those of the rule, and the new database holds what the rule leaves.
\<close>

definition batch_written :: "'db pipe_params \<Rightarrow> ('db \<Rightarrow> u64 \<Rightarrow> (u64 \<times> string) set) \<Rightarrow> 'db list \<Rightarrow> event_to_write list \<Rightarrow> bool" where
  "batch_written P tree_items hist evs \<longleftrightarrow>
     (\<exists>before db db' after fs M M' xs. hist = before @ db # db' # after \<and>
        holds (pp_env P) (pp_lib P) tree_items fs db M \<and> consistent M \<and>
        map record_of evs = map (\<lambda>x. record_of (to_write (pp_lib P) x)) (batch_order xs) \<and>
        spec_run M None (zip (map fst (batch_order xs)) (map ew_levId evs)) = (map ew_status evs, M') \<and>
        holds (pp_env P) (pp_lib P) tree_items fs db' M' \<and> consistent M')"

section \<open>The invariant\<close>

text \<open>The queues and the threads: nothing follows the end marks, and the marks lead to the end of the threads.\<close>

definition marks_ok :: "bool \<Rightarrow> 'db pipeline \<Rightarrow> bool" where
  "marks_ok flushed s \<longleftrightarrow>
     sorted_wrt (\<lambda>i j. i = JNull \<longrightarrow> j = JNull) (json_queue s) \<and>
     (if wp_validatorThread s = V_returned then live_json s = [] else JNull \<in> set (json_queue s) \<longleftrightarrow> flushed) \<and>
     event_queue s = live_events s @
       (if wp_validatorThread s = V_returned \<and> \<not> wp_shutdownComplete s then [EventToWrite [] [] None] else []) \<and>
     (wp_validatorThread s = V_returned \<longrightarrow> flushed) \<and>
     (wp_shutdownComplete s \<longrightarrow> wp_validatorThread s = V_returned \<and> live_events s = [] \<and>
        (wp_writerThread s = W_returned \<or> (\<exists>ready. wp_writerThread s = W_commit ready))) \<and>
     (wp_writerThread s = W_returned \<longleftrightarrow> wp_flushInbox s \<noteq> []) \<and> (wp_writerThread s = W_returned \<longrightarrow> wp_shutdownComplete s)"

definition contents_ok :: "'db pipe_params \<Rightarrow> 'db pipeline \<Rightarrow> bool" where
  "contents_ok P s \<longleftrightarrow> (\<forall>j\<in>set (live_json s). good_json P j) \<and>
     (\<forall>ev\<in>set (live_events s @ collected s). good_event (pp_lib P) ev)"

definition verdicts_ok :: "'db pipe_params \<Rightarrow> 'db pipe_obs list \<Rightarrow> bool" where
  "verdicts_ok P tr \<longleftrightarrow>
     (\<forall>j\<in>set (rejected tr). \<exists>now e. parseAndVerifyEvent (pp_lib P) (pp_cfg P) now j (pp_verifyMsg P) (pp_verifyTime P) = Inl e) \<and>
     (\<forall>(j, ev)\<in>set (accepted tr). \<exists>now. parseAndVerifyEvent (pp_lib P) (pp_cfg P) now j (pp_verifyMsg P) (pp_verifyTime P) = Inr (record_of ev))"

definition balanced :: "'db pipe_obs list \<Rightarrow> 'db pipeline \<Rightarrow> bool" where
  "balanced tr s \<longleftrightarrow>
     mset (json_in tr) = mset (rejected tr) + mset (map fst (accepted tr)) + mset (live_json s) \<and>
     mset (map record_of (events_in tr @ map snd (accepted tr))) =
       mset (map record_of (present tr @ committed tr)) + mset (map record_of (live_events s @ collected s))"

definition counters_ok :: "'db pipe_obs list \<Rightarrow> 'db pipeline \<Rightarrow> bool" where
  "counters_ok tr s \<longleftrightarrow>
     wp_totalProcessed s = of_nat (length (json_in tr) + length (events_in tr)) \<and>
     wp_totalRejected s = of_nat (length (rejected tr)) \<and>
     wp_totalWritten s = count_written (committed tr) \<and>
     wp_totalDups s = of_nat (length (present tr)) + count_dups (committed tr) \<and>
     wp_numLive s = of_nat (length (live_json s) + length (live_events s))"

definition pipe_inv :: "'db pipe_params \<Rightarrow> ('db \<Rightarrow> u64 \<Rightarrow> (u64 \<times> string) set) \<Rightarrow> bool \<Rightarrow> 'db pipe_obs list \<Rightarrow> 'db pipeline \<Rightarrow> bool" where
  "pipe_inv P tree_items flushed tr s \<longleftrightarrow> marks_ok flushed s \<and> contents_ok P s \<and>
     db_fit P tree_items (wp_neFilterCache s) (under_way s) (wp_db s) \<and> verdicts_ok P tr \<and> balanced tr s \<and> counters_ok tr s"

section \<open>Writing batch after batch\<close>

text \<open>
  The modification counter of the negentropy filters is a record of its own: writing events
  does not change it, so that the filters a writer has read stay the right ones.
\<close>

locale counted_env = event_env L E key_le tree_items for L :: lib and E :: "'db env" and key_le tree_items +
  assumes counter_insert: "insert_Event E db buf = (l, db') \<Longrightarrow> negentropyModificationCounter E db' = negentropyModificationCounter E db"
    and counter_delete: "negentropyModificationCounter E (delete_Event E db l) = negentropyModificationCounter E db"
    and counter_put: "negentropyModificationCounter E (payload_put E db l p) = negentropyModificationCounter E db"
    and counter_del: "payload_del E db l = (b, db') \<Longrightarrow> negentropyModificationCounter E db' = negentropyModificationCounter E db"
    and counter_tree: "negentropyModificationCounter E (tree_insert E db t c i) = negentropyModificationCounter E db"
      "negentropyModificationCounter E (tree_erase E db t c i) = negentropyModificationCounter E db"
begin

lemma counter_update:
  "updateNegentropy E L fs ev ins db = Inr db' \<Longrightarrow> negentropyModificationCounter E db' = negentropyModificationCounter E db"
proof (induction fs arbitrary: db)
  case (Cons ft fs)
  obtain f t where ft: "ft = (f, t)" by fastforce
  from Cons.prems obtain db1 where "updateNegentropy E L fs ev ins db1 = Inr db'"
    "db1 \<in> {db, tree_insert E db t (packed_created_at L ev) (packed_id ev), tree_erase E db t (packed_created_at L ev) (packed_id ev)}"
    by (auto simp: ft bindE_eq_Inr split: if_splits)
  then show ?case using Cons.IH [of db1] by (auto simp: counter_tree)
qed simp

lemma counter_delete_one:
  assumes "delete_one E L fs l (db, n) = Inr (db', n')"
  shows "negentropyModificationCounter E db' = negentropyModificationCounter E db"
proof (cases "lookup_Event E db l")
  case None
  then show ?thesis using assms by (simp add: delete_one_def)
next
  case (Some buf)
  then obtain db1 b db2 where upd: "updateNegentropy E L fs buf False db = Inr db1" and del: "payload_del E db1 l = (b, db2)" "db' = delete_Event E db2 l"
    using assms by (auto simp: delete_one_def bindE_eq_Inr PackedEventView_def deleteEventBasic_def split: if_splits prod.splits)
  show ?thesis unfolding del(2) counter_delete counter_del [OF del(1)] by (rule counter_update [OF upd])
qed

lemma counter_delete_all:
  "foldE (delete_one E L fs) ls (db, n) = Inr (db', n') \<Longrightarrow> negentropyModificationCounter E db' = negentropyModificationCounter E db"
proof (induction ls arbitrary: db n)
  case (Cons l ls)
  then obtain db1 n1 where "delete_one E L fs l (db, n) = Inr (db1, n1)" "foldE (delete_one E L fs) ls (db1, n1) = Inr (db', n')"
    by (auto simp: bindE_eq_Inr)
  then show ?case using Cons.IH counter_delete_one by metis
qed simp

lemma counter_store:
  assumes "store_event E L fs ev ls db = Inr (ev', db')"
  shows "negentropyModificationCounter E db' = negentropyModificationCounter E db"
proof -
  obtain l db1 where ins: "insert_Event E db (ew_packedStr ev) = (l, db1)" by fastforce
  then obtain db3 n where "updateNegentropy E L fs (ew_packedStr ev) True (payload_put E db1 l ([CHR 0x00] @ ew_jsonStr ev)) = Inr db3"
    "foldE (delete_one E L fs) ls (db3, 0) = Inr (db', n)"
    using assms by (auto simp: store_event_def bindE_eq_Inr PackedEventView_def split: if_splits)
  then show ?thesis using counter_insert [OF ins] counter_update counter_delete_all counter_put by metis
qed

lemma counter_write_one:
  assumes "write_one E L fs prev ev db = Inr (ev', db')"
  shows "negentropyModificationCounter E db' = negentropyModificationCounter E db"
  using assms counter_store by (auto simp: write_one_def bindE_eq_Inr split: if_splits)

lemma write_loop_leaves:
  assumes "holds E L tree_items fs db M" "consistent M" "\<And>x. x \<in> set xs \<Longrightarrow> wf_event (fst x) \<and> full_refs (fst x)"
    and "lev_max E db + length xs < 2 ^ 64" "write_loop E L fs prev (map (to_write L) xs) db = Inr (evs, db')"
  shows "lev_max E db' \<le> lev_max E db + length xs \<and> negentropyModificationCounter E db' = negentropyModificationCounter E db"
  using assms
proof (induction xs arbitrary: db M prev evs)
  case (Cons x xs)
  have wf: "wf_event (fst x)" "full_refs (fst x)" "Suc (lev_max E db) < 2 ^ 64"
    using Cons.prems(3) [of x] Cons.prems(4) by simp_all
  obtain ev db1 M1 where one: "write_one E L fs prev (to_write L x) db = Inr (ev, db1)"
    "holds E L tree_items fs db1 M1" "consistent M1" "lev_max E db1 \<le> Suc (lev_max E db)"
    by (rule write_one_step [OF Cons.prems(1,2) wf, of prev]) blast
  have room: "lev_max E db1 + length xs < 2 ^ 64" using one(4) Cons.prems(4) by simp
  obtain evs1 where rest: "write_loop E L fs (Some (packed_id (pack_event L (fst x)))) (map (to_write L) xs) db1 = Inr (evs1, db')"
    using Cons.prems(5) by (auto simp: one(1) bindE_eq_Inr)
  show ?case
    using Cons.IH [OF one(2,3) Cons.prems(3) [OF list.set_intros(2)] room rest] one(4) counter_write_one [OF one(1)] by simp
qed simp

lemma freshen_counter:
  "freshenCache E L db cache = Inr cache' \<Longrightarrow> negentropyModificationCounter E db = Some (fc_modificationCounter cache')"
  by (auto simp: freshenCache_def bindE_eq_Inr split: option.splits if_splits)

text \<open>A batch is written without an exception, keeps the events, and leaves a database fit for the next one.\<close>

lemma writeEvents_batch:
  assumes "freshenCache E L db cache = Inr cache'" "holds E L tree_items (fc_filters cache') db M" "consistent M"
    and "\<And>ev. ev \<in> set evs \<Longrightarrow> good_event L ev" "lev_max E db + length evs < 2 ^ 64"
  obtains evs' db' M' xs where "writeEvents E L cache evs db = Inr (evs', db', cache')" "mset (map record_of evs') = mset (map record_of evs)"
    "freshenCache E L db' cache' = Inr cache'" "holds E L tree_items (fc_filters cache') db' M'" "consistent M'"
    "lev_max E db' \<le> lev_max E db + length evs"
    "map record_of evs' = map (\<lambda>x. record_of (to_write L x)) (batch_order xs)"
    "spec_run M None (zip (map fst (batch_order xs)) (map ew_levId evs')) = (map ew_status evs', M')"
proof -
  obtain xs where xs: "evs = map (to_write L) xs" "\<And>x. x \<in> set xs \<Longrightarrow> wf_event (fst x) \<and> full_refs (fst x)"
  proof -
    have "\<exists>xs. evs = map (to_write L) xs \<and> (\<forall>x\<in>set xs. wf_event (fst x) \<and> full_refs (fst x))"
      using assms(4)
    proof (induction evs)
      case (Cons ev evs)
      obtain xs where "evs = map (to_write L) xs" "\<forall>x\<in>set xs. wf_event (fst x) \<and> full_refs (fst x)" using Cons by auto
      moreover obtain x where "ev = to_write L x" "wf_event (fst x) \<and> full_refs (fst x)"
        using Cons.prems [of ev] unfolding good_event_def by (metis list.set_intros(1))
      ultimately have "ev # evs = map (to_write L) (x # xs)" "\<forall>y\<in>set (x # xs). wf_event (fst y) \<and> full_refs (fst y)" by simp_all
      then show ?case by (intro exI conjI)
    qed simp
    then show thesis using that by blast
  qed
  have len: "lev_max E db + length xs < 2 ^ 64" using assms(5) by (simp add: xs)
  obtain evs' db' M' where run: "writeEvents E L cache (map (to_write L) xs) db = Inr (evs', db', cache')"
    "holds E L tree_items (fc_filters cache') db' M'" "consistent M'"
    "list_all2 (\<lambda>x ev. ew_packedStr ev = pack_event L (fst x) \<and> ew_jsonStr ev = fst (snd x) \<and>
      ew_userData ev = snd (snd x) \<and> (ew_status ev = Written \<longrightarrow> stored E db db' M' x ev)) (batch_order xs) evs'"
    "spec_run M None (zip (map fst (batch_order xs)) (map ew_levId evs')) = (map ew_status evs', M')"
    by (rule writeEvents_correct [OF assms(1-3) xs(2) len]) blast+
  have loop: "write_loop E L (fc_filters cache') None (map (to_write L) (batch_order xs)) db = Inr (evs', db')"
    using run(1) sort_events_correct [of xs] xs(2) by (auto simp: writeEvents_def assms(1) bindE_eq_Inr)
  have same: "length (batch_order xs) = length xs" "set (batch_order xs) = set xs" "mset (batch_order xs) = mset xs"
    by (simp_all add: batch_order_def)
  have left: "lev_max E db' \<le> lev_max E db + length xs" "negentropyModificationCounter E db' = negentropyModificationCounter E db"
    using write_loop_leaves [OF assms(2,3) _ _ loop] xs(2) len by (auto simp: same)
  have recs: "map record_of evs' = map (\<lambda>x. record_of (to_write L x)) (batch_order xs)"
    using run(4) by (induction rule: list_all2_induct) (auto simp: record_of_def)
  then have "mset (map record_of evs') = mset (map (\<lambda>x. record_of (to_write L x)) xs)" by (simp add: same(3))
  then have "mset (map record_of evs') = mset (map record_of evs)" by (simp add: xs(1) comp_def)
  moreover have "freshenCache E L db' cache' = Inr cache'" using left(2) freshen_counter [OF assms(1)] by (simp add: freshenCache_def)
  ultimately show thesis using that [of evs' db' M' xs] run(1-3,5) left(1) recs by (simp add: xs(1))
qed

end

section \<open>The steps keep the invariant\<close>

lemmas queue_defs = live_json_def live_events_def json_queue_def event_queue_def collected_def

lemma good_json_not_null: "good_json P j \<Longrightarrow> j \<noteq> JNull"
  by (simp add: good_json_def)

lemma count_append [simp]:
  "count_written (xs @ ys) = count_written xs + count_written ys" "count_dups (xs @ ys) = count_dups xs + count_dups ys"
  "count_written [] = 0" "count_dups [] = 0"
  by (simp_all add: count_written_def count_dups_def)

lemma seen_append [simp]:
  "json_in (tr @ tr') = json_in tr @ json_in tr'" "events_in (tr @ tr') = events_in tr @ events_in tr'"
  "rejected (tr @ tr') = rejected tr @ rejected tr'" "accepted (tr @ tr') = accepted tr @ accepted tr'"
  "found (tr @ tr') = found tr @ found tr'" "batches (tr @ tr') = batches tr @ batches tr'"
  "present (tr @ tr') = present tr @ present tr'" "committed (tr @ tr') = committed tr @ committed tr'"
  by (simp_all add: seen_defs)

lemma seen_one [simp]:
  "json_in [ob] = (case ob of Ob_json j \<Rightarrow> [j] | _ \<Rightarrow> [])" "events_in [ob] = (case ob of Ob_event ev \<Rightarrow> [ev] | _ \<Rightarrow> [])"
  "rejected [ob] = (case ob of Ob_rejected j \<Rightarrow> [j] | _ \<Rightarrow> [])" "accepted [ob] = (case ob of Ob_accepted j ev \<Rightarrow> [(j, ev)] | _ \<Rightarrow> [])"
  "found [ob] = (case ob of Ob_present txn ev \<Rightarrow> [(txn, ev)] | _ \<Rightarrow> [])" "batches [ob] = (case ob of Ob_committed evs \<Rightarrow> [evs] | _ \<Rightarrow> [])"
  "present [ob] = (case ob of Ob_present txn ev \<Rightarrow> [ev] | _ \<Rightarrow> [])" "committed [ob] = (case ob of Ob_committed evs \<Rightarrow> evs | _ \<Rightarrow> [])"
  "json_in [] = []" "events_in [] = []" "rejected [] = []" "accepted [] = []" "present [] = []" "committed [] = []" "found [] = []" "batches [] = []"
  by (simp_all add: seen_defs split: pipe_obs.split)

text \<open>What the invariant reads of a state.  Waking up, pausing and putting events back change none of it.\<close>

definition same_view :: "'db pipeline \<Rightarrow> 'db pipeline \<Rightarrow> bool" where
  "same_view s s' \<longleftrightarrow> json_queue s' = json_queue s \<and> event_queue s' = event_queue s \<and> collected s' = collected s \<and>
     (wp_validatorThread s' = V_returned \<longleftrightarrow> wp_validatorThread s = V_returned) \<and>
     wp_writerThread s \<noteq> W_returned \<and> wp_writerThread s' \<noteq> W_returned \<and> \<not> wp_shutdownComplete s \<and>
     wp_shutdownComplete s' = wp_shutdownComplete s \<and> wp_flushInbox s' = wp_flushInbox s \<and>
     wp_numLive s' = wp_numLive s \<and> wp_totalProcessed s' = wp_totalProcessed s \<and> wp_totalWritten s' = wp_totalWritten s \<and>
     wp_totalRejected s' = wp_totalRejected s \<and> wp_totalDups s' = wp_totalDups s \<and>
     wp_neFilterCache s' = wp_neFilterCache s \<and> wp_db s' = wp_db s"

lemma same_view_inv:
  assumes "same_view s s'" "pipe_inv P tree_items flushed tr s"
  shows "pipe_inv P tree_items flushed tr s'"
proof -
  have view: "json_queue s' = json_queue s" "event_queue s' = event_queue s" "collected s' = collected s"
    "wp_validatorThread s' = V_returned \<longleftrightarrow> wp_validatorThread s = V_returned" "wp_writerThread s \<noteq> W_returned" "wp_writerThread s' \<noteq> W_returned"
    "\<not> wp_shutdownComplete s" "\<not> wp_shutdownComplete s'" "wp_flushInbox s' = wp_flushInbox s"
    using assms(1) by (simp_all add: same_view_def)
  have counts: "wp_numLive s' = wp_numLive s" "wp_totalProcessed s' = wp_totalProcessed s" "wp_totalWritten s' = wp_totalWritten s"
    "wp_totalRejected s' = wp_totalRejected s" "wp_totalDups s' = wp_totalDups s" "wp_neFilterCache s' = wp_neFilterCache s" "wp_db s' = wp_db s"
    using assms(1) by (simp_all add: same_view_def)
  have live: "live_json s' = live_json s" "live_events s' = live_events s" "under_way s' = under_way s"
    by (simp_all add: live_json_def live_events_def under_way_def view(1-3))
  have "marks_ok flushed s'" using assms(2) unfolding pipe_inv_def marks_ok_def by (simp add: view live)
  moreover have "contents_ok P s'" "db_fit P tree_items (wp_neFilterCache s') (under_way s') (wp_db s')" "balanced tr s'" "counters_ok tr s'"
    using assms(2) unfolding pipe_inv_def contents_ok_def balanced_def counters_ok_def view(3) counts live by blast+
  ultimately show ?thesis using assms(2) by (simp add: pipe_inv_def)
qed

context counted_env
begin

lemma good_event_packed:
  assumes "good_event L ev"
  shows "ew_packedStr ev \<noteq> []" "PackedEventView (ew_packedStr ev) = Inr (ew_packedStr ev)"
proof -
  obtain x where x: "ev = to_write L x" "wf_event (fst x)" using assms by (auto simp: good_event_def)
  then have "pack_event L (fst x) \<noteq> []" by (auto simp: pack_event_def pack_def wf_event_def)
  then show "ew_packedStr ev \<noteq> []" "PackedEventView (ew_packedStr ev) = Inr (ew_packedStr ev)" using x by simp_all
qed

end

lemma validator_waking:
  assumes "pipe_inv P tree_items flushed tr s" "validator_step P now s = Some (Inr (s', obs))"
    and "wp_validatorThread s = V_pop \<or> wp_validatorThread s = V_msgs []"
  shows "obs = [] \<and> same_view s s'"
proof -
  have "\<not> wp_shutdownComplete s" "wp_writerThread s \<noteq> W_returned" using assms(1,3) by (auto simp: pipe_inv_def marks_ok_def)
  then show ?thesis using assms(2,3) by (auto simp: validator_step_def same_view_def json_queue_def event_queue_def collected_def split: if_splits)
qed

lemma validator_marks_end:
  assumes "pipe_inv P tree_items flushed tr s" "wp_validatorThread s = V_msgs (JNull # ms)"
    and "validator_step P now s = Some (Inr (s', obs))"
  shows "pipe_inv P tree_items flushed (tr @ obs) s'"
proof -
  have s': "s' = s\<lparr>wp_shutdownRequested := True, wp_writerInbox := wp_writerInbox s @ [EventToWrite [] [] None], wp_validatorThread := V_returned\<rparr>" "obs = []"
    using assms(2,3) by (simp_all add: validator_step_def)
  have quiet: "\<not> wp_shutdownComplete s" "wp_writerThread s \<noteq> W_returned" using assms(1,2) by (auto simp: pipe_inv_def marks_ok_def)
  have queue: "event_queue s = live_events s" "flushed" "wp_flushInbox s = []"
    using assms(1,2) by (auto simp: pipe_inv_def marks_ok_def json_queue_def)
  have "\<forall>j\<in>set (ms @ wp_validatorInbox s). j = JNull"
    using assms(1,2) by (auto simp: pipe_inv_def marks_ok_def json_queue_def sorted_wrt_append)
  then have none: "live_json s = []" "live_json s' = []" "sorted_wrt (\<lambda>i j. i = JNull \<longrightarrow> j = JNull) (json_queue s')"
    by (simp_all add: live_json_def json_queue_def assms(2) s'(1) filter_empty_conv sorted_wrt_iff_nth_less)
  have events: "event_queue s' = live_events s @ [EventToWrite [] [] None]" "live_events s' = live_events s" "collected s' = collected s"
    using queue(1) by (simp_all add: event_queue_def live_events_def collected_def s'(1) EventToWrite_def)
  have "under_way s' = under_way s" by (simp add: under_way_def none events)
  then have "db_fit P tree_items (wp_neFilterCache s') (under_way s') (wp_db s')" using assms(1) by (simp add: pipe_inv_def s'(1))
  moreover have "marks_ok flushed s'" using queue quiet none events by (simp add: marks_ok_def s'(1))
  moreover have "contents_ok P s'" "balanced tr s'" "counters_ok tr s'"
    using assms(1) none unfolding pipe_inv_def contents_ok_def balanced_def counters_ok_def events by (simp_all add: s'(1))
  ultimately show ?thesis using assms(1) by (simp add: pipe_inv_def s'(2))
qed

text \<open>A message leaves the queue of the validator; \<open>evs\<close> is what it hands to the writer.\<close>

lemma validator_moves_on:
  assumes "pipe_inv P tree_items flushed tr s" "wp_validatorThread s = V_msgs (m # ms)" "m \<noteq> JNull"
    and "s' = s\<lparr>wp_writerInbox := wp_writerInbox s @ evs, wp_validatorThread := V_msgs ms, wp_numLive := n, wp_totalRejected := r\<rparr>"
    and "\<forall>ev\<in>set evs. ew_packedStr ev \<noteq> []"
  shows "live_json s = m # live_json s'" "live_events s' = live_events s @ evs" "collected s' = collected s" "marks_ok flushed s'"
proof -
  have quiet: "\<not> wp_shutdownComplete s" "wp_writerThread s \<noteq> W_returned" "wp_flushInbox s = []" "event_queue s = live_events s"
    using assms(1,2) by (auto simp: pipe_inv_def marks_ok_def)
  show "live_json s = m # live_json s'" using assms(3) by (simp add: live_json_def json_queue_def assms(2,4))
  have q: "event_queue s' = event_queue s @ evs" by (simp add: event_queue_def assms(4))
  then show ev: "live_events s' = live_events s @ evs" using assms(5) by (simp add: live_events_def)
  show "collected s' = collected s" by (simp add: collected_def assms(4))
  have "json_queue s = m # json_queue s'" by (simp add: json_queue_def assms(2,4))
  then have "sorted_wrt (\<lambda>i j. i = JNull \<longrightarrow> j = JNull) (json_queue s')" "JNull \<in> set (json_queue s') \<longleftrightarrow> flushed"
    using assms(1-3) by (auto simp: pipe_inv_def marks_ok_def)
  then show "marks_ok flushed s'" using quiet ev q by (simp add: marks_ok_def assms(4))
qed

lemma validator_rejects:
  assumes "pipe_inv P tree_items flushed tr s" "wp_validatorThread s = V_msgs (m # ms)" "m \<noteq> JNull"
    and "parseAndVerifyEvent (pp_lib P) (pp_cfg P) now m (pp_verifyMsg P) (pp_verifyTime P) = Inl e"
    and "validator_step P now s = Some (Inr (s', obs))"
  shows "pipe_inv P tree_items flushed (tr @ obs) s'"
proof -
  have s': "s' = s\<lparr>wp_writerInbox := wp_writerInbox s @ [], wp_validatorThread := V_msgs ms, wp_numLive := wp_numLive s - 1,
      wp_totalRejected := wp_totalRejected s + 1\<rparr>" "obs = [Ob_rejected m]"
    using assms(2-5) by (auto simp: validator_step_def split: if_splits intro!: pipeline.equality)
  note on = validator_moves_on [OF assms(1-3) s'(1), simplified list.set ball_empty append_Nil2, OF TrueI]
  have sel: "wp_numLive s' = wp_numLive s - 1" "wp_totalRejected s' = wp_totalRejected s + 1" "wp_totalProcessed s' = wp_totalProcessed s"
    "wp_totalWritten s' = wp_totalWritten s" "wp_totalDups s' = wp_totalDups s" by (simp_all add: s'(1))
  have "under_way s = Suc (under_way s')" by (simp add: under_way_def on(1-3))
  then have "db_fit P tree_items (wp_neFilterCache s') (under_way s') (wp_db s')" using assms(1) by (simp add: pipe_inv_def db_fit_def s'(1))
  moreover have "contents_ok P s'" "verdicts_ok P (tr @ obs)" "balanced (tr @ obs) s'"
    using assms(1,4) by (auto simp: pipe_inv_def contents_ok_def verdicts_ok_def balanced_def on(1-3) s'(2))
  moreover have "counters_ok (tr @ obs) s'"
    using assms(1) unfolding pipe_inv_def counters_ok_def sel on(1-3) by (simp add: s'(2))
  ultimately show ?thesis using on(4) by (simp add: pipe_inv_def)
qed

lemma validator_accepts:
  assumes "pipe_inv P tree_items flushed tr s" "hex_halves (pp_lib P)" "wp_validatorThread s = V_msgs (m # ms)" "m \<noteq> JNull"
    and "parseAndVerifyEvent (pp_lib P) (pp_cfg P) now m (pp_verifyMsg P) (pp_verifyTime P) = Inr (packedStr, jsonStr)"
    and "validator_step P now s = Some (Inr (s', obs))" "counted_env (pp_lib P) (pp_env P) key_le tree_items"
  shows "pipe_inv P tree_items flushed (tr @ obs) s'"
proof -
  let ?ev = "EventToWrite packedStr jsonStr None"
  obtain e where e: "packedStr = pack_event (pp_lib P) e" "wf_event e" "full_refs e"
    by (rule parsed_event [OF assms(5,2)]) blast
  have "?ev = to_write (pp_lib P) (e, jsonStr, None)" by (simp add: to_write_def e(1))
  then have good: "good_event (pp_lib P) ?ev" using e(2,3) unfolding good_event_def by (metis fst_conv)
  have s': "s' = s\<lparr>wp_writerInbox := wp_writerInbox s @ [?ev], wp_validatorThread := V_msgs ms, wp_numLive := wp_numLive s,
      wp_totalRejected := wp_totalRejected s\<rparr>" "obs = [Ob_accepted m ?ev]"
    using assms(3-6) by (auto simp: validator_step_def Let_def intro!: pipeline.equality)
  have "\<forall>ev\<in>set [?ev]. ew_packedStr ev \<noteq> []"
    using counted_env.good_event_packed(1) [OF assms(7) good] by simp
  note on = validator_moves_on [OF assms(1,3,4) s'(1) this]
  have sel: "wp_numLive s' = wp_numLive s" "wp_totalRejected s' = wp_totalRejected s" "wp_totalProcessed s' = wp_totalProcessed s"
    "wp_totalWritten s' = wp_totalWritten s" "wp_totalDups s' = wp_totalDups s" by (simp_all add: s'(1))
  have rec: "record_of ?ev = (packedStr, jsonStr)" by (simp add: record_of_def EventToWrite_def)
  have "under_way s = under_way s'" by (simp add: under_way_def on(1-3))
  then have "db_fit P tree_items (wp_neFilterCache s') (under_way s') (wp_db s')" using assms(1) by (simp add: pipe_inv_def s'(1))
  moreover have "contents_ok P s'" "verdicts_ok P (tr @ obs)" "balanced (tr @ obs) s'"
    using assms(1,5) good by (auto simp: pipe_inv_def contents_ok_def verdicts_ok_def balanced_def on(1-3) s'(2) rec)
  moreover have "counters_ok (tr @ obs) s'"
    using assms(1) unfolding pipe_inv_def counters_ok_def sel on(1-3) by (simp add: s'(2))
  ultimately show ?thesis using on(4) by (simp add: pipe_inv_def)
qed

lemma validator_keeps:
  assumes "pipe_inv P tree_items flushed tr s" "hex_halves (pp_lib P)" "counted_env (pp_lib P) (pp_env P) key_le tree_items"
    and "validator_step P now s = Some (Inr (s', obs))"
  shows "pipe_inv P tree_items flushed (tr @ obs) s'"
proof (cases "wp_validatorThread s = V_pop \<or> wp_validatorThread s = V_msgs []")
  case True
  then show ?thesis using validator_waking [OF assms(1,4)] same_view_inv [OF _ assms(1)] by auto
next
  case False
  then obtain m ms where thr: "wp_validatorThread s = V_msgs (m # ms)"
    using assms(4) by (auto simp: validator_step_def split: validator_thread.splits list.splits)
  consider "m = JNull" | e where "m \<noteq> JNull" "parseAndVerifyEvent (pp_lib P) (pp_cfg P) now m (pp_verifyMsg P) (pp_verifyTime P) = Inl e"
    | packedStr jsonStr where "m \<noteq> JNull" "parseAndVerifyEvent (pp_lib P) (pp_cfg P) now m (pp_verifyMsg P) (pp_verifyTime P) = Inr (packedStr, jsonStr)"
    by (metis obj_sumE surj_pair)
  then show ?thesis
  proof cases
    case 1
    then show ?thesis using validator_marks_end [OF assms(1) _ assms(4)] thr by simp
  next
    case 2
    then show ?thesis using validator_rejects [OF assms(1) thr _ _ assms(4)] by simp
  next
    case 3
    then show ?thesis using validator_accepts [OF assms(1,2) thr _ _ assms(4,3)] by simp
  qed
qed

lemma validator_never_throws:
  assumes "pipe_inv P tree_items flushed tr s"
  shows "validator_step P now s \<noteq> Some (Inl e)"
proof (cases "\<exists>m ms. wp_validatorThread s = V_msgs (m # ms) \<and> m \<noteq> JNull")
  case True
  then obtain m ms where thr: "wp_validatorThread s = V_msgs (m # ms)" "m \<noteq> JNull" by blast
  then have "m \<in> set (live_json s)" by (simp add: live_json_def json_queue_def)
  then have "parseAndVerifyEvent (pp_lib P) (pp_cfg P) now m (pp_verifyMsg P) (pp_verifyTime P) \<noteq> Inl UB"
    using assms by (simp add: pipe_inv_def contents_ok_def good_json_def)
  then show ?thesis using thr by (auto simp: validator_step_def Let_def split: sum.splits)
next
  case False
  then show ?thesis by (auto simp: validator_step_def split: validator_thread.splits list.splits)
qed

text \<open>The writer.\<close>

lemma writer_waking:
  assumes "pipe_inv P tree_items flushed tr s" "writer_step P s = Some (Inr (s', obs))"
    and "wp_writerThread s = W_pop \<or> wp_writerThread s = W_collect txn [] ready \<or>
      wp_writerThread s = W_collect txn (ev # evs) ready \<and> length ready \<ge> unat (pp_writeBatchSize P)"
  shows "obs = [] \<and> same_view s s'"
proof -
  have "\<not> wp_shutdownComplete s" "wp_writerThread s \<noteq> W_returned" using assms(1,3) by (auto simp: pipe_inv_def marks_ok_def)
  then show ?thesis using assms(2,3)
    by (auto simp: writer_step_def collect_event_def same_view_def json_queue_def event_queue_def collected_def split: if_splits)
qed

lemma writer_finds_end:
  assumes "pipe_inv P tree_items flushed tr s" "wp_writerThread s = W_collect txn (ev # evs) ready" "ew_packedStr ev = []"
    and "length ready < unat (pp_writeBatchSize P)" "writer_step P s = Some (Inr (s', obs))"
  shows "pipe_inv P tree_items flushed (tr @ obs) s'"
proof -
  have s': "s' = s\<lparr>wp_shutdownComplete := True, wp_writerThread := W_commit ready\<rparr>" "obs = []"
    using assms(2-5) by (simp_all add: writer_step_def collect_event_def)
  have q: "event_queue s = ev # evs @ wp_writerInbox s" by (simp add: event_queue_def assms(2))
  have "\<not> wp_shutdownComplete s" "wp_flushInbox s = []" "event_queue s = live_events s @ (if wp_validatorThread s = V_returned then [EventToWrite [] [] None] else [])"
    using assms(1,2) by (auto simp: pipe_inv_def marks_ok_def)
  moreover have "live_events s = []"
  proof (cases "live_events s")
    case (Cons a as)
    then have "a = ev" using calculation(3) q by simp
    moreover have "a \<in> set (live_events s)" using Cons by simp
    ultimately show ?thesis using assms(3) by (simp add: live_events_def)
  qed simp
  ultimately have ends: "wp_validatorThread s = V_returned" "evs @ wp_writerInbox s = []" "live_events s = []" "wp_flushInbox s = []"
    using q by (auto split: if_splits)
  have same: "live_json s' = live_json s" "live_events s' = live_events s" "collected s' = collected s" "json_queue s' = json_queue s" "event_queue s' = []"
    using ends(2,3) by (simp_all add: live_json_def json_queue_def live_events_def event_queue_def collected_def s'(1) assms(2))
  have "under_way s' = under_way s" by (simp add: under_way_def same)
  then have "db_fit P tree_items (wp_neFilterCache s') (under_way s') (wp_db s')" using assms(1) by (simp add: pipe_inv_def s'(1))
  moreover have "marks_ok flushed s'" using assms(1) ends same by (simp add: pipe_inv_def marks_ok_def s'(1))
  moreover have "contents_ok P s'" "balanced tr s'" "counters_ok tr s'"
    using assms(1) unfolding pipe_inv_def contents_ok_def balanced_def counters_ok_def same by (simp_all add: s'(1))
  ultimately show ?thesis using assms(1) by (simp add: pipe_inv_def s'(2))
qed

text \<open>An event leaves the queue of the writer, for the batch or because it is there already.\<close>

lemma writer_takes:
  assumes "pipe_inv P tree_items flushed tr s" "counted_env (pp_lib P) (pp_env P) key_le tree_items"
    and "wp_writerThread s = W_collect txn (ev # evs) ready" "ew_packedStr ev \<noteq> []"
    and "length ready < unat (pp_writeBatchSize P)" "writer_step P s = Some r"
  shows "\<exists>s' obs. r = Inr (s', obs) \<and> pipe_inv P tree_items flushed (tr @ obs) s'"
proof -
  have head: "live_events s = ev # filter (\<lambda>ev. ew_packedStr ev \<noteq> []) (evs @ wp_writerInbox s)"
    using assms(4) by (simp add: live_events_def event_queue_def assms(3))
  then have good: "good_event (pp_lib P) ev" using assms(1) by (simp add: pipe_inv_def contents_ok_def)
  define there where "there \<longleftrightarrow> lookupEventById (pp_env P) txn (packed_id (ew_packedStr ev)) \<noteq> None"
  define ready' where "ready' = (if there then ready else ready @ [ev])"
  define s' where "s' = s\<lparr>wp_numLive := wp_numLive s - 1, wp_totalDups := (if there then wp_totalDups s + 1 else wp_totalDups s),
    wp_writerThread := W_collect txn evs ready'\<rparr>"
  define obs where "obs = (if there then [Ob_present txn ev] else [])"
  have r: "r = Inr (s', obs)"
    using assms(3-6) counted_env.good_event_packed(2) [OF assms(2) good]
    by (auto simp: writer_step_def collect_event_def Let_def s'_def obs_def ready'_def there_def intro!: pipeline.equality)
  have step: "live_events s = ev # live_events s'" "collected s' = ready'" "collected s = ready" "json_queue s' = json_queue s" "live_json s' = live_json s"
    "event_queue s = ev # event_queue s'"
    using head by (simp_all add: live_events_def event_queue_def collected_def json_queue_def live_json_def s'_def assms(3))
  have sel: "wp_numLive s' = wp_numLive s - 1" "wp_totalRejected s' = wp_totalRejected s" "wp_totalProcessed s' = wp_totalProcessed s"
    "wp_totalWritten s' = wp_totalWritten s" "wp_totalDups s' = (if there then wp_totalDups s + 1 else wp_totalDups s)" by (simp_all add: s'_def)
  have marks: "marks_ok flushed s'" using assms(1,3) step by (auto simp: pipe_inv_def marks_ok_def s'_def)
  have "under_way s' \<le> under_way s" by (simp add: under_way_def step ready'_def)
  then have "db_fit P tree_items (wp_neFilterCache s') (under_way s') (wp_db s')" using assms(1) by (auto simp: pipe_inv_def db_fit_def s'_def)
  moreover have "contents_ok P s'" "verdicts_ok P (tr @ obs)" "balanced (tr @ obs) s'"
    using assms(1) good by (auto simp: pipe_inv_def contents_ok_def verdicts_ok_def balanced_def step ready'_def obs_def)
  moreover have "counters_ok (tr @ obs) s'"
    using assms(1) unfolding pipe_inv_def counters_ok_def sel step(1,5) by (simp add: obs_def)
  ultimately show ?thesis using marks r by (simp add: pipe_inv_def)
qed

text \<open>The end of a round, after \<open>evs\<close> has been written.\<close>

lemma writer_ends:
  assumes "pipe_inv P tree_items flushed tr s" "wp_writerThread s = W_commit ready"
    and "mset (map record_of evs) = mset (map record_of ready)" "obs = (if evs = [] then [] else [Ob_committed evs])"
    and "db_fit P tree_items cache (under_way s - length ready) db"
    and "s' = writer_done (s\<lparr>wp_db := db, wp_neFilterCache := cache, wp_totalWritten := wp_totalWritten s + count_written evs,
      wp_totalDups := wp_totalDups s + count_dups evs\<rparr>)"
  shows "pipe_inv P tree_items flushed (tr @ obs) s'"
proof -
  have step: "live_events s' = live_events s" "collected s' = []" "collected s = ready" "json_queue s' = json_queue s" "live_json s' = live_json s"
    "event_queue s' = event_queue s"
    by (simp_all add: live_events_def event_queue_def collected_def json_queue_def live_json_def assms(2,6) writer_done_def)
  have marks: "marks_ok flushed s'" using assms(1,2) step by (auto simp: pipe_inv_def marks_ok_def assms(6) writer_done_def)
  have fresh: "committed obs = evs" "json_in obs = []" "events_in obs = []" "rejected obs = []" "accepted obs = []" "present obs = []"
    by (simp_all add: assms(4))
  have "under_way s' = under_way s - length ready" by (simp add: under_way_def step)
  then have "db_fit P tree_items (wp_neFilterCache s') (under_way s') (wp_db s')" using assms(5) by (simp add: assms(6) writer_done_def)
  moreover have "contents_ok P s'" "verdicts_ok P (tr @ obs)"
    using assms(1) by (auto simp: pipe_inv_def contents_ok_def verdicts_ok_def step fresh)
  moreover have "balanced (tr @ obs) s'" using assms(1,3) by (simp add: pipe_inv_def balanced_def step fresh)
  moreover have "counters_ok (tr @ obs) s'"
    using assms(1) step unfolding pipe_inv_def counters_ok_def by (simp add: assms(6) writer_done_def fresh)
  ultimately show ?thesis using marks by (simp add: pipe_inv_def)
qed

lemma batch_is_written:
  assumes "pipe_inv P tree_items flushed tr s" "counted_env (pp_lib P) (pp_env P) key_le tree_items" "wp_writerThread s = W_commit ready"
  obtains evs db' cache fs M M' xs where
    "writeEvents (pp_env P) (pp_lib P) (wp_neFilterCache s) ready (wp_db s) = Inr (evs, db', cache)"
    "mset (map record_of evs) = mset (map record_of ready)" "db_fit P tree_items cache (under_way s - length ready) db'"
    "holds (pp_env P) (pp_lib P) tree_items fs (wp_db s) M" "consistent M" "holds (pp_env P) (pp_lib P) tree_items fs db' M'" "consistent M'"
    "map record_of evs = map (\<lambda>x. record_of (to_write (pp_lib P) x)) (batch_order xs)"
    "spec_run M None (zip (map fst (batch_order xs)) (map ew_levId evs)) = (map ew_status evs, M')"
proof -
  have coll: "collected s = ready" by (simp add: collected_def assms(3))
  obtain M cache where ok: "freshenCache (pp_env P) (pp_lib P) (wp_db s) (wp_neFilterCache s) = Inr cache"
    "holds (pp_env P) (pp_lib P) tree_items (fc_filters cache) (wp_db s) M" "consistent M" "lev_max (pp_env P) (wp_db s) + under_way s < 2 ^ 64"
    using assms(1) by (auto simp: pipe_inv_def db_fit_def)
  have le: "length ready \<le> under_way s" by (simp add: under_way_def coll)
  then have room: "lev_max (pp_env P) (wp_db s) + length ready < 2 ^ 64" using ok(4) by simp
  have good: "good_event (pp_lib P) ev" if "ev \<in> set ready" for ev using assms(1) that by (simp add: pipe_inv_def contents_ok_def coll)
  obtain evs db' M' xs where w: "writeEvents (pp_env P) (pp_lib P) (wp_neFilterCache s) ready (wp_db s) = Inr (evs, db', cache)"
    "mset (map record_of evs) = mset (map record_of ready)" "freshenCache (pp_env P) (pp_lib P) db' cache = Inr cache"
    "holds (pp_env P) (pp_lib P) tree_items (fc_filters cache) db' M'" "consistent M'"
    "lev_max (pp_env P) db' \<le> lev_max (pp_env P) (wp_db s) + length ready"
    "map record_of evs = map (\<lambda>x. record_of (to_write (pp_lib P) x)) (batch_order xs)"
    "spec_run M None (zip (map fst (batch_order xs)) (map ew_levId evs)) = (map ew_status evs, M')"
    by (rule counted_env.writeEvents_batch [OF assms(2) ok(1-3) good room])
  have "db_fit P tree_items cache (under_way s - length ready) db'"
    using w(3-6) ok(4) le by (auto simp: db_fit_def)
  then show thesis using that w(1,2,4,5,7,8) ok(2,3) by blast
qed

lemma writer_commits:
  assumes "pipe_inv P tree_items flushed tr s" "counted_env (pp_lib P) (pp_env P) key_le tree_items" "wp_writerThread s = W_commit ready"
  shows "\<exists>s' obs. commit_batch P ready s = Inr (s', obs) \<and> pipe_inv P tree_items flushed (tr @ obs) s'"
proof (cases "ready = []")
  case True
  have "db_fit P tree_items (wp_neFilterCache s) (under_way s) (wp_db s)" using assms(1) by (simp add: pipe_inv_def)
  moreover have "s\<lparr>wp_db := wp_db s, wp_neFilterCache := wp_neFilterCache s, wp_totalWritten := wp_totalWritten s + count_written [],
    wp_totalDups := wp_totalDups s + count_dups []\<rparr> = s" by simp
  ultimately show ?thesis using writer_ends [OF assms(1,3), of "[]" "[]" "wp_neFilterCache s" "wp_db s"] True by (simp add: commit_batch_def)
next
  case False
  obtain evs db' cache where w: "writeEvents (pp_env P) (pp_lib P) (wp_neFilterCache s) ready (wp_db s) = Inr (evs, db', cache)"
    "mset (map record_of evs) = mset (map record_of ready)" "db_fit P tree_items cache (under_way s - length ready) db'"
    by (rule batch_is_written [OF assms])
  have "evs \<noteq> []" using w(2) False by (metis list.map_disc_iff mset_zero_iff)
  then show ?thesis using writer_ends [OF assms(1,3) w(2) refl w(3) refl] False by (simp add: commit_batch_def w(1))
qed

lemma writer_keeps:
  assumes "pipe_inv P tree_items flushed tr s" "counted_env (pp_lib P) (pp_env P) key_le tree_items" "writer_step P s = Some r"
  shows "\<exists>s' obs. r = Inr (s', obs) \<and> pipe_inv P tree_items flushed (tr @ obs) s'"
proof (cases "wp_writerThread s")
  case W_pop
  then obtain s' obs where r: "r = Inr (s', obs)" using assms(3) by (auto simp: writer_step_def split: if_splits)
  then show ?thesis using writer_waking [OF assms(1) assms(3) [unfolded r]] W_pop same_view_inv [OF _ assms(1)] by auto
next
  case (W_collect txn evs ready)
  show ?thesis
  proof (cases evs)
    case Nil
    then obtain s' obs where r: "r = Inr (s', obs)" using assms(3) W_collect by (auto simp: writer_step_def)
    then show ?thesis using writer_waking [OF assms(1) assms(3) [unfolded r]] W_collect Nil same_view_inv [OF _ assms(1)] by auto
  next
    case (Cons ev evs')
    note thr = W_collect [unfolded Cons]
    consider "length ready \<ge> unat (pp_writeBatchSize P)" | "length ready < unat (pp_writeBatchSize P)" "ew_packedStr ev = []"
      | "length ready < unat (pp_writeBatchSize P)" "ew_packedStr ev \<noteq> []" by (metis not_le)
    then show ?thesis
    proof cases
      case 1
      then obtain s' obs where r: "r = Inr (s', obs)" using assms(3) thr by (auto simp: writer_step_def collect_event_def)
      then show ?thesis using writer_waking [OF assms(1) assms(3) [unfolded r]] thr 1 same_view_inv [OF _ assms(1)] by auto
    next
      case 2
      then obtain s' obs where r: "r = Inr (s', obs)" using assms(3) thr by (auto simp: writer_step_def collect_event_def)
      then show ?thesis using writer_finds_end [OF assms(1) thr 2(2,1) assms(3) [unfolded r]] by blast
    next
      case 3
      then show ?thesis using writer_takes [OF assms(1,2) thr 3(2,1) assms(3)] by blast
    qed
  qed
next
  case (W_commit ready)
  then show ?thesis using writer_commits [OF assms(1,2) W_commit] assms(3) by (simp add: writer_step_def)
next
  case W_returned
  then show ?thesis using assms(3) by (simp add: writer_step_def)
qed

lemma client_json_keeps:
  assumes "pipe_inv P tree_items False tr s" "good_json P j" "lev_max (pp_env P) (wp_db s) + Suc (under_way s) < 2 ^ 64"
  shows "pipe_inv P tree_items False (tr @ [Ob_json j]) (write_json j s)"
proof -
  let ?s = "write_json j s"
  have null: "j \<noteq> JNull" using assms(2) by (rule good_json_not_null)
  have step: "json_queue ?s = json_queue s @ [j]" "live_json ?s = live_json s @ [j]" "event_queue ?s = event_queue s" "live_events ?s = live_events s"
    "collected ?s = collected s" "under_way ?s = Suc (under_way s)"
    using null by (simp_all add: under_way_def queue_defs write_json_def)
  have sel: "wp_numLive ?s = wp_numLive s + 1" "wp_totalRejected ?s = wp_totalRejected s" "wp_totalProcessed ?s = wp_totalProcessed s + 1"
    "wp_totalWritten ?s = wp_totalWritten s" "wp_totalDups ?s = wp_totalDups s" "wp_db ?s = wp_db s" "wp_neFilterCache ?s = wp_neFilterCache s"
    "wp_validatorThread ?s = wp_validatorThread s" "wp_writerThread ?s = wp_writerThread s" "wp_shutdownComplete ?s = wp_shutdownComplete s" "wp_flushInbox ?s = wp_flushInbox s"
    using null by (simp_all add: write_json_def)
  have "marks_ok False ?s" using assms(1) null unfolding pipe_inv_def marks_ok_def sel step
    by (auto simp: sorted_wrt_append split: if_splits)
  moreover have "db_fit P tree_items (wp_neFilterCache ?s) (under_way ?s) (wp_db ?s)" using assms(1,3) by (simp add: pipe_inv_def db_fit_def sel step)
  moreover have "contents_ok P ?s" "verdicts_ok P (tr @ [Ob_json j])" "balanced (tr @ [Ob_json j]) ?s"
    using assms(1,2) by (auto simp: pipe_inv_def contents_ok_def verdicts_ok_def balanced_def step)
  moreover have "counters_ok (tr @ [Ob_json j]) ?s" using assms(1) unfolding pipe_inv_def counters_ok_def sel step by simp
  ultimately show ?thesis by (simp add: pipe_inv_def)
qed

lemma client_event_keeps:
  assumes "pipe_inv P tree_items False tr s" "good_event (pp_lib P) ev" "lev_max (pp_env P) (wp_db s) + Suc (under_way s) < 2 ^ 64"
    and "counted_env (pp_lib P) (pp_env P) key_le tree_items"
  shows "pipe_inv P tree_items False (tr @ [Ob_event ev]) (write_event ev s)"
proof -
  let ?s = "write_event ev s"
  have full: "ew_packedStr ev \<noteq> []" by (rule counted_env.good_event_packed(1) [OF assms(4,2)])
  have step: "json_queue ?s = json_queue s" "live_json ?s = live_json s" "event_queue ?s = event_queue s @ [ev]" "live_events ?s = live_events s @ [ev]"
    "collected ?s = collected s" "under_way ?s = Suc (under_way s)"
    using full by (simp_all add: under_way_def queue_defs write_event_def)
  have sel: "wp_numLive ?s = wp_numLive s + 1" "wp_totalRejected ?s = wp_totalRejected s" "wp_totalProcessed ?s = wp_totalProcessed s + 1"
    "wp_totalWritten ?s = wp_totalWritten s" "wp_totalDups ?s = wp_totalDups s" "wp_db ?s = wp_db s" "wp_neFilterCache ?s = wp_neFilterCache s"
    "wp_validatorThread ?s = wp_validatorThread s" "wp_writerThread ?s = wp_writerThread s" "wp_shutdownComplete ?s = wp_shutdownComplete s" "wp_flushInbox ?s = wp_flushInbox s"
    by (simp_all add: write_event_def)
  have "marks_ok False ?s" using assms(1) unfolding pipe_inv_def marks_ok_def sel step by auto
  moreover have "db_fit P tree_items (wp_neFilterCache ?s) (under_way ?s) (wp_db ?s)" using assms(1,3) by (simp add: pipe_inv_def db_fit_def sel step)
  moreover have "contents_ok P ?s" "verdicts_ok P (tr @ [Ob_event ev])" "balanced (tr @ [Ob_event ev]) ?s"
    using assms(1,2) by (auto simp: pipe_inv_def contents_ok_def verdicts_ok_def balanced_def step)
  moreover have "counters_ok (tr @ [Ob_event ev]) ?s" using assms(1) unfolding pipe_inv_def counters_ok_def sel step by simp
  ultimately show ?thesis by (simp add: pipe_inv_def)
qed

lemma client_flush_keeps:
  assumes "pipe_inv P tree_items flushed tr s"
  shows "pipe_inv P tree_items True tr (flush_request s)"
proof -
  let ?s = "flush_request s"
  have step: "json_queue ?s = json_queue s @ [JNull]" "live_json ?s = live_json s" "event_queue ?s = event_queue s" "live_events ?s = live_events s"
    "collected ?s = collected s" "under_way ?s = under_way s"
    by (simp_all add: under_way_def queue_defs flush_request_def)
  have sel: "wp_numLive ?s = wp_numLive s" "wp_totalRejected ?s = wp_totalRejected s" "wp_totalProcessed ?s = wp_totalProcessed s"
    "wp_totalWritten ?s = wp_totalWritten s" "wp_totalDups ?s = wp_totalDups s" "wp_db ?s = wp_db s" "wp_neFilterCache ?s = wp_neFilterCache s"
    "wp_validatorThread ?s = wp_validatorThread s" "wp_writerThread ?s = wp_writerThread s" "wp_shutdownComplete ?s = wp_shutdownComplete s" "wp_flushInbox ?s = wp_flushInbox s"
    by (simp_all add: flush_request_def)
  have "marks_ok True ?s" using assms unfolding pipe_inv_def marks_ok_def sel step by (auto simp: sorted_wrt_append)
  then show ?thesis using assms unfolding pipe_inv_def contents_ok_def verdicts_ok_def balanced_def counters_ok_def sel step by blast
qed

lemma start_inv: "db_fit P tree_items \<lparr>fc_filters = [], fc_modificationCounter = 0\<rparr> 0 db \<Longrightarrow> pipe_inv P tree_items False [] (WriterPipeline db)"
  by (simp add: pipe_inv_def marks_ok_def contents_ok_def verdicts_ok_def balanced_def counters_ok_def queue_defs under_way_def WriterPipeline_def)

lemma others_keep:
  assumes "pipe_inv P tree_items flushed tr s" "db_fit P tree_items (wp_neFilterCache s) (under_way s) db'"
  shows "pipe_inv P tree_items flushed tr (s\<lparr>wp_db := db'\<rparr>)"
proof -
  let ?s = "s\<lparr>wp_db := db'\<rparr>"
  have step: "json_queue ?s = json_queue s" "live_json ?s = live_json s" "event_queue ?s = event_queue s" "live_events ?s = live_events s"
    "collected ?s = collected s" "under_way ?s = under_way s"
    by (simp_all add: under_way_def queue_defs)
  have sel: "wp_numLive ?s = wp_numLive s" "wp_totalRejected ?s = wp_totalRejected s" "wp_totalProcessed ?s = wp_totalProcessed s"
    "wp_totalWritten ?s = wp_totalWritten s" "wp_totalDups ?s = wp_totalDups s" "wp_db ?s = db'" "wp_neFilterCache ?s = wp_neFilterCache s"
    "wp_validatorThread ?s = wp_validatorThread s" "wp_writerThread ?s = wp_writerThread s" "wp_shutdownComplete ?s = wp_shutdownComplete s" "wp_flushInbox ?s = wp_flushInbox s"
    by simp_all
  show ?thesis using assms unfolding pipe_inv_def marks_ok_def contents_ok_def verdicts_ok_def balanced_def counters_ok_def step sel by blast
qed

text \<open>
  What the writer's own reading transactions saw: every event that it left out as present was
  stored in a database of the run, every event that it collected was not, and every batch was
  written by the rule of the store.
\<close>

definition found_ok :: "'db pipe_params \<Rightarrow> ('db \<Rightarrow> u64 \<Rightarrow> (u64 \<times> string) set) \<Rightarrow> 'db list \<Rightarrow> 'db pipe_obs list \<Rightarrow> bool" where
  "found_ok P tree_items hist tr \<longleftrightarrow>
     (\<forall>(txn, ev)\<in>set (found tr). txn \<in> set hist \<and> stored_in (pp_env P) txn ev) \<and>
     (\<forall>ev\<in>set (committed tr). \<exists>txn\<in>set hist. \<not> stored_in (pp_env P) txn ev) \<and>
     (\<forall>evs\<in>set (batches tr). batch_written P tree_items hist evs)"

definition hist_ok :: "'db pipe_params \<Rightarrow> ('db \<Rightarrow> u64 \<Rightarrow> (u64 \<times> string) set) \<Rightarrow> 'db list \<Rightarrow> 'db pipeline \<Rightarrow> bool" where
  "hist_ok P tree_items hist s \<longleftrightarrow> (\<exists>before. hist = before @ [wp_db s]) \<and>
     (\<forall>db\<in>set hist. \<exists>fs M. holds (pp_env P) (pp_lib P) tree_items fs db M) \<and>
     (\<forall>txn evs ready. wp_writerThread s = W_collect txn evs ready \<longrightarrow> txn \<in> set hist) \<and>
     (\<forall>ev\<in>set (collected s). \<exists>txn\<in>set hist. \<not> stored_in (pp_env P) txn ev)"

lemma stored_in_record: "record_of ev = record_of ev' \<Longrightarrow> stored_in E db ev \<longleftrightarrow> stored_in E db ev'"
  by (simp add: record_of_def stored_in_def)

lemma batch_written_append: "batch_written P tree_items hist evs \<Longrightarrow> batch_written P tree_items (hist @ more_dbs) evs"
  unfolding batch_written_def by (metis append.assoc append_Cons)

lemma found_ok_append: "found_ok P tree_items hist tr \<Longrightarrow> found_ok P tree_items (hist @ more_dbs) tr"
  unfolding found_ok_def using batch_written_append by fastforce

lemma found_ok_nothing: "found_ok P tree_items hist tr \<Longrightarrow> found obs = [] \<Longrightarrow> batches obs = [] \<Longrightarrow> found_ok P tree_items hist (tr @ obs)"
  by (simp add: found_ok_def committed_def)

context counted_env
begin

lemma lookup_stored_in:
  assumes "holds E L tree_items fs db M" "good_event L ev"
  shows "lookupEventById E db (packed_id (ew_packedStr ev)) \<noteq> None \<longleftrightarrow> stored_in E db ev"
proof -
  obtain x where x: "ev = to_write L x" "wf_event (fst x)" using assms(2) by (auto simp: good_event_def)
  have id: "packed_id (ew_packedStr ev) = ev_id (fst x)" using x by simp
  have "length (ev_id (fst x)) = 32" using x(2) by (simp add: wf_event_def)
  note look = lookupEventById_correct(1) [OF assms(1) this]
  have db: "lookup_Event E db l = map_option (pack_event L) (M l)" "M l = Some e \<Longrightarrow> packed_id (pack_event L e) = ev_id e" for l e
    using assms(1) by (simp_all add: holds_def)
  have "stored_in E db ev \<longleftrightarrow> has_id M (ev_id (fst x))"
    unfolding stored_in_def has_id_def id db(1) using db(2) by fastforce
  then show ?thesis using look by (simp add: id)
qed

end

lemma db_fit_holds: "db_fit P tree_items cache n db \<Longrightarrow> \<exists>fs M. holds (pp_env P) (pp_lib P) tree_items fs db M"
  by (auto simp: db_fit_def)

lemma hist_ok_moves:
  assumes "hist_ok P tree_items hist s" "db_fit P tree_items cache n (wp_db s')"
    and "\<forall>txn evs ready. wp_writerThread s' = W_collect txn evs ready \<longrightarrow> txn \<in> set (hist @ [wp_db s'])"
    and "\<forall>ev\<in>set (collected s'). ev \<in> set (collected s) \<or> (\<exists>txn\<in>set hist. \<not> stored_in (pp_env P) txn ev)"
  shows "hist_ok P tree_items (hist @ [wp_db s']) s'"
  using assms(1,3,4) db_fit_holds [OF assms(2)] unfolding hist_ok_def by auto

lemma validator_leaves:
  assumes "validator_step P now s = Some (Inr (s', obs))"
  shows "found obs = [] \<and> batches obs = [] \<and> wp_writerThread s' = wp_writerThread s"
  using assms by (auto simp: validator_step_def Let_def split: validator_thread.splits list.splits if_splits sum.splits)

lemma writer_found:
  assumes "pipe_inv P tree_items flushed tr s" "counted_env (pp_lib P) (pp_env P) key_le tree_items" "hist_ok P tree_items hist s" "found_ok P tree_items hist tr"
    and "wp_writerThread s = W_collect txn (ev # evs) ready" "ew_packedStr ev \<noteq> []" "length ready < unat (pp_writeBatchSize P)"
    and "writer_step P s = Some (Inr (s', obs))"
  shows "found_ok P tree_items hist (tr @ obs) \<and> (\<exists>ready'. wp_writerThread s' = W_collect txn evs ready' \<and>
    (\<forall>e\<in>set ready'. e \<in> set ready \<or> (\<exists>txn\<in>set hist. \<not> stored_in (pp_env P) txn e)))"
proof -
  have "good_event (pp_lib P) ev" using assms(1,5,6) by (simp add: pipe_inv_def contents_ok_def live_events_def event_queue_def)
  moreover obtain fs M where "holds (pp_env P) (pp_lib P) tree_items fs txn M" "txn \<in> set hist" using assms(3,5) unfolding hist_ok_def by blast
  ultimately have look: "lookupEventById (pp_env P) txn (packed_id (ew_packedStr ev)) \<noteq> None \<longleftrightarrow> stored_in (pp_env P) txn ev"
    "PackedEventView (ew_packedStr ev) = Inr (ew_packedStr ev)" "txn \<in> set hist"
    using counted_env.lookup_stored_in [OF assms(2)] counted_env.good_event_packed(2) [OF assms(2)] by blast+
  have step: "collect_event P txn ev evs ready s = Inr (s', obs)" using assms(5,8) by (simp add: writer_step_def)
  show ?thesis
  proof (cases "stored_in (pp_env P) txn ev")
    case True
    then have "obs = [Ob_present txn ev]" "wp_writerThread s' = W_collect txn evs ready"
      using step assms(6,7) look(1,2) by (auto simp: collect_event_def Let_def)
    then show ?thesis using assms(4) look(3) True by (simp add: found_ok_def)
  next
    case False
    then have "obs = []" "wp_writerThread s' = W_collect txn evs (ready @ [ev])"
      using step assms(6,7) look(1,2) by (auto simp: collect_event_def Let_def)
    then show ?thesis using assms(4) look(3) False by auto
  qed
qed

lemma commit_found:
  assumes "pipe_inv P tree_items flushed tr s" "counted_env (pp_lib P) (pp_env P) key_le tree_items" "hist_ok P tree_items hist s" "found_ok P tree_items hist tr"
    and "wp_writerThread s = W_commit ready" "writer_step P s = Some (Inr (s', obs))"
  shows "found_ok P tree_items (hist @ [wp_db s']) (tr @ obs) \<and> (\<forall>txn evs ready. wp_writerThread s' \<noteq> W_collect txn evs ready) \<and> collected s' = []"
proof (cases "ready = []")
  case True
  then have "obs = []" "s' = writer_done s" using assms(5,6) by (simp_all add: writer_step_def commit_batch_def)
  then show ?thesis using found_ok_append [OF assms(4)] by (simp add: writer_done_def collected_def)
next
  case False
  obtain evs db' cache fs M M' xs where w: "writeEvents (pp_env P) (pp_lib P) (wp_neFilterCache s) ready (wp_db s) = Inr (evs, db', cache)"
    "mset (map record_of evs) = mset (map record_of ready)" "db_fit P tree_items cache (under_way s - length ready) db'"
    "holds (pp_env P) (pp_lib P) tree_items fs (wp_db s) M" "consistent M" "holds (pp_env P) (pp_lib P) tree_items fs db' M'" "consistent M'"
    "map record_of evs = map (\<lambda>x. record_of (to_write (pp_lib P) x)) (batch_order xs)"
    "spec_run M None (zip (map fst (batch_order xs)) (map ew_levId evs)) = (map ew_status evs, M')"
    by (rule batch_is_written [OF assms(1,2,5)])
  have step: "obs = [Ob_committed evs]" "wp_db s' = db'" "\<forall>txn evs ready. wp_writerThread s' \<noteq> W_collect txn evs ready" "collected s' = []"
    using assms(5,6) w(1) False by (auto simp: writer_step_def commit_batch_def writer_done_def collected_def split: if_splits)
  obtain before where "hist = before @ [wp_db s]" using assms(3) unfolding hist_ok_def by blast
  then have "hist @ [db'] = before @ wp_db s # db' # []" by simp
  with w(4-9) have batch: "batch_written P tree_items (hist @ [db']) evs" unfolding batch_written_def by blast
  have "\<exists>txn\<in>set hist. \<not> stored_in (pp_env P) txn ev" if "ev \<in> set evs" for ev
  proof -
    have "record_of ev \<in> set (map record_of ready)" using that arg_cong [OF w(2), of set_mset] by auto
    then obtain ev' where ev': "ev' \<in> set (collected s)" "record_of ev = record_of ev'" by (auto simp: collected_def assms(5))
    then show ?thesis using assms(3) unfolding hist_ok_def stored_in_record [OF ev'(2)] by blast
  qed
  then show ?thesis using found_ok_append [OF assms(4), of "[db']"] batch unfolding step(1,2) found_ok_def
    by (simp add: step(3,4)) blast
qed

lemma writer_history:
  assumes "pipe_inv P tree_items flushed tr s" "counted_env (pp_lib P) (pp_env P) key_le tree_items" "hist_ok P tree_items hist s" "found_ok P tree_items hist tr"
    and "writer_step P s = Some (Inr (s', obs))"
  shows "hist_ok P tree_items (hist @ [wp_db s']) s' \<and> found_ok P tree_items (hist @ [wp_db s']) (tr @ obs)"
proof -
  have fit: "db_fit P tree_items (wp_neFilterCache s') (under_way s') (wp_db s')"
    using writer_keeps [OF assms(1,2,5)] by (simp add: pipe_inv_def)
  have cur: "wp_db s \<in> set hist" "wp_writerThread s = W_collect txn evs ready \<Longrightarrow> txn \<in> set hist" for txn evs ready
    using assms(3) unfolding hist_ok_def by auto
  have "found_ok P tree_items (hist @ [wp_db s']) (tr @ obs) \<and>
    (\<forall>txn evs ready. wp_writerThread s' = W_collect txn evs ready \<longrightarrow> txn \<in> set hist) \<and>
    (\<forall>ev\<in>set (collected s'). ev \<in> set (collected s) \<or> (\<exists>txn\<in>set hist. \<not> stored_in (pp_env P) txn ev))"
  proof (cases "\<exists>txn ev evs ready. wp_writerThread s = W_collect txn (ev # evs) ready \<and> ew_packedStr ev \<noteq> [] \<and> length ready < unat (pp_writeBatchSize P)")
    case True
    then obtain txn ev evs ready where thr: "wp_writerThread s = W_collect txn (ev # evs) ready" "ew_packedStr ev \<noteq> []" "length ready < unat (pp_writeBatchSize P)" by blast
    from writer_found [OF assms(1-4) thr assms(5)] show ?thesis using found_ok_append cur(2) [OF thr(1)] thr(1) by (auto simp: collected_def)
  next
    case False
    show ?thesis
    proof (cases "\<exists>ready. wp_writerThread s = W_commit ready")
      case True
      then show ?thesis using commit_found [OF assms(1-4) _ assms(5)] by auto
    next
      case noC: False
      have "obs = [] \<and> collected s' = collected s \<and> (\<forall>txn evs ready. wp_writerThread s' = W_collect txn evs ready \<longrightarrow> txn \<in> set hist)"
        using assms(5) cur(1) False noC
        by (auto simp: writer_step_def collect_event_def collected_def split: writer_thread.splits list.splits if_splits)
      then show ?thesis using found_ok_append [OF assms(4)] by simp
    qed
  qed
  then show ?thesis using hist_ok_moves [OF assms(3) fit] by auto
qed

lemma pipe_reach_inv:
  assumes "pipe_reach P tree_items flushed hist tr s" "hex_halves (pp_lib P)" "counted_env (pp_lib P) (pp_env P) key_le tree_items"
  shows "pipe_inv P tree_items flushed tr s"
  using assms(1)
proof induction
  case (start db)
  then show ?case by (rule start_inv)
next
  case (client_json hist tr s j)
  then show ?case using client_json_keeps by blast
next
  case (client_event hist tr s ev)
  then show ?case using client_event_keeps [OF _ _ _ assms(3)] by blast
next
  case (client_flush flushed hist tr s)
  then show ?case using client_flush_keeps by blast
next
  case (validator flushed hist tr s now s' obs)
  then show ?case using validator_keeps [OF _ assms(2,3)] by blast
next
  case (writer flushed hist tr s s' obs)
  then show ?case using writer_keeps [OF _ assms(3)] by blast
next
  case (others flushed hist tr s db')
  then show ?case by (intro others_keep)
qed

lemma pipe_reach_found:
  assumes "pipe_reach P tree_items flushed hist tr s" "hex_halves (pp_lib P)" "counted_env (pp_lib P) (pp_env P) key_le tree_items"
  shows "hist_ok P tree_items hist s \<and> found_ok P tree_items hist tr"
  using assms(1)
proof induction
  case (start db)
  then show ?case using db_fit_holds [OF start] by (simp add: hist_ok_def found_ok_def WriterPipeline_def collected_def)
next
  case (client_json hist tr s j)
  then show ?case by (auto simp: hist_ok_def found_ok_def write_json_def collected_def)
next
  case (client_event hist tr s ev)
  then show ?case by (auto simp: hist_ok_def found_ok_def write_event_def collected_def)
next
  case (client_flush flushed hist tr s)
  then show ?case by (auto simp: hist_ok_def found_ok_def flush_request_def collected_def)
next
  case (validator flushed hist tr s now s' obs)
  note left = validator_leaves [OF validator.hyps(2)]
  have "db_fit P tree_items (wp_neFilterCache s') (under_way s') (wp_db s')"
    using pipe_reach_inv [OF pipe_reach.validator [OF validator.hyps] assms(2,3)] by (simp add: pipe_inv_def)
  moreover have "\<forall>txn evs ready. wp_writerThread s' = W_collect txn evs ready \<longrightarrow> txn \<in> set (hist @ [wp_db s'])" "collected s' = collected s"
    using validator.IH left by (auto simp: hist_ok_def collected_def)
  ultimately have "hist_ok P tree_items (hist @ [wp_db s']) s'" using validator.IH by (intro hist_ok_moves) auto
  moreover have "found_ok P tree_items (hist @ [wp_db s']) (tr @ obs)"
    using validator.IH left by (intro found_ok_nothing found_ok_append) simp_all
  ultimately show ?case by blast
next
  case (writer flushed hist tr s s' obs)
  then show ?case using writer_history [OF pipe_reach_inv [OF writer.hyps(1) assms(2,3)] assms(3)] by blast
next
  case (others flushed hist tr s db')
  then have "hist_ok P tree_items hist s" "found_ok P tree_items hist tr" by simp_all
  moreover from this(1) have "hist_ok P tree_items (hist @ [wp_db (s\<lparr>wp_db := db'\<rparr>)]) (s\<lparr>wp_db := db'\<rparr>)"
    using others.hyps(2) by (intro hist_ok_moves) (auto simp: hist_ok_def collected_def)
  ultimately show ?case using found_ok_append by simp
qed

section \<open>The threads come to an end\<close>

definition validator_phase :: "'db pipeline \<Rightarrow> nat" where
  "validator_phase s = (case wp_validatorThread s of V_msgs [] \<Rightarrow> 2 | V_pop \<Rightarrow> 1 | _ \<Rightarrow> 0)"

definition writer_phase :: "'db pipe_params \<Rightarrow> 'db pipeline \<Rightarrow> nat" where
  "writer_phase P s = (case wp_writerThread s of
       W_collect txn evs ready \<Rightarrow> if evs = [] \<or> length ready \<ge> unat (pp_writeBatchSize P) then 3 else 0
     | W_commit ready \<Rightarrow> 2 | W_pop \<Rightarrow> 1 | W_returned \<Rightarrow> 0)"

text \<open>
  A bound on the steps that are left: a message takes at most two moves through the queues,
  and between two of them a thread goes round at most once.
\<close>

definition steps_left :: "'db pipe_params \<Rightarrow> 'db pipeline \<Rightarrow> nat" where
  "steps_left P s = 6 * (2 * length (json_queue s) + length (event_queue s)) + validator_phase s + writer_phase P s"

lemma validator_advances:
  assumes "validator_step P now s = Some (Inr (s', obs))"
  shows "steps_left P s' < steps_left P s"
proof -
  have phase: "validator_phase s' \<le> 2" by (simp add: validator_phase_def split: validator_thread.split list.split)
  show ?thesis
  proof (cases "\<exists>m ms. wp_validatorThread s = V_msgs (m # ms)")
    case True
    then obtain m ms where thr: "wp_validatorThread s = V_msgs (m # ms)" by blast
    then have "json_queue s = m # ms @ wp_validatorInbox s" "validator_phase s = 0" by (simp_all add: json_queue_def validator_phase_def)
    moreover have "length (json_queue s') \<le> length (ms @ wp_validatorInbox s)" "length (event_queue s') \<le> Suc (length (event_queue s))"
      "writer_phase P s' = writer_phase P s"
      using assms thr by (auto simp: validator_step_def json_queue_def event_queue_def writer_phase_def Let_def split: if_splits sum.splits)
    ultimately show ?thesis using phase by (simp add: steps_left_def)
  next
    case False
    then show ?thesis using assms
      by (auto simp: validator_step_def steps_left_def validator_phase_def writer_phase_def json_queue_def event_queue_def
          neq_Nil_conv split: validator_thread.splits list.splits if_splits)
  qed
qed

lemma writer_advances:
  assumes "writer_step P s = Some (Inr (s', obs))" "0 < pp_writeBatchSize P"
  shows "steps_left P s' < steps_left P s"
proof -
  have bs: "0 < unat (pp_writeBatchSize P)" using assms(2) by (simp add: unat_gt_0)
  have phase: "writer_phase P s' \<le> 3" by (simp add: writer_phase_def split: writer_thread.split)
  show ?thesis
  proof (cases "\<exists>txn ev evs ready. wp_writerThread s = W_collect txn (ev # evs) ready \<and> length ready < unat (pp_writeBatchSize P)")
    case True
    then obtain txn ev evs ready where thr: "wp_writerThread s = W_collect txn (ev # evs) ready" "length ready < unat (pp_writeBatchSize P)" by blast
    then have "length (event_queue s') < length (event_queue s)" "json_queue s' = json_queue s" "validator_phase s' = validator_phase s"
      using assms(1) by (auto simp: writer_step_def collect_event_def event_queue_def json_queue_def validator_phase_def bindE_eq_Inr Let_def split: if_splits)
    then show ?thesis using phase thr by (simp add: steps_left_def)
  next
    case False
    then show ?thesis
    proof (cases "wp_writerThread s")
      case (W_commit ready)
      then obtain t where "s' = writer_done t" "wp_validatorThread t = wp_validatorThread s" "wp_validatorInbox t = wp_validatorInbox s" "wp_writerInbox t = wp_writerInbox s"
        using assms(1) by (auto simp: writer_step_def commit_batch_def bindE_eq_Inr split: if_splits)
      then show ?thesis by (simp add: steps_left_def validator_phase_def writer_phase_def json_queue_def event_queue_def writer_done_def W_commit)
    next
      case (W_collect txn evs ready)
      then show ?thesis using False assms(1)
        by (cases evs) (auto simp: writer_step_def collect_event_def steps_left_def validator_phase_def writer_phase_def json_queue_def event_queue_def)
    qed (use assms(1) bs in \<open>auto simp: writer_step_def steps_left_def validator_phase_def writer_phase_def json_queue_def event_queue_def split: if_splits\<close>)
  qed
qed

text \<open>\<open>n\<close> steps of the threads, in any order, while other processes work on the database.\<close>

inductive pipe_moves ::
    "'db pipe_params \<Rightarrow> ('db \<Rightarrow> u64 \<Rightarrow> (u64 \<times> string) set) \<Rightarrow> nat \<Rightarrow> 'db pipeline \<Rightarrow> 'db pipeline \<Rightarrow> bool"
  for P and tree_items where
  no_move: "pipe_moves P tree_items 0 s s"
| validator_move: "pipe_moves P tree_items n s s1 \<Longrightarrow> validator_step P now s1 = Some (Inr (s2, obs)) \<Longrightarrow> pipe_moves P tree_items (Suc n) s s2"
| writer_move: "pipe_moves P tree_items n s s1 \<Longrightarrow> writer_step P s1 = Some (Inr (s2, obs)) \<Longrightarrow> pipe_moves P tree_items (Suc n) s s2"
| other_move: "pipe_moves P tree_items n s s1 \<Longrightarrow> db_fit P tree_items (wp_neFilterCache s1) (under_way s1) db' \<Longrightarrow>
    pipe_moves P tree_items n s (s1\<lparr>wp_db := db'\<rparr>)"

lemma steps_left_db [simp]: "steps_left P (s\<lparr>wp_db := db'\<rparr>) = steps_left P s"
  by (simp add: steps_left_def validator_phase_def writer_phase_def json_queue_def event_queue_def)

lemma pipe_moves_reach:
  assumes "pipe_moves P tree_items n s s'" "pipe_reach P tree_items flushed hist tr s" "0 < pp_writeBatchSize P"
  shows "n + steps_left P s' \<le> steps_left P s \<and> (\<exists>hist' tr'. pipe_reach P tree_items flushed hist' tr' s')"
  using assms(1,2)
proof induction
  case (validator_move n s s1 now s2 obs)
  then show ?case using validator_advances [OF validator_move.hyps(2)] pipe_reach.validator by fastforce
next
  case (writer_move n s s1 s2 obs)
  then show ?case using writer_advances [OF writer_move.hyps(2) assms(3)] pipe_reach.writer by fastforce
next
  case (other_move n s s1 db')
  then obtain hist' tr' where "n + steps_left P s1 \<le> steps_left P s" "pipe_reach P tree_items flushed hist' tr' s1" by blast
  then show ?case using pipe_reach.others [OF _ other_move.hyps(2)] by (metis steps_left_db)
qed auto

lemma not_stuck:
  assumes "pipe_inv P tree_items True tr s" "wp_flushInbox s = []"
  shows "validator_step P now s \<noteq> None \<or> writer_step P s \<noteq> None"
proof (cases "wp_validatorThread s = V_returned")
  case True
  show ?thesis
  proof (cases "wp_writerThread s")
    case W_pop
    then have "\<not> wp_shutdownComplete s" using assms by (auto simp: pipe_inv_def marks_ok_def)
    then have "event_queue s \<noteq> []" using assms(1) True by (simp add: pipe_inv_def marks_ok_def)
    then show ?thesis using W_pop by (simp add: writer_step_def event_queue_def)
  next
    case (W_collect txn evs ready)
    then show ?thesis by (cases evs) (simp_all add: writer_step_def)
  next
    case (W_commit ready)
    then show ?thesis by (simp add: writer_step_def)
  next
    case W_returned
    then show ?thesis using assms by (simp add: pipe_inv_def marks_ok_def)
  qed
next
  case False
  then have "JNull \<in> set (json_queue s)" using assms(1) by (simp add: pipe_inv_def marks_ok_def)
  then show ?thesis using False
    by (auto simp: validator_step_def json_queue_def Let_def split: validator_thread.splits list.splits sum.splits)
qed

interpretation mem_counted: counted_env le_lib mem_env mem_key_le mem_tree_items
  by unfold_locales (auto simp: mem_env_def mem_insert_def Let_def)

section \<open>Properties\<close>

text \<open>
  C6. When \<^verbatim>\<open>flush\<close> has returned, on whatever schedule of the threads and with whatever other
  processes did to the database, every JSON value that was written was either refused by
  \<^verbatim>\<open>parseAndVerifyEvent\<close> or accepted, once; every accepted event and every event handed over
  directly was either left out as present or was in exactly one batch that was written.  An event
  was left out only if an event of its id was stored in a database of the run, namely that of the
  writer's reading transaction; an event went into a batch only if none was; and every batch was
  written in one transaction by the rule of the store.  Nothing is on the way any more, and the
  counters add up.
\<close>

theorem pipeline_loses_nothing:
  assumes "counted_env (pp_lib P) (pp_env P) key_le tree_items" "hex_halves (pp_lib P)"
    and "pipe_reach P tree_items flushed hist tr s" "flush_returns s"
  shows "mset (json_in tr) = mset (rejected tr) + mset (map fst (accepted tr)) \<and>
    mset (map record_of (events_in tr @ map snd (accepted tr))) = mset (map record_of (map snd (found tr) @ concat (batches tr))) \<and>
    verdicts_ok P tr \<and>
    (\<forall>(txn, ev)\<in>set (found tr). txn \<in> set hist \<and> stored_in (pp_env P) txn ev) \<and>
    (\<forall>evs\<in>set (batches tr). batch_written P tree_items hist evs \<and> (\<forall>ev\<in>set evs. \<exists>txn\<in>set hist. \<not> stored_in (pp_env P) txn ev)) \<and>
    wp_numLive s = 0 \<and> wp_totalProcessed s = wp_totalWritten s + wp_totalRejected s + wp_totalDups s"
proof -
  have inv: "pipe_inv P tree_items flushed tr s" by (rule pipe_reach_inv [OF assms(3,2,1)])
  have "wp_writerThread s = W_returned" using inv assms(4) by (simp add: pipe_inv_def marks_ok_def flush_returns_def)
  moreover from this have "live_json s = []" "live_events s = []" using inv by (simp_all add: pipe_inv_def marks_ok_def)
  ultimately have empty: "live_json s = []" "live_events s = []" "collected s = []" by (simp_all add: collected_def)
  have bal: "mset (json_in tr) = mset (rejected tr) + mset (map fst (accepted tr))"
    "mset (map record_of (events_in tr @ map snd (accepted tr))) = mset (map record_of (present tr @ committed tr))"
    using inv unfolding pipe_inv_def balanced_def empty by simp_all
  have "length (json_in tr) = length (rejected tr) + length (accepted tr)"
    "length (events_in tr) + length (accepted tr) = length (present tr) + length (committed tr)"
    using arg_cong [OF bal(1), of size] arg_cong [OF bal(2), of size] by (simp_all del: mset_map mset_append)
  then have len: "length (json_in tr) + length (events_in tr) = length (rejected tr) + length (present tr) + length (committed tr)" by simp
  have "count_written evs + count_dups evs = of_nat (length evs)" for evs
    unfolding count_written_def count_dups_def of_nat_add [symmetric] by (simp add: sum_length_filter_compl)
  then have "wp_totalProcessed s = wp_totalWritten s + wp_totalRejected s + wp_totalDups s"
    using inv unfolding pipe_inv_def counters_ok_def len by (simp add: algebra_simps)
  moreover have "wp_numLive s = 0" using inv by (simp add: pipe_inv_def counters_ok_def empty)
  moreover have "found_ok P tree_items hist tr" using pipe_reach_found [OF assms(3,2,1)] by simp
  ultimately show ?thesis using bal inv unfolding found_ok_def pipe_inv_def present_def committed_def by simp
qed

text \<open>
  C7. After \<^verbatim>\<open>flush\<close> has been called it returns: no thread ever throws, the threads take at most
  \<open>steps_left\<close> more steps, on any schedule and while other processes work on the database, and
  as long as \<^verbatim>\<open>flush\<close> has not returned one of them can take a step.  The batch size must not be 0.
\<close>

theorem flush_gets_through:
  assumes "counted_env (pp_lib P) (pp_env P) key_le tree_items" "hex_halves (pp_lib P)" "0 < pp_writeBatchSize P"
    and "pipe_reach P tree_items True hist tr s" "pipe_moves P tree_items n s s'"
  shows "n \<le> steps_left P s \<and> (flush_returns s' \<or> validator_step P now s' \<noteq> None \<or> writer_step P s' \<noteq> None) \<and>
    validator_step P now s' \<noteq> Some (Inl e) \<and> writer_step P s' \<noteq> Some (Inl e)"
proof -
  obtain hist' tr' where reach: "n + steps_left P s' \<le> steps_left P s" "pipe_reach P tree_items True hist' tr' s'"
    using pipe_moves_reach [OF assms(5,4,3)] by blast
  have inv: "pipe_inv P tree_items True tr' s'" by (rule pipe_reach_inv [OF reach(2) assms(2,1)])
  have "writer_step P s' \<noteq> Some (Inl e)" using writer_keeps [OF inv assms(1)] by auto
  then show ?thesis using reach(1) not_stuck [OF inv] validator_never_throws [OF inv] by (auto simp: flush_returns_def)
qed

definition import_params :: "mem_db pipe_params" where
  "import_params = \<lparr>pp_env = mem_env, pp_lib = le_lib, pp_cfg = sample_cfg, pp_writeBatchSize = 1000, pp_verifyMsg = True, pp_verifyTime = False\<rparr>"

lemma import_params_sel [simp]:
  "pp_env import_params = mem_env" "pp_lib import_params = le_lib" "unat (pp_writeBatchSize import_params) = 1000" "pp_writeBatchSize import_params = 1000"
  by (simp_all add: import_params_def)

lemma import_facts:
  "counted_env (pp_lib import_params) (pp_env import_params) mem_key_le mem_tree_items" "hex_halves (pp_lib import_params)"
proof -
  show "counted_env (pp_lib import_params) (pp_env import_params) mem_key_le mem_tree_items" unfolding import_params_sel by (rule mem_counted.counted_env_axioms)
  show "hex_halves (pp_lib import_params)" using sample_relay_facts(5) by (simp add: hex_halves_def sample_params_def)
qed

definition one_write :: event_to_write where
  "one_write = to_write le_lib (ev_new, ''[]'', None)"

lemma one_write_good: "good_event le_lib one_write"
  using one_db_facts(5,6) unfolding good_event_def one_write_def by (metis fst_conv)

definition one_flush :: "mem_db pipeline" where
  "one_flush = flush_request (write_event one_write (WriterPipeline one_db))"

lemma one_flush_reach: "pipe_reach import_params mem_tree_items True [one_db] [Ob_event one_write] one_flush"
proof -
  have "db_fit import_params mem_tree_items no_filters 0 one_db" using one_db_facts by (auto simp: db_fit_def)
  then have "pipe_reach import_params mem_tree_items False [one_db] [] (WriterPipeline one_db)"
    unfolding no_filters_def by (rule pipe_reach.start)
  moreover note one_write_good
  moreover have "under_way (WriterPipeline one_db) = 0" by (simp add: under_way_def queue_defs WriterPipeline_def)
  ultimately have "pipe_reach import_params mem_tree_items False [one_db] ([] @ [Ob_event one_write]) (write_event one_write (WriterPipeline one_db))"
    using one_db_facts(7) by (intro pipe_reach.client_event) (simp_all add: WriterPipeline_def)
  then show ?thesis unfolding one_flush_def by (auto intro: pipe_reach.client_flush)
qed

text \<open>A run to the end: the validator finds the mark, the writer the event and the mark.\<close>

lemma one_flush_run:
  obtains hist tr s where "pipe_reach import_params mem_tree_items True hist tr s" "flush_returns s" "json_in tr = []" "events_in tr = [one_write]" "found tr = []"
proof -
  obtain ev db' where w: "writeEvents mem_env le_lib no_filters [one_write] one_db = Inr ([ev], db', no_filters)"
    by (rule one_db_write) (simp add: one_write_def)
  have len: "length (ev_id ev_new) = 32" by (simp add: ev_new_def)
  have "\<not> has_id [1 \<mapsto> ev_old] (ev_id ev_new)" by (simp add: has_id_def ev_old_def ev_new_def)
  then have look: "lookupEventById mem_env one_db (ev_id ev_new) = None" using mem.lookupEventById_correct(1) [OF one_db_facts(2) len] by simp
  have view: "PackedEventView (ew_packedStr one_write) = Inr (ew_packedStr one_write)" "packed_id (ew_packedStr one_write) = ev_id ev_new" "ew_packedStr one_write \<noteq> []"
    using mem_counted.good_event_packed [of one_write] one_write_good one_db_facts(5) by (simp_all add: one_write_def)
  let ?mark = "EventToWrite [] [] None"
  define s1 where "s1 = one_flush\<lparr>wp_validatorThread := V_msgs [JNull], wp_validatorInbox := []\<rparr>"
  define s2 where "s2 = s1\<lparr>wp_shutdownRequested := True, wp_writerInbox := [one_write, ?mark], wp_validatorThread := V_returned\<rparr>"
  define s3 where "s3 = s2\<lparr>wp_writerThread := W_collect one_db [one_write, ?mark] [], wp_writerInbox := []\<rparr>"
  define s4 where "s4 = s3\<lparr>wp_numLive := 0, wp_writerThread := W_collect one_db [?mark] [one_write]\<rparr>"
  define s5 where "s5 = s4\<lparr>wp_shutdownComplete := True, wp_writerThread := W_commit [one_write]\<rparr>"
  note at = one_flush_def write_event_def flush_request_def WriterPipeline_def s1_def s2_def s3_def s4_def s5_def
  have "validator_step import_params 0 one_flush = Some (Inr (s1, []))" by (simp add: validator_step_def at)
  from pipe_reach.validator [OF one_flush_reach this] have r1: "pipe_reach import_params mem_tree_items True [one_db, one_db] [Ob_event one_write] s1" by (simp add: at)
  have "validator_step import_params 0 s1 = Some (Inr (s2, []))" by (simp add: validator_step_def at)
  from pipe_reach.validator [OF r1 this] have r2: "pipe_reach import_params mem_tree_items True [one_db, one_db, one_db] [Ob_event one_write] s2" by (simp add: at)
  have "writer_step import_params s2 = Some (Inr (s3, []))" by (simp add: writer_step_def at)
  from pipe_reach.writer [OF r2 this] have r3: "pipe_reach import_params mem_tree_items True [one_db, one_db, one_db, one_db] [Ob_event one_write] s3" by (simp add: at)
  have "writer_step import_params s3 = Some (Inr (s4, []))" by (simp add: writer_step_def collect_event_def at look view Let_def)
  from pipe_reach.writer [OF r3 this] have r4: "pipe_reach import_params mem_tree_items True [one_db, one_db, one_db, one_db, one_db] [Ob_event one_write] s4" by (simp add: at)
  have "writer_step import_params s4 = Some (Inr (s5, []))" by (simp add: writer_step_def collect_event_def at EventToWrite_def)
  from pipe_reach.writer [OF r4 this] have r5: "pipe_reach import_params mem_tree_items True [one_db, one_db, one_db, one_db, one_db, one_db] [Ob_event one_write] s5" by (simp add: at)
  obtain s6 where "writer_step import_params s5 = Some (Inr (s6, [Ob_committed [ev]]))" "flush_returns s6"
    using w by (simp add: writer_step_def commit_batch_def at no_filters_def writer_done_def flush_returns_def)
  then show thesis using pipe_reach.writer [OF r5] by (intro that [of _ "[Ob_event one_write] @ [Ob_committed [ev]]" s6]) (simp_all add: seen_defs)
qed

theorem pipeline_loses_nothing_witness:
  "\<exists>hist tr s. pipe_reach import_params mem_tree_items True hist tr s \<and> flush_returns s \<and> rejected tr = [] \<and>
    mset (map record_of [one_write]) = mset (map record_of (concat (batches tr))) \<and>
    list_all (batch_written import_params mem_tree_items hist) (batches tr) \<and> wp_numLive s = 0 \<and>
    wp_totalProcessed s = wp_totalWritten s + wp_totalRejected s + wp_totalDups s"
proof -
  obtain hist tr s where run: "pipe_reach import_params mem_tree_items True hist tr s" "flush_returns s" "json_in tr = []"
    "events_in tr = [one_write]" "found tr = []"
    by (rule one_flush_run)
  note all = pipeline_loses_nothing [OF import_facts run(1,2)]
  have none: "rejected tr = []" "accepted tr = []" using all unfolding run(3) by simp_all
  have "list_all (batch_written import_params mem_tree_items hist) (batches tr)" using all by (simp add: list_all_iff)
  moreover have "mset (map record_of [one_write]) = mset (map record_of (concat (batches tr)))" using all unfolding run(4,5) none by simp
  moreover have "wp_numLive s = 0" "wp_totalProcessed s = wp_totalWritten s + wp_totalRejected s + wp_totalDups s" using all by simp_all
  ultimately show ?thesis using run(1,2) none(1) by (intro exI [of _ hist], intro exI [of _ tr], intro exI [of _ s]) simp
qed

theorem flush_gets_through_witness:
  "\<exists>s'. validator_step import_params 0 one_flush = Some (Inr (s', [])) \<and> 1 \<le> steps_left import_params one_flush \<and>
    (flush_returns s' \<or> validator_step import_params 0 s' \<noteq> None \<or> writer_step import_params s' \<noteq> None) \<and> writer_step import_params s' \<noteq> Some (Inl UB)"
proof -
  have step: "validator_step import_params 0 one_flush = Some (Inr (one_flush\<lparr>wp_validatorThread := V_msgs [JNull], wp_validatorInbox := []\<rparr>, []))"
    (is "_ = Some (Inr (?s', []))")
    by (simp add: validator_step_def one_flush_def write_event_def flush_request_def WriterPipeline_def)
  have "pipe_moves import_params mem_tree_items (Suc 0) one_flush ?s'"
    by (rule pipe_moves.validator_move [OF pipe_moves.no_move step])
  from flush_gets_through [OF import_facts _ one_flush_reach this, of 0 UB] step show ?thesis by auto
qed

end
