(* ===== verification/Relay_Negentropy.thy ===== *)
theory Relay_Negentropy
  imports Req_Results
begin

text \<open>
  The threads that reconcile sets of events with clients
  (\<^verbatim>\<open>src/src/apps/relay/RelayNegentropy.cpp\<close>).  A client opens a session with a filter; either there is
  a precomputed tree for the filter, and the session needs no state, or a query collects the
  matching events into a vector; after that each message of the client is reconciled
  against the tree or the vector.  The reconciliation itself is the negentropy library, a
  submodule of the repository, and is a parameter.
\<close>

section \<open>The library\<close>

text \<open>
  A vector takes elements (a time and an id) until it is sealed; \<open>ng_reconcile\<close> answers a message
  from a sealed vector, \<open>ng_reconcile_tree\<close> from the part of a tree of the database
  between two times.
\<close>

record ('db, 's) neg_lib =
  ng_new :: 's
  ng_insert :: "'s \<Rightarrow> u64 \<Rightarrow> string \<Rightarrow> 's result"
  ng_seal :: "'s \<Rightarrow> 's result"
  ng_sealed :: "'s \<Rightarrow> bool"
  ng_reconcile :: "'s \<Rightarrow> string \<Rightarrow> string result"
  ng_reconcile_tree :: "'db \<Rightarrow> u64 \<Rightarrow> u64 \<Rightarrow> u64 \<Rightarrow> string \<Rightarrow> string result"

section \<open>The sessions of the clients\<close>

datatype 's user_view = MemoryView string 's "u64 list" | StatelessView subscription u64

type_synonym 's conn_views = "(string \<times> 's user_view) list"
type_synonym 's neg_views = "(u64 \<times> 's conn_views) list"

definition views_of :: "u64 \<Rightarrow> 's neg_views \<Rightarrow> 's conn_views" where
  "views_of connId vs = (case map_of vs connId of None \<Rightarrow> [] | Some cv \<Rightarrow> cv)"

definition findView :: "u64 \<Rightarrow> string \<Rightarrow> 's neg_views \<Rightarrow> 's user_view option" where
  "findView connId subId vs = (case map_of vs connId of None \<Rightarrow> None | Some cv \<Rightarrow> map_of cv subId)"

definition removeView :: "u64 \<Rightarrow> string \<Rightarrow> 's neg_views \<Rightarrow> 's neg_views" where
  "removeView connId subId vs =
     (case findView connId subId vs of
        None \<Rightarrow> vs
      | Some _ \<Rightarrow>
          let cv = AList.delete subId (views_of connId vs)
          in if cv = [] then AList.delete connId vs else AList.update connId cv vs)"

text \<open>The two ways of adding a view differ in the view only.\<close>

definition add_view :: "nat \<Rightarrow> u64 \<Rightarrow> string \<Rightarrow> 's user_view \<Rightarrow> 's neg_views \<Rightarrow> bool \<times> 's neg_views" where
  "add_view maxSubsPerConnection connId subId view vs =
     (let vs1 = (if findView connId subId vs \<noteq> None then removeView connId subId vs else vs);
          connViews = views_of connId vs1
      in if length connViews \<ge> maxSubsPerConnection then (False, AList.update connId connViews vs1)
         else (True, AList.update connId (AList.update subId view connViews) vs1))"

definition addMemoryView :: "('db, 's) neg_lib \<Rightarrow> nat \<Rightarrow> u64 \<Rightarrow> string \<Rightarrow> string \<Rightarrow> 's neg_views \<Rightarrow> bool \<times> 's neg_views" where
  "addMemoryView N maxSubsPerConnection connId subId initialMsg vs =
     add_view maxSubsPerConnection connId subId (MemoryView initialMsg (ng_new N) []) vs"

definition addStatelessView :: "nat \<Rightarrow> u64 \<Rightarrow> string \<Rightarrow> subscription \<Rightarrow> u64 \<Rightarrow> 's neg_views \<Rightarrow> bool \<times> 's neg_views" where
  "addStatelessView maxSubsPerConnection connId subId sub treeId vs =
     add_view maxSubsPerConnection connId subId (StatelessView sub treeId) vs"

definition views_closeConn :: "u64 \<Rightarrow> 's neg_views \<Rightarrow> 's neg_views" where
  "views_closeConn connId vs = AList.delete connId vs"

text \<open>Assigning through a pointer to a view.\<close>

definition set_view :: "u64 \<Rightarrow> string \<Rightarrow> 's user_view \<Rightarrow> 's neg_views \<Rightarrow> 's neg_views" where
  "set_view connId subId view vs = AList.update connId (AList.update subId view (views_of connId vs)) vs"

section \<open>The thread\<close>

type_synonym 's neg_world = "'s neg_views \<times> relay"

definition neg_send :: "lib \<Rightarrow> u64 \<Rightarrow> json list \<Rightarrow> relay \<Rightarrow> relay" where
  "neg_send L connId parts rl = sendToConn connId (json_to_string L (JArray parts)) rl"

text \<open>\<open>r\<close> is what the library made of the message; an exception ends the session.\<close>

definition handleReconcile :: "lib \<Rightarrow> u64 \<Rightarrow> string \<Rightarrow> string result \<Rightarrow> 's neg_world \<Rightarrow> 's neg_world result" where
  "handleReconcile L connId subId r w =
     (case r of
        Inl e \<Rightarrow>
          if e = UB then Inl UB
          else Inr (removeView connId subId (fst w),
                    neg_send L connId [JString ''NEG-ERR'', JString (SubId_sv subId), JString ''PROTOCOL-ERROR''] (snd w))
      | Inr resp \<Rightarrow>
          Inr (fst w, neg_send L connId [JString ''NEG-MSG'', JString (SubId_sv subId), JString (to_hex L resp)] (snd w)))"

definition neg_onEventBatch :: "subscription \<Rightarrow> u64 list \<Rightarrow> 's neg_world \<Rightarrow> 's neg_world result" where
  "neg_onEventBatch sub levIds w =
     (case findView (sub_connId sub) (sub_subId sub) (fst w) of
        None \<Rightarrow> Inr w
      | Some (StatelessView _ _) \<Rightarrow> Inl (Herr ''bad variant, expected memory view'')
      | Some (MemoryView initialMsg storageVector ids) \<Rightarrow>
          Inr (set_view (sub_connId sub) (sub_subId sub) (MemoryView initialMsg storageVector (ids @ levIds)) (fst w), snd w))"

text \<open>An event that was deleted while the query paused is left out.\<close>

definition neg_insert_event :: "'db env \<Rightarrow> lib \<Rightarrow> ('db, 's) neg_lib \<Rightarrow> 'db \<Rightarrow> u64 \<Rightarrow> 's \<Rightarrow> 's" where
  "neg_insert_event E L N db levId st =
     (case bindE (lookupEventByLevId E db levId) (\<lambda>ev.
           bindE (PackedEventView (snd ev)) (\<lambda>packed.
           ng_insert N st (packed_created_at L packed) (packed_id packed))) of
        Inl _ \<Rightarrow> st
      | Inr st' \<Rightarrow> st')"

text \<open>
  After the reconciliation the view is written to once more; when the reconciliation has
  removed it, that is a write through a dangling pointer.
\<close>

definition neg_onComplete ::
    "'db relay_params \<Rightarrow> ('db, 's) neg_lib \<Rightarrow> 'db \<Rightarrow> subscription \<Rightarrow> 's neg_world \<Rightarrow> 's neg_world result" where
  "neg_onComplete P N db sub w =
     (let c = sub_connId sub; i = sub_subId sub; L = rp_lib P; maxSyncEvents = rc_negentropy_maxSyncEvents (rp_cfg P)
      in case findView c i (fst w) of
           None \<Rightarrow> Inr w
         | Some (StatelessView _ _) \<Rightarrow> Inl (Herr ''bad variant, expected memory view'')
         | Some (MemoryView initialMsg storageVector levIds) \<Rightarrow>
             if length levIds > unat maxSyncEvents
             then Inr (removeView c i (fst w),
                       neg_send L c [JString ''NEG-ERR'', JString (SubId_sv i), JString ''blocked: too many query results'',
                                     JUnsigned maxSyncEvents] (snd w))
             else
               bindE (ng_seal N (fold (neg_insert_event (rp_env P) L N db) (sort levIds) storageVector)) (\<lambda>vec.
               bindE (handleReconcile L c i (ng_reconcile N vec initialMsg) (set_view c i (MemoryView initialMsg vec []) (fst w), snd w)) (\<lambda>w1.
               case findView c i (fst w1) of
                 Some (MemoryView _ vec' ids) \<Rightarrow> Inr (set_view c i (MemoryView [] vec' ids) (fst w1), snd w1)
               | _ \<Rightarrow> Inl UB)))"

definition neg_cbs :: "'db relay_params \<Rightarrow> ('db, 's) neg_lib \<Rightarrow> 'db \<Rightarrow> 's neg_world sched_cbs" where
  "neg_cbs P N db = \<lparr>cb_onEvent = None, cb_onEventBatch = Some neg_onEventBatch, cb_onComplete = Some (neg_onComplete P N db),
     cb_ensureExists = False\<rparr>"

type_synonym 's neg_state = "scheduler \<times> nat \<times> 's neg_world"

definition neg_process ::
    "nat \<Rightarrow> 'db relay_params \<Rightarrow> ('db, 's) neg_lib \<Rightarrow> (nat \<Rightarrow> u64) \<Rightarrow> 'db \<Rightarrow> 's neg_state \<Rightarrow> ('s neg_state result) option" where
  "neg_process n P N clock db st =
     sched_process n (rp_env P) (rp_lib P) clock db (neg_cbs P N db) (rc_queryTimesliceBudgetMicroseconds (rp_cfg P)) st"

text \<open>The tree whose filter is the text of the request.\<close>

definition find_tree :: "'db env \<Rightarrow> 'db \<Rightarrow> string \<Rightarrow> u64 option" where
  "find_tree E db filterStr = map_option fst (List.find (\<lambda>f. snd f = filterStr) (foreach_NegentropyFilter E db))"

text \<open>Reconciling against the part of a tree that the times of the filter select; \<^verbatim>\<open>at(0)\<close> throws on an empty group.\<close>

definition tree_reconcile :: "('db, 's) neg_lib \<Rightarrow> 'db \<Rightarrow> u64 \<Rightarrow> subscription \<Rightarrow> string \<Rightarrow> string result result" where
  "tree_reconcile N db treeId sub msg =
     (case sub_filterGroup sub of
        [] \<Rightarrow> Inl OutOfRange
      | f # _ \<Rightarrow> Inr (ng_reconcile_tree N db treeId (nf_since f) (if nf_until f = MAX_U64 then MAX_U64 else nf_until f + 1) msg))"

definition neg_open_tree ::
    "'db relay_params \<Rightarrow> ('db, 's) neg_lib \<Rightarrow> 'db \<Rightarrow> subscription \<Rightarrow> u64 \<Rightarrow> string \<Rightarrow> 's neg_state \<Rightarrow> 's neg_state result" where
  "neg_open_tree P N db sub treeId negPayload st =
     (let (queries, t, w) = st; c = sub_connId sub; i = sub_subId sub; L = rp_lib P
      in bindE (tree_reconcile N db treeId sub negPayload) (\<lambda>r.
         bindE (handleReconcile L c i r w) (\<lambda>(vs, rl).
         case addStatelessView (rc_maxSubsPerConnection (rp_cfg P)) c i sub treeId vs of
           (True, vs1) \<Rightarrow> Inr (queries, t, vs1, rl)
         | (False, vs1) \<Rightarrow>
             bindE (sched_removeSub c i queries) (\<lambda>queries1.
             Inr (queries1, t, vs1, sendNoticeError L c ''too many concurrent NEG requests'' rl)))))"

definition neg_open_query ::
    "nat \<Rightarrow> 'db relay_params \<Rightarrow> ('db, 's) neg_lib \<Rightarrow> (nat \<Rightarrow> u64) \<Rightarrow> 'db \<Rightarrow> subscription \<Rightarrow> string \<Rightarrow> 's neg_state \<Rightarrow>
     ('s neg_state result) option" where
  "neg_open_query n P N clock db sub negPayload st =
     (let (queries, t, vs, rl) = st; c = sub_connId sub; i = sub_subId sub; L = rp_lib P; maxSubs = rc_maxSubsPerConnection (rp_cfg P)
      in case bindE (sched_addSub (rp_env P) maxSubs db sub queries) (\<lambda>(ok, queries1).
              let rl1 = (if ok then rl else sendNoticeError L c ''too many concurrent REQs'' rl)
              in case addMemoryView N maxSubs c i negPayload vs of
                   (True, vs1) \<Rightarrow> Inr (queries1, t, vs1, rl1)
                 | (False, vs1) \<Rightarrow>
                     bindE (sched_removeSub c i queries1) (\<lambda>queries2.
                     Inr (queries2, t, vs1, sendNoticeError L c ''too many concurrent NEG requests'' rl1))) of
           Inl e \<Rightarrow> Some (Inl e)
         | Inr st1 \<Rightarrow> neg_process n P N clock db st1)"

definition neg_message ::
    "'db relay_params \<Rightarrow> ('db, 's) neg_lib \<Rightarrow> 'db \<Rightarrow> u64 \<Rightarrow> string \<Rightarrow> string \<Rightarrow> 's neg_world \<Rightarrow> 's neg_world result" where
  "neg_message P N db connId subId negPayload w =
     (case findView connId subId (fst w) of
        None \<Rightarrow>
          Inr (fst w, neg_send (rp_lib P) connId
                 [JString ''NEG-ERR'', JString (SubId_sv subId), JString ''closed: unknown subscription handle''] (snd w))
      | Some (MemoryView _ vec _) \<Rightarrow>
          if \<not> ng_sealed N vec
          then Inr (fst w, sendNoticeError (rp_lib P) connId ''negentropy error: got NEG-MSG before NEG-OPEN complete'' (snd w))
          else handleReconcile (rp_lib P) connId subId (ng_reconcile N vec negPayload) w
      | Some (StatelessView sub treeId) \<Rightarrow>
          bindE (tree_reconcile N db treeId sub negPayload) (\<lambda>r. handleReconcile (rp_lib P) connId subId r w))"

fun neg_msg ::
    "nat \<Rightarrow> 'db relay_params \<Rightarrow> ('db, 's) neg_lib \<Rightarrow> (nat \<Rightarrow> u64) \<Rightarrow> 'db \<Rightarrow> msg_negentropy \<Rightarrow> 's neg_state \<Rightarrow>
     ('s neg_state result) option" where
  "neg_msg n P N clock db (NegOpen sub filterStr negPayload) st =
     (case find_tree (rp_env P) db filterStr of
        Some treeId \<Rightarrow> Some (neg_open_tree P N db sub treeId negPayload st)
      | None \<Rightarrow> neg_open_query n P N clock db sub negPayload st)"
| "neg_msg n P N clock db (NegMsg connId subId negPayload) (queries, t, w) =
     Some (bindE (neg_message P N db connId subId negPayload w) (\<lambda>w1. Inr (queries, t, w1)))"
| "neg_msg n P N clock db (NegClose connId subId) (queries, t, w) =
     Some (bindE (sched_removeSub connId subId queries) (\<lambda>queries1. Inr (queries1, t, removeView connId subId (fst w), snd w)))"
| "neg_msg n P N clock db (NegCloseConn connId) (queries, t, w) =
     Some (bindE (sched_closeConn connId queries) (\<lambda>queries1. Inr (queries1, t, views_closeConn connId (fst w), snd w)))"

fun neg_msgs ::
    "nat \<Rightarrow> 'db relay_params \<Rightarrow> ('db, 's) neg_lib \<Rightarrow> (nat \<Rightarrow> u64) \<Rightarrow> 'db \<Rightarrow> msg_negentropy list \<Rightarrow> 's neg_state \<Rightarrow>
     ('s neg_state result) option" where
  "neg_msgs n P N clock db [] st = Some (Inr st)"
| "neg_msgs n P N clock db (msg # msgs) st =
     (case neg_msg n P N clock db msg st of
        None \<Rightarrow> None
      | Some (Inl e) \<Rightarrow> Some (Inl e)
      | Some (Inr st') \<Rightarrow> neg_msgs n P N clock db msgs st')"

definition neg_round ::
    "nat \<Rightarrow> 'db relay_params \<Rightarrow> ('db, 's) neg_lib \<Rightarrow> (nat \<Rightarrow> u64) \<Rightarrow> 'db \<Rightarrow> msg_negentropy list \<Rightarrow> 's neg_state \<Rightarrow>
     ('s neg_state result) option" where
  "neg_round n P N clock db newMsgs st =
     (case neg_msgs n P N clock db newMsgs st of
        None \<Rightarrow> None
      | Some (Inl e) \<Rightarrow> Some (Inl e)
      | Some (Inr st') \<Rightarrow> neg_process n P N clock db st')"

fun neg_rounds ::
    "nat \<Rightarrow> 'db relay_params \<Rightarrow> ('db, 's) neg_lib \<Rightarrow> (nat \<Rightarrow> u64) \<Rightarrow> ('db \<times> msg_negentropy list) list \<Rightarrow> 's neg_state \<Rightarrow>
     ('s neg_state result) option" where
  "neg_rounds n P N clock [] st = Some (Inr st)"
| "neg_rounds n P N clock ((db, msgs) # rounds) st =
     (case neg_round n P N clock db msgs st of
        None \<Rightarrow> None
      | Some (Inl e) \<Rightarrow> Some (Inl e)
      | Some (Inr st') \<Rightarrow> neg_rounds n P N clock rounds st')"

section \<open>The table of sessions as a map\<close>

lemma findView_of: "findView c i vs = map_of (views_of c vs) i"
  by (simp add: findView_def views_of_def split: option.split)

lemma views_of_update [simp]: "views_of c (AList.update c' cv vs) = (if c = c' then cv else views_of c vs)"
  by (simp add: views_of_def update_conv')

lemma views_of_delete [simp]: "views_of c (AList.delete c' vs) = (if c = c' then [] else views_of c vs)"
  by (simp add: views_of_def delete_conv')

lemma findView_set [simp]:
  "findView c i (set_view c' i' v vs) = (if (c, i) = (c', i') then Some v else findView c i vs)"
  by (auto simp: findView_of set_view_def update_conv')

lemma findView_remove [simp]:
  "findView c i (removeView c' i' vs) = (if (c, i) = (c', i') then None else findView c i vs)"
proof (cases "findView c' i' vs")
  case (Some v)
  have "map_of (AList.delete i' (views_of c vs)) i = (if i = i' then None else map_of (views_of c vs) i)" by (simp add: delete_conv')
  moreover from this have "AList.delete i' (views_of c vs) = [] \<Longrightarrow> i \<noteq> i' \<Longrightarrow> map_of (views_of c vs) i = None" by simp
  ultimately show ?thesis using Some by (auto simp: removeView_def findView_of Let_def)
qed (auto simp: removeView_def)

lemma findView_close [simp]: "findView c i (views_closeConn c' vs) = (if c = c' then None else findView c i vs)"
  by (simp add: findView_of views_closeConn_def)

section \<open>Queries that are collected in batches\<close>

text \<open>What a query does is the same for every callback that carries the same state.\<close>

lemma foldE_natural:
  assumes "\<And>x c. f' x (h c) = bindE (f x c) (\<lambda>c'. Inr (h c'))"
  shows "foldE f' xs (h c) = bindE (foldE f xs c) (\<lambda>c'. Inr (h c'))"
proof (induction xs arbitrary: c)
  case (Cons x xs)
  then show ?case using assms by (cases "f x c") simp_all
qed simp

lemma send_filter_natural:
  assumes "\<And>l c. cb' l (h c) = bindE (cb l c) (\<lambda>c'. Inr (h c'))"
  shows "send_filter M latest cb' f (full, h c) = bindE (send_filter M latest cb f (full, c)) (\<lambda>(full, c'). Inr (full, h c'))"
proof -
  have "skip_sent cb' full x (h c) = bindE (skip_sent cb full x c) (\<lambda>c'. Inr (h c'))" for x c by (simp add: skip_sent_def assms)
  then show ?thesis using foldE_natural [of "skip_sent cb' full" h "skip_sent cb full" "newest M latest f" c]
    by (cases "foldE (skip_sent cb full) (newest M latest f) c") (simp_all add: send_filter_def)
qed

lemma feed_natural:
  assumes "\<And>l c. cb' l (h c) = bindE (cb l c) (\<lambda>c'. Inr (h c'))"
  shows "feed want (sends f latest cb') xs (full, now, h c) =
    bindE (feed want (sends f latest cb) xs (full, now, c)) (\<lambda>(full, now, c'). Inr (full, now, h c'))"
proof (induction xs arbitrary: full now c)
  case (Cons x xs)
  have "sends f latest cb' (snd x) (full, now, h c) = bindE (sends f latest cb (snd x) (full, now, c)) (\<lambda>(b, full, now, c'). Inr (b, full, now, h c'))"
    by (cases "cb (snd x) c") (simp_all add: sends_def assms)
  then show ?case using Cons.IH by (cases "sends f latest cb (snd x) (full, now, c)") (auto split: if_splits)
qed simp

context scan_env
begin

lemma outcome_natural:
  assumes "\<And>l c. cb' l (h c) = bindE (cb l c) (\<lambda>c'. Inr (h c'))"
  shows "outcome db M cb' q (h c) = bindE (outcome db M cb q c) (\<lambda>(full, c'). Inr (full, h c'))"
proof -
  have rest: "foldE (send_filter M latest cb') fg (full, h c) = bindE (foldE (send_filter M latest cb) fg (full, c)) (\<lambda>(full, c'). Inr (full, h c'))"
    for latest fg full c
    using foldE_natural [of "send_filter M latest cb'" "\<lambda>(full, c). (full, h c)" "send_filter M latest cb" fg "(full, c)"]
      send_filter_natural [of cb' h cb, OF assms] by (auto simp: case_prod_beta')
  show ?thesis
  proof (cases "dq_scanner q")
    case (Some S)
    let ?f = "sub_filterGroup (dq_sub q) ! dq_filterGroupIndex q"
    show ?thesis
      using feed_natural [of cb' h cb "matching M ?f" ?f "sub_latestEventId (dq_sub q)" "todo db ?f S" "dq_sentEventsFull q" "dq_sentEventsCurr q" c, OF assms]
      by (cases "feed (matching M ?f) (sends ?f (sub_latestEventId (dq_sub q)) cb) (todo db ?f S) (dq_sentEventsFull q, dq_sentEventsCurr q, c)")
        (auto simp: outcome_def Some rest Let_def)
  qed (simp add: outcome_def rest Let_def)
qed

text \<open>The events that a query still has to deliver.\<close>

definition yet_to_come :: "'db \<Rightarrow> store \<Rightarrow> dbquery \<Rightarrow> u64 list \<Rightarrow> bool" where
  "yet_to_come db M q ys \<longleftrightarrow> (\<exists>full. outcome db M (\<lambda>l xs. Inr (xs @ [l])) q [] = Inr (full, ys))"

lemma to_come_outcome:
  assumes "cb_onEvent C = None" "cb_onEventBatch C \<noteq> None" "\<not> cb_ensureExists C" "yet_to_come db M q ys"
  shows "\<exists>full. outcome db M (sched_event E db C sub) q (w, b) = Inr (full, w, b @ ys)"
proof -
  have "sched_event E db C sub l (w, b @ xs) = bindE (Inr (xs @ [l])) (\<lambda>xs'. Inr (w, b @ xs'))" for l xs
    using assms(1-3) by (auto simp: sched_event_def Let_def)
  from outcome_natural [of "sched_event E db C sub" "\<lambda>xs. (w, b @ xs)" "\<lambda>l xs. Inr (xs @ [l])" db M q "[]", OF this]
  show ?thesis using assms(4) by (auto simp: yet_to_come_def)
qed

lemma outcome_to_come:
  assumes "cb_onEvent C = None" "cb_onEventBatch C \<noteq> None" "\<not> cb_ensureExists C"
    and "outcome db M (sched_event E db C sub) q (w, b) = Inr (full, w', b')"
  shows "\<exists>ys. yet_to_come db M q ys \<and> b' = b @ ys \<and> w' = w"
proof -
  have "sched_event E db C sub l (w, b @ xs) = bindE (Inr (xs @ [l])) (\<lambda>xs'. Inr (w, b @ xs'))" for l xs
    using assms(1-3) by (auto simp: sched_event_def Let_def)
  from outcome_natural [of "sched_event E db C sub" "\<lambda>xs. (w, b @ xs)" "\<lambda>l xs. Inr (xs @ [l])" db M q "[]", OF this]
  show ?thesis using assms(4) by (cases "outcome db M (\<lambda>l xs. Inr (xs @ [l])) q []") (auto simp: yet_to_come_def)
qed

lemma batch_turn:
  assumes "holds E L tree_items fs db M" "small_times M" "sched_inv s" "qs_running s = [a]" "qs_heap s a = Some q" "\<not> dq_dead q" "query_ok db q"
    and C: "cb_onEvent C = None" "cb_onEventBatch C = Some f" "cb_onComplete C = Some g" "\<not> cb_ensureExists C"
    and "qs_levIdBatch s = []" "yet_to_come db M q ys"
    and run: "sched_process n E L clock db C budget (s, t, w) = Some r"
  shows "\<exists>finished q' t' zs ys'. ys = zs @ ys' \<and> process n E L clock db (sched_event E db C (dq_sub q)) budget (q, t, w, []) =
      Some (Inr (finished, q', t', w, zs)) \<and> dq_sub q' = dq_sub q \<and> \<not> dq_dead q' \<and>
    (if finished then ys' = [] else query_ok db q' \<and> yet_to_come db M q' ys')"
proof -
  let ?ev = "sched_event E db C (dq_sub q)"
  have batch: "cb_onEventBatch C \<noteq> None" using C(2) by simp
  obtain x where x: "process n E L clock db ?ev budget (q, t, w, []) = Some x"
    using run assms(4,5,6,12) by (cases "process n E L clock db ?ev budget (q, t, w, [])") (auto simp: sched_process_def)
  note exact = process_exact [OF assms(1,2,7) x]
  obtain full where out: "outcome db M ?ev q (w, []) = Inr (full, w, ys)"
    using to_come_outcome [OF C(1) batch C(4) assms(13), of "dq_sub q" w "[]"] by auto
  obtain y where y: "x = Inr y" using exact out by (cases x) auto
  obtain finished q' t' w' zs where y': "y = (finished, q', t', w', zs)" by (cases y) auto
  have fr: "dq_sub q' = dq_sub q \<and> dq_dead q' = dq_dead q \<and> fst (w', zs) = w"
    by (rule process_frame [OF x [unfolded y y'], of "\<lambda>c. fst c = w"]) (use C in \<open>auto simp: sched_event_def Let_def\<close>)
  then have w': "w' = w" by simp
  show ?thesis
  proof (cases finished)
    case True
    then have "zs = ys" using exact out by (simp add: y y')
    then show ?thesis using x y y' fr w' True assms(6) by (intro exI [of _ True] exI) auto
  next
    case False
    then have ok: "query_ok db q'" "outcome db M ?ev q' (w, zs) = Inr (full, w, ys)" using exact out w' by (simp_all add: y y')
    obtain ys' where ys': "yet_to_come db M q' ys'" "ys = zs @ ys'" using outcome_to_come [OF C(1) batch C(4) ok(2)] by auto
    show ?thesis using x y y' fr w' False assms(6) ok(1) ys'
      by (intro exI [of _ False] exI [of _ q'] exI [of _ t'] exI [of _ zs] exI [of _ ys']) auto
  qed
qed

text \<open>The turns of a query that is alone: its events reach the callback in batches, and then it is completed.\<close>

lemma batch_turns:
  assumes "holds E L tree_items fs db M" "small_times M"
    and C: "cb_onEvent C = None" "cb_onEventBatch C = Some f" "cb_onComplete C = Some g" "\<not> cb_ensureExists C"
    and W: "\<And>xs zs. f sub zs (W xs) = Inr (W (xs @ zs))"
    and "sched_inv s" "qs_running s = [a]" "qs_heap s a = Some q" "\<not> dq_dead q" "dq_sub q = sub" "query_ok db q"
    and "qs_levIdBatch s = []" "yet_to_come db M q ys"
    and run: "sched_turns k n E L clock db C budget (s, t, W xs) = Some r"
  shows "(\<exists>e. r = Inl e \<and> g sub (W (xs @ ys)) = Inl e) \<or>
    (\<exists>s' t' w'. r = Inr (s', t', w') \<and> sched_inv s' \<and> (qs_running s' = [] \<longrightarrow> g sub (W (xs @ ys)) = Inr w'))"
  using assms(8-15) run
proof (induction k arbitrary: s q t xs ys)
  case 0
  then show ?case by auto
next
  case (Suc k)
  let ?ev = "sched_event E db C sub"
  obtain x where x: "sched_process n E L clock db C budget (s, t, W xs) = Some x"
    using Suc.prems(9) by (cases "sched_process n E L clock db C budget (s, t, W xs)") auto
  obtain finished q' t' zs ys' where p: "ys = zs @ ys'"
    "process n E L clock db ?ev budget (q, t, W xs, []) = Some (Inr (finished, q', t', W xs, zs))" "dq_sub q' = sub" "\<not> dq_dead q'"
    "if finished then ys' = [] else query_ok db q' \<and> yet_to_come db M q' ys'"
    using batch_turn [OF assms(1,2) Suc.prems(1-4,6) C Suc.prems(7,8) x] Suc.prems(5) by auto
  let ?s1 = "s\<lparr>qs_heap := (qs_heap s)(a \<mapsto> q'), qs_running := [], qs_levIdBatch := []\<rparr>"
  show ?case
  proof (cases finished)
    case True
    then have ys: "ys = zs" using p(1,5) by simp
    have "\<exists>s2. sched_removeSub (sub_connId sub) (sub_subId sub) ?s1 = Inr s2"
    proof (rule removeSub_total)
      fix b assume "findQuery (sub_connId sub) (sub_subId sub) ?s1 = Some b"
      then show "qs_heap ?s1 b \<noteq> None" using sched_invD(5) [OF Suc.prems(1)] by auto
    qed
    then obtain s2 where s2: "sched_removeSub (sub_connId sub) (sub_subId sub) ?s1 = Inr s2" by blast
    have x': "x = bindE (g sub (W (xs @ ys))) (\<lambda>w2. Inr (s2\<lparr>qs_heap := (qs_heap s2)(a := None)\<rparr>, t', w2))"
      using x Suc.prems(2-5,7) p(2,3) True C W s2 by (simp add: sched_process_def ys)
    show ?thesis
    proof (cases "g sub (W (xs @ ys))")
      case (Inl e)
      then show ?thesis using Suc.prems(9) by (auto simp: x x')
    next
      case (Inr w2)
      let ?s3 = "s2\<lparr>qs_heap := (qs_heap s2)(a := None)\<rparr>"
      have inv: "sched_inv ?s3" by (rule sched_process_inv [OF Suc.prems(1)]) (use x x' Inr in simp)
      have "qs_running s2 = []" using s2 by (auto simp: sched_removeSub_def set_dead_def bindE_eq_Inr Let_def split: option.splits if_splits)
      then have "sched_turns k n E L clock db C budget (?s3, t', w2) = Some (Inr (?s3, t', w2))" by (intro sched_turns_idle) simp
      then have "r = Inr (?s3, t', w2)" using Suc.prems(9) by (simp add: x x' Inr)
      then show ?thesis using inv Inr by blast
    qed
  next
    case False
    let ?s3 = "?s1\<lparr>qs_running := [a]\<rparr>"
    have x': "x = Inr (?s3, t', W (xs @ zs))" using x Suc.prems(2-5,7) p(2,3) False C W by (simp add: sched_process_def Let_def)
    have "sched_inv ?s3" by (rule sched_process_inv [OF Suc.prems(1)]) (use x x' in simp)
    moreover have "sched_turns k n E L clock db C budget (?s3, t', W (xs @ zs)) = Some r" using Suc.prems(9) by (simp add: x x')
    ultimately show ?thesis using Suc.IH [of ?s3 q' ys' t' "xs @ zs"] p False by simp
  qed
qed

end

section \<open>What the code relies on of the vector\<close>

text \<open>
  \<open>contents\<close> are the elements of a vector.  Inserting takes ids of 32 bytes until the vector is
  sealed; sealing refuses duplicates.
\<close>

locale neg_vector =
  fixes N :: "('db, 's) neg_lib" and contents :: "'s \<Rightarrow> (u64 \<times> string) list"
  assumes new_vector: "contents (ng_new N) = []" "\<not> ng_sealed N (ng_new N)"
    and insert_vector: "\<not> ng_sealed N st \<Longrightarrow> length i = 32 \<Longrightarrow>
      \<exists>st'. ng_insert N st t i = Inr st' \<and> \<not> ng_sealed N st' \<and> contents st' = contents st @ [(t, i)]"
    and seal_vector: "\<not> ng_sealed N st \<Longrightarrow> distinct (contents st) \<Longrightarrow>
      \<exists>st'. ng_seal N st = Inr st' \<and> ng_sealed N st' \<and> set (contents st') = set (contents st)"

definition element :: "store \<Rightarrow> u64 \<Rightarrow> u64 \<times> string" where
  "element M l = (ev_created_at (the (M l)), ev_id (the (M l)))"

context neg_vector
begin

lemma fill_vector:
  assumes "event_env L E key_le tree_items" "holds E L tree_items fs db M" "\<forall>l\<in>set ls. M l \<noteq> None" "\<not> ng_sealed N st"
  shows "\<not> ng_sealed N (fold (neg_insert_event E L N db) ls st) \<and>
    contents (fold (neg_insert_event E L N db) ls st) = contents st @ map (element M) ls"
  using assms(3,4)
proof (induction ls arbitrary: st)
  case (Cons l ls)
  obtain e where e: "M l = Some e" using Cons.prems(1) by auto
  have buf: "lookup_Event E db l = Some (pack_event L e)" and wf: "wf_event e" using assms(2) e by (auto simp: holds_def)
  obtain st' where st': "ng_insert N st (ev_created_at e) (ev_id e) = Inr st'" "\<not> ng_sealed N st'" "contents st' = contents st @ [(ev_created_at e, ev_id e)]"
    using insert_vector [OF Cons.prems(2), of "ev_id e"] wf by (auto simp: wf_event_def)
  have sv: "sv_codec L" using assms(1) by (simp add: event_env_def)
  have "neg_insert_event E L N db l st = st'"
    by (simp add: neg_insert_event_def lookupEventByLevId_def buf sv_codec.packed_fields_event [OF sv wf] st'(1))
  then show ?case using Cons.IH [OF _ st'(2)] Cons.prems(1) st'(3) by (simp add: element_def e)
qed simp

text \<open>The vector of a session holds the elements of the events that were found.\<close>

lemma sealed_vector:
  assumes "event_env L E key_le tree_items" "holds E L tree_items fs db M" "consistent M" "\<forall>l\<in>set ls. M l \<noteq> None" "distinct ls"
  obtains vec where "ng_seal N (fold (neg_insert_event E L N db) (sort ls) (ng_new N)) = Inr vec" "ng_sealed N vec" "set (contents vec) = element M ` set ls"
proof -
  note fill = fill_vector [OF assms(1,2) _ new_vector(2), of "sort ls"]
  have "inj_on (element M) (set ls)"
  proof (rule inj_onI)
    fix l l' assume l: "l \<in> set ls" "l' \<in> set ls" "element M l = element M l'"
    then obtain e e' where "M l = Some e" "M l' = Some e'" using assms(4) by fastforce
    then show "l = l'" using l(3) consistent_unique_ids [OF assms(3)] by (auto simp: element_def unique_ids_def)
  qed
  then have "distinct (map (element M) (sort ls))" using assms(5) by (simp add: distinct_map)
  then show thesis using seal_vector fill assms(4) that by (force simp: new_vector(1))
qed

end

section \<open>Opening a session\<close>

lemma newest_distinct: "finite (dom M) \<Longrightarrow> distinct (newest M latest f)"
proof -
  assume fin: "finite (dom M)"
  let ?S = "selected M latest f"
  have "?S \<subseteq> (\<lambda>l. (ev_created_at (the (M l)), l)) ` dom M" by (auto simp: selected_def image_iff)
  then have finS: "finite ?S" using finite_subset fin by blast
  have "inj_on snd ?S" by (rule inj_onI) (auto simp: selected_def)
  then have "distinct (map snd (sorted_list_of_set ?S))" using finS by (simp add: distinct_map)
  then show ?thesis by (simp add: newest_def rev_map [symmetric])
qed

lemma answer_distinct: "finite (dom M) \<Longrightarrow> distinct (query_answer M latest fg)"
proof -
  assume fin: "finite (dom M)"
  have step: "distinct (add_newest M latest f sent)" if "distinct sent" for f sent
    using that newest_distinct [OF fin] by (auto simp: add_newest_def)
  have "distinct (fold (add_newest M latest) fg sent)" if "distinct sent" for sent
    using that by (induction fg arbitrary: sent) (simp_all add: step)
  then show ?thesis by (simp add: query_answer_def)
qed

lemma answer_to_come:
  assumes "scan_env L E key_le tree_items"
  shows "scan_env.yet_to_come E db M (DBQuery sub) (query_answer M (sub_latestEventId sub) (sub_filterGroup sub))"
proof -
  let ?ls = "query_answer M (sub_latestEventId sub) (sub_filterGroup sub)"
  have "foldE (\<lambda>l xs. Inr (xs @ [l])) ls ys = Inr (ys @ ls)" for ls ys :: "u64 list" by (induction ls arbitrary: ys) simp_all
  then have "bindE (foldE (send_filter M (sub_latestEventId sub) (\<lambda>l xs. Inr (xs @ [l]))) (sub_filterGroup sub) ({}, [])) (\<lambda>x. Inr (snd x)) = Inr ?ls"
    unfolding foldE_answer by simp
  then show ?thesis
    by (auto simp: scan_env.yet_to_come_def [OF assms] scan_env.fresh_outcome [OF assms] bindE_eq_Inr)
qed

lemma set_view_twice [simp]: "set_view c i v (set_view c i v' vs) = set_view c i v vs"
  by (simp add: set_view_def)

interpretation neg: query_owner "neg_cbs P N db" "\<lambda>_ _. True" for P :: "'db relay_params" and N :: "('db, 's) neg_lib" and db
  by unfold_locales (simp_all add: neg_cbs_def)

lemma neg_turns:
  "neg_rounds n P N clock (replicate k (db, [])) st =
     sched_turns k n (rp_env P) (rp_lib P) clock db (neg_cbs P N db) (rc_queryTimesliceBudgetMicroseconds (rp_cfg P)) st"
  by (induction k arbitrary: st) (auto simp: neg_round_def neg_process_def split: option.split sum.split)

definition fresh_views :: "u64 \<Rightarrow> string \<Rightarrow> 's neg_views \<Rightarrow> 's neg_views" where
  "fresh_views c i vs = (if findView c i vs \<noteq> None then removeView c i vs else vs)"

lemma fresh_views_remove [simp]: "fresh_views c i (removeView c i vs) = fresh_views c i vs"
proof (cases "findView c i vs")
  case None
  then have "removeView c i vs = vs" by (simp add: removeView_def)
  then show ?thesis by simp
qed (simp add: fresh_views_def)

lemma neg_first_round:
  assumes "find_tree (rp_env P) db filterStr = None" "length (views_of (sub_connId sub) (fresh_views (sub_connId sub) (sub_subId sub) vs)) < rc_maxSubsPerConnection (rp_cfg P)"
    and "sched_addSub (rp_env P) (rc_maxSubsPerConnection (rp_cfg P)) db sub s = Inr (True, s1)"
  shows "neg_rounds n P N clock ((db, [NegOpen sub filterStr payload]) # replicate k (db, [])) (s, t, vs, rl) =
    sched_turns (2 + k) n (rp_env P) (rp_lib P) clock db (neg_cbs P N db) (rc_queryTimesliceBudgetMicroseconds (rp_cfg P))
      (s1, t, set_view (sub_connId sub) (sub_subId sub) (MemoryView payload (ng_new N) []) (fresh_views (sub_connId sub) (sub_subId sub) vs), rl)"
proof -
  let ?vs = "fresh_views (sub_connId sub) (sub_subId sub) vs"
  let ?w = "(set_view (sub_connId sub) (sub_subId sub) (MemoryView payload (ng_new N) []) ?vs, rl)"
  let ?turns = "\<lambda>j. sched_turns j n (rp_env P) (rp_lib P) clock db (neg_cbs P N db) (rc_queryTimesliceBudgetMicroseconds (rp_cfg P))"
  have "addMemoryView N (rc_maxSubsPerConnection (rp_cfg P)) (sub_connId sub) (sub_subId sub) payload vs = (True, fst ?w)"
    using assms(2) by (simp add: addMemoryView_def add_view_def set_view_def fresh_views_def Let_def)
  then have "neg_round n P N clock db [NegOpen sub filterStr payload] (s, t, vs, rl) = ?turns 2 (s1, t, ?w)"
    using assms(1,3) by (simp add: neg_round_def neg_open_query_def neg_process_def numeral_2_eq_2 split: option.split sum.split)
  then show ?thesis unfolding sched_turns_add by (simp add: neg_turns split: option.split sum.split)
qed

text \<open>What a NEG-OPEN comes to on an idle thread, over a database that stays as it is.\<close>

lemma neg_open_outcome:
  assumes "scan_env (rp_lib P) (rp_env P) key_le tree_items" "holds (rp_env P) (rp_lib P) tree_items fs db M"
    and "lookup_Event (rp_env P) db 0 = None" "small_times M" "\<forall>f\<in>set (sub_filterGroup sub). query_filter f \<and> few_values f"
    and "sched_inv s" "qs_running s = []" "qs_levIdBatch s = []" "find_tree (rp_env P) db filterStr = None"
    and "length (views_of (sub_connId sub) (fresh_views (sub_connId sub) (sub_subId sub) vs)) < rc_maxSubsPerConnection (rp_cfg P)"
    and "sub' = sub\<lparr>sub_latestEventId := getMostRecentLevId (rp_env P) db\<rparr>"
    and "ls = query_answer M (getMostRecentLevId (rp_env P) db) (sub_filterGroup sub)"
    and "vs' = set_view (sub_connId sub) (sub_subId sub) (MemoryView payload (ng_new N) ls) (fresh_views (sub_connId sub) (sub_subId sub) vs)"
  shows "\<exists>k m. \<forall>n\<ge>m. \<exists>r. neg_rounds n P N clock ((db, [NegOpen sub filterStr payload]) # replicate k (db, [])) (s, t, vs, rl) = Some r \<and>
    (case neg_onComplete P N db sub' (vs', rl) of Inl e \<Rightarrow> r = Inl e | Inr w \<Rightarrow> \<exists>s' t'. r = Inr (s', t', w) \<and> qs_running s' = [])"
proof -
  let ?E = "rp_env P" and ?L = "rp_lib P" and ?C = "neg_cbs P N db" and ?budget = "rc_queryTimesliceBudgetMicroseconds (rp_cfg P)"
  let ?c = "sub_connId sub" and ?i = "sub_subId sub" and ?max = "rc_maxSubsPerConnection (rp_cfg P)"
  define W where "W xs = (set_view ?c ?i (MemoryView payload (ng_new N) xs) (fresh_views ?c ?i vs), rl)" for xs
  obtain s1 where s1: "sched_addSub ?E ?max db sub s = Inr (True, s1)" "sched_inv s1" "all_resumable s1"
    "qs_running s1 = [qs_next s]" "qs_heap s1 (qs_next s) = Some (DBQuery sub')" "qs_levIdBatch s1 = []"
    by (rule addSub_idle [OF assms(6,7), of ?max ?E db sub]) (use assms(8,10,11) that in auto)
  have ok: "scan_env.query_ok ?L ?E key_le db (DBQuery sub')" using scan_env.query_ok_DBQuery [OF assms(1)] assms(5,11) by simp
  have come: "scan_env.yet_to_come ?E db M (DBQuery sub') ls" using answer_to_come [OF assms(1), of db M sub'] by (simp add: assms(11,12))
  have cbs: "cb_onEvent ?C = None" "cb_onEventBatch ?C = Some neg_onEventBatch" "cb_onComplete ?C = Some (neg_onComplete P N db)" "\<not> cb_ensureExists ?C"
    by (simp_all add: neg_cbs_def)
  have batch: "neg_onEventBatch sub' zs (W xs) = Inr (W (xs @ zs))" for xs zs by (simp add: neg_onEventBatch_def W_def assms(11))
  have live: "\<not> dq_dead (DBQuery sub')" "dq_sub (DBQuery sub') = sub'" by (simp_all add: DBQuery_def)
  obtain k m r where drain: "\<forall>n\<ge>m. sched_turns k n ?E ?L clock db ?C ?budget (s1, t, W []) = Some r"
    "(\<exists>e. r = Inl e) \<or> (\<exists>s' t' w'. r = Inr (s', t', w') \<and> qs_running s' = [])"
    using sched_drains [OF assms(1) neg.query_owner_axioms [of P N db] assms(2,3) s1(2,3), of clock ?budget t "W []"] by (elim exE conjE) blast
  have run: "sched_turns k m ?E ?L clock db ?C ?budget (s1, t, W []) = Some r" using drain(1) by simp
  have whole: "W ls = (vs', rl)" by (simp add: W_def assms(13))
  have r: "case neg_onComplete P N db sub' (vs', rl) of Inl e \<Rightarrow> r = Inl e | Inr w \<Rightarrow> \<exists>s' t'. r = Inr (s', t', w) \<and> qs_running s' = []"
    using scan_env.batch_turns [OF assms(1,2,4) cbs batch s1(2,4,5) live ok s1(6) come run] drain(2) by (auto simp: whole)
  have "neg_rounds n P N clock ((db, [NegOpen sub filterStr payload]) # replicate k (db, [])) (s, t, vs, rl) = Some r" if "n \<ge> m" for n
  proof -
    have "sched_turns (k + 2) n ?E ?L clock db ?C ?budget (s1, t, W []) = Some r"
      unfolding sched_turns_add using drain(1) that r sched_turns_idle
      by (auto split: sum.splits)
    then show ?thesis unfolding neg_first_round [OF assms(9,10) s1(1)] by (simp add: add.commute W_def)
  qed
  then show ?thesis using r by blast
qed

lemma neg_open_completes:
  assumes "\<exists>k m. \<forall>n\<ge>m. \<exists>r. rounds k n = Some r \<and> (case x of Inl e \<Rightarrow> r = Inl e | Inr w \<Rightarrow> \<exists>s' t'. r = Inr (s', t', w) \<and> qs_running s' = [])"
    and "x = Inr (vs, rl)" "\<And>s' t'. qs_running s' = [] \<Longrightarrow> Q s' t' vs rl"
  shows "\<exists>k m. \<forall>n\<ge>m. \<exists>s' t' vs' rl'. rounds k n = Some (Inr (s', t', vs', rl')) \<and> Q s' t' vs' rl'"
proof -
  obtain k m where km: "\<forall>n\<ge>m. \<exists>r. rounds k n = Some r \<and> (\<exists>s' t'. r = Inr (s', t', vs, rl) \<and> qs_running s' = [])"
    using assms(1) unfolding assms(2) by auto
  have "\<exists>s' t' vs' rl'. rounds k n = Some (Inr (s', t', vs', rl')) \<and> Q s' t' vs' rl'" if "n \<ge> m" for n
    using km that assms(3) by blast
  then show ?thesis by blast
qed

lemma inbox_neg_send:
  "tpWebsocket rl \<noteq> [] \<Longrightarrow> inbox 0 (tpWebsocket (neg_send L c parts rl)) = inbox 0 (tpWebsocket rl) @ [WsSend c (json_to_string L (JArray parts))]"
  by (simp add: neg_send_def sendToConn_def inbox_dispatch)

text \<open>The end of the query of a session whose events fit, given what the library makes of the first message.\<close>

lemma neg_complete_fits:
  assumes "neg_vector N contents" "event_env (rp_lib P) (rp_env P) key_le tree_items" "holds (rp_env P) (rp_lib P) tree_items fs db M" "consistent M"
    and "\<forall>l\<in>set ls. M l \<noteq> None" "distinct ls" "length ls \<le> unat (rc_negentropy_maxSyncEvents (rp_cfg P))"
    and "findView (sub_connId sub) (sub_subId sub) vs = Some (MemoryView payload (ng_new N) ls)"
  obtains vec where "ng_sealed N vec" "set (contents vec) = element M ` set ls"
    "neg_onComplete P N db sub (vs, rl) = (case ng_reconcile N vec payload of Inl _ \<Rightarrow> Inl UB
       | Inr resp \<Rightarrow> Inr (set_view (sub_connId sub) (sub_subId sub) (MemoryView [] vec []) vs, neg_send (rp_lib P) (sub_connId sub)
           [JString ''NEG-MSG'', JString (SubId_sv (sub_subId sub)), JString (to_hex (rp_lib P) resp)] rl))"
proof -
  let ?L = "rp_lib P" and ?E = "rp_env P"
  obtain vec where vec: "ng_seal N (fold (neg_insert_event ?E ?L N db) (sort ls) (ng_new N)) = Inr vec" "ng_sealed N vec" "set (contents vec) = element M ` set ls"
    by (rule neg_vector.sealed_vector [OF assms(1,2,3,4,5,6)])
  show thesis
  proof (rule that [OF vec(2,3)])
    show "neg_onComplete P N db sub (vs, rl) = (case ng_reconcile N vec payload of Inl _ \<Rightarrow> Inl UB
       | Inr resp \<Rightarrow> Inr (set_view (sub_connId sub) (sub_subId sub) (MemoryView [] vec []) vs, neg_send ?L (sub_connId sub)
           [JString ''NEG-MSG'', JString (SubId_sv (sub_subId sub)), JString (to_hex ?L resp)] rl))"
      using assms(7,8) by (simp add: neg_onComplete_def Let_def vec(1) handleReconcile_def not_less split: sum.split)
  qed
qed

lemma unwrapped_query_filters: "NostrFilterGroup_unwrapped L filt m = Inr fg \<Longrightarrow> \<forall>f\<in>set fg. query_filter f"
  by (auto simp: NostrFilterGroup_unwrapped_def bindE_eq_Inr dest!: req_query_filters)

section \<open>Sessions in every reachable state\<close>

definition views_ok :: "nat \<Rightarrow> 's neg_views \<Rightarrow> bool" where
  "views_ok maxSubs vs \<longleftrightarrow> (\<forall>c. distinct (map fst (views_of c vs)) \<and> length (views_of c vs) \<le> maxSubs)"

lemma delete_length: "length (AList.delete k xs) \<le> length xs"
  by (simp add: AList.delete_eq)

lemma views_ok_remove: "views_ok m vs \<Longrightarrow> views_ok m (removeView c i vs)"
  by (auto simp: views_ok_def removeView_def Let_def distinct_delete intro: order_trans [OF delete_length] split: option.split)

lemma update_length: "length (AList.update k v xs) = (if k \<in> fst ` set xs then length xs else Suc (length xs))"
  by (induction xs) (auto simp: image_iff)

lemma views_ok_add: "views_ok m vs \<Longrightarrow> views_ok m (snd (add_view m c i v vs))"
proof -
  assume "views_ok m vs"
  then have "views_ok m (fresh_views c i vs)" by (simp add: fresh_views_def views_ok_remove)
  moreover have "snd (add_view m c i v vs) = (let cv = views_of c (fresh_views c i vs)
      in if length cv \<ge> m then AList.update c cv (fresh_views c i vs) else AList.update c (AList.update i v cv) (fresh_views c i vs))"
    by (simp add: add_view_def fresh_views_def Let_def)
  ultimately show ?thesis by (simp add: views_ok_def Let_def distinct_update update_length)
qed

lemma views_ok_set: "views_ok m vs \<Longrightarrow> findView c i vs \<noteq> None \<Longrightarrow> views_ok m (set_view c i v vs)"
  by (auto simp: views_ok_def set_view_def distinct_update update_length findView_of map_of_eq_None_iff)

lemma views_ok_close: "views_ok m vs \<Longrightarrow> views_ok m (views_closeConn c vs)"
  by (simp add: views_ok_def views_closeConn_def)

lemma views_ok_reconcile: "handleReconcile L c i r w = Inr w' \<Longrightarrow> views_ok m (fst w) \<Longrightarrow> views_ok m (fst w')"
  by (auto simp: handleReconcile_def views_ok_remove split: sum.splits if_splits)

lemma views_ok_batch: "neg_onEventBatch sub ls w = Inr w' \<Longrightarrow> views_ok m (fst w) \<Longrightarrow> views_ok m (fst w')"
  by (auto simp: neg_onEventBatch_def views_ok_set split: option.splits user_view.splits)

lemma views_ok_complete:
  assumes "neg_onComplete P N db sub w = Inr w'" "views_ok m (fst w)"
  shows "views_ok m (fst w')"
proof (cases "findView (sub_connId sub) (sub_subId sub) (fst w)")
  case (Some v)
  show ?thesis
  proof (cases v)
    case (MemoryView msg vec ls)
    let ?set = "\<lambda>v. set_view (sub_connId sub) (sub_subId sub) v"
    show ?thesis
    proof (cases "length ls > unat (rc_negentropy_maxSyncEvents (rp_cfg P))")
      case False
      with assms(1) obtain vec' w1 where w1: "handleReconcile (rp_lib P) (sub_connId sub) (sub_subId sub) (ng_reconcile N vec' msg)
          (?set (MemoryView msg vec' []) (fst w), snd w) = Inr w1"
        "(case findView (sub_connId sub) (sub_subId sub) (fst w1) of
            Some (MemoryView _ vec' ids) \<Rightarrow> Inr (?set (MemoryView [] vec' ids) (fst w1), snd w1) | _ \<Rightarrow> Inl UB) = Inr w'"
        unfolding neg_onComplete_def Let_def Some MemoryView by (auto simp: bindE_eq_Inr)
      then obtain v1 where "findView (sub_connId sub) (sub_subId sub) (fst w1) \<noteq> None" "fst w' = ?set v1 (fst w1)"
        by (auto split: option.splits user_view.splits)
      moreover have "views_ok m (fst w1)" by (rule views_ok_reconcile [OF w1(1)]) (simp add: views_ok_set assms(2) Some)
      ultimately show ?thesis by (simp add: views_ok_set)
    qed (use assms Some MemoryView in \<open>auto simp: neg_onComplete_def Let_def views_ok_remove\<close>)
  qed (use assms Some in \<open>auto simp: neg_onComplete_def Let_def\<close>)
qed (use assms in \<open>auto simp: neg_onComplete_def Let_def\<close>)

lemma views_ok_process:
  assumes "sched_inv s" "views_ok m (fst w)" "neg_process n P N clock db (s, t, w) = Some (Inr (s', t', w'))"
  shows "sched_inv s' \<and> views_ok m (fst w')"
proof -
  have run: "sched_process n (rp_env P) (rp_lib P) clock db (neg_cbs P N db) (rc_queryTimesliceBudgetMicroseconds (rp_cfg P)) (s, t, w) = Some (Inr (s', t', w'))"
    using assms(3) by (simp add: neg_process_def)
  from assms(1) run have "views_ok m (fst w')"
  proof (cases rule: sched_process_cases)
    case (turn a q)
    obtain fin q' w1 batch w2 batch' where p:
      "process n (rp_env P) (rp_lib P) clock db (sched_event (rp_env P) db (neg_cbs P N db) (dq_sub q)) (rc_queryTimesliceBudgetMicroseconds (rp_cfg P))
         (q, t, w, qs_levIdBatch s) = Some (Inr (fin, q', t', w1, batch))"
      "neg_onEventBatch (dq_sub q) batch w1 = Inr w2" "if fin then neg_onComplete P N db (dq_sub q) w2 = Inr w' else w' = w2"
      by (rule sched_process_turn [OF assms(1) turn(3,1,2) run]) (auto simp: neg_cbs_def bindE_eq_Inr split: if_splits)
    have "fst (w1, batch) = w" using process_frame [OF p(1), of "\<lambda>c. fst c = w"] by (auto simp: sched_event_def neg_cbs_def Let_def)
    then have "views_ok m (fst w2)" using views_ok_batch [OF p(2)] assms(2) by simp
    then show ?thesis using p(3) views_ok_complete [of P N db "dq_sub q" w2 w' m] by (auto split: if_splits)
  qed (use assms(2) in auto)
  then show ?thesis using sched_process_inv [OF assms(1) run] by simp
qed

lemma views_ok_open_tree:
  assumes "neg_open_tree P N db sub treeId payload (s, t, w) = Inr (s', t', w')" "sched_inv s" "views_ok (rc_maxSubsPerConnection (rp_cfg P)) (fst w)"
  shows "sched_inv s' \<and> views_ok (rc_maxSubsPerConnection (rp_cfg P)) (fst w')"
proof -
  let ?c = "sub_connId sub" and ?i = "sub_subId sub" and ?m = "rc_maxSubsPerConnection (rp_cfg P)"
  obtain r vs1 rl1 where r: "handleReconcile (rp_lib P) ?c ?i r w = Inr (vs1, rl1)"
    "(case addStatelessView ?m ?c ?i sub treeId vs1 of (True, vs2) \<Rightarrow> Inr (s, t, vs2, rl1)
       | (False, vs2) \<Rightarrow> bindE (sched_removeSub ?c ?i s) (\<lambda>queries1. Inr (queries1, t, vs2, sendNoticeError (rp_lib P) ?c ''too many concurrent NEG requests'' rl1))) = Inr (s', t', w')"
    using assms(1) by (auto simp: neg_open_tree_def Let_def bindE_eq_Inr)
  have "views_ok ?m (fst (vs1, rl1))" by (rule views_ok_reconcile [OF r(1) assms(3)])
  then have "views_ok ?m (snd (addStatelessView ?m ?c ?i sub treeId vs1))" by (simp add: addStatelessView_def views_ok_add)
  moreover obtain s1 where "sched_removeSub ?c ?i s = Inr s1" "sched_inv s1" by (rule removeSub_inv [OF assms(2), of ?c ?i]) (rule that)
  ultimately show ?thesis using r(2) assms(2) by (cases "addStatelessView ?m ?c ?i sub treeId vs1") (auto split: bool.splits)
qed

lemma views_ok_open_query:
  assumes "neg_open_query n P N clock db sub payload (s, t, w) = Some (Inr (s', t', w'))" "sched_inv s" "views_ok (rc_maxSubsPerConnection (rp_cfg P)) (fst w)"
  shows "sched_inv s' \<and> views_ok (rc_maxSubsPerConnection (rp_cfg P)) (fst w')"
proof -
  let ?c = "sub_connId sub" and ?i = "sub_subId sub" and ?m = "rc_maxSubsPerConnection (rp_cfg P)"
  obtain ok s1 where s1: "sched_addSub (rp_env P) ?m db sub s = Inr (ok, s1)" "sched_inv s1" by (rule addSub_inv [OF assms(2), of "rp_env P" ?m db sub]) (rule that)
  obtain s2 where s2: "sched_removeSub ?c ?i s1 = Inr s2" "sched_inv s2" by (rule removeSub_inv [OF s1(2), of ?c ?i]) (rule that)
  obtain vs rl where w: "w = (vs, rl)" by (cases w)
  have "views_ok ?m (snd (addMemoryView N ?m ?c ?i payload vs))" unfolding addMemoryView_def by (rule views_ok_add) (use assms(3) w in simp)
  moreover obtain added vs1 where "addMemoryView N ?m ?c ?i payload vs = (added, vs1)" by (cases "addMemoryView N ?m ?c ?i payload vs")
  ultimately obtain s3 w3 where st3: "neg_process n P N clock db (s3, t, w3) = Some (Inr (s', t', w'))" "sched_inv s3" "views_ok ?m (fst w3)"
    using assms(1) s1 s2 by (cases added) (auto simp: neg_open_query_def w Let_def)
  show ?thesis by (rule views_ok_process [OF st3(2,3,1)])
qed

lemma views_ok_msg:
  assumes "neg_msg n P N clock db msg (s, t, w) = Some (Inr (s', t', w'))" "sched_inv s" "views_ok (rc_maxSubsPerConnection (rp_cfg P)) (fst w)"
  shows "sched_inv s' \<and> views_ok (rc_maxSubsPerConnection (rp_cfg P)) (fst w')"
proof (cases msg)
  case (NegOpen sub filterStr payload)
  then show ?thesis using assms(1) views_ok_open_tree [OF _ assms(2,3), of N db sub _ payload t s' t' w']
      views_ok_open_query [OF _ assms(2,3), of n N clock db sub payload t s' t' w']
    by (cases "find_tree (rp_env P) db filterStr") auto
next
  case (NegMsg c i payload)
  then have msg: "neg_message P N db c i payload w = Inr w'" "s' = s" using assms(1) by (auto simp: bindE_eq_Inr)
  then have "fst w' = fst w \<or> (\<exists>r. handleReconcile (rp_lib P) c i r w = Inr w')"
    by (auto simp: neg_message_def bindE_eq_Inr split: option.splits user_view.splits if_splits)
  then show ?thesis using msg(2) assms(2,3) views_ok_reconcile [of "rp_lib P" c i _ w w'] by metis
next
  case (NegClose c i)
  obtain s1 where "sched_removeSub c i s = Inr s1" "sched_inv s1" by (rule removeSub_inv [OF assms(2), of c i]) (rule that)
  then show ?thesis using NegClose assms by (auto simp: views_ok_remove)
next
  case (NegCloseConn c)
  obtain s1 where "sched_closeConn c s = Inr s1" "sched_inv s1" by (rule closeConn_inv [OF assms(2), of c]) (rule that)
  then show ?thesis using NegCloseConn assms by (auto simp: views_ok_close)
qed

lemma views_ok_rounds:
  "neg_rounds n P N clock rounds (s, t, w) = Some (Inr (s', t', w')) \<Longrightarrow> sched_inv s \<Longrightarrow> views_ok (rc_maxSubsPerConnection (rp_cfg P)) (fst w) \<Longrightarrow>
    sched_inv s' \<and> views_ok (rc_maxSubsPerConnection (rp_cfg P)) (fst w')"
proof (induction rounds arbitrary: s t w)
  case (Cons r rounds)
  obtain db msgs where r: "r = (db, msgs)" by fastforce
  have msgs: "neg_msgs n P N clock db ms (s, t, w) = Some (Inr (s1, t1, w1)) \<Longrightarrow> sched_inv s \<Longrightarrow> views_ok (rc_maxSubsPerConnection (rp_cfg P)) (fst w) \<Longrightarrow>
    sched_inv s1 \<and> views_ok (rc_maxSubsPerConnection (rp_cfg P)) (fst w1)" for ms s t w s1 t1 w1
  proof (induction ms arbitrary: s t w)
    case (Cons m ms)
    then obtain s2 t2 w2 where "neg_msg n P N clock db m (s, t, w) = Some (Inr (s2, t2, w2))" "neg_msgs n P N clock db ms (s2, t2, w2) = Some (Inr (s1, t1, w1))"
      by (auto split: option.splits sum.splits)
    then show ?case using Cons.IH [of s2 t2 w2] views_ok_msg [OF _ Cons.prems(2,3)] by blast
  qed simp
  obtain s1 t1 w1 where "neg_msgs n P N clock db msgs (s, t, w) = Some (Inr (s1, t1, w1))" and
    later: "\<exists>s2 t2 w2. neg_process n P N clock db (s1, t1, w1) = Some (Inr (s2, t2, w2)) \<and> neg_rounds n P N clock rounds (s2, t2, w2) = Some (Inr (s', t', w'))"
    using Cons.prems(1) by (auto simp: r neg_round_def split: option.splits sum.splits)
  then have one: "sched_inv s1" "views_ok (rc_maxSubsPerConnection (rp_cfg P)) (fst w1)" using msgs [OF _ Cons.prems(2,3)] by simp_all
  obtain s2 t2 w2 where two: "neg_process n P N clock db (s1, t1, w1) = Some (Inr (s2, t2, w2))" "neg_rounds n P N clock rounds (s2, t2, w2) = Some (Inr (s', t', w'))"
    using later by (elim exE conjE)
  have "sched_inv s2 \<and> views_ok (rc_maxSubsPerConnection (rp_cfg P)) (fst w2)" by (rule views_ok_process [OF one two(1)])
  then show ?case using Cons.IH [OF two(2)] by simp
qed simp

section \<open>Properties\<close>

text \<open>
  C8. Opening a session.  A thread with nothing else to do takes a NEG-OPEN for which there is no
  precomputed tree, over a database that stays as it is, with a first message that the library
  accepts.  After some rounds, however often the query was interrupted, the client has been
  told that there are too many events, and the session is gone; or the session has a vector of
  exactly the events of the answer to its filter, and the client has been sent what the
  library answers to the first message from this vector.
\<close>

theorem neg_open_exact:
  assumes "scan_env (rp_lib P) (rp_env P) key_le tree_items" "neg_vector N contents" "holds (rp_env P) (rp_lib P) tree_items fs db M" "consistent M"
    and "lookup_Event (rp_env P) db 0 = None" "small_times M"
    and "NostrFilterGroup_unwrapped (rp_lib P) filt limit = Inr (sub_filterGroup sub)" "\<forall>f\<in>set (sub_filterGroup sub). few_values f"
    and "sched_inv s" "qs_running s = []" "qs_levIdBatch s = []" "find_tree (rp_env P) db filterStr = None"
    and "length (views_of (sub_connId sub) (fresh_views (sub_connId sub) (sub_subId sub) vs)) < rc_maxSubsPerConnection (rp_cfg P)"
    and "tpWebsocket rl \<noteq> []" "\<And>vec. ng_sealed N vec \<Longrightarrow> \<exists>resp. ng_reconcile N vec payload = Inr resp"
  shows "\<exists>k m. \<forall>n\<ge>m. \<exists>s' t' vs' rl'.
    neg_rounds n P N clock ((db, [NegOpen sub filterStr payload]) # replicate k (db, [])) (s, t, vs, rl) = Some (Inr (s', t', vs', rl')) \<and> qs_running s' = [] \<and>
    (let ls = query_answer M (getMostRecentLevId (rp_env P) db) (sub_filterGroup sub); i = SubId_sv (sub_subId sub); maxEvents = rc_negentropy_maxSyncEvents (rp_cfg P);
       out = (\<lambda>parts. inbox 0 (tpWebsocket rl') = inbox 0 (tpWebsocket rl) @ [WsSend (sub_connId sub) (json_to_string (rp_lib P) (JArray parts))])
     in if length ls > unat maxEvents
        then findView (sub_connId sub) (sub_subId sub) vs' = None \<and> out [JString ''NEG-ERR'', JString i, JString ''blocked: too many query results'', JUnsigned maxEvents]
        else \<exists>vec resp. findView (sub_connId sub) (sub_subId sub) vs' = Some (MemoryView [] vec []) \<and> ng_sealed N vec \<and>
          set (contents vec) = element M ` set ls \<and> ng_reconcile N vec payload = Inr resp \<and>
          out [JString ''NEG-MSG'', JString i, JString (to_hex (rp_lib P) resp)])"
proof -
  let ?ls = "query_answer M (getMostRecentLevId (rp_env P) db) (sub_filterGroup sub)"
  let ?sub = "sub\<lparr>sub_latestEventId := getMostRecentLevId (rp_env P) db\<rparr>"
  let ?vs = "set_view (sub_connId sub) (sub_subId sub) (MemoryView payload (ng_new N) ?ls) (fresh_views (sub_connId sub) (sub_subId sub) vs)"
  have filters: "\<forall>f\<in>set (sub_filterGroup sub). query_filter f \<and> few_values f" using unwrapped_query_filters [OF assms(7)] assms(8) by blast
  have env: "event_env (rp_lib P) (rp_env P) key_le tree_items" using assms(1) by (simp add: scan_env_def)
  have fin: "finite (dom M)" by (rule event_env.finite_store [OF env assms(3)])
  have stored: "\<forall>l\<in>set ?ls. M l \<noteq> None" "distinct ?ls" using answer_stored [OF fin] answer_distinct [OF fin] by blast+
  note run = neg_open_outcome [OF assms(1,3,5,6) filters assms(9-13) refl refl refl, where payload = payload and N = N and clock = clock and t = t and rl = rl]
  show ?thesis
  proof (cases "length ?ls > unat (rc_negentropy_maxSyncEvents (rp_cfg P))")
    case True
    then have "neg_onComplete P N db ?sub (?vs, rl) = Inr (removeView (sub_connId sub) (sub_subId sub) ?vs, neg_send (rp_lib P) (sub_connId sub)
        [JString ''NEG-ERR'', JString (SubId_sv (sub_subId sub)), JString ''blocked: too many query results'', JUnsigned (rc_negentropy_maxSyncEvents (rp_cfg P))] rl)"
      by (simp add: neg_onComplete_def Let_def)
    then show ?thesis by (rule neg_open_completes [OF run]) (use True inbox_neg_send [OF assms(14)] in \<open>simp add: Let_def\<close>)
  next
    case False
    obtain vec where vec: "ng_sealed N vec" "set (contents vec) = element M ` set ?ls"
      "neg_onComplete P N db ?sub (?vs, rl) = (case ng_reconcile N vec payload of Inl _ \<Rightarrow> Inl UB
         | Inr resp \<Rightarrow> Inr (set_view (sub_connId ?sub) (sub_subId ?sub) (MemoryView [] vec []) ?vs, neg_send (rp_lib P) (sub_connId ?sub)
           [JString ''NEG-MSG'', JString (SubId_sv (sub_subId ?sub)), JString (to_hex (rp_lib P) resp)] rl))"
      by (rule neg_complete_fits [OF assms(2) env assms(3,4) stored, where sub = ?sub and vs = ?vs and payload = payload and rl = rl]) (use False in \<open>simp_all add: not_less\<close>)
    obtain resp where resp: "ng_reconcile N vec payload = Inr resp" using assms(15) vec(1) by blast
    have "neg_onComplete P N db ?sub (?vs, rl) = Inr (set_view (sub_connId sub) (sub_subId sub) (MemoryView [] vec []) ?vs, neg_send (rp_lib P) (sub_connId sub)
        [JString ''NEG-MSG'', JString (SubId_sv (sub_subId sub)), JString (to_hex (rp_lib P) resp)] rl)" using vec(3) resp by simp
    then show ?thesis by (rule neg_open_completes [OF run]) (use False vec(1,2) resp inbox_neg_send [OF assms(14)] in \<open>simp add: Let_def\<close>)
  qed
qed

text \<open>
  C38. A NEG-OPEN with a first message that the library refuses is undefined behaviour: handling the
  error removes the session, and after that the first message of the session is cleared
  through a pointer to it.
\<close>

theorem neg_bad_payload_undefined:
  assumes "scan_env (rp_lib P) (rp_env P) key_le tree_items" "neg_vector N contents" "holds (rp_env P) (rp_lib P) tree_items fs db M" "consistent M"
    and "lookup_Event (rp_env P) db 0 = None" "small_times M"
    and "NostrFilterGroup_unwrapped (rp_lib P) filt limit = Inr (sub_filterGroup sub)" "\<forall>f\<in>set (sub_filterGroup sub). few_values f"
    and "sched_inv s" "qs_running s = []" "qs_levIdBatch s = []" "find_tree (rp_env P) db filterStr = None"
    and "length (views_of (sub_connId sub) (fresh_views (sub_connId sub) (sub_subId sub) vs)) < rc_maxSubsPerConnection (rp_cfg P)"
    and "length (query_answer M (getMostRecentLevId (rp_env P) db) (sub_filterGroup sub)) \<le> unat (rc_negentropy_maxSyncEvents (rp_cfg P))"
    and "\<And>vec. ng_sealed N vec \<Longrightarrow> \<exists>e. ng_reconcile N vec payload = Inl e"
  shows "\<exists>k m. \<forall>n\<ge>m. neg_rounds n P N clock ((db, [NegOpen sub filterStr payload]) # replicate k (db, [])) (s, t, vs, rl) = Some (Inl UB)"
proof -
  let ?ls = "query_answer M (getMostRecentLevId (rp_env P) db) (sub_filterGroup sub)"
  let ?sub = "sub\<lparr>sub_latestEventId := getMostRecentLevId (rp_env P) db\<rparr>"
  let ?vs = "set_view (sub_connId sub) (sub_subId sub) (MemoryView payload (ng_new N) ?ls) (fresh_views (sub_connId sub) (sub_subId sub) vs)"
  have filters: "\<forall>f\<in>set (sub_filterGroup sub). query_filter f \<and> few_values f" using unwrapped_query_filters [OF assms(7)] assms(8) by blast
  have env: "event_env (rp_lib P) (rp_env P) key_le tree_items" using assms(1) by (simp add: scan_env_def)
  have fin: "finite (dom M)" by (rule event_env.finite_store [OF env assms(3)])
  have stored: "\<forall>l\<in>set ?ls. M l \<noteq> None" "distinct ?ls" using answer_stored [OF fin] answer_distinct [OF fin] by blast+
  obtain vec where vec: "ng_sealed N vec" "neg_onComplete P N db ?sub (?vs, rl) = (case ng_reconcile N vec payload of Inl _ \<Rightarrow> Inl UB
       | Inr resp \<Rightarrow> Inr (set_view (sub_connId ?sub) (sub_subId ?sub) (MemoryView [] vec []) ?vs, neg_send (rp_lib P) (sub_connId ?sub)
         [JString ''NEG-MSG'', JString (SubId_sv (sub_subId ?sub)), JString (to_hex (rp_lib P) resp)] rl))"
    by (rule neg_complete_fits [OF assms(2) env assms(3,4) stored, where sub = ?sub and vs = ?vs and payload = payload and rl = rl]) (use assms(14) in simp_all)
  obtain e where "ng_reconcile N vec payload = Inl e" using assms(15) vec(1) by blast
  then have "neg_onComplete P N db ?sub (?vs, rl) = Inl UB" using vec(2) by simp
  then show ?thesis using neg_open_outcome [OF assms(1,3,5,6) filters assms(9-13) refl refl refl, where payload = payload and N = N and clock = clock and t = t and rl = rl] by auto
qed

text \<open>
  In every state that the thread reaches, whatever the clients send and whatever the library
  answers, no connection has more sessions than the configuration allows, and none has two with
  the same subscription id.
\<close>

theorem neg_sessions_bounded:
  assumes "neg_rounds n P N clock rounds (empty_scheduler, t, [], rl) = Some (Inr (s, t', vs, rl'))"
  shows "distinct (map fst (views_of c vs)) \<and> length (views_of c vs) \<le> rc_maxSubsPerConnection (rp_cfg P)"
proof -
  have "sched_inv s \<and> views_ok (rc_maxSubsPerConnection (rp_cfg P)) (fst (vs, rl'))"
    by (rule views_ok_rounds [OF assms sched_inv_empty]) (simp add: views_ok_def views_of_def)
  then show ?thesis by (simp add: views_ok_def)
qed

text \<open>
  C39. A second NEG-OPEN ends the relay.  While the query of a session is still running, the client
  opens a session with the same id and a filter for which there is a precomputed tree.  This
  replaces the session but does not stop the query, whose next events meet a session of the
  wrong kind: the exception leaves the loop of the thread.
\<close>

theorem neg_reopen_throws:
  assumes "scan_env (rp_lib P) (rp_env P) key_le tree_items" "holds (rp_env P) (rp_lib P) tree_items fs db M"
    and "lookup_Event (rp_env P) db 0 = None" "small_times M"
    and "sched_inv s" "all_resumable s" "qs_running s = [a]" "qs_heap s a = Some q" "\<not> dq_dead q"
    and "scan_env.query_ok (rp_lib P) (rp_env P) key_le db q" "qs_levIdBatch s = []"
    and "sub_connId sub = sub_connId (dq_sub q)" "sub_subId sub = sub_subId (dq_sub q)"
    and "find_tree (rp_env P) db filterStr = Some treeId" "tree_reconcile N db treeId sub payload = Inr r" "r \<noteq> Inl UB"
    and "length (views_of (sub_connId sub) (fresh_views (sub_connId sub) (sub_subId sub) vs)) < rc_maxSubsPerConnection (rp_cfg P)"
  shows "\<exists>m. \<forall>n\<ge>m. neg_round n P N clock db [NegOpen sub filterStr payload] (s, t, vs, rl) = Some (Inl (Herr ''bad variant, expected memory view''))"
proof -
  let ?c = "sub_connId sub" and ?i = "sub_subId sub" and ?C = "neg_cbs P N db" and ?budget = "rc_queryTimesliceBudgetMicroseconds (rp_cfg P)"
  obtain vs1 rl1 where one: "handleReconcile (rp_lib P) ?c ?i r (vs, rl) = Inr (vs1, rl1)" "fresh_views ?c ?i vs1 = fresh_views ?c ?i vs"
    using assms(16) by (cases r) (auto simp: handleReconcile_def)
  have "addStatelessView (rc_maxSubsPerConnection (rp_cfg P)) ?c ?i sub treeId vs1 = (True, set_view ?c ?i (StatelessView sub treeId) (fresh_views ?c ?i vs1))"
    using assms(17) by (simp add: one(2) [symmetric]) (simp add: addStatelessView_def add_view_def set_view_def fresh_views_def Let_def)
  then have opened: "neg_open_tree P N db sub treeId payload (s, t, vs, rl) = Inr (s, t, set_view ?c ?i (StatelessView sub treeId) (fresh_views ?c ?i vs), rl1)"
    using one assms(15) by (simp add: neg_open_tree_def Let_def)
  let ?w = "(set_view ?c ?i (StatelessView sub treeId) (fresh_views ?c ?i vs), rl1)"
  have cbs: "cb_onEvent ?C = None" "cb_onEventBatch ?C = Some neg_onEventBatch" "cb_onComplete ?C = Some (neg_onComplete P N db)" "\<not> cb_ensureExists ?C"
    by (simp_all add: neg_cbs_def)
  have "qs_running s \<noteq> []" using assms(7) by simp
  then obtain m x where turn: "\<forall>n\<ge>m. sched_process n (rp_env P) (rp_lib P) clock db ?C ?budget (s, t, ?w) = Some x"
    by (rule scan_env.sched_turn_progress [OF assms(1,2,3,5,6)])
  obtain full ys where "scan_env.outcome (rp_env P) db M (\<lambda>l xs. Inr (xs @ [l])) q [] = Inr (full, ys)"
    using scan_env.outcome_total [OF assms(1,2), of "\<lambda>l xs. Inr (xs @ [l])" q "[]"] by auto
  then have come: "scan_env.yet_to_come (rp_env P) db M q ys" by (auto simp: scan_env.yet_to_come_def [OF assms(1)])
  have bad: "neg_onEventBatch (dq_sub q) zs ?w = Inl (Herr ''bad variant, expected memory view'')" for zs
    using assms(12,13) by (simp add: neg_onEventBatch_def)
  have "neg_round n P N clock db [NegOpen sub filterStr payload] (s, t, vs, rl) = Some (Inl (Herr ''bad variant, expected memory view''))" if n: "n \<ge> m" for n
  proof -
    obtain finished q' t' zs where p: "process n (rp_env P) (rp_lib P) clock db (sched_event (rp_env P) db ?C (dq_sub q)) ?budget (q, t, ?w, []) =
        Some (Inr (finished, q', t', ?w, zs))" "dq_sub q' = dq_sub q"
      using scan_env.batch_turn [OF assms(1,2,4,5,7-10) cbs assms(11) come turn [rule_format, OF n]] by blast
    have "sched_process n (rp_env P) (rp_lib P) clock db ?C ?budget (s, t, ?w) = Some (Inl (Herr ''bad variant, expected memory view''))"
      using assms(7,8,9,11) p cbs bad by (simp add: sched_process_def)
    then show ?thesis using opened assms(14) by (simp add: neg_round_def neg_process_def)
  qed
  then show ?thesis by blast
qed

section \<open>An example\<close>

text \<open>A vector as a list with a flag; a message is refused when it is empty, and echoed otherwise.\<close>

definition demo_neg :: "(mem_db, (u64 \<times> string) list \<times> bool) neg_lib" where
  "demo_neg = \<lparr>ng_new = ([], False),
     ng_insert = (\<lambda>st t i. if snd st \<or> length i \<noteq> 32 then Inl (LibError ''bad insert'') else Inr (fst st @ [(t, i)], False)),
     ng_seal = (\<lambda>st. if snd st \<or> \<not> distinct (fst st) then Inl (LibError ''bad seal'') else Inr (fst st, True)),
     ng_sealed = snd, ng_reconcile = (\<lambda>_ msg. if msg = [] then Inl (LibError ''parse ends prematurely'') else Inr msg),
     ng_reconcile_tree = (\<lambda>_ _ _ _ msg. if msg = [] then Inl (LibError ''parse ends prematurely'') else Inr msg)\<rparr>"

interpretation demo_vector: neg_vector demo_neg fst
  by unfold_locales (simp_all add: demo_neg_def)

lemma demo_neg_facts:
  "NostrFilterGroup_unwrapped (rp_lib demo_relay_params) (JObject []) 500 = Inr (sub_filterGroup all_sub)"
  "find_tree (rp_env demo_relay_params) one_db ''{}'' = None"
  "length (views_of (sub_connId all_sub) (fresh_views (sub_connId all_sub) (sub_subId all_sub) ([] :: ((u64 \<times> string) list \<times> bool) neg_views)))
     < rc_maxSubsPerConnection (rp_cfg demo_relay_params)"
  "unat (rc_negentropy_maxSyncEvents (rp_cfg demo_relay_params)) = 1000000" "sched_inv empty_scheduler"
  "qs_running empty_scheduler = []" "qs_levIdBatch empty_scheduler = []"
proof -
  show "NostrFilterGroup_unwrapped (rp_lib demo_relay_params) (JObject []) 500 = Inr (sub_filterGroup all_sub)"
    by (simp add: demo_relay_params_def all_sub_def NostrFilterGroup_unwrapped_def NostrFilterGroup_def NostrFilterGroup_add_def
        NostrFilter_def any_filter_def throw_if_def Let_def empty_filter_def)
  show "sched_inv empty_scheduler" by (rule sched_inv_empty)
qed (simp_all add: demo_relay_params_def sample_relay_cfg_def find_tree_def one_db_def mem_env_def fresh_views_def findView_def views_of_def
    empty_scheduler_def)

theorem neg_open_exact_witness:
  "\<exists>n k s' t' vs' rl' vec. neg_rounds n demo_relay_params demo_neg (\<lambda>_. 0) ((one_db, [NegOpen all_sub ''{}'' ''a'']) # replicate k (one_db, []))
      (empty_scheduler, 0, [], relay_idle) = Some (Inr (s', t', vs', rl')) \<and>
    findView 7 (sub_subId all_sub) vs' = Some (MemoryView [] vec []) \<and> set (fst vec) = {(ev_created_at ev_old, ev_id ev_old)} \<and>
    inbox 0 (tpWebsocket rl') = [WsSend 7 (json_to_string le_lib (JArray [JString ''NEG-MSG'', JString (SubId_sv (sub_subId all_sub)), JString (to_hex le_lib ''a'')]))]"
proof -
  have accepts: "\<exists>resp. ng_reconcile demo_neg vec ''a'' = Inr resp" for vec by (simp add: demo_neg_def)
  have plain: "sub_connId all_sub = 7" "rp_lib demo_relay_params = le_lib" "inbox 0 (tpWebsocket relay_idle) = []"
    by (simp_all add: all_sub_def demo_relay_params_def relay_idle_def inbox_def)
  obtain k m where run: "\<forall>n\<ge>m. \<exists>s' t' vs' rl'. neg_rounds n demo_relay_params demo_neg (\<lambda>_. 0) ((one_db, [NegOpen all_sub ''{}'' ''a'']) # replicate k (one_db, []))
      (empty_scheduler, 0, [], relay_idle) = Some (Inr (s', t', vs', rl')) \<and> qs_running s' = [] \<and>
      (\<exists>vec resp. findView 7 (sub_subId all_sub) vs' = Some (MemoryView [] vec []) \<and> ng_sealed demo_neg vec \<and>
          set (fst vec) = element [1 \<mapsto> ev_old] ` {1} \<and> ng_reconcile demo_neg vec ''a'' = Inr resp \<and>
          inbox 0 (tpWebsocket rl') = [WsSend 7 (json_to_string le_lib (JArray [JString ''NEG-MSG'', JString (SubId_sv (sub_subId all_sub)), JString (to_hex le_lib resp)]))])"
    using neg_open_exact [OF demo_facts(1) demo_vector.neg_vector_axioms demo_facts(2) one_db_facts(3) demo_facts(3,4) demo_neg_facts(1) demo_facts(7)
      demo_neg_facts(5-7,2,3) demo_facts(9) accepts, of "\<lambda>_. 0" 0] unfolding demo_facts(11,12) demo_neg_facts(4) plain Let_def by auto
  then obtain s' t' vs' rl' vec resp where "neg_rounds m demo_relay_params demo_neg (\<lambda>_. 0) ((one_db, [NegOpen all_sub ''{}'' ''a'']) # replicate k (one_db, []))
      (empty_scheduler, 0, [], relay_idle) = Some (Inr (s', t', vs', rl'))" "findView 7 (sub_subId all_sub) vs' = Some (MemoryView [] vec [])"
    "set (fst vec) = element [1 \<mapsto> ev_old] ` {1}" "ng_reconcile demo_neg vec ''a'' = Inr resp"
    "inbox 0 (tpWebsocket rl') = [WsSend 7 (json_to_string le_lib (JArray [JString ''NEG-MSG'', JString (SubId_sv (sub_subId all_sub)), JString (to_hex le_lib resp)]))]"
    by blast
  moreover from this(4) have "resp = ''a''" by (simp add: demo_neg_def)
  moreover have "element [1 \<mapsto> ev_old] ` {1} = {(ev_created_at ev_old, ev_id ev_old)}" by (simp add: element_def)
  ultimately show ?thesis by blast
qed

theorem neg_bad_payload_undefined_witness:
  "\<exists>n k. neg_rounds n demo_relay_params demo_neg (\<lambda>_. 0) ((one_db, [NegOpen all_sub ''{}'' []]) # replicate k (one_db, []))
      (empty_scheduler, 0, [], relay_idle) = Some (Inl UB)"
proof -
  have refuses: "\<exists>e. ng_reconcile demo_neg vec [] = Inl e" for vec by (simp add: demo_neg_def)
  have few: "length (query_answer [1 \<mapsto> ev_old] (getMostRecentLevId (rp_env demo_relay_params) one_db) (sub_filterGroup all_sub))
      \<le> unat (rc_negentropy_maxSyncEvents (rp_cfg demo_relay_params))"
    unfolding demo_facts(11,12) demo_neg_facts(4) by simp
  show ?thesis
    using neg_bad_payload_undefined [OF demo_facts(1) demo_vector.neg_vector_axioms demo_facts(2) one_db_facts(3) demo_facts(3,4) demo_neg_facts(1) demo_facts(7)
      demo_neg_facts(5-7,2,3) few refuses, of "\<lambda>_. 0" 0 relay_idle] by blast
qed

theorem neg_sessions_bounded_witness:
  "\<exists>s t vs rl. neg_rounds 0 demo_relay_params demo_neg (\<lambda>_. 0) [(one_db, [NegClose 7 ''x''])] (empty_scheduler, 0, [], relay_idle) = Some (Inr (s, t, vs, rl)) \<and>
    length (views_of 7 vs) \<le> rc_maxSubsPerConnection (rp_cfg demo_relay_params)"
proof -
  have run: "neg_rounds 0 demo_relay_params demo_neg (\<lambda>_. 0) [(one_db, [NegClose 7 ''x''])] (empty_scheduler, 0, [], relay_idle) =
      Some (Inr (empty_scheduler, 0, [], relay_idle))"
    by (simp add: neg_round_def neg_process_def sched_process_def sched_removeSub_def findQuery_def conn_queries_def empty_scheduler_def removeView_def findView_def)
  show ?thesis using run neg_sessions_bounded [OF run] by blast
qed

text \<open>A database with a precomputed tree, and the query of a session under way.\<close>

definition tree_db :: mem_db where
  "tree_db = one_db\<lparr>md_filters := [(3, ''{}'')]\<rparr>"

definition busy_scheduler :: scheduler where
  "busy_scheduler = \<lparr>qs_heap = [0 \<mapsto> DBQuery all_sub], qs_next = 1, qs_conns = [(7, [(sub_subId all_sub, 0)])], qs_running = [0], qs_levIdBatch = []\<rparr>"

theorem neg_reopen_throws_witness:
  "\<exists>n. neg_round n demo_relay_params demo_neg (\<lambda>_. 0) tree_db [NegOpen all_sub ''{}'' ''a''] (busy_scheduler, 0, [], relay_idle) =
    Some (Inl (Herr ''bad variant, expected memory view''))"
proof -
  have holds: "holds (rp_env demo_relay_params) (rp_lib demo_relay_params) mem_tree_items [] tree_db [1 \<mapsto> ev_old]"
    using one_db_facts(4) by (auto simp: holds_def demo_relay_params_def tree_db_def one_db_def fun_eq_iff)
  have sched: "sched_inv busy_scheduler" "all_resumable busy_scheduler"
    by (auto simp: sched_inv_def busy_scheduler_def findQuery_def conn_queries_def all_resumable_def DBQuery_def all_sub_def resumable_def split: if_splits)
  have query: "scan_env.query_ok (rp_lib demo_relay_params) (rp_env demo_relay_params) mem_key_le tree_db (DBQuery all_sub)"
    by (rule scan_env.query_ok_DBQuery [OF demo_facts(1)]) (use unwrapped_query_filters [OF demo_neg_facts(1)] demo_facts(7) in simp)
  have state: "qs_running busy_scheduler = [0]" "qs_heap busy_scheduler 0 = Some (DBQuery all_sub)" "qs_levIdBatch busy_scheduler = []"
    "\<not> dq_dead (DBQuery all_sub)" "dq_sub (DBQuery all_sub) = all_sub"
    by (simp_all add: busy_scheduler_def DBQuery_def)
  have tree: "find_tree (rp_env demo_relay_params) tree_db ''{}'' = Some 3" "tree_reconcile demo_neg tree_db 3 all_sub ''a'' = Inr (Inr ''a'')"
    "lookup_Event (rp_env demo_relay_params) tree_db 0 = None"
    by (simp_all add: find_tree_def tree_db_def one_db_def demo_relay_params_def tree_reconcile_def all_sub_def demo_neg_def mem_env_def)
  show ?thesis
    using neg_reopen_throws [OF demo_facts(1) holds tree(3) demo_facts(4) sched state(1,2,4) query state(3), unfolded state(5), OF refl refl tree(1,2) _ demo_neg_facts(3),
      of "\<lambda>_. 0" 0 relay_idle] by auto
qed

end
