(* ===== verification/Relay_Websocket.thy ===== *)
theory Relay_Websocket
  imports Relay_Server
begin

text \<open>
  The websocket thread (\<^verbatim>\<open>src/src/apps/relay/RelayWebsocket.cpp\<close>): the table of connections, the
  callbacks of the websocket library, the pages it serves, and the messages of other threads
  that it sends out.

  The library (\<^verbatim>\<open>uWebSockets\<close>) calls back on one thread, so that a run is a list of events; what
  it promises is \<open>hub_ok\<close>: it reports a new connection under a handle that is not in use, and
  messages and the end only of connections that are open.  The \<^verbatim>\<open>Connection\<close> objects live on a
  heap, a websocket keeps a pointer to its object (\<^verbatim>\<open>setUserData\<close>), and following a pointer to a
  deleted object is undefined.  The theorem is that every run refines a plain list of open
  connections, and that the buffer in which events are rendered for many clients at once is
  never left and gives the text of a single answer.
\<close>

section \<open>State\<close>

record ws_conn =
  wc_websocket :: nat
  wc_connId :: u64
  wc_connectedTimestamp :: u64
  wc_ipAddr :: string
  bytesUp :: u64
  bytesUpCompressed :: u64
  bytesDown :: u64
  bytesDownCompressed :: u64

definition new_Connection :: "nat \<Rightarrow> u64 \<Rightarrow> u64 \<Rightarrow> ws_conn" where
  "new_Connection p connId now =
     \<lparr>wc_websocket = p, wc_connId = connId, wc_connectedTimestamp = now, wc_ipAddr = [],
      bytesUp = 0, bytesUpCompressed = 0, bytesDown = 0, bytesDownCompressed = 0\<rparr>"

datatype op_code = OpText | OpBinary

text \<open>A page is rendered when the version of the configuration is not the one it was made for.\<close>

record page =
  pg_ver :: u64
  pg_rendered :: string

record ws_thread =
  wt_heap :: "nat \<rightharpoonup> ws_conn"
  wt_fresh :: nat
  userData :: "nat \<rightharpoonup> nat"
  connIdToConnection :: "(u64 \<times> nat) list"
  nextConnectionId :: u64
  gracefulShutdown :: bool
  tempBuf :: string
  serverInfo :: page
  landingPage :: page
  nodeInfo :: page
  nodeInfo21 :: page
  frames :: "(nat \<times> op_code \<times> string) list"
  pages :: "string list"
  listening :: bool
  exit_status :: "nat option"

definition new_page :: page where
  "new_page = \<lparr>pg_ver = 0, pg_rendered = []\<rparr>"

definition ws_init :: ws_thread where
  "ws_init =
     \<lparr>wt_heap = Map.empty, wt_fresh = 0, userData = Map.empty, connIdToConnection = [], nextConnectionId = 1,
      gracefulShutdown = False, tempBuf = [], serverInfo = new_page, landingPage = new_page, nodeInfo = new_page,
      nodeInfo21 = new_page, frames = [], pages = [], listening = True, exit_status = None\<rparr>"

text \<open>
  The settings in force, which each event carries because they may change at any time, and the
  parts of other code: the template of the landing page is generated, the version comes from
  the build, and the library knows the compressed size of a frame after those before it.
\<close>

record ws_cfg =
  wsc_version :: u64
  wsc_realIpHeader :: string
  wsc_nips :: string
  wsc_maxWebsocketPayloadSize :: u64
  wsc_maxSubsPerConnection :: u64
  wsc_maxFilterLimit :: u64
  wsc_name :: string
  wsc_description :: string
  wsc_contact :: string
  wsc_pubkey :: string
  wsc_icon :: string

record ws_params =
  wp_lib :: lib
  wp_inet_ntop :: "bool \<Rightarrow> string \<Rightarrow> string"
  wp_inet_pton :: "bool \<Rightarrow> string \<Rightarrow> string option"
  APP_GIT_VERSION :: string
  PROTOCOL_VERSION :: u64
  wp_landing :: "string \<Rightarrow> string \<Rightarrow> u64 \<Rightarrow> string"
  wp_compressedSize :: "(nat \<times> op_code \<times> string) list \<Rightarrow> u64"

section \<open>Pages\<close>

definition crlf :: string where
  "crlf = [CHR 0x0D, CHR 0x0A]"

definition preGenerateHttpResponse :: "string \<Rightarrow> string \<Rightarrow> string" where
  "preGenerateHttpResponse contentType content =
     ''HTTP/1.1 200 OK'' @ crlf @ ''Content-Type: '' @ contentType @ crlf @ ''Access-Control-Allow-Origin: *'' @ crlf @
     ''Connection: keep-alive'' @ crlf @ ''Server: strfry'' @ crlf @ ''Content-Length: '' @ show_nat (length content) @ crlf @
     crlf @ content"

definition supportedNips :: "ws_params \<Rightarrow> ws_cfg \<Rightarrow> json" where
  "supportedNips P cfg =
     (let dflt = JArray (map JSigned [1, 2, 4, 9, 11, 22, 28, 40, 70, 77])
      in if length (wsc_nips cfg) = 0 then dflt
         else case json_from_string (wp_lib P) (wsc_nips cfg) of Inr v \<Rightarrow> v | Inl _ \<Rightarrow> dflt)"

definition opt_field :: "string \<Rightarrow> string \<Rightarrow> (string \<times> json) list" where
  "opt_field k v = (if length v \<noteq> 0 then [(k, JString v)] else [])"

definition nip11 :: "ws_params \<Rightarrow> ws_cfg \<Rightarrow> json" where
  "nip11 P cfg = JObject (
     opt_field ''contact'' (wsc_contact cfg) @ opt_field ''description'' (wsc_description cfg) @
     opt_field ''icon'' (wsc_icon cfg) @
     [(''limitation'', JObject [(''max_limit'', JUnsigned (wsc_maxFilterLimit cfg)),
                                (''max_message_length'', JUnsigned (wsc_maxWebsocketPayloadSize cfg)),
                                (''max_subscriptions'', JUnsigned (wsc_maxSubsPerConnection cfg))])] @
     opt_field ''name'' (wsc_name cfg) @
     [(''negentropy'', JUnsigned (PROTOCOL_VERSION P - 0x60))] @
     opt_field ''pubkey'' (wsc_pubkey cfg) @
     [(''software'', JString ''git+https://github.com/hoytech/strfry.git''),
      (''supported_nips'', supportedNips P cfg), (''version'', JString (APP_GIT_VERSION P))])"

definition refresh_page :: "ws_cfg \<Rightarrow> string \<Rightarrow> page \<Rightarrow> page" where
  "refresh_page cfg rendered_now pg =
     (if pg_ver pg \<noteq> wsc_version cfg then \<lparr>pg_ver = wsc_version cfg, pg_rendered = rendered_now\<rparr> else pg)"

definition getServerInfoHttpResponse :: "ws_params \<Rightarrow> ws_cfg \<Rightarrow> page \<Rightarrow> page" where
  "getServerInfoHttpResponse P cfg =
     refresh_page cfg (preGenerateHttpResponse ''application/json'' (json_to_string (wp_lib P) (nip11 P cfg)))"

definition getLandingPageHttpResponse :: "ws_params \<Rightarrow> ws_cfg \<Rightarrow> page \<Rightarrow> page" where
  "getLandingPageHttpResponse P cfg =
     refresh_page cfg (preGenerateHttpResponse ''text/html''
       (wp_landing P (json_to_string (wp_lib P) (supportedNips P cfg)) (APP_GIT_VERSION P) (PROTOCOL_VERSION P - 0x60)))"

definition nodeinfo_links :: "string \<Rightarrow> json" where
  "nodeinfo_links host = JObject [(''links'', JArray [JObject [
     (''href'', JString (''https://'' @ host @ ''/nodeinfo/2.1'')),
     (''rel'', JString ''http://nodeinfo.diaspora.software/ns/schema/2.1'')]])]"

definition getNodeInfoHttpResponse :: "ws_params \<Rightarrow> ws_cfg \<Rightarrow> string \<Rightarrow> page \<Rightarrow> page" where
  "getNodeInfoHttpResponse P cfg host =
     refresh_page cfg (preGenerateHttpResponse ''application/json'' (json_to_string (wp_lib P) (nodeinfo_links host)))"

definition nodeinfo21 :: "ws_params \<Rightarrow> json" where
  "nodeinfo21 P = JObject [
     (''metadata'', JObject [(''features'', JArray [JString ''nostr_relay''])]),
     (''openRegistrations'', JBool False),
     (''protocols'', JArray [JString ''nostr'']),
     (''services'', JObject [(''inbound'', JArray []), (''outbound'', JArray [])]),
     (''software'', JObject [(''homepage'', JString ''https://github.com/hoytech/strfry''), (''name'', JString ''strfry''),
                             (''repository'', JString ''https://github.com/hoytech/strfry''),
                             (''version'', JString (APP_GIT_VERSION P))]),
     (''usage'', JObject [(''users'', JObject [])]),
     (''version'', JString ''2.1'')]"

definition getNodeInfo21HttpResponse :: "ws_params \<Rightarrow> ws_cfg \<Rightarrow> page \<Rightarrow> page" where
  "getNodeInfo21HttpResponse P cfg =
     refresh_page cfg (preGenerateHttpResponse ''application/json'' (json_to_string (wp_lib P) (nodeinfo21 P)))"

definition write_page :: "page \<Rightarrow> ws_thread \<Rightarrow> ws_thread" where
  "write_page pg st = st\<lparr>pages := pages st @ [pg_rendered pg]\<rparr>"

definition onHttpRequest :: "ws_params \<Rightarrow> ws_cfg \<Rightarrow> (string \<Rightarrow> string) \<Rightarrow> string \<Rightarrow> ws_thread \<Rightarrow> ws_thread" where
  "onHttpRequest P cfg getHeader url st =
     (let host = getHeader ''host''
      in if url = ''/.well-known/nodeinfo''
         then let pg = getNodeInfoHttpResponse P cfg host (nodeInfo st) in write_page pg (st\<lparr>nodeInfo := pg\<rparr>)
         else if url = ''/nodeinfo/2.1''
         then let pg = getNodeInfo21HttpResponse P cfg (nodeInfo21 st) in write_page pg (st\<lparr>nodeInfo21 := pg\<rparr>)
         else if getHeader ''accept'' = ''application/nostr+json''
         then let pg = getServerInfoHttpResponse P cfg (serverInfo st) in write_page pg (st\<lparr>serverInfo := pg\<rparr>)
         else let pg = getLandingPageHttpResponse P cfg (landingPage st) in write_page pg (st\<lparr>landingPage := pg\<rparr>))"

section \<open>Connections\<close>

definition header_ip :: "ws_params \<Rightarrow> string \<Rightarrow> string" where
  "header_ip P hv = parseIP (wp_inet_pton P) (if hv = ''1'' \<or> starts_with hv ''ffff:'' then ''::'' @ hv else hv)"

definition client_ip :: "ws_params \<Rightarrow> ws_cfg \<Rightarrow> (string \<Rightarrow> string) \<Rightarrow> string \<Rightarrow> string" where
  "client_ip P cfg getHeader addressBytes =
     (let ip = (if length (wsc_realIpHeader cfg) \<noteq> 0 then header_ip P (getHeader (wsc_realIpHeader cfg)) else [])
      in if length ip = 0 then addressBytes else ip)"

definition emplace_conn :: "u64 \<Rightarrow> nat \<Rightarrow> (u64 \<times> nat) list \<Rightarrow> (u64 \<times> nat) list" where
  "emplace_conn k a tab = (if map_of tab k = None then tab @ [(k, a)] else tab)"

text \<open>The log line renders the address, and \<open>renderIP\<close> throws when that has no known size.\<close>

definition onConnection ::
    "ws_params \<Rightarrow> ws_cfg \<Rightarrow> nat \<Rightarrow> (string \<Rightarrow> string) \<Rightarrow> string \<Rightarrow> u64 \<Rightarrow> ws_thread \<Rightarrow> ws_thread result" where
  "onConnection P cfg ws getHeader addressBytes now st =
     (let connId = nextConnectionId st; a = wt_fresh st; ip = client_ip P cfg getHeader addressBytes;
          c = (new_Connection ws connId now)\<lparr>wc_ipAddr := ip\<rparr>
      in bindE (renderIP (wp_inet_ntop P) ip) (\<lambda>_.
         Inr (st\<lparr>wt_heap := (wt_heap st)(a \<mapsto> c), wt_fresh := Suc a, nextConnectionId := connId + 1,
                 userData := (userData st)(ws \<mapsto> a),
                 connIdToConnection := emplace_conn connId a (connIdToConnection st)\<rparr>)))"

definition deref_conn :: "nat option \<Rightarrow> ws_thread \<Rightarrow> ws_conn result" where
  "deref_conn p st = (case p of None \<Rightarrow> Inl UB | Some a \<Rightarrow> (case wt_heap st a of None \<Rightarrow> Inl UB | Some c \<Rightarrow> Inr c))"

definition onDisconnection :: "ws_params \<Rightarrow> nat \<Rightarrow> ws_thread \<times> relay \<Rightarrow> (ws_thread \<times> relay) result" where
  "onDisconnection P ws s =
     (let (st, rl) = s
      in bindE (deref_conn (userData st ws) st) (\<lambda>c.
         bindE (renderIP (wp_inet_ntop P) (wc_ipAddr c)) (\<lambda>_.
         let connId = wc_connId c;
             rl' = rl\<lparr>tpIngester := dispatch connId (IngCloseConn connId) (tpIngester rl)\<rparr>;
             tab = filter (\<lambda>(k, _). k \<noteq> connId) (connIdToConnection st);
             st' = st\<lparr>connIdToConnection := tab, wt_heap := (wt_heap st)(the (userData st ws) := None)\<rparr>
         in Inr (if gracefulShutdown st \<and> length tab = 0 then st'\<lparr>exit_status := Some 0\<rparr> else st', rl'))))"

definition onMessage2 :: "nat \<Rightarrow> string \<Rightarrow> u64 \<Rightarrow> ws_thread \<times> relay \<Rightarrow> (ws_thread \<times> relay) result" where
  "onMessage2 ws message compressedSize s =
     (let (st, rl) = s
      in bindE (deref_conn (userData st ws) st) (\<lambda>c.
         let c' = c\<lparr>bytesDown := bytesDown c + of_nat (length message),
                    bytesDownCompressed := bytesDownCompressed c + compressedSize\<rparr>
         in Inr (st\<lparr>wt_heap := (wt_heap st)(the (userData st ws) \<mapsto> c')\<rparr>,
                 rl\<lparr>tpIngester := dispatch (wc_connId c)
                      (IngClientMessage (wc_connId c) (wc_ipAddr c) message None) (tpIngester rl)\<rparr>)))"

section \<open>Sending\<close>

definition doSend :: "ws_params \<Rightarrow> u64 \<Rightarrow> string \<Rightarrow> op_code \<Rightarrow> ws_thread \<Rightarrow> ws_thread result" where
  "doSend P connId payload opCode st =
     (case map_of (connIdToConnection st) connId of
        None \<Rightarrow> Inr st
      | Some a \<Rightarrow>
          bindE (deref_conn (Some a) st) (\<lambda>c.
          let fs = frames st @ [(wc_websocket c, opCode, payload)];
              c' = c\<lparr>bytesUp := bytesUp c + of_nat (length payload),
                     bytesUpCompressed := bytesUpCompressed c + wp_compressedSize P fs\<rparr>
          in Inr (st\<lparr>frames := fs, wt_heap := (wt_heap st)(a \<mapsto> c')\<rparr>)))"

text \<open>The buffer: \<^verbatim>\<open>memcpy\<close> and a view into it are undefined outside its bounds.\<close>

definition MAX_SUBID_SIZE :: nat where
  "MAX_SUBID_SIZE = 71"

definition resize_str :: "nat \<Rightarrow> string \<Rightarrow> string" where
  "resize_str n s = take n s @ replicate (n - length s) (CHR 0x00)"

definition memcpy_at :: "nat \<Rightarrow> string \<Rightarrow> string \<Rightarrow> string result" where
  "memcpy_at p src buf =
     (if p + length src \<le> length buf then Inr (take p buf @ src @ drop (p + length src) buf) else Inl UB)"

definition view_at :: "nat \<Rightarrow> nat \<Rightarrow> string \<Rightarrow> string result" where
  "view_at p n buf = (if p + n \<le> length buf then Inr (substr buf p n) else Inl UB)"

definition batch_buffer :: "string \<Rightarrow> string \<Rightarrow> string" where
  "batch_buffer evJson buf = resize_str (10 + MAX_SUBID_SIZE) buf @ [CHR 0x22, CHR '',''] @ evJson @ '']''"

definition batch_item :: "ws_params \<Rightarrow> string \<Rightarrow> u64 \<times> string \<Rightarrow> ws_thread \<Rightarrow> ws_thread result" where
  "batch_item P evJson item st =
     (let subIdSv = SubId_sv (snd item); p = MAX_SUBID_SIZE - length subIdSv
      in if length subIdSv > MAX_SUBID_SIZE then Inl UB
         else bindE (memcpy_at p event_prefix (tempBuf st)) (\<lambda>b1.
              bindE (memcpy_at (p + 10) subIdSv b1) (\<lambda>b2.
              bindE (view_at p (13 + length subIdSv + length evJson) b2) (\<lambda>payload.
              doSend P (fst item) payload OpText (st\<lparr>tempBuf := b2\<rparr>)))))"

definition websocket_msg :: "ws_params \<Rightarrow> msg_websocket \<Rightarrow> ws_thread \<Rightarrow> ws_thread result" where
  "websocket_msg P m st =
     (case m of
        WsSend connId payload \<Rightarrow> doSend P connId payload OpText st
      | WsSendBinary connId payload \<Rightarrow> doSend P connId payload OpBinary st
      | WsSendEventToBatch lst evJson \<Rightarrow> foldE (batch_item P evJson) lst (st\<lparr>tempBuf := batch_buffer evJson (tempBuf st)\<rparr>)
      | WsGracefulShutdown \<Rightarrow> Inr (st\<lparr>gracefulShutdown := True, listening := False\<rparr>))"

definition asyncCb :: "ws_params \<Rightarrow> ws_thread \<times> relay \<Rightarrow> (ws_thread \<times> relay) result" where
  "asyncCb P s =
     (let (st, rl) = s
      in bindE (foldE (websocket_msg P) (tpWebsocket rl ! 0) st) (\<lambda>st'. Inr (st', rl\<lparr>tpWebsocket := (tpWebsocket rl)[0 := []]\<rparr>)))"

section \<open>The thread\<close>

text \<open>\<open>EvPosted\<close> is another thread that dispatches a message to this one.\<close>

datatype ws_event =
    EvConnection nat "string \<Rightarrow> string" string u64 ws_cfg
  | EvDisconnection nat
  | EvMessage nat string u64
  | EvHttpRequest "string \<Rightarrow> string" string ws_cfg
  | EvPosted msg_websocket
  | EvWakeup

definition ws_handle :: "ws_params \<Rightarrow> ws_event \<Rightarrow> ws_thread \<times> relay \<Rightarrow> (ws_thread \<times> relay) result" where
  "ws_handle P ev s =
     (let (st, rl) = s
      in case ev of
           EvConnection ws hdr addr now cfg \<Rightarrow> bindE (onConnection P cfg ws hdr addr now st) (\<lambda>st'. Inr (st', rl))
         | EvDisconnection ws \<Rightarrow> onDisconnection P ws s
         | EvMessage ws m n \<Rightarrow> onMessage2 ws m n s
         | EvHttpRequest hdr url cfg \<Rightarrow> Inr (onHttpRequest P cfg hdr url st, rl)
         | EvPosted m \<Rightarrow> Inr (st, rl\<lparr>tpWebsocket := dispatch 0 m (tpWebsocket rl)\<rparr>)
         | EvWakeup \<Rightarrow> asyncCb P s)"

text \<open>\<^verbatim>\<open>::exit\<close> ends the process, nothing happens after it.\<close>

fun runWebsocket :: "ws_params \<Rightarrow> ws_event list \<Rightarrow> ws_thread \<times> relay \<Rightarrow> (ws_thread \<times> relay) result" where
  "runWebsocket P [] s = Inr s"
| "runWebsocket P (e # es) s =
     (if exit_status (fst s) \<noteq> None then Inr s else bindE (ws_handle P e s) (runWebsocket P es))"


section \<open>The specification: a list of open connections\<close>

record hub =
  hub_open :: "(nat \<times> u64 \<times> string) list"
  hub_next :: u64
  hub_inbox :: "msg_websocket list"
  hub_stopping :: bool
  hub_frames :: "(nat \<times> op_code \<times> string) list"
  hub_up :: "(u64 \<times> msg_ingester) list"
  hub_over :: bool

definition hub_init :: hub where
  "hub_init = \<lparr>hub_open = [], hub_next = 1, hub_inbox = [], hub_stopping = False, hub_frames = [], hub_up = [], hub_over = False\<rparr>"

definition event_text :: "string \<Rightarrow> string \<Rightarrow> string" where
  "event_text subId evJson = event_prefix @ SubId_sv subId @ [CHR 0x22, CHR '',''] @ evJson @ '']''"

definition to_conn :: "(nat \<times> u64 \<times> string) list \<Rightarrow> op_code \<Rightarrow> u64 \<Rightarrow> string \<Rightarrow> (nat \<times> op_code \<times> string) list" where
  "to_conn opn op connId payload = map (\<lambda>(w, _). (w, op, payload)) (filter (\<lambda>(w, k, ip). k = connId) opn)"

fun frames_of :: "(nat \<times> u64 \<times> string) list \<Rightarrow> msg_websocket \<Rightarrow> (nat \<times> op_code \<times> string) list" where
  "frames_of opn (WsSend connId payload) = to_conn opn OpText connId payload"
| "frames_of opn (WsSendBinary connId payload) = to_conn opn OpBinary connId payload"
| "frames_of opn (WsSendEventToBatch lst evJson) =
     concat (map (\<lambda>(connId, subId). to_conn opn OpText connId (event_text subId evJson)) lst)"
| "frames_of opn WsGracefulShutdown = []"

fun hub_step :: "ws_params \<Rightarrow> ws_event \<Rightarrow> hub \<Rightarrow> hub" where
  "hub_step P (EvConnection ws hdr addr now cfg) h =
     h\<lparr>hub_open := hub_open h @ [(ws, hub_next h, client_ip P cfg hdr addr)], hub_next := hub_next h + 1\<rparr>"
| "hub_step P (EvDisconnection ws) h =
     (let rest = filter (\<lambda>(w, _). w \<noteq> ws) (hub_open h)
      in h\<lparr>hub_open := rest, hub_over := hub_stopping h \<and> rest = [],
           hub_up := hub_up h @ map (\<lambda>(w, k, ip). (k, IngCloseConn k)) (filter (\<lambda>(w, _). w = ws) (hub_open h))\<rparr>)"
| "hub_step P (EvMessage ws m n) h =
     h\<lparr>hub_up := hub_up h @ map (\<lambda>(w, k, ip). (k, IngClientMessage k ip m None)) (filter (\<lambda>(w, _). w = ws) (hub_open h))\<rparr>"
| "hub_step P (EvHttpRequest hdr url cfg) h = h"
| "hub_step P (EvPosted m) h = h\<lparr>hub_inbox := hub_inbox h @ [m]\<rparr>"
| "hub_step P EvWakeup h =
     h\<lparr>hub_inbox := [], hub_frames := hub_frames h @ concat (map (frames_of (hub_open h)) (hub_inbox h)),
        hub_stopping := hub_stopping h \<or> WsGracefulShutdown \<in> set (hub_inbox h)\<rparr>"

fun hub_run :: "ws_params \<Rightarrow> ws_event list \<Rightarrow> hub \<Rightarrow> hub" where
  "hub_run P [] h = h"
| "hub_run P (e # es) h = (if hub_over h then h else hub_run P es (hub_step P e h))"

definition valid_ip :: "string \<Rightarrow> bool" where
  "valid_ip ip \<longleftrightarrow> length ip = 4 \<or> length ip = 16"

fun sub_fits :: "msg_websocket \<Rightarrow> bool" where
  "sub_fits (WsSendEventToBatch lst evJson) = list_all (\<lambda>(_, s). length (SubId_sv s) \<le> MAX_SUBID_SIZE) lst"
| "sub_fits _ = True"

text \<open>What the library and the other threads do, and that the connection ids do not run out.\<close>

fun hub_ok :: "ws_event \<Rightarrow> hub \<Rightarrow> bool" where
  "hub_ok (EvConnection ws hdr addr now cfg) h \<longleftrightarrow> ws \<notin> fst ` set (hub_open h) \<and> valid_ip addr \<and> hub_next h \<noteq> MAX_U64"
| "hub_ok (EvDisconnection ws) h \<longleftrightarrow> ws \<in> fst ` set (hub_open h)"
| "hub_ok (EvMessage ws m n) h \<longleftrightarrow> ws \<in> fst ` set (hub_open h)"
| "hub_ok (EvPosted m) h \<longleftrightarrow> sub_fits m"
| "hub_ok _ h \<longleftrightarrow> True"

fun run_ok :: "ws_params \<Rightarrow> ws_event list \<Rightarrow> hub \<Rightarrow> bool" where
  "run_ok P [] h \<longleftrightarrow> True"
| "run_ok P (e # es) h \<longleftrightarrow> hub_over h \<or> hub_ok e h \<and> run_ok P es (hub_step P e h)"

section \<open>The buffer\<close>

lemma length_event_prefix [simp]: "length event_prefix = 10"
  by (simp add: event_prefix_def)

lemma length_resize_str [simp]: "length (resize_str n s) = n"
  by (simp add: resize_str_def)

text \<open>
  Rendering an item in a buffer of the right shape gives the text of the event for the
  subscription, and leaves a buffer of that shape for the next item.
\<close>

definition batch_shape :: "string \<Rightarrow> string \<Rightarrow> bool" where
  "batch_shape evJson buf \<longleftrightarrow> (\<exists>pre. length pre = 10 + MAX_SUBID_SIZE \<and> buf = pre @ [CHR 0x22, CHR '',''] @ evJson @ '']'')"

lemma batch_buffer_shape: "batch_shape evJson (batch_buffer evJson buf)"
  unfolding batch_shape_def batch_buffer_def by (rule exI [of _ "resize_str (10 + MAX_SUBID_SIZE) buf"]) simp

lemma batch_item_renders:
  assumes "batch_shape evJson (tempBuf st)" and "length (SubId_sv s) \<le> MAX_SUBID_SIZE"
  obtains buf where "batch_shape evJson buf"
    and "batch_item P evJson (k, s) st = doSend P k (event_text s evJson) OpText (st\<lparr>tempBuf := buf\<rparr>)"
proof -
  let ?n = "length (SubId_sv s)" and ?tail = "[CHR 0x22, CHR '',''] @ evJson @ '']''"
  obtain pre where pre: "length pre = 10 + MAX_SUBID_SIZE" "tempBuf st = pre @ ?tail"
    using assms(1) by (auto simp: batch_shape_def)
  define p where "p = MAX_SUBID_SIZE - ?n"
  have p: "p + ?n = MAX_SUBID_SIZE" using assms(2) by (simp add: p_def)
  define b1 where "b1 = take p pre @ event_prefix @ drop (p + 10) pre @ ?tail"
  define b2 where "b2 = take p pre @ event_prefix @ SubId_sv s @ ?tail"
  have m1: "memcpy_at p event_prefix (tempBuf st) = Inr b1"
    using p pre by (simp add: memcpy_at_def b1_def)
  have m2: "memcpy_at (p + 10) (SubId_sv s) b1 = Inr b2"
    using p pre by (simp add: memcpy_at_def b1_def b2_def)
  have v: "view_at p (13 + ?n + length evJson) b2 = Inr (event_text s evJson)"
    using p pre by (simp add: view_at_def b2_def event_text_def substr_def)
  have "batch_shape evJson b2"
    unfolding batch_shape_def b2_def using p pre
    by (intro exI [of _ "take p pre @ event_prefix @ SubId_sv s"]) simp
  moreover have "batch_item P evJson (k, s) st = doSend P k (event_text s evJson) OpText (st\<lparr>tempBuf := b2\<rparr>)"
    using assms(2) m1 m2 v by (simp add: batch_item_def p_def [symmetric] Let_def)
  ultimately show thesis by (rule that)
qed

section \<open>Connections and their objects\<close>

definition conns_rel :: "ws_thread \<Rightarrow> (nat \<times> u64 \<times> string) list \<Rightarrow> bool" where
  "conns_rel st opn \<longleftrightarrow>
     connIdToConnection st = map (\<lambda>(w, k, ip). (k, the (userData st w))) opn \<and>
     (\<forall>(w, k, ip)\<in>set opn. valid_ip ip \<and>
        (\<exists>a c. userData st w = Some a \<and> wt_heap st a = Some c \<and> wc_websocket c = w \<and> wc_connId c = k \<and> wc_ipAddr c = ip)) \<and>
     distinct (map fst opn) \<and> distinct (map (\<lambda>(w, k, ip). k) opn) \<and> (\<forall>a\<in>dom (wt_heap st). a < wt_fresh st) \<and>
     dom (wt_heap st) = snd ` set (connIdToConnection st)"

lemma conn_lookup:
  assumes "distinct (map (\<lambda>(w, k, ip). k) opn)" and "(w, k, ip) \<in> set opn"
  shows "map_of (map (\<lambda>(w, k, ip). (k, f w)) opn) k = Some (f w)" and "filter (\<lambda>(w, k', ip). k' = k) opn = [(w, k, ip)]"
proof -
  show "map_of (map (\<lambda>(w, k, ip). (k, f w)) opn) k = Some (f w)"
    using assms by (intro map_of_is_SomeI) (force simp: comp_def split_def)+
  show "filter (\<lambda>(w, k', ip). k' = k) opn = [(w, k, ip)]"
    using assms by (induction opn) (force simp: filter_empty_conv)+
qed

lemma conn_lookup_ws:
  assumes "distinct (map fst opn)" and "(w, k, ip) \<in> set opn"
  shows "filter (\<lambda>(w', _). w' = w) opn = [(w, k, ip)]"
  using assms by (induction opn) (force simp: filter_empty_conv)+

lemma conn_lookup_none:
  assumes "k \<notin> (\<lambda>(w, k, ip). k) ` set opn"
  shows "map_of (map (\<lambda>(w, k, ip). (k, f w)) opn) k = None" and "filter (\<lambda>(w, k', ip). k' = k) opn = []"
  using assms by (force simp: map_of_eq_None_iff filter_empty_conv)+

lemma conns_relD:
  assumes "conns_rel st opn" and "(w, k, ip) \<in> set opn"
  obtains a c where "userData st w = Some a" "wt_heap st a = Some c" "wc_websocket c = w" "wc_connId c = k"
    "wc_ipAddr c = ip" "valid_ip ip"
  using assms unfolding conns_rel_def by fast

text \<open>Counters of an object may change.\<close>

lemma conns_rel_update:
  assumes "conns_rel st opn" and "wt_heap st a = Some c" and "wc_websocket c' = wc_websocket c"
    and "wc_connId c' = wc_connId c" and "wc_ipAddr c' = wc_ipAddr c"
    and "connIdToConnection st' = connIdToConnection st" "userData st' = userData st" "wt_fresh st' = wt_fresh st"
    and "wt_heap st' = (wt_heap st)(a \<mapsto> c')"
  shows "conns_rel st' opn"
proof -
  have "\<exists>b d. userData st' w = Some b \<and> wt_heap st' b = Some d \<and> wc_websocket d = w \<and> wc_connId d = k \<and> wc_ipAddr d = ip"
    if mem: "(w, k, ip) \<in> set opn" for w k ip
  proof -
    obtain b d where o: "userData st w = Some b" "wt_heap st b = Some d" "wc_websocket d = w" "wc_connId d = k" "wc_ipAddr d = ip"
      using conns_relD [OF assms(1) mem] by metis
    show ?thesis
    proof (cases "b = a")
      case True
      with o assms show ?thesis by (intro exI [of _ a] exI [of _ c']) simp
    next
      case False
      with o assms show ?thesis by (intro exI [of _ b] exI [of _ d]) simp
    qed
  qed
  moreover have "\<forall>b\<in>dom (wt_heap st'). b < wt_fresh st'"
    using assms(1,2,8,9) by (auto simp: conns_rel_def)
  moreover have "connIdToConnection st' = map (\<lambda>(w, k, ip). (k, the (userData st' w))) opn"
    "distinct (map fst opn)" "distinct (map (\<lambda>(w, k, ip). k) opn)" "\<forall>(w, k, ip)\<in>set opn. valid_ip ip"
    using assms(1,6,7) by (auto simp: conns_rel_def)
  moreover have "dom (wt_heap st') = snd ` set (connIdToConnection st')"
  proof -
    have "dom (wt_heap st') = dom (wt_heap st)" using assms(2,9) by auto
    then show ?thesis using assms(1,6) by (simp add: conns_rel_def)
  qed
  ultimately show ?thesis unfolding conns_rel_def by fast
qed

lemma conns_rel_cong:
  assumes "conns_rel st opn" and "connIdToConnection st' = connIdToConnection st" "userData st' = userData st"
    "wt_fresh st' = wt_fresh st" "wt_heap st' = wt_heap st"
  shows "conns_rel st' opn"
  using assms unfolding conns_rel_def by simp

definition ws_kept :: "ws_thread \<Rightarrow> ws_thread \<Rightarrow> bool" where
  "ws_kept st st' \<longleftrightarrow> nextConnectionId st' = nextConnectionId st \<and> exit_status st' = exit_status st"

lemma doSend_rel:
  assumes rel: "conns_rel st opn"
  obtains st' where "doSend P k payload op st = Inr st'" "conns_rel st' opn"
    "frames st' = frames st @ to_conn opn op k payload" "ws_kept st st'"
    "gracefulShutdown st' = gracefulShutdown st" "tempBuf st' = tempBuf st"
proof (cases "k \<in> (\<lambda>(w, k, ip). k) ` set opn")
  case False
  from conn_lookup_none(1) [OF this, of "\<lambda>w. the (userData st w)"] conn_lookup_none(2) [OF this] rel
  have "doSend P k payload op st = Inr st" "to_conn opn op k payload = []"
    by (auto simp: doSend_def conns_rel_def to_conn_def)
  with rel show thesis by (intro that [of st]) (simp_all add: ws_kept_def)
next
  case True
  then obtain w ip where mem: "(w, k, ip) \<in> set opn" by auto
  have dist: "distinct (map (\<lambda>(w, k, ip). k) opn)" and tab: "connIdToConnection st = map (\<lambda>(w, k, ip). (k, the (userData st w))) opn"
    using rel by (simp_all add: conns_rel_def)
  note lk = conn_lookup(1) [OF dist mem, of "\<lambda>w. the (userData st w)"] conn_lookup(2) [OF dist mem]
  obtain a c where o: "userData st w = Some a" "wt_heap st a = Some c" "wc_websocket c = w" "wc_connId c = k" "wc_ipAddr c = ip"
    using conns_relD [OF rel mem] by metis
  let ?fs = "frames st @ [(w, op, payload)]"
  let ?c = "c\<lparr>bytesUp := bytesUp c + of_nat (length payload), bytesUpCompressed := bytesUpCompressed c + wp_compressedSize P ?fs\<rparr>"
  let ?st = "st\<lparr>frames := ?fs, wt_heap := (wt_heap st)(a \<mapsto> ?c)\<rparr>"
  have "doSend P k payload op st = Inr ?st"
    using lk(1) o by (simp add: doSend_def tab deref_conn_def Let_def)
  moreover have "conns_rel ?st opn"
    by (rule conns_rel_update [OF rel o(2)]) simp_all
  moreover have "to_conn opn op k payload = [(w, op, payload)]"
    using lk(2) by (simp add: to_conn_def)
  ultimately show thesis by (intro that [of ?st]) (simp_all add: ws_kept_def)
qed

lemma batch_rel:
  assumes "conns_rel st opn" and "batch_shape evJson (tempBuf st)"
    and "list_all (\<lambda>(_, s). length (SubId_sv s) \<le> MAX_SUBID_SIZE) lst"
  shows "\<exists>st'. foldE (batch_item P evJson) lst st = Inr st' \<and> conns_rel st' opn \<and>
    frames st' = frames st @ frames_of opn (WsSendEventToBatch lst evJson) \<and> ws_kept st st' \<and>
    gracefulShutdown st' = gracefulShutdown st"
  using assms
proof (induction lst arbitrary: st)
  case Nil
  then show ?case by (simp add: ws_kept_def)
next
  case (Cons item lst)
  obtain k s where item: "item = (k, s)" by (cases item)
  have fits: "length (SubId_sv s) \<le> MAX_SUBID_SIZE" using Cons.prems(3) by (simp add: item)
  obtain buf where buf: "batch_shape evJson buf"
      "batch_item P evJson (k, s) st = doSend P k (event_text s evJson) OpText (st\<lparr>tempBuf := buf\<rparr>)"
    by (rule batch_item_renders [OF Cons.prems(2) fits])
  have "conns_rel (st\<lparr>tempBuf := buf\<rparr>) opn"
    by (rule conns_rel_cong [OF Cons.prems(1)]) simp_all
  then obtain st1 where st1: "doSend P k (event_text s evJson) OpText (st\<lparr>tempBuf := buf\<rparr>) = Inr st1" "conns_rel st1 opn"
      "frames st1 = frames (st\<lparr>tempBuf := buf\<rparr>) @ to_conn opn OpText k (event_text s evJson)" "ws_kept (st\<lparr>tempBuf := buf\<rparr>) st1"
      "gracefulShutdown st1 = gracefulShutdown (st\<lparr>tempBuf := buf\<rparr>)" "tempBuf st1 = tempBuf (st\<lparr>tempBuf := buf\<rparr>)"
    by (rule doSend_rel)
  have "batch_shape evJson (tempBuf st1)" using st1(6) buf(1) by simp
  moreover have "list_all (\<lambda>(_, s). length (SubId_sv s) \<le> MAX_SUBID_SIZE) lst" using Cons.prems(3) by simp
  ultimately obtain st2 where st2: "foldE (batch_item P evJson) lst st1 = Inr st2" "conns_rel st2 opn"
      "frames st2 = frames st1 @ frames_of opn (WsSendEventToBatch lst evJson)" "ws_kept st1 st2"
      "gracefulShutdown st2 = gracefulShutdown st1"
    using Cons.IH [OF st1(2)] by blast
  from st1 st2 buf(2) show ?case
    by (intro exI [of _ st2]) (simp add: item ws_kept_def)
qed

lemma websocket_msg_rel:
  assumes rel: "conns_rel st opn" and fits: "sub_fits m"
  shows "\<exists>st'. websocket_msg P m st = Inr st' \<and> conns_rel st' opn \<and> frames st' = frames st @ frames_of opn m \<and> ws_kept st st' \<and>
    gracefulShutdown st' = (gracefulShutdown st \<or> m = WsGracefulShutdown)"
proof (cases m)
  case (WsSend k payload)
  obtain st' where "doSend P k payload OpText st = Inr st'" "conns_rel st' opn"
    "frames st' = frames st @ to_conn opn OpText k payload" "ws_kept st st'" "gracefulShutdown st' = gracefulShutdown st"
    by (rule doSend_rel [OF rel])
  then show ?thesis by (simp add: WsSend websocket_msg_def)
next
  case (WsSendBinary k payload)
  obtain st' where "doSend P k payload OpBinary st = Inr st'" "conns_rel st' opn"
    "frames st' = frames st @ to_conn opn OpBinary k payload" "ws_kept st st'" "gracefulShutdown st' = gracefulShutdown st"
    by (rule doSend_rel [OF rel])
  then show ?thesis by (simp add: WsSendBinary websocket_msg_def)
next
  case (WsSendEventToBatch lst evJson)
  let ?st = "st\<lparr>tempBuf := batch_buffer evJson (tempBuf st)\<rparr>"
  have "conns_rel ?st opn" by (rule conns_rel_cong [OF rel]) simp_all
  moreover have "batch_shape evJson (tempBuf ?st)" by (simp add: batch_buffer_shape)
  moreover have "list_all (\<lambda>(_, s). length (SubId_sv s) \<le> MAX_SUBID_SIZE) lst"
    using fits by (simp add: WsSendEventToBatch)
  ultimately show ?thesis
    using batch_rel [of ?st opn evJson lst P] by (simp add: WsSendEventToBatch websocket_msg_def ws_kept_def)
next
  case WsGracefulShutdown
  have "conns_rel (st\<lparr>gracefulShutdown := True, listening := False\<rparr>) opn" by (rule conns_rel_cong [OF rel]) simp_all
  then show ?thesis by (simp add: WsGracefulShutdown websocket_msg_def ws_kept_def)
qed

lemma websocket_msgs_rel:
  assumes "conns_rel st opn" and "list_all sub_fits ms"
  shows "\<exists>st'. foldE (websocket_msg P) ms st = Inr st' \<and> conns_rel st' opn \<and>
    frames st' = frames st @ concat (map (frames_of opn) ms) \<and> ws_kept st st' \<and>
    gracefulShutdown st' = (gracefulShutdown st \<or> WsGracefulShutdown \<in> set ms)"
  using assms
proof (induction ms arbitrary: st)
  case Nil
  then show ?case by (simp add: ws_kept_def)
next
  case (Cons m ms)
  obtain st1 where st1: "websocket_msg P m st = Inr st1" "conns_rel st1 opn" "frames st1 = frames st @ frames_of opn m"
      "ws_kept st st1" "gracefulShutdown st1 = (gracefulShutdown st \<or> m = WsGracefulShutdown)"
    using websocket_msg_rel [OF Cons.prems(1), of m P] Cons.prems(2) by auto
  obtain st2 where st2: "foldE (websocket_msg P) ms st1 = Inr st2" "conns_rel st2 opn"
      "frames st2 = frames st1 @ concat (map (frames_of opn) ms)" "ws_kept st1 st2"
      "gracefulShutdown st2 = (gracefulShutdown st1 \<or> WsGracefulShutdown \<in> set ms)"
    using Cons.IH [OF st1(2)] Cons.prems(2) by auto
  from st1 st2 show ?case by (intro exI [of _ st2]) (auto simp: ws_kept_def)
qed

section \<open>Refinement\<close>

definition posted :: "hub \<Rightarrow> relay \<Rightarrow> relay" where
  "posted h rl =
     rl\<lparr>tpWebsocket := [hub_inbox h], tpIngester := fold (\<lambda>(k, m). dispatch k m) (hub_up h) (tpIngester rl)\<rparr>"

definition hub_rel :: "relay \<Rightarrow> ws_thread \<times> relay \<Rightarrow> hub \<Rightarrow> bool" where
  "hub_rel rl0 s h \<longleftrightarrow> (let (st, rl) = s in
     conns_rel st (hub_open h) \<and> (\<forall>(w, k, ip)\<in>set (hub_open h). k < hub_next h) \<and>
     nextConnectionId st = hub_next h \<and> gracefulShutdown st = hub_stopping h \<and> frames st = hub_frames h \<and>
     list_all sub_fits (hub_inbox h) \<and> rl = posted h rl0 \<and>
     exit_status st = (if hub_over h then Some 0 else None))"

definition pton_ok :: "ws_params \<Rightarrow> bool" where
  "pton_ok P \<longleftrightarrow> (\<forall>v6 s bytes. wp_inet_pton P v6 s = Some bytes \<longrightarrow> length bytes = (if v6 then 16 else 4))"

lemma client_ip_valid:
  assumes "pton_ok P" and "valid_ip addr"
  shows "valid_ip (client_ip P cfg hdr addr)"
  using assms unfolding client_ip_def header_ip_def parseIP_def pton_ok_def valid_ip_def
  by (auto simp: Let_def split: option.splits)

lemma renderIP_valid: "valid_ip ip \<Longrightarrow> \<exists>t. renderIP ntop ip = Inr t"
  by (auto simp: valid_ip_def renderIP_def)

lemma next_less:
  assumes "(k :: u64) \<noteq> MAX_U64"
  shows "k < k + 1"
proof -
  have "1 + k \<noteq> 0" using assms by (simp add: add_eq_0_iff)
  then show ?thesis using unatSuc [of k] by (simp add: word_less_nat_alt add.commute)
qed

lemma onConnection_rel:
  assumes rel: "hub_rel rl0 (st, rl) h" and ok: "hub_ok (EvConnection ws hdr addr now cfg) h" and pton: "pton_ok P"
  shows "\<exists>st'. onConnection P cfg ws hdr addr now st = Inr st' \<and>
    hub_rel rl0 (st', rl) (hub_step P (EvConnection ws hdr addr now cfg) h)"
proof -
  let ?ip = "client_ip P cfg hdr addr" and ?a = "wt_fresh st"
  have valid: "valid_ip ?ip" using client_ip_valid [OF pton] ok by simp
  then obtain t where t: "renderIP (wp_inet_ntop P) ?ip = Inr t" using renderIP_valid by blast
  have cr: "conns_rel st (hub_open h)" and nxt: "nextConnectionId st = hub_next h"
    and less: "\<forall>(w, k, ip)\<in>set (hub_open h). k < hub_next h" using rel by (simp_all add: hub_rel_def)
  have new: "hub_next h \<notin> (\<lambda>(w, k, ip). k) ` set (hub_open h)" using less by auto
  have tab: "connIdToConnection st = map (\<lambda>(w, k, ip). (k, the (userData st w))) (hub_open h)"
    using cr by (simp add: conns_rel_def)
  have fresh: "ws \<notin> fst ` set (hub_open h)" using ok by simp
  have emp: "emplace_conn (hub_next h) ?a (connIdToConnection st) = connIdToConnection st @ [(hub_next h, ?a)]"
    using conn_lookup_none(1) [OF new] by (simp add: emplace_conn_def tab)
  let ?c = "(new_Connection ws (hub_next h) now)\<lparr>wc_ipAddr := ?ip\<rparr>"
  let ?st = "st\<lparr>wt_heap := (wt_heap st)(?a \<mapsto> ?c), wt_fresh := Suc ?a, nextConnectionId := hub_next h + 1,
     userData := (userData st)(ws \<mapsto> ?a), connIdToConnection := connIdToConnection st @ [(hub_next h, ?a)]\<rparr>"
  let ?opn = "hub_open h @ [(ws, hub_next h, ?ip)]"
  have run: "onConnection P cfg ws hdr addr now st = Inr ?st"
    using t by (simp add: onConnection_def Let_def nxt emp)
  have objs: "valid_ip ip \<and> (\<exists>b d. userData ?st w = Some b \<and> wt_heap ?st b = Some d \<and> wc_websocket d = w \<and> wc_connId d = k \<and> wc_ipAddr d = ip)"
    if mem: "(w, k, ip) \<in> set ?opn" for w k ip
  proof (cases "(w, k, ip) \<in> set (hub_open h)")
    case True
    obtain b d where o: "userData st w = Some b" "wt_heap st b = Some d" "wc_websocket d = w" "wc_connId d = k" "wc_ipAddr d = ip" "valid_ip ip"
      using conns_relD [OF cr True] by metis
    have "w \<noteq> ws" using True fresh by force
    moreover have "b \<noteq> ?a" using cr o(2) unfolding conns_rel_def by blast
    ultimately show ?thesis using o by (intro conjI exI [of _ b] exI [of _ d]) simp_all
  next
    case False
    with mem valid show ?thesis by (simp add: new_Connection_def)
  qed
  have "conns_rel ?st ?opn"
    unfolding conns_rel_def
  proof (intro conjI)
    show "connIdToConnection ?st = map (\<lambda>(w, k, ip). (k, the (userData ?st w))) ?opn"
      using tab fresh by (auto simp: split_def image_iff)
    show "\<forall>(w, k, ip)\<in>set ?opn. valid_ip ip \<and> (\<exists>b d. userData ?st w = Some b \<and> wt_heap ?st b = Some d \<and> wc_websocket d = w \<and> wc_connId d = k \<and> wc_ipAddr d = ip)"
      using objs by blast
    show "distinct (map fst ?opn)" using cr fresh by (simp add: conns_rel_def)
    show "distinct (map (\<lambda>(w, k, ip). k) ?opn)" using cr new by (simp add: conns_rel_def)
    show "\<forall>a\<in>dom (wt_heap ?st). a < wt_fresh ?st" using cr by (auto simp: conns_rel_def less_Suc_eq)
    show "dom (wt_heap ?st) = snd ` set (connIdToConnection ?st)" using cr by (auto simp: conns_rel_def)
  qed
  moreover have "\<forall>(w, k, ip)\<in>set ?opn. k < hub_next h + 1"
    using less next_less [of "hub_next h"] ok by (auto dest: order.strict_trans)
  ultimately show ?thesis
    using run rel by (intro exI [of _ ?st]) (simp add: hub_rel_def posted_def)
qed

lemma conns_rel_close:
  assumes cr: "conns_rel st opn" and mem: "(ws, k, ip) \<in> set opn" and a: "userData st ws = Some a"
    and st': "connIdToConnection st' = filter (\<lambda>(k', _). k' \<noteq> k) (connIdToConnection st)"
      "userData st' = userData st" "wt_fresh st' = wt_fresh st" "wt_heap st' = (wt_heap st)(a := None)"
  shows "conns_rel st' (filter (\<lambda>(w, _). w \<noteq> ws) opn)"
proof -
  let ?opn = "filter (\<lambda>(w, _). w \<noteq> ws) opn"
  have dist: "distinct (map fst opn)" "distinct (map (\<lambda>(w, k, ip). k) opn)"
    and tab: "connIdToConnection st = map (\<lambda>(w, k, ip). (k, the (userData st w))) opn"
    and dom: "dom (wt_heap st) = snd ` set (connIdToConnection st)"
    using cr by (simp_all add: conns_rel_def)
  have same: "w = ws \<longleftrightarrow> k' = k" if m: "(w, k', ip') \<in> set opn" for w k' ip'
    using inj_onD [of fst "set opn" "(w, k', ip')" "(ws, k, ip)"]
      inj_onD [of "\<lambda>(w, k, ip). k" "set opn" "(w, k', ip')" "(ws, k, ip)"] dist m mem
    by (auto simp: distinct_map)
  have open_eq: "?opn = filter (\<lambda>(w, k', _). k' \<noteq> k) opn"
    by (rule filter_cong [OF refl]) (use same in auto)
  have table: "connIdToConnection st' = map (\<lambda>(w, k, ip). (k, the (userData st' w))) ?opn"
    unfolding open_eq st' tab by (simp add: filter_map comp_def split_def)
  have other: "b \<noteq> a" if m: "(w, k', ip') \<in> set ?opn" and b: "userData st w = Some b" for w k' ip' b
  proof
    assume "b = a"
    have "(w, k', ip') \<in> set opn" "w \<noteq> ws" using m by auto
    then show False using conns_relD [OF cr mem] conns_relD [OF cr \<open>(w, k', ip') \<in> set opn\<close>] a b \<open>b = a\<close> by (metis option.inject)
  qed
  have objs: "valid_ip ip' \<and> (\<exists>b d. userData st' w = Some b \<and> wt_heap st' b = Some d \<and> wc_websocket d = w \<and> wc_connId d = k' \<and> wc_ipAddr d = ip')"
    if m: "(w, k', ip') \<in> set ?opn" for w k' ip'
  proof -
    have "(w, k', ip') \<in> set opn" using m by simp
    then obtain b d where o: "userData st w = Some b" "wt_heap st b = Some d" "wc_websocket d = w" "wc_connId d = k'"
        "wc_ipAddr d = ip'" "valid_ip ip'" using conns_relD [OF cr] by metis
    have "b \<noteq> a" using other [OF m o(1)] by simp
    then show ?thesis using o st' by (intro conjI exI [of _ b] exI [of _ d]) simp_all
  qed
  have "b \<in> dom (wt_heap st') \<longleftrightarrow> b \<in> snd ` set (connIdToConnection st')" for b
  proof
    assume b: "b \<in> dom (wt_heap st')"
    then have "b \<noteq> a" "b \<in> dom (wt_heap st)" using st'(4) by auto
    then obtain w k' ip' where w: "(w, k', ip') \<in> set opn" "b = the (userData st w)" by (auto simp: dom tab)
    then have "(w, k', ip') \<in> set ?opn" using a \<open>b \<noteq> a\<close> by auto
    with w(2) show "b \<in> snd ` set (connIdToConnection st')" by (force simp: table st'(2))
  next
    assume "b \<in> snd ` set (connIdToConnection st')"
    then obtain w k' ip' where w: "(w, k', ip') \<in> set ?opn" "b = the (userData st' w)" unfolding table by auto
    from objs [OF w(1)] w(2) show "b \<in> dom (wt_heap st')" by auto
  qed
  then have heap: "dom (wt_heap st') = snd ` set (connIdToConnection st')" by (rule set_eqI)
  show ?thesis
    unfolding conns_rel_def
  proof (intro conjI)
    show "\<forall>(w, k, ip)\<in>set ?opn. valid_ip ip \<and> (\<exists>b d. userData st' w = Some b \<and> wt_heap st' b = Some d \<and> wc_websocket d = w \<and> wc_connId d = k \<and> wc_ipAddr d = ip)"
      using objs by blast
    show "\<forall>a\<in>dom (wt_heap st'). a < wt_fresh st'" using cr st' by (auto simp: conns_rel_def)
  qed (use table heap dist in \<open>simp_all add: distinct_map_filter\<close>)
qed

lemma hub_open_conn:
  assumes "hub_rel rl0 (st, rl) h" and "ws \<in> fst ` set (hub_open h)"
  obtains k ip a c t where "filter (\<lambda>(w, _). w = ws) (hub_open h) = [(ws, k, ip)]" "(ws, k, ip) \<in> set (hub_open h)"
    "userData st ws = Some a" "wt_heap st a = Some c" "wc_connId c = k" "wc_ipAddr c = ip"
    "deref_conn (userData st ws) st = Inr c" "renderIP (wp_inet_ntop P) ip = Inr t"
proof -
  obtain k ip where mem: "(ws, k, ip) \<in> set (hub_open h)" using assms(2) by force
  have cr: "conns_rel st (hub_open h)" using assms(1) by (simp add: hub_rel_def)
  obtain a c where o: "userData st ws = Some a" "wt_heap st a = Some c" "wc_connId c = k" "wc_ipAddr c = ip" "valid_ip ip"
    using conns_relD [OF cr mem] by metis
  obtain t where "renderIP (wp_inet_ntop P) ip = Inr t" using renderIP_valid [OF o(5)] by blast
  moreover have "distinct (map fst (hub_open h))" using cr by (simp add: conns_rel_def)
  ultimately show thesis
    using that [OF conn_lookup_ws mem o(1-4)] mem o by (simp add: deref_conn_def)
qed

lemma onDisconnection_rel:
  assumes rel: "hub_rel rl0 (st, rl) h" and ok: "hub_ok (EvDisconnection ws) h" and live: "\<not> hub_over h"
  shows "\<exists>s'. onDisconnection P ws (st, rl) = Inr s' \<and> hub_rel rl0 s' (hub_step P (EvDisconnection ws) h)"
proof -
  have "ws \<in> fst ` set (hub_open h)" using ok by simp
  from hub_open_conn [OF rel this, of P] obtain k ip a c t where
    o: "filter (\<lambda>(w, _). w = ws) (hub_open h) = [(ws, k, ip)]" "(ws, k, ip) \<in> set (hub_open h)"
    "userData st ws = Some a" "wt_heap st a = Some c" "wc_connId c = k" "wc_ipAddr c = ip"
    "deref_conn (userData st ws) st = Inr c" "renderIP (wp_inet_ntop P) ip = Inr t" by blast
  have cr: "conns_rel st (hub_open h)" and rl: "rl = posted h rl0" using rel by (simp_all add: hub_rel_def)
  let ?tab = "filter (\<lambda>(k', _). k' \<noteq> k) (connIdToConnection st)"
  let ?st1 = "st\<lparr>connIdToConnection := ?tab, wt_heap := (wt_heap st)(a := None)\<rparr>"
  define st' where "st' = (if gracefulShutdown st \<and> length ?tab = 0 then ?st1\<lparr>exit_status := Some 0\<rparr> else ?st1)"
  define rl' where "rl' = rl\<lparr>tpIngester := dispatch k (IngCloseConn k) (tpIngester rl)\<rparr>"
  let ?opn = "filter (\<lambda>(w, _). w \<noteq> ws) (hub_open h)"
  have run: "onDisconnection P ws (st, rl) = Inr (st', rl')"
    using o by (simp add: onDisconnection_def st'_def rl'_def Let_def)
  have cr': "conns_rel st' ?opn"
    by (rule conns_rel_close [OF cr o(2) o(3)]) (simp_all add: st'_def)
  have "connIdToConnection st' = ?tab" by (simp add: st'_def)
  moreover have "connIdToConnection st' = map (\<lambda>(w, k, ip). (k, the (userData st' w))) ?opn"
    using cr' unfolding conns_rel_def by (rule conjunct1)
  ultimately have "?tab = [] \<longleftrightarrow> ?opn = []" by (metis Nil_is_map_conv)
  moreover have "gracefulShutdown st = hub_stopping h" "exit_status st = None" using rel live by (simp_all add: hub_rel_def)
  ultimately have exit: "exit_status st' = (if hub_stopping h \<and> ?opn = [] then Some 0 else None)"
    by (simp add: st'_def)
  have "rl' = posted (hub_step P (EvDisconnection ws) h) rl0"
    using o(1) by (simp add: rl'_def rl posted_def Let_def)
  moreover have "nextConnectionId st' = nextConnectionId st" "gracefulShutdown st' = gracefulShutdown st" "frames st' = frames st"
    by (simp_all add: st'_def)
  ultimately have "hub_rel rl0 (st', rl') (hub_step P (EvDisconnection ws) h)"
    using rel cr' exit by (simp add: hub_rel_def Let_def)
  with run show ?thesis by blast
qed

lemma onMessage2_rel:
  assumes rel: "hub_rel rl0 (st, rl) h" and ok: "hub_ok (EvMessage ws m n) h"
  shows "\<exists>s'. onMessage2 ws m n (st, rl) = Inr s' \<and> hub_rel rl0 s' (hub_step P (EvMessage ws m n) h)"
proof -
  have "ws \<in> fst ` set (hub_open h)" using ok by simp
  from hub_open_conn [OF rel this, of P] obtain k ip a c t where
    o: "filter (\<lambda>(w, _). w = ws) (hub_open h) = [(ws, k, ip)]" "(ws, k, ip) \<in> set (hub_open h)"
    "userData st ws = Some a" "wt_heap st a = Some c" "wc_connId c = k" "wc_ipAddr c = ip"
    "deref_conn (userData st ws) st = Inr c" "renderIP (wp_inet_ntop P) ip = Inr t" by blast
  have cr: "conns_rel st (hub_open h)" and rl: "rl = posted h rl0" using rel by (simp_all add: hub_rel_def)
  let ?c = "c\<lparr>bytesDown := bytesDown c + of_nat (length m), bytesDownCompressed := bytesDownCompressed c + n\<rparr>"
  let ?st = "st\<lparr>wt_heap := (wt_heap st)(a \<mapsto> ?c)\<rparr>"
  let ?rl = "rl\<lparr>tpIngester := dispatch k (IngClientMessage k ip m None) (tpIngester rl)\<rparr>"
  have run: "onMessage2 ws m n (st, rl) = Inr (?st, ?rl)" using o by (simp add: onMessage2_def Let_def)
  have "conns_rel ?st (hub_open h)" by (rule conns_rel_update [OF cr o(4)]) simp_all
  moreover have "?rl = posted (hub_step P (EvMessage ws m n) h) rl0" using o(1) by (simp add: rl posted_def)
  ultimately have "hub_rel rl0 (?st, ?rl) (hub_step P (EvMessage ws m n) h)" using rel by (simp add: hub_rel_def)
  with run show ?thesis by blast
qed

lemma asyncCb_rel:
  assumes rel: "hub_rel rl0 (st, rl) h"
  shows "\<exists>s'. asyncCb P (st, rl) = Inr s' \<and> hub_rel rl0 s' (hub_step P EvWakeup h)"
proof -
  have cr: "conns_rel st (hub_open h)" and rl: "rl = posted h rl0" and fits: "list_all sub_fits (hub_inbox h)"
    using rel by (simp_all add: hub_rel_def)
  obtain st' where st': "foldE (websocket_msg P) (hub_inbox h) st = Inr st'" "conns_rel st' (hub_open h)"
    "frames st' = frames st @ concat (map (frames_of (hub_open h)) (hub_inbox h))" "ws_kept st st'"
    "gracefulShutdown st' = (gracefulShutdown st \<or> WsGracefulShutdown \<in> set (hub_inbox h))"
    using websocket_msgs_rel [OF cr fits, of P] by blast
  have "asyncCb P (st, rl) = Inr (st', rl\<lparr>tpWebsocket := [[]]\<rparr>)"
    using st'(1) by (simp add: asyncCb_def rl posted_def)
  moreover have "hub_rel rl0 (st', rl\<lparr>tpWebsocket := [[]]\<rparr>) (hub_step P EvWakeup h)"
    using rel st' by (simp add: hub_rel_def ws_kept_def posted_def)
  ultimately show ?thesis by blast
qed

lemma onHttpRequest_rel:
  assumes rel: "hub_rel rl0 (st, rl) h"
  shows "hub_rel rl0 (onHttpRequest P cfg hdr url st, rl) h"
proof -
  define st' where "st' = onHttpRequest P cfg hdr url st"
  have same: "connIdToConnection st' = connIdToConnection st" "userData st' = userData st" "wt_fresh st' = wt_fresh st"
      "wt_heap st' = wt_heap st" "nextConnectionId st' = nextConnectionId st" "gracefulShutdown st' = gracefulShutdown st"
      "frames st' = frames st" "exit_status st' = exit_status st"
    by (simp_all add: st'_def onHttpRequest_def write_page_def Let_def)
  have "conns_rel st (hub_open h)" using rel by (simp add: hub_rel_def)
  then have "conns_rel st' (hub_open h)" by (rule conns_rel_cong) (fact same)+
  with same rel show ?thesis by (simp add: hub_rel_def st'_def [symmetric])
qed

lemma ws_handle_rel:
  assumes rel: "hub_rel rl0 s h" and ok: "hub_ok e h" and pton: "pton_ok P" and live: "\<not> hub_over h"
  shows "\<exists>s'. ws_handle P e s = Inr s' \<and> hub_rel rl0 s' (hub_step P e h)"
proof -
  obtain st rl where s: "s = (st, rl)" by (cases s)
  note rel = rel [unfolded s]
  show ?thesis
  proof (cases e)
    case (EvConnection ws hdr addr now cfg)
    with onConnection_rel [OF rel, of ws hdr addr now cfg P] ok pton show ?thesis by (auto simp: ws_handle_def s)
  next
    case (EvDisconnection ws)
    with onDisconnection_rel [OF rel _ live, of ws P] ok show ?thesis by (simp add: ws_handle_def s)
  next
    case (EvMessage ws m n)
    with onMessage2_rel [OF rel, of ws m n P] ok show ?thesis by (simp add: ws_handle_def s)
  next
    case (EvHttpRequest hdr url cfg)
    with onHttpRequest_rel [OF rel, of P cfg hdr url] show ?thesis by (simp add: ws_handle_def s)
  next
    case (EvPosted m)
    with rel ok show ?thesis by (simp add: ws_handle_def s hub_rel_def posted_def dispatch_def)
  next
    case EvWakeup
    with asyncCb_rel [OF rel, of P] show ?thesis by (simp add: ws_handle_def s)
  qed
qed

lemma runWebsocket_rel:
  assumes "hub_rel rl0 s h" and "run_ok P es h" and "pton_ok P"
  shows "\<exists>s'. runWebsocket P es s = Inr s' \<and> hub_rel rl0 s' (hub_run P es h)"
  using assms
proof (induction es arbitrary: s h)
  case Nil
  then show ?case by simp
next
  case (Cons e es)
  have over: "exit_status (fst s) \<noteq> None \<longleftrightarrow> hub_over h" using Cons.prems(1) by (auto simp: hub_rel_def split: if_splits)
  show ?case
  proof (cases "hub_over h")
    case True
    with over Cons.prems(1) show ?thesis by simp
  next
    case False
    with Cons.prems(2) have ok: "hub_ok e h" "run_ok P es (hub_step P e h)" by simp_all
    obtain s1 where s1: "ws_handle P e s = Inr s1" "hub_rel rl0 s1 (hub_step P e h)"
      using ws_handle_rel [OF Cons.prems(1) ok(1) Cons.prems(3) False] by blast
    from Cons.IH [OF s1(2) ok(2) Cons.prems(3)] s1(1) over False show ?thesis by simp
  qed
qed

section \<open>Properties\<close>

lemma hub_rel_init: "tpWebsocket rl = [[]] \<Longrightarrow> hub_rel rl (ws_init, rl) hub_init"
  by (simp add: hub_rel_def hub_init_def ws_init_def conns_rel_def posted_def)

text \<open>
  C9. Whatever the order of connections, client messages, messages of other threads and
  disconnections, the websocket thread never follows a dead pointer, leaves its buffer or
  throws; every client message and every end of a connection reaches the ingester of that
  connection, once and in order; an answer is sent to the connection it is for as long as that is
  open, the text of an event rendered for many clients being that of a single answer; the
  objects on the heap are those of the open connections; and the process ends when the last
  connection closes after a shutdown was requested.
\<close>

theorem websocket_refines:
  assumes "pton_ok P" and "run_ok P es hub_init" and "tpWebsocket rl = [[]]"
  shows "\<exists>st. runWebsocket P es (ws_init, rl) = Inr (st, posted (hub_run P es hub_init) rl) \<and>
    frames st = hub_frames (hub_run P es hub_init) \<and>
    map fst (connIdToConnection st) = map (\<lambda>(w, k, ip). k) (hub_open (hub_run P es hub_init)) \<and>
    dom (wt_heap st) = snd ` set (connIdToConnection st) \<and>
    exit_status st = (if hub_over (hub_run P es hub_init) then Some 0 else None)"
proof -
  obtain s where s: "runWebsocket P es (ws_init, rl) = Inr s" "hub_rel rl s (hub_run P es hub_init)"
    using runWebsocket_rel [OF hub_rel_init [OF assms(3)] assms(2,1)] by blast
  obtain st rl' where "s = (st, rl')" by (cases s)
  with s show ?thesis
    by (intro exI [of _ st]) (simp add: hub_rel_def conns_rel_def comp_def split_def)
qed

definition sample_ws_cfg :: ws_cfg where
  "sample_ws_cfg = \<lparr>wsc_version = 1, wsc_realIpHeader = [], wsc_nips = [], wsc_maxWebsocketPayloadSize = 131072,
     wsc_maxSubsPerConnection = 20, wsc_maxFilterLimit = 500, wsc_name = [], wsc_description = [], wsc_contact = [],
     wsc_pubkey = [], wsc_icon = []\<rparr>"

definition sample_ws_params :: ws_params where
  "sample_ws_params = \<lparr>wp_lib = le_lib, wp_inet_ntop = (\<lambda>v6 b. b), wp_inet_pton = (\<lambda>v6 t. None), APP_GIT_VERSION = ''1'',
     PROTOCOL_VERSION = 0x61, wp_landing = (\<lambda>nips ver neg. nips), wp_compressedSize = (\<lambda>fs. 0)\<rparr>"

definition sample_run :: "ws_event list" where
  "sample_run =
     [EvConnection 7 (\<lambda>_. []) ''abcd'' 0 sample_ws_cfg, EvConnection 8 (\<lambda>_. []) ''efgh'' 0 sample_ws_cfg,
      EvMessage 7 ''hi'' 2, EvPosted (WsSendEventToBatch [(1, CHR 0x01 # ''x''), (2, CHR 0x02 # ''yz'')] (CHR ''{'' # ''}'')),
      EvDisconnection 8, EvPosted WsGracefulShutdown, EvWakeup, EvDisconnection 7]"

theorem websocket_refines_witness:
  "\<exists>st. runWebsocket sample_ws_params sample_run (ws_init, relay_idle) =
      Inr (st, relay_idle\<lparr>tpIngester := fold (\<lambda>(k, m). dispatch k m)
        [(1, IngClientMessage 1 ''abcd'' ''hi'' None), (2, IngCloseConn 2), (1, IngCloseConn 1)] (tpIngester relay_idle)\<rparr>) \<and>
    frames st = [(7, OpText, event_prefix @ ''x'' @ [CHR 0x22, CHR '','', CHR ''{'', CHR ''}'', CHR '']''])] \<and> exit_status st = Some 0"
proof -
  let ?P = sample_ws_params
  have hub: "hub_run ?P sample_run hub_init = hub_init\<lparr>hub_next := 3, hub_stopping := True, hub_over := True,
      hub_frames := [(7, OpText, event_prefix @ ''x'' @ [CHR 0x22, CHR '','', CHR ''{'', CHR ''}'', CHR '']''])],
      hub_up := [(1, IngClientMessage 1 ''abcd'' ''hi'' None), (2, IngCloseConn 2), (1, IngCloseConn 1)]\<rparr>"
    by (simp add: sample_run_def sample_ws_params_def sample_ws_cfg_def hub_init_def client_ip_def to_conn_def
        event_text_def SubId_sv_def Let_def)
  have "posted (hub_run ?P sample_run hub_init) relay_idle = relay_idle\<lparr>tpIngester := fold (\<lambda>(k, m). dispatch k m)
        [(1, IngClientMessage 1 ''abcd'' ''hi'' None), (2, IngCloseConn 2), (1, IngCloseConn 1)] (tpIngester relay_idle)\<rparr>"
    unfolding hub by (simp add: posted_def hub_init_def relay_idle_def)
  moreover have "pton_ok ?P" by (simp add: pton_ok_def sample_ws_params_def)
  moreover have "run_ok ?P sample_run hub_init"
    by (simp add: sample_run_def hub_init_def valid_ip_def SubId_sv_def MAX_SUBID_SIZE_def Let_def)
  moreover have "tpWebsocket relay_idle = [[]]" by (simp add: relay_idle_def)
  ultimately show ?thesis
    using websocket_refines [of ?P sample_run relay_idle] hub by fastforce
qed

text \<open>
  The page for \<^verbatim>\<open>/.well-known/nodeinfo\<close> is ws_kept per version of the configuration although it
  contains the host that the client named: all later clients get the host of the first one.
\<close>

theorem nodeinfo_first_host:
  assumes "wsc_version cfg \<noteq> 0"
  shows "pages (onHttpRequest P cfg hdr2 ''/.well-known/nodeinfo'' (onHttpRequest P cfg hdr1 ''/.well-known/nodeinfo'' ws_init)) =
    (let page = preGenerateHttpResponse ''application/json'' (json_to_string (wp_lib P) (nodeinfo_links (hdr1 ''host'')))
     in [page, page])"
  using assms
  by (simp add: onHttpRequest_def write_page_def getNodeInfoHttpResponse_def refresh_page_def ws_init_def new_page_def Let_def)

end
