(* ===== verification/Db_Tools.thy ===== *)
theory Db_Tools
  imports Query_Answer Writer_Pipeline Relay_Cron
begin

text \<open>
  The commands that work on the database from the command line (\<^verbatim>\<open>src/src/apps/dbutils\<close>): scan,
  delete, export, import and the compression of stored events.  Their arguments come as the
  parser of the command line gives them, standard input and output are strings, and the
  machine is little-endian.  \<open>db\<close> is what a reading transaction sees, \<open>db1\<close> what the writing
  one that follows finds.

  Deleting removes exactly the events that the filter selects; what \<^verbatim>\<open>export\<close> prints is read back
  by \<^verbatim>\<open>import\<close> as the same events in the same order; compressing and decompressing leaves the
  text of every event as it was, even when the command fails half-way.
\<close>

section \<open>Queries of the commands\<close>

text \<open>
  \<^verbatim>\<open>DBQuery query(filter); while (1) { complete = query.process(...); if (complete) break; }\<close>
\<close>

fun query_loop ::
    "nat \<Rightarrow> nat \<Rightarrow> 'db env \<Rightarrow> lib \<Rightarrow> (nat \<Rightarrow> u64) \<Rightarrow> 'db \<Rightarrow> (u64 \<Rightarrow> 'c \<Rightarrow> 'c result) \<Rightarrow> u64 \<Rightarrow>
     dbquery \<times> nat \<times> 'c \<Rightarrow> ('c result) option" where
  "query_loop 0 n E L clock db cb budget st = None"
| "query_loop (Suc m) n E L clock db cb budget st =
     (case process n E L clock db cb budget st of
        None \<Rightarrow> None
      | Some (Inl e) \<Rightarrow> Some (Inl e)
      | Some (Inr (finished, q, t, c)) \<Rightarrow>
          if finished then Some (Inr c) else query_loop m n E L clock db cb budget (q, t, c))"

definition run_query ::
    "nat \<Rightarrow> 'db env \<Rightarrow> lib \<Rightarrow> (nat \<Rightarrow> u64) \<Rightarrow> 'db \<Rightarrow> json \<Rightarrow> (u64 \<Rightarrow> 'c \<Rightarrow> 'c result) \<Rightarrow> u64 \<Rightarrow> 'c \<Rightarrow> ('c result) option" where
  "run_query n E L clock db filt cb budget c =
     (case DBQuery_filter L filt MAX_U64 of
        Inl e \<Rightarrow> Some (Inl e)
      | Inr q \<Rightarrow> query_loop n n E L clock db cb budget (q, 0, c))"

section \<open>scan\<close>

text \<open>The state is what was printed and the number of events; \<open>count_only\<close> prints only it.\<close>

definition scan_cb :: "(u64 \<Rightarrow> string result) \<Rightarrow> bool \<Rightarrow> u64 \<Rightarrow> string \<times> u64 \<Rightarrow> (string \<times> u64) result" where
  "scan_cb json_of count_only levId st =
     (if count_only then Inr (fst st, snd st + 1)
      else bindE (json_of levId) (\<lambda>t. Inr (fst st @ t @ [CHR 0x0A], snd st)))"

definition cmd_scan ::
    "nat \<Rightarrow> 'db env \<Rightarrow> lib \<Rightarrow> (string \<Rightarrow> u32) \<Rightarrow> (u32 \<Rightarrow> string \<Rightarrow> string result) \<Rightarrow> (nat \<Rightarrow> u64) \<Rightarrow>
     u64 \<Rightarrow> bool \<Rightarrow> string \<Rightarrow> 'db \<Rightarrow> (string result) option" where
  "cmd_scan n E L from_sv32 decompress clock pause count_only filterStr db =
     (case json_from_string L filterStr of
        Inl e \<Rightarrow> Some (Inl e)
      | Inr filt \<Rightarrow>
          map_option (\<lambda>r. bindE r (\<lambda>(out, numEvents). Inr (if count_only then out @ show_u64 numEvents @ [CHR 0x0A] else out)))
            (run_query n E L clock db filt (scan_cb (getEventJson E from_sv32 decompress db) count_only)
               (if pause \<noteq> 0 then pause else MAX_U64) ([], 0)))"

section \<open>delete\<close>

text \<open>
  \<^verbatim>\<open>filter.optional<uint64_t>("until")\<close> converts a number and throws for anything else; whatever
  it finds, the command gives up.
\<close>

definition delete_filter :: "lib \<Rightarrow> u64 \<Rightarrow> u64 option \<Rightarrow> string \<Rightarrow> json result" where
  "delete_filter L now age_arg filterStr =
     (let age = (case age_arg of None \<Rightarrow> MAX_U64 | Some a \<Rightarrow> a)
      in bindE (throw_if (length filterStr = 0 \<and> age = MAX_U64) ''must specify --age and/or --filter'') (\<lambda>_.
         bindE (json_from_string L (if length filterStr = 0 then ''{}'' else filterStr)) (\<lambda>filt.
         if age = MAX_U64 then Inr filt
         else (let age' = (if age > now then now else age)
               in bindE (json_find filt ''until'') (\<lambda>u.
                  case u of
                    Some v \<Rightarrow> Inl (if is_number v then Herr (''--age is not compatible with filter containing 'until'' @ [CHR 0x27]) else BadVariant)
                  | None \<Rightarrow> bindE (get_object filt) (\<lambda>kvs.
                      Inr (JObject (smap_update ''until'' JNull (\<lambda>_. JUnsigned (now - age')) kvs))))))))"

definition set_insert :: "u64 \<Rightarrow> u64 list \<Rightarrow> u64 list" where
  "set_insert l ls = (if l \<in> set ls then ls else insort l ls)"

definition cmd_delete ::
    "nat \<Rightarrow> 'db env \<Rightarrow> lib \<Rightarrow> (nat \<Rightarrow> u64) \<Rightarrow> u64 \<Rightarrow> u64 option \<Rightarrow> string \<Rightarrow> bool \<Rightarrow> 'db \<Rightarrow> 'db \<Rightarrow> ('db result) option" where
  "cmd_delete n E L clock now age filterStr dryRun db db1 =
     (case delete_filter L now age filterStr of
        Inl e \<Rightarrow> Some (Inl e)
      | Inr filt \<Rightarrow>
          map_option (\<lambda>r. bindE r (\<lambda>levIds.
              if dryRun then Inr db1
              else bindE (deleteEvents E L new_filter_cache levIds db1) (\<lambda>(_, db2, _). Inr db2)))
            (run_query n E L clock db filt (\<lambda>levId levIds. Inr (set_insert levId levIds)) MAX_U64 []))"

section \<open>export\<close>

definition fried_tag :: string where
  "fried_tag = [CHR '','', CHR 0x22] @ ''fried'' @ [CHR 0x22, CHR '':'', CHR 0x22]"

text \<open>Resizing an empty string to its size minus one asks for too much memory.\<close>

definition fried_line :: "lib \<Rightarrow> string \<Rightarrow> string \<Rightarrow> string result" where
  "fried_line L json buf =
     (if length json = 0 then Inl (LibError ''basic_string::_M_replace_aux'')
      else Inr (take (length json - 1) json @ fried_tag @ to_hex L buf @ [CHR 0x22, CHR ''}'', CHR 0x0A]))"

definition export_one ::
    "'db env \<Rightarrow> lib \<Rightarrow> (string \<Rightarrow> u32) \<Rightarrow> (u32 \<Rightarrow> string \<Rightarrow> string result) \<Rightarrow> bool \<Rightarrow> 'db \<Rightarrow> u64 \<Rightarrow> string result" where
  "export_one E L from_sv32 decompress fried db levId =
     bindE (getEventJson E from_sv32 decompress db levId) (\<lambda>json.
     if fried then bindE (lookupEventByLevId E db levId) (\<lambda>ev. fried_line L json (snd ev))
     else Inr (json @ [CHR 0x0A]))"

fun export_walk :: "lib \<Rightarrow> (u64 \<Rightarrow> string result) \<Rightarrow> u64 \<Rightarrow> u64 \<Rightarrow> bool \<Rightarrow> (string \<times> u64) list \<Rightarrow> string \<Rightarrow> string result" where
  "export_walk L line since until bwd [] out = Inr out"
| "export_walk L line since until bwd ((k, v) # rest) out =
     (if (if bwd then from_sv L k < since else from_sv L k > until) then Inr out
      else bindE (line v) (\<lambda>t. export_walk L line since until bwd rest (out @ t)))"

definition cmd_export ::
    "'db env \<Rightarrow> lib \<Rightarrow> (string \<Rightarrow> u32) \<Rightarrow> (u32 \<Rightarrow> string \<Rightarrow> string result) \<Rightarrow> ('db \<Rightarrow> u64) \<Rightarrow>
     u64 option \<Rightarrow> u64 option \<Rightarrow> bool \<Rightarrow> bool \<Rightarrow> 'db \<Rightarrow> string result" where
  "cmd_export E L from_sv32 decompress getDBVersion since_arg until_arg bwd fried db =
     (let since = (case since_arg of None \<Rightarrow> 0 | Some t \<Rightarrow> t); until = (case until_arg of None \<Rightarrow> MAX_U64 | Some t \<Rightarrow> t);
          dbVersion = getDBVersion db
      in bindE (throw_if (dbVersion = 0) ''migration from DB version 0 not supported by this version of strfry'') (\<lambda>_.
         bindE (throw_if (fried \<and> dbVersion < 3) ''can't export old DB version with --fried: please downgrade to 0.9.7'') (\<lambda>_.
         export_walk L (export_one E L from_sv32 decompress fried db) since until bwd
           (foreachFull E db Ix_created_at (to_sv L (if bwd then until else since)) (if bwd then MAX_U64 else 0) bwd) [])))"

section \<open>import\<close>

fun last_quote :: "string \<Rightarrow> nat \<Rightarrow> nat" where
  "last_quote s 0 = 0"
| "last_quote s (Suc i) = (if s ! Suc i = CHR 0x22 then Suc i else last_quote s i)"

definition parseFried :: "lib \<Rightarrow> string \<Rightarrow> event_to_write result" where
  "parseFried L line =
     bindE (throw_if (length line < 64) ''fried too small'') (\<lambda>_.
     bindE (throw_if (\<not> ends_with line [CHR 0x22, CHR ''}'']) ''fried parse error'') (\<lambda>_.
     let i = last_quote line (length line - 3)
     in bindE (throw_if (\<not> ends_with (substr line 0 (i + 1)) fried_tag) ''fried parse error'') (\<lambda>_.
        bindE (from_hex L (substr line (i + 1) (length line - i - 3)) True) (\<lambda>packed.
        Inr (EventToWrite packed (take (i - 8) (line[i - 9 := CHR ''}''])) None)))))"

text \<open>
  \<^verbatim>\<open>getline\<close> gives the text up to and including the next line end, or to the end of the input;
  the command drops the last character of it.
\<close>

fun raw_lines :: "string \<Rightarrow> string \<Rightarrow> string list" where
  "raw_lines acc [] = (if acc = [] then [] else [acc])"
| "raw_lines acc (c # s) = (if c = CHR 0x0A then (acc @ [c]) # raw_lines [] s else raw_lines (acc @ [c]) s)"

definition import_lines :: "string \<Rightarrow> string list" where
  "import_lines input = map (\<lambda>l. take (length l - 1) l) (raw_lines [] input)"

text \<open>The calls of \<^verbatim>\<open>writer.write\<close>; a line that cannot be parsed is skipped with a warning.\<close>

datatype import_op = ImpJson json | ImpEvent event_to_write

definition import_line :: "lib \<Rightarrow> bool \<Rightarrow> string \<Rightarrow> import_op option" where
  "import_line L fried line =
     (if fried then (case parseFried L line of Inl _ \<Rightarrow> None | Inr ev \<Rightarrow> Some (ImpEvent ev))
      else (case json_from_string L line of Inl _ \<Rightarrow> None | Inr j \<Rightarrow> Some (ImpJson j)))"

definition cmd_import :: "lib \<Rightarrow> bool \<Rightarrow> string \<Rightarrow> import_op list" where
  "cmd_import L fried input = List.map_filter (import_line L fried) (import_lines input)"

fun import_write :: "import_op \<Rightarrow> 'db pipeline \<Rightarrow> 'db pipeline" where
  "import_write (ImpJson j) = write_json j"
| "import_write (ImpEvent ev) = write_event ev"

section \<open>dict\<close>

text \<open>
  The loop over the events that compresses or decompresses: \<open>newVal\<close> makes the new record from
  the text.  Every so often the transaction is committed and a new one begun; an exception
  leaves what was committed.  The result is the database in the end and how the loop ended.
\<close>

fun dict_loop ::
    "'db env \<Rightarrow> ('db \<Rightarrow> u64 \<Rightarrow> string result) \<Rightarrow> (string \<Rightarrow> string result) \<Rightarrow> u64 list \<Rightarrow> nat \<Rightarrow> 'db \<Rightarrow> 'db \<Rightarrow> 'db \<times> unit result" where
  "dict_loop E json_of newVal [] pendingFlush on_disk db = (db, Inr ())"
| "dict_loop E json_of newVal (levId # levIds) pendingFlush on_disk db =
     (case json_of db levId of
        Inl UB \<Rightarrow> (on_disk, Inl UB)
      | Inl _ \<Rightarrow> dict_loop E json_of newVal levIds pendingFlush on_disk db
      | Inr orig \<Rightarrow>
          (case newVal orig of
             Inl e \<Rightarrow> (on_disk, Inl e)
           | Inr v \<Rightarrow>
               (let db' = payload_put E db levId v
                in if pendingFlush + 1 > 10000 then dict_loop E json_of newVal levIds 0 db' db'
                   else dict_loop E json_of newVal levIds (pendingFlush + 1) on_disk db')))"

text \<open>The zstd calls are arguments: \<open>compress dict level\<close> is a context with the dictionary.\<close>

definition compressed_val :: "(u32 \<Rightarrow> string) \<Rightarrow> (string \<Rightarrow> string result) \<Rightarrow> u64 \<Rightarrow> string \<Rightarrow> string result" where
  "compressed_val to_sv32 zcompress dictId orig =
     bindE (zcompress orig) (\<lambda>data.
     Inr (if length data + 4 < length orig then CHR 0x01 # to_sv32 (ucast dictId) @ data else CHR 0x00 # orig))"

record zstd =
  z_from_sv32 :: "string \<Rightarrow> u32"
  z_to_sv32 :: "u32 \<Rightarrow> string"
  z_compress :: "string \<Rightarrow> int \<Rightarrow> string \<Rightarrow> string result"
  z_decompress :: "u32 \<Rightarrow> string \<Rightarrow> string result"

datatype dict_cmd = DictCompress u64 int | DictDecompress

definition dict_query :: "nat \<Rightarrow> 'db env \<Rightarrow> lib \<Rightarrow> (nat \<Rightarrow> u64) \<Rightarrow> string option \<Rightarrow> 'db \<Rightarrow> (u64 list result) option" where
  "dict_query n E L clock filter_arg db =
     (case json_from_string L (case filter_arg of None \<Rightarrow> ''{}'' | Some s \<Rightarrow> s) of
        Inl e \<Rightarrow> Some (Inl e)
      | Inr filt \<Rightarrow> run_query n E L clock db filt (\<lambda>levId levIds. Inr (levIds @ [levId])) MAX_U64 [])"

definition dict_rewrite ::
    "'db env \<Rightarrow> zstd \<Rightarrow> ('db \<Rightarrow> u64 \<Rightarrow> string option) \<Rightarrow> dict_cmd \<Rightarrow> u64 list \<Rightarrow> 'db \<Rightarrow> 'db \<times> unit result" where
  "dict_rewrite E Z lookup_CompressionDictionary c levIds db =
     (let json_of = getEventJson E (z_from_sv32 Z) (z_decompress Z)
      in case c of
           DictCompress dictId level \<Rightarrow>
             if dictId = 0 then (db, Inl (Herr ''specify --dictId or --decompress''))
             else (case lookup_CompressionDictionary db dictId of
                     None \<Rightarrow> (db, Inl (Herr (''couldn't find dictId '' @ show_u64 dictId)))
                   | Some dict \<Rightarrow> dict_loop E json_of (compressed_val (z_to_sv32 Z) (z_compress Z dict level) dictId) levIds 0 db db)
         | DictDecompress \<Rightarrow> dict_loop E json_of (\<lambda>orig. Inr (CHR 0x00 # orig)) levIds 0 db db)"

definition cmd_dict ::
    "nat \<Rightarrow> 'db env \<Rightarrow> lib \<Rightarrow> zstd \<Rightarrow> ('db \<Rightarrow> u64 \<Rightarrow> string option) \<Rightarrow> (nat \<Rightarrow> u64) \<Rightarrow> dict_cmd \<Rightarrow> string option \<Rightarrow> 'db \<Rightarrow> 'db \<Rightarrow>
     ('db \<times> unit result) option" where
  "cmd_dict n E L Z lookup_CompressionDictionary clock c filter_arg db db1 =
     map_option (\<lambda>r. case r of Inl e \<Rightarrow> (db1, Inl e) | Inr levIds \<Rightarrow> dict_rewrite E Z lookup_CompressionDictionary c levIds db1)
       (dict_query n E L clock filter_arg db)"

section \<open>Queries return the newest matching events\<close>

lemma run_query_unlimited:
  assumes "scan_env L E key_le tree_items" "foreachByFilter n E L clock db filt cb c = Some r" "n \<noteq> 0"
  shows "run_query n E L clock db filt cb MAX_U64 c = Some r"
proof (cases "DBQuery_filter L filt MAX_U64")
  case (Inl e)
  with assms(2) show ?thesis by (simp add: run_query_def foreachByFilter_def)
next
  case q: (Inr q)
  obtain m where n: "n = Suc m" using assms(3) by (cases n) auto
  obtain x where x: "process n E L clock db cb MAX_U64 (q, 0, c) = Some x"
    using assms(2) q by (cases "process n E L clock db cb MAX_U64 (q, 0, c)") (auto simp: foreachByFilter_def)
  have "b" if "x = Inr (b, q', t, c')" for b q' t c'
    by (rule scan_env.process_unlimited [OF assms(1) x [unfolded that]])
  then show ?thesis
    using assms(2) q x by (auto simp: run_query_def foreachByFilter_def n split: sum.splits)
qed

lemma run_query_exact:
  assumes "scan_env L E key_le tree_items" "holds E L tree_items fs db M" "lookup_Event E db 0 = None" "small_times M"
    and "NostrFilter L (JObject kvs) MAX_U64 = Inr f" "distinct (map fst kvs)" "few_values f"
  shows "\<exists>N. \<forall>n\<ge>N. run_query n E L clock db (JObject kvs) cb MAX_U64 c = Some (foldE cb (chosen L M kvs f) c)"
proof -
  obtain N where N: "\<forall>n\<ge>N. foreachByFilter n E L clock db (JObject kvs) cb c = Some (foldE cb (chosen L M kvs f) c)"
    using foreachByFilter_chosen [OF assms, of clock cb c] by (elim exE)
  then have "run_query n E L clock db (JObject kvs) cb MAX_U64 c = Some (foldE cb (chosen L M kvs f) c)" if "max 1 N \<le> n" for n
    by (intro run_query_unlimited [OF assms(1)]) (use that in auto)
  then show ?thesis by blast
qed

lemma foldE_Inr: "foldE (\<lambda>x s. Inr (g x s)) xs s = Inr (fold g xs s)"
  by (induction xs arbitrary: s) auto

lemma set_set_insert: "set (fold set_insert ls acc) = set ls \<union> set acc"
  by (induction ls arbitrary: acc) (auto simp: set_insert_def set_insort_key)

section \<open>Deleting\<close>

text \<open>
  The events that the arguments select: those that match the filter, that are at least as old as
  the age says (from now, and not before the time 0), the newest ones up to the limit of the
  filter.  \<open>kvs\<close> are the entries of the filter that was given, none if there was none.
\<close>

definition old_enough :: "u64 \<Rightarrow> u64 option \<Rightarrow> event \<Rightarrow> bool" where
  "old_enough now age e \<longleftrightarrow> (case age of None \<Rightarrow> True | Some a \<Rightarrow> unat (ev_created_at e) \<le> unat now - unat a)"

definition to_delete :: "lib \<Rightarrow> u64 \<Rightarrow> u64 option \<Rightarrow> store \<Rightarrow> (string \<times> json) list \<Rightarrow> u64 list" where
  "to_delete L now age M kvs = take (unat (asked_limit kvs))
     (map snd (rev (sorted_list_of_set {(ev_created_at e, l) | e l. M l = Some e \<and> nip01_match L e kvs \<and> old_enough now age e})))"

text \<open>What has to be given: an age or a filter, and no age together with a bound on the time in the filter.\<close>

definition delete_args :: "lib \<Rightarrow> u64 option \<Rightarrow> string \<Rightarrow> (string \<times> json) list \<Rightarrow> bool" where
  "delete_args L age filterStr kvs \<longleftrightarrow> json_from_string L (if filterStr = [] then ''{}'' else filterStr) = Inr (JObject kvs) \<and>
     (case age of None \<Rightarrow> filterStr \<noteq> [] | Some a \<Rightarrow> a \<noteq> MAX_U64 \<and> ''until'' \<notin> fst ` set kvs)"

lemma delete_filter_chosen:
  assumes "delete_args L age filterStr kvs" "NostrFilter L (JObject kvs) MAX_U64 = Inr f" "distinct (map fst kvs)" "few_values f"
  obtains kvs' f' where "delete_filter L now age filterStr = Inr (JObject kvs')" "NostrFilter L (JObject kvs') MAX_U64 = Inr f'"
    "distinct (map fst kvs')" "few_values f'" "chosen L M kvs' f' = to_delete L now age M kvs"
proof -
  have limit: "nf_limit f = asked_limit kvs" using NostrFilter_limit [OF assms(2,3)] by (simp add: min_def word_order.extremum_unique)
  show thesis
  proof (cases age)
    case None
    then have "delete_filter L now age filterStr = Inr (JObject kvs)" using assms(1) by (auto simp: delete_args_def delete_filter_def throw_if_def)
    moreover have "chosen L M kvs f = to_delete L now age M kvs" by (simp add: chosen_def to_delete_def old_enough_def None limit)
    ultimately show thesis using that assms(2-4) by blast
  next
    case (Some a)
    let ?u = "now - (if a > now then now else a)"
    let ?kvs = "smap_update ''until'' JNull (\<lambda>_. JUnsigned ?u) kvs"
    have args: "json_from_string L (if filterStr = [] then ''{}'' else filterStr) = Inr (JObject kvs)" "a \<noteq> MAX_U64" "''until'' \<notin> fst ` set kvs"
      using assms(1) by (simp_all add: delete_args_def Some)
    then have "map_of kvs ''until'' = None" by (simp add: map_of_eq_None_iff)
    then have filt: "delete_filter L now age filterStr = Inr (JObject ?kvs)"
      using args by (simp add: delete_filter_def throw_if_def Some json_find_def Let_def)
    have u: "ev_created_at e \<le> ?u \<longleftrightarrow> old_enough now age e" for e
      by (auto simp: old_enough_def Some word_le_nat_alt word_less_nat_alt unat_sub not_less)
    have "chosen L M ?kvs (f\<lparr>nf_until := ?u\<rparr>) = to_delete L now age M kvs"
      unfolding chosen_def to_delete_def nip01_match_with_until [OF args(3)] u by (simp add: limit)
    moreover have "distinct (map fst ?kvs)"
    proof -
      obtain x y where "kvs = x @ y" "?kvs = x @ (''until'', JUnsigned ?u) # y" using smap_update_new [OF args(3), of JNull "\<lambda>_. JUnsigned ?u"] by blast
      then show ?thesis using assms(3) args(3) by auto
    qed
    moreover have "few_values (f\<lparr>nf_until := ?u\<rparr>)" using assms(4) by (simp add: few_values_def)
    ultimately show thesis using that [OF filt NostrFilter_with_until [OF assms(2) args(3)]] by blast
  qed
qed

text \<open>
  C28. The delete command returns, and without \<^verbatim>\<open>--dry-run\<close> removes from the database exactly
  the events that match the filter it was given and, when an age was given, were created at
  least that many seconds ago, the newest ones of them if the filter has a limit; what else was
  stored stays, and the indexes and trees stay in step.  With \<^verbatim>\<open>--dry-run\<close> nothing changes.  The
  arguments have to be a filter that is accepted, an age, or both, the filter then without
  \<^verbatim>\<open>until\<close>.
\<close>

theorem cmd_delete_exact:
  assumes "scan_env L E key_le tree_items" "holds E L tree_items fs db M" "lookup_Event E db 0 = None" "small_times M"
    and "delete_args L age filterStr kvs" "NostrFilter L (JObject kvs) MAX_U64 = Inr f"
    and "distinct (map fst kvs)" "few_values f"
    and "freshenCache E L db1 new_filter_cache = Inr cache" "holds E L tree_items (fc_filters cache) db1 M1" "consistent M1"
  shows "\<exists>N db2. (\<forall>n\<ge>N. cmd_delete n E L clock now age filterStr False db db1 = Some (Inr db2) \<and>
      cmd_delete n E L clock now age filterStr True db db1 = Some (Inr db1)) \<and>
    holds E L tree_items (fc_filters cache) db2 (M1 |` (- set (to_delete L now age M kvs))) \<and>
    consistent (M1 |` (- set (to_delete L now age M kvs)))"
proof -
  obtain kvs' f' where filt: "delete_filter L now age filterStr = Inr (JObject kvs')" "NostrFilter L (JObject kvs') MAX_U64 = Inr f'"
    "distinct (map fst kvs')" "few_values f'" "chosen L M kvs' f' = to_delete L now age M kvs"
    by (rule delete_filter_chosen [OF assms(5-8), of now M])
  let ?sel = "to_delete L now age M kvs"
  let ?ids = "fold set_insert ?sel []"
  have ids: "set ?ids = set ?sel" by (simp add: set_set_insert)
  have ev: "event_env L E key_le tree_items" using assms(1) by (rule scan_env.axioms(1))
  obtain db2 where db2: "deleteEvents E L new_filter_cache ?ids db1 = Inr (of_nat (card (set ?sel \<inter> dom M1)), db2, cache)"
    "holds E L tree_items (fc_filters cache) db2 (M1 |` (- set ?sel))" "consistent (M1 |` (- set ?sel))"
    by (rule event_env.deleteEvents_store [OF ev assms(9,10,11), of ?ids, unfolded ids])
  obtain N where "\<forall>n\<ge>N. run_query n E L clock db (JObject kvs') (\<lambda>levId levIds. Inr (set_insert levId levIds)) MAX_U64 [] =
      Some (Inr ?ids)"
    using run_query_exact [OF assms(1-4) filt(2-4), of clock "\<lambda>levId levIds. Inr (set_insert levId levIds)" "[]"]
    unfolding foldE_Inr filt(5) by (elim exE)
  then have "\<forall>n\<ge>N. cmd_delete n E L clock now age filterStr False db db1 = Some (Inr db2) \<and>
      cmd_delete n E L clock now age filterStr True db db1 = Some (Inr db1)"
    using db2(1) by (simp add: cmd_delete_def filt(1))
  with db2(2,3) show ?thesis by blast
qed

section \<open>Lines\<close>

lemma raw_lines_line: "CHR 0x0A \<notin> set l \<Longrightarrow> raw_lines acc (l @ CHR 0x0A # rest) = (acc @ l @ [CHR 0x0A]) # raw_lines [] rest"
  by (induction l arbitrary: acc) auto

lemma import_lines_line: "CHR 0x0A \<notin> set l \<Longrightarrow> import_lines (l @ CHR 0x0A # rest) = l # import_lines rest"
  by (simp add: import_lines_def raw_lines_line)

lemma import_lines_concat:
  assumes "\<forall>l\<in>set ls. CHR 0x0A \<notin> set l"
  shows "import_lines (concat (map (\<lambda>l. l @ [CHR 0x0A]) ls)) = ls"
  using assms by (induction ls) (simp_all add: import_lines_line, simp add: import_lines_def)

lemma last_quote_skip:
  assumes "\<forall>j. i < j \<and> j \<le> k \<longrightarrow> s ! j \<noteq> CHR 0x22" "s ! i = CHR 0x22" "i \<le> k"
  shows "last_quote s k = i"
  using assms by (induction k) (auto simp: le_Suc_eq)

text \<open>A line of \<^verbatim>\<open>export --fried\<close> is read back as the packed event and the text.\<close>

definition hex_ok :: "lib \<Rightarrow> bool" where
  "hex_ok L \<longleftrightarrow> (\<forall>b. from_hex L (to_hex L b) True = Inr b \<and> length (to_hex L b) = 2 * length b \<and>
     CHR 0x22 \<notin> set (to_hex L b) \<and> CHR 0x0A \<notin> set (to_hex L b))"

definition fried_text :: "lib \<Rightarrow> string \<Rightarrow> string \<Rightarrow> string" where
  "fried_text L json buf = take (length json - 1) json @ fried_tag @ to_hex L buf @ [CHR 0x22, CHR ''}'']"

lemma length_fried_tag [simp]: "length fried_tag = 10"
  by (simp add: fried_tag_def)

lemma parseFried_text:
  assumes hex: "hex_ok L" and json: "json \<noteq> []" "last json = CHR ''}''" and buf: "length buf \<ge> 32"
  shows "parseFried L (fried_text L json buf) = Inr (EventToWrite buf json None)"
proof -
  let ?line = "fried_text L json buf" and ?j = "butlast json" and ?h = "to_hex L buf"
  have line: "?line = ?j @ fried_tag @ ?h @ [CHR 0x22, CHR ''}'']" by (simp add: fried_text_def butlast_conv_take)
  have h: "length ?h = 2 * length buf" "CHR 0x22 \<notin> set ?h" "from_hex L ?h True = Inr buf" using hex by (auto simp: hex_ok_def)
  define i where "i = length ?j + 9"
  have len: "length ?line = i + length ?h + 3" by (simp add: line i_def)
  have at_i: "?line ! i = CHR 0x22" by (simp add: line i_def nth_append fried_tag_def)
  have no: "?line ! m \<noteq> CHR 0x22" if "i < m" "m \<le> length ?line - 3" for m
  proof -
    obtain d where d: "m = length (?j @ fried_tag) + d" "d < length ?h"
      using \<open>i < m\<close> \<open>m \<le> length ?line - 3\<close> by (intro that [of "m - (i + 1)"]) (simp_all add: len i_def)
    have "?line = (?j @ fried_tag) @ ?h @ [CHR 0x22, CHR ''}'']" by (simp add: line)
    then have "?line ! m = (?h @ [CHR 0x22, CHR ''}'']) ! d" by (simp only: d(1) nth_append_length_plus)
    then have "?line ! m = ?h ! d" using d(2) by (simp add: nth_append)
    then show ?thesis using h(2) d(2) by (metis nth_mem)
  qed
  have quote: "last_quote ?line (length ?line - 3) = i"
    by (rule last_quote_skip) (use no at_i len in auto)
  have pre: "substr ?line 0 (i + 1) = ?j @ fried_tag" by (simp add: substr_def line i_def)
  have hexed: "substr ?line (i + 1) (length ?line - i - 3) = ?h" by (simp add: substr_def len) (simp add: line i_def)
  have out: "take (i - 8) (?line[i - 9 := CHR ''}'']) = json"
  proof -
    have "take (i - 8) (?line[i - 9 := CHR ''}'']) = (take (i - 8) ?line)[i - 9 := CHR ''}'']" by (rule take_update_swap)
    also have "take (i - 8) ?line = ?j @ [CHR '','']" by (simp add: line i_def fried_tag_def)
    also have "(?j @ [CHR '',''])[i - 9 := CHR ''}''] = ?j @ [CHR ''}'']" by (simp add: i_def list_update_append)
    also have "\<dots> = json" using json by (metis append_butlast_last_id)
    finally show ?thesis .
  qed
  have "length ?line \<ge> 64" using buf h(1) by (simp add: len)
  moreover have "ends_with ?line [CHR 0x22, CHR ''}'']" "ends_with (?j @ fried_tag) fried_tag"
    by (simp_all add: ends_with_def line)
  ultimately show ?thesis
    unfolding parseFried_def Let_def quote pre hexed out by (simp add: throw_if_def h(3))
qed

text \<open>
  A last line without a line end loses its last character, the closing brace, so that
  the event on it cannot be parsed and is skipped.
\<close>

theorem import_cuts_last_line:
  assumes "CHR 0x0A \<notin> set l" "l \<noteq> []"
  shows "import_lines l = [butlast l]"
proof -
  have "raw_lines acc l = [acc @ l]" if "acc @ l \<noteq> []" for acc
    using assms(1) that by (induction l arbitrary: acc) auto
  then show ?thesis using assms(2) by (simp add: import_lines_def butlast_conv_take)
qed

section \<open>Exporting\<close>

definition exported :: "store \<Rightarrow> u64 \<Rightarrow> u64 \<Rightarrow> bool \<Rightarrow> u64 list" where
  "exported M since until bwd =
     (let ls = map snd (sorted_list_of_set {(ev_created_at e, l) | e l. M l = Some e \<and> since \<le> ev_created_at e \<and> ev_created_at e \<le> until})
      in if bwd then rev ls else ls)"

definition in_range :: "lib \<Rightarrow> u64 \<Rightarrow> u64 \<Rightarrow> bool \<Rightarrow> string \<times> u64 \<Rightarrow> bool" where
  "in_range L since until bwd x \<longleftrightarrow> (if bwd then since \<le> from_sv L (fst x) else from_sv L (fst x) \<le> until)"

lemma export_walk_ok:
  assumes "\<forall>x\<in>set (takeWhile (in_range L since until bwd) xs). line (snd x) = Inr (t (snd x))"
  shows "export_walk L line since until bwd xs out =
    Inr (out @ concat (map (\<lambda>x. t (snd x)) (takeWhile (in_range L since until bwd) xs)))"
  using assms
proof (induction xs arbitrary: out)
  case Nil
  then show ?case by simp
next
  case (Cons x xs)
  obtain k v where x: "x = (k, v)" by fastforce
  show ?case
  proof (cases "in_range L since until bwd x")
    case True
    with Cons.prems have "line v = Inr (t v)" by (simp add: x)
    moreover have "\<forall>x\<in>set (takeWhile (in_range L since until bwd) xs). line (snd x) = Inr (t (snd x))"
      using Cons.prems True by simp
    moreover have "\<not> (if bwd then from_sv L k < since else from_sv L k > until)" using True by (auto simp: x in_range_def not_less)
    ultimately show ?thesis using True Cons.IH [of "out @ t v"] by (simp add: x)
  next
    case False
    then show ?thesis by (auto simp: x in_range_def not_le)
  qed
qed

lemma takeWhile_sorted:
  assumes "sorted_wrt R xs" "\<And>x y. R x y \<Longrightarrow> x \<in> set xs \<Longrightarrow> y \<in> set xs \<Longrightarrow> P y \<Longrightarrow> P x"
  shows "takeWhile P xs = filter P xs"
  using assms
proof (induction xs)
  case (Cons x xs)
  then have "takeWhile P xs = filter P xs" by auto
  moreover have "filter P xs = []" if "\<not> P x" using Cons.prems that by (auto simp: filter_empty_conv)
  ultimately show ?case by simp
qed simp

definition time_pos :: "lib \<Rightarrow> string \<times> u64 \<Rightarrow> u64 \<times> u64" where
  "time_pos L x = (from_sv L (fst x), snd x)"

context scan_env
begin

lemma created_le: "key_le Ix_created_at (to_sv L a) (to_sv L b) \<longleftrightarrow> a \<le> b"
  using key_le_time [of Ix_created_at "[]" a b] by (simp add: makeKey scan_indexes_def)

lemma created_entries:
  assumes "holds E L tree_items fs db M"
  shows "(k, l) \<in> index_entries E L db Ix_created_at \<longleftrightarrow> (\<exists>e. M l = Some e \<and> k = to_sv L (ev_created_at e))"
  using entries_event [OF assms, of k l Ix_created_at] by (simp add: event_keys_def)

lemma created_pos:
  assumes "holds E L tree_items fs db M" "x \<in> index_entries E L db Ix_created_at" "y \<in> index_entries E L db Ix_created_at"
  shows "pos_le key_le Ix_created_at x y \<longleftrightarrow> time_pos L x \<le> time_pos L y" "time_pos L x = time_pos L y \<Longrightarrow> x = y"
proof -
  obtain a b where "fst x = to_sv L a" "fst y = to_sv L b"
    using assms(2,3) created_entries [OF assms(1), of "fst x" "snd x"] created_entries [OF assms(1), of "fst y" "snd y"] by auto
  then show "pos_le key_le Ix_created_at x y \<longleftrightarrow> time_pos L x \<le> time_pos L y" "time_pos L x = time_pos L y \<Longrightarrow> x = y"
    by (auto simp: pos_le_def created_le time_pos_def less_eq_prod_simp prod_eq_iff)
qed

lemma export_entries:
  fixes since until :: u64 and bwd :: bool
  assumes "holds E L tree_items fs db M"
  defines "xs \<equiv> foreachFull E db Ix_created_at (to_sv L (if bwd then until else since)) (if bwd then MAX_U64 else 0) bwd"
  shows "map snd (takeWhile (in_range L since until bwd) xs) = exported M since until bwd"
proof -
  let ?P = "in_range L since until bwd" and ?S = "{(ev_created_at e, l) | e l. M l = Some e \<and> since \<le> ev_created_at e \<and> ev_created_at e \<le> until}"
  have xs: "set xs = {x \<in> index_entries E L db Ix_created_at. if bwd then fst (time_pos L x) \<le> until else since \<le> fst (time_pos L x)}"
    unfolding xs_def
    by (cases bwd) (auto simp: scan_set scan_set_rev pos_le_def created_le created_entries [OF assms(1)] time_pos_def)
  have sub: "set xs \<subseteq> index_entries E L db Ix_created_at" by (auto simp: xs)
  define ys where "ys = (if bwd then rev xs else xs)"
  have ys: "set ys = set xs" "distinct ys" by (simp_all add: ys_def xs_def scan_distinct)
  have "sorted_wrt (pos_le key_le Ix_created_at) ys"
    using scan_sorted scan_sorted_rev [of Ix_created_at db "to_sv L until" MAX_U64] by (simp add: ys_def xs_def sorted_wrt_rev)
  then have sorted: "sorted_wrt (\<lambda>x y. time_pos L x \<le> time_pos L y) ys"
    by (rule sorted_wrt_mono_rel [rotated]) (use created_pos(1) [OF assms(1)] sub ys(1) in blast)
  have whole: "takeWhile ?P xs = filter ?P xs"
  proof (cases bwd)
    case True
    then have "sorted_wrt (\<lambda>x y. time_pos L y \<le> time_pos L x) xs" using sorted by (simp add: ys_def sorted_wrt_rev)
    then show ?thesis by (rule takeWhile_sorted) (use True in \<open>auto simp: in_range_def time_pos_def less_eq_prod_simp dest: order.strict_implies_order intro: order_trans\<close>)
  next
    case False
    then have "sorted_wrt (\<lambda>x y. time_pos L x \<le> time_pos L y) xs" using sorted by (simp add: ys_def)
    then show ?thesis by (rule takeWhile_sorted) (use False in \<open>auto simp: in_range_def time_pos_def less_eq_prod_simp dest: order.strict_implies_order intro: order_trans\<close>)
  qed
  let ?zs = "map (time_pos L) (filter ?P ys)"
  have "sorted ?zs" using sorted by (simp add: sorted_wrt_map sorted_wrt_filter)
  moreover have "distinct ?zs"
  proof -
    have "inj_on (time_pos L) (set ys)" by (rule inj_onI) (use created_pos(2) [OF assms(1)] sub ys(1) in blast)
    then have "inj_on (time_pos L) (set (filter ?P ys))" by (rule inj_on_subset) auto
    then show ?thesis using ys(2) by (simp add: distinct_map)
  qed
  moreover have "set ?zs = ?S"
  proof -
    have "(t, l) \<in> set ?zs \<longleftrightarrow> (t, l) \<in> ?S" for t l
    proof
      assume "(t, l) \<in> set ?zs"
      then obtain k where k: "(k, l) \<in> set xs" "t = from_sv L k" "?P (k, l)" by (auto simp: ys time_pos_def)
      then obtain e where "M l = Some e" "k = to_sv L (ev_created_at e)" using sub created_entries [OF assms(1)] by blast
      with k show "(t, l) \<in> ?S" by (auto simp: xs in_range_def time_pos_def split: if_splits)
    next
      assume "(t, l) \<in> ?S"
      then obtain e where e: "M l = Some e" "t = ev_created_at e" "since \<le> t" "t \<le> until" by auto
      then have "(to_sv L t, l) \<in> set (filter ?P ys)"
        by (auto simp: ys xs created_entries [OF assms(1)] in_range_def time_pos_def)
      then show "(t, l) \<in> set ?zs" by (force simp: time_pos_def image_iff)
    qed
    then show ?thesis by (auto simp only: set_eq_iff split_paired_All)
  qed
  ultimately have "?zs = sorted_list_of_set ?S" using sorted_list_of_set.idem_if_sorted_distinct [of ?zs] by simp
  then have "map snd (filter ?P ys) = map snd (sorted_list_of_set ?S)" by (metis (no_types, lifting) list.map_comp comp_apply map_eq_conv snd_conv time_pos_def)
  then show ?thesis by (auto simp: whole exported_def ys_def rev_filter [symmetric] rev_map [symmetric] rev_swap Let_def)
qed

end

lemma exported_stored: "l \<in> set (exported M since until bwd) \<Longrightarrow> finite (dom M) \<Longrightarrow> l \<in> dom M"
proof -
  assume l: "l \<in> set (exported M since until bwd)" and fin: "finite (dom M)"
  let ?S = "{(ev_created_at e, l) | e l. M l = Some e \<and> since \<le> ev_created_at e \<and> ev_created_at e \<le> until}"
  have "?S \<subseteq> (\<lambda>l. (ev_created_at (the (M l)), l)) ` dom M"
  proof clarify
    fix e l assume "M l = Some e"
    then show "(ev_created_at e, l) \<in> (\<lambda>l. (ev_created_at (the (M l)), l)) ` dom M" by (intro image_eqI [of _ _ l]) auto
  qed
  then have "finite ?S" by (rule finite_subset) (rule finite_imageI [OF fin])
  then have "set (exported M since until bwd) = snd ` ?S" by (simp only: exported_def Let_def set_rev set_map set_sorted_list_of_set split: if_splits) simp
  with l have "l \<in> snd ` ?S" by (simp only:)
  then show "l \<in> dom M" by auto
qed

lemma map_filter_all: "\<forall>x\<in>set xs. f x = Some (g x) \<Longrightarrow> List.map_filter f xs = map g xs"
  by (induction xs) (simp_all add: List.map_filter_simps)

text \<open>
  C27. What the export command prints, the import command reads back: it hands exactly the
  events of the requested times to the writer, in the order of their times (or against it),
  as packed events with their texts or as the parsed texts.  Every event text is one line that
  ends in a brace, and the hexadecimal conversion can be undone.
\<close>

theorem export_import_roundtrip:
  assumes "scan_env L E key_le tree_items" "holds E L tree_items fs db M" "hex_ok L" "getDBVersion db \<ge> 3"
    and "\<And>l. l \<in> dom M \<Longrightarrow> getEventJson E from_sv32 decompress db l = Inr (txt l) \<and> CHR 0x0A \<notin> set (txt l) \<and>
      txt l \<noteq> [] \<and> last (txt l) = CHR ''}'' \<and> json_from_string L (txt l) = Inr (js l)"
  shows "\<exists>out. cmd_export E L from_sv32 decompress getDBVersion since until bwd fried db = Inr out \<and>
    cmd_import L fried out =
      map (\<lambda>l. if fried then ImpEvent (EventToWrite (pack_event L (the (M l))) (txt l) None) else ImpJson (js l))
        (exported M (case since of None \<Rightarrow> 0 | Some t \<Rightarrow> t) (case until of None \<Rightarrow> MAX_U64 | Some t \<Rightarrow> t) bwd)"
proof -
  let ?since = "case since of None \<Rightarrow> 0 | Some t \<Rightarrow> t" and ?until = "case until of None \<Rightarrow> MAX_U64 | Some t \<Rightarrow> t"
  let ?xs = "foreachFull E db Ix_created_at (to_sv L (if bwd then ?until else ?since)) (if bwd then MAX_U64 else 0) bwd"
  let ?ws = "takeWhile (in_range L ?since ?until bwd) ?xs" and ?ls = "exported M ?since ?until bwd"
  define line where "line l = (if fried then fried_text L (txt l) (pack_event L (the (M l))) else txt l)" for l
  have ls: "map snd ?ws = ?ls" using scan_env.export_entries [OF assms(1,2), of ?since ?until bwd] .
  have fin: "finite (dom M)" using event_env.finite_store [OF scan_env.axioms(1) [OF assms(1)] assms(2)] .
  have mem: "l \<in> dom M" if "l \<in> set ?ls" for l using exported_stored [OF that fin] .
  have one: "export_one E L from_sv32 decompress fried db l = Inr (line l @ [CHR 0x0A])" if "l \<in> set ?ls" for l
  proof -
    from mem [OF that] obtain e where "M l = Some e" by blast
    then have "lookup_Event E db l = Some (pack_event L e)" using assms(2) by (simp add: holds_def)
    with assms(5) [OF mem [OF that]] \<open>M l = Some e\<close> show ?thesis
      by (auto simp: export_one_def fried_line_def line_def fried_text_def lookupEventByLevId_def)
  qed
  have "export_walk L (export_one E L from_sv32 decompress fried db) ?since ?until bwd ?xs [] =
      Inr ([] @ concat (map (\<lambda>x. line (snd x) @ [CHR 0x0A]) ?ws))"
  proof (rule export_walk_ok, rule ballI)
    fix x assume "x \<in> set ?ws"
    then have "snd x \<in> set (map snd ?ws)" by simp
    then show "export_one E L from_sv32 decompress fried db (snd x) = Inr (line (snd x) @ [CHR 0x0A])"
      unfolding ls by (rule one)
  qed
  also have "map (\<lambda>x. line (snd x) @ [CHR 0x0A]) ?ws = map (\<lambda>l. line l @ [CHR 0x0A]) ?ls"
    unfolding ls [symmetric] by simp
  finally have walk: "export_walk L (export_one E L from_sv32 decompress fried db) ?since ?until bwd ?xs [] =
      Inr (concat (map (\<lambda>l. l @ [CHR 0x0A]) (map line ?ls)))" by (simp add: comp_def)
  have "getDBVersion db \<noteq> 0" using assms(4) by auto
  moreover have "\<not> getDBVersion db < 3" using assms(4) by (simp add: not_less)
  ultimately have exp: "cmd_export E L from_sv32 decompress getDBVersion since until bwd fried db =
      Inr (concat (map (\<lambda>l. l @ [CHR 0x0A]) (map line ?ls)))"
    unfolding cmd_export_def Let_def walk by (simp add: throw_if_def)
  have hex: "CHR 0x0A \<notin> set (to_hex L b)" for b using assms(3) by (simp add: hex_ok_def)
  have good: "CHR 0x0A \<notin> set (line l)" "import_line L fried (line l) = Some (if fried then
      ImpEvent (EventToWrite (pack_event L (the (M l))) (txt l) None) else ImpJson (js l))" if "l \<in> set ?ls" for l
  proof -
    note t = assms(5) [OF mem [OF that]]
    from mem [OF that] obtain e where e: "M l = Some e" by blast
    then have "wf_event e" using assms(2) by (simp add: holds_def)
    then have "length (pack_event L e) \<ge> 32" by (simp add: wf_event_def pack_event_def pack_def)
    from parseFried_text [OF assms(3) _ _ this, of "txt l"] t e show "import_line L fried (line l) = Some (if fried then
        ImpEvent (EventToWrite (pack_event L (the (M l))) (txt l) None) else ImpJson (js l))"
      by (simp add: import_line_def line_def)
    show "CHR 0x0A \<notin> set (line l)" using t hex by (auto simp: line_def fried_text_def fried_tag_def dest: in_set_takeD)
  qed
  have "import_lines (concat (map (\<lambda>l. l @ [CHR 0x0A]) (map line ?ls))) = map line ?ls"
    by (rule import_lines_concat) (use good(1) in auto)
  then have "cmd_import L fried (concat (map (\<lambda>l. l @ [CHR 0x0A]) (map line ?ls))) =
      List.map_filter (\<lambda>l. import_line L fried (line l)) ?ls"
    by (simp add: cmd_import_def List.map_filter_def filter_map comp_def)
  also have "\<dots> = map (\<lambda>l. if fried then ImpEvent (EventToWrite (pack_event L (the (M l))) (txt l) None) else ImpJson (js l)) ?ls"
    by (rule map_filter_all) (use good(2) in blast)
  finally show ?thesis using exp by blast
qed

section \<open>Compressing\<close>

definition same_events :: "'db env \<Rightarrow> ('db \<Rightarrow> u64 \<Rightarrow> (u64 \<times> string) set) \<Rightarrow> zstd \<Rightarrow> 'db \<Rightarrow> 'db \<Rightarrow> bool" where
  "same_events E tree_items Z db db' \<longleftrightarrow>
     lookup_Event E db' = lookup_Event E db \<and> tree_items db' = tree_items db \<and> dom (payload_get E db') = dom (payload_get E db) \<and>
     (\<forall>l. getEventJson E (z_from_sv32 Z) (z_decompress Z) db' l = getEventJson E (z_from_sv32 Z) (z_decompress Z) db l)"

text \<open>A record is faithful when the text can be read back from it.\<close>

definition faithful_val :: "zstd \<Rightarrow> string \<Rightarrow> string \<Rightarrow> bool" where
  "faithful_val Z orig v \<longleftrightarrow> bindE (decodeEventPayload (z_from_sv32 Z) (z_decompress Z) v) (\<lambda>r. Inr (fst r)) = Inr orig"

text \<open>
  What zstd promises: what was compressed with a dictionary is decompressed with it to the same
  text, if that fits the buffer, which has the size of the largest event allowed.
\<close>

definition zstd_ok :: "zstd \<Rightarrow> (u64 \<Rightarrow> string option) \<Rightarrow> nat \<Rightarrow> bool" where
  "zstd_ok Z dicts bufSize \<longleftrightarrow> (\<forall>d. z_from_sv32 Z (z_to_sv32 Z d) = d \<and> length (z_to_sv32 Z d) = 4) \<and>
     (\<forall>d dict level orig data. dicts d = Some dict \<longrightarrow> length orig \<le> bufSize \<longrightarrow>
        z_compress Z dict level orig = Inr data \<longrightarrow> z_decompress Z (ucast d) data = Inr orig)"

definition new_val :: "zstd \<Rightarrow> (u64 \<Rightarrow> string option) \<Rightarrow> dict_cmd \<Rightarrow> string \<Rightarrow> string result" where
  "new_val Z dicts c orig = (case c of
       DictDecompress \<Rightarrow> Inr (CHR 0x00 # orig)
     | DictCompress dictId level \<Rightarrow> compressed_val (z_to_sv32 Z) (z_compress Z (the (dicts dictId)) level) dictId orig)"

lemma new_val_faithful:
  assumes "zstd_ok Z dicts bufSize" "length orig \<le> bufSize" "new_val Z dicts c orig = Inr v"
    and "\<forall>d level. c = DictCompress d level \<longrightarrow> dicts d \<noteq> None"
  shows "faithful_val Z orig v"
proof (cases c)
  case DictDecompress
  then show ?thesis using assms(3) by (auto simp: new_val_def faithful_val_def decodeEventPayload_def substr_def)
next
  case (DictCompress d level)
  then obtain dict where dict: "dicts d = Some dict" using assms(4) by blast
  obtain data where data: "z_compress Z dict level orig = Inr data"
    and v: "v = (if length data + 4 < length orig then CHR 0x01 # z_to_sv32 Z (ucast d) @ data else CHR 0x00 # orig)"
    using assms(3) by (auto simp: new_val_def DictCompress dict compressed_val_def bindE_eq_Inr)
  have "z_decompress Z (ucast d) data = Inr orig" using assms(1,2) dict data by (auto simp: zstd_ok_def)
  moreover have "z_from_sv32 Z (z_to_sv32 Z (ucast d)) = ucast d" "length (z_to_sv32 Z (ucast d)) = 4"
    using assms(1) by (auto simp: zstd_ok_def)
  ultimately show ?thesis by (simp add: v faithful_val_def decodeEventPayload_def substr_def)
qed

definition has_val :: "'db env \<Rightarrow> (string \<Rightarrow> string result) \<Rightarrow> 'db \<Rightarrow> u64 \<Rightarrow> string \<Rightarrow> bool" where
  "has_val E newVal db l t \<longleftrightarrow> (\<exists>v. newVal t = Inr v \<and> payload_get E db l = Some v)"

context event_env
begin

lemma same_put:
  assumes "same_events E tree_items Z db db'" "getEventJson E (z_from_sv32 Z) (z_decompress Z) db' l = Inr orig" "faithful_val Z orig v"
  shows "same_events E tree_items Z db (payload_put E db' l v)"
proof -
  have "payload_get E db' l \<noteq> None" using assms(2) by (auto simp: getEventJson_def split: option.splits)
  then have "dom (payload_get E (payload_put E db' l v)) = dom (payload_get E db')" by (auto simp: put_payload)
  moreover have "getEventJson E (z_from_sv32 Z) (z_decompress Z) (payload_put E db' l v) k =
      getEventJson E (z_from_sv32 Z) (z_decompress Z) db' k" for k
    using assms(2,3) by (auto simp: getEventJson_def put_payload faithful_val_def)
  ultimately show ?thesis using assms(1) by (simp add: same_events_def put_frame)
qed

lemma dict_loop_same:
  fixes Z :: zstd
  defines "J \<equiv> getEventJson E (z_from_sv32 Z) (z_decompress Z)"
  assumes "same_events E tree_items Z db0 db" "same_events E tree_items Z db0 disk"
    and val: "\<And>l t v. J db0 l = Inr t \<Longrightarrow> newVal t = Inr v \<Longrightarrow> faithful_val Z t v"
    and "dict_loop E J newVal ls n disk db = (db', r)"
  shows "same_events E tree_items Z db0 db' \<and>
    (r = Inr () \<longrightarrow> (\<forall>l t. J db0 l = Inr t \<longrightarrow> l \<in> set ls \<or> has_val E newVal db l t \<longrightarrow> has_val E newVal db' l t))"
  using assms(2,3,5)
proof (induction ls arbitrary: n disk db)
  case Nil
  then show ?case by simp
next
  case (Cons l ls)
  have J: "J db k = J db0 k" for k using Cons.prems(1) by (simp add: same_events_def J_def)
  show ?case
  proof (cases "J db l")
    case (Inl e)
    then have "J db0 l \<noteq> Inr t" for t using J by simp
    moreover have "db' = disk \<and> r = Inl UB \<or> dict_loop E J newVal ls n disk db = (db', r)"
      using Cons.prems(3) Inl by (cases e) simp_all
    ultimately show ?thesis using Cons.prems(2) Cons.IH [OF Cons.prems(1,2)] by (elim disjE) (simp, metis set_ConsD)
  next
    case (Inr t)
    show ?thesis
    proof (cases "newVal t")
      case (Inl e)
      then show ?thesis using Cons.prems Inr by auto
    next
      case v: (Inr v)
      let ?db = "payload_put E db l v"
      have t0: "J db0 l = Inr t" using J Inr by simp
      have put: "same_events E tree_items Z db0 ?db"
        by (rule same_put [OF Cons.prems(1) Inr [unfolded J_def] val [OF t0 v]])
      obtain disk' n' where step: "same_events E tree_items Z db0 disk'" "dict_loop E J newVal ls n' disk' ?db = (db', r)"
        using Cons.prems(2,3) put Inr v by (auto simp: Let_def split: if_splits)
      have kept_val: "has_val E newVal ?db k t'" if "J db0 k = Inr t'" "k = l \<or> has_val E newVal db k t'" for k t'
        using that t0 v by (auto simp: has_val_def put_payload)
      show ?thesis using Cons.IH [OF put step] kept_val by (metis set_ConsD)
    qed
  qed
qed

end

section \<open>Properties of the compression\<close>

lemma same_events_holds:
  "same_events E tree_items Z db db' \<Longrightarrow> holds E L tree_items fs db M \<Longrightarrow> holds E L tree_items fs db' M"
  by (simp add: same_events_def holds_def)

lemma same_events_refl: "same_events E tree_items Z db db"
  by (simp add: same_events_def)

lemma dict_rewrite_same:
  assumes "event_env L E key_le tree_items" "zstd_ok Z (dicts db) bufSize"
    and "\<And>l t. getEventJson E (z_from_sv32 Z) (z_decompress Z) db l = Inr t \<Longrightarrow> length t \<le> bufSize"
    and "dict_rewrite E Z dicts c ls db = (db', r)"
  shows "same_events E tree_items Z db db' \<and>
    (r = Inr () \<longrightarrow> (\<forall>l\<in>set ls. \<forall>t. getEventJson E (z_from_sv32 Z) (z_decompress Z) db l = Inr t \<longrightarrow>
       has_val E (new_val Z (dicts db) c) db' l t))"
proof -
  let ?J = "getEventJson E (z_from_sv32 Z) (z_decompress Z)"
  have loop: ?thesis if found: "\<forall>d level. c = DictCompress d level \<longrightarrow> dicts db d \<noteq> None"
    and run: "dict_loop E ?J (new_val Z (dicts db) c) ls 0 db db = (db', r)"
    using event_env.dict_loop_same [OF assms(1) same_events_refl same_events_refl _ run]
      new_val_faithful [OF assms(2) assms(3) _ found] by blast
  show ?thesis
  proof (cases c)
    case DictDecompress
    then show ?thesis using assms(4) by (intro loop) (simp_all add: dict_rewrite_def new_val_def [abs_def])
  next
    case (DictCompress d level)
    consider "d = 0" | "d \<noteq> 0" "dicts db d = None" | dict where "d \<noteq> 0" "dicts db d = Some dict" by blast
    then show ?thesis
    proof cases
      case 3
      then show ?thesis using assms(4) DictCompress by (intro loop) (simp_all add: dict_rewrite_def new_val_def [abs_def])
    qed (use assms(4) DictCompress same_events_refl in \<open>auto simp: dict_rewrite_def\<close>)
  qed
qed

text \<open>
  C29. The compress and decompress commands return, and however they end, the database
  holds the same events with the same texts as before; when they end well, the record of every
  event that the filter selects is the compressed one, or the plain text.
\<close>

theorem cmd_dict_keeps_events:
  assumes "scan_env L E key_le tree_items" "holds E L tree_items fs db M" "lookup_Event E db 0 = None" "small_times M"
    and "json_from_string L (case filter_arg of None \<Rightarrow> ''{}'' | Some t \<Rightarrow> t) = Inr (JObject kvs)"
    and "NostrFilter L (JObject kvs) MAX_U64 = Inr f" "distinct (map fst kvs)" "few_values f"
    and "holds E L tree_items fs1 db1 M1" "zstd_ok Z (dicts db1) bufSize"
    and "\<forall>l t. getEventJson E (z_from_sv32 Z) (z_decompress Z) db1 l = Inr t \<longrightarrow> length t \<le> bufSize"
  shows "\<exists>N db2 r. (\<forall>n\<ge>N. cmd_dict n E L Z dicts clock c filter_arg db db1 = Some (db2, r)) \<and>
    holds E L tree_items fs1 db2 M1 \<and>
    (\<forall>l. getEventJson E (z_from_sv32 Z) (z_decompress Z) db2 l = getEventJson E (z_from_sv32 Z) (z_decompress Z) db1 l) \<and>
    (r = Inr () \<longrightarrow> (\<forall>l\<in>set (chosen L M kvs f). \<forall>t. getEventJson E (z_from_sv32 Z) (z_decompress Z) db1 l = Inr t \<longrightarrow>
       has_val E (new_val Z (dicts db1) c) db2 l t))"
proof -
  obtain N where N: "\<forall>n\<ge>N. run_query n E L clock db (JObject kvs) (\<lambda>levId levIds. Inr (levIds @ [levId])) MAX_U64 [] =
      Some (Inr (fold (\<lambda>levId levIds. levIds @ [levId]) (chosen L M kvs f) []))"
    using run_query_exact [OF assms(1-4,6-8), of clock "\<lambda>levId levIds. Inr (levIds @ [levId])" "[]"]
    unfolding foldE_Inr by (elim exE)
  have "fold (\<lambda>levId levIds. levIds @ [levId]) ls acc = acc @ ls" for ls acc :: "u64 list"
    by (induction ls arbitrary: acc) auto
  then have ids: "fold (\<lambda>levId levIds. levIds @ [levId]) (chosen L M kvs f) [] = chosen L M kvs f" by simp
  obtain db2 r where run: "dict_rewrite E Z dicts c (chosen L M kvs f) db1 = (db2, r)" by fastforce
  have all: "\<forall>n\<ge>N. cmd_dict n E L Z dicts clock c filter_arg db db1 = Some (db2, r)"
    using N run by (simp add: cmd_dict_def dict_query_def assms(5) ids)
  have same: "same_events E tree_items Z db1 db2 \<and>
    (r = Inr () \<longrightarrow> (\<forall>l\<in>set (chosen L M kvs f). \<forall>t. getEventJson E (z_from_sv32 Z) (z_decompress Z) db1 l = Inr t \<longrightarrow>
       has_val E (new_val Z (dicts db1) c) db2 l t))"
    by (rule dict_rewrite_same [OF scan_env.axioms(1) [OF assms(1)] assms(10) _ run]) (use assms(11) in blast)
  have texts: "\<forall>l. getEventJson E (z_from_sv32 Z) (z_decompress Z) db2 l = getEventJson E (z_from_sv32 Z) (z_decompress Z) db1 l"
    using conjunct1 [OF same] by (simp add: same_events_def)
  show ?thesis
    by (intro exI [of _ N], intro exI [of _ db2], intro exI [of _ r], intro conjI)
      (rule all, rule same_events_holds [OF conjunct1 [OF same] assms(9)], rule texts, rule conjunct2 [OF same])
qed

section \<open>Examples\<close>

definition tool_parse :: "string \<Rightarrow> json result" where
  "tool_parse s = (if s = ''{}'' then Inr (JObject []) else Inr (JString s))"

definition tool_lib :: lib where
  "tool_lib = le_lib\<lparr>json_from_string := tool_parse\<rparr>"

lemma tool_lib_sel [simp]:
  "to_sv tool_lib = to_sv le_lib" "from_sv tool_lib = from_sv le_lib" "from_hex tool_lib = from_hex le_lib"
  "to_hex tool_lib = to_hex le_lib" "json_from_string tool_lib = tool_parse"
  by (simp_all add: tool_lib_def)

lemma tool_fields [simp]:
  "packed_created_at tool_lib = packed_created_at le_lib" "packed_kind tool_lib = packed_kind le_lib"
  "packed_expiration tool_lib = packed_expiration le_lib" "pack_event tool_lib = pack_event le_lib"
  by (simp_all add: fun_eq_iff packed_created_at_def packed_kind_def packed_expiration_def pack_event_def pack_def)

lemma tool_index: "indexPrelude E tool_lib buf = indexPrelude E le_lib buf"
proof -
  have "index_tag E tool_lib p = index_tag E le_lib p" for p unfolding index_tag_def [abs_def] tool_fields ..
  then show ?thesis unfolding indexPrelude_def tool_fields tool_lib_sel by simp
qed

interpretation tool: scan_env tool_lib mem_env mem_key_le mem_tree_items
proof -
  have same: "index_entries mem_env tool_lib = index_entries mem_env le_lib" unfolding index_entries_def [abs_def] tool_index ..
  from mem_scan.scan_env_axioms show "scan_env tool_lib mem_env mem_key_le mem_tree_items"
    unfolding scan_env_def scan_env_axioms_def event_env_def event_env_axioms_def sv_codec_def tool_lib_sel same .
qed

lemma tool_past_db:
  "freshenCache mem_env tool_lib past_db new_filter_cache = Inr new_filter_cache"
  "holds mem_env tool_lib mem_tree_items (fc_filters new_filter_cache) past_db [1 \<mapsto> ev_past, 2 \<mapsto> ev_old]"
  "lookup_Event mem_env past_db 0 = None" "small_times [1 \<mapsto> ev_past, 2 \<mapsto> ev_old]"
proof -
  show "freshenCache mem_env tool_lib past_db new_filter_cache = Inr new_filter_cache"
    by (simp add: freshenCache_def past_db_def new_filter_cache_def)
  show "holds mem_env tool_lib mem_tree_items (fc_filters new_filter_cache) past_db [1 \<mapsto> ev_past, 2 \<mapsto> ev_old]"
    using past_db_facts(2) by (simp add: holds_def new_filter_cache_def)
  show "lookup_Event mem_env past_db 0 = None" by (simp add: past_db_def)
  show "small_times [1 \<mapsto> ev_past, 2 \<mapsto> ev_old]" by (auto simp: small_times_def ev_past_def ev_old_def split: if_splits)
qed

definition all_filter :: nostr_filter where
  "all_filter = empty_filter\<lparr>nf_indexOnlyScans := True\<rparr>"

theorem cmd_delete_exact_witness:
  "\<exists>n db2. cmd_delete n mem_env tool_lib (\<lambda>_. 0) 60 (Some 40) [] False past_db past_db = Some (Inr db2) \<and>
    lookup_Event mem_env db2 1 = None \<and> lookup_Event mem_env db2 2 = Some (pack_event le_lib ev_old)"
proof -
  let ?M = "[1 \<mapsto> ev_past, 2 \<mapsto> ev_old] :: store"
  have args: "delete_args tool_lib (Some 40) [] []" by (simp add: delete_args_def tool_parse_def)
  have f: "NostrFilter tool_lib (JObject []) MAX_U64 = Inr all_filter"
    by (simp add: NostrFilter_def all_filter_def empty_filter_def throw_if_def)
  have few: "few_values all_filter" by (simp add: few_values_def all_filter_def empty_filter_def)
  have "{(ev_created_at e, l) | e l. ?M l = Some e \<and> nip01_match tool_lib e [] \<and> old_enough 60 (Some 40) e} = {(10, 1)}"
    by (auto simp: nip01_match_def old_enough_def ev_past_def ev_old_def split: if_splits)
  then have sel: "to_delete tool_lib 60 (Some 40) ?M [] = [1]"
    by (simp add: to_delete_def asked_limit_def Suc_le_eq unat_gt_0)
  have "\<exists>N db2. (\<forall>n\<ge>N. cmd_delete n mem_env tool_lib (\<lambda>_. 0) 60 (Some 40) [] False past_db past_db = Some (Inr db2) \<and>
      cmd_delete n mem_env tool_lib (\<lambda>_. 0) 60 (Some 40) [] True past_db past_db = Some (Inr past_db)) \<and>
      holds mem_env tool_lib mem_tree_items (fc_filters new_filter_cache) db2 (?M |` (- {1})) \<and> consistent (?M |` (- {1}))"
    using cmd_delete_exact [OF tool.scan_env_axioms tool_past_db(2,3,4) args f _ few tool_past_db(1,2) past_db_facts(3), of "\<lambda>_. 0" 60]
    by (simp add: sel)
  then obtain N db2 where run: "cmd_delete N mem_env tool_lib (\<lambda>_. 0) 60 (Some 40) [] False past_db past_db = Some (Inr db2)"
    and holds: "holds mem_env tool_lib mem_tree_items (fc_filters new_filter_cache) db2 (?M |` (- {1}))" by blast
  from holds have "lookup_Event mem_env db2 = (\<lambda>l. map_option (pack_event tool_lib) ((?M |` (- {1})) l))"
    unfolding holds_def by (rule conjunct1)
  then have "lookup_Event mem_env db2 1 = None" "lookup_Event mem_env db2 2 = Some (pack_event le_lib ev_old)" by simp_all
  with run show ?thesis by blast
qed

lemma hex_digit_value: "hex_value (hex_digit n) = Some (n mod 16)"
proof -
  have "list_all (\<lambda>m. hex_value (''0123456789abcdef'' ! m) = Some m) [0..<16]" by code_simp
  then show ?thesis by (simp add: hex_digit_def list_all_iff)
qed

lemma hex_digit_plain: "hex_digit n \<in> set ''0123456789abcdef''"
  unfolding hex_digit_def by (rule nth_mem) simp

lemma hex_ok_tool: "hex_ok tool_lib"
proof -
  have undo: "le_from_hex (le_to_hex b) = Inr b" for b
  proof (induction b)
    case (Cons c b)
    have "(of_char c :: nat) mod 256 = of_char c" by simp
    then have "(of_char c :: nat) < 256" by (metis mod_less_divisor zero_less_numeral)
    then have "16 * (of_char c div 16 mod 16) + of_char c mod 16 = (of_char c :: nat)"
    proof -
      assume less: "(of_char c :: nat) < 256"
      then have "(of_char c :: nat) div 16 < 16" by (simp add: less_mult_imp_div_less)
      then show ?thesis by simp
    qed
    with Cons show ?case by (simp add: le_to_hex_def hex_digit_value)
  qed (simp add: le_to_hex_def)
  have "length (le_to_hex b) = 2 * length b" for b by (induction b) (simp_all add: le_to_hex_def)
  moreover have "x \<in> set ''0123456789abcdef''" if "x \<in> set (le_to_hex b)" for x b
    using that hex_digit_plain by (auto simp: le_to_hex_def)
  then have "CHR 0x22 \<notin> set (le_to_hex b)" "CHR 0x0A \<notin> set (le_to_hex b)" for b by fastforce+
  ultimately show ?thesis using undo by (simp add: hex_ok_def le_lib_def)
qed

theorem export_import_roundtrip_witness:
  "\<exists>out. cmd_export mem_env tool_lib (\<lambda>_. 0) (\<lambda>_ _. Inl UB) (\<lambda>_. 3) None (Some 200) True True past_db = Inr out \<and>
    cmd_import tool_lib True out =
      [ImpEvent (EventToWrite (pack_event le_lib ev_old) ''{}'' None), ImpEvent (EventToWrite (pack_event le_lib ev_past) ''{}'' None)]"
proof -
  let ?M = "[1 \<mapsto> ev_past, 2 \<mapsto> ev_old] :: store"
  have "{(ev_created_at e, l) | e l. ?M l = Some e \<and> 0 \<le> ev_created_at e \<and> ev_created_at e \<le> 200} = {(10, 1), (100, 2)}"
  proof -
    have "ev_created_at ev_past = 10" "ev_created_at ev_old = 100" by (simp_all add: ev_past_def ev_old_def)
    then show ?thesis by (auto split: if_splits) (intro exI [of _ ev_old], intro exI [of _ 2], simp)
  qed
  moreover have "sorted_list_of_set {(10, 1), (100, 2)} = [(10 :: u64, 1 :: u64), (100, 2)]"
    by (simp add: less_eq_prod_simp)
  ultimately have sel: "exported ?M 0 200 True = [2, 1]" by (simp add: exported_def)
  have "l \<in> dom ?M \<Longrightarrow> getEventJson mem_env (\<lambda>_. 0) (\<lambda>_ _. Inl UB) past_db l = Inr ''{}'' \<and> CHR 0x0A \<notin> set ''{}'' \<and>
      ''{}'' \<noteq> [] \<and> last ''{}'' = CHR ''}'' \<and> json_from_string tool_lib ''{}'' = Inr (JObject [])" for l
    by (auto simp: past_db_def getEventJson_def decodeEventPayload_def substr_def tool_parse_def split: if_splits)
  from export_import_roundtrip [OF tool.scan_env_axioms tool_past_db(2) hex_ok_tool _ this,
      where getDBVersion = "\<lambda>_. 3" and since = None and until = "Some 200" and bwd = True and fried = True]
  show ?thesis by (simp add: sel)
qed

definition long_text :: string where
  "long_text = [CHR ''{'', CHR 0x22] @ ''content'' @ [CHR 0x22, CHR '':'', CHR 0x22, CHR 0x22, CHR ''}'']"

definition toy_zstd :: zstd where
  "toy_zstd = \<lparr>z_from_sv32 = (\<lambda>s. word_of_nat (le_value s)), z_to_sv32 = (\<lambda>d. le_bytes 4 (unat d)),
     z_compress = (\<lambda>dict level s. Inr (if s = long_text then [] else CHR 0x01 # s)),
     z_decompress = (\<lambda>d s. Inr (if s = [] then long_text else tl s))\<rparr>"

definition long_db :: mem_db where
  "long_db = one_db\<lparr>md_payloads := [(1, CHR 0x00 # long_text)]\<rparr>"

theorem cmd_dict_keeps_events_witness:
  "\<exists>n db2 r. cmd_dict n mem_env tool_lib toy_zstd (\<lambda>_ d. if d = 1 then Some ''dict'' else None) (\<lambda>_. 0) (DictCompress 1 3) None long_db long_db =
      Some (db2, r) \<and> getEventJson mem_env (z_from_sv32 toy_zstd) (z_decompress toy_zstd) db2 1 = Inr long_text"
proof -
  let ?dicts = "\<lambda>_ d. if d = 1 then Some ''dict'' else None" and ?J = "getEventJson mem_env (z_from_sv32 toy_zstd) (z_decompress toy_zstd)"
  have f: "NostrFilter tool_lib (JObject []) MAX_U64 = Inr any_filter"
    by (simp add: NostrFilter_def any_filter_def Let_def throw_if_def empty_filter_def)
  have few: "few_values any_filter" by (simp add: few_values_def any_filter_def empty_filter_def)
  have holds: "holds mem_env tool_lib mem_tree_items [] long_db [1 \<mapsto> ev_old]"
    using one_db_facts(4) by (simp add: holds_def long_db_def one_db_def fun_eq_iff)
  have db: "lookup_Event mem_env long_db 0 = None" "small_times [1 \<mapsto> ev_old]"
    by (simp_all add: long_db_def one_db_def small_times_def ev_old_def split: if_splits)
  have parse: "json_from_string tool_lib (case None of None \<Rightarrow> ''{}'' | Some t \<Rightarrow> t) = Inr (JObject [])" by (simp add: tool_parse_def)
  have zok: "zstd_ok toy_zstd (?dicts long_db) (length long_text)"
  proof -
    have "word_of_nat (le_value (le_bytes 4 (unat d))) = d" for d :: u32
    proof -
      have "unat d < 2 ^ LENGTH(32)" by (rule unsigned_less)
      then show ?thesis using le_value_le_bytes [of "unat d" 4] by (simp del: le_bytes.simps)
    qed
    then show ?thesis by (auto simp: zstd_ok_def toy_zstd_def simp del: le_bytes.simps split: if_splits)
  qed
  have stored_text: "?J long_db l = (if l = 1 then Inr long_text else Inl (Herr ''couldn't find event in EventPayload''))" for l
    by (simp add: long_db_def getEventJson_def decodeEventPayload_def substr_def)
  have size: "\<forall>l t. ?J long_db l = Inr t \<longrightarrow> length t \<le> length long_text" by (simp add: stored_text)
  note keeps = cmd_dict_keeps_events [where L = tool_lib and E = mem_env and Z = toy_zstd and dicts = ?dicts and db = long_db and
      ?db1.0 = long_db and filter_arg = None and kvs = "[]" and f = any_filter and bufSize = "length long_text" and
      c = "DictCompress 1 3" and clock = "\<lambda>_. 0" and fs = "[]" and ?fs1.0 = "[]"]
  have "\<exists>N db2 r. (\<forall>n\<ge>N. cmd_dict n mem_env tool_lib toy_zstd ?dicts (\<lambda>_. 0) (DictCompress 1 3) None long_db long_db = Some (db2, r)) \<and>
      (\<forall>l. ?J db2 l = ?J long_db l)"
    using keeps [OF tool.scan_env_axioms holds db parse f _ few holds zok size] by (simp only: list.map distinct.simps simp_thms) blast
  then obtain N db2 r where "cmd_dict N mem_env tool_lib toy_zstd ?dicts (\<lambda>_. 0) (DictCompress 1 3) None long_db long_db = Some (db2, r)"
    "?J db2 1 = ?J long_db 1" by blast
  then show ?thesis using stored_text [of 1] by (intro exI [of _ N], intro exI [of _ db2], intro exI [of _ r]) simp
qed

end
