(* ===== verification/Spec2Isabelle.thy ===== *)
theory Spec2Isabelle
  imports Nostr_Filter Rate_Limiter Http_Metrics Misc_Utils Http_Text Event_Write Http_Results Monitor_Results Relay_Gates Req_Safety Req_Monitor Relay_Cron Writer_Pipeline Relay_Negentropy Relay_Websocket Db_Tools
begin

text \<open>
  Verification of a nostr relay with an HTTP API, \<^verbatim>\<open>strfry-http\<close>: C++ code under
  \<^verbatim>\<open>src/src\<close>, on top of LMDB (through the generated \<^verbatim>\<open>golpe\<close> layer, whose schema is
  \<^verbatim>\<open>src/golpe.yaml\<close>).

  \<^bold>\<open>The program.\<close>  Clients send events, queries and subscriptions over websockets, or events and
  queries over HTTP.  The websocket thread and the HTTP server hand messages to the ingester
  threads; these parse and verify them and hand events to the writer and queries to the
  worker threads; the writer asks a write policy plugin, writes to the database and reports the
  outcome to the client or to the HTTP request that waits for it; a worker answers a query from
  the database in time slices and, when it is through, hands the subscription to a monitor
  thread, which sends it the events that arrive later.

  \<^bold>\<open>The theories\<close>, from the bottom up, with the sources they model:

  \<^item> \<open>Strfry_Prelude\<close>: results with the exceptions of the code (\<open>Herr\<close> thrown by the sources
    themselves, \<open>LibError\<close> by a library, \<open>UB\<close> where the language leaves the outcome open), JSON
    values and their accessors, little-endian encodings (locale \<open>sv_codec\<close>), string functions
    of the standard library, and the lemmas on \<open>bindE\<close>, \<open>foldE\<close>, lists and words that all
    others use.
  \<^item> \<open>Packed_Event\<close> (\<^verbatim>\<open>PackedEvent.h\<close>, \<^verbatim>\<open>Bytes32.h\<close>): the packed binary summary of an event;
    what the builders write the view reads back.
  \<^item> \<open>Filters\<close>, \<open>Nostr_Filter\<close> (\<^verbatim>\<open>filters.h\<close>): the compiled sets and filters; the verdict of a
    compiled filter on a packed event is that of NIP-01 on the JSON text.
  \<^item> \<open>Misc_Utils\<close> (\<^verbatim>\<open>misc.cpp\<close>, \<^verbatim>\<open>Subscription.h\<close>, \<^verbatim>\<open>jsonParseUtils.h\<close>).
  \<^item> \<open>Events\<close>, \<open>Event_Store\<close>, \<open>Event_Write\<close> (\<^verbatim>\<open>events.h\<close>, \<^verbatim>\<open>events.cpp\<close>,
    \<^verbatim>\<open>NegentropyFilterCache.h\<close>, the index keys of \<^verbatim>\<open>src/golpe.yaml\<close>): parsing and verifying
    events, the database with its indexes, writing and deleting.  The database is a parameter,
    a record \<open>env\<close> of the functions that the sources call, and the locale \<open>event_env\<close> states the
    laws of LMDB and of the generated layer; \<open>mem_env\<close>, a database in memory, satisfies them.
    \<open>writeEvents\<close> refines an abstract store, a finite map from level ids to events with the rules
    of NIP-01 and NIP-09.
  \<^item> \<open>Db_Query\<close>, \<open>Query_Results\<close>, \<open>Query_Exact\<close>, \<open>Query_Answer\<close> (\<^verbatim>\<open>DBQuery.h\<close>): scans over an
    index with a cursor for each value, merged by time, paused and resumed; a query returns, and
    delivers exactly the newest matching events.  The locale \<open>scan_env\<close> extends \<open>event_env\<close> by
    the laws of walking an index backwards.
  \<^item> \<open>Query_Scheduler\<close>, \<open>Scheduler_Live\<close> (\<^verbatim>\<open>QueryScheduler.h\<close>): the queries of many clients as
    objects on a heap; no dangling pointer, no leak, and every query comes to its end.  The
    locale \<open>query_owner\<close> is the contract of the thread that owns a scheduler.
  \<^item> \<open>Active_Monitors\<close>, \<open>Monitor_Index\<close>, \<open>Monitor_Ops\<close>, \<open>Monitor_Results\<close> (\<^verbatim>\<open>ActiveMonitors.h\<close>):
    the indexes over the filters of live subscriptions; they hold what they should in every
    reachable state, and a new event reaches exactly the subscriptions that a plain test selects.
  \<^item> \<open>Relay_Server\<close> (\<^verbatim>\<open>RelayServer.h\<close>, \<^verbatim>\<open>ThreadPool.h\<close>, \<^verbatim>\<open>RelayIngester.cpp\<close>), \<open>Relay_Writer\<close>
    (\<^verbatim>\<open>RelayWriter.cpp\<close>, \<^verbatim>\<open>PluginEventSifter.h\<close>, the event processor of \<^verbatim>\<open>cmd_relay.cpp\<close>),
    \<open>Relay_Results\<close>, \<open>Relay_Gates\<close>: one round of each thread as a function of the messages it
    takes; every event is answered, the answer is true of the database, and only vetted events
    get there.
  \<^item> \<open>Req_Worker\<close>, \<open>Req_Results\<close>, \<open>Req_Safety\<close> (\<^verbatim>\<open>RelayReqWorker.cpp\<close>): a REQ is answered with
    exactly the right events and EOSE, and, whatever the messages, everybody is answered.
  \<^item> \<open>Req_Monitor\<close> (\<^verbatim>\<open>RelayReqMonitor.cpp\<close>): the thread that feeds live subscriptions; over any
    history of writes and wake-ups a subscription gets each matching event once, in order,
    from the point where the worker left off.
  \<^item> \<open>Relay_Cron\<close> (\<^verbatim>\<open>RelayCron.cpp\<close>): the job that removes expired and old ephemeral events.
  \<^item> \<open>Relay_Negentropy\<close> (\<^verbatim>\<open>RelayNegentropy.cpp\<close>): the sessions of the set reconciliation protocol.
    The negentropy library is a parameter \<open>neg_lib\<close>, the locale \<open>neg_vector\<close> states what its
    vector storage promises, and the thread is an owner of a scheduler (\<open>query_owner\<close>).
  \<^item> \<open>Relay_Websocket\<close> (\<^verbatim>\<open>RelayWebsocket.cpp\<close>): the thread that talks to the clients, as a run of
    the callbacks of the websocket library; it refines a plain list of open connections.
  \<^item> \<open>Writer_Pipeline\<close> (\<^verbatim>\<open>WriterPipeline.h\<close>): the validator and the writer thread of the mesh and
    import commands, with a step relation for the interleaving of the two and their client;
    nothing that was handed over is lost, and a flush ends.  The locale \<open>counted_env\<close> adds to
    the laws of the database that what was written can be found.
  \<^item> \<open>Db_Tools\<close> (\<^verbatim>\<open>apps/dbutils\<close>): the commands scan, delete, export, import and dict; exporting
    and importing is a round trip, deleting is exact, compressing changes no text.
  \<^item> \<open>Rate_Limiter\<close>, \<open>Http_Metrics\<close>, \<open>Http_Text\<close>, \<open>Http_Server\<close>, \<open>Http_Results\<close>
    (\<^verbatim>\<open>RateLimiter.h\<close>, \<^verbatim>\<open>RateLimiter.cpp\<close>, \<^verbatim>\<open>HttpMetrics.h\<close>, \<^verbatim>\<open>HttpServer.h\<close>,
    \<^verbatim>\<open>HttpServer.cpp\<close>, \<^verbatim>\<open>RequestLogger.h\<close>): the HTTP side.  The locale \<open>admission\<close> holds the
    counting argument of token buckets, used for the limiter and for the whole server.  Queries
    over HTTP are answered exactly; a batch is accepted up to the first event that fails; a read
    by id uses the stored text after its transaction has ended.

  \<^bold>\<open>Conventions.\<close>  A thread is one round of its loop.  The threads of the relay share nothing but
  inboxes, promises and the database, so that an interleaving of threads is a sequence of
  rounds; a round sees the database as its transaction does.  A \<^verbatim>\<open>std::promise\<close> is a number.
  Exceptions are values of a sum type, and an exception that leaves a round ends the process.
  Loops over data are structural; the loops of scans and queries, which a clock may interrupt,
  take fuel, \<open>None\<close> means that it ran out, and the theorems say that some fuel is enough, for
  all larger amounts too.  Clocks are sequences of readings.  \<^verbatim>\<open>uint64_t\<close> is \<open>64 word\<close>, and the
  theorems state where they need that nothing overflows.  The doubles of the rate limiter are
  reals.  The order in which a hash map is walked is that of insertion, \<^verbatim>\<open>std::sort\<close> is taken to
  be stable; no theorem is about an order that depends on either.  JSON parsing and printing,
  hex, hashes, signatures, zstd, \<^verbatim>\<open>inet_ntop\<close> and the operating system below the plugin are
  parameters with the laws that a theorem needs as hypotheses.  Log lines are left out.

  The steps of the writer pipeline have no fuel: \<open>steps_left\<close> counts the steps that remain
  until a flush is through.

  \<^bold>\<open>Not modelled\<close>: starting and stopping servers and threads (\<^verbatim>\<open>cmd_relay.cpp\<close> apart from the
  event processor, \<^verbatim>\<open>RelaySignalHandler.cpp\<close>, \<^verbatim>\<open>HttpServer::start\<close> and \<^verbatim>\<open>stop\<close>,
  \<^verbatim>\<open>onAppStartup.cpp\<close>), the client side of websockets and the mesh commands, event loops of the
  websocket library around parts that are modelled (\<^verbatim>\<open>WSConnection.h\<close>, \<^verbatim>\<open>apps/mesh\<close>), the
  database commands compact, info, monitor and negentropy and the training of dictionaries,
  the cache of zstd dictionaries (\<^verbatim>\<open>Decompressor.h\<close>), and timers and file watchers, of which
  only the times matter here.
\<close>

end
